(* ===== verification/Prelude.thy ===== *)
theory Prelude
  imports Main "HOL-Library.Word"
begin

text \<open>
  Shared vocabulary of the development: the machine integers of the C sources, byte
  addressed memory, rounding to a power of two, and the list facts that several
  components use (insertion and removal by index in a fixed array, disjoint spans).
\<close>

unbundle bit_operations_syntax

section \<open>Machine types\<close>

type_synonym u8 = "8 word"
type_synonym u16 = "16 word"
type_synonym u32 = "32 word"
type_synonym u64 = "64 word"

text \<open>Byte addressed memory. Addresses are natural numbers; the code never computes an
  address past the end of an object.\<close>

type_synonym mem = "nat \<Rightarrow> u8"

named_theorems word_nat \<open>rewriting word operations into operations on natural numbers\<close>
named_theorems arr_simps \<open>facts on fixed arrays with a live prefix\<close>

section \<open>Words as natural numbers\<close>

lemma and_not_mask_push_drop: "(x::'a::len word) AND NOT (mask k) = push_bit k (drop_bit k x)"
  by (rule bit_eqI) (auto simp: bit_simps)

lemma unat_push_drop: "unat (push_bit k (drop_bit k (x::'a::len word))) = unat x div 2 ^ k * 2 ^ k"
proof -
  have "unat x div 2 ^ k * 2 ^ k \<le> unat x" by simp
  also have "unat x < 2 ^ LENGTH('a)" by simp
  finally have "unat x div 2 ^ k * 2 ^ k < 2 ^ LENGTH('a)" .
  then show ?thesis
    by (simp only: unsigned_push_bit_eq unat_drop_bit_eq) (simp add: push_bit_eq_mult drop_bit_eq_div take_bit_nat_eq_self)
qed

lemma unat_and_not_mask: "unat ((x::'a::len word) AND NOT (mask k)) = unat x div 2 ^ k * 2 ^ k"
  by (simp add: and_not_mask_push_drop unat_push_drop)

lemma unat_add_no_wrap [word_nat]:
  "unat a + unat b < 2 ^ LENGTH('a) \<Longrightarrow> unat (a + b) = unat a + unat (b :: 'a::len word)"
  by (simp add: unat_add_lem)

lemma unat_sub_no_wrap [word_nat]:
  "unat b \<le> unat a \<Longrightarrow> unat (a - b) = unat a - unat (b :: 'a::len word)"
  by (simp add: unat_sub word_le_nat_alt)

lemma u64_bound: "unat (x :: u64) < 18446744073709551616"
  using unsigned_less [of x] by simp

lemma add_wrap_iff:
  "a + b < a \<longleftrightarrow> 2 ^ LENGTH('a) \<le> unat a + unat (b :: 'a::len word)"
proof -
  have "unat b < 2 ^ LENGTH('a)" "unat a < 2 ^ LENGTH('a)" by simp_all
  then show ?thesis unfolding word_less_nat_alt unat_plus_if' by arith
qed

section \<open>Spans of addresses\<close>

text \<open>A span is a start address and a length. Two spans are apart when they share no
  address.\<close>

type_synonym span = "nat \<times> nat"

definition apart :: "span \<Rightarrow> span \<Rightarrow> bool" where
  "apart x y \<longleftrightarrow> fst x + snd x \<le> fst y \<or> fst y + snd y \<le> fst x"

lemma apart_sym: "apart x y \<Longrightarrow> apart y x"
  by (auto simp: apart_def)

lemma apart_disjoint:
  "apart (p, n) (q, m) \<Longrightarrow> {p..<p + n} \<inter> {q..<q + m} = {}"
  by (auto simp: apart_def)

definition span_bytes :: "span list \<Rightarrow> nat" where
  "span_bytes L = sum_list (map snd L)"

lemma span_bytes_simps [simp]:
  "span_bytes [] = 0"
  "span_bytes (x # L) = snd x + span_bytes L"
  by (simp_all add: span_bytes_def)

lemma span_bytes_remove1:
  "x \<in> set L \<Longrightarrow> span_bytes L = snd x + span_bytes (remove1 x L)"
  by (induction L) auto

lemma sorted_wrt_remove1: "sorted_wrt R L \<Longrightarrow> sorted_wrt R (remove1 x L)"
  by (induction L) (auto dest: subsetD [OF set_remove1_subset])

lemma sorted_wrt_remove1_other:
  assumes "sorted_wrt R L" and "x \<in> set L" and "y \<in> set (remove1 x L)"
    and sym: "\<And>a b. R a b \<Longrightarrow> R b a"
  shows "R x y"
  using assms(1-3)
  by (induction L) (auto split: if_splits dest: subsetD [OF set_remove1_subset] intro: sym)

section \<open>Fixed arrays with a live prefix\<close>

text \<open>
  Several tables of the sources are a fixed array and a count, with entries inserted and
  removed in the middle by shifting the tail one slot at a time. The two shifting loops,
  and what they do to the live prefix.
\<close>

fun shift_up :: "nat \<Rightarrow> nat \<Rightarrow> 'a list \<Rightarrow> 'a list" where
  "shift_up i at a = (if at < i then shift_up (i - 1) at (a[i := a ! (i - 1)]) else a)"

function shift_down :: "nat \<Rightarrow> nat \<Rightarrow> 'a list \<Rightarrow> 'a list" where
  "shift_down i n a = (if i + 1 < n then shift_down (i + 1) n (a[i := a ! (i + 1)]) else a)"
  by pat_completeness auto
termination
  by (relation "measure (\<lambda>(i, n, a). n - i)") auto

declare shift_up.simps [simp del] shift_down.simps [simp del]

lemma length_shift_up [simp]: "length (shift_up i at a) = length a"
  by (induction i at a rule: shift_up.induct) (subst shift_up.simps, simp)

lemma length_shift_down [simp]: "length (shift_down i n a) = length a"
  by (induction i n a rule: shift_down.induct) (subst shift_down.simps, simp)

lemma nth_shift_up:
  "i < length a \<Longrightarrow> j < length a \<Longrightarrow>
   shift_up i at a ! j = (if at < j \<and> j \<le> i then a ! (j - 1) else a ! j)"
proof (induction i at a rule: shift_up.induct)
  case (1 i at a)
  show ?case
  proof (cases "at < i")
    case True
    with 1 show ?thesis by (subst shift_up.simps) (auto simp: nth_list_update)
  next
    case False
    then show ?thesis by (subst shift_up.simps) auto
  qed
qed

lemma nth_shift_down:
  "n \<le> length a \<Longrightarrow> j < length a \<Longrightarrow>
   shift_down i n a ! j = (if i \<le> j \<and> j + 1 < n then a ! (j + 1) else a ! j)"
proof (induction i n a rule: shift_down.induct)
  case (1 i n a)
  show ?case
  proof (cases "i + 1 < n")
    case True
    with 1 show ?thesis by (subst shift_down.simps) (auto simp: nth_list_update)
  next
    case False
    then show ?thesis by (subst shift_down.simps) auto
  qed
qed

lemma take_insert_at [arr_simps]:
  assumes "at \<le> n" and "n < length a"
  shows "take (Suc n) ((shift_up n at a)[at := x]) = take at (take n a) @ x # drop at (take n a)"
  by (rule nth_equalityI)
    (use assms in \<open>auto simp: nth_shift_up nth_append nth_list_update min_def nth_Cons' split: if_splits\<close>)

lemma take_remove_at [arr_simps]:
  assumes "at < n" and "n \<le> length a"
  shows "take (n - 1) (shift_down at n a) = take at (take n a) @ drop (Suc at) (take n a)"
  by (rule nth_equalityI)
    (use assms in \<open>auto simp: nth_shift_down nth_append min_def split: if_splits\<close>)

section \<open>Numbers as text\<close>

definition digit_char :: "nat \<Rightarrow> char" where
  "digit_char d = char_of (if d < 10 then 48 + d else 87 + d)"

fun num_text :: "nat \<Rightarrow> nat \<Rightarrow> string" where
  "num_text base n = (if base \<le> 1 \<or> n < base then [digit_char n] else num_text base (n div base) @ [digit_char (n mod base)])"

declare num_text.simps [simp del]

definition signed_text :: "int \<Rightarrow> string" where
  "signed_text i = (if i < 0 then CHR ''-'' # num_text 10 (nat (- i)) else num_text 10 (nat i))"

lemma word_of_small: "0 \<le> i \<Longrightarrow> i < 2 ^ 64 \<Longrightarrow> unat (word_of_int i :: u64) = nat i"
  by (simp add: unat_eq_nat_uint uint_word_of_int)

lemma sint_range: "- (2 ^ 63) \<le> sint (v :: u64)" "sint (v :: u64) < 2 ^ 63"
  using sint_ge [of v] sint_lt [of v] by simp_all

lemma unat_sint: "\<not> sint (v :: u64) < 0 \<Longrightarrow> unat v = nat (sint v)"
  using word_of_small [of "sint v"] sint_range [of v] by simp

lemma unat_neg_sint: "sint (v :: u64) < 0 \<Longrightarrow> unat (0 - v) = nat (- sint v)"
  using word_of_small [of "- sint v"] sint_range [of v] by simp

end
