(* ===== verification/PageAlloc.thy ===== *)
theory PageAlloc
  imports Prelude
begin

text \<open>
  The guest's page allocator, \<^verbatim>\<open>src/unikernel/boot/pagealloc.c\<close>: a sorted free list of
  page aligned ranges over one region, best fit, with coalescing on both sides and a tail
  that has never been handed out. The free list is the fixed array of the source with its
  count; \<open>pa_holes\<close> is the live prefix. All quantities are 64-bit and wrap.

  The contract is stated against a ghost list of the spans a client holds: no span is ever
  handed out twice, spans are page aligned and inside the region, and every byte below the
  tail is live, in a hole, or counted as lost.
\<close>

section \<open>State and operations\<close>

record pa_range =
  rg_base :: u64
  rg_len :: u64

abbreviation PA_PAGE :: u64 where "PA_PAGE \<equiv> 4096"
abbreviation PA_MAX_FREE :: nat where "PA_MAX_FREE \<equiv> 256"

record pa_state =
  pa_free_list :: "pa_range list"
  pa_nfree :: nat
  pa_base :: u64
  pa_next :: u64
  pa_end :: u64
  pa_live :: u64
  pa_peak :: u64
  pa_lost_bytes :: u64

text \<open>The statics before \<open>pa_init\<close> runs: zero initialised.\<close>

definition pa_boot :: pa_state where
  "pa_boot = \<lparr>pa_free_list = replicate PA_MAX_FREE \<lparr>rg_base = 0, rg_len = 0\<rparr>, pa_nfree = 0, pa_base = 0,
     pa_next = 0, pa_end = 0, pa_live = 0, pa_peak = 0, pa_lost_bytes = 0\<rparr>"

definition pa_round :: "u64 \<Rightarrow> u64" where
  "pa_round n = (n + PA_PAGE - 1) AND NOT (PA_PAGE - 1)"

definition pa_init :: "u64 \<Rightarrow> u64 \<Rightarrow> pa_state \<Rightarrow> pa_state" where
  "pa_init base len s =
     (let b = pa_round base; e = base + len
      in s\<lparr>pa_base := b, pa_next := b, pa_end := (if e < b then b else e),
           pa_nfree := 0, pa_live := 0, pa_peak := 0, pa_lost_bytes := 0\<rparr>)"

definition pa_insert :: "nat \<Rightarrow> u64 \<Rightarrow> u64 \<Rightarrow> pa_state \<Rightarrow> pa_state" where
  "pa_insert at base len s =
     s\<lparr>pa_free_list := (shift_up (pa_nfree s) at (pa_free_list s))[at := \<lparr>rg_base = base, rg_len = len\<rparr>],
       pa_nfree := pa_nfree s + 1\<rparr>"

definition pa_remove :: "nat \<Rightarrow> pa_state \<Rightarrow> pa_state" where
  "pa_remove at s =
     s\<lparr>pa_free_list := shift_down at (pa_nfree s) (pa_free_list s), pa_nfree := pa_nfree s - 1\<rparr>"

text \<open>The scan of \<open>pa_alloc\<close>: the index of the smallest hole that still fits.\<close>

function pa_best :: "pa_range list \<Rightarrow> nat \<Rightarrow> u64 \<Rightarrow> nat \<Rightarrow> nat option \<Rightarrow> nat option" where
  "pa_best a n need i best =
     (if i < n
      then pa_best a n need (i + 1)
             (if rg_len (a ! i) < need then best
              else case best of None \<Rightarrow> Some i
                   | Some b \<Rightarrow> if rg_len (a ! i) < rg_len (a ! b) then Some i else best)
      else best)"
  by pat_completeness auto
termination
  by (relation "measure (\<lambda>(a, n, need, i, best). n - i)") auto

definition pa_count_live :: "u64 \<Rightarrow> pa_state \<Rightarrow> pa_state" where
  "pa_count_live need s =
     (let l = pa_live s + need
      in s\<lparr>pa_live := l, pa_peak := (if pa_peak s < l then l else pa_peak s)\<rparr>)"

definition pa_alloc :: "u64 \<Rightarrow> pa_state \<Rightarrow> u64 \<times> pa_state" where
  "pa_alloc want s =
     (let need = pa_round want in
      if need = 0 then (0, s)
      else case pa_best (pa_free_list s) (pa_nfree s) need 0 None of
        Some best \<Rightarrow>
          (let r = pa_free_list s ! best;
               p = rg_base r;
               s' = (if rg_len r = need then pa_remove best s
                     else s\<lparr>pa_free_list := (pa_free_list s)
                            [best := \<lparr>rg_base = rg_base r + need, rg_len = rg_len r - need\<rparr>]\<rparr>)
           in (p, pa_count_live need s'))
      | None \<Rightarrow>
          if pa_end s - pa_next s < need then (0, s)
          else (pa_next s, pa_count_live need (s\<lparr>pa_next := pa_next s + need\<rparr>)))"

function pa_absorb_tail :: "pa_state \<Rightarrow> pa_state" where
  "pa_absorb_tail s =
     (if 0 < pa_nfree s \<and>
         rg_base (pa_free_list s ! (pa_nfree s - 1)) + rg_len (pa_free_list s ! (pa_nfree s - 1)) = pa_next s
      then pa_absorb_tail
             (s\<lparr>pa_next := rg_base (pa_free_list s ! (pa_nfree s - 1)), pa_nfree := pa_nfree s - 1\<rparr>)
      else s)"
  by pat_completeness auto
termination
  by (relation "measure pa_nfree") auto

definition pa_owns :: "u64 \<Rightarrow> u64 \<Rightarrow> pa_state \<Rightarrow> bool" where
  "pa_owns p len s =
     (let n = pa_round len in
      if p = 0 \<or> n = 0 then False
      else if p < pa_base s \<or> p + n > pa_end s \<or> p + n < p then False
      else True)"

text \<open>The position of the sorted insert in \<open>pa_free\<close>.\<close>

function pa_find :: "pa_range list \<Rightarrow> nat \<Rightarrow> u64 \<Rightarrow> nat \<Rightarrow> nat" where
  "pa_find a n p at = (if at < n \<and> rg_base (a ! at) < p then pa_find a n p (at + 1) else at)"
  by pat_completeness auto
termination
  by (relation "measure (\<lambda>(a, n, p, at). n - at)") auto

definition pa_free :: "u64 \<Rightarrow> u64 \<Rightarrow> pa_state \<Rightarrow> int \<times> pa_state" where
  "pa_free p len s =
     (let n = pa_round len in
      if p = 0 \<or> n = 0 then (0, s)
      else if p < pa_base s \<or> p + n > pa_end s \<or> p + n < p then (-1, s)
      else
        let s1 = s\<lparr>pa_live := (if pa_live s \<ge> n then pa_live s - n else 0)\<rparr> in
        if p + n = pa_next s1 then (0, pa_absorb_tail (s1\<lparr>pa_next := p\<rparr>))
        else
          let fl = pa_free_list s1;
              at = pa_find fl (pa_nfree s1) p 0;
              join_prev = (at > 0 \<and> rg_base (fl ! (at - 1)) + rg_len (fl ! (at - 1)) = p);
              join_next = (at < pa_nfree s1 \<and> p + n = rg_base (fl ! at))
          in if join_prev \<and> join_next then
               (0, pa_absorb_tail (pa_remove at (s1\<lparr>pa_free_list := fl[at - 1 :=
                      (fl ! (at - 1))\<lparr>rg_len := rg_len (fl ! (at - 1)) + (n + rg_len (fl ! at))\<rparr>]\<rparr>)))
             else if join_prev then
               (0, pa_absorb_tail (s1\<lparr>pa_free_list := fl[at - 1 :=
                      (fl ! (at - 1))\<lparr>rg_len := rg_len (fl ! (at - 1)) + n\<rparr>]\<rparr>))
             else if join_next then
               (0, pa_absorb_tail (s1\<lparr>pa_free_list := fl[at :=
                      \<lparr>rg_base = p, rg_len = rg_len (fl ! at) + n\<rparr>]\<rparr>))
             else if pa_nfree s1 < PA_MAX_FREE then
               (0, pa_absorb_tail (pa_insert at p n s1))
             else (-1, s1\<lparr>pa_lost_bytes := pa_lost_bytes s1 + n\<rparr>))"

text \<open>\<open>pa_stats\<close> writes its six answers through pointers; here they are a record.\<close>

record pa_report =
  st_live :: u64
  st_peak :: u64
  st_avail :: u64
  st_largest :: u64
  st_lost :: u64
  st_holes :: nat

function pa_stats_loop :: "pa_range list \<Rightarrow> nat \<Rightarrow> nat \<Rightarrow> u64 \<times> u64 \<Rightarrow> u64 \<times> u64" where
  "pa_stats_loop a n i acc =
     (if i < n
      then pa_stats_loop a n (i + 1)
             (fst acc + rg_len (a ! i), if rg_len (a ! i) > snd acc then rg_len (a ! i) else snd acc)
      else acc)"
  by pat_completeness auto
termination
  by (relation "measure (\<lambda>(a, n, i, acc). n - i)") auto

definition pa_stats :: "pa_state \<Rightarrow> pa_report" where
  "pa_stats s =
     (let (sum, big) = pa_stats_loop (pa_free_list s) (pa_nfree s) 0
                         (pa_end s - pa_next s, pa_end s - pa_next s)
      in \<lparr>st_live = pa_live s, st_peak = pa_peak s, st_avail = sum, st_largest = big,
          st_lost = pa_lost_bytes s, st_holes = pa_nfree s\<rparr>)"

declare pa_best.simps [simp del] pa_absorb_tail.simps [simp del] pa_find.simps [simp del]
  pa_stats_loop.simps [simp del]

section \<open>Invariant\<close>

definition pa_holes :: "pa_state \<Rightarrow> pa_range list" where
  "pa_holes s = take (pa_nfree s) (pa_free_list s)"

definition hole_span :: "pa_range \<Rightarrow> span" where
  "hole_span r = (unat (rg_base r), unat (rg_len r))"

definition page_span :: "nat \<Rightarrow> nat \<Rightarrow> span \<Rightarrow> bool" where
  "page_span lo hi x \<longleftrightarrow>
     4096 dvd fst x \<and> 4096 dvd snd x \<and> 0 < snd x \<and> lo \<le> fst x \<and> fst x + snd x \<le> hi"

text \<open>Two holes never touch: one ends strictly before the next begins.\<close>

definition gap_before :: "span \<Rightarrow> span \<Rightarrow> bool" where
  "gap_before x y \<longleftrightarrow> fst x + snd x < fst y"

definition pa_wf :: "pa_state \<Rightarrow> bool" where
  "pa_wf s \<longleftrightarrow>
     length (pa_free_list s) = PA_MAX_FREE \<and> pa_nfree s \<le> PA_MAX_FREE \<and>
     0 < unat (pa_base s) \<and> 4096 dvd unat (pa_base s) \<and> 4096 dvd unat (pa_next s) \<and>
     unat (pa_base s) \<le> unat (pa_next s) \<and> unat (pa_next s) \<le> unat (pa_end s)"

definition pa_live_ok :: "nat \<Rightarrow> nat \<Rightarrow> span list \<Rightarrow> span list \<Rightarrow> bool" where
  "pa_live_ok lo hi H L \<longleftrightarrow>
     sorted_wrt apart L \<and> (\<forall>x \<in> set L. page_span lo hi x \<and> (\<forall>h \<in> set H. apart x h))"

text \<open>The span level; here a hole may touch the tail, which is what \<open>pa_absorb_tail\<close> mends.\<close>

definition spans_ok :: "nat \<Rightarrow> nat \<Rightarrow> span list \<Rightarrow> span list \<Rightarrow> bool" where
  "spans_ok lo hi H L \<longleftrightarrow>
     sorted_wrt gap_before H \<and> (\<forall>h \<in> set H. page_span lo hi h) \<and> pa_live_ok lo hi H L"

definition hole_spans :: "pa_state \<Rightarrow> span list" where
  "hole_spans s = map hole_span (pa_holes s)"

definition pa_semi :: "pa_state \<Rightarrow> span list \<Rightarrow> bool" where
  "pa_semi s L \<longleftrightarrow>
     pa_wf s \<and> spans_ok (unat (pa_base s)) (unat (pa_next s)) (hole_spans s) L \<and>
     unat (pa_live s) = span_bytes L \<and> pa_live s \<le> pa_peak s \<and>
     unat (pa_base s) + span_bytes (hole_spans s) + span_bytes L + unat (pa_lost_bytes s)
       = unat (pa_next s)"

definition pa_inv :: "pa_state \<Rightarrow> span list \<Rightarrow> bool" where
  "pa_inv s L \<longleftrightarrow> pa_semi s L \<and> (\<forall>h \<in> set (hole_spans s). fst h + snd h < unat (pa_next s))"

text \<open>A client that gives back exactly what it was handed.\<close>

inductive pa_step :: "pa_state \<times> span list \<Rightarrow> pa_state \<times> span list \<Rightarrow> bool" where
  alloc_ok: "pa_alloc want s = (p, s') \<Longrightarrow> p \<noteq> 0 \<Longrightarrow>
     pa_step (s, L) (s', (unat p, unat (pa_round want)) # L)"
| alloc_fail: "pa_alloc want s = (0, s') \<Longrightarrow> pa_step (s, L) (s', L)"
| free: "(unat p, unat (pa_round len)) \<in> set L \<Longrightarrow> pa_free p len s = (rc, s') \<Longrightarrow>
     pa_step (s, L) (s', remove1 (unat p, unat (pa_round len)) L)"

inductive pa_reach :: "pa_state \<Rightarrow> pa_state \<times> span list \<Rightarrow> bool" for s0 where
  start: "pa_reach s0 (s0, [])"
| step: "pa_reach s0 x \<Longrightarrow> pa_step x y \<Longrightarrow> pa_reach s0 y"


section \<open>Rounding, scanning, inserting\<close>

lemma unat_pa_round: "unat (pa_round n) = ((unat n + 4095) mod 2 ^ 64) div 4096 * 4096"
proof -
  have m: "PA_PAGE - 1 = (mask 12 :: u64)" by (simp add: mask_eq_exp_minus_1)
  have a: "n + PA_PAGE - 1 = n + 4095" by simp
  show ?thesis
    unfolding pa_round_def m a by (simp add: unat_and_not_mask unat_word_ariths)
qed

lemma pa_round_dvd: "4096 dvd unat (pa_round n)"
  by (simp add: unat_pa_round)

lemma pa_round_up:
  "unat n \<le> 2 ^ 64 - 4096 \<Longrightarrow> unat n \<le> unat (pa_round n) \<and> unat (pa_round n) < unat n + 4096"
proof -
  assume "unat n \<le> 2 ^ 64 - 4096"
  then have "unat (pa_round n) = (unat n + 4095) div 4096 * 4096"
    by (simp add: unat_pa_round)
  moreover have "(unat n + 4095) div 4096 * 4096 + (unat n + 4095) mod 4096 = unat n + 4095" by simp
  moreover have "(unat n + 4095) mod 4096 < 4096" by simp
  ultimately show ?thesis by linarith
qed

lemma pa_best_spec:
  assumes "\<And>b. best = Some b \<Longrightarrow> b < i \<and> need \<le> rg_len (a ! b)"
    and "\<And>j. j < i \<Longrightarrow> need \<le> rg_len (a ! j) \<Longrightarrow> \<exists>b. best = Some b \<and> rg_len (a ! b) \<le> rg_len (a ! j)"
    and "i \<le> n"
  shows "case pa_best a n need i best of
           None \<Rightarrow> \<forall>j<n. rg_len (a ! j) < need
         | Some b \<Rightarrow> b < n \<and> need \<le> rg_len (a ! b) \<and>
                     (\<forall>j<n. need \<le> rg_len (a ! j) \<longrightarrow> rg_len (a ! b) \<le> rg_len (a ! j))"
  using assms
proof (induction a n need i best rule: pa_best.induct)
  case (1 a n need i best)
  show ?case
  proof (cases "i < n")
    case True
    show ?thesis
      unfolding pa_best.simps [of a n need i best] if_P [OF True]
    proof (rule "1.IH" [OF True], goal_cases)
      case (1 b)
      with "1.prems"(1) show ?case by (fastforce split: if_splits option.splits)
    next
      case (2 j)
      show ?case
      proof (cases "j = i")
        case True
        with 2 show ?thesis by (auto split: option.splits)
      next
        case False
        with 2 have "j < i" by simp
        with 2 "1.prems"(2) obtain b where "best = Some b" "rg_len (a ! b) \<le> rg_len (a ! j)" by blast
        then show ?thesis by (auto intro: order.trans less_imp_le)
      qed
    qed (use True in simp)
  next
    case False
    with "1.prems"(3) have "i = n" by simp
    with "1.prems"(1,2) show ?thesis
      by (subst pa_best.simps) (force simp: not_less split: option.splits)
  qed
qed

lemma pa_find_takeWhile:
  assumes "n \<le> length a"
  shows "pa_find a n p at = at + length (takeWhile (\<lambda>r. rg_base r < p) (drop at (take n a)))"
  using assms
proof (induction a n p at rule: pa_find.induct)
  case (1 a n p at)
  show ?case
  proof (cases "at < n")
    case True
    with "1.prems" have "drop at (take n a) = a ! at # drop (Suc at) (take n a)"
      by (simp flip: Cons_nth_drop_Suc)
    with 1 True show ?thesis by (subst pa_find.simps) auto
  qed (subst pa_find.simps, simp)
qed

lemma holes_insert:
  assumes "at \<le> pa_nfree s" and "pa_nfree s < length (pa_free_list s)"
  shows "pa_holes (pa_insert at b l s) =
     take at (pa_holes s) @ \<lparr>rg_base = b, rg_len = l\<rparr> # drop at (pa_holes s)"
  using take_insert_at [OF assms] by (simp add: pa_holes_def pa_insert_def)

lemma holes_remove:
  assumes "at < pa_nfree s" and "pa_nfree s \<le> length (pa_free_list s)"
  shows "pa_holes (pa_remove at s) = take at (pa_holes s) @ drop (Suc at) (pa_holes s)"
  using take_remove_at [OF assms] by (simp add: pa_holes_def pa_remove_def)

lemma holes_update:
  "pa_holes (s\<lparr>pa_free_list := (pa_free_list s)[i := r]\<rparr>) = (pa_holes s)[i := r]"
  by (simp add: pa_holes_def take_update_swap)

lemma holes_frame [simp]:
  "pa_holes (pa_live_update f s) = pa_holes s"
  "pa_holes (pa_peak_update f s) = pa_holes s"
  "pa_holes (pa_next_update f s) = pa_holes s"
  "pa_holes (pa_lost_bytes_update f s) = pa_holes s"
  by (simp_all add: pa_holes_def)


section \<open>The invariant, operation by operation\<close>

lemma spans_ok_live_remove:
  assumes "spans_ok lo hi H L" "x \<in> set L"
  shows "spans_ok lo hi H (remove1 x L)" and "page_span lo hi x"
    and "\<And>y. y \<in> set (remove1 x L) \<Longrightarrow> apart x y" and "\<And>h. h \<in> set H \<Longrightarrow> apart x h"
proof -
  show "page_span lo hi x" and "\<And>h. h \<in> set H \<Longrightarrow> apart x h"
    using assms by (auto simp: spans_ok_def pa_live_ok_def)
  show "spans_ok lo hi H (remove1 x L)"
    using assms sorted_wrt_remove1 [of apart L x]
    by (auto simp: spans_ok_def pa_live_ok_def dest: subsetD [OF set_remove1_subset])
  show "\<And>y. y \<in> set (remove1 x L) \<Longrightarrow> apart x y"
    using assms sorted_wrt_remove1_other [of apart L x] apart_sym
    by (auto simp: spans_ok_def pa_live_ok_def)
qed

lemma spans_ok_insert:
  assumes "spans_ok lo hi (P @ Q) L" and "page_span lo hi x"
    and "\<forall>y \<in> set L. apart x y"
    and "\<forall>h \<in> set P. fst h + snd h < fst x" and "\<forall>h \<in> set Q. fst x + snd x < fst h"
  shows "spans_ok lo hi (P @ x # Q) L"
  using assms by (auto simp: spans_ok_def pa_live_ok_def sorted_wrt_append gap_before_def
      intro: apart_sym)

lemma spans_ok_delete: "spans_ok lo hi (P @ a # Q) L \<Longrightarrow> spans_ok lo hi (P @ Q) L"
  by (auto simp: spans_ok_def pa_live_ok_def sorted_wrt_append)

text \<open>Growing a hole by a span that touches it.\<close>

lemma spans_ok_join_prev:
  assumes ok: "spans_ok lo hi (P @ a # Q) L" and x: "page_span lo hi x"
    and L: "\<forall>y \<in> set L. apart x y"
    and a: "fst a + snd a = fst x" and Q: "\<forall>h \<in> set Q. fst x + snd x < fst h"
  shows "spans_ok lo hi (P @ (fst a, snd a + snd x) # Q) L"
proof (rule spans_ok_insert [OF spans_ok_delete [OF ok]])
  have pa: "page_span lo hi a" using ok by (simp add: spans_ok_def)
  show "page_span lo hi (fst a, snd a + snd x)" using pa x a by (auto simp: page_span_def)
  show "\<forall>y \<in> set L. apart (fst a, snd a + snd x) y"
  proof
    fix y assume y: "y \<in> set L"
    then have "apart y a" "page_span lo hi y" using ok by (auto simp: spans_ok_def pa_live_ok_def)
    moreover have "apart x y" using L y by blast
    ultimately show "apart (fst a, snd a + snd x) y" using a x by (auto simp: apart_def page_span_def)
  qed
qed (use ok Q a in \<open>auto simp: spans_ok_def sorted_wrt_append gap_before_def\<close>)

lemma spans_ok_join_next:
  assumes ok: "spans_ok lo hi (P @ b # Q) L" and x: "page_span lo hi x"
    and L: "\<forall>y \<in> set L. apart x y"
    and b: "fst x + snd x = fst b" and P: "\<forall>h \<in> set P. fst h + snd h < fst x"
  shows "spans_ok lo hi (P @ (fst x, snd b + snd x) # Q) L"
proof (rule spans_ok_insert [OF spans_ok_delete [OF ok]])
  have pb: "page_span lo hi b" using ok by (simp add: spans_ok_def)
  show "page_span lo hi (fst x, snd b + snd x)" using pb x b by (auto simp: page_span_def)
  show "\<forall>y \<in> set L. apart (fst x, snd b + snd x) y"
  proof
    fix y assume y: "y \<in> set L"
    then have "apart y b" "page_span lo hi y" using ok by (auto simp: spans_ok_def pa_live_ok_def)
    moreover have "apart x y" using L y by blast
    ultimately show "apart (fst x, snd b + snd x) y" using b x by (auto simp: apart_def page_span_def)
  qed
qed (use ok P b in \<open>auto simp: spans_ok_def sorted_wrt_append gap_before_def\<close>)

text \<open>Taking the front of a hole.\<close>

lemma spans_ok_carve:
  assumes ok: "spans_ok lo hi (P @ a # Q) L" and n: "0 < n" "4096 dvd n" "n < snd a"
  shows "spans_ok lo hi (P @ (fst a + n, snd a - n) # Q) ((fst a, n) # L)"
proof -
  have a: "page_span lo hi a" using ok by (simp add: spans_ok_def)
  have "spans_ok lo hi (P @ (fst a + n, snd a - n) # Q) L"
  proof (rule spans_ok_insert [OF spans_ok_delete [OF ok]])
    show "page_span lo hi (fst a + n, snd a - n)" using a n by (auto simp: page_span_def)
    show "\<forall>y \<in> set L. apart (fst a + n, snd a - n) y"
      using ok n by (auto simp: spans_ok_def pa_live_ok_def apart_def)
  qed (use ok n in \<open>auto simp: spans_ok_def sorted_wrt_append gap_before_def\<close>)
  moreover have "page_span lo hi (fst a, n)" using a n by (auto simp: page_span_def)
  moreover have "\<forall>y \<in> set L. apart (fst a, n) y"
    using ok n by (auto simp: spans_ok_def pa_live_ok_def apart_def)
  moreover have "\<forall>h \<in> set P \<union> set Q. apart (fst a, n) h"
    using ok n by (auto simp: spans_ok_def sorted_wrt_append gap_before_def apart_def page_span_def)
  ultimately show ?thesis by (auto simp: spans_ok_def pa_live_ok_def apart_def)
qed

lemma spans_ok_take_hole:
  assumes ok: "spans_ok lo hi (P @ a # Q) L"
  shows "spans_ok lo hi (P @ Q) (a # L)"
proof -
  have "page_span lo hi a" using ok by (simp add: spans_ok_def)
  moreover have "\<forall>y \<in> set L. apart a y"
    using ok by (auto simp: spans_ok_def pa_live_ok_def intro: apart_sym)
  moreover have "\<forall>h \<in> set P \<union> set Q. apart a h"
    using ok by (auto simp: spans_ok_def sorted_wrt_append gap_before_def apart_def)
  ultimately show ?thesis using spans_ok_delete [OF ok] by (auto simp: spans_ok_def pa_live_ok_def)
qed

lemma spans_ok_extend:
  assumes "spans_ok lo hi H L" and "0 < n" "4096 dvd n" "4096 dvd hi" "lo \<le> hi"
  shows "spans_ok lo (hi + n) H ((hi, n) # L)"
  using assms by (auto simp: spans_ok_def pa_live_ok_def page_span_def apart_def)

text \<open>Lowering the tail to a span that ends there.\<close>

lemma spans_ok_lower:
  assumes ok: "spans_ok lo (p + n) H L" and "0 < n"
    and "\<forall>y \<in> set L. apart (p, n) y" and "\<forall>h \<in> set H. apart (p, n) h"
  shows "spans_ok lo p H L"
proof -
  have *: "page_span lo p y" if "page_span lo (p + n) y" "apart (p, n) y" for y
    using that assms(2) by (auto simp: page_span_def apart_def)
  then show ?thesis using assms by (auto simp: spans_ok_def pa_live_ok_def)
qed


lemma span_bytes_append [simp]: "span_bytes (P @ Q) = span_bytes P + span_bytes Q"
  by (simp add: span_bytes_def)

lemma pa_semi_nowrap:
  "pa_semi s L \<Longrightarrow> h \<in> set (hole_spans s) \<Longrightarrow> fst h + snd h \<le> unat (pa_next s)"
  by (auto simp: pa_semi_def spans_ok_def page_span_def)

lemma hole_spans_frame [simp]:
  "hole_spans (pa_live_update f s) = hole_spans s"
  "hole_spans (pa_peak_update f s) = hole_spans s"
  "hole_spans (pa_next_update f s) = hole_spans s"
  "hole_spans (pa_lost_bytes_update f s) = hole_spans s"
  by (simp_all add: hole_spans_def)

lemma hole_spans_nth:
  assumes "pa_wf s" and "i < pa_nfree s"
  shows "hole_spans s = map hole_span (take i (pa_holes s)) @
     hole_span (pa_free_list s ! i) # map hole_span (drop (Suc i) (pa_holes s))"
proof -
  have l: "i < length (pa_holes s)" and n: "pa_holes s ! i = pa_free_list s ! i"
    using assms by (auto simp: pa_holes_def pa_wf_def)
  show ?thesis
    unfolding hole_spans_def by (subst id_take_nth_drop [OF l]) (simp add: n)
qed

text \<open>The loop of \<open>pa_absorb_tail\<close> turns a state whose last hole may touch the tail into
  one where none does.\<close>

lemma pa_absorb_tail_inv: "pa_semi s L \<Longrightarrow> pa_inv (pa_absorb_tail s) L"
proof (induction s rule: pa_absorb_tail.induct)
  case (1 s)
  let ?i = "pa_nfree s - 1" let ?r = "pa_free_list s ! ?i" let ?P = "map hole_span (take ?i (pa_holes s))"
  show ?case
  proof (cases "0 < pa_nfree s")
    case nz: True
    have wf: "pa_wf s" using "1.prems" by (simp add: pa_semi_def)
    have dr: "drop (Suc ?i) (pa_holes s) = []" using nz by (simp add: pa_holes_def)
    have H: "hole_spans s = ?P @ [hole_span ?r]"
      using hole_spans_nth [OF wf, of ?i] nz dr by simp
    have le: "unat (rg_base ?r) + unat (rg_len ?r) \<le> unat (pa_next s)"
      using pa_semi_nowrap [OF "1.prems", of "hole_span ?r"] H by (simp add: hole_span_def)
    have sum: "unat (rg_base ?r + rg_len ?r) = unat (rg_base ?r) + unat (rg_len ?r)"
      using le u64_bound [of "pa_next s"] by (simp add: unat_add_no_wrap)
    show ?thesis
    proof (cases "rg_base ?r + rg_len ?r = pa_next s")
      case True
      let ?s = "s\<lparr>pa_next := rg_base ?r, pa_nfree := ?i\<rparr>"
      have H': "hole_spans ?s = ?P"
        using nz by (simp add: hole_spans_def pa_holes_def min_def)
      have nx: "unat (pa_next s) = fst (hole_span ?r) + snd (hole_span ?r)"
        using True sum by (simp add: hole_span_def)
      have ok: "spans_ok (unat (pa_base s)) (fst (hole_span ?r) + snd (hole_span ?r)) (?P @ [hole_span ?r]) L"
        using "1.prems" H nx by (simp add: pa_semi_def)
      have ps: "page_span (unat (pa_base s)) (unat (pa_next s)) (hole_span ?r)"
        using ok nx by (simp add: spans_ok_def)
      have "spans_ok (unat (pa_base s)) (fst (hole_span ?r)) ?P L"
      proof (rule spans_ok_lower)
        show "spans_ok (unat (pa_base s)) (fst (hole_span ?r) + snd (hole_span ?r)) ?P L"
          using spans_ok_delete [of _ _ ?P "hole_span ?r" "[]"] ok by simp
      qed (use ok ps in \<open>auto simp: spans_ok_def pa_live_ok_def page_span_def sorted_wrt_append
            gap_before_def apart_def\<close>)
      then have "pa_semi ?s L"
        using "1.prems" H H' nx ps by (auto simp: pa_semi_def pa_wf_def page_span_def hole_span_def)
      then have "pa_inv (pa_absorb_tail ?s) L" using "1.IH" nz True by blast
      then show ?thesis using nz True by (subst pa_absorb_tail.simps) simp
    next
      case False
      then have "unat (rg_base ?r) + unat (rg_len ?r) \<noteq> unat (pa_next s)"
        using sum by (metis word_unat_eq_iff)
      then have last: "fst (hole_span ?r) + snd (hole_span ?r) < unat (pa_next s)"
        using le by (simp add: hole_span_def)
      have "\<forall>h \<in> set (hole_spans s). fst h + snd h < unat (pa_next s)"
        using "1.prems" last by (auto simp: H pa_semi_def spans_ok_def sorted_wrt_append gap_before_def)
      then show ?thesis using "1.prems" False by (subst pa_absorb_tail.simps) (simp add: pa_inv_def)
    qed
  next
    case False
    then have "hole_spans s = []" by (simp add: hole_spans_def pa_holes_def)
    with 1 False show ?thesis by (subst pa_absorb_tail.simps) (simp add: pa_inv_def)
  qed
qed


lemma pa_count_live_simps [simp]:
  "pa_nfree (pa_count_live n s) = pa_nfree s" "pa_free_list (pa_count_live n s) = pa_free_list s"
  "pa_base (pa_count_live n s) = pa_base s" "pa_next (pa_count_live n s) = pa_next s"
  "pa_end (pa_count_live n s) = pa_end s" "pa_live (pa_count_live n s) = pa_live s + n"
  "pa_lost_bytes (pa_count_live n s) = pa_lost_bytes s"
  "hole_spans (pa_count_live n s) = hole_spans s"
  "pa_live s + n \<le> pa_peak (pa_count_live n s)"
  by (auto simp: pa_count_live_def Let_def hole_spans_def pa_holes_def)

lemma pa_inv_total: "pa_inv s L \<Longrightarrow> span_bytes (hole_spans s) + span_bytes L \<le> unat (pa_next s)"
  by (auto simp: pa_inv_def pa_semi_def)

text \<open>Recording an allocation that the spans already allow.\<close>

lemma pa_inv_count_live:
  assumes "pa_wf s'" and sp: "spans_ok (unat (pa_base s')) (unat (pa_next s')) (hole_spans s') ((p, unat n) # L)"
    and "\<forall>h \<in> set (hole_spans s'). fst h + snd h < unat (pa_next s')"
    and acc: "unat (pa_base s') + span_bytes (hole_spans s') + (unat n + span_bytes L)
          + unat (pa_lost_bytes s') = unat (pa_next s')"
    and live: "unat (pa_live s') = span_bytes L"
  shows "pa_inv (pa_count_live n s') ((p, unat n) # L)"
proof -
  have "unat (pa_live s') + unat n < 2 ^ 64"
    using acc live u64_bound [of "pa_next s'"] by simp
  then have "unat (pa_live s' + n) = unat n + span_bytes L"
    using live by (simp add: unat_add_no_wrap)
  then show ?thesis
    using assms by (simp add: pa_inv_def pa_semi_def pa_wf_def)
qed

lemma pa_alloc_from_hole:
  assumes inv: "pa_inv s L" and b: "pa_best (pa_free_list s) (pa_nfree s) (pa_round want) 0 None = Some best"
    and nz: "pa_round want \<noteq> 0"
  shows "pa_inv (snd (pa_alloc want s)) ((unat (fst (pa_alloc want s)), unat (pa_round want)) # L)"
proof -
  let ?need = "pa_round want" let ?r = "pa_free_list s ! best"
  let ?P = "map hole_span (take best (pa_holes s))" let ?Q = "map hole_span (drop (Suc best) (pa_holes s))"
  have bs: "best < pa_nfree s" "?need \<le> rg_len ?r"
    using pa_best_spec [of None 0 ?need "pa_free_list s" "pa_nfree s"] b by auto
  have wf: "pa_wf s" using inv by (simp add: pa_inv_def pa_semi_def)
  have H: "hole_spans s = ?P @ hole_span ?r # ?Q" by (rule hole_spans_nth [OF wf bs(1)])
  have ok: "spans_ok (unat (pa_base s)) (unat (pa_next s)) (?P @ hole_span ?r # ?Q) L"
    using inv H by (simp add: pa_inv_def pa_semi_def)
  have n0: "0 < unat ?need" using nz by (simp add: unat_gt_0)
  note st = inv [unfolded pa_inv_def pa_semi_def]
  show ?thesis
  proof (cases "rg_len ?r = ?need")
    case True
    have H': "hole_spans (pa_remove best s) = ?P @ ?Q"
      using holes_remove [OF bs(1)] wf by (simp add: hole_spans_def pa_wf_def)
    have hr: "hole_span ?r = (unat (rg_base ?r), unat ?need)" using True by (simp add: hole_span_def)
    have "pa_inv (pa_count_live ?need (pa_remove best s)) ((unat (rg_base ?r), unat ?need) # L)"
    proof (rule pa_inv_count_live)
      show "spans_ok (unat (pa_base (pa_remove best s))) (unat (pa_next (pa_remove best s)))
           (hole_spans (pa_remove best s)) ((unat (rg_base ?r), unat ?need) # L)"
        using spans_ok_take_hole [OF ok] H' hr by (simp add: pa_remove_def)
    qed (use st H H' hr bs in \<open>auto simp: pa_remove_def pa_wf_def\<close>)
    with nz b True show ?thesis by (simp add: pa_alloc_def Let_def)
  next
    case False
    let ?r' = "\<lparr>rg_base = rg_base ?r + ?need, rg_len = rg_len ?r - ?need\<rparr>"
    let ?s = "s\<lparr>pa_free_list := (pa_free_list s)[best := ?r']\<rparr>"
    have lt: "unat ?need < unat (rg_len ?r)"
      using False bs(2) by (metis order_le_less word_less_nat_alt)
    have e: "unat (rg_base ?r) + unat (rg_len ?r) \<le> unat (pa_next s)"
      using pa_semi_nowrap [of s L "hole_span ?r"] inv H by (simp add: pa_inv_def hole_span_def)
    have r': "hole_span ?r' = (fst (hole_span ?r) + unat ?need, snd (hole_span ?r) - unat ?need)"
      using lt e u64_bound [of "pa_next s"] by (simp add: hole_span_def unat_add_no_wrap unat_sub_no_wrap)
    have l: "best < length (pa_holes s)" using bs wf by (simp add: pa_holes_def pa_wf_def)
    have H': "hole_spans ?s = ?P @ hole_span ?r' # ?Q"
      unfolding hole_spans_def holes_update by (subst upd_conv_take_nth_drop [OF l]) simp
    have "pa_inv (pa_count_live ?need ?s) ((fst (hole_span ?r), unat ?need) # L)"
    proof (rule pa_inv_count_live)
      show "spans_ok (unat (pa_base ?s)) (unat (pa_next ?s)) (hole_spans ?s)
          ((fst (hole_span ?r), unat ?need) # L)"
        using spans_ok_carve [OF ok n0 pa_round_dvd] lt H' r' by (simp add: hole_span_def)
      show "\<forall>h \<in> set (hole_spans ?s). fst h + snd h < unat (pa_next ?s)"
        using st H H' r' lt by (auto simp: hole_span_def)
      show "unat (pa_base ?s) + span_bytes (hole_spans ?s) + (unat ?need + span_bytes L)
          + unat (pa_lost_bytes ?s) = unat (pa_next ?s)"
        using st H H' r' lt by (auto simp: hole_span_def)
    qed (use st in \<open>auto simp: pa_wf_def\<close>)
    with nz b False show ?thesis by (simp add: pa_alloc_def Let_def hole_span_def)
  qed
qed

lemma pa_alloc_from_tail:
  assumes inv: "pa_inv s L" and b: "pa_best (pa_free_list s) (pa_nfree s) (pa_round want) 0 None = None"
    and nz: "pa_round want \<noteq> 0" and room: "\<not> pa_end s - pa_next s < pa_round want"
  shows "pa_inv (snd (pa_alloc want s)) ((unat (fst (pa_alloc want s)), unat (pa_round want)) # L)"
proof -
  let ?need = "pa_round want" let ?s = "s\<lparr>pa_next := pa_next s + ?need\<rparr>"
  note st = inv [unfolded pa_inv_def pa_semi_def pa_wf_def]
  have le: "unat (pa_next s) + unat ?need \<le> unat (pa_end s)"
    using room st by (auto simp: word_less_nat_alt unat_sub_no_wrap)
  have nx: "unat (pa_next s + ?need) = unat (pa_next s) + unat ?need"
    using le u64_bound [of "pa_end s"] by (simp add: unat_add_no_wrap)
  have "pa_inv (pa_count_live ?need ?s) ((unat (pa_next s), unat ?need) # L)"
  proof (rule pa_inv_count_live)
    show "spans_ok (unat (pa_base ?s)) (unat (pa_next ?s)) (hole_spans ?s)
        ((unat (pa_next s), unat ?need) # L)"
      using spans_ok_extend [of _ _ _ L "unat ?need"] st nx nz pa_round_dvd by (simp add: unat_gt_0)
    show "pa_wf ?s" using st nx le pa_round_dvd [of want] by (auto simp: pa_wf_def)
  qed (use st nx in auto)
  with nz b room show ?thesis by (simp add: pa_alloc_def Let_def)
qed

lemma pa_alloc_inv:
  assumes "pa_inv s L" and "pa_alloc want s = (p, s')"
  shows "pa_inv s' (if p = 0 then L else (unat p, unat (pa_round want)) # L)"
proof (cases "p = 0")
  case False
  consider (hole) best where "pa_best (pa_free_list s) (pa_nfree s) (pa_round want) 0 None = Some best"
    "pa_round want \<noteq> 0"
    | (tail) "pa_best (pa_free_list s) (pa_nfree s) (pa_round want) 0 None = None"
      "\<not> pa_end s - pa_next s < pa_round want" "pa_round want \<noteq> 0"
    using assms(2) False by (auto simp: pa_alloc_def Let_def split: if_splits option.splits)
  then show ?thesis
    using False assms pa_alloc_from_hole [OF assms(1)] pa_alloc_from_tail [OF assms(1)]
    by cases force+
next
  case True
  have "s' = s"
  proof (rule ccontr)
    assume ne: "s' \<noteq> s"
    then consider (hole) best where "pa_best (pa_free_list s) (pa_nfree s) (pa_round want) 0 None = Some best"
      "pa_round want \<noteq> 0"
      | (tail) "pa_best (pa_free_list s) (pa_nfree s) (pa_round want) 0 None = None"
        "\<not> pa_end s - pa_next s < pa_round want" "pa_round want \<noteq> 0"
      using assms(2) True by (auto simp: pa_alloc_def Let_def split: if_splits option.splits)
    then have "pa_inv s' ((unat p, unat (pa_round want)) # L)"
      using assms pa_alloc_from_hole [OF assms(1)] pa_alloc_from_tail [OF assms(1)] by cases force+
    then show False
      using True by (auto simp: pa_inv_def pa_semi_def spans_ok_def pa_live_ok_def page_span_def pa_wf_def)
  qed
  with True assms show ?thesis by simp
qed


text \<open>Where a live span falls between the holes.\<close>

lemma pa_free_place:
  fixes s p n
  defines "ps \<equiv> takeWhile (\<lambda>r. rg_base r < p) (pa_holes s)"
    and "qs \<equiv> dropWhile (\<lambda>r. rg_base r < p) (pa_holes s)"
  assumes inv: "pa_inv s L" and x: "(unat p, unat n) \<in> set L"
  shows "hole_spans s = map hole_span ps @ map hole_span qs"
    and "\<forall>h \<in> set (map hole_span ps). fst h + snd h \<le> unat p"
    and "\<forall>h \<in> set (map hole_span qs). unat p + unat n \<le> fst h"
    and "pa_find (pa_free_list s) (pa_nfree s) p 0 = length ps"
proof -
  show H: "hole_spans s = map hole_span ps @ map hole_span qs"
    by (simp add: hole_spans_def ps_def qs_def flip: map_append)
  have ok: "spans_ok (unat (pa_base s)) (unat (pa_next s)) (hole_spans s) L"
    using inv by (simp add: pa_inv_def pa_semi_def)
  have hp: "\<forall>h \<in> set (hole_spans s). apart (unat p, unat n) h \<and> 0 < snd h"
    using ok x by (auto simp: spans_ok_def pa_live_ok_def page_span_def)
  have ap: "apart (unat p, unat n) (hole_span r) \<and> 0 < snd (hole_span r)"
    if "r \<in> set ps \<union> set qs" for r
    using that hp by (auto simp: H)
  show "\<forall>h \<in> set (map hole_span ps). fst h + snd h \<le> unat p"
  proof
    fix h assume "h \<in> set (map hole_span ps)"
    then obtain r where r: "r \<in> set ps" "h = hole_span r" by auto
    then have "rg_base r < p" by (auto simp: ps_def dest: set_takeWhileD)
    with ap [of r] r show "fst h + snd h \<le> unat p"
      by (auto simp: apart_def hole_span_def word_less_nat_alt)
  qed
  have q: "unat p \<le> unat (rg_base r)" if "r \<in> set qs" for r
  proof (cases qs)
    case (Cons a qs')
    then have a: "unat p \<le> unat (rg_base a)"
      using hd_dropWhile [of "\<lambda>r. rg_base r < p" "pa_holes s"] qs_def
      by (simp add: word_less_nat_alt not_less)
    moreover have "unat (rg_base a) \<le> unat (rg_base r)" if "r \<in> set qs'"
      using ok that by (auto simp: H Cons spans_ok_def sorted_wrt_append gap_before_def hole_span_def)
    ultimately show ?thesis using that Cons by auto
  qed (use that in simp)
  show "\<forall>h \<in> set (map hole_span qs). unat p + unat n \<le> fst h"
  proof
    fix h assume "h \<in> set (map hole_span qs)"
    then obtain r where r: "r \<in> set qs" "h = hole_span r" by auto
    with ap [of r] q [of r] show "unat p + unat n \<le> fst h" by (auto simp: apart_def hole_span_def)
  qed
  show "pa_find (pa_free_list s) (pa_nfree s) p 0 = length ps"
    using inv by (simp add: pa_find_takeWhile ps_def pa_holes_def pa_inv_def pa_semi_def pa_wf_def)
qed

lemma pa_semi_give_back:
  assumes inv: "pa_inv s L" and x: "(unat p, unat n) \<in> set L"
    and frame: "pa_base s' = pa_base s" "pa_end s' = pa_end s" "pa_peak s' = pa_peak s"
      "pa_live s' = (if pa_live s \<ge> n then pa_live s - n else 0)"
    and wf: "pa_wf s'"
    and sp: "spans_ok (unat (pa_base s)) (unat (pa_next s')) (hole_spans s') (remove1 (unat p, unat n) L)"
    and acc: "span_bytes (hole_spans s') + unat (pa_lost_bytes s') + unat (pa_next s)
      = span_bytes (hole_spans s) + unat (pa_lost_bytes s) + unat n + unat (pa_next s')"
  shows "pa_semi s' (remove1 (unat p, unat n) L)"
proof -
  have L: "span_bytes L = unat n + span_bytes (remove1 (unat p, unat n) L)"
    using span_bytes_remove1 [OF x] by simp
  have st: "unat (pa_live s) = span_bytes L" "pa_live s \<le> pa_peak s"
    using inv by (auto simp: pa_inv_def pa_semi_def)
  then have "n \<le> pa_live s" using L by (simp add: word_le_nat_alt)
  then have "pa_live s' = pa_live s - n" using frame by simp
  moreover have "unat (pa_live s - n) = unat (pa_live s) - unat n"
    using \<open>n \<le> pa_live s\<close> by (simp add: unat_sub)
  moreover have "pa_live s - n \<le> pa_peak s"
    using \<open>n \<le> pa_live s\<close> st(2) by (metis order.trans word_sub_le)
  ultimately show ?thesis
    using inv wf sp acc frame L st by (auto simp: pa_inv_def pa_semi_def)
qed

lemma pa_free_guard:
  assumes inv: "pa_inv s L" and x: "(unat p, unat n) \<in> set L"
  shows "p \<noteq> 0" "n \<noteq> 0" "\<not> p < pa_base s" "\<not> p + n > pa_end s" "\<not> p + n < p"
    and "unat (p + n) = unat p + unat n" "unat p + unat n \<le> unat (pa_next s)"
proof -
  have ps: "page_span (unat (pa_base s)) (unat (pa_next s)) (unat p, unat n)" and wf: "pa_wf s"
    using inv x by (auto simp: pa_inv_def pa_semi_def spans_ok_def pa_live_ok_def)
  then show le: "unat p + unat n \<le> unat (pa_next s)" by (simp add: page_span_def)
  then show sum: "unat (p + n) = unat p + unat n"
    using u64_bound [of "pa_next s"] by (simp add: unat_add_no_wrap)
  show "p \<noteq> 0" "n \<noteq> 0" using ps wf by (auto simp: page_span_def pa_wf_def)
  show "\<not> p < pa_base s" "\<not> p + n > pa_end s" "\<not> p + n < p"
    using ps wf sum le by (auto simp: page_span_def pa_wf_def word_less_nat_alt)
qed


lemma apart_merge:
  "apart x y \<Longrightarrow> apart b y \<Longrightarrow> fst x + snd x = fst b \<Longrightarrow> 0 < snd y \<Longrightarrow> apart (fst x, snd x + snd b) y"
  by (auto simp: apart_def)

lemma give_ok:
  assumes "pa_inv s L" and x: "(unat p, unat n) \<in> set L"
  shows "spans_ok (unat (pa_base s)) (unat (pa_next s)) (hole_spans s) (remove1 (unat p, unat n) L)"
    and "page_span (unat (pa_base s)) (unat (pa_next s)) (unat p, unat n)"
    and "\<forall>y \<in> set (remove1 (unat p, unat n) L). apart (unat p, unat n) y"
  using spans_ok_live_remove [OF _ x] assms by (auto simp: pa_inv_def pa_semi_def)

lemma hole_bounds:
  "pa_inv s L \<Longrightarrow> a \<in> set (pa_holes s) \<Longrightarrow>
   unat (rg_base a) + unat (rg_len a) \<le> unat (pa_next s)"
  using pa_semi_nowrap [of s L "hole_span a"] by (auto simp: pa_inv_def hole_spans_def hole_span_def)

lemma hole_span_sum:
  "pa_inv s L \<Longrightarrow> a \<in> set (pa_holes s) \<Longrightarrow>
   unat (rg_base a + rg_len a) = fst (hole_span a) + snd (hole_span a)"
  using hole_bounds [of s L a] u64_bound [of "pa_next s"] by (simp add: unat_add_no_wrap hole_span_def)

text \<open>The four ways a freed span joins the holes, with the bytes each adds.\<close>

lemma free_join_both:
  assumes inv: "pa_inv s L" and x: "(unat p, unat n) \<in> set L" and H: "pa_holes s = ps @ a # b # qs"
    and a: "rg_base a + rg_len a = p" and b: "p + n = rg_base b"
  defines "R \<equiv> map hole_span (ps @ a\<lparr>rg_len := rg_len a + (n + rg_len b)\<rparr> # qs)"
  shows "spans_ok (unat (pa_base s)) (unat (pa_next s)) R (remove1 (unat p, unat n) L)"
    and "span_bytes R = span_bytes (hole_spans s) + unat n"
proof -
  let ?x = "(unat p, unat n + unat (rg_len b))" let ?L = "remove1 (unat p, unat n) L"
  note give = give_ok [OF inv x] note g = pa_free_guard [OF inv x]
  have av: "fst (hole_span a) + snd (hole_span a) = unat p" using hole_span_sum [OF inv, of a] H a by simp
  have bv: "unat p + unat n = fst (hole_span b)" using g(6) b by (simp add: hole_span_def)
  have bb: "unat (rg_base b) + unat (rg_len b) < 2 ^ 64"
    using hole_bounds [OF inv, of b] H u64_bound [of "pa_next s"] by simp
  have "unat (rg_len a) + (unat n + unat (rg_len b)) < 2 ^ 64"
    using bb av bv by (simp add: hole_span_def)
  then have a': "hole_span (a\<lparr>rg_len := rg_len a + (n + rg_len b)\<rparr>) = (fst (hole_span a), snd (hole_span a) + snd ?x)"
    by (simp add: hole_span_def unat_add_no_wrap)
  have H': "hole_spans s = map hole_span ps @ hole_span a # hole_span b # map hole_span qs"
    by (simp add: hole_spans_def H)
  have ok: "spans_ok (unat (pa_base s)) (unat (pa_next s)) (map hole_span ps @ hole_span a # map hole_span qs) ?L"
    using spans_ok_delete [of _ _ "map hole_span ps @ [hole_span a]" "hole_span b" "map hole_span qs" ?L] give(1) H'
    by simp
  have pb: "page_span (unat (pa_base s)) (unat (pa_next s)) (hole_span b)"
    using give(1) H' by (simp add: spans_ok_def)
  show "spans_ok (unat (pa_base s)) (unat (pa_next s)) R ?L"
    unfolding R_def map_append list.map a'
  proof (rule spans_ok_join_prev [OF ok])
    show "page_span (unat (pa_base s)) (unat (pa_next s)) ?x"
      using give(2) pb bv by (auto simp: page_span_def hole_span_def)
    show "\<forall>y \<in> set ?L. apart ?x y"
    proof
      fix y assume y: "y \<in> set ?L"
      then have "apart (hole_span b) y" "0 < snd y"
        using give(1) H' by (auto simp: spans_ok_def pa_live_ok_def page_span_def intro: apart_sym)
      then show "apart ?x y"
        using apart_merge [of "(unat p, unat n)" y "hole_span b"] give(3) y bv by (simp add: hole_span_def)
    qed
    show "fst (hole_span a) + snd (hole_span a) = fst ?x" using av by simp
    show "\<forall>h \<in> set (map hole_span qs). fst ?x + snd ?x < fst h"
      using give(1) H' bv by (auto simp: spans_ok_def sorted_wrt_append gap_before_def hole_span_def)
  qed
  show "span_bytes R = span_bytes (hole_spans s) + unat n"
    unfolding R_def map_append list.map a' by (simp add: H' hole_span_def)
qed

lemma free_join_prev:
  assumes inv: "pa_inv s L" and x: "(unat p, unat n) \<in> set L" and H: "pa_holes s = ps @ a # qs"
    and a: "rg_base a + rg_len a = p" and q: "\<forall>h \<in> set (map hole_span qs). unat p + unat n < fst h"
  defines "R \<equiv> map hole_span (ps @ a\<lparr>rg_len := rg_len a + n\<rparr> # qs)"
  shows "spans_ok (unat (pa_base s)) (unat (pa_next s)) R (remove1 (unat p, unat n) L)"
    and "span_bytes R = span_bytes (hole_spans s) + unat n"
proof -
  let ?L = "remove1 (unat p, unat n) L"
  note give = give_ok [OF inv x] note g = pa_free_guard [OF inv x]
  have av: "fst (hole_span a) + snd (hole_span a) = unat p" using hole_span_sum [OF inv, of a] H a by simp
  have a': "hole_span (a\<lparr>rg_len := rg_len a + n\<rparr>) = (fst (hole_span a), snd (hole_span a) + snd (unat p, unat n))"
    using av g(7) u64_bound [of "pa_next s"] by (simp add: hole_span_def unat_add_no_wrap)
  have H': "hole_spans s = map hole_span ps @ hole_span a # map hole_span qs"
    by (simp add: hole_spans_def H)
  show "spans_ok (unat (pa_base s)) (unat (pa_next s)) R ?L"
    unfolding R_def map_append list.map a'
    by (rule spans_ok_join_prev) (use give av q H' in simp_all)
  show "span_bytes R = span_bytes (hole_spans s) + unat n"
    unfolding R_def map_append list.map a' by (simp add: H' hole_span_def)
qed

lemma free_join_next:
  assumes inv: "pa_inv s L" and x: "(unat p, unat n) \<in> set L" and H: "pa_holes s = ps @ b # qs"
    and b: "p + n = rg_base b" and q: "\<forall>h \<in> set (map hole_span ps). fst h + snd h < unat p"
  defines "R \<equiv> map hole_span (ps @ \<lparr>rg_base = p, rg_len = rg_len b + n\<rparr> # qs)"
  shows "spans_ok (unat (pa_base s)) (unat (pa_next s)) R (remove1 (unat p, unat n) L)"
    and "span_bytes R = span_bytes (hole_spans s) + unat n"
proof -
  let ?L = "remove1 (unat p, unat n) L"
  note give = give_ok [OF inv x] note g = pa_free_guard [OF inv x]
  have bv: "unat p + unat n = fst (hole_span b)" using g(6) b by (simp add: hole_span_def)
  have "unat (rg_base b) + unat (rg_len b) < 2 ^ 64"
    using hole_bounds [OF inv, of b] H u64_bound [of "pa_next s"] by simp
  then have b': "hole_span \<lparr>rg_base = p, rg_len = rg_len b + n\<rparr> = (fst (unat p, unat n), snd (hole_span b) + snd (unat p, unat n))"
    using bv by (simp add: hole_span_def unat_add_no_wrap)
  have H': "hole_spans s = map hole_span ps @ hole_span b # map hole_span qs"
    by (simp add: hole_spans_def H)
  show "spans_ok (unat (pa_base s)) (unat (pa_next s)) R ?L"
    unfolding R_def map_append list.map b'
    by (rule spans_ok_join_next) (use give bv q H' in simp_all)
  show "span_bytes R = span_bytes (hole_spans s) + unat n"
    unfolding R_def map_append list.map b' by (simp add: H' hole_span_def)
qed

lemma free_insert:
  assumes inv: "pa_inv s L" and x: "(unat p, unat n) \<in> set L" and H: "pa_holes s = ps @ qs"
    and q: "\<forall>h \<in> set (map hole_span ps). fst h + snd h < unat p"
      "\<forall>h \<in> set (map hole_span qs). unat p + unat n < fst h"
  defines "R \<equiv> map hole_span (ps @ \<lparr>rg_base = p, rg_len = n\<rparr> # qs)"
  shows "spans_ok (unat (pa_base s)) (unat (pa_next s)) R (remove1 (unat p, unat n) L)"
    and "span_bytes R = span_bytes (hole_spans s) + unat n"
proof -
  note give = give_ok [OF inv x]
  have x': "hole_span \<lparr>rg_base = p, rg_len = n\<rparr> = (unat p, unat n)" by (simp add: hole_span_def)
  have H': "hole_spans s = map hole_span ps @ map hole_span qs" by (simp add: hole_spans_def H)
  show "spans_ok (unat (pa_base s)) (unat (pa_next s)) R (remove1 (unat p, unat n) L)"
    unfolding R_def map_append list.map x'
    by (rule spans_ok_insert) (use give q H' in simp_all)
  show "span_bytes R = span_bytes (hole_spans s) + unat n"
    unfolding R_def map_append list.map x' by (simp add: H' hole_span_def)
qed


lemma holes_strictly_before:
  assumes inv: "pa_inv s L" and H: "pa_holes s = ps @ qs"
    and le: "\<forall>h \<in> set (map hole_span ps). fst h + snd h \<le> unat p"
    and no: "\<not> (ps \<noteq> [] \<and> rg_base (last ps) + rg_len (last ps) = p)"
  shows "\<forall>h \<in> set (map hole_span ps). fst h + snd h < unat p"
proof (cases ps rule: rev_cases)
  case (snoc ps' a)
  then have "unat (rg_base a + rg_len a) \<noteq> unat p" using no by (simp add: word_unat_eq_iff)
  then have a: "fst (hole_span a) + snd (hole_span a) < unat p"
    using hole_span_sum [OF inv, of a] H snoc le by simp
  moreover have "fst (hole_span r) + snd (hole_span r) < unat p" if "r \<in> set ps'" for r
    using inv H snoc that a
    by (fastforce simp: pa_inv_def pa_semi_def spans_ok_def hole_spans_def sorted_wrt_append gap_before_def)
  ultimately show ?thesis using snoc by auto
qed simp

lemma holes_strictly_after:
  assumes inv: "pa_inv s L" and x: "(unat p, unat n) \<in> set L" and H: "pa_holes s = ps @ qs"
    and le: "\<forall>h \<in> set (map hole_span qs). unat p + unat n \<le> fst h"
    and no: "\<not> (qs \<noteq> [] \<and> p + n = rg_base (hd qs))"
  shows "\<forall>h \<in> set (map hole_span qs). unat p + unat n < fst h"
proof (cases qs)
  case (Cons a qs')
  then have "unat (p + n) \<noteq> unat (rg_base a)" using no by (simp add: word_unat_eq_iff)
  then have a: "unat p + unat n < fst (hole_span a)"
    using pa_free_guard(6) [OF inv x] Cons le by (simp add: hole_span_def)
  moreover have "unat p + unat n < fst (hole_span r)" if "r \<in> set qs'" for r
    using inv H Cons that a
    by (fastforce simp: pa_inv_def pa_semi_def spans_ok_def hole_spans_def sorted_wrt_append gap_before_def)
  ultimately show ?thesis using Cons by auto
qed simp

lemma pa_free_tail_inv:
  assumes inv: "pa_inv s L" and x: "(unat p, unat n) \<in> set L" and t: "p + n = pa_next s"
  shows "pa_inv (pa_absorb_tail (s\<lparr>pa_live := (if pa_live s \<ge> n then pa_live s - n else 0), pa_next := p\<rparr>))
           (remove1 (unat p, unat n) L)"
proof (rule pa_absorb_tail_inv, rule pa_semi_give_back [OF inv x])
  let ?s = "s\<lparr>pa_live := (if pa_live s \<ge> n then pa_live s - n else 0), pa_next := p\<rparr>"
  note give = give_ok [OF inv x] note g = pa_free_guard [OF inv x]
  have nx: "unat (pa_next s) = unat p + unat n" using g(6) t by simp
  have hs: "\<forall>h \<in> set (hole_spans s). apart (unat p, unat n) h"
    using spans_ok_live_remove(4) [OF _ x] inv by (auto simp: pa_inv_def pa_semi_def)
  show "pa_wf ?s" using inv give(2) g(7) by (auto simp: pa_inv_def pa_semi_def pa_wf_def page_span_def)
  show "spans_ok (unat (pa_base s)) (unat (pa_next ?s)) (hole_spans ?s) (remove1 (unat p, unat n) L)"
    using spans_ok_lower [of _ "unat p" "unat n" "hole_spans s"] give nx hs by (simp add: page_span_def)
  show "span_bytes (hole_spans ?s) + unat (pa_lost_bytes ?s) + unat (pa_next s)
      = span_bytes (hole_spans s) + unat (pa_lost_bytes s) + unat n + unat (pa_next ?s)"
    using nx by simp
qed simp_all

text \<open>\<open>pa_free\<close> of a live span, in terms of the holes on its two sides.\<close>

lemma pa_free_live_eq:
  fixes s p len
  defines "n \<equiv> pa_round len"
    and "ps \<equiv> takeWhile (\<lambda>r. rg_base r < p) (pa_holes s)"
    and "qs \<equiv> dropWhile (\<lambda>r. rg_base r < p) (pa_holes s)"
  defines "s1 \<equiv> s\<lparr>pa_live := (if pa_live s \<ge> n then pa_live s - n else 0)\<rparr>"
    and "prv \<equiv> ps \<noteq> [] \<and> rg_base (last ps) + rg_len (last ps) = p"
    and "nxt \<equiv> qs \<noteq> [] \<and> p + n = rg_base (hd qs)"
  assumes inv: "pa_inv s L" and x: "(unat p, unat n) \<in> set L"
  shows "pa_free p len s =
    (if p + n = pa_next s then (0, pa_absorb_tail (s1\<lparr>pa_next := p\<rparr>))
     else if prv \<and> nxt then
       (0, pa_absorb_tail (pa_remove (length ps) (s1\<lparr>pa_free_list := (pa_free_list s)[length ps - 1 :=
            (last ps)\<lparr>rg_len := rg_len (last ps) + (n + rg_len (hd qs))\<rparr>]\<rparr>)))
     else if prv then (0, pa_absorb_tail (s1\<lparr>pa_free_list := (pa_free_list s)[length ps - 1 :=
            (last ps)\<lparr>rg_len := rg_len (last ps) + n\<rparr>]\<rparr>))
     else if nxt then (0, pa_absorb_tail (s1\<lparr>pa_free_list := (pa_free_list s)[length ps :=
            \<lparr>rg_base = p, rg_len = rg_len (hd qs) + n\<rparr>]\<rparr>))
     else if pa_nfree s < PA_MAX_FREE then (0, pa_absorb_tail (pa_insert (length ps) p n s1))
     else (-1, s1\<lparr>pa_lost_bytes := pa_lost_bytes s + n\<rparr>))"
proof -
  note g = pa_free_guard [OF inv x]
  note at = pa_free_place(4) [OF inv x, folded ps_def]
  have H: "pa_holes s = ps @ qs" by (simp add: ps_def qs_def)
  have len: "length ps + length qs = pa_nfree s"
    using arg_cong [OF H, of length] inv by (simp add: pa_holes_def pa_inv_def pa_semi_def pa_wf_def)
  have nth: "pa_free_list s ! i = (ps @ qs) ! i" if "i < pa_nfree s" for i
    using that H by (metis nth_take pa_holes_def)
  have l: "pa_free_list s ! (length ps - 1) = last ps" if "ps \<noteq> []"
  proof -
    have "length ps - 1 < pa_nfree s" "length ps - 1 < length ps" using that len by (cases ps; simp)+
    with that nth [of "length ps - 1"] show ?thesis by (simp add: last_conv_nth nth_append)
  qed
  have h: "pa_free_list s ! length ps = hd qs" if "qs \<noteq> []"
  proof -
    have "length ps < pa_nfree s" using that len by (cases qs) auto
    with that nth [of "length ps"] show ?thesis by (simp add: hd_conv_nth nth_append)
  qed
  have c: "(length ps < pa_nfree s) = (qs \<noteq> [])" "(0 < length ps) = (ps \<noteq> [])"
    unfolding len [symmetric] by simp_all
  have "prv \<Longrightarrow> pa_free_list s ! (length ps - 1) = last ps" "nxt \<Longrightarrow> pa_free_list s ! length ps = hd qs"
    using l h by (auto simp: prv_def nxt_def)
  moreover have "(0 < length ps \<and> rg_base (pa_free_list s ! (length ps - 1)) + rg_len (pa_free_list s ! (length ps - 1)) = p) = prv"
    "(length ps < pa_nfree s \<and> p + n = rg_base (pa_free_list s ! length ps)) = nxt"
    unfolding c prv_def nxt_def using l h by (metis, metis)
  ultimately show ?thesis
    unfolding pa_free_def Let_def n_def [symmetric] s1_def [symmetric]
    using g(1-5) at by (simp add: s1_def cong: if_cong)
qed

lemma pa_free_lost_inv:
  assumes inv: "pa_inv s L" and x: "(unat p, unat n) \<in> set L"
  shows "pa_inv (s\<lparr>pa_live := (if pa_live s \<ge> n then pa_live s - n else 0),
             pa_lost_bytes := pa_lost_bytes s + n\<rparr>) (remove1 (unat p, unat n) L)"
    (is "pa_inv ?s _")
proof -
  have "unat (pa_lost_bytes s) + unat n \<le> unat (pa_next s)"
    using inv span_bytes_remove1 [OF x] by (simp add: pa_inv_def pa_semi_def)
  then have lost: "unat (pa_lost_bytes s + n) = unat (pa_lost_bytes s) + unat n"
    using u64_bound [of "pa_next s"] by (simp add: unat_add_no_wrap)
  have "pa_semi ?s (remove1 (unat p, unat n) L)"
    by (rule pa_semi_give_back [OF inv x])
      (use inv give_ok(1) [OF inv x] lost in \<open>simp_all add: pa_inv_def pa_semi_def pa_wf_def\<close>)
  then show ?thesis using inv by (simp add: pa_inv_def)
qed

lemma pa_free_inv:
  assumes inv: "pa_inv s L" and x: "(unat p, unat (pa_round len)) \<in> set L"
    and f: "pa_free p len s = (rc, s')"
  shows "pa_inv s' (remove1 (unat p, unat (pa_round len)) L)"
proof -
  define n where "n = pa_round len"
  define s1 where "s1 = s\<lparr>pa_live := (if pa_live s \<ge> n then pa_live s - n else 0)\<rparr>"
  define ps where "ps = takeWhile (\<lambda>r. rg_base r < p) (pa_holes s)"
  define qs where "qs = dropWhile (\<lambda>r. rg_base r < p) (pa_holes s)"
  let ?L = "remove1 (unat p, unat n) L" let ?fl = "pa_free_list s"
  have xn: "(unat p, unat n) \<in> set L" using x by (simp add: n_def)
  note place = pa_free_place [OF inv xn, folded ps_def qs_def]
  note eq = pa_free_live_eq [OF inv x, folded n_def, folded ps_def qs_def s1_def]
  have H: "pa_holes s = ps @ qs" by (simp add: ps_def qs_def)
  have len: "length ps + length qs = pa_nfree s" "length ?fl = PA_MAX_FREE" "pa_nfree s \<le> PA_MAX_FREE"
    using arg_cong [OF H, of length] inv by (auto simp: pa_holes_def pa_inv_def pa_semi_def pa_wf_def)
  have fl1: "pa_free_list s1 = ?fl" "pa_nfree s1 = pa_nfree s" "pa_holes s1 = pa_holes s"
    by (simp_all add: s1_def)
  have wf1: "pa_wf s1" using inv by (simp add: pa_inv_def pa_semi_def pa_wf_def s1_def)
  have semi: "pa_semi t ?L"
    if "pa_base t = pa_base s" "pa_end t = pa_end s" "pa_peak t = pa_peak s" "pa_live t = pa_live s1"
      "pa_next t = pa_next s" "pa_wf t" "hole_spans t = R"
      "spans_ok (unat (pa_base s)) (unat (pa_next s)) R ?L"
      "span_bytes R = span_bytes (hole_spans s) + unat n" "pa_lost_bytes t = pa_lost_bytes s" for t R
    by (rule pa_semi_give_back [OF inv xn]) (use that in \<open>simp_all add: s1_def\<close>)
  have before: "\<not> (ps \<noteq> [] \<and> rg_base (last ps) + rg_len (last ps) = p) \<Longrightarrow>
      \<forall>h \<in> set (map hole_span ps). fst h + snd h < unat p"
    by (rule holes_strictly_before [OF inv H place(2)])
  have after: "\<not> (qs \<noteq> [] \<and> p + n = rg_base (hd qs)) \<Longrightarrow>
      \<forall>h \<in> set (map hole_span qs). unat p + unat n < fst h"
    by (rule holes_strictly_after [OF inv xn H place(3)])
  show ?thesis
    unfolding n_def [symmetric]
  proof (cases "p + n = pa_next s")
    case True
    with f eq pa_free_tail_inv [OF inv xn True] show "pa_inv s' ?L" by (simp add: s1_def)
  next
    case nt: False
    show "pa_inv s' ?L"
    proof (cases "ps \<noteq> [] \<and> rg_base (last ps) + rg_len (last ps) = p")
      case prv: True
      then obtain ps' a where ps: "ps = ps' @ [a]" by (cases ps rule: rev_cases) auto
      show ?thesis
      proof (cases "qs \<noteq> [] \<and> p + n = rg_base (hd qs)")
        case nxt: True
        then obtain b qs' where qs: "qs = b # qs'" by (cases qs) auto
        let ?a = "a\<lparr>rg_len := rg_len a + (n + rg_len b)\<rparr>"
        let ?u = "s1\<lparr>pa_free_list := ?fl[length ps - 1 := ?a]\<rparr>"
        have hu: "pa_holes ?u = ps' @ ?a # b # qs'"
          using holes_update [of s1 "length ps - 1" ?a] by (simp add: fl1 H ps qs)
        have t: "hole_spans (pa_remove (length ps) ?u) = map hole_span (ps' @ ?a # qs')"
          using holes_remove [of "length ps" ?u] len hu by (simp add: hole_spans_def ps qs fl1)
        have "pa_semi (pa_remove (length ps) ?u) ?L"
          using wf1 len H prv nxt
          by (intro semi [OF _ _ _ _ _ _ t] free_join_both [OF inv xn])
            (auto simp: pa_remove_def s1_def pa_wf_def ps qs)
        with f eq nt prv nxt show ?thesis by (auto simp: ps qs pa_absorb_tail_inv)
      next
        case nxt: False
        let ?a = "a\<lparr>rg_len := rg_len a + n\<rparr>" let ?u = "s1\<lparr>pa_free_list := ?fl[length ps - 1 := ?a]\<rparr>"
        have t: "hole_spans ?u = map hole_span (ps' @ ?a # qs)"
          using holes_update [of s1 "length ps - 1" ?a] by (simp add: fl1 H ps hole_spans_def)
        have "pa_semi ?u ?L"
          using wf1 H prv after [OF nxt]
          by (intro semi [OF _ _ _ _ _ _ t] free_join_prev [OF inv xn]) (auto simp: s1_def pa_wf_def ps)
        with f eq nt prv nxt show ?thesis by (auto simp: ps pa_absorb_tail_inv)
      qed
    next
      case prv: False
      show ?thesis
      proof (cases "qs \<noteq> [] \<and> p + n = rg_base (hd qs)")
        case nxt: True
        then obtain b qs' where qs: "qs = b # qs'" by (cases qs) auto
        let ?b = "\<lparr>rg_base = p, rg_len = rg_len b + n\<rparr>" let ?u = "s1\<lparr>pa_free_list := ?fl[length ps := ?b]\<rparr>"
        have t: "hole_spans ?u = map hole_span (ps @ ?b # qs')"
          using holes_update [of s1 "length ps" ?b] by (simp add: fl1 H qs hole_spans_def)
        have "pa_semi ?u ?L"
          using wf1 H nxt before [OF prv]
          by (intro semi [OF _ _ _ _ _ _ t] free_join_next [OF inv xn]) (auto simp: s1_def pa_wf_def qs)
        with f eq nt prv nxt show ?thesis by (auto simp: qs pa_absorb_tail_inv)
      next
        case nxt: False
        show ?thesis
        proof (cases "pa_nfree s < PA_MAX_FREE")
          case True
          have t: "hole_spans (pa_insert (length ps) p n s1) =
              map hole_span (ps @ \<lparr>rg_base = p, rg_len = n\<rparr> # qs)"
            using holes_insert [of "length ps" s1] len True by (simp add: fl1 H hole_spans_def)
          have "pa_semi (pa_insert (length ps) p n s1) ?L"
            using wf1 H True before [OF prv] after [OF nxt]
            by (intro semi [OF _ _ _ _ _ _ t] free_insert [OF inv xn]) (auto simp: pa_insert_def s1_def pa_wf_def)
          with f eq nt prv nxt True show ?thesis by (auto simp: pa_absorb_tail_inv)
        next
          case False
          with f eq nt prv nxt pa_free_lost_inv [OF inv xn] show ?thesis by (auto simp: s1_def)
        qed
      qed
    qed
  qed
qed


section \<open>Runs of the allocator\<close>

lemma pa_step_inv: "pa_step x y \<Longrightarrow> pa_inv (fst x) (snd x) \<Longrightarrow> pa_inv (fst y) (snd y)"
proof (induction rule: pa_step.induct)
  case (alloc_ok want s p s' L)
  then show ?case using pa_alloc_inv [of s L want p s'] by simp
next
  case (alloc_fail want s s' L)
  then show ?case using pa_alloc_inv [of s L want 0 s'] by simp
next
  case (free p len L s rc s')
  then show ?case using pa_free_inv [of s L p len rc s'] by simp
qed

lemma pa_reach_inv: "pa_reach s0 y \<Longrightarrow> pa_inv s0 [] \<Longrightarrow> pa_inv (fst y) (snd y)"
  by (induction rule: pa_reach.induct) (auto dest: pa_step_inv)

lemma pa_init_inv:
  assumes "length (pa_free_list s) = PA_MAX_FREE" and "0 < base" and "unat base \<le> 2 ^ 64 - 4096 - 1"
  shows "pa_inv (pa_init base len s) []"
proof -
  have r: "unat base \<le> unat (pa_round base)" using pa_round_up [of base] assms(3) by simp
  then have "0 < unat (pa_round base)" using assms(2) by (simp add: word_less_nat_alt)
  with assms(1) pa_round_dvd [of base] show ?thesis
    by (auto simp: pa_init_def Let_def pa_inv_def pa_semi_def pa_wf_def spans_ok_def pa_live_ok_def
        hole_spans_def pa_holes_def word_less_nat_alt)
qed


lemma pa_absorb_tail_frame [simp]:
  "pa_base (pa_absorb_tail s) = pa_base s" "pa_end (pa_absorb_tail s) = pa_end s"
  by (induction s rule: pa_absorb_tail.induct) (subst pa_absorb_tail.simps, simp)+

lemma pa_alloc_frame:
  "pa_base (snd (pa_alloc w s)) = pa_base s" "pa_end (snd (pa_alloc w s)) = pa_end s"
  by (auto simp: pa_alloc_def Let_def pa_remove_def split: option.splits)

lemma pa_free_frame:
  "pa_base (snd (pa_free p n s)) = pa_base s" "pa_end (snd (pa_free p n s)) = pa_end s"
  by (simp_all add: pa_free_def Let_def pa_remove_def pa_insert_def)

lemma pa_reach_frame: "pa_reach s0 y \<Longrightarrow> pa_base (fst y) = pa_base s0 \<and> pa_end (fst y) = pa_end s0"
proof (induction rule: pa_reach.induct)
  case (step x y)
  from step.hyps(2) have "pa_base (fst y) = pa_base (fst x) \<and> pa_end (fst y) = pa_end (fst x)"
    by (cases rule: pa_step.cases) (metis fst_conv snd_conv pa_alloc_frame pa_free_frame)+
  with step.IH show ?case by simp
qed simp

text \<open>Holes that never touch leave room: a region all of whose bytes are in holes has none.\<close>

lemma gaps_leave_room:
  "sorted_wrt gap_before H \<Longrightarrow> \<forall>h \<in> set H. lo \<le> fst h \<and> fst h + snd h < hi \<Longrightarrow> H \<noteq> [] \<Longrightarrow>
   lo + span_bytes H < hi"
proof (induction H arbitrary: lo)
  case (Cons h H)
  show ?case
  proof (cases "H = []")
    case False
    have "fst h + snd h + span_bytes H < hi"
      using Cons False by (intro Cons.IH) (auto simp: gap_before_def)
    with Cons.prems show ?thesis by auto
  qed (use Cons.prems in auto)
qed simp

lemma pa_inv_all_free:
  assumes "pa_inv s []" and "pa_lost_bytes s = 0"
  shows "pa_nfree s = 0" and "pa_next s = pa_base s"
proof -
  have H: "hole_spans s = []"
  proof (rule ccontr)
    assume "hole_spans s \<noteq> []"
    then have "unat (pa_base s) + span_bytes (hole_spans s) < unat (pa_next s)"
      using assms(1) by (intro gaps_leave_room) (auto simp: pa_inv_def pa_semi_def spans_ok_def page_span_def)
    with assms show False by (simp add: pa_inv_def pa_semi_def)
  qed
  then show "pa_nfree s = 0"
    using assms(1) by (auto simp: hole_spans_def pa_holes_def pa_inv_def pa_semi_def pa_wf_def)
  show "pa_next s = pa_base s"
    using assms H by (simp add: pa_inv_def pa_semi_def word_unat_eq_iff)
qed

lemma pa_stats_loop_eq:
  assumes "n \<le> length a" and "unat x + (\<Sum>r \<leftarrow> drop i (take n a). unat (rg_len r)) < 2 ^ 64"
  shows "unat (fst (pa_stats_loop a n i (x, y))) = unat x + (\<Sum>r \<leftarrow> drop i (take n a). unat (rg_len r))
    \<and> snd (pa_stats_loop a n i (x, y)) = fold (\<lambda>r m. max (rg_len r) m) (drop i (take n a)) y"
  using assms
proof (induction "n - i" arbitrary: i x y)
  case 0
  then show ?case by (subst (1 2) pa_stats_loop.simps) simp
next
  case (Suc k)
  then have "i < n" by simp
  then have d: "drop i (take n a) = a ! i # drop (Suc i) (take n a)"
    using Suc.prems(1) by (simp flip: Cons_nth_drop_Suc)
  have sum: "unat (x + rg_len (a ! i)) = unat x + unat (rg_len (a ! i))"
    using Suc.prems(2) by (simp add: d unat_add_no_wrap)
  let ?y = "if rg_len (a ! i) > y then rg_len (a ! i) else y"
  have "unat (fst (pa_stats_loop a n (Suc i) (x + rg_len (a ! i), ?y)))
      = unat (x + rg_len (a ! i)) + (\<Sum>r \<leftarrow> drop (Suc i) (take n a). unat (rg_len r))
    \<and> snd (pa_stats_loop a n (Suc i) (x + rg_len (a ! i), ?y))
      = fold (\<lambda>r m. max (rg_len r) m) (drop (Suc i) (take n a)) ?y"
    using Suc by (intro Suc.hyps(1)) (simp_all add: d sum)
  moreover have "?y = max (rg_len (a ! i)) y" by (auto simp: max_def)
  moreover have "pa_stats_loop a n i (x, y) = pa_stats_loop a n (Suc i) (x + rg_len (a ! i), ?y)"
    using \<open>i < n\<close> by (subst pa_stats_loop.simps) simp
  ultimately show ?case by (simp add: d sum split del: if_split)
qed

section \<open>What the allocator promises\<close>

lemma pa_boot_inv:
  assumes "0 < base" and "unat base + unat len < 2 ^ 64 - 4096"
  shows "pa_inv (pa_init base len pa_boot) []"
  using assms by (intro pa_init_inv) (simp_all add: pa_boot_def)

lemma pa_init_end:
  assumes "unat base + unat len < 2 ^ 64 - 4096" "p + n \<le> unat (pa_end (pa_init base len s))"
    "unat (pa_base (pa_init base len s)) \<le> p" "0 < n"
  shows "p + n \<le> unat base + unat len"
proof -
  have e: "unat (base + len) = unat base + unat len" using assms(1) by (simp add: unat_add_no_wrap)
  show ?thesis
  proof (cases "base + len < pa_round base")
    case True
    then show ?thesis using assms by (simp add: pa_init_def Let_def)
  next
    case False
    then show ?thesis using assms e by (simp add: pa_init_def Let_def)
  qed
qed

text \<open>C1. Over every run in which each range given back is one that was handed out, the ranges a
  client holds are pairwise disjoint, page aligned, nonempty and inside the region given to
  \<open>pa_init\<close>: the page allocator never hands the same page out twice.\<close>

theorem pa_live_disjoint:
  assumes "0 < base" and "unat base + unat len < 2 ^ 64 - 4096"
    and "pa_reach (pa_init base len pa_boot) (s, L)"
  shows "sorted_wrt apart L \<and>
    (\<forall>(p, n) \<in> set L. 4096 dvd p \<and> 4096 dvd n \<and> 0 < n \<and> unat base \<le> p \<and> p + n \<le> unat base + unat len)"
proof -
  let ?s0 = "pa_init base len pa_boot"
  have inv: "pa_inv s L" using pa_reach_inv [OF assms(3) pa_boot_inv [OF assms(1,2)]] by simp
  have fr: "pa_base s = pa_base ?s0" "pa_end s = pa_end ?s0" using pa_reach_frame [OF assms(3)] by simp_all
  have rb: "unat base \<le> unat (pa_base ?s0)"
    using pa_round_up [of base] assms(2) by (simp add: pa_init_def Let_def)
  have "4096 dvd p \<and> 4096 dvd n \<and> 0 < n \<and> unat base \<le> p \<and> p + n \<le> unat base + unat len"
    if "(p, n) \<in> set L" for p n
  proof -
    have ps: "page_span (unat (pa_base ?s0)) (unat (pa_next s)) (p, n)" and le: "unat (pa_next s) \<le> unat (pa_end ?s0)"
      using inv that fr by (auto simp: pa_inv_def pa_semi_def spans_ok_def pa_live_ok_def pa_wf_def)
    have "p + n \<le> unat base + unat len"
      using ps le by (intro pa_init_end [OF assms(2)]) (auto simp: page_span_def)
    then show ?thesis using ps rb by (auto simp: page_span_def)
  qed
  then show ?thesis using inv by (auto simp: pa_inv_def pa_semi_def spans_ok_def pa_live_ok_def)
qed


lemma pa_boot_alloc:
  "pa_alloc 5000 (pa_init 4096 65536 pa_boot) =
     (4096, (pa_init 4096 65536 pa_boot)\<lparr>pa_next := 12288, pa_live := 8192, pa_peak := 8192\<rparr>)"
  by (simp add: pa_alloc_def pa_init_def pa_round_def pa_boot_def pa_best.simps pa_count_live_def Let_def)

lemma pa_boot_run:
  "pa_reach (pa_init 4096 65536 pa_boot)
     ((pa_init 4096 65536 pa_boot)\<lparr>pa_next := 12288, pa_live := 8192, pa_peak := 8192\<rparr>, [(4096, 8192)])"
proof -
  have "pa_step (pa_init 4096 65536 pa_boot, [])
      ((pa_init 4096 65536 pa_boot)\<lparr>pa_next := 12288, pa_live := 8192, pa_peak := 8192\<rparr>,
       [(unat (4096 :: u64), unat (pa_round 5000))])"
    by (rule pa_step.alloc_ok [OF pa_boot_alloc]) simp
  then show ?thesis using pa_reach.step [OF pa_reach.start] by (simp add: pa_round_def)
qed

theorem pa_live_disjoint_witness:
  "\<exists>s. pa_reach (pa_init 4096 65536 pa_boot) (s, [(4096, 8192)]) \<and> sorted_wrt apart [(4096, 8192)] \<and>
    (\<forall>(p, n) \<in> set [(4096, 8192)]. 4096 dvd p \<and> 4096 dvd n \<and> 0 < n \<and> 4096 \<le> p \<and> p + n \<le> 4096 + (65536::nat))"
  using pa_boot_run pa_live_disjoint [OF _ _ pa_boot_run] by auto

text \<open>C2. Every byte of the region is accounted for: what \<open>pa_stats\<close> reports as live is exactly
  what clients hold, and live, available and lost bytes always add up to the whole region.\<close>

theorem pa_stats_conservation:
  assumes "0 < base" and "unat base + unat len < 2 ^ 64 - 4096"
    and "pa_reach (pa_init base len pa_boot) (s, L)"
  shows "unat (st_live (pa_stats s)) = span_bytes L \<and> st_live (pa_stats s) \<le> st_peak (pa_stats s) \<and>
    unat (st_live (pa_stats s)) + unat (st_avail (pa_stats s)) + unat (st_lost (pa_stats s))
      = unat (pa_end s) - unat (pa_base s)"
proof -
  have inv: "pa_inv s L" using pa_reach_inv [OF assms(3) pa_boot_inv [OF assms(1,2)]] by simp
  note st = inv [unfolded pa_inv_def pa_semi_def pa_wf_def]
  let ?t = "pa_end s - pa_next s"
  have t: "unat ?t = unat (pa_end s) - unat (pa_next s)" using st by (auto simp: unat_sub_no_wrap)
  have h: "(\<Sum>r \<leftarrow> drop 0 (take (pa_nfree s) (pa_free_list s)). unat (rg_len r)) = span_bytes (hole_spans s)"
    by (simp add: span_bytes_def hole_spans_def pa_holes_def hole_span_def comp_def)
  have "unat ?t + span_bytes (hole_spans s) < 2 ^ 64"
    using st t u64_bound [of "pa_end s"] by auto
  then have "unat (st_avail (pa_stats s)) = unat ?t + span_bytes (hole_spans s)"
    using pa_stats_loop_eq [of "pa_nfree s" "pa_free_list s" ?t 0 ?t] st h
    by (auto simp: pa_stats_def split: prod.splits)
  moreover have "st_live (pa_stats s) = pa_live s" "st_peak (pa_stats s) = pa_peak s"
    "st_lost (pa_stats s) = pa_lost_bytes s" by (simp_all add: pa_stats_def split: prod.splits)
  ultimately show ?thesis using st t by auto
qed

theorem pa_stats_conservation_witness:
  "\<exists>s. pa_reach (pa_init 4096 65536 pa_boot) (s, [(4096, 8192)]) \<and>
    unat (st_live (pa_stats s)) = 8192 \<and> st_live (pa_stats s) \<le> st_peak (pa_stats s) \<and>
    unat (st_live (pa_stats s)) + unat (st_avail (pa_stats s)) + unat (st_lost (pa_stats s)) = 65536"
  using pa_boot_run pa_stats_conservation [OF _ _ pa_boot_run]
  by (intro exI conjI) (auto simp: pa_init_def pa_round_def Let_def pa_boot_def)

text \<open>C3. Once a client has given everything back and nothing was lost to a full list, the
  allocator is in one piece again: no holes, the tail at the base, and any request that fits
  the whole region succeeds and returns its start. Coalescing never leaves fragments behind.\<close>

theorem pa_all_free_whole:
  assumes "0 < base" and "unat base + unat len < 2 ^ 64 - 4096"
    and "pa_reach (pa_init base len pa_boot) (s, [])" and "pa_lost_bytes s = 0"
    and "pa_round want \<noteq> 0" and "unat (pa_round want) \<le> unat (pa_end s) - unat (pa_base s)"
  shows "pa_nfree s = 0 \<and> pa_next s = pa_base s \<and> fst (pa_alloc want s) = pa_base s"
proof -
  have inv: "pa_inv s []" using pa_reach_inv [OF assms(3) pa_boot_inv [OF assms(1,2)]] by simp
  note free = pa_inv_all_free [OF inv assms(4)]
  have "unat (pa_base s) \<le> unat (pa_end s)" using inv free(2) by (auto simp: pa_inv_def pa_semi_def pa_wf_def)
  then have "\<not> pa_end s - pa_next s < pa_round want"
    using assms(6) free(2) by (simp add: word_less_nat_alt unat_sub_no_wrap)
  then have "fst (pa_alloc want s) = pa_base s"
    using assms(5) free by (simp add: pa_alloc_def Let_def pa_best.simps)
  with free show ?thesis by simp
qed

theorem pa_all_free_whole_witness:
  "pa_nfree (pa_init 4096 65536 pa_boot) = 0 \<and>
   pa_next (pa_init 4096 65536 pa_boot) = pa_base (pa_init 4096 65536 pa_boot) \<and>
   fst (pa_alloc 65536 (pa_init 4096 65536 pa_boot)) = pa_base (pa_init 4096 65536 pa_boot)"
  by (rule pa_all_free_whole [OF _ _ pa_reach.start])
    (simp_all add: pa_init_def pa_round_def Let_def pa_boot_def)

text \<open>C4. \<open>pa_alloc\<close> is best fit and complete: it fails only when no hole and not the tail can
  hold the rounded request, and when it serves the request from a hole, that hole is the
  smallest one that fits and starts at the address returned.\<close>

theorem pa_alloc_best_fit:
  assumes "pa_inv s L" and "pa_round want \<noteq> 0"
  shows "(fst (pa_alloc want s) = 0 \<longleftrightarrow>
      (\<forall>h \<in> set (pa_holes s). rg_len h < pa_round want) \<and> pa_end s - pa_next s < pa_round want) \<and>
    ((\<exists>h \<in> set (pa_holes s). pa_round want \<le> rg_len h) \<longrightarrow>
      (\<exists>h \<in> set (pa_holes s). fst (pa_alloc want s) = rg_base h \<and> pa_round want \<le> rg_len h \<and>
         (\<forall>g \<in> set (pa_holes s). pa_round want \<le> rg_len g \<longrightarrow> rg_len h \<le> rg_len g)))"
proof -
  let ?b = "pa_best (pa_free_list s) (pa_nfree s) (pa_round want) 0 None"
  have spec: "case ?b of None \<Rightarrow> \<forall>j<pa_nfree s. rg_len (pa_free_list s ! j) < pa_round want
    | Some b \<Rightarrow> b < pa_nfree s \<and> pa_round want \<le> rg_len (pa_free_list s ! b) \<and>
       (\<forall>j<pa_nfree s. pa_round want \<le> rg_len (pa_free_list s ! j) \<longrightarrow>
          rg_len (pa_free_list s ! b) \<le> rg_len (pa_free_list s ! j))"
    by (rule pa_best_spec) simp_all
  have wf: "pa_nfree s \<le> length (pa_free_list s)" "0 < unat (pa_base s)" "unat (pa_base s) \<le> unat (pa_next s)"
    using assms(1) by (auto simp: pa_inv_def pa_semi_def pa_wf_def)
  have holes: "set (pa_holes s) = (\<lambda>j. pa_free_list s ! j) ` {..<pa_nfree s}"
    using wf(1) by (auto simp: pa_holes_def set_conv_nth image_iff) (metis nth_take)+
  have pos: "0 < unat (rg_base h)" if "h \<in> set (pa_holes s)" for h
    using that assms(1) wf(2)
    by (fastforce simp: pa_inv_def pa_semi_def spans_ok_def page_span_def hole_spans_def hole_span_def)
  show ?thesis
  proof (cases ?b)
    case None
    with spec assms(2) wf show ?thesis
      by (auto simp: pa_alloc_def Let_def holes not_le word_unat_eq_iff)
  next
    case (Some b)
    then have r: "fst (pa_alloc want s) = rg_base (pa_free_list s ! b)"
      using assms(2) by (simp add: pa_alloc_def Let_def)
    let ?h = "pa_free_list s ! b"
    have h: "?h \<in> set (pa_holes s)" "pa_round want \<le> rg_len ?h"
      and min: "\<forall>g \<in> set (pa_holes s). pa_round want \<le> rg_len g \<longrightarrow> rg_len ?h \<le> rg_len g"
      using spec Some by (auto simp: holes)
    have "rg_base ?h \<noteq> 0" using pos [OF h(1)] by auto
    with r h min show ?thesis by (auto simp: not_less intro!: bexI [of _ ?h] dest: bspec [OF _ h(1)])
  qed
qed

theorem pa_alloc_best_fit_witness:
  "fst (pa_alloc 70000 (pa_init 4096 65536 pa_boot)) = 0 \<longleftrightarrow>
   (\<forall>h \<in> set (pa_holes (pa_init 4096 65536 pa_boot)). rg_len h < pa_round 70000) \<and>
   pa_end (pa_init 4096 65536 pa_boot) - pa_next (pa_init 4096 65536 pa_boot) < pa_round 70000"
proof -
  have "pa_round 70000 \<noteq> 0" by (simp add: pa_round_def)
  from pa_alloc_best_fit [OF pa_boot_inv this, of 4096 65536] show ?thesis by simp
qed

end
