(* ===== verification/BareQueue.thy ===== *)
theory BareQueue
  imports Prelude
begin

text \<open>
  The intrusive queues of the cooperative runtime, \<^verbatim>\<open>src/unikernel/runtime_bare.c\<close> sections 4
  and 8: a head pointer, a tail pointer and the \<open>next\<close> field of the coroutines. The run queue
  and every wait queue of a mutex, condition variable or reader-writer lock have this shape.

  The pointer level is proved to implement a list: pushing appends, pushing at the front
  prepends, popping takes the head. The scheduler theories work with the lists.
\<close>

type_synonym cid = nat

text \<open>One queue over the \<open>next\<close> fields; \<open>None\<close> is the null pointer.\<close>

record nb_queue =
  q_head :: "cid option"
  q_tail :: "cid option"
  q_next :: "cid \<Rightarrow> cid option"

definition nb_wq_push :: "cid \<Rightarrow> nb_queue \<Rightarrow> nb_queue" where
  "nb_wq_push c q =
     (let nx = (q_next q)(c := None) in
      case q_tail q of
        Some t \<Rightarrow> q\<lparr>q_next := nx(t := Some c), q_tail := Some c\<rparr>
      | None \<Rightarrow> q\<lparr>q_next := nx, q_head := Some c, q_tail := Some c\<rparr>)"

definition nb_wq_pop :: "nb_queue \<Rightarrow> cid option \<times> nb_queue" where
  "nb_wq_pop q =
     (case q_head q of
        None \<Rightarrow> (None, q)
      | Some c \<Rightarrow>
          let h = q_next q c
          in (Some c, q\<lparr>q_head := h, q_tail := (if h = None then None else q_tail q),
                        q_next := (q_next q)(c := None)\<rparr>))"

definition nb_rq_push_front_ptr :: "cid \<Rightarrow> nb_queue \<Rightarrow> nb_queue" where
  "nb_rq_push_front_ptr c q =
     q\<lparr>q_next := (q_next q)(c := q_head q), q_head := Some c,
       q_tail := (if q_tail q = None then Some c else q_tail q)\<rparr>"

text \<open>The simulator's pop: walk \<open>k\<close> links from the head and unlink what is there.\<close>

fun nb_walk :: "(cid \<Rightarrow> cid option) \<Rightarrow> nat \<Rightarrow> cid option \<times> cid option \<Rightarrow> cid option \<times> cid option" where
  "nb_walk nx 0 pc = pc"
| "nb_walk nx (Suc k) (prev, c) = nb_walk nx k (c, Option.bind c nx)"

definition nb_rq_pop_sim :: "(nat \<Rightarrow> nat) \<Rightarrow> nat \<Rightarrow> nb_queue \<Rightarrow> cid option \<times> nb_queue" where
  "nb_rq_pop_sim pick n q =
     (if q_head q = None then (None, q)
      else case nb_walk (q_next q) (pick n) (None, q_head q) of
        (prev, Some c) \<Rightarrow>
          let nx = (case prev of Some p \<Rightarrow> (q_next q)(p := q_next q c) | None \<Rightarrow> q_next q);
              h = (case prev of Some p \<Rightarrow> q_head q | None \<Rightarrow> q_next q c);
              t = (if q_tail q = Some c then prev else q_tail q)
          in (Some c, \<lparr>q_head = h, q_tail = t, q_next = nx(c := None)\<rparr>)
      | (prev, None) \<Rightarrow> (None, q))"

section \<open>The list a queue stands for\<close>

fun chain :: "(cid \<Rightarrow> cid option) \<Rightarrow> cid option \<Rightarrow> cid list \<Rightarrow> bool" where
  "chain nx p [] \<longleftrightarrow> p = None"
| "chain nx p (x # xs) \<longleftrightarrow> p = Some x \<and> chain nx (nx x) xs"

definition queue_is :: "nb_queue \<Rightarrow> cid list \<Rightarrow> bool" where
  "queue_is q xs \<longleftrightarrow> distinct xs \<and> chain (q_next q) (q_head q) xs \<and>
     q_tail q = (if xs = [] then None else Some (last xs))"

text \<open>What a client of a coroutine queue may rely on.\<close>

locale coro_queue =
  fixes is_list :: "'q \<Rightarrow> cid list \<Rightarrow> bool"
    and push :: "cid \<Rightarrow> 'q \<Rightarrow> 'q"
    and push_front :: "cid \<Rightarrow> 'q \<Rightarrow> 'q"
    and pop :: "'q \<Rightarrow> cid option \<times> 'q"
  assumes push_law: "is_list q xs \<Longrightarrow> c \<notin> set xs \<Longrightarrow> is_list (push c q) (xs @ [c])"
    and push_front_law: "is_list q xs \<Longrightarrow> c \<notin> set xs \<Longrightarrow> is_list (push_front c q) (c # xs)"
    and pop_empty: "is_list q [] \<Longrightarrow> fst (pop q) = None \<and> is_list (snd (pop q)) []"
    and pop_cons: "is_list q (c # xs) \<Longrightarrow> fst (pop q) = Some c \<and> is_list (snd (pop q)) xs"
begin

fun drain :: "nat \<Rightarrow> 'q \<Rightarrow> cid list" where
  "drain 0 q = []"
| "drain (Suc n) q = (case pop q of (None, _) \<Rightarrow> [] | (Some c, q') \<Rightarrow> c # drain n q')"

lemma drain_list: "is_list q xs \<Longrightarrow> length xs \<le> n \<Longrightarrow> drain n q = xs"
proof (induction n arbitrary: q xs)
  case (Suc n)
  show ?case
  proof (cases xs)
    case Nil
    with Suc.prems pop_empty [of q] show ?thesis by (cases "pop q") auto
  next
    case (Cons c ys)
    with Suc.prems pop_cons [of q c ys] Suc.IH [of "snd (pop q)" ys] show ?thesis by (cases "pop q") auto
  qed
qed simp

lemma push_all:
  "is_list q xs \<Longrightarrow> distinct (xs @ ys) \<Longrightarrow> is_list (fold push ys q) (xs @ ys)"
proof (induction ys arbitrary: q xs)
  case (Cons y ys)
  have "is_list (push y q) (xs @ [y])" using Cons.prems by (intro push_law) auto
  with Cons.IH [of "push y q" "xs @ [y]"] Cons.prems show ?case by simp
qed simp

lemma fifo: "is_list q [] \<Longrightarrow> distinct ys \<Longrightarrow> drain (length ys) (fold push ys q) = ys"
  using drain_list [OF push_all [of q "[]" ys]] by simp

lemma overtakes:
  assumes "is_list q xs" "distinct (c # xs)"
  shows "fst (pop (push_front c q)) = Some c"
  using assms pop_cons [OF push_front_law] by simp

end

lemma chain_upd: "c \<notin> set xs \<Longrightarrow> chain (nx(c := v)) p xs = chain nx p xs"
  by (induction xs arbitrary: p) auto

lemma chain_snoc:
  "chain nx p (xs @ [t]) \<Longrightarrow> distinct (xs @ [t]) \<Longrightarrow> c \<notin> set (xs @ [t]) \<Longrightarrow>
   chain (nx(c := None, t := Some c)) p (xs @ [t, c])"
  by (induction xs arbitrary: p) (auto simp: fun_upd_twist)

lemma queue_push: 
  assumes q: "queue_is q xs" and c: "c \<notin> set xs"
  shows "queue_is (nb_wq_push c q) (xs @ [c])"
proof (cases xs rule: rev_cases)
  case Nil
  with q show ?thesis by (simp add: queue_is_def nb_wq_push_def Let_def)
next
  case (snoc ys t)
  with q c chain_snoc [of "q_next q" "q_head q" ys t c] show ?thesis
    by (simp add: queue_is_def nb_wq_push_def Let_def)
qed

lemma queue_push_front: "queue_is q xs \<Longrightarrow> c \<notin> set xs \<Longrightarrow> queue_is (nb_rq_push_front_ptr c q) (c # xs)"
  by (auto simp: queue_is_def nb_rq_push_front_ptr_def chain_upd)

lemma queue_pop_empty: "queue_is q [] \<Longrightarrow> nb_wq_pop q = (None, q)"
  by (simp add: queue_is_def nb_wq_pop_def)

lemma chain_None: "chain nx p xs \<Longrightarrow> p = None \<longleftrightarrow> xs = []"
  by (cases xs) auto

lemma queue_pop_cons:
  assumes "queue_is q (c # xs)"
  shows "fst (nb_wq_pop q) = Some c \<and> queue_is (snd (nb_wq_pop q)) xs"
proof -
  have h: "q_head q = Some c" and ch: "chain (q_next q) (q_next q c) xs" and d: "c \<notin> set xs" "distinct xs"
    and t: "q_tail q = Some (last (c # xs))"
    using assms by (auto simp: queue_is_def)
  then show ?thesis
    using chain_None [OF ch] by (auto simp: nb_wq_pop_def queue_is_def Let_def chain_upd split: if_splits)
qed

interpretation bare: coro_queue queue_is nb_wq_push nb_rq_push_front_ptr nb_wq_pop
  by unfold_locales
    (simp_all add: queue_push queue_push_front queue_pop_empty queue_pop_cons)

text \<open>The seeded pop takes the element at the picked index and leaves the others in order.\<close>

lemma chain_walk:
  "chain nx p xs \<Longrightarrow> k < length xs \<Longrightarrow>
   nb_walk nx k (prev, p) = (if k = 0 then prev else Some (xs ! (k - 1)), Some (xs ! k))"
proof (induction k arbitrary: p prev xs)
  case 0
  then show ?case by (cases xs) auto
next
  case (Suc k)
  then obtain x ys where xs: "xs = x # ys" by (cases xs) auto
  with Suc show ?case by (cases k) auto
qed

lemma chain_unlink:
  "chain nx p (xs @ a # c # ys) \<Longrightarrow> distinct (xs @ a # c # ys) \<Longrightarrow>
   chain (nx(a := nx c, c := None)) p (xs @ a # ys)"
proof (induction xs arbitrary: p)
  case Nil
  then have ac: "a \<noteq> c" and ys: "chain nx (nx c) ys" "a \<notin> set ys" "c \<notin> set ys" by auto
  have "chain (nx(a := nx c, c := None)) (nx c) ys" using ys by (simp only: chain_upd not_False_eq_True)
  moreover have "(nx(a := nx c, c := None)) a = nx c" using ac by simp
  ultimately show ?case using Nil by (simp del: fun_upd_apply)
qed auto

lemma queue_pop_sim:
  assumes q: "queue_is q xs" and ne: "xs \<noteq> []" and k: "pick (length xs) < length xs"
  shows "fst (nb_rq_pop_sim pick (length xs) q) = Some (xs ! pick (length xs)) \<and>
    queue_is (snd (nb_rq_pop_sim pick (length xs) q))
      (take (pick (length xs)) xs @ drop (Suc (pick (length xs))) xs)"
proof -
  define k where "k = pick (length xs)"
  have kl: "k < length xs" using assms(3) by (simp add: k_def)
  have ch: "chain (q_next q) (q_head q) xs" and d: "distinct xs" and t: "q_tail q = Some (last xs)"
    using q ne by (auto simp: queue_is_def)
  have h: "q_head q \<noteq> None" using ch ne by (auto simp: chain_None)
  note w = chain_walk [OF ch kl, of None]
  show ?thesis
    unfolding k_def [symmetric]
  proof (cases k)
    case 0
    obtain c ys where xs: "xs = c # ys" using ne by (cases xs) auto
    have res: "nb_rq_pop_sim pick (length xs) q =
        (Some c, \<lparr>q_head = q_next q c, q_tail = (if q_tail q = Some c then None else q_tail q),
                  q_next = (q_next q)(c := None)\<rparr>)"
    proof -
      have "xs ! 0 = c" using xs by simp
      then show ?thesis unfolding nb_rq_pop_sim_def k_def [symmetric] w using h 0 by (auto simp: Let_def)
    qed
    have c: "chain (q_next q) (q_next q c) ys" "c \<notin> set ys" "distinct ys" using ch d xs by auto
    have "q_tail q = Some c \<longleftrightarrow> ys = []" using t c xs by (cases ys rule: rev_cases) auto
    then show "fst (nb_rq_pop_sim pick (length xs) q) = Some (xs ! k) \<and>
        queue_is (snd (nb_rq_pop_sim pick (length xs) q)) (take k xs @ drop (Suc k) xs)"
      unfolding res using c xs 0 t by (auto simp: queue_is_def chain_upd)
  next
    case (Suc j)
    define a where "a = xs ! j" define c where "c = xs ! k"
    define P where "P = take j xs" define Q where "Q = drop (Suc k) xs"
    have xs: "xs = P @ a # c # Q"
      using kl Suc by (simp add: a_def c_def P_def Q_def Cons_nth_drop_Suc id_take_nth_drop [symmetric])
    have res: "nb_rq_pop_sim pick (length xs) q =
        (Some c, \<lparr>q_head = q_head q, q_tail = (if q_tail q = Some c then Some a else q_tail q),
                  q_next = (q_next q)(a := q_next q c, c := None)\<rparr>)"
      using w h Suc by (simp add: nb_rq_pop_sim_def k_def [symmetric] Let_def a_def c_def)
    have D: "distinct (P @ a # c # Q)" using d unfolding xs .
    then have "q_tail q = Some c \<longleftrightarrow> Q = []" "Q \<noteq> [] \<Longrightarrow> q_tail q = Some (last Q)"
      using t last_in_set [of Q] by (auto simp: xs)
    moreover have "chain ((q_next q)(a := q_next q c, c := None)) (q_head q) (P @ a # Q)"
      using chain_unlink [of "q_next q" "q_head q" P a c Q] ch D unfolding xs by simp
    moreover have "take k xs @ drop (Suc k) xs = P @ a # Q"
      using kl Suc by (simp add: a_def P_def Q_def take_Suc_conv_app_nth)
    ultimately show "fst (nb_rq_pop_sim pick (length xs) q) = Some (xs ! k) \<and>
        queue_is (snd (nb_rq_pop_sim pick (length xs) q)) (take k xs @ drop (Suc k) xs)"
      unfolding res using D by (auto simp: queue_is_def c_def)
  qed
qed

section \<open>Properties\<close>



end
