(* ===== verification/BareSched.thy ===== *)
theory BareSched
  imports BareQueue
begin

text \<open>
  The cooperative scheduler, \<^verbatim>\<open>src/unikernel/runtime_bare.c\<close> sections 1 to 12b:
  coroutines, the run queue, timers, the scheduler step, mutexes, condition variables,
  reader-writer locks, threads, fibers and the park/unpark protocol. Queues are the lists that BareQueue proves the pointers implement.

  The body of a coroutine is the client's code: the step takes it as a parameter, the state
  transformer from being switched to until switching back. A function that may park is
  modelled from its call to the switch: \<open>Park\<close> says that the coroutine is parked inside it.
  Where the C loops around the park, resuming is calling the function again; where it goes on,
  the continuation is a definition of its own. Handles and addresses are naturals with 0 the
  null pointer.
\<close>

section \<open>State\<close>

datatype nb_stat = NB_RUNNABLE | NB_RUNNING | NB_PARKED | NB_DONE

text \<open>What a coroutine in a reader-writer queue waits for; \<open>NB_RW_NONE\<close> once granted.\<close>

datatype nb_want = NB_RW_NONE | NB_RW_READ | NB_RW_WRITE

type_synonym rw_holder = "(nat \<times> int) list"

record nb_coro =
  co_fn :: nat
  co_env :: nat
  co_state :: nb_stat
  wake_at_ms :: int
  joinable :: bool
  finished :: bool
  joiners :: "cid list"
  pending_unlock :: nat
  last_park_result :: int
  wake_pending :: bool
  owns_env :: bool
  is_fiber :: bool
  rw_want :: nb_want
  rwh :: rw_holder

definition nb_coro_zero :: nb_coro where
  "nb_coro_zero = \<lparr>co_fn = 0, co_env = 0, co_state = NB_RUNNABLE, wake_at_ms = 0, joinable = False,
     finished = False, joiners = [], pending_unlock = 0, last_park_result = 0, wake_pending = False,
     owns_env = False, is_fiber = False, rw_want = NB_RW_NONE, rwh = []\<rparr>"

record nb_mutex =
  mx_locked :: bool
  mx_wq :: "cid list"

record nb_cond =
  cv_wq :: "cid list"
  cv_seq :: u64
  main_waiters :: int

text \<open>Who holds or waits for a reader-writer lock: a coroutine, or the main context.\<close>

datatype rw_node = RwMain | RwCo cid

record nb_rw =
  rw_readers :: int
  rw_writing :: bool
  rw_writer :: "rw_node option"
  rw_wq :: "rw_node list"

text \<open>\<open>nb_clock\<close> is what \<open>clock_gettime\<close> answers and \<open>nb_nanosleep\<close> what it answers after a
  sleep: both are the platform's. \<open>dropped\<close> logs the environments given to
  \<open>nurl_closure_drop\<close>.\<close>

record nb_sched =
  coros :: "cid \<Rightarrow> nb_coro"
  allocated :: "cid \<Rightarrow> bool"
  nb_rq :: "cid list"
  nb_timers :: "cid list"
  nb_current :: "cid option"
  nb_live :: int
  nb_fibers_live :: int
  nb_drain_waiters :: "cid list"
  nb_initialized :: bool
  nb_drive_depth :: int
  live_coros :: int
  mutexes :: "nat \<Rightarrow> nb_mutex"
  conds :: "nat \<Rightarrow> nb_cond"
  rwlocks :: "nat \<Rightarrow> nb_rw"
  nb_rw_main_want :: nb_want
  nb_rw_main_rec :: rw_holder
  nb_clock :: int
  nb_nanosleep :: "int \<Rightarrow> int \<Rightarrow> int"
  dropped :: "nat list"

text \<open>The zeroed statics, before anything has run.\<close>

definition nb_boot :: "int \<Rightarrow> (int \<Rightarrow> int \<Rightarrow> int) \<Rightarrow> nb_sched" where
  "nb_boot clk slp = \<lparr>coros = \<lambda>_. nb_coro_zero, allocated = \<lambda>_. False, nb_rq = [], nb_timers = [], nb_current = None,
     nb_live = 0, nb_fibers_live = 0, nb_drain_waiters = [], nb_initialized = False, nb_drive_depth = 0, live_coros = 0,
     mutexes = \<lambda>_. \<lparr>mx_locked = False, mx_wq = []\<rparr>, conds = \<lambda>_. \<lparr>cv_wq = [], cv_seq = 0, main_waiters = 0\<rparr>,
     rwlocks = \<lambda>_. \<lparr>rw_readers = 0, rw_writing = False, rw_writer = None, rw_wq = []\<rparr>,
     nb_rw_main_want = NB_RW_NONE, nb_rw_main_rec = [], nb_clock = clk, nb_nanosleep = slp, dropped = []\<rparr>"

text \<open>How a call ends: it returns, it parks the running coroutine, it panics, or the main
  context finds that nothing can ever happen again.\<close>

datatype 'a outcome = Ret 'a | Park | Panic string | Deadlock string

definition co_upd :: "cid \<Rightarrow> (nb_coro \<Rightarrow> nb_coro) \<Rightarrow> nb_sched \<Rightarrow> nb_sched" where
  "co_upd c f s = s\<lparr>coros := (coros s)(c := f (coros s c))\<rparr>"

definition set_state :: "cid \<Rightarrow> nb_stat \<Rightarrow> nb_sched \<Rightarrow> nb_sched" where
  "set_state c x = co_upd c (co_state_update (\<lambda>_. x))"

section \<open>Time, run queue and timers\<close>

definition nb_now_ms :: "nb_sched \<Rightarrow> int" where
  "nb_now_ms s = nb_clock s"

definition nb_sleep_ms :: "int \<Rightarrow> nb_sched \<Rightarrow> nb_sched" where
  "nb_sleep_ms ms s = (if ms \<le> 0 then s else s\<lparr>nb_clock := nb_nanosleep s (nb_clock s) ms\<rparr>)"

definition nb_rq_push :: "cid \<Rightarrow> nb_sched \<Rightarrow> nb_sched" where
  "nb_rq_push c s = s\<lparr>nb_rq := nb_rq s @ [c]\<rparr>"

definition nb_rq_push_front :: "cid \<Rightarrow> nb_sched \<Rightarrow> nb_sched" where
  "nb_rq_push_front c s = s\<lparr>nb_rq := c # nb_rq s\<rparr>"

definition nb_rq_pop :: "nb_sched \<Rightarrow> cid option \<times> nb_sched" where
  "nb_rq_pop s = (case nb_rq s of [] \<Rightarrow> (None, s) | c # q \<Rightarrow> (Some c, s\<lparr>nb_rq := q\<rparr>))"

definition make_runnable :: "cid \<Rightarrow> nb_sched \<Rightarrow> nb_sched" where
  "make_runnable c s = nb_rq_push c (set_state c NB_RUNNABLE s)"

text \<open>The sorted insert of \<open>nb_timer_add\<close>: behind every timer that is not later.\<close>

fun timer_insert :: "(cid \<Rightarrow> int) \<Rightarrow> cid \<Rightarrow> int \<Rightarrow> cid list \<Rightarrow> cid list" where
  "timer_insert at c t [] = [c]"
| "timer_insert at c t (x # xs) = (if at x \<le> t then x # timer_insert at c t xs else c # x # xs)"

definition nb_timer_add :: "cid \<Rightarrow> int \<Rightarrow> nb_sched \<Rightarrow> nb_sched" where
  "nb_timer_add c at s =
     (let s1 = co_upd c (wake_at_ms_update (\<lambda>_. at)) s
      in s1\<lparr>nb_timers := timer_insert (\<lambda>x. wake_at_ms (coros s1 x)) c at (nb_timers s1)\<rparr>)"

definition nb_timer_remove :: "cid \<Rightarrow> nb_sched \<Rightarrow> nb_sched" where
  "nb_timer_remove c s = s\<lparr>nb_timers := remove1 c (nb_timers s)\<rparr>"

function nb_timers_expire :: "int \<Rightarrow> nb_sched \<Rightarrow> nat \<times> nb_sched" where
  "nb_timers_expire now s =
     (case nb_timers s of
        [] \<Rightarrow> (0, s)
      | c # ts \<Rightarrow>
          if wake_at_ms (coros s c) \<le> now
          then (let (n, s') = nb_timers_expire now
                      (make_runnable c (co_upd c (last_park_result_update (\<lambda>_. 0)) (s\<lparr>nb_timers := ts\<rparr>)))
                in (n + 1, s'))
          else (0, s))"
  by pat_completeness auto
termination
  by (relation "measure (\<lambda>(now, s). length (nb_timers s))")
    (auto simp: make_runnable_def nb_rq_push_def set_state_def co_upd_def)

declare nb_timers_expire.simps [simp del]

section \<open>Coroutine lifecycle\<close>

text \<open>\<open>nb_park\<close> up to the switch.\<close>

definition nb_park :: "nb_sched \<Rightarrow> nb_sched" where
  "nb_park s = (case nb_current s of None \<Rightarrow> s | Some c \<Rightarrow> set_state c NB_PARKED s)"

text \<open>\<open>nb_entry\<close> after the body has returned.\<close>

definition nb_entry_end :: "cid \<Rightarrow> nb_sched \<Rightarrow> nb_sched" where
  "nb_entry_end c s =
     (let s1 = (if owns_env (coros s c) \<and> co_env (coros s c) \<noteq> 0
                then co_upd c (co_env_update (\<lambda>_. 0)) (s\<lparr>dropped := co_env (coros s c) # dropped s\<rparr>)
                else s)
      in set_state c NB_DONE (co_upd c (finished_update (\<lambda>_. True)) s1))"

text \<open>\<open>mem\<close> is where \<open>calloc\<close> put the coroutine, if it and the stack mapping succeeded.\<close>

definition nb_coro_new :: "cid option \<Rightarrow> nat \<Rightarrow> nat \<Rightarrow> bool \<Rightarrow> nb_sched \<Rightarrow> cid option \<times> nb_sched" where
  "nb_coro_new mem fn env jn s =
     (case mem of
        None \<Rightarrow> (None, s)
      | Some c \<Rightarrow>
          (Some c, s\<lparr>coros := (coros s)(c := nb_coro_zero\<lparr>co_fn := fn, co_env := env,
                        co_state := NB_RUNNABLE, joinable := jn\<rparr>),
                     allocated := (allocated s)(c := True), live_coros := live_coros s + 1\<rparr>))"

definition nb_coro_free :: "cid \<Rightarrow> nb_sched \<Rightarrow> nb_sched" where
  "nb_coro_free c s =
     (if c = 0 then s
      else s\<lparr>allocated := (allocated s)(c := False), live_coros := live_coros s - 1\<rparr>)"

definition wake_all :: "cid list \<Rightarrow> nb_sched \<Rightarrow> nb_sched" where
  "wake_all ws s = fold make_runnable ws s"

definition nb_fiber_ended :: "nb_sched \<Rightarrow> nb_sched" where
  "nb_fiber_ended s =
     (let s1 = s\<lparr>nb_fibers_live := nb_fibers_live s - 1\<rparr>
      in if nb_fibers_live s1 > 0 then s1
         else wake_all (nb_drain_waiters s1) (s1\<lparr>nb_drain_waiters := []\<rparr>))"

definition nb_wake_joiners :: "cid \<Rightarrow> nb_sched \<Rightarrow> nb_sched" where
  "nb_wake_joiners c s =
     wake_all (joiners (coros s c)) (co_upd c (joiners_update (\<lambda>_. [])) s)"

definition mx_upd :: "nat \<Rightarrow> (nb_mutex \<Rightarrow> nb_mutex) \<Rightarrow> nb_sched \<Rightarrow> nb_sched" where
  "mx_upd m f s = s\<lparr>mutexes := (mutexes s)(m := f (mutexes s m))\<rparr>"

definition nurl__bare_mutex_release :: "nat \<Rightarrow> nb_sched \<Rightarrow> nb_sched" where
  "nurl__bare_mutex_release m s =
     (if m = 0 then s
      else let s1 = mx_upd m (mx_locked_update (\<lambda>_. False)) s
           in case mx_wq (mutexes s1 m) of
                [] \<Rightarrow> s1
              | w # ws \<Rightarrow> make_runnable w (mx_upd m (mx_wq_update (\<lambda>_. ws)) s1))"

section \<open>The scheduler step\<close>

text \<open>What the step does once the coroutine it ran has switched back.\<close>

definition nb_after_switch :: "cid \<Rightarrow> nb_sched \<Rightarrow> nb_sched" where
  "nb_after_switch c s0 =
     (let s = s0\<lparr>nb_current := None\<rparr> in
      case co_state (coros s c) of
        NB_DONE \<Rightarrow>
          (let s1 = nb_wake_joiners c s;
               s2 = s1\<lparr>nb_live := nb_live s1 - 1\<rparr>;
               s3 = (if is_fiber (coros s2 c) then nb_fiber_ended s2 else s2)
           in if joinable (coros s3 c) then s3 else nb_coro_free c s3)
      | NB_PARKED \<Rightarrow>
          (let pm = pending_unlock (coros s c);
               s1 = co_upd c (pending_unlock_update (\<lambda>_. 0)) s
           in if pm \<noteq> 0 then nurl__bare_mutex_release pm s1 else s1)
      | _ \<Rightarrow> make_runnable c s)"

definition nb_dispatch :: "cid \<Rightarrow> nb_sched \<Rightarrow> nb_sched" where
  "nb_dispatch c s = (set_state c NB_RUNNING s)\<lparr>nb_current := Some c\<rparr>"

definition nb_step_bounded :: "(cid \<Rightarrow> nb_sched \<Rightarrow> nb_sched) \<Rightarrow> int \<Rightarrow> nb_sched \<Rightarrow> bool \<times> nb_sched" where
  "nb_step_bounded body budget_ms s =
     (if (case nb_timers s of [] \<Rightarrow> False | t # _ \<Rightarrow> wake_at_ms (coros s t) \<le> nb_now_ms s)
         \<and> fst (nb_timers_expire (nb_now_ms s) s) > 0
      then (True, snd (nb_timers_expire (nb_now_ms s) s))
      else case nb_rq_pop s of
        (None, _) \<Rightarrow>
          (case nb_timers s of
             [] \<Rightarrow> (False, s)
           | t # _ \<Rightarrow>
               let now = nb_now_ms s;
                   wait = wake_at_ms (coros s t) - now;
                   s1 = (if wake_at_ms (coros s t) > now
                         then nb_sleep_ms (if budget_ms \<ge> 0 \<and> wait > budget_ms then budget_ms else wait) s
                         else s);
                   (n, s2) = nb_timers_expire (nb_now_ms s1) s1
               in (n > 0, s2))
      | (Some c, s1) \<Rightarrow> (True, nb_after_switch c (body c (nb_dispatch c s1))))"

definition nurl__bare_step :: "(cid \<Rightarrow> nb_sched \<Rightarrow> nb_sched) \<Rightarrow> nb_sched \<Rightarrow> bool \<times> nb_sched" where
  "nurl__bare_step body s = nb_step_bounded body (-1) s"

text \<open>Driving the scheduler from the main context until a predicate holds. \<open>None\<close> is running
  for ever; \<open>False\<close> is the step that answered 0, which aborts with the deadlock message.\<close>

partial_function (option) nb_drive_loop ::
    "(cid \<Rightarrow> nb_sched \<Rightarrow> nb_sched) \<Rightarrow> (nb_sched \<Rightarrow> bool) \<Rightarrow> nb_sched \<Rightarrow> (bool \<times> nb_sched) option" where
  "nb_drive_loop body pred s =
     (if pred s then Some (True, s)
      else if fst (nurl__bare_step body s) then nb_drive_loop body pred (snd (nurl__bare_step body s))
      else Some (False, snd (nurl__bare_step body s)))"

definition nb_drive_until ::
    "(cid \<Rightarrow> nb_sched \<Rightarrow> nb_sched) \<Rightarrow> (nb_sched \<Rightarrow> bool) \<Rightarrow> nb_sched \<Rightarrow> (bool \<times> nb_sched) option" where
  "nb_drive_until body pred s =
     map_option (\<lambda>(ok, s'). (ok, s'\<lparr>nb_drive_depth := nb_drive_depth s' - 1\<rparr>))
       (nb_drive_loop body pred (s\<lparr>nb_drive_depth := nb_drive_depth s + 1\<rparr>))"


section \<open>Mutexes\<close>

definition pthread_mutex_init :: "nat \<Rightarrow> nb_sched \<Rightarrow> int \<times> nb_sched" where
  "pthread_mutex_init m s =
     (if m = 0 then (22, s) else (0, mx_upd m (\<lambda>_. \<lparr>mx_locked = False, mx_wq = []\<rparr>) s))"

text \<open>On a coroutine: test, and queue and park while locked. Resuming is testing again.\<close>

definition mutex_lock_co :: "cid \<Rightarrow> nat \<Rightarrow> nb_sched \<Rightarrow> int outcome \<times> nb_sched" where
  "mutex_lock_co c m s =
     (if mx_locked (mutexes s m)
      then (Park, nb_park (mx_upd m (mx_wq_update (\<lambda>q. q @ [c])) s))
      else (Ret 0, mx_upd m (mx_locked_update (\<lambda>_. True)) s))"

definition pthread_mutex_lock ::
    "(cid \<Rightarrow> nb_sched \<Rightarrow> nb_sched) \<Rightarrow> nat \<Rightarrow> nb_sched \<Rightarrow> (int outcome \<times> nb_sched) option" where
  "pthread_mutex_lock body m s =
     (if m = 0 then Some (Ret 22, s)
      else case nb_current s of
        Some c \<Rightarrow> Some (mutex_lock_co c m s)
      | None \<Rightarrow>
          map_option (\<lambda>(ok, s'). if ok then (Ret 0, mx_upd m (mx_locked_update (\<lambda>_. True)) s')
                                else (Deadlock ''mutex_lock'', s'))
            (nb_drive_until body (\<lambda>s. \<not> mx_locked (mutexes s m)) s))"

definition pthread_mutex_trylock :: "nat \<Rightarrow> nb_sched \<Rightarrow> int \<times> nb_sched" where
  "pthread_mutex_trylock m s =
     (if m = 0 then (22, s)
      else if mx_locked (mutexes s m) then (16, s)
      else (0, mx_upd m (mx_locked_update (\<lambda>_. True)) s))"

definition pthread_mutex_unlock :: "nat \<Rightarrow> nb_sched \<Rightarrow> int \<times> nb_sched" where
  "pthread_mutex_unlock m s = (if m = 0 then (22, s) else (0, nurl__bare_mutex_release m s))"

definition pthread_mutex_destroy :: "nat \<Rightarrow> nb_sched \<Rightarrow> int \<times> nb_sched" where
  "pthread_mutex_destroy m s =
     (if m = 0 then (22, s)
      else if mx_wq (mutexes s m) \<noteq> [] then (16, s)
      else (0, mx_upd m (mx_locked_update (\<lambda>_. False)) s))"

section \<open>Condition variables\<close>

definition cv_upd :: "nat \<Rightarrow> (nb_cond \<Rightarrow> nb_cond) \<Rightarrow> nb_sched \<Rightarrow> nb_sched" where
  "cv_upd v f s = s\<lparr>conds := (conds s)(v := f (conds s v))\<rparr>"

definition pthread_cond_init :: "nat \<Rightarrow> nb_sched \<Rightarrow> int \<times> nb_sched" where
  "pthread_cond_init v s =
     (if v = 0 then (22, s) else (0, cv_upd v (\<lambda>_. \<lparr>cv_wq = [], cv_seq = 0, main_waiters = 0\<rparr>) s))"

definition pthread_cond_destroy :: "nat \<Rightarrow> nb_sched \<Rightarrow> int \<times> nb_sched" where
  "pthread_cond_destroy v s =
     (if v = 0 then (22, s)
      else if cv_wq (conds s v) \<noteq> [] \<or> main_waiters (conds s v) \<noteq> 0 then (16, s) else (0, s))"

text \<open>On a coroutine the wait parks with the mutex to be released after the switch; resumed, it
  locks the mutex again.\<close>

definition cond_wait_co :: "cid \<Rightarrow> nat \<Rightarrow> nat \<Rightarrow> nb_sched \<Rightarrow> int outcome \<times> nb_sched" where
  "cond_wait_co c v m s =
     (Park, nb_park (co_upd c (pending_unlock_update (\<lambda>_. m)) (cv_upd v (cv_wq_update (\<lambda>q. q @ [c])) s)))"

definition pthread_cond_wait ::
    "(cid \<Rightarrow> nb_sched \<Rightarrow> nb_sched) \<Rightarrow> nat \<Rightarrow> nat \<Rightarrow> nb_sched \<Rightarrow> (int outcome \<times> nb_sched) option" where
  "pthread_cond_wait body v m s =
     (if v = 0 \<or> m = 0 then Some (Ret 22, s)
      else case nb_current s of
        Some c \<Rightarrow> Some (cond_wait_co c v m s)
      | None \<Rightarrow>
          let seq = cv_seq (conds s v);
              s1 = nurl__bare_mutex_release m (cv_upd v (main_waiters_update (\<lambda>n. n + 1)) s)
          in case nb_drive_until body (\<lambda>s. cv_seq (conds s v) \<noteq> seq) s1 of
               None \<Rightarrow> None
             | Some (False, s2) \<Rightarrow> Some (Deadlock ''cond_wait'', s2)
             | Some (True, s2) \<Rightarrow>
                 pthread_mutex_lock body m (cv_upd v (main_waiters_update (\<lambda>n. n - 1)) s2))"

definition pthread_cond_signal :: "nat \<Rightarrow> nb_sched \<Rightarrow> int \<times> nb_sched" where
  "pthread_cond_signal v s =
     (if v = 0 then (22, s)
      else case cv_wq (conds s v) of
        w # ws \<Rightarrow> (0, make_runnable w (cv_upd v (cv_wq_update (\<lambda>_. ws)) s))
      | [] \<Rightarrow> (0, if main_waiters (conds s v) \<noteq> 0 then cv_upd v (cv_seq_update (\<lambda>n. n + 1)) s else s))"

definition pthread_cond_broadcast :: "nat \<Rightarrow> nb_sched \<Rightarrow> int \<times> nb_sched" where
  "pthread_cond_broadcast v s =
     (if v = 0 then (22, s)
      else let s1 = wake_all (cv_wq (conds s v)) (cv_upd v (cv_wq_update (\<lambda>_. [])) s)
           in (0, if main_waiters (conds s1 v) \<noteq> 0 then cv_upd v (cv_seq_update (\<lambda>n. n + 1)) s1 else s1))"

section \<open>Reader-writer locks\<close>

definition rw_upd :: "nat \<Rightarrow> (nb_rw \<Rightarrow> nb_rw) \<Rightarrow> nb_sched \<Rightarrow> nb_sched" where
  "rw_upd l f s = s\<lparr>rwlocks := (rwlocks s)(l := f (rwlocks s l))\<rparr>"

text \<open>The record of a holder is the list of its entries: inline ones first, then those of
  \<open>more\<close>. \<open>rw_self\<close> is who runs, and its record's address who holds.\<close>

definition rw_self :: "nb_sched \<Rightarrow> rw_node" where
  "rw_self s = (case nb_current s of None \<Rightarrow> RwMain | Some c \<Rightarrow> RwCo c)"

fun nb_rw_me :: "rw_node \<Rightarrow> nb_sched \<Rightarrow> rw_holder" where
  "nb_rw_me RwMain s = nb_rw_main_rec s"
| "nb_rw_me (RwCo c) s = rwh (coros s c)"

fun rwh_upd :: "rw_node \<Rightarrow> (rw_holder \<Rightarrow> rw_holder) \<Rightarrow> nb_sched \<Rightarrow> nb_sched" where
  "rwh_upd RwMain f s = s\<lparr>nb_rw_main_rec := f (nb_rw_main_rec s)\<rparr>"
| "rwh_upd (RwCo c) f s = co_upd c (rwh_update f) s"

fun node_want :: "rw_node \<Rightarrow> nb_sched \<Rightarrow> nb_want" where
  "node_want RwMain s = nb_rw_main_want s"
| "node_want (RwCo c) s = rw_want (coros s c)"

fun set_want :: "rw_node \<Rightarrow> nb_want \<Rightarrow> nb_sched \<Rightarrow> nb_sched" where
  "set_want RwMain w s = s\<lparr>nb_rw_main_want := w\<rparr>"
| "set_want (RwCo c) w s = co_upd c (rw_want_update (\<lambda>_. w)) s"

text \<open>The entry of a lock, newest first.\<close>

definition nb_rw_find :: "rw_holder \<Rightarrow> nat \<Rightarrow> nat option" where
  "nb_rw_find h l = find (\<lambda>k. fst (h ! k) = l) (rev [0..<length h])"

definition nb_rw_add :: "rw_holder \<Rightarrow> nat \<Rightarrow> rw_holder" where
  "nb_rw_add h l = h @ [(l, 1)]"

definition nb_rw_drop :: "rw_holder \<Rightarrow> nat \<Rightarrow> rw_holder" where
  "nb_rw_drop h k = butlast (h[k := last h])"

definition rw_count :: "nat \<Rightarrow> int \<Rightarrow> rw_holder \<Rightarrow> rw_holder" where
  "rw_count k d h = h[k := (fst (h ! k), snd (h ! k) + d)]"

definition rw_pop :: "rw_node \<Rightarrow> bool \<Rightarrow> rw_node list \<Rightarrow> nb_rw \<Rightarrow> nb_rw" where
  "rw_pop n write ns r =
     (if write then r\<lparr>rw_wq := ns, rw_writing := True\<rparr> else r\<lparr>rw_wq := ns, rw_readers := rw_readers r + 1\<rparr>)"

definition rw_let_in :: "rw_node \<Rightarrow> nb_sched \<Rightarrow> nb_sched" where
  "rw_let_in n s =
     (case n of RwMain \<Rightarrow> set_want n NB_RW_NONE s | RwCo c \<Rightarrow> make_runnable c (set_want n NB_RW_NONE s))"

lemma rwlocks_let_in [simp]: "rwlocks (rw_let_in n s) = rwlocks s"
  by (simp add: rw_let_in_def make_runnable_def nb_rq_push_def set_state_def co_upd_def split: rw_node.split)

function nb_rw_grant :: "nat \<Rightarrow> nb_sched \<Rightarrow> nb_sched" where
  "nb_rw_grant l s =
     (case rw_wq (rwlocks s l) of
        [] \<Rightarrow> s
      | n # ns \<Rightarrow>
          let r = rwlocks s l; write = (node_want n s = NB_RW_WRITE) in
          if rw_writing r \<or> write \<and> rw_readers r \<noteq> 0 then s
          else let s1 = rw_let_in n (rw_upd l (rw_pop n write ns) s)
               in if write then s1 else nb_rw_grant l s1)"
  by pat_completeness auto
termination
  by (relation "measure (\<lambda>(l, s). length (rw_wq (rwlocks s l)))") (auto simp: rw_upd_def rw_pop_def)

declare nb_rw_grant.simps [simp del]

text \<open>Queueing; a coroutine parks, again whenever it is woken without the grant.\<close>

definition rw_enqueue :: "rw_node \<Rightarrow> nat \<Rightarrow> nb_want \<Rightarrow> nb_sched \<Rightarrow> nb_sched" where
  "rw_enqueue n l want s = rw_upd l (rw_wq_update (\<lambda>q. q @ [n])) (set_want n want s)"

definition nb_rw_wait ::
    "(cid \<Rightarrow> nb_sched \<Rightarrow> nb_sched) \<Rightarrow> nat \<Rightarrow> nb_want \<Rightarrow> nb_sched \<Rightarrow> (unit outcome \<times> nb_sched) option" where
  "nb_rw_wait body l want s =
     (let s1 = rw_enqueue (rw_self s) l want s in
      if nb_current s \<noteq> None then Some (Park, nb_park s1)
      else map_option (\<lambda>(ok, s'). if ok then (Ret (), s')
               else (Deadlock (if want = NB_RW_WRITE then ''rwlock_wrlock'' else ''rwlock_rdlock''), s'))
             (nb_drive_until body (\<lambda>s. nb_rw_main_want s = NB_RW_NONE) s1))"

definition nurl_rwlock_init :: "nat \<Rightarrow> nb_sched \<Rightarrow> nb_sched" where
  "nurl_rwlock_init l = rw_upd l (\<lambda>_. \<lparr>rw_readers = 0, rw_writing = False, rw_writer = None, rw_wq = []\<rparr>)"

text \<open>What \<open>rdlock\<close> and \<open>wrlock\<close> do once they hold the lock; \<open>rw_*_resume\<close> is where a coroutine
  that waited goes on.\<close>

definition rd_finish :: "nat \<Rightarrow> nb_sched \<Rightarrow> nb_sched" where
  "rd_finish l s = rwh_upd (rw_self s) (\<lambda>h. nb_rw_add h l) s"

definition wr_finish :: "nat \<Rightarrow> nb_sched \<Rightarrow> nb_sched" where
  "wr_finish l s = rw_upd l (rw_writer_update (\<lambda>_. Some (rw_self s))) s"

definition rw_resume :: "(nat \<Rightarrow> nb_sched \<Rightarrow> nb_sched) \<Rightarrow> cid \<Rightarrow> nat \<Rightarrow> nb_sched \<Rightarrow> unit outcome \<times> nb_sched" where
  "rw_resume fin c l s =
     (if rw_want (coros s c) \<noteq> NB_RW_NONE then (Park, nb_park s) else (Ret (), fin l s))"

definition rw_then :: "(nat \<Rightarrow> nb_sched \<Rightarrow> nb_sched) \<Rightarrow> nat \<Rightarrow> (unit outcome \<times> nb_sched) option \<Rightarrow> (unit outcome \<times> nb_sched) option" where
  "rw_then fin l r = map_option (\<lambda>(out, s). case out of Ret _ \<Rightarrow> (Ret (), fin l s) | _ \<Rightarrow> (out, s)) r"

definition nurl_rwlock_rdlock ::
    "(cid \<Rightarrow> nb_sched \<Rightarrow> nb_sched) \<Rightarrow> nat \<Rightarrow> nb_sched \<Rightarrow> (unit outcome \<times> nb_sched) option" where
  "nurl_rwlock_rdlock body l s =
     (let me = rw_self s; r = rwlocks s l in
      case nb_rw_find (nb_rw_me me s) l of
        Some k \<Rightarrow> Some (Ret (), rwh_upd me (rw_count k 1) s)
      | None \<Rightarrow>
          if rw_writer r = Some me
          then Some (Panic ''nurl: cannot take an RwLocked for reading: this thread already holds it for writing (it would wait for itself)'', s)
          else if \<not> rw_writing r \<and> rw_wq r = []
          then Some (Ret (), rd_finish l (rw_upd l (rw_readers_update (\<lambda>n. n + 1)) s))
          else rw_then rd_finish l (nb_rw_wait body l NB_RW_READ s))"

definition rd_leave :: "nat \<Rightarrow> nb_sched \<Rightarrow> nb_sched" where
  "rd_leave l s =
     (if rw_readers (rwlocks s l) > 0
      then let s1 = rw_upd l (rw_readers_update (\<lambda>n. n - 1)) s
           in if rw_readers (rwlocks s1 l) = 0 then nb_rw_grant l s1 else s1
      else s)"

definition nurl_rwlock_rdunlock :: "nat \<Rightarrow> nb_sched \<Rightarrow> nb_sched" where
  "nurl_rwlock_rdunlock l s =
     (let me = rw_self s; h = nb_rw_me me s in
      case nb_rw_find h l of
        None \<Rightarrow> rd_leave l s
      | Some k \<Rightarrow>
          if snd (h ! k) - 1 > 0 then rwh_upd me (rw_count k (-1)) s
          else rd_leave l (rwh_upd me (\<lambda>h. nb_rw_drop h k) s))"

definition nurl_rwlock_wrlock ::
    "(cid \<Rightarrow> nb_sched \<Rightarrow> nb_sched) \<Rightarrow> nat \<Rightarrow> nb_sched \<Rightarrow> (unit outcome \<times> nb_sched) option" where
  "nurl_rwlock_wrlock body l s =
     (let me = rw_self s; r = rwlocks s l in
      if rw_writer r = Some me
      then Some (Panic ''nurl: cannot take an RwLocked for writing: this thread already holds it for writing (it would wait for itself)'', s)
      else if nb_rw_find (nb_rw_me me s) l \<noteq> None
      then Some (Panic ''nurl: cannot take an RwLocked for writing: this thread already holds it for reading (it would wait for itself)'', s)
      else if \<not> rw_writing r \<and> rw_readers r = 0 \<and> rw_wq r = []
      then Some (Ret (), wr_finish l (rw_upd l (rw_writing_update (\<lambda>_. True)) s))
      else rw_then wr_finish l (nb_rw_wait body l NB_RW_WRITE s))"

definition nurl_rwlock_wrunlock :: "nat \<Rightarrow> nb_sched \<Rightarrow> nb_sched" where
  "nurl_rwlock_wrunlock l s =
     nb_rw_grant l (rw_upd l (\<lambda>r. r\<lparr>rw_writer := None, rw_writing := False\<rparr>) s)"

definition nurl_rwlock_tryrdlock :: "nat \<Rightarrow> nb_sched \<Rightarrow> int \<times> nb_sched" where
  "nurl_rwlock_tryrdlock l s =
     (let me = rw_self s; r = rwlocks s l in
      case nb_rw_find (nb_rw_me me s) l of
        Some k \<Rightarrow> (1, rwh_upd me (rw_count k 1) s)
      | None \<Rightarrow>
          if rw_writing r \<or> rw_wq r \<noteq> [] then (0, s)
          else (1, rd_finish l (rw_upd l (rw_readers_update (\<lambda>n. n + 1)) s)))"

definition nurl_rwlock_trywrlock :: "nat \<Rightarrow> nb_sched \<Rightarrow> int \<times> nb_sched" where
  "nurl_rwlock_trywrlock l s =
     (let me = rw_self s; r = rwlocks s l in
      if rw_writing r \<or> rw_readers r \<noteq> 0 \<or> rw_wq r \<noteq> [] \<or> nb_rw_find (nb_rw_me me s) l \<noteq> None then (0, s)
      else (1, wr_finish l (rw_upd l (rw_writing_update (\<lambda>_. True)) s)))"

section \<open>Threads and fibers\<close>

definition spawn_queued :: "cid \<Rightarrow> nb_sched \<Rightarrow> nb_sched" where
  "spawn_queued c s = nb_rq_push c (s\<lparr>nb_live := nb_live s + 1\<rparr>)"

definition pthread_create :: "cid option \<Rightarrow> nat \<Rightarrow> nat \<Rightarrow> nat \<Rightarrow> nb_sched \<Rightarrow> int \<times> nb_sched" where
  "pthread_create mem tp start arg s =
     (if tp = 0 \<or> start = 0 then (22, s)
      else case nb_coro_new mem start arg True s of
        (None, s1) \<Rightarrow> (11, s1)
      | (Some c, s1) \<Rightarrow> (0, spawn_queued c s1))"

text \<open>\<open>own\<close> is \<open>nurl_closure_own_copy\<close> of the runtime core.\<close>

definition nurl_pthread_create_owned ::
    "(nat \<Rightarrow> nat) \<Rightarrow> cid option \<Rightarrow> nat \<Rightarrow> nat \<Rightarrow> nat \<Rightarrow> nb_sched \<Rightarrow> int \<times> nb_sched" where
  "nurl_pthread_create_owned own mem tp fn env s =
     (if tp = 0 \<or> fn = 0 then (22, s)
      else case nb_coro_new mem fn (own env) True s of
        (None, s1) \<Rightarrow> (11, s1\<lparr>dropped := own env # dropped s1\<rparr>)
      | (Some c, s1) \<Rightarrow> (0, spawn_queued c (co_upd c (owns_env_update (\<lambda>_. True)) s1)))"

text \<open>Joining from a coroutine parks it among the joiners; resumed, it frees the target.\<close>

definition nb_join_co :: "cid \<Rightarrow> cid \<Rightarrow> nb_sched \<Rightarrow> int outcome \<times> nb_sched" where
  "nb_join_co me c s =
     (if finished (coros s c) then (Ret 0, nb_coro_free c s)
      else (Park, nb_park (co_upd c (joiners_update (\<lambda>js. me # js)) s)))"

definition nb_join_resume :: "cid \<Rightarrow> nb_sched \<Rightarrow> int outcome \<times> nb_sched" where
  "nb_join_resume c s = (Ret 0, nb_coro_free c s)"

definition nb_join ::
    "(cid \<Rightarrow> nb_sched \<Rightarrow> nb_sched) \<Rightarrow> cid \<Rightarrow> nb_sched \<Rightarrow> (int outcome \<times> nb_sched) option" where
  "nb_join body c s =
     (if c = 0 then Some (Ret 22, s)
      else case nb_current s of
        Some me \<Rightarrow> Some (nb_join_co me c s)
      | None \<Rightarrow>
          if finished (coros s c) then Some (Ret 0, nb_coro_free c s)
          else map_option (\<lambda>(ok, s'). if ok then (Ret 0, nb_coro_free c s')
                                     else (Deadlock ''thread_join'', s'))
                 (nb_drive_until body (\<lambda>s. finished (coros s c)) s))"

definition nb_detach :: "cid \<Rightarrow> nb_sched \<Rightarrow> nb_sched" where
  "nb_detach c s =
     (if c = 0 then s
      else if finished (coros s c) then nb_coro_free c s
      else co_upd c (joinable_update (\<lambda>_. False)) s)"

definition pthread_self :: "nb_sched \<Rightarrow> nat" where
  "pthread_self s = (case nb_current s of Some c \<Rightarrow> c | None \<Rightarrow> 1)"

text \<open>Off the main context; on it the C ends the process.\<close>

definition pthread_exit :: "cid \<Rightarrow> nb_sched \<Rightarrow> nb_sched" where
  "pthread_exit c s = set_state c NB_DONE (co_upd c (finished_update (\<lambda>_. True)) s)"

definition nurl_runtime_init :: "nb_sched \<Rightarrow> nb_sched" where
  "nurl_runtime_init s = s\<lparr>nb_initialized := True\<rparr>"

definition ensure_init :: "nb_sched \<Rightarrow> nb_sched" where
  "ensure_init s = (if nb_initialized s then s else nurl_runtime_init s)"

text \<open>From a coroutine: park until no fiber is live. Resuming is testing again.\<close>

definition runtime_run_co :: "cid \<Rightarrow> nb_sched \<Rightarrow> unit outcome \<times> nb_sched" where
  "runtime_run_co c s0 =
     (let s = ensure_init s0 in
      if nb_fibers_live s > 0
      then (Park, nb_park (s\<lparr>nb_drain_waiters := c # nb_drain_waiters s\<rparr>))
      else (Ret (), s))"

definition nurl_runtime_run ::
    "(cid \<Rightarrow> nb_sched \<Rightarrow> nb_sched) \<Rightarrow> nb_sched \<Rightarrow> (unit outcome \<times> nb_sched) option" where
  "nurl_runtime_run body s0 =
     (case nb_current s0 of
        Some c \<Rightarrow> Some (runtime_run_co c s0)
      | None \<Rightarrow>
          map_option (\<lambda>(ok, s'). if ok then (Ret (), s') else (Deadlock ''runtime_run'', s'))
            (nb_drive_until body (\<lambda>s. nb_live s \<le> 0) (ensure_init s0)))"

definition nurl_runtime_shutdown :: "nb_sched \<Rightarrow> nb_sched" where
  "nurl_runtime_shutdown s =
     (let s1 = fold nb_coro_free (filter (\<lambda>c. \<not> joinable (coros s c)) (nb_rq s)) s;
          s2 = s1\<lparr>nb_rq := rev (filter (\<lambda>c. joinable (coros s c)) (nb_rq s)), nb_timers := []\<rparr>;
          s3 = fold (\<lambda>t s. if joinable (coros s t) then nb_rq_push t s else nb_coro_free t s) (nb_timers s) s2
      in s3\<lparr>nb_live := 0, nb_fibers_live := 0, nb_initialized := False\<rparr>)"

text \<open>\<open>None\<close> is the abort of \<open>nb_spawn_failed\<close>.\<close>

definition nb_fiber_spawn ::
    "bool \<Rightarrow> (nat \<Rightarrow> nat) \<Rightarrow> cid option \<Rightarrow> nat \<Rightarrow> nat \<Rightarrow> nb_sched \<Rightarrow> (nat \<times> nb_sched) option" where
  "nb_fiber_spawn jn own mem fn env s0 =
     (if fn = 0 then Some (0, s0)
      else let s = ensure_init s0 in
        case nb_coro_new mem fn (own env) jn s of
          (None, _) \<Rightarrow> None
        | (Some c, s1) \<Rightarrow>
            let s2 = co_upd c (is_fiber_update (\<lambda>_. True)) (co_upd c (owns_env_update (\<lambda>_. True)) s1)
            in Some (c, nb_rq_push c (s2\<lparr>nb_live := nb_live s2 + 1, nb_fibers_live := nb_fibers_live s2 + 1\<rparr>)))"

definition nurl_fiber_spawn :: "(nat \<Rightarrow> nat) \<Rightarrow> cid option \<Rightarrow> nat \<Rightarrow> nat \<Rightarrow> nb_sched \<Rightarrow> (nat \<times> nb_sched) option" where
  "nurl_fiber_spawn = nb_fiber_spawn False"

definition nurl_fiber_spawn_owned :: "(nat \<Rightarrow> nat) \<Rightarrow> cid option \<Rightarrow> nat \<Rightarrow> nat \<Rightarrow> nb_sched \<Rightarrow> (nat \<times> nb_sched) option" where
  "nurl_fiber_spawn_owned = nb_fiber_spawn False"

definition nurl_fiber_spawn_joinable :: "(nat \<Rightarrow> nat) \<Rightarrow> cid option \<Rightarrow> nat \<Rightarrow> nat \<Rightarrow> nb_sched \<Rightarrow> (nat \<times> nb_sched) option" where
  "nurl_fiber_spawn_joinable = nb_fiber_spawn True"

section \<open>Yield, park, unpark, sleep\<close>

text \<open>Yielding from a coroutine leaves it runnable for \<open>nb_after_switch\<close> to queue.\<close>

definition fiber_yield_co :: "cid \<Rightarrow> nb_sched \<Rightarrow> nb_sched" where
  "fiber_yield_co c s = set_state c NB_RUNNABLE s"

definition nurl_fiber_yield :: "(cid \<Rightarrow> nb_sched \<Rightarrow> nb_sched) \<Rightarrow> nb_sched \<Rightarrow> nb_sched" where
  "nurl_fiber_yield body s =
     (case nb_current s of Some c \<Rightarrow> fiber_yield_co c s | None \<Rightarrow> snd (nurl__bare_step body s))"

definition nurl_fiber_park_with_mutex :: "nat \<Rightarrow> nb_sched \<Rightarrow> unit outcome \<times> nb_sched" where
  "nurl_fiber_park_with_mutex m s =
     (case nb_current s of
        None \<Rightarrow> (Ret (), s)
      | Some c \<Rightarrow>
          if wake_pending (coros s c)
          then let s1 = co_upd c (wake_pending_update (\<lambda>_. False)) s
               in (Ret (), if m \<noteq> 0 then nurl__bare_mutex_release m s1 else s1)
          else (Park, nb_park (co_upd c (pending_unlock_update (\<lambda>_. m)) s)))"

definition nb_unpark :: "nat \<Rightarrow> bool \<Rightarrow> nb_sched \<Rightarrow> nb_sched" where
  "nb_unpark c front s =
     (if c = 0 then s
      else if co_state (coros s c) \<noteq> NB_PARKED then co_upd c (wake_pending_update (\<lambda>_. True)) s
      else let s1 = set_state c NB_RUNNABLE (co_upd c (last_park_result_update (\<lambda>_. 1)) (nb_timer_remove c s))
           in if front then nb_rq_push_front c s1 else nb_rq_push c s1)"

definition nurl_fiber_unpark :: "nat \<Rightarrow> nb_sched \<Rightarrow> nb_sched" where
  "nurl_fiber_unpark h = nb_unpark h False"

definition nurl_bare_unpark_admit :: "nat \<Rightarrow> nb_sched \<Rightarrow> nb_sched" where
  "nurl_bare_unpark_admit h = nb_unpark h True"

definition nurl_bare_park_ms :: "int \<Rightarrow> nb_sched \<Rightarrow> int outcome \<times> nb_sched" where
  "nurl_bare_park_ms ms s =
     (case nb_current s of
        None \<Rightarrow> (Ret (-1), s)
      | Some c \<Rightarrow>
          if wake_pending (coros s c) then (Ret 1, co_upd c (wake_pending_update (\<lambda>_. False)) s)
          else let s1 = co_upd c (last_park_result_update (\<lambda>_. 0)) s;
                   s2 = (if ms \<ge> 0 then nb_timer_add c (nb_now_ms s1 + ms) s1 else s1)
               in (Park, nb_park s2))"

definition park_ms_resume :: "cid \<Rightarrow> int \<Rightarrow> nb_sched \<Rightarrow> int outcome \<times> nb_sched" where
  "park_ms_resume c ms s =
     (let s1 = (if ms \<ge> 0 then nb_timer_remove c s else s) in (Ret (last_park_result (coros s1 c)), s1))"

definition nurl_fiber_park_with_mutex_ms :: "nat \<Rightarrow> int \<Rightarrow> nb_sched \<Rightarrow> int outcome \<times> nb_sched" where
  "nurl_fiber_park_with_mutex_ms m ms s =
     (case nb_current s of
        None \<Rightarrow> (Ret (-1), s)
      | Some c \<Rightarrow>
          if wake_pending (coros s c)
          then let s1 = co_upd c (wake_pending_update (\<lambda>_. False)) s
               in (Ret 1, if m \<noteq> 0 then nurl__bare_mutex_release m s1 else s1)
          else let s1 = co_upd c (last_park_result_update (\<lambda>_. 0)) s;
                   s2 = (if ms \<ge> 0 then nb_timer_add c (nb_now_ms s1 + ms) s1 else s1)
               in (Park, nb_park (co_upd c (pending_unlock_update (\<lambda>_. m)) s2)))"

definition nurl_fiber_wake :: "nat \<Rightarrow> nb_sched \<Rightarrow> int \<times> nb_sched" where
  "nurl_fiber_wake h s =
     (if h = 0 \<or> co_state (coros s h) \<noteq> NB_PARKED then (0, s) else (1, nurl_fiber_unpark h s))"

definition nurl_fiber_join ::
    "(cid \<Rightarrow> nb_sched \<Rightarrow> nb_sched) \<Rightarrow> nat \<Rightarrow> nb_sched \<Rightarrow> (int outcome \<times> nb_sched) option" where
  "nurl_fiber_join body h s = (if h = 0 \<or> \<not> joinable (coros s h) then Some (Ret 0, s) else nb_join body h s)"

definition nurl_fiber_detach :: "nat \<Rightarrow> nb_sched \<Rightarrow> nb_sched" where
  "nurl_fiber_detach h s = (if h = 0 \<or> \<not> joinable (coros s h) then s else nb_detach h s)"

definition fiber_sleep_co :: "cid \<Rightarrow> int \<Rightarrow> nb_sched \<Rightarrow> int outcome \<times> nb_sched" where
  "fiber_sleep_co c ms s =
     (if ms \<le> 0 then (Park, fiber_yield_co c s)
      else (Park, nb_park (nb_timer_add c (nb_now_ms s + ms) s)))"

text \<open>The main context cannot park: it runs what is runnable until the deadline, or until
  \<open>done\<close> holds, and sleeps only when nothing is. \<open>None\<close> is never getting there.\<close>

definition main_nap :: "(cid \<Rightarrow> nb_sched \<Rightarrow> nb_sched) \<Rightarrow> int \<Rightarrow> nb_sched \<Rightarrow> nb_sched" where
  "main_nap body deadline s =
     (let (r, s1) = nb_step_bounded body (deadline - nb_now_ms s) s;
          left = deadline - nb_now_ms s1
      in if r then s1 else if left > 0 then nb_sleep_ms left s1 else s1)"

partial_function (option) main_wait_loop ::
    "(cid \<Rightarrow> nb_sched \<Rightarrow> nb_sched) \<Rightarrow> (nb_sched \<Rightarrow> bool) \<Rightarrow> int \<Rightarrow> nb_sched \<Rightarrow> (bool \<times> nb_sched) option" where
  "main_wait_loop body pred deadline s =
     (if pred s then Some (True, s)
      else if nb_now_ms s \<ge> deadline then Some (False, s)
      else main_wait_loop body pred deadline (main_nap body deadline s))"

definition nurl_fiber_sleep_ms ::
    "(cid \<Rightarrow> nb_sched \<Rightarrow> nb_sched) \<Rightarrow> int \<Rightarrow> nb_sched \<Rightarrow> (int outcome \<times> nb_sched) option" where
  "nurl_fiber_sleep_ms body ms s =
     (case nb_current s of
        Some c \<Rightarrow> Some (fiber_sleep_co c ms s)
      | None \<Rightarrow>
          if ms \<le> 0 then Some (Ret 0, nurl_fiber_yield body s)
          else map_option (\<lambda>(_, s'). (Ret 0, s'))
                 (main_wait_loop body (\<lambda>_. False) (nb_now_ms s + ms) s))"

definition nurl_cond_wait_ms ::
    "(cid \<Rightarrow> nb_sched \<Rightarrow> nb_sched) \<Rightarrow> nat \<Rightarrow> nat \<Rightarrow> int \<Rightarrow> nb_sched \<Rightarrow> (int outcome \<times> nb_sched) option" where
  "nurl_cond_wait_ms body v m ms s =
     (if v = 0 \<or> m = 0 then Some (Ret 0, s)
      else if nb_current s \<noteq> None \<or> ms < 0
      then map_option (\<lambda>(out, s'). (case out of Ret r \<Rightarrow> Ret (if r = 0 then 1 else 0) | x \<Rightarrow> x, s'))
             (pthread_cond_wait body v m s)
      else let seq = cv_seq (conds s v);
               s1 = nurl__bare_mutex_release m (cv_upd v (main_waiters_update (\<lambda>n. n + 1)) s)
           in case main_wait_loop body (\<lambda>s. cv_seq (conds s v) \<noteq> seq) (nb_now_ms s + ms) s1 of
                None \<Rightarrow> None
              | Some (fired, s2) \<Rightarrow>
                  map_option (\<lambda>(out, s3). (case out of Ret _ \<Rightarrow> Ret (if fired then 1 else 0) | x \<Rightarrow> x, s3))
                    (pthread_mutex_lock body m (cv_upd v (main_waiters_update (\<lambda>n. n - 1)) s2)))"

definition nurl_bare_poll :: "(cid \<Rightarrow> nb_sched \<Rightarrow> nb_sched) \<Rightarrow> nb_sched \<Rightarrow> int \<times> nb_sched" where
  "nurl_bare_poll body s =
     (if nb_current s \<noteq> None then (0, s)
      else let (r, s') = nurl__bare_step body (ensure_init s) in (if r then 1 else 0, s'))"

definition nurl_bare_runnable :: "nb_sched \<Rightarrow> int" where
  "nurl_bare_runnable s = (if nb_rq s \<noteq> [] then 1 else 0)"

definition nurl_bare_blocked :: "nb_sched \<Rightarrow> int" where
  "nurl_bare_blocked s = (if nb_drive_depth s > 0 then 1 else 0)"

definition nurl_bare_timer_ms :: "nb_sched \<Rightarrow> int" where
  "nurl_bare_timer_ms s =
     (case nb_timers s of
        [] \<Rightarrow> -1
      | t # _ \<Rightarrow> let d = wake_at_ms (coros s t) - nb_now_ms s in if d > 0 then d else 0)"

end
