(* ===== verification/BareInv.thy ===== *)
theory BareInv
  imports BareSched
begin

text \<open>
  The scheduler invariant: every coroutine is in at most one place. A place is the run queue,
  the wait queue of a mutex, condition variable or reader-writer lock, the joiners of a
  coroutine, or the waiters of \<open>nurl_runtime_run\<close>; the timer list is a place too. A coroutine on
  the run queue is runnable, one that waits anywhere is parked, and a runnable one is never
  forgotten. Every operation of BareSched keeps it, over any run of client coroutines.
\<close>

section \<open>Places\<close>

datatype place = PRq | PMx nat | PCv nat | PRw nat | PJoin cid | PDrain

fun node_cids :: "rw_node list \<Rightarrow> cid list" where
  "node_cids [] = []"
| "node_cids (RwMain # ns) = node_cids ns"
| "node_cids (RwCo c # ns) = c # node_cids ns"

fun queue_at :: "nb_sched \<Rightarrow> place \<Rightarrow> cid list" where
  "queue_at s PRq = nb_rq s"
| "queue_at s (PMx m) = mx_wq (mutexes s m)"
| "queue_at s (PCv v) = cv_wq (conds s v)"
| "queue_at s (PRw l) = node_cids (rw_wq (rwlocks s l))"
| "queue_at s (PJoin c) = joiners (coros s c)"
| "queue_at s PDrain = nb_drain_waiters s"

text \<open>What the places, the timer list and the state of one coroutine have to do with each
  other.\<close>

definition place_ok :: "(place \<Rightarrow> bool) \<Rightarrow> bool \<Rightarrow> nb_stat \<Rightarrow> bool \<Rightarrow> bool \<Rightarrow> bool" where
  "place_ok at tm st cur al \<longleftrightarrow>
     (\<forall>p p'. at p \<longrightarrow> at p' \<longrightarrow> p = p') \<and>
     (\<forall>p. at p \<longrightarrow> st = (if p = PRq then NB_RUNNABLE else NB_PARKED) \<and> \<not> tm \<and> al) \<and>
     (tm \<longrightarrow> st = NB_PARKED \<and> al) \<and>
     (al \<longrightarrow> st = NB_RUNNABLE \<longrightarrow> \<not> cur \<longrightarrow> at PRq) \<and>
     (al \<longrightarrow> st = NB_RUNNING \<longrightarrow> cur) \<and>
     (cur \<longrightarrow> al \<and> \<not> at PRq)"

text \<open>The invariant depends on this view of the state only: places \<open>Q\<close>, timers \<open>T\<close>, states
  \<open>st\<close>, deadlines \<open>wk\<close>, the running coroutine and what is allocated.\<close>

definition wfv :: "(place \<Rightarrow> cid list) \<Rightarrow> cid list \<Rightarrow> (cid \<Rightarrow> nb_stat) \<Rightarrow> (cid \<Rightarrow> int) \<Rightarrow>
    cid option \<Rightarrow> (cid \<Rightarrow> bool) \<Rightarrow> bool" where
  "wfv Q T st wk cur al \<longleftrightarrow>
     (\<forall>p. distinct (Q p)) \<and> distinct T \<and> sorted_wrt (\<lambda>a b. wk a \<le> wk b) T \<and>
     (\<forall>c. place_ok (\<lambda>p. c \<in> set (Q p)) (c \<in> set T) (st c) (cur = Some c) (al c)) \<and>
     (\<forall>c. \<not> al c \<longrightarrow> Q (PJoin c) = [])"

text \<open>A coroutine is finished exactly when it is done, and once it has switched back nobody waits
  to join it any more.\<close>

definition finv :: "(place \<Rightarrow> cid list) \<Rightarrow> (cid \<Rightarrow> nb_stat) \<Rightarrow> (cid \<Rightarrow> bool) \<Rightarrow> cid option \<Rightarrow> (cid \<Rightarrow> bool) \<Rightarrow> bool" where
  "finv Q st fin cur al \<longleftrightarrow>
     (\<forall>c. al c \<longrightarrow> (fin c \<longleftrightarrow> st c = NB_DONE) \<and> (st c = NB_DONE \<longrightarrow> cur \<noteq> Some c \<longrightarrow> Q (PJoin c) = []))"

definition nb_st :: "nb_sched \<Rightarrow> cid \<Rightarrow> nb_stat" where "nb_st s c = co_state (coros s c)"
definition nb_wk :: "nb_sched \<Rightarrow> cid \<Rightarrow> int" where "nb_wk s c = wake_at_ms (coros s c)"
definition nb_fin :: "nb_sched \<Rightarrow> cid \<Rightarrow> bool" where "nb_fin s c = finished (coros s c)"

definition nb_wf :: "nb_sched \<Rightarrow> bool" where
  "nb_wf s \<longleftrightarrow> wfv (queue_at s) (nb_timers s) (nb_st s) (nb_wk s) (nb_current s) (allocated s) \<and>
     finv (queue_at s) (nb_st s) (nb_fin s) (nb_current s) (allocated s) \<and> \<not> allocated s 0"

text \<open>No switch is under way: the main context runs, or a coroutine that has not parked.\<close>

definition nb_active :: "nb_sched \<Rightarrow> bool" where
  "nb_active s \<longleftrightarrow> nb_wf s \<and> (\<forall>c. nb_current s = Some c \<longrightarrow> nb_st s c = NB_RUNNING)"

text \<open>A coroutine that only \<open>nb_unpark\<close> or its own deadline can wake.\<close>

definition parked_free :: "nb_sched \<Rightarrow> cid \<Rightarrow> bool" where
  "parked_free s c \<longleftrightarrow> (\<forall>p. c \<notin> set (queue_at s p))"

text \<open>What client code may do without giving up the processor, from the main context or from the
  running coroutine. A new coroutine is at a fresh address; one that is freed by a join or a
  detach is still allocated; unpark and wake are for coroutines that parked themselves.\<close>

inductive nb_call :: "nb_sched \<Rightarrow> nb_sched \<Rightarrow> bool" where
  lock: "nb_current s = Some c \<Longrightarrow> mutex_lock_co c m s = (Ret r, s') \<Longrightarrow> nb_call s s'"
| trylock: "nb_call s (snd (pthread_mutex_trylock m s))"
| unlock: "nb_call s (snd (pthread_mutex_unlock m s))"
| mx_init: "nb_call s (snd (pthread_mutex_init m s))"
| mx_destroy: "nb_call s (snd (pthread_mutex_destroy m s))"
| cv_init: "nb_call s (snd (pthread_cond_init v s))"
| cv_destroy: "nb_call s (snd (pthread_cond_destroy v s))"
| signal: "nb_call s (snd (pthread_cond_signal v s))"
| broadcast: "nb_call s (snd (pthread_cond_broadcast v s))"
| create: "\<not> allocated s c \<Longrightarrow> c \<noteq> 0 \<Longrightarrow> nb_call s (snd (pthread_create (Some c) tp st arg s))"
| create_owned: "\<not> allocated s c \<Longrightarrow> c \<noteq> 0 \<Longrightarrow> nb_call s (snd (nurl_pthread_create_owned own (Some c) tp fn env s))"
| spawn: "\<not> allocated s c \<Longrightarrow> c \<noteq> 0 \<Longrightarrow> nb_fiber_spawn jn own (Some c) fn env s = Some (h, s') \<Longrightarrow> nb_call s s'"
| join_now: "allocated s c \<Longrightarrow> nb_join_co me c s = (Ret r, s') \<Longrightarrow> nb_call s s'"
| join_resumed: "allocated s c \<Longrightarrow> finished (coros s c) \<Longrightarrow> nb_call s (snd (nb_join_resume c s))"
| detach: "allocated s c \<Longrightarrow> nb_call s (nb_detach c s)"
| unpark: "allocated s c \<Longrightarrow> (co_state (coros s c) = NB_PARKED \<Longrightarrow> parked_free s c) \<Longrightarrow> nb_call s (nb_unpark c fr s)"
| wake: "allocated s c \<Longrightarrow> (co_state (coros s c) = NB_PARKED \<Longrightarrow> parked_free s c) \<Longrightarrow> nb_call s (snd (nurl_fiber_wake c s))"
| permit: "nurl_fiber_park_with_mutex m s = (Ret u, s') \<Longrightarrow> nb_call s s'"
| permit_ms: "nurl_bare_park_ms ms s = (Ret r, s') \<Longrightarrow> nb_call s s'"
| permit_mutex_ms: "nurl_fiber_park_with_mutex_ms m ms s = (Ret r, s') \<Longrightarrow> nb_call s s'"
| park_resumed: "nb_current s = Some c \<Longrightarrow> nb_call s (snd (park_ms_resume c ms s))"
| init: "nb_call s (nurl_runtime_init s)"
| run_now: "nb_current s = Some c \<Longrightarrow> runtime_run_co c s = (Ret u, s') \<Longrightarrow> nb_call s s'"
| rw_init: "nb_call s (nurl_rwlock_init l s)"
| rdlock: "nb_current s = Some c \<Longrightarrow> nurl_rwlock_rdlock body l s = Some (Ret u, s') \<Longrightarrow> nb_call s s'"
| wrlock: "nb_current s = Some c \<Longrightarrow> nurl_rwlock_wrlock body l s = Some (Ret u, s') \<Longrightarrow> nb_call s s'"
| rw_resumed: "fin = rd_finish \<or> fin = wr_finish \<Longrightarrow> rw_resume fin c l s = (Ret u, s') \<Longrightarrow> nb_call s s'"
| rdunlock: "nb_call s (nurl_rwlock_rdunlock l s)"
| wrunlock: "nb_call s (nurl_rwlock_wrunlock l s)"
| tryrdlock: "nb_call s (snd (nurl_rwlock_tryrdlock l s))"
| trywrlock: "nb_call s (snd (nurl_rwlock_trywrlock l s))"

text \<open>What gives it up.\<close>

inductive nb_switch :: "cid \<Rightarrow> nb_sched \<Rightarrow> nb_sched \<Rightarrow> bool" where
  lock: "mutex_lock_co c m s = (Park, s') \<Longrightarrow> nb_switch c s s'"
| cond_wait: "cond_wait_co c v m s = (Park, s') \<Longrightarrow> nb_switch c s s'"
| join: "allocated s d \<Longrightarrow> nb_join_co c d s = (Park, s') \<Longrightarrow> nb_switch c s s'"
| run: "runtime_run_co c s = (Park, s') \<Longrightarrow> nb_switch c s s'"
| yield: "nb_switch c s (fiber_yield_co c s)"
| sleep: "fiber_sleep_co c ms s = (Park, s') \<Longrightarrow> nb_switch c s s'"
| park: "nurl_fiber_park_with_mutex m s = (Park, s') \<Longrightarrow> nb_switch c s s'"
| park_ms: "nurl_bare_park_ms ms s = (Park, s') \<Longrightarrow> nb_switch c s s'"
| park_mutex_ms: "nurl_fiber_park_with_mutex_ms m ms s = (Park, s') \<Longrightarrow> nb_switch c s s'"
| rdlock: "nurl_rwlock_rdlock body l s = Some (Park, s') \<Longrightarrow> nb_switch c s s'"
| wrlock: "nurl_rwlock_wrlock body l s = Some (Park, s') \<Longrightarrow> nb_switch c s s'"
| rw_again: "rw_resume fin c l s = (Park, s') \<Longrightarrow> nb_switch c s s'"
| exit: "nb_switch c s (pthread_exit c s)"
| return: "nb_switch c s (nb_entry_end c s)"

text \<open>A run of coroutine \<open>c\<close> between two switches.\<close>

inductive nb_turn :: "cid \<Rightarrow> nb_sched \<Rightarrow> nb_sched \<Rightarrow> bool" for c where
  out: "nb_switch c s s' \<Longrightarrow> nb_turn c s s'"
| call: "nb_call s s1 \<Longrightarrow> nb_turn c s1 s' \<Longrightarrow> nb_turn c s s'"

section \<open>Moves on the view\<close>

lemma wfv_place: "wfv Q T st wk cur al \<Longrightarrow> place_ok (\<lambda>p. c \<in> set (Q p)) (c \<in> set T) (st c) (cur = Some c) (al c)"
  by (simp add: wfv_def)

text \<open>A move of one coroutine: everything else stays where it is.\<close>

lemma wfv_move:
  assumes wf: "wfv Q T st wk cur al"
    and Q: "\<And>p. distinct (Q' p)" "\<And>p c. c \<noteq> w \<Longrightarrow> c \<in> set (Q' p) \<longleftrightarrow> c \<in> set (Q p)"
    and T: "distinct T'" "sorted_wrt (\<lambda>a b. wk' a \<le> wk' b) T'" "\<And>c. c \<noteq> w \<Longrightarrow> c \<in> set T' \<longleftrightarrow> c \<in> set T"
    and rest: "\<And>c. c \<noteq> w \<Longrightarrow> st' c = st c" "\<And>c. c \<noteq> w \<Longrightarrow> (cur' = Some c) = (cur = Some c)"
      "\<And>c. c \<noteq> w \<Longrightarrow> al' c = al c"
    and w: "place_ok (\<lambda>p. w \<in> set (Q' p)) (w \<in> set T') (st' w) (cur' = Some w) (al' w)"
    and J: "\<And>c. \<not> al' c \<Longrightarrow> Q' (PJoin c) = []"
  shows "wfv Q' T' st' wk' cur' al'"
  unfolding wfv_def
proof (intro conjI allI)
  fix c
  show "place_ok (\<lambda>p. c \<in> set (Q' p)) (c \<in> set T') (st' c) (cur' = Some c) (al' c)"
  proof (cases "c = w")
    case False
    with wfv_place [OF wf, of c] Q(2) T(3) rest show ?thesis by simp
  qed (use w in simp)
qed (use assms in auto)

lemma place_unique: "place_ok at tm st cur al \<Longrightarrow> at p \<Longrightarrow> at p' \<longleftrightarrow> p' = p"
  by (auto simp: place_ok_def)

lemma place_ok_single:
  "\<lbrakk>st = (if p = PRq then NB_RUNNABLE else NB_PARKED); al; cur \<longrightarrow> p \<noteq> PRq\<rbrakk> \<Longrightarrow> place_ok (\<lambda>q. q = p) False st cur al"
  by (auto simp: place_ok_def)

lemma place_nowhere:
  "place_ok at tm st cur al \<Longrightarrow> st = NB_RUNNING \<or> st = NB_DONE \<or> \<not> al \<Longrightarrow> \<not> at p \<and> \<not> tm"
  by (auto simp: place_ok_def split: if_splits)

lemma place_waiting: "place_ok at tm st cur al \<Longrightarrow> at p \<Longrightarrow> p \<noteq> PRq \<Longrightarrow> st = NB_PARKED \<and> \<not> tm \<and> al"
proof -
  assume a: "place_ok at tm st cur al" and p: "at p" "p \<noteq> PRq"
  from a have "at p \<longrightarrow> st = (if p = PRq then NB_RUNNABLE else NB_PARKED) \<and> \<not> tm \<and> al"
    unfolding place_ok_def by blast
  with p show ?thesis by simp
qed

lemma place_queued: "place_ok at tm st cur al \<Longrightarrow> at PRq \<Longrightarrow> st = NB_RUNNABLE \<and> al"
  unfolding place_ok_def by metis

lemma place_ok_less:
  assumes "place_ok at tm st cur al" "\<And>p. at' p \<Longrightarrow> at p" "at' PRq = at PRq"
  shows "place_ok at' tm st cur al"
  using assms unfolding place_ok_def by blast

text \<open>The first of a wait queue goes to the run queue, at its end or its front.\<close>

lemma wfv_wake:
  assumes wf: "wfv Q T st wk cur al" and q: "Q p = w # ws" and p: "p \<noteq> PRq" and c: "cur \<noteq> Some w"
  shows "wfv (Q(p := ws, PRq := Q PRq @ [w])) T (st(w := NB_RUNNABLE)) wk cur al"
proof (rule wfv_move [OF wf, where w = w])
  note pw = wfv_place [OF wf, of w]
  have at: "w \<in> set (Q p') \<longleftrightarrow> p' = p" for p' using place_unique [OF pw, of p p'] q by auto
  have al: "al w" "w \<notin> set T" using pw at [of p] by (auto simp: place_ok_def)
  have d: "distinct (Q x)" for x using wf by (simp add: wfv_def)
  then have ws: "w \<notin> set ws" "distinct ws" using q by (metis distinct.simps(2))+
  show "distinct ((Q(p := ws, PRq := Q PRq @ [w])) x)" for x using d [of x] d [of PRq] ws at p by auto
  show "place_ok (\<lambda>x. w \<in> set ((Q(p := ws, PRq := Q PRq @ [w])) x)) (w \<in> set T) ((st(w := NB_RUNNABLE)) w) (cur = Some w) (al w)"
  proof -
    have "(\<lambda>x. w \<in> set ((Q(p := ws, PRq := Q PRq @ [w])) x)) = (\<lambda>x. x = PRq)" using at ws by (auto simp: fun_eq_iff)
    then show ?thesis using al c by (simp add: place_ok_single)
  qed
  show "(Q(p := ws, PRq := Q PRq @ [w])) (PJoin c) = []" if "\<not> al c" for c
    using wf that q by (auto simp: wfv_def)
qed (use wf q p in \<open>auto simp: wfv_def\<close>)

text \<open>The running coroutine parks in a wait queue, or in none.\<close>

lemma wfv_park:
  assumes wf: "wfv Q T st wk (Some c) al" and r: "st c = NB_RUNNING" and p: "p \<noteq> PRq"
    and q: "set (q') = insert c (set (Q p))" "distinct q'" and j: "\<And>d. p = PJoin d \<Longrightarrow> al d"
  shows "wfv (Q(p := q')) T (st(c := NB_PARKED)) wk (Some c) al"
proof (rule wfv_move [OF wf, where w = c])
  note pc = wfv_place [OF wf, of c]
  have no: "c \<notin> set (Q x)" "c \<notin> set T" "al c" for x
    using place_nowhere [OF pc] pc r by (auto simp: place_ok_def)
  have "(\<lambda>x. c \<in> set ((Q(p := q')) x)) = (\<lambda>x. x = p)" using no q by (auto simp: fun_eq_iff)
  then show "place_ok (\<lambda>x. c \<in> set ((Q(p := q')) x)) (c \<in> set T) ((st(c := NB_PARKED)) c) (Some c = Some c) (al c)"
    using no p by (simp add: place_ok_single)
qed (use wf q p j in \<open>auto simp: wfv_def\<close>)

lemma wfv_park_free:
  assumes wf: "wfv Q T st wk (Some c) al" and r: "st c = NB_RUNNING"
  shows "wfv Q T (st(c := NB_PARKED)) wk (Some c) al"
proof (rule wfv_move [OF wf, where w = c])
  note pc = wfv_place [OF wf, of c]
  have no: "c \<notin> set (Q x)" "c \<notin> set T" "al c" for x
    using place_nowhere [OF pc] pc r by (auto simp: place_ok_def)
  then show "place_ok (\<lambda>x. c \<in> set (Q x)) (c \<in> set T) ((st(c := NB_PARKED)) c) (Some c = Some c) (al c)"
    by (auto simp: place_ok_def)
qed (use wf in \<open>auto simp: wfv_def\<close>)


text \<open>An expired timer, and an unpark.\<close>

lemma wfv_unpark:
  assumes wf: "wfv Q T st wk cur al" and w: "st w = NB_PARKED" "al w" "cur \<noteq> Some w"
    and free: "\<And>p. w \<notin> set (Q p)" and q: "set q' = insert w (set (Q PRq))" "distinct q'"
  shows "wfv (Q(PRq := q')) (remove1 w T) (st(w := NB_RUNNABLE)) wk cur al"
proof (rule wfv_move [OF wf, where w = w])
  have "distinct T" using wf by (simp add: wfv_def)
  then have nt: "w \<notin> set (remove1 w T)" by simp
  have "(\<lambda>x. w \<in> set ((Q(PRq := q')) x)) = (\<lambda>x. x = PRq)" using free q by (auto simp: fun_eq_iff)
  then show "place_ok (\<lambda>x. w \<in> set ((Q(PRq := q')) x)) (w \<in> set (remove1 w T)) ((st(w := NB_RUNNABLE)) w)
      (cur = Some w) (al w)"
    using w nt by (simp add: place_ok_single)
qed (use wf q in \<open>auto simp: wfv_def sorted_wrt_remove1\<close>)

lemma wfv_expire:
  assumes wf: "wfv Q (w # T) st wk cur al" and c: "cur \<noteq> Some w"
  shows "wfv (Q(PRq := Q PRq @ [w])) T (st(w := NB_RUNNABLE)) wk cur al"
proof -
  have no: "w \<notin> set (Q p)" "st w = NB_PARKED" "al w" for p
    using wfv_place [OF wf, of w] by (auto simp: place_ok_def)
  have d: "distinct (Q PRq)" using wf by (simp add: wfv_def)
  show ?thesis using wfv_unpark [OF wf no(2,3) c no(1), of "Q PRq @ [w]"] no(1) d by auto
qed

lemma set_timer_insert [simp]: "set (timer_insert at c t xs) = insert c (set xs)"
  by (induction xs) auto

lemma distinct_timer_insert [simp]: "c \<notin> set xs \<Longrightarrow> distinct (timer_insert at c t xs) = distinct xs"
  by (induction xs) auto

lemma sorted_timer_insert:
  assumes "sorted_wrt (\<lambda>a b. at a \<le> at b) xs" and "at c = t"
  shows "sorted_wrt (\<lambda>a b. at a \<le> at b) (timer_insert at c t xs)"
  using assms by (induction xs) (auto intro: order.trans)

lemma wfv_timer_park:
  assumes wf: "wfv Q T st wk (Some c) al" and r: "st c = NB_RUNNING" and wk: "wk' = wk(c := t)"
  shows "wfv Q (timer_insert wk' c t T) (st(c := NB_PARKED)) wk' (Some c) al"
proof (rule wfv_move [OF wf, where w = c])
  note pc = wfv_place [OF wf, of c]
  have no: "c \<notin> set (Q x)" "c \<notin> set T" "al c" for x
    using place_nowhere [OF pc] pc r by (auto simp: place_ok_def)
  have "sorted_wrt (\<lambda>a b. wk' a \<le> wk' b) T"
    using wf no(2) by (auto simp: wfv_def wk elim!: sorted_wrt_mono_rel [rotated])
  then show "sorted_wrt (\<lambda>a b. wk' a \<le> wk' b) (timer_insert wk' c t T)"
    by (rule sorted_timer_insert) (simp add: wk)
  show "distinct (timer_insert wk' c t T)" using wf no(2) by (simp add: wfv_def)
  show "place_ok (\<lambda>x. c \<in> set (Q x)) (c \<in> set (timer_insert wk' c t T)) ((st(c := NB_PARKED)) c) (Some c = Some c) (al c)"
    using no by (simp add: place_ok_def)
qed (use wf in \<open>auto simp: wfv_def\<close>)

text \<open>Switching to a coroutine and back.\<close>

lemma wfv_dispatch:
  assumes wf: "wfv Q T st wk None al" and q: "Q PRq = c # q"
  shows "wfv (Q(PRq := q)) T (st(c := NB_RUNNING)) wk (Some c) al"
proof (rule wfv_move [OF wf, where w = c])
  note pc = wfv_place [OF wf, of c]
  have at: "c \<in> set (Q p') \<longleftrightarrow> p' = PRq" for p' using place_unique [OF pc, of PRq p'] q by auto
  have d: "distinct (Q x)" for x using wf by (simp add: wfv_def)
  then have ws: "c \<notin> set q" "distinct q" using q by (metis distinct.simps(2))+
  show "distinct ((Q(PRq := q)) x)" for x using d [of x] ws by simp
  have "(\<lambda>x. c \<in> set ((Q(PRq := q)) x)) = (\<lambda>x. False)" using at ws by (auto simp: fun_eq_iff)
  then show "place_ok (\<lambda>x. c \<in> set ((Q(PRq := q)) x)) (c \<in> set T) ((st(c := NB_RUNNING)) c) (Some c = Some c) (al c)"
    using pc at by (simp add: place_ok_def)
qed (use wf q in \<open>auto simp: wfv_def\<close>)

lemma wfv_set_running_state:
  assumes wf: "wfv Q T st wk (Some c) al" and r: "st c = NB_RUNNING" and x: "x = NB_RUNNABLE \<or> x = NB_DONE"
  shows "wfv Q T (st(c := x)) wk (Some c) al"
proof (rule wfv_move [OF wf, where w = c])
  note pc = wfv_place [OF wf, of c]
  have no: "c \<notin> set (Q x)" "c \<notin> set T" "al c" for x
    using place_nowhere [OF pc] pc r by (auto simp: place_ok_def)
  show "place_ok (\<lambda>x. c \<in> set (Q x)) (c \<in> set T) ((st(c := x)) c) (Some c = Some c) (al c)"
    using no x by (auto simp: place_ok_def)
qed (use wf in \<open>auto simp: wfv_def\<close>)

lemma wfv_back_runnable:
  assumes wf: "wfv Q T st wk (Some c) al" and r: "st c = NB_RUNNING \<or> st c = NB_RUNNABLE"
  shows "wfv (Q(PRq := Q PRq @ [c])) T (st(c := NB_RUNNABLE)) wk None al"
proof (rule wfv_move [OF wf, where w = c])
  note pc = wfv_place [OF wf, of c]
  have no: "c \<notin> set (Q x)" "c \<notin> set T" "al c" for x
    using pc r by (auto simp: place_ok_def split: if_splits)
  have "(\<lambda>x. c \<in> set ((Q(PRq := Q PRq @ [c])) x)) = (\<lambda>x. x = PRq)" using no by (auto simp: fun_eq_iff)
  then show "place_ok (\<lambda>x. c \<in> set ((Q(PRq := Q PRq @ [c])) x)) (c \<in> set T) ((st(c := NB_RUNNABLE)) c) (None = Some c) (al c)"
    using no by (simp add: place_ok_single)
  show "distinct ((Q(PRq := Q PRq @ [c])) x)" for x using wf no by (simp add: wfv_def)
qed (use wf in \<open>auto simp: wfv_def\<close>)

lemma wfv_back:
  assumes wf: "wfv Q T st wk (Some c) al" and r: "st c = NB_PARKED \<or> st c = NB_DONE"
  shows "wfv Q T st wk None al"
proof (rule wfv_move [OF wf, where w = c])
  show "place_ok (\<lambda>x. c \<in> set (Q x)) (c \<in> set T) (st c) (None = Some c) (al c)"
    using wfv_place [OF wf, of c] r by (auto simp: place_ok_def)
qed (use wf in \<open>auto simp: wfv_def\<close>)

text \<open>Creating and freeing a coroutine.\<close>

lemma wfv_spawn:
  assumes wf: "wfv Q T st wk cur al" and c: "\<not> al c"
  shows "wfv (Q(PRq := Q PRq @ [c])) T (st(c := NB_RUNNABLE)) (wk(c := t)) cur (al(c := True))"
proof (rule wfv_move [OF wf, where w = c])
  note pc = wfv_place [OF wf, of c]
  have no: "c \<notin> set (Q x)" "c \<notin> set T" "cur \<noteq> Some c" for x
    using place_nowhere [OF pc] pc c by (auto simp: place_ok_def)
  have "(\<lambda>x. c \<in> set ((Q(PRq := Q PRq @ [c])) x)) = (\<lambda>x. x = PRq)" using no by (auto simp: fun_eq_iff)
  then show "place_ok (\<lambda>x. c \<in> set ((Q(PRq := Q PRq @ [c])) x)) (c \<in> set T) ((st(c := NB_RUNNABLE)) c) (cur = Some c) ((al(c := True)) c)"
    using no by (simp add: place_ok_single)
  show "distinct ((Q(PRq := Q PRq @ [c])) x)" for x using wf no by (simp add: wfv_def)
  show "sorted_wrt (\<lambda>a b. (wk(c := t)) a \<le> (wk(c := t)) b) T"
    using wf no(2) by (auto simp: wfv_def elim!: sorted_wrt_mono_rel [rotated])
qed (use wf in \<open>auto simp: wfv_def split: if_splits\<close>)

lemma wfv_free:
  assumes wf: "wfv Q T st wk cur al" and c: "st c = NB_DONE" "cur \<noteq> Some c" "Q (PJoin c) = []"
  shows "wfv Q T st wk cur (al(c := False))"
proof (rule wfv_move [OF wf, where w = c])
  show "place_ok (\<lambda>x. c \<in> set (Q x)) (c \<in> set T) (st c) (cur = Some c) ((al(c := False)) c)"
    using place_nowhere [OF wfv_place [OF wf, of c]] c by (auto simp: place_ok_def)
qed (use wf c in \<open>auto simp: wfv_def split: if_splits\<close>)


section \<open>The view of each primitive\<close>

declare queue_at.simps [simp del]

named_theorems nb_view

lemma queue_at_upd [nb_view]:
  "queue_at (co_upd c f s) = (queue_at s)(PJoin c := joiners (f (coros s c)))"
  "queue_at (mx_upd m g s) = (queue_at s)(PMx m := mx_wq (g (mutexes s m)))"
  "queue_at (cv_upd v h s) = (queue_at s)(PCv v := cv_wq (h (conds s v)))"
  "queue_at (s\<lparr>nb_rq := q\<rparr>) = (queue_at s)(PRq := q)"
  "queue_at (s\<lparr>nb_drain_waiters := q\<rparr>) = (queue_at s)(PDrain := q)"
  "queue_at (rw_upd l k s) = (queue_at s)(PRw l := node_cids (rw_wq (k (rwlocks s l))))"
  unfolding co_upd_def mx_upd_def cv_upd_def rw_upd_def fun_eq_iff
  by (rule allI, case_tac x, simp_all add: queue_at.simps)+

lemma queue_at_frame [nb_view]:
  "queue_at (nb_timers_update f1 s) = queue_at s"
  "queue_at (nb_current_update f2 s) = queue_at s"
  "queue_at (nb_live_update f3 s) = queue_at s"
  "queue_at (nb_fibers_live_update f3 s) = queue_at s"
  "queue_at (nb_initialized_update f4 s) = queue_at s"
  "queue_at (nb_drive_depth_update f3 s) = queue_at s"
  "queue_at (nb_clock_update f3 s) = queue_at s"
  "queue_at (allocated_update f5 s) = queue_at s"
  "queue_at (live_coros_update f3 s) = queue_at s"
  "queue_at (dropped_update f6 s) = queue_at s"
  "queue_at (nb_rw_main_want_update f8 s) = queue_at s"
  "queue_at (nb_rw_main_rec_update f9 s) = queue_at s"
  unfolding fun_eq_iff by (rule allI, case_tac x, simp_all add: queue_at.simps)+

lemma place_queues:
  "nb_rq s = queue_at s PRq" "mx_wq (mutexes s m) = queue_at s (PMx m)" "cv_wq (conds s v) = queue_at s (PCv v)"
  "joiners (coros s c) = queue_at s (PJoin c)" "nb_drain_waiters s = queue_at s PDrain"
  "node_cids (rw_wq (rwlocks s l)) = queue_at s (PRw l)"
  by (simp_all add: queue_at.simps)

lemma co_upd_fields [nb_view]:
  "nb_st (co_upd c f s) = (nb_st s)(c := co_state (f (coros s c)))"
  "nb_wk (co_upd c f s) = (nb_wk s)(c := wake_at_ms (f (coros s c)))"
  "nb_fin (co_upd c f s) = (nb_fin s)(c := finished (f (coros s c)))"
  "nb_timers (co_upd c f s) = nb_timers s" "nb_current (co_upd c f s) = nb_current s"
  "allocated (co_upd c f s) = allocated s" "nb_rq (co_upd c f s) = nb_rq s"
  "mutexes (co_upd c f s) = mutexes s" "conds (co_upd c f s) = conds s" "rwlocks (co_upd c f s) = rwlocks s"
  by (auto simp: co_upd_def nb_st_def nb_wk_def nb_fin_def fun_eq_iff)

lemma obj_upd_fields [nb_view]:
  "nb_st (mx_upd m g s) = nb_st s" "nb_wk (mx_upd m g s) = nb_wk s" "nb_fin (mx_upd m g s) = nb_fin s"
  "nb_timers (mx_upd m g s) = nb_timers s" "nb_current (mx_upd m g s) = nb_current s"
  "allocated (mx_upd m g s) = allocated s" "nb_rq (mx_upd m g s) = nb_rq s" "coros (mx_upd m g s) = coros s"
  "mutexes (mx_upd m g s) = (mutexes s)(m := g (mutexes s m))"
  "nb_st (cv_upd v h s) = nb_st s" "nb_wk (cv_upd v h s) = nb_wk s" "nb_fin (cv_upd v h s) = nb_fin s"
  "nb_timers (cv_upd v h s) = nb_timers s" "nb_current (cv_upd v h s) = nb_current s"
  "allocated (cv_upd v h s) = allocated s" "nb_rq (cv_upd v h s) = nb_rq s" "coros (cv_upd v h s) = coros s"
  "conds (cv_upd v h s) = (conds s)(v := h (conds s v))"
  "nb_st (rw_upd l k s) = nb_st s" "nb_wk (rw_upd l k s) = nb_wk s" "nb_fin (rw_upd l k s) = nb_fin s"
  "nb_timers (rw_upd l k s) = nb_timers s" "nb_current (rw_upd l k s) = nb_current s"
  "allocated (rw_upd l k s) = allocated s" "nb_rq (rw_upd l k s) = nb_rq s" "coros (rw_upd l k s) = coros s"
  "rwlocks (rw_upd l k s) = (rwlocks s)(l := k (rwlocks s l))"
  by (simp_all add: mx_upd_def cv_upd_def rw_upd_def nb_st_def nb_wk_def nb_fin_def fun_eq_iff)

lemma co_frame [nb_view]:
  "nb_st (nb_timers_update f1 s) = nb_st s" "nb_wk (nb_timers_update f1 s) = nb_wk s" "nb_fin (nb_timers_update f1 s) = nb_fin s"
  "nb_st (nb_current_update f2 s) = nb_st s" "nb_wk (nb_current_update f2 s) = nb_wk s" "nb_fin (nb_current_update f2 s) = nb_fin s"
  "nb_st (nb_live_update f3 s) = nb_st s" "nb_wk (nb_live_update f3 s) = nb_wk s" "nb_fin (nb_live_update f3 s) = nb_fin s"
  "nb_st (nb_fibers_live_update f3 s) = nb_st s" "nb_wk (nb_fibers_live_update f3 s) = nb_wk s"
  "nb_fin (nb_fibers_live_update f3 s) = nb_fin s"
  "nb_st (nb_initialized_update f4 s) = nb_st s" "nb_wk (nb_initialized_update f4 s) = nb_wk s"
  "nb_fin (nb_initialized_update f4 s) = nb_fin s"
  "nb_st (nb_drive_depth_update f3 s) = nb_st s" "nb_wk (nb_drive_depth_update f3 s) = nb_wk s"
  "nb_fin (nb_drive_depth_update f3 s) = nb_fin s"
  "nb_st (nb_clock_update f3 s) = nb_st s" "nb_wk (nb_clock_update f3 s) = nb_wk s" "nb_fin (nb_clock_update f3 s) = nb_fin s"
  "nb_st (allocated_update f5 s) = nb_st s" "nb_wk (allocated_update f5 s) = nb_wk s" "nb_fin (allocated_update f5 s) = nb_fin s"
  "nb_st (live_coros_update f3 s) = nb_st s" "nb_wk (live_coros_update f3 s) = nb_wk s" "nb_fin (live_coros_update f3 s) = nb_fin s"
  "nb_st (dropped_update f6 s) = nb_st s" "nb_wk (dropped_update f6 s) = nb_wk s" "nb_fin (dropped_update f6 s) = nb_fin s"
  "nb_st (nb_rq_update f7 s) = nb_st s" "nb_wk (nb_rq_update f7 s) = nb_wk s" "nb_fin (nb_rq_update f7 s) = nb_fin s"
  "nb_st (nb_drain_waiters_update f7 s) = nb_st s" "nb_wk (nb_drain_waiters_update f7 s) = nb_wk s"
  "nb_fin (nb_drain_waiters_update f7 s) = nb_fin s"
  "nb_st (nb_rw_main_want_update f8 s) = nb_st s" "nb_wk (nb_rw_main_want_update f8 s) = nb_wk s"
  "nb_fin (nb_rw_main_want_update f8 s) = nb_fin s"
  "nb_st (nb_rw_main_rec_update f9 s) = nb_st s" "nb_wk (nb_rw_main_rec_update f9 s) = nb_wk s"
  "nb_fin (nb_rw_main_rec_update f9 s) = nb_fin s"
  by (simp_all add: nb_st_def nb_wk_def nb_fin_def fun_eq_iff)

lemmas nb_prims = make_runnable_def nb_rq_push_def nb_rq_push_front_def set_state_def

lemma view_make_runnable [nb_view]:
  "queue_at (make_runnable w s) = (queue_at s)(PRq := queue_at s PRq @ [w])"
  "nb_st (make_runnable w s) = (nb_st s)(w := NB_RUNNABLE)" "nb_wk (make_runnable w s) = nb_wk s"
  "nb_fin (make_runnable w s) = nb_fin s" "nb_timers (make_runnable w s) = nb_timers s"
  "nb_current (make_runnable w s) = nb_current s" "allocated (make_runnable w s) = allocated s"
  "nb_rq (make_runnable w s) = nb_rq s @ [w]" "mutexes (make_runnable w s) = mutexes s"
  "conds (make_runnable w s) = conds s"
proof -
  show "queue_at (make_runnable w s) = (queue_at s)(PRq := queue_at s PRq @ [w])"
    unfolding make_runnable_def nb_rq_push_def set_state_def
    by (simp add: queue_at_upd co_upd_fields place_queues fun_upd_idem)
qed (auto simp: make_runnable_def nb_rq_push_def set_state_def co_upd_def nb_st_def nb_wk_def nb_fin_def fun_eq_iff)

section \<open>Every operation keeps the invariant\<close>

text \<open>States with the same view except for the places.\<close>

definition same_but_places :: "nb_sched \<Rightarrow> nb_sched \<Rightarrow> bool" where
  "same_but_places s t \<longleftrightarrow> nb_timers t = nb_timers s \<and> nb_st t = nb_st s \<and> nb_wk t = nb_wk s \<and>
     nb_fin t = nb_fin s \<and> nb_current t = nb_current s \<and> allocated t = allocated s"

lemma active_frame: "nb_active s \<Longrightarrow> same_but_places s t \<Longrightarrow> queue_at t = queue_at s \<Longrightarrow> nb_active t"
  by (simp add: nb_active_def nb_wf_def same_but_places_def)

lemma wf_frame: "nb_wf s \<Longrightarrow> same_but_places s t \<Longrightarrow> queue_at t = queue_at s \<Longrightarrow> nb_wf t"
  by (simp add: nb_wf_def same_but_places_def)

text \<open>Dropping a wait queue leaves its coroutines parked in no place.\<close>

lemma wfv_clear: "wfv Q T st wk cur al \<Longrightarrow> p \<noteq> PRq \<Longrightarrow> wfv (Q(p := [])) T st wk cur al"
  unfolding wfv_def by (auto elim!: place_ok_less split: if_splits)

lemma wfv_wake_list:
  assumes "wfv Q T st wk cur al" "Q p = ws" "p \<noteq> PRq" "\<forall>w \<in> set ws. cur \<noteq> Some w"
  shows "wfv (Q(p := [], PRq := Q PRq @ ws)) T (\<lambda>c. if c \<in> set ws then NB_RUNNABLE else st c) wk cur al"
  using assms
proof (induction ws arbitrary: Q st)
  case Nil
  then have "Q(p := [], PRq := Q PRq @ []) = Q" by auto
  with Nil show ?case by (simp del: fun_upd_apply)
next
  case (Cons w ws)
  let ?Q = "Q(p := ws, PRq := Q PRq @ [w])"
  have 1: "wfv ?Q T (st(w := NB_RUNNABLE)) wk cur al"
    by (rule wfv_wake) (use Cons.prems in simp_all)
  have "wfv (?Q(p := [], PRq := ?Q PRq @ ws)) T
      (\<lambda>c. if c \<in> set ws then NB_RUNNABLE else (st(w := NB_RUNNABLE)) c) wk cur al"
    by (rule Cons.IH [OF 1]) (use Cons.prems in simp_all)
  moreover have "?Q(p := [], PRq := ?Q PRq @ ws) = Q(p := [], PRq := Q PRq @ w # ws)"
    using Cons.prems(3) by (auto simp: fun_eq_iff)
  moreover have "(\<lambda>c. if c \<in> set ws then NB_RUNNABLE else (st(w := NB_RUNNABLE)) c)
      = (\<lambda>c. if c \<in> set (w # ws) then NB_RUNNABLE else st c)" by (auto simp: fun_eq_iff)
  ultimately show ?case by metis
qed

lemma view_wake_all [nb_view]:
  "queue_at (wake_all ws s) = (queue_at s)(PRq := queue_at s PRq @ ws)"
  "nb_st (wake_all ws s) = (\<lambda>c. if c \<in> set ws then NB_RUNNABLE else nb_st s c)"
  "nb_wk (wake_all ws s) = nb_wk s" "nb_fin (wake_all ws s) = nb_fin s" "nb_timers (wake_all ws s) = nb_timers s"
  "nb_current (wake_all ws s) = nb_current s" "allocated (wake_all ws s) = allocated s"
  "conds (wake_all ws s) = conds s"
proof -
  show "queue_at (wake_all ws s) = (queue_at s)(PRq := queue_at s PRq @ ws)"
  proof (induction ws arbitrary: s)
    case Nil
    then show ?case by (auto simp: wake_all_def fun_eq_iff)
  qed (simp add: wake_all_def nb_view)
  show "nb_st (wake_all ws s) = (\<lambda>c. if c \<in> set ws then NB_RUNNABLE else nb_st s c)"
    by (induction ws arbitrary: s) (auto simp: wake_all_def nb_view)
qed (induction ws arbitrary: s; simp add: wake_all_def nb_view)+

lemma wf_wake_all:
  assumes wfs: "nb_wf s" and cp: "\<forall>c. nb_current s = Some c \<longrightarrow> nb_st s c \<noteq> NB_PARKED"
    and p: "p \<noteq> PRq" and t: "same_but_places s t" "queue_at t = (queue_at s)(p := [])"
  shows "nb_wf (wake_all (queue_at s p) t) \<and> (\<forall>c. nb_current s = Some c \<longrightarrow> c \<notin> set (queue_at s p))"
proof -
  have wf: "wfv (queue_at s) (nb_timers s) (nb_st s) (nb_wk s) (nb_current s) (allocated s)"
    and fin: "finv (queue_at s) (nb_st s) (nb_fin s) (nb_current s) (allocated s)" and z: "\<not> allocated s 0"
    using wfs by (auto simp: nb_wf_def)
  have w: "nb_st s w = NB_PARKED" if "w \<in> set (queue_at s p)" for w
    using place_waiting [OF wfv_place [OF wf, of w]] that p by blast
  then have c: "\<forall>w \<in> set (queue_at s p). nb_current s \<noteq> Some w" using cp by auto
  show ?thesis
    using wfv_wake_list [OF wf refl p c] fin z t w c p
    by (auto simp: nb_wf_def nb_view same_but_places_def finv_def cong: if_cong)
qed

lemma active_wake_all:
  assumes act: "nb_active s" and p: "p \<noteq> PRq" and t: "same_but_places s t" "queue_at t = (queue_at s)(p := [])"
  shows "nb_active (wake_all (queue_at s p) t)"
  using wf_wake_all [of s p t] assms by (auto simp: nb_active_def nb_view same_but_places_def)

lemma active_wake:
  assumes act: "nb_active s" and q: "queue_at s p = w # ws" and p: "p \<noteq> PRq"
    and t: "same_but_places s t" "queue_at t = (queue_at s)(p := ws)"
  shows "nb_active (make_runnable w t)"
proof -
  have wf: "wfv (queue_at s) (nb_timers s) (nb_st s) (nb_wk s) (nb_current s) (allocated s)"
    and fin: "finv (queue_at s) (nb_st s) (nb_fin s) (nb_current s) (allocated s)" and z: "\<not> allocated s 0"
    using act by (auto simp: nb_active_def nb_wf_def)
  have w: "nb_st s w = NB_PARKED" using place_waiting [OF wfv_place [OF wf, of w], of p] q p by simp
  then have c: "nb_current s \<noteq> Some w" using act by (auto simp: nb_active_def)
  show ?thesis
    using wfv_wake [OF wf q p c] fin z act t w c p q
    by (auto simp: nb_active_def nb_wf_def nb_view same_but_places_def finv_def)
qed

lemma active_release:
  assumes "nb_active s"
  shows "nb_active (nurl__bare_mutex_release m s)"
proof (cases "m = 0")
  case False
  let ?t = "mx_upd m (mx_locked_update (\<lambda>_. False)) s"
  have t: "same_but_places s ?t" "queue_at ?t = queue_at s"
    by (auto simp: same_but_places_def nb_view place_queues)
  show ?thesis
  proof (cases "mx_wq (mutexes s m)")
    case Nil
    with False active_frame [OF assms t] show ?thesis
      by (simp add: nurl__bare_mutex_release_def nb_view Let_def)
  next
    case (Cons w ws)
    have "nb_active (make_runnable w (mx_upd m (mx_wq_update (\<lambda>_. ws)) ?t))"
      by (rule active_wake [OF assms, of "PMx m" w ws])
        (use Cons in \<open>auto simp: same_but_places_def nb_view place_queues\<close>)
    with False Cons show ?thesis by (simp add: nurl__bare_mutex_release_def nb_view Let_def)
  qed
qed (use assms in \<open>simp add: nurl__bare_mutex_release_def\<close>)


lemma active_clear:
  assumes "nb_active s" "p \<noteq> PRq" "same_but_places s t" "queue_at t = (queue_at s)(p := [])"
  shows "nb_active t"
  using assms wfv_clear [of "queue_at s" "nb_timers s" "nb_st s" "nb_wk s" "nb_current s" "allocated s" p]
  by (auto simp: nb_active_def nb_wf_def same_but_places_def finv_def)

lemma co_upd_same:
  assumes "\<And>k. joiners (f k) = joiners k \<and> co_state (f k) = co_state k \<and> wake_at_ms (f k) = wake_at_ms k \<and> finished (f k) = finished k"
  shows "same_but_places s (co_upd c f s) \<and> queue_at (co_upd c f s) = queue_at s"
  using assms by (auto simp: same_but_places_def nb_view place_queues) (auto simp: nb_st_def nb_wk_def nb_fin_def fun_eq_iff)

lemma active_co_upd:
  "nb_active s \<Longrightarrow> (\<And>k. joiners (f k) = joiners k \<and> co_state (f k) = co_state k \<and>
     wake_at_ms (f k) = wake_at_ms k \<and> finished (f k) = finished k) \<Longrightarrow> nb_active (co_upd c f s)"
  using active_frame co_upd_same by blast

lemma active_free:
  assumes act: "nb_active s" and c: "nb_fin s c" "allocated s c"
  shows "nb_active (nb_coro_free c s)"
proof -
  have wf: "wfv (queue_at s) (nb_timers s) (nb_st s) (nb_wk s) (nb_current s) (allocated s)"
    and fin: "finv (queue_at s) (nb_st s) (nb_fin s) (nb_current s) (allocated s)" and z: "\<not> allocated s 0"
    using act by (auto simp: nb_active_def nb_wf_def)
  have d: "nb_st s c = NB_DONE" using fin c by (simp add: finv_def)
  moreover from this have "nb_current s \<noteq> Some c" using act by (auto simp: nb_active_def)
  moreover from calculation have "queue_at s (PJoin c) = []" using fin c by (simp add: finv_def)
  ultimately show ?thesis
    using wfv_free [OF wf] fin z act c
    by (auto simp: nb_coro_free_def nb_active_def nb_wf_def nb_view finv_def)
qed

lemma active_spawn:
  assumes act: "nb_active s" and c: "\<not> allocated s c" "c \<noteq> 0"
    and t: "queue_at t = (queue_at s)(PRq := queue_at s PRq @ [c])" "nb_timers t = nb_timers s"
      "nb_st t = (nb_st s)(c := NB_RUNNABLE)" "nb_wk t = (nb_wk s)(c := 0)" "nb_fin t = (nb_fin s)(c := False)"
      "nb_current t = nb_current s" "allocated t = (allocated s)(c := True)"
  shows "nb_active t"
proof -
  have wf: "wfv (queue_at s) (nb_timers s) (nb_st s) (nb_wk s) (nb_current s) (allocated s)"
    and fin: "finv (queue_at s) (nb_st s) (nb_fin s) (nb_current s) (allocated s)" and z: "\<not> allocated s 0"
    using act by (auto simp: nb_active_def nb_wf_def)
  have "nb_current s \<noteq> Some c" using wfv_place [OF wf, of c] c by (auto simp: place_ok_def)
  then show ?thesis
    using wfv_spawn [OF wf c(1), of 0] fin z act t c by (auto simp: nb_active_def nb_wf_def finv_def)
qed

lemma active_unpark:
  assumes act: "nb_active s" and al: "allocated s c" and free: "nb_st s c = NB_PARKED \<Longrightarrow> parked_free s c"
  shows "nb_active (nb_unpark c fr s)"
proof (cases "c = 0 \<or> nb_st s c \<noteq> NB_PARKED")
  case True
  then show ?thesis
    using act active_co_upd [OF act, of "wake_pending_update (\<lambda>_. True)" c] by (auto simp: nb_unpark_def nb_st_def)
next
  case False
  have wf: "wfv (queue_at s) (nb_timers s) (nb_st s) (nb_wk s) (nb_current s) (allocated s)"
    and fin: "finv (queue_at s) (nb_st s) (nb_fin s) (nb_current s) (allocated s)" and z: "\<not> allocated s 0"
    using act by (auto simp: nb_active_def nb_wf_def)
  have cur: "nb_current s \<noteq> Some c" using act False by (auto simp: nb_active_def)
  have nq: "\<And>p. c \<notin> set (queue_at s p)" using free False by (simp add: parked_free_def)
  let ?q = "if fr then c # queue_at s PRq else queue_at s PRq @ [c]"
  have q: "set ?q = insert c (set (queue_at s PRq))" "distinct ?q" using wf nq by (auto simp: wfv_def)
  have "queue_at (nb_unpark c fr s) = (queue_at s)(PRq := ?q)"
    "nb_timers (nb_unpark c fr s) = remove1 c (nb_timers s)" "nb_st (nb_unpark c fr s) = (nb_st s)(c := NB_RUNNABLE)"
    "nb_wk (nb_unpark c fr s) = nb_wk s" "nb_fin (nb_unpark c fr s) = nb_fin s"
    "nb_current (nb_unpark c fr s) = nb_current s" "allocated (nb_unpark c fr s) = allocated s"
    using False
    by (auto simp: nb_unpark_def nb_timer_remove_def nb_prims nb_view place_queues Let_def nb_st_def [symmetric] fun_upd_idem)
      (auto simp: nb_wk_def nb_fin_def co_upd_def fun_eq_iff)
  then show ?thesis
    using wfv_unpark [OF wf _ al cur nq q] fin z act False cur
    by (auto simp: nb_active_def nb_wf_def finv_def)
qed


subsection \<open>Operations that switch out\<close>

text \<open>A state in which coroutine \<open>c\<close> runs.\<close>

lemma running_views:
  assumes "nb_active s" "nb_current s = Some c"
  shows "wfv (queue_at s) (nb_timers s) (nb_st s) (nb_wk s) (Some c) (allocated s)"
    and "finv (queue_at s) (nb_st s) (nb_fin s) (Some c) (allocated s)" and "\<not> allocated s 0"
    and "nb_st s c = NB_RUNNING" and "allocated s c" and "c \<noteq> 0"
proof -
  show wf: "wfv (queue_at s) (nb_timers s) (nb_st s) (nb_wk s) (Some c) (allocated s)"
    using assms by (auto simp: nb_active_def nb_wf_def)
  show "finv (queue_at s) (nb_st s) (nb_fin s) (Some c) (allocated s)" "\<not> allocated s 0" "nb_st s c = NB_RUNNING"
    using assms by (auto simp: nb_active_def nb_wf_def)
  show al: "allocated s c" using wfv_place [OF wf, of c] by (simp add: place_ok_def)
  then show "c \<noteq> 0" using \<open>\<not> allocated s 0\<close> by metis
qed

lemma view_nb_park:
  assumes "nb_current s = Some c"
  shows "queue_at (nb_park s) = queue_at s" "nb_st (nb_park s) = (nb_st s)(c := NB_PARKED)"
    "nb_wk (nb_park s) = nb_wk s" "nb_fin (nb_park s) = nb_fin s" "nb_timers (nb_park s) = nb_timers s"
    "nb_current (nb_park s) = nb_current s" "allocated (nb_park s) = allocated s"
  using assms by (auto simp: nb_park_def set_state_def nb_view place_queues fun_upd_idem)
    (auto simp: nb_wk_def nb_fin_def fun_eq_iff)

text \<open>Parking in the queue of a place, at its end or its front, and parking in none.\<close>

lemma wf_park_at:
  assumes act: "nb_active s" "nb_current s = Some c" and p: "p \<noteq> PRq" "\<And>d. p = PJoin d \<Longrightarrow> allocated s d \<and> nb_st s d \<noteq> NB_DONE"
    and q: "q' = queue_at s p @ [c] \<or> q' = c # queue_at s p"
    and t: "same_but_places s t" "queue_at t = (queue_at s)(p := q')"
  shows "nb_wf (nb_park t) \<and> nb_current (nb_park t) = Some c \<and> nb_st (nb_park t) c = NB_PARKED"
proof -
  note v = running_views [OF act]
  have n: "c \<notin> set (queue_at s p)" using place_nowhere [OF wfv_place [OF v(1), of c]] v(4) by blast
  have d: "distinct (queue_at s p)" using v(1) by (simp add: wfv_def)
  have qq: "set q' = insert c (set (queue_at s p))" "distinct q'" using q n d by auto
  have cur: "nb_current t = Some c" using t act by (simp add: same_but_places_def)
  show ?thesis
    using wfv_park [OF v(1,4) p(1) qq] p v t cur act
    by (auto simp: nb_wf_def view_nb_park [OF cur] same_but_places_def finv_def)
qed

lemma wf_park_free:
  assumes act: "nb_active s" "nb_current s = Some c" and t: "same_but_places s t" "queue_at t = queue_at s"
  shows "nb_wf (nb_park t) \<and> nb_current (nb_park t) = Some c \<and> nb_st (nb_park t) c = NB_PARKED"
proof -
  note v = running_views [OF act]
  have cur: "nb_current t = Some c" using t act by (simp add: same_but_places_def)
  show ?thesis
    using wfv_park_free [OF v(1,4)] v t cur act
    by (auto simp: nb_wf_def view_nb_park [OF cur] same_but_places_def finv_def)
qed

lemma view_timer_add:
  "queue_at (nb_timer_add c t s) = queue_at s" "nb_st (nb_timer_add c t s) = nb_st s"
  "nb_wk (nb_timer_add c t s) = (nb_wk s)(c := t)" "nb_fin (nb_timer_add c t s) = nb_fin s"
  "nb_current (nb_timer_add c t s) = nb_current s" "allocated (nb_timer_add c t s) = allocated s"
  "nb_timers (nb_timer_add c t s) = timer_insert ((nb_wk s)(c := t)) c t (nb_timers s)"
proof -
  have wk: "(\<lambda>x. wake_at_ms (((coros s)(c := coros s c\<lparr>wake_at_ms := t\<rparr>)) x)) = (nb_wk s)(c := t)"
    by (auto simp: nb_wk_def fun_eq_iff)
  show "nb_timers (nb_timer_add c t s) = timer_insert ((nb_wk s)(c := t)) c t (nb_timers s)"
    using wk by (simp add: nb_timer_add_def co_upd_def Let_def)
qed (auto simp: nb_timer_add_def nb_view place_queues Let_def fun_upd_idem, auto simp: nb_st_def nb_fin_def nb_wk_def fun_eq_iff)

lemma wf_park_timer:
  assumes act: "nb_active s" "nb_current s = Some c" and t: "same_but_places s t" "queue_at t = queue_at s"
  shows "nb_wf (nb_park (nb_timer_add c at t)) \<and> nb_current (nb_park (nb_timer_add c at t)) = Some c \<and>
    nb_st (nb_park (nb_timer_add c at t)) c = NB_PARKED"
proof -
  note v = running_views [OF act]
  have cur: "nb_current (nb_timer_add c at t) = Some c" using t act by (simp add: same_but_places_def view_timer_add)
  show ?thesis
    using wfv_timer_park [OF v(1,4) refl, of at] v t act
    by (auto simp: nb_wf_def view_nb_park [OF cur] view_timer_add same_but_places_def finv_def)
qed


lemma st_co_state: "co_state (coros s c) = nb_st s c" "finished (coros s c) = nb_fin s c"
  by (simp_all add: nb_st_def nb_fin_def)

lemma same_refl: "same_but_places s s"
  by (simp add: same_but_places_def)

lemma active_mutex_op:
  assumes "nb_active s"
  shows "nb_active (mx_upd m (mx_locked_update f) s)"
  by (rule active_frame [OF assms]) (auto simp: same_but_places_def nb_view place_queues)

lemma active_signal:
  assumes act: "nb_active s"
  shows "nb_active (snd (pthread_cond_signal v s))"
proof (cases "cv_wq (conds s v)")
  case Nil
  have "nb_active (cv_upd v (cv_seq_update (\<lambda>n. n + 1)) s)"
    by (rule active_frame [OF act]) (auto simp: same_but_places_def nb_view place_queues)
  with Nil act show ?thesis by (simp add: pthread_cond_signal_def)
next
  case (Cons w ws)
  have "nb_active (make_runnable w (cv_upd v (cv_wq_update (\<lambda>_. ws)) s))"
    by (rule active_wake [OF act, of "PCv v" w ws]) (use Cons in \<open>auto simp: same_but_places_def nb_view place_queues\<close>)
  with Cons act show ?thesis by (simp add: pthread_cond_signal_def)
qed

lemma active_broadcast:
  assumes act: "nb_active s"
  shows "nb_active (snd (pthread_cond_broadcast v s))"
proof -
  let ?t = "wake_all (cv_wq (conds s v)) (cv_upd v (cv_wq_update (\<lambda>_. [])) s)"
  have t: "nb_active ?t"
    unfolding place_queues
    by (rule active_wake_all [OF act]) (auto simp: same_but_places_def nb_view)
  have "nb_active (cv_upd v (cv_seq_update (\<lambda>n. n + 1)) ?t)"
    by (rule active_frame [OF t]) (auto simp: same_but_places_def nb_view place_queues)
  with t act show ?thesis by (simp add: pthread_cond_broadcast_def Let_def)
qed

lemma view_coro_new:
  assumes "nb_coro_new (Some c) fn env jn s = (x, s')"
  shows "x = Some c" "queue_at s' = (queue_at s)(PJoin c := [])" "nb_timers s' = nb_timers s"
    "nb_st s' = (nb_st s)(c := NB_RUNNABLE)" "nb_wk s' = (nb_wk s)(c := 0)" "nb_fin s' = (nb_fin s)(c := False)"
    "nb_current s' = nb_current s" "allocated s' = (allocated s)(c := True)"
proof -
  let ?k = "nb_coro_zero\<lparr>co_fn := fn, co_env := env, co_state := NB_RUNNABLE, joinable := jn\<rparr>"
  have s': "s' = (co_upd c (\<lambda>_. ?k) s)\<lparr>allocated := (allocated s)(c := True), live_coros := live_coros s + 1\<rparr>"
    and "x = Some c" using assms by (auto simp: nb_coro_new_def co_upd_def)
  then show "x = Some c" "queue_at s' = (queue_at s)(PJoin c := [])" "nb_timers s' = nb_timers s"
    "nb_st s' = (nb_st s)(c := NB_RUNNABLE)" "nb_wk s' = (nb_wk s)(c := 0)" "nb_fin s' = (nb_fin s)(c := False)"
    "nb_current s' = nb_current s" "allocated s' = (allocated s)(c := True)"
    by (simp_all add: nb_view nb_coro_zero_def)
qed

lemma fresh_no_joiners: "nb_active s \<Longrightarrow> \<not> allocated s c \<Longrightarrow> (queue_at s)(PJoin c := []) = queue_at s"
  by (auto simp: nb_active_def nb_wf_def wfv_def fun_eq_iff)


lemma active_new_queued:
  assumes act: "nb_active s" and c: "\<not> allocated s c" "c \<noteq> 0"
    and n: "nb_coro_new (Some c) fn env jn s = (x, s1)"
    and t: "queue_at t = (queue_at s1)(PRq := queue_at s1 PRq @ [c])" "nb_timers t = nb_timers s1" "nb_st t = nb_st s1"
      "nb_wk t = nb_wk s1" "nb_fin t = nb_fin s1" "nb_current t = nb_current s1" "allocated t = allocated s1"
  shows "nb_active t"
proof (rule active_spawn [OF act c])
  note v = view_coro_new [OF n]
  show "queue_at t = (queue_at s)(PRq := queue_at s PRq @ [c])"
    unfolding t v fresh_no_joiners [OF act c(1)] ..
qed (use t view_coro_new [OF n] in simp_all)

lemma view_idem [simp]:
  "(nb_st s)(c := co_state (coros s c)) = nb_st s" "(nb_wk s)(c := wake_at_ms (coros s c)) = nb_wk s"
  "(nb_fin s)(c := finished (coros s c)) = nb_fin s" "(queue_at s)(PJoin c := joiners (coros s c)) = queue_at s"
  by (auto simp: nb_st_def nb_wk_def nb_fin_def fun_eq_iff place_queues)

lemma active_create:
  assumes act: "nb_active s" and c: "\<not> allocated s c" "c \<noteq> 0"
  shows "nb_active (snd (pthread_create (Some c) tp st arg s))"
    and "nb_active (snd (nurl_pthread_create_owned own (Some c) tp fn env s))"
proof -
  show "nb_active (snd (pthread_create (Some c) tp st arg s))"
  proof (cases "tp = 0 \<or> st = 0")
    case False
    obtain x s1 where n: "nb_coro_new (Some c) st arg True s = (x, s1)" by force
    have "nb_active (spawn_queued c s1)"
      by (rule active_new_queued [OF act c n]) (simp_all add: spawn_queued_def nb_rq_push_def nb_view place_queues)
    with False n view_coro_new(1) [OF n] show ?thesis by (simp add: pthread_create_def)
  qed (use act in \<open>auto simp: pthread_create_def\<close>)
  show "nb_active (snd (nurl_pthread_create_owned own (Some c) tp fn env s))"
  proof (cases "tp = 0 \<or> fn = 0")
    case False
    obtain x s1 where n: "nb_coro_new (Some c) fn (own env) True s = (x, s1)" by force
    have "nb_active (spawn_queued c (co_upd c (owns_env_update (\<lambda>_. True)) s1))"
      by (rule active_new_queued [OF act c n])
        (simp_all add: spawn_queued_def nb_rq_push_def nb_view place_queues)
    with False n view_coro_new(1) [OF n] show ?thesis by (simp add: nurl_pthread_create_owned_def)
  qed (use act in \<open>auto simp: nurl_pthread_create_owned_def\<close>)
qed


lemma coros_co_upd: "coros (co_upd c f s) = (coros s)(c := f (coros s c))"
  by (simp add: co_upd_def)

lemma active_fiber_spawn:
  assumes act: "nb_active s" and c: "\<not> allocated s c" "c \<noteq> 0" and sp: "nb_fiber_spawn jn own (Some c) fn env s = Some (h, s')"
  shows "nb_active s'"
proof (cases "fn = 0")
  case False
  have e: "nb_active (ensure_init s)"
    by (rule active_frame [OF act]) (auto simp: ensure_init_def nurl_runtime_init_def same_but_places_def nb_view)
  have ce: "\<not> allocated (ensure_init s) c" using c by (simp add: ensure_init_def nurl_runtime_init_def)
  obtain x s1 where n: "nb_coro_new (Some c) fn (own env) jn (ensure_init s) = (x, s1)" by force
  show ?thesis
    by (rule active_new_queued [OF e ce c(2) n])
      (use sp False n view_coro_new(1) [OF n] in \<open>auto simp: nb_fiber_spawn_def Let_def nb_rq_push_def nb_view place_queues coros_co_upd\<close>)
qed (use assms in \<open>simp add: nb_fiber_spawn_def\<close>)

text \<open>Reader-writer locks.\<close>

lemma want_same: "same_but_places s (set_want n w s) \<and> queue_at (set_want n w s) = queue_at s"
  by (cases n) (auto simp: same_but_places_def nb_view place_queues)

lemma rwh_same: "same_but_places s (rwh_upd n f s) \<and> queue_at (rwh_upd n f s) = queue_at s"
  by (cases n) (auto simp: same_but_places_def nb_view place_queues)

lemma same_trans: "same_but_places s t \<Longrightarrow> same_but_places t u \<Longrightarrow> same_but_places s u"
  by (simp add: same_but_places_def)

lemma rw_upd_same:
  "(\<And>r. rw_wq (f r) = rw_wq r) \<Longrightarrow> same_but_places s (rw_upd l f s) \<and> queue_at (rw_upd l f s) = queue_at s"
  by (auto simp: same_but_places_def nb_view place_queues)

lemma active_rw_upd: "nb_active s \<Longrightarrow> (\<And>r. rw_wq (f r) = rw_wq r) \<Longrightarrow> nb_active (rw_upd l f s)"
  using active_frame rw_upd_same by blast

lemma active_let_in:
  assumes act: "nb_active s" and q: "rw_wq (rwlocks s l) = n # ns"
  shows "nb_active (rw_let_in n (rw_upd l (rw_pop n write ns) s))"
proof (cases n)
  case RwMain
  then have "same_but_places s (rw_let_in n (rw_upd l (rw_pop n write ns) s))"
    "queue_at (rw_let_in n (rw_upd l (rw_pop n write ns) s)) = queue_at s"
    using q place_queues(6) [of s l] by (auto simp: rw_let_in_def same_but_places_def nb_view rw_pop_def)
  then show ?thesis using active_frame [OF act] by blast
next
  case (RwCo c)
  have "nb_active (make_runnable c (set_want n NB_RW_NONE (rw_upd l (rw_pop n write ns) s)))"
    by (rule active_wake [OF act, of "PRw l" c "node_cids ns"])
      (use q RwCo place_queues(6) [of s l] want_same [of "rw_upd l (rw_pop n write ns) s" n NB_RW_NONE]
        in \<open>auto simp: same_but_places_def nb_view rw_pop_def simp del: set_want.simps\<close>)
  then show ?thesis using RwCo by (simp add: rw_let_in_def)
qed

lemma active_grant: "nb_active s \<Longrightarrow> nb_active (nb_rw_grant l s)"
proof (induction l s rule: nb_rw_grant.induct)
  case (1 l s)
  show ?case
  proof (cases "rw_wq (rwlocks s l)")
    case (Cons n ns)
    then show ?thesis
      using 1 active_let_in [OF 1(2) Cons] by (subst nb_rw_grant.simps) (simp add: Let_def)
  qed (use 1 in \<open>simp add: nb_rw_grant.simps\<close>)
qed

lemma active_rd_leave: "nb_active s \<Longrightarrow> nb_active (rd_leave l s)"
  by (auto simp: rd_leave_def Let_def intro!: active_grant active_rw_upd)

lemma active_rwh: "nb_active s \<Longrightarrow> nb_active (rwh_upd n f s)"
  using active_frame rwh_same by blast

lemma active_finish: "nb_active s \<Longrightarrow> nb_active (rd_finish l s)" "nb_active s \<Longrightarrow> nb_active (wr_finish l s)"
  by (auto simp: rd_finish_def wr_finish_def intro: active_rwh active_rw_upd)

lemma active_rdunlock: "nb_active s \<Longrightarrow> nb_active (nurl_rwlock_rdunlock l s)"
  by (auto simp: nurl_rwlock_rdunlock_def Let_def intro!: active_rd_leave active_rwh split: option.split)

lemma active_wrunlock: "nb_active s \<Longrightarrow> nb_active (nurl_rwlock_wrunlock l s)"
  by (auto simp: nurl_rwlock_wrunlock_def intro!: active_grant active_rw_upd)

lemma active_tryrw:
  "nb_active s \<Longrightarrow> nb_active (snd (nurl_rwlock_tryrdlock l s))" "nb_active s \<Longrightarrow> nb_active (snd (nurl_rwlock_trywrlock l s))"
  by (auto simp: nurl_rwlock_tryrdlock_def nurl_rwlock_trywrlock_def Let_def
      intro!: active_finish active_rw_upd active_rwh split: option.split)


subsection \<open>Every call, and every way of switching out\<close>

lemma active_permit:
  assumes "nb_active s"
  shows "nurl_fiber_park_with_mutex m s = (Ret u, t) \<Longrightarrow> nb_active t"
    and "nurl_bare_park_ms ms s = (Ret r, t) \<Longrightarrow> nb_active t"
    and "nurl_fiber_park_with_mutex_ms m ms s = (Ret r, t) \<Longrightarrow> nb_active t"
proof -
  have w: "nb_active (co_upd c (wake_pending_update f) s)" for c f by (rule active_co_upd [OF assms]) simp
  show "nurl_fiber_park_with_mutex m s = (Ret u, t) \<Longrightarrow> nb_active t"
    "nurl_bare_park_ms ms s = (Ret r, t) \<Longrightarrow> nb_active t"
    "nurl_fiber_park_with_mutex_ms m ms s = (Ret r, t) \<Longrightarrow> nb_active t"
    using assms w active_release [OF w]
    by (auto simp: nurl_fiber_park_with_mutex_def nurl_bare_park_ms_def nurl_fiber_park_with_mutex_ms_def Let_def
        split: option.splits if_splits)
qed

lemma active_timer_remove:
  assumes act: "nb_active s" "nb_current s = Some c"
  shows "nb_active (nb_timer_remove c s)"
proof -
  note v = running_views [OF act]
  have "c \<notin> set (nb_timers s)" using place_nowhere [OF wfv_place [OF v(1), of c]] v(4) by blast
  then have "nb_timer_remove c s = s" by (simp add: nb_timer_remove_def remove1_idem)
  then show ?thesis using act by simp
qed

lemma active_init: "nb_active s \<Longrightarrow> nb_active (ensure_init s)" "nb_active s \<Longrightarrow> nb_active (nurl_runtime_init s)"
  by (auto simp: ensure_init_def nurl_runtime_init_def same_but_places_def nb_view elim!: active_frame)

lemma active_join_now:
  "nb_active s \<Longrightarrow> allocated s c \<Longrightarrow> nb_join_co me c s = (Ret r, t) \<Longrightarrow> nb_active t"
  by (auto simp: nb_join_co_def nb_fin_def intro: active_free split: if_splits)

lemma active_detach: "nb_active s \<Longrightarrow> allocated s c \<Longrightarrow> nb_active (nb_detach c s)"
  by (auto simp: nb_detach_def nb_fin_def intro!: active_free active_co_upd)

lemma rw_then_ret: "rw_then fin l r = Some (Ret u, t) \<Longrightarrow> \<exists>t'. r = Some (Ret (), t') \<and> t = fin l t'"
  by (cases r) (auto simp: rw_then_def split: outcome.splits)

lemma active_rdlock:
  assumes "nb_active s" "nb_current s = Some c"
  shows "nurl_rwlock_rdlock body l s = Some (Ret u, t) \<Longrightarrow> nb_active t"
    and "nurl_rwlock_wrlock body l s = Some (Ret u, t) \<Longrightarrow> nb_active t"
  using assms
  by (auto simp: nurl_rwlock_rdlock_def nurl_rwlock_wrlock_def nb_rw_wait_def Let_def dest!: rw_then_ret
      intro!: active_finish active_rw_upd active_rwh split: option.splits if_splits)

lemmas active_ops =
  active_mutex_op active_release active_signal active_broadcast active_create active_fiber_spawn active_join_now
  active_detach active_permit active_timer_remove active_init active_rdlock active_finish
  active_rdunlock active_wrunlock active_tryrw

lemma active_mutex_calls:
  assumes "nb_active s"
  shows "mutex_lock_co c m s = (Ret r, t) \<Longrightarrow> nb_active t" "nb_active (snd (pthread_mutex_trylock m s))"
    "nb_active (snd (pthread_mutex_unlock m s))" "nb_active (snd (pthread_mutex_init m s))"
    "nb_active (snd (pthread_mutex_destroy m s))"
proof -
  have "nb_active (mx_upd m (\<lambda>_. \<lparr>mx_locked = False, mx_wq = []\<rparr>) s)"
    by (rule active_clear [OF assms, of "PMx m"]) (auto simp: same_but_places_def nb_view)
  then show "nb_active (snd (pthread_mutex_init m s))" using assms by (simp add: pthread_mutex_init_def)
qed (use assms in \<open>auto simp: mutex_lock_co_def pthread_mutex_trylock_def pthread_mutex_unlock_def
    pthread_mutex_destroy_def intro: active_mutex_op active_release split: if_splits\<close>)

lemma active_cond_calls:
  assumes "nb_active s"
  shows "nb_active (snd (pthread_cond_init v s))" "nb_active (snd (pthread_cond_destroy v s))" "nb_active (nurl_rwlock_init l s)"
proof -
  have "nb_active (cv_upd v (\<lambda>_. \<lparr>cv_wq = [], cv_seq = 0, main_waiters = 0\<rparr>) s)"
    by (rule active_clear [OF assms, of "PCv v"]) (auto simp: same_but_places_def nb_view)
  then show "nb_active (snd (pthread_cond_init v s))" using assms by (simp add: pthread_cond_init_def)
  show "nb_active (snd (pthread_cond_destroy v s))" using assms by (simp add: pthread_cond_destroy_def)
  show "nb_active (nurl_rwlock_init l s)"
    unfolding nurl_rwlock_init_def by (rule active_clear [OF assms, of "PRw l"]) (auto simp: same_but_places_def nb_view)
qed

lemma nb_call_active: "nb_call s t \<Longrightarrow> nb_active s \<Longrightarrow> nb_active t"
proof (induction rule: nb_call.induct)
  case (join_resumed s c)
  then show ?case by (simp add: nb_join_resume_def active_free nb_fin_def)
next
  case (unpark s c fr)
  then show ?case by (intro active_unpark) (simp_all add: nb_st_def)
next
  case (wake s c)
  then show ?case by (auto simp: nurl_fiber_wake_def nurl_fiber_unpark_def nb_st_def intro!: active_unpark)
next
  case (park_resumed s c ms)
  then show ?case by (simp add: park_ms_resume_def Let_def active_timer_remove)
next
  case (run_now s c u t)
  then show ?case by (auto simp: runtime_run_co_def Let_def intro: active_init split: if_splits)
next
  case (rw_resumed fin c l s u t)
  then show ?case by (auto simp: rw_resume_def intro: active_finish split: if_splits)
qed (rule active_ops active_mutex_calls active_cond_calls; assumption)+


named_theorems nb_cur

lemma current_prims [nb_cur]:
  "nb_current (co_upd c f s) = nb_current s" "nb_current (mx_upd m g s) = nb_current s" "nb_current (cv_upd v h s) = nb_current s"
  "nb_current (rw_upd l k s) = nb_current s" "nb_current (make_runnable w s) = nb_current s" "nb_current (wake_all ws s) = nb_current s"
  "nb_current (nb_coro_free c s) = nb_current s" "nb_current (rwh_upd n hf s) = nb_current s" "nb_current (set_want n w' s) = nb_current s"
  "nb_current (nb_timer_remove c s) = nb_current s" "nb_current (nb_timer_add c t s) = nb_current s"
  "nb_current (nb_rq_push c s) = nb_current s" "nb_current (nb_rq_push_front c s) = nb_current s" "nb_current (set_state c x s) = nb_current s"
  "nb_current (ensure_init s) = nb_current s" "nb_current (nurl_runtime_init s) = nb_current s"
  "nb_current (spawn_queued c s) = nb_current s"
  by (cases n; simp add: nb_view nb_prims nb_coro_free_def nb_timer_remove_def nb_timer_add_def Let_def ensure_init_def
      nurl_runtime_init_def spawn_queued_def)+

lemma current_release [nb_cur]: "nb_current (nurl__bare_mutex_release m s) = nb_current s"
  by (simp add: nurl__bare_mutex_release_def nb_cur Let_def split: list.split)

lemma current_coro_new [nb_cur]: "nb_coro_new mem fn env jn s = (x, t) \<Longrightarrow> nb_current t = nb_current s"
  by (auto simp: nb_coro_new_def split: option.splits)

lemma current_unpark [nb_cur]: "nb_current (nb_unpark c fr s) = nb_current s"
  by (simp add: nb_unpark_def nb_cur Let_def)

lemma current_grant [nb_cur]: "nb_current (nb_rw_grant l s) = nb_current s"
proof (induction l s rule: nb_rw_grant.induct)
  case (1 l s)
  have "nb_current (rw_let_in n t) = nb_current t" for n t
    by (cases n) (simp_all only: rw_let_in_def nb_cur rw_node.case)
  with 1 show ?case by (subst nb_rw_grant.simps) (auto simp: Let_def nb_cur split: list.split)
qed

lemma current_rw [nb_cur]:
  "nb_current (rd_finish l s) = nb_current s" "nb_current (wr_finish l s) = nb_current s" "nb_current (rd_leave l s) = nb_current s"
  by (simp_all add: rd_finish_def wr_finish_def rd_leave_def nb_cur Let_def)

lemma current_rw_calls:
  "nb_current (nurl_rwlock_rdunlock l s) = nb_current s" "nb_current (nurl_rwlock_wrunlock l s) = nb_current s"
  "nb_current (snd (nurl_rwlock_tryrdlock l s)) = nb_current s" "nb_current (snd (nurl_rwlock_trywrlock l s)) = nb_current s"
  "nb_current (nurl_rwlock_init l s) = nb_current s"
  by (auto simp: nurl_rwlock_rdunlock_def nurl_rwlock_wrunlock_def nurl_rwlock_tryrdlock_def nurl_rwlock_trywrlock_def
      nurl_rwlock_init_def nb_cur Let_def split: option.split)

lemma current_rw_locks:
  assumes "nb_current s = Some c"
  shows "nurl_rwlock_rdlock body l s = Some (Ret u, t) \<Longrightarrow> nb_current t = Some c"
    and "nurl_rwlock_wrlock body l s = Some (Ret u, t) \<Longrightarrow> nb_current t = Some c"
  using assms
  by (auto simp: nurl_rwlock_rdlock_def nurl_rwlock_wrlock_def nb_rw_wait_def nb_cur Let_def dest!: rw_then_ret
      split: option.splits if_splits)

lemma current_permit:
  "nurl_fiber_park_with_mutex m s = (Ret u, t) \<Longrightarrow> nb_current t = nb_current s"
  "nurl_bare_park_ms ms s = (Ret r, t) \<Longrightarrow> nb_current t = nb_current s"
  "nurl_fiber_park_with_mutex_ms m ms s = (Ret r, t) \<Longrightarrow> nb_current t = nb_current s"
  by (auto simp: nurl_fiber_park_with_mutex_def nurl_bare_park_ms_def nurl_fiber_park_with_mutex_ms_def Let_def nb_cur
      split: option.splits if_splits)

lemma current_calls:
  "nb_current (snd (pthread_mutex_trylock m s)) = nb_current s" "nb_current (snd (pthread_mutex_unlock m s)) = nb_current s"
  "nb_current (snd (pthread_mutex_init m s)) = nb_current s" "nb_current (snd (pthread_mutex_destroy m s)) = nb_current s"
  "nb_current (snd (pthread_cond_init v s)) = nb_current s" "nb_current (snd (pthread_cond_destroy v s)) = nb_current s"
  "nb_current (snd (pthread_cond_signal v s)) = nb_current s" "nb_current (snd (pthread_cond_broadcast v s)) = nb_current s"
  "nb_current (snd (pthread_create (Some c) tp st arg s)) = nb_current s"
  "nb_current (snd (nurl_pthread_create_owned own (Some c) tp fn env s)) = nb_current s"
  "nb_current (snd (nb_join_resume c s)) = nb_current s" "nb_current (nb_detach c s) = nb_current s"
  "nb_current (snd (nurl_fiber_wake c s)) = nb_current s" "nb_current (snd (park_ms_resume c ms s)) = nb_current s"
  by (simp_all add: pthread_mutex_trylock_def pthread_mutex_unlock_def pthread_mutex_init_def
    pthread_mutex_destroy_def pthread_cond_init_def pthread_cond_destroy_def pthread_cond_signal_def
    pthread_cond_broadcast_def pthread_create_def nurl_pthread_create_owned_def nb_coro_new_def
    nb_join_resume_def nb_detach_def nurl_fiber_wake_def nurl_fiber_unpark_def park_ms_resume_def
    nb_cur Let_def split: list.split)

lemma current_ret_calls:
  "mutex_lock_co c m s = (Ret r, t) \<Longrightarrow> nb_current t = nb_current s" "nb_join_co me c s = (Ret r, t) \<Longrightarrow> nb_current t = nb_current s"
  "runtime_run_co c s = (Ret u, t) \<Longrightarrow> nb_current t = nb_current s"
  "nb_fiber_spawn jn own (Some c) fn env s = Some (h, t) \<Longrightarrow> nb_current t = nb_current s"
  by (auto simp: mutex_lock_co_def nb_join_co_def runtime_run_co_def nb_fiber_spawn_def nb_coro_new_def Let_def nb_cur
      split: if_splits)

lemma nb_call_current: "nb_call s t \<Longrightarrow> nb_current t = nb_current s"
proof (induction rule: nb_call.induct)
  case (rw_resumed fin c l s u t)
  then show ?case by (auto simp: rw_resume_def nb_cur split: if_splits)
next
  case (rdlock s c body l u t)
  then show ?case by (simp add: current_rw_locks(1) [OF rdlock])
next
  case (wrlock s c body l u t)
  then show ?case by (simp add: current_rw_locks(2) [OF wrlock])
qed (rule current_calls current_rw_calls current_prims current_unpark | (rule current_ret_calls current_permit; assumption))+


text \<open>Switching out leaves the invariant, with the coroutine still current but no longer running.\<close>

definition nb_left :: "cid \<Rightarrow> nb_sched \<Rightarrow> bool" where
  "nb_left c s \<longleftrightarrow> nb_wf s \<and> nb_current s = Some c \<and> nb_st s c \<noteq> NB_RUNNING"

lemma left_park_at:
  assumes "nb_active s" "nb_current s = Some c" "p \<noteq> PRq" "\<And>d. p = PJoin d \<Longrightarrow> allocated s d \<and> nb_st s d \<noteq> NB_DONE"
    and "q' = queue_at s p @ [c] \<or> q' = c # queue_at s p" and "same_but_places s t" "queue_at t = (queue_at s)(p := q')"
  shows "nb_left c (nb_park t)"
  using wf_park_at [OF assms] by (simp add: nb_left_def)

lemma left_park_free:
  "nb_active s \<Longrightarrow> nb_current s = Some c \<Longrightarrow> same_but_places s t \<and> queue_at t = queue_at s \<Longrightarrow> nb_left c (nb_park t)"
  using wf_park_free [of s c t] by (simp add: nb_left_def)

lemma left_park_timer:
  "nb_active s \<Longrightarrow> nb_current s = Some c \<Longrightarrow> same_but_places s t \<and> queue_at t = queue_at s \<Longrightarrow>
     nb_left c (nb_park (nb_timer_add c at t))"
  using wf_park_timer [of s c t at] by (simp add: nb_left_def)

lemma left_state:
  assumes act: "nb_active s" "nb_current s = Some c" and x: "x = NB_RUNNABLE \<and> \<not> f \<or> x = NB_DONE \<and> f"
    and t: "queue_at t = queue_at s" "nb_timers t = nb_timers s" "nb_wk t = nb_wk s" "nb_current t = nb_current s"
      "allocated t = allocated s" "nb_st t = (nb_st s)(c := x)" "nb_fin t = (nb_fin s)(c := f)"
  shows "nb_left c t"
proof -
  note v = running_views [OF act]
  have "wfv (queue_at s) (nb_timers s) ((nb_st s)(c := x)) (nb_wk s) (Some c) (allocated s)"
    by (rule wfv_set_running_state [OF v(1,4)]) (use x in auto)
  then show ?thesis using v x t act by (auto simp: nb_left_def nb_wf_def finv_def)
qed

lemma left_yield:
  assumes act: "nb_active s" "nb_current s = Some c"
  shows "nb_left c (fiber_yield_co c s)"
proof (rule left_state [OF act])
  note v = running_views [OF act]
  have "nb_fin s c = False" using v by (simp add: finv_def)
  then show "nb_fin (fiber_yield_co c s) = (nb_fin s)(c := False)"
    by (simp add: fiber_yield_co_def set_state_def nb_view nb_fin_def)
qed (simp_all add: fiber_yield_co_def set_state_def nb_view)

lemma left_exit:
  assumes act: "nb_active s" "nb_current s = Some c"
  shows "nb_left c (pthread_exit c s)" and "nb_left c (nb_entry_end c s)"
proof -
  show "nb_left c (pthread_exit c s)"
    by (rule left_state [OF act, of NB_DONE True])
      (simp_all add: pthread_exit_def set_state_def nb_view coros_co_upd)
  show "nb_left c (nb_entry_end c s)"
    by (rule left_state [OF act, of NB_DONE True])
      (simp_all add: nb_entry_end_def set_state_def nb_view coros_co_upd Let_def)
qed

lemma left_park_ms:
  assumes act: "nb_active s" "nb_current s = Some c"
  shows "nurl_fiber_park_with_mutex m s = (Park, t) \<Longrightarrow> nb_left c t" and "nurl_bare_park_ms ms s = (Park, t) \<Longrightarrow> nb_left c t"
    and "nurl_fiber_park_with_mutex_ms m ms s = (Park, t) \<Longrightarrow> nb_left c t"
proof -
  show "nurl_fiber_park_with_mutex m s = (Park, t) \<Longrightarrow> nb_left c t"
    using act by (auto simp: nurl_fiber_park_with_mutex_def Let_def split: if_splits
        intro!: left_park_free [OF act] co_upd_same)
  show "nurl_bare_park_ms ms s = (Park, t) \<Longrightarrow> nb_left c t"
    using act by (auto simp: nurl_bare_park_ms_def Let_def split: if_splits
        intro!: left_park_free [OF act] left_park_timer [OF act] co_upd_same)
  have sw: "k\<lparr>wake_at_ms := at, pending_unlock := pm\<rparr> = k\<lparr>pending_unlock := pm, wake_at_ms := at\<rparr>" for k :: nb_coro and at pm
    by (cases k) simp
  have comm: "co_upd c (pending_unlock_update (\<lambda>_. pm)) (nb_timer_add c at u)
      = nb_timer_add c at (co_upd c (pending_unlock_update (\<lambda>_. pm)) u)" for pm at u
    by (rule nb_sched.equality) (simp_all add: nb_timer_add_def co_upd_def Let_def sw if_distrib [of wake_at_ms] cong: if_cong)
  have s2: "same_but_places s (co_upd c f (co_upd c g s)) \<and> queue_at (co_upd c f (co_upd c g s)) = queue_at s"
    if "\<And>k. joiners (f k) = joiners k \<and> co_state (f k) = co_state k \<and> wake_at_ms (f k) = wake_at_ms k \<and> finished (f k) = finished k"
      "\<And>k. joiners (g k) = joiners k \<and> co_state (g k) = co_state k \<and> wake_at_ms (g k) = wake_at_ms k \<and> finished (g k) = finished k" for f g
    using co_upd_same [of f "co_upd c g s" c] co_upd_same [of g s c] that same_trans by metis
  show "nurl_fiber_park_with_mutex_ms m ms s = (Park, t) \<Longrightarrow> nb_left c t"
    using act by (auto simp: nurl_fiber_park_with_mutex_ms_def Let_def comm split: if_splits
        intro!: left_park_free [OF act] left_park_timer [OF act] s2)
qed

lemma rw_then_park: "rw_then fin l r = Some (Park, t) \<Longrightarrow> r = Some (Park, t)"
  by (cases r) (auto simp: rw_then_def split: outcome.splits)

lemma node_cids_append [simp]: "node_cids (xs @ ys) = node_cids xs @ node_cids ys"
  by (induction xs rule: node_cids.induct) auto

lemma left_rw_wait:
  assumes act: "nb_active s" "nb_current s = Some c" and w: "nb_rw_wait body l want s = Some (Park, t)"
  shows "nb_left c t"
proof -
  have "nb_left c (nb_park (rw_enqueue (RwCo c) l want s))"
    by (rule left_park_at [OF act, of "PRw l"])
      (auto simp: rw_enqueue_def same_but_places_def nb_view place_queues)
  then show ?thesis using act w by (simp add: nb_rw_wait_def rw_self_def Let_def)
qed

lemma nb_switch_left:
  assumes sw: "nb_switch c s t" and act: "nb_active s" "nb_current s = Some c"
  shows "nb_left c t"
  using sw
proof (cases rule: nb_switch.cases)
  case (lock m)
  have "nb_left c (nb_park (mx_upd m (mx_wq_update (\<lambda>q. q @ [c])) s))"
    by (rule left_park_at [OF act, of "PMx m"]) (auto simp: same_but_places_def nb_view place_queues)
  with lock show ?thesis by (auto simp: mutex_lock_co_def split: if_splits)
next
  case (cond_wait v m)
  have "nb_left c (nb_park (co_upd c (pending_unlock_update (\<lambda>_. m)) (cv_upd v (cv_wq_update (\<lambda>q. q @ [c])) s)))"
    by (rule left_park_at [OF act, of "PCv v"]) (auto simp: same_but_places_def nb_view place_queues)
  with cond_wait show ?thesis by (auto simp: cond_wait_co_def)
next
  case (join d)
  have "\<not> nb_fin s d \<Longrightarrow> nb_st s d \<noteq> NB_DONE" using running_views(2) [OF act] join by (auto simp: finv_def)
  then have "\<not> nb_fin s d \<Longrightarrow> nb_left c (nb_park (co_upd d (joiners_update (\<lambda>js. c # js)) s))"
    using join by (intro left_park_at [OF act, of "PJoin d"]) (auto simp: same_but_places_def nb_view place_queues)
  with join show ?thesis by (auto simp: nb_join_co_def nb_fin_def split: if_splits)
next
  case run
  have e: "nb_active (ensure_init s)" "nb_current (ensure_init s) = Some c"
    using act active_init by (auto simp: nb_cur)
  have "nb_left c (nb_park ((ensure_init s)\<lparr>nb_drain_waiters := c # nb_drain_waiters (ensure_init s)\<rparr>))"
    by (rule left_park_at [OF e, of PDrain]) (auto simp: same_but_places_def nb_view place_queues)
  with run show ?thesis by (auto simp: runtime_run_co_def Let_def split: if_splits)
next
  case (sleep ms)
  with act show ?thesis
    by (auto simp: fiber_sleep_co_def same_refl split: if_splits intro!: left_yield left_park_timer)
next
  case (rdlock body l)
  with act show ?thesis
    by (auto simp: nurl_rwlock_rdlock_def Let_def dest!: rw_then_park intro: left_rw_wait split: if_splits option.splits)
next
  case (wrlock body l)
  with act show ?thesis
    by (auto simp: nurl_rwlock_wrlock_def Let_def dest!: rw_then_park intro: left_rw_wait split: if_splits option.splits)
next
  case (rw_again fin l)
  with act show ?thesis by (auto simp: rw_resume_def same_refl intro!: left_park_free split: if_splits)
qed (use act in \<open>auto intro: left_yield left_exit left_park_ms\<close>)

lemma nb_turn_left: "nb_turn c s t \<Longrightarrow> nb_active s \<Longrightarrow> nb_current s = Some c \<Longrightarrow> nb_left c t"
  by (induction rule: nb_turn.induct) (auto simp: nb_call_current intro: nb_switch_left nb_call_active)


section \<open>The scheduler keeps the invariant\<close>

definition nb_idle :: "nb_sched \<Rightarrow> bool" where
  "nb_idle s \<longleftrightarrow> nb_wf s \<and> nb_current s = None"

lemma idle_active: "nb_idle s \<longleftrightarrow> nb_active s \<and> nb_current s = None"
  by (auto simp: nb_idle_def nb_active_def)

lemma idle_back:
  assumes l: "nb_left c s" and st: "nb_st s c = NB_PARKED \<or> nb_st s c = NB_DONE \<and> queue_at s (PJoin c) = []"
    and t: "queue_at t = queue_at s" "nb_timers t = nb_timers s" "nb_wk t = nb_wk s" "allocated t = allocated s"
      "nb_st t = nb_st s" "nb_fin t = nb_fin s" "nb_current t = None"
  shows "nb_idle t"
proof -
  have wf: "wfv (queue_at s) (nb_timers s) (nb_st s) (nb_wk s) (Some c) (allocated s)"
    using l by (auto simp: nb_left_def nb_wf_def)
  have "wfv (queue_at s) (nb_timers s) (nb_st s) (nb_wk s) None (allocated s)"
    by (rule wfv_back [OF wf]) (use st in auto)
  then show ?thesis using l st t by (auto simp: nb_idle_def nb_left_def nb_wf_def finv_def)
qed

lemma left_alloc: "nb_left c s \<Longrightarrow> allocated s c"
  using wfv_place [of "queue_at s" "nb_timers s" "nb_st s" "nb_wk s" "nb_current s" "allocated s" c]
  by (auto simp: nb_left_def nb_wf_def place_ok_def)

lemma idle_wake_joiners:
  assumes l: "nb_left c s" and st: "nb_st s c = NB_DONE"
  shows "nb_idle (nb_wake_joiners c (s\<lparr>nb_current := None\<rparr>))" (is "nb_idle ?t")
    and "nb_st (nb_wake_joiners c (s\<lparr>nb_current := None\<rparr>)) c = NB_DONE"
    and "allocated (nb_wake_joiners c (s\<lparr>nb_current := None\<rparr>)) c"
proof -
  define u where "u = wake_all (queue_at s (PJoin c)) (co_upd c (joiners_update (\<lambda>_. [])) s)"
  have cl: "same_but_places s (co_upd c (joiners_update (\<lambda>_. [])) s)"
    "queue_at (co_upd c (joiners_update (\<lambda>_. [])) s) = (queue_at s)(PJoin c := [])"
    by (auto simp: same_but_places_def nb_view)
  have u: "nb_wf u \<and> c \<notin> set (queue_at s (PJoin c))"
    using wf_wake_all [of s "PJoin c", OF _ _ _ cl] l st by (auto simp: u_def nb_left_def)
  then have lu: "nb_left c u" "nb_st u c = NB_DONE" "queue_at u (PJoin c) = []"
    using l st by (auto simp: u_def nb_left_def nb_view)
  have v: "queue_at ?t = queue_at u" "nb_timers ?t = nb_timers u" "nb_wk ?t = nb_wk u" "allocated ?t = allocated u"
      "nb_st ?t = nb_st u" "nb_fin ?t = nb_fin u" "nb_current ?t = None"
    by (simp_all add: u_def nb_wake_joiners_def nb_view place_queues cong: if_cong)
  show "nb_idle ?t" by (rule idle_back [OF lu(1) _ v]) (use lu in simp)
  show "nb_st ?t c = NB_DONE" "allocated ?t c" using v lu left_alloc [OF lu(1)] by simp_all
qed

lemma idle_frame: "nb_idle s \<Longrightarrow> same_but_places s t \<Longrightarrow> queue_at t = queue_at s \<Longrightarrow> nb_idle t"
  by (auto simp: nb_idle_def same_but_places_def nb_wf_def)

lemma idle_fiber_ended:
  assumes i: "nb_idle s"
  shows "nb_idle (nb_fiber_ended s)" and "nb_st s c = NB_DONE \<Longrightarrow> nb_st (nb_fiber_ended s) c = NB_DONE"
    and "allocated (nb_fiber_ended s) = allocated s"
proof -
  let ?s1 = "s\<lparr>nb_fibers_live := nb_fibers_live s - 1\<rparr>"
  have i1: "nb_idle ?s1" by (rule idle_frame [OF i]) (auto simp: same_but_places_def nb_view)
  have a: "nb_active (wake_all (queue_at ?s1 PDrain) (?s1\<lparr>nb_drain_waiters := []\<rparr>))"
    by (rule active_wake_all) (use i1 idle_active in \<open>auto simp: same_but_places_def nb_view\<close>)
  have "nb_current (wake_all q (?s1\<lparr>nb_drain_waiters := []\<rparr>)) = None" for q using i by (simp add: nb_idle_def nb_view)
  with a i1 show "nb_idle (nb_fiber_ended s)"
    by (simp add: nb_fiber_ended_def Let_def idle_active nb_view place_queues)
  have "c \<notin> set (queue_at s PDrain)" if "nb_st s c = NB_DONE" for c
    using i that place_waiting [OF wfv_place, of "queue_at s" "nb_timers s" "nb_st s" "nb_wk s" "nb_current s" "allocated s" c PDrain]
    by (auto simp: nb_idle_def nb_wf_def)
  then show "nb_st s c = NB_DONE \<Longrightarrow> nb_st (nb_fiber_ended s) c = NB_DONE"
    by (simp add: nb_fiber_ended_def Let_def nb_view place_queues)
  show "allocated (nb_fiber_ended s) = allocated s" by (simp add: nb_fiber_ended_def Let_def nb_view)
qed

lemma idle_release: "nb_idle s \<Longrightarrow> nb_idle (nurl__bare_mutex_release m s)"
  by (simp add: idle_active active_release nb_cur)

lemma idle_free: "nb_idle s \<Longrightarrow> nb_st s c = NB_DONE \<Longrightarrow> allocated s c \<Longrightarrow> nb_idle (nb_coro_free c s)"
  using active_free [of s c] by (auto simp: idle_active nb_cur nb_active_def nb_wf_def finv_def)

lemma idle_done:
  assumes l: "nb_left c s" and st: "nb_st s c = NB_DONE"
  shows "nb_idle (nb_after_switch c s)"
proof -
  define s1 where "s1 = nb_wake_joiners c (s\<lparr>nb_current := None\<rparr>)"
  define s2 where "s2 = s1\<lparr>nb_live := nb_live s1 - 1\<rparr>"
  define s3 where "s3 = (if is_fiber (coros s2 c) then nb_fiber_ended s2 else s2)"
  note i1 = idle_wake_joiners [OF l st, folded s1_def]
  have i2: "nb_idle s2" "nb_st s2 c = NB_DONE" "allocated s2 c"
    using i1 by (auto simp: s2_def same_but_places_def nb_view elim!: idle_frame)
  have i3: "nb_idle s3" "nb_st s3 c = NB_DONE" "allocated s3 c"
    using idle_fiber_ended [OF i2(1)] i2 by (auto simp: s3_def)
  have "nb_after_switch c s = (if joinable (coros s3 c) then s3 else nb_coro_free c s3)"
    using st by (simp add: nb_after_switch_def Let_def s1_def s2_def s3_def nb_st_def)
  then show ?thesis using i3 idle_free by simp
qed

lemma idle_after_switch:
  assumes l: "nb_left c s"
  shows "nb_idle (nb_after_switch c s)"
proof (cases "nb_st s c")
  case NB_PARKED
  have "nb_idle (co_upd c (pending_unlock_update (\<lambda>_. 0)) (s\<lparr>nb_current := None\<rparr>))"
    by (rule idle_back [OF l]) (auto simp: NB_PARKED nb_view place_queues nb_st_def [symmetric] nb_wk_def nb_fin_def)
  then show ?thesis
    using NB_PARKED by (simp add: nb_after_switch_def Let_def nb_st_def idle_release)
next
  case NB_RUNNABLE
  have wf: "wfv (queue_at s) (nb_timers s) (nb_st s) (nb_wk s) (Some c) (allocated s)"
    using l by (auto simp: nb_left_def nb_wf_def)
  have "nb_idle (make_runnable c (s\<lparr>nb_current := None\<rparr>))"
    using wfv_back_runnable [OF wf] NB_RUNNABLE l
    by (auto simp: nb_idle_def nb_wf_def nb_left_def nb_view finv_def)
  then show ?thesis using NB_RUNNABLE by (simp add: nb_after_switch_def Let_def nb_st_def)
qed (use l idle_done in \<open>auto simp: nb_left_def\<close>)

lemma active_dispatch:
  assumes i: "nb_idle s" and q: "nb_rq s = c # q"
  shows "nb_active (nb_dispatch c (s\<lparr>nb_rq := q\<rparr>))" "nb_current (nb_dispatch c (s\<lparr>nb_rq := q\<rparr>)) = Some c"
proof -
  have wf: "wfv (queue_at s) (nb_timers s) (nb_st s) (nb_wk s) None (allocated s)"
    using i by (auto simp: nb_idle_def nb_wf_def)
  have qa: "queue_at s PRq = c # q" using q by (simp add: place_queues)
  have st: "nb_st s c = NB_RUNNABLE" "allocated s c"
    using place_queued [OF wfv_place [OF wf, of c]] qa by auto
  have "queue_at (nb_dispatch c (s\<lparr>nb_rq := q\<rparr>)) = (queue_at s)(PRq := q)"
    by (auto simp: nb_dispatch_def set_state_def nb_view place_queues fun_eq_iff)
  then show "nb_active (nb_dispatch c (s\<lparr>nb_rq := q\<rparr>))"
    using wfv_dispatch [OF wf qa] i st
    by (auto simp: nb_dispatch_def set_state_def nb_idle_def nb_active_def nb_wf_def nb_view finv_def)
  show "nb_current (nb_dispatch c (s\<lparr>nb_rq := q\<rparr>)) = Some c" by (simp add: nb_dispatch_def)
qed

lemma idle_expire: "nb_idle s \<Longrightarrow> nb_idle (snd (nb_timers_expire now s))"
proof (induction now s rule: nb_timers_expire.induct)
  case (1 now s)
  show ?case
  proof (cases "nb_timers s")
    case (Cons c ts)
    let ?t = "make_runnable c (co_upd c (last_park_result_update (\<lambda>_. 0)) (s\<lparr>nb_timers := ts\<rparr>))"
    have wf: "wfv (queue_at s) (c # ts) (nb_st s) (nb_wk s) None (allocated s)"
      using 1(2) Cons by (auto simp: nb_idle_def nb_wf_def)
    have "nb_st s c = NB_PARKED" "allocated s c" using wfv_place [OF wf, of c] by (auto simp: place_ok_def)
    then have "nb_idle ?t"
      using wfv_expire [OF wf] 1(2) by (auto simp: nb_idle_def nb_wf_def nb_view place_queues finv_def)
    with 1 Cons show ?thesis by (subst nb_timers_expire.simps) (auto simp: case_prod_beta)
  qed (use 1 in \<open>simp add: nb_timers_expire.simps\<close>)
qed

text \<open>What a client coroutine may do in its turn.\<close>

definition good_body :: "(cid \<Rightarrow> nb_sched \<Rightarrow> nb_sched) \<Rightarrow> bool" where
  "good_body body \<longleftrightarrow> (\<forall>c s. nb_active s \<longrightarrow> nb_current s = Some c \<longrightarrow> nb_turn c s (body c s))"

lemma idle_sleep: "nb_idle s \<Longrightarrow> nb_idle (nb_sleep_ms ms s)"
  by (auto simp: nb_sleep_ms_def same_but_places_def nb_view elim!: idle_frame)

lemma idle_step:
  assumes b: "good_body body" and i: "nb_idle s"
  shows "nb_idle (snd (nb_step_bounded body budget s))"
proof (cases "nb_rq s")
  case Nil
  then show ?thesis
    using i idle_expire idle_sleep
    by (simp add: nb_step_bounded_def nb_rq_pop_def Let_def case_prod_beta split: list.split)
next
  case (Cons c q)
  note d = active_dispatch [OF i Cons]
  have "nb_left c (body c (nb_dispatch c (s\<lparr>nb_rq := q\<rparr>)))"
    using b d by (intro nb_turn_left [OF _ d]) (simp add: good_body_def)
  then have "nb_idle (nb_after_switch c (body c (nb_dispatch c (s\<lparr>nb_rq := q\<rparr>))))" by (rule idle_after_switch)
  with Cons i show ?thesis by (simp add: nb_step_bounded_def nb_rq_pop_def idle_expire)
qed


lemma idle_drive_loop:
  assumes "nb_drive_loop body pred s = Some r" "good_body body" "nb_idle s"
  shows "nb_idle (snd r) \<and> (fst r \<longrightarrow> pred (snd r))"
  using assms
proof (induction rule: nb_drive_loop.raw_induct [rotated, consumes 1, case_names step])
  case (step loop body pred s r)
  have i: "nb_idle (snd (nurl__bare_step body s))" using idle_step [OF step(3,4)] by (simp add: nurl__bare_step_def)
  show ?case using step.IH [of body pred _ r, OF _ step(3) i] step(2,4) i by (auto split: if_splits)
qed

lemma idle_drive:
  assumes "nb_drive_until body pred s = Some (ok, t)" "good_body body" "nb_idle s"
  shows "nb_idle t"
proof -
  have i: "nb_idle (s\<lparr>nb_drive_depth := nb_drive_depth s + 1\<rparr>)"
    by (rule idle_frame [OF assms(3)]) (auto simp: same_but_places_def nb_view)
  obtain u where u: "nb_drive_loop body pred (s\<lparr>nb_drive_depth := nb_drive_depth s + 1\<rparr>) = Some (ok, u)"
    and t: "t = u\<lparr>nb_drive_depth := nb_drive_depth u - 1\<rparr>"
    using assms(1) by (auto simp: nb_drive_until_def)
  show ?thesis
    using idle_drive_loop [OF u assms(2) i] unfolding t
    by (auto simp: same_but_places_def nb_view elim!: idle_frame)
qed

end
