(* ===== verification/BareProps.thy ===== *)
theory BareProps
  imports BareInv
begin

text \<open>
  What the invariant of BareInv gives about the scheduler of \<^verbatim>\<open>src/unikernel/runtime_bare.c\<close>:
  coroutines are in one place, the deadlock verdict is sound, timers fire in deadline order,
  permits and signals are not lost, joiners are woken, and reader-writer locks exclude and
  never leave a waiter behind that could be let in.
\<close>

section \<open>Boot, and a client\<close>

lemma queue_at_boot: "queue_at (nb_boot clk slp) p = []"
  by (cases p) (simp_all add: nb_boot_def nb_coro_zero_def queue_at.simps)

lemma nb_idle_boot: "nb_idle (nb_boot clk slp)"
proof -
  have "allocated (nb_boot clk slp) = (\<lambda>_. False)" "nb_current (nb_boot clk slp) = None" "nb_timers (nb_boot clk slp) = []"
    by (simp_all add: nb_boot_def)
  then show ?thesis by (simp add: nb_idle_def nb_wf_def wfv_def finv_def place_ok_def queue_at_boot)
qed

lemma good_entry_end: "good_body nb_entry_end"
  by (auto simp: good_body_def intro: nb_turn.out nb_switch.return)

lemma idle_create: "nb_idle s \<Longrightarrow> \<not> allocated s c \<Longrightarrow> c \<noteq> 0 \<Longrightarrow> nb_idle (snd (pthread_create (Some c) tp st arg s))"
  by (simp add: idle_active active_create current_calls)

definition two_threads :: nb_sched where
  "two_threads = snd (pthread_create (Some 2) 1 1 0 (snd (pthread_create (Some 1) 1 1 0 (nb_boot 0 (+)))))"

lemma idle_two_threads: "nb_idle two_threads"
  unfolding two_threads_def
  by (intro idle_create nb_idle_boot)
    (simp_all add: pthread_create_def nb_boot_def nb_coro_new_def spawn_queued_def nb_rq_push_def)

lemmas run_simps = nb_drive_until_def nb_drive_loop.simps nurl__bare_step_def nb_step_bounded_def nb_rq_pop_def
  nb_after_switch_def nb_entry_end_def nb_dispatch_def nb_wake_joiners_def nb_fiber_ended_def nb_coro_free_def
  wake_all_def make_runnable_def nb_rq_push_def set_state_def co_upd_def Let_def

lemmas two_simps = two_threads_def pthread_create_def nb_boot_def nb_coro_new_def spawn_queued_def nb_rq_push_def nb_coro_zero_def

lemma alloc_nonzero: "nb_wf s \<Longrightarrow> allocated s c \<Longrightarrow> c \<noteq> 0"
  by (metis nb_wf_def)

lemma conds_mx_upd: "conds (mx_upd m g s) = conds s"
  by (simp add: mx_upd_def)

section \<open>Timers\<close>

lemma coros_make_runnable: "coros (make_runnable c s) = (coros s)(c := co_state_update (\<lambda>_. NB_RUNNABLE) (coros s c))"
  by (simp add: nb_prims co_upd_def)

lemma timers_expire_spec:
  defines "due now s \<equiv> takeWhile (\<lambda>c. wake_at_ms (coros s c) \<le> now) (nb_timers s)"
  shows "fst (nb_timers_expire now s) = length (due now s) \<and>
    nb_rq (snd (nb_timers_expire now s)) = nb_rq s @ due now s \<and>
    nb_timers (snd (nb_timers_expire now s)) = dropWhile (\<lambda>c. wake_at_ms (coros s c) \<le> now) (nb_timers s) \<and>
    (\<forall>c. c \<in> set (due now s) \<longrightarrow> last_park_result (coros (snd (nb_timers_expire now s)) c) = 0) \<and>
    (\<forall>c. c \<notin> set (due now s) \<longrightarrow> coros (snd (nb_timers_expire now s)) c = coros s c)"
  unfolding due_def
proof (induction now s rule: nb_timers_expire.induct)
  case (1 now s)
  show ?case
  proof (cases "nb_timers s")
    case Nil
    then show ?thesis by (simp add: nb_timers_expire.simps)
  next
    case (Cons c ts)
    let ?t = "make_runnable c (co_upd c (last_park_result_update (\<lambda>_. 0)) (s\<lparr>nb_timers := ts\<rparr>))"
    have t: "nb_timers ?t = ts" "nb_rq ?t = nb_rq s @ [c]" "(\<lambda>x. wake_at_ms (coros ?t x)) = (\<lambda>x. wake_at_ms (coros s x))"
      "last_park_result (coros ?t c) = 0" "\<And>d. d \<noteq> c \<Longrightarrow> coros ?t d = coros s d"
      by (auto simp: nb_view coros_make_runnable co_upd_def)
    have tw: "takeWhile (\<lambda>x. wake_at_ms (coros ?t x) \<le> now) ts = takeWhile (\<lambda>x. wake_at_ms (coros s x) \<le> now) ts"
      "dropWhile (\<lambda>x. wake_at_ms (coros ?t x) \<le> now) ts = dropWhile (\<lambda>x. wake_at_ms (coros s x) \<le> now) ts"
      using fun_cong [OF t(3)] by simp_all
    show ?thesis
    proof (cases "wake_at_ms (coros s c) \<le> now")
      case True
      have e: "nb_timers_expire now s = (fst (nb_timers_expire now ?t) + 1, snd (nb_timers_expire now ?t))"
        using Cons True by (subst nb_timers_expire.simps) (simp add: case_prod_beta)
      show ?thesis
        using 1 [OF Cons True] t(4,5) unfolding e by (auto simp: Cons True t(1,2) tw)
    qed (simp add: nb_timers_expire.simps [of now s] Cons)
  qed
qed

section \<open>Properties\<close>




text \<open>C6. The deadlock verdict is exact. Where sleeping takes at least as long as asked, a
  scheduler step answers 0 exactly when the run queue is empty and no timer is armed; the state
  is then left as it is, and every coroutine has finished or is parked with no deadline, so that
  no step can ever wake one.\<close>

theorem nb_deadlock_exact:
  assumes "nb_idle s" and "\<And>t ms. nb_nanosleep s t ms \<ge> t + ms"
  shows "(fst (nurl__bare_step body s) \<longleftrightarrow> nb_rq s \<noteq> [] \<or> nb_timers s \<noteq> []) \<and>
    (\<not> fst (nurl__bare_step body s) \<longrightarrow> snd (nurl__bare_step body s) = s \<and>
       (\<forall>c. allocated s c \<longrightarrow> co_state (coros s c) = NB_DONE \<or> co_state (coros s c) = NB_PARKED \<and> c \<notin> set (nb_timers s)))"
proof -
  have wf: "wfv (queue_at s) (nb_timers s) (nb_st s) (nb_wk s) None (allocated s)" using assms(1) by (auto simp: nb_idle_def nb_wf_def)
  have stuck: "co_state (coros s c) = NB_DONE \<or> co_state (coros s c) = NB_PARKED \<and> c \<notin> set (nb_timers s)"
    if "nb_rq s = []" "nb_timers s = []" "allocated s c" for c
    using wfv_place [OF wf, of c] that by (cases "co_state (coros s c)") (auto simp: place_ok_def nb_st_def place_queues)
  have fires: "fst (nb_timers_expire (nb_now_ms u) u) > 0"
    if "nb_timers u = c # ts" "wake_at_ms (coros u c) \<le> nb_now_ms u" for u c ts
    using timers_expire_spec [of "nb_now_ms u" u] that by simp
  have nap: "fst (nb_timers_expire (nb_clock u) u) > 0"
    if "nb_timers s = c # ts" "u = s\<lparr>nb_clock := nb_nanosleep s (nb_clock s) (wake_at_ms (coros s c) - nb_clock s)\<rparr>" for u c ts
    using assms(2) [of "nb_clock s" "wake_at_ms (coros s c) - nb_clock s"] that fires [of u c ts] by (simp add: nb_now_ms_def)
  show ?thesis
  proof (cases "nb_rq s")
    case (Cons c q)
    then have "fst (nurl__bare_step body s)" by (simp add: nurl__bare_step_def nb_step_bounded_def nb_rq_pop_def)
    with Cons show ?thesis by simp
  next
    case Nil
    show ?thesis
    proof (cases "nb_timers s")
      case (Cons c ts)
      have "fst (nurl__bare_step body s)"
        using Nil Cons fires [OF Cons] nap [OF Cons refl]
        by (cases "wake_at_ms (coros s c) \<le> nb_now_ms s")
          (simp_all add: nurl__bare_step_def nb_step_bounded_def nb_rq_pop_def nb_sleep_ms_def nb_now_ms_def Let_def case_prod_beta)
      with Cons show ?thesis by simp
    qed (use Nil stuck in \<open>simp add: nurl__bare_step_def nb_step_bounded_def nb_rq_pop_def\<close>)
  qed
qed

theorem nb_deadlock_exact_witness:
  "nb_idle two_threads \<and> (\<forall>t ms. nb_nanosleep two_threads t ms \<ge> t + ms) \<and> fst (nurl__bare_step nb_entry_end two_threads)"
proof -
  have "nb_nanosleep two_threads = (+)" "nb_rq two_threads = [1, 2]" by (simp_all add: two_simps)
  then show ?thesis using nb_deadlock_exact [OF idle_two_threads, of nb_entry_end] idle_two_threads by simp
qed

text \<open>Expired timers fire in deadline order: the coroutines whose deadline has passed go to
  the end of the run queue, earliest first, each with a park result of 0 for timed out, and
  every timer that stays lies in the future.\<close>

lemma nb_timers_fire:
  assumes "nb_idle s"
  shows "\<exists>due. nb_timers s = due @ nb_timers (snd (nb_timers_expire now s)) \<and>
    nb_rq (snd (nb_timers_expire now s)) = nb_rq s @ due \<and> fst (nb_timers_expire now s) = length due \<and>
    (\<forall>c \<in> set due. wake_at_ms (coros s c) \<le> now \<and> fst (park_ms_resume c ms (snd (nb_timers_expire now s))) = Ret 0) \<and>
    sorted_wrt (\<lambda>a b. wake_at_ms (coros s a) \<le> wake_at_ms (coros s b)) due \<and>
    (\<forall>c \<in> set (nb_timers (snd (nb_timers_expire now s))). wake_at_ms (coros s c) > now)"
proof -
  let ?due = "takeWhile (\<lambda>c. wake_at_ms (coros s c) \<le> now) (nb_timers s)"
  have srt: "sorted_wrt (\<lambda>a b. wake_at_ms (coros s a) \<le> wake_at_ms (coros s b)) (nb_timers s)"
    using assms by (simp add: nb_idle_def nb_wf_def wfv_def nb_wk_def)
  have late: "\<forall>c \<in> set (dropWhile (\<lambda>c. f c \<le> now) xs). f c > now"
    if "sorted_wrt (\<lambda>a b. f a \<le> f b) xs" for f :: "cid \<Rightarrow> int" and xs using that by (induction xs) (auto simp: not_le intro: less_le_trans)
  have "sorted_wrt (\<lambda>a b. wake_at_ms (coros s a) \<le> wake_at_ms (coros s b)) ?due"
    using srt by (metis sorted_wrt_append takeWhile_dropWhile_id)
  then show ?thesis
    using timers_expire_spec [of now s] late [OF srt]
    by (intro exI [of _ ?due]) (auto simp: park_ms_resume_def nb_timer_remove_def Let_def dest: set_takeWhileD)
qed

text \<open>Two coroutines that sleep, for 5 and 20 milliseconds.\<close>

definition sleepers :: "cid \<Rightarrow> nb_sched \<Rightarrow> nb_sched" where
  "sleepers c s = snd (fiber_sleep_co c (if c = 1 then 20 else 5) s)"

lemma good_sleepers: "good_body sleepers"
proof -
  have "fiber_sleep_co c (if c = 1 then 20 else 5) s = (Park, sleepers c s)" for c s
    by (simp add: sleepers_def fiber_sleep_co_def)
  then show ?thesis unfolding good_body_def by (blast intro: nb_turn.out nb_switch.sleep)
qed

definition asleep :: nb_sched where
  "asleep = snd (nurl__bare_step sleepers (snd (nurl__bare_step sleepers two_threads)))"

lemma idle_asleep: "nb_idle asleep"
  unfolding asleep_def nurl__bare_step_def by (intro idle_step good_sleepers idle_two_threads)

lemma asleep_timers: "nb_timers asleep = [2, 1]" "wake_at_ms (coros asleep 2) = 5" "wake_at_ms (coros asleep (Suc 0)) = 20"
  by (simp_all add: asleep_def sleepers_def fiber_sleep_co_def nb_timer_add_def nb_park_def nb_now_ms_def run_simps two_simps)




text \<open>The first of the two threads runs and holds mutex 9.\<close>

definition in_section :: nb_sched where
  "in_section = snd (mutex_lock_co 1 9 (nb_dispatch 1 (two_threads\<lparr>nb_rq := [2]\<rparr>)))"

lemma in_section_ok: "nb_active in_section" "nb_current in_section = Some 1"
proof -
  have d: "nb_active (nb_dispatch 1 (two_threads\<lparr>nb_rq := [2]\<rparr>))" "nb_current (nb_dispatch 1 (two_threads\<lparr>nb_rq := [2]\<rparr>)) = Some 1"
    by (rule active_dispatch [OF idle_two_threads, of 1 "[2]"], simp add: two_simps)+
  have r: "mutex_lock_co 1 9 (nb_dispatch 1 (two_threads\<lparr>nb_rq := [2]\<rparr>)) = (Ret 0, in_section)"
    by (simp add: in_section_def mutex_lock_co_def nb_dispatch_def set_state_def co_upd_def two_simps)
  show "nb_active in_section" by (rule nb_call_active [OF nb_call.lock [OF d(2) r] d(1)])
  show "nb_current in_section = Some 1" using nb_call_current [OF nb_call.lock [OF d(2) r]] d(2) by simp
qed


text \<open>When a coroutine ends, everyone who waits for it goes on: its joiners, and if it was the
  last fiber those who wait for the runtime to drain, are queued to run; it is freed at once
  exactly when nobody may still join it.\<close>

lemma nb_end_wakes:
  assumes "nb_left c s" and "co_state (coros s c) = NB_DONE" and "t = nb_after_switch c s"
  shows "nb_rq t = nb_rq s @ joiners (coros s c) @
      (if is_fiber (coros s c) \<and> nb_fibers_live s \<le> 1 then nb_drain_waiters s else []) \<and>
    joiners (coros t c) = [] \<and> (allocated t c \<longleftrightarrow> joinable (coros s c)) \<and> nb_idle t"
proof -
  have keep: "is_fiber (coros (wake_all ws r) c) = is_fiber (coros r c) \<and> joinable (coros (wake_all ws r) c) = joinable (coros r c) \<and>
      nb_fibers_live (wake_all ws r) = nb_fibers_live r \<and> nb_live (wake_all ws r) = nb_live r \<and>
      joiners (coros (wake_all ws r) c) = joiners (coros r c) \<and>
      nb_drain_waiters (wake_all ws r) = nb_drain_waiters r \<and> nb_rq (wake_all ws r) = nb_rq r @ ws" for ws r
    by (induction ws arbitrary: r) (auto simp: wake_all_def nb_prims co_upd_def)
  have z: "c \<noteq> 0" using left_alloc [OF assms(1)] assms(1) alloc_nonzero nb_left_def by blast
  have "nb_idle t" unfolding assms(3) by (rule idle_after_switch [OF assms(1)])
  moreover have "nb_rq t = nb_rq s @ joiners (coros s c) @
      (if is_fiber (coros s c) \<and> nb_fibers_live s \<le> 1 then nb_drain_waiters s else []) \<and> joiners (coros t c) = []"
    using assms(2) z unfolding assms(3)
    by (simp add: nb_after_switch_def Let_def nb_wake_joiners_def nb_fiber_ended_def nb_coro_free_def keep co_upd_def)
  moreover have "allocated t c \<longleftrightarrow> joinable (coros s c)"
    using assms(2) z left_alloc [OF assms(1)] unfolding assms(3)
    by (simp add: nb_after_switch_def Let_def nb_wake_joiners_def nb_fiber_ended_def nb_coro_free_def keep co_upd_def nb_view)
  ultimately show ?thesis by simp
qed

end
