(* ===== verification/BareRw.thy ===== *)
theory BareRw
  imports BareInv
begin

text \<open>
  The reader-writer locks of \<^verbatim>\<open>src/unikernel/runtime_bare.c\<close> (section 9b): whom an unlock lets in,
  that readers and a writer exclude each other, that nobody is left waiting who could be let in,
  and that no holder ever waits for itself.
\<close>

section \<open>Specification\<close>

text \<open>Whom an unlock lets in: a writer when nobody reads, or the readers up to the next writer.\<close>

definition rw_admit :: "(rw_node \<Rightarrow> nb_want) \<Rightarrow> nb_rw \<Rightarrow> rw_node list" where
  "rw_admit want r =
     (if rw_writing r then []
      else case rw_wq r of
        [] \<Rightarrow> []
      | n # ns \<Rightarrow>
          if want n = NB_RW_WRITE then (if rw_readers r = 0 then [n] else [])
          else takeWhile (\<lambda>n. want n \<noteq> NB_RW_WRITE) (n # ns))"

definition rw_excl :: "nb_sched \<Rightarrow> nat \<Rightarrow> bool" where
  "rw_excl s l \<longleftrightarrow> rw_readers (rwlocks s l) \<ge> 0 \<and> (rw_writing (rwlocks s l) \<longrightarrow> rw_readers (rwlocks s l) = 0)"

text \<open>Nobody waits who could be let in.\<close>

definition rw_tight :: "nb_sched \<Rightarrow> nat \<Rightarrow> bool" where
  "rw_tight s l \<longleftrightarrow>
     (\<forall>n ns. rw_wq (rwlocks s l) = n # ns \<longrightarrow>
        rw_writing (rwlocks s l) \<or> rw_readers (rwlocks s l) > 0 \<and> node_want n s = NB_RW_WRITE)"

text \<open>A node waits for one lock at most, and only while it wants one.\<close>

definition rw_queues :: "nb_sched \<Rightarrow> bool" where
  "rw_queues s \<longleftrightarrow>
     (\<forall>l. distinct (rw_wq (rwlocks s l)) \<and> (\<forall>n \<in> set (rw_wq (rwlocks s l)). node_want n s \<noteq> NB_RW_NONE)) \<and>
     (\<forall>l l' n. n \<in> set (rw_wq (rwlocks s l)) \<longrightarrow> n \<in> set (rw_wq (rwlocks s l')) \<longrightarrow> l = l')"

definition rw_inv :: "nb_sched \<Rightarrow> bool" where
  "rw_inv s \<longleftrightarrow> rw_queues s \<and> (\<forall>l. rw_excl s l \<and> rw_tight s l)"

text \<open>Every use of a lock by a caller that is not itself in a queue, and everything else the
  scheduler does.\<close>

inductive rw_step :: "nb_sched \<Rightarrow> nb_sched \<Rightarrow> bool" where
  rdlock: "nb_current s = Some c \<Longrightarrow> rw_want (coros s c) = NB_RW_NONE \<Longrightarrow>
    nurl_rwlock_rdlock body l s = Some (out, s') \<Longrightarrow> rw_step s s'"
| wrlock: "nb_current s = Some c \<Longrightarrow> rw_want (coros s c) = NB_RW_NONE \<Longrightarrow>
    nurl_rwlock_wrlock body l s = Some (out, s') \<Longrightarrow> rw_step s s'"
| main_rd_wait: "nb_rw_main_want s = NB_RW_NONE \<Longrightarrow> rw_writing (rwlocks s l) \<or> rw_wq (rwlocks s l) \<noteq> [] \<Longrightarrow>
    rw_step s (rw_enqueue RwMain l NB_RW_READ s)"
| main_wr_wait: "nb_rw_main_want s = NB_RW_NONE \<Longrightarrow>
    rw_writing (rwlocks s l) \<or> rw_readers (rwlocks s l) \<noteq> 0 \<or> rw_wq (rwlocks s l) \<noteq> [] \<Longrightarrow>
    rw_step s (rw_enqueue RwMain l NB_RW_WRITE s)"
| rdunlock: "rw_step s (nurl_rwlock_rdunlock l s)"
| wrunlock: "rw_step s (nurl_rwlock_wrunlock l s)"
| tryrdlock: "rw_step s (snd (nurl_rwlock_tryrdlock l s))"
| trywrlock: "rw_step s (snd (nurl_rwlock_trywrlock l s))"
| resume: "fin = rd_finish \<or> fin = wr_finish \<Longrightarrow> rw_step s (snd (rw_resume fin c l s))"
| init: "rw_wq (rwlocks s l) = [] \<Longrightarrow> rw_step s (nurl_rwlock_init l s)"
| other: "rwlocks s' = rwlocks s \<Longrightarrow>
    (\<And>l n. n \<in> set (rw_wq (rwlocks s l)) \<Longrightarrow> node_want n s' = node_want n s) \<Longrightarrow> rw_step s s'"

section \<open>Granting\<close>

lemma want_let_in [simp]: "node_want n' (rw_let_in n s) = (if n' = n then NB_RW_NONE else node_want n' s)"
  by (cases n; cases n') (auto simp: rw_let_in_def nb_prims co_upd_def)

lemma want_rw_upd [simp]: "node_want n (rw_upd l f s) = node_want n s"
  by (cases n) (auto simp: rw_upd_def)

lemma rwlocks_rw_upd [simp]: "rwlocks (rw_upd l f s) = (rwlocks s)(l := f (rwlocks s l))"
  by (simp add: rw_upd_def)

lemma rq_let_in [simp]: "nb_rq (rw_let_in n s) = nb_rq s @ node_cids [n]"
  by (cases n) (auto simp: rw_let_in_def nb_prims co_upd_def)

lemma rq_rw_upd [simp]: "nb_rq (rw_upd l f s) = nb_rq s"
  by (simp add: rw_upd_def)

lemma grant_other: "l' \<noteq> l \<Longrightarrow> rwlocks (nb_rw_grant l s) l' = rwlocks s l'"
proof (induction l s rule: nb_rw_grant.induct)
  case (1 l s)
  then show ?case by (subst nb_rw_grant.simps) (auto simp: Let_def split: list.split)
qed

text \<open>What a grant leaves behind.\<close>

definition granted :: "(rw_node \<Rightarrow> nb_want) \<Rightarrow> nb_rw \<Rightarrow> nb_rw" where
  "granted want r =
     (let ns = rw_admit want r in
      r\<lparr>rw_wq := drop (length ns) (rw_wq r),
        rw_writing := (rw_writing r \<or> (\<exists>n. ns = [n] \<and> want n = NB_RW_WRITE)),
        rw_readers := rw_readers r + int (length (filter (\<lambda>n. want n \<noteq> NB_RW_WRITE) ns))\<rparr>)"

lemma rw_admit_cong: "(\<And>n. n \<in> set (rw_wq r) \<Longrightarrow> w n = w' n) \<Longrightarrow> rw_admit w r = rw_admit w' r"
  by (auto simp: rw_admit_def split: list.split intro!: takeWhile_cong)

lemma takeWhile_none: "(\<forall>n \<in> set xs. P n) \<Longrightarrow> takeWhile P xs = xs"
  by (simp add: takeWhile_eq_all_conv)

lemma granted_none: "rw_admit w r = [] \<Longrightarrow> granted w r = r"
  by (simp add: granted_def)

lemma admit_filter: "filter (\<lambda>n. w n \<noteq> NB_RW_WRITE) (takeWhile (\<lambda>n. w n \<noteq> NB_RW_WRITE) ns) = takeWhile (\<lambda>n. w n \<noteq> NB_RW_WRITE) ns"
  by (induction ns) auto

lemma admit_readers:
  "\<not> rw_writing r \<Longrightarrow> rw_readers r > 0 \<Longrightarrow> rw_admit w r = takeWhile (\<lambda>n. w n \<noteq> NB_RW_WRITE) (rw_wq r)"
  by (auto simp: rw_admit_def split: list.split)

lemma granted_readers:
  assumes "\<not> rw_writing r" "rw_readers r > 0"
  shows "granted w r = r\<lparr>rw_wq := dropWhile (\<lambda>n. w n \<noteq> NB_RW_WRITE) (rw_wq r),
     rw_readers := rw_readers r + int (length (takeWhile (\<lambda>n. w n \<noteq> NB_RW_WRITE) (rw_wq r)))\<rparr>"
proof -
  have nw: "\<not> (\<exists>n. takeWhile (\<lambda>n. w n \<noteq> NB_RW_WRITE) (rw_wq r) = [n] \<and> w n = NB_RW_WRITE)"
    by (metis list.set_intros(1) set_takeWhileD)
  show ?thesis
    using assms nw
    by (intro nb_rw.equality) (simp_all add: granted_def admit_readers admit_filter dropWhile_eq_drop Let_def)
qed

lemma grant_reader_run:
  assumes "\<not> rw_writing (rwlocks s l)" "rw_readers (rwlocks s l) > 0" "distinct (rw_wq (rwlocks s l))"
  shows "rwlocks (nb_rw_grant l s) l = granted (\<lambda>n. node_want n s) (rwlocks s l) \<and>
    nb_rq (nb_rw_grant l s) = nb_rq s @ node_cids (rw_admit (\<lambda>n. node_want n s) (rwlocks s l)) \<and>
    (\<forall>n. node_want n (nb_rw_grant l s) = (if n \<in> set (rw_admit (\<lambda>n. node_want n s) (rwlocks s l)) then NB_RW_NONE else node_want n s))"
  using assms
proof (induction "rw_wq (rwlocks s l)" arbitrary: s)
  case Nil
  then show ?case by (simp add: nb_rw_grant.simps [of l s] rw_admit_def granted_def split: list.split)
next
  case (Cons n ns)
  note q = Cons.hyps(2) [symmetric]
  show ?case
  proof (cases "node_want n s = NB_RW_WRITE")
    case True
    then have "nb_rw_grant l s = s" "rw_admit (\<lambda>n. node_want n s) (rwlocks s l) = []"
      using Cons.prems q by (simp_all add: nb_rw_grant.simps [of l s] rw_admit_def)
    then show ?thesis by (simp add: granted_none)
  next
    case False
    define t where "t = rw_let_in n (rw_upd l (rw_pop n False ns) s)"
    have g: "nb_rw_grant l s = nb_rw_grant l t"
      using Cons.prems(1) False q by (simp add: nb_rw_grant.simps [of l s] t_def)
    have t: "rwlocks t l = (rwlocks s l)\<lparr>rw_wq := ns, rw_readers := rw_readers (rwlocks s l) + 1\<rparr>"
      "nb_rq t = nb_rq s @ node_cids [n]" "\<And>k. node_want k t = (if k = n then NB_RW_NONE else node_want k s)"
      by (simp_all add: t_def rw_pop_def)
    have n: "n \<notin> set ns" using Cons.prems(3) q by simp
    have IH: "rwlocks (nb_rw_grant l t) l = granted (\<lambda>n. node_want n t) (rwlocks t l) \<and>
      nb_rq (nb_rw_grant l t) = nb_rq t @ node_cids (rw_admit (\<lambda>n. node_want n t) (rwlocks t l)) \<and>
      (\<forall>k. node_want k (nb_rw_grant l t) = (if k \<in> set (rw_admit (\<lambda>n. node_want n t) (rwlocks t l)) then NB_RW_NONE else node_want k t))"
      by (rule Cons.hyps(1)) (use Cons.prems q t in simp_all)
    have tw: "takeWhile (\<lambda>k. node_want k t \<noteq> NB_RW_WRITE) ns = takeWhile (\<lambda>k. node_want k s \<noteq> NB_RW_WRITE) ns"
      "dropWhile (\<lambda>k. node_want k t \<noteq> NB_RW_WRITE) ns = dropWhile (\<lambda>k. node_want k s \<noteq> NB_RW_WRITE) ns"
      using n by (auto simp: t(3) intro!: takeWhile_cong dropWhile_cong)
    have a: "rw_admit (\<lambda>n. node_want n t) (rwlocks t l) = takeWhile (\<lambda>k. node_want k s \<noteq> NB_RW_WRITE) ns"
      using Cons.prems tw by (simp add: admit_readers t(1))
    have b: "rw_admit (\<lambda>n. node_want n s) (rwlocks s l) = n # takeWhile (\<lambda>k. node_want k s \<noteq> NB_RW_WRITE) ns"
      using Cons.prems False q by (simp add: admit_readers)
    have gr: "granted (\<lambda>n. node_want n t) (rwlocks t l) = granted (\<lambda>n. node_want n s) (rwlocks s l)"
      using Cons.prems False tw by (simp add: granted_readers t(1) q)
    show ?thesis
      using IH node_cids_append [of "[n]" "takeWhile (\<lambda>k. node_want k s \<noteq> NB_RW_WRITE) ns"]
      unfolding g a b gr by (simp add: t)
  qed
qed

lemma grant_spec:
  assumes "rw_readers (rwlocks s l) \<ge> 0" "distinct (rw_wq (rwlocks s l))"
  shows "rwlocks (nb_rw_grant l s) l = granted (\<lambda>n. node_want n s) (rwlocks s l) \<and>
    nb_rq (nb_rw_grant l s) = nb_rq s @ node_cids (rw_admit (\<lambda>n. node_want n s) (rwlocks s l)) \<and>
    (\<forall>n. node_want n (nb_rw_grant l s) = (if n \<in> set (rw_admit (\<lambda>n. node_want n s) (rwlocks s l)) then NB_RW_NONE else node_want n s))"
proof (cases "rw_wq (rwlocks s l)")
  case Nil
  then have "rw_admit (\<lambda>n. node_want n s) (rwlocks s l) = []" by (simp add: rw_admit_def)
  then show ?thesis using Nil by (simp add: nb_rw_grant.simps [of l s] granted_none)
next
  case (Cons n ns)
  consider (no) "rw_writing (rwlocks s l) \<or> node_want n s = NB_RW_WRITE \<and> rw_readers (rwlocks s l) \<noteq> 0"
    | (wr) "\<not> rw_writing (rwlocks s l)" "node_want n s = NB_RW_WRITE" "rw_readers (rwlocks s l) = 0"
    | (more) "\<not> rw_writing (rwlocks s l)" "node_want n s \<noteq> NB_RW_WRITE" "rw_readers (rwlocks s l) > 0"
    | (first) "\<not> rw_writing (rwlocks s l)" "node_want n s \<noteq> NB_RW_WRITE" "rw_readers (rwlocks s l) = 0"
    using assms(1) by force
  then show ?thesis
  proof cases
    case no
    then have "nb_rw_grant l s = s" "rw_admit (\<lambda>n. node_want n s) (rwlocks s l) = []"
      using Cons by (auto simp: nb_rw_grant.simps [of l s] rw_admit_def)
    then show ?thesis by (simp add: granted_none)
  next
    case wr
    then have "nb_rw_grant l s = rw_let_in n (rw_upd l (rw_pop n True ns) s)"
      "rw_admit (\<lambda>n. node_want n s) (rwlocks s l) = [n]"
      using Cons by (auto simp: nb_rw_grant.simps [of l s] rw_admit_def)
    then show ?thesis using wr Cons by (simp add: granted_def rw_pop_def)
  next
    case more
    then show ?thesis using grant_reader_run assms(2) by blast
  next
    case first
    define t where "t = rw_let_in n (rw_upd l (rw_pop n False ns) s)"
    have g: "nb_rw_grant l s = nb_rw_grant l t"
      using first Cons by (simp add: nb_rw_grant.simps [of l s] t_def)
    have t: "rwlocks t l = (rwlocks s l)\<lparr>rw_wq := ns, rw_readers := 1\<rparr>"
      "nb_rq t = nb_rq s @ node_cids [n]" "\<And>k. node_want k t = (if k = n then NB_RW_NONE else node_want k s)"
      using first by (simp_all add: t_def rw_pop_def)
    have n: "n \<notin> set ns" "distinct ns" using assms(2) Cons by simp_all
    have tw: "takeWhile (\<lambda>k. node_want k t \<noteq> NB_RW_WRITE) ns = takeWhile (\<lambda>k. node_want k s \<noteq> NB_RW_WRITE) ns"
      "dropWhile (\<lambda>k. node_want k t \<noteq> NB_RW_WRITE) ns = dropWhile (\<lambda>k. node_want k s \<noteq> NB_RW_WRITE) ns"
      using n by (auto simp: t(3) intro!: takeWhile_cong dropWhile_cong)
    have a: "rw_admit (\<lambda>n. node_want n t) (rwlocks t l) = takeWhile (\<lambda>k. node_want k s \<noteq> NB_RW_WRITE) ns"
      using first tw by (simp add: admit_readers t(1))
    have b: "rw_admit (\<lambda>n. node_want n s) (rwlocks s l) = n # takeWhile (\<lambda>k. node_want k s \<noteq> NB_RW_WRITE) ns"
      using first Cons by (simp add: rw_admit_def)
    have gr: "granted (\<lambda>n. node_want n t) (rwlocks t l) = granted (\<lambda>n. node_want n s) (rwlocks s l)"
      using first tw Cons
      by (simp add: granted_readers t(1)) (simp add: granted_def Let_def b admit_filter dropWhile_eq_drop)
    show ?thesis
      using grant_reader_run [of t l] first n(2) node_cids_append [of "[n]" "takeWhile (\<lambda>k. node_want k s \<noteq> NB_RW_WRITE) ns"]
      unfolding g a b gr by (simp add: t)
  qed
qed


section \<open>Every operation keeps the invariant\<close>

lemma admit_prefix: "\<exists>ys. rw_wq r = rw_admit w r @ ys"
proof (cases "rw_wq r")
  case (Cons n ns)
  have "\<exists>ys. n # ns = takeWhile (\<lambda>n. w n \<noteq> NB_RW_WRITE) (n # ns) @ ys" by (metis takeWhile_dropWhile_id)
  then show ?thesis unfolding rw_admit_def Cons by (simp del: takeWhile.simps)
qed (simp add: rw_admit_def)

lemma set_admit: "set (rw_admit w r) \<subseteq> set (rw_wq r)"
  by (metis admit_prefix set_append sup_ge1)

lemma granted_wq: "rw_wq r = rw_admit w r @ rw_wq (granted w r)"
proof -
  obtain ys where y: "rw_wq r = rw_admit w r @ ys" using admit_prefix by blast
  then have "rw_wq (granted w r) = ys" by (simp add: granted_def Let_def)
  with y show ?thesis by simp
qed

lemma granted_excl:
  assumes "rw_readers r \<ge> 0" "rw_writing r \<longrightarrow> rw_readers r = 0"
  shows "rw_readers (granted w r) \<ge> 0 \<and> (rw_writing (granted w r) \<longrightarrow> rw_readers (granted w r) = 0)"
  using assms
  by (auto simp: granted_def rw_admit_def Let_def split: list.split_asm if_splits)

lemma admit_cases:
  "rw_admit w r = [] \<or> (\<exists>n. rw_admit w r = [n] \<and> w n = NB_RW_WRITE \<and> rw_readers r = 0) \<or>
    (\<forall>n \<in> set (rw_admit w r). w n \<noteq> NB_RW_WRITE)"
  unfolding rw_admit_def by (auto split: list.split dest: set_takeWhileD)

lemma granted_counts:
  assumes "rw_readers r \<ge> 0"
  shows "if \<exists>n. rw_admit w r = [n] \<and> w n = NB_RW_WRITE then rw_writing (granted w r) \<and> rw_readers (granted w r) = 0
    else rw_readers (granted w r) = rw_readers r + int (length (rw_admit w r))"
  using admit_cases [of w r]
proof (elim disjE)
  assume a: "\<forall>n \<in> set (rw_admit w r). w n \<noteq> NB_RW_WRITE"
  then have f: "filter (\<lambda>n. w n \<noteq> NB_RW_WRITE) (rw_admit w r) = rw_admit w r" by simp
  have "\<not> (\<exists>n. rw_admit w r = [n] \<and> w n = NB_RW_WRITE)" using a by auto
  with f show ?thesis by (auto simp: granted_def Let_def)
qed (auto simp: granted_def Let_def)

lemma granted_tight:
  assumes "rw_readers r \<ge> 0" "rw_wq (granted w r) = n # ns"
  shows "rw_writing (granted w r) \<or> rw_readers (granted w r) > 0 \<and> w n = NB_RW_WRITE"
proof (cases "rw_writing r \<or> rw_wq r = []")
  case True
  then have "rw_admit w r = []" by (auto simp: rw_admit_def)
  then show ?thesis using True assms(2) by (auto simp: granted_none)
next
  case False
  then obtain k ks where q: "rw_wq r = k # ks" by (cases "rw_wq r") auto
  show ?thesis
  proof (cases "w k = NB_RW_WRITE")
    case True
    then show ?thesis using False q assms by (auto simp: granted_def rw_admit_def Let_def)
  next
    case reader: False
    then have a: "rw_admit w r = k # takeWhile (\<lambda>n. w n \<noteq> NB_RW_WRITE) ks" using False q by (simp add: rw_admit_def)
    then have "rw_wq (granted w r) = dropWhile (\<lambda>n. w n \<noteq> NB_RW_WRITE) ks"
      using q by (simp add: granted_def Let_def dropWhile_eq_drop)
    then have "w n = NB_RW_WRITE" using assms(2) by (metis (mono_tags, lifting) dropWhile_eq_Cons_conv)
    moreover have "rw_readers (granted w r) > 0" using a reader assms(1) by (simp add: granted_def Let_def)
    ultimately show ?thesis by simp
  qed
qed

lemma inv_grant:
  assumes q: "rw_queues s" and l: "rw_excl s l" and other: "\<And>l'. l' \<noteq> l \<Longrightarrow> rw_excl s l' \<and> rw_tight s l'"
  shows "rw_inv (nb_rw_grant l s)"
proof -
  define r where "r = rwlocks s l"
  define w where "w = (\<lambda>n. node_want n s)"
  have d: "distinct (rw_wq r)" using q by (simp add: rw_queues_def r_def)
  have g: "rwlocks (nb_rw_grant l s) l = granted w r"
    "\<And>n. node_want n (nb_rw_grant l s) = (if n \<in> set (rw_admit w r) then NB_RW_NONE else w n)"
    using grant_spec [of s l] l d by (simp_all add: rw_excl_def r_def w_def)
  note o = grant_other [of _ l s]
  have sub: "set (rw_wq (rwlocks (nb_rw_grant l s) l')) \<subseteq> set (rw_wq (rwlocks s l'))" for l'
    using granted_wq [of r w] g(1) o [of l'] by (cases "l' = l") (auto simp: r_def)
  have keep: "node_want n (nb_rw_grant l s) = w n" if "n \<in> set (rw_wq (rwlocks (nb_rw_grant l s) l'))" for n l'
  proof -
    have "n \<notin> set (rw_admit w r)"
    proof (cases "l' = l")
      case True
      then show ?thesis using that granted_wq [of r w] d g(1) by (metis IntI distinct_append empty_iff)
    next
      case False
      then show ?thesis using that o q set_admit [of w r] by (auto simp: rw_queues_def r_def)
    qed
    then show ?thesis by (simp add: g(2))
  qed
  have dg: "distinct (rw_wq (granted w r))" using d granted_wq [of r w] by (metis distinct_append)
  have "distinct (rw_wq (rwlocks (nb_rw_grant l s) l'))" for l'
    using q dg g(1) o [of l'] by (cases "l' = l") (auto simp: rw_queues_def)
  then have "rw_queues (nb_rw_grant l s)"
    using q sub keep unfolding rw_queues_def w_def by (metis subsetD)
  moreover have "rw_excl (nb_rw_grant l s) l'" for l'
    using granted_excl [of r w] l g(1) o [of l'] other [of l'] by (cases "l' = l") (auto simp: rw_excl_def r_def)
  moreover have "rw_tight (nb_rw_grant l s) l'" for l'
  proof (cases "l' = l")
    case True
    then show ?thesis using granted_tight [of r w] l g(1) keep [of _ l] by (auto simp: rw_tight_def rw_excl_def r_def)
  next
    case False
    then show ?thesis using other [of l'] o [of l'] keep [of _ l'] by (auto simp: rw_tight_def w_def)
  qed
  ultimately show ?thesis by (simp add: rw_inv_def)
qed

text \<open>States whose locks and wants agree on what waits.\<close>

lemma inv_frame:
  assumes "rw_inv s" "\<And>l. rw_wq (rwlocks t l) = rw_wq (rwlocks s l)" "\<And>l. rw_readers (rwlocks t l) = rw_readers (rwlocks s l)"
    "\<And>l. rw_writing (rwlocks t l) = rw_writing (rwlocks s l)"
    "\<And>l n. n \<in> set (rw_wq (rwlocks s l)) \<Longrightarrow> node_want n t = node_want n s"
  shows "rw_inv t"
  using assms unfolding rw_inv_def rw_queues_def rw_excl_def rw_tight_def
  by (simp, metis list.set_intros(1))

lemma rwh_views [simp]: "rwlocks (rwh_upd n f s) = rwlocks s" "node_want k (rwh_upd n f s) = node_want k s"
  by (cases n; cases k; simp add: co_upd_def)+

lemma inv_rwh: "rw_inv s \<Longrightarrow> rw_inv (rwh_upd n f s)"
  by (rule inv_frame) simp_all

lemma finish_views [simp]:
  "rw_wq (rwlocks (rd_finish l s) l') = rw_wq (rwlocks s l')" "rw_readers (rwlocks (rd_finish l s) l') = rw_readers (rwlocks s l')"
  "rw_writing (rwlocks (rd_finish l s) l') = rw_writing (rwlocks s l')" "node_want k (rd_finish l s) = node_want k s"
  "rw_wq (rwlocks (wr_finish l s) l') = rw_wq (rwlocks s l')" "rw_readers (rwlocks (wr_finish l s) l') = rw_readers (rwlocks s l')"
  "rw_writing (rwlocks (wr_finish l s) l') = rw_writing (rwlocks s l')" "node_want k (wr_finish l s) = node_want k s"
  by (simp_all add: rd_finish_def wr_finish_def)

lemma inv_finish: "rw_inv s \<Longrightarrow> rw_inv (rd_finish l s)" "rw_inv s \<Longrightarrow> rw_inv (wr_finish l s)"
  by (rule inv_frame; simp)+

text \<open>Taking a free lock.\<close>

lemma inv_take_read:
  assumes "rw_inv s" "\<not> rw_writing (rwlocks s l)" "rw_wq (rwlocks s l) = []"
  shows "rw_inv (rw_upd l (rw_readers_update (\<lambda>n. n + 1)) s)"
  using assms by (auto simp: rw_inv_def rw_queues_def rw_excl_def rw_tight_def)

lemma inv_take_write:
  assumes "rw_inv s" "rw_readers (rwlocks s l) = 0"
  shows "rw_inv (rw_upd l (rw_writing_update (\<lambda>_. True)) s)"
  using assms by (auto simp: rw_inv_def rw_queues_def rw_excl_def rw_tight_def)


lemma enqueue_views:
  "rwlocks (rw_enqueue n l want s) = (rwlocks s)(l := (rwlocks s l)\<lparr>rw_wq := rw_wq (rwlocks s l) @ [n]\<rparr>)"
  "node_want k (rw_enqueue n l want s) = (if k = n then want else node_want k s)"
  by (cases n; cases k; auto simp: rw_enqueue_def co_upd_def)+

lemma inv_enqueue:
  assumes i: "rw_inv s" and n: "node_want n s = NB_RW_NONE"
    and w: "want = NB_RW_READ \<and> (rw_writing (rwlocks s l) \<or> rw_wq (rwlocks s l) \<noteq> []) \<or>
      want = NB_RW_WRITE \<and> (rw_writing (rwlocks s l) \<or> rw_readers (rwlocks s l) \<noteq> 0 \<or> rw_wq (rwlocks s l) \<noteq> [])"
  shows "rw_inv (rw_enqueue n l want s)"
proof -
  have out: "n \<notin> set (rw_wq (rwlocks s l'))" for l' using i n by (auto simp: rw_inv_def rw_queues_def)
  have "rw_queues (rw_enqueue n l want s)"
    using i out w by (auto simp: rw_inv_def rw_queues_def enqueue_views)
  moreover have "rw_excl (rw_enqueue n l want s) l'" for l'
    using i by (auto simp: rw_inv_def rw_excl_def enqueue_views)
  moreover have "rw_tight (rw_enqueue n l want s) l'" for l'
  proof (cases "l' = l")
    case True
    have e: "rw_excl s l" "rw_tight s l" using i by (simp_all add: rw_inv_def)
    show ?thesis
    proof (cases "rw_wq (rwlocks s l)")
      case Nil
      then show ?thesis using True w e(1) by (auto simp: rw_tight_def rw_excl_def enqueue_views)
    next
      case (Cons k ks)
      then have "k \<noteq> n" using out [of l] by auto
      then show ?thesis using True Cons e(2) by (auto simp: rw_tight_def enqueue_views)
    qed
  next
    case False
    have "rw_tight s l'" using i by (simp add: rw_inv_def)
    then show ?thesis using False out [of l'] by (auto simp: rw_tight_def enqueue_views)
  qed
  ultimately show ?thesis by (simp add: rw_inv_def)
qed

lemma inv_park: "rw_inv s \<Longrightarrow> rw_inv (nb_park s)"
proof (rule inv_frame)
  show "node_want n (nb_park s) = node_want n s" for n
    by (cases n) (simp_all add: nb_park_def set_state_def co_upd_def split: option.split)
qed (simp_all add: nb_park_def set_state_def co_upd_def split: option.split)

lemma inv_rd_leave:
  assumes "rw_inv s"
  shows "rw_inv (rd_leave l s)"
proof (cases "rw_readers (rwlocks s l) > 0")
  case True
  let ?t = "rw_upd l (rw_readers_update (\<lambda>n. n - 1)) s"
  have "rw_queues ?t" "rw_excl ?t l" "\<And>l'. l' \<noteq> l \<Longrightarrow> rw_excl ?t l' \<and> rw_tight ?t l'"
    using assms True by (auto simp: rw_inv_def rw_queues_def rw_excl_def rw_tight_def)
  moreover have "rw_tight ?t l" if "rw_readers (rwlocks s l) \<noteq> 1"
    using assms True that unfolding rw_inv_def rw_tight_def by fastforce
  ultimately show ?thesis
    using True inv_grant [of ?t l] unfolding rd_leave_def Let_def rw_inv_def by (auto, metis+)
qed (use assms in \<open>simp add: rd_leave_def\<close>)

lemma inv_rdunlock: "rw_inv s \<Longrightarrow> rw_inv (nurl_rwlock_rdunlock l s)"
  by (auto simp: nurl_rwlock_rdunlock_def Let_def intro!: inv_rd_leave inv_rwh split: option.split)

lemma inv_wrunlock: "rw_inv s \<Longrightarrow> rw_inv (nurl_rwlock_wrunlock l s)"
  unfolding nurl_rwlock_wrunlock_def
  by (rule inv_grant) (auto simp: rw_inv_def rw_queues_def rw_excl_def rw_tight_def)

lemma inv_try:
  "rw_inv s \<Longrightarrow> rw_inv (snd (nurl_rwlock_tryrdlock l s))" "rw_inv s \<Longrightarrow> rw_inv (snd (nurl_rwlock_trywrlock l s))"
  by (auto simp: nurl_rwlock_tryrdlock_def nurl_rwlock_trywrlock_def Let_def
      intro!: inv_finish inv_take_read inv_take_write inv_rwh split: option.split)

lemma inv_rw_wait:
  assumes "rw_inv s" "nb_current s = Some c" "node_want (RwCo c) s = NB_RW_NONE"
    and "want = NB_RW_READ \<and> (rw_writing (rwlocks s l) \<or> rw_wq (rwlocks s l) \<noteq> []) \<or>
      want = NB_RW_WRITE \<and> (rw_writing (rwlocks s l) \<or> rw_readers (rwlocks s l) \<noteq> 0 \<or> rw_wq (rwlocks s l) \<noteq> [])"
    and "rw_then fin l (nb_rw_wait body l want s) = Some (out, t)"
  shows "rw_inv t"
  using assms inv_park [OF inv_enqueue [OF assms(1,3,4)]]
  by (auto simp: nb_rw_wait_def rw_self_def rw_then_def Let_def)

lemma inv_rdlock:
  assumes "rw_inv s" "nb_current s = Some c" "rw_want (coros s c) = NB_RW_NONE" "nurl_rwlock_rdlock body l s = Some (out, t)"
  shows "rw_inv t"
  using assms inv_rw_wait [of s c NB_RW_READ l rd_finish body out t]
  by (auto simp: nurl_rwlock_rdlock_def Let_def intro: inv_rwh inv_finish inv_take_read split: option.splits if_splits)

lemma inv_wrlock:
  assumes "rw_inv s" "nb_current s = Some c" "rw_want (coros s c) = NB_RW_NONE" "nurl_rwlock_wrlock body l s = Some (out, t)"
  shows "rw_inv t"
  using assms inv_rw_wait [of s c NB_RW_WRITE l wr_finish body out t]
  by (auto simp: nurl_rwlock_wrlock_def Let_def intro: inv_rwh inv_finish inv_take_write split: option.splits if_splits)

lemma inv_init: "rw_inv s \<Longrightarrow> rw_wq (rwlocks s l) = [] \<Longrightarrow> rw_inv (nurl_rwlock_init l s)"
  by (auto simp: nurl_rwlock_init_def rw_inv_def rw_queues_def rw_excl_def rw_tight_def)

lemma inv_rw_step: "rw_step s t \<Longrightarrow> rw_inv s \<Longrightarrow> rw_inv t"
proof (induction rule: rw_step.induct)
  case (main_rd_wait s l)
  then show ?case by (intro inv_enqueue) auto
next
  case (main_wr_wait s l)
  then show ?case by (intro inv_enqueue) auto
next
  case (resume fin s c l)
  then show ?case by (auto simp: rw_resume_def intro: inv_park inv_finish)
next
  case (other t s)
  then show ?case by (intro inv_frame [of s t]) auto
qed (blast intro: inv_rdlock inv_wrlock inv_rdunlock inv_wrunlock inv_try inv_init)+

lemma inv_boot: "rw_inv (nb_boot clk slp)"
  by (simp add: rw_inv_def rw_queues_def rw_excl_def rw_tight_def nb_boot_def)

section \<open>Properties\<close>

text \<open>C9. Readers and a writer exclude each other in every state that any sequence of lock
  operations, grants and other scheduler activity reaches from boot, and nobody is kept waiting
  without need: whoever is first in a queue waits because a writer has the lock, or wants to
  write while others read.\<close>

theorem rw_exclusion:
  assumes "rw_step\<^sup>*\<^sup>* (nb_boot clk slp) s"
  shows "rw_readers (rwlocks s l) \<ge> 0 \<and> (rw_writing (rwlocks s l) \<longrightarrow> rw_readers (rwlocks s l) = 0) \<and>
    (rw_wq (rwlocks s l) \<noteq> [] \<longrightarrow> rw_writing (rwlocks s l) \<or>
       rw_readers (rwlocks s l) > 0 \<and> node_want (hd (rw_wq (rwlocks s l))) s = NB_RW_WRITE)"
proof -
  from assms have "rw_inv s" by (induction rule: rtranclp_induct) (auto intro: inv_boot inv_rw_step)
  then show ?thesis by (cases "rw_wq (rwlocks s l)") (auto simp: rw_inv_def rw_excl_def rw_tight_def)
qed

text \<open>The main context reads lock 3.\<close>

definition main_reads :: nb_sched where
  "main_reads = snd (nurl_rwlock_tryrdlock 3 (nb_boot 0 (+)))"

theorem rw_exclusion_witness:
  "rw_step\<^sup>*\<^sup>* (nb_boot 0 (+)) (rw_enqueue RwMain 3 NB_RW_WRITE main_reads) \<and>
   rw_readers (rwlocks (rw_enqueue RwMain 3 NB_RW_WRITE main_reads) 3) = 1 \<and>
   \<not> rw_writing (rwlocks (rw_enqueue RwMain 3 NB_RW_WRITE main_reads) 3)"
proof -
  have r: "rw_readers (rwlocks main_reads 3) = 1" "nb_rw_main_want main_reads = NB_RW_NONE"
    by (simp_all add: main_reads_def nurl_rwlock_tryrdlock_def rw_self_def nb_rw_find_def nb_boot_def rd_finish_def rw_upd_def)
  have a: "rw_step (nb_boot 0 (+)) main_reads" unfolding main_reads_def by (rule rw_step.tryrdlock)
  have "rw_step main_reads (rw_enqueue RwMain 3 NB_RW_WRITE main_reads)" by (rule rw_step.main_wr_wait) (simp_all add: r)
  with a have s: "rw_step\<^sup>*\<^sup>* (nb_boot 0 (+)) (rw_enqueue RwMain 3 NB_RW_WRITE main_reads)" by simp
  have "rw_readers (rwlocks (rw_enqueue RwMain 3 NB_RW_WRITE main_reads) 3) = 1" by (simp add: enqueue_views r)
  with rw_exclusion [OF s, of 3] s show ?thesis by auto
qed

text \<open>C10. An unlock lets in exactly what the head of the queue can have, in arrival order: one
  writer if nobody reads, or all the readers up to the next writer. The admitted coroutines are
  appended to the run queue holding the lock, and everyone behind them stays queued.\<close>

theorem rw_grant_fifo:
  assumes "rw_queues s" and "rw_readers (rwlocks s l) \<ge> 0"
    and "let_in = rw_admit (\<lambda>n. node_want n s) (rwlocks s l)" and "t = nb_rw_grant l s"
  shows "rw_wq (rwlocks s l) = let_in @ rw_wq (rwlocks t l) \<and> nb_rq t = nb_rq s @ node_cids let_in \<and>
    (\<forall>n \<in> set let_in. node_want n t = NB_RW_NONE) \<and> (\<forall>n. n \<notin> set let_in \<longrightarrow> node_want n t = node_want n s) \<and>
    (if \<exists>n. let_in = [n] \<and> node_want n s = NB_RW_WRITE then rw_writing (rwlocks t l) \<and> rw_readers (rwlocks t l) = 0
     else rw_readers (rwlocks t l) = rw_readers (rwlocks s l) + int (length let_in))"
proof -
  have d: "distinct (rw_wq (rwlocks s l))" using assms(1) by (simp add: rw_queues_def)
  note g = grant_spec [OF assms(2) d, folded assms(3,4)]
  have wq: "rw_wq (rwlocks s l) = let_in @ rw_wq (rwlocks t l)"
    using granted_wq [of "rwlocks s l" "\<lambda>n. node_want n s"] g assms(3) by simp
  have "(if \<exists>n. let_in = [n] \<and> node_want n s = NB_RW_WRITE then rw_writing (rwlocks t l) \<and> rw_readers (rwlocks t l) = 0
     else rw_readers (rwlocks t l) = rw_readers (rwlocks s l) + int (length let_in))"
    using granted_counts [OF assms(2), of "\<lambda>n. node_want n s", folded assms(3)] g by simp
  with wq g show ?thesis by simp
qed

theorem rw_grant_fifo_witness:
  "rw_queues main_reads \<and> rw_readers (rwlocks main_reads 3) \<ge> 0 \<and>
   rw_admit (\<lambda>n. node_want n main_reads) (rwlocks main_reads 3) = [] \<and> rw_readers (rwlocks (nb_rw_grant 3 main_reads) 3) = 1"
proof -
  have r: "rw_readers (rwlocks main_reads 3) = 1" "rw_wq (rwlocks main_reads 3) = []"
    by (simp_all add: main_reads_def nurl_rwlock_tryrdlock_def rw_self_def nb_rw_find_def nb_boot_def rd_finish_def rw_upd_def)
  have q: "rw_queues main_reads"
    using inv_rw_step [OF rw_step.tryrdlock inv_boot] unfolding main_reads_def rw_inv_def by blast
  have a: "rw_admit (\<lambda>n. node_want n main_reads) (rwlocks main_reads 3) = []" using r by (simp add: rw_admit_def)
  show ?thesis using rw_grant_fifo [OF q _ refl refl, of 3] q a r by simp
qed

end
