(* ===== verification/Paths.thy ===== *)
theory Paths
  imports Prelude
begin

text \<open>
  Paths as lists of components: the specification that the two path normalisers of the guest
  (\<open>fs_norm_dir\<close> of the archive and \<open>vfs_resolve\<close> above it) are proved to implement. A path is split
  at slashes, \<open>.\<close> is dropped, \<open>..\<close> takes the component before it away and stays at the root.
\<close>

abbreviation NUL :: char where "NUL \<equiv> CHR 0x00"
abbreviation SLASH :: char where "SLASH \<equiv> CHR ''/''"
abbreviation DOT :: char where "DOT \<equiv> CHR ''.''"

section \<open>Splitting, folding, joining\<close>

lemma rest_shorter: "dropWhile (\<lambda>c. c = SLASH) p \<noteq> [] \<Longrightarrow>
   length (dropWhile (\<lambda>c. c \<noteq> SLASH) (dropWhile (\<lambda>c. c = SLASH) p)) < length p"
proof -
  assume ne: "dropWhile (\<lambda>c. c = SLASH) p \<noteq> []"
  have "hd (dropWhile (\<lambda>c. c = SLASH) p) \<noteq> SLASH" using hd_dropWhile [OF ne] .
  then have "length (dropWhile (\<lambda>c. c \<noteq> SLASH) (dropWhile (\<lambda>c. c = SLASH) p)) < length (dropWhile (\<lambda>c. c = SLASH) p)"
    using ne by (cases "dropWhile (\<lambda>c. c = SLASH) p") (auto simp: le_imp_less_Suc length_dropWhile_le)
  also have "\<dots> \<le> length p" by (rule length_dropWhile_le)
  finally show ?thesis .
qed

function segments :: "string \<Rightarrow> string list" where
  "segments p =
     (let q = dropWhile (\<lambda>c. c = SLASH) p in
      if q = [] then [] else takeWhile (\<lambda>c. c \<noteq> SLASH) q # segments (dropWhile (\<lambda>c. c \<noteq> SLASH) q))"
  by pat_completeness auto
termination
  by (relation "measure length") (use rest_shorter in auto)

declare segments.simps [simp del]

lemma segments_step:
  assumes "dropWhile (\<lambda>c. c = SLASH) p = q" "q \<noteq> []"
  shows "segments p = takeWhile (\<lambda>c. c \<noteq> SLASH) q # segments (dropWhile (\<lambda>c. c \<noteq> SLASH) q)"
  using assms(2) unfolding segments.simps [of p] assms(1) Let_def by simp

lemma segments_none: "dropWhile (\<lambda>c. c = SLASH) p = [] \<Longrightarrow> segments p = []"
  unfolding segments.simps [of p] Let_def by simp

lemma segments_slash: "segments (SLASH # p) = segments p"
  unfolding segments.simps [of "SLASH # p"] segments.simps [of p] by simp

definition fold_step :: "string list \<Rightarrow> string \<Rightarrow> string list" where
  "fold_step st seg = (if seg = [DOT] then st else if seg = [DOT, DOT] then butlast st else st @ [seg])"

lemma fold_step_dot:
  "fold_step st [DOT] = st" "fold_step st [DOT, DOT] = butlast st"
  "seg \<noteq> [DOT] \<Longrightarrow> seg \<noteq> [DOT, DOT] \<Longrightarrow> fold_step st seg = st @ [seg]"
  by (simp_all add: fold_step_def)

definition fold_segs :: "string list \<Rightarrow> string list" where
  "fold_segs ss = foldl fold_step [] ss"

fun join :: "string list \<Rightarrow> string" where
  "join [] = []"
| "join [s] = s"
| "join (s # t # ss) = s @ SLASH # join (t # ss)"

text \<open>A component: not empty, without slashes, and not one that folding removes.\<close>

definition seg_ok :: "string \<Rightarrow> bool" where
  "seg_ok s \<longleftrightarrow> s \<noteq> [] \<and> SLASH \<notin> set s"

definition seg_plain :: "string \<Rightarrow> bool" where
  "seg_plain s \<longleftrightarrow> seg_ok s \<and> s \<noteq> [DOT] \<and> s \<noteq> [DOT, DOT]"

section \<open>Taking a component off and putting one on, in a buffer\<close>

definition pop_seg :: "string \<Rightarrow> string" where
  "pop_seg out = rev (drop 1 (dropWhile (\<lambda>c. c \<noteq> SLASH) (rev out)))"

definition push_seg :: "nat \<Rightarrow> string \<Rightarrow> string \<Rightarrow> string" where
  "push_seg cap out seg =
     (let o1 = (if out \<noteq> [] \<and> length out < cap - 1 then out @ [SLASH] else out)
      in o1 @ take (cap - 1 - length o1) seg)"

lemma join_snoc: "join (ss @ [s]) = (if ss = [] then s else join ss @ SLASH # s)"
  by (induction ss rule: join.induct) auto

lemma join_nonempty: "(\<forall>s \<in> set ss. seg_ok s) \<Longrightarrow> join ss = [] \<longleftrightarrow> ss = []"
  by (induction ss rule: join.induct) (auto simp: seg_ok_def)

lemma pop_join: "\<forall>s \<in> set ss. seg_ok s \<Longrightarrow> pop_seg (join ss) = join (butlast ss)"
proof (cases ss rule: rev_cases)
  case (snoc ts s)
  assume "\<forall>s \<in> set ss. seg_ok s"
  then have s: "SLASH \<notin> set s" and ts: "\<forall>s \<in> set ts. seg_ok s" using snoc by (auto simp: seg_ok_def)
  then have r: "dropWhile (\<lambda>c. c \<noteq> SLASH) (rev s @ xs) = dropWhile (\<lambda>c. c \<noteq> SLASH) xs" for xs
    by (intro dropWhile_append2) auto
  show ?thesis
  proof (cases "ts = []")
    case True
    have "dropWhile (\<lambda>c. c \<noteq> SLASH) (rev s) = []" using s by auto
    then have "pop_seg s = []" unfolding pop_seg_def by (simp del: dropWhile_eq_Nil_conv)
    then show ?thesis using snoc True by simp
  next
    case False
    then show ?thesis using snoc r [of "SLASH # rev (join ts)"] by (simp add: pop_seg_def join_snoc)
  qed
qed (simp add: pop_seg_def)

lemma push_join:
  assumes "\<forall>s \<in> set ss. seg_ok s" and "length (join (ss @ [s])) < cap"
  shows "push_seg cap (join ss) s = join (ss @ [s])"
proof (cases "ss = []")
  case True
  then show ?thesis using assms(2) by (simp add: push_seg_def)
next
  case False
  then show ?thesis using assms(2) join_nonempty [OF assms(1)] by (simp add: push_seg_def join_snoc)
qed

section \<open>Facts on splitting and folding\<close>

lemma segments_ok: "s \<in> set (segments p) \<Longrightarrow> seg_ok s"
proof (induction p rule: segments.induct)
  case (1 p)
  let ?q = "dropWhile (\<lambda>c. c = SLASH) p"
  show ?case
  proof (cases "?q = []")
    case False
    have h: "hd ?q \<noteq> SLASH" using hd_dropWhile [OF False] .
    have t: "seg_ok (takeWhile (\<lambda>c. c \<noteq> SLASH) ?q)"
      using False h by (cases ?q) (auto simp: seg_ok_def dest: set_takeWhileD)
    have "s = takeWhile (\<lambda>c. c \<noteq> SLASH) ?q \<or> s \<in> set (segments (dropWhile (\<lambda>c. c \<noteq> SLASH) ?q))"
      using 1(2) unfolding segments_step [OF refl False] by (simp del: dropWhile_eq_Nil_conv)
    then show ?thesis using t 1(1) [OF refl False] by blast
  qed (use 1(2) segments_none in simp)
qed

lemma fold_plain_gen:
  "\<forall>s \<in> set ss. seg_ok s \<Longrightarrow> \<forall>s \<in> set st. seg_plain s \<Longrightarrow> \<forall>s \<in> set (foldl fold_step st ss). seg_plain s"
proof (induction ss arbitrary: st)
  case (Cons s ss)
  have "\<forall>x \<in> set (fold_step st s). seg_plain x"
    using Cons.prems by (auto simp: fold_step_def seg_plain_def dest: in_set_butlastD)
  then show ?case using Cons by simp
qed simp

lemma fold_plain: "\<forall>s \<in> set (fold_segs (segments p)). seg_plain s"
  unfolding fold_segs_def by (rule fold_plain_gen) (auto intro: segments_ok)

lemma fold_id_gen: "\<forall>s \<in> set ss. seg_plain s \<Longrightarrow> foldl fold_step st ss = st @ ss"
  by (induction ss arbitrary: st) (auto simp: fold_step_def seg_plain_def)

lemma fold_id: "\<forall>s \<in> set ss. seg_plain s \<Longrightarrow> fold_segs ss = ss"
  by (simp add: fold_segs_def fold_id_gen)

lemma segments_join: "\<forall>s \<in> set ss. seg_ok s \<Longrightarrow> segments (join ss) = ss"
proof (induction ss rule: join.induct)
  case 1
  then show ?case by (simp add: segments_none)
next
  case (2 s)
  then have s: "s \<noteq> []" "SLASH \<notin> set s" by (auto simp: seg_ok_def)
  have q: "dropWhile (\<lambda>c. c = SLASH) s = s" using s by (cases s) auto
  have t: "takeWhile (\<lambda>c. c \<noteq> SLASH) s = s" "dropWhile (\<lambda>c. c \<noteq> SLASH) s = []" using s by (auto simp: takeWhile_eq_all_conv)
  show ?case using segments_step [OF q s(1)] unfolding t by (simp add: segments_none)
next
  case (3 s t ss)
  then have s: "s \<noteq> []" "SLASH \<notin> set s" by (auto simp: seg_ok_def)
  let ?p = "s @ SLASH # join (t # ss)"
  have q: "dropWhile (\<lambda>c. c = SLASH) ?p = ?p" using s by (cases s) auto
  have t: "takeWhile (\<lambda>c. c \<noteq> SLASH) ?p = s" "dropWhile (\<lambda>c. c \<noteq> SLASH) ?p = SLASH # join (t # ss)"
    using s by (auto simp: takeWhile_append dropWhile_append)
  have "segments ?p = s # segments (join (t # ss))"
    using segments_step [OF q] s(1) unfolding t segments_slash by simp
  then show ?case using 3 by simp
qed

text \<open>Folding never makes a path longer.\<close>

lemma fold_length_gen:
  assumes "ss = [] \<or> p = [] \<or> hd p = SLASH"
  shows "length (join (foldl fold_step ss (segments p))) \<le> length (join ss) + length p"
  using assms
proof (induction p arbitrary: ss rule: segments.induct)
  case (1 p)
  define q where "q = dropWhile (\<lambda>c. c = SLASH) p"
  show ?case
  proof (cases "q = []")
    case True
    then show ?thesis using segments_none [of p] by (simp add: q_def)
  next
    case False
    define seg where "seg = takeWhile (\<lambda>c. c \<noteq> SLASH) q"
    define rest where "rest = dropWhile (\<lambda>c. c \<noteq> SLASH) q"
    have sp: "segments p = seg # segments rest"
      using segments_step [OF q_def [symmetric] False] by (simp add: seg_def rest_def)
    have rh: "ts = [] \<or> rest = [] \<or> hd rest = SLASH" for ts :: "string list" unfolding rest_def using hd_dropWhile by blast
    have lq: "length seg + length rest = length q" unfolding seg_def rest_def by (metis length_append takeWhile_dropWhile_id)
    have lp: "length q \<le> length p" unfolding q_def by (rule length_dropWhile_le)
    have lp1: "length q < length p" if ne: "ss \<noteq> []"
    proof -
      have "p \<noteq> []" using False by (auto simp: q_def)
      then obtain r where r: "p = SLASH # r" using 1(2) ne by (cases p) auto
      then have "q = dropWhile (\<lambda>c. c = SLASH) r" unfolding q_def by simp
      then show ?thesis using length_dropWhile_le [of "\<lambda>c. c = SLASH" r] r by simp
    qed
    have "length (join (fold_step ss seg)) + length rest \<le> length (join ss) + length p"
    proof -
      have "length (join (butlast ss)) \<le> length (join ss)" by (cases ss rule: rev_cases) (auto simp: join_snoc)
      moreover have "length (join (ss @ [seg])) + length rest \<le> length (join ss) + length p"
        using lq lp lp1 by (cases "ss = []") (auto simp: join_snoc)
      ultimately show ?thesis using lq lp by (auto simp: fold_step_def)
    qed
    then show ?thesis
      using 1(1) [OF q_def False, folded rest_def, OF rh, of "fold_step ss seg"] sp by simp
  qed
qed

lemma fold_length: "length (join (fold_segs (segments p))) \<le> length p"
  using fold_length_gen [of "[]" p] by (simp add: fold_segs_def)

end
