(* ===== verification/Initfs.thy ===== *)
theory Initfs
  imports Paths
begin

text \<open>
  The read-only file system of the image, \<^verbatim>\<open>src/unikernel/boot/initfs.c\<close>: lookup, listing and
  reading of a POSIX tar archive linked into the kernel. The archive is a list of bytes, a C
  string the list of its characters before the NUL, and a pointer into the archive an offset.
  The buffer that \<open>fs_lookup\<close> keeps between calls is part of the state.
\<close>

section \<open>State\<close>

record fs_file =
  f_data :: nat
  f_size :: nat
  f_pos :: nat
  f_used :: bool

record ifs =
  archive :: string
  folded :: string
  fs_open_files :: "fs_file list"
  nl_errno_slot :: int

definition FS_MAX_OPEN :: nat where "FS_MAX_OPEN = 16"
definition FS_FD_BASE :: int where "FS_FD_BASE = 64"

definition ifs_boot :: "string \<Rightarrow> ifs" where
  "ifs_boot a = \<lparr>archive = a, folded = [],
     fs_open_files = replicate 16 \<lparr>f_data = 0, f_size = 0, f_pos = 0, f_used = False\<rparr>, nl_errno_slot = 0\<rparr>"

section \<open>Names\<close>

fun tar_octal :: "string \<Rightarrow> nat \<Rightarrow> nat" where
  "tar_octal [] v = v"
| "tar_octal (c # cs) v =
     (if (of_char c :: nat) < 48 \<or> (of_char c :: nat) > 55 then v else tar_octal cs (v * 8 + (of_char c - 48)))"

text \<open>\<open>n\<close> is how many bytes of the field are left; reading past the list gives NUL.\<close>

fun fs_streq_n :: "string \<Rightarrow> nat \<Rightarrow> string \<Rightarrow> bool" where
  "fs_streq_n h 0 w \<longleftrightarrow> w = []"
| "fs_streq_n h (Suc n) w \<longleftrightarrow>
     (let x = (case h of [] \<Rightarrow> NUL | c # _ \<Rightarrow> c); y = (case w of [] \<Rightarrow> NUL | c # _ \<Rightarrow> c)
      in if x \<noteq> NUL \<and> y \<noteq> NUL \<and> x = y then fs_streq_n (tl h) n (tl w) else x = y)"

definition norm_skip :: "string \<Rightarrow> nat" where
  "norm_skip p =
     (case p of
        c # d # _ \<Rightarrow> if c = DOT \<and> d = SLASH then 2 else if c = SLASH then 1 else 0
      | [c] \<Rightarrow> if c = SLASH then 1 else 0
      | [] \<Rightarrow> 0)"

definition fs_norm :: "string \<Rightarrow> string" where
  "fs_norm p = drop (norm_skip p) p"

text \<open>Folding a path into \<open>out\<close>, which holds \<open>n\<close> characters before its NUL. The flag says whether
  anything has been stored: a path of nothing but slashes and \<open>.\<close> stores nothing at all, not even
  the NUL.\<close>

function fs_norm_loop :: "nat \<Rightarrow> string \<Rightarrow> string \<Rightarrow> bool \<Rightarrow> string \<times> bool" where
  "fs_norm_loop cap p out stored =
     (let q = dropWhile (\<lambda>c. c = SLASH) p in
      if q = [] then (out, stored)
      else let seg = takeWhile (\<lambda>c. c \<noteq> SLASH) q; rest = dropWhile (\<lambda>c. c \<noteq> SLASH) q in
        if seg = [DOT] then fs_norm_loop cap rest out stored
        else if seg = [DOT, DOT] then fs_norm_loop cap rest (pop_seg out) True
        else fs_norm_loop cap rest (push_seg cap out seg) True)"
  by pat_completeness auto

termination fs_norm_loop
  by (relation "measure (\<lambda>(cap, p, out, st). length p)") (use rest_shorter in auto)

declare fs_norm_loop.simps [simp del]

text \<open>The length, and the C string that \<open>buf\<close> then holds.\<close>

definition fs_norm_dir :: "string \<Rightarrow> nat \<Rightarrow> string \<Rightarrow> nat \<times> string" where
  "fs_norm_dir path cap buf =
     (let (out, stored) = fs_norm_loop cap (fs_norm path) [] False
      in (length out, if stored then out else buf))"

section \<open>Walking the archive\<close>

definition tar_size :: "string \<Rightarrow> nat \<Rightarrow> nat" where
  "tar_size a p = tar_octal (take 12 (drop (p + 124) a)) 0"

definition tar_type :: "string \<Rightarrow> nat \<Rightarrow> char" where
  "tar_type a p = a ! (p + 156)"

definition tar_stride :: "nat \<Rightarrow> nat" where
  "tar_stride sz = 512 + (sz + 511) div 512 * 512"

text \<open>A header that is whole, is not the padding at the end, and whose data is in the archive.\<close>

definition tar_live :: "string \<Rightarrow> nat \<Rightarrow> bool" where
  "tar_live a p \<longleftrightarrow> p + 512 \<le> length a \<and> a ! p \<noteq> NUL \<and> tar_size a p \<le> length a - (p + 512)"

function fs_scan :: "string \<Rightarrow> string \<Rightarrow> nat \<Rightarrow> (nat \<times> nat) option" where
  "fs_scan a want p =
     (if \<not> tar_live a p then None
      else let hdr = drop p a; k = norm_skip hdr; sz = tar_size a p; body = p + 512 in
        if (tar_type a p = CHR ''0'' \<or> tar_type a p = NUL) \<and> fs_streq_n (drop k hdr) (100 - k) want
        then if body + sz > length a then None else Some (body, sz)
        else fs_scan a want (p + tar_stride sz))"
  by pat_completeness auto
termination
  by (relation "measure (\<lambda>(a, want, p). length a - p)") (auto simp: tar_live_def tar_stride_def)

declare fs_scan.simps [simp del]

definition fs_lookup :: "string \<Rightarrow> ifs \<Rightarrow> (nat \<times> nat) option \<times> ifs" where
  "fs_lookup name s =
     (let want = snd (fs_norm_dir name 256 (folded s))
      in (fs_scan (archive s) want 0, s\<lparr>folded := want\<rparr>))"

section \<open>Files\<close>

definition set_errno :: "int \<Rightarrow> ifs \<Rightarrow> ifs" where
  "set_errno e s = s\<lparr>nl_errno_slot := e\<rparr>"

fun free_slot :: "fs_file list \<Rightarrow> nat \<Rightarrow> nat option" where
  "free_slot [] i = None"
| "free_slot (f # fs) i = (if f_used f then free_slot fs (i + 1) else Some i)"

definition ifs_open :: "string \<Rightarrow> int \<Rightarrow> ifs \<Rightarrow> int \<times> ifs" where
  "ifs_open path flags s =
     (if flags AND 3 \<noteq> 0 then (-1, set_errno 30 s)
      else if flags AND 65536 \<noteq> 0 then (-1, set_errno 20 s)
      else case fs_lookup path s of
        (None, s1) \<Rightarrow> (-1, set_errno 2 s1)
      | (Some (data, sz), s1) \<Rightarrow>
          (case free_slot (fs_open_files s1) 0 of
             None \<Rightarrow> (-1, set_errno 24 s1)
           | Some i \<Rightarrow>
               (FS_FD_BASE + int i,
                s1\<lparr>fs_open_files := (fs_open_files s1)[i := \<lparr>f_data = data, f_size = sz, f_pos = 0, f_used = True\<rparr>]\<rparr>)))"

definition fs_file_of :: "int \<Rightarrow> ifs \<Rightarrow> nat option" where
  "fs_file_of fd s =
     (let i = fd - FS_FD_BASE in
      if i < 0 \<or> i \<ge> int (length (fs_open_files s)) then None
      else if f_used (fs_open_files s ! nat i) then Some (nat i) else None)"

definition ifs_is_fd :: "int \<Rightarrow> ifs \<Rightarrow> bool" where
  "ifs_is_fd fd s \<longleftrightarrow> fs_file_of fd s \<noteq> None"

text \<open>The result, the bytes stored in the caller's buffer, and the state.\<close>

definition ifs_read :: "int \<Rightarrow> nat \<Rightarrow> ifs \<Rightarrow> int \<times> string \<times> ifs" where
  "ifs_read fd n s =
     (case fs_file_of fd s of
        None \<Rightarrow> (-1, [], set_errno 9 s)
      | Some i \<Rightarrow>
          let f = fs_open_files s ! i; left = f_size f - f_pos f; take_n = (if n < left then n else left)
          in (int take_n, take take_n (drop (f_data f + f_pos f) (archive s)),
              s\<lparr>fs_open_files := (fs_open_files s)[i := f\<lparr>f_pos := f_pos f + take_n\<rparr>]\<rparr>))"

definition ifs_lseek :: "int \<Rightarrow> int \<Rightarrow> int \<Rightarrow> ifs \<Rightarrow> int \<times> ifs" where
  "ifs_lseek fd off whence s =
     (case fs_file_of fd s of
        None \<Rightarrow> (-1, set_errno 9 s)
      | Some i \<Rightarrow>
          let f = fs_open_files s ! i;
              base = (if whence = 0 then 0 else if whence = 1 then int (f_pos f) else int (f_size f));
              pos = base + off
          in if pos < 0 then (-1, set_errno 22 s)
             else let pos1 = (if pos > int (f_size f) then int (f_size f) else pos)
                  in (pos1, s\<lparr>fs_open_files := (fs_open_files s)[i := f\<lparr>f_pos := nat pos1\<rparr>]\<rparr>))"

definition ifs_close :: "int \<Rightarrow> ifs \<Rightarrow> int \<times> ifs" where
  "ifs_close fd s =
     (case fs_file_of fd s of
        None \<Rightarrow> (-1, set_errno 9 s)
      | Some i \<Rightarrow> (0, s\<lparr>fs_open_files := (fs_open_files s)[i := (fs_open_files s ! i)\<lparr>f_used := False\<rparr>]\<rparr>))"

text \<open>Where in the archive a mapping starts.\<close>

definition ifs_map :: "int \<Rightarrow> nat \<Rightarrow> ifs \<Rightarrow> nat option" where
  "ifs_map fd off s =
     (case fs_file_of fd s of
        None \<Rightarrow> None
      | Some i \<Rightarrow> let f = fs_open_files s ! i in if off > f_size f then None else Some (f_data f + off))"

section \<open>The archive as a tree\<close>

definition fs_hdr_name :: "string \<Rightarrow> nat \<Rightarrow> string" where
  "fs_hdr_name hdr cap =
     (let k = norm_skip hdr in takeWhile (\<lambda>c. c \<noteq> NUL) (take (min (100 - k) (cap - 1)) (drop k hdr)))"

text \<open>The length of the next component of \<open>name\<close> below \<open>dir\<close>, and whether more follows.\<close>

definition fs_child_of :: "string \<Rightarrow> string \<Rightarrow> (nat \<times> bool) option" where
  "fs_child_of dir name =
     (if dir \<noteq> [] \<and> \<not> (take (length dir) name = dir \<and> length dir < length name \<and> name ! length dir = SLASH) then None
      else let rest = (if dir = [] then name else drop (length dir + 1) name) in
        if rest = [] then None
        else let comp = takeWhile (\<lambda>c. c \<noteq> SLASH) rest in Some (length comp, length comp < length rest))"

definition strip_slashes :: "string \<Rightarrow> string" where
  "strip_slashes name = rev (dropWhile (\<lambda>c. c = SLASH) (rev name))"

definition entry_name :: "string \<Rightarrow> nat \<Rightarrow> string" where
  "entry_name a p = strip_slashes (fs_hdr_name (drop p a) 256)"

definition comp_below :: "string \<Rightarrow> string \<Rightarrow> (nat \<times> bool) option" where
  "comp_below dir name =
     (case fs_child_of dir name of Some (n, d) \<Rightarrow> if n > 0 then Some (n, d) else None | None \<Rightarrow> None)"

function kind_scan :: "string \<Rightarrow> string \<Rightarrow> nat \<Rightarrow> nat \<times> nat option" where
  "kind_scan a dir p =
     (if \<not> tar_live a p then (0, None)
      else let name = entry_name a p in
        if name = dir then (if tar_type a p = CHR ''5'' then (2, None) else (1, Some (tar_size a p)))
        else if comp_below dir name \<noteq> None then (2, None)
        else kind_scan a dir (p + tar_stride (tar_size a p)))"
  by pat_completeness auto
termination
  by (relation "measure (\<lambda>(a, dir, p). length a - p)") (auto simp: tar_live_def tar_stride_def)

declare kind_scan.simps [simp del]

text \<open>0 missing, 1 a regular file with its size, 2 a directory.\<close>

definition ifs_kind :: "string \<Rightarrow> ifs \<Rightarrow> nat \<times> nat option" where
  "ifs_kind path s =
     (let (dirlen, dir) = fs_norm_dir path 256 [] in
      if dirlen = 0 then (2, None) else kind_scan (archive s) dir 0)"

text \<open>Is component \<open>c\<close> below \<open>dir\<close> named by an entry between \<open>q\<close> and \<open>p\<close>?\<close>

definition child_start :: "string \<Rightarrow> nat" where
  "child_start dir = (if dir = [] then 0 else length dir + 1)"

function dup_scan :: "string \<Rightarrow> string \<Rightarrow> string \<Rightarrow> nat \<Rightarrow> nat \<Rightarrow> bool" where
  "dup_scan a dir c q p =
     (if q \<ge> p \<or> \<not> tar_live a q then False
      else let n2 = entry_name a q in
        if (case fs_child_of dir n2 of Some (l, _) \<Rightarrow> l = length c | None \<Rightarrow> False) \<and>
           take (length c) (drop (child_start dir) n2) = c
        then True
        else dup_scan a dir c (q + tar_stride (tar_size a q)) p)"
  by pat_completeness auto
termination
  by (relation "measure (\<lambda>(a, dir, c, q, p). length a - q)") (auto simp: tar_live_def tar_stride_def)

declare dup_scan.simps [simp del]

function dirent_scan :: "string \<Rightarrow> string \<Rightarrow> nat \<Rightarrow> nat \<Rightarrow> nat \<Rightarrow> nat \<Rightarrow> (string \<times> bool) option" where
  "dirent_scan a dir index cap found p =
     (if \<not> tar_live a p then None
      else let name = entry_name a p; next_p = p + tar_stride (tar_size a p) in
        case comp_below dir name of
          None \<Rightarrow> dirent_scan a dir index cap found next_p
        | Some (clen, is_dir) \<Rightarrow>
            if clen \<ge> 256 then dirent_scan a dir index cap found next_p
            else let seen = take clen (drop (child_start dir) name) in
              if dup_scan a dir seen 0 p then dirent_scan a dir index cap found next_p
              else if found = index then Some (take (cap - 1) seen, is_dir)
              else dirent_scan a dir index cap (found + 1) next_p)"
  by pat_completeness auto
termination
  by (relation "measure (\<lambda>(a, dir, i, cap, f, p). length a - p)") (auto simp: tar_live_def tar_stride_def)

declare dirent_scan.simps [simp del]

definition ifs_dirent :: "string \<Rightarrow> nat \<Rightarrow> nat \<Rightarrow> ifs \<Rightarrow> (string \<times> bool) option" where
  "ifs_dirent path index cap s =
     (let (dirlen, dir) = fs_norm_dir path 256 []
      in dirent_scan (archive s) (if dirlen = 0 then [] else dir) index cap 0 0)"

definition ifs_exists :: "string \<Rightarrow> ifs \<Rightarrow> bool \<times> ifs" where
  "ifs_exists path s = (let (r, s1) = fs_lookup path s in (r \<noteq> None, s1))"

definition nurl_initfs_size :: "ifs \<Rightarrow> int" where
  "nurl_initfs_size s = int (length (archive s))"


section \<open>Path folding\<close>

lemma norm_loop_step:
  assumes "dropWhile (\<lambda>c. c = SLASH) p = q" "q \<noteq> []"
  shows "fs_norm_loop cap p out st =
     (let seg = takeWhile (\<lambda>c. c \<noteq> SLASH) q; rest = dropWhile (\<lambda>c. c \<noteq> SLASH) q in
        if seg = [DOT] then fs_norm_loop cap rest out st
        else if seg = [DOT, DOT] then fs_norm_loop cap rest (pop_seg out) True
        else fs_norm_loop cap rest (push_seg cap out seg) True)"
  using assms(2) unfolding fs_norm_loop.simps [of cap p] assms(1) Let_def by simp

lemma norm_loop_end: "dropWhile (\<lambda>c. c = SLASH) p = [] \<Longrightarrow> fs_norm_loop cap p out st = (out, st)"
  unfolding fs_norm_loop.simps [of cap p] Let_def by simp

text \<open>With room in the buffer, the loop folds the components.\<close>

lemma norm_loop_fold:
  assumes "\<forall>s \<in> set ss. seg_ok s" and "ss = [] \<or> p = [] \<or> hd p = SLASH" and "length (join ss) + length p < cap"
  shows "fst (fs_norm_loop cap p (join ss) st) = join (foldl fold_step ss (segments p)) \<and>
    (snd (fs_norm_loop cap p (join ss) st) \<longleftrightarrow> st \<or> (\<exists>s \<in> set (segments p). s \<noteq> [DOT]))"
  using assms
proof (induction p arbitrary: ss st rule: segments.induct)
  case (1 p)
  define q where "q = dropWhile (\<lambda>c. c = SLASH) p"
  show ?case
  proof (cases "q = []")
    case True
    then show ?thesis using norm_loop_end segments_none by (simp add: q_def del: dropWhile_eq_Nil_conv)
  next
    case False
    define seg where "seg = takeWhile (\<lambda>c. c \<noteq> SLASH) q"
    define rest where "rest = dropWhile (\<lambda>c. c \<noteq> SLASH) q"
    have sp: "segments p = seg # segments rest"
      using segments_step [OF q_def [symmetric] False] by (simp add: seg_def rest_def)
    have ok: "seg_ok seg" using segments_ok [of seg p] sp by simp
    have rh: "rest = [] \<or> hd rest = SLASH" unfolding rest_def using hd_dropWhile by blast
    have lq: "length seg + length rest = length q" unfolding seg_def rest_def by (metis length_append takeWhile_dropWhile_id)
    have lp: "length q \<le> length p" unfolding q_def by (rule length_dropWhile_le)
    have lp1: "length q < length p" if ne: "ss \<noteq> []"
    proof -
      have "p \<noteq> []" using False by (auto simp: q_def)
      then obtain r where r: "p = SLASH # r" using 1(3) ne by (cases p) auto
      then have "q = dropWhile (\<lambda>c. c = SLASH) r" unfolding q_def by simp
      then show ?thesis using length_dropWhile_le [of "\<lambda>c. c = SLASH" r] r by simp
    qed
    have jl: "length (join (butlast ss)) \<le> length (join ss)" by (cases ss rule: rev_cases) (auto simp: join_snoc)
    have push: "length (join (ss @ [seg])) + length rest < cap"
      using 1(4) lq lp lp1 by (cases "ss = []") (auto simp: join_snoc)
    have IH: "fst (fs_norm_loop cap rest (join ts) st') = join (foldl fold_step ts (segments rest)) \<and>
        (snd (fs_norm_loop cap rest (join ts) st') \<longleftrightarrow> st' \<or> (\<exists>s \<in> set (segments rest). s \<noteq> [DOT]))"
      if "\<forall>s \<in> set ts. seg_ok s" "length (join ts) + length rest < cap" for ts st'
      using 1(1) [OF q_def False, folded rest_def, OF that(1) _ that(2)] rh by blast
    note step = norm_loop_step [OF q_def [symmetric] False, of cap "join ss" st, folded seg_def rest_def, unfolded Let_def]
    consider "seg = [DOT]" | "seg = [DOT, DOT]" | "seg \<noteq> [DOT]" "seg \<noteq> [DOT, DOT]" by blast
    then show ?thesis
    proof cases
      case 1
      then show ?thesis using IH [of ss st] "1.prems" lq lp by (simp add: step sp fold_step_dot)
    next
      case 2
      have "\<forall>s \<in> set (butlast ss). seg_ok s" using "1.prems"(1) by (auto dest: in_set_butlastD)
      then show ?thesis
        using 2 IH [of "butlast ss" True] "1.prems" jl lq lp by (simp add: step sp fold_step_dot pop_join)
    next
      case 3
      have "\<forall>s \<in> set (ss @ [seg]). seg_ok s" using "1.prems"(1) ok by auto
      then show ?thesis
        using 3 IH [of "ss @ [seg]" True] push push_join [OF "1.prems"(1), of seg cap] by (simp add: step sp fold_step_dot)
    qed
  qed
qed

lemma norm_skip_le: "norm_skip p \<le> length p"
  by (auto simp: norm_skip_def split: list.split)

lemma segments_norm: "fold_segs (segments (fs_norm p)) = fold_segs (segments p)"
proof -
  have "norm_skip p = 2 \<and> (\<exists>r. p = DOT # SLASH # r) \<or> norm_skip p = 1 \<and> (\<exists>r. p = SLASH # r) \<or> norm_skip p = 0"
    unfolding norm_skip_def by (cases p; cases "tl p") auto
  then consider (d) r where "p = DOT # SLASH # r" | (s) r where "p = SLASH # r" | (n) "fs_norm p = p"
    unfolding fs_norm_def by auto
  then show ?thesis
  proof cases
    case d
    have q: "dropWhile (\<lambda>c. c = SLASH) p = DOT # SLASH # r" using d by simp
    have "segments p = [DOT] # segments (SLASH # r)" using segments_step [OF q] by simp
    then show ?thesis using d by (simp add: fs_norm_def norm_skip_def segments_slash fold_segs_def fold_step_def)
  next
    case s
    then show ?thesis by (cases r) (auto simp: fs_norm_def norm_skip_def segments_slash)
  qed simp
qed

lemma fold_dots: "\<forall>s \<in> set ss. s = [DOT] \<Longrightarrow> foldl fold_step st ss = st"
  by (induction ss) (auto simp: fold_step_def)

lemma fs_norm_dir_fold:
  assumes "length path < cap"
  shows "fst (fs_norm_dir path cap buf) = length (join (fold_segs (segments path)))"
    and "fold_segs (segments path) \<noteq> [] \<Longrightarrow> snd (fs_norm_dir path cap buf) = join (fold_segs (segments path))"
proof -
  have b: "length (join []) + length (fs_norm path) < cap" using assms by (simp add: fs_norm_def)
  have l: "fst (fs_norm_loop cap (fs_norm path) [] False) = join (fold_segs (segments path)) \<and>
      (snd (fs_norm_loop cap (fs_norm path) [] False) \<longleftrightarrow> (\<exists>s \<in> set (segments (fs_norm path)). s \<noteq> [DOT]))"
    using norm_loop_fold [OF _ _ b, of False] segments_norm [of path] by (simp add: fold_segs_def)
  show "fst (fs_norm_dir path cap buf) = length (join (fold_segs (segments path)))"
    using l by (simp add: fs_norm_dir_def case_prod_beta)
  assume ne: "fold_segs (segments path) \<noteq> []"
  have "\<exists>s \<in> set (segments (fs_norm path)). s \<noteq> [DOT]"
  proof (rule ccontr)
    assume "\<not> ?thesis"
    then have "foldl fold_step [] (segments (fs_norm path)) = []" by (intro fold_dots) simp
    then show False using ne segments_norm [of path] by (simp add: fold_segs_def)
  qed
  then show "snd (fs_norm_dir path cap buf) = join (fold_segs (segments path))"
    using l by (simp add: fs_norm_dir_def case_prod_beta)
qed


section \<open>Archives\<close>

text \<open>What \<open>tar cf\<close> writes: a header with the stored name, the length in eleven octal digits and the
  type of a regular file; the data, filled up to whole blocks; at the end, blocks of zeros.\<close>

fun oct :: "nat \<Rightarrow> nat \<Rightarrow> string" where
  "oct 0 n = []"
| "oct (Suc k) n = oct k (n div 8) @ [char_of (48 + n mod 8)]"

definition tar_header :: "string \<Rightarrow> nat \<Rightarrow> string" where
  "tar_header h n = h @ replicate (100 - length h) NUL @ replicate 24 NUL @ oct 11 n @ [NUL] @ replicate 20 NUL @
     [CHR ''0''] @ replicate 355 NUL"

definition tar_entry :: "string \<times> string \<Rightarrow> string" where
  "tar_entry e = tar_header (fst e) (length (snd e)) @ snd e @ replicate ((length (snd e) + 511) div 512 * 512 - length (snd e)) NUL"

definition tar_pack :: "(string \<times> string) list \<Rightarrow> string" where
  "tar_pack fs = concat (map tar_entry fs) @ replicate 1024 NUL"

definition tar_fits :: "string \<times> string \<Rightarrow> bool" where
  "tar_fits e \<longleftrightarrow> fst e \<noteq> [] \<and> length (fst e) \<le> 100 \<and> NUL \<notin> set (fst e) \<and> length (snd e) < 8 ^ 11"

lemma streq_iff:
  "n \<le> length h \<Longrightarrow> NUL \<notin> set w \<Longrightarrow> fs_streq_n h n w \<longleftrightarrow> takeWhile (\<lambda>c. c \<noteq> NUL) (take n h) = w"
proof (induction h n w rule: fs_streq_n.induct)
  case (2 h n w)
  obtain c h' where h: "h = c # h'" using 2(2) by (cases h) auto
  show ?case using 2 h by (cases w) (auto simp: Let_def)
qed auto

lemma length_oct [simp]: "length (oct k n) = k"
  by (induction k n rule: oct.induct) auto

lemma octal_append:
  "(\<forall>c \<in> set xs. 48 \<le> (of_char c :: nat) \<and> (of_char c :: nat) \<le> 55) \<Longrightarrow>
   tar_octal (xs @ ys) v = tar_octal ys (tar_octal xs v)"
  by (induction xs v rule: tar_octal.induct) auto

lemma oct_digits: "c \<in> set (oct k n) \<Longrightarrow> 48 \<le> (of_char c :: nat) \<and> (of_char c :: nat) \<le> 55"
proof (induction k n rule: oct.induct)
  case (2 k n)
  have "(48 + n mod 8) mod 256 = 48 + n mod 8" "n mod 8 < 8" by auto
  with 2 show ?case by auto
qed simp

lemma octal_oct: "n < 8 ^ k \<Longrightarrow> tar_octal (oct k n) v = v * 8 ^ k + n"
proof (induction k n arbitrary: v rule: oct.induct)
  case (2 k n)
  have n: "n div 8 < 8 ^ k" using 2(2) by (simp add: less_mult_imp_div_less mult.commute)
  have "n mod 8 < 8" by simp
  then have d: "(48 + n mod 8) mod 256 = 48 + n mod 8" "\<not> 7 < n mod 8" by simp_all
  have "tar_octal (oct (Suc k) n) v = tar_octal [char_of (48 + n mod 8)] (v * 8 ^ k + n div 8)"
    using octal_append [of "oct k (n div 8)"] oct_digits 2(1) [OF n] by simp
  also have "\<dots> = (v * 8 ^ k + n div 8) * 8 + n mod 8" using d by simp
  also have "\<dots> = v * 8 ^ Suc k + n" by (simp add: algebra_simps)
  finally show ?case .
qed simp

lemma length_header: "length h \<le> 100 \<Longrightarrow> length (tar_header h n) = 512"
  by (simp add: tar_header_def)

lemma roundup_ge: "n \<le> (n + 511) div 512 * (512 :: nat)"
  using div_mult_mod_eq [of "n + 511" 512] mod_less_divisor [of 512 "n + 511"] by linarith

lemma length_entry: "tar_fits e \<Longrightarrow> length (tar_entry e) = tar_stride (length (snd e))"
proof -
  assume "tar_fits e"
  moreover have "length (snd e) \<le> (length (snd e) + 511) div 512 * 512" by (rule roundup_ge)
  ultimately show ?thesis by (simp add: tar_entry_def length_header tar_fits_def tar_stride_def)
qed

lemma norm_skip_header: "h \<noteq> [] \<Longrightarrow> length h \<le> 100 \<Longrightarrow> norm_skip (tar_header h n @ xs) = norm_skip h"
proof (cases "tl h")
  case Nil
  assume "h \<noteq> []" "length h \<le> 100"
  then obtain c where h: "h = [c]" using Nil by (cases h) auto
  have "replicate (100 - length h) NUL = NUL # replicate 98 NUL" using h replicate_Suc [of 98 NUL] by simp
  then show ?thesis using h by (simp add: tar_header_def norm_skip_def)
next
  case (Cons d r)
  then obtain c where "h = c # d # r" by (cases h) auto
  then show ?thesis by (simp add: tar_header_def norm_skip_def)
qed

text \<open>What a walk sees at an entry.\<close>

lemma at_entry:
  assumes e: "tar_fits e" and a: "drop p a = tar_entry e @ rest" and p: "p \<le> length a"
  shows "tar_live a p" and "tar_size a p = length (snd e)" and "tar_type a p = CHR ''0''"
    and "drop (p + tar_stride (length (snd e))) a = rest" and "p + 512 + length (snd e) \<le> length a"
    and "take (length (snd e)) (drop (p + 512) a) = snd e"
    and "NUL \<notin> set want \<Longrightarrow> fs_streq_n (drop (norm_skip (drop p a)) (drop p a)) (100 - norm_skip (drop p a)) want \<longleftrightarrow> want = fs_norm (fst e)"
    and "entry_name a p = strip_slashes (fs_norm (fst e))"
proof -
  obtain h d where hd: "e = (h, d)" by (cases e)
  have h: "h \<noteq> []" "length h \<le> 100" "NUL \<notin> set h" "length d < 8 ^ 11" using e hd by (auto simp: tar_fits_def)
  have la: "length a = p + length (tar_entry e @ rest)" using a p by (metis le_add_diff_inverse length_drop)
  have lh: "length (tar_header h (length d)) = 512" using h by (simp add: length_header)
  have at: "a ! (p + i) = (tar_entry e @ rest) ! i" for i
    using a p by (metis nth_drop)
  have dr: "drop (p + i) a = drop i (tar_entry e @ rest)" for i using a by (metis add.commute drop_drop)
  have hdr: "tar_entry e @ rest = tar_header h (length d) @ d @ replicate ((length d + 511) div 512 * 512 - length d) NUL @ rest"
    by (simp add: tar_entry_def hd)
  have len: "length (tar_entry e) = tar_stride (length d)" using length_entry [OF e] hd by simp
  have oct: "take 12 (drop 124 (tar_entry e @ rest)) = oct 11 (length d) @ [NUL]"
    using h by (simp add: hdr tar_header_def)
  show sz: "tar_size a p = length (snd e)"
  proof -
    have "tar_size a p = tar_octal (oct 11 (length d) @ [NUL]) 0" by (simp only: tar_size_def dr oct)
    also have "\<dots> = length d"
      using octal_append [of "oct 11 (length d)" "[NUL]"] oct_digits octal_oct [OF h(4), of 0] by simp
    finally show ?thesis by (simp add: hd)
  qed
  have "(tar_entry e @ rest) ! 156 = hd (drop 156 (tar_entry e @ rest))"
    using hd_drop_conv_nth [of 156 "tar_entry e @ rest"] lh hdr by simp
  also have "\<dots> = CHR ''0''" using h by (simp add: hdr tar_header_def)
  finally have "(tar_entry e @ rest) ! 156 = CHR ''0''" .
  then show "tar_type a p = CHR ''0''" using at [of 156] by (simp add: tar_type_def)
  show dp: "drop (p + tar_stride (length (snd e))) a = rest" using dr len hd by simp
  show ln: "p + 512 + length (snd e) \<le> length a" using la hdr lh hd by simp
  have "a ! p = hd h" using at [of 0] h by (simp add: hdr tar_header_def hd_conv_nth nth_append)
  moreover have "hd h \<noteq> NUL" using h by (metis hd_in_set)
  ultimately show "tar_live a p" using sz ln by (auto simp: tar_live_def)
  show "take (length (snd e)) (drop (p + 512) a) = snd e" using dr [of 512] hdr lh hd by simp
  have k: "norm_skip (drop p a) = norm_skip h" unfolding a using norm_skip_header [of h] h hdr by simp
  have kl: "norm_skip h \<le> length h" by (rule norm_skip_le)
  have field: "takeWhile (\<lambda>c. c \<noteq> NUL) (take (100 - norm_skip h) (drop (norm_skip h) (drop p a))) = fs_norm h"
  proof -
    have "take (100 - norm_skip h) (drop (norm_skip h) (drop p a)) = drop (norm_skip h) h @ replicate (100 - length h) NUL"
      unfolding a hdr using kl h by (simp add: tar_header_def)
    moreover have "takeWhile (\<lambda>c. c \<noteq> NUL) (drop (norm_skip h) h @ replicate m NUL) = drop (norm_skip h) h" for m
      using h(3) by (cases m) (auto simp: takeWhile_append dest: in_set_dropD)
    ultimately show ?thesis by (simp add: fs_norm_def)
  qed
  have "min (100 - norm_skip h) (256 - 1) = 100 - norm_skip h" by simp
  then show "entry_name a p = strip_slashes (fs_norm (fst e))"
    using field unfolding entry_name_def fs_hdr_name_def Let_def k hd by simp
  have "100 - norm_skip h \<le> length (drop (norm_skip h) (drop p a))" unfolding a hdr using lh kl h by simp
  then show "fs_streq_n (drop (norm_skip (drop p a)) (drop p a)) (100 - norm_skip (drop p a)) want \<longleftrightarrow> want = fs_norm (fst e)"
    if "NUL \<notin> set want" using streq_iff [OF _ that] field that unfolding k hd by auto
qed


lemma at_end:
  assumes "drop p a = replicate 1024 NUL" "p \<le> length a"
  shows "\<not> tar_live a p"
proof -
  have "length a - p = 1024" using assms(1) by (metis length_drop length_replicate)
  moreover have "a ! p = NUL" using assms calculation by (metis add.right_neutral nth_drop nth_replicate zero_less_numeral)
  ultimately show ?thesis by (simp add: tar_live_def)
qed

definition tar_names :: "(string \<times> string) list \<Rightarrow> (string \<times> string) list" where
  "tar_names fs = map (\<lambda>e. (fs_norm (fst e), snd e)) fs"

lemma scan_pack:
  assumes "\<forall>e \<in> set fs. tar_fits e" and "drop p a = tar_pack fs" and "p \<le> length a" and "NUL \<notin> set want"
  shows "case map_of (tar_names fs) want of
      None \<Rightarrow> fs_scan a want p = None
    | Some d \<Rightarrow> \<exists>off. fs_scan a want p = Some (off, length d) \<and> off + length d \<le> length a \<and> take (length d) (drop off a) = d"
  using assms
proof (induction fs arbitrary: p)
  case Nil
  then show ?case using at_end [of p a] by (simp add: tar_pack_def tar_names_def fs_scan.simps [of a want p])
next
  case (Cons e fs)
  have e: "tar_fits e" and d: "drop p a = tar_entry e @ tar_pack fs"
    using Cons.prems by (simp_all add: tar_pack_def)
  note at = at_entry [OF e d Cons.prems(3)]
  show ?case
  proof (cases "want = fs_norm (fst e)")
    case True
    then have "fs_scan a want p = Some (p + 512, length (snd e))"
      using at(1,2,3,5) at(7) [OF Cons.prems(4)] by (subst fs_scan.simps) (simp add: Let_def)
    then show ?thesis using True at(5,6) by (simp add: tar_names_def)
  next
    case False
    let ?p = "p + tar_stride (length (snd e))"
    have sc: "fs_scan a want p = fs_scan a want ?p"
      using False at(1,2,3) at(7) [OF Cons.prems(4)] by (subst fs_scan.simps) (simp add: Let_def)
    have "?p \<le> length a"
    proof -
      have "length (tar_entry e @ tar_pack fs) = length a - p" using d by (metis length_drop)
      then show ?thesis using length_entry [OF e] Cons.prems(3) by simp
    qed
    have "map_of (tar_names (e # fs)) want = map_of (tar_names fs) want" using False by (simp add: tar_names_def)
    then show ?thesis unfolding sc using Cons.IH [of ?p] Cons.prems at(4) \<open>?p \<le> length a\<close> by simp
  qed
qed

section \<open>Open files\<close>

lemma free_slot_some: "free_slot fs i = Some k \<Longrightarrow> i \<le> k \<and> k < i + length fs \<and> \<not> f_used (fs ! (k - i))"
proof (induction fs i rule: free_slot.induct)
  case (2 f fs i)
  show ?case
  proof (cases "f_used f")
    case True
    then have "i + 1 \<le> k \<and> k < i + 1 + length fs \<and> \<not> f_used (fs ! (k - (i + 1)))" using 2 by simp
    then show ?thesis by (auto simp: nth_Cons' Suc_diff_Suc)
  next
    case False
    then show ?thesis using 2 by simp
  qed
qed simp

lemma free_slot_none: "free_slot fs i = None \<longleftrightarrow> (\<forall>f \<in> set fs. f_used f)"
  by (induction fs i rule: free_slot.induct) auto

lemma file_of_upd:
  assumes "i < length (fs_open_files s)" "f_used f"
  shows "fs_file_of (FS_FD_BASE + int i) (s\<lparr>fs_open_files := (fs_open_files s)[i := f]\<rparr>) = Some i"
  using assms by (simp add: fs_file_of_def)

lemma read_open:
  assumes "i < length (fs_open_files s)" "f_used (fs_open_files s ! i)"
  shows "ifs_read (FS_FD_BASE + int i) n s =
    (let f = fs_open_files s ! i; m = min n (f_size f - f_pos f) in
     (int m, take m (drop (f_data f + f_pos f) (archive s)),
      s\<lparr>fs_open_files := (fs_open_files s)[i := f\<lparr>f_pos := f_pos f + m\<rparr>]\<rparr>))"
  using assms by (simp add: ifs_read_def fs_file_of_def Let_def min_def)

text \<open>Two reads in a row give what one read of both lengths gives.\<close>

lemma read_twice:
  assumes i: "i < length (fs_open_files s)" "fs_open_files s ! i = \<lparr>f_data = off, f_size = length d, f_pos = 0, f_used = True\<rparr>"
    and d: "take (length d) (drop off (archive s)) = d"
  shows "fst (snd (ifs_read (FS_FD_BASE + int i) n s)) @
    fst (snd (ifs_read (FS_FD_BASE + int i) m (snd (snd (ifs_read (FS_FD_BASE + int i) n s))))) = take (n + m) d"
    and "fst (ifs_read (FS_FD_BASE + int i) n s) = int (min n (length d))"
proof -
  let ?t = "snd (snd (ifs_read (FS_FD_BASE + int i) n s))"
  let ?k = "min n (length d)"
  have t: "?t = s\<lparr>fs_open_files := (fs_open_files s)[i := \<lparr>f_data = off, f_size = length d, f_pos = ?k, f_used = True\<rparr>]\<rparr>"
    using i by (simp add: read_open Let_def)
  have r1: "fst (snd (ifs_read (FS_FD_BASE + int i) n s)) = take n d"
  proof -
    have "fst (snd (ifs_read (FS_FD_BASE + int i) n s)) = take ?k (drop off (archive s))"
      using i by (simp add: read_open Let_def)
    also have "\<dots> = take n d" by (metis d take_take)
    finally show ?thesis .
  qed
  have "fst (snd (ifs_read (FS_FD_BASE + int i) m ?t)) = take (min m (length d - ?k)) (drop (off + ?k) (archive s))"
    unfolding t using i by (simp add: read_open Let_def)
  also have "\<dots> = take m (drop ?k d)"
  proof -
    have "take (length d - ?k) (drop ?k (drop off (archive s))) = drop ?k d" by (metis d drop_take)
    then show ?thesis by (metis add.commute drop_drop take_take)
  qed
  also have "\<dots> = take m (drop n d)" by (simp add: min_def)
  finally show "fst (snd (ifs_read (FS_FD_BASE + int i) n s)) @ fst (snd (ifs_read (FS_FD_BASE + int i) m ?t)) = take (n + m) d"
    unfolding r1 by (simp add: take_add)
  show "fst (ifs_read (FS_FD_BASE + int i) n s) = int ?k" using i by (simp add: read_open Let_def)
qed


text \<open>Every open file lies in the archive, and its position in the file.\<close>

definition file_ok :: "string \<Rightarrow> fs_file \<Rightarrow> bool" where
  "file_ok a f \<longleftrightarrow> f_used f \<longrightarrow> f_pos f \<le> f_size f \<and> f_data f + f_size f \<le> length a"

definition ifs_ok :: "ifs \<Rightarrow> bool" where
  "ifs_ok s \<longleftrightarrow> length (fs_open_files s) = FS_MAX_OPEN \<and> (\<forall>f \<in> set (fs_open_files s). file_ok (archive s) f)"

inductive ifs_step :: "ifs \<Rightarrow> ifs \<Rightarrow> bool" where
  "open": "ifs_step s (snd (ifs_open path flags s))"
| read: "ifs_step s (snd (snd (ifs_read fd n s)))"
| lseek: "ifs_step s (snd (ifs_lseek fd off whence s))"
| close: "ifs_step s (snd (ifs_close fd s))"
| exists: "ifs_step s (snd (ifs_exists path s))"

lemma scan_inside: "fs_scan a want p = Some (off, sz) \<Longrightarrow> off + sz \<le> length a"
proof (induction a want p rule: fs_scan.induct)
  case (1 a want p)
  then show ?case by (subst (asm) (2) fs_scan.simps) (auto simp: Let_def split: if_splits)
qed

lemma file_of_some:
  assumes "fs_file_of fd s = Some i"
  shows "i < length (fs_open_files s)" "f_used (fs_open_files s ! i)" "fd = FS_FD_BASE + int i"
  using assms by (auto simp: fs_file_of_def Let_def split: if_splits)

lemma ok_update:
  assumes "ifs_ok s" "file_ok (archive s) f"
  shows "ifs_ok (s\<lparr>fs_open_files := (fs_open_files s)[i := f]\<rparr>)"
  using assms set_update_subset_insert [of "fs_open_files s" i f] by (auto simp: ifs_ok_def)

lemma ok_errno [simp]: "ifs_ok (set_errno e s) = ifs_ok s" "ifs_ok (s\<lparr>folded := w\<rparr>) = ifs_ok s"
  "archive (set_errno e s) = archive s"
  by (simp_all add: ifs_ok_def set_errno_def)

lemma ok_open: "ifs_ok s \<Longrightarrow> ifs_ok (snd (ifs_open path flags s))"
  by (auto simp: ifs_open_def fs_lookup_def Let_def file_ok_def split: option.split
      intro!: ok_update [of "s\<lparr>folded := w\<rparr>" for w, simplified] dest: scan_inside)

lemma ok_file:
  assumes "ifs_ok s" "fs_file_of fd s = Some i"
  shows "f_pos (fs_open_files s ! i) \<le> f_size (fs_open_files s ! i)"
    "f_data (fs_open_files s ! i) + f_size (fs_open_files s ! i) \<le> length (archive s)"
  using assms(1) file_of_some [OF assms(2)] nth_mem [of i "fs_open_files s"] by (auto simp: ifs_ok_def file_ok_def)

lemma ok_read: "ifs_ok s \<Longrightarrow> ifs_ok (snd (snd (ifs_read fd n s)))"
  using ok_file [of s fd]
  by (auto simp: ifs_read_def Let_def file_ok_def split: option.split intro!: ok_update)

lemma ok_lseek: "ifs_ok s \<Longrightarrow> ifs_ok (snd (ifs_lseek fd off whence s))"
  using ok_file [of s fd]
  by (auto simp: ifs_lseek_def Let_def file_ok_def nat_le_iff split: option.split intro!: ok_update)

lemma ok_close: "ifs_ok s \<Longrightarrow> ifs_ok (snd (ifs_close fd s))"
  by (auto simp: ifs_close_def file_ok_def split: option.split intro!: ok_update)

lemma ok_step: "ifs_step s t \<Longrightarrow> ifs_ok s \<Longrightarrow> ifs_ok t"
proof (induction rule: ifs_step.induct)
  case (exists s path)
  then show ?case by (simp add: ifs_exists_def fs_lookup_def Let_def)
qed (simp_all add: ok_open ok_read ok_lseek ok_close)

lemma ok_boot: "ifs_ok (ifs_boot a)"
  by (simp add: ifs_boot_def ifs_ok_def file_ok_def FS_MAX_OPEN_def)

section \<open>Listing\<close>

function tar_offs :: "string \<Rightarrow> nat \<Rightarrow> nat list" where
  "tar_offs a p = (if tar_live a p then p # tar_offs a (p + tar_stride (tar_size a p)) else [])"
  by pat_completeness auto
termination
  by (relation "measure (\<lambda>(a, p). length a - p)") (auto simp: tar_live_def tar_stride_def)

declare tar_offs.simps [simp del]

text \<open>The component of an entry below a directory.\<close>

definition child :: "string \<Rightarrow> string \<Rightarrow> nat \<Rightarrow> string option" where
  "child a dir p =
     (case comp_below dir (entry_name a p) of
        Some (n, _) \<Rightarrow> if n < 256 then Some (take n (drop (child_start dir) (entry_name a p))) else None
      | None \<Rightarrow> None)"

definition children :: "string \<Rightarrow> string \<Rightarrow> nat list \<Rightarrow> string list" where
  "children a dir ps = List.map_filter (child a dir) ps"

text \<open>Without repetitions, each where it comes first.\<close>

definition add_new :: "string list \<Rightarrow> string \<Rightarrow> string list" where
  "add_new acc x = (if x \<in> set acc then acc else acc @ [x])"

definition firsts :: "string list \<Rightarrow> string list" where
  "firsts xs = foldl add_new [] xs"

lemma set_firsts_gen: "set (foldl add_new acc xs) = set acc \<union> set xs"
  by (induction xs arbitrary: acc) (auto simp: add_new_def)

lemma distinct_firsts_gen: "distinct acc \<Longrightarrow> distinct (foldl add_new acc xs)"
  by (induction xs arbitrary: acc) (auto simp: add_new_def)

lemma firsts_extends: "\<exists>zs. foldl add_new acc xs = acc @ zs"
proof (induction xs arbitrary: acc)
  case (Cons x xs)
  then show ?case by (cases "x \<in> set acc") (auto simp: add_new_def, metis append.assoc)
qed simp

lemma child_of_fits:
  assumes "fs_child_of dir n2 = Some (l, d)"
  shows "length (take l (drop (child_start dir) n2)) = l"
proof -
  have "l = length (takeWhile (\<lambda>c. c \<noteq> SLASH) (drop (child_start dir) n2))"
    using assms by (auto simp: fs_child_of_def child_start_def Let_def split: if_splits)
  then have "l \<le> length (drop (child_start dir) n2)" using length_takeWhile_le by metis
  then show ?thesis by simp
qed

lemma dup_match:
  assumes "c \<noteq> []" "length c < 256"
  shows "(case fs_child_of dir (entry_name a q) of Some (l, _) \<Rightarrow> l = length c | None \<Rightarrow> False) \<and>
      take (length c) (drop (child_start dir) (entry_name a q)) = c \<longleftrightarrow> child a dir q = Some c"
proof (cases "fs_child_of dir (entry_name a q)")
  case (Some x)
  obtain l d where x: "x = (l, d)" by (cases x)
  have f: "length (take l (drop (child_start dir) (entry_name a q))) = l" using child_of_fits Some x by blast
  show ?thesis
  proof (cases "l = length c")
    case True
    then show ?thesis using Some x assms by (auto simp: child_def comp_below_def)
  next
    case False
    then have "take l (drop (child_start dir) (entry_name a q)) \<noteq> c" using f by metis
    then show ?thesis using Some x False by (auto simp: child_def comp_below_def)
  qed
qed (simp add: child_def comp_below_def)

lemma children_simps [simp]:
  "children a dir [] = []"
  "children a dir (p # ps) = (case child a dir p of None \<Rightarrow> children a dir ps | Some c \<Rightarrow> c # children a dir ps)"
  "children a dir (ps @ qs) = children a dir ps @ children a dir qs"
  by (simp_all add: children_def map_filter_def split: option.split)

lemma dup_iff:
  "c \<noteq> [] \<Longrightarrow> length c < 256 \<Longrightarrow>
   dup_scan a dir c q p \<longleftrightarrow> c \<in> set (children a dir (takeWhile (\<lambda>r. r < p) (tar_offs a q)))"
proof (induction a dir c q p rule: dup_scan.induct)
  case (1 a dir c q p)
  show ?case
  proof (cases "p \<le> q \<or> \<not> tar_live a q")
    case True
    then have "takeWhile (\<lambda>r. r < p) (tar_offs a q) = []" by (subst tar_offs.simps) auto
    then show ?thesis using True by (subst dup_scan.simps) simp
  next
    case False
    let ?q = "q + tar_stride (tar_size a q)"
    have t: "takeWhile (\<lambda>r. r < p) (tar_offs a q) = q # takeWhile (\<lambda>r. r < p) (tar_offs a ?q)"
      using False by (subst tar_offs.simps) simp
    have d: "dup_scan a dir c q p \<longleftrightarrow> child a dir q = Some c \<or> dup_scan a dir c ?q p"
      using False dup_match [OF 1(2,3)] by (subst dup_scan.simps) (simp add: Let_def)
    show ?thesis
    proof (cases "child a dir q = Some c")
      case True
      then show ?thesis using d t by simp
    next
      case neq: False
      have "dup_scan a dir c ?q p \<longleftrightarrow> c \<in> set (children a dir (takeWhile (\<lambda>r. r < p) (tar_offs a ?q)))"
        using 1(1) [OF _ refl _ 1(2,3)] False neq dup_match [OF 1(2,3)] by blast
      then show ?thesis using d t neq by (auto split: option.split)
    qed
  qed
qed

lemma offs_above: "r \<in> set (tar_offs a p) \<Longrightarrow> p \<le> r"
proof (induction a p rule: tar_offs.induct)
  case (1 a p)
  then show ?case by (subst (asm) (2) tar_offs.simps) (auto split: if_splits)
qed

lemma dirent_step:
  assumes "tar_live a p" "q = p + tar_stride (tar_size a p)"
  shows "map_option fst (dirent_scan a dir index cap found p) =
    (case child a dir p of
       None \<Rightarrow> map_option fst (dirent_scan a dir index cap found q)
     | Some c \<Rightarrow>
         if c \<in> set (children a dir (takeWhile (\<lambda>r. r < p) (tar_offs a 0))) then map_option fst (dirent_scan a dir index cap found q)
         else if found = index then Some (take (cap - 1) c)
         else map_option fst (dirent_scan a dir index cap (found + 1) q))"
proof (cases "comp_below dir (entry_name a p)")
  case None
  then show ?thesis using assms by (subst dirent_scan.simps) (simp add: Let_def child_def)
next
  case (Some x)
  obtain n d where x: "x = (n, d)" by (cases x)
  define c where "c = take n (drop (child_start dir) (entry_name a p))"
  have n: "n > 0" "length c = n"
    using Some x child_of_fits [of dir "entry_name a p" n d]
    by (auto simp: comp_below_def c_def split: option.splits if_splits)
  show ?thesis
  proof (cases "n < 256")
    case True
    have "dup_scan a dir c 0 p \<longleftrightarrow> c \<in> set (children a dir (takeWhile (\<lambda>r. r < p) (tar_offs a 0)))"
      by (rule dup_iff) (use n True in auto)
    then show ?thesis
      using assms Some x True by (subst dirent_scan.simps) (simp add: Let_def child_def c_def)
  next
    case False
    then show ?thesis using assms Some x by (subst dirent_scan.simps) (simp add: Let_def child_def)
  qed
qed

lemma dirent_lists:
  assumes "tar_offs a 0 = pre @ tar_offs a p" "\<forall>r \<in> set pre. r < p" "found = length (firsts (children a dir pre))" "found \<le> index"
  shows "map_option fst (dirent_scan a dir index cap found p) =
    (let xs = firsts (children a dir (tar_offs a 0)) in
     if index < length xs then Some (take (cap - 1) (xs ! index)) else None)"
  using assms
proof (induction "tar_offs a p" arbitrary: p pre found)
  case Nil
  then have "\<not> tar_live a p" by (metis list.distinct(1) tar_offs.simps)
  then have "dirent_scan a dir index cap found p = None" by (simp add: dirent_scan.simps [of a dir index cap found p])
  then show ?case using Nil by simp
next
  case (Cons p' ps)
  have live: "tar_live a p" using Cons.hyps(2) by (metis list.distinct(1) tar_offs.simps)
  define q where "q = p + tar_stride (tar_size a p)"
  have tp: "tar_offs a p = p # tar_offs a q" using live by (simp add: tar_offs.simps [of a p] q_def)
  then have ps: "ps = tar_offs a q" using Cons.hyps(2) by simp
  have pre: "tar_offs a 0 = (pre @ [p]) @ tar_offs a q" "\<forall>r \<in> set (pre @ [p]). r < q"
    using Cons.prems(1,2) tp by (auto simp: q_def tar_stride_def)
  have before: "takeWhile (\<lambda>r. r < p) (tar_offs a 0) = pre"
    using Cons.prems(1,2) tp by (simp add: takeWhile_append)
  define xs where "xs = firsts (children a dir pre)"
  have in_xs: "c \<in> set (children a dir pre) \<longleftrightarrow> c \<in> set xs" for c
    using set_firsts_gen [of "[]"] by (simp add: xs_def firsts_def)
  note IH = Cons.hyps(1) [OF ps pre]
  note step = dirent_step [OF live q_def, of dir index cap found, unfolded before in_xs]
  have next_f: "firsts (children a dir (pre @ [p])) = (case child a dir p of None \<Rightarrow> xs | Some c \<Rightarrow> add_new xs c)"
    by (simp add: xs_def firsts_def split: option.split)
  show ?case
  proof (cases "child a dir p")
    case None
    then show ?thesis unfolding step using IH [of found] next_f Cons.prems(3,4) by (simp add: xs_def)
  next
    case (Some c)
    show ?thesis
    proof (cases "c \<in> set xs")
      case True
      then show ?thesis unfolding step using IH [of found] next_f Some Cons.prems(3,4) by (simp add: add_new_def xs_def)
    next
      case False
      then have nx: "firsts (children a dir (pre @ [p])) = xs @ [c]" using next_f Some by (simp add: add_new_def)
      obtain zs where z: "firsts (children a dir (tar_offs a 0)) = (xs @ [c]) @ zs"
        using firsts_extends [of "xs @ [c]" "children a dir (tar_offs a q)"] nx Some unfolding pre(1)
        by (auto simp: firsts_def)
      show ?thesis
      proof (cases "found = index")
        case True
        then show ?thesis unfolding step using z Some False Cons.prems(3) by (simp add: xs_def [symmetric] nth_append)
      next
        case neq: False
        then show ?thesis
          unfolding step using IH [of "found + 1"] nx Some False Cons.prems(3,4) by (simp add: xs_def [symmetric])
      qed
    qed
  qed
qed


text \<open>The entries of a packed archive.\<close>

lemma names_pack:
  assumes "\<forall>e \<in> set fs. tar_fits e" "drop p a = tar_pack fs" "p \<le> length a"
  shows "map (entry_name a) (tar_offs a p) = map (\<lambda>e. strip_slashes (fs_norm (fst e))) fs"
  using assms
proof (induction fs arbitrary: p)
  case Nil
  then show ?case using at_end [of p a] by (simp add: tar_pack_def tar_offs.simps [of a p])
next
  case (Cons e fs)
  have e: "tar_fits e" and d: "drop p a = tar_entry e @ tar_pack fs" using Cons.prems by (simp_all add: tar_pack_def)
  note at = at_entry [OF e d Cons.prems(3)]
  have "length (tar_entry e @ tar_pack fs) = length a - p" using d by (metis length_drop)
  then have "p + tar_stride (length (snd e)) \<le> length a" using length_entry [OF e] Cons.prems(3) by simp
  then show ?case using Cons.IH Cons.prems(1) at(1,2,4,8) by (simp add: tar_offs.simps [of a p])
qed

definition child_name :: "string \<Rightarrow> string \<Rightarrow> string option" where
  "child_name dir name =
     (case comp_below dir name of
        Some (n, _) \<Rightarrow> if n < 256 then Some (take n (drop (child_start dir) name)) else None
      | None \<Rightarrow> None)"

lemma children_names: "children a dir ps = List.map_filter (child_name dir) (map (entry_name a) ps)"
  by (induction ps) (simp_all add: child_def child_name_def map_filter_def split: option.split)

section \<open>Properties\<close>

lemma set_join_subset: "set (join ss) \<subseteq> insert SLASH (\<Union> (set ` set ss))"
  by (induction ss rule: join.induct) auto

lemma set_fold_gen: "set (foldl fold_step st ss) \<subseteq> set st \<union> set ss"
proof (induction ss arbitrary: st)
  case (Cons s ss)
  have "set (fold_step st s) \<subseteq> insert s (set st)" by (auto simp: fold_step_def dest: in_set_butlastD)
  then show ?case using Cons [of "fold_step st s"] by auto
qed simp

lemma set_segments: "s \<in> set (segments p) \<Longrightarrow> set s \<subseteq> set p"
proof (induction p rule: segments.induct)
  case (1 p)
  define q where "q = dropWhile (\<lambda>c. c = SLASH) p"
  have qp: "set q \<subseteq> set p" unfolding q_def by (meson set_dropWhileD subsetI)
  show ?case
  proof (cases "q = []")
    case True
    then show ?thesis using 1(2) segments_none [of p] by (simp add: q_def)
  next
    case False
    have "s = takeWhile (\<lambda>c. c \<noteq> SLASH) q \<or> s \<in> set (segments (dropWhile (\<lambda>c. c \<noteq> SLASH) q))"
      using 1(2) segments_step [OF q_def [symmetric] False] by simp
    then show ?thesis
    proof
      assume "s = takeWhile (\<lambda>c. c \<noteq> SLASH) q"
      then show ?thesis using qp by (auto dest: set_takeWhileD)
    next
      assume "s \<in> set (segments (dropWhile (\<lambda>c. c \<noteq> SLASH) q))"
      then have "set s \<subseteq> set (dropWhile (\<lambda>c. c \<noteq> SLASH) q)" using 1(1) [OF q_def False] by blast
      then show ?thesis using qp by (auto dest: set_dropWhileD)
    qed
  qed
qed

lemma folded_no_nul: "NUL \<notin> set p \<Longrightarrow> NUL \<notin> set (join (fold_segs (segments p)))"
  using set_join_subset [of "fold_segs (segments p)"] set_fold_gen [of "[]" "segments p"] set_segments [of _ p]
  by (fastforce simp: fold_segs_def)

text \<open>C12. A file that \<^verbatim>\<open>tar\<close> packed is read back byte for byte. For any archive of regular files,
  opening a path whose folded form is a stored name (with or without a leading \<open>./\<close> or \<open>/\<close>)
  gives a descriptor on which consecutive reads deliver the contents in order and no more; any
  other path is refused with ENOENT.\<close>

theorem initfs_roundtrip:
  assumes "\<forall>e \<in> set fs. tar_fits e" and "archive s = tar_pack fs"
    and "length path < 256" and "NUL \<notin> set path" and "name = join (fold_segs (segments path))" and "name \<noteq> []"
    and "\<exists>f \<in> set (fs_open_files s). \<not> f_used f"
  shows "case map_of (tar_names fs) name of
      None \<Rightarrow> fst (ifs_open path 0 s) = -1 \<and> nl_errno_slot (snd (ifs_open path 0 s)) = 2
    | Some d \<Rightarrow> \<exists>fd t. ifs_open path 0 s = (fd, t) \<and> fd \<ge> 64 \<and> fst (ifs_read fd n t) = int (min n (length d)) \<and>
        fst (snd (ifs_read fd n t)) @ fst (snd (ifs_read fd m (snd (snd (ifs_read fd n t))))) = take (n + m) d"
proof -
  have "fold_segs (segments path) \<noteq> []" using assms(5,6) by auto
  then have w: "snd (fs_norm_dir path 256 (folded s)) = name"
    using fs_norm_dir_fold(2) [OF assms(3)] assms(5) by simp
  have nn: "NUL \<notin> set name" using folded_no_nul [OF assms(4)] assms(5) by simp
  have lk: "fs_lookup path s = (fs_scan (archive s) name 0, s\<lparr>folded := name\<rparr>)" by (simp add: fs_lookup_def w)
  note sp = scan_pack [OF assms(1), of 0 "archive s" name] 
  show ?thesis
  proof (cases "map_of (tar_names fs) name")
    case None
    then have "fs_scan (archive s) name 0 = None" using sp assms(2) nn by simp
    then show ?thesis using None lk by (simp add: ifs_open_def set_errno_def)
  next
    case (Some d)
    obtain off where off: "fs_scan (archive s) name 0 = Some (off, length d)" "take (length d) (drop off (archive s)) = d"
      using Some sp assms(2) nn by auto
    obtain i where i: "free_slot (fs_open_files s) 0 = Some i"
      using assms(7) free_slot_none [of "fs_open_files s" 0] by (cases "free_slot (fs_open_files s) 0") auto
    have il: "i < length (fs_open_files s)" using free_slot_some [OF i] by simp
    define t where "t = s\<lparr>folded := name, fs_open_files := (fs_open_files s)[i := \<lparr>f_data = off, f_size = length d, f_pos = 0, f_used = True\<rparr>]\<rparr>"
    have o: "ifs_open path 0 s = (FS_FD_BASE + int i, t)" using lk off i by (simp add: ifs_open_def t_def)
    have ti: "i < length (fs_open_files t)" "fs_open_files t ! i = \<lparr>f_data = off, f_size = length d, f_pos = 0, f_used = True\<rparr>"
      "take (length d) (drop off (archive t)) = d" using il off by (simp_all add: t_def)
    have "FS_FD_BASE + int i \<ge> 64" by (simp add: FS_FD_BASE_def)
    then show ?thesis unfolding o using Some read_twice(1) [OF ti, of n m] read_twice(2) [OF ti, of n] by simp
  qed
qed

definition two_files :: "(string \<times> string) list" where
  "two_files = [(''./etc/motd'', ''hello''), (''key'', ''k1'')]"

lemma two_files_fit: "\<forall>e \<in> set two_files. tar_fits e"
  by (simp add: two_files_def tar_fits_def)

lemma two_files_motd: "join (fold_segs (segments ''/etc/x/../motd'')) = ''etc/motd''" "map_of (tar_names two_files) ''etc/motd'' = Some ''hello''"
  by (simp_all add: segments.simps fold_segs_def fold_step_def two_files_def tar_names_def fs_norm_def norm_skip_def)

theorem initfs_roundtrip_witness:
  "\<exists>fd t. ifs_open ''/etc/x/../motd'' 0 (ifs_boot (tar_pack two_files)) = (fd, t) \<and>
     fst (snd (ifs_read fd 3 t)) @ fst (snd (ifs_read fd 9 (snd (snd (ifs_read fd 3 t))))) = ''hello''"
proof -
  have a: "archive (ifs_boot (tar_pack two_files)) = tar_pack two_files"
    "\<exists>f \<in> set (fs_open_files (ifs_boot (tar_pack two_files))). \<not> f_used f" by (simp_all add: ifs_boot_def)
  have "case map_of (tar_names two_files) ''etc/motd'' of
      None \<Rightarrow> fst (ifs_open ''/etc/x/../motd'' 0 (ifs_boot (tar_pack two_files))) = -1 \<and>
        nl_errno_slot (snd (ifs_open ''/etc/x/../motd'' 0 (ifs_boot (tar_pack two_files)))) = 2
    | Some d \<Rightarrow> \<exists>fd t. ifs_open ''/etc/x/../motd'' 0 (ifs_boot (tar_pack two_files)) = (fd, t) \<and> fd \<ge> 64 \<and>
        fst (ifs_read fd 3 t) = int (min 3 (length d)) \<and>
        fst (snd (ifs_read fd 3 t)) @ fst (snd (ifs_read fd 9 (snd (snd (ifs_read fd 3 t))))) = take (3 + 9) d"
    by (rule initfs_roundtrip [OF two_files_fit a(1)]) (use a(2) two_files_motd(1) in simp_all)
  then show ?thesis unfolding two_files_motd(2) by auto
qed

text \<open>C13. No read ever leaves the archive: after any sequence of opens, reads, seeks and closes,
  every open file lies inside the image with its position inside the file, and a read delivers
  exactly as many bytes as it reports.\<close>

theorem initfs_reads_inside:
  assumes "ifs_step\<^sup>*\<^sup>* (ifs_boot a) s"
  shows "(\<forall>f \<in> set (fs_open_files s). f_used f \<longrightarrow> f_pos f \<le> f_size f \<and> f_data f + f_size f \<le> length (archive s)) \<and>
    (fst (ifs_read fd n s) \<ge> 0 \<longrightarrow> int (length (fst (snd (ifs_read fd n s)))) = fst (ifs_read fd n s))"
proof -
  from assms have ok: "ifs_ok s" by (induction rule: rtranclp_induct) (auto intro: ok_boot ok_step)
  have "int (length (fst (snd (ifs_read fd n s)))) = fst (ifs_read fd n s)" if "fst (ifs_read fd n s) \<ge> 0"
    using that ok_file [OF ok] by (fastforce simp: ifs_read_def Let_def split: option.splits)
  then show ?thesis using ok by (auto simp: ifs_ok_def file_ok_def)
qed

theorem initfs_reads_inside_witness:
  "ifs_step\<^sup>*\<^sup>* (ifs_boot (tar_pack two_files)) (snd (ifs_open ''key'' 0 (ifs_boot (tar_pack two_files)))) \<and>
   filter (\<lambda>f. f_used f \<and> f_size f < f_pos f) (fs_open_files (snd (ifs_open ''key'' 0 (ifs_boot (tar_pack two_files))))) = []"
proof -
  have "ifs_step\<^sup>*\<^sup>* (ifs_boot (tar_pack two_files)) (snd (ifs_open ''key'' 0 (ifs_boot (tar_pack two_files))))"
    by (intro r_into_rtranclp ifs_step.open)
  from initfs_reads_inside [OF this] this show ?thesis by (fastforce simp: filter_empty_conv)
qed

text \<open>A directory listing names every immediate child of the directory once, in the order of
  first appearance in the archive, and ends after the last one.\<close>

lemma ifs_dirent_lists:
  assumes "length path < 256" and "dir = join (fold_segs (segments path))" and "xs = firsts (children (archive s) dir (tar_offs (archive s) 0))"
  shows "distinct xs \<and> set xs = set (children (archive s) dir (tar_offs (archive s) 0)) \<and>
    map_option fst (ifs_dirent path i cap s) = (if i < length xs then Some (take (cap - 1) (xs ! i)) else None)"
proof -
  have l: "fst (fs_norm_dir path 256 []) = length dir" using fs_norm_dir_fold(1) [OF assms(1)] assms(2) by simp
  have s: "dir \<noteq> [] \<Longrightarrow> snd (fs_norm_dir path 256 []) = dir"
    using fs_norm_dir_fold(2) [OF assms(1)] assms(2) by (cases "fold_segs (segments path)") auto
  have "ifs_dirent path i cap s = dirent_scan (archive s) dir i cap 0 0"
    using l s by (simp add: ifs_dirent_def case_prod_beta)
  then have "map_option fst (ifs_dirent path i cap s) = (if i < length xs then Some (take (cap - 1) (xs ! i)) else None)"
    using dirent_lists [of "archive s" "[]" 0 0 dir i cap] assms(3) by (simp add: firsts_def Let_def)
  then show ?thesis
    using distinct_firsts_gen [of "[]"] set_firsts_gen [of "[]"] unfolding assms(3) firsts_def by simp
qed

lemma two_files_root: "firsts (children (tar_pack two_files) [] (tar_offs (tar_pack two_files) 0)) = [''etc'', ''key'']"
proof -
  have n: "map (entry_name (tar_pack two_files)) (tar_offs (tar_pack two_files) 0) = [''etc/motd'', ''key'']"
    using names_pack [OF two_files_fit, of 0 "tar_pack two_files"] by (simp add: two_files_def fs_norm_def norm_skip_def strip_slashes_def)
  show ?thesis
    unfolding children_names n
    by (simp add: map_filter_def child_name_def comp_below_def fs_child_of_def child_start_def firsts_def add_new_def)
qed

text \<open>The buffer that a lookup folds its path into outlives the call, and folding \<open>/\<close> stores
  nothing in it: after a successful lookup of any file, looking up the root finds that file again,
  and opening \<open>/\<close> for reading succeeds.\<close>

lemma fs_lookup_stale_root:
  assumes "fst (fs_lookup path s) = Some x"
  shows "fst (fs_lookup ''/'' (snd (fs_lookup path s))) = Some x"
proof -
  have "fs_norm_loop 256 (fs_norm ''/'') [] False = ([], False)"
    by (rule norm_loop_end) (simp add: fs_norm_def norm_skip_def)
  then have "snd (fs_norm_dir ''/'' 256 buf) = buf" for buf by (simp add: fs_norm_dir_def)
  then show ?thesis using assms by (simp add: fs_lookup_def Let_def)
qed

end
