(* ===== verification/Vfs.thy ===== *)
theory Vfs
  imports Initfs
begin

text \<open>
  The file surface of the guest, \<^verbatim>\<open>src/unikernel/boot/vfs.c\<close>, and the descriptor calls that
  \<^verbatim>\<open>src/unikernel/boot/platform_x86.c\<close> puts on top of it: the union of the archive and a disk,
  redirection of the standard descriptors, the working directory, directory handles, \<open>stat\<close>.

  The disk is the code that \<open>nurl_disk_*\<close> names; an image without it has null pointers there. It
  is the parameter \<open>D\<close>, \<open>None\<close> for an image without a disk layer. A descriptor is an \<open>int\<close>; a path
  that may be null is an option; \<open>errno\<close> is the slot of the archive's state.
\<close>

section \<open>State\<close>

record 'd disk_ops =
  d_ready :: "'d \<Rightarrow> int"
  d_writable :: "'d \<Rightarrow> int"
  d_open :: "string \<Rightarrow> int \<Rightarrow> 'd \<Rightarrow> int \<times> 'd"
  d_read :: "int \<Rightarrow> nat \<Rightarrow> 'd \<Rightarrow> int \<times> string \<times> 'd"
  d_write :: "int \<Rightarrow> string \<Rightarrow> 'd \<Rightarrow> int \<times> 'd"
  d_lseek :: "int \<Rightarrow> int \<Rightarrow> int \<Rightarrow> 'd \<Rightarrow> int \<times> 'd"
  d_close :: "int \<Rightarrow> 'd \<Rightarrow> int \<times> 'd"
  d_size :: "int \<Rightarrow> 'd \<Rightarrow> int"
  d_fsync :: "int \<Rightarrow> 'd \<Rightarrow> int \<times> 'd"
  d_sync :: "'d \<Rightarrow> int \<times> 'd"
  d_exists :: "string \<Rightarrow> 'd \<Rightarrow> int"
  d_is_dir :: "string \<Rightarrow> 'd \<Rightarrow> int"
  d_stat_size :: "string \<Rightarrow> 'd \<Rightarrow> int"
  d_unlink :: "string \<Rightarrow> 'd \<Rightarrow> int \<times> 'd"
  d_rename :: "string \<Rightarrow> string \<Rightarrow> 'd \<Rightarrow> int \<times> 'd"
  d_mkdir :: "string \<Rightarrow> 'd \<Rightarrow> int \<times> 'd"
  d_rmdir :: "string \<Rightarrow> 'd \<Rightarrow> int \<times> 'd"
  d_truncate :: "string \<Rightarrow> int \<Rightarrow> 'd \<Rightarrow> int \<times> 'd"
  d_ftruncate :: "int \<Rightarrow> int \<Rightarrow> 'd \<Rightarrow> int \<times> 'd"
  d_opendir :: "string \<Rightarrow> 'd \<Rightarrow> int \<times> 'd"
  d_readdir_name :: "int \<Rightarrow> nat \<Rightarrow> 'd \<Rightarrow> int \<times> string \<times> 'd"
  d_dirent_is_dir :: "'d \<Rightarrow> int"
  d_closedir :: "int \<Rightarrow> 'd \<Rightarrow> int \<times> 'd"

record vfs_ifsdir =
  dir_path :: string
  dir_cursor :: nat
  archive_done :: bool
  disk_h :: int
  dir_used :: bool

record vfs_saved =
  sv_used :: bool
  sv_target :: int
  sv_alias :: bool

record 'd vfs =
  v_ifs :: ifs
  v_disk :: 'd
  vfs_ifsdirs :: "vfs_ifsdir list"
  vfs_std_target :: "int list"
  vfs_std_alias :: "bool list"
  vfs_saved_tab :: "vfs_saved list"
  vfs_cwd :: string
  mkstemp_seq :: nat

definition VFS_DISK_FD_BASE :: int where "VFS_DISK_FD_BASE = 128"
definition VFS_DISK_FD_MAX :: int where "VFS_DISK_FD_MAX = 192"
definition VFS_IFSDIR_FD_BASE :: int where "VFS_IFSDIR_FD_BASE = 256"
definition VFS_SAVED_BASE :: int where "VFS_SAVED_BASE = 300"
definition VFS_CWD_MAX :: nat where "VFS_CWD_MAX = 512"

definition vfs_boot :: "string \<Rightarrow> 'd \<Rightarrow> 'd vfs" where
  "vfs_boot a d = \<lparr>v_ifs = ifs_boot a, v_disk = d,
     vfs_ifsdirs = replicate 8 \<lparr>dir_path = [], dir_cursor = 0, archive_done = False, disk_h = 0, dir_used = False\<rparr>,
     vfs_std_target = [-1, -1, -1], vfs_std_alias = [False, False, False],
     vfs_saved_tab = replicate 8 \<lparr>sv_used = False, sv_target = 0, sv_alias = False\<rparr>,
     vfs_cwd = [SLASH], mkstemp_seq = 0\<rparr>"

definition v_errno :: "int \<Rightarrow> 'd vfs \<Rightarrow> 'd vfs" where
  "v_errno e s = s\<lparr>v_ifs := set_errno e (v_ifs s)\<rparr>"

definition errno_of :: "'d vfs \<Rightarrow> int" where
  "errno_of s = nl_errno_slot (v_ifs s)"

definition disk_live :: "'d disk_ops option \<Rightarrow> 'd vfs \<Rightarrow> bool" where
  "disk_live D s = (case D of None \<Rightarrow> False | Some k \<Rightarrow> d_ready k (v_disk s) = 1)"

definition disk_is_fd :: "int \<Rightarrow> bool" where
  "disk_is_fd fd \<longleftrightarrow> fd \<ge> VFS_DISK_FD_BASE \<and> fd < VFS_DISK_FD_MAX"

definition posix_ret :: "int \<Rightarrow> 'd vfs \<Rightarrow> int \<times> 'd vfs" where
  "posix_ret rc s = (if rc < 0 then (-1, v_errno (-rc) s) else (rc, s))"

section \<open>Directory handles\<close>

definition ifsdir_is_fd :: "int \<Rightarrow> 'd vfs \<Rightarrow> bool" where
  "ifsdir_is_fd fd s =
     (let i = fd - VFS_IFSDIR_FD_BASE
      in i \<ge> 0 \<and> i < int (length (vfs_ifsdirs s)) \<and> dir_used (vfs_ifsdirs s ! nat i))"

fun free_dir :: "vfs_ifsdir list \<Rightarrow> nat \<Rightarrow> nat option" where
  "free_dir [] i = None"
| "free_dir (d # ds) i = (if dir_used d then free_dir ds (i + 1) else Some i)"

definition ifsdir_open :: "'d disk_ops option \<Rightarrow> string \<Rightarrow> bool \<Rightarrow> 'd vfs \<Rightarrow> int \<times> 'd vfs" where
  "ifsdir_open D path have_archive s =
     (let (h, s1) = (case D of
            Some k \<Rightarrow>
              if disk_live D s
              then let (r, d) = d_opendir k path (v_disk s) in (if r < 0 then -1 else r, s\<lparr>v_disk := d\<rparr>)
              else (-1, s)
          | None \<Rightarrow> (-1, s))
      in if \<not> have_archive \<and> h < 0 then (-1, s1)
         else case free_dir (vfs_ifsdirs s1) 0 of
           Some i \<Rightarrow>
             (VFS_IFSDIR_FD_BASE + int i,
              s1\<lparr>vfs_ifsdirs := (vfs_ifsdirs s1)[i := \<lparr>dir_path = take 255 path, dir_cursor = 0,
                   archive_done = (\<not> have_archive), disk_h = h, dir_used = True\<rparr>]\<rparr>)
         | None \<Rightarrow>
             let s2 = (case D of Some k \<Rightarrow> if h \<ge> 0 then s1\<lparr>v_disk := snd (d_closedir k h (v_disk s1))\<rparr> else s1
                       | None \<Rightarrow> s1)
             in (-1, v_errno 24 s2))"

section \<open>Descriptors\<close>

definition lift_ifs :: "(ifs \<Rightarrow> 'a \<times> ifs) \<Rightarrow> 'd vfs \<Rightarrow> 'a \<times> 'd vfs" where
  "lift_ifs f s = (let (r, i) = f (v_ifs s) in (r, s\<lparr>v_ifs := i\<rparr>))"

definition fs_is_file_fd :: "int \<Rightarrow> 'd vfs \<Rightarrow> bool" where
  "fs_is_file_fd fd s \<longleftrightarrow> ifs_is_fd fd (v_ifs s) \<or> disk_is_fd fd"

text \<open>A disk call on the handle of a descriptor, its result through \<open>posix_ret\<close>.\<close>

definition disk_call :: "('d \<Rightarrow> int \<times> 'd) \<Rightarrow> 'd vfs \<Rightarrow> int \<times> 'd vfs" where
  "disk_call f s = (let (r, d) = f (v_disk s) in posix_ret r (s\<lparr>v_disk := d\<rparr>))"

definition fs_read_fd :: "'d disk_ops option \<Rightarrow> int \<Rightarrow> nat \<Rightarrow> 'd vfs \<Rightarrow> int \<times> string \<times> 'd vfs" where
  "fs_read_fd D fd n s =
     (if ifs_is_fd fd (v_ifs s)
      then let (r, bs, i) = ifs_read fd n (v_ifs s) in (r, bs, s\<lparr>v_ifs := i\<rparr>)
      else case D of
        Some k \<Rightarrow>
          if disk_is_fd fd
          then let (r, bs, d) = d_read k (fd - VFS_DISK_FD_BASE) n (v_disk s);
                   (r', s') = posix_ret r (s\<lparr>v_disk := d\<rparr>)
               in (r', bs, s')
          else (-1, [], v_errno 9 s)
      | None \<Rightarrow> (-1, [], v_errno 9 s))"

definition fs_write_fd :: "'d disk_ops option \<Rightarrow> int \<Rightarrow> string \<Rightarrow> 'd vfs \<Rightarrow> int \<times> 'd vfs" where
  "fs_write_fd D fd bs s =
     (if ifs_is_fd fd (v_ifs s) then (-1, v_errno 30 s)
      else case D of
        Some k \<Rightarrow> if disk_is_fd fd then disk_call (d_write k (fd - VFS_DISK_FD_BASE) bs) s else (-1, v_errno 9 s)
      | None \<Rightarrow> (-1, v_errno 9 s))"

definition fs_lseek_fd :: "'d disk_ops option \<Rightarrow> int \<Rightarrow> int \<Rightarrow> int \<Rightarrow> 'd vfs \<Rightarrow> int \<times> 'd vfs" where
  "fs_lseek_fd D fd off whence s =
     (if ifs_is_fd fd (v_ifs s) then lift_ifs (ifs_lseek fd off whence) s
      else case D of
        Some k \<Rightarrow> if disk_is_fd fd then disk_call (d_lseek k (fd - VFS_DISK_FD_BASE) off whence) s else (-1, v_errno 9 s)
      | None \<Rightarrow> (-1, v_errno 9 s))"

definition fs_close_fd :: "'d disk_ops option \<Rightarrow> int \<Rightarrow> 'd vfs \<Rightarrow> int \<times> 'd vfs" where
  "fs_close_fd D fd s =
     (if ifsdir_is_fd fd s
      then let i = nat (fd - VFS_IFSDIR_FD_BASE); h = disk_h (vfs_ifsdirs s ! i);
               s1 = (case D of Some k \<Rightarrow> if h \<ge> 0 then s\<lparr>v_disk := snd (d_closedir k h (v_disk s))\<rparr> else s
                     | None \<Rightarrow> s)
           in (0, s1\<lparr>vfs_ifsdirs := (vfs_ifsdirs s1)[i := (vfs_ifsdirs s1 ! i)\<lparr>disk_h := -1, dir_used := False\<rparr>]\<rparr>)
      else if ifs_is_fd fd (v_ifs s) then lift_ifs (ifs_close fd) s
      else case D of
        Some k \<Rightarrow> if disk_is_fd fd then disk_call (d_close k (fd - VFS_DISK_FD_BASE)) s else (-1, v_errno 9 s)
      | None \<Rightarrow> (-1, v_errno 9 s))"

definition fs_map_fd :: "int \<Rightarrow> nat \<Rightarrow> 'd vfs \<Rightarrow> nat option" where
  "fs_map_fd fd off s = (if ifs_is_fd fd (v_ifs s) then ifs_map fd off (v_ifs s) else None)"

definition fs_fsync_fd :: "'d disk_ops option \<Rightarrow> int \<Rightarrow> 'd vfs \<Rightarrow> int \<times> 'd vfs" where
  "fs_fsync_fd D fd s =
     (if ifs_is_fd fd (v_ifs s) then (0, s)
      else case D of
        Some k \<Rightarrow> if disk_is_fd fd then disk_call (d_fsync k (fd - VFS_DISK_FD_BASE)) s else (-1, v_errno 9 s)
      | None \<Rightarrow> (-1, v_errno 9 s))"

definition ftruncate :: "'d disk_ops option \<Rightarrow> int \<Rightarrow> int \<Rightarrow> 'd vfs \<Rightarrow> int \<times> 'd vfs" where
  "ftruncate D fd len s =
     (if len < 0 then (-1, v_errno 22 s)
      else case D of
        Some k \<Rightarrow>
          if disk_is_fd fd then disk_call (d_ftruncate k (fd - VFS_DISK_FD_BASE) len) s
          else (-1, v_errno (if ifs_is_fd fd (v_ifs s) then 30 else 9) s)
      | None \<Rightarrow> (-1, v_errno (if ifs_is_fd fd (v_ifs s) then 30 else 9) s))"

definition flock :: "int \<Rightarrow> int \<Rightarrow> 'd vfs \<Rightarrow> int \<times> 'd vfs" where
  "flock fd op s = (if \<not> disk_is_fd fd \<and> \<not> ifs_is_fd fd (v_ifs s) then (-1, v_errno 9 s) else (0, s))"

definition pread :: "'d disk_ops option \<Rightarrow> int \<Rightarrow> nat \<Rightarrow> int \<Rightarrow> 'd vfs \<Rightarrow> int \<times> string \<times> 'd vfs" where
  "pread D fd n off s =
     (let (keep, s1) = fs_lseek_fd D fd 0 1 s in
      if keep < 0 then (-1, [], s1)
      else let (r, s2) = fs_lseek_fd D fd off 0 s1 in
        if r < 0 then (-1, [], s2)
        else let (got, bs, s3) = fs_read_fd D fd n s2 in (got, bs, snd (fs_lseek_fd D fd keep 0 s3)))"

definition pwrite :: "'d disk_ops option \<Rightarrow> int \<Rightarrow> string \<Rightarrow> int \<Rightarrow> 'd vfs \<Rightarrow> int \<times> 'd vfs" where
  "pwrite D fd bs off s =
     (let (keep, s1) = fs_lseek_fd D fd 0 1 s in
      if keep < 0 then (-1, s1)
      else let (r, s2) = fs_lseek_fd D fd off 0 s1 in
        if r < 0 then (-1, s2)
        else let (put, s3) = fs_write_fd D fd bs s2 in (put, snd (fs_lseek_fd D fd keep 0 s3)))"

section \<open>Redirecting the standard descriptors\<close>

definition vfs_std_of :: "int \<Rightarrow> 'd vfs \<Rightarrow> int" where
  "vfs_std_of fd s = (if fd < 0 \<or> fd > 2 then -1 else vfs_std_target s ! nat fd)"

definition saved_target :: "int \<Rightarrow> 'd vfs \<Rightarrow> bool" where
  "saved_target fd s \<longleftrightarrow> (\<exists>sv \<in> set (vfs_saved_tab s). sv_used sv \<and> sv_target sv = fd)"

definition vfs_is_std_target :: "int \<Rightarrow> 'd vfs \<Rightarrow> bool" where
  "vfs_is_std_target fd s \<longleftrightarrow> fd \<ge> 0 \<and> (fd \<in> set (vfs_std_target s) \<or> saved_target fd s)"

definition vfs_is_std_target_except :: "int \<Rightarrow> nat \<Rightarrow> 'd vfs \<Rightarrow> bool" where
  "vfs_is_std_target_except fd skip s \<longleftrightarrow>
     fd \<ge> 0 \<and> ((\<exists>i \<in> {0, 1, 2}. i \<noteq> skip \<and> vfs_std_target s ! i = fd) \<or> saved_target fd s)"

definition vfs_std_release :: "'d disk_ops option \<Rightarrow> nat \<Rightarrow> 'd vfs \<Rightarrow> 'd vfs" where
  "vfs_std_release D i s =
     (let t = vfs_std_target s ! i;
          s1 = (if t \<ge> 0 \<and> \<not> vfs_std_alias s ! i \<and> \<not> vfs_is_std_target_except t i s
                then snd (fs_close_fd D t s) else s)
      in s1\<lparr>vfs_std_target := (vfs_std_target s1)[i := -1], vfs_std_alias := (vfs_std_alias s1)[i := False]\<rparr>)"

definition std_install :: "nat \<Rightarrow> int \<Rightarrow> bool \<Rightarrow> 'd vfs \<Rightarrow> 'd vfs" where
  "std_install i t al s =
     s\<lparr>vfs_std_target := (vfs_std_target s)[i := t], vfs_std_alias := (vfs_std_alias s)[i := al]\<rparr>"

definition dup2 :: "'d disk_ops option \<Rightarrow> int \<Rightarrow> int \<Rightarrow> 'd vfs \<Rightarrow> int \<times> 'd vfs" where
  "dup2 D oldfd newfd s =
     (if newfd < 0 \<or> newfd > 2 then (-1, v_errno 9 s)
      else if oldfd \<ge> VFS_SAVED_BASE \<and> oldfd < VFS_SAVED_BASE + int (length (vfs_saved_tab s))
      then let sv = vfs_saved_tab s ! nat (oldfd - VFS_SAVED_BASE) in
           if \<not> sv_used sv then (-1, v_errno 9 s)
           else (newfd, std_install (nat newfd) (sv_target sv) (sv_alias sv) (vfs_std_release D (nat newfd) s))
      else if oldfd \<ge> 0 \<and> oldfd < 3
      then let t = vfs_std_target s ! nat oldfd
           in (newfd, std_install (nat newfd) t True (vfs_std_release D (nat newfd) s))
      else if \<not> fs_is_file_fd oldfd s then (-1, v_errno 9 s)
      else (newfd, std_install (nat newfd) oldfd False (vfs_std_release D (nat newfd) s)))"

fun free_saved :: "vfs_saved list \<Rightarrow> nat \<Rightarrow> nat option" where
  "free_saved [] i = None"
| "free_saved (sv # svs) i = (if sv_used sv then free_saved svs (i + 1) else Some i)"

definition dup :: "int \<Rightarrow> 'd vfs \<Rightarrow> int \<times> 'd vfs" where
  "dup fd s =
     (if fd < 0 \<or> fd > 2 then (-1, v_errno 9 s)
      else case free_saved (vfs_saved_tab s) 0 of
        None \<Rightarrow> (-1, v_errno 24 s)
      | Some i \<Rightarrow>
          (VFS_SAVED_BASE + int i,
           s\<lparr>vfs_saved_tab := (vfs_saved_tab s)[i := \<lparr>sv_used = True, sv_target = vfs_std_target s ! nat fd,
                sv_alias = vfs_std_alias s ! nat fd\<rparr>]\<rparr>))"

definition fcntl :: "int \<Rightarrow> int \<Rightarrow> 'd vfs \<Rightarrow> int \<times> 'd vfs" where
  "fcntl fd cmd s = (if cmd \<noteq> 0 then (-1, v_errno 38 s) else dup fd s)"

definition vfs_close_saved :: "int \<Rightarrow> 'd vfs \<Rightarrow> bool \<times> 'd vfs" where
  "vfs_close_saved fd s =
     (if fd < VFS_SAVED_BASE \<or> fd \<ge> VFS_SAVED_BASE + int (length (vfs_saved_tab s)) then (False, s)
      else let i = nat (fd - VFS_SAVED_BASE)
           in (True, s\<lparr>vfs_saved_tab := (vfs_saved_tab s)[i := (vfs_saved_tab s ! i)\<lparr>sv_used := False\<rparr>]\<rparr>))"

text \<open>\<open>close\<close>, \<open>lseek\<close>, and \<open>read\<close> and \<open>write\<close>, of the platform. \<open>console\<close> is what \<open>pf_putc\<close> was given.\<close>

definition close_fd :: "'d disk_ops option \<Rightarrow> int \<Rightarrow> 'd vfs \<Rightarrow> int \<times> 'd vfs" where
  "close_fd D fd s =
     (let (done, s1) = vfs_close_saved fd s in
      if done then (0, s1)
      else if vfs_is_std_target fd s1 then (0, s1)
      else if fs_is_file_fd fd s1 then fs_close_fd D fd s1
      else (0, s1))"

definition write_fd :: "'d disk_ops option \<Rightarrow> int \<Rightarrow> string \<Rightarrow> 'd vfs \<Rightarrow> int \<times> string \<times> 'd vfs" where
  "write_fd D fd bs s =
     (if fs_is_file_fd fd s then let (r, s1) = fs_write_fd D fd bs s in (r, [], s1)
      else if fd \<ge> 0 \<and> fd \<le> 2 \<and> vfs_std_of fd s \<ge> 0 then let (r, s1) = fs_write_fd D (vfs_std_of fd s) bs s in (r, [], s1)
      else (int (length bs), bs, s))"

definition read_fd :: "'d disk_ops option \<Rightarrow> int \<Rightarrow> nat \<Rightarrow> 'd vfs \<Rightarrow> int \<times> string \<times> 'd vfs" where
  "read_fd D fd n s =
     (if fs_is_file_fd fd s then fs_read_fd D fd n s
      else if fd \<ge> 0 \<and> fd \<le> 2 \<and> vfs_std_of fd s \<ge> 0 then fs_read_fd D (vfs_std_of fd s) n s
      else (0, [], s))"

definition lseek_fd :: "'d disk_ops option \<Rightarrow> int \<Rightarrow> int \<Rightarrow> int \<Rightarrow> 'd vfs \<Rightarrow> int \<times> 'd vfs" where
  "lseek_fd D fd off whence s = (if fs_is_file_fd fd s then fs_lseek_fd D fd off whence s else (-1, s))"


section \<open>Paths\<close>

text \<open>The loop of \<open>vfs_resolve\<close>; \<open>out\<close> is what follows the leading slash in the buffer.\<close>

function resolve_loop :: "nat \<Rightarrow> string \<Rightarrow> string \<Rightarrow> string" where
  "resolve_loop cap p out =
     (let q = dropWhile (\<lambda>c. c = SLASH) p in
      if q = [] then out
      else let seg = takeWhile (\<lambda>c. c \<noteq> SLASH) q; rest = dropWhile (\<lambda>c. c \<noteq> SLASH) q in
        if seg = [DOT] then resolve_loop cap rest out
        else if seg = [DOT, DOT] then resolve_loop cap rest (pop_seg out)
        else let o1 = (if out \<noteq> [] \<and> length out + 2 < cap then out @ [SLASH] else out)
             in resolve_loop cap rest (o1 @ take (cap - 2 - length o1) seg))"
  by pat_completeness auto
termination
  by (relation "measure (\<lambda>(cap, p, out). length p)") (use rest_shorter in auto)

declare resolve_loop.simps [simp del]

definition cwd_prefix :: "string \<Rightarrow> string \<Rightarrow> string" where
  "cwd_prefix cwd path =
     (let t = take (2 * VFS_CWD_MAX - 2) cwd;
          t1 = (if t = [] \<or> last t \<noteq> SLASH then t @ [SLASH] else t)
      in t1 @ take (2 * VFS_CWD_MAX - 1 - length t1) path)"

definition vfs_resolve :: "string \<Rightarrow> nat \<Rightarrow> 'd vfs \<Rightarrow> string" where
  "vfs_resolve path cap s =
     (let src = (if path \<noteq> [] \<and> hd path = SLASH then path else cwd_prefix (vfs_cwd s) path)
      in SLASH # resolve_loop cap src [])"

definition getcwd :: "nat \<Rightarrow> 'd vfs \<Rightarrow> string option \<times> 'd vfs" where
  "getcwd sz s = (if sz < length (vfs_cwd s) + 1 then (None, v_errno 34 s) else (Some (vfs_cwd s), s))"

definition chdir :: "'d disk_ops option \<Rightarrow> string option \<Rightarrow> 'd vfs \<Rightarrow> int \<times> 'd vfs" where
  "chdir D path s =
     (case path of
        None \<Rightarrow> (-1, v_errno 22 s)
      | Some p \<Rightarrow>
          let full = vfs_resolve p VFS_CWD_MAX s in
          if fst (ifs_kind full (v_ifs s)) \<noteq> 2 \<and>
             \<not> (disk_live D s \<and> (case D of Some k \<Rightarrow> d_is_dir k full (v_disk s) = 1 | None \<Rightarrow> False))
          then (-1, v_errno 2 s)
          else let c = take (VFS_CWD_MAX - 1) (if full \<noteq> [] \<and> hd full = SLASH then full else SLASH # full)
               in (0, s\<lparr>vfs_cwd := (if c = [] then [] else hd c # strip_slashes (tl c))\<rparr>))"

definition nl_open :: "'d disk_ops option \<Rightarrow> string option \<Rightarrow> int \<Rightarrow> 'd vfs \<Rightarrow> int \<times> 'd vfs" where
  "nl_open D path0 flags s =
     (case path0 of
        None \<Rightarrow> (-1, v_errno 22 s)
      | Some p0 \<Rightarrow>
          let path = vfs_resolve p0 VFS_CWD_MAX s;
              wants_write = (flags AND 3 \<noteq> 0 \<or> flags AND 64 \<noteq> 0);
              is_dir = (flags AND 65536 \<noteq> 0);
              (fd1, s1) = (if \<not> wants_write \<and> \<not> is_dir then lift_ifs (ifs_open path flags) s else (-1, s))
          in if fd1 \<ge> 0 then (fd1, s1)
             else let (fd2, s2) =
                        (if is_dir
                         then ifsdir_open D path (fst (ifs_kind path (v_ifs s1)) = 2 \<and> nurl_initfs_size (v_ifs s1) > 0) s1
                         else (-1, s1))
                  in if fd2 \<ge> 0 then (fd2, s2)
                     else if is_dir \<and> \<not> disk_live D s2 then (-1, v_errno 2 s2)
                     else case D of
                       Some k \<Rightarrow>
                         if disk_live D s2
                         then let (h, d) = (if is_dir then d_opendir k path (v_disk s2) else d_open k path flags (v_disk s2));
                                  s3 = s2\<lparr>v_disk := d\<rparr>
                              in if h < 0 then (-1, v_errno (-h) s3)
                                 else if h \<ge> VFS_DISK_FD_MAX - VFS_DISK_FD_BASE
                                 then (-1, v_errno 24 (s3\<lparr>v_disk := snd (d_close k h (v_disk s3))\<rparr>))
                                 else (VFS_DISK_FD_BASE + h, s3)
                         else lift_ifs (ifs_open path flags) s2
                     | None \<Rightarrow> lift_ifs (ifs_open path flags) s2)"

definition fs_exists :: "'d disk_ops option \<Rightarrow> string option \<Rightarrow> 'd vfs \<Rightarrow> bool \<times> 'd vfs" where
  "fs_exists D path0 s =
     (case path0 of
        None \<Rightarrow> (False, s)
      | Some p0 \<Rightarrow>
          let path = vfs_resolve p0 VFS_CWD_MAX s in
          if fst (ifs_kind path (v_ifs s)) \<noteq> 0 then (True, s)
          else let (e, s1) = lift_ifs (ifs_exists path) s in
            if e then (True, s1)
            else case D of
              Some k \<Rightarrow> (disk_live D s1 \<and> d_exists k path (v_disk s1) = 1, s1)
            | None \<Rightarrow> (False, s1))"

text \<open>The calls that only a disk can serve: what they ask it, and what they say without one.\<close>

definition disk_path_call ::
    "'d disk_ops option \<Rightarrow> ('d disk_ops \<Rightarrow> string \<Rightarrow> 'd \<Rightarrow> int \<times> 'd) \<Rightarrow> (string \<Rightarrow> 'd vfs \<Rightarrow> int \<times> 'd vfs) \<Rightarrow>
     string option \<Rightarrow> 'd vfs \<Rightarrow> int \<times> 'd vfs" where
  "disk_path_call D f refuse p0 s =
     (case p0 of
        None \<Rightarrow> (-1, v_errno 22 s)
      | Some p \<Rightarrow>
          let path = vfs_resolve p VFS_CWD_MAX s in
          case D of
            Some k \<Rightarrow> if disk_live D s then disk_call (f k path) s else refuse path s
          | None \<Rightarrow> refuse path s)"

definition unlink :: "'d disk_ops option \<Rightarrow> string option \<Rightarrow> 'd vfs \<Rightarrow> int \<times> 'd vfs" where
  "unlink D = disk_path_call D d_unlink
     (\<lambda>p s. let (e, s1) = lift_ifs (ifs_exists p) s in (-1, v_errno (if e then 30 else 2) s1))"

definition mkdir :: "'d disk_ops option \<Rightarrow> string option \<Rightarrow> 'd vfs \<Rightarrow> int \<times> 'd vfs" where
  "mkdir D = disk_path_call D d_mkdir (\<lambda>p s. (-1, v_errno 30 s))"

definition rmdir :: "'d disk_ops option \<Rightarrow> string option \<Rightarrow> 'd vfs \<Rightarrow> int \<times> 'd vfs" where
  "rmdir D = disk_path_call D d_rmdir (\<lambda>p s. (-1, v_errno 30 s))"

definition truncate :: "'d disk_ops option \<Rightarrow> string option \<Rightarrow> int \<Rightarrow> 'd vfs \<Rightarrow> int \<times> 'd vfs" where
  "truncate D p0 len = disk_path_call D (\<lambda>k p. d_truncate k p len) (\<lambda>p s. (-1, v_errno 30 s)) p0"

definition rename :: "'d disk_ops option \<Rightarrow> string option \<Rightarrow> string option \<Rightarrow> 'd vfs \<Rightarrow> int \<times> 'd vfs" where
  "rename D a0 b0 s =
     (case (a0, b0) of
        (Some a, Some b) \<Rightarrow>
          (case D of
             Some k \<Rightarrow>
               if disk_live D s
               then disk_call (d_rename k (vfs_resolve a VFS_CWD_MAX s) (vfs_resolve b VFS_CWD_MAX s)) s
               else (-1, v_errno 30 s)
           | None \<Rightarrow> (-1, v_errno 30 s))
      | _ \<Rightarrow> (-1, v_errno 22 s))"

definition vfs_sync_all :: "'d disk_ops option \<Rightarrow> 'd vfs \<Rightarrow> int \<times> 'd vfs" where
  "vfs_sync_all D s =
     (case D of Some k \<Rightarrow> if disk_live D s then disk_call (d_sync k) s else (0, s) | None \<Rightarrow> (0, s))"

definition access :: "'d disk_ops option \<Rightarrow> string option \<Rightarrow> int \<Rightarrow> 'd vfs \<Rightarrow> int \<times> 'd vfs" where
  "access D path mode s =
     (case path of
        None \<Rightarrow> (-1, v_errno 22 s)
      | Some p \<Rightarrow>
          if mode AND 1 \<noteq> 0 then (-1, v_errno 13 s)
          else let on_disk = (disk_live D s \<and> (case D of Some k \<Rightarrow> d_exists k p (v_disk s) = 1 | None \<Rightarrow> False));
                   (in_image, s1) = lift_ifs (ifs_exists p) s
               in if \<not> on_disk \<and> \<not> in_image then (-1, v_errno 2 s1)
                  else if mode AND 2 \<noteq> 0 \<and> \<not> on_disk then (-1, v_errno 13 s1)
                  else if mode AND 2 \<noteq> 0 \<and> (case D of Some k \<Rightarrow> d_writable k (v_disk s1) \<noteq> 1 | None \<Rightarrow> True)
                  then (-1, v_errno 30 s1)
                  else (0, s1))"

section \<open>Temporary files\<close>

fun base26 :: "nat \<Rightarrow> nat \<Rightarrow> string" where
  "base26 0 v = []"
| "base26 (Suc k) v = base26 k (v div 26) @ [char_of (97 + v mod 26)]"

fun mkstemp_loop :: "'d disk_ops option \<Rightarrow> string \<Rightarrow> nat \<Rightarrow> 'd vfs \<Rightarrow> int \<times> string \<times> 'd vfs" where
  "mkstemp_loop D stem 0 s = (-1, stem @ base26 6 (mkstemp_seq s), v_errno 17 s)"
| "mkstemp_loop D stem (Suc tries) s =
     (let v = (mkstemp_seq s + 7919) mod 2 ^ 64;
          name = stem @ base26 6 v;
          (fd, s1) = nl_open D (Some name) 194 (s\<lparr>mkstemp_seq := v\<rparr>)
      in if fd \<ge> 0 then (fd, name, s1)
         else if errno_of s1 \<noteq> 17 then (-1, name, s1)
         else mkstemp_loop D stem tries s1)"

text \<open>The descriptor, and what the template has become.\<close>

definition mkstemp :: "'d disk_ops option \<Rightarrow> string option \<Rightarrow> 'd vfs \<Rightarrow> int \<times> string \<times> 'd vfs" where
  "mkstemp D tmpl s =
     (case tmpl of
        None \<Rightarrow> (-1, [], v_errno 22 s)
      | Some t \<Rightarrow>
          if \<not> disk_live D s then (-1, t, v_errno 30 s)
          else if length t < 6 \<or> drop (length t - 6) t \<noteq> ''XXXXXX'' then (-1, t, v_errno 22 s)
          else mkstemp_loop D (take (length t - 6) t) 4096 s)"

section \<open>Directory records\<close>

fun put_le :: "nat \<Rightarrow> nat \<Rightarrow> string" where
  "put_le 0 v = []"
| "put_le (Suc k) v = char_of (v mod 256) # put_le k (v div 256)"

definition vfs_put_u64 :: "nat \<Rightarrow> string" where "vfs_put_u64 v = put_le 8 v"
definition vfs_put_u32 :: "nat \<Rightarrow> string" where "vfs_put_u32 v = put_le 4 v"
definition vfs_put_u16 :: "nat \<Rightarrow> string" where "vfs_put_u16 v = put_le 2 v"

definition dirent_len :: "nat \<Rightarrow> nat" where
  "dirent_len n = (19 + n + 1 + 7) div 8 * 8"

definition dirent_rec :: "nat \<Rightarrow> string \<Rightarrow> bool \<Rightarrow> string" where
  "dirent_rec used name is_dir =
     (let reclen = dirent_len (length name)
      in vfs_put_u64 (used + 1) @ vfs_put_u64 (used + reclen) @ vfs_put_u16 reclen @
         [char_of (if is_dir then 4 else 8 :: nat)] @ name @ replicate (reclen - 19 - length name) NUL)"

definition vfs_ifs_has :: "string \<Rightarrow> string \<Rightarrow> ifs \<Rightarrow> bool" where
  "vfs_ifs_has dir name i =
     (\<exists>j \<in> {0..<length (archive i)}. map_option fst (ifs_dirent dir j 256 i) = Some name)"

text \<open>One round of the loop of \<open>vfs_ifs_getdents\<close>: it leaves with a result, or goes on.\<close>

datatype 'd round = Stop "int \<times> string" "'d vfs" | Again string "'d vfs"

definition put_dirent :: "nat \<Rightarrow> string \<Rightarrow> string \<Rightarrow> bool \<Rightarrow> 'd vfs \<Rightarrow> 'd round" where
  "put_dirent len out name is_dir s =
     (if length out + dirent_len (length name) > len then Stop (int (length out), out) s
      else Again (out @ dirent_rec (length out) name is_dir) s)"

definition disk_round :: "'d disk_ops \<Rightarrow> vfs_ifsdir \<Rightarrow> nat \<Rightarrow> string \<Rightarrow> 'd vfs \<Rightarrow> 'd round" where
  "disk_round k d len out s =
     (let used = length out;
          room = min (len - used - 19 - 1) 255;
          (got, name, dk) = d_readdir_name k (disk_h d) (room + 1) (v_disk s);
          s1 = s\<lparr>v_disk := dk\<rparr>
      in if got = 0 then Stop (int used, out) s1
         else if got < 0 then (if used = 0 then Stop (-22, out) (v_errno 22 s1) else Stop (int used, out) s1)
         else if vfs_ifs_has (dir_path d) name (v_ifs s1) then Again out s1
         else put_dirent len out name (d_dirent_is_dir k dk \<noteq> 0) s1)"

definition dents_round :: "'d disk_ops option \<Rightarrow> nat \<Rightarrow> nat \<Rightarrow> string \<Rightarrow> 'd vfs \<Rightarrow> 'd round" where
  "dents_round D i len out s =
     (let d = vfs_ifsdirs s ! i; used = length out in
      if used + 19 + 1 + 8 > len then Stop (int used, out) s
      else if \<not> archive_done d
      then case ifs_dirent (dir_path d) (dir_cursor d) 256 (v_ifs s) of
             None \<Rightarrow> Again out (s\<lparr>vfs_ifsdirs := (vfs_ifsdirs s)[i := d\<lparr>archive_done := True\<rparr>]\<rparr>)
           | Some (name, is_dir) \<Rightarrow>
               put_dirent len out name is_dir (s\<lparr>vfs_ifsdirs := (vfs_ifsdirs s)[i := d\<lparr>dir_cursor := dir_cursor d + 1\<rparr>]\<rparr>)
      else case D of
        Some k \<Rightarrow> if disk_h d \<ge> 0 then disk_round k d len out s else Stop (int used, out) s
      | None \<Rightarrow> Stop (int used, out) s)"

text \<open>\<open>fuel\<close> bounds the rounds, among them those that skip a name of the disk that the archive has
  listed; \<open>None\<close> is running out of it.\<close>

primrec ifs_getdents_loop ::
    "nat \<Rightarrow> 'd disk_ops option \<Rightarrow> nat \<Rightarrow> nat \<Rightarrow> string \<Rightarrow> 'd vfs \<Rightarrow> ((int \<times> string) \<times> 'd vfs) option" where
  "ifs_getdents_loop 0 D i len out s = None"
| "ifs_getdents_loop (Suc fuel) D i len out s =
     (case dents_round D i len out s of Stop r s1 \<Rightarrow> Some (r, s1) | Again out1 s1 \<Rightarrow> ifs_getdents_loop fuel D i len out1 s1)"

definition vfs_ifs_getdents :: "'d disk_ops option \<Rightarrow> nat \<Rightarrow> int \<Rightarrow> nat \<Rightarrow> 'd vfs \<Rightarrow> ((int \<times> string) \<times> 'd vfs) option" where
  "vfs_ifs_getdents D fuel fd len s = ifs_getdents_loop fuel D (nat (fd - VFS_IFSDIR_FD_BASE)) len [] s"

text \<open>The same over a handle of the disk alone; every round stores a record, so that \<open>len\<close> is
  fuel enough.\<close>

primrec getdents_loop :: "nat \<Rightarrow> 'd disk_ops \<Rightarrow> int \<Rightarrow> nat \<Rightarrow> string \<Rightarrow> 'd vfs \<Rightarrow> (int \<times> string) \<times> 'd vfs" where
  "getdents_loop 0 k h len out s = ((int (length out), out), s)"
| "getdents_loop (Suc fuel) k h len out s =
     (let used = length out in
      if used + 19 + 1 + 8 > len then ((int used, out), s)
      else let room = min (len - used - 19 - 1) 255;
               (n, name, dk) = d_readdir_name k h (room + 1) (v_disk s);
               s1 = s\<lparr>v_disk := dk\<rparr>
           in if n = 0 then ((int used, out), s1)
              else if n < 0 then (if used = 0 then ((-22, out), v_errno 22 s1) else ((int used, out), s1))
              else if used + dirent_len (length name) > len then ((int used, out), s1)
              else getdents_loop fuel k h len (out @ dirent_rec used name (d_dirent_is_dir k dk \<noteq> 0)) s1)"

definition vfs_getdents64 :: "'d disk_ops option \<Rightarrow> int \<Rightarrow> nat \<Rightarrow> 'd vfs \<Rightarrow> (int \<times> string) \<times> 'd vfs" where
  "vfs_getdents64 D fd len s =
     (case D of
        Some k \<Rightarrow> if disk_is_fd fd then getdents_loop (len + 1) k (fd - VFS_DISK_FD_BASE) len [] s else ((-9, []), v_errno 9 s)
      | None \<Rightarrow> ((-9, []), v_errno 9 s))"

section \<open>stat\<close>

definition vfs_fill_stat :: "bool \<Rightarrow> nat \<Rightarrow> string" where
  "vfs_fill_stat is_dir sz =
     vfs_put_u64 1 @ vfs_put_u64 1 @ vfs_put_u64 1 @ vfs_put_u32 (if is_dir then 16749 else 33060) @
     replicate 20 NUL @ vfs_put_u64 sz @ vfs_put_u64 512 @ vfs_put_u64 ((sz + 511) div 512) @ replicate 72 NUL"

text \<open>The error, or the 144 bytes of a \<open>struct stat\<close>.\<close>

definition vfs_stat_path :: "'d disk_ops option \<Rightarrow> string option \<Rightarrow> 'd vfs \<Rightarrow> int + string" where
  "vfs_stat_path D path0 s =
     (case path0 of
        None \<Rightarrow> Inl (-14)
      | Some p0 \<Rightarrow>
          let path = vfs_resolve p0 VFS_CWD_MAX s;
              (kind0, sz) = ifs_kind path (v_ifs s);
              kind = (if kind0 = 2 \<and> nurl_initfs_size (v_ifs s) = 0 then 0 else kind0)
          in if kind \<noteq> 0 then Inr (vfs_fill_stat (kind = 2) (case sz of Some n \<Rightarrow> n | None \<Rightarrow> 0))
             else case D of
               Some k \<Rightarrow>
                 if disk_live D s \<and> d_exists k path (v_disk s) = 1
                 then let is_dir = (d_is_dir k path (v_disk s) = 1);
                          n = (if is_dir then 0 else d_stat_size k path (v_disk s))
                      in Inr (vfs_fill_stat is_dir (if n < 0 then 0 else nat n))
                 else Inl (-2)
             | None \<Rightarrow> Inl (-2))"

definition vfs_fstat_fd :: "'d disk_ops option \<Rightarrow> int \<Rightarrow> 'd vfs \<Rightarrow> (int + string) \<times> 'd vfs" where
  "vfs_fstat_fd D fd s =
     (if ifsdir_is_fd fd s then (Inr (vfs_fill_stat True 0), s)
      else if ifs_is_fd fd (v_ifs s)
      then let (cur, s1) = lift_ifs (ifs_lseek fd 0 1) s;
               (e, s2) = lift_ifs (ifs_lseek fd 0 2) s1;
               (_, s3) = lift_ifs (ifs_lseek fd cur 0) s2
           in (Inr (vfs_fill_stat False (if e < 0 then 0 else nat e)), s3)
      else if disk_is_fd fd \<and> D \<noteq> None
      then (case D of
              Some k \<Rightarrow> let n = d_size k (fd - VFS_DISK_FD_BASE) (v_disk s) in (Inr (vfs_fill_stat False (if n < 0 then 0 else nat n)), s)
            | None \<Rightarrow> (Inl (-9), s))
      else if fd \<ge> 0 \<and> fd \<le> 2
      then (Inr (replicate 24 NUL @ vfs_put_u32 8592 @ replicate 28 NUL @ vfs_put_u64 1024 @ replicate 80 NUL), s)
      else (Inl (-9), s))"

end
