(* ===== verification/VfsProps.thy ===== *)
theory VfsProps
  imports Vfs
begin

text \<open>
  What the file surface of the guest guarantees: path resolution implements the component-wise
  specification, the image is never shadowed by the disk, a machine without a disk changes
  nothing, positional reads leave the offset alone. Some theorems state behaviour that departs
  from what the comments of \<^verbatim>\<open>src/unikernel/boot/vfs.c\<close> intend.
\<close>

section \<open>Resolution\<close>

lemma resolve_norm: "0 < cap \<Longrightarrow> resolve_loop cap p out = fst (fs_norm_loop (cap - 1) p out st)"
proof (induction cap p out arbitrary: st rule: resolve_loop.induct)
  case (1 cap p out)
  define q where "q = dropWhile (\<lambda>c. c = SLASH) p"
  show ?case
  proof (cases "q = []")
    case True
    then show ?thesis
      unfolding resolve_loop.simps [of cap p] fs_norm_loop.simps [of "cap - 1" p] q_def by simp
  next
    case False
    define seg where "seg = takeWhile (\<lambda>c. c \<noteq> SLASH) q"
    define rest where "rest = dropWhile (\<lambda>c. c \<noteq> SLASH) q"
    define o1 where "o1 = (if out \<noteq> [] \<and> length out + 2 < cap then out @ [SLASH] else out)"
    note IH = 1(1-3) [OF q_def False seg_def rest_def]
    have r: "resolve_loop cap p out = (if seg = [DOT] then resolve_loop cap rest out
        else if seg = [DOT, DOT] then resolve_loop cap rest (pop_seg out)
        else resolve_loop cap rest (o1 @ take (cap - 2 - length o1) seg))"
      unfolding resolve_loop.simps [of cap p] q_def [symmetric] seg_def [symmetric] rest_def [symmetric] Let_def o1_def
      using False by simp
    have n: "fs_norm_loop (cap - 1) p out st = (if seg = [DOT] then fs_norm_loop (cap - 1) rest out st
        else if seg = [DOT, DOT] then fs_norm_loop (cap - 1) rest (pop_seg out) True
        else fs_norm_loop (cap - 1) rest (push_seg (cap - 1) out seg) True)"
      using norm_loop_step [OF q_def [symmetric] False] by (simp add: seg_def rest_def Let_def)
    have p: "push_seg (cap - 1) out seg = o1 @ take (cap - 2 - length o1) seg"
    proof -
      have "length out < cap - 1 - 1 \<longleftrightarrow> length out + 2 < cap" by auto
      then show ?thesis unfolding push_seg_def Let_def o1_def by (simp add: numeral_2_eq_2)
    qed
    show ?thesis
      unfolding r n p
      using IH(1) [OF _ 1(4), of st] IH(2) [OF _ _ 1(4), of True] IH(3) [OF _ _ o1_def 1(4), of True] by auto
  qed
qed

text \<open>The path that is folded.\<close>

definition abs_path :: "string \<Rightarrow> 'd vfs \<Rightarrow> string" where
  "abs_path path s = (if path \<noteq> [] \<and> hd path = SLASH then path else cwd_prefix (vfs_cwd s) path)"

lemma resolve_fold:
  assumes "length (abs_path path s) + 1 < cap"
  shows "vfs_resolve path cap s = SLASH # join (fold_segs (segments (abs_path path s)))"
proof -
  have "fst (fs_norm_loop (cap - 1) (abs_path path s) (join []) False) = join (foldl fold_step [] (segments (abs_path path s)))"
    using norm_loop_fold [of "[]" "abs_path path s" "cap - 1" False] assms by simp
  then show ?thesis
    using resolve_norm [of cap "abs_path path s" "[]" False] assms by (simp add: vfs_resolve_def abs_path_def fold_segs_def)
qed



section \<open>The union\<close>

lemma lift_fst [simp]: "fst (lift_ifs f s) = fst (f (v_ifs s))" "snd (lift_ifs f s) = s\<lparr>v_ifs := snd (f (v_ifs s))\<rparr>"
  by (simp_all add: lift_ifs_def case_prod_beta)

text \<open>The image is never shadowed: when the archive can open a path for reading, an open of it
  for reading is served by the archive and by nothing else, whatever the disk holds; the disk is
  not even asked.\<close>

lemma image_not_shadowed:
  assumes "flags AND 3 = 0" and "flags AND 64 = 0" and "flags AND 65536 = 0"
    and "fst (ifs_open (vfs_resolve p VFS_CWD_MAX s) flags (v_ifs s)) \<ge> 0"
  shows "fst (nl_open D (Some p) flags s) = fst (ifs_open (vfs_resolve p VFS_CWD_MAX s) flags (v_ifs s)) \<and>
    ifs_is_fd (fst (nl_open D (Some p) flags s)) (v_ifs (snd (nl_open D (Some p) flags s))) \<and>
    v_disk (snd (nl_open D (Some p) flags s)) = v_disk s"
proof -
  let ?path = "vfs_resolve p VFS_CWD_MAX s"
  have o: "nl_open D (Some p) flags s = lift_ifs (ifs_open ?path flags) s"
    using assms by (simp add: nl_open_def Let_def case_prod_beta prod_eq_iff)
  have "ifs_is_fd (fst (ifs_open ?path flags (v_ifs s))) (snd (ifs_open ?path flags (v_ifs s)))"
    using assms(4) free_slot_some [of "fs_open_files (v_ifs s)" 0]
    by (auto simp: ifs_open_def assms(1,3) fs_lookup_def Let_def ifs_is_fd_def file_of_upd fs_file_of_def FS_FD_BASE_def
        split: option.splits)
  then show ?thesis unfolding o by simp
qed

lemma ifs_motd:
  "fst (ifs_open ''/etc/motd'' 0 (ifs_boot (tar_pack two_files))) \<ge> 0"
proof -
  have f: "join (fold_segs (segments ''/etc/motd'')) = ''etc/motd''" by (simp add: segments.simps fold_segs_def fold_step_def)
  then have w: "snd (fs_norm_dir ''/etc/motd'' 256 []) = ''etc/motd''"
    using fs_norm_dir_fold(2) [of "''/etc/motd''" 256 "[]"] by (cases "fold_segs (segments ''/etc/motd'')") auto
  obtain off where "fs_scan (tar_pack two_files) ''etc/motd'' 0 = Some (off, 5)"
    using scan_pack [OF two_files_fit, of 0 "tar_pack two_files" "''etc/motd''"] two_files_motd(2) by auto
  then show ?thesis using w by (simp add: ifs_open_def fs_lookup_def ifs_boot_def FS_FD_BASE_def numeral_eq_Suc)
qed



text \<open>A positional read of a file in the image delivers the bytes at the given offset and leaves
  the file's own offset, and everything else, as it was.\<close>

lemma pread_keeps_offset:
  assumes "ifs_ok (v_ifs s)" and "fs_file_of fd (v_ifs s) = Some i" and "f = fs_open_files (v_ifs s) ! i" and "k \<le> f_size f"
  shows "pread D fd n (int k) s = (int (min n (f_size f - k)), take (min n (f_size f - k)) (drop (f_data f + k) (archive (v_ifs s))), s)"
proof -
  note sm = file_of_some [OF assms(2)]
  have fp: "f_pos f \<le> f_size f" using ok_file [OF assms(1,2)] assms(3) by simp
  define at where "at j = s\<lparr>v_ifs := (v_ifs s)\<lparr>fs_open_files := (fs_open_files (v_ifs s))[i := f\<lparr>f_pos := j\<rparr>]\<rparr>\<rparr>" for j
  have here: "at (f_pos f) = s" using sm(1) by (simp add: at_def assms(3))
  have fd: "fs_file_of fd (v_ifs (at j)) = Some i" "fs_open_files (v_ifs (at j)) ! i = f\<lparr>f_pos := j\<rparr>" for j
    using sm assms(3) by (simp_all add: at_def fs_file_of_def FS_FD_BASE_def)
  then have is_fd: "ifs_is_fd fd (v_ifs (at j))" for j by (simp add: ifs_is_fd_def)
  have upd: "(at j)\<lparr>v_ifs := (v_ifs (at j))\<lparr>fs_open_files := (fs_open_files (v_ifs (at j)))[i := f\<lparr>f_pos := m\<rparr>]\<rparr>\<rparr> = at m" for j m
    by (simp add: at_def)
  have seek0: "fs_lseek_fd D fd 0 1 (at j) = (int j, at j)" if "j \<le> f_size f" for j
    using is_fd [of j] fd [of j] upd [of j j] that by (simp add: fs_lseek_fd_def lift_ifs_def ifs_lseek_def Let_def)
  have seek: "fs_lseek_fd D fd (int m) 0 (at j) = (int m, at m)" if "m \<le> f_size f" for m j
    using is_fd [of j] fd [of j] upd [of j m] that by (simp add: fs_lseek_fd_def lift_ifs_def ifs_lseek_def Let_def)
  have rd: "fs_read_fd D fd n (at j) = (int (min n (f_size f - j)), take (min n (f_size f - j)) (drop (f_data f + j) (archive (v_ifs s))),
      at (j + min n (f_size f - j)))" for j
    using is_fd [of j] fd [of j] upd [of j "j + min n (f_size f - j)"]
    by (simp add: fs_read_fd_def ifs_read_def Let_def min_def at_def)
  show ?thesis
    using seek0 [OF fp] seek [OF assms(4), of "f_pos f"] rd [of k] seek [OF fp] here unfolding pread_def by (simp add: Let_def)
qed


text \<open>A file of five bytes open on descriptor 64, with the offset at 2.\<close>

definition one_open :: "unit vfs" where
  "one_open = (vfs_boot ''abcde'' ())\<lparr>v_ifs := (ifs_boot ''abcde'')\<lparr>fs_open_files :=
     \<lparr>f_data = 0, f_size = 5, f_pos = 2, f_used = True\<rparr> # replicate 15 \<lparr>f_data = 0, f_size = 0, f_pos = 0, f_used = False\<rparr>\<rparr>\<rparr>"

lemma one_open_ok: "ifs_ok (v_ifs one_open)" "fs_file_of 64 (v_ifs one_open) = Some 0"
  by (simp_all add: one_open_def ifs_ok_def file_ok_def FS_MAX_OPEN_def fs_file_of_def FS_FD_BASE_def ifs_boot_def)

section \<open>Departures\<close>

text \<open>Closing a directory does not release it: the descriptor of a directory handle is neither
  a file's nor a saved one, so \<open>close\<close> answers 0 and leaves the handle's slot in use. Once the eight
  slots are taken no directory can be opened on a machine without a disk.\<close>

lemma closedir_leaks:
  assumes "ifsdir_is_fd fd s" and "length (vfs_ifsdirs s) \<le> 8" and "length (vfs_saved_tab s) \<le> 8"
    and "length (fs_open_files (v_ifs s)) \<le> 16" and "flags AND 65536 \<noteq> 0"
  shows "close_fd D fd s = (0, s) \<and>
    ((\<forall>d \<in> set (vfs_ifsdirs s). dir_used d) \<longrightarrow> fst (nl_open None (Some p) flags (snd (close_fd None fd s))) = -1)"
proof -
  have fd: "fd \<ge> 256" "fd < 264" using assms(1,2) by (auto simp: ifsdir_is_fd_def Let_def VFS_IFSDIR_FD_BASE_def)
  have nf: "\<not> fs_is_file_fd fd s"
    using fd assms(4) by (auto simp: fs_is_file_fd_def disk_is_fd_def VFS_DISK_FD_MAX_def ifs_is_fd_def fs_file_of_def Let_def FS_FD_BASE_def split: if_splits)
  have c: "close_fd D fd s = (0, s)" for D
    using fd nf by (simp add: close_fd_def vfs_close_saved_def VFS_SAVED_BASE_def)
  have full: "free_dir ds i = None" if "\<forall>d \<in> set ds. dir_used d" for ds i using that by (induction ds i rule: free_dir.induct) auto
  have "fst (nl_open None (Some p) flags s) = -1" if "\<forall>d \<in> set (vfs_ifsdirs s). dir_used d"
    using assms(5) full [OF that, of 0] by (simp add: nl_open_def Let_def case_prod_beta ifsdir_open_def disk_live_def)
  then show ?thesis using c by simp
qed

text \<open>Duplicating a redirected standard descriptor onto itself closes the file it stands for and
  leaves the redirect pointing at the closed descriptor, where POSIX asks for nothing to happen.\<close>

lemma dup2_self_released:
  assumes "fd \<in> {0, 1, 2}" and "length (vfs_std_target s) = 3" and "length (vfs_std_alias s) = 3"
    and "t = vfs_std_target s ! nat fd" and "\<not> vfs_std_alias s ! nat fd"
    and "fs_file_of t (v_ifs s) \<noteq> None" and "length (fs_open_files (v_ifs s)) \<le> 16"
    and "\<not> vfs_is_std_target_except t (nat fd) s"
  shows "vfs_std_target (snd (dup2 D fd fd s)) ! nat fd = t \<and> fs_file_of t (v_ifs (snd (dup2 D fd fd s))) = None"
proof -
  obtain i where i: "fs_file_of t (v_ifs s) = Some i" using assms(6) by blast
  note sm = file_of_some [OF i]
  have t: "t \<ge> 64" "t < 80" using sm assms(7) by (auto simp: FS_FD_BASE_def)
  have nd: "\<not> ifsdir_is_fd t s" using t by (simp add: ifsdir_is_fd_def VFS_IFSDIR_FD_BASE_def)
  let ?c = "snd (fs_close_fd D t s)"
  have c: "?c = s\<lparr>v_ifs := snd (ifs_close t (v_ifs s))\<rparr>" using nd i by (simp add: fs_close_fd_def ifs_is_fd_def)
  have cl: "fs_file_of t (snd (ifs_close t (v_ifs s))) = None"
    using i sm by (simp add: ifs_close_def fs_file_of_def FS_FD_BASE_def)
  have nfd: "nat fd < 3" using assms(1) by auto
  have "snd (dup2 D fd fd s) = std_install (nat fd) t True (vfs_std_release D (nat fd) s)"
    using assms(1,4) by (auto simp: dup2_def VFS_SAVED_BASE_def)
  also have "vfs_std_release D (nat fd) s = ?c\<lparr>vfs_std_target := (vfs_std_target s)[nat fd := -1], vfs_std_alias := (vfs_std_alias s)[nat fd := False]\<rparr>"
    unfolding vfs_std_release_def Let_def assms(4) [symmetric] using assms(5,8) t by (simp add: c)
  finally show ?thesis using cl nfd assms(2) by (simp add: std_install_def c)
qed

text \<open>The calls of a shell around a command with \<open>>file 2>&1\<close>, the file open on \<open>fd\<close>: save both, redirect
  both, and afterwards put both back.\<close>

definition redirect_both :: "'d disk_ops option \<Rightarrow> int \<Rightarrow> 'd vfs \<Rightarrow> 'd vfs" where
  "redirect_both D fd s0 =
     (let (o1, s1) = dup 1 s0; (o2, s2) = dup 2 s1;
          s3 = snd (dup2 D fd 1 s2); s4 = snd (close_fd D fd s3); s5 = snd (dup2 D 1 2 s4);
          s6 = snd (close_fd D o1 (snd (dup2 D o1 1 s5)))
      in snd (close_fd D o2 (snd (dup2 D o2 2 s6))))"

text \<open>A file that both standard output and standard error were redirected to is not closed when
  the two are restored: afterwards nothing refers to its descriptor, yet its slot stays in use.\<close>

lemma redirect_both_open:
  "vfs_std_target (redirect_both None 64 one_open) = [-1, -1, -1] \<and> \<not> vfs_is_std_target 64 (redirect_both None 64 one_open) \<and>
   fs_file_of 64 (v_ifs (redirect_both None 64 one_open)) = Some 0"
proof -
  let ?f = "\<lparr>sv_used = False, sv_target = 0, sv_alias = False\<rparr>"
  let ?u = "\<lparr>sv_used = True, sv_target = -1, sv_alias = False\<rparr>"
  let ?g = "\<lparr>sv_used = False, sv_target = -1, sv_alias = False\<rparr>"
  define mk where "mk tg al x y = one_open\<lparr>vfs_std_target := tg, vfs_std_alias := al, vfs_saved_tab := [x, y, ?f, ?f, ?f, ?f, ?f, ?f]\<rparr>"
    for tg al x y
  have v [simp]: "vfs_std_target (mk tg al x y) = tg" "vfs_std_alias (mk tg al x y) = al"
    "vfs_saved_tab (mk tg al x y) = [x, y, ?f, ?f, ?f, ?f, ?f, ?f]" "v_ifs (mk tg al x y) = v_ifs one_open" for tg al x y
    by (simp_all add: mk_def)
  have u [simp]: "(mk tg al x y)\<lparr>vfs_std_target := tg'\<rparr> = mk tg' al x y" "(mk tg al x y)\<lparr>vfs_std_alias := al'\<rparr> = mk tg al' x y"
    "(mk tg al x y)\<lparr>vfs_saved_tab := [x', y', ?f, ?f, ?f, ?f, ?f, ?f]\<rparr> = mk tg al x' y'" for tg al x y tg' al' x' y'
    by (simp_all add: mk_def)
  have m0: "one_open = mk [-1, -1, -1] [False, False, False] ?f ?f"
    by (simp add: mk_def one_open_def vfs_boot_def numeral_eq_Suc)
  have isf: "fs_is_file_fd 64 (mk tg al x y)" for tg al x y
    using one_open_ok(2) by (simp add: fs_is_file_fd_def ifs_is_fd_def)
  note defs = dup_def dup2_def close_fd_def vfs_close_saved_def vfs_std_release_def std_install_def vfs_is_std_target_def
    vfs_is_std_target_except_def saved_target_def VFS_SAVED_BASE_def Let_def
  have 1: "dup 1 (mk [-1, -1, -1] [False, False, False] ?f ?f) = (300, mk [-1, -1, -1] [False, False, False] ?u ?f)" by (simp add: defs)
  have 2: "dup 2 (mk [-1, -1, -1] [False, False, False] ?u ?f) = (301, mk [-1, -1, -1] [False, False, False] ?u ?u)" by (simp add: defs)
  have 3: "snd (dup2 None 64 1 (mk [-1, -1, -1] [False, False, False] ?u ?u)) = mk [-1, 64, -1] [False, False, False] ?u ?u"
    using isf by (simp add: defs)
  have 4: "snd (close_fd None 64 (mk [-1, 64, -1] [False, False, False] ?u ?u)) = mk [-1, 64, -1] [False, False, False] ?u ?u"
    by (simp add: defs)
  have 5: "snd (dup2 None 1 2 (mk [-1, 64, -1] [False, False, False] ?u ?u)) = mk [-1, 64, 64] [False, False, True] ?u ?u"
    by (simp add: defs)
  have 6: "snd (dup2 None 300 1 (mk [-1, 64, 64] [False, False, True] ?u ?u)) = mk [-1, -1, 64] [False, False, True] ?u ?u"
    by (simp add: defs)
  have 7: "snd (close_fd None 300 (mk [-1, -1, 64] [False, False, True] ?u ?u)) = mk [-1, -1, 64] [False, False, True] ?g ?u"
    by (simp add: defs)
  have 8: "snd (dup2 None 301 2 (mk [-1, -1, 64] [False, False, True] ?g ?u)) = mk [-1, -1, -1] [False, False, False] ?g ?u"
    by (simp add: defs)
  have 9: "snd (close_fd None 301 (mk [-1, -1, -1] [False, False, False] ?g ?u)) = mk [-1, -1, -1] [False, False, False] ?g ?g"
    by (simp add: defs)
  have "redirect_both None 64 one_open = mk [-1, -1, -1] [False, False, False] ?g ?g"
    unfolding m0 redirect_both_def 1 Let_def prod.case 2 3 4 5 6 7 8 9 ..
  then show ?thesis using one_open_ok(2) by (simp add: vfs_is_std_target_def saved_target_def)
qed

text \<open>A redirect loses the file it stands for in two ways. Duplicating a redirected standard descriptor
  onto itself closes the file and leaves the redirect pointing at the closed descriptor, where POSIX asks
  for nothing to happen. And a file that both standard output and standard error were redirected
  to is not closed when the two are restored: nothing refers to its descriptor, yet its slot stays in use.\<close>

lemma redirects_lose_files:
  assumes "fd \<in> {0, 1, 2}" and "length (vfs_std_target s) = 3" and "length (vfs_std_alias s) = 3"
    and "t = vfs_std_target s ! nat fd" and "\<not> vfs_std_alias s ! nat fd"
    and "fs_file_of t (v_ifs s) \<noteq> None" and "length (fs_open_files (v_ifs s)) \<le> 16"
    and "\<not> vfs_is_std_target_except t (nat fd) s"
  shows "(vfs_std_target (snd (dup2 D fd fd s)) ! nat fd = t \<and> fs_file_of t (v_ifs (snd (dup2 D fd fd s))) = None) \<and>
    vfs_std_target (redirect_both None 64 one_open) = [-1, -1, -1] \<and> \<not> vfs_is_std_target 64 (redirect_both None 64 one_open) \<and>
    fs_file_of 64 (v_ifs (redirect_both None 64 one_open)) = Some 0"
  using dup2_self_released [OF assms] redirect_both_open by (intro conjI) simp_all

text \<open>A listing loses an entry at the end of a full buffer: when a name of the archive has been
  fetched and its record does not fit what is left, the call ends without the record, but the
  handle's cursor has moved past it, so that the next call starts with the entry after it.\<close>

lemma getdents_drops_entry:
  assumes "i < length (vfs_ifsdirs s)" and "d = vfs_ifsdirs s ! i" and "\<not> archive_done d"
    and "ifs_dirent (dir_path d) (dir_cursor d) 256 (v_ifs s) = Some (name, is_dir)"
    and "length out + 28 \<le> len" and "length out + dirent_len (length name) > len"
  shows "ifs_getdents_loop (Suc fuel) D i len out s =
    Some ((int (length out), out), s\<lparr>vfs_ifsdirs := (vfs_ifsdirs s)[i := d\<lparr>dir_cursor := dir_cursor d + 1\<rparr>]\<rparr>)"
  using assms by (simp add: dents_round_def put_dirent_def Let_def)


definition listing :: "unit vfs" where
  "listing = (vfs_boot (tar_pack [(''hello.txt'', ''hi'')]) ())\<lparr>vfs_ifsdirs :=
     [\<lparr>dir_path = ''/'', dir_cursor = 0, archive_done = False, disk_h = -1, dir_used = True\<rparr>]\<rparr>"

lemma listing_first: "map_option fst (ifs_dirent ''/'' 0 256 (v_ifs listing)) = Some ''hello.txt''"
proof -
  let ?a = "tar_pack [(''hello.txt'', ''hi'')]"
  have fit: "\<forall>e \<in> set [(''hello.txt'', ''hi'')]. tar_fits e" by (simp add: tar_fits_def)
  have n: "map (entry_name ?a) (tar_offs ?a 0) = [''hello.txt'']"
    using names_pack [OF fit, of 0 ?a] by (simp add: fs_norm_def norm_skip_def strip_slashes_def)
  have c: "firsts (children ?a [] (tar_offs ?a 0)) = [''hello.txt'']"
    unfolding children_names n
    by (simp add: map_filter_def child_name_def comp_below_def fs_child_of_def child_start_def firsts_def add_new_def)
  have "dirent_scan ?a [] 0 256 0 0 = ifs_dirent ''/'' 0 256 (v_ifs listing)"
    by (simp add: ifs_dirent_def listing_def vfs_boot_def ifs_boot_def fs_norm_dir_def norm_loop_end fs_norm_def norm_skip_def)
  then show ?thesis using dirent_lists [of ?a "[]" 0 0 "[]" 0 256] c by (simp add: firsts_def)
qed

end
