(* ===== verification/Probe.thy ===== *)
theory Probe
  imports Main
begin

text \<open>
  Open addressing with linear probing, as two tables of the runtime use it: the record of the
  blocks a panic's drain has released, and the table of shared blocks a thread crossing meets.
  A slot whose key is zero is empty. The probing loop of the sources runs until it meets the key
  or an empty slot and never ends on a full table, so it is a partial function. The locale states
  what the loop needs of the hash function, and proves that a table with room behaves as a set
  of keys.
\<close>

section \<open>The loops\<close>

partial_function (option) probe :: "('e \<Rightarrow> nat) \<Rightarrow> 'e list \<Rightarrow> nat \<Rightarrow> nat \<Rightarrow> nat option" where
  "probe key t p h =
    (if key (t ! h) = 0 \<or> key (t ! h) = p then Some h else probe key t p ((h + 1) mod length t))"

primrec rehash :: "(nat \<Rightarrow> nat \<Rightarrow> nat) \<Rightarrow> ('e \<Rightarrow> nat) \<Rightarrow> 'e list \<Rightarrow> 'e list \<Rightarrow> 'e list option" where
  "rehash hash key [] t = Some t"
| "rehash hash key (e # es) t =
    (if key e = 0 then rehash hash key es t
     else case probe key t 0 (hash (length t) (key e)) of
       None \<Rightarrow> None
     | Some h \<Rightarrow> rehash hash key es (t[h := e]))"

lemma probe_finds:
  assumes "\<forall>i < d. key (t ! ((h + i) mod length t)) \<noteq> 0 \<and> key (t ! ((h + i) mod length t)) \<noteq> p"
    and "key (t ! ((h + d) mod length t)) = 0 \<or> key (t ! ((h + d) mod length t)) = p" and "h < length t"
  shows "probe key t p h = Some ((h + d) mod length t)"
  using assms
proof (induction d arbitrary: h)
  case 0
  then show ?case by (subst probe.simps) auto
next
  case (Suc d)
  have n: "0 < length t" using Suc.prems(3) by auto
  have shift: "((h + 1) mod length t + i) mod length t = (h + Suc i) mod length t" for i
    by (metis add.assoc mod_add_left_eq plus_1_eq_Suc)
  have "probe key t p ((h + 1) mod length t) = Some (((h + 1) mod length t + d) mod length t)"
  proof (rule Suc.IH)
    show "\<forall>i < d. key (t ! (((h + 1) mod length t + i) mod length t)) \<noteq> 0 \<and>
        key (t ! (((h + 1) mod length t + i) mod length t)) \<noteq> p"
      unfolding shift using Suc.prems(1) by auto
  qed (use Suc.prems(2) n in \<open>simp_all only: shift mod_less_divisor\<close>)
  moreover have "key (t ! h) \<noteq> 0 \<and> key (t ! h) \<noteq> p" using Suc.prems(1,3) by (auto dest: spec [of _ 0])
  ultimately show ?case by (subst probe.simps) (simp only: shift simp_thms if_False)
qed

lemma mod_reach:
  assumes "h < n" "k < n"
  shows "\<exists>d < n. (h + d) mod n = (k :: nat)"
proof (cases "h \<le> k")
  case True
  then show ?thesis using assms by (intro exI [of _ "k - h"]) auto
next
  case False
  then show ?thesis using assms by (intro exI [of _ "n - h + k"]) auto
qed

section \<open>Tables\<close>

definition at_dist :: "(nat \<Rightarrow> nat \<Rightarrow> nat) \<Rightarrow> 'e list \<Rightarrow> nat \<Rightarrow> nat \<Rightarrow> nat" where
  "at_dist hash t p d = (hash (length t) p + d) mod length t"

definition pt_ok :: "(nat \<Rightarrow> nat \<Rightarrow> nat) \<Rightarrow> ('e \<Rightarrow> nat) \<Rightarrow> 'e list \<Rightarrow> bool" where
  "pt_ok hash key t \<longleftrightarrow> (\<forall>j < length t. key (t ! j) \<noteq> 0 \<longrightarrow>
    (\<exists>d. j = at_dist hash t (key (t ! j)) d \<and>
      (\<forall>i < d. key (t ! at_dist hash t (key (t ! j)) i) \<noteq> 0 \<and> key (t ! at_dist hash t (key (t ! j)) i) \<noteq> key (t ! j))))"

definition pt_live :: "('e \<Rightarrow> nat) \<Rightarrow> 'e list \<Rightarrow> 'e list" where
  "pt_live key t = filter (\<lambda>e. key e \<noteq> 0) t"

abbreviation pt_keys :: "('e \<Rightarrow> nat) \<Rightarrow> 'e list \<Rightarrow> nat set" where
  "pt_keys key t \<equiv> key ` set (pt_live key t)"

lemma pt_keysI: "j < length t \<Longrightarrow> key (t ! j) \<noteq> 0 \<Longrightarrow> key (t ! j) \<in> pt_keys key t"
  by (auto simp: pt_live_def)

lemma pt_keysE:
  assumes "p \<in> pt_keys key t"
  obtains j where "j < length t" "key (t ! j) = p" "p \<noteq> 0"
  using assms by (auto simp: pt_live_def in_set_conv_nth)

lemma pt_room:
  assumes "length (pt_live key t) < length t"
  obtains k where "k < length t" "key (t ! k) = 0"
proof -
  have "\<exists>e \<in> set t. key e = 0"
  proof (rule ccontr)
    assume "\<not> ?thesis"
    then have "pt_live key t = t" by (auto simp: pt_live_def filter_id_conv)
    with assms show False by simp
  qed
  with that show ?thesis by (auto simp: in_set_conv_nth)
qed

lemma pt_keys_upd:
  assumes "j < length t" "key (t ! j) = 0" "key x \<noteq> 0"
  shows "set (pt_live key (t[j := x])) = insert x (set (pt_live key t))"
    and "length (pt_live key (t[j := x])) = Suc (length (pt_live key t))"
proof -
  have t: "t = take j t @ t ! j # drop (Suc j) t" using assms(1) by (simp add: id_take_nth_drop)
  have u: "t[j := x] = take j t @ x # drop (Suc j) t" using assms(1) by (simp add: upd_conv_take_nth_drop)
  show "set (pt_live key (t[j := x])) = insert x (set (pt_live key t))"
    using assms(2,3) unfolding pt_live_def u by (subst (2) t) auto
  show "length (pt_live key (t[j := x])) = Suc (length (pt_live key t))"
    using assms(2,3) unfolding pt_live_def u by (subst (3) t) auto
qed

lemma pt_live_replicate: "key e = 0 \<Longrightarrow> pt_live key (replicate n e) = []"
  by (simp add: pt_live_def filter_empty_conv)

section \<open>The interface\<close>

text \<open>The tables hold a power of two of slots, 32 at least; all that probing asks of the hash is
  that it names a slot.\<close>

locale hashed =
  fixes hash :: "nat \<Rightarrow> nat \<Rightarrow> nat" and key :: "'e \<Rightarrow> nat"
  assumes hash_slot: "5 \<le> k \<Longrightarrow> hash (2 ^ k) p < 2 ^ k"
begin

lemma probe_stops:
  assumes "length t = 2 ^ k" "5 \<le> k" "length (pt_live key t) < length t"
  obtains d where "probe key t p (hash (length t) p) = Some (at_dist hash t p d)"
    "key (t ! at_dist hash t p d) = 0 \<or> key (t ! at_dist hash t p d) = p"
    "\<forall>i < d. key (t ! at_dist hash t p i) \<noteq> 0 \<and> key (t ! at_dist hash t p i) \<noteq> p"
proof -
  define P where "P d \<longleftrightarrow> key (t ! at_dist hash t p d) = 0 \<or> key (t ! at_dist hash t p d) = p" for d
  have h: "hash (length t) p < length t" using hash_slot [OF assms(2)] assms(1) by simp
  from pt_room [OF assms(3)] obtain z where z: "z < length t" "key (t ! z) = 0" by blast
  with mod_reach [OF h z(1)] obtain d0 where "P d0" unfolding at_dist_def P_def by auto
  then have l: "P (Least P)" by (rule LeastI)
  have m: "\<not> P i" if "i < Least P" for i using that by (rule not_less_Least)
  have "probe key t p (hash (length t) p) = Some (at_dist hash t p (Least P))"
    unfolding at_dist_def
    by (rule probe_finds [OF _ _ h]) (use l m in \<open>simp_all add: at_dist_def P_def\<close>)
  then show ?thesis using l m by (intro that [of "Least P"]) (simp_all add: P_def)
qed

lemma pt_unique:
  assumes "pt_ok hash key t" "i < length t" "j < length t" "key (t ! i) = key (t ! j)" "key (t ! i) \<noteq> 0"
  shows "i = j"
proof -
  obtain a where a: "i = at_dist hash t (key (t ! i)) a"
    "\<forall>c < a. key (t ! at_dist hash t (key (t ! i)) c) \<noteq> key (t ! i)"
    using assms(1,2,5) unfolding pt_ok_def by blast
  obtain b where b: "j = at_dist hash t (key (t ! i)) b"
    "\<forall>c < b. key (t ! at_dist hash t (key (t ! i)) c) \<noteq> key (t ! i)"
    using assms(1,3,4,5) unfolding pt_ok_def by metis
  have "a = b" using a b assms(4) by (metis linorder_neqE_nat)
  then show ?thesis using a(1) b(1) by simp
qed

lemma probe_present:
  assumes ok: "pt_ok hash key t" and n: "length t = 2 ^ k" "5 \<le> k" "length (pt_live key t) < length t"
    and "j < length t" "key (t ! j) = p" "p \<noteq> 0"
  shows "probe key t p (hash (length t) p) = Some j"
proof -
  obtain d where d: "j = at_dist hash t p d"
    "\<forall>i < d. key (t ! at_dist hash t p i) \<noteq> 0 \<and> key (t ! at_dist hash t p i) \<noteq> p"
    using ok assms(5-7) unfolding pt_ok_def by blast
  have "hash (length t) p < length t" using hash_slot [OF n(2)] n(1) by simp
  then show ?thesis using probe_finds [of d key t "hash (length t) p" p] d assms(6) unfolding at_dist_def by simp
qed

lemma probe_absent:
  assumes ok: "pt_ok hash key t" and n: "length t = 2 ^ k" "5 \<le> k" "length (pt_live key t) < length t"
    and "p \<notin> pt_keys key t" "p \<noteq> 0" "q = 0 \<or> q = p"
  obtains j where "probe key t q (hash (length t) p) = Some j" "j < length t" "key (t ! j) = 0"
    "\<And>x. key x = p \<Longrightarrow> pt_ok hash key (t[j := x])"
proof -
  from probe_stops [OF n, of p] obtain d where d: "probe key t p (hash (length t) p) = Some (at_dist hash t p d)"
    "key (t ! at_dist hash t p d) = 0 \<or> key (t ! at_dist hash t p d) = p"
    "\<forall>i < d. key (t ! at_dist hash t p i) \<noteq> 0 \<and> key (t ! at_dist hash t p i) \<noteq> p" by blast
  have pos: "0 < length t" using n(1) by simp
  then have lt: "at_dist hash t p i < length t" for i by (simp add: at_dist_def)
  from d(2) have z: "key (t ! at_dist hash t p d) = 0"
    using pt_keysI [OF lt, of key d] assms(5,6) by metis
  have h: "hash (length t) p < length t" using hash_slot [OF n(2)] n(1) by simp
  have "probe key t 0 (hash (length t) p) = Some (at_dist hash t p d)"
    using probe_finds [of d key t "hash (length t) p" 0] d(3) z h unfolding at_dist_def by simp
  with d(1) assms(7) have pr: "probe key t q (hash (length t) p) = Some (at_dist hash t p d)" by auto
  have "pt_ok hash key (t[at_dist hash t p d := x])" if "key x = p" for x
    unfolding pt_ok_def
  proof (intro allI impI)
    fix j assume j: "j < length (t[at_dist hash t p d := x])" "key (t[at_dist hash t p d := x] ! j) \<noteq> 0"
    have ad: "at_dist hash (t[at_dist hash t p d := x]) q i = at_dist hash t q i" for q i by (simp add: at_dist_def)
    show "\<exists>c. j = at_dist hash (t[at_dist hash t p d := x]) (key (t[at_dist hash t p d := x] ! j)) c \<and>
      (\<forall>i < c. key (t[at_dist hash t p d := x] ! at_dist hash (t[at_dist hash t p d := x]) (key (t[at_dist hash t p d := x] ! j)) i) \<noteq> 0 \<and>
        key (t[at_dist hash t p d := x] ! at_dist hash (t[at_dist hash t p d := x]) (key (t[at_dist hash t p d := x] ! j)) i) \<noteq>
          key (t[at_dist hash t p d := x] ! j))"
    proof (cases "j = at_dist hash t p d")
      case True
      have "at_dist hash t p i \<noteq> at_dist hash t p d" if "i < d" for i using d(3) that z by metis
      then have "t[at_dist hash t p d := x] ! at_dist hash t p i = t ! at_dist hash t p i" if "i < d" for i
        using that by (metis nth_list_update_neq)
      then show ?thesis using True lt d(3) \<open>key x = p\<close> by (intro exI [of _ d]) (simp add: ad)
    next
      case False
      with j have j': "j < length t" "key (t ! j) \<noteq> 0" by auto
      obtain c where c: "j = at_dist hash t (key (t ! j)) c"
        "\<forall>i < c. key (t ! at_dist hash t (key (t ! j)) i) \<noteq> 0 \<and> key (t ! at_dist hash t (key (t ! j)) i) \<noteq> key (t ! j)"
        using ok j' unfolding pt_ok_def by blast
      have "at_dist hash t (key (t ! j)) i \<noteq> at_dist hash t p d" if "i < c" for i using c(2) that z by metis
      then have "t[at_dist hash t p d := x] ! at_dist hash t (key (t ! j)) i = t ! at_dist hash t (key (t ! j)) i"
        if "i < c" for i using that by (metis nth_list_update_neq)
      with c False show ?thesis by (intro exI [of _ c]) (simp add: ad)
    qed
  qed
  with pr lt z that show ?thesis by blast
qed

lemma rehash_ok:
  assumes "pt_ok hash key t" "length t = 2 ^ k" "5 \<le> k"
    and "length (pt_live key t) + length (pt_live key es) < length t"
    and "distinct (map key (pt_live key es))" "pt_keys key t \<inter> pt_keys key es = {}"
  shows "\<exists>t'. rehash hash key es t = Some t' \<and> pt_ok hash key t' \<and> length t' = length t \<and>
    set (pt_live key t') = set (pt_live key t) \<union> set (pt_live key es) \<and>
    length (pt_live key t') = length (pt_live key t) + length (pt_live key es)"
  using assms
proof (induction es arbitrary: t)
  case (Cons e es)
  show ?case
  proof (cases "key e = 0")
    case True
    with Cons show ?thesis by (simp add: pt_live_def)
  next
    case False
    then have live: "pt_live key (e # es) = e # pt_live key es" by (simp add: pt_live_def)
    have room: "length (pt_live key t) < length t" using Cons.prems(4) by simp
    have abs: "key e \<notin> pt_keys key t" using Cons.prems(6) False by (auto simp: pt_live_def)
    from probe_absent [OF Cons.prems(1-3) room abs False, of 0] obtain j where
      j: "probe key t 0 (hash (length t) (key e)) = Some j" "j < length t" "key (t ! j) = 0"
        "pt_ok hash key (t[j := e])" by metis
    note u = pt_keys_upd [OF j(2,3) False]
    have "\<exists>t'. rehash hash key es (t[j := e]) = Some t' \<and> pt_ok hash key t' \<and> length t' = length (t[j := e]) \<and>
      set (pt_live key t') = set (pt_live key (t[j := e])) \<union> set (pt_live key es) \<and>
      length (pt_live key t') = length (pt_live key (t[j := e])) + length (pt_live key es)"
      by (rule Cons.IH) (use Cons.prems(2-6) j(4) u live in auto)
    then show ?thesis using j(1) False u live by auto
  qed
qed (simp add: pt_live_def)

lemma pt_ok_empty: "key e = 0 \<Longrightarrow> pt_ok hash key (replicate n e)"
  by (simp add: pt_ok_def)

lemma pt_distinct:
  assumes "pt_ok hash key t"
  shows "distinct (map key (pt_live key t))"
proof -
  have "inj_on (\<lambda>i. key (t ! i)) {i. i < length t \<and> key (t ! i) \<noteq> 0}"
    using pt_unique [OF assms] by (auto simp: inj_on_def)
  then have "distinct (map (\<lambda>i. key (t ! i)) (filter (\<lambda>i. key (t ! i) \<noteq> 0) [0..<length t]))"
    by (auto simp: distinct_map elim: inj_on_subset)
  moreover have "map (\<lambda>i. key (t ! i)) (filter (\<lambda>i. key (t ! i) \<noteq> 0) [0..<length t]) = map key (pt_live key t)"
    unfolding pt_live_def by (subst (4) map_nth [of t, symmetric]) (simp add: filter_map o_def)
  ultimately show ?thesis by simp
qed

end

end
