(* ===== verification/Journal.thy ===== *)
theory Journal
  imports Probe "HOL-Library.Monad_Syntax"
begin

text \<open>
  The panic journal (stdlib/runtime_core.c, section 9b) and panic / recover (section 20). While a
  recover extent runs, every owned value is registered; a panic releases what the extent still
  owns before it jumps back. The journal is an array of entries in registration order, threaded
  by a hash index from a pointer to its entries, and a stack of slot registrations beside it.

  An address is a natural number, zero for NULL; a drop function is its address. A list stands
  for the used prefix of an array (its length is nurl__jrnl_len, nurl__jslot_len). The heap's own
  free is the log \<open>freed\<close> of the blocks handed back and the counter of releases. An operation
  yields None when the process aborts (the sequence or memory exhausted) or a chain walk never
  ends; the theorems show that neither happens to a well formed journal.
\<close>

section \<open>State\<close>

record jentry =
  je_ptr :: nat
  je_drop :: nat
  je_flag :: nat
  je_seq :: nat
  je_next :: nat

record jslot_entry =
  js_slot :: nat
  js_drop :: nat
  js_flag :: nat
  js_seq :: nat

record panic_frame =
  pf_msg :: nat
  pf_jmark :: nat
  pf_drains :: nat

record jstate =
  jrnl :: "jentry list"
  jbuckets :: "nat list"
  jcap :: nat
  jlive :: nat
  jsequence :: nat
  jactive :: int
  jslot :: "jslot_entry list"
  jslot_cap :: nat
  draining :: bool
  drain_depth :: nat
  dseen :: "nat list"
  dseen_n :: nat
  panic_top :: "panic_frame list"
  last_msg :: nat
  empty_str :: nat
  jmem :: "nat \<Rightarrow> nat"
  freed :: "nat list"
  freed_count :: nat

definition UINT64_MAX :: nat where "UINT64_MAX = 18446744073709551615"

section \<open>The pointer index\<close>

fun bit_len :: "nat \<Rightarrow> nat" where
  "bit_len n = (if n = 0 then 0 else Suc (bit_len (n div 2)))"

declare bit_len.simps [simp del]

definition clzll :: "nat \<Rightarrow> nat" where
  "clzll n = 64 - bit_len n"

definition fib_hash :: "nat \<Rightarrow> nat" where
  "fib_hash p = p * 11400714819323198485 mod 18446744073709551616"

definition jrnl_bucket :: "nat \<Rightarrow> nat \<Rightarrow> nat" where
  "jrnl_bucket cap p = fib_hash p div 2 ^ clzll cap"

definition reindex_step :: "nat \<Rightarrow> jstate \<Rightarrow> jstate" where
  "reindex_step i s =
    (let e = jrnl s ! i; b = jrnl_bucket (jcap s) (je_ptr e) in
     if je_ptr e = 0 then s
     else s\<lparr>jrnl := (jrnl s)[i := e\<lparr>je_next := jbuckets s ! b\<rparr>], jbuckets := (jbuckets s)[b := i + 1]\<rparr>)"

definition jrnl_reindex :: "jstate \<Rightarrow> jstate" where
  "jrnl_reindex s = fold reindex_step [0..<length (jrnl s)] (s\<lparr>jbuckets := replicate (jcap s * 2) 0\<rparr>)"

definition jrnl_grow :: "jstate \<Rightarrow> jstate option" where
  "jrnl_grow s =
    (if jcap s \<noteq> 0 \<and> jlive s \<le> jcap s div 2
     then Some (jrnl_reindex (s\<lparr>jrnl := filter (\<lambda>e. je_ptr e \<noteq> 0) (jrnl s)\<rparr>))
     else if UINT64_MAX div (2 * 40) < jcap s then None
     else Some (jrnl_reindex (s\<lparr>jcap := (if jcap s \<noteq> 0 then jcap s * 2 else 32)\<rparr>)))"

definition jrnl_append :: "nat \<Rightarrow> nat \<Rightarrow> nat \<Rightarrow> jstate \<Rightarrow> jstate" where
  "jrnl_append p d f s =
    (let b = jrnl_bucket (jcap s) p; q = jsequence s + 1 in
     s\<lparr>jrnl := jrnl s @ [\<lparr>je_ptr = p, je_drop = d, je_flag = f, je_seq = q, je_next = jbuckets s ! b\<rparr>],
       jbuckets := (jbuckets s)[b := length (jrnl s) + 1], jsequence := q, jlive := jlive s + 1\<rparr>)"

definition jrnl_push2_slow :: "nat \<Rightarrow> nat \<Rightarrow> nat \<Rightarrow> jstate \<Rightarrow> jstate option" where
  "jrnl_push2_slow p d f s =
    (if p = empty_str s then Some s
     else do {
       s1 \<leftarrow> (if length (jrnl s) \<ge> jcap s then jrnl_grow s else Some s);
       if jsequence s1 = UINT64_MAX then None else Some (jrnl_append p d f s1)
     })"

definition jrnl_push2 :: "nat \<Rightarrow> nat \<Rightarrow> nat \<Rightarrow> jstate \<Rightarrow> jstate option" where
  "jrnl_push2 p d f s = (if p = 0 \<or> jactive s = 0 then Some s else jrnl_push2_slow p d f s)"

definition journal_push :: "nat \<Rightarrow> jstate \<Rightarrow> jstate option" where
  "journal_push p s = jrnl_push2 p 0 0 s"

definition journal_push_drop :: "nat \<Rightarrow> nat \<Rightarrow> jstate \<Rightarrow> jstate option" where
  "journal_push_drop slot fn s = (if fn \<noteq> 0 then jrnl_push2 slot fn 0 s else Some s)"

definition jrnl_pop_nulls :: "jstate \<Rightarrow> jstate" where
  "jrnl_pop_nulls s = s\<lparr>jrnl := rev (dropWhile (\<lambda>e. je_ptr e = 0) (rev (jrnl s)))\<rparr>"

text \<open>A link is the word a walk has reached: the head of a bucket or the next field of an
  entry.\<close>

datatype link = Head nat | Next nat

fun get_link :: "link \<Rightarrow> jstate \<Rightarrow> nat" where
  "get_link (Head b) s = jbuckets s ! b"
| "get_link (Next i) s = je_next (jrnl s ! i)"

fun set_link :: "link \<Rightarrow> nat \<Rightarrow> jstate \<Rightarrow> jstate" where
  "set_link (Head b) v s = s\<lparr>jbuckets := (jbuckets s)[b := v]\<rparr>"
| "set_link (Next i) v s = s\<lparr>jrnl := (jrnl s)[i := (jrnl s ! i)\<lparr>je_next := v\<rparr>]\<rparr>"

definition jrnl_unlink :: "link \<Rightarrow> nat \<Rightarrow> jstate \<Rightarrow> jstate" where
  "jrnl_unlink l i s =
    (let s1 = set_link l (je_next (jrnl s ! i)) s in
     s1\<lparr>jrnl := (jrnl s1)[i := (jrnl s1 ! i)\<lparr>je_ptr := 0\<rparr>], jlive := jlive s1 - 1\<rparr>)"

partial_function (option) forget_loop :: "nat \<Rightarrow> link \<Rightarrow> bool \<Rightarrow> jstate \<Rightarrow> (bool \<times> jstate) option" where
  "forget_loop p l r s =
    (let v = get_link l s in
     if v = 0 then Some (r, s)
     else if je_ptr (jrnl s ! (v - 1)) = p then forget_loop p l True (jrnl_unlink l (v - 1) s)
     else forget_loop p (Next (v - 1)) r s)"

definition jrnl_forget_body :: "nat \<Rightarrow> jstate \<Rightarrow> jstate option" where
  "jrnl_forget_body p s = do {
     (removed, s1) \<leftarrow> forget_loop p (Head (jrnl_bucket (jcap s) p)) False s;
     Some (if removed then jrnl_pop_nulls s1 else s1)
   }"

definition journal_forget :: "nat \<Rightarrow> jstate \<Rightarrow> jstate option" where
  "journal_forget p s =
    (if p = 0 \<or> jlive s = 0 then Some s else if jcap s \<noteq> 0 then jrnl_forget_body p s else Some s)"

section \<open>Slot registrations\<close>

definition slot_append :: "nat \<Rightarrow> nat \<Rightarrow> nat \<Rightarrow> jstate \<Rightarrow> jstate" where
  "slot_append slot d f s =
    s\<lparr>jslot := jslot s @ [\<lparr>js_slot = slot, js_drop = d, js_flag = f, js_seq = jsequence s + 1\<rparr>],
      jsequence := jsequence s + 1\<rparr>"

definition jslot_push_grow :: "nat \<Rightarrow> nat \<Rightarrow> nat \<Rightarrow> jstate \<Rightarrow> jstate option" where
  "jslot_push_grow slot d f s =
    (if jsequence s = UINT64_MAX then None
     else Some (slot_append slot d f
       (if length (jslot s) = jslot_cap s
        then s\<lparr>jslot_cap := (if jslot_cap s \<noteq> 0 then jslot_cap s * 2 else 64)\<rparr> else s)))"

definition jslot_push_slow :: "nat \<Rightarrow> nat \<Rightarrow> nat \<Rightarrow> jstate \<Rightarrow> jstate option" where
  "jslot_push_slow slot d f s =
    (if length (jslot s) = jslot_cap s \<or> jsequence s = UINT64_MAX then jslot_push_grow slot d f s
     else Some (slot_append slot d f s))"

definition journal_push_drop2 :: "nat \<Rightarrow> nat \<Rightarrow> nat \<Rightarrow> jstate \<Rightarrow> jstate option" where
  "journal_push_drop2 slot flag fn s =
    (if fn = 0 \<or> slot = 0 \<or> jactive s = 0 then Some s else jslot_push_slow slot fn flag s)"

definition jslot_pop_nulls :: "jstate \<Rightarrow> jstate" where
  "jslot_pop_nulls s = s\<lparr>jslot := rev (dropWhile (\<lambda>e. js_slot e = 0) (rev (jslot s)))\<rparr>"

fun null_newest :: "nat \<Rightarrow> jslot_entry list \<Rightarrow> jslot_entry list" where
  "null_newest slot [] = []"
| "null_newest slot (e # es) = (if js_slot e = slot then e\<lparr>js_slot := 0\<rparr> # es else e # null_newest slot es)"

definition jslot_forget_slow :: "nat \<Rightarrow> jstate \<Rightarrow> jstate" where
  "jslot_forget_slow slot s =
    jslot_pop_nulls (s\<lparr>jslot := rev (null_newest slot (rev (jslot s)))\<rparr>)"

definition journal_forget_slot :: "nat \<Rightarrow> jstate \<Rightarrow> jstate" where
  "journal_forget_slot slot s =
    (let n = length (jslot s) in
     if slot = 0 \<or> n = 0 then s
     else if js_slot (jslot s ! (n - 1)) = slot \<and> (n = 1 \<or> js_slot (jslot s ! (n - 2)) \<noteq> 0)
     then s\<lparr>jslot := take (n - 1) (jslot s)\<rparr>
     else jslot_forget_slow slot s)"

definition jrnl_mark :: "jstate \<Rightarrow> nat" where
  "jrnl_mark s = jsequence s"

definition journal_thread_exit :: "jstate \<Rightarrow> jstate" where
  "journal_thread_exit s =
    (if jactive s \<noteq> 0 then s
     else s\<lparr>jrnl := [], jbuckets := [], jcap := 0, jlive := 0, jslot := [], jslot_cap := 0\<rparr>)"

section \<open>What a drain has released\<close>

definition drain_slot :: "nat \<Rightarrow> nat \<Rightarrow> nat" where
  "drain_slot cap p = fib_hash p div 4294967296 mod cap"

definition dseen_grow :: "jstate \<Rightarrow> jstate option" where
  "dseen_grow s =
    (if dseen_n s * 2 \<ge> length (dseen s)
     then do {
       t \<leftarrow> rehash drain_slot id (dseen s) (replicate (if dseen s \<noteq> [] then length (dseen s) * 2 else 64) 0);
       Some (s\<lparr>dseen := t\<rparr>)
     }
     else Some s)"

definition drain_seen :: "nat \<Rightarrow> jstate \<Rightarrow> (bool \<times> jstate) option" where
  "drain_seen p s = do {
     s1 \<leftarrow> dseen_grow s;
     h \<leftarrow> probe id (dseen s1) p (drain_slot (length (dseen s1)) p);
     if dseen s1 ! h = 0 then Some (False, s1\<lparr>dseen := (dseen s1)[h := p], dseen_n := dseen_n s1 + 1\<rparr>)
     else Some (True, s1)
   }"

section \<open>Freeing\<close>

definition release :: "nat \<Rightarrow> jstate \<Rightarrow> jstate" where
  "release p s = s\<lparr>freed := freed s @ [p], freed_count := freed_count s + 1\<rparr>"

definition free_draining :: "nat \<Rightarrow> jstate \<Rightarrow> (bool \<times> jstate) option" where
  "free_draining p s = do {
     s1 \<leftarrow> (if jcap s \<noteq> 0 then jrnl_forget_body p s else Some s);
     drain_seen p s1
   }"

definition free_journaled :: "nat \<Rightarrow> jstate \<Rightarrow> jstate option" where
  "free_journaled p s =
    (if draining s
     then do { (seen, s1) \<leftarrow> free_draining p s; Some (if seen then s1 else release p s1) }
     else do { s1 \<leftarrow> jrnl_forget_body p s; Some (release p s1) })"

definition free_nonnull :: "nat \<Rightarrow> jstate \<Rightarrow> jstate option" where
  "free_nonnull p s = (if jlive s \<noteq> 0 then free_journaled p s else Some (release p s))"

definition nurl_free :: "nat \<Rightarrow> jstate \<Rightarrow> jstate option" where
  "nurl_free p s = (if p \<noteq> 0 \<and> p \<noteq> empty_str s then free_nonnull p s else Some s)"

section \<open>Frame tables\<close>

primrec jframe_loop :: "nat \<Rightarrow> nat \<Rightarrow> nat \<Rightarrow> jstate \<Rightarrow> jstate option" where
  "jframe_loop 0 table k s = Some s"
| "jframe_loop (Suc m) table k s =
    (let sp = jmem s (table + 8 * k) in
     if sp = 0 \<or> jmem s sp = 0 then jframe_loop m table (k + 1) s
     else do {
       s1 \<leftarrow> nurl_free (jmem s sp) (s\<lparr>jmem := (jmem s)(sp := 0)\<rparr>);
       jframe_loop m table (k + 1) s1
     })"

definition jframe_drop :: "nat \<Rightarrow> jstate \<Rightarrow> jstate option" where
  "jframe_drop table s = jframe_loop (jmem s table) table 1 s"

text \<open>Disowning a value unregisters every frame slot that holds it; \<open>jf\<close> is the address of
  nurl_jframe_drop.\<close>

definition disown_table :: "nat \<Rightarrow> nat \<Rightarrow> (nat \<Rightarrow> nat) \<Rightarrow> nat \<Rightarrow> nat" where
  "disown_table p table m =
    fold (\<lambda>k m. if m (table + 8 * k) \<noteq> 0 \<and> m (m (table + 8 * k)) = p then m(table + 8 * k := 0) else m)
      [1..<m table + 1] m"

definition disown_slots :: "nat \<Rightarrow> nat \<Rightarrow> jslot_entry list \<Rightarrow> (nat \<Rightarrow> nat) \<Rightarrow> nat \<Rightarrow> nat" where
  "disown_slots jf p es m =
    fold (\<lambda>e m. if js_slot e = 0 \<or> js_drop e \<noteq> jf then m else disown_table p (js_slot e) m) es m"

definition journal_disown :: "nat \<Rightarrow> nat \<Rightarrow> jstate \<Rightarrow> jstate option" where
  "journal_disown jf p s =
    (if p = 0 \<or> p = empty_str s then Some s
     else do {
       s1 \<leftarrow> journal_forget p s;
       Some (s1\<lparr>jmem := disown_slots jf p (rev (jslot s1)) (jmem s1)\<rparr>)
     })"

section \<open>Leaving an extent\<close>

partial_function (option) unlink_walk :: "nat \<Rightarrow> link \<Rightarrow> jstate \<Rightarrow> link option" where
  "unlink_walk t l s =
    (let v = get_link l s in
     if v = t then Some l else if v = 0 then None else unlink_walk t (Next (v - 1)) s)"

partial_function (option) truncate_loop :: "nat \<Rightarrow> jstate \<Rightarrow> jstate option" where
  "truncate_loop mark s =
    (if jrnl s \<noteq> [] \<and> je_seq (last (jrnl s)) > mark
     then do {
       l \<leftarrow> unlink_walk (length (jrnl s)) (Head (jrnl_bucket (jcap s) (je_ptr (last (jrnl s))))) s;
       truncate_loop mark (jrnl_pop_nulls (jrnl_unlink l (length (jrnl s) - 1) s))
     }
     else Some s)"

function slot_truncate :: "nat \<Rightarrow> jstate \<Rightarrow> jstate" where
  "slot_truncate mark s =
    (if jslot s \<noteq> [] \<and> js_seq (last (jslot s)) > mark
     then slot_truncate mark (jslot_pop_nulls (s\<lparr>jslot := butlast (jslot s)\<rparr>))
     else s)"
  by pat_completeness auto
termination
proof (relation "measure (\<lambda>(mark, s). length (jslot s))")
  fix mark :: nat and s :: jstate assume a: "jslot s \<noteq> [] \<and> js_seq (last (jslot s)) > mark"
  have "length (rev (dropWhile (\<lambda>e. js_slot e = 0) (rev (butlast (jslot s))))) \<le> length (butlast (jslot s))"
    by (metis length_dropWhile_le length_rev)
  also have "\<dots> < length (jslot s)" using a by simp
  finally show "((mark, jslot_pop_nulls (s\<lparr>jslot := butlast (jslot s)\<rparr>)), mark, s) \<in> measure (\<lambda>(mark, s). length (jslot s))"
    by (simp add: jslot_pop_nulls_def)
qed simp

declare slot_truncate.simps [simp del]

definition jrnl_truncate :: "nat \<Rightarrow> jstate \<Rightarrow> jstate option" where
  "jrnl_truncate mark s = truncate_loop mark (jrnl_pop_nulls (slot_truncate mark (jslot_pop_nulls s)))"

section \<open>Draining\<close>

text \<open>The drop functions are compiled NURL code, and the runtime's own frame droppers: a
  parameter \<open>D\<close>, from the function's address and its argument to its effect on the state.\<close>

type_synonym dropper = "nat \<Rightarrow> nat \<Rightarrow> jstate \<Rightarrow> jstate option"

definition flag_set :: "nat \<Rightarrow> jstate \<Rightarrow> bool" where
  "flag_set flag s \<longleftrightarrow> flag = 0 \<or> odd (jmem s flag)"

definition drain_slot_step :: "dropper \<Rightarrow> jstate \<Rightarrow> jstate option" where
  "drain_slot_step D s =
    (let e = last (jslot s); s1 = s\<lparr>jslot := butlast (jslot s)\<rparr> in
     if flag_set (js_flag e) s1 then D (js_drop e) (js_slot e) s1 else Some s1)"

definition drain_ptr_step :: "dropper \<Rightarrow> jstate \<Rightarrow> jstate option" where
  "drain_ptr_step D s =
    (let e = last (jrnl s) in do {
       s1 \<leftarrow> journal_forget (je_ptr e) s;
       if je_drop e \<noteq> 0 then (if flag_set (je_flag e) s1 then D (je_drop e) (je_ptr e) s1 else Some s1)
       else do { (seen, s2) \<leftarrow> drain_seen (je_ptr e) s1; Some (if seen then s2 else release (je_ptr e) s2) }
     })"

definition drain_tails :: "jstate \<Rightarrow> nat \<times> nat" where
  "drain_tails s =
    (if jrnl s \<noteq> [] then je_seq (last (jrnl s)) else 0, if jslot s \<noteq> [] then js_seq (last (jslot s)) else 0)"

partial_function (option) jrnl_drain_body :: "dropper \<Rightarrow> nat \<Rightarrow> jstate \<Rightarrow> jstate option" where
  "jrnl_drain_body D mark s =
    (let s0 = jslot_pop_nulls (jrnl_pop_nulls s); ps = fst (drain_tails s0); ss = snd (drain_tails s0) in
     if ps \<le> mark \<and> ss \<le> mark then Some s0
     else do {
       s1 \<leftarrow> (if ss > ps then drain_slot_step D s0 else drain_ptr_step D s0);
       jrnl_drain_body D mark s1
     })"

definition jrnl_drain :: "dropper \<Rightarrow> nat \<Rightarrow> jstate \<Rightarrow> jstate option" where
  "jrnl_drain D mark s = do {
     s1 \<leftarrow> jrnl_drain_body D mark (s\<lparr>draining := True, drain_depth := drain_depth s + 1, jlive := jlive s + 1\<rparr>);
     let s2 = s1\<lparr>jlive := jlive s1 - 1, drain_depth := drain_depth s1 - 1, draining := draining s\<rparr>;
     Some (if draining s then s2 else s2\<lparr>dseen := [], dseen_n := 0\<rparr>)
   }"

definition drain_unwind :: "nat \<Rightarrow> jstate \<Rightarrow> jstate" where
  "drain_unwind depth s =
    (let k = drain_depth s - depth; s1 = s\<lparr>drain_depth := drain_depth s - k, jlive := jlive s - k\<rparr> in
     if drain_depth s1 = 0 \<and> draining s1 then s1\<lparr>draining := False, dseen := [], dseen_n := 0\<rparr> else s1)"

section \<open>Recover and panic\<close>

definition recover_enter :: "jstate \<Rightarrow> jstate" where
  "recover_enter s =
    s\<lparr>panic_top := \<lparr>pf_msg = 0, pf_jmark = jrnl_mark s, pf_drains = drain_depth s\<rparr> # panic_top s,
      jactive := jactive s + 1\<rparr>"

definition recover_leave :: "panic_frame \<Rightarrow> panic_frame list \<Rightarrow> jstate \<Rightarrow> jstate option" where
  "recover_leave fr prev s = jrnl_truncate (pf_jmark fr) (s\<lparr>panic_top := prev, jactive := jactive s - 1\<rparr>)"

text \<open>\<open>fallback\<close> is the copy of the text "(no panic message)" that strdup makes for a frame left
  without a message.\<close>

definition recover_caught :: "nat \<Rightarrow> panic_frame \<Rightarrow> panic_frame list \<Rightarrow> jstate \<Rightarrow> jstate option" where
  "recover_caught fallback fr prev s = do {
     s1 \<leftarrow> recover_leave fr prev (drain_unwind (pf_drains fr) s);
     s2 \<leftarrow> nurl_free (last_msg s1) s1;
     Some (s2\<lparr>last_msg := (if pf_msg fr \<noteq> 0 then pf_msg fr else fallback)\<rparr>)
   }"

text \<open>The closure either returns or jumps back to the innermost frame.\<close>

datatype run = Returned jstate | Jumped jstate

definition nurl_recover :: "nat \<Rightarrow> (jstate \<Rightarrow> run option) \<Rightarrow> jstate \<Rightarrow> (int \<times> jstate) option" where
  "nurl_recover fallback body s = do {
     r \<leftarrow> body (recover_enter s);
     (case r of
        Returned t \<Rightarrow> do { u \<leftarrow> recover_leave (hd (panic_top t)) (panic_top s) t; Some (0, u) }
      | Jumped t \<Rightarrow> do { u \<leftarrow> recover_caught fallback (hd (panic_top t)) (panic_top s) t; Some (1, u) })
   }"

text \<open>The lean variant starts no journal of its own.\<close>

definition recover_lean_enter :: "jstate \<Rightarrow> jstate" where
  "recover_lean_enter s =
    s\<lparr>panic_top := \<lparr>pf_msg = 0, pf_jmark = jrnl_mark s, pf_drains = drain_depth s\<rparr> # panic_top s\<rparr>"

definition recover_lean_leave :: "panic_frame \<Rightarrow> panic_frame list \<Rightarrow> jstate \<Rightarrow> jstate option" where
  "recover_lean_leave fr prev s = jrnl_truncate (pf_jmark fr) (s\<lparr>panic_top := prev\<rparr>)"

definition recover_lean_caught :: "nat \<Rightarrow> panic_frame \<Rightarrow> panic_frame list \<Rightarrow> jstate \<Rightarrow> jstate option" where
  "recover_lean_caught fallback fr prev s = do {
     s1 \<leftarrow> recover_lean_leave fr prev (drain_unwind (pf_drains fr) s);
     s2 \<leftarrow> nurl_free (last_msg s1) s1;
     Some (s2\<lparr>last_msg := (if pf_msg fr \<noteq> 0 then pf_msg fr else fallback)\<rparr>)
   }"

definition nurl_recover_lean :: "nat \<Rightarrow> (jstate \<Rightarrow> run option) \<Rightarrow> jstate \<Rightarrow> (int \<times> jstate) option" where
  "nurl_recover_lean fallback body s = do {
     r \<leftarrow> body (recover_lean_enter s);
     (case r of
        Returned t \<Rightarrow> do { u \<leftarrow> recover_lean_leave (hd (panic_top t)) (panic_top s) t; Some (0, u) }
      | Jumped t \<Rightarrow> do { u \<leftarrow> recover_lean_caught fallback (hd (panic_top t)) (panic_top s) t; Some (1, u) })
   }"

text \<open>A panic with no frame aborts the process. \<open>copy\<close> is the address strdup returns for the
  message.\<close>

definition nurl_panic :: "dropper \<Rightarrow> nat \<Rightarrow> jstate \<Rightarrow> run option" where
  "nurl_panic D copy s =
    (case panic_top s of
       [] \<Rightarrow> None
     | fr # rest \<Rightarrow>
         let s1 = (if pf_msg fr = 0 then s\<lparr>panic_top := fr\<lparr>pf_msg := copy\<rparr> # rest\<rparr> else s) in do {
           s2 \<leftarrow> jrnl_drain D (pf_jmark fr) s1;
           Some (Jumped s2)
         })"

section \<open>Fibers\<close>

text \<open>The scheduler exchanges this part of the state with the fiber's own copy around every
  switch.\<close>

record rctx =
  rc_jrnl :: "jentry list"
  rc_buckets :: "nat list"
  rc_cap :: nat
  rc_live :: nat
  rc_sequence :: nat
  rc_active :: int
  rc_jslot :: "jslot_entry list"
  rc_jslot_cap :: nat
  rc_panic_top :: "panic_frame list"
  rc_last_msg :: nat

definition rctx_swap :: "rctx \<Rightarrow> jstate \<Rightarrow> rctx \<times> jstate" where
  "rctx_swap c s =
    (\<lparr>rc_jrnl = jrnl s, rc_buckets = jbuckets s, rc_cap = jcap s, rc_live = jlive s, rc_sequence = jsequence s,
      rc_active = jactive s, rc_jslot = jslot s, rc_jslot_cap = jslot_cap s, rc_panic_top = panic_top s,
      rc_last_msg = last_msg s\<rparr>,
     s\<lparr>jrnl := rc_jrnl c, jbuckets := rc_buckets c, jcap := rc_cap c, jlive := rc_live c, jsequence := rc_sequence c,
      jactive := rc_active c, jslot := rc_jslot c, jslot_cap := rc_jslot_cap c, panic_top := rc_panic_top c,
      last_msg := rc_last_msg c\<rparr>)"

definition rctx_zero :: rctx where
  "rctx_zero = \<lparr>rc_jrnl = [], rc_buckets = [], rc_cap = 0, rc_live = 0, rc_sequence = 0, rc_active = 0, rc_jslot = [],
    rc_jslot_cap = 0, rc_panic_top = [], rc_last_msg = 0\<rparr>"

definition rctx_release :: "rctx \<Rightarrow> jstate \<Rightarrow> (rctx \<times> jstate) option" where
  "rctx_release c s = do {
     s1 \<leftarrow> (if rc_last_msg c \<noteq> 0 then nurl_free (rc_last_msg c) s else Some s);
     Some (rctx_zero, s1)
   }"

definition panic_thread_exit :: "jstate \<Rightarrow> jstate option" where
  "panic_thread_exit s =
    (if panic_top s \<noteq> [] then Some s
     else do { s1 \<leftarrow> nurl_free (last_msg s) s; Some (s1\<lparr>last_msg := 0\<rparr>) })"

definition jstate_boot :: "nat \<Rightarrow> jstate" where
  "jstate_boot e = \<lparr>jrnl = [], jbuckets = [], jcap = 0, jlive = 0, jsequence = 0, jactive = 0, jslot = [], jslot_cap = 0,
    draining = False, drain_depth = 0, dseen = [], dseen_n = 0, panic_top = [], last_msg = 0, empty_str = e,
    jmem = (\<lambda>_. 0), freed = [], freed_count = 0\<rparr>"

end
