(* ===== verification/JournalInv.thy ===== *)
theory JournalInv
  imports Journal
begin

text \<open>
  The journal's invariant and what each operation does to the registrations: the chains of the
  hash index hold exactly the live entries of their bucket, newest first, so the walks end and
  removing a pointer removes all its registrations.
\<close>

section \<open>The hash\<close>

lemma bit_len_pow: "bit_len (2 ^ k) = Suc k"
proof (induction k)
  case 0
  show ?case by (subst bit_len.simps) (simp add: bit_len.simps)
next
  case (Suc k)
  then show ?case by (subst bit_len.simps) simp
qed

lemma fib_hash_bound: "fib_hash p < 2 ^ 64"
  unfolding fib_hash_def by simp

lemma top_bits_bound:
  assumes "h < 2 ^ 64"
  shows "h div 2 ^ (64 - m) < (2 :: nat) ^ m"
proof (cases "m \<le> 64")
  case True
  have "h < 2 ^ (64 - m) * 2 ^ m" using assms True by (simp flip: power_add)
  then show ?thesis by (simp add: less_mult_imp_div_less mult.commute)
next
  case False
  then have "(2 :: nat) ^ 64 \<le> 2 ^ m" by (intro power_increasing) auto
  then show ?thesis using False assms by simp
qed

lemma jrnl_bucket_bound: "jrnl_bucket (2 ^ k) p < 2 * 2 ^ k"
  using top_bits_bound [OF fib_hash_bound, of p "Suc k"] by (simp add: jrnl_bucket_def clzll_def bit_len_pow)

interpretation dr: hashed drain_slot "id :: nat \<Rightarrow> nat"
  by unfold_locales (simp add: drain_slot_def)

section \<open>Chains\<close>

primrec jchain :: "jentry list \<Rightarrow> nat \<Rightarrow> nat list \<Rightarrow> bool" where
  "jchain es h [] \<longleftrightarrow> h = 0"
| "jchain es h (i # is) \<longleftrightarrow> h = Suc i \<and> jchain es (je_next (es ! i)) is"

definition chain_of :: "nat \<Rightarrow> jentry list \<Rightarrow> nat \<Rightarrow> nat \<Rightarrow> nat list" where
  "chain_of cap es n b = rev (filter (\<lambda>i. je_ptr (es ! i) \<noteq> 0 \<and> jrnl_bucket cap (je_ptr (es ! i)) = b) [0..<n])"

definition index_ok :: "nat \<Rightarrow> jentry list \<Rightarrow> nat \<Rightarrow> nat list \<Rightarrow> bool" where
  "index_ok cap es n bs \<longleftrightarrow> length bs = 2 * cap \<and> (\<forall>b < 2 * cap. jchain es (bs ! b) (chain_of cap es n b))"

lemma jchain_cong:
  "(\<And>i. i \<in> set is \<Longrightarrow> je_next (es' ! i) = je_next (es ! i)) \<Longrightarrow> jchain es' h is = jchain es h is"
  by (induction "is" arbitrary: h) auto

lemma chain_of_set: "i \<in> set (chain_of cap es n b) \<longleftrightarrow> i < n \<and> je_ptr (es ! i) \<noteq> 0 \<and> jrnl_bucket cap (je_ptr (es ! i)) = b"
  by (auto simp: chain_of_def)

lemma chain_of_distinct: "distinct (chain_of cap es n b)"
  by (simp add: chain_of_def)

lemma chain_of_cong:
  "(\<And>i. i < n \<Longrightarrow> je_ptr (es' ! i) = je_ptr (es ! i)) \<Longrightarrow> chain_of cap es' n b = chain_of cap es n b"
  by (auto simp: chain_of_def intro!: filter_cong)

lemma chain_of_Suc:
  "chain_of cap es (Suc n) b =
    (if je_ptr (es ! n) \<noteq> 0 \<and> jrnl_bucket cap (je_ptr (es ! n)) = b then n # chain_of cap es n b else chain_of cap es n b)"
  by (simp add: chain_of_def)

text \<open>Adding the entry at index n at the head of its bucket.\<close>

lemma index_link:
  assumes "index_ok cap es n bs" "je_ptr e \<noteq> 0" "je_next e = bs ! b" "b = jrnl_bucket cap (je_ptr e)" "b < 2 * cap"
    and same: "\<And>i. i < n \<Longrightarrow> es' ! i = es ! i" and at: "es' ! n = e"
  shows "index_ok cap es' (Suc n) (bs[b := Suc n])"
  unfolding index_ok_def
proof (intro conjI allI impI)
  show "length (bs[b := Suc n]) = 2 * cap" using assms(1) by (simp add: index_ok_def)
next
  fix b' assume b': "b' < 2 * cap"
  have c: "chain_of cap es' n b' = chain_of cap es n b'" by (rule chain_of_cong) (simp add: same)
  have "jchain es (bs ! b') (chain_of cap es n b')" using assms(1) b' by (simp add: index_ok_def)
  then have j: "jchain es' (bs ! b') (chain_of cap es n b')"
    using jchain_cong [of "chain_of cap es n b'" es' es] same by (simp add: chain_of_set)
  show "jchain es' (bs[b := Suc n] ! b') (chain_of cap es' (Suc n) b')"
    using j assms(1-5) b' by (auto simp: chain_of_Suc c at index_ok_def)
qed

lemma index_skip:
  assumes "index_ok cap es n bs" "je_ptr (es ! n) = 0"
  shows "index_ok cap es (Suc n) bs"
  using assms by (simp add: index_ok_def chain_of_Suc)

section \<open>Registrations\<close>

type_synonym reg = "nat \<times> nat \<times> nat \<times> nat"

definition jdata :: "jentry \<Rightarrow> reg" where
  "jdata e = (je_ptr e, je_drop e, je_flag e, je_seq e)"

abbreviation r_ptr :: "reg \<Rightarrow> nat" where "r_ptr r \<equiv> fst r"
abbreviation r_drop :: "reg \<Rightarrow> nat" where "r_drop r \<equiv> fst (snd r)"
abbreviation r_flag :: "reg \<Rightarrow> nat" where "r_flag r \<equiv> fst (snd (snd r))"
abbreviation r_seq :: "reg \<Rightarrow> nat" where "r_seq r \<equiv> snd (snd (snd r))"

definition live_data :: "jentry list \<Rightarrow> reg list" where
  "live_data es = filter (\<lambda>r. r_ptr r \<noteq> 0) (map jdata es)"

definition jregs :: "jstate \<Rightarrow> reg list" where
  "jregs s = live_data (jrnl s)"

lemma r_jdata [simp]:
  "r_ptr (jdata e) = je_ptr e" "r_drop (jdata e) = je_drop e" "r_flag (jdata e) = je_flag e" "r_seq (jdata e) = je_seq e"
  by (simp_all add: jdata_def)

definition jslots :: "jstate \<Rightarrow> jslot_entry list" where
  "jslots s = filter (\<lambda>e. js_slot e \<noteq> 0) (jslot s)"

definition seqs :: "nat \<Rightarrow> nat list \<Rightarrow> bool" where
  "seqs m ns \<longleftrightarrow> sorted_wrt (<) ns \<and> (\<forall>n \<in> set ns. 0 < n \<and> n \<le> m)"

definition dseen_ok :: "jstate \<Rightarrow> bool" where
  "dseen_ok s \<longleftrightarrow> pt_ok drain_slot id (dseen s) \<and> (dseen s = [] \<or> (\<exists>k \<ge> 5. length (dseen s) = 2 ^ k)) \<and>
    dseen_n s = length (pt_live id (dseen s)) \<and> 2 * dseen_n s \<le> length (dseen s) \<and> (\<not> draining s \<longrightarrow> dseen s = [])"

definition jindex :: "jstate \<Rightarrow> bool" where
  "jindex s \<longleftrightarrow> (if jcap s = 0 then jrnl s = []
    else (\<exists>k \<ge> 5. jcap s = 2 ^ k) \<and> length (jrnl s) \<le> jcap s \<and>
      index_ok (jcap s) (jrnl s) (length (jrnl s)) (jbuckets s))"

definition jinv :: "jstate \<Rightarrow> bool" where
  "jinv s \<longleftrightarrow> jindex s \<and> jlive s = length (jregs s) + drain_depth s \<and>
    seqs (jsequence s) (map je_seq (jrnl s)) \<and> seqs (jsequence s) (map js_seq (jslot s)) \<and>
    je_seq ` set (jrnl s) \<inter> js_seq ` set (jslot s) = {} \<and>
    (\<forall>e \<in> set (jrnl s). je_ptr e \<noteq> empty_str s) \<and> empty_str s \<noteq> 0 \<and> dseen_ok s \<and> (draining s \<longleftrightarrow> drain_depth s \<noteq> 0)"

lemma dseen_ok_cong:
  "dseen t = dseen s \<Longrightarrow> dseen_n t = dseen_n s \<Longrightarrow> draining t = draining s \<Longrightarrow> dseen_ok t = dseen_ok s"
  by (simp add: dseen_ok_def)

lemma jinv_bucket:
  assumes "jindex s" "jcap s \<noteq> 0"
  shows "jrnl_bucket (jcap s) p < 2 * jcap s"
proof -
  obtain k where "jcap s = 2 ^ k" using assms by (auto simp: jindex_def)
  then show ?thesis using jrnl_bucket_bound [of k p] by simp
qed

lemma jindex_cong:
  "jcap t = jcap s \<Longrightarrow> jrnl t = jrnl s \<Longrightarrow> jbuckets t = jbuckets s \<Longrightarrow> jindex t = jindex s"
  by (simp add: jindex_def)

lemma jregs_cong: "map jdata (jrnl t) = map jdata (jrnl s) \<Longrightarrow> jregs t = jregs s"
  by (simp add: jregs_def live_data_def)

section \<open>Reindexing and growing\<close>

lemma reindex_fields [simp]:
  "jcap (fold reindex_step is s) = jcap s" "length (jrnl (fold reindex_step is s)) = length (jrnl s)"
  by (induction "is" arbitrary: s) (auto simp: reindex_step_def Let_def)

lemma reindex_rest:
  "\<exists>es bs. fold reindex_step is s = s\<lparr>jrnl := es, jbuckets := bs\<rparr>"
proof (induction "is" arbitrary: s)
  case Nil
  show ?case by (intro exI [of _ "jrnl s"] exI [of _ "jbuckets s"]) simp
next
  case (Cons i "is")
  have "reindex_step i s = s\<lparr>jrnl := jrnl (reindex_step i s), jbuckets := jbuckets (reindex_step i s)\<rparr>"
    by (simp add: reindex_step_def Let_def)
  then obtain es bs where "reindex_step i s = s\<lparr>jrnl := es, jbuckets := bs\<rparr>" by blast
  with Cons [of "reindex_step i s"] show ?case by auto
qed

lemma jdata_upd_next: "map jdata (es[i := (es ! i)\<lparr>je_next := v\<rparr>]) = map jdata es"
  by (cases "i < length es") (auto simp: list_eq_iff_nth_eq nth_list_update jdata_def)

lemma reindex_data: "map jdata (jrnl (fold reindex_step is s)) = map jdata (jrnl s)"
  by (induction "is" arbitrary: s) (auto simp: reindex_step_def Let_def jdata_upd_next)

lemma reindex_index:
  assumes "n \<le> length (jrnl s)" "jcap s = 2 ^ k" "jbuckets s = replicate (jcap s * 2) 0"
  shows "index_ok (jcap s) (jrnl (fold reindex_step [0..<n] s)) n (jbuckets (fold reindex_step [0..<n] s))"
  using assms(1)
proof (induction n)
  case 0
  then show ?case using assms by (simp add: index_ok_def chain_of_def)
next
  case (Suc n)
  define t where "t = fold reindex_step [0..<n] s"
  have t: "fold reindex_step [0..<Suc n] s = reindex_step n t" by (simp add: t_def)
  have ok: "index_ok (jcap s) (jrnl t) n (jbuckets t)" using Suc by (simp add: t_def)
  have cap: "jcap t = jcap s" "length (jrnl t) = length (jrnl s)" by (simp_all add: t_def)
  show ?case
  proof (cases "je_ptr (jrnl t ! n) = 0")
    case True
    with index_skip [OF ok] show ?thesis unfolding t by (simp add: reindex_step_def)
  next
    case False
    have b: "jrnl_bucket (jcap s) (je_ptr (jrnl t ! n)) < 2 * jcap s" using jrnl_bucket_bound assms(2) by simp
    show ?thesis unfolding t using False Suc.prems b cap
      by (simp add: reindex_step_def Let_def)
        (rule index_link [OF ok, of "(jrnl t ! n)\<lparr>je_next := jbuckets t ! jrnl_bucket (jcap s) (je_ptr (jrnl t ! n))\<rparr>"], simp_all)
  qed
qed

lemma jrnl_reindex_ok:
  assumes "jcap s = 2 ^ k" "5 \<le> k" "length (jrnl s) \<le> jcap s"
  obtains es bs where "jrnl_reindex s = s\<lparr>jrnl := es, jbuckets := bs\<rparr>" "map jdata es = map jdata (jrnl s)" "jindex (jrnl_reindex s)"
proof -
  define t where "t = s\<lparr>jbuckets := replicate (jcap s * 2) 0\<rparr>"
  have r: "jrnl_reindex s = fold reindex_step [0..<length (jrnl s)] t" by (simp add: jrnl_reindex_def t_def)
  obtain es bs where e: "fold reindex_step [0..<length (jrnl s)] t = t\<lparr>jrnl := es, jbuckets := bs\<rparr>"
    using reindex_rest by blast
  have i: "index_ok (jcap t) (jrnl (fold reindex_step [0..<length (jrnl t)] t)) (length (jrnl t)) (jbuckets (fold reindex_step [0..<length (jrnl t)] t))"
    by (rule reindex_index) (use assms in \<open>auto simp: t_def\<close>)
  have d: "map jdata es = map jdata (jrnl s)" using reindex_data [of "[0..<length (jrnl s)]" t] e by (simp add: t_def)
  then have l: "length es = length (jrnl s)" by (metis length_map)
  show ?thesis
  proof (rule that)
    show "jrnl_reindex s = s\<lparr>jrnl := es, jbuckets := bs\<rparr>" by (simp add: r e) (simp add: t_def)
    show "jindex (jrnl_reindex s)"
      using i assms l by (auto simp: jindex_def r e t_def)
  qed (fact d)
qed

lemma live_data_filter: "live_data (filter (\<lambda>e. je_ptr e \<noteq> 0) es) = live_data es"
  by (simp add: live_data_def filter_map o_def)

lemma live_data_length: "length (live_data es) = length (filter (\<lambda>e. je_ptr e \<noteq> 0) es)"
  by (simp add: live_data_def filter_map o_def)

lemma seqs_filter: "seqs m (map f es) \<Longrightarrow> seqs m (map f (filter P es))"
  by (auto simp: seqs_def sorted_wrt_map sorted_wrt_filter)

lemma seqs_data: "seqs m (map je_seq es) \<longleftrightarrow> seqs m (map r_seq (map jdata es))"
  by (simp add: o_def)

lemma seqs_append: "seqs m ns \<Longrightarrow> seqs (Suc m) (ns @ [Suc m])"
  by (auto simp: seqs_def sorted_wrt_append)

lemma seqs_Suc: "seqs m ns \<Longrightarrow> seqs (Suc m) ns"
  by (auto simp: seqs_def)

lemma data_images:
  assumes "map jdata es = map jdata fs"
  shows "map je_seq es = map je_seq fs" "map je_ptr es = map je_ptr fs"
proof -
  have "map f (map jdata es) = map f (map jdata fs)" for f :: "reg \<Rightarrow> nat" by (simp only: assms)
  from this [of "\<lambda>r. r_seq r"] this [of "\<lambda>r. r_ptr r"]
  show "map je_seq es = map je_seq fs" "map je_ptr es = map je_ptr fs" by (simp_all add: o_def)
qed

lemma grow_ok:
  assumes "jinv s" "jcap s \<le> length (jrnl s)" "jrnl_grow s \<noteq> None"
  obtains es bs c where "jrnl_grow s = Some (s\<lparr>jrnl := es, jbuckets := bs, jcap := c\<rparr>)" "live_data es = jregs s"
    "jindex (s\<lparr>jrnl := es, jbuckets := bs, jcap := c\<rparr>)" "length es < c" "jinv (s\<lparr>jrnl := es, jbuckets := bs, jcap := c\<rparr>)"
proof -
  have ix: "jindex s" and live: "jlive s = length (jregs s) + drain_depth s" using assms(1) by (simp_all add: jinv_def)
  have sub: "\<exists>es bs c. jrnl_grow s = Some (s\<lparr>jrnl := es, jbuckets := bs, jcap := c\<rparr>) \<and> live_data es = jregs s \<and>
    jindex (s\<lparr>jrnl := es, jbuckets := bs, jcap := c\<rparr>) \<and> length es < c \<and>
    (\<exists>P. map jdata es = map jdata (filter P (jrnl s)))"
  proof (cases "jcap s \<noteq> 0 \<and> jlive s \<le> jcap s div 2")
    case True
    define t where "t = s\<lparr>jrnl := filter (\<lambda>e. je_ptr e \<noteq> 0) (jrnl s)\<rparr>"
    have len: "length (jrnl t) \<le> jcap s div 2" using True live by (simp add: t_def jregs_def live_data_length)
    obtain k where k: "jcap t = 2 ^ k" "5 \<le> k" using ix True by (auto simp: jindex_def t_def)
    have "length (jrnl t) \<le> jcap t" using len by (simp add: t_def)
    from jrnl_reindex_ok [OF k this] obtain es bs where e: "jrnl_reindex t = t\<lparr>jrnl := es, jbuckets := bs\<rparr>"
      "map jdata es = map jdata (jrnl t)" "jindex (jrnl_reindex t)" by blast
    have "length es = length (jrnl t)" using e(2) by (metis length_map)
    moreover have "live_data es = live_data (jrnl t)" using e(2) by (simp add: live_data_def)
    moreover have "0 < jcap s" using True by simp
    ultimately show ?thesis using True e len
      by (intro exI [of _ es] exI [of _ bs] exI [of _ "jcap s"]) (auto simp: jrnl_grow_def t_def jregs_def live_data_filter [unfolded neq0_conv])
  next
    case False
    define t where "t = s\<lparr>jcap := if jcap s \<noteq> 0 then jcap s * 2 else 32\<rparr>"
    obtain k where k: "jcap t = 2 ^ k" "5 \<le> k" "length (jrnl t) < jcap t"
    proof (cases "jcap s = 0")
      case True
      then show ?thesis using that [of 5] ix by (simp add: t_def jindex_def)
    next
      case False
      then obtain k where "jcap s = 2 ^ k" "5 \<le> k" "length (jrnl s) \<le> jcap s" using ix by (auto simp: jindex_def)
      then show ?thesis using that [of "Suc k"] False by (simp add: t_def)
    qed
    have "length (jrnl t) \<le> jcap t" using k(3) by simp
    from jrnl_reindex_ok [OF k(1,2) this] obtain es bs where e: "jrnl_reindex t = t\<lparr>jrnl := es, jbuckets := bs\<rparr>"
      "map jdata es = map jdata (jrnl t)" "jindex (jrnl_reindex t)" by blast
    have "length es = length (jrnl t)" using e(2) by (metis length_map)
    moreover have "live_data es = live_data (jrnl t)" using e(2) by (simp add: live_data_def)
    moreover have "map jdata es = map jdata (filter (\<lambda>_. True) (jrnl s))" using e(2) by (simp add: t_def)
    moreover have "jrnl_grow s = Some (s\<lparr>jrnl := es, jbuckets := bs, jcap := jcap t\<rparr>)"
    proof -
      have "\<not> UINT64_MAX div (2 * 40) < jcap s" using assms(3) False by (auto simp: jrnl_grow_def split: if_splits)
      moreover have "jrnl_reindex t = s\<lparr>jrnl := es, jbuckets := bs, jcap := jcap t\<rparr>" using e(1) by (simp add: t_def)
      ultimately show ?thesis unfolding jrnl_grow_def using False by (simp only: if_False t_def [symmetric])
    qed
    moreover have "jindex (s\<lparr>jrnl := es, jbuckets := bs, jcap := jcap t\<rparr>)"
      using e(3) jindex_cong [of "t\<lparr>jrnl := es, jbuckets := bs\<rparr>" "s\<lparr>jrnl := es, jbuckets := bs, jcap := jcap t\<rparr>"]
      unfolding e(1) by simp
    moreover have "live_data (jrnl t) = jregs s" "length (jrnl t) < jcap t" using k(3) by (simp_all add: t_def jregs_def)
    ultimately show ?thesis by (intro exI [of _ es] exI [of _ bs] exI [of _ "jcap t"]) metis
  qed
  then obtain es bs c P where g: "jrnl_grow s = Some (s\<lparr>jrnl := es, jbuckets := bs, jcap := c\<rparr>)" "live_data es = jregs s"
    "jindex (s\<lparr>jrnl := es, jbuckets := bs, jcap := c\<rparr>)" "length es < c" "map jdata es = map jdata (filter P (jrnl s))" by blast
  have sq: "map je_seq es = map je_seq (filter P (jrnl s))" "map je_ptr es = map je_ptr (filter P (jrnl s))"
    using data_images [OF g(5)] by simp_all
  have "seqs (jsequence s) (map je_seq es)" unfolding sq using assms(1) by (intro seqs_filter) (simp add: jinv_def)
  moreover have "je_seq ` set es \<subseteq> je_seq ` set (jrnl s)"
    using arg_cong [OF sq(1), of set] by auto
  moreover have "je_ptr ` set es \<subseteq> je_ptr ` set (jrnl s)"
    using arg_cong [OF sq(2), of set] by auto
  ultimately have "jinv (s\<lparr>jrnl := es, jbuckets := bs, jcap := c\<rparr>)"
    using assms(1) g(2,3) unfolding jinv_def by (fastforce simp: jregs_def dseen_ok_def)
  with g that show ?thesis by blast
qed

lemma append_ok:
  assumes "jinv s" "length (jrnl s) < jcap s" "p \<noteq> 0" "p \<noteq> empty_str s"
  shows "jinv (jrnl_append p d f s)" "jregs (jrnl_append p d f s) = jregs s @ [(p, d, f, jsequence s + 1)]"
proof -
  show r: "jregs (jrnl_append p d f s) = jregs s @ [(p, d, f, jsequence s + 1)]"
    using assms(3) by (simp add: jrnl_append_def Let_def jregs_def live_data_def jdata_def)
  have cap: "jcap s \<noteq> 0" using assms(2) by auto
  have ix: "jindex s" using assms(1) by (simp add: jinv_def)
  then obtain k where k: "5 \<le> k" "jcap s = 2 ^ k" using cap by (auto simp: jindex_def)
  have b: "jrnl_bucket (jcap s) p < 2 * jcap s" by (rule jinv_bucket [OF ix cap])
  define e where "e = \<lparr>je_ptr = p, je_drop = d, je_flag = f, je_seq = jsequence s + 1, je_next = jbuckets s ! jrnl_bucket (jcap s) p\<rparr>"
  have "index_ok (jcap s) (jrnl s @ [e]) (Suc (length (jrnl s))) ((jbuckets s)[jrnl_bucket (jcap s) p := Suc (length (jrnl s))])"
    by (rule index_link [where e = e]) (use ix cap assms(3) b in \<open>auto simp: jindex_def e_def nth_append\<close>)
  then have "jindex (jrnl_append p d f s)" using assms(2) cap k by (auto simp: jindex_def jrnl_append_def Let_def e_def)
  moreover have "seqs (Suc (jsequence s)) (map je_seq (jrnl s) @ [Suc (jsequence s)])"
    using assms(1) by (intro seqs_append) (simp add: jinv_def)
  moreover have "seqs (Suc (jsequence s)) (map js_seq (jslot s))" using assms(1) by (intro seqs_Suc) (simp add: jinv_def)
  moreover have "Suc (jsequence s) \<notin> js_seq ` set (jslot s)" using assms(1) by (auto simp: jinv_def seqs_def)
  moreover have "jlive (jrnl_append p d f s) = length (jregs (jrnl_append p d f s)) + drain_depth s"
    unfolding r using assms(1) by (simp add: jinv_def jrnl_append_def Let_def)
  moreover have "dseen_ok (jrnl_append p d f s) = dseen_ok s" by (rule dseen_ok_cong) (simp_all add: jrnl_append_def Let_def)
  ultimately show "jinv (jrnl_append p d f s)"
    using assms unfolding jinv_def by (simp add: jrnl_append_def Let_def)
qed

lemma push_slow_ok:
  assumes "jinv s" "p \<noteq> 0" "p \<noteq> empty_str s" "jrnl_push2_slow p d f s = Some t"
  shows "jinv t \<and> jregs t = jregs s @ [(p, d, f, jsequence s + 1)] \<and> jslot t = jslot s \<and> jsequence t = jsequence s + 1 \<and>
    freed t = freed s \<and> drain_depth t = drain_depth s \<and> draining t = draining s \<and> panic_top t = panic_top s \<and>
    jactive t = jactive s \<and> empty_str t = empty_str s \<and> last_msg t = last_msg s"
proof -
  obtain u where u: "(if jcap s \<le> length (jrnl s) then jrnl_grow s else Some s) = Some u" "t = jrnl_append p d f u"
    using assms(3,4) by (auto simp: jrnl_push2_slow_def bind_eq_Some_conv split: if_splits)
  have "\<exists>es bs c. u = s\<lparr>jrnl := es, jbuckets := bs, jcap := c\<rparr> \<and> jinv u \<and> length es < c \<and> live_data es = jregs s"
  proof (cases "jcap s \<le> length (jrnl s)")
    case True
    then have "jrnl_grow s = Some u" using u(1) by simp
    then have "jrnl_grow s \<noteq> None" by simp
    from grow_ok [OF assms(1) True this] obtain es bs c where g: "jrnl_grow s = Some (s\<lparr>jrnl := es, jbuckets := bs, jcap := c\<rparr>)"
      "live_data es = jregs s" "length es < c" "jinv (s\<lparr>jrnl := es, jbuckets := bs, jcap := c\<rparr>)" by blast
    then have "u = s\<lparr>jrnl := es, jbuckets := bs, jcap := c\<rparr>" using \<open>jrnl_grow s = Some u\<close> by simp
    with g show ?thesis by blast
  next
    case False
    then have "u = s" "s = s\<lparr>jrnl := jrnl s, jbuckets := jbuckets s, jcap := jcap s\<rparr>" using u(1) by simp_all
    with False assms(1) show ?thesis
      by (intro exI [of _ "jrnl s"] exI [of _ "jbuckets s"] exI [of _ "jcap s"]) (simp add: jregs_def)
  qed
  then obtain es bs c where e: "u = s\<lparr>jrnl := es, jbuckets := bs, jcap := c\<rparr>" "jinv u" "length es < c" "live_data es = jregs s" by blast
  have "length (jrnl u) < jcap u" "p \<noteq> empty_str u" "jregs u = jregs s" using e assms(3) by (simp_all add: jregs_def)
  with append_ok [OF e(2) _ assms(2), of d f] e(1) show ?thesis unfolding u(2) by (simp add: jrnl_append_def Let_def)
qed

lemma push_slow_some:
  assumes "jsequence s < UINT64_MAX" "jcap s \<le> UINT64_MAX div 80"
  shows "\<exists>t. jrnl_push2_slow p d f s = Some t"
proof -
  have "jsequence (jrnl_reindex u) = jsequence u" for u
    using reindex_rest [of "[0..<length (jrnl u)]" "u\<lparr>jbuckets := replicate (jcap u * 2) 0\<rparr>"] by (auto simp: jrnl_reindex_def)
  then show ?thesis using assms by (simp add: jrnl_push2_slow_def jrnl_grow_def)
qed

section \<open>Forgetting a pointer\<close>

definition link_ok :: "link \<Rightarrow> nat list \<Rightarrow> jstate \<Rightarrow> bool" where
  "link_ok l is s \<longleftrightarrow> (case l of Head b \<Rightarrow> b < length (jbuckets s) | Next k \<Rightarrow> k < length (jrnl s) \<and> k \<notin> set is)"

definition null_at :: "nat \<Rightarrow> nat list \<Rightarrow> jstate \<Rightarrow> jstate \<Rightarrow> bool" where
  "null_at p is s s' \<longleftrightarrow> length (jrnl s') = length (jrnl s) \<and> length (jbuckets s') = length (jbuckets s) \<and>
    (\<forall>i < length (jrnl s). jdata (jrnl s' ! i) =
      (if i \<in> set is \<and> je_ptr (jrnl s ! i) = p then jdata ((jrnl s ! i)\<lparr>je_ptr := 0\<rparr>) else jdata (jrnl s ! i))) \<and>
    jlive s' = jlive s - length (filter (\<lambda>i. je_ptr (jrnl s ! i) = p) is) \<and>
    s' = s\<lparr>jrnl := jrnl s', jbuckets := jbuckets s', jlive := jlive s'\<rparr>"

lemma unlink_effect:
  assumes "link_ok l (i # is) s" "i < length (jrnl s)" "i \<notin> set is"
  shows "get_link l (jrnl_unlink l i s) = je_next (jrnl s ! i)" "link_ok l is (jrnl_unlink l i s)"
    "length (jrnl (jrnl_unlink l i s)) = length (jrnl s)" "length (jbuckets (jrnl_unlink l i s)) = length (jbuckets s)"
    "jdata (jrnl (jrnl_unlink l i s) ! i) = jdata ((jrnl s ! i)\<lparr>je_ptr := 0\<rparr>)"
    "\<And>j. j \<noteq> i \<Longrightarrow> jdata (jrnl (jrnl_unlink l i s) ! j) = jdata (jrnl s ! j)"
    "\<And>j. j \<noteq> i \<Longrightarrow> l \<noteq> Next j \<Longrightarrow> jrnl (jrnl_unlink l i s) ! j = jrnl s ! j"
    "\<And>b. l \<noteq> Head b \<Longrightarrow> jbuckets (jrnl_unlink l i s) ! b = jbuckets s ! b"
    "jlive (jrnl_unlink l i s) = jlive s - 1"
    "jrnl_unlink l i s = s\<lparr>jrnl := jrnl (jrnl_unlink l i s), jbuckets := jbuckets (jrnl_unlink l i s), jlive := jlive (jrnl_unlink l i s)\<rparr>"
  using assms by (cases l; auto simp: jrnl_unlink_def Let_def link_ok_def jdata_def nth_list_update)+

lemma rest_trans:
  "t = s\<lparr>jrnl := a, jbuckets := b, jlive := c\<rparr> \<Longrightarrow> u = t\<lparr>jrnl := a', jbuckets := b', jlive := c'\<rparr> \<Longrightarrow>
   u = s\<lparr>jrnl := a', jbuckets := b', jlive := c'\<rparr>"
  by simp

lemma forget_loop_effect:
  assumes "jchain (jrnl s) (get_link l s) is" "distinct is" "link_ok l is s" "\<forall>i \<in> set is. i < length (jrnl s)" "p \<noteq> 0"
  shows "\<exists>s'. forget_loop p l r s = Some (r \<or> (\<exists>i \<in> set is. je_ptr (jrnl s ! i) = p), s') \<and>
    jchain (jrnl s') (get_link l s') (filter (\<lambda>i. je_ptr (jrnl s ! i) \<noteq> p) is) \<and> null_at p is s s' \<and>
    (\<forall>j. j \<notin> set is \<longrightarrow> l \<noteq> Next j \<longrightarrow> jrnl s' ! j = jrnl s ! j) \<and> (\<forall>b. l \<noteq> Head b \<longrightarrow> jbuckets s' ! b = jbuckets s ! b)"
  using assms(1-4)
proof (induction "is" arbitrary: l r s)
  case Nil
  then show ?case by (subst forget_loop.simps) (simp add: null_at_def)
next
  case (Cons i "is")
  have v: "get_link l s = Suc i" and ch: "jchain (jrnl s) (je_next (jrnl s ! i)) is" using Cons.prems(1) by simp_all
  have i: "i < length (jrnl s)" "i \<notin> set is" using Cons.prems by simp_all
  show ?case
  proof (cases "je_ptr (jrnl s ! i) = p")
    case True
    define t where "t = jrnl_unlink l i s"
    note u = unlink_effect [OF Cons.prems(3) i, folded t_def]
    have same: "jdata (jrnl t ! j) = jdata (jrnl s ! j)" if "j \<in> set is" for j using u(6) that i(2) by metis
    then have ptr: "je_ptr (jrnl t ! j) = je_ptr (jrnl s ! j)" if "j \<in> set is" for j using that by (simp add: jdata_def)
    have nx: "jrnl t ! j = jrnl s ! j" if "j \<in> set is" for j
      using u(7) [of j] that i(2) Cons.prems(3) by (cases l) (auto simp: link_ok_def)
    have c: "jchain (jrnl t) (get_link l t) is" using ch u(1) jchain_cong [of "is" "jrnl t" "jrnl s"] nx by simp
    have "\<forall>j \<in> set is. j < length (jrnl t)" using Cons.prems(4) u(3) by simp
    from Cons.IH [OF c _ u(2) this, of True] obtain s' where
      s': "forget_loop p l True t = Some (True, s')" "jchain (jrnl s') (get_link l s') (filter (\<lambda>i. je_ptr (jrnl t ! i) \<noteq> p) is)"
        "null_at p is t s'" "\<forall>j. j \<notin> set is \<longrightarrow> l \<noteq> Next j \<longrightarrow> jrnl s' ! j = jrnl t ! j" "\<forall>b. l \<noteq> Head b \<longrightarrow> jbuckets s' ! b = jbuckets t ! b"
      using Cons.prems(2) by auto
    have f: "filter (\<lambda>i. je_ptr (jrnl t ! i) \<noteq> p) is = filter (\<lambda>i. je_ptr (jrnl s ! i) \<noteq> p) is"
      "filter (\<lambda>i. je_ptr (jrnl t ! i) = p) is = filter (\<lambda>i. je_ptr (jrnl s ! i) = p) is"
      by (auto intro!: filter_cong simp: ptr)
    have n: "null_at p (i # is) s s'"
      unfolding null_at_def
    proof (intro conjI allI impI)
      fix j assume j: "j < length (jrnl s)"
      show "jdata (jrnl s' ! j) = (if j \<in> set (i # is) \<and> je_ptr (jrnl s ! j) = p then jdata ((jrnl s ! j)\<lparr>je_ptr := 0\<rparr>) else jdata (jrnl s ! j))"
        using s'(3) j True u(3,5) u(6) [of j] i nx ptr by (cases "j = i") (auto simp: null_at_def)
    next
      show "s' = s\<lparr>jrnl := jrnl s', jbuckets := jbuckets s', jlive := jlive s'\<rparr>"
        using s'(3) unfolding null_at_def by (intro rest_trans [OF u(10)]) (elim conjE)
    qed (use s'(3) u(3,4,9) f True in \<open>auto simp: null_at_def\<close>)
    have "forget_loop p l r s = Some (r \<or> (\<exists>k \<in> set (i # is). je_ptr (jrnl s ! k) = p), s')"
      using s'(1) v True by (subst forget_loop.simps) (simp add: t_def)
    then show ?thesis using s'(2,4,5) u(7,8) f n True by (intro exI [of _ s']) auto
  next
    case False
    have c: "jchain (jrnl s) (get_link (Next i) s) is" "link_ok (Next i) is s" using ch i by (simp_all add: link_ok_def)
    from Cons.IH [OF c(1) _ c(2), of r] Cons.prems obtain s' where
      s': "forget_loop p (Next i) r s = Some (r \<or> (\<exists>k \<in> set is. je_ptr (jrnl s ! k) = p), s')"
        "jchain (jrnl s') (get_link (Next i) s') (filter (\<lambda>i. je_ptr (jrnl s ! i) \<noteq> p) is)"
        "null_at p is s s'" "\<forall>j. j \<notin> set is \<longrightarrow> Next i \<noteq> Next j \<longrightarrow> jrnl s' ! j = jrnl s ! j"
        "\<forall>b. jbuckets s' ! b = jbuckets s ! b"
      by auto
    have g: "get_link l s' = Suc i"
      using v s'(4,5) Cons.prems(3) by (cases l) (auto simp: link_ok_def)
    have "null_at p (i # is) s s'" using s'(3) False unfolding null_at_def by auto
    moreover have "forget_loop p l r s = Some (r \<or> (\<exists>k \<in> set (i # is). je_ptr (jrnl s ! k) = p), s')"
      using s'(1) v False by (subst forget_loop.simps) simp
    ultimately show ?thesis using s'(2,4,5) g False by (intro exI [of _ s']) auto
  qed
qed

lemma pop_tail:
  obtains ys where "es = rev (dropWhile P (rev es)) @ ys" "\<forall>y \<in> set ys. P y"
proof -
  have "rev es = takeWhile P (rev es) @ dropWhile P (rev es)" by simp
  then have "es = rev (dropWhile P (rev es)) @ rev (takeWhile P (rev es))" by (metis rev_append rev_rev_ident)
  moreover have "\<forall>y \<in> set (rev (takeWhile P (rev es))). P y" by (auto dest: set_takeWhileD)
  ultimately show ?thesis using that by blast
qed

lemma pop_last:
  "rev (dropWhile P (rev es)) \<noteq> [] \<Longrightarrow> \<not> P (last (rev (dropWhile P (rev es))))"
  by (metis last_rev hd_dropWhile rev_is_Nil_conv)

lemma jinv_shrink:
  assumes "jinv s" "jindex t" "t = s\<lparr>jrnl := jrnl t, jbuckets := jbuckets t, jlive := jlive t\<rparr>"
    and "jlive t = length (jregs t) + drain_depth s" "seqs (jsequence s) (map je_seq (jrnl t))"
    and "je_seq ` set (jrnl t) \<subseteq> je_seq ` set (jrnl s)" "je_ptr ` set (jrnl t) \<subseteq> insert 0 (je_ptr ` set (jrnl s))"
  shows "jinv t"
proof -
  have f: "jslot t = jslot s" "jsequence t = jsequence s" "empty_str t = empty_str s" "drain_depth t = drain_depth s"
    "draining t = draining s" "dseen t = dseen s" "dseen_n t = dseen_n s"
    by (subst assms(3), simp)+
  have e: "\<forall>e \<in> set (jrnl t). je_ptr e \<noteq> empty_str s"
    using assms(1,7) unfolding jinv_def by fastforce
  have "je_seq ` set (jrnl t) \<inter> js_seq ` set (jslot s) = {}" using assms(1,6) unfolding jinv_def by blast
  with assms(1,2,4,5) f e show ?thesis unfolding jinv_def dseen_ok_def by simp
qed

lemma index_take:
  assumes "index_ok cap es n bs" "m \<le> n" "\<forall>i. m \<le> i \<and> i < n \<longrightarrow> je_ptr (es ! i) = 0" "\<And>i. i < m \<Longrightarrow> es' ! i = es ! i"
  shows "index_ok cap es' m bs"
proof -
  have "chain_of cap es' m b = chain_of cap es n b" for b
  proof -
    have "[0..<n] = [0..<m] @ [m..<n]" using upt_add_eq_append [of 0 m "n - m"] assms(2) by simp
    moreover have "filter (\<lambda>i. je_ptr (es ! i) \<noteq> 0 \<and> jrnl_bucket cap (je_ptr (es ! i)) = b) [m..<n] = []"
      using assms(3) by (simp add: filter_empty_conv)
    ultimately have "chain_of cap es n b = chain_of cap es m b" by (simp add: chain_of_def)
    moreover have "chain_of cap es' m b = chain_of cap es m b" by (rule chain_of_cong) (simp add: assms(4))
    ultimately show ?thesis by simp
  qed
  moreover have "jchain es' h (chain_of cap es' m b) = jchain es h (chain_of cap es' m b)" for h b
    by (rule jchain_cong) (simp add: chain_of_set assms(4))
  ultimately show ?thesis using assms(1) by (simp add: index_ok_def)
qed

lemma pop_nulls_ok:
  assumes "jinv s"
  shows "jinv (jrnl_pop_nulls s)" "jregs (jrnl_pop_nulls s) = jregs s"
    "jrnl (jrnl_pop_nulls s) \<noteq> [] \<Longrightarrow> je_ptr (last (jrnl (jrnl_pop_nulls s))) \<noteq> 0"
    "length (jrnl (jrnl_pop_nulls s)) \<le> length (jrnl s)"
proof -
  obtain ys where y: "jrnl s = jrnl (jrnl_pop_nulls s) @ ys" "\<forall>y \<in> set ys. je_ptr y = 0"
    using pop_tail [of "jrnl s" "\<lambda>e. je_ptr e = 0"] by (auto simp: jrnl_pop_nulls_def)
  show r: "jregs (jrnl_pop_nulls s) = jregs s" using y by (simp add: jregs_def live_data_def filter_empty_conv)
  show "length (jrnl (jrnl_pop_nulls s)) \<le> length (jrnl s)" using y(1) by (metis length_append le_add1)
  show "jrnl (jrnl_pop_nulls s) \<noteq> [] \<Longrightarrow> je_ptr (last (jrnl (jrnl_pop_nulls s))) \<noteq> 0"
    using pop_last [of "\<lambda>e. je_ptr e = 0" "jrnl s"] by (simp add: jrnl_pop_nulls_def)
  have ix: "jindex s" using assms by (simp add: jinv_def)
  have "jindex (jrnl_pop_nulls s)"
  proof (cases "jcap s = 0")
    case True
    with ix show ?thesis by (simp add: jindex_def jrnl_pop_nulls_def)
  next
    case False
    with ix have io: "index_ok (jcap s) (jrnl s) (length (jrnl s)) (jbuckets s)" by (simp add: jindex_def)
    have "index_ok (jcap s) (jrnl (jrnl_pop_nulls s)) (length (jrnl (jrnl_pop_nulls s))) (jbuckets s)"
    proof (rule index_take [OF io])
      show "length (jrnl (jrnl_pop_nulls s)) \<le> length (jrnl s)" using y(1) by (metis length_append le_add1)
      show "\<forall>i. length (jrnl (jrnl_pop_nulls s)) \<le> i \<and> i < length (jrnl s) \<longrightarrow> je_ptr (jrnl s ! i) = 0"
        using y(2) by (subst (2) y(1), subst y(1)) (auto simp: nth_append)
      show "jrnl (jrnl_pop_nulls s) ! i = jrnl s ! i" if "i < length (jrnl (jrnl_pop_nulls s))" for i
        using that by (subst y(1)) (simp add: nth_append)
    qed
    moreover have "length (jrnl (jrnl_pop_nulls s)) \<le> length (jrnl s)" using y(1) by (metis length_append le_add1)
    moreover have "jcap (jrnl_pop_nulls s) = jcap s" "jbuckets (jrnl_pop_nulls s) = jbuckets s" by (simp_all add: jrnl_pop_nulls_def)
    ultimately show ?thesis using ix False by (simp add: jindex_def)
  qed
  moreover have "jrnl_pop_nulls s = s\<lparr>jrnl := jrnl (jrnl_pop_nulls s), jbuckets := jbuckets (jrnl_pop_nulls s), jlive := jlive (jrnl_pop_nulls s)\<rparr>"
    by (simp add: jrnl_pop_nulls_def)
  moreover have "jlive (jrnl_pop_nulls s) = length (jregs (jrnl_pop_nulls s)) + drain_depth s"
    unfolding r using assms by (simp add: jinv_def jrnl_pop_nulls_def)
  moreover have "seqs (jsequence s) (map je_seq (jrnl s))" using assms by (simp add: jinv_def)
  then have "seqs (jsequence s) (map je_seq (jrnl (jrnl_pop_nulls s)))"
    by (subst (asm) y(1)) (auto simp: seqs_def sorted_wrt_append)
  moreover have "set (jrnl (jrnl_pop_nulls s)) \<subseteq> set (jrnl s)" using arg_cong [OF y(1), of set] by auto
  ultimately show "jinv (jrnl_pop_nulls s)" by (intro jinv_shrink [OF assms]) auto
qed

lemma filter_index: "map (\<lambda>i. xs ! i) (filter (\<lambda>i. Q (xs ! i)) [0..<length xs]) = filter Q xs"
  using filter_map [of Q "(!) xs" "[0..<length xs]"] by (simp add: map_nth o_def)

lemma forget_count:
  assumes "index_ok cap es (length es) bs" "p \<noteq> 0"
  shows "length (filter (\<lambda>i. je_ptr (es ! i) = p) (chain_of cap es (length es) (jrnl_bucket cap p))) =
    length (filter (\<lambda>r. r_ptr r = p) (live_data es))"
proof -
  have "length (filter (\<lambda>i. je_ptr (es ! i) = p) (chain_of cap es (length es) (jrnl_bucket cap p))) =
    length (filter (\<lambda>i. je_ptr (es ! i) = p) [0..<length es])"
    unfolding chain_of_def using assms(2) by (simp add: rev_filter [symmetric] conj_commute) (rule arg_cong [where f = length], rule filter_cong, auto)
  also have "\<dots> = length (filter (\<lambda>e. je_ptr e = p) es)"
    using filter_index [of es "\<lambda>e. je_ptr e = p"] by (metis length_map)
  also have "\<dots> = length (filter (\<lambda>r. r_ptr r = p) (live_data es))"
    using assms(2) by (simp add: live_data_def filter_map o_def) (rule arg_cong [where f = length], rule filter_cong, auto)
  finally show ?thesis .
qed

definition nulled :: "nat \<Rightarrow> jentry \<Rightarrow> jentry" where
  "nulled p e = (if je_ptr e = p then e\<lparr>je_ptr := 0\<rparr> else e)"

lemma live_data_nulled:
  "map jdata es' = map (\<lambda>e. jdata (nulled p e)) es \<Longrightarrow> p \<noteq> 0 \<Longrightarrow> live_data es' = filter (\<lambda>r. r_ptr r \<noteq> p) (live_data es)"
  unfolding live_data_def by (induction es arbitrary: es') (auto simp: nulled_def jdata_def Cons_eq_map_conv map_eq_Cons_conv)

lemma nulled_images:
  assumes "map jdata es' = map (\<lambda>e. jdata (nulled p e)) es"
  shows "map je_seq es' = map je_seq es" "je_ptr ` set es' \<subseteq> insert 0 (je_ptr ` set es)"
proof -
  have m: "map f (map jdata es') = map f (map (\<lambda>e. jdata (nulled p e)) es)" for f :: "reg \<Rightarrow> nat" by (simp only: assms)
  show "map je_seq es' = map je_seq es"
    using m [of "\<lambda>r. r_seq r"] by (simp add: o_def nulled_def if_distrib [of je_seq] cong: if_cong)
  have "map je_ptr es' = map (\<lambda>e. je_ptr (nulled p e)) es" using m [of "\<lambda>r. r_ptr r"] by (simp add: o_def)
  then have "je_ptr ` set es' = (\<lambda>e. je_ptr (nulled p e)) ` set es" by (metis image_set)
  then show "je_ptr ` set es' \<subseteq> insert 0 (je_ptr ` set es)" by (auto simp: nulled_def)
qed

lemma chain_of_nulled:
  assumes "\<And>i. i < n \<Longrightarrow> je_ptr (es' ! i) = (if je_ptr (es ! i) = p then 0 else je_ptr (es ! i))"
  shows "chain_of cap es' n b = filter (\<lambda>i. je_ptr (es ! i) \<noteq> p) (chain_of cap es n b)"
  unfolding chain_of_def using assms by (auto simp: rev_filter [symmetric] intro!: arg_cong [where f = rev] filter_cong split: if_splits)

lemma forget_body_ok:
  assumes "jinv s" "jcap s \<noteq> 0" "p \<noteq> 0"
  obtains s' where "jrnl_forget_body p s = Some s'" "jinv s'" "jregs s' = filter (\<lambda>r. r_ptr r \<noteq> p) (jregs s)"
    "s' = s\<lparr>jrnl := jrnl s', jbuckets := jbuckets s', jlive := jlive s'\<rparr>"
proof -
  define b where "b = jrnl_bucket (jcap s) p"
  define ch where "ch = chain_of (jcap s) (jrnl s) (length (jrnl s)) b"
  have ix: "jindex s" and live: "jlive s = length (jregs s) + drain_depth s" using assms(1) by (simp_all add: jinv_def)
  have io: "index_ok (jcap s) (jrnl s) (length (jrnl s)) (jbuckets s)" using ix assms(2) by (simp add: jindex_def)
  have b: "b < 2 * jcap s" unfolding b_def by (rule jinv_bucket [OF ix assms(2)])
  have jc: "jchain (jrnl s) (get_link (Head b) s) ch" using io b by (simp add: index_ok_def ch_def)
  have lk: "link_ok (Head b) ch s" using io b by (simp add: link_ok_def index_ok_def)
  have inb: "\<forall>i \<in> set ch. i < length (jrnl s)" by (simp add: ch_def chain_of_set)
  from forget_loop_effect [OF jc _ lk inb assms(3), of False] obtain t where
    t: "forget_loop p (Head b) False s = Some (\<exists>i \<in> set ch. je_ptr (jrnl s ! i) = p, t)"
      "jchain (jrnl t) (jbuckets t ! b) (filter (\<lambda>i. je_ptr (jrnl s ! i) \<noteq> p) ch)" "null_at p ch s t"
      "\<forall>j. j \<notin> set ch \<longrightarrow> jrnl t ! j = jrnl s ! j" "\<forall>b'. b' \<noteq> b \<longrightarrow> jbuckets t ! b' = jbuckets s ! b'"
    by (auto simp: ch_def chain_of_distinct)
  have rest: "t = s\<lparr>jrnl := jrnl t, jbuckets := jbuckets t, jlive := jlive t\<rparr>"
    and len: "length (jrnl t) = length (jrnl s)" "length (jbuckets t) = length (jbuckets s)"
    using t(3) unfolding null_at_def by blast+
  have mem: "i \<in> set ch" if "i < length (jrnl s)" "je_ptr (jrnl s ! i) = p" for i
    using that assms(3) by (simp add: ch_def chain_of_set b_def)
  have at: "jdata (jrnl t ! i) = jdata (nulled p (jrnl s ! i))" if "i < length (jrnl s)" for i
    using t(3) mem [OF that] that by (auto simp: null_at_def nulled_def)
  have data: "map jdata (jrnl t) = map (\<lambda>e. jdata (nulled p e)) (jrnl s)" by (rule nth_equalityI) (simp_all add: len at)
  have regs: "jregs t = filter (\<lambda>r. r_ptr r \<noteq> p) (jregs s)" unfolding jregs_def by (rule live_data_nulled [OF data assms(3)])
  have ptr: "je_ptr (jrnl t ! i) = (if je_ptr (jrnl s ! i) = p then 0 else je_ptr (jrnl s ! i))" if "i < length (jrnl s)" for i
    using at [OF that] by (auto simp: jdata_def nulled_def)
  have cap: "jcap t = jcap s" by (subst rest) simp
  have "index_ok (jcap t) (jrnl t) (length (jrnl t)) (jbuckets t)"
    unfolding index_ok_def
  proof (intro conjI allI impI)
    show "length (jbuckets t) = 2 * jcap t" using io len cap by (simp add: index_ok_def)
    fix b' assume b': "b' < 2 * jcap t"
    have c: "chain_of (jcap s) (jrnl t) (length (jrnl s)) b' = filter (\<lambda>i. je_ptr (jrnl s ! i) \<noteq> p) (chain_of (jcap s) (jrnl s) (length (jrnl s)) b')"
      by (rule chain_of_nulled) (simp add: ptr)
    show "jchain (jrnl t) (jbuckets t ! b') (chain_of (jcap t) (jrnl t) (length (jrnl t)) b')"
    proof (cases "b' = b")
      case True
      then show ?thesis using t(2) c by (simp add: ch_def cap len)
    next
      case False
      have "filter (\<lambda>i. je_ptr (jrnl s ! i) \<noteq> p) (chain_of (jcap s) (jrnl s) (length (jrnl s)) b') = chain_of (jcap s) (jrnl s) (length (jrnl s)) b'"
        using False by (auto simp: filter_id_conv chain_of_set b_def)
      moreover have "jchain (jrnl t) h (chain_of (jcap s) (jrnl s) (length (jrnl s)) b') = jchain (jrnl s) h (chain_of (jcap s) (jrnl s) (length (jrnl s)) b')" for h
        using t(4) False by (intro jchain_cong) (auto simp: ch_def chain_of_set)
      ultimately show ?thesis using io b' False t(5) c by (simp add: cap len index_ok_def)
    qed
  qed
  then have jt: "jindex t" using ix assms(2) cap len by (simp add: jindex_def)
  have "jlive t = jlive s - length (filter (\<lambda>r. r_ptr r = p) (jregs s))"
    using t(3) forget_count [OF io assms(3)] by (simp add: null_at_def ch_def b_def jregs_def)
  then have lt: "jlive t = length (jregs t) + drain_depth s"
    using live sum_length_filter_compl [of "\<lambda>r. r_ptr r = p" "jregs s"] by (simp add: regs)
  note im = nulled_images [OF data]
  have "seqs (jsequence s) (map je_seq (jrnl s))" using assms(1) by (simp add: jinv_def)
  moreover have "je_seq ` set (jrnl t) = je_seq ` set (jrnl s)" using im(1) by (metis image_set)
  ultimately have inv: "jinv t" using jt rest lt im by (intro jinv_shrink [OF assms(1)]) auto
  define s' where "s' = (if \<exists>i \<in> set ch. je_ptr (jrnl s ! i) = p then jrnl_pop_nulls t else t)"
  show ?thesis
  proof (rule that)
    show "jrnl_forget_body p s = Some s'" using t(1) by (simp add: jrnl_forget_body_def b_def s'_def)
    show "jinv s'" "jregs s' = filter (\<lambda>r. r_ptr r \<noteq> p) (jregs s)" using inv regs pop_nulls_ok [OF inv] by (simp_all add: s'_def)
    have "jrnl_pop_nulls t = t\<lparr>jrnl := jrnl (jrnl_pop_nulls t), jbuckets := jbuckets (jrnl_pop_nulls t), jlive := jlive (jrnl_pop_nulls t)\<rparr>"
      by (simp add: jrnl_pop_nulls_def)
    then show "s' = s\<lparr>jrnl := jrnl s', jbuckets := jbuckets s', jlive := jlive s'\<rparr>"
      using rest unfolding s'_def by (auto intro: rest_trans [OF rest])
  qed
qed

end
