(* ===== verification/JournalOps.thy ===== *)
theory JournalOps
  imports JournalInv
begin

text \<open>
  What leaving an extent, the slot registrations, a free and the drain's record do to a well
  formed journal, in terms of its registrations.
\<close>

section \<open>Truncation\<close>

lemma regs_sorted: "jinv s \<Longrightarrow> sorted_wrt (<) (map r_seq (jregs s))"
  unfolding jinv_def seqs_data jregs_def live_data_def seqs_def by (auto simp: sorted_wrt_map sorted_wrt_filter)

lemma regs_last:
  assumes "jrnl s \<noteq> []" "je_ptr (last (jrnl s)) \<noteq> 0"
  shows "jregs s = live_data (butlast (jrnl s)) @ [jdata (last (jrnl s))]"
  using assms unfolding jregs_def live_data_def
  by (subst append_butlast_last_id [symmetric, OF assms(1)]) (simp only: map_append filter_append, simp)

lemma regs_Nil: "jrnl s \<noteq> [] \<Longrightarrow> je_ptr (last (jrnl s)) \<noteq> 0 \<Longrightarrow> last (jregs s) = jdata (last (jrnl s))"
  by (simp add: regs_last)

lemma truncate_step:
  assumes "jinv s" "jrnl s \<noteq> []" "je_ptr (last (jrnl s)) \<noteq> 0"
  defines "b \<equiv> jrnl_bucket (jcap s) (je_ptr (last (jrnl s)))"
  shows "unlink_walk (length (jrnl s)) (Head b) s = Some (Head b)"
    and "jinv (jrnl_unlink (Head b) (length (jrnl s) - 1) s)"
    and "jregs (jrnl_unlink (Head b) (length (jrnl s) - 1) s) = butlast (jregs s)"
    and "\<exists>es bs n. jrnl_unlink (Head b) (length (jrnl s) - 1) s = s\<lparr>jrnl := es, jbuckets := bs, jlive := n\<rparr>"
proof -
  obtain xs e where xe: "jrnl s = xs @ [e]" using assms(2) by (metis append_butlast_last_id)
  define n where "n = length xs"
  have e: "last (jrnl s) = e" "jrnl s ! n = e" "length (jrnl s) = Suc n" by (simp_all add: xe n_def)
  have ix: "jindex s" and live: "jlive s = length (jregs s) + drain_depth s" using assms(1) by (simp_all add: jinv_def)
  have cap: "jcap s \<noteq> 0" using ix assms(2) by (auto simp: jindex_def split: if_splits)
  have io: "index_ok (jcap s) (jrnl s) (Suc n) (jbuckets s)" using ix cap e by (simp add: jindex_def)
  have b: "b < 2 * jcap s" unfolding b_def by (rule jinv_bucket [OF ix cap])
  have jc: "jchain (jrnl s) (jbuckets s ! b) (n # chain_of (jcap s) (jrnl s) n b)"
    using io b assms(3) e by (auto simp: index_ok_def chain_of_Suc b_def)
  show "unlink_walk (length (jrnl s)) (Head b) s = Some (Head b)"
    using jc e by (subst unlink_walk.simps) simp
  define t where "t = jrnl_unlink (Head b) (length (jrnl s) - 1) s"
  have t: "t = s\<lparr>jbuckets := (jbuckets s)[b := je_next e], jrnl := xs @ [e\<lparr>je_ptr := 0\<rparr>], jlive := jlive s - 1\<rparr>"
    by (simp add: t_def jrnl_unlink_def Let_def e) (simp add: xe n_def)
  show ex: "\<exists>es bs n. jrnl_unlink (Head b) (length (jrnl s) - 1) s = s\<lparr>jrnl := es, jbuckets := bs, jlive := n\<rparr>"
    unfolding t_def [symmetric] t by (intro exI [of _ "xs @ [e\<lparr>je_ptr := 0\<rparr>]"] exI [of _ "(jbuckets s)[b := je_next e]"] exI [of _ "jlive s - 1"]) simp
  have c: "chain_of (jcap s) (xs @ [e\<lparr>je_ptr := 0\<rparr>]) (Suc n) b' = chain_of (jcap s) (jrnl s) n b'" for b'
    unfolding chain_of_Suc by (simp add: n_def) (rule chain_of_cong, simp add: xe nth_append)
  have nx: "jchain (xs @ [e\<lparr>je_ptr := 0\<rparr>]) h (chain_of (jcap s) (jrnl s) n b') = jchain (jrnl s) h (chain_of (jcap s) (jrnl s) n b')" for h b'
    by (rule jchain_cong) (auto simp: chain_of_set xe nth_append n_def)
  have "index_ok (jcap s) (xs @ [e\<lparr>je_ptr := 0\<rparr>]) (Suc n) ((jbuckets s)[b := je_next e])"
    unfolding index_ok_def
  proof (intro conjI allI impI)
    show "length ((jbuckets s)[b := je_next e]) = 2 * jcap s" using io by (simp add: index_ok_def)
    fix b' assume b': "b' < 2 * jcap s"
    show "jchain (xs @ [e\<lparr>je_ptr := 0\<rparr>]) ((jbuckets s)[b := je_next e] ! b') (chain_of (jcap s) (xs @ [e\<lparr>je_ptr := 0\<rparr>]) (Suc n) b')"
      unfolding c nx using io b' jc e b by (cases "b' = b") (auto simp: index_ok_def chain_of_Suc b_def split: if_splits)
  qed
  then have "jindex t" using ix cap by (simp add: t jindex_def n_def xe)
  moreover have r: "jregs t = butlast (jregs s)"
    using assms(3) e by (simp add: t regs_last [OF assms(2,3)]) (simp add: xe jregs_def live_data_def)
  moreover have "jregs s \<noteq> []" using regs_last [OF assms(2,3)] by simp
  then have "jlive t = length (jregs t) + drain_depth s" using live by (cases "jregs s") (simp_all add: r, simp_all add: t)
  moreover have "map je_seq (jrnl t) = map je_seq (jrnl s)" by (simp add: t xe)
  moreover have "seqs (jsequence s) (map je_seq (jrnl s))" using assms(1) by (simp add: jinv_def)
  moreover have "t = s\<lparr>jrnl := jrnl t, jbuckets := jbuckets t, jlive := jlive t\<rparr>" by (simp add: t)
  moreover have "je_ptr ` set (jrnl t) \<subseteq> insert 0 (je_ptr ` set (jrnl s))" by (auto simp: t xe)
  moreover have "je_seq ` set (jrnl t) = je_seq ` set (jrnl s)" by (auto simp: t xe)
  ultimately show "jinv (jrnl_unlink (Head b) (length (jrnl s) - 1) s)"
    unfolding t_def [symmetric] by (intro jinv_shrink [OF assms(1)]; simp only: subset_refl)
  show "jregs (jrnl_unlink (Head b) (length (jrnl s) - 1) s) = butlast (jregs s)"
    unfolding t_def [symmetric] by (rule r)
qed

lemma pop_rest: "jrnl_pop_nulls s = s\<lparr>jrnl := jrnl (jrnl_pop_nulls s), jbuckets := jbuckets (jrnl_pop_nulls s), jlive := jlive (jrnl_pop_nulls s)\<rparr>"
  by (simp add: jrnl_pop_nulls_def)

lemma filter_last:
  assumes "sorted_wrt (<) (map f xs)" "xs \<noteq> []"
  shows "f (last xs) \<le> m \<Longrightarrow> filter (\<lambda>x. f x \<le> (m :: nat)) xs = xs"
    and "m < f (last xs) \<Longrightarrow> filter (\<lambda>x. f x \<le> m) xs = filter (\<lambda>x. f x \<le> m) (butlast xs)"
proof -
  obtain ys y where xs: "xs = ys @ [y]" using assms(2) by (metis append_butlast_last_id)
  show "f (last xs) \<le> m \<Longrightarrow> filter (\<lambda>x. f x \<le> m) xs = xs"
    using assms(1) by (fastforce simp: xs filter_id_conv sorted_wrt_append)
  show "m < f (last xs) \<Longrightarrow> filter (\<lambda>x. f x \<le> m) xs = filter (\<lambda>x. f x \<le> m) (butlast xs)"
    by (simp add: xs)
qed

lemma truncate_loop_ok:
  assumes "jinv s" "jrnl s \<noteq> [] \<longrightarrow> je_ptr (last (jrnl s)) \<noteq> 0"
  shows "\<exists>es bs n. truncate_loop mark s = Some (s\<lparr>jrnl := es, jbuckets := bs, jlive := n\<rparr>) \<and>
    jinv (s\<lparr>jrnl := es, jbuckets := bs, jlive := n\<rparr>) \<and> live_data es = filter (\<lambda>r. r_seq r \<le> mark) (jregs s)"
  using assms
proof (induction "length (jrnl s)" arbitrary: s rule: less_induct)
  case less
  show ?case
  proof (cases "jrnl s \<noteq> [] \<and> je_seq (last (jrnl s)) > mark")
    case True
    then have ne: "jrnl s \<noteq> []" and last: "je_ptr (last (jrnl s)) \<noteq> 0" using less.prems(2) by auto
    define b where "b = jrnl_bucket (jcap s) (je_ptr (last (jrnl s)))"
    define t where "t = jrnl_unlink (Head b) (length (jrnl s) - 1) s"
    note st = truncate_step [OF less.prems(1) ne last, folded b_def, folded t_def]
    note pn = pop_nulls_ok [OF st(2)]
    obtain es bs n where t: "t = s\<lparr>jrnl := es, jbuckets := bs, jlive := n\<rparr>" using st(4) by blast
    have lt: "length (jrnl t) = length (jrnl s)" by (simp add: t_def jrnl_unlink_def Let_def)
    have nul: "je_ptr (last (jrnl t)) = 0"
    proof -
      have "last (jrnl t) = jrnl t ! (length (jrnl s) - 1)" using lt ne by (metis last_conv_nth length_0_conv)
      then show ?thesis using ne by (simp add: t_def jrnl_unlink_def Let_def)
    qed
    have "length (jrnl (jrnl_pop_nulls t)) < length (jrnl s)"
    proof (rule ccontr)
      assume "\<not> ?thesis"
      with pn(4) lt have "length (jrnl (jrnl_pop_nulls t)) = length (jrnl t)" by simp
      moreover obtain ys where "jrnl t = jrnl (jrnl_pop_nulls t) @ ys"
        using pop_tail [of "jrnl t" "\<lambda>e. je_ptr e = 0"] by (auto simp: jrnl_pop_nulls_def)
      ultimately have "jrnl (jrnl_pop_nulls t) = jrnl t" by (metis append_Nil2 append_eq_append_conv)
      then show False using pn(3) nul ne lt by (metis length_0_conv)
    qed
    from less.hyps [OF this pn(1)] pn(3) obtain es' bs' n' where
      u: "truncate_loop mark (jrnl_pop_nulls t) = Some ((jrnl_pop_nulls t)\<lparr>jrnl := es', jbuckets := bs', jlive := n'\<rparr>)"
        "jinv ((jrnl_pop_nulls t)\<lparr>jrnl := es', jbuckets := bs', jlive := n'\<rparr>)"
        "live_data es' = filter (\<lambda>r. r_seq r \<le> mark) (jregs (jrnl_pop_nulls t))" by blast
    have eq: "(jrnl_pop_nulls t)\<lparr>jrnl := es', jbuckets := bs', jlive := n'\<rparr> = s\<lparr>jrnl := es', jbuckets := bs', jlive := n'\<rparr>"
      by (simp add: jrnl_pop_nulls_def t)
    have "filter (\<lambda>r. r_seq r \<le> mark) (butlast (jregs s)) = filter (\<lambda>r. r_seq r \<le> mark) (jregs s)"
      using filter_last(2) [OF regs_sorted [OF less.prems(1)], of mark] True regs_Nil [OF ne last] regs_last [OF ne last] by simp
    moreover have "truncate_loop mark s = truncate_loop mark (jrnl_pop_nulls t)"
      using True st(1) by (subst truncate_loop.simps) (simp add: b_def [symmetric] t_def)
    ultimately show ?thesis using u unfolding eq pn(2) st(3) by (intro exI [of _ es'] exI [of _ bs'] exI [of _ n']) simp
  next
    case False
    have "filter (\<lambda>r. r_seq r \<le> mark) (jregs s) = jregs s"
    proof (cases "jrnl s = []")
      case True
      then show ?thesis by (simp add: jregs_def live_data_def)
    next
      case ne: False
      then have last: "je_ptr (last (jrnl s)) \<noteq> 0" using less.prems(2) by blast
      show ?thesis
        using filter_last(1) [OF regs_sorted [OF less.prems(1)], of mark] False ne regs_Nil [OF ne last] regs_last [OF ne last] by simp
    qed
    moreover have "truncate_loop mark s = Some s" using False by (subst truncate_loop.simps) auto
    moreover have "s = s\<lparr>jrnl := jrnl s, jbuckets := jbuckets s, jlive := jlive s\<rparr>" by simp
    ultimately show ?thesis using less.prems(1)
      by (intro exI [of _ "jrnl s"] exI [of _ "jbuckets s"] exI [of _ "jlive s"]) (simp add: jregs_def)
  qed
qed

section \<open>Slots\<close>

lemma jinv_slots:
  assumes "jinv s" "jslot s = xs @ ys"
  shows "jinv (s\<lparr>jslot := xs\<rparr>)"
proof -
  have "seqs (jsequence s) (map js_seq xs)" using assms by (auto simp: jinv_def seqs_def sorted_wrt_append)
  moreover have "set xs \<subseteq> set (jslot s)" using assms(2) by auto
  ultimately show ?thesis using assms(1) unfolding jinv_def by (auto simp: jindex_def jregs_def dseen_ok_def)
qed

lemma slot_pop_ok:
  "\<exists>xs ys. jslot_pop_nulls s = s\<lparr>jslot := xs\<rparr> \<and> jslot s = xs @ ys \<and> filter (\<lambda>e. js_slot e \<noteq> 0) xs = jslots s \<and>
    (xs \<noteq> [] \<longrightarrow> js_slot (last xs) \<noteq> 0)"
proof -
  obtain ys where y: "jslot s = rev (dropWhile (\<lambda>e. js_slot e = 0) (rev (jslot s))) @ ys" "\<forall>y \<in> set ys. js_slot y = 0"
    using pop_tail [of "jslot s" "\<lambda>e. js_slot e = 0"] by blast
  have "jslots s = filter (\<lambda>e. js_slot e \<noteq> 0) (rev (dropWhile (\<lambda>e. js_slot e = 0) (rev (jslot s))))"
    unfolding jslots_def using y(2) by (subst y(1)) (simp add: filter_empty_conv)
  with y(1) pop_last [of "\<lambda>e. js_slot e = 0" "jslot s"] show ?thesis
    by (intro exI [of _ "rev (dropWhile (\<lambda>e. js_slot e = 0) (rev (jslot s)))"] exI [of _ ys] conjI impI)
      (simp_all only: jslot_pop_nulls_def not_False_eq_True)
qed

lemma slot_truncate_ok:
  assumes "sorted_wrt (<) (map js_seq (jslot s))"
  shows "\<exists>xs ys. slot_truncate mark s = s\<lparr>jslot := xs\<rparr> \<and> jslot s = xs @ ys \<and>
    filter (\<lambda>e. js_slot e \<noteq> 0) xs = filter (\<lambda>e. js_seq e \<le> mark) (jslots s)"
  using assms
proof (induction mark s rule: slot_truncate.induct)
  case (1 mark s)
  show ?case
  proof (cases "jslot s \<noteq> [] \<and> js_seq (last (jslot s)) > mark")
    case True
    define t where "t = s\<lparr>jslot := butlast (jslot s)\<rparr>"
    obtain zs e where ze: "jslot s = zs @ [e]" using True by (metis append_butlast_last_id)
    obtain xs ys where p: "jslot_pop_nulls t = t\<lparr>jslot := xs\<rparr>" "jslot t = xs @ ys" "filter (\<lambda>e. js_slot e \<noteq> 0) xs = jslots t"
      using slot_pop_ok [of t] by blast
    have zs: "zs = xs @ ys" using p(2) by (simp add: t_def ze)
    have "sorted_wrt (<) (map js_seq (jslot (jslot_pop_nulls t)))" using 1(2) by (simp add: p(1) ze zs sorted_wrt_append)
    from 1(1) [folded t_def, OF True this] obtain us vs where
      u: "slot_truncate mark (jslot_pop_nulls t) = (jslot_pop_nulls t)\<lparr>jslot := us\<rparr>" "jslot (jslot_pop_nulls t) = us @ vs"
        "filter (\<lambda>e. js_slot e \<noteq> 0) us = filter (\<lambda>e. js_seq e \<le> mark) (jslots (jslot_pop_nulls t))" by blast
    have "jslots (jslot_pop_nulls t) = jslots t" using p(1,3) by (simp add: jslots_def)
    moreover have "filter (\<lambda>e. js_seq e \<le> mark) (jslots s) = filter (\<lambda>e. js_seq e \<le> mark) (jslots t)"
      using True by (simp add: jslots_def t_def ze)
    moreover have "slot_truncate mark s = s\<lparr>jslot := us\<rparr>"
      using True u(1) unfolding slot_truncate.simps [of mark s] p(1) by (simp add: t_def [symmetric] p(1)) (simp add: t_def)
    moreover have "jslot s = us @ vs @ ys @ [e]" using u(2) p(1) zs by (simp add: ze)
    ultimately show ?thesis using u(3) by (intro exI [of _ us] exI [of _ "vs @ ys @ [e]"]) simp
  next
    case False
    have "filter (\<lambda>e. js_seq e \<le> mark) (jslot s) = jslot s"
      using filter_last(1) [OF 1(2), of mark] False by (cases "jslot s = []") auto
    then have "filter (\<lambda>e. js_seq e \<le> mark) (jslots s) = jslots s"
      by (simp add: jslots_def filter_id_conv) (rule filter_cong, auto)
    then show ?thesis using False by (intro exI [of _ "jslot s"] exI [of _ "[]"]) (subst slot_truncate.simps, auto simp: jslots_def)
  qed
qed

lemma truncate_ok:
  assumes "jinv s"
  obtains es bs n xs where "jrnl_truncate mark s = Some (s\<lparr>jrnl := es, jbuckets := bs, jlive := n, jslot := xs\<rparr>)"
    "jinv (s\<lparr>jrnl := es, jbuckets := bs, jlive := n, jslot := xs\<rparr>)" "live_data es = filter (\<lambda>r. r_seq r \<le> mark) (jregs s)"
    "filter (\<lambda>e. js_slot e \<noteq> 0) xs = filter (\<lambda>e. js_seq e \<le> mark) (jslots s)"
proof -
  obtain xs ys where p: "jslot_pop_nulls s = s\<lparr>jslot := xs\<rparr>" "jslot s = xs @ ys" "filter (\<lambda>e. js_slot e \<noteq> 0) xs = jslots s"
    using slot_pop_ok [of s] by blast
  have i1: "jinv (jslot_pop_nulls s)" using jinv_slots [OF assms p(2)] p(1) by simp
  then have "sorted_wrt (<) (map js_seq (jslot (jslot_pop_nulls s)))" by (simp add: jinv_def seqs_def)
  from slot_truncate_ok [OF this, of mark] obtain us vs where
    u: "slot_truncate mark (jslot_pop_nulls s) = (jslot_pop_nulls s)\<lparr>jslot := us\<rparr>" "jslot (jslot_pop_nulls s) = us @ vs"
      "filter (\<lambda>e. js_slot e \<noteq> 0) us = filter (\<lambda>e. js_seq e \<le> mark) (jslots (jslot_pop_nulls s))" by blast
  define t where "t = slot_truncate mark (jslot_pop_nulls s)"
  have i2: "jinv t" unfolding t_def u(1) by (rule jinv_slots [OF i1 u(2)])
  have t: "t = s\<lparr>jslot := us\<rparr>" using u(1) p(1) by (simp add: t_def)
  note pn = pop_nulls_ok [OF i2]
  from truncate_loop_ok [OF pn(1)] pn(3) obtain es bs n where
    w: "truncate_loop mark (jrnl_pop_nulls t) = Some ((jrnl_pop_nulls t)\<lparr>jrnl := es, jbuckets := bs, jlive := n\<rparr>)"
      "jinv ((jrnl_pop_nulls t)\<lparr>jrnl := es, jbuckets := bs, jlive := n\<rparr>)"
      "live_data es = filter (\<lambda>r. r_seq r \<le> mark) (jregs (jrnl_pop_nulls t))" by blast
  have eq: "(jrnl_pop_nulls t)\<lparr>jrnl := es, jbuckets := bs, jlive := n\<rparr> = s\<lparr>jrnl := es, jbuckets := bs, jlive := n, jslot := us\<rparr>"
    by (simp add: jrnl_pop_nulls_def t)
  have "jregs t = jregs s" by (simp add: t jregs_def)
  moreover have "jslots (jslot_pop_nulls s) = jslots s" using p by (simp add: jslots_def)
  ultimately show ?thesis using w u(3) pn(2) unfolding eq by (intro that) (auto simp: jrnl_truncate_def t_def)
qed

section \<open>The record of a drain\<close>

abbreviation seen :: "jstate \<Rightarrow> nat set" where
  "seen s \<equiv> pt_keys id (dseen s)"

lemma dseen_grow_ok:
  assumes "dseen_ok s" "draining s"
  obtains t where "dseen_grow s = Some (s\<lparr>dseen := t\<rparr>)" "pt_ok drain_slot id t" "\<exists>k \<ge> 5. length t = 2 ^ k"
    "set (pt_live id t) = set (pt_live id (dseen s))" "dseen_n s = length (pt_live id t)" "2 * dseen_n s < length t"
proof (cases "dseen_n s * 2 \<ge> length (dseen s)")
  case True
  define n where "n = (if dseen s \<noteq> [] then length (dseen s) * 2 else 64)"
  obtain k where k: "n = 2 ^ k" "5 \<le> k"
  proof (cases "dseen s = []")
    case True
    then show ?thesis using that [of 6] by (simp add: n_def)
  next
    case False
    then obtain k where "5 \<le> k" "length (dseen s) = 2 ^ k" using assms(1) by (auto simp: dseen_ok_def)
    then show ?thesis using that [of "Suc k"] False by (simp add: n_def)
  qed
  have c: "dseen_n s = length (pt_live id (dseen s))" "2 * dseen_n s < n"
    using assms(1) unfolding dseen_ok_def n_def by (cases "dseen s"; simp)+
  have "length (pt_live id (replicate n (0 :: nat))) + length (pt_live id (dseen s)) < length (replicate n (0 :: nat))"
    using c by (simp add: pt_live_replicate)
  moreover have "distinct (map id (pt_live id (dseen s)))" using assms(1) by (intro dr.pt_distinct) (simp add: dseen_ok_def)
  ultimately obtain t where t: "rehash drain_slot id (dseen s) (replicate n 0) = Some t" "pt_ok drain_slot id t" "length t = n"
    "set (pt_live id t) = set (pt_live id (dseen s))" "length (pt_live id t) = length (pt_live id (dseen s))"
    using dr.rehash_ok [of "replicate n 0" k "dseen s"] k dr.pt_ok_empty [of 0 n] by (auto simp: pt_live_replicate)
  show ?thesis
  proof (rule that [of t])
    show "dseen_grow s = Some (s\<lparr>dseen := t\<rparr>)" using True t(1) by (simp add: dseen_grow_def n_def)
  qed (use t c k in auto)
next
  case False
  then show ?thesis using that [of "dseen s"] assms by (auto simp: dseen_grow_def dseen_ok_def)
qed

lemma drain_seen_ok:
  assumes "dseen_ok s" "draining s" "p \<noteq> 0"
  shows "\<exists>t n. drain_seen p s = Some (p \<in> seen s, s\<lparr>dseen := t, dseen_n := n\<rparr>) \<and>
    dseen_ok (s\<lparr>dseen := t, dseen_n := n\<rparr>) \<and> pt_keys id t = insert p (seen s)"
proof -
  obtain t where t: "dseen_grow s = Some (s\<lparr>dseen := t\<rparr>)" "pt_ok drain_slot id t" "\<exists>k \<ge> 5. length t = 2 ^ k"
    "set (pt_live id t) = set (pt_live id (dseen s))" "dseen_n s = length (pt_live id t)" "2 * dseen_n s < length t"
    using dseen_grow_ok [OF assms(1,2)] by metis
  obtain k where k: "length t = 2 ^ k" "5 \<le> k" using t(3) by blast
  have room: "length (pt_live id t) < length t" using t(5,6) by simp
  show ?thesis
  proof (cases "p \<in> seen s")
    case True
    then obtain j where j: "j < length t" "t ! j = p" using pt_keysE [of p id t] t(4) by auto
    have "probe id t p (drain_slot (length t) p) = Some j" by (rule dr.probe_present [OF t(2) k room]) (use j assms(3) in simp_all)
    then have "drain_seen p s = Some (True, s\<lparr>dseen := t, dseen_n := dseen_n s\<rparr>)" using t(1) j assms(3) by (simp add: drain_seen_def)
    moreover have "dseen_ok (s\<lparr>dseen := t, dseen_n := dseen_n s\<rparr>)" using t k assms(2) by (auto simp: dseen_ok_def)
    ultimately show ?thesis using True t(4) by (intro exI [of _ t] exI [of _ "dseen_n s"]) (simp add: insert_absorb)
  next
    case False
    then have "p \<notin> pt_keys id t" using t(4) by simp
    from dr.probe_absent [OF t(2) k room this assms(3), of p] obtain j where
      j: "probe id t p (drain_slot (length t) p) = Some j" "j < length t" "id (t ! j) = 0" "pt_ok drain_slot id (t[j := p])"
      by (metis id_apply)
    note u = pt_keys_upd [where key = id, OF j(2,3), of p]
    have "drain_seen p s = Some (False, s\<lparr>dseen := t[j := p], dseen_n := dseen_n s + 1\<rparr>)" using t(1) j by (simp add: drain_seen_def)
    moreover have "even (length t)" using k by (simp add: even_power)
    then have "2 * (dseen_n s + 1) \<le> length t" using t(6) by presburger
    then have "dseen_ok (s\<lparr>dseen := t[j := p], dseen_n := dseen_n s + 1\<rparr>)" using t(5) k assms(2,3) j(4) u by (auto simp: dseen_ok_def)
    ultimately show ?thesis using False t(4) u assms(3) by (intro exI [of _ "t[j := p]"] exI [of _ "dseen_n s + 1"]) simp
  qed
qed

section \<open>Releases\<close>

text \<open>The effect of releasing the blocks \<open>P\<close> while a drain runs: their registrations are gone, and
  each block this drain had not released before is handed back once.\<close>

definition steady :: "jstate \<Rightarrow> jstate \<Rightarrow> bool" where
  "steady s t \<longleftrightarrow> jslot t = jslot s \<and> jsequence t = jsequence s \<and> draining t = draining s \<and> drain_depth t = drain_depth s \<and>
    empty_str t = empty_str s \<and> panic_top t = panic_top s \<and> jactive t = jactive s \<and> last_msg t = last_msg s"

definition handed :: "nat set \<Rightarrow> jstate \<Rightarrow> jstate \<Rightarrow> bool" where
  "handed P s t \<longleftrightarrow> seen t = seen s \<union> P \<and>
    (\<exists>fs. freed t = freed s @ fs \<and> freed_count t = freed_count s + length fs \<and> distinct fs \<and> set fs = P - seen s)"

definition releases :: "nat set \<Rightarrow> jstate \<Rightarrow> jstate \<Rightarrow> bool" where
  "releases P s t \<longleftrightarrow> jinv t \<and> jregs t = filter (\<lambda>r. r_ptr r \<notin> P) (jregs s) \<and> handed P s t \<and> steady s t"

lemma steady_trans: "steady s t \<Longrightarrow> steady t u \<Longrightarrow> steady s u"
  by (simp add: steady_def)

lemma handed_trans:
  assumes "handed P s t" "handed Q t u"
  shows "handed (P \<union> Q) s u"
proof -
  have st: "seen t = seen s \<union> P" and su: "seen u = seen t \<union> Q" using assms by (simp_all add: handed_def)
  obtain fs where f: "freed t = freed s @ fs" "freed_count t = freed_count s + length fs" "distinct fs" "set fs = P - seen s"
    using assms(1) unfolding handed_def by (elim conjE exE)
  obtain gs where g: "freed u = freed t @ gs" "freed_count u = freed_count t + length gs" "distinct gs" "set gs = Q - seen t"
    using assms(2) unfolding handed_def by (elim conjE exE)
  have "distinct (fs @ gs)" "set (fs @ gs) = P \<union> Q - seen s" using f(3,4) g(3,4) unfolding st by auto
  with f g have "\<exists>hs. freed u = freed s @ hs \<and> freed_count u = freed_count s + length hs \<and> distinct hs \<and> set hs = P \<union> Q - seen s"
    by (intro exI [of _ "fs @ gs"]) simp
  moreover have "seen u = seen s \<union> (P \<union> Q)" unfolding su st by blast
  ultimately show ?thesis unfolding handed_def by blast
qed

lemma releases_refl: "jinv s \<Longrightarrow> releases {} s s"
  by (simp add: releases_def handed_def steady_def)

lemma releases_trans:
  assumes "releases P s t" "releases Q t u"
  shows "releases (P \<union> Q) s u"
proof -
  have "jregs u = filter (\<lambda>r. r_ptr r \<notin> P \<union> Q) (jregs s)" using assms unfolding releases_def by simp
  with assms show ?thesis unfolding releases_def by (blast intro: handed_trans steady_trans)
qed

lemma nurl_free_draining:
  assumes "jinv s" "draining s"
  obtains P t where "nurl_free p s = Some t" "releases P s t" "P = {p} - {0, empty_str s}" "jmem t = jmem s"
proof (cases "p = 0 \<or> p = empty_str s")
  case True
  then have "{p} - {0, empty_str s} = {}" by auto
  with True releases_refl [OF assms(1)] show ?thesis by (intro that [of s "{}"]) (auto simp: nurl_free_def)
next
  case False
  have live: "jlive s \<noteq> 0" using assms by (auto simp: jinv_def)
  obtain s1 where s1: "(if jcap s \<noteq> 0 then jrnl_forget_body p s else Some s) = Some s1" "jinv s1"
    "jregs s1 = filter (\<lambda>r. r_ptr r \<noteq> p) (jregs s)" "s1 = s\<lparr>jrnl := jrnl s1, jbuckets := jbuckets s1, jlive := jlive s1\<rparr>"
  proof (cases "jcap s = 0")
    case True
    then have "jregs s = []" using assms(1) by (simp add: jinv_def jindex_def jregs_def live_data_def)
    then show ?thesis using that [of s] True assms(1) by simp
  next
    case cap: False
    have "p \<noteq> 0" using False by simp
    then obtain s' where "jrnl_forget_body p s = Some s'" "jinv s'" "jregs s' = filter (\<lambda>r. r_ptr r \<noteq> p) (jregs s)"
      "s' = s\<lparr>jrnl := jrnl s', jbuckets := jbuckets s', jlive := jlive s'\<rparr>" by (rule forget_body_ok [OF assms(1) cap])
    then show ?thesis using cap by (intro that [of s']) simp_all
  qed
  have same: "dseen s1 = dseen s" "draining s1 = draining s" "freed s1 = freed s" "freed_count s1 = freed_count s" "jslot s1 = jslot s"
    "jsequence s1 = jsequence s" "drain_depth s1 = drain_depth s" "empty_str s1 = empty_str s" "panic_top s1 = panic_top s"
    "jactive s1 = jactive s" "last_msg s1 = last_msg s" "jmem s1 = jmem s"
    by (subst s1(4), simp)+
  have ds: "dseen_ok s1" "draining s1" "p \<noteq> 0" using s1(2) assms(2) same False by (simp_all add: jinv_def)
  obtain d n where d: "drain_seen p s1 = Some (p \<in> seen s1, s1\<lparr>dseen := d, dseen_n := n\<rparr>)"
    "dseen_ok (s1\<lparr>dseen := d, dseen_n := n\<rparr>)" "pt_keys id d = insert p (seen s1)"
    using drain_seen_ok [OF ds] by blast
  define t where "t = (if p \<in> seen s then s1\<lparr>dseen := d, dseen_n := n\<rparr> else release p (s1\<lparr>dseen := d, dseen_n := n\<rparr>))"
  have "nurl_free p s = Some t"
    using False live s1(1) d(1) assms(2) by (simp add: nurl_free_def free_nonnull_def free_journaled_def free_draining_def t_def same)
  moreover have "jinv t"
  proof -
    have "dseen_ok t = dseen_ok (s1\<lparr>dseen := d, dseen_n := n\<rparr>)" by (rule dseen_ok_cong) (simp_all add: t_def release_def)
    moreover have "jindex t = jindex s1" by (rule jindex_cong) (simp_all add: t_def release_def)
    moreover have "jregs t = jregs s1" by (simp add: t_def release_def jregs_def)
    ultimately show ?thesis using s1(2) d(2) unfolding jinv_def by (simp add: t_def release_def)
  qed
  then have "releases {p} s t"
    using s1(3) d(3) False same unfolding releases_def handed_def steady_def by (simp add: t_def release_def jregs_def) blast
  moreover have "{p} - {0, empty_str s} = {p}" using False by auto
  moreover have "jmem t = jmem s" by (simp add: t_def release_def same)
  ultimately show ?thesis using that by simp
qed

end
