(* ===== verification/JournalProps.thy ===== *)
theory JournalProps
  imports JournalOps
begin

text \<open>
  The drain of a panic. A drop function is trusted to release memory through nurl_free only and
  to leave no registration of its own behind; the locale states that law, the drain's lemma rests
  on it, and the runtime's own frame dropper meets it.
\<close>

section \<open>Drop functions\<close>

locale drop_code =
  fixes D :: dropper
  assumes drops: "jinv s \<Longrightarrow> draining s \<Longrightarrow> \<exists>P t. D f x s = Some t \<and> releases P s t \<and> 0 \<notin> P"

definition jframe_only :: dropper where
  "jframe_only f x s = jframe_drop x s"

lemma releases_mem: "releases P s t \<Longrightarrow> releases P (s\<lparr>jmem := m\<rparr>) t"
  by (simp add: releases_def handed_def steady_def jregs_def)

lemma jinv_mem: "jinv (s\<lparr>jmem := m\<rparr>) = jinv s"
  by (simp add: jinv_def jindex_def jregs_def dseen_ok_def)

lemma releases_mem': "releases P (s\<lparr>jmem := m\<rparr>) t \<Longrightarrow> releases P s t"
  by (simp add: releases_def handed_def steady_def jregs_def)

lemma jframe_loop_releases:
  assumes "jinv s" "draining s"
  shows "\<exists>P t. jframe_loop n table k s = Some t \<and> releases P s t \<and> 0 \<notin> P"
  using assms
proof (induction n arbitrary: k s)
  case 0
  then show ?case using releases_refl by auto
next
  case (Suc n)
  define sp where "sp = jmem s (table + 8 * k)"
  show ?case
  proof (cases "sp = 0 \<or> jmem s sp = 0")
    case True
    with Suc show ?thesis by (auto simp: sp_def [symmetric])
  next
    case False
    define s0 where "s0 = s\<lparr>jmem := (jmem s)(sp := 0)\<rparr>"
    have s0: "jinv s0" "draining s0" using Suc.prems by (simp_all add: s0_def jinv_mem)
    obtain P s1 where f: "nurl_free (jmem s sp) s0 = Some s1" "releases P s0 s1" "P = {jmem s sp} - {0, empty_str s0}"
      by (rule nurl_free_draining [OF s0])
    have "jinv s1" "draining s1" using f(2) s0(2) by (simp_all add: releases_def steady_def)
    from Suc.IH [OF this, of "k + 1"] obtain Q t where q: "jframe_loop n table (k + 1) s1 = Some t" "releases Q s1 t" "0 \<notin> Q" by blast
    have "releases P s s1" using f(2) releases_mem' unfolding s0_def by blast
    then have "releases (P \<union> Q) s t" using q(2) by (rule releases_trans)
    then show ?thesis using False f(1,3) q by (auto simp: sp_def [symmetric] s0_def [symmetric])
  qed
qed

interpretation jf: drop_code jframe_only
proof
  fix s f x assume "jinv s" "draining s"
  from jframe_loop_releases [OF this, of "jmem s x" x 1]
  show "\<exists>P t. jframe_only f x s = Some t \<and> releases P s t \<and> 0 \<notin> P"
    by (simp add: jframe_only_def jframe_drop_def)
qed

section \<open>The drain\<close>

text \<open>What draining down to \<open>mark\<close> does: \<open>P\<close> the blocks released, \<open>T\<close> the slots of the typed
  registrations run.\<close>

definition drained :: "nat \<Rightarrow> nat set \<Rightarrow> nat set \<Rightarrow> jstate \<Rightarrow> jstate \<Rightarrow> bool" where
  "drained mark P T s t \<longleftrightarrow> jinv t \<and> jregs t = filter (\<lambda>r. r_ptr r \<notin> P \<union> T) (jregs s) \<and> handed P s t \<and>
    T \<subseteq> r_ptr ` {r \<in> set (jregs s). r_drop r \<noteq> 0 \<and> mark < r_seq r} \<and>
    (\<exists>ys. jslot s = jslot t @ ys \<and> (\<forall>e \<in> set ys. js_slot e = 0 \<or> mark < js_seq e)) \<and> steady s (t\<lparr>jslot := jslot s\<rparr>)"

lemma drained_refl: "jinv s \<Longrightarrow> drained mark {} {} s s"
  by (simp add: drained_def handed_def steady_def)

lemma drained_trans:
  assumes "drained mark P T s t" "drained mark Q U t u"
  shows "drained mark (P \<union> Q) (T \<union> U) s u"
proof -
  obtain ys where y: "jslot s = jslot t @ ys" "\<forall>e \<in> set ys. js_slot e = 0 \<or> mark < js_seq e"
    using assms(1) unfolding drained_def by (elim conjE exE)
  obtain zs where z: "jslot t = jslot u @ zs" "\<forall>e \<in> set zs. js_slot e = 0 \<or> mark < js_seq e"
    using assms(2) unfolding drained_def by (elim conjE exE)
  have "\<exists>ys. jslot s = jslot u @ ys \<and> (\<forall>e \<in> set ys. js_slot e = 0 \<or> mark < js_seq e)"
    using y z by (intro exI [of _ "zs @ ys"]) auto
  moreover have rt: "jregs t = filter (\<lambda>r. r_ptr r \<notin> P \<union> T) (jregs s)" "jregs u = filter (\<lambda>r. r_ptr r \<notin> Q \<union> U) (jregs t)"
    using assms by (simp_all add: drained_def)
  then have "jregs u = filter (\<lambda>r. r_ptr r \<notin> P \<union> Q \<union> (T \<union> U)) (jregs s)" by (auto intro: filter_cong)
  moreover have "U \<subseteq> r_ptr ` {r \<in> set (jregs t). r_drop r \<noteq> 0 \<and> mark < r_seq r}" using assms(2) by (simp add: drained_def)
  then have "U \<subseteq> r_ptr ` {r \<in> set (jregs s). r_drop r \<noteq> 0 \<and> mark < r_seq r}" unfolding rt(1) by auto
  moreover have "steady s (u\<lparr>jslot := jslot s\<rparr>)" using assms unfolding drained_def steady_def by simp
  moreover have "handed (P \<union> Q) s u" using assms handed_trans unfolding drained_def by blast
  ultimately show ?thesis using assms unfolding drained_def by (elim conjE, intro conjI) (assumption | simp)+
qed

lemma releases_drained: "releases P s t \<Longrightarrow> drained mark P {} s t"
  by (simp add: releases_def drained_def steady_def)

lemma handed_same: "dseen t = dseen s \<Longrightarrow> freed t = freed s \<Longrightarrow> freed_count t = freed_count s \<Longrightarrow> handed {} s t"
  by (simp add: handed_def)

lemma pops_drained:
  assumes "jinv s"
  defines "s0 \<equiv> jslot_pop_nulls (jrnl_pop_nulls s)"
  shows "drained mark {} {} s s0" "jrnl s0 \<noteq> [] \<longrightarrow> je_ptr (last (jrnl s0)) \<noteq> 0" "jslot s0 \<noteq> [] \<longrightarrow> js_slot (last (jslot s0)) \<noteq> 0"
    "length (jslot s0) \<le> length (jslot s)"
proof -
  define p where "p = jrnl_pop_nulls s"
  note pn = pop_nulls_ok [OF assms(1), folded p_def]
  obtain xs ys where x: "jslot_pop_nulls p = p\<lparr>jslot := xs\<rparr>" "jslot p = xs @ ys" "filter (\<lambda>e. js_slot e \<noteq> 0) xs = jslots p"
    "xs \<noteq> [] \<longrightarrow> js_slot (last xs) \<noteq> 0" using slot_pop_ok [of p] by blast
  have s0: "s0 = p\<lparr>jslot := xs\<rparr>" using x(1) by (simp add: s0_def p_def)
  have sl: "jslot p = jslot s" by (simp add: p_def jrnl_pop_nulls_def)
  have "\<forall>e \<in> set ys. js_slot e = 0"
    using x(2,3) by (simp add: jslots_def filter_empty_conv)
  moreover have "jinv s0" unfolding s0 by (rule jinv_slots [OF pn(1) x(2)])
  moreover have "jregs s0 = jregs s" using pn(2) by (simp add: s0 jregs_def)
  moreover have "handed {} s s0" by (rule handed_same) (simp_all add: s0 p_def jrnl_pop_nulls_def)
  moreover have "steady s (s0\<lparr>jslot := jslot s\<rparr>)" by (simp add: steady_def s0 p_def jrnl_pop_nulls_def)
  ultimately show "drained mark {} {} s s0" using x(2) sl by (auto simp: drained_def s0)
  show "jrnl s0 \<noteq> [] \<longrightarrow> je_ptr (last (jrnl s0)) \<noteq> 0" "jslot s0 \<noteq> [] \<longrightarrow> js_slot (last (jslot s0)) \<noteq> 0"
    using pn(3) x(4) by (simp_all add: s0)
  show "length (jslot s0) \<le> length (jslot s)" using x(2) sl by (simp add: s0)
qed

context drop_code
begin

lemma slot_step:
  assumes "jinv s" "draining s" "jslot s \<noteq> []" "mark < js_seq (last (jslot s))"
  shows "\<exists>P t. drain_slot_step D s = Some t \<and> drained mark P {} s t \<and> length (jslot t) < length (jslot s) \<and>
    length (jregs t) \<le> length (jregs s)"
proof -
  obtain xs e where xe: "jslot s = xs @ [e]" using assms(3) by (metis append_butlast_last_id)
  define s1 where "s1 = s\<lparr>jslot := xs\<rparr>"
  have i1: "jinv s1" unfolding s1_def by (rule jinv_slots [OF assms(1) xe])
  have d1: "drained mark {} {} s s1"
    using i1 assms(4) by (simp add: drained_def s1_def xe jregs_def handed_def steady_def)
  have "\<exists>P t. (if flag_set (js_flag e) s1 then D (js_drop e) (js_slot e) s1 else Some s1) = Some t \<and> releases P s1 t"
    using drops [OF i1, of "js_drop e" "js_slot e"] assms(2) releases_refl [OF i1] by (auto simp: s1_def)
  then obtain P t where t: "(if flag_set (js_flag e) s1 then D (js_drop e) (js_slot e) s1 else Some s1) = Some t" "releases P s1 t" by blast
  have "drained mark P {} s t" using drained_trans [OF d1 releases_drained [OF t(2)]] by simp
  moreover have "drain_slot_step D s = Some t" using t(1) unfolding drain_slot_step_def s1_def by (simp add: xe Let_def cong: if_cong)
  moreover have "jslot t = xs" using t(2) by (simp add: releases_def steady_def s1_def)
  moreover have "jregs t = filter (\<lambda>r. r_ptr r \<notin> P) (jregs s)" using t(2) by (simp add: releases_def s1_def jregs_def)
  ultimately show ?thesis by (intro exI [of _ P] exI [of _ t]) (simp add: xe)
qed

lemma ptr_step:
  assumes "jinv s" "draining s" "jrnl s \<noteq> []" "je_ptr (last (jrnl s)) \<noteq> 0" "mark < je_seq (last (jrnl s))"
  shows "\<exists>P T t. drain_ptr_step D s = Some t \<and> drained mark P T s t \<and> length (jslot t) \<le> length (jslot s) \<and>
    length (jregs t) < length (jregs s)"
proof -
  define e where "e = last (jrnl s)"
  have e: "jdata e \<in> set (jregs s)" using regs_last [OF assms(3,4)] by (simp add: e_def)
  have live: "jlive s \<noteq> 0" and cap: "jcap s \<noteq> 0" and em: "je_ptr e \<noteq> empty_str s"
    using assms(1-3) by (auto simp: jinv_def jindex_def e_def split: if_splits)
  have p0: "je_ptr e \<noteq> 0" using assms(4) by (simp add: e_def)
  obtain s1 where s1: "jrnl_forget_body (je_ptr e) s = Some s1" "jinv s1" "jregs s1 = filter (\<lambda>r. r_ptr r \<noteq> je_ptr e) (jregs s)"
    "s1 = s\<lparr>jrnl := jrnl s1, jbuckets := jbuckets s1, jlive := jlive s1\<rparr>"
    by (rule forget_body_ok [OF assms(1) cap p0])
  have same: "dseen s1 = dseen s" "freed s1 = freed s" "freed_count s1 = freed_count s" "steady s s1" "draining s1" "jslot s1 = jslot s"
    using assms(2) unfolding steady_def by (subst s1(4), simp)+
  have f: "journal_forget (je_ptr e) s = Some s1" using live cap p0 s1(1) by (simp add: journal_forget_def)
  have lt: "length (jregs s1) < length (jregs s)" unfolding s1(3) by (rule length_filter_less [OF e]) simp
  show ?thesis
  proof (cases "je_drop e = 0")
    case True
    have ds: "dseen_ok s1" using s1(2) by (simp add: jinv_def)
    from drain_seen_ok [OF ds same(5) p0] obtain d n where d: "drain_seen (je_ptr e) s1 = Some (je_ptr e \<in> seen s1, s1\<lparr>dseen := d, dseen_n := n\<rparr>)"
      "dseen_ok (s1\<lparr>dseen := d, dseen_n := n\<rparr>)" "pt_keys id d = insert (je_ptr e) (seen s1)" by blast
    define t where "t = (if je_ptr e \<in> seen s1 then s1\<lparr>dseen := d, dseen_n := n\<rparr> else release (je_ptr e) (s1\<lparr>dseen := d, dseen_n := n\<rparr>))"
    have "drain_ptr_step D s = Some t" using f True d(1) by (simp add: drain_ptr_step_def e_def t_def)
    moreover have "jinv t"
    proof -
      have "dseen_ok t = dseen_ok (s1\<lparr>dseen := d, dseen_n := n\<rparr>)" by (rule dseen_ok_cong) (simp_all add: t_def release_def)
      moreover have "jindex t = jindex s1" by (rule jindex_cong) (simp_all add: t_def release_def)
      moreover have "jregs t = jregs s1" by (simp add: t_def release_def jregs_def)
      ultimately show ?thesis using s1(2) d(2) unfolding jinv_def by (simp add: t_def release_def)
    qed
    moreover have "jregs t = jregs s1" by (simp add: t_def release_def jregs_def)
    moreover have "handed {je_ptr e} s t"
      using d(3) same(1-3) by (simp add: handed_def t_def release_def) blast
    moreover have "steady s t" using same(4) by (simp add: steady_def t_def release_def)
    ultimately show ?thesis using s1(3) lt by (intro exI [of _ "{je_ptr e}"] exI [of _ "{}"] exI [of _ t]) (simp add: drained_def steady_def)
  next
    case False
    have d1: "drained mark {} {je_ptr e} s s1"
      using s1(2,3) same e False assms(5) by (force simp: drained_def handed_def steady_def e_def [symmetric])
    have "\<exists>P t. (if flag_set (je_flag e) s1 then D (je_drop e) (je_ptr e) s1 else Some s1) = Some t \<and> releases P s1 t"
      using drops [OF s1(2) same(5), of "je_drop e" "je_ptr e"] releases_refl [OF s1(2)] by auto
    then obtain P t where t: "(if flag_set (je_flag e) s1 then D (je_drop e) (je_ptr e) s1 else Some s1) = Some t" "releases P s1 t" by blast
    have "drained mark P {je_ptr e} s t" using drained_trans [OF d1 releases_drained [OF t(2)]] by simp
    moreover have "drain_ptr_step D s = Some t" using f False t(1) unfolding drain_ptr_step_def e_def by (simp add: Let_def cong: if_cong)
    moreover have "length (jregs t) \<le> length (jregs s1)" "jslot t = jslot s" using t(2) same(6) by (simp_all add: releases_def steady_def)
    ultimately show ?thesis using lt by (intro exI [of _ P] exI [of _ "{je_ptr e}"] exI [of _ t]) simp
  qed
qed

lemma drain_body:
  assumes "jinv s" "draining s"
  shows "\<exists>P T t. jrnl_drain_body D mark s = Some t \<and> drained mark P T s t \<and> (\<forall>r \<in> set (jregs t). r_seq r \<le> mark) \<and>
    (\<forall>e \<in> set (jslot t). js_seq e \<le> mark)"
  using assms
proof (induction "length (jregs s) + length (jslot s)" arbitrary: s rule: less_induct)
  case less
  define s0 where "s0 = jslot_pop_nulls (jrnl_pop_nulls s)"
  note p = pops_drained [OF less.prems(1), folded s0_def]
  have i0: "jinv s0" and d0: "draining s0" and r0: "jregs s0 = jregs s"
    using p(1) [of mark] less.prems(2) by (simp_all add: drained_def steady_def)
  have unf: "jrnl_drain_body D mark s = (if fst (drain_tails s0) \<le> mark \<and> snd (drain_tails s0) \<le> mark then Some s0
      else do { s1 \<leftarrow> (if snd (drain_tails s0) > fst (drain_tails s0) then drain_slot_step D s0 else drain_ptr_step D s0); jrnl_drain_body D mark s1 })"
    by (subst jrnl_drain_body.simps) (simp add: s0_def Let_def)
  show ?case
  proof (cases "fst (drain_tails s0) \<le> mark \<and> snd (drain_tails s0) \<le> mark")
    case True
    have "\<forall>r \<in> set (jregs s0). r_seq r \<le> mark"
    proof (cases "jrnl s0 = []")
      case ne: False
      then have l: "je_ptr (last (jrnl s0)) \<noteq> 0" using p(2) by blast
      show ?thesis
        using filter_last(1) [OF regs_sorted [OF i0], of mark] True ne regs_last [OF ne l]
        by (auto simp: drain_tails_def filter_id_conv)
    qed (simp add: jregs_def live_data_def)
    moreover have "sorted_wrt (<) (map js_seq (jslot s0))" using i0 by (simp add: jinv_def seqs_def)
    then have "\<forall>e \<in> set (jslot s0). js_seq e \<le> mark"
      using filter_last(1) [of js_seq "jslot s0" mark] True by (cases "jslot s0 = []") (auto simp: drain_tails_def filter_id_conv)
    ultimately show ?thesis using True p(1) unfolding unf by (intro exI [of _ "{}"] exI [of _ s0]) simp
  next
    case False
    have "\<exists>P T s1. (if snd (drain_tails s0) > fst (drain_tails s0) then drain_slot_step D s0 else drain_ptr_step D s0) = Some s1 \<and>
      drained mark P T s0 s1 \<and> length (jregs s1) + length (jslot s1) < length (jregs s0) + length (jslot s0)"
    proof (cases "snd (drain_tails s0) > fst (drain_tails s0)")
      case True
      then have "jslot s0 \<noteq> []" "mark < js_seq (last (jslot s0))" using False by (auto simp: drain_tails_def split: if_splits)
      from slot_step [OF i0 d0 this] True show ?thesis by (smt (verit) add_le_less_mono)
    next
      case lt: False
      then have "jrnl s0 \<noteq> []" "mark < je_seq (last (jrnl s0))" using False by (auto simp: drain_tails_def split: if_splits)
      moreover have "je_ptr (last (jrnl s0)) \<noteq> 0" using calculation(1) p(2) by blast
      ultimately show ?thesis using ptr_step [OF i0 d0] lt by (smt (verit) add_less_le_mono)
    qed
    then obtain P T s1 where s1: "(if snd (drain_tails s0) > fst (drain_tails s0) then drain_slot_step D s0 else drain_ptr_step D s0) = Some s1"
      "drained mark P T s0 s1" "length (jregs s1) + length (jslot s1) < length (jregs s0) + length (jslot s0)" by blast
    have m: "length (jregs s1) + length (jslot s1) < length (jregs s) + length (jslot s)" using s1(3) r0 p(4) by simp
    have "jinv s1" "draining s1" using s1(2) d0 by (simp_all add: drained_def steady_def)
    from less.hyps [OF m this] obtain Q U t where t: "jrnl_drain_body D mark s1 = Some t" "drained mark Q U s1 t"
      "\<forall>r \<in> set (jregs t). r_seq r \<le> mark" "\<forall>e \<in> set (jslot t). js_seq e \<le> mark" by blast
    have "drained mark (P \<union> Q) (T \<union> U) s t" using drained_trans [OF p(1) drained_trans [OF s1(2) t(2)]] by simp
    then show ?thesis using t s1(1) False unfolding unf by (intro exI [of _ "P \<union> Q"] exI [of _ "T \<union> U"] exI [of _ t]) (simp only: if_False bind.simps simp_thms)
  qed
qed

text \<open>A drain of a journal that is not draining already.\<close>

lemma drain_outer:
  assumes "jinv s" "\<not> draining s"
  shows "\<exists>P T t fs. jrnl_drain D mark s = Some t \<and> jinv t \<and> \<not> draining t \<and> jregs t = filter (\<lambda>r. r_ptr r \<notin> P \<union> T) (jregs s) \<and>
    freed t = freed s @ fs \<and> freed_count t = freed_count s + length fs \<and> distinct fs \<and> set fs = P \<and>
    T \<subseteq> r_ptr ` {r \<in> set (jregs s). r_drop r \<noteq> 0 \<and> mark < r_seq r} \<and> (\<forall>r \<in> set (jregs t). r_seq r \<le> mark) \<and>
    jslots t = filter (\<lambda>e. js_seq e \<le> mark) (jslots s) \<and> steady s (t\<lparr>jslot := jslot s\<rparr>)"
proof -
  define s1 where "s1 = s\<lparr>draining := True, drain_depth := drain_depth s + 1, jlive := jlive s + 1\<rparr>"
  have dd: "drain_depth s = 0" and em: "dseen s = []" using assms by (auto simp: jinv_def dseen_ok_def)
  have i1: "jinv s1" using assms(1) by (auto simp: jinv_def s1_def jindex_def jregs_def dseen_ok_def)
  from drain_body [OF i1, of mark] obtain P T t where t: "jrnl_drain_body D mark s1 = Some t" "drained mark P T s1 t"
    "\<forall>r \<in> set (jregs t). r_seq r \<le> mark" "\<forall>e \<in> set (jslot t). js_seq e \<le> mark" by (auto simp: s1_def)
  have sn: "seen s1 = {}" by (simp add: s1_def em pt_live_def)
  obtain fs where fs: "freed t = freed s1 @ fs" "freed_count t = freed_count s1 + length fs" "distinct fs" "set fs = P"
    using t(2) sn unfolding drained_def handed_def by auto
  define u where "u = t\<lparr>jlive := jlive t - 1, drain_depth := drain_depth t - 1, draining := draining s, dseen := [], dseen_n := 0\<rparr>"
  have dt: "drain_depth t = 1" "draining t" using t(2) dd by (simp_all add: drained_def steady_def s1_def)
  have it: "jinv t" using t(2) by (simp add: drained_def)
  have iu: "jinv u"
  proof -
    have "jindex u = jindex t" by (rule jindex_cong) (simp_all add: u_def)
    moreover have "jregs u = jregs t" by (simp add: u_def jregs_def)
    moreover have "dseen_ok u" using assms(2) by (simp add: u_def dseen_ok_def pt_ok_def pt_live_def)
    ultimately show ?thesis using it dt assms(2) unfolding jinv_def by (simp add: u_def)
  qed
  have du: "jrnl_drain D mark s = Some u" using t(1) assms(2) by (simp add: jrnl_drain_def s1_def u_def Let_def)
  obtain ys where ys: "jslot s1 = jslot t @ ys" "\<forall>e \<in> set ys. js_slot e = 0 \<or> mark < js_seq e"
    using t(2) unfolding drained_def by (elim conjE exE)
  have "filter (\<lambda>e. js_slot e \<noteq> 0 \<and> js_seq e \<le> mark) ys = []" using ys(2) by (auto simp: filter_empty_conv)
  moreover have "filter (\<lambda>e. js_slot e \<noteq> 0 \<and> js_seq e \<le> mark) (jslot t) = filter (\<lambda>e. js_slot e \<noteq> 0) (jslot t)"
    using t(4) by (intro filter_cong) auto
  ultimately have "jslots u = filter (\<lambda>e. js_seq e \<le> mark) (jslots s)"
    using ys(1) by (simp add: jslots_def u_def s1_def)
  moreover have "T \<subseteq> r_ptr ` {r \<in> set (jregs s). r_drop r \<noteq> 0 \<and> mark < r_seq r}" "jregs u = filter (\<lambda>r. r_ptr r \<notin> P \<union> T) (jregs s)"
    using t(2) by (simp_all add: drained_def s1_def u_def jregs_def)
  moreover have "\<forall>r \<in> set (jregs u). r_seq r \<le> mark" using t(3) by (simp add: u_def jregs_def)
  moreover have "steady s (u\<lparr>jslot := jslot s\<rparr>)" using t(2) dd dt by (simp add: drained_def steady_def s1_def u_def)
  moreover have "freed u = freed s @ fs" "freed_count u = freed_count s + length fs" "\<not> draining u" using fs assms(2) by (simp_all add: u_def s1_def)
  ultimately show ?thesis using fs(3,4) iu du by (intro exI [of _ P] exI [of _ T] exI [of _ u] exI [of _ fs]) (simp only: simp_thms)
qed

end

section \<open>Operations between entering and leaving\<close>

datatype jop = Push nat | PushDrop nat nat | PushSlot nat nat nat | Forget nat | ForgetSlot nat | Disown nat nat | Free nat

fun run_op :: "jop \<Rightarrow> jstate \<Rightarrow> jstate option" where
  "run_op (Push p) s = journal_push p s"
| "run_op (PushDrop p f) s = journal_push_drop p f s"
| "run_op (PushSlot p g f) s = journal_push_drop2 p g f s"
| "run_op (Forget p) s = journal_forget p s"
| "run_op (ForgetSlot p) s = Some (journal_forget_slot p s)"
| "run_op (Disown jf p) s = journal_disown jf p s"
| "run_op (Free p) s = nurl_free p s"

primrec run_ops :: "jop list \<Rightarrow> jstate \<Rightarrow> jstate option" where
  "run_ops [] s = Some s"
| "run_ops (x # xs) s = do { t \<leftarrow> run_op x s; run_ops xs t }"

text \<open>What an operation keeps: the invariant, the frames, and every older registration is one
  that was there before.\<close>

definition onward :: "jstate \<Rightarrow> jstate \<Rightarrow> bool" where
  "onward s t \<longleftrightarrow> jinv t \<and> jsequence s \<le> jsequence t \<and> panic_top t = panic_top s \<and> jactive t = jactive s \<and>
    drain_depth t = drain_depth s \<and> draining t = draining s \<and> empty_str t = empty_str s \<and> last_msg t = last_msg s \<and>
    (\<forall>r \<in> set (jregs t). r_seq r \<le> jsequence s \<longrightarrow> r \<in> set (jregs s)) \<and>
    (\<forall>e \<in> set (jslots t). js_seq e \<le> jsequence s \<longrightarrow> e \<in> set (jslots s))"

lemma onward_refl: "jinv s \<Longrightarrow> onward s s"
  by (simp add: onward_def)

lemma onward_trans: "onward s t \<Longrightarrow> onward t u \<Longrightarrow> onward s u"
  unfolding onward_def
proof (elim conjE, intro conjI ballI impI)
  fix r assume "jsequence s \<le> jsequence t" "r \<in> set (jregs u)" "r_seq r \<le> jsequence s"
    "\<forall>r \<in> set (jregs u). r_seq r \<le> jsequence t \<longrightarrow> r \<in> set (jregs t)"
    "\<forall>r \<in> set (jregs t). r_seq r \<le> jsequence s \<longrightarrow> r \<in> set (jregs s)"
  then show "r \<in> set (jregs s)" using order_trans by blast
next
  fix e assume "jsequence s \<le> jsequence t" "e \<in> set (jslots u)" "js_seq e \<le> jsequence s"
    "\<forall>e \<in> set (jslots u). js_seq e \<le> jsequence t \<longrightarrow> e \<in> set (jslots t)"
    "\<forall>e \<in> set (jslots t). js_seq e \<le> jsequence s \<longrightarrow> e \<in> set (jslots s)"
  then show "e \<in> set (jslots s)" using order_trans by blast
qed simp_all

lemma forget_body_onward:
  assumes "jinv s" "jcap s \<noteq> 0" "p \<noteq> 0"
  obtains t where "jrnl_forget_body p s = Some t" "onward s t" "jregs t = filter (\<lambda>r. r_ptr r \<noteq> p) (jregs s)"
    "freed t = freed s" "freed_count t = freed_count s" "jslot t = jslot s"
proof -
  obtain t where t: "jrnl_forget_body p s = Some t" "jinv t" "jregs t = filter (\<lambda>r. r_ptr r \<noteq> p) (jregs s)"
    "t = s\<lparr>jrnl := jrnl t, jbuckets := jbuckets t, jlive := jlive t\<rparr>" by (rule forget_body_ok [OF assms])
  have same: "jslot t = jslot s" "jsequence t = jsequence s" "panic_top t = panic_top s" "jactive t = jactive s"
    "drain_depth t = drain_depth s" "draining t = draining s" "empty_str t = empty_str s" "last_msg t = last_msg s"
    "freed t = freed s" "freed_count t = freed_count s"
    by (subst t(4), simp)+
  then have "onward s t" using t(2,3) by (simp add: onward_def jslots_def)
  with t same show ?thesis by (intro that)
qed

lemma forget_onward:
  assumes "jinv s"
  obtains t where "journal_forget p s = Some t" "onward s t" "p = 0 \<or> jregs t = filter (\<lambda>r. r_ptr r \<noteq> p) (jregs s)"
    "freed t = freed s" "jslot t = jslot s"
proof (cases "p = 0 \<or> jlive s = 0 \<or> jcap s = 0")
  case True
  then have "journal_forget p s = Some s" by (auto simp: journal_forget_def)
  moreover have "jcap s = 0 \<Longrightarrow> jregs s = []" using assms by (simp add: jinv_def jindex_def jregs_def live_data_def)
  moreover have "jlive s = 0 \<Longrightarrow> jregs s = []" using assms by (simp add: jinv_def)
  moreover have "p = 0 \<or> jregs s = []" using True calculation by blast
  ultimately show ?thesis using onward_refl [OF assms] by (intro that [of s]) auto
next
  case False
  then have c: "jcap s \<noteq> 0" "p \<noteq> 0" by simp_all
  obtain t where "jrnl_forget_body p s = Some t" "onward s t" "jregs t = filter (\<lambda>r. r_ptr r \<noteq> p) (jregs s)" "freed t = freed s" "jslot t = jslot s"
    by (rule forget_body_onward [OF assms c])
  with False show ?thesis by (intro that [of t]) (simp_all add: journal_forget_def)
qed

lemma free_quiet:
  assumes "jinv s" "\<not> draining s"
  obtains t where "nurl_free p s = Some t" "onward s t" "jregs t = filter (\<lambda>r. r_ptr r \<noteq> p) (jregs s)"
    "freed t = freed s @ (if p = 0 \<or> p = empty_str s then [] else [p])" "jslot t = jslot s"
proof (cases "p = 0 \<or> p = empty_str s")
  case True
  have "r_ptr r \<noteq> 0 \<and> r_ptr r \<noteq> empty_str s" if "r \<in> set (jregs s)" for r
    using that assms(1) by (auto simp: jregs_def live_data_def jinv_def)
  then have "filter (\<lambda>r. r_ptr r \<noteq> p) (jregs s) = jregs s" using True by (metis (mono_tags, lifting) filter_True)
  then show ?thesis using True onward_refl [OF assms(1)] by (intro that [of s]) (auto simp: nurl_free_def)
next
  case False
  have dd: "drain_depth s = 0" using assms by (simp add: jinv_def)
  show ?thesis
  proof (cases "jlive s = 0")
    case True
    then have "jregs s = []" using assms(1) by (auto simp: jinv_def)
    moreover have "onward s (release p s)" using assms(1) by (auto simp: onward_def release_def jinv_def jindex_def jregs_def dseen_ok_def jslots_def)
    ultimately show ?thesis using True False
      by (intro that [of "release p s"]) (auto simp: nurl_free_def free_nonnull_def release_def jregs_def)
  next
    case live: False
    then have "jcap s \<noteq> 0" using assms(1) dd by (auto simp: jinv_def jindex_def jregs_def live_data_def split: if_splits)
    moreover have "p \<noteq> 0" using False by simp
    ultimately obtain t where t: "jrnl_forget_body p s = Some t" "onward s t" "jregs t = filter (\<lambda>r. r_ptr r \<noteq> p) (jregs s)"
      "freed t = freed s" "jslot t = jslot s"
      by (rule forget_body_onward [OF assms(1)])
    have "onward t (release p t)" using t(2) by (auto simp: onward_def release_def jinv_def jindex_def jregs_def dseen_ok_def jslots_def)
    then have "onward s (release p t)" by (rule onward_trans [OF t(2)])
    then show ?thesis using False live t assms(2)
      by (intro that [of "release p t"]) (auto simp: nurl_free_def free_nonnull_def free_journaled_def release_def jregs_def)
  qed
qed

lemma push2_onward:
  assumes "jinv s" "jrnl_push2 p d f s = Some t"
  shows "onward s t"
proof (cases "p = 0 \<or> jactive s = 0 \<or> p = empty_str s")
  case True
  then have "t = s" using assms(2) by (cases "p = empty_str s") (auto simp: jrnl_push2_def jrnl_push2_slow_def split: if_splits)
  then show ?thesis using onward_refl [OF assms(1)] by simp
next
  case False
  then have "jrnl_push2_slow p d f s = Some t" using assms(2) by (simp add: jrnl_push2_def)
  with push_slow_ok [OF assms(1) _ _ this] False show ?thesis by (auto simp: onward_def jslots_def)
qed

lemma slot_append_onward:
  assumes "jinv s"
  shows "onward s (slot_append q d f (s\<lparr>jslot_cap := c\<rparr>))"
proof -
  define t where "t = slot_append q d f (s\<lparr>jslot_cap := c\<rparr>)"
  have "seqs (Suc (jsequence s)) (map js_seq (jslot s) @ [Suc (jsequence s)])" "seqs (Suc (jsequence s)) (map je_seq (jrnl s))"
    using assms by (auto simp: jinv_def intro: seqs_append seqs_Suc)
  moreover have "Suc (jsequence s) \<notin> je_seq ` set (jrnl s)" using assms by (auto simp: jinv_def seqs_def)
  moreover have "dseen_ok t = dseen_ok s" by (rule dseen_ok_cong) (simp_all add: t_def slot_append_def)
  moreover have "jindex t = jindex s" by (rule jindex_cong) (simp_all add: t_def slot_append_def)
  ultimately have "jinv t" using assms unfolding jinv_def by (simp add: t_def slot_append_def jregs_def)
  then show ?thesis unfolding t_def [symmetric] by (simp add: onward_def t_def slot_append_def jregs_def jslots_def)
qed

lemma push_drop2_onward:
  assumes "jinv s" "journal_push_drop2 q g f s = Some t"
  shows "onward s t"
proof -
  have "t = s \<or> (\<exists>c. t = slot_append q f g (s\<lparr>jslot_cap := c\<rparr>))"
    using assms(2) by (auto simp: journal_push_drop2_def jslot_push_slow_def jslot_push_grow_def split: if_splits)
      (metis jstate.surjective jstate.update_convs(8))+
  then show ?thesis using onward_refl [OF assms(1)] slot_append_onward [OF assms(1)] by auto
qed

lemma null_newest_filter:
  "set (filter (\<lambda>e. js_slot e \<noteq> 0) (null_newest q es)) \<subseteq> set (filter (\<lambda>e. js_slot e \<noteq> 0) es)"
  by (induction es) auto

lemma null_newest_seq: "map js_seq (null_newest q es) = map js_seq es"
  by (induction es) auto

lemma jinv_slot_upd:
  assumes "jinv s" "map js_seq xs = map js_seq (jslot s)"
  shows "jinv (s\<lparr>jslot := xs\<rparr>)"
proof -
  have "js_seq ` set xs = js_seq ` set (jslot s)" using assms(2) by (metis image_set)
  then show ?thesis using assms unfolding jinv_def by (simp add: jindex_def jregs_def dseen_ok_def)
qed

lemma slots_onward:
  assumes "jinv (s\<lparr>jslot := xs\<rparr>)" "set (filter (\<lambda>e. js_slot e \<noteq> 0) xs) \<subseteq> set (jslots s)"
  shows "onward s (s\<lparr>jslot := xs\<rparr>)"
  using assms by (auto simp: onward_def jregs_def jslots_def)

lemma forget_slot_onward:
  assumes "jinv s"
  shows "onward s (journal_forget_slot q s)"
proof -
  define n where "n = length (jslot s)"
  define ns where "ns = rev (null_newest q (rev (jslot s)))"
  define u where "u = s\<lparr>jslot := ns\<rparr>"
  have "journal_forget_slot q s = s \<or> journal_forget_slot q s = s\<lparr>jslot := take (n - 1) (jslot s)\<rparr> \<or>
    journal_forget_slot q s = jslot_pop_nulls u"
    by (simp add: journal_forget_slot_def jslot_forget_slow_def n_def Let_def u_def ns_def)
  then consider "journal_forget_slot q s = s" | "journal_forget_slot q s = s\<lparr>jslot := take (n - 1) (jslot s)\<rparr>"
    | "journal_forget_slot q s = jslot_pop_nulls u" by blast
  then show ?thesis
  proof cases
    case 2
    have "jinv (s\<lparr>jslot := take (n - 1) (jslot s)\<rparr>)" by (rule jinv_slots [OF assms, of _ "drop (n - 1) (jslot s)"]) simp
    then show ?thesis unfolding 2 by (rule slots_onward) (auto simp: jslots_def dest: in_set_takeD)
  next
    case 3
    have "map js_seq ns = map js_seq (jslot s)" using null_newest_seq [of q "rev (jslot s)"] by (simp add: ns_def rev_map [symmetric])
    then have iu: "jinv u" unfolding u_def by (rule jinv_slot_upd [OF assms])
    have "set (filter (\<lambda>e. js_slot e \<noteq> 0) ns) \<subseteq> set (jslots s)"
      using null_newest_filter [of q "rev (jslot s)"] by (simp add: ns_def jslots_def)
    then have ou: "onward s u" using iu unfolding u_def by (intro slots_onward)
    obtain xs ys where x: "jslot_pop_nulls u = u\<lparr>jslot := xs\<rparr>" "jslot u = xs @ ys" "filter (\<lambda>e. js_slot e \<noteq> 0) xs = jslots u"
      using slot_pop_ok [of u] by blast
    have "jinv (u\<lparr>jslot := xs\<rparr>)" by (rule jinv_slots [OF iu x(2)])
    then have "onward u (u\<lparr>jslot := xs\<rparr>)" by (rule slots_onward) (simp only: x(3) subset_refl)
    then show ?thesis using ou 3 x(1) by (auto intro: onward_trans)
  qed (simp add: onward_refl [OF assms])
qed

lemma run_op_onward:
  assumes "jinv s" "\<not> draining s" "run_op x s = Some t"
  shows "onward s t"
proof (cases x)
  case (Push p)
  with assms(3) push2_onward [OF assms(1)] show ?thesis by (simp add: journal_push_def)
next
  case (PushDrop p f)
  with assms(3) push2_onward [OF assms(1)] onward_refl [OF assms(1)] show ?thesis by (simp add: journal_push_drop_def split: if_splits)
next
  case (PushSlot p g f)
  with assms(3) push_drop2_onward [OF assms(1)] show ?thesis by simp
next
  case (Forget p)
  obtain u where "journal_forget p s = Some u" "onward s u" by (rule forget_onward [OF assms(1)])
  with Forget assms(3) show ?thesis by simp
next
  case (ForgetSlot q)
  with assms(3) forget_slot_onward [OF assms(1)] show ?thesis by auto
next
  case (Disown jf p)
  obtain u where u: "journal_forget p s = Some u" "onward s u" by (rule forget_onward [OF assms(1)])
  have m: "onward u (u\<lparr>jmem := m\<rparr>)" for m using u(2) by (simp add: onward_def jinv_mem jregs_def jslots_def)
  show ?thesis using Disown assms(3) u(1) onward_trans [OF u(2) m] onward_refl [OF assms(1)]
    by (auto simp: journal_disown_def split: if_splits)
next
  case (Free p)
  obtain u where "nurl_free p s = Some u" "onward s u" by (rule free_quiet [OF assms(1,2), of p])
  with Free assms(3) show ?thesis by simp
qed

lemma run_ops_onward:
  assumes "jinv s" "\<not> draining s" "run_ops xs s = Some t"
  shows "onward s t"
  using assms
proof (induction xs arbitrary: s)
  case (Cons x xs)
  then obtain u where u: "run_op x s = Some u" "run_ops xs u = Some t" by (auto simp: bind_eq_Some_conv)
  have o: "onward s u" by (rule run_op_onward [OF Cons.prems(1,2) u(1)])
  then have "jinv u" "\<not> draining u" using Cons.prems(2) by (simp_all add: onward_def)
  from Cons.IH [OF this u(2)] o show ?case by (blast intro: onward_trans)
qed (simp add: onward_refl)

lemma jinv_enter: "jinv (recover_enter s) = jinv s"
  by (simp add: recover_enter_def jinv_def jindex_def jregs_def dseen_ok_def)

lemma jinv_frames: "jinv (s\<lparr>panic_top := f, jactive := a\<rparr>) = jinv s"
  by (simp add: jinv_def jindex_def jregs_def dseen_ok_def)

lemma jinv_panic: "jinv (s\<lparr>panic_top := f\<rparr>) = jinv s"
  by (simp add: jinv_def jindex_def jregs_def dseen_ok_def)

lemma jinv_msg: "jinv (s\<lparr>last_msg := m\<rparr>) = jinv s"
  by (simp add: jinv_def jindex_def jregs_def dseen_ok_def)

lemma jinv_boot: "e \<noteq> 0 \<Longrightarrow> jinv (jstate_boot e)"
  by (simp add: jinv_def jindex_def jregs_def live_data_def dseen_ok_def seqs_def jstate_boot_def pt_ok_def pt_live_def)

lemma leave_ok:
  assumes "jinv s"
  shows "\<exists>t. recover_leave fr prev s = Some t \<and> jinv t \<and> jregs t = filter (\<lambda>r. r_seq r \<le> pf_jmark fr) (jregs s) \<and>
    jslots t = filter (\<lambda>e. js_seq e \<le> pf_jmark fr) (jslots s) \<and> panic_top t = prev \<and> jactive t = jactive s - 1 \<and>
    freed t = freed s \<and> draining t = draining s \<and> drain_depth t = drain_depth s \<and> last_msg t = last_msg s \<and> empty_str t = empty_str s"
proof -
  define u where "u = s\<lparr>panic_top := prev, jactive := jactive s - 1\<rparr>"
  have "jinv u" using assms by (simp add: u_def jinv_frames)
  then obtain es bs n xs where "jrnl_truncate (pf_jmark fr) u = Some (u\<lparr>jrnl := es, jbuckets := bs, jlive := n, jslot := xs\<rparr>)"
    "jinv (u\<lparr>jrnl := es, jbuckets := bs, jlive := n, jslot := xs\<rparr>)" "live_data es = filter (\<lambda>r. r_seq r \<le> pf_jmark fr) (jregs u)"
    "filter (\<lambda>e. js_slot e \<noteq> 0) xs = filter (\<lambda>e. js_seq e \<le> pf_jmark fr) (jslots u)" by (rule truncate_ok)
  moreover have "jregs u = jregs s" "jslots u = jslots s" by (simp_all add: u_def jregs_def jslots_def)
  ultimately show ?thesis
    by (intro exI [of _ "u\<lparr>jrnl := es, jbuckets := bs, jlive := n, jslot := xs\<rparr>"])
      (simp add: recover_leave_def jregs_def jslots_def u_def [symmetric], simp add: u_def)
qed

section \<open>Properties\<close>

text \<open>C18. The hash-indexed journal is a list of registrations. In every well formed state a
  registration appends one entry with the next sequence number, forgetting a pointer removes all
  its registrations and nothing else, and truncation keeps exactly the registrations and slots up
  to the mark. Each returns and leaves a well formed journal.\<close>

theorem journal_refines:
  assumes "jinv s" "jactive s \<noteq> 0" "p \<noteq> 0" "p \<noteq> empty_str s" "jsequence s < UINT64_MAX" "jcap s \<le> UINT64_MAX div 80"
  shows "(\<exists>t. journal_push p s = Some t \<and> jinv t \<and> jregs t = jregs s @ [(p, 0, 0, jsequence s + 1)] \<and> jslots t = jslots s) \<and>
    (\<exists>t. journal_forget p s = Some t \<and> jinv t \<and> jregs t = filter (\<lambda>r. r_ptr r \<noteq> p) (jregs s) \<and> jslots t = jslots s) \<and>
    (\<exists>t. jrnl_truncate mark s = Some t \<and> jinv t \<and> jregs t = filter (\<lambda>r. r_seq r \<le> mark) (jregs s) \<and>
      jslots t = filter (\<lambda>e. js_seq e \<le> mark) (jslots s))"
proof (intro conjI)
  obtain t where t: "jrnl_push2_slow p 0 0 s = Some t" using push_slow_some [OF assms(5,6)] by blast
  with push_slow_ok [OF assms(1,3,4) t] assms(2,3)
  show "\<exists>t. journal_push p s = Some t \<and> jinv t \<and> jregs t = jregs s @ [(p, 0, 0, jsequence s + 1)] \<and> jslots t = jslots s"
    by (intro exI [of _ t]) (simp add: journal_push_def jrnl_push2_def jslots_def)
next
  obtain t where t: "journal_forget p s = Some t" "onward s t" "p = 0 \<or> jregs t = filter (\<lambda>r. r_ptr r \<noteq> p) (jregs s)" "freed t = freed s" "jslot t = jslot s"
    by (rule forget_onward [OF assms(1), of p])
  with assms(3) show "\<exists>t. journal_forget p s = Some t \<and> jinv t \<and> jregs t = filter (\<lambda>r. r_ptr r \<noteq> p) (jregs s) \<and> jslots t = jslots s"
    by (intro exI [of _ t]) (simp add: onward_def jslots_def)
next
  obtain es bs n xs where "jrnl_truncate mark s = Some (s\<lparr>jrnl := es, jbuckets := bs, jlive := n, jslot := xs\<rparr>)"
    "jinv (s\<lparr>jrnl := es, jbuckets := bs, jlive := n, jslot := xs\<rparr>)" "live_data es = filter (\<lambda>r. r_seq r \<le> mark) (jregs s)"
    "filter (\<lambda>e. js_slot e \<noteq> 0) xs = filter (\<lambda>e. js_seq e \<le> mark) (jslots s)" by (rule truncate_ok [OF assms(1)])
  then show "\<exists>t. jrnl_truncate mark s = Some t \<and> jinv t \<and> jregs t = filter (\<lambda>r. r_seq r \<le> mark) (jregs s) \<and>
      jslots t = filter (\<lambda>e. js_seq e \<le> mark) (jslots s)"
    by (intro exI [of _ "s\<lparr>jrnl := es, jbuckets := bs, jlive := n, jslot := xs\<rparr>"]) (simp add: jregs_def jslots_def)
qed

theorem journal_refines_witness:
  "(\<exists>t. journal_push 64 (recover_enter (jstate_boot 8)) = Some t \<and> jregs t = [(64, 0, 0, 1)]) \<and>
   (\<exists>t. jrnl_truncate 0 (recover_enter (jstate_boot 8)) = Some t \<and> jregs t = [])"
proof -
  have "jinv (recover_enter (jstate_boot 8))" by (simp add: jinv_enter jinv_boot)
  from journal_refines [OF this, of 64 0] show ?thesis
    by (auto simp: recover_enter_def jstate_boot_def UINT64_MAX_def jregs_def live_data_def)
qed



lemma panic_caught:
  assumes "drop_code D" "jinv t" "\<not> draining t" "panic_top t = fr # prev" "pf_msg fr = 0" "pf_drains fr = 0"
    and "\<forall>r \<in> set (jregs t). \<forall>q \<in> set (jregs t). r_drop r = 0 \<longrightarrow> r_drop q \<noteq> 0 \<longrightarrow> r_ptr r \<noteq> r_ptr q"
  shows "\<exists>u v fs. nurl_panic D copy t = Some (Jumped u) \<and> recover_caught fb (hd (panic_top u)) prev u = Some v \<and> jinv v \<and>
    \<not> draining v \<and> drain_depth v = 0 \<and> distinct fs \<and> freed v = freed t @ fs @ (if last_msg t = 0 \<or> last_msg t = empty_str t then [] else [last_msg t]) \<and>
    (\<forall>r \<in> set (jregs t). pf_jmark fr < r_seq r \<and> r_drop r = 0 \<longrightarrow> r_ptr r \<in> set fs) \<and>
    (\<forall>r \<in> set (jregs v). r \<in> set (jregs t) \<and> r_seq r \<le> pf_jmark fr) \<and>
    (\<forall>e \<in> set (jslots v). e \<in> set (jslots t) \<and> js_seq e \<le> pf_jmark fr) \<and>
    panic_top v = prev \<and> jactive v = jactive t - 1 \<and> last_msg v = (if copy \<noteq> 0 then copy else fb)"
proof -
  define t1 where "t1 = t\<lparr>panic_top := fr\<lparr>pf_msg := copy\<rparr> # prev\<rparr>"
  have t1: "jinv t1" "\<not> draining t1" "jregs t1 = jregs t" "jslots t1 = jslots t" using assms(2,3) by (simp_all add: t1_def jinv_panic jregs_def jslots_def)
  from drop_code.drain_outer [OF assms(1) t1(1,2), of "pf_jmark fr"] obtain P T u fs where
    u: "jrnl_drain D (pf_jmark fr) t1 = Some u" "jinv u" "\<not> draining u" "jregs u = filter (\<lambda>r. r_ptr r \<notin> P \<union> T) (jregs t1)"
      "freed u = freed t1 @ fs" "distinct fs" "set fs = P" "T \<subseteq> r_ptr ` {r \<in> set (jregs t1). r_drop r \<noteq> 0 \<and> pf_jmark fr < r_seq r}"
      "\<forall>r \<in> set (jregs u). r_seq r \<le> pf_jmark fr" "jslots u = filter (\<lambda>e. js_seq e \<le> pf_jmark fr) (jslots t1)" "steady t1 (u\<lparr>jslot := jslot t1\<rparr>)" by blast
  have st: "panic_top u = fr\<lparr>pf_msg := copy\<rparr> # prev" "jactive u = jactive t" "last_msg u = last_msg t" "empty_str u = empty_str t"
    "drain_depth u = 0" using u(2,3,11) by (simp_all add: steady_def t1_def jinv_def)
  have "drain_unwind 0 u = u" using st(5) u(3) by (simp add: drain_unwind_def)
  then have uw: "drain_unwind (pf_drains fr) u = u" using assms(6) by simp
  from leave_ok [OF u(2), of "fr\<lparr>pf_msg := copy\<rparr>" prev] obtain w where
    w: "recover_leave (fr\<lparr>pf_msg := copy\<rparr>) prev u = Some w" "jinv w" "jregs w = filter (\<lambda>r. r_seq r \<le> pf_jmark fr) (jregs u)"
      "jslots w = filter (\<lambda>e. js_seq e \<le> pf_jmark fr) (jslots u)" "panic_top w = prev" "jactive w = jactive u - 1"
      "freed w = freed u" "draining w = draining u" "drain_depth w = drain_depth u" "last_msg w = last_msg u" "empty_str w = empty_str u" by auto
  have nd: "\<not> draining w" using w(8) u(3) by simp
  obtain x where x: "nurl_free (last_msg w) w = Some x" "onward w x" "jregs x = filter (\<lambda>r. r_ptr r \<noteq> last_msg w) (jregs w)"
    "freed x = freed w @ (if last_msg w = 0 \<or> last_msg w = empty_str w then [] else [last_msg w])" "jslot x = jslot w"
    by (rule free_quiet [OF w(2) nd])
  define v where "v = x\<lparr>last_msg := if copy \<noteq> 0 then copy else fb\<rparr>"
  have "nurl_panic D copy t = Some (Jumped u)" using assms(4,5) u(1) by (simp add: nurl_panic_def t1_def)
  moreover have "recover_caught fb (hd (panic_top u)) prev u = Some v"
    using w(1) x(1) uw by (simp add: recover_caught_def st(1) v_def)
  moreover have "jinv v" "\<not> draining v" "drain_depth v = 0" "panic_top v = prev" "jactive v = jactive t - 1"
    using x(2) w nd st by (simp_all add: v_def jinv_msg onward_def)
  moreover have "freed v = freed t @ fs @ (if last_msg t = 0 \<or> last_msg t = empty_str t then [] else [last_msg t])"
    using x(4) w u(5) st by (simp add: v_def t1_def)
  moreover have "r_ptr r \<in> set fs" if r: "r \<in> set (jregs t)" "pf_jmark fr < r_seq r" "r_drop r = 0" for r
  proof (rule ccontr)
    assume n: "r_ptr r \<notin> set fs"
    have "r_ptr r \<notin> T" using u(8) assms(7) r t1(3) by fastforce
    then have "r \<in> set (jregs u)" using u(4,7) n r(1) t1(3) by simp
    from bspec [OF u(9) this] r(2) show False by simp
  qed
  moreover have "r \<in> set (jregs t) \<and> r_seq r \<le> pf_jmark fr" if "r \<in> set (jregs v)" for r
  proof -
    have "r \<in> set (jregs u) \<and> r_seq r \<le> pf_jmark fr" using that x(3) w(3) by (simp add: v_def jregs_def)
    then show ?thesis using u(4) t1(3) by simp
  qed
  moreover have "e \<in> set (jslots t) \<and> js_seq e \<le> pf_jmark fr" if "e \<in> set (jslots v)" for e
  proof -
    have "e \<in> set (jslots w)" using that x(5) by (simp add: v_def jslots_def)
    then show ?thesis using w(4) u(10) t1(4) by simp
  qed
  ultimately show ?thesis using u(6) by (intro exI [of _ u] exI [of _ v] exI [of _ fs]) (simp add: v_def)
qed



text \<open>While a drain runs, a block it has released and the allocator has handed out again is
  not released a second time: the second free of the address leaves the heap as it is.\<close>

lemma drain_skips_reused:
  assumes "jinv s" "draining s" "p \<noteq> 0" "p \<noteq> empty_str s" "p \<notin> seen s"
  shows "\<exists>t u. nurl_free p s = Some t \<and> freed t = freed s @ [p] \<and> nurl_free p t = Some u \<and> freed u = freed t"
proof -
  obtain P t where t: "nurl_free p s = Some t" "releases P s t" "P = {p} - {0, empty_str s}" by (rule nurl_free_draining [OF assms(1,2)])
  have P: "P = {p}" using t(3) assms(3,4) by auto
  have it: "jinv t" "draining t" "seen t = seen s \<union> {p}" "empty_str t = empty_str s" using t(2) assms(2) P by (simp_all add: releases_def steady_def handed_def)
  obtain Q u where u: "nurl_free p t = Some u" "releases Q t u" "Q = {p} - {0, empty_str t}" by (rule nurl_free_draining [OF it(1,2)])
  have Q: "Q - seen t = {}" using u(3) it(3) by auto
  have P0: "{p} - seen s = {p}" using assms(5) by blast
  obtain fs where f: "freed t = freed s @ fs" "distinct fs" "set fs = {p} - seen s"
    using t(2) unfolding releases_def handed_def P by (elim exE conjE)
  obtain gs where g: "freed u = freed t @ gs" "set gs = Q - seen t" using u(2) unfolding releases_def handed_def by (elim exE conjE)
  have "length fs = card {p}" using f(2,3) unfolding P0 by (metis distinct_card)
  then obtain x where "fs = [x]" by (auto simp: length_Suc_conv)
  then have "fs = [p]" using f(3) unfolding P0 by simp
  moreover have "gs = []" using g(2) Q by (metis set_empty)
  ultimately show ?thesis using t(1) u(1) f(1) g(1) by (intro exI [of _ t] exI [of _ u]) simp
qed

end
