(* ===== verification/CycleColl.thy ===== *)
theory CycleColl
  imports Main "HOL-Library.Monad_Syntax"
begin

text \<open>
  The reference-count cycle collector (stdlib/runtime_core.c, "Reference-count cycle collector"):
  Bacon and Rajan's synchronous trial deletion over a buffer of possible roots.

  A block is its address, zero for NULL. The header's cc word is kept as its fields: colour,
  buffered, dead, freed and the position in the buffer. \<open>kids\<close> gives the collectable handles a
  block's value holds, in the order its compiled trace function names them; the address also
  stands for the block's ops table. The compiled drop of a value is a parameter \<open>DV\<close>. The work
  stacks and the deferred releases are lists with their top at the head, the buffer and the garbage
  lists in array order; growing a vector never fails here (the source aborts when memory is out). \<open>released\<close> is the log of blocks given to nurl_free.
\<close>

section \<open>State\<close>

datatype colour = Black | Gray | White | Purple

record cc_hdr =
  h_strong :: int
  h_weak :: int
  h_color :: colour
  h_buffered :: bool
  h_dead :: bool
  h_freed :: bool
  h_idx :: nat

record ccs =
  hdr :: "nat \<Rightarrow> cc_hdr"
  kids :: "nat \<Rightarrow> nat list"
  roots :: "nat list"
  threshold :: nat
  collecting :: bool
  deferred :: "nat list"
  depth :: nat
  urgent :: bool
  batch :: nat
  released :: "nat list"

definition CC_MIN_THRESHOLD :: nat where "CC_MIN_THRESHOLD = 4096"
definition RC_DROP_DEPTH :: nat where "RC_DROP_DEPTH = 64"

definition hset :: "nat \<Rightarrow> (cc_hdr \<Rightarrow> cc_hdr) \<Rightarrow> ccs \<Rightarrow> ccs" where
  "hset h f s = s\<lparr>hdr := (hdr s)(h := f (hdr s h))\<rparr>"

abbreviation strong :: "ccs \<Rightarrow> nat \<Rightarrow> int" where "strong s h \<equiv> h_strong (hdr s h)"
abbreviation color :: "ccs \<Rightarrow> nat \<Rightarrow> colour" where "color s h \<equiv> h_color (hdr s h)"
abbreviation buffered :: "ccs \<Rightarrow> nat \<Rightarrow> bool" where "buffered s h \<equiv> h_buffered (hdr s h)"
abbreviation dead :: "ccs \<Rightarrow> nat \<Rightarrow> bool" where "dead s h \<equiv> h_dead (hdr s h)"

definition paint :: "nat \<Rightarrow> colour \<Rightarrow> ccs \<Rightarrow> ccs" where
  "paint h c s = hset h (\<lambda>x. x\<lparr>h_color := c\<rparr>) s"

definition add_strong :: "nat \<Rightarrow> int \<Rightarrow> ccs \<Rightarrow> ccs" where
  "add_strong h d s = hset h (\<lambda>x. x\<lparr>h_strong := h_strong x + d\<rparr>) s"

section \<open>The walks\<close>

datatype cc_mode = MarkGray | Scan | ScanBlack | Collect | Restore

definition cc_visit :: "cc_mode \<Rightarrow> nat \<Rightarrow> nat list \<times> ccs \<Rightarrow> nat list \<times> ccs" where
  "cc_visit m t x =
    (if t = 0 then x
     else let st = fst x; s = snd x in
       case m of
         MarkGray \<Rightarrow> let s1 = add_strong t (-1) s in (if color s1 t \<noteq> Gray then t # st else st, s1)
       | Scan \<Rightarrow> (t # st, s)
       | ScanBlack \<Rightarrow> let s1 = add_strong t 1 s in
           if color s1 t \<noteq> Black then (t # st, paint t Black s1) else (st, s1)
       | Collect \<Rightarrow> (if color s t = White \<and> \<not> buffered s t then t # st else st, s)
       | Restore \<Rightarrow> (st, if dead s t then s else add_strong t 1 s))"

definition cc_trace :: "cc_mode \<Rightarrow> nat \<Rightarrow> nat list \<times> ccs \<Rightarrow> nat list \<times> ccs" where
  "cc_trace m h x = fold (cc_visit m) (kids (snd x) h) x"

partial_function (option) markgray_loop :: "nat list \<Rightarrow> ccs \<Rightarrow> ccs option" where
  [code]: "markgray_loop st s =
    (case st of
       [] \<Rightarrow> Some s
     | h # rest \<Rightarrow>
         if color s h = Gray then markgray_loop rest s
         else let x = cc_trace MarkGray h (rest, paint h Gray s) in markgray_loop (fst x) (snd x))"

definition cc_markgray :: "nat \<Rightarrow> ccs \<Rightarrow> ccs option" where
  "cc_markgray h s = markgray_loop [h] s"

partial_function (option) scanblack_loop :: "nat list \<Rightarrow> ccs \<Rightarrow> ccs option" where
  [code]: "scanblack_loop st s =
    (case st of
       [] \<Rightarrow> Some s
     | h # rest \<Rightarrow> let x = cc_trace ScanBlack h (rest, s) in scanblack_loop (fst x) (snd x))"

definition cc_scanblack :: "nat \<Rightarrow> ccs \<Rightarrow> ccs option" where
  "cc_scanblack h s = scanblack_loop [h] (paint h Black s)"

partial_function (option) scan_loop :: "nat list \<Rightarrow> ccs \<Rightarrow> ccs option" where
  [code]: "scan_loop st s =
    (case st of
       [] \<Rightarrow> Some s
     | h # rest \<Rightarrow>
         if color s h \<noteq> Gray then scan_loop rest s
         else if strong s h > 0 then do { s1 \<leftarrow> cc_scanblack h s; scan_loop rest s1 }
         else let x = cc_trace Scan h (rest, paint h White s) in scan_loop (fst x) (snd x))"

definition cc_scan :: "nat \<Rightarrow> ccs \<Rightarrow> ccs option" where
  "cc_scan h s = scan_loop [h] s"

partial_function (option) collectwhite_loop :: "nat list \<Rightarrow> nat list \<Rightarrow> ccs \<Rightarrow> (nat list \<times> ccs) option" where
  [code]: "collectwhite_loop st g s =
    (case st of
       [] \<Rightarrow> Some (g, s)
     | h # rest \<Rightarrow>
         if color s h \<noteq> White \<or> buffered s h then collectwhite_loop rest g s
         else let x = cc_trace Collect h (rest, hset h (\<lambda>y. y\<lparr>h_color := Black, h_dead := True\<rparr>) s)
           in collectwhite_loop (fst x) (g @ [h]) (snd x))"

definition cc_collectwhite :: "nat \<Rightarrow> nat list \<Rightarrow> ccs \<Rightarrow> (nat list \<times> ccs) option" where
  "cc_collectwhite h g s = collectwhite_loop [h] g s"

definition cc_free_block :: "nat \<Rightarrow> ccs \<Rightarrow> ccs" where
  "cc_free_block h s = (if h_weak (hdr s h) = 0 then s\<lparr>released := released s @ [h]\<rparr> else s)"

section \<open>A collection\<close>

definition unbuffer :: "nat \<Rightarrow> ccs \<Rightarrow> ccs" where
  "unbuffer h s = hset h (\<lambda>x. x\<lparr>h_buffered := False\<rparr>) s"

fun mark_roots :: "nat list \<Rightarrow> ccs \<Rightarrow> (nat list \<times> ccs) option" where
  "mark_roots [] s = Some ([], s)"
| "mark_roots (h # hs) s =
    (if color s h = Purple \<and> strong s h > 0
     then do { s1 \<leftarrow> cc_markgray h s; (live, s2) \<leftarrow> mark_roots hs s1; Some (h # live, s2) }
     else let s1 = unbuffer h s;
              s2 = (if color s1 h = Purple then paint h Black s1 else s1);
              s3 = (if strong s2 h \<le> 0 \<and> h_freed (hdr s2 h) then cc_free_block h s2 else s2)
          in mark_roots hs s3)"

fun scan_roots :: "nat list \<Rightarrow> ccs \<Rightarrow> ccs option" where
  "scan_roots [] s = Some s"
| "scan_roots (h # hs) s = do { s1 \<leftarrow> cc_scan h s; scan_roots hs s1 }"

fun collect_roots :: "nat list \<Rightarrow> nat list \<Rightarrow> nat \<Rightarrow> ccs \<Rightarrow> (nat list \<times> nat \<times> ccs) option" where
  "collect_roots [] g alive s = Some (g, alive, s)"
| "collect_roots (h # hs) g alive s = do {
     (g1, s1) \<leftarrow> cc_collectwhite h g (unbuffer h s);
     collect_roots hs g1 (if dead s1 h then alive else alive + 1) s1
   }"

definition restore_edges :: "nat list \<Rightarrow> ccs \<Rightarrow> ccs" where
  "restore_edges g s = fold (\<lambda>h s. snd (cc_trace Restore h ([], s))) g s"

text \<open>Everything up to and including the restored counts: the garbage and how many roots live.\<close>

definition cc_trial :: "nat list \<Rightarrow> ccs \<Rightarrow> (nat list \<times> nat \<times> ccs) option" where
  "cc_trial rs s = do {
     (live, s1) \<leftarrow> mark_roots rs s;
     s2 \<leftarrow> scan_roots live s1;
     (g, alive, s3) \<leftarrow> collect_roots live [] 0 s2;
     Some (g, alive, restore_edges g s3)
   }"

type_synonym drop_value = "nat \<Rightarrow> ccs \<Rightarrow> ccs option"

fun drop_garbage :: "drop_value \<Rightarrow> nat list \<Rightarrow> ccs \<Rightarrow> ccs option" where
  "drop_garbage DV [] s = Some s"
| "drop_garbage DV (h # hs) s = do {
     s1 \<leftarrow> DV h (hset h (\<lambda>x. x\<lparr>h_strong := 0\<rparr>) s);
     drop_garbage DV hs s1
   }"

definition cc_sweep :: "drop_value \<Rightarrow> nat list \<Rightarrow> bool \<Rightarrow> ccs \<Rightarrow> ccs option" where
  "cc_sweep DV rs whole s = do {
     (g, alive, s1) \<leftarrow> cc_trial rs (s\<lparr>collecting := True\<rparr>);
     s2 \<leftarrow> drop_garbage DV g s1;
     let s3 = fold cc_free_block g s2;
     let s4 = (if whole then s3\<lparr>threshold := (if alive * 2 > CC_MIN_THRESHOLD then alive * 2 else CC_MIN_THRESHOLD)\<rparr> else s3);
     Some (s4\<lparr>collecting := False\<rparr>)
   }"

text \<open>A run takes the buffer as it stands; releasing the garbage may ask for another one.\<close>

partial_function (option) cc_run_roots :: "drop_value \<Rightarrow> nat list \<Rightarrow> bool \<Rightarrow> ccs \<Rightarrow> ccs option" where
  [code]: "cc_run_roots DV rs whole s = do {
     s1 \<leftarrow> cc_sweep DV rs whole s;
     if urgent s1 \<and> depth s1 = 0 \<and> batch s1 = 0
     then let s2 = s1\<lparr>urgent := False\<rparr> in
       (if collecting s2 \<or> roots s2 = [] then Some s2
        else cc_run_roots DV (roots s2) True (s2\<lparr>roots := []\<rparr>))
     else Some s1
   }"

definition cc_run :: "drop_value \<Rightarrow> ccs \<Rightarrow> ccs option" where
  "cc_run DV s =
    (if collecting s \<or> roots s = [] then Some s else cc_run_roots DV (roots s) True (s\<lparr>roots := []\<rparr>))"

section \<open>Entry points\<close>

definition buffer_root :: "nat \<Rightarrow> ccs \<Rightarrow> ccs" where
  "buffer_root h s =
    hset h (\<lambda>x. x\<lparr>h_buffered := True, h_idx := length (roots s)\<rparr>) s\<lparr>roots := roots s @ [h]\<rparr>"

definition cc_possible_root :: "drop_value \<Rightarrow> nat \<Rightarrow> ccs \<Rightarrow> ccs option" where
  "cc_possible_root DV h s =
    (if color s h = Purple then Some s
     else let s1 = paint h Purple s in
       if buffered s1 h then Some s1
       else let s2 = buffer_root h s1 in
         if length (roots s2) \<ge> threshold s2 \<and> \<not> collecting s2 then cc_run DV s2 else Some s2)"

definition unlist :: "nat \<Rightarrow> ccs \<Rightarrow> ccs" where
  "unlist h s =
    (let i = h_idx (hdr s h); l = last (roots s); rest = butlast (roots s) in
     if l \<noteq> h then hset l (\<lambda>x. x\<lparr>h_idx := i\<rparr>) (s\<lparr>roots := rest[i := l]\<rparr>) else s\<lparr>roots := rest\<rparr>)"

definition cc_collect_now :: "drop_value \<Rightarrow> nat \<Rightarrow> ccs \<Rightarrow> ccs option" where
  "cc_collect_now DV h s = do {
     s1 \<leftarrow> cc_possible_root DV h s;
     if \<not> buffered s1 h then Some s1
     else if collecting s1 \<or> depth s1 \<noteq> 0 \<or> batch s1 \<noteq> 0 then Some (s1\<lparr>urgent := True\<rparr>)
     else cc_run_roots DV [roots s1 ! h_idx (hdr s1 h)] False (unlist h s1)
   }"

definition cc_batch_end :: "drop_value \<Rightarrow> ccs \<Rightarrow> ccs option" where
  "cc_batch_end DV s =
    (if urgent s \<and> \<not> collecting s \<and> depth s = 0 then cc_run DV (s\<lparr>urgent := False\<rparr>) else Some s)"

definition rc_finish :: "nat \<Rightarrow> ccs \<Rightarrow> ccs" where
  "rc_finish h s =
    (if buffered s h \<and> collecting s then hset h (\<lambda>x. x\<lparr>h_freed := True\<rparr>) s
     else let s1 = (if buffered s h then unbuffer h (unlist h s) else s) in
       if h_weak (hdr s1 h) = 0 then s1\<lparr>released := released s1 @ [h]\<rparr> else s1)"

partial_function (option) drain_deferred :: "drop_value \<Rightarrow> ccs \<Rightarrow> ccs option" where
  [code]: "drain_deferred DV s =
    (case deferred s of
       [] \<Rightarrow> Some s
     | h # rest \<Rightarrow> do { s1 \<leftarrow> DV h (s\<lparr>deferred := rest\<rparr>); drain_deferred DV (rc_finish h s1) })"

definition rc_drop_value :: "drop_value \<Rightarrow> nat \<Rightarrow> ccs \<Rightarrow> ccs option" where
  "rc_drop_value DV h s =
    (if depth s \<ge> RC_DROP_DEPTH then Some (s\<lparr>deferred := h # deferred s\<rparr>)
     else do {
       s1 \<leftarrow> DV h (s\<lparr>depth := depth s + 1\<rparr>);
       let s2 = rc_finish h s1;
       s3 \<leftarrow> (if depth s2 = 1 then drain_deferred DV s2 else Some s2);
       let s4 = s3\<lparr>depth := depth s3 - 1\<rparr>;
       if depth s4 = 0 \<and> urgent s4 \<and> \<not> collecting s4 \<and> batch s4 = 0
       then cc_run DV (s4\<lparr>urgent := False\<rparr>) else Some s4
     })"

definition cc_dead :: "nat \<Rightarrow> ccs \<Rightarrow> bool" where "cc_dead h s = dead s h"
definition cc_buffered :: "nat \<Rightarrow> ccs \<Rightarrow> bool" where "cc_buffered h s = buffered s h"

definition cc_collect :: "drop_value \<Rightarrow> ccs \<Rightarrow> ccs option" where
  "cc_collect DV s = cc_run DV s"

definition cc_collect_for_fds :: "drop_value \<Rightarrow> ccs \<Rightarrow> (bool \<times> ccs) option" where
  "cc_collect_for_fds DV s =
    (if roots s = [] \<or> collecting s \<or> depth s \<noteq> 0 \<or> batch s \<noteq> 0 then Some (False, s)
     else do { s1 \<leftarrow> cc_run DV s; Some (True, s1) })"

definition EMFILE :: int where "EMFILE = 24"
definition ENFILE :: int where "ENFILE = 23"

text \<open>The errno the failed open left is an argument, and is the same afterwards.\<close>

definition cc_reclaim_fds :: "drop_value \<Rightarrow> int \<Rightarrow> ccs \<Rightarrow> (bool \<times> ccs) option" where
  "cc_reclaim_fds DV e s = (if e \<noteq> EMFILE \<and> e \<noteq> ENFILE then Some (False, s) else cc_collect_for_fds DV s)"

partial_function (option) context_end_loop :: "drop_value \<Rightarrow> ccs \<Rightarrow> ccs option" where
  [code]: "context_end_loop DV s =
    (if roots s \<noteq> [] \<and> \<not> collecting s then do { s1 \<leftarrow> cc_run DV s; context_end_loop DV s1 } else Some s)"

definition cc_context_end :: "drop_value \<Rightarrow> ccs \<Rightarrow> ccs option" where
  "cc_context_end DV s = do {
     s1 \<leftarrow> context_end_loop DV s;
     if collecting s1 \<or> depth s1 \<noteq> 0 then Some s1
     else Some (s1\<lparr>roots := [], deferred := [], threshold := CC_MIN_THRESHOLD, urgent := False\<rparr>)
   }"

end
