(* ===== verification/CycleProofs.thy ===== *)
theory CycleProofs
  imports CycleColl
begin

text \<open>
  The three walks of trial deletion over a closed finite set of blocks: what each does to colours
  and counts, and that it ends.
\<close>

section \<open>The graph of handles\<close>

definition edge_rel :: "(nat \<Rightarrow> nat list) \<Rightarrow> (nat \<times> nat) set" where
  "edge_rel K = {(a, b). b \<in> set (K a) \<and> b \<noteq> 0}"

definition reach :: "(nat \<Rightarrow> nat list) \<Rightarrow> nat set \<Rightarrow> nat set" where
  "reach K X = (edge_rel K)\<^sup>* `` X"

definition closed :: "(nat \<Rightarrow> nat list) \<Rightarrow> nat set \<Rightarrow> bool" where
  "closed K X \<longleftrightarrow> (\<forall>b \<in> X. \<forall>t \<in> set (K b). t \<noteq> 0 \<longrightarrow> t \<in> X)"

definition edges_in :: "(nat \<Rightarrow> nat list) \<Rightarrow> nat set \<Rightarrow> nat \<Rightarrow> int" where
  "edges_in K X t = (\<Sum>b \<in> X. int (count_list (K b) t))"

lemma reach_refl: "X \<subseteq> reach K X"
  by (auto simp: reach_def)

lemma reach_mono: "X \<subseteq> Y \<Longrightarrow> reach K X \<subseteq> reach K Y"
  by (auto simp: reach_def)

lemma reach_closed: "closed K (reach K X)"
  by (auto simp: reach_def closed_def edge_rel_def Image_iff intro: rtrancl_into_rtrancl)

lemma reach_least:
  assumes "X \<subseteq> Y" "closed K Y"
  shows "reach K X \<subseteq> Y"
proof
  fix y assume "y \<in> reach K X"
  then obtain x where "(x, y) \<in> (edge_rel K)\<^sup>*" "x \<in> X" by (auto simp: reach_def)
  then show "y \<in> Y" using assms
    by (induction rule: rtrancl_induct) (auto simp: edge_rel_def closed_def)
qed

lemma reach_Un: "reach K (X \<union> Y) = reach K X \<union> reach K Y"
  by (auto simp: reach_def)

lemma reach_step: "b \<in> X \<Longrightarrow> reach K ({t \<in> set (K b). t \<noteq> 0} \<union> X) = reach K X"
proof (rule equalityI)
  assume "b \<in> X"
  then have "{t \<in> set (K b). t \<noteq> 0} \<subseteq> reach K X"
    using reach_refl [of X K] reach_closed [of K X] by (auto simp: closed_def)
  then show "reach K ({t \<in> set (K b). t \<noteq> 0} \<union> X) \<subseteq> reach K X"
    using reach_refl [of X K] by (intro reach_least reach_closed) auto
qed (simp add: reach_mono)

lemma edges_in_insert: "finite X \<Longrightarrow> b \<notin> X \<Longrightarrow> edges_in K (insert b X) t = int (count_list (K b) t) + edges_in K X t"
  by (simp add: edges_in_def)

lemma edges_in_disjoint: "finite X \<Longrightarrow> finite Y \<Longrightarrow> X \<inter> Y = {} \<Longrightarrow> edges_in K (X \<union> Y) t = edges_in K X t + edges_in K Y t"
  by (simp add: edges_in_def sum.union_disjoint)

lemma edges_in_nonneg: "0 \<le> edges_in K X t"
  by (simp add: edges_in_def sum_nonneg)

lemma edges_in_zero: "(\<And>b. b \<in> X \<Longrightarrow> t \<notin> set (K b)) \<Longrightarrow> edges_in K X t = 0"
  by (simp add: edges_in_def count_list_0_iff)

lemma edges_in_pos: "finite X \<Longrightarrow> b \<in> X \<Longrightarrow> t \<in> set (K b) \<Longrightarrow> 0 < edges_in K X t"
proof -
  assume a: "finite X" "b \<in> X" "t \<in> set (K b)"
  then have "0 < int (count_list (K b) t)" using count_list_0_iff [of "K b" t] by simp
  also have "\<dots> \<le> edges_in K X t" unfolding edges_in_def by (rule member_le_sum [OF a(2)]) (use a(1) in simp_all)
  finally show ?thesis .
qed

section \<open>Frames\<close>

text \<open>The walks change nothing but counts, colours and the dead mark.\<close>

definition marks :: "ccs \<Rightarrow> ccs \<Rightarrow> bool" where
  "marks s t \<longleftrightarrow> (\<exists>f. t = s\<lparr>hdr := f\<rparr>) \<and>
    (\<forall>h. \<exists>n c d. hdr t h = (hdr s h)\<lparr>h_strong := n, h_color := c, h_dead := d\<rparr>)"

lemma marksI:
  "t = s\<lparr>hdr := f\<rparr> \<Longrightarrow> (\<And>h. f h = (hdr s h)\<lparr>h_strong := n h, h_color := c h, h_dead := d h\<rparr>) \<Longrightarrow> marks s t"
  unfolding marks_def by auto

lemma marks_refl: "marks s s"
  by (rule marksI [where f = "hdr s" and n = "\<lambda>h. strong s h" and c = "\<lambda>h. color s h" and d = "\<lambda>h. dead s h"]) simp_all

lemma marks_trans:
  assumes "marks s t" "marks t u"
  shows "marks s u"
  unfolding marks_def
proof (intro conjI allI)
  show "\<exists>f. u = s\<lparr>hdr := f\<rparr>" using assms unfolding marks_def by auto
  fix h
  obtain n c d where "hdr t h = (hdr s h)\<lparr>h_strong := n, h_color := c, h_dead := d\<rparr>" using assms(1) unfolding marks_def by blast
  moreover obtain n' c' d' where "hdr u h = (hdr t h)\<lparr>h_strong := n', h_color := c', h_dead := d'\<rparr>" using assms(2) unfolding marks_def by blast
  ultimately show "\<exists>n c d. hdr u h = (hdr s h)\<lparr>h_strong := n, h_color := c, h_dead := d\<rparr>"
    by (intro exI [of _ n'] exI [of _ c'] exI [of _ d']) simp
qed

lemma marks_fields:
  assumes "marks s t"
  shows "kids t = kids s" "buffered t h = buffered s h" "h_weak (hdr t h) = h_weak (hdr s h)" "h_freed (hdr t h) = h_freed (hdr s h)"
    "h_idx (hdr t h) = h_idx (hdr s h)" "roots t = roots s" "collecting t = collecting s" "released t = released s"
proof -
  obtain f where "t = s\<lparr>hdr := f\<rparr>" using assms unfolding marks_def by blast
  then show "kids t = kids s" "roots t = roots s" "collecting t = collecting s" "released t = released s" by simp_all
  obtain n c d where "hdr t h = (hdr s h)\<lparr>h_strong := n, h_color := c, h_dead := d\<rparr>" using assms unfolding marks_def by blast
  then show "buffered t h = buffered s h" "h_weak (hdr t h) = h_weak (hdr s h)" "h_freed (hdr t h) = h_freed (hdr s h)" "h_idx (hdr t h) = h_idx (hdr s h)"
    by simp_all
qed

definition adjust :: "nat list \<Rightarrow> int \<Rightarrow> (nat \<Rightarrow> colour) \<Rightarrow> ccs \<Rightarrow> ccs" where
  "adjust ks d c s = s\<lparr>hdr := \<lambda>t. (hdr s t)\<lparr>h_strong := strong s t + d * (if t = 0 then 0 else int (count_list ks t)), h_color := c t\<rparr>\<rparr>"

lemma adjust_fields [simp]:
  "kids (adjust ks d c s) = kids s" "color (adjust ks d c s) t = c t" "dead (adjust ks d c s) t = dead s t"
  "t \<noteq> 0 \<Longrightarrow> strong (adjust ks d c s) t = strong s t + d * int (count_list ks t)"
  "buffered (adjust ks d c s) t = buffered s t"
  by (simp_all add: adjust_def)

lemma adjust_marks: "marks s (adjust ks d c s)"
  by (rule marksI [where n = "\<lambda>h. strong (adjust ks d c s) h" and c = c and d = "\<lambda>h. dead s h"]) (simp_all add: adjust_def)

lemma paint_fields [simp]:
  "kids (paint h c s) = kids s" "color (paint h c s) t = (if t = h then c else color s t)" "strong (paint h c s) t = strong s t"
  "dead (paint h c s) t = dead s t" "buffered (paint h c s) t = buffered s t"
  by (simp_all add: paint_def hset_def)

lemma paint_marks: "marks s (paint h c s)"
  by (rule marksI [where f = "(hdr s)(h := (hdr s h)\<lparr>h_color := c\<rparr>)" and n = "\<lambda>h. strong s h" and c = "\<lambda>x. color (paint h c s) x" and d = "\<lambda>h. dead s h"])
    (simp_all add: paint_def hset_def)

section \<open>Marking\<close>

lemma fold_mark:
  "fold (cc_visit MarkGray) ks (st, s) = (rev (filter (\<lambda>k. k \<noteq> 0 \<and> color s k \<noteq> Gray) ks) @ st, adjust ks (-1) (color s) s)"
proof (induction ks arbitrary: st s)
  case Nil
  show ?case by (simp add: adjust_def cong: if_cong)
next
  case (Cons k ks)
  have c: "color (add_strong k (-1) s) t = color s t" for t by (simp add: add_strong_def hset_def)
  have "adjust ks (-1) (color s) (add_strong k (-1) s) = adjust (k # ks) (-1) (color s) s" if "k \<noteq> 0"
    using that by (simp add: adjust_def add_strong_def hset_def fun_eq_iff)
  moreover have "adjust (0 # ks) (-1) (color s) s = adjust ks (-1) (color s) s" by (simp add: adjust_def fun_eq_iff)
  ultimately show ?case using Cons [of _ "add_strong k (-1) s"] Cons [of _ s]
    by (cases "k = 0") (simp_all add: cc_visit_def Let_def c)
qed

abbreviation grays :: "ccs \<Rightarrow> nat set" where "grays s \<equiv> {t. color s t = Gray}"

lemma markgray_loop_ok:
  assumes "finite B" "closed (kids s) B" "set st \<subseteq> B" "grays s \<subseteq> B"
    and "\<forall>b \<in> grays s. \<forall>t \<in> set (kids s b). t \<noteq> 0 \<longrightarrow> t \<in> grays s \<union> set st"
  shows "\<exists>u. markgray_loop st s = Some u \<and> marks s u \<and> closed (kids s) (grays u) \<and> grays s \<union> set st \<subseteq> grays u \<and>
    grays u \<subseteq> grays s \<union> reach (kids s) (set st) \<and> (\<forall>t. t \<noteq> 0 \<longrightarrow> strong u t = strong s t - edges_in (kids s) (grays u - grays s) t) \<and>
    (\<forall>t. t \<notin> grays u \<longrightarrow> color u t = color s t) \<and> (\<forall>t. dead u t = dead s t)"
  using assms(2-5)
proof (induction "(card (B - grays s), length st)" arbitrary: st s rule: wf_induct_rule [OF wf_lex_prod [OF wf_less_than wf_less_than]])
  case (1 st s)
  show ?case
  proof (cases st)
    case Nil
    then show ?thesis using "1.prems" by (subst markgray_loop.simps) (auto simp: closed_def edges_in_def marks_refl)
  next
    case (Cons h rest)
    show ?thesis
    proof (cases "color s h = Gray")
      case True
      have m: "((card (B - grays s), length rest), (card (B - grays s), length st)) \<in> less_than <*lex*> less_than" by (simp add: Cons)
      have p: "\<forall>b \<in> grays s. \<forall>t \<in> set (kids s b). t \<noteq> 0 \<longrightarrow> t \<in> grays s \<union> set rest"
        using "1.prems"(4) True by (auto simp: Cons)
      have r: "set rest \<subseteq> B" using "1.prems"(2) by (simp add: Cons)
      obtain u where u: "markgray_loop rest s = Some u" "marks s u" "closed (kids s) (grays u)" "grays s \<union> set rest \<subseteq> grays u"
        "grays u \<subseteq> grays s \<union> reach (kids s) (set rest)" "\<forall>t. t \<noteq> 0 \<longrightarrow> strong u t = strong s t - edges_in (kids s) (grays u - grays s) t"
        "\<forall>t. t \<notin> grays u \<longrightarrow> color u t = color s t" "\<forall>t. dead u t = dead s t"
        using "1.hyps" [OF m "1.prems"(1) r "1.prems"(3) p] by (elim exE conjE)
      have rr: "reach (kids s) (set rest) \<subseteq> reach (kids s) (set st)" by (rule reach_mono) (auto simp: Cons)
      have st: "markgray_loop st s = Some u" using u(1) True by (subst markgray_loop.simps) (simp add: Cons)
      have "h \<in> grays u" using u(4) True by auto
      then have "grays s \<union> set st \<subseteq> grays u" using u(4) by (simp add: Cons)
      moreover have "grays u \<subseteq> grays s \<union> reach (kids s) (set st)" using u(5) rr by blast
      ultimately show ?thesis using st u(2,3,6-8) by (intro exI [of _ u] conjI)
    next
      case False
      define K where "K = kids s"
      define s1 where "s1 = adjust (K h) (-1) (color (paint h Gray s)) (paint h Gray s)"
      define st1 where "st1 = rev (filter (\<lambda>k. k \<noteq> 0 \<and> color (paint h Gray s) k \<noteq> Gray) (K h)) @ rest"
      have x: "cc_trace MarkGray h (rest, paint h Gray s) = (st1, s1)" by (simp add: cc_trace_def fold_mark st1_def s1_def K_def)
      have g1: "grays s1 = insert h (grays s)" by (auto simp: s1_def)
      have k1: "kids s1 = kids s" by (simp add: s1_def)
      have hB: "h \<in> B" using "1.prems"(2) by (simp add: Cons)
      have "B - grays s1 \<subset> B - grays s" using g1 False hB by auto
      then have "card (B - grays s1) < card (B - grays s)" using assms(1) by (intro psubset_card_mono) auto
      then have m: "((card (B - grays s1), length st1), (card (B - grays s), length st)) \<in> less_than <*lex*> less_than" by simp
      have kB: "\<forall>t \<in> set (K h). t \<noteq> 0 \<longrightarrow> t \<in> B" using "1.prems"(1) hB by (simp add: closed_def K_def)
      have p: "set st1 \<subseteq> B" "grays s1 \<subseteq> B" using kB "1.prems"(2,3) hB g1 by (auto simp: st1_def Cons)
      have q: "\<forall>b \<in> grays s1. \<forall>t \<in> set (kids s1 b). t \<noteq> 0 \<longrightarrow> t \<in> grays s1 \<union> set st1"
        using "1.prems"(4) unfolding g1 k1 by (auto simp: st1_def Cons K_def)
      have k: "closed (kids s1) B" using "1.prems"(1) by (simp add: k1)
      obtain u where u: "markgray_loop st1 s1 = Some u" "marks s1 u" "closed (kids s) (grays u)"
        "grays s1 \<union> set st1 \<subseteq> grays u" "grays u \<subseteq> grays s1 \<union> reach (kids s) (set st1)"
        "\<forall>t. t \<noteq> 0 \<longrightarrow> strong u t = strong s1 t - edges_in (kids s) (grays u - grays s1) t"
        "\<forall>t. t \<notin> grays u \<longrightarrow> color u t = color s1 t" "\<forall>t. dead u t = dead s1 t"
        using "1.hyps" [OF m k p q] unfolding k1 by (elim exE conjE)
      have "set st1 \<subseteq> {t \<in> set (kids s h). t \<noteq> 0} \<union> set st" by (auto simp: st1_def Cons K_def)
      then have r: "reach (kids s) (set st1) \<subseteq> reach (kids s) (set st)"
        using reach_mono reach_step [of h "set st" "kids s"] by (metis Cons list.set_intros(1))
      have hr: "h \<in> reach (kids s) (set st)" using reach_refl [of "set st" "kids s"] by (auto simp: Cons)
      have hu: "h \<in> grays u" using u(4) g1 by auto
      have "grays u \<subseteq> B" using u(5) p reach_least [OF p(1) "1.prems"(1)] by blast
      then have fin: "finite (grays u)" using assms(1) finite_subset by blast
      have d: "grays u - grays s = insert h (grays u - grays s1)" unfolding g1 using hu False by auto
      have "h \<notin> grays u - grays s1" unfolding g1 by simp
      then have e: "edges_in (kids s) (grays u - grays s) t = int (count_list (kids s h) t) + edges_in (kids s) (grays u - grays s1) t" for t
        unfolding d by (intro edges_in_insert finite_Diff fin)
      have "\<forall>t. t \<noteq> 0 \<longrightarrow> strong u t = strong s t - edges_in (kids s) (grays u - grays s) t"
        using u(6) e by (simp add: s1_def K_def)
      moreover have "markgray_loop st s = Some u" using u(1) False x by (subst markgray_loop.simps) (simp add: Cons)
      moreover have "marks s s1" unfolding s1_def by (rule marks_trans [OF paint_marks adjust_marks])
      then have "marks s u" by (rule marks_trans [OF _ u(2)])
      moreover have "\<forall>t. t \<notin> grays u \<longrightarrow> color u t = color s t"
        using u(7) hu unfolding s1_def by (simp, metis)
      moreover have "\<forall>t. dead u t = dead s t" using u(8) by (simp add: s1_def)
      moreover have "grays s \<union> set st \<subseteq> grays u"
        using u(4) g1 hu by (auto simp: Cons st1_def)
      moreover have "grays u \<subseteq> grays s \<union> reach (kids s) (set st)" using u(5) g1 hr r by auto
      ultimately show ?thesis using u(3) by (intro exI [of _ u] conjI)
    qed
  qed
qed

section \<open>Scanning\<close>

lemma fold_black:
  "\<exists>new. fold (cc_visit ScanBlack) ks (st, s) = (new @ st, adjust ks 1 (\<lambda>t. if t \<noteq> 0 \<and> t \<in> set ks then Black else color s t) s) \<and>
    distinct new \<and> set new = {t \<in> set ks. t \<noteq> 0 \<and> color s t \<noteq> Black}"
proof (induction ks arbitrary: st s)
  case Nil
  have "adjust [] 1 (color s) s = s" by (simp add: adjust_def cong: if_cong)
  then show ?case by simp
next
  case (Cons k ks)
  show ?case
  proof (cases "k = 0")
    case True
    have "adjust (0 # ks) 1 c s = adjust ks 1 c s" for c by (simp add: adjust_def fun_eq_iff)
    moreover have "(\<lambda>t. if t \<noteq> 0 \<and> t \<in> set (k # ks) then Black else color s t) = (\<lambda>t. if t \<noteq> 0 \<and> t \<in> set ks then Black else color s t)"
      using True by (auto simp: fun_eq_iff)
    ultimately show ?thesis using Cons [of st s] True by (auto simp: cc_visit_def)
  next
    case False
    define s1 where "s1 = (if color s k \<noteq> Black then paint k Black (add_strong k 1 s) else add_strong k 1 s)"
    define st1 where "st1 = (if color s k \<noteq> Black then k # st else st)"
    have v: "cc_visit ScanBlack k (st, s) = (st1, s1)"
      using False by (simp add: cc_visit_def Let_def s1_def st1_def add_strong_def hset_def)
    have c1: "color s1 t = (if t = k then Black else color s t)" for t
      by (simp add: s1_def paint_def add_strong_def hset_def)
    obtain new where n: "fold (cc_visit ScanBlack) ks (st1, s1) = (new @ st1, adjust ks 1 (\<lambda>t. if t \<noteq> 0 \<and> t \<in> set ks then Black else color s1 t) s1)"
      "distinct new" "set new = {t \<in> set ks. t \<noteq> 0 \<and> color s1 t \<noteq> Black}" using Cons [of st1 s1] by (elim exE conjE)
    have "adjust ks 1 (\<lambda>t. if t \<noteq> 0 \<and> t \<in> set ks then Black else color s1 t) s1 =
      adjust (k # ks) 1 (\<lambda>t. if t \<noteq> 0 \<and> t \<in> set (k # ks) then Black else color s t) s"
      using False by (auto simp: adjust_def s1_def paint_def add_strong_def hset_def fun_eq_iff)
    moreover have "new @ st1 = (new @ (if color s k \<noteq> Black then [k] else [])) @ st" by (simp add: st1_def)
    moreover have "distinct (new @ (if color s k \<noteq> Black then [k] else []))" using n(2,3) by (auto simp: c1)
    moreover have "set (new @ (if color s k \<noteq> Black then [k] else [])) = {t \<in> set (k # ks). t \<noteq> 0 \<and> color s t \<noteq> Black}"
      using n(3) False by (auto simp: c1)
    ultimately show ?thesis using v n(1) by (intro exI [of _ "new @ (if color s k \<noteq> Black then [k] else [])"]) simp
  qed
qed

definition in_col :: "nat set \<Rightarrow> colour \<Rightarrow> ccs \<Rightarrow> nat set" where
  "in_col G c s = {t \<in> G. color s t = c}"

lemma in_col_sub: "in_col G c s \<subseteq> G"
  by (auto simp: in_col_def)

lemma scanblack_loop_ok:
  assumes "finite G" "closed (kids s) G" "0 \<notin> G" "set st \<subseteq> in_col G Black s" "distinct st"
    and "\<forall>b \<in> in_col G Black s - set st. \<forall>t \<in> set (kids s b). t \<noteq> 0 \<longrightarrow> t \<in> in_col G Black s"
  shows "\<exists>u. scanblack_loop st s = Some u \<and> marks s u \<and> closed (kids s) (in_col G Black u) \<and> in_col G Black s \<subseteq> in_col G Black u \<and>
    in_col G Black u \<subseteq> in_col G Black s \<union> reach (kids s) (set st) \<and>
    (\<forall>t. t \<noteq> 0 \<longrightarrow> strong u t = strong s t + edges_in (kids s) (in_col G Black u - (in_col G Black s - set st)) t) \<and>
    (\<forall>t. t \<notin> in_col G Black u \<longrightarrow> color u t = color s t) \<and> (\<forall>t. dead u t = dead s t)"
  using assms(2,4-6)
proof (induction "(card (G - in_col G Black s), length st)" arbitrary: st s rule: wf_induct_rule [OF wf_lex_prod [OF wf_less_than wf_less_than]])
  case (1 st s)
  show ?case
  proof (cases st)
    case Nil
    then have "scanblack_loop st s = Some s" by (subst scanblack_loop.simps) simp
    moreover have "closed (kids s) (in_col G Black s)" using "1.prems"(4) Nil by (simp add: closed_def)
    ultimately show ?thesis using Nil marks_refl [of s] by (intro exI [of _ s] conjI) (simp_all add: edges_in_def)
  next
    case (Cons h rest)
    define K where "K = kids s"
    define bs where "bs = in_col G Black s"
    obtain new where n: "fold (cc_visit ScanBlack) (K h) (rest, s) = (new @ rest, adjust (K h) 1 (\<lambda>t. if t \<noteq> 0 \<and> t \<in> set (K h) then Black else color s t) s)"
      "distinct new" "set new = {t \<in> set (K h). t \<noteq> 0 \<and> color s t \<noteq> Black}" using fold_black by blast
    define s1 where "s1 = adjust (K h) 1 (\<lambda>t. if t \<noteq> 0 \<and> t \<in> set (K h) then Black else color s t) s"
    have x: "cc_trace ScanBlack h (rest, s) = (new @ rest, s1)" using n(1) by (simp add: cc_trace_def K_def s1_def)
    have hb: "h \<in> bs" "set rest \<subseteq> bs" "h \<notin> set rest" "distinct rest" using "1.prems"(2,3) by (auto simp: Cons bs_def)
    have kG: "\<forall>t \<in> set (K h). t \<noteq> 0 \<longrightarrow> t \<in> G" using "1.prems"(1) hb(1) by (auto simp: closed_def K_def bs_def in_col_def)
    have nG: "set new \<subseteq> G" "set new \<inter> bs = {}" using n(3) kG by (auto simp: bs_def in_col_def)
    have b1: "in_col G Black s1 = bs \<union> set new" using kG n(3) unfolding in_col_def bs_def s1_def by auto
    have k1: "kids s1 = kids s" by (simp add: s1_def)
    have kid_bl: "t \<in> bs \<union> set new" if "t \<in> set (K h)" "t \<noteq> 0" for t using that kG n(3) by (auto simp: bs_def in_col_def)
    have m: "((card (G - in_col G Black s1), length (new @ rest)), (card (G - in_col G Black s), length st)) \<in> less_than <*lex*> less_than"
    proof (cases "new = []")
      case True
      then show ?thesis by (simp add: b1 bs_def Cons)
    next
      case False
      then obtain y where "y \<in> set new" by (meson last_in_set)
      then have "G - in_col G Black s1 \<subset> G - in_col G Black s" using nG unfolding b1 bs_def by blast
      then have "card (G - in_col G Black s1) < card (G - in_col G Black s)" using assms(1) by (intro psubset_card_mono) auto
      then show ?thesis by simp
    qed
    have p1: "closed (kids s1) G" using "1.prems"(1) by (simp add: k1)
    have p2: "set (new @ rest) \<subseteq> in_col G Black s1" using hb by (auto simp: b1)
    have p3: "distinct (new @ rest)" using n(2) hb nG(2) by auto
    have p4: "\<forall>b \<in> in_col G Black s1 - set (new @ rest). \<forall>t \<in> set (kids s1 b). t \<noteq> 0 \<longrightarrow> t \<in> in_col G Black s1"
    proof (intro ballI impI)
      fix b t assume b: "b \<in> in_col G Black s1 - set (new @ rest)" "t \<in> set (kids s1 b)" "t \<noteq> 0"
      show "t \<in> in_col G Black s1"
      proof (cases "b = h")
        case True
        then show ?thesis using kid_bl b by (simp add: b1 k1 K_def)
      next
        case False
        then have "b \<in> in_col G Black s - set st" using b(1) by (auto simp: b1 bs_def Cons)
        then show ?thesis using "1.prems"(4) b(2,3) by (auto simp: b1 bs_def k1)
      qed
    qed
    obtain u where u: "scanblack_loop (new @ rest) s1 = Some u" "marks s1 u" "closed (kids s) (in_col G Black u)" "in_col G Black s1 \<subseteq> in_col G Black u"
      "in_col G Black u \<subseteq> in_col G Black s1 \<union> reach (kids s) (set (new @ rest))"
      "\<forall>t. t \<noteq> 0 \<longrightarrow> strong u t = strong s1 t + edges_in (kids s) (in_col G Black u - (in_col G Black s1 - set (new @ rest))) t"
      "\<forall>t. t \<notin> in_col G Black u \<longrightarrow> color u t = color s1 t" "\<forall>t. dead u t = dead s1 t"
      using "1.hyps" [OF m p1 p2 p3 p4] unfolding k1 by (elim exE conjE)
    define bu where "bu = in_col G Black u"
    have "set (new @ rest) \<subseteq> {t \<in> set (kids s h). t \<noteq> 0} \<union> set st" using n(3) by (auto simp: Cons K_def)
    then have r: "reach (kids s) (set (new @ rest)) \<subseteq> reach (kids s) (set st)"
      using reach_mono reach_step [of h "set st" "kids s"] by (metis Cons list.set_intros(1))
    have d1: "in_col G Black s1 - set (new @ rest) = bs - set rest" using nG(2) unfolding b1 by auto
    have sub: "bs \<union> set new \<subseteq> bu" using u(4) by (simp add: b1 bu_def)
    have d2: "bu - (bs - set st) = insert h (bu - (bs - set rest))" using sub hb by (auto simp: Cons)
    have fin: "finite bu" unfolding bu_def by (rule finite_subset [OF in_col_sub assms(1)])
    have "h \<notin> bu - (bs - set rest)" using hb by auto
    then have e: "edges_in (kids s) (bu - (bs - set st)) t = int (count_list (kids s h) t) + edges_in (kids s) (bu - (bs - set rest)) t" for t
      unfolding d2 by (intro edges_in_insert finite_Diff fin)
    have "\<forall>t. t \<noteq> 0 \<longrightarrow> strong u t = strong s t + edges_in (kids s) (bu - (bs - set st)) t"
    proof (intro allI impI)
      fix t :: nat assume t: "t \<noteq> 0"
      have a: "strong u t = strong s1 t + edges_in (kids s) (bu - (bs - set rest)) t" using u(6) t unfolding d1 bu_def [symmetric] by blast
      have b: "strong s1 t = strong s t + int (count_list (kids s h) t)" using t by (simp add: s1_def K_def)
      show "strong u t = strong s t + edges_in (kids s) (bu - (bs - set st)) t" unfolding a b e by simp
    qed
    moreover have "scanblack_loop st s = Some u" using u(1) x by (subst scanblack_loop.simps) (simp add: Cons)
    moreover have "marks s s1" unfolding s1_def by (rule adjust_marks)
    then have "marks s u" by (rule marks_trans [OF _ u(2)])
    moreover have "\<forall>t. t \<notin> bu \<longrightarrow> color u t = color s t"
    proof (intro allI impI)
      fix t assume t: "t \<notin> bu"
      then have "\<not> (t \<noteq> 0 \<and> t \<in> set (K h))" using kid_bl sub by blast
      then show "color u t = color s t" using u(7) t by (auto simp: bu_def s1_def)
    qed
    moreover have "\<forall>t. dead u t = dead s t" using u(8) by (simp add: s1_def)
    moreover have "bs \<subseteq> bu" using sub by blast
    moreover have "bu \<subseteq> bs \<union> reach (kids s) (set st)"
    proof -
      have "set new \<subseteq> reach (kids s) (set st)" using r reach_refl [of "set (new @ rest)" "kids s"] by auto
      then show ?thesis using u(5) r unfolding bu_def [symmetric] b1 by blast
    qed
    ultimately show ?thesis using u(3) unfolding bs_def bu_def by (intro exI [of _ u] conjI)
  qed
qed


lemma cc_scanblack_ok:
  assumes "finite G" "closed (kids s) G" "0 \<notin> G" "h \<in> G" "color s h \<noteq> Black" "closed (kids s) (in_col G Black s)"
  shows "\<exists>u. cc_scanblack h s = Some u \<and> marks s u \<and> closed (kids s) (in_col G Black u) \<and> insert h (in_col G Black s) \<subseteq> in_col G Black u \<and>
    in_col G Black u \<subseteq> in_col G Black s \<union> reach (kids s) {h} \<and>
    (\<forall>t. t \<noteq> 0 \<longrightarrow> strong u t = strong s t + edges_in (kids s) (in_col G Black u - in_col G Black s) t) \<and>
    (\<forall>t. t \<notin> in_col G Black u \<longrightarrow> color u t = color s t) \<and> (\<forall>t. dead u t = dead s t)"
proof -
  define s1 where "s1 = paint h Black s"
  have b: "in_col G Black s1 = insert h (in_col G Black s)" using assms(4) by (auto simp: s1_def in_col_def)
  have k: "kids s1 = kids s" by (simp add: s1_def)
  have d: "in_col G Black s1 - set [h] = in_col G Black s" using assms(5) unfolding b by (auto simp: in_col_def)
  have c: "\<forall>b \<in> in_col G Black s1 - set [h]. \<forall>t \<in> set (kids s1 b). t \<noteq> 0 \<longrightarrow> t \<in> in_col G Black s1"
    using assms(6) unfolding d k b by (auto simp: closed_def)
  have e: "set [h] \<subseteq> in_col G Black s1" by (simp add: b)
  have f: "closed (kids s1) G" using assms(2) by (simp add: k)
  obtain u where u: "scanblack_loop [h] s1 = Some u" "marks s1 u" "closed (kids s1) (in_col G Black u)" "in_col G Black s1 \<subseteq> in_col G Black u"
    "in_col G Black u \<subseteq> in_col G Black s1 \<union> reach (kids s1) (set [h])"
    "\<forall>t. t \<noteq> 0 \<longrightarrow> strong u t = strong s1 t + edges_in (kids s1) (in_col G Black u - (in_col G Black s1 - set [h])) t"
    "\<forall>t. t \<notin> in_col G Black u \<longrightarrow> color u t = color s1 t" "\<forall>t. dead u t = dead s1 t"
    using scanblack_loop_ok [OF assms(1) f assms(3) e distinct_singleton c] by (elim exE conjE)
  have m: "marks s u" by (rule marks_trans [OF _ u(2)]) (simp add: s1_def paint_marks)
  have r: "in_col G Black u \<subseteq> in_col G Black s \<union> reach (kids s) {h}"
    using u(5) reach_refl [of "{h}" "kids s"] unfolding k b by auto
  have n: "\<forall>t. t \<noteq> 0 \<longrightarrow> strong u t = strong s t + edges_in (kids s) (in_col G Black u - in_col G Black s) t"
    using u(6) unfolding d k by (simp add: s1_def)
  have q: "\<forall>t. t \<notin> in_col G Black u \<longrightarrow> color u t = color s t"
  proof (intro allI impI)
    fix t assume t: "t \<notin> in_col G Black u"
    then have "t \<noteq> h" using u(4) unfolding b by auto
    then show "color u t = color s t" using u(7) t by (simp add: s1_def)
  qed
  have z: "\<forall>t. dead u t = dead s t" using u(8) by (simp add: s1_def)
  have w: "cc_scanblack h s = Some u" using u(1) by (simp add: cc_scanblack_def s1_def)
  show ?thesis using w m u(3) u(4) r n q z unfolding k b by (intro exI [of _ u] conjI)
qed

text \<open>What scanning keeps: \<open>p\<close> are the counts that marking left, \<open>st\<close> the blocks still to look at.\<close>

definition scan_inv :: "nat set \<Rightarrow> (nat \<Rightarrow> int) \<Rightarrow> nat list \<Rightarrow> ccs \<Rightarrow> bool" where
  "scan_inv G p st s \<longleftrightarrow>
    closed (kids s) (in_col G Black s) \<and>
    (\<forall>t. t \<noteq> 0 \<longrightarrow> strong s t = p t + edges_in (kids s) (in_col G Black s) t) \<and>
    (\<forall>t \<in> G. color s t \<noteq> Purple) \<and>
    (\<forall>t \<in> in_col G White s. p t \<le> 0) \<and>
    in_col G Black s \<subseteq> reach (kids s) {x \<in> G. p x > 0} \<and>
    (\<forall>w \<in> in_col G White s. \<forall>t \<in> set (kids s w). t \<noteq> 0 \<longrightarrow> color s t = Gray \<longrightarrow> t \<in> set st)"

lemma scan_invD:
  assumes "scan_inv G p st s"
  shows "closed (kids s) (in_col G Black s)" "t \<noteq> 0 \<Longrightarrow> strong s t = p t + edges_in (kids s) (in_col G Black s) t"
    "t \<in> G \<Longrightarrow> color s t \<noteq> Purple" "t \<in> in_col G White s \<Longrightarrow> p t \<le> 0" "in_col G Black s \<subseteq> reach (kids s) {x \<in> G. p x > 0}"
    "w \<in> in_col G White s \<Longrightarrow> t \<in> set (kids s w) \<Longrightarrow> t \<noteq> 0 \<Longrightarrow> color s t = Gray \<Longrightarrow> t \<in> set st"
  using assms unfolding scan_inv_def by (elim conjE, simp)+

lemma scan_inv_count:
  assumes "scan_inv G p st s" "h \<in> G" "0 \<notin> G" "color s h = Gray"
  shows "strong s h = p h"
proof -
  have "h \<notin> set (kids s b)" if "b \<in> in_col G Black s" for b
  proof
    assume "h \<in> set (kids s b)"
    moreover have "h \<noteq> 0" using assms(2,3) by metis
    ultimately have "h \<in> in_col G Black s" using scan_invD(1) [OF assms(1)] that unfolding closed_def by simp
    then show False using assms(4) by (simp add: in_col_def)
  qed
  then have "edges_in (kids s) (in_col G Black s) h = 0" by (rule edges_in_zero)
  moreover have "h \<noteq> 0" using assms(2,3) by metis
  ultimately show ?thesis using scan_invD(2) [OF assms(1), of h] by simp
qed

lemma fold_scan: "fold (cc_visit Scan) ks (st, s) = (rev (filter (\<lambda>k. k \<noteq> 0) ks) @ st, s)"
  by (induction ks arbitrary: st) (simp_all add: cc_visit_def)

lemma scan_inv_black:
  assumes i: "scan_inv G p (h # rest) s" and G: "finite G" "closed (kids s) G" "0 \<notin> G" and h: "h \<in> G" "color s h = Gray" "strong s h > 0"
  shows "\<exists>u. cc_scanblack h s = Some u \<and> marks s u \<and> scan_inv G p rest u \<and> in_col G Gray u \<subset> in_col G Gray s \<and>
    color u h \<noteq> Gray \<and> (\<forall>t. t \<notin> G \<longrightarrow> color u t = color s t) \<and> (\<forall>t. dead u t = dead s t)"
proof -
  define K where "K = kids s"
  have cl: "closed K (in_col G Black s)" unfolding K_def by (rule scan_invD(1) [OF i])
  have nb: "color s h \<noteq> Black" using h(2) by simp
  obtain u where u: "cc_scanblack h s = Some u" "marks s u" "closed K (in_col G Black u)" "insert h (in_col G Black s) \<subseteq> in_col G Black u"
    "in_col G Black u \<subseteq> in_col G Black s \<union> reach K {h}"
    "\<forall>t. t \<noteq> 0 \<longrightarrow> strong u t = strong s t + edges_in K (in_col G Black u - in_col G Black s) t"
    "\<forall>t. t \<notin> in_col G Black u \<longrightarrow> color u t = color s t" "\<forall>t. dead u t = dead s t"
    using cc_scanblack_ok [OF G h(1) nb cl [unfolded K_def]] unfolding K_def [symmetric] by (elim exE conjE)
  have k: "kids u = K" using u(2) by (simp add: marks_fields K_def)
  have p: "p h > 0" using scan_inv_count [OF i h(1) G(3) h(2)] h(3) by simp
  have sub: "in_col G White u \<subseteq> in_col G White s" "in_col G Gray u \<subseteq> in_col G Gray s"
    using u(7) by (auto simp: in_col_def)
  have fin: "finite (in_col G Black s)" "finite (in_col G Black u)" using G(1) finite_subset [OF in_col_sub] by blast+
  have "in_col G Black u = in_col G Black s \<union> (in_col G Black u - in_col G Black s)" using u(4) by blast
  then have e: "edges_in K (in_col G Black u) t = edges_in K (in_col G Black s) t + edges_in K (in_col G Black u - in_col G Black s) t" for t
    using edges_in_disjoint [OF fin(1) finite_Diff [OF fin(2)], of "in_col G Black s" K t] by simp
  have j: "\<forall>t. t \<noteq> 0 \<longrightarrow> strong u t = p t + edges_in K (in_col G Black u) t"
  proof (intro allI impI)
    fix t :: nat assume t: "t \<noteq> 0"
    have "strong s t = p t + edges_in K (in_col G Black s) t" unfolding K_def by (rule scan_invD(2) [OF i t])
    then show "strong u t = p t + edges_in K (in_col G Black u) t" using u(6) t e [of t] by simp
  qed
  have np: "\<forall>t \<in> G. color u t \<noteq> Purple"
  proof
    fix t assume t: "t \<in> G"
    show "color u t \<noteq> Purple"
    proof (cases "t \<in> in_col G Black u")
      case True
      then show ?thesis unfolding in_col_def by simp
    next
      case False
      then have "color u t = color s t" using u(7) by blast
      then show ?thesis using scan_invD(3) [OF i t] by metis
    qed
  qed
  have wp: "\<forall>t \<in> in_col G White u. p t \<le> 0"
  proof
    fix t assume "t \<in> in_col G White u"
    then have "t \<in> in_col G White s" using sub(1) by (rule subsetD [rotated])
    then show "p t \<le> 0" by (rule scan_invD(4) [OF i])
  qed
  have "reach K {h} \<subseteq> reach K {x \<in> G. p x > 0}" using p h(1) by (intro reach_mono) simp
  then have rr: "in_col G Black u \<subseteq> reach K {x \<in> G. p x > 0}" using u(5) scan_invD(5) [OF i] unfolding K_def by blast
  have wk: "\<forall>w \<in> in_col G White u. \<forall>t \<in> set (K w). t \<noteq> 0 \<longrightarrow> color u t = Gray \<longrightarrow> t \<in> set rest"
  proof (intro ballI impI)
    fix w t assume a: "w \<in> in_col G White u" "t \<in> set (K w)" "t \<noteq> 0" "color u t = Gray"
    have "t \<notin> in_col G Black u" using a(4) by (simp add: in_col_def)
    then have "color s t = Gray" "t \<noteq> h" using u(7) u(4) a(4) by auto
    then show "t \<in> set rest" using scan_invD(6) [OF i _ _ a(3), of w] a(1,2) sub by (auto simp: K_def)
  qed
  have iu: "scan_inv G p rest u" unfolding scan_inv_def k using u(3) j np wp rr wk by (intro conjI)
  have hc: "color u h \<noteq> Gray" using u(4) by (auto simp: in_col_def)
  have "h \<in> in_col G Gray s" "h \<notin> in_col G Gray u" using h hc by (auto simp: in_col_def)
  then have ps: "in_col G Gray u \<subset> in_col G Gray s" using sub by blast
  have out: "\<forall>t. t \<notin> G \<longrightarrow> color u t = color s t" using u(7) by (auto simp: in_col_def)
  show ?thesis using u(1,2) iu ps hc out u(8) by (intro exI [of _ u] conjI)
qed

lemma scan_inv_white:
  assumes i: "scan_inv G p (h # rest) s" and G: "0 \<notin> G" and h: "h \<in> G" "color s h = Gray" "strong s h \<le> 0"
  shows "scan_inv G p (rev (filter (\<lambda>k. k \<noteq> 0) (kids s h)) @ rest) (paint h White s)"
proof -
  have b: "in_col G Black (paint h White s) = in_col G Black s" using h(2) by (auto simp: in_col_def)
  have w: "in_col G White (paint h White s) = insert h (in_col G White s)" using h(1) by (auto simp: in_col_def)
  have p: "p h \<le> 0" using scan_inv_count [OF i h(1) G h(2)] h(3) by simp
  have wk: "\<forall>w \<in> insert h (in_col G White s). \<forall>t \<in> set (kids s w). t \<noteq> 0 \<longrightarrow> color (paint h White s) t = Gray \<longrightarrow>
      t \<in> set (rev (filter (\<lambda>k. k \<noteq> 0) (kids s h)) @ rest)"
  proof (intro ballI impI)
    fix w t assume a: "w \<in> insert h (in_col G White s)" "t \<in> set (kids s w)" "t \<noteq> 0" "color (paint h White s) t = Gray"
    show "t \<in> set (rev (filter (\<lambda>k. k \<noteq> 0) (kids s h)) @ rest)"
    proof (cases "w = h")
      case True
      then show ?thesis using a by simp
    next
      case False
      have "color s t = Gray" "t \<noteq> h" using a(4) by (auto split: if_splits)
      then show ?thesis using scan_invD(6) [OF i _ a(2,3)] a(1) False by simp
    qed
  qed
  have c: "\<forall>t. t \<noteq> 0 \<longrightarrow> strong (paint h White s) t = p t + edges_in (kids s) (in_col G Black s) t"
    "\<forall>t \<in> G. color (paint h White s) t \<noteq> Purple" "\<forall>t \<in> insert h (in_col G White s). p t \<le> 0"
    using p scan_invD [OF i] by simp_all
  show ?thesis unfolding scan_inv_def b w paint_fields(1) using c wk scan_invD(1,5) [OF i] by (intro conjI)
qed

lemma scan_loop_ok:
  assumes "finite G" "0 \<notin> G" "closed (kids s) G" "set st \<subseteq> G" "scan_inv G p st s"
  shows "\<exists>u. scan_loop st s = Some u \<and> marks s u \<and> scan_inv G p [] u \<and> in_col G Gray u \<subseteq> in_col G Gray s \<and>
    (\<forall>t \<in> set st. color u t \<noteq> Gray) \<and> (\<forall>t. t \<notin> G \<longrightarrow> color u t = color s t) \<and> (\<forall>t. dead u t = dead s t)"
  using assms(3-5)
proof (induction "(card (in_col G Gray s), length st)" arbitrary: st s rule: wf_induct_rule [OF wf_lex_prod [OF wf_less_than wf_less_than]])
  case (1 st s)
  show ?case
  proof (cases st)
    case Nil
    then have "scan_loop st s = Some s" by (subst scan_loop.simps) simp
    then show ?thesis using "1.prems"(3) Nil marks_refl [of s] by (intro exI [of _ s] conjI) simp_all
  next
    case (Cons h rest)
    have hG: "h \<in> G" "set rest \<subseteq> G" using "1.prems"(2) by (simp_all add: Cons)
    have fin: "finite (in_col G Gray s)" by (rule finite_subset [OF in_col_sub assms(1)])
    have less: "((card (in_col G Gray v), length st1), (card (in_col G Gray s), length st)) \<in> less_than <*lex*> less_than"
      if "in_col G Gray v \<subset> in_col G Gray s" for v st1 using psubset_card_mono [OF fin that] by simp
    consider (pop) "color s h \<noteq> Gray" | (black) "color s h = Gray" "strong s h > 0" | (white) "color s h = Gray" "strong s h \<le> 0" by fastforce
    then show ?thesis
    proof cases
      case pop
      have i: "scan_inv G p rest s" using "1.prems"(3) pop unfolding scan_inv_def Cons by (elim conjE, intro conjI) auto
      have m: "((card (in_col G Gray s), length rest), (card (in_col G Gray s), length st)) \<in> less_than <*lex*> less_than" by (simp add: Cons)
      obtain u where u: "scan_loop rest s = Some u" "marks s u" "scan_inv G p [] u" "in_col G Gray u \<subseteq> in_col G Gray s"
        "\<forall>t \<in> set rest. color u t \<noteq> Gray" "\<forall>t. t \<notin> G \<longrightarrow> color u t = color s t" "\<forall>t. dead u t = dead s t"
        using "1.hyps" [OF m "1.prems"(1) hG(2) i] by (elim exE conjE)
      have "color u h \<noteq> Gray" using u(4) hG(1) pop by (auto simp: in_col_def)
      then have "\<forall>t \<in> set st. color u t \<noteq> Gray" using u(5) by (simp add: Cons)
      moreover have "scan_loop st s = Some u" using u(1) pop by (subst scan_loop.simps) (simp add: Cons)
      ultimately show ?thesis using u by (intro exI [of _ u] conjI)
    next
      case black
      obtain v where v: "cc_scanblack h s = Some v" "marks s v" "scan_inv G p rest v" "in_col G Gray v \<subset> in_col G Gray s"
        "color v h \<noteq> Gray" "\<forall>t. t \<notin> G \<longrightarrow> color v t = color s t" "\<forall>t. dead v t = dead s t"
        using scan_inv_black [OF "1.prems"(3) [unfolded Cons] assms(1) "1.prems"(1) assms(2) hG(1) black] by (elim exE conjE)
      have k: "kids v = kids s" using v(2) by (simp add: marks_fields)
      have c: "closed (kids v) G" using "1.prems"(1) by (simp add: k)
      obtain u where u: "scan_loop rest v = Some u" "marks v u" "scan_inv G p [] u" "in_col G Gray u \<subseteq> in_col G Gray v"
        "\<forall>t \<in> set rest. color u t \<noteq> Gray" "\<forall>t. t \<notin> G \<longrightarrow> color u t = color v t" "\<forall>t. dead u t = dead v t"
        using "1.hyps" [OF less [OF v(4)] c hG(2) v(3)] by (elim exE conjE)
      have "h \<notin> in_col G Gray v" using v(5) by (simp add: in_col_def)
      then have "color u h \<noteq> Gray" using u(4) hG(1) by (auto simp: in_col_def)
      then have "\<forall>t \<in> set st. color u t \<noteq> Gray" using u(5) by (simp add: Cons)
      moreover have "scan_loop st s = Some u" using u(1) v(1) black by (subst scan_loop.simps) (simp add: Cons)
      moreover have "in_col G Gray u \<subseteq> in_col G Gray s" using u(4) v(4) by blast
      ultimately show ?thesis using u(3,6,7) v(6,7) marks_trans [OF v(2) u(2)] by (intro exI [of _ u] conjI) simp_all
    next
      case white
      define v where "v = paint h White s"
      define st1 where "st1 = rev (filter (\<lambda>k. k \<noteq> 0) (kids s h)) @ rest"
      have i: "scan_inv G p st1 v" unfolding st1_def v_def
        by (rule scan_inv_white [OF "1.prems"(3) [unfolded Cons] assms(2) hG(1) white])
      have k: "closed (kids v) G" "kids v = kids s" using "1.prems"(1) by (simp_all add: v_def)
      have g: "in_col G Gray v \<subset> in_col G Gray s" using hG(1) white(1) by (auto simp: in_col_def v_def)
      have s1: "set st1 \<subseteq> G" using hG "1.prems"(1) by (auto simp: st1_def closed_def)
      obtain u where u: "scan_loop st1 v = Some u" "marks v u" "scan_inv G p [] u" "in_col G Gray u \<subseteq> in_col G Gray v"
        "\<forall>t \<in> set st1. color u t \<noteq> Gray" "\<forall>t. t \<notin> G \<longrightarrow> color u t = color v t" "\<forall>t. dead u t = dead v t"
        using "1.hyps" [OF less [OF g] k(1) s1 i] by (elim exE conjE)
      have "h \<notin> in_col G Gray v" by (simp add: in_col_def v_def)
      then have "color u h \<noteq> Gray" using u(4) hG(1) by (auto simp: in_col_def)
      then have "\<forall>t \<in> set st. color u t \<noteq> Gray" using u(5) by (simp add: Cons st1_def)
      moreover have "cc_trace Scan h (rest, paint h White s) = (st1, v)" by (simp add: cc_trace_def fold_scan st1_def v_def)
      then have "scan_loop st s = Some u" using u(1) white by (subst scan_loop.simps) (simp add: Cons)
      moreover have "marks s u" by (rule marks_trans [OF _ u(2)]) (simp add: v_def paint_marks)
      moreover have "in_col G Gray u \<subseteq> in_col G Gray s" using u(4) g by blast
      moreover have "\<forall>t. t \<notin> G \<longrightarrow> color u t = color s t" using u(6) hG(1) by (auto simp: v_def)
      ultimately show ?thesis using u(3,7) by (intro exI [of _ u] conjI) (simp_all add: v_def)
    qed
  qed
qed

end
