(* ===== verification/CycleProps.thy ===== *)
theory CycleProps
  imports CycleProofs
begin

text \<open>
  Trial deletion as a whole: what \<open>cc_trial\<close> collects, and that the counts of what lives come back.
\<close>

section \<open>Marking the roots\<close>

definition mark_else :: "nat \<Rightarrow> ccs \<Rightarrow> ccs" where
  "mark_else h s =
    (let s1 = unbuffer h s;
         s2 = (if color s1 h = Purple then paint h Black s1 else s1)
     in if strong s2 h \<le> 0 \<and> h_freed (hdr s2 h) then cc_free_block h s2 else s2)"

lemma mark_roots_else: "\<not> (color s h = Purple \<and> strong s h > 0) \<Longrightarrow> mark_roots (h # hs) s = mark_roots hs (mark_else h s)"
  unfolding mark_roots.simps mark_else_def Let_def by (simp only: if_False)

lemma hdr_free_block [simp]: "hdr (cc_free_block h s) = hdr s" "kids (cc_free_block h s) = kids s"
  by (simp_all add: cc_free_block_def)

lemma mark_else_fields:
  "kids (mark_else h s) = kids s" "strong (mark_else h s) t = strong s t" "dead (mark_else h s) t = dead s t"
  "h_freed (hdr (mark_else h s) t) = h_freed (hdr s t)" "h_weak (hdr (mark_else h s) t) = h_weak (hdr s t)"
  "buffered (mark_else h s) t \<longleftrightarrow> buffered s t \<and> t \<noteq> h" "grays (mark_else h s) = grays s"
  "color s h \<noteq> Purple \<or> t \<noteq> h \<Longrightarrow> color (mark_else h s) t = color s t"
  "released (mark_else h s) = released s @ (if strong s h \<le> 0 \<and> h_freed (hdr s h) \<and> h_weak (hdr s h) = 0 then [h] else [])"
  by (auto simp: mark_else_def Let_def unbuffer_def paint_def hset_def cc_free_block_def)

lemma cc_markgray_ok:
  assumes "finite B" "closed (kids s) B" "h \<in> B" "grays s \<subseteq> B" "closed (kids s) (grays s)"
  shows "\<exists>u. cc_markgray h s = Some u \<and> marks s u \<and> closed (kids s) (grays u) \<and> grays u = grays s \<union> reach (kids s) {h} \<and>
    (\<forall>t. t \<noteq> 0 \<longrightarrow> strong u t = strong s t - edges_in (kids s) (grays u - grays s) t) \<and>
    (\<forall>t. t \<notin> grays u \<longrightarrow> color u t = color s t) \<and> (\<forall>t. dead u t = dead s t)"
proof -
  have a: "set [h] \<subseteq> B" using assms(3) by simp
  have b: "\<forall>b \<in> grays s. \<forall>t \<in> set (kids s b). t \<noteq> 0 \<longrightarrow> t \<in> grays s \<union> set [h]" using assms(5) unfolding closed_def by blast
  obtain u where u: "markgray_loop [h] s = Some u" "marks s u" "closed (kids s) (grays u)" "grays s \<union> set [h] \<subseteq> grays u"
    "grays u \<subseteq> grays s \<union> reach (kids s) (set [h])"
    "\<forall>t. t \<noteq> 0 \<longrightarrow> strong u t = strong s t - edges_in (kids s) (grays u - grays s) t"
    "\<forall>t. t \<notin> grays u \<longrightarrow> color u t = color s t" "\<forall>t. dead u t = dead s t"
    using markgray_loop_ok [OF assms(1,2) a assms(4) b] by (elim exE conjE)
  have "reach (kids s) {h} \<subseteq> grays u" by (rule reach_least [OF _ u(3)]) (use u(4) in simp)
  then have "grays u = grays s \<union> reach (kids s) {h}" using u(4,5) by (intro equalityI) simp_all
  then show ?thesis using u(1-3,6-8) unfolding cc_markgray_def by (intro exI [of _ u] conjI)
qed

definition mark_pre :: "nat set \<Rightarrow> ccs \<Rightarrow> bool" where
  "mark_pre B s \<longleftrightarrow> closed (kids s) B \<and> grays s \<subseteq> B \<and> closed (kids s) (grays s) \<and>
    (\<forall>t \<in> B. color s t \<noteq> Gray \<longrightarrow> strong s t > 0) \<and> (\<forall>t \<in> B. \<not> h_freed (hdr s t))"

definition dropped :: "nat set \<Rightarrow> ccs \<Rightarrow> nat \<Rightarrow> bool" where
  "dropped B s h \<longleftrightarrow> h \<notin> B \<and> h_freed (hdr s h) \<and> h_weak (hdr s h) = 0"

definition purple_in :: "nat set \<Rightarrow> nat list \<Rightarrow> ccs \<Rightarrow> nat set" where
  "purple_in B hs s = {h \<in> set hs. h \<in> B \<and> color s h = Purple}"

definition mark_post :: "nat set \<Rightarrow> nat list \<Rightarrow> nat list \<Rightarrow> ccs \<Rightarrow> ccs \<Rightarrow> bool" where
  "mark_post B hs live s u \<longleftrightarrow>
    kids u = kids s \<and> closed (kids s) (grays u) \<and> grays u = grays s \<union> reach (kids s) (set live) \<and>
    set live \<subseteq> purple_in B hs s \<and> purple_in B hs s \<subseteq> grays u \<and>
    (\<forall>t. t \<noteq> 0 \<longrightarrow> strong u t = strong s t - edges_in (kids s) (grays u - grays s) t) \<and>
    (\<forall>t \<in> B. t \<notin> grays u \<longrightarrow> color u t = color s t) \<and> (\<forall>t. dead u t = dead s t) \<and>
    (\<forall>t. buffered u t \<longleftrightarrow> buffered s t \<and> (t \<notin> set hs \<or> t \<in> set live)) \<and>
    released u = released s @ filter (dropped B s) hs"

lemma mark_postD:
  assumes "mark_post B hs live s u"
  shows "kids u = kids s" "closed (kids s) (grays u)" "grays u = grays s \<union> reach (kids s) (set live)"
    "set live \<subseteq> purple_in B hs s" "purple_in B hs s \<subseteq> grays u"
    "t \<noteq> 0 \<Longrightarrow> strong u t = strong s t - edges_in (kids s) (grays u - grays s) t"
    "t \<in> B \<Longrightarrow> t \<notin> grays u \<Longrightarrow> color u t = color s t" "dead u t = dead s t"
    "buffered u t \<longleftrightarrow> buffered s t \<and> (t \<notin> set hs \<or> t \<in> set live)" "released u = released s @ filter (dropped B s) hs"
  using assms unfolding mark_post_def by (elim conjE, metis)+

lemma mark_step_gray:
  assumes "finite B" "0 \<notin> B" "mark_pre B s" "cc_markgray h s = Some v" "h \<in> B" "color s h = Purple"
  shows "mark_pre B v" "marks s v" "grays v = grays s \<union> reach (kids s) {h}"
    "t \<noteq> 0 \<Longrightarrow> strong v t = strong s t - edges_in (kids s) (grays v - grays s) t" "t \<notin> grays v \<Longrightarrow> color v t = color s t"
    "dead v t = dead s t"
proof -
  have pre: "closed (kids s) B" "grays s \<subseteq> B" "closed (kids s) (grays s)" "\<forall>t \<in> B. color s t \<noteq> Gray \<longrightarrow> strong s t > 0" "\<forall>t \<in> B. \<not> h_freed (hdr s t)"
    using assms(3) unfolding mark_pre_def by blast+
  obtain v' where v': "cc_markgray h s = Some v'" "marks s v'" "closed (kids s) (grays v')" "grays v' = grays s \<union> reach (kids s) {h}"
    "\<forall>t. t \<noteq> 0 \<longrightarrow> strong v' t = strong s t - edges_in (kids s) (grays v' - grays s) t"
    "\<forall>t. t \<notin> grays v' \<longrightarrow> color v' t = color s t" "\<forall>t. dead v' t = dead s t"
    using cc_markgray_ok [OF assms(1) pre(1) assms(5) pre(2,3)] by (elim exE conjE)
  have e: "v' = v" using v'(1) assms(4) by simp
  show m: "marks s v" using v'(2) e by simp
  show g: "grays v = grays s \<union> reach (kids s) {h}" using v'(4) unfolding e .
  show st: "strong v t = strong s t - edges_in (kids s) (grays v - grays s) t" if "t \<noteq> 0" for t using v'(5) that unfolding e by blast
  show c: "color v t = color s t" if "t \<notin> grays v" for t using v'(6) that unfolding e by blast
  show "dead v t = dead s t" using v'(7) unfolding e by blast
  have k: "kids v = kids s" using m by (rule marks_fields)
  have "strong v t > 0" if t: "t \<in> B" "color v t \<noteq> Gray" for t
  proof -
    have n: "t \<noteq> 0" using t(1) assms(2) by metis
    have "t \<notin> set (kids s b)" if "b \<in> grays v - grays s" for b
      using v'(3) that t(2) n unfolding e closed_def by blast
    then have "edges_in (kids s) (grays v - grays s) t = 0" by (rule edges_in_zero)
    moreover have "color s t \<noteq> Gray" using t(2) g by auto
    ultimately show ?thesis using pre(4) t(1) st [OF n] by simp
  qed
  moreover have "grays v \<subseteq> B" using g pre(2) reach_least [OF _ pre(1), of "{h}"] assms(5) by simp
  moreover have "\<forall>t \<in> B. \<not> h_freed (hdr v t)" using pre(5) marks_fields(4) [OF m] by simp
  ultimately show "mark_pre B v" unfolding mark_pre_def k using pre(1) v'(3) unfolding e by (intro conjI) simp_all
qed

lemma mark_roots_ok:
  assumes "finite B" "0 \<notin> B" "mark_pre B s" "distinct hs" "0 \<notin> set hs" "\<And>h. h \<in> set hs \<Longrightarrow> h \<notin> B \<Longrightarrow> strong s h \<le> 0"
  shows "\<exists>live u. mark_roots hs s = Some (live, u) \<and> mark_post B hs live s u \<and> mark_pre B u"
  using assms(3-6)
proof (induction hs arbitrary: s)
  case Nil
  have "mark_post B [] [] s s" using Nil(1) unfolding mark_post_def mark_pre_def
    by (intro conjI) (simp_all add: reach_def purple_in_def edges_in_def)
  then show ?case using Nil(1) by simp
next
  case (Cons h hs)
  show ?case
  proof (cases "h \<in> B \<and> color s h = Purple")
    case True
    have pos: "strong s h > 0" using Cons.prems(1) True unfolding mark_pre_def by simp
    obtain v where v: "cc_markgray h s = Some v"
      using cc_markgray_ok [OF assms(1), of s h] Cons.prems(1) True unfolding mark_pre_def by blast
    note m = mark_step_gray [OF assms(1,2) Cons.prems(1) v conjunct1 [OF True] conjunct2 [OF True]]
    have k: "kids v = kids s" using m(2) by (rule marks_fields)
    have low: "strong v x \<le> 0" if "x \<in> set hs" "x \<notin> B" for x
    proof -
      have "x \<noteq> 0" using that(1) Cons.prems(3) by (metis list.set_intros(2))
      then have "strong v x \<le> strong s x" using m(4) [of x] edges_in_nonneg [of "kids s" "grays v - grays s" x] by simp
      then show ?thesis using Cons.prems(4) [of x] that by simp
    qed
    obtain live u where u: "mark_roots hs v = Some (live, u)" "mark_post B hs live v u" "mark_pre B u"
      using Cons.IH [OF m(1) _ _ low] Cons.prems(2,3) by auto
    note d = mark_postD [OF u(2)]
    have hg: "h \<in> grays v" using m(3) reach_refl [of "{h}" "kids s"] by blast
    have sub: "grays s \<subseteq> grays v" "grays v \<subseteq> grays u" using m(3) d(3) by blast+
    have fin: "finite (grays u)" using u(3) assms(1) finite_subset unfolding mark_pre_def by metis
    have pv: "purple_in B hs v = {x \<in> purple_in B hs s. x \<notin> grays v}"
    proof (rule set_eqI)
      fix x
      show "x \<in> purple_in B hs v \<longleftrightarrow> x \<in> {x \<in> purple_in B hs s. x \<notin> grays v}"
        by (cases "x \<in> grays v") (use m(5) [of x] in \<open>simp_all add: purple_in_def\<close>)
    qed
    have g: "grays u = grays s \<union> reach (kids s) (set (h # live))"
      using d(3) m(3) unfolding k by (simp add: reach_Un [of "kids s" "{h}" "set live", simplified]) blast
    have lv: "set (h # live) \<subseteq> purple_in B (h # hs) s" "purple_in B (h # hs) s \<subseteq> grays u"
      using d(4,5) True hg sub unfolding pv by (auto simp: purple_in_def)
    have st: "\<forall>t. t \<noteq> 0 \<longrightarrow> strong u t = strong s t - edges_in (kids s) (grays u - grays s) t"
    proof (intro allI impI)
      fix t :: nat assume t: "t \<noteq> 0"
      have e: "grays u - grays s = (grays v - grays s) \<union> (grays u - grays v)" using sub by blast
      have dj: "(grays v - grays s) \<inter> (grays u - grays v) = {}" by blast
      have "edges_in (kids s) (grays u - grays s) t = edges_in (kids s) (grays v - grays s) t + edges_in (kids s) (grays u - grays v) t"
        unfolding e by (rule edges_in_disjoint [OF finite_Diff [OF finite_subset [OF sub(2) fin]] finite_Diff [OF fin] dj])
      then show "strong u t = strong s t - edges_in (kids s) (grays u - grays s) t" using d(6) [OF t] m(4) [OF t] unfolding k by linarith
    qed
    have col: "\<forall>t \<in> B. t \<notin> grays u \<longrightarrow> color u t = color s t"
    proof (intro ballI impI)
      fix t assume t: "t \<in> B" "t \<notin> grays u"
      have "t \<notin> grays v" using t(2) sub(2) by (rule contra_subsetD [rotated])
      then have "color v t = color s t" by (rule m(5))
      with d(7) [OF t] show "color u t = color s t" by (rule trans)
    qed
    have bu: "\<forall>t. buffered u t \<longleftrightarrow> buffered s t \<and> (t \<notin> set (h # hs) \<or> t \<in> set (h # live))"
      using d(4,9) Cons.prems(2) marks_fields(2) [OF m(2)] by (auto simp: purple_in_def)
    have dr: "dropped B v = dropped B s" using marks_fields(3,4) [OF m(2)] by (simp add: dropped_def fun_eq_iff)
    have rel: "released u = released s @ filter (dropped B s) (h # hs)"
      using d(10) marks_fields(8) [OF m(2)] True unfolding dr by (simp add: dropped_def)
    have "mark_post B (h # hs) (h # live) s u" unfolding mark_post_def
      using d(1,2,8) g lv st col bu rel m(6) unfolding k by (intro conjI) simp_all
    moreover have "mark_roots (h # hs) s = Some (h # live, u)" using True pos v u(1) by simp
    ultimately show ?thesis using u(3) by blast
  next
    case False
    define v where "v = mark_else h s"
    have nb: "\<not> (color s h = Purple \<and> strong s h > 0)" using False Cons.prems(4) [of h] by auto
    note f = mark_else_fields [where h = h and s = s, folded v_def]
    have cB: "color v t = color s t" if "t \<in> B" for t
    proof (rule f(8))
      show "color s h \<noteq> Purple \<or> t \<noteq> h" using False that by (cases "t = h") simp_all
    qed
    have pre: "mark_pre B v" using Cons.prems(1) cB unfolding mark_pre_def by (simp add: f(1,2,4,7))
    have low: "strong v x \<le> 0" if "x \<in> set hs" "x \<notin> B" for x using Cons.prems(4) [of x] that by (simp add: f(2))
    obtain live u where u: "mark_roots hs v = Some (live, u)" "mark_post B hs live v u" "mark_pre B u"
      using Cons.IH [OF pre _ _ low] Cons.prems(2,3) by auto
    note d = mark_postD [OF u(2)]
    have pv: "purple_in B hs v = purple_in B (h # hs) s" using cB False by (auto simp: purple_in_def)
    have "dropped B v = dropped B s" by (simp add: dropped_def fun_eq_iff f(4,5))
    moreover have "strong s h \<le> 0 \<and> h_freed (hdr s h) \<and> h_weak (hdr s h) = 0 \<longleftrightarrow> dropped B s h"
      using Cons.prems(1) Cons.prems(4) [of h] unfolding mark_pre_def dropped_def by auto
    ultimately have rel: "released u = released s @ filter (dropped B s) (h # hs)" using d(10) f(9) by simp
    have bu: "\<forall>t. buffered u t \<longleftrightarrow> buffered s t \<and> (t \<notin> set (h # hs) \<or> t \<in> set live)"
      using d(4,9) Cons.prems(2) by (auto simp: purple_in_def f(6))
    have col: "\<forall>t \<in> B. t \<notin> grays u \<longrightarrow> color u t = color s t" using d(7) cB by simp
    have "mark_post B (h # hs) live s u" unfolding mark_post_def
      using d(1-6,8) col bu rel unfolding f(1) f(7) pv by (intro conjI) (simp_all add: f(2,3))
    moreover have "mark_roots (h # hs) s = Some (live, u)" using mark_roots_else [OF nb] u(1) by (simp add: v_def)
    ultimately show ?thesis using u(3) by blast
  qed
qed


section \<open>Scanning the roots\<close>

lemma scan_inv_push: "scan_inv G p [] s \<Longrightarrow> scan_inv G p st s"
  unfolding scan_inv_def by (elim conjE, intro conjI) auto

lemma scan_roots_ok:
  assumes "finite G" "0 \<notin> G" "closed (kids s) G" "set hs \<subseteq> G" "scan_inv G p [] s"
  shows "\<exists>u. scan_roots hs s = Some u \<and> marks s u \<and> scan_inv G p [] u \<and> in_col G Gray u \<subseteq> in_col G Gray s \<and>
    (\<forall>t \<in> set hs. color u t \<noteq> Gray) \<and> (\<forall>t. t \<notin> G \<longrightarrow> color u t = color s t) \<and> (\<forall>t. dead u t = dead s t)"
  using assms(3-5)
proof (induction hs arbitrary: s)
  case Nil
  then show ?case using marks_refl [of s] by simp
next
  case (Cons h hs)
  have hG: "set [h] \<subseteq> G" "h \<in> G" "set hs \<subseteq> G" using Cons.prems(2) by simp_all
  obtain v where v: "scan_loop [h] s = Some v" "marks s v" "scan_inv G p [] v" "in_col G Gray v \<subseteq> in_col G Gray s"
    "\<forall>t \<in> set [h]. color v t \<noteq> Gray" "\<forall>t. t \<notin> G \<longrightarrow> color v t = color s t" "\<forall>t. dead v t = dead s t"
    using scan_loop_ok [OF assms(1,2) Cons.prems(1) hG(1) scan_inv_push [OF Cons.prems(3)]] by (elim exE conjE)
  have k: "closed (kids v) G" using Cons.prems(1) marks_fields(1) [OF v(2)] by simp
  obtain u where u: "scan_roots hs v = Some u" "marks v u" "scan_inv G p [] u" "in_col G Gray u \<subseteq> in_col G Gray v"
    "\<forall>t \<in> set hs. color u t \<noteq> Gray" "\<forall>t. t \<notin> G \<longrightarrow> color u t = color v t" "\<forall>t. dead u t = dead v t"
    using Cons.IH [OF k hG(3) v(3)] by (elim exE conjE)
  have "h \<notin> in_col G Gray v" using v(5) by (simp add: in_col_def)
  then have "color u h \<noteq> Gray" using u(4) hG(2) by (auto simp: in_col_def)
  moreover have "scan_roots (h # hs) s = Some u" using u(1) v(1) by (simp add: cc_scan_def)
  moreover have "in_col G Gray u \<subseteq> in_col G Gray s" using u(4) v(4) by (rule subset_trans)
  ultimately show ?case using u(3,5-7) v(6,7) marks_trans [OF v(2) u(2)] by (intro exI [of _ u] conjI) simp_all
qed

lemma scan_done:
  assumes "scan_inv G p [] u" "G = reach (kids u) R" "closed (kids u) G" "\<And>r. r \<in> R \<Longrightarrow> color u r \<noteq> Gray"
  shows "in_col G Black u = reach (kids u) {x \<in> G. p x > 0}" "in_col G White u = G - reach (kids u) {x \<in> G. p x > 0}"
proof -
  note i = scan_invD [OF assms(1)]
  have "closed (kids u) {t \<in> G. color u t \<noteq> Gray}" unfolding closed_def
  proof (intro ballI impI)
    fix b t assume a: "b \<in> {t \<in> G. color u t \<noteq> Gray}" "t \<in> set (kids u b)" "t \<noteq> 0"
    have tG: "t \<in> G" using a assms(3) unfolding closed_def by blast
    have "color u t \<noteq> Gray"
    proof (cases "color u b = White")
      case True
      then show ?thesis using i(6) [of b t] a by (auto simp: in_col_def)
    next
      case False
      then have "b \<in> in_col G Black u" using i(3) [of b] a(1) by (cases "color u b") (simp_all add: in_col_def)
      then have "t \<in> in_col G Black u" using i(1) a(2,3) by (simp add: closed_def)
      then show ?thesis by (simp add: in_col_def)
    qed
    then show "t \<in> {t \<in> G. color u t \<noteq> Gray}" using tG by simp
  qed
  moreover have "R \<subseteq> {t \<in> G. color u t \<noteq> Gray}" using assms(2,4) reach_refl [of R "kids u"] by blast
  ultimately have "G \<subseteq> {t \<in> G. color u t \<noteq> Gray}" using reach_least assms(2) by metis
  then have bw: "color u t = Black \<or> color u t = White" if "t \<in> G" for t
    using that i(3) [OF that] by (cases "color u t") auto
  have "{x \<in> G. p x > 0} \<subseteq> in_col G Black u" using bw i(4) by (force simp: in_col_def)
  then show b: "in_col G Black u = reach (kids u) {x \<in> G. p x > 0}" using reach_least [OF _ i(1)] i(5) by (intro equalityI)
  show "in_col G White u = G - reach (kids u) {x \<in> G. p x > 0}" unfolding b [symmetric] using bw by (auto simp: in_col_def)
qed

section \<open>Collecting\<close>

definition bury :: "nat set \<Rightarrow> ccs \<Rightarrow> ccs" where
  "bury X s = s\<lparr>hdr := \<lambda>t. if t \<in> X then (hdr s t)\<lparr>h_color := Black, h_dead := True\<rparr> else hdr s t\<rparr>"

lemma bury_fields [simp]:
  "kids (bury X s) = kids s" "color (bury X s) t = (if t \<in> X then Black else color s t)" "strong (bury X s) t = strong s t"
  "dead (bury X s) t \<longleftrightarrow> t \<in> X \<or> dead s t" "buffered (bury X s) t = buffered s t" "released (bury X s) = released s"
  by (simp_all add: bury_def)

lemma bury_empty [simp]: "bury {} s = s"
  by (simp add: bury_def)

lemma bury_bury: "bury X (bury Y s) = bury (X \<union> Y) s"
  by (simp add: bury_def fun_eq_iff)

lemma bury_one: "hset h (\<lambda>y. y\<lparr>h_color := Black, h_dead := True\<rparr>) s = bury {h} s"
  by (rule ccs.equality) (simp_all add: bury_def hset_def fun_eq_iff)

lemma fold_collect:
  "fold (cc_visit Collect) ks (st, s) = (rev (filter (\<lambda>k. k \<noteq> 0 \<and> color s k = White \<and> \<not> buffered s k) ks) @ st, s)"
  by (induction ks arbitrary: st) (simp_all add: cc_visit_def Let_def)

definition free_white :: "nat set \<Rightarrow> ccs \<Rightarrow> nat set" where
  "free_white G s = {t \<in> G. color s t = White \<and> \<not> buffered s t}"

lemma collectwhite_loop_ok:
  assumes "finite G" "0 \<notin> G" "closed (kids s) G" "set st \<subseteq> G"
  shows "\<exists>new. collectwhite_loop st g s = Some (g @ new, bury (set new) s) \<and> distinct new \<and>
    set st \<inter> free_white G s \<subseteq> set new \<and> set new \<subseteq> free_white G s \<and>
    (\<forall>d \<in> set new. \<forall>t \<in> set (kids s d). t \<noteq> 0 \<longrightarrow> t \<in> free_white G s \<longrightarrow> t \<in> set new)"
  using assms(3,4)
proof (induction "(card (free_white G s), length st)" arbitrary: st g s rule: wf_induct_rule [OF wf_lex_prod [OF wf_less_than wf_less_than]])
  case (1 st s g)
  show ?case
  proof (cases st)
    case Nil
    then show ?thesis by (subst collectwhite_loop.simps) simp
  next
    case (Cons h rest)
    have hG: "h \<in> G" "set rest \<subseteq> G" using "1.prems"(2) by (simp_all add: Cons)
    show ?thesis
    proof (cases "h \<in> free_white G s")
      case False
      then have c: "color s h \<noteq> White \<or> buffered s h" using hG(1) by (simp add: free_white_def)
      have m: "((card (free_white G s), length rest), (card (free_white G s), length st)) \<in> less_than <*lex*> less_than" by (simp add: Cons)
      obtain new where n: "collectwhite_loop rest g s = Some (g @ new, bury (set new) s)" "distinct new"
        "set rest \<inter> free_white G s \<subseteq> set new" "set new \<subseteq> free_white G s"
        "\<forall>d \<in> set new. \<forall>t \<in> set (kids s d). t \<noteq> 0 \<longrightarrow> t \<in> free_white G s \<longrightarrow> t \<in> set new"
        using "1.hyps" [OF m "1.prems"(1) hG(2), of g] by (elim exE conjE)
      have "collectwhite_loop st g s = Some (g @ new, bury (set new) s)" using n(1) c by (subst collectwhite_loop.simps) (simp add: Cons)
      moreover have "set st \<inter> free_white G s \<subseteq> set new" using n(3) False by (simp add: Cons)
      ultimately show ?thesis using n(2,4,5) by (intro exI [of _ new] conjI)
    next
      case True
      then have c: "\<not> (color s h \<noteq> White \<or> buffered s h)" by (simp add: free_white_def)
      define v where "v = bury {h} s"
      define st1 where "st1 = rev (filter (\<lambda>k. k \<noteq> 0 \<and> color v k = White \<and> \<not> buffered v k) (kids s h)) @ rest"
      have x: "cc_trace Collect h (rest, hset h (\<lambda>y. y\<lparr>h_color := Black, h_dead := True\<rparr>) s) = (st1, v)"
        by (simp add: bury_one cc_trace_def fold_collect st1_def v_def)
      have f: "free_white G v = free_white G s - {h}" by (auto simp: free_white_def v_def)
      have fin: "finite (free_white G s)" using assms(1) by (simp add: free_white_def)
      have m: "((card (free_white G v), length st1), (card (free_white G s), length st)) \<in> less_than <*lex*> less_than"
        using card_Diff1_less [OF fin True] by (simp add: f)
      have k: "kids v = kids s" "closed (kids v) G" using "1.prems"(1) by (simp_all add: v_def)
      have s1: "set st1 \<subseteq> G" using hG "1.prems"(1) by (auto simp: st1_def closed_def)
      obtain new where n: "collectwhite_loop st1 (g @ [h]) v = Some ((g @ [h]) @ new, bury (set new) v)" "distinct new"
        "set st1 \<inter> free_white G v \<subseteq> set new" "set new \<subseteq> free_white G v"
        "\<forall>d \<in> set new. \<forall>t \<in> set (kids v d). t \<noteq> 0 \<longrightarrow> t \<in> free_white G v \<longrightarrow> t \<in> set new"
        using "1.hyps" [OF m k(2) s1, of "g @ [h]"] by (elim exE conjE)
      have "collectwhite_loop st g s = Some (g @ (h # new), bury (set (h # new)) s)"
        using n(1) c x by (subst collectwhite_loop.simps) (simp add: Cons v_def bury_bury)
      moreover have "distinct (h # new)" using n(2,4) f by auto
      moreover have "set st \<inter> free_white G s \<subseteq> set (h # new)" using n(3) unfolding f by (auto simp: Cons st1_def)
      moreover have "set (h # new) \<subseteq> free_white G s" using n(4) True unfolding f by auto
      moreover have "\<forall>d \<in> set (h # new). \<forall>t \<in> set (kids s d). t \<noteq> 0 \<longrightarrow> t \<in> free_white G s \<longrightarrow> t \<in> set (h # new)"
      proof (intro ballI impI)
        fix d t assume a: "d \<in> set (h # new)" "t \<in> set (kids s d)" "t \<noteq> 0" "t \<in> free_white G s"
        show "t \<in> set (h # new)"
        proof (cases "t = h \<or> d \<noteq> h")
          case True
          then show ?thesis using n(5) a unfolding f k by auto
        next
          case False
          then have "t \<in> free_white G v" using a(4) unfolding f by simp
          moreover from this have "t \<in> set st1" using a(2,3) False by (simp add: st1_def free_white_def)
          ultimately show ?thesis using n(3) by auto
        qed
      qed
      ultimately show ?thesis by (intro exI [of _ "h # new"] conjI)
    qed
  qed
qed


definition unbuffer_all :: "nat set \<Rightarrow> ccs \<Rightarrow> ccs" where
  "unbuffer_all X s = s\<lparr>hdr := \<lambda>t. if t \<in> X then (hdr s t)\<lparr>h_buffered := False\<rparr> else hdr s t\<rparr>"

lemma unbuffer_all_fields [simp]:
  "kids (unbuffer_all X s) = kids s" "color (unbuffer_all X s) t = color s t" "strong (unbuffer_all X s) t = strong s t"
  "dead (unbuffer_all X s) t = dead s t" "buffered (unbuffer_all X s) t \<longleftrightarrow> buffered s t \<and> t \<notin> X" "released (unbuffer_all X s) = released s"
  by (simp_all add: unbuffer_all_def)

lemma unbuffer_one: "unbuffer h s = unbuffer_all {h} s"
  by (rule ccs.equality) (simp_all add: unbuffer_all_def unbuffer_def hset_def fun_eq_iff)

lemma unbuffer_all_empty: "unbuffer_all {} s = s"
  by (simp add: unbuffer_all_def)

lemma unbuffer_bury: "bury X (unbuffer_all Y (bury Z (unbuffer_all W s))) = bury (X \<union> Z) (unbuffer_all (Y \<union> W) s)"
  by (rule ccs.equality) (simp_all add: unbuffer_all_def bury_def fun_eq_iff)

lemma collect_roots_ok:
  assumes "finite G" "0 \<notin> G" "closed (kids s) G" "set hs \<subseteq> G"
  shows "\<exists>new a'. collect_roots hs g a s = Some (g @ new, a', bury (set new) (unbuffer_all (set hs) s)) \<and> distinct new \<and>
    set new \<subseteq> in_col G White s \<and> set hs \<inter> in_col G White s \<subseteq> set new \<and>
    (\<forall>d \<in> set new. \<forall>t \<in> set (kids s d). t \<noteq> 0 \<longrightarrow> color s t = White \<longrightarrow> buffered s t \<and> t \<notin> set hs \<or> t \<in> set new)"
  using assms(3,4)
proof (induction hs arbitrary: g a s)
  case Nil
  then show ?case by (simp add: unbuffer_all_empty)
next
  case (Cons h hs)
  define s1 where "s1 = unbuffer_all {h} s"
  have hG: "set [h] \<subseteq> G" "h \<in> G" "set hs \<subseteq> G" using Cons.prems(2) by simp_all
  have k1: "kids s1 = kids s" "closed (kids s1) G" using Cons.prems(1) by (simp_all add: s1_def)
  obtain n1 where n1: "collectwhite_loop [h] g s1 = Some (g @ n1, bury (set n1) s1)" "distinct n1"
    "set [h] \<inter> free_white G s1 \<subseteq> set n1" "set n1 \<subseteq> free_white G s1"
    "\<forall>d \<in> set n1. \<forall>t \<in> set (kids s1 d). t \<noteq> 0 \<longrightarrow> t \<in> free_white G s1 \<longrightarrow> t \<in> set n1"
    using collectwhite_loop_ok [OF assms(1,2) k1(2) hG(1), of g] by (elim exE conjE)
  define s2 where "s2 = bury (set n1) s1"
  have k2: "kids s2 = kids s" "closed (kids s2) G" using Cons.prems(1) k1 by (simp_all add: s2_def)
  define a1 where "a1 = (if dead s2 h then a else a + 1)"
  obtain n2 a' where n2: "collect_roots hs (g @ n1) a1 s2 = Some ((g @ n1) @ n2, a', bury (set n2) (unbuffer_all (set hs) s2))"
    "distinct n2" "set n2 \<subseteq> in_col G White s2" "set hs \<inter> in_col G White s2 \<subseteq> set n2"
    "\<forall>d \<in> set n2. \<forall>t \<in> set (kids s2 d). t \<noteq> 0 \<longrightarrow> color s2 t = White \<longrightarrow> buffered s2 t \<and> t \<notin> set hs \<or> t \<in> set n2"
    using Cons.IH [OF k2(2) hG(3), of "g @ n1" a1] by (elim exE conjE)
  have c2: "color s2 t = (if t \<in> set n1 then Black else color s t)" "buffered s2 t \<longleftrightarrow> buffered s t \<and> t \<noteq> h" for t by (simp_all add: s2_def s1_def)
  have w: "free_white G s1 = {t \<in> in_col G White s. \<not> buffered s t \<or> t = h}" by (auto simp: free_white_def in_col_def s1_def)
  have fin: "bury (set n2) (unbuffer_all (set hs) s2) = bury (set (n1 @ n2)) (unbuffer_all (set (h # hs)) s)"
    by (simp add: s2_def s1_def unbuffer_bury Un_commute)
  have "collect_roots (h # hs) g a s = Some (g @ (n1 @ n2), a', bury (set (n1 @ n2)) (unbuffer_all (set (h # hs)) s))"
    using n1(1) n2(1) unfolding fin by (simp add: cc_collectwhite_def unbuffer_one s1_def [symmetric] s2_def [symmetric] a1_def)
  moreover have "distinct (n1 @ n2)" using n1(2) n2(2,3) by (auto simp: in_col_def c2)
  moreover have "set (n1 @ n2) \<subseteq> in_col G White s" using n1(4) n2(3) unfolding w by (auto simp: in_col_def c2 split: if_splits)
  moreover have "set (h # hs) \<inter> in_col G White s \<subseteq> set (n1 @ n2)" using n1(3) n2(4) hG(2) unfolding w by (auto simp: in_col_def c2)
  moreover have "\<forall>d \<in> set (n1 @ n2). \<forall>t \<in> set (kids s d). t \<noteq> 0 \<longrightarrow> color s t = White \<longrightarrow> buffered s t \<and> t \<notin> set (h # hs) \<or> t \<in> set (n1 @ n2)"
  proof (intro ballI impI)
    fix d t assume x: "d \<in> set (n1 @ n2)" "t \<in> set (kids s d)" "t \<noteq> 0" "color s t = White"
    show "buffered s t \<and> t \<notin> set (h # hs) \<or> t \<in> set (n1 @ n2)"
    proof (cases "t \<in> set n1")
      case False
      have dG: "d \<in> G" using x(1) n1(4) n2(3) by (auto simp: in_col_def free_white_def)
      then have tG: "t \<in> G" using Cons.prems(1) x(2,3) unfolding closed_def by blast
      show ?thesis
      proof (cases "d \<in> set n1")
        case True
        then have "t \<notin> free_white G s1" using n1(5) x(2,3) False unfolding k1(1) by blast
        then have "buffered s t" "t \<noteq> h" using tG x(4) unfolding w by (auto simp: in_col_def)
        moreover have "t \<in> set n2" if "t \<in> set hs" using n2(4) that tG x(4) False by (auto simp: in_col_def c2)
        ultimately show ?thesis by auto
      next
        case dn: False
        then have "d \<in> set n2" using x(1) by simp
        then have "buffered s2 t \<and> t \<notin> set hs \<or> t \<in> set n2" using n2(5) x(2-4) False unfolding k2(1) by (simp add: c2)
        then show ?thesis by (auto simp: c2)
      qed
    qed simp
  qed
  ultimately show ?case by (intro exI [of _ "n1 @ n2"] exI [of _ a'] conjI)
qed

section \<open>Restoring the counts\<close>

definition restored :: "nat list \<Rightarrow> ccs \<Rightarrow> ccs" where
  "restored ks s = s\<lparr>hdr := \<lambda>t. if t = 0 \<or> dead s t then hdr s t else (hdr s t)\<lparr>h_strong := strong s t + int (count_list ks t)\<rparr>\<rparr>"

lemma fold_restore: "fold (cc_visit Restore) ks (st, s) = (st, restored ks s)"
proof (induction ks arbitrary: s)
  case Nil
  have "restored [] s = s" by (rule ccs.equality) (simp_all add: restored_def fun_eq_iff)
  then show ?case by simp
next
  case (Cons k ks)
  have "restored ks (if k = 0 \<or> dead s k then s else add_strong k 1 s) = restored (k # ks) s"
    by (rule ccs.equality) (auto simp: restored_def add_strong_def hset_def fun_eq_iff)
  moreover have "cc_visit Restore k (st, s) = (st, if k = 0 \<or> dead s k then s else add_strong k 1 s)" by (simp add: cc_visit_def)
  ultimately show ?case using Cons [of "if k = 0 \<or> dead s k then s else add_strong k 1 s"] by simp
qed

lemma restored_fields:
  "kids (restored ks s) = kids s" "color (restored ks s) t = color s t" "dead (restored ks s) t = dead s t"
  "buffered (restored ks s) t = buffered s t" "released (restored ks s) = released s"
  "t \<noteq> 0 \<Longrightarrow> strong (restored ks s) t = strong s t + (if dead s t then 0 else int (count_list ks t))"
  by (simp_all add: restored_def)

lemma restore_edges_ok:
  "distinct g \<Longrightarrow> kids (restore_edges g s) = kids s \<and> released (restore_edges g s) = released s \<and>
    (\<forall>t. color (restore_edges g s) t = color s t \<and> dead (restore_edges g s) t = dead s t \<and> buffered (restore_edges g s) t = buffered s t \<and>
      (t \<noteq> 0 \<longrightarrow> strong (restore_edges g s) t = strong s t + (if dead s t then 0 else edges_in (kids s) (set g) t)))"
proof (induction g arbitrary: s)
  case Nil
  show ?case by (simp add: restore_edges_def edges_in_def)
next
  case (Cons h g)
  have "restore_edges (h # g) s = restore_edges g (restored (kids s h) s)"
    by (simp add: restore_edges_def cc_trace_def fold_restore)
  then show ?case using Cons.IH [of "restored (kids s h) s"] Cons.prems by (simp add: restored_fields edges_in_insert)
qed


section \<open>Trial deletion\<close>

text \<open>
  \<open>B\<close> are the blocks whose value has not been dropped, \<open>ext\<close> the handles to a block that no block
  of \<open>B\<close> holds (stack, globals, blocks the collector does not trace).
\<close>

definition cc_ready :: "nat set \<Rightarrow> (nat \<Rightarrow> int) \<Rightarrow> nat list \<Rightarrow> ccs \<Rightarrow> bool" where
  "cc_ready B ext rs s \<longleftrightarrow>
    finite B \<and> 0 \<notin> B \<and> closed (kids s) B \<and> (\<forall>t. color s t = Black \<or> color s t = Purple) \<and>
    (\<forall>t \<in> B. \<not> dead s t \<and> \<not> h_freed (hdr s t) \<and> strong s t > 0 \<and> 0 \<le> ext t \<and> strong s t = ext t + edges_in (kids s) B t) \<and>
    distinct rs \<and> 0 \<notin> set rs \<and> (\<forall>h \<in> set rs. h \<notin> B \<longrightarrow> strong s h \<le> 0) \<and> (\<forall>t \<in> B. buffered s t \<longrightarrow> t \<in> set rs)"

definition trial_set :: "nat set \<Rightarrow> nat list \<Rightarrow> ccs \<Rightarrow> nat set" where
  "trial_set B rs s = reach (kids s) (purple_in B rs s)"

definition garbage :: "nat set \<Rightarrow> (nat \<Rightarrow> int) \<Rightarrow> nat list \<Rightarrow> ccs \<Rightarrow> nat set" where
  "garbage B ext rs s = trial_set B rs s - reach (kids s) ({x \<in> B. ext x > 0} \<union> (B - trial_set B rs s))"

lemma trial_set_in: "cc_ready B ext rs s \<Longrightarrow> trial_set B rs s \<subseteq> B"
  unfolding trial_set_def cc_ready_def purple_in_def by (intro reach_least) auto

lemma cc_readyD:
  assumes "cc_ready B ext rs s"
  shows "finite B" "0 \<notin> B" "closed (kids s) B" "color s t = Black \<or> color s t = Purple" "distinct rs" "0 \<notin> set rs"
    "t \<in> B \<Longrightarrow> \<not> dead s t" "t \<in> B \<Longrightarrow> \<not> h_freed (hdr s t)" "t \<in> B \<Longrightarrow> strong s t > 0" "t \<in> B \<Longrightarrow> 0 \<le> ext t"
    "t \<in> B \<Longrightarrow> strong s t = ext t + edges_in (kids s) B t" "t \<in> set rs \<Longrightarrow> t \<notin> B \<Longrightarrow> strong s t \<le> 0"
    "t \<in> B \<Longrightarrow> buffered s t \<Longrightarrow> t \<in> set rs"
  using assms unfolding cc_ready_def by blast+

text \<open>The counts marking leaves are those from outside the trial set.\<close>

definition outside :: "nat set \<Rightarrow> (nat \<Rightarrow> int) \<Rightarrow> nat list \<Rightarrow> ccs \<Rightarrow> nat \<Rightarrow> int" where
  "outside B ext rs s t = ext t + edges_in (kids s) (B - trial_set B rs s) t"

lemma garbage_outside:
  assumes r: "cc_ready B ext rs s"
  shows "garbage B ext rs s = trial_set B rs s - reach (kids s) {x \<in> trial_set B rs s. outside B ext rs s x > 0}"
proof -
  define K where "K = kids s"
  define G where "G = trial_set B rs s"
  define P where "P = {x \<in> G. outside B ext rs s x > 0}"
  define X where "X = {x \<in> B. ext x > 0} \<union> (B - G)"
  note d = cc_readyD [OF r]
  have GB: "G \<subseteq> B" unfolding G_def by (rule trial_set_in [OF r])
  have fin: "finite (B - G)" using d(1) by simp
  have cl: "closed K ((B - G) \<union> reach K P)" unfolding closed_def
  proof (intro ballI impI)
    fix b t assume a: "b \<in> (B - G) \<union> reach K P" "t \<in> set (K b)" "t \<noteq> 0"
    show "t \<in> (B - G) \<union> reach K P"
    proof (cases "b \<in> reach K P")
      case True
      then show ?thesis using reach_closed [of K P] a(2,3) unfolding closed_def by blast
    next
      case False
      then have b: "b \<in> B - G" using a(1) by blast
      then have tB: "t \<in> B" using d(3) a(2,3) unfolding closed_def K_def by blast
      show ?thesis
      proof (cases "t \<in> G")
        case True
        have "0 < edges_in K (B - G) t" using edges_in_pos [of "B - G" b t K] fin b a(2) by simp
        then have "t \<in> P" using True d(10) [OF tB] by (simp add: P_def outside_def K_def G_def)
        then show ?thesis using reach_refl [of P K] by blast
      qed (use tB in blast)
    qed
  qed
  have "X \<subseteq> (B - G) \<union> reach K P"
  proof
    fix x assume x: "x \<in> X"
    show "x \<in> (B - G) \<union> reach K P"
    proof (cases "x \<in> G")
      case True
      then have "ext x > 0" using x by (simp add: X_def)
      then have "x \<in> P" using True edges_in_nonneg [of K "B - G" x] by (simp add: P_def outside_def K_def G_def)
      then show ?thesis using reach_refl [of P K] by blast
    qed (use x GB in \<open>auto simp: X_def\<close>)
  qed
  then have a: "reach K X \<subseteq> (B - G) \<union> reach K P" by (rule reach_least [OF _ cl])
  have "P \<subseteq> reach K X"
  proof
    fix x assume x: "x \<in> P"
    then have xB: "x \<in> B" using GB by (auto simp: P_def)
    show "x \<in> reach K X"
    proof (cases "ext x > 0")
      case True
      then show ?thesis using xB reach_refl [of X K] by (auto simp: X_def)
    next
      case False
      then have "edges_in K (B - G) x \<noteq> 0" using x by (simp add: P_def outside_def K_def G_def)
      then obtain b where b: "b \<in> B - G" "x \<in> set (K b)" using edges_in_zero by metis
      have "b \<in> reach K X" using b(1) reach_refl [of X K] by (auto simp: X_def)
      moreover have "x \<noteq> 0" using xB d(2) by metis
      ultimately show ?thesis using reach_closed [of K X] b(2) unfolding closed_def by blast
    qed
  qed
  then have b: "reach K P \<subseteq> reach K X" by (rule reach_least [OF _ reach_closed])
  have "G - reach K X = G - reach K P" using a b by blast
  then show ?thesis unfolding garbage_def K_def G_def P_def X_def .
qed

lemma mark_phase:
  assumes r: "cc_ready B ext rs s"
  shows "\<exists>live u. mark_roots rs s = Some (live, u) \<and> mark_post B rs live s u \<and> grays u = trial_set B rs s \<and>
    trial_set B rs s = reach (kids s) (set live) \<and> (\<forall>t \<in> B. strong u t = strong s t - edges_in (kids s) (trial_set B rs s) t)"
proof -
  note d = cc_readyD [OF r]
  have g: "grays s = {}" using d(4) by (auto, metis colour.distinct(1) colour.distinct(9))
  have pre: "mark_pre B s" unfolding mark_pre_def g using d(3,8,9) by (simp add: closed_def)
  obtain live u where u: "mark_roots rs s = Some (live, u)" "mark_post B rs live s u" "mark_pre B u"
    using mark_roots_ok [OF d(1,2) pre d(5,6,12)] by blast
  note m = mark_postD [OF u(2)]
  have gu: "grays u = reach (kids s) (set live)" using m(3) unfolding g by simp
  have "purple_in B rs s \<subseteq> reach (kids s) (set live)" using m(5) unfolding gu .
  then have "trial_set B rs s \<subseteq> reach (kids s) (set live)" unfolding trial_set_def by (rule reach_least [OF _ reach_closed])
  moreover have "reach (kids s) (set live) \<subseteq> trial_set B rs s" unfolding trial_set_def by (rule reach_mono [OF m(4)])
  ultimately have t: "trial_set B rs s = reach (kids s) (set live)" by (rule equalityI)
  have "strong u x = strong s x - edges_in (kids s) (trial_set B rs s) x" if "x \<in> B" for x
  proof -
    have "x \<noteq> 0" using that d(2) by metis
    then show ?thesis using m(6) [of x] unfolding g gu t by simp
  qed
  then show ?thesis using u(1,2) gu t by (intro exI [of _ live] exI [of _ u] conjI) simp_all
qed


lemma scan_phase:
  assumes r: "cc_ready B ext rs s" and m: "mark_post B rs live s u" "grays u = trial_set B rs s" "trial_set B rs s = reach (kids s) (set live)"
    "\<forall>t \<in> B. strong u t = strong s t - edges_in (kids s) (trial_set B rs s) t"
  defines "G \<equiv> trial_set B rs s"
  shows "\<exists>v. scan_roots live u = Some v \<and> marks u v \<and> in_col G White v = garbage B ext rs s \<and> in_col G Black v = G - garbage B ext rs s \<and>
    (\<forall>t \<in> B. strong v t = strong u t + edges_in (kids s) (G - garbage B ext rs s) t) \<and>
    (\<forall>t. t \<notin> G \<longrightarrow> color v t = color u t) \<and> (\<forall>t. dead v t = dead u t)"
proof -
  note d = cc_readyD [OF r]
  have GB: "G \<subseteq> B" unfolding G_def by (rule trial_set_in [OF r])
  have fin: "finite G" "0 \<notin> G" using GB d(1,2) finite_subset by blast+
  have ku: "kids u = kids s" by (rule mark_postD(1) [OF m(1)])
  have cl: "closed (kids u) G" unfolding ku G_def m(3) by (rule reach_closed)
  have live: "set live \<subseteq> G" unfolding G_def m(3) by (rule reach_refl)
  have gray: "color u t = Gray" if "t \<in> G" for t using that m(2) unfolding G_def by blast
  have none: "in_col G Black u = {}" "in_col G White u = {}" using gray by (auto simp: in_col_def)
  have i: "scan_inv G (strong u) [] u" unfolding scan_inv_def none using gray by (simp add: closed_def edges_in_def)
  obtain v where v: "scan_roots live u = Some v" "marks u v" "scan_inv G (strong u) [] v" "in_col G Gray v \<subseteq> in_col G Gray u"
    "\<forall>t \<in> set live. color v t \<noteq> Gray" "\<forall>t. t \<notin> G \<longrightarrow> color v t = color u t" "\<forall>t. dead v t = dead u t"
    using scan_roots_ok [OF fin cl live i] by (elim exE conjE)
  have kv: "kids v = kids s" using marks_fields(1) [OF v(2)] ku by simp
  have "closed (kids v) G" "G = reach (kids v) (set live)" using cl m(3) unfolding kv ku G_def by simp_all
  note dn = scan_done [OF v(3) this(2,1) bspec [OF v(5)]]
  have out: "strong u t = outside B ext rs s t" if "t \<in> B" for t
  proof -
    have "edges_in (kids s) B t = edges_in (kids s) G t + edges_in (kids s) (B - G) t"
      using edges_in_disjoint [OF fin(1) finite_Diff [OF d(1)], of G "kids s" t] GB by (simp add: Un_absorb1)
    then show ?thesis using m(4) that d(11) [OF that] unfolding outside_def G_def by simp
  qed
  have "{x \<in> G. strong u x > 0} = {x \<in> G. outside B ext rs s x > 0}" using out GB by auto
  then have p: "reach (kids v) {x \<in> G. strong u x > 0} = reach (kids s) {x \<in> G. outside B ext rs s x > 0}" by (simp add: kv)
  have w: "in_col G White v = garbage B ext rs s" using dn(2) garbage_outside [OF r, folded G_def] unfolding p by (rule trans [OF _ sym])
  have "reach (kids s) {x \<in> G. outside B ext rs s x > 0} \<subseteq> G" using cl unfolding ku by (intro reach_least) auto
  then have b: "in_col G Black v = G - garbage B ext rs s" using dn(1) [unfolded p] garbage_outside [OF r, folded G_def] by blast
  have "strong v t = strong u t + edges_in (kids s) (G - garbage B ext rs s) t" if "t \<in> B" for t
  proof -
    have "t \<noteq> 0" using that d(2) by metis
    then show ?thesis using scan_invD(2) [OF v(3)] unfolding b kv by simp
  qed
  then show ?thesis using v(1,2,6,7) w b by (intro exI [of _ v] conjI) simp_all
qed

lemma collect_phase:
  assumes r: "cc_ready B ext rs s" and m: "mark_post B rs live s u" "trial_set B rs s = reach (kids s) (set live)"
    and v: "marks u v" "in_col (trial_set B rs s) White v = garbage B ext rs s"
    "in_col (trial_set B rs s) Black v = trial_set B rs s - garbage B ext rs s"
  shows "\<exists>g a. collect_roots live [] 0 v = Some (g, a, bury (set g) (unbuffer_all (set live) v)) \<and> distinct g \<and> set g = garbage B ext rs s"
proof -
  define G where "G = trial_set B rs s"
  define W where "W = garbage B ext rs s"
  note d = cc_readyD [OF r]
  have GB: "G \<subseteq> B" unfolding G_def by (rule trial_set_in [OF r])
  have fin: "finite G" "0 \<notin> G" using GB d(1,2) finite_subset by blast+
  have kv: "kids v = kids s" using marks_fields(1) [OF v(1)] mark_postD(1) [OF m(1)] by simp
  have cl: "closed (kids v) G" unfolding kv G_def m(2) by (rule reach_closed)
  have live: "set live \<subseteq> G" unfolding G_def m(2) by (rule reach_refl)
  have wv: "in_col G White v = W" using v(2) unfolding G_def W_def .
  obtain g a where g: "collect_roots live [] 0 v = Some ([] @ g, a, bury (set g) (unbuffer_all (set live) v))" "distinct g"
    "set g \<subseteq> in_col G White v" "set live \<inter> in_col G White v \<subseteq> set g"
    "\<forall>x \<in> set g. \<forall>t \<in> set (kids v x). t \<noteq> 0 \<longrightarrow> color v t = White \<longrightarrow> buffered v t \<and> t \<notin> set live \<or> t \<in> set g"
    using collect_roots_ok [OF fin cl live, of "[]" 0] by (elim exE conjE)
  have buf: "t \<in> set live" if "t \<in> G" "buffered v t" for t
    using that GB mark_postD(9) [OF m(1), of t] marks_fields(2) [OF v(1), of t] d(13) [of t] by auto
  have W: "t \<in> G \<Longrightarrow> color v t = White \<longleftrightarrow> t \<in> W" for t using wv by (auto simp: in_col_def)
  have notW: "closed (kids s) (G - W)"
  proof -
    define P where "P = {x \<in> G. outside B ext rs s x > 0}"
    have "reach (kids s) P \<subseteq> G" using cl unfolding kv P_def by (intro reach_least) auto
    then have "G - W = reach (kids s) P" using garbage_outside [OF r] unfolding W_def G_def P_def by auto
    then show ?thesis by (simp add: reach_closed)
  qed
  have "closed (kids s) ((G - W) \<union> set g)" unfolding closed_def
  proof (intro ballI impI)
    fix b t assume x: "b \<in> (G - W) \<union> set g" "t \<in> set (kids s b)" "t \<noteq> 0"
    show "t \<in> (G - W) \<union> set g"
    proof (cases "b \<in> set g")
      case True
      then have "b \<in> G" using g(3) in_col_sub by blast
      then have tG: "t \<in> G" using cl x(2,3) unfolding kv closed_def by blast
      show ?thesis
      proof (cases "t \<in> W")
        case tW: True
        then have "buffered v t \<and> t \<notin> set live \<or> t \<in> set g" using g(5) True x(2,3) W [OF tG] unfolding kv by blast
        then show ?thesis using buf [OF tG] by blast
      qed (use tG in blast)
    next
      case False
      then show ?thesis using notW x unfolding closed_def by blast
    qed
  qed
  moreover have "set live \<subseteq> (G - W) \<union> set g" using live g(4) unfolding wv by blast
  ultimately have "reach (kids s) (set live) \<subseteq> (G - W) \<union> set g" by (intro reach_least)
  then have "G \<subseteq> (G - W) \<union> set g" unfolding G_def m(2) .
  moreover have "W \<subseteq> G" using in_col_sub [of G White v] unfolding wv .
  ultimately have "W \<subseteq> set g" by blast
  then have "set g = W" using g(3) unfolding wv by (intro equalityI)
  then show ?thesis using g(1,2) unfolding W_def by (intro exI [of _ g] exI [of _ a] conjI) simp_all
qed

lemma garbage_closed_under_holders:
  assumes r: "cc_ready B ext rs s" and t: "t \<in> garbage B ext rs s"
  shows "ext t = 0" "\<And>b. b \<in> B \<Longrightarrow> t \<in> set (kids s b) \<Longrightarrow> b \<in> garbage B ext rs s"
proof -
  define X where "X = {x \<in> B. ext x > 0} \<union> (B - trial_set B rs s)"
  have nx: "t \<notin> reach (kids s) X" "t \<in> trial_set B rs s" using t by (simp_all add: garbage_def X_def)
  have tB: "t \<in> B" using nx(2) trial_set_in [OF r] by blast
  then have "\<not> ext t > 0" using nx(1) reach_refl [of X "kids s"] by (auto simp: X_def)
  then show "ext t = 0" using cc_readyD(10) [OF r tB] by simp
  fix b assume b: "b \<in> B" "t \<in> set (kids s b)"
  have "t \<noteq> 0" using tB cc_readyD(2) [OF r] by metis
  then have "b \<notin> reach (kids s) X" using reach_closed [of "kids s" X] b(2) nx(1) unfolding closed_def by blast
  moreover from this have "b \<in> trial_set B rs s" using b(1) reach_refl [of X "kids s"] by (auto simp: X_def)
  ultimately show "b \<in> garbage B ext rs s" by (simp add: garbage_def X_def)
qed

lemma garbage_complete:
  assumes r: "cc_ready B ext rs s" and all: "B - reach (kids s) {x \<in> B. ext x > 0} \<subseteq> trial_set B rs s"
  shows "garbage B ext rs s = B - reach (kids s) {x \<in> B. ext x > 0}"
proof -
  define E where "E = {x \<in> B. ext x > 0}"
  define G where "G = trial_set B rs s"
  have "B - G \<subseteq> reach (kids s) E" using all unfolding E_def G_def by blast
  then have "E \<union> (B - G) \<subseteq> reach (kids s) E" using reach_refl [of E "kids s"] by blast
  then have "reach (kids s) (E \<union> (B - G)) = reach (kids s) E"
    by (intro equalityI reach_least [OF _ reach_closed] reach_mono) simp_all
  then show ?thesis using all trial_set_in [OF r] unfolding garbage_def E_def G_def by blast
qed

lemma trial_ok:
  assumes r: "cc_ready B ext rs s"
  shows "\<exists>g alive u. cc_trial rs s = Some (g, alive, u) \<and> distinct g \<and> set g = garbage B ext rs s \<and> kids u = kids s \<and>
    (\<forall>t \<in> B. (dead u t \<longleftrightarrow> t \<in> set g) \<and> (t \<notin> set g \<longrightarrow> strong u t = strong s t) \<and> color u t \<noteq> Gray \<and> color u t \<noteq> White \<and> \<not> buffered u t) \<and>
    released u = released s @ filter (dropped B s) rs"
proof -
  define G where "G = trial_set B rs s"
  define W where "W = garbage B ext rs s"
  note d = cc_readyD [OF r]
  have GB: "G \<subseteq> B" "W \<subseteq> G" unfolding G_def W_def by (rule trial_set_in [OF r]) (auto simp: garbage_def)
  obtain live u where u: "mark_roots rs s = Some (live, u)" "mark_post B rs live s u" "grays u = trial_set B rs s"
    "trial_set B rs s = reach (kids s) (set live)" "\<forall>t \<in> B. strong u t = strong s t - edges_in (kids s) (trial_set B rs s) t"
    using mark_phase [OF r] by blast
  obtain v where v: "scan_roots live u = Some v" "marks u v" "in_col G White v = W" "in_col G Black v = G - W"
    "\<forall>t \<in> B. strong v t = strong u t + edges_in (kids s) (G - W) t" "\<forall>t. t \<notin> G \<longrightarrow> color v t = color u t" "\<forall>t. dead v t = dead u t"
    using scan_phase [OF r u(2-5)] unfolding G_def W_def by blast
  obtain g a where g: "collect_roots live [] 0 v = Some (g, a, bury (set g) (unbuffer_all (set live) v))" "distinct g" "set g = W"
    using collect_phase [OF r u(2,4) v(2)] v(3,4) unfolding G_def W_def by blast
  define w where "w = bury (set g) (unbuffer_all (set live) v)"
  define x where "x = restore_edges g w"
  note m = mark_postD [OF u(2)] and rs = restore_edges_ok [OF g(2), of w, folded x_def]
  have kw: "kids w = kids s" "released w = released s @ filter (dropped B s) rs"
    using marks_fields(1,8) [OF v(2)] m(1,10) by (simp_all add: w_def)
  have dw: "dead w t \<longleftrightarrow> t \<in> W" if "t \<in> B" for t using v(7) m(8) [of t] d(7) [OF that] g(3) by (simp add: w_def)
  have "cc_trial rs s = Some (g, a, x)" using u(1) v(1) g(1) by (simp add: cc_trial_def x_def w_def)
  moreover have "kids x = kids s" "released x = released s @ filter (dropped B s) rs" using rs kw by simp_all
  moreover have "(dead x t \<longleftrightarrow> t \<in> set g) \<and> (t \<notin> set g \<longrightarrow> strong x t = strong s t) \<and> color x t \<noteq> Gray \<and> color x t \<noteq> White \<and> \<not> buffered x t"
    if t: "t \<in> B" for t
  proof (intro conjI impI)
    show "dead x t \<longleftrightarrow> t \<in> set g" using rs dw [OF t] g(3) by simp
    have "color w t \<noteq> Gray \<and> color w t \<noteq> White"
    proof (cases "t \<in> G")
      case True
      then have "t \<in> W \<or> t \<in> in_col G Black v" unfolding v(4) by blast
      then show ?thesis using g(3) unfolding w_def in_col_def by auto
    next
      case False
      then have "color w t = color s t" using v(6) m(7) [OF t] u(3) GB g(3) unfolding w_def G_def by auto
      then show ?thesis using d(4) [of t] by auto
    qed
    then show "color x t \<noteq> Gray" "color x t \<noteq> White" using rs by simp_all
    have "\<not> buffered w t" using m(9) [of t] marks_fields(2) [OF v(2), of t] d(13) [OF t] by (auto simp: w_def)
    then show "\<not> buffered x t" using rs by simp
    assume "t \<notin> set g"
    moreover have "t \<noteq> 0" using t d(2) by metis
    ultimately have "strong x t = strong v t + edges_in (kids s) W t" using rs dw [OF t] kw(1) g(3) by (simp add: w_def)
    moreover have "edges_in (kids s) G t = edges_in (kids s) (G - W) t + edges_in (kids s) W t"
    proof -
      have "finite G" by (rule finite_subset [OF GB(1) d(1)])
      moreover have "(G - W) \<inter> W = {}" "(G - W) \<union> W = G" using GB(2) by blast+
      ultimately show ?thesis using edges_in_disjoint [of "G - W" W "kids s" t] finite_subset [OF GB(2)] by simp
    qed
    ultimately show "strong x t = strong s t" using v(5) u(5) t unfolding G_def by simp
  qed
  ultimately show ?thesis using g(2,3) unfolding W_def by (intro exI [of _ g] exI [of _ a] exI [of _ x] conjI) simp_all
qed


text \<open>Blocks 1 and 2 hold each other and 3; only 3 is held from outside. 2 is the buffered root.\<close>

definition cc_demo :: ccs where
  "cc_demo = \<lparr>hdr = \<lambda>t. \<lparr>h_strong = (if t = 3 then 2 else 1), h_weak = 0, h_color = (if t = 2 then Purple else Black),
      h_buffered = (t = 2), h_dead = False, h_freed = False, h_idx = 0\<rparr>,
    kids = (\<lambda>t. if t = 1 then [2, 3] else if t = 2 then [1] else []), roots = [2], threshold = 4096, collecting = False,
    deferred = [], depth = 0, urgent = False, batch = 0, released = []\<rparr>"

lemma cc_demo_ready: "cc_ready {1, 2, 3} (\<lambda>t. if t = 3 then 1 else 0) [2] cc_demo"
  by (simp add: cc_ready_def cc_demo_def closed_def edges_in_def)

text \<open>C19. Trial deletion always ends. On counts that are the outside handles plus the handles the blocks hold, it
  collects, once each, exactly the blocks reachable from the purple roots that neither an outside handle nor
  a block outside the trial reaches: no outside handle names a collected block, and every block that holds a
  handle on one is collected with it. Every other block has its count and a resting colour back, no
  block stays buffered, and the dropped roots without weak handles are released. When every block that no outside
  handle reaches can be reached from a purple root, all of those are collected, so no unreachable cycle survives a whole run.
\<close>

theorem cc_trial_collects:
  assumes r: "cc_ready B ext rs s"
  shows "\<exists>g alive u. cc_trial rs s = Some (g, alive, u) \<and> distinct g \<and> set g = garbage B ext rs s \<and>
    (\<forall>t \<in> set g. ext t = 0 \<and> (\<forall>b \<in> B. t \<in> set (kids s b) \<longrightarrow> b \<in> set g)) \<and>
    (\<forall>t \<in> B. (dead u t \<longleftrightarrow> t \<in> set g) \<and> (t \<notin> set g \<longrightarrow> strong u t = strong s t) \<and> color u t \<noteq> Gray \<and> color u t \<noteq> White \<and> \<not> buffered u t) \<and>
    released u = released s @ filter (dropped B s) rs \<and>
    (B - reach (kids s) {x \<in> B. ext x > 0} \<subseteq> trial_set B rs s \<longrightarrow> set g = B - reach (kids s) {x \<in> B. ext x > 0})"
proof -
  obtain g a u where u: "cc_trial rs s = Some (g, a, u)" "distinct g" "set g = garbage B ext rs s"
    "\<forall>t \<in> B. (dead u t \<longleftrightarrow> t \<in> set g) \<and> (t \<notin> set g \<longrightarrow> strong u t = strong s t) \<and> color u t \<noteq> Gray \<and> color u t \<noteq> White \<and> \<not> buffered u t"
    "released u = released s @ filter (dropped B s) rs"
    using trial_ok [OF r] by (elim exE conjE)
  have "\<forall>t \<in> set g. ext t = 0 \<and> (\<forall>b \<in> B. t \<in> set (kids s b) \<longrightarrow> b \<in> set g)"
    unfolding u(3) using garbage_closed_under_holders [OF r] by blast
  moreover have "B - reach (kids s) {x \<in> B. ext x > 0} \<subseteq> trial_set B rs s \<longrightarrow> set g = B - reach (kids s) {x \<in> B. ext x > 0}"
    unfolding u(3) by (rule impI) (rule garbage_complete [OF r])
  ultimately show ?thesis using u by (intro exI [of _ g] exI [of _ a] exI [of _ u] conjI)
qed

lemma cc_demo_reach:
  "reach (kids cc_demo) {x \<in> {1, 2, 3}. (if x = (3 :: nat) then 1 else 0 :: int) > 0} = {3}" "{1, 2} \<subseteq> trial_set {1, 2, 3} [2] cc_demo"
proof -
  have e: "{x \<in> {1, 2, 3}. (if x = (3 :: nat) then 1 else 0 :: int) > 0} = {3}" by auto
  have "reach (kids cc_demo) {3} \<subseteq> {3}" by (rule reach_least) (simp_all add: closed_def cc_demo_def)
  then show "reach (kids cc_demo) {x \<in> {1, 2, 3}. (if x = (3 :: nat) then 1 else 0 :: int) > 0} = {3}"
    unfolding e using reach_refl [of "{3}" "kids cc_demo"] by blast
  have p: "purple_in {1, 2, 3} [2] cc_demo = {2}" by (auto simp: purple_in_def cc_demo_def)
  show "{1, 2} \<subseteq> trial_set {1, 2, 3} [2] cc_demo"
    unfolding trial_set_def p using reach_refl [of "{2}" "kids cc_demo"] reach_closed [of "kids cc_demo" "{2}"]
    by (auto simp: closed_def cc_demo_def)
qed

theorem cc_trial_collects_witness:
  "\<exists>g alive u. cc_trial [2] cc_demo = Some (g, alive, u) \<and> distinct g \<and> set g = {1, 2} \<and> strong u 3 = 2 \<and> \<not> dead u 3"
proof -
  have d: "{1, 2, 3} - {3 :: nat} = {1, 2}" by auto
  obtain g alive u where u: "cc_trial [2] cc_demo = Some (g, alive, u)" "distinct g"
    "\<forall>t \<in> {1, 2, 3}. (dead u t \<longleftrightarrow> t \<in> set g) \<and> (t \<notin> set g \<longrightarrow> strong u t = strong cc_demo t) \<and> color u t \<noteq> Gray \<and> color u t \<noteq> White \<and> \<not> buffered u t"
    "{1, 2} \<subseteq> trial_set {1, 2, 3} [2] cc_demo \<longrightarrow> set g = {1, 2}"
    using cc_trial_collects [OF cc_demo_ready] unfolding cc_demo_reach(1) d by (elim exE conjE)
  have "set g = {1, 2}" using u(4) cc_demo_reach(2) by blast
  moreover have "strong cc_demo 3 = 2" by (simp add: cc_demo_def)
  ultimately show ?thesis using u(1-3) by (intro exI [of _ g] exI [of _ alive] exI [of _ u]) simp
qed

definition now_demo :: ccs where
  "now_demo = \<lparr>hdr = \<lambda>t. \<lparr>h_strong = (if t = 3 then 3 else 1), h_weak = 0, h_color = (if t = 3 then Black else Purple),
      h_buffered = (t = 1 \<or> t = 2), h_dead = False, h_freed = False, h_idx = 0\<rparr>,
    kids = (\<lambda>t. if t = 1 then [1, 2] else if t = 2 then [3, 3] else []), roots = [2], threshold = 4096, collecting = True,
    deferred = [], depth = 0, urgent = False, batch = 0, released = []\<rparr>"

text \<open>Collecting one block at once is not covered by that: the other possible roots stay buffered, a white
  buffered block is cut out of the garbage, and the counts it lost the trial are not handed back. Here 1 holds itself
  and 2, 2 waits in the buffer and holds 3 twice, and one outside handle names 3: after the trial from 1 only,
  2 is alive and still holds both handles, but 3 has count 1 for three handles.
\<close>

lemma collect_now_miscounts:
  "(case cc_trial [1] now_demo of None \<Rightarrow> False
    | Some (g, alive, u) \<Rightarrow> g = [1] \<and> \<not> dead u 2 \<and> kids u 2 = [3, 3] \<and> strong u 3 = 1) \<and>
   strong now_demo 3 = 1 + edges_in (kids now_demo) {1, 2, 3} 3"
proof
  show "case cc_trial [1] now_demo of None \<Rightarrow> False
    | Some (g, alive, u) \<Rightarrow> g = [1] \<and> \<not> dead u 2 \<and> kids u 2 = [3, 3] \<and> strong u 3 = 1" by code_simp
qed (simp add: edges_in_def now_demo_def)


section \<open>The buffer of possible roots\<close>

text \<open>Each buffered block knows its place in the buffer, so that leaving it takes constant time.\<close>

definition buf_ok :: "ccs \<Rightarrow> bool" where
  "buf_ok s \<longleftrightarrow> distinct (roots s) \<and> (\<forall>i < length (roots s). h_idx (hdr s (roots s ! i)) = i) \<and>
    (\<forall>h. buffered s h \<longleftrightarrow> h \<in> set (roots s))"

lemma buffer_root_ok: "buf_ok s \<Longrightarrow> \<not> buffered s h \<Longrightarrow> buf_ok (buffer_root h s)"
  by (auto simp: buf_ok_def buffer_root_def hset_def nth_append less_Suc_eq)

lemma unlist_leaves:
  assumes ok: "buf_ok s" and h: "buffered s h"
  shows "buf_ok (unbuffer h (unlist h s)) \<and> set (roots (unlist h s)) = set (roots s) - {h}"
proof -
  define i where "i = h_idx (hdr s h)"
  obtain ys l where xs: "roots s = ys @ [l]" using ok h by (cases "roots s" rule: rev_cases) (auto simp: buf_ok_def)
  have d: "distinct ys" "l \<notin> set ys" and b: "buffered s t \<longleftrightarrow> t = l \<or> t \<in> set ys" for t using ok xs by (auto simp: buf_ok_def)
  have ix: "h_idx (hdr s (ys ! j)) = j" if "j < length ys" for j
    using ok that xs by (auto simp: buf_ok_def nth_append split: if_splits)
  show ?thesis
  proof (cases "l = h")
    case True
    then have u: "unlist h s = s\<lparr>roots := ys\<rparr>" by (simp add: unlist_def xs)
    show ?thesis unfolding u using True d b ix by (auto simp: buf_ok_def unbuffer_def hset_def xs)
  next
    case False
    then have hy: "h \<in> set ys" using h b [of h] by simp
    then obtain j where j: "j < length ys" "ys ! j = h" by (auto simp: in_set_conv_nth)
    then have ij: "i = j" using ix by (auto simp: i_def)
    have u: "unlist h s = hset l (\<lambda>x. x\<lparr>h_idx := j\<rparr>) (s\<lparr>roots := ys[j := l]\<rparr>)"
      using False ij by (simp add: unlist_def xs i_def [symmetric])
    have st: "set (ys[j := l]) = insert l (set ys - {h})" using set_update_distinct [OF d(1) j(1)] j(2) by simp
    have "distinct (ys[j := l])" using d by (intro distinct_list_update) auto
    moreover have "h_idx (hdr (unbuffer h (unlist h s)) (ys[j := l] ! k)) = k" if "k < length ys" for k
    proof (cases "k = j")
      case True
      then show ?thesis using j False by (simp add: u unbuffer_def hset_def)
    next
      case False
      then have "ys ! k \<noteq> l" using d(2) that by (metis nth_mem)
      then show ?thesis using False ix [OF that] by (auto simp: u unbuffer_def hset_def)
    qed
    moreover have "buffered (unbuffer h (unlist h s)) t \<longleftrightarrow> t \<in> set (ys[j := l])" for t
      unfolding st using b [of t] b [of l] False by (auto simp: u unbuffer_def hset_def)
    ultimately have "buf_ok (unbuffer h (unlist h s))" unfolding buf_ok_def by (simp add: u unbuffer_def hset_def)
    then show ?thesis using st False d by (auto simp: u hset_def xs)
  qed
qed

text \<open>C20. The buffer of possible roots stays exact: every buffered block is listed once, at the position its header
  records. A block whose count fell joins it at most once, and a dropped block leaves it in one swap, is released
  unless a weak handle names it, and disturbs no other entry.
\<close>

theorem buffer_exact:
  assumes "buf_ok s"
  shows "buf_ok (if buffered s h then s else buffer_root h s) \<and>
    (\<not> collecting s \<longrightarrow> buf_ok (rc_finish h s) \<and> set (roots (rc_finish h s)) = set (roots s) - {h} \<and> \<not> buffered (rc_finish h s) h \<and>
      released (rc_finish h s) = released s @ (if h_weak (hdr s h) = 0 then [h] else []))"
proof (intro conjI impI)
  show "buf_ok (if buffered s h then s else buffer_root h s)" using assms buffer_root_ok by simp
  assume c: "\<not> collecting s"
  define t where "t = (if buffered s h then unbuffer h (unlist h s) else s)"
  have f: "rc_finish h s = (if h_weak (hdr t h) = 0 then t\<lparr>released := released t @ [h]\<rparr> else t)"
    using c by (simp add: rc_finish_def t_def Let_def)
  have t: "buf_ok t \<and> set (roots t) = set (roots s) - {h}"
  proof (cases "buffered s h")
    case True
    then show ?thesis using unlist_leaves [OF assms True] by (simp add: t_def unbuffer_def hset_def)
  next
    case False
    then show ?thesis using assms by (auto simp: t_def buf_ok_def)
  qed
  have w: "h_weak (hdr t h) = h_weak (hdr s h)" "released t = released s"
    by (simp_all add: t_def unbuffer_def unlist_def hset_def Let_def)
  show "buf_ok (rc_finish h s)" using t by (simp add: f buf_ok_def)
  show "set (roots (rc_finish h s)) = set (roots s) - {h}" using t by (simp add: f)
  show "\<not> buffered (rc_finish h s) h" using t by (simp add: f buf_ok_def)
  show "released (rc_finish h s) = released s @ (if h_weak (hdr s h) = 0 then [h] else [])" using w by (simp add: f)
qed

theorem buffer_exact_witness: "buf_ok (rc_finish 2 cc_demo) \<and> set (roots (rc_finish 2 cc_demo)) = {}"
  using buffer_exact [of cc_demo 2] by (simp add: cc_demo_def buf_ok_def)

end
