(* ===== verification/NlString.thy ===== *)
theory NlString
  imports Prelude "HOL-Library.Monad_Syntax" "HOL-Library.Sublist"
begin

text \<open>
  The freestanding C library's memory and string functions (unikernel/nolibc/string.c). Memory maps
  addresses to bytes; a load or store at an address that is not mapped faults, and a
  function that faults, or a scan for a terminator that never ends, is \<open>None\<close>. A
  theorem that a call returns therefore says that it touches mapped bytes only, where the only bytes
  its hypotheses map are those the caller owes it. Sizes are natural numbers: an index never
  reaches 2^64 within mapped memory. The null pointer is address zero.
\<close>

section \<open>Loads and stores\<close>

type_synonym pmem = "nat \<rightharpoonup> u8"

definition ld :: "pmem \<Rightarrow> nat \<Rightarrow> u8 option" where "ld m a = m a"

definition st :: "pmem \<Rightarrow> nat \<Rightarrow> u8 \<Rightarrow> pmem option" where
  "st m a b = (if m a = None then None else Some (m(a \<mapsto> b)))"

fun ld_bytes :: "pmem \<Rightarrow> nat \<Rightarrow> nat \<Rightarrow> u8 list option" where
  "ld_bytes m a 0 = Some []"
| "ld_bytes m a (Suc n) = do { b \<leftarrow> ld m a; bs \<leftarrow> ld_bytes m (a + 1) n; Some (b # bs) }"

fun st_bytes :: "pmem \<Rightarrow> nat \<Rightarrow> u8 list \<Rightarrow> pmem option" where
  "st_bytes m a [] = Some m"
| "st_bytes m a (b # bs) = do { m1 \<leftarrow> st m a b; st_bytes m1 (a + 1) bs }"

text \<open>A little-endian \<open>unsigned long\<close>.\<close>

fun le_nat :: "u8 list \<Rightarrow> nat" where
  "le_nat [] = 0"
| "le_nat (b # bs) = unat b + 256 * le_nat bs"

fun le_bytes :: "nat \<Rightarrow> nat \<Rightarrow> u8 list" where
  "le_bytes 0 x = []"
| "le_bytes (Suc k) x = word_of_nat (x mod 256) # le_bytes k (x div 256)"

definition ld64 :: "pmem \<Rightarrow> nat \<Rightarrow> u64 option" where
  "ld64 m a = do { bs \<leftarrow> ld_bytes m a 8; Some (word_of_nat (le_nat bs)) }"

definition st64 :: "pmem \<Rightarrow> nat \<Rightarrow> u64 \<Rightarrow> pmem option" where
  "st64 m a w = st_bytes m a (le_bytes 8 (unat w))"

section \<open>memcpy, memmove, memset\<close>

function copy_words :: "nat \<Rightarrow> nat \<Rightarrow> nat \<Rightarrow> nat \<Rightarrow> pmem \<Rightarrow> (nat \<times> pmem) option" where
  "copy_words d s n i m =
    (if i + 8 \<le> n then do { w \<leftarrow> ld64 m (s + i); m1 \<leftarrow> st64 m (d + i) w; copy_words d s n (i + 8) m1 }
     else Some (i, m))"
  by pat_completeness auto
termination by (relation "measure (\<lambda>(d, s, n, i, m). n - i)") auto

function copy_up :: "nat \<Rightarrow> nat \<Rightarrow> nat \<Rightarrow> nat \<Rightarrow> pmem \<Rightarrow> pmem option" where
  "copy_up d s n i m =
    (if i < n then do { b \<leftarrow> ld m (s + i); m1 \<leftarrow> st m (d + i) b; copy_up d s n (i + 1) m1 } else Some m)"
  by pat_completeness auto
termination by (relation "measure (\<lambda>(d, s, n, i, m). n - i)") auto

fun copy_down :: "nat \<Rightarrow> nat \<Rightarrow> nat \<Rightarrow> pmem \<Rightarrow> pmem option" where
  "copy_down d s 0 m = Some m"
| "copy_down d s (Suc i) m = do { b \<leftarrow> ld m (s + i); m1 \<leftarrow> st m (d + i) b; copy_down d s i m1 }"

definition nl_memcpy :: "nat \<Rightarrow> nat \<Rightarrow> nat \<Rightarrow> pmem \<Rightarrow> pmem option" where
  "nl_memcpy d s n m =
    (if d mod 8 = 0 \<and> s mod 8 = 0
     then do { (i, m1) \<leftarrow> copy_words d s n 0 m; copy_up d s n i m1 }
     else copy_up d s n 0 m)"

definition nl_memmove :: "nat \<Rightarrow> nat \<Rightarrow> nat \<Rightarrow> pmem \<Rightarrow> pmem option" where
  "nl_memmove d s n m =
    (if d = s \<or> n = 0 then Some m
     else if d < s then copy_up d s n 0 m
     else copy_down d s n m)"

function set_words :: "nat \<Rightarrow> u64 \<Rightarrow> nat \<Rightarrow> nat \<Rightarrow> pmem \<Rightarrow> (nat \<times> pmem) option" where
  "set_words d w n i m =
    (if i + 8 \<le> n then do { m1 \<leftarrow> st64 m (d + i) w; set_words d w n (i + 8) m1 } else Some (i, m))"
  by pat_completeness auto
termination by (relation "measure (\<lambda>(d, w, n, i, m). n - i)") auto

function set_up :: "nat \<Rightarrow> u8 \<Rightarrow> nat \<Rightarrow> nat \<Rightarrow> pmem \<Rightarrow> pmem option" where
  "set_up d v n i m = (if i < n then do { m1 \<leftarrow> st m (d + i) v; set_up d v n (i + 1) m1 } else Some m)"
  by pat_completeness auto
termination by (relation "measure (\<lambda>(d, v, n, i, m). n - i)") auto

definition nl_memset :: "nat \<Rightarrow> int \<Rightarrow> nat \<Rightarrow> pmem \<Rightarrow> pmem option" where
  "nl_memset d c n m =
    (let v = word_of_int c :: u8 in
     if d mod 8 = 0
     then do { (i, m1) \<leftarrow> set_words d (0x0101010101010101 * ucast v) n 0 m; set_up d v n i m1 }
     else set_up d v n 0 m)"

section \<open>Searching and comparing memory\<close>

function memchr_loop :: "pmem \<Rightarrow> nat \<Rightarrow> u8 \<Rightarrow> nat \<Rightarrow> nat \<Rightarrow> nat option" where
  "memchr_loop m p v n i =
    (if i < n then do { b \<leftarrow> ld m (p + i); if b = v then Some (p + i) else memchr_loop m p v n (i + 1) } else Some 0)"
  by pat_completeness auto
termination by (relation "measure (\<lambda>(m, p, v, n, i). n - i)") auto

definition nl_memchr :: "pmem \<Rightarrow> nat \<Rightarrow> int \<Rightarrow> nat \<Rightarrow> nat option" where
  "nl_memchr m s c n = memchr_loop m s (word_of_int c) n 0"

function memcmp_loop :: "pmem \<Rightarrow> nat \<Rightarrow> nat \<Rightarrow> nat \<Rightarrow> nat \<Rightarrow> int option" where
  "memcmp_loop m x y n i =
    (if i < n then do {
       b \<leftarrow> ld m (x + i); c \<leftarrow> ld m (y + i);
       if b \<noteq> c then Some (uint b - uint c) else memcmp_loop m x y n (i + 1)
     } else Some 0)"
  by pat_completeness auto
termination by (relation "measure (\<lambda>(m, x, y, n, i). n - i)") auto

definition nl_memcmp :: "pmem \<Rightarrow> nat \<Rightarrow> nat \<Rightarrow> nat \<Rightarrow> int option" where
  "nl_memcmp m a b n = memcmp_loop m a b n 0"

definition nl_bcmp :: "pmem \<Rightarrow> nat \<Rightarrow> nat \<Rightarrow> nat \<Rightarrow> int option" where
  "nl_bcmp m a b n = nl_memcmp m a b n"

function memmem_loop :: "pmem \<Rightarrow> nat \<Rightarrow> nat \<Rightarrow> nat \<Rightarrow> nat \<Rightarrow> nat \<Rightarrow> nat option" where
  "memmem_loop m h hlen n nlen i =
    (if i + nlen \<le> hlen then do {
       b \<leftarrow> ld m (h + i); c \<leftarrow> ld m n;
       if b \<noteq> c then memmem_loop m h hlen n nlen (i + 1)
       else do {
         r \<leftarrow> nl_memcmp m (h + i) n nlen;
         if r = 0 then Some (h + i) else memmem_loop m h hlen n nlen (i + 1) }
     } else Some 0)"
  by pat_completeness auto
termination by (relation "measure (\<lambda>(m, h, hlen, n, nlen, i). Suc hlen - i)") auto

definition nl_memmem :: "pmem \<Rightarrow> nat \<Rightarrow> nat \<Rightarrow> nat \<Rightarrow> nat \<Rightarrow> nat option" where
  "nl_memmem m hay hlen needle nlen =
    (if nlen = 0 then Some hay
     else if hlen < nlen then Some 0
     else memmem_loop m hay hlen needle nlen 0)"

section \<open>Strings\<close>

partial_function (option) strlen_loop :: "pmem \<Rightarrow> nat \<Rightarrow> nat option" where
  [code]: "strlen_loop m p = do { b \<leftarrow> ld m p; if b \<noteq> 0 then strlen_loop m (p + 1) else Some p }"

definition nl_strlen :: "pmem \<Rightarrow> nat \<Rightarrow> nat option" where
  "nl_strlen m s = do { p \<leftarrow> strlen_loop m s; Some (p - s) }"

function strnlen_loop :: "pmem \<Rightarrow> nat \<Rightarrow> nat \<Rightarrow> nat \<Rightarrow> nat option" where
  "strnlen_loop m s mx n =
    (if n < mx then do { b \<leftarrow> ld m (s + n); if b \<noteq> 0 then strnlen_loop m s mx (n + 1) else Some n } else Some n)"
  by pat_completeness auto
termination by (relation "measure (\<lambda>(m, s, mx, n). mx - n)") auto

definition nl_strnlen :: "pmem \<Rightarrow> nat \<Rightarrow> nat \<Rightarrow> nat option" where
  "nl_strnlen m s mx = strnlen_loop m s mx 0"

partial_function (option) nl_strcmp :: "pmem \<Rightarrow> nat \<Rightarrow> nat \<Rightarrow> int option" where
  [code]: "nl_strcmp m x y = do {
    b \<leftarrow> ld m x; c \<leftarrow> ld m y;
    if b \<noteq> 0 \<and> b = c then nl_strcmp m (x + 1) (y + 1) else Some (uint b - uint c) }"

partial_function (option) strchr_loop :: "pmem \<Rightarrow> u8 \<Rightarrow> nat \<Rightarrow> nat option" where
  [code]: "strchr_loop m v s = do {
    b \<leftarrow> ld m s;
    if b = v then Some s else if b = 0 then Some 0 else strchr_loop m v (s + 1) }"

definition nl_strchr :: "pmem \<Rightarrow> nat \<Rightarrow> int \<Rightarrow> nat option" where
  "nl_strchr m s c = strchr_loop m (word_of_int c) s"

partial_function (option) strrchr_loop :: "pmem \<Rightarrow> u8 \<Rightarrow> nat \<Rightarrow> nat \<Rightarrow> nat option" where
  [code]: "strrchr_loop m v lst s = do {
    b \<leftarrow> ld m s;
    let lst1 = (if b = v then s else lst);
    if b = 0 then Some lst1 else strrchr_loop m v lst1 (s + 1) }"

definition nl_strrchr :: "pmem \<Rightarrow> nat \<Rightarrow> int \<Rightarrow> nat option" where
  "nl_strrchr m s c = strrchr_loop m (word_of_int c) 0 s"

function strncmp_loop :: "pmem \<Rightarrow> nat \<Rightarrow> nat \<Rightarrow> nat \<Rightarrow> nat \<Rightarrow> int option" where
  "strncmp_loop m x y n i =
    (if i < n then do {
       b \<leftarrow> ld m (x + i); c \<leftarrow> ld m (y + i);
       if b \<noteq> c then Some (uint b - uint c)
       else if b = 0 then Some 0
       else strncmp_loop m x y n (i + 1)
     } else Some 0)"
  by pat_completeness auto
termination by (relation "measure (\<lambda>(m, x, y, n, i). n - i)") auto

definition nl_strncmp :: "pmem \<Rightarrow> nat \<Rightarrow> nat \<Rightarrow> nat \<Rightarrow> int option" where
  "nl_strncmp m a b n = strncmp_loop m a b n 0"

definition nl_strstr :: "pmem \<Rightarrow> nat \<Rightarrow> nat \<Rightarrow> nat option" where
  "nl_strstr m hay needle = do {
     hl \<leftarrow> nl_strlen m hay; nl \<leftarrow> nl_strlen m needle;
     if nl = 0 then Some hay else if hl < nl then Some 0 else nl_memmem m hay hl needle nl }"

text \<open>\<open>strncpy\<close> copies, then pads with zeros.\<close>

function strncpy_copy :: "nat \<Rightarrow> nat \<Rightarrow> nat \<Rightarrow> nat \<Rightarrow> pmem \<Rightarrow> (nat \<times> pmem) option" where
  "strncpy_copy d s n i m =
    (if i < n then do {
       b \<leftarrow> ld m (s + i);
       if b \<noteq> 0 then do { m1 \<leftarrow> st m (d + i) b; strncpy_copy d s n (i + 1) m1 } else Some (i, m)
     } else Some (i, m))"
  by pat_completeness auto
termination by (relation "measure (\<lambda>(d, s, n, i, m). n - i)") auto

definition nl_strncpy :: "nat \<Rightarrow> nat \<Rightarrow> nat \<Rightarrow> pmem \<Rightarrow> pmem option" where
  "nl_strncpy d s n m = do { (i, m1) \<leftarrow> strncpy_copy d s n 0 m; set_up d 0 n i m1 }"

section \<open>Numbers\<close>

text \<open>\<open>char\<close> is signed. The accumulator wraps; the final negation is taken to wrap as well.\<close>

definition is_blank :: "u8 \<Rightarrow> bool" where "is_blank b \<longleftrightarrow> sint b = 32 \<or> (sint b \<ge> 9 \<and> sint b \<le> 13)"
definition is_digit :: "u8 \<Rightarrow> bool" where "is_digit b \<longleftrightarrow> sint b \<ge> 48 \<and> sint b \<le> 57"

partial_function (option) skip_blanks :: "pmem \<Rightarrow> nat \<Rightarrow> nat option" where
  [code]: "skip_blanks m s = do { b \<leftarrow> ld m s; if is_blank b then skip_blanks m (s + 1) else Some s }"

partial_function (option) digits_loop :: "pmem \<Rightarrow> u64 \<Rightarrow> nat \<Rightarrow> u64 option" where
  [code]: "digits_loop m acc s = do {
    b \<leftarrow> ld m s;
    if is_digit b then digits_loop m (acc * 10 + word_of_int (sint b - 48)) (s + 1) else Some acc }"

definition nl_atoll :: "pmem \<Rightarrow> nat \<Rightarrow> int option" where
  "nl_atoll m s = do {
     s1 \<leftarrow> skip_blanks m s;
     b \<leftarrow> ld m s1;
     let neg = (b = 45);
     acc \<leftarrow> digits_loop m 0 (if b = 45 \<or> b = 43 then s1 + 1 else s1);
     Some (sint (if neg then - acc else acc)) }"

definition nl_atol :: "pmem \<Rightarrow> nat \<Rightarrow> int option" where "nl_atol m s = nl_atoll m s"

definition nl_atoi :: "pmem \<Rightarrow> nat \<Rightarrow> int option" where
  "nl_atoi m s = do { v \<leftarrow> nl_atoll m s; Some (sint (word_of_int v :: u32)) }"

definition nl_abs :: "u32 \<Rightarrow> u32" where "nl_abs v = (if v <s 0 then - v else v)"
definition nl_llabs :: "u64 \<Rightarrow> u64" where "nl_llabs v = (if v <s 0 then - v else v)"

declare copy_words.simps [simp del] copy_up.simps [simp del] set_words.simps [simp del] set_up.simps [simp del] memchr_loop.simps [simp del] memcmp_loop.simps [simp del] memmem_loop.simps [simp del] strnlen_loop.simps [simp del] strncmp_loop.simps [simp del] strncpy_copy.simps [simp del]

end
