(* ===== verification/NlMemProofs.thy ===== *)
theory NlMemProofs
  imports NlString
begin

text \<open>
  The word-at-a-time memory functions against their byte-wise meaning.
\<close>

section \<open>Words and bytes\<close>

lemma le_bytes_nat: "le_bytes (length bs) (le_nat bs) = bs"
proof (induction bs)
  case (Cons b bs)
  have "unat b < 256" using unsigned_less [of b] by simp
  then have "(unat b + 256 * le_nat bs) mod 256 = unat b" "(unat b + 256 * le_nat bs) div 256 = le_nat bs" by simp_all
  then show ?case using Cons by simp
qed simp

lemma le_nat_bound: "le_nat bs < 256 ^ length bs"
proof (induction bs)
  case (Cons b bs)
  have "unat b < 256" using unsigned_less [of b] by simp
  then show ?case using Cons by simp
qed simp

lemma le_word64: "length bs = 8 \<Longrightarrow> le_bytes 8 (unat (word_of_nat (le_nat bs) :: u64)) = bs"
  using le_nat_bound [of bs] le_bytes_nat [of bs] by (simp add: unat_of_nat)

lemma splat_bytes: "le_bytes 8 (unat (0x0101010101010101 * ucast (v :: u8) :: u64)) = replicate 8 v"
proof -
  have v: "unat v < 256" using unsigned_less [of v] by simp
  have "replicate 8 v = [v, v, v, v, v, v, v, v]" by (simp add: numeral_eq_Suc)
  then have "le_nat (replicate 8 v) = 0x0101010101010101 * unat v" by simp
  moreover have "unat (0x0101010101010101 * ucast v :: u64) = 0x0101010101010101 * unat v"
    using v by (simp add: unat_word_ariths unsigned_ucast_eq take_bit_nat_eq_self)
  ultimately show ?thesis using le_bytes_nat [of "replicate 8 v"] by simp
qed

section \<open>Runs of loads and stores\<close>

definition mapped :: "pmem \<Rightarrow> nat \<Rightarrow> nat \<Rightarrow> bool" where
  "mapped m a n \<longleftrightarrow> (\<forall>i < n. m (a + i) \<noteq> None)"

definition bytes_at :: "pmem \<Rightarrow> nat \<Rightarrow> u8 list \<Rightarrow> bool" where
  "bytes_at m a bs \<longleftrightarrow> (\<forall>i < length bs. m (a + i) = Some (bs ! i))"

definition written :: "pmem \<Rightarrow> nat \<Rightarrow> u8 list \<Rightarrow> pmem" where
  "written m a bs = (\<lambda>x. if a \<le> x \<and> x < a + length bs then Some (bs ! (x - a)) else m x)"

lemma bytes_at_Cons: "bytes_at m a (b # bs) \<longleftrightarrow> m a = Some b \<and> bytes_at m (a + 1) bs"
  by (auto simp: bytes_at_def less_Suc_eq_0_disj)

lemma mapped_Suc: "mapped m a (Suc n) \<longleftrightarrow> m a \<noteq> None \<and> mapped m (a + 1) n"
  by (auto simp: mapped_def less_Suc_eq_0_disj)

lemma ld_bytes_ok: "bytes_at m a bs \<Longrightarrow> ld_bytes m a (length bs) = Some bs"
  by (induction bs arbitrary: a) (simp_all add: ld_def bytes_at_Cons)

lemma st_bytes_ok: "mapped m a (length bs) \<Longrightarrow> st_bytes m a bs = Some (written m a bs)"
proof (induction bs arbitrary: a m)
  case Nil
  then show ?case by (auto simp: written_def fun_eq_iff)
next
  case (Cons b bs)
  define m1 where "m1 = m(a \<mapsto> b)"
  have "mapped m1 (a + 1) (length bs)" using Cons.prems by (simp add: mapped_Suc) (simp add: mapped_def m1_def)
  then have "st_bytes m1 (a + 1) bs = Some (written m1 (a + 1) bs)" by (rule Cons.IH)
  moreover have "written m1 (a + 1) bs = written m a (b # bs)"
    by (auto simp: written_def fun_eq_iff nth_Cons' m1_def)
  moreover have "st m a b = Some m1" using Cons.prems by (auto simp: st_def mapped_Suc m1_def)
  ultimately show ?case by simp
qed

lemma mapped_bytes: "mapped m a n \<Longrightarrow> \<exists>bs. length bs = n \<and> bytes_at m a bs"
  by (rule exI [of _ "map (\<lambda>i. the (m (a + i))) [0..<n]"]) (auto simp: mapped_def bytes_at_def)

section \<open>memcpy and memmove\<close>

text \<open>What a copy means: every byte of the target is the byte the source had before.\<close>

definition copied :: "nat \<Rightarrow> nat \<Rightarrow> nat \<Rightarrow> pmem \<Rightarrow> pmem" where
  "copied d s n m = (\<lambda>a. if d \<le> a \<and> a < d + n then m (s + (a - d)) else m a)"

lemma copied_0 [simp]: "copied d s 0 m = m"
  by (auto simp: copied_def fun_eq_iff)

text \<open>An upward copy meets unchanged source bytes when the target does not begin inside the source.\<close>

definition up_safe :: "nat \<Rightarrow> nat \<Rightarrow> nat \<Rightarrow> bool" where
  "up_safe d s n \<longleftrightarrow> d \<le> s \<or> s + n \<le> d"

lemma copied_source: "up_safe d s n \<Longrightarrow> i + k < n \<Longrightarrow> copied d s i m (s + (i + k)) = m (s + (i + k))"
  by (auto simp: copied_def up_safe_def)

lemma copied_mapped: "mapped m d n \<Longrightarrow> mapped m s n \<Longrightarrow> i \<le> n \<Longrightarrow> mapped (copied d s i m) d n"
  by (auto simp: mapped_def copied_def)

lemma copied_written:
  assumes "length bs = k" "bytes_at m (s + i) bs"
  shows "written (copied d s i m) (d + i) bs = copied d s (i + k) m"
proof
  fix x
  show "written (copied d s i m) (d + i) bs x = copied d s (i + k) m x"
  proof (cases "d + i \<le> x \<and> x < d + i + k")
    case True
    then have "x - (d + i) < length bs" unfolding assms(1) by linarith
    then have "m (s + i + (x - (d + i))) = Some (bs ! (x - (d + i)))" using assms(2) unfolding bytes_at_def by blast
    moreover have "s + i + (x - (d + i)) = s + (x - d)" using True by simp
    ultimately show ?thesis using True assms(1) by (simp add: written_def copied_def)
  qed (use assms(1) in \<open>auto simp: written_def copied_def\<close>)
qed

lemma copy_up_ok:
  assumes "up_safe d s n" "mapped m d n" "mapped m s n" "i \<le> n"
  shows "copy_up d s n i (copied d s i m) = Some (copied d s n m)"
  using assms(4)
proof (induction "n - i" arbitrary: i)
  case 0
  then show ?case by (subst copy_up.simps) simp
next
  case (Suc k)
  then have i: "i < n" by simp
  obtain b where b: "m (s + i) = Some b" using assms(3) i by (auto simp: mapped_def)
  have l: "ld (copied d s i m) (s + i) = Some b" using copied_source [OF assms(1), of i 0 m] b i by (simp add: ld_def)
  have "st (copied d s i m) (d + i) b = Some (copied d s (i + 1) m)"
    using st_bytes_ok [of "copied d s i m" "d + i" "[b]"] copied_written [of "[b]" 1 m s i d] copied_mapped [OF assms(2,3), of i] i b
    by (simp add: mapped_def bytes_at_def split: bind_splits)
  then show ?case using Suc.hyps i l by (subst copy_up.simps) simp
qed

lemma copy_words_ok:
  assumes "up_safe d s n" "mapped m d n" "mapped m s n" "i \<le> n"
  shows "\<exists>j. copy_words d s n i (copied d s i m) = Some (j, copied d s j m) \<and> j \<le> n"
  using assms(4)
proof (induction "n - i" arbitrary: i rule: less_induct)
  case less
  show ?case
  proof (cases "i + 8 \<le> n")
    case False
    then show ?thesis using less.prems by (subst copy_words.simps) simp
  next
    case True
    have "mapped m (s + i) 8" using assms(3) True by (simp add: mapped_def add.assoc)
    then obtain bs where bs: "length bs = 8" "bytes_at m (s + i) bs" using mapped_bytes by blast
    then have "bytes_at (copied d s i m) (s + i) bs"
      using copied_source [OF assms(1), of i _ m] True by (simp add: bytes_at_def add.assoc)
    then have l: "ld64 (copied d s i m) (s + i) = Some (word_of_nat (le_nat bs))"
      using ld_bytes_ok [of _ _ bs] bs(1) by (simp add: ld64_def)
    have "mapped (copied d s i m) (d + i) 8" using copied_mapped [OF assms(2,3) less.prems] True by (simp add: mapped_def add.assoc)
    then have "st64 (copied d s i m) (d + i) (word_of_nat (le_nat bs)) = Some (copied d s (i + 8) m)"
      using st_bytes_ok [of _ _ bs] bs copied_written [OF bs, of d] by (simp add: st64_def le_word64)
    then show ?thesis using less.hyps [of "i + 8"] True l by (subst copy_words.simps) simp
  qed
qed

lemma nl_memcpy_ok:
  assumes "up_safe d s n" "mapped m d n" "mapped m s n"
  shows "nl_memcpy d s n m = Some (copied d s n m)"
proof -
  obtain j where "copy_words d s n 0 m = Some (j, copied d s j m)" "j \<le> n" using copy_words_ok [OF assms, of 0] by auto
  then show ?thesis using copy_up_ok [OF assms, of j] copy_up_ok [OF assms, of 0] by (simp add: nl_memcpy_def)
qed

text \<open>A downward copy fills the target from its end.\<close>

definition copied_from :: "nat \<Rightarrow> nat \<Rightarrow> nat \<Rightarrow> nat \<Rightarrow> pmem \<Rightarrow> pmem" where
  "copied_from d s i n m = (\<lambda>a. if d + i \<le> a \<and> a < d + n then m (s + (a - d)) else m a)"

lemma copy_down_ok:
  assumes "s \<le> d" "mapped m d n" "mapped m s n" "i \<le> n"
  shows "copy_down d s i (copied_from d s i n m) = Some (copied d s n m)"
  using assms(4)
proof (induction i)
  case 0
  then show ?case by (simp add: copied_from_def copied_def)
next
  case (Suc i)
  obtain b where b: "m (s + i) = Some b" using assms(3) Suc.prems unfolding mapped_def by (meson Suc_le_lessD not_None_eq)
  have l: "ld (copied_from d s (Suc i) n m) (s + i) = Some b" using b assms(1) by (simp add: ld_def copied_from_def)
  have "m (d + i) \<noteq> None" using assms(2) Suc.prems by (auto simp: mapped_def)
  moreover have "(copied_from d s (Suc i) n m)(d + i \<mapsto> b) = copied_from d s i n m"
    using b Suc.prems by (auto simp: copied_from_def fun_eq_iff)
  ultimately have "st (copied_from d s (Suc i) n m) (d + i) b = Some (copied_from d s i n m)"
    by (simp add: st_def copied_from_def)
  then show ?case using Suc l by simp
qed

section \<open>memset\<close>

definition filled :: "nat \<Rightarrow> u8 \<Rightarrow> nat \<Rightarrow> pmem \<Rightarrow> pmem" where
  "filled d v n m = (\<lambda>a. if d \<le> a \<and> a < d + n then Some v else m a)"

lemma filled_0 [simp]: "filled d v 0 m = m"
  by (auto simp: filled_def fun_eq_iff)

lemma filled_written: "written (filled d v i m) (d + i) (replicate k v) = filled d v (i + k) m"
  by (auto simp: written_def filled_def fun_eq_iff)

lemma filled_mapped: "mapped m d n \<Longrightarrow> i \<le> n \<Longrightarrow> mapped (filled d v i m) d n"
  by (auto simp: mapped_def filled_def)

lemma set_up_ok:
  assumes "mapped m d n" "i \<le> n"
  shows "set_up d v n i (filled d v i m) = Some (filled d v n m)"
  using assms(2)
proof (induction "n - i" arbitrary: i)
  case 0
  then show ?case by (subst set_up.simps) simp
next
  case (Suc k)
  have "st (filled d v i m) (d + i) v = Some (filled d v (i + 1) m)"
    using st_bytes_ok [of "filled d v i m" "d + i" "[v]"] filled_written [of d v i m 1] filled_mapped [OF assms(1), of i v] Suc
    by (simp add: mapped_def split: bind_splits)
  then show ?case using Suc by (subst set_up.simps) simp
qed

lemma set_words_ok:
  assumes "mapped m d n" "i \<le> n"
  shows "\<exists>j. set_words d (0x0101010101010101 * ucast v) n i (filled d v i m) = Some (j, filled d v j m) \<and> j \<le> n"
  using assms(2)
proof (induction "n - i" arbitrary: i rule: less_induct)
  case less
  show ?case
  proof (cases "i + 8 \<le> n")
    case False
    then show ?thesis using less.prems by (subst set_words.simps) simp
  next
    case True
    have "mapped (filled d v i m) (d + i) 8" using filled_mapped [OF assms(1) less.prems] True by (simp add: mapped_def add.assoc)
    then have "st64 (filled d v i m) (d + i) (0x0101010101010101 * ucast v) = Some (filled d v (i + 8) m)"
      using st_bytes_ok [of _ _ "replicate 8 v"] filled_written [of d v i m 8] by (simp add: st64_def splat_bytes)
    then show ?thesis using less.hyps [of "i + 8"] True by (subst set_words.simps) simp
  qed
qed

lemma nl_memset_ok:
  assumes "mapped m d n"
  shows "nl_memset d c n m = Some (filled d (word_of_int c) n m)"
proof -
  obtain j where "set_words d (0x0101010101010101 * ucast (word_of_int c :: u8)) n 0 m = Some (j, filled d (word_of_int c) j m)" "j \<le> n"
    using set_words_ok [OF assms, of 0 "word_of_int c"] by auto
  then show ?thesis using set_up_ok [OF assms, of j "word_of_int c"] set_up_ok [OF assms, of 0 "word_of_int c"]
    by (simp add: nl_memset_def Let_def)
qed

text \<open>C21. The word-at-a-time memory functions agree with their byte-wise meaning on every alignment, size and
  permitted overlap: \<open>memmove\<close> copies between any two ranges, \<open>memcpy\<close> whenever the target does not begin inside the
  source, \<open>memset\<close> fills with the low byte of its argument. They return, touch no byte outside the two ranges, and change
  none outside the target.\<close>

theorem memory_functions:
  assumes "mapped m d n" "mapped m s n"
  shows "nl_memmove d s n m = Some (copied d s n m) \<and>
    (up_safe d s n \<longrightarrow> nl_memcpy d s n m = Some (copied d s n m)) \<and>
    nl_memset d c n m = Some (filled d (word_of_int c) n m)"
proof (intro conjI impI)
  show "nl_memmove d s n m = Some (copied d s n m)"
  proof -
    consider "d = s \<or> n = 0" | "d < s" "n \<noteq> 0" | "s < d" "n \<noteq> 0" by linarith
    then show ?thesis
    proof cases
      case 1
      then have "copied d s n m = m" by (auto simp: copied_def fun_eq_iff)
      then show ?thesis using 1 by (simp add: nl_memmove_def)
    next
      case 2
      then show ?thesis using copy_up_ok [OF _ assms, of 0] by (simp add: nl_memmove_def up_safe_def)
    next
      case 3
      have "copied_from d s n n m = m" by (auto simp: copied_from_def fun_eq_iff)
      then show ?thesis using 3 copy_down_ok [OF _ assms, of n] by (simp add: nl_memmove_def)
    qed
  qed
  show "nl_memcpy d s n m = Some (copied d s n m)" if "up_safe d s n" by (rule nl_memcpy_ok [OF that assms])
  show "nl_memset d c n m = Some (filled d (word_of_int c) n m)" by (rule nl_memset_ok [OF assms(1)])
qed

theorem memory_functions_witness:
  "\<exists>m. nl_memmove 17 16 9 m = Some (copied 17 16 9 m) \<and> m 16 = Some 5 \<and> copied 17 16 9 m 17 = Some 5 \<and>
    nl_memcpy 8 16 9 m = Some (copied 8 16 9 m)"
proof -
  define m :: pmem where "m = (\<lambda>a. Some (if a = 16 then 5 else 0))"
  have a: "mapped m x k" for x k by (simp add: mapped_def m_def)
  show ?thesis using memory_functions [OF a a, where d = 17 and s = 16 and n = 9] memory_functions [OF a a, where d = 8 and s = 16 and n = 9]
    by (intro exI [of _ m]) (simp add: up_safe_def copied_def m_def)
qed

end
