(* ===== verification/NlStrProofs.thy ===== *)
theory NlStrProofs
  imports NlMemProofs
begin

text \<open>
  The string functions on terminated strings. \<open>cstr m a xs\<close> says that the bytes of \<open>xs\<close> and a terminator lie at
  \<open>a\<close> and promises nothing about the byte after the terminator.
\<close>

section \<open>Terminated strings\<close>

definition cstr :: "pmem \<Rightarrow> nat \<Rightarrow> u8 list \<Rightarrow> bool" where
  "cstr m a xs \<longleftrightarrow> 0 \<notin> set xs \<and> bytes_at m a (xs @ [0])"

lemma cstr_simps: "cstr m a [] \<longleftrightarrow> m a = Some 0" "cstr m a (x # xs) \<longleftrightarrow> x \<noteq> 0 \<and> m a = Some x \<and> cstr m (a + 1) xs"
  by (auto simp: cstr_def bytes_at_Cons) (simp add: bytes_at_def)+

lemma bytes_at_nil [simp]: "bytes_at m a []"
  by (simp add: bytes_at_def)

lemma bytes_at_append: "bytes_at m a (xs @ ys) \<longleftrightarrow> bytes_at m a xs \<and> bytes_at m (a + length xs) ys"
  by (induction xs arbitrary: a) (auto simp: bytes_at_Cons)

lemma bytes_at_drop: "bytes_at m a xs \<Longrightarrow> i \<le> length xs \<Longrightarrow> bytes_at m (a + i) (drop i xs)"
  by (auto simp: bytes_at_def add.assoc)

lemma bytes_at_take: "bytes_at m a xs \<Longrightarrow> bytes_at m a (take i xs)"
  by (auto simp: bytes_at_def)

section \<open>Scans\<close>

lemma strlen_ok: "cstr m s xs \<Longrightarrow> nl_strlen m s = Some (length xs)"
proof -
  have "cstr m p xs \<Longrightarrow> strlen_loop m p = Some (p + length xs)" for p
    by (induction xs arbitrary: p) (subst strlen_loop.simps, simp add: cstr_simps ld_def)+
  then show "cstr m s xs \<Longrightarrow> nl_strlen m s = Some (length xs)" by (simp add: nl_strlen_def)
qed

lemma strnlen_ok:
  assumes "bytes_at m s (take mx (xs @ [0]))" "0 \<notin> set xs"
  shows "nl_strnlen m s mx = Some (min mx (length xs))"
proof -
  have "strnlen_loop m s mx i = Some (min mx (length xs))" if "i \<le> min mx (length xs)" for i
    using that
  proof (induction "min mx (length xs) - i" arbitrary: i)
    case 0
    then have i: "i = min mx (length xs)" by simp
    show ?case
    proof (cases "i < mx")
      case True
      then have l: "i = length xs" using i by simp
      then have "m (s + i) = Some 0" using assms(1) True unfolding bytes_at_def by (auto dest: spec [of _ i] simp: nth_append)
      then show ?thesis using True unfolding i [symmetric] by (subst strnlen_loop.simps) (simp add: ld_def)
    next
      case False
      then show ?thesis using i by (subst strnlen_loop.simps) simp
    qed
  next
    case (Suc k)
    then have i: "i < mx" "i < length xs" by simp_all
    then have "m (s + i) = Some (xs ! i)" using assms(1) unfolding bytes_at_def by (auto dest: spec [of _ i] simp: nth_append)
    moreover have "xs ! i \<noteq> 0" using assms(2) i(2) by (metis nth_mem)
    ultimately show ?case using Suc i by (subst strnlen_loop.simps) (simp add: ld_def)
  qed
  then show ?thesis by (simp add: nl_strnlen_def)
qed

text \<open>The first and the last place of a byte, the terminator included.\<close>

definition first_at :: "u8 \<Rightarrow> u8 list \<Rightarrow> nat \<Rightarrow> bool" where
  "first_at v zs i \<longleftrightarrow> i < length zs \<and> zs ! i = v \<and> (\<forall>j < i. zs ! j \<noteq> v)"

definition last_at :: "u8 \<Rightarrow> u8 list \<Rightarrow> nat \<Rightarrow> bool" where
  "last_at v zs i \<longleftrightarrow> i < length zs \<and> zs ! i = v \<and> (\<forall>j. i < j \<and> j < length zs \<longrightarrow> zs ! j \<noteq> v)"

lemma first_at_Cons: "x \<noteq> v \<Longrightarrow> first_at v zs i \<Longrightarrow> first_at v (x # zs) (Suc i)"
  by (auto simp: first_at_def less_Suc_eq_0_disj)

lemma last_at_Cons: "last_at v zs i \<Longrightarrow> last_at v (x # zs) (Suc i)"
  by (auto simp: last_at_def nth_Cons split: nat.splits)

lemma strchr_ok:
  assumes "cstr m s xs"
  shows "\<exists>r. strchr_loop m v s = Some r \<and> (if v \<in> set (xs @ [0]) then \<exists>i. r = s + i \<and> first_at v (xs @ [0]) i else r = 0)"
  using assms
proof (induction xs arbitrary: s)
  case Nil
  then show ?case by (subst strchr_loop.simps) (auto simp: cstr_simps ld_def first_at_def)
next
  case (Cons x xs)
  have l: "ld m s = Some x" "x \<noteq> 0" "cstr m (s + 1) xs" using Cons.prems by (simp_all add: cstr_simps ld_def)
  show ?case
  proof (cases "x = v")
    case True
    then show ?thesis using l by (subst strchr_loop.simps) (auto simp: first_at_def intro!: exI [of _ 0])
  next
    case False
    obtain r where r: "strchr_loop m v (s + 1) = Some r"
      "if v \<in> set (xs @ [0]) then \<exists>i. r = s + 1 + i \<and> first_at v (xs @ [0]) i else r = 0" using Cons.IH [OF l(3)] by blast
    have "strchr_loop m v s = Some r" using l r(1) False by (subst strchr_loop.simps) simp
    moreover have "if v \<in> set ((x # xs) @ [0]) then \<exists>i. r = s + i \<and> first_at v ((x # xs) @ [0]) i else r = 0"
    proof (cases "v \<in> set (xs @ [0])")
      case True
      then obtain i where "r = s + 1 + i" "first_at v (xs @ [0]) i" using r(2) by auto
      then have "r = s + Suc i" "first_at v (x # xs @ [0]) (Suc i)" using first_at_Cons [OF False] by simp_all
      then show ?thesis using True by auto
    qed (use r(2) False in auto)
    ultimately show ?thesis by blast
  qed
qed

lemma strrchr_ok:
  assumes "cstr m s xs"
  shows "\<exists>r. strrchr_loop m v lst s = Some r \<and> (if v \<in> set (xs @ [0]) then \<exists>i. r = s + i \<and> last_at v (xs @ [0]) i else r = lst)"
  using assms
proof (induction xs arbitrary: s lst)
  case Nil
  then show ?case by (subst strrchr_loop.simps) (auto simp: cstr_simps ld_def last_at_def)
next
  case (Cons x xs)
  have l: "ld m s = Some x" "x \<noteq> 0" "cstr m (s + 1) xs" using Cons.prems by (simp_all add: cstr_simps ld_def)
  obtain r where r: "strrchr_loop m v (if x = v then s else lst) (s + 1) = Some r"
    "if v \<in> set (xs @ [0]) then \<exists>i. r = s + 1 + i \<and> last_at v (xs @ [0]) i else r = (if x = v then s else lst)"
    using Cons.IH [OF l(3), of "if x = v then s else lst"] by blast
  have "strrchr_loop m v lst s = Some r" using l r(1) by (subst strrchr_loop.simps) (simp add: Let_def)
  moreover have "if v \<in> set ((x # xs) @ [0]) then \<exists>i. r = s + i \<and> last_at v ((x # xs) @ [0]) i else r = lst"
  proof (cases "v \<in> set (xs @ [0])")
    case True
    then obtain i where "r = s + 1 + i" "last_at v (xs @ [0]) i" using r(2) by auto
    then have "r = s + Suc i" "last_at v (x # xs @ [0]) (Suc i)" using last_at_Cons by simp_all
    then show ?thesis using True by auto
  next
    case False
    then have n: "(xs @ [0]) ! j \<noteq> v" if "j < length (xs @ [0])" for j using that by (metis nth_mem)
    have "last_at v (x # xs @ [0]) 0" if "x = v" unfolding last_at_def
    proof (intro conjI allI impI)
      fix j assume "0 < j \<and> j < length (x # xs @ [0])"
      then show "(x # xs @ [0]) ! j \<noteq> v" using n [of "j - 1"] by (cases j) simp_all
    qed (simp_all add: that)
    then show ?thesis using False r(2) by (auto intro!: exI [of _ 0])
  qed
  ultimately show ?case by blast
qed

lemma memchr_ok:
  assumes "bytes_at m s xs"
  shows "\<exists>r. nl_memchr m s c (length xs) = Some r \<and>
    (if word_of_int c \<in> set xs then \<exists>i. r = s + i \<and> first_at (word_of_int c) xs i else r = 0)"
proof -
  define v :: u8 where "v = word_of_int c"
  have "\<exists>r. memchr_loop m s v (length xs) i = Some r \<and> (if v \<in> set xs then \<exists>k. r = s + k \<and> first_at v xs k else r = 0)"
    if "i \<le> length xs" "\<forall>j < i. xs ! j \<noteq> v" for i
    using that
  proof (induction "length xs - i" arbitrary: i)
    case 0
    then have "v \<notin> set xs" by (auto simp: in_set_conv_nth)
    then show ?case using 0 by (subst memchr_loop.simps) simp
  next
    case (Suc k)
    then have i: "i < length xs" by simp
    then have l: "ld m (s + i) = Some (xs ! i)" using assms by (simp add: ld_def bytes_at_def)
    show ?case
    proof (cases "xs ! i = v")
      case True
      then have "first_at v xs i" "v \<in> set xs" using Suc.prems i by (auto simp: first_at_def)
      then show ?thesis using l True i by (subst memchr_loop.simps) auto
    next
      case False
      then have "\<forall>j < i + 1. xs ! j \<noteq> v" using Suc.prems(2) by (auto simp: less_Suc_eq)
      then show ?thesis using Suc.hyps(1) [of "i + 1"] Suc.hyps(2) i l False by (subst memchr_loop.simps) simp
    qed
  qed
  then show ?thesis unfolding nl_memchr_def v_def by simp
qed

text \<open>C22. On a terminated string the scanning functions return, having read nothing past the terminator: \<open>strlen\<close> gives the
  length, \<open>strchr\<close> the first and \<open>strrchr\<close> the last place of a byte, where the terminator itself can be found, and
  the null pointer for a byte that does not occur.\<close>

theorem string_scans:
  assumes "cstr m s xs"
  shows "nl_strlen m s = Some (length xs) \<and>
    (\<exists>r. nl_strchr m s (uint v) = Some r \<and> (if v \<in> set (xs @ [0]) then \<exists>i. r = s + i \<and> first_at v (xs @ [0]) i else r = 0)) \<and>
    (\<exists>r. nl_strrchr m s (uint v) = Some r \<and> (if v \<in> set (xs @ [0]) then \<exists>i. r = s + i \<and> last_at v (xs @ [0]) i else r = 0))"
  using strlen_ok [OF assms] strchr_ok [OF assms] strrchr_ok [OF assms] unfolding nl_strchr_def nl_strrchr_def word_of_int_uint by blast

theorem string_scans_witness:
  "\<exists>r. nl_strlen [1 \<mapsto> 97, 2 \<mapsto> 98, 3 \<mapsto> 0] 1 = Some 2 \<and> nl_strchr [1 \<mapsto> 97, 2 \<mapsto> 98, 3 \<mapsto> 0] 1 0 = Some r \<and>
    (\<exists>i. r = 1 + i \<and> first_at 0 [97, 98, 0] i)"
proof -
  have "cstr [1 \<mapsto> 97, 2 \<mapsto> 98, 3 \<mapsto> 0] 1 [97, 98]" by (simp add: cstr_simps)
  from string_scans [OF this, of 0]
  have "nl_strlen [1 \<mapsto> 97, 2 \<mapsto> 98, 3 \<mapsto> 0] 1 = Some 2"
    "\<exists>r. nl_strchr [1 \<mapsto> 97, 2 \<mapsto> 98, 3 \<mapsto> 0] 1 0 = Some r \<and> (\<exists>i. r = 1 + i \<and> first_at 0 [97, 98, 0] i)" by simp_all
  then show ?thesis by blast
qed

section \<open>Comparisons\<close>

text \<open>The order of strings: byte by byte, a proper prefix first.\<close>

abbreviation str_less :: "u8 list \<Rightarrow> u8 list \<Rightarrow> bool" where
  "str_less xs ys \<equiv> (xs, ys) \<in> lexord {(u, v). u < v}"

definition orders :: "int \<Rightarrow> u8 list \<Rightarrow> u8 list \<Rightarrow> bool" where
  "orders r xs ys \<longleftrightarrow> (r = 0 \<longleftrightarrow> xs = ys) \<and> (r < 0 \<longleftrightarrow> str_less xs ys) \<and> (r > 0 \<longleftrightarrow> str_less ys xs)"

lemma uint_diff: "uint (b :: u8) - uint c = 0 \<longleftrightarrow> b = c" "uint b - uint c < 0 \<longleftrightarrow> b < c" "uint b - uint c > 0 \<longleftrightarrow> c < b"
  by (auto simp: word_less_def word_uint_eq_iff)

lemma orders_refl: "orders 0 xs xs"
  by (auto simp: orders_def lexord_irreflexive)

lemma orders_head: "b \<noteq> c \<Longrightarrow> orders (uint b - uint c) (b # xs) (c # ys)"
  unfolding orders_def uint_diff by auto

lemma orders_Cons: "orders r (b # xs) (b # ys) \<longleftrightarrow> orders r xs ys"
  by (simp add: orders_def)

lemma orders_Nil:
  assumes "b \<noteq> 0"
  shows "orders (uint b) (b # xs) []" "orders (- uint b) [] (b # xs)"
proof -
  have "uint b > 0" using assms by (metis uint_0_iff uint_ge_0 order.order_iff_strict)
  then show "orders (uint b) (b # xs) []" "orders (- uint b) [] (b # xs)" by (simp_all add: orders_def)
qed

lemma strcmp_ok: "cstr m x xs \<Longrightarrow> cstr m y ys \<Longrightarrow> \<exists>r. nl_strcmp m x y = Some r \<and> orders r xs ys"
proof (induction xs arbitrary: x y ys)
  case Nil
  then show ?case
    by (subst nl_strcmp.simps, cases ys) (auto simp: cstr_simps ld_def orders_refl orders_Nil)
next
  case (Cons b xs)
  show ?case
  proof (cases ys)
    case Nil
    then show ?thesis using Cons.prems by (subst nl_strcmp.simps) (auto simp: cstr_simps ld_def orders_Nil)
  next
    case c: (Cons c zs)
    show ?thesis
    proof (cases "b = c")
      case True
      have "\<exists>r. nl_strcmp m (x + 1) (y + 1) = Some r \<and> orders r xs zs" using Cons.prems by (intro Cons.IH) (simp_all add: cstr_simps c)
      then show ?thesis using Cons.prems True by (subst nl_strcmp.simps) (auto simp: cstr_simps ld_def c orders_Cons)
    next
      case False
      then show ?thesis using Cons.prems by (subst nl_strcmp.simps) (auto simp: cstr_simps ld_def c orders_head)
    qed
  qed
qed

lemma memcmp_at:
  assumes "bytes_at m x xs" "bytes_at m y ys" "length ys = length xs" "i \<le> length xs"
  shows "\<exists>r. memcmp_loop m x y (length xs) i = Some r \<and> orders r (drop i xs) (drop i ys)"
  using assms(4)
proof (induction "length xs - i" arbitrary: i)
  case 0
  then show ?case using assms(3) by (subst memcmp_loop.simps) (simp add: orders_refl)
next
  case (Suc k)
  then have i: "i < length xs" by simp
  then have l: "ld m (x + i) = Some (xs ! i)" "ld m (y + i) = Some (ys ! i)" using assms by (simp_all add: ld_def bytes_at_def)
  have d: "drop i xs = xs ! i # drop (i + 1) xs" "drop i ys = ys ! i # drop (i + 1) ys" using i assms(3) by (simp_all add: Cons_nth_drop_Suc)
  show ?case
  proof (cases "xs ! i = ys ! i")
    case True
    then show ?thesis using Suc.hyps(1) [of "i + 1"] Suc.hyps(2) i l unfolding d by (subst memcmp_loop.simps) (simp add: orders_Cons)
  next
    case False
    then show ?thesis using i l unfolding d by (subst memcmp_loop.simps) (auto simp: orders_head)
  qed
qed

lemma memcmp_ok:
  "bytes_at m x xs \<Longrightarrow> bytes_at m y ys \<Longrightarrow> length ys = length xs \<Longrightarrow> \<exists>r. nl_memcmp m x y (length xs) = Some r \<and> orders r xs ys"
  using memcmp_at [of m x xs y ys 0] by (simp add: nl_memcmp_def)


lemma strncmp_at:
  "bytes_at m (x + i) (take (n - i) (xs @ [0])) \<Longrightarrow> bytes_at m (y + i) (take (n - i) (ys @ [0])) \<Longrightarrow> 0 \<notin> set xs \<Longrightarrow> 0 \<notin> set ys \<Longrightarrow>
    \<exists>r. strncmp_loop m x y n i = Some r \<and> orders r (take (n - i) xs) (take (n - i) ys)"
proof (induction xs arbitrary: i ys)
  case Nil
  show ?case
  proof (cases "n - i")
    case 0
    then show ?thesis by (subst strncmp_loop.simps) (simp add: orders_refl)
  next
    case (Suc k)
    then show ?thesis using Nil
      by (subst strncmp_loop.simps, cases ys) (auto simp: ld_def bytes_at_Cons orders_refl orders_Nil)
  qed
next
  case (Cons b xs)
  show ?case
  proof (cases "n - i")
    case 0
    then show ?thesis by (subst strncmp_loop.simps) (simp add: orders_refl)
  next
    case (Suc k)
    then have i: "i < n" and k: "k = n - (i + 1)" by simp_all
    have l: "ld m (x + i) = Some b" "b \<noteq> 0" using Cons.prems Suc by (auto simp: ld_def bytes_at_Cons)
    show ?thesis
    proof (cases ys)
      case Nil
      then have "ld m (y + i) = Some 0" using Cons.prems(2) Suc by (simp add: ld_def bytes_at_Cons)
      then show ?thesis using l i Suc Nil by (subst strncmp_loop.simps) (auto simp: orders_Nil)
    next
      case c: (Cons c zs)
      then have d: "ld m (y + i) = Some c" using Cons.prems(2) Suc by (simp add: ld_def bytes_at_Cons)
      show ?thesis
      proof (cases "b = c")
        case True
        have "\<exists>r. strncmp_loop m x y n (i + 1) = Some r \<and> orders r (take (n - (i + 1)) xs) (take (n - (i + 1)) zs)"
          using Cons.prems Suc by (intro Cons.IH) (simp_all add: bytes_at_Cons k c)
        then obtain r where "strncmp_loop m x y n (i + 1) = Some r" "orders r (take k xs) (take k zs)" unfolding k by blast
        then show ?thesis using l d i True Suc c by (subst strncmp_loop.simps) (simp add: orders_Cons)
      next
        case False
        then show ?thesis using l d i Suc c by (subst strncmp_loop.simps) (auto simp: orders_head)
      qed
    qed
  qed
qed

text \<open>The comparisons order strings as sequences of unsigned bytes with a proper prefix first, negative for less, positive for
  greater and zero only for equal contents: \<open>strcmp\<close> on terminated strings, \<open>memcmp\<close> on blocks of one length, \<open>strncmp\<close> on
  the first \<open>n\<close> bytes, which then need no terminator. All return and read no byte past the ends or the bound.\<close>

lemma comparisons_order:
  "(cstr m x xs \<and> cstr m y ys \<longrightarrow> (\<exists>r. nl_strcmp m x y = Some r \<and> orders r xs ys)) \<and>
   (bytes_at m x xs \<and> bytes_at m y ys \<and> length ys = length xs \<longrightarrow> (\<exists>r. nl_memcmp m x y (length xs) = Some r \<and> orders r xs ys)) \<and>
   (bytes_at m x (take n (xs @ [0])) \<and> bytes_at m y (take n (ys @ [0])) \<and> 0 \<notin> set xs \<and> 0 \<notin> set ys \<longrightarrow>
     (\<exists>r. nl_strncmp m x y n = Some r \<and> orders r (take n xs) (take n ys)))"
  using strcmp_ok [of m x xs y ys] memcmp_ok [of m x xs y ys] strncmp_at [of m x 0 n xs y ys] by (auto simp: nl_strncmp_def)

section \<open>Searching\<close>

definition occurs_at :: "u8 list \<Rightarrow> u8 list \<Rightarrow> nat \<Rightarrow> bool" where
  "occurs_at ys xs i \<longleftrightarrow> i + length ys \<le> length xs \<and> take (length ys) (drop i xs) = ys"

definition first_occurrence :: "u8 list \<Rightarrow> u8 list \<Rightarrow> nat \<Rightarrow> nat \<Rightarrow> bool" where
  "first_occurrence ys xs h r \<longleftrightarrow>
    (\<exists>i. r = h + i \<and> occurs_at ys xs i \<and> (\<forall>j < i. \<not> occurs_at ys xs j)) \<or> (r = 0 \<and> (\<forall>i. \<not> occurs_at ys xs i))"

lemma occurs_head:
  assumes "occurs_at ys xs i" "ys \<noteq> []"
  shows "xs ! i = ys ! 0"
proof -
  have "take (length ys) (drop i xs) ! 0 = ys ! 0" "0 < length ys" "i \<le> length xs" using assms by (auto simp: occurs_at_def)
  then show ?thesis by simp
qed

lemma memmem_at:
  assumes "bytes_at m h xs" "bytes_at m n ys" "ys \<noteq> []" "\<forall>j < i. \<not> occurs_at ys xs j"
  shows "\<exists>r. memmem_loop m h (length xs) n (length ys) i = Some r \<and> first_occurrence ys xs h r"
  using assms(4)
proof (induction "Suc (length xs) - i" arbitrary: i rule: less_induct)
  case less
  show ?case
  proof (cases "i + length ys \<le> length xs")
    case False
    then have "\<not> occurs_at ys xs j" for j using less.prems by (cases "j < i") (simp_all add: occurs_at_def)
    then show ?thesis using False by (subst memmem_loop.simps) (simp add: first_occurrence_def)
  next
    case True
    have i: "i < length xs" "0 < length ys" using True assms(3) by (cases ys; simp)+
    then have l: "ld m (h + i) = Some (xs ! i)" "ld m n = Some (ys ! 0)" using assms(1,2) by (auto simp: ld_def bytes_at_def dest: spec [of _ 0])
    have next_step: ?thesis if nu: "memmem_loop m h (length xs) n (length ys) i = memmem_loop m h (length xs) n (length ys) (i + 1)" "\<not> occurs_at ys xs i"
      unfolding nu(1) using less.prems nu(2) i by (intro less.hyps) (auto simp: less_Suc_eq)
    show ?thesis
    proof (cases "xs ! i = ys ! 0")
      case False
      then have "\<not> occurs_at ys xs i" using occurs_head [OF _ assms(3)] by blast
      then show ?thesis using l True False by (intro next_step) (subst memmem_loop.simps, simp)
    next
      case eq: True
      define zs where "zs = take (length ys) (drop i xs)"
      have "bytes_at m (h + i) zs" unfolding zs_def using assms(1) i by (intro bytes_at_take bytes_at_drop) simp_all
      moreover have z: "length zs = length ys" using True by (simp add: zs_def)
      ultimately obtain r where r: "nl_memcmp m (h + i) n (length ys) = Some r" "orders r zs ys" using memcmp_ok assms(2) by metis
      have o: "occurs_at ys xs i \<longleftrightarrow> r = 0" using r(2) True by (simp add: occurs_at_def zs_def [symmetric] orders_def)
      show ?thesis
      proof (cases "r = 0")
        case True
        then have "first_occurrence ys xs h (h + i)" using o less.prems by (auto simp: first_occurrence_def)
        then show ?thesis using l eq r(1) True \<open>i + length ys \<le> length xs\<close> by (subst memmem_loop.simps) simp
      next
        case False
        then show ?thesis using l eq r(1) o \<open>i + length ys \<le> length xs\<close> by (intro next_step) (subst memmem_loop.simps, simp_all)
      qed
    qed
  qed
qed

lemma occurs_nil: "first_occurrence [] xs h h"
  by (simp add: first_occurrence_def occurs_at_def)

lemma memmem_ok:
  assumes "bytes_at m h xs" "bytes_at m n ys"
  shows "\<exists>r. nl_memmem m h (length xs) n (length ys) = Some r \<and> first_occurrence ys xs h r"
proof -
  consider "ys = []" | "ys \<noteq> []" "length xs < length ys" | "ys \<noteq> []" "length ys \<le> length xs" by linarith
  then show ?thesis
  proof cases
    case 2
    then show ?thesis by (simp add: nl_memmem_def first_occurrence_def occurs_at_def)
  next
    case 3
    then show ?thesis using memmem_at [OF assms, of 0] by (simp add: nl_memmem_def)
  qed (simp add: nl_memmem_def occurs_nil)
qed

text \<open>Searching finds the first occurrence: \<open>memmem\<close> in a block and \<open>strstr\<close> in a terminated string return the lowest
  address at which the needle lies, the start for an empty needle, and the null pointer exactly when it occurs nowhere; they
  always return and never read past the end of either argument.\<close>

lemma search_first_occurrence:
  "(bytes_at m h xs \<and> bytes_at m n ys \<longrightarrow> (\<exists>r. nl_memmem m h (length xs) n (length ys) = Some r \<and> first_occurrence ys xs h r)) \<and>
   (cstr m h xs \<and> cstr m n ys \<longrightarrow> (\<exists>r. nl_strstr m h n = Some r \<and> first_occurrence ys xs h r))"
proof (intro conjI impI)
  show "\<exists>r. nl_memmem m h (length xs) n (length ys) = Some r \<and> first_occurrence ys xs h r" if "bytes_at m h xs \<and> bytes_at m n ys"
    using memmem_ok that by blast
  assume c: "cstr m h xs \<and> cstr m n ys"
  then have b: "bytes_at m h xs" "bytes_at m n ys" by (simp_all add: cstr_def bytes_at_append)
  have s: "nl_strlen m h = Some (length xs)" "nl_strlen m n = Some (length ys)" using c strlen_ok by blast+
  obtain r where r: "nl_memmem m h (length xs) n (length ys) = Some r" "first_occurrence ys xs h r" using memmem_ok [OF b] by blast
  then show "\<exists>r. nl_strstr m h n = Some r \<and> first_occurrence ys xs h r"
    using s by (cases "ys = []") (auto simp: nl_strstr_def nl_memmem_def)
qed

end
