(* ===== verification/NlNumProofs.thy ===== *)
theory NlNumProofs
  imports NlStrProofs
begin

text \<open>
  Bounded copies of strings, and reading back a printed number.
\<close>

section \<open>strncpy\<close>

lemma written_snoc: "(written m d xs)(d + length xs \<mapsto> b) = written m d (xs @ [b])"
  by (auto simp: written_def fun_eq_iff nth_append)

lemma written_nil [simp]: "written m d [] = m"
  by (auto simp: written_def fun_eq_iff)

lemma written_apart: "apart (d, n) (s, k) \<Longrightarrow> length xs \<le> n \<Longrightarrow> i < k \<Longrightarrow> written m d xs (s + i) = m (s + i)"
  by (auto simp: written_def apart_def)

lemma strncpy_copy_ok:
  assumes "0 \<notin> set xs" "bytes_at m s (take n (xs @ [0]))" "mapped m d n" "apart (d, n) (s, min n (length xs + 1))"
    and "i \<le> min n (length xs)"
  shows "strncpy_copy d s n i (written m d (take i xs)) = Some (min n (length xs), written m d (take n xs))"
  using assms(5)
proof (induction "min n (length xs) - i" arbitrary: i)
  case 0
  then have i: "i = min n (length xs)" by simp
  then have t: "take i xs = take n xs" by (cases "n \<le> length xs") (simp_all add: min_def)
  show ?case
  proof (cases "i < n")
    case True
    then have l: "i = length xs" using i by simp
    have "m (s + i) = Some 0" using assms(2) True l unfolding bytes_at_def by (auto dest: spec [of _ i] simp: nth_append)
    then have "ld (written m d (take i xs)) (s + i) = Some 0"
      using written_apart [OF assms(4), of "take i xs" i m] True l by (simp add: ld_def)
    then show ?thesis using True t i by (subst strncpy_copy.simps) simp
  next
    case False
    then show ?thesis using t i by (subst strncpy_copy.simps) simp
  qed
next
  case (Suc k)
  then have i: "i < n" "i < length xs" by simp_all
  have "m (s + i) = Some (xs ! i)" using assms(2) i unfolding bytes_at_def by (auto dest: spec [of _ i] simp: nth_append)
  then have l: "ld (written m d (take i xs)) (s + i) = Some (xs ! i)" "xs ! i \<noteq> 0"
    using written_apart [OF assms(4), of "take i xs" i m] i nth_mem [OF i(2)] assms(1) by (auto simp: ld_def simp del: nth_mem)
  have "m (d + i) \<noteq> None" using assms(3) i(1) by (simp add: mapped_def)
  then have "written m d (take i xs) (d + i) \<noteq> None" by (simp add: written_def)
  then have "st (written m d (take i xs)) (d + i) (xs ! i) = Some (written m d (take (i + 1) xs))"
    using written_snoc [of m d "take i xs" "xs ! i"] i by (simp add: st_def take_Suc_conv_app_nth)
  then show ?case using Suc i l by (subst strncpy_copy.simps) simp
qed

lemma set_up_zeros:
  assumes "mapped m d n" "length xs \<le> n"
  shows "set_up d v n (length xs) (written m d xs) = Some (written m d (xs @ replicate (n - length xs) v))"
  using assms(2)
proof (induction "n - length xs" arbitrary: xs)
  case 0
  then show ?case by (subst set_up.simps) simp
next
  case (Suc k)
  have "written m d xs (d + length xs) \<noteq> None" using assms(1) Suc by (auto simp: written_def mapped_def)
  then have "st (written m d xs) (d + length xs) v = Some (written m d (xs @ [v]))" by (simp add: st_def written_snoc)
  moreover have "replicate (n - length xs) v = v # replicate (n - length (xs @ [v])) v"
    using Suc.hyps(2) Suc.prems by (cases "n - length xs") (auto simp: replicate_app_Cons_same)
  moreover have "length xs < n" using Suc.hyps(2) by simp
  ultimately show ?case using Suc.hyps(1) [of "xs @ [v]"] Suc.hyps(2) by (subst set_up.simps) simp
qed

text \<open>\<open>strncpy\<close> writes exactly \<open>n\<close> bytes: the string cut at \<open>n\<close>, then zeros to the end, and reads no more than \<open>n\<close> bytes of a source
  that may then lack a terminator. \<open>strnlen\<close> never looks past its bound either, and answers the bound or the length.\<close>

lemma bounded_string_functions:
  assumes "0 \<notin> set xs" "bytes_at m s (take n (xs @ [0]))"
  shows "nl_strnlen m s n = Some (min n (length xs)) \<and>
    (mapped m d n \<and> apart (d, n) (s, min n (length xs + 1)) \<longrightarrow>
      nl_strncpy d s n m = Some (written m d (take n (xs @ replicate n 0))))"
proof (intro conjI impI)
  show "nl_strnlen m s n = Some (min n (length xs))" by (rule strnlen_ok [OF assms(2,1)])
  assume d: "mapped m d n \<and> apart (d, n) (s, min n (length xs + 1))"
  have "strncpy_copy d s n 0 m = Some (min n (length xs), written m d (take n xs))"
    using strncpy_copy_ok [OF assms, of d 0] d by simp
  moreover have "take n (xs @ replicate n 0) = take n xs @ replicate (n - length (take n xs)) (0 :: u8)" by (cases "n \<le> length xs") simp_all
  moreover have "length (take n xs) = min n (length xs)" by simp
  moreover have "set_up d 0 n (length (take n xs)) (written m d (take n xs)) = Some (written m d (take n xs @ replicate (n - length (take n xs)) 0))"
    using d by (intro set_up_zeros) simp_all
  ultimately show "nl_strncpy d s n m = Some (written m d (take n (xs @ replicate n 0)))"
    unfolding nl_strncpy_def by simp
qed

section \<open>atoll\<close>

fun dec :: "nat \<Rightarrow> u8 list" where
  "dec n = (if n < 10 then [word_of_nat (48 + n)] else dec (n div 10) @ [word_of_nat (48 + n mod 10)])"

declare dec.simps [simp del]

lemma digit_sint:
  assumes "d < 10"
  shows "sint (word_of_nat (48 + d) :: u8) = 48 + int d"
proof -
  have "d \<in> {0, 1, 2, 3, 4, 5, 6, 7, 8, 9}" using assms by auto
  then show ?thesis by (elim insertE) simp_all
qed

lemma digit_facts:
  assumes "d < 10"
  shows "is_digit (word_of_nat (48 + d))" "\<not> is_blank (word_of_nat (48 + d))" "word_of_nat (48 + d) \<noteq> (45 :: u8)" "word_of_nat (48 + d) \<noteq> (43 :: u8)"
proof -
  note s = digit_sint [OF assms]
  show "is_digit (word_of_nat (48 + d))" "\<not> is_blank (word_of_nat (48 + d))" using assms unfolding is_digit_def is_blank_def s by simp_all
  have d: "d \<in> {0, 1, 2, 3, 4, 5, 6, 7, 8, 9}" using assms by auto
  show "word_of_nat (48 + d) \<noteq> (45 :: u8)" using d by (elim insertE) simp_all
  show "word_of_nat (48 + d) \<noteq> (43 :: u8)" using d by (elim insertE) simp_all
qed


definition digit_step :: "u64 \<Rightarrow> u8 \<Rightarrow> u64" where
  "digit_step acc b = acc * 10 + word_of_int (sint b - 48)"

lemma digits_loop_ok:
  "\<forall>b \<in> set ds. is_digit b \<Longrightarrow> \<not> is_digit z \<Longrightarrow> bytes_at m s (ds @ [z]) \<Longrightarrow> digits_loop m acc s = Some (foldl digit_step acc ds)"
proof (induction ds arbitrary: s acc)
  case Nil
  then show ?case by (subst digits_loop.simps) (simp add: bytes_at_Cons ld_def)
next
  case (Cons b ds)
  have "digits_loop m (digit_step acc b) (s + 1) = Some (foldl digit_step (digit_step acc b) ds)"
    using Cons.prems by (intro Cons.IH) (simp_all add: bytes_at_Cons)
  then show ?case using Cons.prems by (subst digits_loop.simps, fold digit_step_def) (simp add: bytes_at_Cons ld_def)
qed

lemma dec_digits: "b \<in> set (dec n) \<Longrightarrow> is_digit b"
proof (induction n rule: dec.induct)
  case (1 n)
  show ?case
  proof (cases "n < 10")
    case True
    then show ?thesis using 1(2) digit_facts(1) [OF True] by (subst (asm) dec.simps) simp
  next
    case False
    then have "b \<in> set (dec (n div 10)) \<or> b = word_of_nat (48 + n mod 10)" using 1(2) by (subst (asm) dec.simps) auto
    then show ?thesis using 1(1) [OF False] digit_facts(1) [of "n mod 10"] by auto
  qed
qed

lemma dec_nonempty: "dec n \<noteq> []"
  by (subst dec.simps) simp

lemma dec_hd:
  "\<not> is_blank (hd (dec n)) \<and> hd (dec n) \<noteq> 45 \<and> hd (dec n) \<noteq> 43"
proof (induction n rule: dec.induct)
  case (1 n)
  show ?case
  proof (cases "n < 10")
    case True
    then show ?thesis using digit_facts [OF True] by (subst (1 2 3) dec.simps) simp
  next
    case False
    have "hd (dec n) = hd (dec (n div 10))" using False dec_nonempty [of "n div 10"] by (subst dec.simps) simp
    then show ?thesis using 1(1) [OF False] by simp
  qed
qed

lemma digit_step_dec: "foldl digit_step 0 (dec n) = word_of_nat n"
proof (induction n rule: dec.induct)
  case (1 n)
  show ?case
  proof (cases "n < 10")
    case True
    then show ?thesis using digit_sint [OF True] by (subst dec.simps) (simp add: digit_step_def)
  next
    case False
    have d: "word_of_int (sint (word_of_nat (48 + n mod 10) :: u8) - 48) = (word_of_nat (n mod 10) :: u64)"
      using digit_sint [of "n mod 10"] by simp
    have "foldl digit_step 0 (dec n) = word_of_nat (n div 10) * 10 + word_of_nat (n mod 10)"
    proof -
      have "foldl digit_step 0 (dec n) = digit_step (word_of_nat (n div 10)) (word_of_nat (48 + n mod 10))"
        using False 1(1) [OF False] by (subst dec.simps) simp
      then show ?thesis unfolding digit_step_def d .
    qed
    also have "\<dots> = word_of_nat (n div 10 * 10 + n mod 10)" by (simp only: of_nat_add of_nat_mult of_nat_numeral)
    finally show ?thesis unfolding div_mult_mod_eq .
  qed
qed

lemma skip_blanks_ok:
  "\<forall>b \<in> set bl. is_blank b \<Longrightarrow> \<not> is_blank z \<Longrightarrow> bytes_at m s (bl @ [z]) \<Longrightarrow> skip_blanks m s = Some (s + length bl)"
proof (induction bl arbitrary: s)
  case Nil
  then show ?case by (subst skip_blanks.simps) (simp add: bytes_at_Cons ld_def)
next
  case (Cons b bl)
  then show ?case by (subst skip_blanks.simps) (simp add: bytes_at_Cons ld_def)
qed

lemma sint_word_of_int_u64: "- (2 ^ 63) \<le> k \<Longrightarrow> k < 2 ^ 63 \<Longrightarrow> sint (word_of_int k :: u64) = k"
  by (simp add: sint_sbintrunc' signed_take_bit_int_eq_self)

text \<open>Reading a printed number gives it back: after any blanks, an optional sign and the decimal digits of a 64-bit signed number followed
  by any byte that is not a digit, \<open>atoll\<close> returns that number, the smallest one included, and reads no further than that byte.\<close>

lemma atoll_decimal:
  assumes "\<forall>b \<in> set bl. is_blank b" "\<not> is_digit z" "- (2 ^ 63) \<le> k" "k < 2 ^ 63"
    and "sg = (if k < 0 then [45] else if pl then [43] else [])"
    and "bytes_at m s (bl @ sg @ dec (nat \<bar>k\<bar>) @ [z])"
  shows "nl_atoll m s = Some k"
proof -
  define ds where "ds = dec (nat \<bar>k\<bar>)"
  define h where "h = hd (sg @ ds)"
  have ne: "ds \<noteq> []" "sg @ ds = h # tl (sg @ ds)" using dec_nonempty by (simp_all add: ds_def h_def)
  have bl: "sint (45 :: u8) = 45" "sint (43 :: u8) = 43" by simp_all
  have hb: "\<not> is_blank h" using dec_hd [of "nat \<bar>k\<bar>"] assms(5) bl by (auto simp: h_def ds_def is_blank_def)
  have parts: "bytes_at m s bl" "bytes_at m (s + length bl) (sg @ ds @ [z])"
    using assms(6) unfolding ds_def [symmetric] by (simp_all add: bytes_at_append)
  have hl: "m (s + length bl) = Some h" using parts(2) ne(2) by (metis append_Cons append_assoc bytes_at_Cons)
  then have sk: "skip_blanks m s = Some (s + length bl)"
    using parts(1) by (intro skip_blanks_ok [OF assms(1) hb]) (simp add: bytes_at_append bytes_at_Cons)
  have hs: "h = 45 \<or> h = 43 \<longleftrightarrow> sg \<noteq> []" "h = 45 \<longleftrightarrow> k < 0"
    using dec_hd [of "nat \<bar>k\<bar>"] assms(5) by (auto simp: h_def ds_def)
  have "(if h = 45 \<or> h = 43 then s + length bl + 1 else s + length bl) = s + length bl + length sg" using hs(1) assms(5) by (auto split: if_splits)
  moreover have "bytes_at m (s + length bl + length sg) (ds @ [z])" using parts(2) by (simp add: bytes_at_append)
  then have "digits_loop m 0 (s + length bl + length sg) = Some (word_of_nat (nat \<bar>k\<bar>))"
    using digits_loop_ok [of ds z m _ 0] assms(2) dec_digits digit_step_dec by (simp add: ds_def)
  ultimately have a: "nl_atoll m s = Some (sint (if k < 0 then - word_of_nat (nat \<bar>k\<bar>) else word_of_nat (nat \<bar>k\<bar>) :: u64))"
    using sk hl hs(2) by (simp add: nl_atoll_def ld_def Let_def)
  have "(if k < 0 then - word_of_nat (nat \<bar>k\<bar>) else word_of_nat (nat \<bar>k\<bar>) :: u64) = word_of_int k"
  proof (cases "k < 0")
    case True
    have "- word_of_nat (nat \<bar>k\<bar>) = (word_of_int (- int (nat \<bar>k\<bar>)) :: u64)" by (simp only: of_int_minus of_int_of_nat_eq)
    then show ?thesis using True by simp
  next
    case False
    have "word_of_nat (nat \<bar>k\<bar>) = (word_of_int (int (nat \<bar>k\<bar>)) :: u64)" by (simp only: of_int_of_nat_eq)
    then show ?thesis using False by simp
  qed
  then show ?thesis using a sint_word_of_int_u64 [OF assms(3,4)] by simp
qed

end
