(* ===== verification/NlMalloc.thy ===== *)
theory NlMalloc
  imports PageAlloc NlStrProofs
begin

text \<open>
  The freestanding allocator (unikernel/nolibc/malloc.c) over a source of pages, and the guest's source of
  pages (nl_map and nl_unmap of unikernel/boot/platform_x86.c) over the page allocator. Memory
  is total here; the header words of a block, and the link a free block keeps in its first word, are little-endian
  words in it. \<open>MP\<close> and \<open>UM\<close> are the two operations of the page source and \<open>os\<close> its state. \<open>memcpy\<close> and
  \<open>memset\<close> are used by their meaning, which string.c's functions have.
\<close>

section \<open>Pages\<close>

definition nl_map :: "u64 \<Rightarrow> pa_state \<Rightarrow> u64 \<times> pa_state" where
  "nl_map len s = pa_alloc len s"

definition nl_unmap :: "u64 \<Rightarrow> u64 \<Rightarrow> pa_state \<Rightarrow> int \<times> pa_state" where
  "nl_unmap p len s = (if \<not> pa_owns p len s then (0, s) else (0, snd (pa_free p len s)))"

section \<open>State\<close>

record 's nlh =
  nmem :: mem
  free_list :: "nat \<Rightarrow> nat"
  arena_p :: nat
  arena_left :: nat
  os :: 's

definition NL_ARENA :: nat where "NL_ARENA = 2 ^ 20"
definition NL_CLASSES :: nat where "NL_CLASSES = 9"
definition NL_BIG :: nat where "NL_BIG = 2 ^ 64 - 1"
definition HEAD :: nat where "HEAD = 16"

definition rd64 :: "mem \<Rightarrow> nat \<Rightarrow> nat" where
  "rd64 m a = le_nat (map m [a..<a + 8])"

definition wr64 :: "nat \<Rightarrow> nat \<Rightarrow> mem \<Rightarrow> mem" where
  "wr64 a x m = (\<lambda>b. if a \<le> b \<and> b < a + 8 then le_bytes 8 x ! (b - a) else m b)"

definition set_head :: "nat \<Rightarrow> nat \<Rightarrow> nat \<Rightarrow> mem \<Rightarrow> mem" where
  "set_head h sz kind m = wr64 (h + 8) kind (wr64 h sz m)"

section \<open>Operations\<close>

fun class_loop :: "nat \<Rightarrow> nat \<Rightarrow> nat \<Rightarrow> nat \<Rightarrow> nat" where
  "class_loop 0 c sz n = c"
| "class_loop (Suc left) c sz n = (if sz < n then class_loop left (c + 1) (sz * 2) n else c)"

text \<open>Nine rounds at most; running out of classes is the source's -1.\<close>

definition nl_class_of :: "nat \<Rightarrow> nat option" where
  "nl_class_of n = (let c = class_loop NL_CLASSES 0 32 n in if c < NL_CLASSES then Some c else None)"

definition nl_class_size :: "nat \<Rightarrow> nat" where "nl_class_size c = 32 * 2 ^ c"

type_synonym 's mapper = "u64 \<Rightarrow> 's \<Rightarrow> u64 \<times> 's"
type_synonym 's unmapper = "u64 \<Rightarrow> u64 \<Rightarrow> 's \<Rightarrow> int \<times> 's"

definition nl_carve :: "'s mapper \<Rightarrow> nat \<Rightarrow> 's nlh \<Rightarrow> nat \<times> 's nlh" where
  "nl_carve MP bytes s =
    (let take_out = (\<lambda>s. (arena_p s, s\<lparr>arena_p := arena_p s + bytes, arena_left := arena_left s - bytes\<rparr>)) in
     if arena_left s < bytes
     then let want = (if bytes > NL_ARENA then bytes else NL_ARENA); (p, o1) = MP (word_of_nat want) (os s) in
       if p = 0 then (0, s\<lparr>os := o1\<rparr>)
       else take_out (s\<lparr>os := o1, arena_p := unat p, arena_left := want\<rparr>)
     else take_out s)"

definition nl_malloc :: "'s mapper \<Rightarrow> u64 \<Rightarrow> 's nlh \<Rightarrow> nat \<times> 's nlh" where
  "nl_malloc MP n0 s =
    (let n = (if n0 = 0 then 1 else n0) in
     if n > - 1 - 16 - 4095 then (0, s)
     else case nl_class_of (unat (n + 16)) of
       None \<Rightarrow>
         let total = (n + 16 + 4095) AND NOT 4095; (p, o1) = MP total (os s) in
         if p = 0 then (0, s\<lparr>os := o1\<rparr>)
         else (unat p + HEAD, s\<lparr>os := o1, nmem := set_head (unat p) (unat (total - 16)) NL_BIG (nmem s)\<rparr>)
     | Some c \<Rightarrow>
         if free_list s c \<noteq> 0
         then let p = free_list s c in
           (p + HEAD, s\<lparr>free_list := (free_list s)(c := rd64 (nmem s) p),
                        nmem := set_head p (nl_class_size c - HEAD) c (nmem s)\<rparr>)
         else let (h, s1) = nl_carve MP (nl_class_size c) s in
           if h = 0 then (0, s1)
           else (h + HEAD, s1\<lparr>nmem := set_head h (nl_class_size c - HEAD) c (nmem s1)\<rparr>))"

definition nl_free :: "'s unmapper \<Rightarrow> nat \<Rightarrow> 's nlh \<Rightarrow> 's nlh" where
  "nl_free UM p s =
    (if p = 0 then s
     else let h = p - HEAD; sz = rd64 (nmem s) h; kind = rd64 (nmem s) (h + 8) in
       if kind = NL_BIG then s\<lparr>os := snd (UM (word_of_nat h) (word_of_nat (sz + HEAD)) (os s))\<rparr>
       else s\<lparr>nmem := wr64 h (free_list s kind) (nmem s), free_list := (free_list s)(kind := h)\<rparr>)"

definition malloc_usable_size :: "nat \<Rightarrow> 's nlh \<Rightarrow> nat" where
  "malloc_usable_size p s = (if p = 0 then 0 else rd64 (nmem s) (p - HEAD))"

definition nl_calloc :: "'s mapper \<Rightarrow> u64 \<Rightarrow> u64 \<Rightarrow> 's nlh \<Rightarrow> nat \<times> 's nlh" where
  "nl_calloc MP n sz s =
    (if n \<noteq> 0 \<and> sz \<noteq> 0 \<and> n > - 1 div sz then (0, s)
     else let total = n * sz; (p, s1) = nl_malloc MP total s in
       if p = 0 then (p, s1)
       else (p, s1\<lparr>nmem := (\<lambda>a. if p \<le> a \<and> a < p + unat total then 0 else nmem s1 a)\<rparr>))"

definition nl_realloc :: "'s mapper \<Rightarrow> 's unmapper \<Rightarrow> nat \<Rightarrow> u64 \<Rightarrow> 's nlh \<Rightarrow> nat \<times> 's nlh" where
  "nl_realloc MP UM p n s =
    (if p = 0 then nl_malloc MP n s
     else if n = 0 then (0, nl_free UM p s)
     else let old = rd64 (nmem s) (p - HEAD) in
       if unat n \<le> old then (p, s)
       else let (q, s1) = nl_malloc MP n s in
         if q = 0 then (0, s1)
         else (q, nl_free UM p (s1\<lparr>nmem := (\<lambda>a. if q \<le> a \<and> a < q + old then nmem s1 (p + (a - q)) else nmem s1 a)\<rparr>)))"

definition nl_strdup :: "'s mapper \<Rightarrow> nat \<Rightarrow> 's nlh \<Rightarrow> (nat \<times> 's nlh) option" where
  "nl_strdup MP a s =
    (case nl_strlen (\<lambda>x. Some (nmem s x)) a of
       None \<Rightarrow> None
     | Some l \<Rightarrow>
         let (p, s1) = nl_malloc MP (word_of_nat (l + 1)) s in
         Some (if p = 0 then (p, s1)
               else (p, s1\<lparr>nmem := (\<lambda>b. if p \<le> b \<and> b < p + (l + 1) then nmem s1 (a + (b - p)) else nmem s1 b)\<rparr>)))"

end
