(* ===== verification/NlMallocInv.thy ===== *)
theory NlMallocInv
  imports NlMalloc "HOL-Library.Multiset"
begin

text \<open>
  What the allocator keeps of its arenas: live blocks, free blocks and the rest of the arena share no byte, lie in
  pages the allocator holds, and the free lists link exactly the free blocks of their class. The locale
  states what the allocator needs of its source of pages; the guest's page allocator provides it.
\<close>

section \<open>Words in memory\<close>

lemma le_bytes_length [simp]: "length (le_bytes k x) = k"
  by (induction k arbitrary: x) simp_all

lemma le_nat_bytes: "le_nat (le_bytes k x) = x mod 256 ^ k"
proof (induction k arbitrary: x)
  case (Suc k)
  have "x mod 256 + 256 * (x div 256 mod 256 ^ k) = x mod (256 * 256 ^ k)" by (simp add: mod_mult2_eq)
  then show ?case using Suc by (simp add: unat_of_nat)
qed simp

lemma rd_wr_same [simp]:
  assumes "x < 2 ^ 64"
  shows "rd64 (wr64 a x m) a = x"
proof -
  have "map (wr64 a x m) [a..<a + 8] = le_bytes 8 x"
    by (rule nth_equalityI) (simp_all add: wr64_def)
  then show ?thesis using assms by (simp add: rd64_def le_nat_bytes)
qed

lemma rd_cong: "(\<And>b. a \<le> b \<Longrightarrow> b < a + 8 \<Longrightarrow> m b = m' b) \<Longrightarrow> rd64 m a = rd64 m' a"
  unfolding rd64_def by (rule arg_cong [of _ _ le_nat]) (simp add: map_eq_conv)

lemma wr_other: "b < a \<or> a + 8 \<le> b \<Longrightarrow> wr64 a x m b = m b"
  by (auto simp: wr64_def)

lemma rd_wr_other: "a + 8 \<le> b \<or> b + 8 \<le> a \<Longrightarrow> rd64 (wr64 a x m) b = rd64 m b"
  by (rule rd_cong) (auto simp: wr64_def)

lemma set_head_rd: "sz < 2 ^ 64 \<Longrightarrow> k < 2 ^ 64 \<Longrightarrow> rd64 (set_head h sz k m) h = sz \<and> rd64 (set_head h sz k m) (h + 8) = k"
  by (simp add: set_head_def rd_wr_other)

lemma set_head_other: "b < h \<or> h + 16 \<le> b \<Longrightarrow> set_head h sz k m b = m b"
  by (auto simp: set_head_def wr64_def)

section \<open>Disjoint spans\<close>

lemma apart_list_perm: "mset xs = mset ys \<Longrightarrow> sorted_wrt apart xs \<Longrightarrow> sorted_wrt apart ys"
proof (induction xs arbitrary: ys)
  case (Cons x xs)
  then obtain P Q where q: "ys = P @ x # Q" by (metis list.set_intros(1) set_mset_mset split_list)
  then have m: "mset xs = mset (P @ Q)" using Cons.prems(1) by simp
  then have "set xs = set P \<union> set Q" by (metis set_append set_mset_mset)
  then have "\<forall>y \<in> set P \<union> set Q. apart x y" using Cons.prems(2) by simp
  moreover have "sorted_wrt apart (P @ Q)" using Cons m by simp
  ultimately show ?case unfolding q by (auto simp: sorted_wrt_append intro: apart_sym)
qed simp

lemma apart_list_sub:
  assumes "mset xs \<subseteq># mset ys" "sorted_wrt apart ys"
  shows "sorted_wrt apart xs"
proof -
  obtain zs where "mset ys = mset (xs @ zs)" using assms(1) by (metis ex_mset mset_append mset_subset_eq_exists_conv)
  then have "sorted_wrt apart (xs @ zs)" using apart_list_perm assms(2) by metis
  then show ?thesis by (simp add: sorted_wrt_append)
qed

definition within :: "span \<Rightarrow> span \<Rightarrow> bool" where
  "within x r \<longleftrightarrow> fst r \<le> fst x \<and> fst x + snd x \<le> fst r + snd r"

lemma within_apart: "within x r \<Longrightarrow> apart r y \<Longrightarrow> apart x y"
  by (auto simp: within_def apart_def)

lemma within_trans: "within x y \<Longrightarrow> within y z \<Longrightarrow> within x z"
  by (auto simp: within_def)

section \<open>The source of pages\<close>

locale page_source =
  fixes MP :: "'s mapper" and UM :: "'s unmapper" and held :: "'s \<Rightarrow> span list \<Rightarrow> bool"
  assumes held_ok: "held s L \<Longrightarrow> sorted_wrt apart L \<and> (\<forall>x \<in> set L. 0 < fst x \<and> 4096 dvd fst x \<and> fst x + snd x < 2 ^ 64)"
    and map_new: "held s L \<Longrightarrow> MP n s = (p, s') \<Longrightarrow> held s' (if p = 0 then L else (unat p, unat (pa_round n)) # L)"
    and unmap_gives: "held s L \<Longrightarrow> (unat p, unat (pa_round n)) \<in> set L \<Longrightarrow> UM p n s = (rc, s') \<Longrightarrow> held s' (remove1 (unat p, unat (pa_round n)) L)"

text \<open>Blocks of a class as spans; small live blocks \<open>S\<close> and free blocks \<open>F\<close> carry their class, big ones their length.\<close>

definition bspan :: "nat \<times> nat \<Rightarrow> span" where
  "bspan x = (fst x, nl_class_size (snd x))"

definition chain_of_class :: "(nat \<times> nat) list \<Rightarrow> nat \<Rightarrow> nat list" where
  "chain_of_class F c = map fst (filter (\<lambda>x. snd x = c) F)"

fun linked :: "mem \<Rightarrow> nat \<Rightarrow> nat list \<Rightarrow> bool" where
  "linked m p [] \<longleftrightarrow> p = 0"
| "linked m p (h # hs) \<longleftrightarrow> p = h \<and> linked m (rd64 m h) hs"

definition pieces :: "(nat \<times> nat) list \<Rightarrow> (nat \<times> nat) list \<Rightarrow> 's nlh \<Rightarrow> span list" where
  "pieces S F s = (arena_p s, arena_left s) # map bspan (S @ F)"

definition headed :: "mem \<Rightarrow> (nat \<times> nat) list \<Rightarrow> span list \<Rightarrow> bool" where
  "headed m S Bg \<longleftrightarrow>
    (\<forall>x \<in> set S. rd64 m (fst x) = nl_class_size (snd x) - HEAD \<and> rd64 m (fst x + 8) = snd x) \<and>
    (\<forall>x \<in> set Bg. rd64 m (fst x) = snd x - HEAD \<and> rd64 m (fst x + 8) = NL_BIG \<and> HEAD < snd x \<and> 4096 dvd snd x)"

definition nl_inv :: "('s \<Rightarrow> span list \<Rightarrow> bool) \<Rightarrow> 's nlh \<Rightarrow> (nat \<times> nat) list \<Rightarrow> span list \<Rightarrow> (nat \<times> nat) list \<Rightarrow> span list \<Rightarrow> span list \<Rightarrow> bool" where
  "nl_inv held s S Bg F Ar L \<longleftrightarrow>
    held (os s) L \<and> mset (Ar @ Bg) \<subseteq># mset L \<and> sorted_wrt apart (pieces S F s) \<and>
    (\<forall>x \<in> set (pieces S F s). snd x \<noteq> 0 \<longrightarrow> (\<exists>r \<in> set Ar. within x r)) \<and>
    (\<forall>x \<in> set (S @ F). snd x < NL_CLASSES \<and> 16 dvd fst x) \<and> 16 dvd arena_p s \<and>
    (\<forall>c < NL_CLASSES. linked (nmem s) (free_list s c) (chain_of_class F c)) \<and>
    headed (nmem s) S Bg"

definition nl_ok :: "('s \<Rightarrow> span list \<Rightarrow> bool) \<Rightarrow> 's nlh \<Rightarrow> (nat \<times> nat) list \<Rightarrow> span list \<Rightarrow> bool" where
  "nl_ok held s S Bg \<longleftrightarrow> (\<exists>F Ar L. nl_inv held s S Bg F Ar L)"

lemma nl_invD:
  assumes "nl_inv held s S Bg F Ar L"
  shows "held (os s) L" "mset (Ar @ Bg) \<subseteq># mset L" "sorted_wrt apart (pieces S F s)"
    "x \<in> set (pieces S F s) \<Longrightarrow> snd x \<noteq> 0 \<Longrightarrow> \<exists>r \<in> set Ar. within x r"
    "y \<in> set (S @ F) \<Longrightarrow> snd y < NL_CLASSES" "y \<in> set (S @ F) \<Longrightarrow> 16 dvd fst y" "16 dvd arena_p s"
    "c < NL_CLASSES \<Longrightarrow> linked (nmem s) (free_list s c) (chain_of_class F c)" "headed (nmem s) S Bg"
  using assms unfolding nl_inv_def by blast+


section \<open>Frames\<close>

lemma class_size:
  assumes "c < NL_CLASSES"
  shows "32 \<le> nl_class_size c" "nl_class_size c \<le> 8192" "16 dvd nl_class_size c" "c < 2 ^ 64"
proof -
  have "2 ^ c \<le> (2 :: nat) ^ 8" using assms by (intro power_increasing) (simp_all add: NL_CLASSES_def)
  then show "nl_class_size c \<le> 8192" by (simp add: nl_class_size_def)
  show "32 \<le> nl_class_size c" "16 dvd nl_class_size c" by (simp_all add: nl_class_size_def)
  show "c < 2 ^ 64" using assms by (simp add: NL_CLASSES_def)
qed

definition same_outside :: "nat \<Rightarrow> mem \<Rightarrow> mem \<Rightarrow> bool" where
  "same_outside h m m' \<longleftrightarrow> (\<forall>b. b < h \<or> h + 16 \<le> b \<longrightarrow> m' b = m b)"

lemma same_outside_head: "same_outside h m (set_head h sz k m)"
  by (simp add: same_outside_def set_head_other)

lemma same_outside_link: "same_outside h m (wr64 h x m)"
  by (auto simp: same_outside_def wr_other)

lemma same_rd:
  assumes "same_outside h m m'" "apart (h, k) (a, n)" "16 \<le> k" "i + 8 \<le> n"
  shows "rd64 m' (a + i) = rd64 m (a + i)"
  using assms by (intro rd_cong) (auto simp: same_outside_def apart_def)

lemma headed_frame:
  assumes "same_outside h m m'" "16 \<le> k" "\<forall>x \<in> set S. snd x < NL_CLASSES \<and> apart (h, k) (bspan x)" "\<forall>x \<in> set Bg. apart (h, k) x" "headed m S Bg"
  shows "headed m' S Bg"
  unfolding headed_def
proof (intro conjI ballI)
  fix x assume x: "x \<in> set S"
  have a: "apart (h, k) (fst x, nl_class_size (snd x))" "32 \<le> nl_class_size (snd x)"
    using assms(3) x class_size(1) by (auto simp: bspan_def)
  have "rd64 m' (fst x + 0) = rd64 m (fst x + 0)" "rd64 m' (fst x + 8) = rd64 m (fst x + 8)"
    using a(2) by (intro same_rd [OF assms(1) a(1) assms(2)], simp)+
  then show "rd64 m' (fst x) = nl_class_size (snd x) - HEAD" "rd64 m' (fst x + 8) = snd x"
    using assms(5) x by (simp_all add: headed_def)
next
  fix x assume x: "x \<in> set Bg"
  have a: "apart (h, k) (fst x, snd x)" "16 < snd x" using assms(4,5) x by (auto simp: headed_def HEAD_def)
  have "rd64 m' (fst x + 0) = rd64 m (fst x + 0)" "rd64 m' (fst x + 8) = rd64 m (fst x + 8)"
    using a(2) by (intro same_rd [OF assms(1) a(1) assms(2)], simp)+
  then show "rd64 m' (fst x) = snd x - HEAD" "rd64 m' (fst x + 8) = NL_BIG" "HEAD < snd x" "4096 dvd snd x"
    using assms(5) x by (simp_all add: headed_def)
qed

lemma linked_frame:
  assumes "same_outside h m m'" "16 \<le> k" "\<forall>x \<in> set F. snd x < NL_CLASSES \<and> apart (h, k) (bspan x)"
  shows "linked m' p (chain_of_class F c) \<longleftrightarrow> linked m p (chain_of_class F c)"
  using assms(3)
proof (induction F arbitrary: p)
  case (Cons x F)
  have a: "apart (h, k) (fst x, nl_class_size (snd x))" "32 \<le> nl_class_size (snd x)"
    using Cons.prems class_size(1) by (auto simp: bspan_def)
  have "rd64 m' (fst x + 0) = rd64 m (fst x + 0)" using same_rd [OF assms(1) a(1) assms(2), of 0] a(2) by simp
  then show ?case using Cons by (simp add: chain_of_class_def)
qed (simp add: chain_of_class_def)

lemma chain_remove:
  assumes "chain_of_class F c = p # rest"
  shows "(p, c) \<in> set F" "chain_of_class (remove1 (p, c) F) c = rest"
    "c' \<noteq> c \<Longrightarrow> chain_of_class (remove1 (p, c) F) c' = chain_of_class F c'"
proof -
  show "(p, c) \<in> set F" using assms unfolding chain_of_class_def
    by (auto simp: map_eq_Cons_conv filter_eq_Cons_iff)
  show "chain_of_class (remove1 (p, c) F) c = rest" using assms
    by (induction F) (auto simp: chain_of_class_def split: if_splits)
  show "c' \<noteq> c \<Longrightarrow> chain_of_class (remove1 (p, c) F) c' = chain_of_class F c'"
    by (induction F) (auto simp: chain_of_class_def)
qed

section \<open>Requests\<close>

lemma class_loop_spec:
  "sz = 32 * 2 ^ c \<Longrightarrow> class_loop k c sz n < c + k \<Longrightarrow> n \<le> 32 * 2 ^ class_loop k c sz n"
proof (induction k arbitrary: c sz)
  case (Suc k)
  show ?case
  proof (cases "sz < n")
    case True
    then show ?thesis using Suc.IH [of "sz * 2" "c + 1"] Suc.prems by simp
  next
    case False
    then show ?thesis using Suc.prems by simp
  qed
qed simp

lemma nl_class_of_fits:
  assumes "nl_class_of n = Some c"
  shows "c < NL_CLASSES" "n \<le> nl_class_size c"
  using assms class_loop_spec [of 32 0 NL_CLASSES n] by (auto simp: nl_class_of_def nl_class_size_def Let_def split: if_splits)

lemma big_total:
  fixes n :: u64
  assumes "\<not> n > - 1 - 16 - 4095"
  shows "unat (n + 16) = unat n + 16" "unat ((n + 16 + 4095) AND NOT 4095) = (unat n + 4111) div 4096 * 4096"
proof -
  have b: "unat n + 4111 < 2 ^ 64" using assms by (simp add: word_less_nat_alt not_less) 
  show "unat (n + 16) = unat n + 16" using b by (simp add: unat_add_no_wrap)
  have "unat (n + 16 + 4095) = unat n + 4111" using b by (simp add: unat_add_no_wrap)
  moreover have "(4095 :: u64) = mask 12" by (simp add: mask_eq_exp_minus_1)
  ultimately show "unat ((n + 16 + 4095) AND NOT 4095) = (unat n + 4111) div 4096 * 4096" using unat_and_not_mask [of "n + 16 + 4095" 12] by simp
qed

lemma pa_round_multiple:
  assumes "unat (x :: u64) = k * 4096"
  shows "unat (pa_round x) = unat x"
proof -
  have "unat x < 2 ^ 64" using u64_bound [of x] by simp
  then have "k < 2 ^ 52" using assms by simp
  then have "k * 4096 + 4095 < 2 ^ 64" by simp
  then have "(k * 4096 + 4095) mod 2 ^ 64 = k * 4096 + 4095" by simp
  then show ?thesis unfolding unat_pa_round assms by simp
qed

end
