(* ===== verification/NlMallocProofs.thy ===== *)
theory NlMallocProofs
  imports NlMallocInv
begin

text \<open>
  The operations of the allocator keep its invariant, over any source of pages and over the guest's.
\<close>

section \<open>Pieces\<close>

lemma piece_apart_big:
  assumes "sorted_wrt apart L" "mset (Ar @ Bg) \<subseteq># mset L" "r \<in> set Ar" "within x r" "b \<in> set Bg"
  shows "apart x b"
proof -
  have "sorted_wrt apart (Ar @ Bg)" by (rule apart_list_sub [OF assms(2,1)])
  then have "apart r b" using assms(3,5) by (simp add: sorted_wrt_append)
  then show ?thesis by (rule within_apart [OF assms(4)])
qed

lemma mset_pieces: "mset (pieces S F s) = add_mset (arena_p s, arena_left s) (image_mset bspan (mset S + mset F))"
  by (simp add: pieces_def)

text \<open>The blocks in use as spans: small ones by their class, big ones by their mapping.\<close>

definition live_spans :: "(nat \<times> nat) list \<Rightarrow> span list \<Rightarrow> span list" where
  "live_spans S Bg = map bspan S @ Bg"

text \<open>A new block \<open>(h, k)\<close> of the state \<open>s'\<close>, and what the rest of memory kept.\<close>

definition new_block :: "nat \<Rightarrow> nat \<Rightarrow> (nat \<times> nat) list \<Rightarrow> span list \<Rightarrow> mem \<Rightarrow> 's nlh \<Rightarrow> bool" where
  "new_block h k S Bg m s' \<longleftrightarrow>
    0 < h \<and> 16 dvd h \<and> rd64 (nmem s') h = k - HEAD \<and> (\<forall>x \<in> set (live_spans S Bg). apart (h, k) x) \<and> same_outside h m (nmem s')"

lemma page_dvd_16: "4096 dvd x \<Longrightarrow> 16 dvd (x :: nat)"
  by (rule dvd_trans [of 16 4096]) simp_all

context page_source
begin

lemma inv_spans:
  assumes i: "nl_inv held s S Bg F Ar L"
  shows "sorted_wrt apart L" "\<And>x. x \<in> set L \<Longrightarrow> 0 < fst x \<and> 4096 dvd fst x \<and> fst x + snd x < 2 ^ 64" "sorted_wrt apart (Ar @ Bg)" "set Ar \<subseteq> set L" "set Bg \<subseteq> set L"
proof -
  show L: "sorted_wrt apart L" "\<And>x. x \<in> set L \<Longrightarrow> 0 < fst x \<and> 4096 dvd fst x \<and> fst x + snd x < 2 ^ 64" using held_ok [OF nl_invD(1) [OF i]] by blast+
  show "sorted_wrt apart (Ar @ Bg)" by (rule apart_list_sub [OF nl_invD(2) [OF i] L(1)])
  have "set_mset (mset (Ar @ Bg)) \<subseteq> set_mset (mset L)" by (rule set_mset_mono [OF nl_invD(2) [OF i]])
  then show "set Ar \<subseteq> set L" "set Bg \<subseteq> set L" by simp_all
qed

lemma block_bounds:
  assumes i: "nl_inv held s S Bg F Ar L" and x: "x \<in> set (S @ F)"
  shows "0 < fst x" "fst x < 2 ^ 64" "\<exists>r \<in> set Ar. within (bspan x) r" "\<And>b. b \<in> set Bg \<Longrightarrow> apart (bspan x) b"
proof -
  have c: "snd x < NL_CLASSES" by (rule nl_invD(5) [OF i x])
  have p: "bspan x \<in> set (pieces S F s)" using x by (auto simp: pieces_def)
  have "snd (bspan x) \<noteq> 0" using class_size(1) [OF c] by (simp add: bspan_def)
  then obtain r where r: "r \<in> set Ar" "within (bspan x) r" using nl_invD(4) [OF i p] by blast
  then show "\<exists>r \<in> set Ar. within (bspan x) r" by blast
  have "r \<in> set L" using r(1) inv_spans(4) [OF i] by blast
  then show "0 < fst x" "fst x < 2 ^ 64" using inv_spans(2) [OF i, of r] r(2) by (auto simp: within_def bspan_def)
  show "apart (bspan x) b" if "b \<in> set Bg" for b by (rule piece_apart_big [OF inv_spans(1) [OF i] nl_invD(2) [OF i] r that])
qed

text \<open>Everything else is apart from one block of a class.\<close>

lemma others_apart:
  assumes i: "nl_inv held s S Bg F Ar L" and m: "mset (S @ F) = add_mset x (mset R)"
  shows "\<forall>y \<in> set R. snd y < NL_CLASSES \<and> apart (bspan x) (bspan y)" "\<forall>b \<in> set Bg. apart (bspan x) b"
    "apart (bspan x) (arena_p s, arena_left s)"
proof -
  have x: "x \<in> set (S @ F)" "set R \<subseteq> set (S @ F)" by (metis m set_mset_mset union_single_eq_member, metis m set_mset_mset set_mset_add_mset_insert subset_insertI)
  have "mset (pieces S F s) = mset (bspan x # (arena_p s, arena_left s) # map bspan R)"
    unfolding mset_pieces using m by simp
  then have "sorted_wrt apart (bspan x # (arena_p s, arena_left s) # map bspan R)"
    using nl_invD(3) [OF i] by (rule apart_list_perm)
  then show "\<forall>y \<in> set R. snd y < NL_CLASSES \<and> apart (bspan x) (bspan y)" "apart (bspan x) (arena_p s, arena_left s)"
    using nl_invD(5) [OF i] x(2) by auto
  show "\<forall>b \<in> set Bg. apart (bspan x) b" using block_bounds(4) [OF i x(1)] by blast
qed

section \<open>Allocating\<close>

lemma pop_inv:
  assumes i: "nl_inv held s S Bg F Ar L" and c: "c < NL_CLASSES" and p: "free_list s c = p" "p \<noteq> 0"
  defines "s' \<equiv> s\<lparr>free_list := (free_list s)(c := rd64 (nmem s) p), nmem := set_head p (nl_class_size c - HEAD) c (nmem s)\<rparr>"
  shows "nl_inv held s' ((p, c) # S) Bg (remove1 (p, c) F) Ar L \<and> (p, c) \<in> set F"
proof -
  obtain rest where ch: "chain_of_class F c = p # rest" "linked (nmem s) (rd64 (nmem s) p) rest"
    using nl_invD(8) [OF i c] p by (cases "chain_of_class F c") auto
  note cr = chain_remove [OF ch(1)]
  define F' where "F' = remove1 (p, c) F"
  have mF: "mset F = add_mset (p, c) (mset F')" using cr(1) by (simp add: F'_def)
  have m: "mset (S @ F) = add_mset (p, c) (mset (S @ F'))" using mF by simp
  have sub: "set (S @ F') \<subseteq> set (S @ F)" using set_remove1_subset by (fastforce simp: F'_def)
  note o = others_apart [OF i m]
  have so: "same_outside p (nmem s) (nmem s')" by (simp add: s'_def same_outside_head)
  have bs: "bspan (p, c) = (p, nl_class_size c)" by (simp add: bspan_def)
  have k: "16 \<le> nl_class_size c" using class_size(1) [OF c] by simp
  have hd: "headed (nmem s') S Bg"
    using o nl_invD(9) [OF i] unfolding bs by (intro headed_frame [OF so k]) auto
  have sz: "nl_class_size c - HEAD < 2 ^ 64" using class_size(2) [OF c] by simp
  have hd': "headed (nmem s') ((p, c) # S) Bg"
    using hd set_head_rd [OF sz class_size(4) [OF c], of p "nmem s"] by (simp add: headed_def s'_def)
  have ln: "linked (nmem s') q (chain_of_class F' d) \<longleftrightarrow> linked (nmem s) q (chain_of_class F' d)" for q d
    using o unfolding bs by (intro linked_frame [OF so k]) auto
  have lk: "linked (nmem s') (free_list s' d) (chain_of_class F' d)" if d: "d < NL_CLASSES" for d
  proof (cases "d = c")
    case True
    then show ?thesis unfolding ln using ch(2) cr(2) by (simp add: s'_def F'_def)
  next
    case False
    then show ?thesis unfolding ln using nl_invD(8) [OF i d] cr(3) [of d] by (simp add: s'_def F'_def)
  qed
  have pc: "mset (pieces ((p, c) # S) F' s') = mset (pieces S F s)" unfolding mset_pieces using mF by (simp add: s'_def)
  have srt: "sorted_wrt apart (pieces ((p, c) # S) F' s')" by (rule apart_list_perm [OF pc [symmetric] nl_invD(3) [OF i]])
  have st: "set (pieces ((p, c) # S) F' s') = set (pieces S F s)" using pc by (metis set_mset_mset)
  have "set (((p, c) # S) @ F') \<subseteq> set (S @ F)" using sub cr(1) by simp
  then have el: "\<forall>x \<in> set (((p, c) # S) @ F'). snd x < NL_CLASSES \<and> 16 dvd fst x" using nl_invD(5,6) [OF i] by blast
  show ?thesis using nl_invD(1,2,4,7) [OF i] srt el lk hd' cr(1) st unfolding nl_inv_def F'_def [symmetric]
    by (simp add: s'_def)
qed

lemma carve_inv:
  assumes i: "nl_inv held s S Bg F Ar L" and c: "c < NL_CLASSES" and room: "nl_class_size c \<le> arena_left s"
  defines "h \<equiv> arena_p s"
  defines "s' \<equiv> s\<lparr>arena_p := h + nl_class_size c, arena_left := arena_left s - nl_class_size c,
      nmem := set_head h (nl_class_size c - HEAD) c (nmem s)\<rparr>"
  shows "nl_inv held s' ((h, c) # S) Bg F Ar L \<and> 0 < h \<and> (\<forall>x \<in> set S. apart (h, nl_class_size c) (bspan x)) \<and> (\<forall>b \<in> set Bg. apart (h, nl_class_size c) b)"
proof -
  note k = class_size [OF c]
  have pos: "0 < arena_left s" using room k(1) by simp
  have ap: "(h, arena_left s) \<in> set (pieces S F s)" by (simp add: pieces_def h_def)
  then obtain r where r: "r \<in> set Ar" "within (h, arena_left s) r" using nl_invD(4) [OF i ap] pos by auto
  have rL: "r \<in> set L" using r(1) inv_spans(4) [OF i] by blast
  then have h0: "0 < h" using inv_spans(2) [OF i rL] r(2) by (auto simp: within_def)
  have w: "within (h, nl_class_size c) (h, arena_left s)" using room by (simp add: within_def)
  have srt: "sorted_wrt apart ((h, arena_left s) # map bspan (S @ F))" using nl_invD(3) [OF i] by (simp add: pieces_def h_def)
  then have oth: "\<forall>y \<in> set (S @ F). apart (h, arena_left s) (bspan y)" "sorted_wrt apart (map bspan (S @ F))" by auto
  have o1: "\<forall>y \<in> set (S @ F). snd y < NL_CLASSES \<and> apart (h, nl_class_size c) (bspan y)"
    using oth(1) within_apart [OF w] nl_invD(5) [OF i] by blast
  have wr: "within (h, nl_class_size c) r" by (rule within_trans [OF w r(2)])
  have o2: "\<forall>b \<in> set Bg. apart (h, nl_class_size c) b"
    using piece_apart_big [OF inv_spans(1) [OF i] nl_invD(2) [OF i] r(1) wr] by blast
  have so: "same_outside h (nmem s) (nmem s')" by (simp add: s'_def same_outside_head)
  have hd: "headed (nmem s') S Bg" using o1 o2 nl_invD(9) [OF i] k(1) by (intro headed_frame [OF so]) auto
  have hd': "headed (nmem s') ((h, c) # S) Bg"
    using hd k set_head_rd [of "nl_class_size c - HEAD" c h "nmem s"] by (simp add: headed_def s'_def)
  have lk: "linked (nmem s') (free_list s' d) (chain_of_class F d)" if d: "d < NL_CLASSES" for d
    using linked_frame [OF so, of "nl_class_size c" F "free_list s d" d] o1 k(1) nl_invD(8) [OF i d] by (simp add: s'_def)
  have rest_w: "within (h + nl_class_size c, arena_left s - nl_class_size c) (h, arena_left s)" using room by (simp add: within_def)
  have new_srt: "sorted_wrt apart (pieces ((h, c) # S) F s')"
  proof -
    have "apart (h + nl_class_size c, arena_left s - nl_class_size c) (h, nl_class_size c)" by (simp add: apart_def)
    moreover have "\<forall>y \<in> set (S @ F). apart (h + nl_class_size c, arena_left s - nl_class_size c) (bspan y)"
      using oth(1) within_apart [OF rest_w] by blast
    ultimately show ?thesis using o1 oth(2) by (auto simp: pieces_def s'_def bspan_def)
  qed
  have ins: "\<exists>r \<in> set Ar. within x r" if x: "x \<in> set (pieces ((h, c) # S) F s')" "snd x \<noteq> 0" for x
  proof -
    consider "x = (h + nl_class_size c, arena_left s - nl_class_size c)" | "x = (h, nl_class_size c)" | "x \<in> set (map bspan (S @ F))"
      using x(1) by (auto simp: pieces_def s'_def bspan_def)
    then show ?thesis
    proof cases
      case 1
      then show ?thesis using r(1) within_trans [OF rest_w r(2)] by blast
    next
      case 2
      then show ?thesis using r(1) wr by blast
    next
      case 3
      then show ?thesis using nl_invD(4) [OF i _ x(2)] by (simp add: pieces_def)
    qed
  qed
  have al: "16 dvd arena_p s'" "\<forall>x \<in> set (((h, c) # S) @ F). snd x < NL_CLASSES \<and> 16 dvd fst x"
    using nl_invD(5-7) [OF i] k(3) c by (auto simp: s'_def h_def)
  have "nl_inv held s' ((h, c) # S) Bg F Ar L"
    unfolding nl_inv_def using nl_invD(1,2) [OF i] new_srt ins al lk hd' by (simp add: s'_def)
  then show ?thesis using h0 o1 o2 by auto
qed

lemma refill_inv:
  assumes i: "nl_inv held s S Bg F Ar L" and p: "MP (word_of_nat NL_ARENA) (os s) = (p, o1)" "p \<noteq> 0"
  shows "nl_inv held (s\<lparr>os := o1, arena_p := unat p, arena_left := NL_ARENA\<rparr>) S Bg F ((unat p, NL_ARENA) # Ar) ((unat p, NL_ARENA) # L)"
proof -
  define s' where "s' = s\<lparr>os := o1, arena_p := unat p, arena_left := NL_ARENA\<rparr>"
  have w: "unat (word_of_nat NL_ARENA :: u64) = 256 * 4096" by (simp add: NL_ARENA_def unat_of_nat)
  have "held o1 ((unat p, unat (pa_round (word_of_nat NL_ARENA))) # L)" using map_new [OF nl_invD(1) [OF i] p(1)] p(2) by simp
  moreover have "unat (pa_round (word_of_nat NL_ARENA)) = NL_ARENA" using pa_round_multiple [OF w] w by (simp add: NL_ARENA_def)
  ultimately have held: "held o1 ((unat p, NL_ARENA) # L)" by simp
  note h = held_ok [OF held]
  have ap: "apart (bspan x) (unat p, NL_ARENA)" if x: "x \<in> set (S @ F)" for x
  proof -
    obtain r where r: "r \<in> set Ar" "within (bspan x) r" using block_bounds(3) [OF i x] by blast
    then have "apart (unat p, NL_ARENA) r" using h inv_spans(4) [OF i] by auto
    then show ?thesis using within_apart [OF r(2)] apart_sym by blast
  qed
  have "\<forall>y \<in> set (S @ F). apart (unat p, NL_ARENA) (bspan y)" using ap apart_sym by blast
  moreover have "sorted_wrt apart (map bspan (S @ F))" using nl_invD(3) [OF i] by (simp add: pieces_def)
  ultimately have srt: "sorted_wrt apart (pieces S F s')" by (auto simp: pieces_def s'_def)
  have ins: "\<exists>r \<in> set ((unat p, NL_ARENA) # Ar). within x r" if x: "x \<in> set (pieces S F s')" for x
  proof (cases "x = (unat p, NL_ARENA)")
    case True
    then show ?thesis by (simp add: within_def)
  next
    case False
    then obtain y where y: "y \<in> set (S @ F)" "x = bspan y" using x by (auto simp: pieces_def s'_def)
    then show ?thesis using block_bounds(3) [OF i y(1)] by auto
  qed
  have "16 dvd unat p" using h page_dvd_16 by simp
  then show ?thesis using nl_invD(2,5-9) [OF i] held srt ins unfolding nl_inv_def s'_def [symmetric] by (auto simp: s'_def)
qed

lemma big_inv:
  assumes i: "nl_inv held s S Bg F Ar L" and p: "MP t (os s) = (p, o1)" "p \<noteq> 0" and t: "unat t = k * 4096" "0 < k"
  defines "s' \<equiv> s\<lparr>os := o1, nmem := set_head (unat p) (unat (t - 16)) NL_BIG (nmem s)\<rparr>"
  shows "nl_inv held s' S ((unat p, unat t) # Bg) F Ar ((unat p, unat t) # L) \<and>
    (\<forall>x \<in> set S. apart (unat p, unat t) (bspan x)) \<and> (\<forall>b \<in> set Bg. apart (unat p, unat t) b)"
proof -
  have held: "held o1 ((unat p, unat t) # L)" using map_new [OF nl_invD(1) [OF i] p(1)] p(2) pa_round_multiple [OF t(1)] by simp
  note h = held_ok [OF held]
  have t16: "16 < unat t" "16 \<le> unat t" using t by auto
  have o1: "\<forall>x \<in> set (S @ F). snd x < NL_CLASSES \<and> apart (unat p, unat t) (bspan x)"
  proof
    fix x assume x: "x \<in> set (S @ F)"
    obtain r where r: "r \<in> set Ar" "within (bspan x) r" using block_bounds(3) [OF i x] by blast
    then have "apart (unat p, unat t) r" using h inv_spans(4) [OF i] by auto
    then have "apart (bspan x) (unat p, unat t)" using within_apart [OF r(2)] apart_sym by blast
    then show "snd x < NL_CLASSES \<and> apart (unat p, unat t) (bspan x)" using apart_sym nl_invD(5) [OF i x] by blast
  qed
  have o2: "\<forall>b \<in> set Bg. apart (unat p, unat t) b" using h inv_spans(5) [OF i] by auto
  have so: "same_outside (unat p) (nmem s) (nmem s')" by (simp add: s'_def same_outside_head)
  have hd: "headed (nmem s') S Bg" using o1 o2 nl_invD(9) [OF i] by (intro headed_frame [OF so t16(2)]) auto
  have b: "unat (t - 16) = unat t - 16" using t16 by (simp add: unat_sub_no_wrap)
  have "rd64 (nmem s') (unat p) = unat t - 16 \<and> rd64 (nmem s') (unat p + 8) = NL_BIG"
    using set_head_rd [of "unat (t - 16)" NL_BIG "unat p" "nmem s"] u64_bound [of "t - 16"] b by (simp add: s'_def NL_BIG_def)
  then have hd': "headed (nmem s') S ((unat p, unat t) # Bg)" using hd t16 t by (simp add: headed_def HEAD_def)
  have lk: "linked (nmem s') (free_list s' d) (chain_of_class F d)" if d: "d < NL_CLASSES" for d
    using linked_frame [OF so t16(2), of F "free_list s d" d] o1 nl_invD(8) [OF i d] by (simp add: s'_def)
  have ms: "mset (Ar @ (unat p, unat t) # Bg) \<subseteq># mset ((unat p, unat t) # L)" using nl_invD(2) [OF i] by simp
  have pcs: "pieces S F s' = pieces S F s" by (simp add: pieces_def s'_def)
  have "nl_inv held s' S ((unat p, unat t) # Bg) F Ar ((unat p, unat t) # L)"
    unfolding nl_inv_def pcs using nl_invD(3-7) [OF i] held ms hd' lk by (simp add: s'_def)
  then show ?thesis using o1 o2 by auto
qed

section \<open>malloc\<close>

lemma inv_os: "nl_inv held s S Bg F Ar L \<Longrightarrow> held o1 L \<Longrightarrow> nl_inv held (s\<lparr>os := o1\<rparr>) S Bg F Ar L"
  by (simp add: nl_inv_def pieces_def)

lemma failed_map: "nl_inv held s S Bg F Ar L \<Longrightarrow> MP t (os s) = (0, o1) \<Longrightarrow> nl_ok held (s\<lparr>os := o1\<rparr>) S Bg"
  using map_new [of "os s" L t 0 o1] inv_os nl_invD(1) unfolding nl_ok_def by fastforce

lemma small_ok:
  assumes i: "nl_inv held s S Bg F Ar L" and c: "c < NL_CLASSES"
    and r: "(let (h, s1) = nl_carve MP (nl_class_size c) s in
           if h = 0 then (0, s1) else (h + HEAD, s1\<lparr>nmem := set_head h (nl_class_size c - HEAD) c (nmem s1)\<rparr>)) = (p, s')"
  shows "p = 0 \<and> nl_ok held s' S Bg \<and> nmem s' = nmem s \<or>
    (\<exists>h. p = h + HEAD \<and> new_block h (nl_class_size c) S Bg (nmem s) s' \<and> nl_ok held s' ((h, c) # S) Bg)"
proof -
  note k = class_size [OF c]
  have from_arena: "\<exists>h. arena_p t + HEAD = h + HEAD \<and> new_block h (nl_class_size c) S Bg (nmem t) t' \<and> nl_ok held t' ((h, c) # S) Bg"
    if t: "nl_inv held t S Bg F Ar' L'" "nl_class_size c \<le> arena_left t"
      "t' = t\<lparr>arena_p := arena_p t + nl_class_size c, arena_left := arena_left t - nl_class_size c, nmem := set_head (arena_p t) (nl_class_size c - HEAD) c (nmem t)\<rparr>"
    for t t' Ar' L'
  proof -
    note ci = carve_inv [OF t(1) c t(2), folded t(3)]
    have "rd64 (nmem t') (arena_p t) = nl_class_size c - HEAD" using k set_head_rd [of "nl_class_size c - HEAD" c] by (simp add: t(3))
    then have "new_block (arena_p t) (nl_class_size c) S Bg (nmem t) t'"
      using ci nl_invD(7) [OF t(1)] same_outside_head by (auto simp: new_block_def live_spans_def t(3))
    then show ?thesis using ci unfolding nl_ok_def by blast
  qed
  show ?thesis
  proof (cases "arena_left s < nl_class_size c")
    case False
    then have z: "nl_carve MP (nl_class_size c) s = (arena_p s, s\<lparr>arena_p := arena_p s + nl_class_size c, arena_left := arena_left s - nl_class_size c\<rparr>)"
      by (simp add: nl_carve_def Let_def)
    have "arena_p s \<noteq> 0" using carve_inv [OF i c] False by simp
    then have s': "p = arena_p s + HEAD" "s' = s\<lparr>arena_p := arena_p s + nl_class_size c, arena_left := arena_left s - nl_class_size c, nmem := set_head (arena_p s) (nl_class_size c - HEAD) c (nmem s)\<rparr>"
      using r by (simp_all add: z)
    then show ?thesis using from_arena [OF i _ s'(2)] False by simp
  next
    case True
    obtain q o1 where q: "MP (word_of_nat NL_ARENA) (os s) = (q, o1)" by fastforce
    have na: "\<not> nl_class_size c > NL_ARENA" using k(2) by (simp add: NL_ARENA_def)
    show ?thesis
    proof (cases "q = 0")
      case q0: True
      then have "p = 0" "s' = s\<lparr>os := o1\<rparr>" using r True na q by (simp_all add: nl_carve_def Let_def)
      then show ?thesis using failed_map [OF i] q q0 by simp
    next
      case False
      define t where "t = s\<lparr>os := o1, arena_p := unat q, arena_left := NL_ARENA\<rparr>"
      have ti: "nl_inv held t S Bg F ((unat q, NL_ARENA) # Ar) ((unat q, NL_ARENA) # L)" unfolding t_def by (rule refill_inv [OF i q False])
      have z: "nl_carve MP (nl_class_size c) s = (unat q, t\<lparr>arena_p := arena_p t + nl_class_size c, arena_left := arena_left t - nl_class_size c\<rparr>)"
        using True na q False by (simp add: nl_carve_def Let_def t_def)
      have "unat q \<noteq> 0" using False by (simp add: unat_eq_0)
      then have s': "p = arena_p t + HEAD" "s' = t\<lparr>arena_p := arena_p t + nl_class_size c, arena_left := arena_left t - nl_class_size c, nmem := set_head (arena_p t) (nl_class_size c - HEAD) c (nmem t)\<rparr>"
        using r by (simp_all add: z t_def)
      have "nmem t = nmem s" by (simp add: t_def)
      then show ?thesis using from_arena [OF ti _ s'(2)] na s'(1) by (simp add: t_def)
    qed
  qed
qed

lemma malloc_ok:
  assumes i: "nl_inv held s S Bg F Ar L" and r: "nl_malloc MP n s = (p, s')"
  shows "p = 0 \<and> nl_ok held s' S Bg \<and> nmem s' = nmem s \<or>
    (\<exists>h k. p = h + HEAD \<and> unat n + HEAD \<le> k \<and> new_block h k S Bg (nmem s) s' \<and>
      ((\<exists>c. k = nl_class_size c \<and> nl_ok held s' ((h, c) # S) Bg) \<or> nl_ok held s' S ((h, k) # Bg)))"
proof -
  define n1 where "n1 = (if n = 0 then 1 else n)"
  have n1: "unat n \<le> unat n1" by (simp add: n1_def)
  show ?thesis
  proof (cases "n1 > - 1 - 16 - 4095")
    case True
    then have "p = 0" "s' = s" using r by (simp_all add: nl_malloc_def n1_def [symmetric])
    moreover have "nl_ok held s S Bg" unfolding nl_ok_def using i by blast
    ultimately show ?thesis by simp
  next
    case False
    note bt = big_total [OF False]
    show ?thesis
    proof (cases "nl_class_of (unat (n1 + 16))")
      case None
      define t where "t = (n1 + 16 + 4095) AND NOT 4095"
      obtain q o1 where q: "MP t (os s) = (q, o1)" by fastforce
      have tk: "unat t = (unat n1 + 4111) div 4096 * 4096" "0 < (unat n1 + 4111) div 4096" using bt(2) by (simp_all add: t_def div_greater_zero_iff)
      have eq: "(p, s') = (if q = 0 then (0, s\<lparr>os := o1\<rparr>) else (unat q + HEAD, s\<lparr>os := o1, nmem := set_head (unat q) (unat (t - 16)) NL_BIG (nmem s)\<rparr>))"
        using r False None q unfolding nl_malloc_def n1_def [symmetric] Let_def t_def [symmetric] by simp
      show ?thesis
      proof (cases "q = 0")
        case True
        then show ?thesis using eq failed_map [OF i] q by simp
      next
        case q0: False
        then have s': "p = unat q + HEAD" "s' = s\<lparr>os := o1, nmem := set_head (unat q) (unat (t - 16)) NL_BIG (nmem s)\<rparr>" using eq by simp_all
        note bi = big_inv [OF i q q0 tk, folded s'(2)]
        have "unat n1 + 16 \<le> unat t" unfolding tk(1) by simp
        then have le: "unat n + HEAD \<le> unat t" using n1 by (simp add: HEAD_def)
        have b: "unat (t - 16) = unat t - 16" using \<open>unat n1 + 16 \<le> unat t\<close> by (simp add: unat_sub_no_wrap)
        have "rd64 (nmem s') (unat q) = unat t - HEAD"
          using set_head_rd [of "unat (t - 16)" NL_BIG "unat q" "nmem s"] u64_bound [of "t - 16"] b by (simp add: s'(2) NL_BIG_def HEAD_def)
        moreover have "0 < unat q" "16 dvd unat q"
          using held_ok [OF nl_invD(1) [OF conjunct1 [OF bi]]] page_dvd_16 by auto
        ultimately have "new_block (unat q) (unat t) S Bg (nmem s) s'"
          using bi same_outside_head by (auto simp: new_block_def live_spans_def s'(2))
        then show ?thesis using bi le s'(1) unfolding nl_ok_def by blast
      qed
    next
      case (Some c)
      note f = nl_class_of_fits [OF Some]
      have le: "unat n + HEAD \<le> nl_class_size c" using f(2) bt(1) n1 by (simp add: HEAD_def)
      show ?thesis
      proof (cases "free_list s c = 0")
        case True
        then have "(let (h, s1) = nl_carve MP (nl_class_size c) s in
           if h = 0 then (0, s1) else (h + HEAD, s1\<lparr>nmem := set_head h (nl_class_size c - HEAD) c (nmem s1)\<rparr>)) = (p, s')"
          using r False Some by (simp add: nl_malloc_def n1_def [symmetric])
        then show ?thesis using small_ok [OF i f(1)] le by blast
      next
        case fl: False
        define h where "h = free_list s c"
        have s': "p = h + HEAD" "s' = s\<lparr>free_list := (free_list s)(c := rd64 (nmem s) h), nmem := set_head h (nl_class_size c - HEAD) c (nmem s)\<rparr>"
          using r False Some fl by (simp_all add: nl_malloc_def Let_def n1_def [symmetric] h_def)
        note pi = pop_inv [OF i f(1) h_def [symmetric] fl [folded h_def], folded s'(2)]
        have x: "(h, c) \<in> set (S @ F)" using pi by simp
        have "mset (S @ F) = add_mset (h, c) (mset (S @ remove1 (h, c) F))" using pi by simp
        note o = others_apart [OF i this]
        have "rd64 (nmem s') h = nl_class_size c - HEAD"
          using class_size [OF f(1)] set_head_rd [of "nl_class_size c - HEAD" c] by (simp add: s'(2))
        then have "new_block h (nl_class_size c) S Bg (nmem s) s'"
          using o block_bounds(1) [OF i x] nl_invD(6) [OF i x] same_outside_head by (auto simp: new_block_def live_spans_def bspan_def s'(2))
        then show ?thesis using pi le s'(1) unfolding nl_ok_def by blast
      qed
    qed
  qed
qed

section \<open>free\<close>

lemma free_small_ok:
  assumes i: "nl_inv held s S Bg F Ar L" and x: "(h, c) \<in> set S"
  shows "nl_ok held (nl_free UM (h + HEAD) s) (remove1 (h, c) S) Bg \<and> same_outside h (nmem s) (nmem (nl_free UM (h + HEAD) s))"
proof -
  have c: "c < NL_CLASSES" "16 dvd h" using nl_invD(5,6) [OF i, of "(h, c)"] x by simp_all
  note k = class_size [OF c(1)]
  define s' where "s' = s\<lparr>nmem := wr64 h (free_list s c) (nmem s), free_list := (free_list s)(c := h)\<rparr>"
  have rd: "rd64 (nmem s) (h + 8) = c" using nl_invD(9) [OF i] x by (auto simp: headed_def)
  have "c \<noteq> NL_BIG" using c(1) by (simp add: NL_CLASSES_def NL_BIG_def)
  then have eq: "nl_free UM (h + HEAD) s = s'" using rd by (simp add: nl_free_def Let_def s'_def HEAD_def)
  define S' where "S' = remove1 (h, c) S"
  have mS: "mset S = add_mset (h, c) (mset S')" using x by (simp add: S'_def)
  have m: "mset (S @ F) = add_mset (h, c) (mset (S' @ F))" using mS by simp
  have subS: "set S' \<subseteq> set S" by (simp add: S'_def set_remove1_subset)
  note o = others_apart [OF i m]
  have so: "same_outside h (nmem s) (nmem s')" by (simp add: s'_def same_outside_link)
  have bs: "bspan (h, c) = (h, nl_class_size c)" by (simp add: bspan_def)
  have k16: "16 \<le> nl_class_size c" using k(1) by simp
  have "headed (nmem s) S' Bg" using nl_invD(9) [OF i] subS by (auto simp: headed_def)
  then have hd: "headed (nmem s') S' Bg" using o unfolding bs by (intro headed_frame [OF so k16]) auto
  have ln: "linked (nmem s') q (chain_of_class F d) \<longleftrightarrow> linked (nmem s) q (chain_of_class F d)" for q d
    using o unfolding bs by (intro linked_frame [OF so k16]) auto
  have fl: "free_list s c < 2 ^ 64"
  proof (cases "chain_of_class F c")
    case Nil
    then show ?thesis using nl_invD(8) [OF i c(1)] by simp
  next
    case (Cons q rest)
    then show ?thesis using nl_invD(8) [OF i c(1)] chain_remove(1) [OF Cons] block_bounds(2) [OF i, of "(q, c)"] by simp
  qed
  have lk: "linked (nmem s') (free_list s' d) (chain_of_class ((h, c) # F) d)" if d: "d < NL_CLASSES" for d
  proof (cases "d = c")
    case True
    have "rd64 (nmem s') h = free_list s c" using fl by (simp add: s'_def)
    then show ?thesis using True ln nl_invD(8) [OF i c(1)] by (simp add: chain_of_class_def s'_def)
  next
    case False
    then show ?thesis using ln nl_invD(8) [OF i d] by (simp add: chain_of_class_def s'_def)
  qed
  have pc: "mset (pieces S' ((h, c) # F) s') = mset (pieces S F s)" unfolding mset_pieces using mS by (simp add: s'_def)
  have srt: "sorted_wrt apart (pieces S' ((h, c) # F) s')" by (rule apart_list_perm [OF pc [symmetric] nl_invD(3) [OF i]])
  have st: "set (pieces S' ((h, c) # F) s') = set (pieces S F s)" using pc by (metis set_mset_mset)
  have "set (S' @ (h, c) # F) \<subseteq> set (S @ F)" using subS x by auto
  then have el: "\<forall>x \<in> set (S' @ (h, c) # F). snd x < NL_CLASSES \<and> 16 dvd fst x" using nl_invD(5,6) [OF i] by blast
  have "nl_inv held s' S' Bg ((h, c) # F) Ar L"
    unfolding nl_inv_def st using nl_invD(1,2,4,7) [OF i] srt el lk hd by (simp add: s'_def)
  then show ?thesis unfolding eq S'_def [symmetric] nl_ok_def using so by blast
qed

lemma free_big_ok:
  assumes i: "nl_inv held s S Bg F Ar L" and x: "(h, k) \<in> set Bg"
  shows "nl_ok held (nl_free UM (h + HEAD) s) S (remove1 (h, k) Bg) \<and> nmem (nl_free UM (h + HEAD) s) = nmem s"
proof -
  have hd: "rd64 (nmem s) h = k - HEAD" "rd64 (nmem s) (h + 8) = NL_BIG" "HEAD < k" "4096 dvd k" using nl_invD(9) [OF i] x by (auto simp: headed_def)
  have L: "(h, k) \<in> set L" "0 < h" "h + k < 2 ^ 64" using inv_spans(2,5) [OF i] x by auto
  have u: "unat (word_of_nat h :: u64) = h" "unat (word_of_nat k :: u64) = k" using L(3) by (simp_all add: unat_of_nat)
  obtain j where j: "k = j * 4096" using hd(4) by (metis dvd_def mult.commute)
  have pr: "unat (pa_round (word_of_nat k)) = k" using pa_round_multiple [of "word_of_nat k" j] u(2) j by simp
  obtain rc o1 where um: "UM (word_of_nat h) (word_of_nat k) (os s) = (rc, o1)" by fastforce
  have eq: "nl_free UM (h + HEAD) s = s\<lparr>os := o1\<rparr>" using hd um L(2) by (simp add: nl_free_def Let_def HEAD_def)
  have in': "(unat (word_of_nat h :: u64), unat (pa_round (word_of_nat k))) \<in> set L" using L(1) u(1) pr by simp
  have "held o1 (remove1 (h, k) L)" using unmap_gives [OF nl_invD(1) [OF i] in' um] u(1) pr by simp
  moreover have "mset (Ar @ remove1 (h, k) Bg) \<subseteq># mset (remove1 (h, k) L)"
    using nl_invD(2) [OF i] x L(1) by (simp add: subset_eq_diff_conv)
  moreover have "headed (nmem s) S (remove1 (h, k) Bg)" using nl_invD(9) [OF i] set_remove1_subset [of "(h, k)" Bg] by (auto simp: headed_def)
  ultimately have "nl_inv held (s\<lparr>os := o1\<rparr>) S (remove1 (h, k) Bg) F Ar (remove1 (h, k) L)"
    using nl_invD(3-8) [OF i] unfolding nl_inv_def by (simp add: pieces_def)
  then show ?thesis unfolding eq nl_ok_def by auto
qed

end

end
