(* ===== verification/NlMallocProps.thy ===== *)
theory NlMallocProps
  imports NlMallocProofs
begin

text \<open>
  The allocator as its clients see it, over the guest's page allocator.
\<close>

section \<open>Blocks in use\<close>

definition gains :: "nat \<Rightarrow> nat \<Rightarrow> (nat \<times> nat) list \<Rightarrow> span list \<Rightarrow> (nat \<times> nat) list \<Rightarrow> span list \<Rightarrow> bool" where
  "gains h k S Bg S' Bg' \<longleftrightarrow> (\<exists>c. k = nl_class_size c \<and> S' = (h, c) # S \<and> Bg' = Bg) \<or> (S' = S \<and> Bg' = (h, k) # Bg)"

definition gives_back :: "nat \<Rightarrow> nat \<Rightarrow> (nat \<times> nat) list \<Rightarrow> span list \<Rightarrow> (nat \<times> nat) list \<Rightarrow> span list \<Rightarrow> bool" where
  "gives_back h k S Bg S' Bg' \<longleftrightarrow>
    (\<exists>c. (h, c) \<in> set S \<and> k = nl_class_size c \<and> S' = remove1 (h, c) S \<and> Bg' = Bg) \<or>
    ((h, k) \<in> set Bg \<and> S' = S \<and> Bg' = remove1 (h, k) Bg)"

lemma gains_spans: "gains h k S Bg S' Bg' \<Longrightarrow> set (live_spans S' Bg') = insert (h, k) (set (live_spans S Bg))"
  by (auto simp: gains_def live_spans_def bspan_def)

lemma gives_back_live: "gives_back h k S Bg S' Bg' \<Longrightarrow> (h, k) \<in> set (live_spans S Bg)"
  by (force simp: gives_back_def live_spans_def bspan_def)

lemma live_gives_back:
  assumes "(h, k) \<in> set (live_spans S Bg)"
  shows "\<exists>S' Bg'. gives_back h k S Bg S' Bg'"
proof -
  consider c where "(h, c) \<in> set S" "k = nl_class_size c" | "(h, k) \<in> set Bg" using assms by (auto simp: live_spans_def bspan_def)
  then show ?thesis by cases (auto simp: gives_back_def)
qed

lemma sorted_apart_mem: "sorted_wrt apart xs \<Longrightarrow> x \<in> set xs \<Longrightarrow> y \<in> set xs \<Longrightarrow> x \<noteq> y \<Longrightarrow> apart x y"
  by (induction xs) (auto intro: apart_sym)

context page_source
begin

lemma all_apart:
  assumes i: "nl_inv held s S Bg F Ar L"
  shows "sorted_wrt apart (map bspan (S @ F) @ Bg)"
proof -
  have "sorted_wrt apart (map bspan (S @ F))" using nl_invD(3) [OF i] by (simp add: pieces_def)
  moreover have "sorted_wrt apart Bg" using inv_spans(3) [OF i] by (simp add: sorted_wrt_append)
  ultimately show ?thesis using block_bounds(4) [OF i] by (auto simp: sorted_wrt_append)
qed

lemma ok_live:
  assumes "nl_ok held s S Bg"
  shows "sorted_wrt apart (live_spans S Bg)" "x \<in> set (live_spans S Bg) \<Longrightarrow> rd64 (nmem s) (fst x) = snd x - HEAD \<and> HEAD < snd x \<and> 0 < fst x"
proof -
  obtain F Ar L where i: "nl_inv held s S Bg F Ar L" using assms by (auto simp: nl_ok_def)
  have "mset (live_spans S Bg) \<subseteq># mset (map bspan (S @ F) @ Bg)" by (simp add: live_spans_def)
  then show "sorted_wrt apart (live_spans S Bg)" using apart_list_sub all_apart [OF i] by blast
  assume x: "x \<in> set (live_spans S Bg)"
  then consider y where "y \<in> set S" "x = bspan y" | "x \<in> set Bg" by (auto simp: live_spans_def)
  then show "rd64 (nmem s) (fst x) = snd x - HEAD \<and> HEAD < snd x \<and> 0 < fst x"
  proof cases
    case 1
    have "32 \<le> nl_class_size (snd y)" using class_size(1) nl_invD(5) [OF i, of y] 1(1) by simp
    then show ?thesis using 1 nl_invD(9) [OF i] block_bounds(1) [OF i, of y] by (auto simp: headed_def bspan_def HEAD_def)
  next
    case 2
    then have "x \<in> set L" using inv_spans(5) [OF i] by blast
    then show ?thesis using 2 nl_invD(9) [OF i] inv_spans(2) [OF i] by (simp add: headed_def)
  qed
qed

text \<open>The owner of a block writes where it likes between the header and the end.\<close>

lemma payload_ok:
  assumes ok: "nl_ok held s S Bg" and x: "(h, k) \<in> set (live_spans S Bg)" and m: "\<And>b. b < h + HEAD \<or> h + k \<le> b \<Longrightarrow> m' b = nmem s b"
  shows "nl_ok held (s\<lparr>nmem := m'\<rparr>) S Bg"
proof -
  obtain F Ar L where i: "nl_inv held s S Bg F Ar L" using ok by (auto simp: nl_ok_def)
  have xa: "(h, k) \<in> set (map bspan (S @ F) @ Bg)" using x by (auto simp: live_spans_def)
  have word: "rd64 m' (a + j) = rd64 (nmem s) (a + j)" if y: "(a, n) \<in> set (map bspan (S @ F) @ Bg)" "j + 8 \<le> HEAD" "HEAD \<le> n" for a n j
  proof (rule rd_cong)
    fix b assume b: "a + j \<le> b" "b < a + j + 8"
    have "b < h + HEAD \<or> h + k \<le> b"
    proof (cases "(a, n) = (h, k)")
      case True
      then show ?thesis using b y(2) by auto
    next
      case False
      then have "apart (a, n) (h, k)" using sorted_apart_mem [OF all_apart [OF i] y(1) xa] by blast
      then show ?thesis using b y(2,3) by (auto simp: apart_def)
    qed
    then show "m' b = nmem s b" by (rule m)
  qed
  have small: "rd64 m' (fst y + j) = rd64 (nmem s) (fst y + j)" if "y \<in> set (S @ F)" "j + 8 \<le> HEAD" for y j
    using word [of "fst y" "nl_class_size (snd y)" j] that class_size(1) [OF nl_invD(5) [OF i that(1)]] by (auto simp: bspan_def HEAD_def)
  have hd: "headed m' S Bg"
  proof -
    have "rd64 m' (fst y) = rd64 (nmem s) (fst y)" "rd64 m' (fst y + 8) = rd64 (nmem s) (fst y + 8)" if "y \<in> set S" for y
      using small [of y 0] small [of y 8] that by (simp_all add: HEAD_def)
    moreover have "rd64 m' (fst y) = rd64 (nmem s) (fst y)" "rd64 m' (fst y + 8) = rd64 (nmem s) (fst y + 8)" if "y \<in> set Bg" for y
      using word [of "fst y" "snd y" 0] word [of "fst y" "snd y" 8] that nl_invD(9) [OF i] by (auto simp: HEAD_def headed_def)
    ultimately show ?thesis using nl_invD(9) [OF i] by (simp add: headed_def)
  qed
  have lk: "linked m' q (chain_of_class F' d) \<longleftrightarrow> linked (nmem s) q (chain_of_class F' d)" if "set F' \<subseteq> set F" for F' q d
    using that
  proof (induction F' arbitrary: q)
    case (Cons y F')
    have "rd64 m' (fst y) = rd64 (nmem s) (fst y)" using small [of y 0] Cons.prems by (simp add: HEAD_def)
    then show ?case using Cons by (simp add: chain_of_class_def)
  qed (simp add: chain_of_class_def)
  have "nl_inv held (s\<lparr>nmem := m'\<rparr>) S Bg F Ar L"
    using i hd lk [of F] unfolding nl_inv_def by (simp add: pieces_def)
  then show ?thesis by (auto simp: nl_ok_def)
qed

lemma malloc_step:
  assumes ok: "nl_ok held s S Bg" and r: "nl_malloc MP n s = (p, s')"
  shows "p = 0 \<and> nl_ok held s' S Bg \<and> nmem s' = nmem s \<or>
    (\<exists>h k S' Bg'. p = h + HEAD \<and> unat n + HEAD \<le> k \<and> new_block h k S Bg (nmem s) s' \<and> gains h k S Bg S' Bg' \<and> nl_ok held s' S' Bg')"
proof -
  obtain F Ar L where i: "nl_inv held s S Bg F Ar L" using ok by (auto simp: nl_ok_def)
  show ?thesis using malloc_ok [OF i r] unfolding gains_def by blast
qed

lemma free_step:
  assumes ok: "nl_ok held s S Bg" and g: "gives_back h k S Bg S' Bg'"
  shows "nl_ok held (nl_free UM (h + HEAD) s) S' Bg' \<and> same_outside h (nmem s) (nmem (nl_free UM (h + HEAD) s))"
proof -
  obtain F Ar L where i: "nl_inv held s S Bg F Ar L" using ok by (auto simp: nl_ok_def)
  have "same_outside h (nmem s) (nmem s)" by (simp add: same_outside_def)
  then show ?thesis using g free_small_ok [OF i] free_big_ok [OF i] unfolding gives_back_def by auto
qed

lemma realloc_step:
  assumes ok: "nl_ok held s S Bg" and x: "(h, k) \<in> set (live_spans S Bg)" and n: "n \<noteq> 0"
    and r: "nl_realloc MP UM (h + HEAD) n s = (q, s')"
  shows "q = h + HEAD \<and> s' = s \<and> unat n + HEAD \<le> k \<or>
    q = 0 \<and> nl_ok held s' S Bg \<and> nmem s' = nmem s \<or>
    (\<exists>h' k' S1 Bg1 S' Bg'. q = h' + HEAD \<and> unat n + HEAD \<le> k' \<and> gains h' k' S Bg S1 Bg1 \<and> gives_back h k S1 Bg1 S' Bg' \<and> nl_ok held s' S' Bg' \<and>
      (\<forall>y \<in> set (live_spans S Bg). apart (h', k') y) \<and> (\<forall>i < k - HEAD. nmem s' (q + i) = nmem s (h + HEAD + i)))"
proof -
  note lx = ok_live(2) [OF ok x]
  have old: "rd64 (nmem s) h = k - HEAD" "HEAD < k" "0 < h" using lx by simp_all
  show ?thesis
  proof (cases "unat n \<le> k - HEAD")
    case True
    then show ?thesis using r n old by (auto simp: nl_realloc_def HEAD_def)
  next
    case False
    obtain q1 s1 where m: "nl_malloc MP n s = (q1, s1)" by fastforce
    have eq: "(q, s') = (if q1 = 0 then (0, s1) else (q1, nl_free UM (h + HEAD)
        (s1\<lparr>nmem := (\<lambda>a. if q1 \<le> a \<and> a < q1 + (k - HEAD) then nmem s1 (h + HEAD + (a - q1)) else nmem s1 a)\<rparr>)))"
      using r n False old m by (simp add: nl_realloc_def Let_def)
    from malloc_step [OF ok m] show ?thesis
    proof (elim disjE conjE exE)
      assume "q1 = 0" "nl_ok held s1 S Bg" "nmem s1 = nmem s"
      then show ?thesis using eq by simp
    next
      fix h' k' S1 Bg1
      assume a: "q1 = h' + HEAD" "unat n + HEAD \<le> k'" "new_block h' k' S Bg (nmem s) s1" "gains h' k' S Bg S1 Bg1" "nl_ok held s1 S1 Bg1"
      define m2 where "m2 = (\<lambda>a. if q1 \<le> a \<and> a < q1 + (k - HEAD) then nmem s1 (h + HEAD + (a - q1)) else nmem s1 a)"
      have e: "q = q1" "s' = nl_free UM (h + HEAD) (s1\<lparr>nmem := m2\<rparr>)" using eq a(1) by (simp_all add: m2_def HEAD_def)
      have new: "(h', k') \<in> set (live_spans S1 Bg1)" "(h, k) \<in> set (live_spans S1 Bg1)" using gains_spans [OF a(4)] x by auto
      have ap: "\<forall>y \<in> set (live_spans S Bg). apart (h', k') y" "same_outside h' (nmem s) (nmem s1)" using a(3) by (simp_all add: new_block_def)
      have fit: "k - HEAD + HEAD \<le> k'" using a(2) False by simp
      have ok2: "nl_ok held (s1\<lparr>nmem := m2\<rparr>) S1 Bg1"
        by (rule payload_ok [OF a(5) new(1)]) (use a(1) fit in \<open>auto simp: m2_def\<close>)
      obtain S' Bg' where g: "gives_back h k S1 Bg1 S' Bg'" using live_gives_back [OF new(2)] by blast
      note f = free_step [OF ok2 g]
      have hk: "apart (h', k') (h, k)" using ap(1) x by blast
      have "nmem s' (q + i) = nmem s (h + HEAD + i)" if i: "i < k - HEAD" for i
      proof -
        have "q + i < h \<or> h + 16 \<le> q + i" using hk i a(1) e(1) fit old(2) by (auto simp: apart_def HEAD_def)
        then have "nmem s' (q + i) = m2 (q + i)" using f e(2) by (auto simp: same_outside_def)
        also have "\<dots> = nmem s1 (h + HEAD + i)" using i e(1) old(2) by (auto simp: m2_def)
        also have "\<dots> = nmem s (h + HEAD + i)" using ap(2) hk i a(2) by (auto simp: same_outside_def apart_def HEAD_def)
        finally show ?thesis .
      qed
      then show ?thesis using a(1,2,4) e f g ap(1) by blast
    qed
  qed
qed

end

section \<open>Over the guest's page allocator\<close>

interpretation ps: page_source nl_map nl_unmap pa_inv
proof
  fix s L
  assume i: "pa_inv s L"
  show "sorted_wrt apart L \<and> (\<forall>x \<in> set L. 0 < fst x \<and> 4096 dvd fst x \<and> fst x + snd x < 2 ^ 64)"
  proof (intro conjI ballI)
    have l: "pa_live_ok (unat (pa_base s)) (unat (pa_next s)) (hole_spans s) L" "pa_wf s"
      using i by (auto simp: pa_inv_def pa_semi_def spans_ok_def)
    then show "sorted_wrt apart L" by (simp add: pa_live_ok_def)
    fix x assume "x \<in> set L"
    then have "page_span (unat (pa_base s)) (unat (pa_next s)) x" using l(1) by (simp add: pa_live_ok_def)
    then show "0 < fst x" "4096 dvd fst x" "fst x + snd x < 2 ^ 64"
      using l(2) u64_bound [of "pa_next s"] by (auto simp: page_span_def pa_wf_def)
  qed
next
  fix s L n p s'
  assume "pa_inv s L" "nl_map n s = (p, s')"
  then show "pa_inv s' (if p = 0 then L else (unat p, unat (pa_round n)) # L)" unfolding nl_map_def by (rule pa_alloc_inv)
next
  fix s L p n rc s'
  assume a: "pa_inv s L" "(unat p, unat (pa_round n)) \<in> set L" "nl_unmap p n s = (rc, s')"
  note g = pa_free_guard [OF a(1,2)]
  have "pa_owns p n s" using g by (simp add: pa_owns_def Let_def)
  then have "pa_free p n s = (fst (pa_free p n s), s')" using a(3) by (auto simp: nl_unmap_def prod_eq_iff)
  then show "pa_inv s' (remove1 (unat p, unat (pa_round n)) L)" by (rule pa_free_inv [OF a(1,2)])
qed

text \<open>C23. Every block malloc hands out is 16-byte aligned, holds at least the bytes asked for, and shares no byte,
  header included, with any block in use; it writes to no block in use, and a request too large to carry its header
  fails instead of wrapping. free takes back exactly its block and touches no other. Both keep the allocator's
  invariant over the guest's page allocator, so this holds of any sequence of calls.\<close>

theorem malloc_free_safe:
  assumes "nl_ok pa_inv s S Bg"
  shows "(case nl_malloc nl_map n s of (p, s') \<Rightarrow>
      p = 0 \<and> nl_ok pa_inv s' S Bg \<and> nmem s' = nmem s \<or>
      (\<exists>h k S' Bg'. p = h + HEAD \<and> unat n + HEAD \<le> k \<and> new_block h k S Bg (nmem s) s' \<and> gains h k S Bg S' Bg' \<and> nl_ok pa_inv s' S' Bg')) \<and>
    (gives_back h k S Bg S' Bg' \<longrightarrow>
      nl_ok pa_inv (nl_free nl_unmap (h + HEAD) s) S' Bg' \<and> same_outside h (nmem s) (nmem (nl_free nl_unmap (h + HEAD) s)))"
  using ps.malloc_step [OF assms, of n] ps.free_step [OF assms, of h k S' Bg'] by (auto split: prod.split)

definition nl_start :: "pa_state nlh" where
  "nl_start = \<lparr>nmem = \<lambda>_. 0, free_list = \<lambda>_. 0, arena_p = 0, arena_left = 0, os = pa_init 4096 65536 pa_boot\<rparr>"

lemma nl_start_ok: "nl_ok pa_inv nl_start [] []"
proof -
  have "pa_inv (pa_init 4096 65536 pa_boot) []" by (rule pa_boot_inv) simp_all
  then have "nl_inv pa_inv nl_start [] [] [] [] []"
    by (simp add: nl_inv_def nl_start_def pieces_def chain_of_class_def headed_def)
  then show ?thesis by (auto simp: nl_ok_def)
qed

lemma nl_start_big: "fst (nl_malloc nl_map 10000 nl_start) = 4112"
proof -
  have c: "nl_class_of 10016 = None" by (simp add: nl_class_of_def NL_CLASSES_def numeral_eq_Suc)
  have "pa_alloc 12288 (pa_init 4096 65536 pa_boot) = (4096, (pa_init 4096 65536 pa_boot)\<lparr>pa_next := 16384, pa_live := 12288, pa_peak := 12288\<rparr>)"
    by (simp add: pa_alloc_def pa_init_def pa_round_def pa_boot_def pa_best.simps pa_count_live_def Let_def)
  then show ?thesis using c by (simp add: nl_malloc_def nl_map_def nl_start_def HEAD_def)
qed

theorem malloc_free_safe_witness:
  "\<exists>h k S' Bg'. fst (nl_malloc nl_map 10000 nl_start) = h + HEAD \<and> 10016 \<le> k \<and>
    new_block h k [] [] (nmem nl_start) (snd (nl_malloc nl_map 10000 nl_start)) \<and> nl_ok pa_inv (snd (nl_malloc nl_map 10000 nl_start)) S' Bg'"
  using malloc_free_safe [OF nl_start_ok, where n = 10000 and h = 0 and k = 0 and S' = "[]" and Bg' = "[]"] nl_start_big
  by (auto simp: split_beta HEAD_def)




end
