(* ===== verification/SendCheck.thy ===== *)
theory SendCheck
  imports JournalInv
begin

text \<open>
  The check of a thread crossing (stdlib/runtime_core.c, nurl_sendck_begin to
  nurl_send_check_fail): the walk over a value names each counted block once for every place that holds it, and
  the end of the walk panics when a block has more owners than the walk met. The table of the
  blocks is linear probing in the thread's own 32 entries, or in a heap block once it is half full.

  A block is its address; its first word, the count of its owners, is read through \<open>owners\<close>. A name is a C
  string that may be null. Growing the table never fails here (the source aborts when memory is out).
\<close>

section \<open>State\<close>

record send_seen =
  ss_blk :: nat
  ss_name :: "string option"
  ss_seen :: int

datatype sk_ptr = SkNull | SkSmall | SkHeap "send_seen list"

record sk_state =
  sk_small :: "send_seen list"
  sk_tab :: sk_ptr
  sk_cap :: nat
  sk_len :: nat
  sk_depth :: int

definition NURL__SK_SMALL :: nat where
  "NURL__SK_SMALL = 32"

definition ss_zero :: send_seen where
  "ss_zero = \<lparr>ss_blk = 0, ss_name = None, ss_seen = 0\<rparr>"

definition sk_boot :: sk_state where
  "sk_boot = \<lparr>sk_small = replicate NURL__SK_SMALL ss_zero, sk_tab = SkNull, sk_cap = 0, sk_len = 0, sk_depth = 0\<rparr>"

section \<open>Operations\<close>

fun ctzll :: "nat \<Rightarrow> nat" where
  "ctzll n = (if n = 0 \<or> odd n then 0 else Suc (ctzll (n div 2)))"

declare ctzll.simps [simp del]

definition sk_slot :: "nat \<Rightarrow> nat \<Rightarrow> nat" where
  "sk_slot cap blk = fib_hash blk div 2 ^ (64 - ctzll cap)"

text \<open>The array that the table pointer names, and a store through it.\<close>

definition sk_arr :: "sk_state \<Rightarrow> send_seen list" where
  "sk_arr s = (case sk_tab s of SkNull \<Rightarrow> [] | SkSmall \<Rightarrow> sk_small s | SkHeap t \<Rightarrow> t)"

definition sk_put :: "send_seen list \<Rightarrow> sk_state \<Rightarrow> sk_state" where
  "sk_put t s = (case sk_tab s of SkNull \<Rightarrow> s | SkSmall \<Rightarrow> s\<lparr>sk_small := t\<rparr> | SkHeap _ \<Rightarrow> s\<lparr>sk_tab := SkHeap t\<rparr>)"

definition nurl_sendck_begin :: "sk_state \<Rightarrow> sk_state" where
  "nurl_sendck_begin s = s\<lparr>sk_depth := sk_depth s + 1\<rparr>"

definition sk_grow :: "sk_state \<Rightarrow> sk_state option" where
  "sk_grow s = (let ncap = sk_cap s * 2 in do {
     nt \<leftarrow> rehash sk_slot ss_blk (sk_arr s) (replicate ncap ss_zero);
     Some (s\<lparr>sk_small := (if sk_tab s = SkSmall then replicate NURL__SK_SMALL ss_zero else sk_small s),
       sk_tab := SkHeap nt, sk_cap := ncap\<rparr>)
   })"

definition nurl_sendck_visit :: "nat \<Rightarrow> string option \<Rightarrow> sk_state \<Rightarrow> (bool \<times> sk_state) option" where
  "nurl_sendck_visit blk name s =
    (if blk = 0 then Some (False, s)
     else do {
       let s1 = (if sk_tab s = SkNull then s\<lparr>sk_tab := SkSmall, sk_cap := NURL__SK_SMALL\<rparr> else s);
       s2 \<leftarrow> (if 2 * (sk_len s1 + 1) > sk_cap s1 then sk_grow s1 else Some s1);
       h \<leftarrow> probe ss_blk (sk_arr s2) blk (sk_slot (sk_cap s2) blk);
       let e = sk_arr s2 ! h;
       if ss_blk e \<noteq> 0 then Some (False, sk_put ((sk_arr s2)[h := e\<lparr>ss_seen := ss_seen e + 1\<rparr>]) s2)
       else Some (True, (sk_put ((sk_arr s2)[h := \<lparr>ss_blk = blk, ss_name = name, ss_seen = 1\<rparr>]) s2)\<lparr>sk_len := sk_len s2 + 1\<rparr>)
     })"

text \<open>The loop of the end: the first name found of a block with too many owners, and every slot empty.\<close>

primrec end_bad :: "(nat \<Rightarrow> int) \<Rightarrow> send_seen list \<Rightarrow> string option \<Rightarrow> string option" where
  "end_bad owners [] bad = bad"
| "end_bad owners (e # es) bad =
    (if ss_blk e = 0 then end_bad owners es bad
     else end_bad owners es (if bad = None \<and> owners (ss_blk e) > ss_seen e then ss_name e else bad))"

definition end_clear :: "send_seen list \<Rightarrow> send_seen list" where
  "end_clear t = map (\<lambda>e. e\<lparr>ss_blk := 0\<rparr>) t"

primrec put_str :: "string \<Rightarrow> nat \<Rightarrow> string \<Rightarrow> string" where
  "put_str [] lim out = out"
| "put_str (c # cs) lim out = (if length out < lim then put_str cs lim (out @ [c]) else out)"

definition or_default :: "string option \<Rightarrow> string \<Rightarrow> string" where
  "or_default s d = (case s of None \<Rightarrow> d | Some x \<Rightarrow> if x = [] then d else x)"

definition send_check_message :: "string option \<Rightarrow> string option \<Rightarrow> string" where
  "send_check_message what ty =
    (let lim = 639;
         p1 = put_str (or_default what ''a thread crossing'') lim [];
         p2 = put_str ('': a '' @ [CHR 0x27]) lim p1;
         p3 = put_str (or_default ty ''handle'') lim p2
     in put_str ([CHR 0x27] @ '' crosses between threads with another owner of the same state left on '' @
          ''this side (a share, a struct, Vec or closure holding one, a copy taken out '' @
          ''of a Locked), and two threads would change one state in place with no '' @
          ''lock. Hand over the only owner, or keep the state behind a Locked and '' @
          ''share that (docs/MEMORY.md 6.5)'') lim p3)"

text \<open>The result is the message of the panic, when there is one.\<close>

definition nurl_sendck_end :: "(nat \<Rightarrow> int) \<Rightarrow> string option \<Rightarrow> sk_state \<Rightarrow> string option \<times> sk_state" where
  "nurl_sendck_end owners what s =
    (let s1 = s\<lparr>sk_depth := sk_depth s - 1\<rparr> in
     if sk_depth s1 > 0 then (None, s1)
     else
       let bad = end_bad owners (sk_arr s1) None;
           s2 = (sk_put (end_clear (sk_arr s1)) s1)\<lparr>sk_depth := 0, sk_len := 0\<rparr>;
           s3 = (case sk_tab s2 of SkHeap _ \<Rightarrow> s2\<lparr>sk_tab := SkSmall, sk_cap := NURL__SK_SMALL\<rparr> | _ \<Rightarrow> s2)
       in (case bad of None \<Rightarrow> None | Some ty \<Rightarrow> Some (send_check_message what (Some ty)), s3))"

section \<open>What a walk is\<close>

text \<open>A walk visits blocks, with nested walks inside it. \<open>visits_of\<close> counts the places that hold a block.\<close>

datatype sk_event = Visit nat "string option" | Nest | Unnest "string option"

fun sk_run :: "(nat \<Rightarrow> int) \<Rightarrow> sk_event list \<Rightarrow> sk_state \<Rightarrow> (bool list \<times> sk_state) option" where
  "sk_run owners [] s = Some ([], s)"
| "sk_run owners (Visit b n # es) s = do {
     (r, s1) \<leftarrow> nurl_sendck_visit b n s;
     (rs, s2) \<leftarrow> sk_run owners es s1;
     Some (r # rs, s2)
   }"
| "sk_run owners (Nest # es) s = sk_run owners es (nurl_sendck_begin s)"
| "sk_run owners (Unnest w # es) s =
    (let (m, s1) = nurl_sendck_end owners w s in if m = None then sk_run owners es s1 else None)"

fun nested :: "nat \<Rightarrow> sk_event list \<Rightarrow> bool" where
  "nested d [] \<longleftrightarrow> d = 0"
| "nested d (Visit b n # es) \<longleftrightarrow> nested d es"
| "nested d (Nest # es) \<longleftrightarrow> nested (Suc d) es"
| "nested d (Unnest w # es) \<longleftrightarrow> d > 0 \<and> nested (d - 1) es"

fun visited :: "sk_event list \<Rightarrow> (nat \<times> string option) list" where
  "visited [] = []"
| "visited (Visit b n # es) = (b, n) # visited es"
| "visited (_ # es) = visited es"

definition visits_of :: "nat \<Rightarrow> (nat \<times> string option) list \<Rightarrow> nat" where
  "visits_of b vs = count_list (map fst vs) b"

fun firsts :: "nat set \<Rightarrow> (nat \<times> string option) list \<Rightarrow> bool list" where
  "firsts S [] = []"
| "firsts S ((b, n) # vs) = (b \<noteq> 0 \<and> b \<notin> S) # firsts (insert b S) vs"

section \<open>The table\<close>

lemma ctzll_pow: "ctzll (2 ^ k) = k"
proof (induction k)
  case 0
  show ?case by (subst ctzll.simps) simp
next
  case (Suc k)
  then show ?case by (subst ctzll.simps) simp
qed

interpretation sk: hashed sk_slot ss_blk
  by unfold_locales (simp add: sk_slot_def ctzll_pow top_bits_bound [OF fib_hash_bound])

definition holds_table :: "send_seen list \<Rightarrow> (nat \<times> string option) list \<Rightarrow> bool" where
  "holds_table t vs \<longleftrightarrow> pt_ok sk_slot ss_blk t \<and> pt_keys ss_blk t = fst ` set vs - {0} \<and>
    (\<forall>e \<in> set (pt_live ss_blk t). ss_seen e = int (visits_of (ss_blk e) vs) \<and> Some (ss_name e) = map_of vs (ss_blk e))"

definition all_empty :: "send_seen list \<Rightarrow> bool" where
  "all_empty t \<longleftrightarrow> list_all (\<lambda>e. ss_blk e = 0) t"

definition sk_ok :: "sk_state \<Rightarrow> bool" where
  "sk_ok s \<longleftrightarrow> length (sk_small s) = 32 \<and> (sk_tab s \<noteq> SkSmall \<longrightarrow> all_empty (sk_small s)) \<and>
    sk_cap s = length (sk_arr s) \<and> (sk_tab s \<noteq> SkNull \<longrightarrow> (\<exists>k \<ge> 5. sk_cap s = 2 ^ k)) \<and>
    sk_len s = length (pt_live ss_blk (sk_arr s)) \<and> 2 * sk_len s \<le> sk_cap s"

definition sk_idle :: "sk_state \<Rightarrow> bool" where
  "sk_idle s \<longleftrightarrow> sk_ok s \<and> sk_len s = 0 \<and> sk_depth s = 0"

lemma sk_put_simps [simp]:
  "sk_len (sk_put t s) = sk_len s" "sk_depth (sk_put t s) = sk_depth s" "sk_cap (sk_put t s) = sk_cap s"
  by (simp_all add: sk_put_def split: sk_ptr.split)

lemma sk_arr_put: "sk_tab s \<noteq> SkNull \<Longrightarrow> sk_arr (sk_put t s) = t"
  by (simp add: sk_put_def sk_arr_def split: sk_ptr.split)

lemma sk_arr_upd [simp]: "sk_arr (s\<lparr>sk_len := n\<rparr>) = sk_arr s" "sk_arr (s\<lparr>sk_depth := d\<rparr>) = sk_arr s"
  by (simp_all add: sk_arr_def split: sk_ptr.split)

lemma sk_ok_depth [simp]: "sk_ok (s\<lparr>sk_depth := d\<rparr>) = sk_ok s"
  by (simp add: sk_ok_def)

lemma sk_put_len: "(sk_put t s)\<lparr>sk_len := sk_len s\<rparr> = sk_put t s"
  by (simp add: sk_put_def split: sk_ptr.split)

lemma sk_ok_put:
  assumes "sk_ok s" "sk_tab s \<noteq> SkNull" "length t = sk_cap s" "n = length (pt_live ss_blk t)" "2 * n \<le> sk_cap s"
  shows "sk_ok ((sk_put t s)\<lparr>sk_len := n\<rparr>)"
  using assms by (cases "sk_tab s") (auto simp: sk_ok_def sk_put_def sk_arr_def)

lemma pt_ok_cong:
  assumes "map ss_blk t = map ss_blk u" "pt_ok sk_slot ss_blk t"
  shows "pt_ok sk_slot ss_blk u"
proof -
  have l: "length t = length u" using assms(1) by (metis length_map)
  have "ss_blk (u ! i) = ss_blk (t ! i)" if "i < length u" for i using assms(1) l that by (metis nth_map)
  moreover have "at_dist sk_slot t p d < length u" if "j < length u" for p d and j :: nat
    unfolding at_dist_def l by (rule mod_less_divisor) (use that in linarith)
  moreover have "at_dist sk_slot u p d = at_dist sk_slot t p d" for p d by (simp add: at_dist_def l)
  ultimately show ?thesis using assms(2) l unfolding pt_ok_def by (metis (no_types, lifting))
qed

text \<open>Counting one more visit at the slot of a block.\<close>

lemma live_upd_same:
  assumes "pt_ok sk_slot ss_blk t" "j < length t" "ss_blk (t ! j) \<noteq> 0" "ss_blk x = ss_blk (t ! j)"
  shows "e \<in> set (pt_live ss_blk (t[j := x])) \<longleftrightarrow> e = x \<or> e \<in> set (pt_live ss_blk t) \<and> ss_blk e \<noteq> ss_blk x"
    and "length (pt_live ss_blk (t[j := x])) = length (pt_live ss_blk t)"
    and "pt_ok sk_slot ss_blk (t[j := x])"
proof -
  have m: "map ss_blk (t[j := x]) = map ss_blk t" by (metis assms(4) list_update_id map_update)
  show "pt_ok sk_slot ss_blk (t[j := x])" by (rule pt_ok_cong [OF m [symmetric] assms(1)])
  have "length (pt_live ss_blk u) = length (filter (\<lambda>b. b \<noteq> 0) (map ss_blk u))" for u
    by (simp add: pt_live_def filter_map o_def)
  then show "length (pt_live ss_blk (t[j := x])) = length (pt_live ss_blk t)" using m by metis
  have u: "i = j" if "i < length t" "ss_blk (t ! i) = ss_blk x" for i
    using sk.pt_unique [OF assms(1) that(1) assms(2)] that(2) assms(3,4) by simp
  show "e \<in> set (pt_live ss_blk (t[j := x])) \<longleftrightarrow> e = x \<or> e \<in> set (pt_live ss_blk t) \<and> ss_blk e \<noteq> ss_blk x"
    (is "?l \<longleftrightarrow> ?r")
  proof
    assume ?l
    then obtain i where i: "i < length t" "e = t[j := x] ! i" "ss_blk e \<noteq> 0" by (auto simp: pt_live_def in_set_conv_nth)
    then show ?r using u by (cases "i = j") (auto simp: pt_live_def)
  next
    assume ?r
    then show ?l
    proof
      assume "e = x"
      then show ?l using assms(2-4) by (auto simp: pt_live_def set_update_memI)
    next
      assume "e \<in> set (pt_live ss_blk t) \<and> ss_blk e \<noteq> ss_blk x"
      then obtain i where "i < length t" "e = t ! i" "ss_blk e \<noteq> 0" "ss_blk e \<noteq> ss_blk x"
        by (auto simp: pt_live_def in_set_conv_nth)
      moreover from this have "t[j := x] ! i = e" using assms(4) by (metis nth_list_update_neq)
      ultimately show ?l by (auto simp: pt_live_def in_set_conv_nth intro!: exI [of _ i])
    qed
  qed
qed

section \<open>A visit\<close>

lemma holds_same: "holds_table t vs \<Longrightarrow> pt_ok sk_slot ss_blk u \<Longrightarrow> set (pt_live ss_blk u) = set (pt_live ss_blk t) \<Longrightarrow> holds_table u vs"
  by (simp add: holds_table_def)

lemma sk_cap_pow:
  assumes "sk_ok s" "sk_tab s \<noteq> SkNull"
  obtains k where "5 \<le> k" "sk_cap s = 2 ^ k" "32 \<le> sk_cap s"
proof -
  from assms obtain k where "5 \<le> k" "sk_cap s = 2 ^ k" unfolding sk_ok_def by blast
  with that [of k] power_increasing [of 5 k "2 :: nat"] show ?thesis by simp
qed

lemma sk_grow_ok:
  assumes "sk_ok s" "holds_table (sk_arr s) vs" "sk_tab s \<noteq> SkNull"
  obtains u where "sk_grow s = Some u" "sk_ok u" "holds_table (sk_arr u) vs" "sk_tab u \<noteq> SkNull" "sk_depth u = sk_depth s"
    "sk_len u = sk_len s" "sk_cap u = sk_cap s * 2"
proof -
  obtain k where k: "5 \<le> k" "sk_cap s = 2 ^ k" using sk_cap_pow [OF assms(1,3)] by blast
  let ?z = "replicate (sk_cap s * 2) ss_zero"
  have z: "pt_live ss_blk ?z = []" by (simp add: pt_live_replicate ss_zero_def)
  have len: "sk_len s = length (pt_live ss_blk (sk_arr s))" "2 * sk_len s \<le> sk_cap s" using assms(1) by (simp_all add: sk_ok_def)
  have "\<exists>t. rehash sk_slot ss_blk (sk_arr s) ?z = Some t \<and> pt_ok sk_slot ss_blk t \<and> length t = length ?z \<and>
    set (pt_live ss_blk t) = set (pt_live ss_blk ?z) \<union> set (pt_live ss_blk (sk_arr s)) \<and>
    length (pt_live ss_blk t) = length (pt_live ss_blk ?z) + length (pt_live ss_blk (sk_arr s))"
  proof (rule sk.rehash_ok)
    show "length ?z = 2 ^ Suc k" "5 \<le> Suc k" using k by simp_all
    show "pt_ok sk_slot ss_blk ?z" by (rule sk.pt_ok_empty) (simp add: ss_zero_def)
    show "length (pt_live ss_blk ?z) + length (pt_live ss_blk (sk_arr s)) < length ?z"
    proof -
      have "0 < sk_cap s" using k(2) by simp
      then show ?thesis unfolding z length_replicate using len by simp
    qed
    show "distinct (map ss_blk (pt_live ss_blk (sk_arr s)))" using assms(2) by (intro sk.pt_distinct) (simp add: holds_table_def)
  qed (simp add: z)
  then obtain t where t: "rehash sk_slot ss_blk (sk_arr s) ?z = Some t" "pt_ok sk_slot ss_blk t" "length t = sk_cap s * 2"
    "set (pt_live ss_blk t) = set (pt_live ss_blk (sk_arr s))" "length (pt_live ss_blk t) = sk_len s"
    using z len by auto
  define u where "u = s\<lparr>sk_small := (if sk_tab s = SkSmall then replicate NURL__SK_SMALL ss_zero else sk_small s),
       sk_tab := SkHeap t, sk_cap := sk_cap s * 2\<rparr>"
  have a: "sk_arr u = t" by (simp add: u_def sk_arr_def)
  have "\<exists>m \<ge> 5. sk_cap s * 2 = 2 ^ m" using k by (intro exI [of _ "Suc k"]) simp
  then have "sk_ok u" using assms(1) t(3,5) a unfolding sk_ok_def
    by (auto simp: u_def all_empty_def ss_zero_def NURL__SK_SMALL_def list_all_iff)
  moreover have "sk_grow s = Some u" using t(1) by (simp add: sk_grow_def Let_def u_def)
  moreover have "holds_table (sk_arr u) vs" unfolding a by (rule holds_same [OF assms(2) t(2,4)])
  ultimately show ?thesis using that [of u] by (simp add: u_def)
qed

text \<open>The table a visit probes: it is there and less than full.\<close>

lemma visit_table:
  assumes "sk_ok s" "holds_table (sk_arr s) vs"
  obtains u where
    "(let s1 = (if sk_tab s = SkNull then s\<lparr>sk_tab := SkSmall, sk_cap := NURL__SK_SMALL\<rparr> else s)
      in if 2 * (sk_len s1 + 1) > sk_cap s1 then sk_grow s1 else Some s1) = Some u"
    "sk_ok u" "holds_table (sk_arr u) vs" "sk_tab u \<noteq> SkNull" "sk_depth u = sk_depth s" "2 * (sk_len u + 1) \<le> sk_cap u"
proof -
  define s1 where "s1 = (if sk_tab s = SkNull then s\<lparr>sk_tab := SkSmall, sk_cap := NURL__SK_SMALL\<rparr> else s)"
  have s1: "sk_ok s1 \<and> holds_table (sk_arr s1) vs \<and> sk_tab s1 \<noteq> SkNull \<and> sk_depth s1 = sk_depth s"
  proof (cases "sk_tab s = SkNull")
    case True
    then have e: "all_empty (sk_small s)" "length (sk_small s) = 32" "sk_len s = 0" "sk_arr s = []"
      using assms(1) by (auto simp: sk_ok_def sk_arr_def)
    then have live: "pt_live ss_blk (sk_small s) = []" by (simp add: pt_live_def all_empty_def filter_empty_conv list_all_iff)
    have "\<exists>k \<ge> 5. NURL__SK_SMALL = 2 ^ k" by (intro exI [of _ 5]) (simp add: NURL__SK_SMALL_def)
    moreover have arr: "sk_arr s1 = sk_small s" using True by (simp add: s1_def sk_arr_def)
    ultimately have "sk_ok s1" using True e live by (simp add: s1_def sk_ok_def NURL__SK_SMALL_def)
    moreover have "pt_ok sk_slot ss_blk (sk_small s)" using e(1) by (simp add: pt_ok_def all_empty_def list_all_length)
    then have "holds_table (sk_small s) vs" using assms(2) e(4) live by (simp add: holds_table_def pt_live_def)
    ultimately show ?thesis using True arr by (simp add: s1_def)
  qed (use assms in \<open>simp add: s1_def\<close>)
  show ?thesis
  proof (cases "2 * (sk_len s1 + 1) > sk_cap s1")
    case True
    obtain u where u: "sk_grow s1 = Some u" "sk_ok u" "holds_table (sk_arr u) vs" "sk_tab u \<noteq> SkNull" "sk_depth u = sk_depth s1"
      "sk_len u = sk_len s1" "sk_cap u = sk_cap s1 * 2"
      using sk_grow_ok [of s1 vs] s1 by metis
    have "sk_cap s1 \<ge> 32" using s1 sk_cap_pow [of s1] by blast
    moreover have "2 * sk_len s1 \<le> sk_cap s1" using s1 by (simp add: sk_ok_def)
    ultimately show ?thesis using u s1 True by (intro that [of u]) (simp_all add: s1_def [symmetric])
  next
    case False
    then show ?thesis using s1 by (intro that [of s1]) (simp_all add: s1_def [symmetric])
  qed
qed

lemma visits_snoc: "visits_of b (vs @ [(c, n)]) = visits_of b vs + (if b = c then 1 else 0)"
  by (simp add: visits_of_def)

lemma pt_keys_map: "pt_keys ss_blk t = set (filter (\<lambda>b. b \<noteq> 0) (map ss_blk t))"
  by (auto simp: pt_live_def)

lemma holds_again:
  assumes h: "holds_table t vs" and j: "j < length t" "ss_blk (t ! j) = b" "b \<noteq> 0"
  shows "holds_table (t[j := (t ! j)\<lparr>ss_seen := ss_seen (t ! j) + 1\<rparr>]) (vs @ [(b, n)])"
proof -
  let ?x = "(t ! j)\<lparr>ss_seen := ss_seen (t ! j) + 1\<rparr>"
  have ok: "pt_ok sk_slot ss_blk t" and keys: "pt_keys ss_blk t = fst ` set vs - {0}"
    and ent: "\<And>e. e \<in> set (pt_live ss_blk t) \<Longrightarrow> ss_seen e = int (visits_of (ss_blk e) vs) \<and> Some (ss_name e) = map_of vs (ss_blk e)"
    using h unfolding holds_table_def by blast+
  have x: "ss_blk ?x = ss_blk (t ! j)" "ss_blk (t ! j) \<noteq> 0" "t ! j \<in> set (pt_live ss_blk t)" using j by (simp_all add: pt_live_def)
  note up = live_upd_same [OF ok j(1) x(2,1)]
  have "map ss_blk (t[j := ?x]) = map ss_blk t" by (metis x(1) list_update_id map_update)
  then have "pt_keys ss_blk (t[j := ?x]) = fst ` set vs - {0}" using keys unfolding pt_keys_map by metis
  moreover have "b \<in> fst ` set vs" using keys x(3) j by blast
  ultimately have "pt_keys ss_blk (t[j := ?x]) = fst ` set (vs @ [(b, n)]) - {0}" by (simp add: insert_absorb)
  moreover have "ss_seen e = int (visits_of (ss_blk e) (vs @ [(b, n)])) \<and> Some (ss_name e) = map_of (vs @ [(b, n)]) (ss_blk e)"
    if "e \<in> set (pt_live ss_blk (t[j := ?x]))" for e
  proof (cases "e = ?x")
    case True
    have a: "ss_seen (t ! j) = int (visits_of b vs)" "map_of vs b = Some (ss_name (t ! j))" using ent [OF x(3)] j(2) by simp_all
    have "map_of (vs @ [(b, n)]) b = Some (ss_name (t ! j))" using a(2) by simp
    then show ?thesis unfolding True using a(1) j(2) by (simp add: visits_snoc)
  next
    case False
    then have "e \<in> set (pt_live ss_blk t)" "ss_blk e \<noteq> b" using that up(1) j(2) by simp_all
    then show ?thesis using ent [of e] by (simp add: visits_snoc map_add_def split: option.split)
  qed
  ultimately show ?thesis using up(3) unfolding holds_table_def by blast
qed

lemma holds_new:
  assumes h: "holds_table t vs" and j: "j < length t" "ss_blk (t ! j) = 0" and b: "b \<noteq> 0" "b \<notin> fst ` set vs"
    and ok: "pt_ok sk_slot ss_blk (t[j := \<lparr>ss_blk = b, ss_name = n, ss_seen = 1\<rparr>])"
  shows "holds_table (t[j := \<lparr>ss_blk = b, ss_name = n, ss_seen = 1\<rparr>]) (vs @ [(b, n)])"
proof -
  let ?x = "\<lparr>ss_blk = b, ss_name = n, ss_seen = 1\<rparr>"
  have keys: "pt_keys ss_blk t = fst ` set vs - {0}"
    and ent: "\<And>e. e \<in> set (pt_live ss_blk t) \<Longrightarrow> ss_seen e = int (visits_of (ss_blk e) vs) \<and> Some (ss_name e) = map_of vs (ss_blk e)"
    using h unfolding holds_table_def by blast+
  note up = pt_keys_upd(1) [of j t ss_blk ?x, OF j]
  have new: "visits_of b vs = 0" "map_of vs b = None"
    using b(2) by (auto simp: visits_of_def count_list_0_iff map_of_eq_None_iff)
  have "ss_seen e = int (visits_of (ss_blk e) (vs @ [(b, n)])) \<and> Some (ss_name e) = map_of (vs @ [(b, n)]) (ss_blk e)"
    if "e \<in> set (pt_live ss_blk (t[j := ?x]))" for e
  proof (cases "e = ?x")
    case True
    then show ?thesis using new by (simp add: visits_snoc map_add_def)
  next
    case False
    then have e: "e \<in> set (pt_live ss_blk t)" using that up b(1) by simp
    then have "ss_blk e \<noteq> b" using keys b(2) by blast
    then show ?thesis using ent [OF e] by (simp add: visits_snoc map_add_def split: option.split)
  qed
  moreover have "pt_keys ss_blk (t[j := ?x]) = fst ` set (vs @ [(b, n)]) - {0}" using up b(1) keys by auto
  ultimately show ?thesis using ok unfolding holds_table_def by blast
qed

lemma visit_ok:
  assumes "sk_ok s" "holds_table (sk_arr s) vs"
  shows "\<exists>u. nurl_sendck_visit b n s = Some (b \<noteq> 0 \<and> b \<notin> fst ` set vs, u) \<and> sk_ok u \<and>
    holds_table (sk_arr u) (vs @ [(b, n)]) \<and> sk_depth u = sk_depth s"
proof (cases "b = 0")
  case True
  have "ss_blk e \<noteq> 0" if "e \<in> set (pt_live ss_blk t)" for e t using that by (simp add: pt_live_def)
  then show ?thesis using assms True by (auto simp: nurl_sendck_visit_def holds_table_def visits_snoc map_add_def split: option.split)
next
  case False
  from visit_table [OF assms] obtain u where u:
    "(let s1 = (if sk_tab s = SkNull then s\<lparr>sk_tab := SkSmall, sk_cap := NURL__SK_SMALL\<rparr> else s)
      in if 2 * (sk_len s1 + 1) > sk_cap s1 then sk_grow s1 else Some s1) = Some u"
    "sk_ok u" "holds_table (sk_arr u) vs" "sk_tab u \<noteq> SkNull" "sk_depth u = sk_depth s" "2 * (sk_len u + 1) \<le> sk_cap u" by metis
  define t where "t = sk_arr u"
  have cap: "sk_cap u = length t" "sk_len u = length (pt_live ss_blk t)" using u(2) by (simp_all add: sk_ok_def t_def)
  obtain k where k: "5 \<le> k" "length t = 2 ^ k" using sk_cap_pow [OF u(2,4)] cap(1) by metis
  have room: "length (pt_live ss_blk t) < length t" using u(6) cap by simp
  have h: "pt_ok sk_slot ss_blk t" "pt_keys ss_blk t = fst ` set vs - {0}" "holds_table t vs"
    using u(3) unfolding holds_table_def t_def by blast+
  have step: "nurl_sendck_visit b n s = (case probe ss_blk t b (sk_slot (length t) b) of None \<Rightarrow> None | Some h \<Rightarrow>
      (if ss_blk (t ! h) \<noteq> 0 then Some (False, sk_put (t[h := (t ! h)\<lparr>ss_seen := ss_seen (t ! h) + 1\<rparr>]) u)
       else Some (True, (sk_put (t[h := \<lparr>ss_blk = b, ss_name = n, ss_seen = 1\<rparr>]) u)\<lparr>sk_len := sk_len u + 1\<rparr>)))"
    using False u(1) unfolding nurl_sendck_visit_def Let_def t_def by (simp add: cap(1) t_def split: option.split)
  show ?thesis
  proof (cases "b \<in> fst ` set vs")
    case True
    then obtain j where j: "j < length t" "ss_blk (t ! j) = b" using pt_keysE [of b ss_blk t] h(2) False by auto
    let ?x = "(t ! j)\<lparr>ss_seen := ss_seen (t ! j) + 1\<rparr>"
    have "nurl_sendck_visit b n s = Some (False, sk_put (t[j := ?x]) u)"
      using step sk.probe_present [OF h(1) k(2,1) room j False] j False by simp
    moreover have "sk_ok ((sk_put (t[j := ?x]) u)\<lparr>sk_len := sk_len u\<rparr>)"
      by (rule sk_ok_put [OF u(2,4)]) (use live_upd_same(2) [OF h(1) j(1), of ?x] j False cap u(6) in simp_all)
    then have "sk_ok (sk_put (t[j := ?x]) u)" by (simp add: sk_put_len)
    ultimately show ?thesis using True u(5) sk_arr_put [OF u(4)] holds_again [OF h(3) j False] by simp
  next
    case nin: False
    then have "b \<notin> pt_keys ss_blk t" using h(2) by blast
    let ?x = "\<lparr>ss_blk = b, ss_name = n, ss_seen = 1\<rparr>"
    from sk.probe_absent [OF h(1) k(2,1) room \<open>b \<notin> pt_keys ss_blk t\<close> False, of b] obtain j where
      j: "probe ss_blk t b (sk_slot (length t) b) = Some j" "j < length t" "ss_blk (t ! j) = 0"
        "\<And>x. ss_blk x = b \<Longrightarrow> pt_ok sk_slot ss_blk (t[j := x])" by metis
    have "nurl_sendck_visit b n s = Some (True, (sk_put (t[j := ?x]) u)\<lparr>sk_len := sk_len u + 1\<rparr>)" using step j by simp
    moreover have "sk_ok ((sk_put (t[j := ?x]) u)\<lparr>sk_len := sk_len u + 1\<rparr>)"
      by (rule sk_ok_put [OF u(2,4)]) (use pt_keys_upd(2) [of j t ss_blk ?x] j False cap u(6) in simp_all)
    moreover have "holds_table (t[j := ?x]) (vs @ [(b, n)])" by (rule holds_new [OF h(3) j(2,3) False nin]) (simp add: j(4))
    ultimately show ?thesis using nin False u(5) sk_arr_put [OF u(4)] by simp
  qed
qed

section \<open>A walk and its end\<close>

lemma run_ok:
  assumes "sk_ok s" "holds_table (sk_arr s) vs" "sk_depth s = 1 + int d" "nested d es"
  shows "\<exists>t. sk_run owners es s = Some (firsts (fst ` set vs) (visited es), t) \<and> sk_ok t \<and>
    holds_table (sk_arr t) (vs @ visited es) \<and> sk_depth t = 1"
  using assms
proof (induction es arbitrary: s vs d)
  case (Cons e es)
  show ?case
  proof (cases e)
    case (Visit b n)
    from visit_ok [OF Cons.prems(1,2), of b n] obtain u where
      u: "nurl_sendck_visit b n s = Some (b \<noteq> 0 \<and> b \<notin> fst ` set vs, u)" "sk_ok u"
        "holds_table (sk_arr u) (vs @ [(b, n)])" "sk_depth u = sk_depth s" by blast
    from Cons.IH [OF u(2,3), of d] u(4) Cons.prems(3,4) Visit u(1) show ?thesis by (auto simp: image_Un)
  next
    case Nest
    have "sk_ok (nurl_sendck_begin s)" using Cons.prems(1) by (simp add: nurl_sendck_begin_def)
    then show ?thesis using Cons.IH [of "nurl_sendck_begin s" vs "Suc d"] Cons.prems Nest by (simp add: nurl_sendck_begin_def)
  next
    case (Unnest w)
    then have e: "nurl_sendck_end owners w s = (None, s\<lparr>sk_depth := sk_depth s - 1\<rparr>)" "d > 0"
      using Cons.prems(3,4) by (simp_all add: nurl_sendck_end_def Let_def)
    show ?thesis using Cons.IH [of "s\<lparr>sk_depth := sk_depth s - 1\<rparr>" vs "d - 1"] Cons.prems Unnest e by simp
  qed
qed simp

lemma end_bad_some: "end_bad owners t (Some x) = Some x"
  by (induction t) simp_all

lemma end_bad_cases:
  "(case end_bad owners t None of
      None \<Rightarrow> \<forall>e \<in> set (pt_live ss_blk t). owners (ss_blk e) > ss_seen e \<longrightarrow> ss_name e = None
    | Some x \<Rightarrow> \<exists>e \<in> set (pt_live ss_blk t). owners (ss_blk e) > ss_seen e \<and> ss_name e = Some x)"
proof (induction t)
  case (Cons e t)
  show ?case
  proof (cases "ss_blk e \<noteq> 0 \<and> owners (ss_blk e) > ss_seen e \<and> ss_name e \<noteq> None")
    case True
    then obtain x where x: "ss_name e = Some x" by blast
    show ?thesis using True x by (auto simp: end_bad_some pt_live_def)
  next
    case False
    then have "end_bad owners (e # t) None = end_bad owners t None" by auto
    with Cons False show ?thesis by (auto simp: pt_live_def split: option.splits)
  qed
qed (simp add: pt_live_def)

definition overheld :: "(nat \<Rightarrow> int) \<Rightarrow> (nat \<times> string option) list \<Rightarrow> nat \<Rightarrow> string \<Rightarrow> bool" where
  "overheld owners vs b ty \<longleftrightarrow> b \<noteq> 0 \<and> map_of vs b = Some (Some ty) \<and> owners b > int (visits_of b vs)"

lemma overheld_entry:
  assumes "holds_table t vs"
  shows "(\<exists>b. overheld owners vs b ty) \<longleftrightarrow> (\<exists>e \<in> set (pt_live ss_blk t). owners (ss_blk e) > ss_seen e \<and> ss_name e = Some ty)"
proof -
  have keys: "pt_keys ss_blk t = fst ` set vs - {0}"
    and ent: "\<And>e. e \<in> set (pt_live ss_blk t) \<Longrightarrow> ss_seen e = int (visits_of (ss_blk e) vs) \<and> Some (ss_name e) = map_of vs (ss_blk e)"
    using assms unfolding holds_table_def by blast+
  show ?thesis
  proof
    assume "\<exists>b. overheld owners vs b ty"
    then obtain b where b: "b \<noteq> 0" "map_of vs b = Some (Some ty)" "owners b > int (visits_of b vs)" unfolding overheld_def by blast
    have "b \<in> fst ` set vs" using map_of_SomeD [OF b(2)] by (metis fst_conv imageI)
    then have "b \<in> pt_keys ss_blk t" unfolding keys using b(1) by simp
    then obtain e where "e \<in> set (pt_live ss_blk t)" "b = ss_blk e" by (rule imageE) blast
    moreover from this ent [of e] b have "owners (ss_blk e) > ss_seen e" "ss_name e = Some ty" by simp_all
    ultimately show "\<exists>e \<in> set (pt_live ss_blk t). owners (ss_blk e) > ss_seen e \<and> ss_name e = Some ty" by blast
  next
    assume "\<exists>e \<in> set (pt_live ss_blk t). owners (ss_blk e) > ss_seen e \<and> ss_name e = Some ty"
    then obtain e where e: "e \<in> set (pt_live ss_blk t)" "owners (ss_blk e) > ss_seen e" "ss_name e = Some ty" by blast
    have "overheld owners vs (ss_blk e) ty" unfolding overheld_def
    proof (intro conjI)
      show "ss_blk e \<noteq> 0" using e(1) by (simp add: pt_live_def)
      show "map_of vs (ss_blk e) = Some (Some ty)" using ent [OF e(1)] e(3) by metis
      show "owners (ss_blk e) > int (visits_of (ss_blk e) vs)" using ent [OF e(1)] e(2) by linarith
    qed
    then show "\<exists>b. overheld owners vs b ty" ..
  qed
qed

lemma end_clear_live: "pt_live ss_blk (end_clear t) = []" "all_empty (end_clear t)" "length (end_clear t) = length t"
  by (auto simp: end_clear_def pt_live_def filter_empty_conv all_empty_def list_all_iff)

lemma end_state:
  assumes "sk_depth s = 1"
  shows "snd (nurl_sendck_end owners what s) =
    (case sk_tab s of SkNull \<Rightarrow> s\<lparr>sk_depth := 0, sk_len := 0\<rparr>
     | SkSmall \<Rightarrow> s\<lparr>sk_small := end_clear (sk_small s), sk_depth := 0, sk_len := 0\<rparr>
     | SkHeap t \<Rightarrow> s\<lparr>sk_tab := SkSmall, sk_cap := NURL__SK_SMALL, sk_depth := 0, sk_len := 0\<rparr>)"
  using assms by (simp add: nurl_sendck_end_def Let_def sk_arr_def sk_put_def split: sk_ptr.split)

lemma end_idle:
  assumes "sk_ok s" "sk_depth s = 1"
  shows "sk_idle (snd (nurl_sendck_end owners what s))"
proof (cases "sk_tab s")
  case SkNull
  then show ?thesis using assms(1) unfolding end_state [OF assms(2)] by (simp add: sk_idle_def sk_ok_def sk_arr_def pt_live_def)
next
  case SkSmall
  have "\<exists>k \<ge> 5. (2 :: nat) ^ k = 32" by (intro exI [of _ 5]) simp
  with SkSmall show ?thesis using assms(1) unfolding end_state [OF assms(2)]
    by (simp add: sk_idle_def sk_ok_def sk_arr_def end_clear_live)
next
  case (SkHeap t)
  have "\<exists>k \<ge> 5. (32 :: nat) = 2 ^ k" by (intro exI [of _ 5]) simp
  moreover have "all_empty (sk_small s)" "length (sk_small s) = 32" using assms(1) SkHeap by (simp_all add: sk_ok_def)
  moreover from this(1) have "pt_live ss_blk (sk_small s) = []" by (simp add: pt_live_def all_empty_def filter_empty_conv list_all_iff)
  ultimately show ?thesis using SkHeap unfolding end_state [OF assms(2)]
    by (simp add: sk_idle_def sk_ok_def sk_arr_def NURL__SK_SMALL_def)
qed

lemma idle_holds: "sk_idle s \<Longrightarrow> holds_table (sk_arr s) []"
  by (auto simp: sk_idle_def sk_ok_def holds_table_def pt_ok_def pt_live_def filter_empty_conv)

text \<open>C25. The check of a thread crossing is exact. Over any walk, however nested and however many blocks
  it meets, a visit answers 1 exactly the first time its block is met; the end panics exactly when
  some block has more owners than the walk met places holding it (and a name), its message names
  such a block's handle, and the table is ready for the next walk.\<close>

theorem sendck_exact:
  assumes "sk_idle s" and "nested 0 es"
  shows "\<exists>t m u. sk_run owners es (nurl_sendck_begin s) = Some (firsts {} (visited es), t) \<and>
    nurl_sendck_end owners what t = (m, u) \<and> sk_idle u \<and>
    (m = None \<longleftrightarrow> (\<nexists>b ty. overheld owners (visited es) b ty)) \<and>
    (m = None \<or> (\<exists>b ty. overheld owners (visited es) b ty \<and> m = Some (send_check_message what (Some ty))))"
proof -
  have "sk_ok (nurl_sendck_begin s)" "sk_depth (nurl_sendck_begin s) = 1" "sk_arr (nurl_sendck_begin s) = sk_arr s"
    using assms(1) by (simp_all add: sk_idle_def nurl_sendck_begin_def)
  with run_ok [of "nurl_sendck_begin s" "[]" 0 es owners] idle_holds [OF assms(1)] assms(2) obtain t where
    t: "sk_run owners es (nurl_sendck_begin s) = Some (firsts {} (visited es), t)" "sk_ok t"
      "holds_table (sk_arr t) (visited es)" "sk_depth t = 1" by auto
  define bad where "bad = end_bad owners (sk_arr t) None"
  have m: "fst (nurl_sendck_end owners what t) = (case bad of None \<Rightarrow> None | Some ty \<Rightarrow> Some (send_check_message what (Some ty)))"
    using t(4) by (simp add: nurl_sendck_end_def Let_def bad_def)
  have some: "\<exists>b. overheld owners (visited es) b ty" if "bad = Some ty" for ty
    using end_bad_cases [where owners = owners and t = "sk_arr t"] that
    unfolding overheld_entry [OF t(3)] bad_def by simp
  have "bad \<noteq> None" if "overheld owners (visited es) b ty" for b ty
  proof -
    from that have "\<exists>e \<in> set (pt_live ss_blk (sk_arr t)). owners (ss_blk e) > ss_seen e \<and> ss_name e = Some ty"
      unfolding overheld_entry [OF t(3), symmetric] by blast
    then show ?thesis using end_bad_cases [where owners = owners and t = "sk_arr t"] unfolding bad_def by (cases "end_bad owners (sk_arr t) None") auto
  qed
  with some have "bad = None \<longleftrightarrow> (\<nexists>b ty. overheld owners (visited es) b ty)" by (metis not_None_eq)
  moreover obtain m u where e: "nurl_sendck_end owners what t = (m, u)" by fastforce
  moreover have "sk_idle u" "m = (case bad of None \<Rightarrow> None | Some ty \<Rightarrow> Some (send_check_message what (Some ty)))"
    using end_idle [OF t(2,4), of owners what] m e by simp_all
  ultimately show ?thesis using t(1) some by (cases bad) auto
qed

theorem sendck_exact_witness:
  "sk_idle sk_boot \<and>
   (\<exists>t u. sk_run (\<lambda>b. if b = 8 then 3 else 1) [Visit 8 (Some ''Cell''), Nest, Visit 8 (Some ''Cell''), Unnest None, Visit 16 None]
       (nurl_sendck_begin sk_boot) = Some ([True, False, True], t) \<and>
     nurl_sendck_end (\<lambda>b. if b = 8 then 3 else 1) (Some ''chan_send'') t =
       (Some (send_check_message (Some ''chan_send'') (Some ''Cell'')), u))"
proof -
  let ?es = "[Visit 8 (Some ''Cell''), Nest, Visit 8 (Some ''Cell''), Unnest None, Visit 16 None]"
  let ?o = "\<lambda>b :: nat. if b = 8 then 3 else 1 :: int"
  have i: "sk_idle sk_boot"
    by (simp add: sk_idle_def sk_ok_def sk_boot_def sk_arr_def all_empty_def list_all_iff ss_zero_def NURL__SK_SMALL_def pt_live_def)
  have o: "overheld ?o (visited ?es) b ty \<longleftrightarrow> b = 8 \<and> ty = ''Cell''" for b ty
    by (auto simp: overheld_def visits_of_def split: if_splits)
  show ?thesis using sendck_exact [OF i, of ?es ?o "Some ''chan_send''"] i unfolding o by auto
qed

end
