(* ===== verification/CmdLine.thy ===== *)
theory CmdLine
  imports Prelude "HOL-Library.Monad_Syntax" "HOL-Library.Sublist"
begin

text \<open>
  The guest's command line: the environment it states (unikernel/boot/cmdenv.c), the arguments of the
  program and the numeric keys of the boot layer (args_value, build_argv and cmdline_u64 of
  unikernel/boot/platform_x86.c).

  The command line is the list of its characters before the NUL. A buffer is the list of its
  characters, a pointer into it an offset; a store or load outside it is \<open>None\<close>.
\<close>

section \<open>The environment\<close>

abbreviation SP :: char where "SP \<equiv> CHR 0x20"
abbreviation QUOTE :: char where "QUOTE \<equiv> CHR 0x22"
abbreviation EQUALS :: char where "EQUALS \<equiv> CHR 0x3D"
abbreviation NULC :: char where "NULC \<equiv> CHR 0x00"

definition put :: "nat \<Rightarrow> char \<Rightarrow> string \<Rightarrow> string option" where
  "put i c buf = (if i < length buf then Some (buf[i := c]) else None)"

text \<open>The inner loop over one token: what is left of the line, whether an equals sign was seen, whether the
  buffer is full, where the next character goes, and the buffer.\<close>

fun env_token :: "nat \<Rightarrow> string \<Rightarrow> bool \<Rightarrow> bool \<Rightarrow> nat \<Rightarrow> string \<Rightarrow> (string \<times> bool \<times> bool \<times> nat \<times> string) option" where
  "env_token bufsz [] in_quote has_eq w buf = Some ([], has_eq, False, w, buf)"
| "env_token bufsz (c # p) in_quote has_eq w buf =
    (if c = SP \<and> \<not> in_quote then Some (c # p, has_eq, False, w, buf)
     else if c = QUOTE then env_token bufsz p (\<not> in_quote) has_eq w buf
     else let has_eq = (has_eq \<or> c = EQUALS) in
       if w + 2 \<ge> bufsz then Some (c # p, has_eq, True, w, buf)
       else do { buf1 \<leftarrow> put w c buf; env_token bufsz p in_quote has_eq (w + 1) buf1 })"

text \<open>A chain of comparisons that stops at the first difference.\<close>

primrec match_at :: "string \<Rightarrow> nat \<Rightarrow> string \<Rightarrow> bool option" where
  "match_at buf i [] = Some True"
| "match_at buf i (c # cs) = (if i < length buf then if buf ! i = c then match_at buf (i + 1) cs else Some False else None)"

lemma env_token_rest:
  assumes "env_token bufsz p q e w buf = Some (p', e', full, w', buf')"
  shows "length p' \<le> length p" "p \<noteq> [] \<Longrightarrow> hd p \<noteq> SP \<Longrightarrow> \<not> full \<Longrightarrow> length p' < length p"
proof -
  have le: "length p' \<le> length p" if "env_token bufsz p q e w buf = Some (p', e', full, w', buf')" for p q e w buf
    using that by (induction bufsz p q e w buf rule: env_token.induct) (force simp: Let_def split: if_splits bind_splits)+
  show "length p' \<le> length p" by (rule le [OF assms])
  show "length p' < length p" if "p \<noteq> []" "hd p \<noteq> SP" "\<not> full"
    using assms that by (cases p) (auto simp: Let_def less_Suc_eq_le intro: le split: if_splits bind_splits)
qed

lemma env_token_shrinks:
  assumes "env_token bufsz (dropWhile (\<lambda>c. c = SP) p) q e w buf = Some (p', e', full, w', buf')"
    and "dropWhile (\<lambda>c. c = SP) p \<noteq> []" "\<not> full"
  shows "length p' < length p"
proof -
  have "length p' < length (dropWhile (\<lambda>c. c = SP) p)"
    by (rule env_token_rest(2) [OF assms(1,2) _ assms(3)]) (use hd_dropWhile [OF assms(2)] in simp)
  then show ?thesis using length_dropWhile_le [of "\<lambda>c. c = SP" p] by simp
qed

function env_loop :: "nat \<Rightarrow> nat \<Rightarrow> string \<Rightarrow> nat \<Rightarrow> string \<Rightarrow> nat list \<Rightarrow> (string \<times> nat list) option" where
  "env_loop bufsz envmax p w buf envv =
    (if p = [] \<or> length envv \<ge> envmax then Some (buf, envv)
     else let p1 = dropWhile (\<lambda>c. c = SP) p in
       if p1 = [] then Some (buf, envv)
       else case env_token bufsz p1 False False w buf of None \<Rightarrow> None
       | Some (p2, has_eq, full, w2, buf2) \<Rightarrow>
         if full then Some (buf2, envv)
         else case put w2 NULC buf2 of None \<Rightarrow> None
         | Some buf3 \<Rightarrow>
           (case match_at buf3 w ''args='' of None \<Rightarrow> None
            | Some is_args \<Rightarrow>
              if has_eq \<and> \<not> is_args then env_loop bufsz envmax p2 (w2 + 1) buf3 (envv @ [w])
              else env_loop bufsz envmax p2 w buf3 envv))"
  by pat_completeness auto
termination
  by (relation "measure (\<lambda>(_, _, p, _). length p)") (auto simp del: dropWhile_eq_Nil_conv dest: env_token_shrinks)

declare env_loop.simps [simp del]

definition nl_env_from_cmdline :: "string option \<Rightarrow> string \<Rightarrow> nat \<Rightarrow> (string \<times> nat list) option" where
  "nl_env_from_cmdline cl buf envmax =
    (case cl of None \<Rightarrow> Some (buf, []) | Some p \<Rightarrow> env_loop (length buf) envmax p 0 buf [])"

section \<open>The arguments\<close>

definition ARGV_MAX :: nat where
  "ARGV_MAX = 32"

text \<open>The scan for the key, with the character before the place it looks at.\<close>

fun find_args :: "char option \<Rightarrow> string \<Rightarrow> (char option \<times> string) option" where
  "find_args prev [] = None"
| "find_args prev (c # p) =
    (if take 5 (c # p) \<noteq> ''args='' then find_args (Some c) p
     else if prev \<noteq> None \<and> prev \<noteq> Some SP \<and> prev \<noteq> Some QUOTE then find_args (Some c) p
     else Some (prev, c # p))"

definition args_value :: "char option \<Rightarrow> string \<Rightarrow> char \<times> string" where
  "args_value prev p =
    (let v = drop 5 p in
     if v \<noteq> [] \<and> hd v = QUOTE then (QUOTE, tl v)
     else if prev = Some QUOTE then (QUOTE, v)
     else (SP, v))"

primrec copy_args :: "char \<Rightarrow> string \<Rightarrow> nat \<Rightarrow> string \<Rightarrow> nat \<times> string" where
  "copy_args end [] n buf = (n, buf)"
| "copy_args end (c # q) n buf = (if c \<noteq> end \<and> n < length buf - 1 then copy_args end q (n + 1) (buf[n := c]) else (n, buf))"

function zero_spaces :: "nat \<Rightarrow> nat \<Rightarrow> string \<Rightarrow> nat \<times> string" where
  "zero_spaces n i buf = (if i < n \<and> buf ! i = SP then zero_spaces n (i + 1) (buf[i := NULC]) else (i, buf))"
  by pat_completeness auto
termination by (relation "measure (\<lambda>(n, i, _). n - i)") auto

function skip_word :: "nat \<Rightarrow> nat \<Rightarrow> string \<Rightarrow> nat" where
  "skip_word n i buf = (if i < n \<and> buf ! i \<noteq> SP then skip_word n (i + 1) buf else i)"
  by pat_completeness auto
termination by (relation "measure (\<lambda>(n, i, _). n - i)") auto

declare zero_spaces.simps [simp del] skip_word.simps [simp del]

lemma zero_spaces_stop:
  assumes "zero_spaces n i buf = (j, b)"
  shows "i \<le> j" "j < n \<Longrightarrow> b ! j \<noteq> SP"
  using assms by (induction n i buf rule: zero_spaces.induct) (subst (asm) zero_spaces.simps; auto split: if_splits)+

lemma skip_word_ge: "i \<le> skip_word n i buf"
  by (induction n i buf rule: skip_word.induct) (subst skip_word.simps; auto)

lemma skip_word_gt: "i < n \<Longrightarrow> buf ! i \<noteq> SP \<Longrightarrow> i < skip_word n i buf"
  by (subst skip_word.simps) (use skip_word_ge [of "i + 1" n buf] in simp)

lemma split_shrinks:
  assumes "(j, b) = zero_spaces n i buf" "\<not> n \<le> j" "i < n"
  shows "n - skip_word n j b < n - i"
  using zero_spaces_stop [of n i buf j b] skip_word_gt [of j n b] assms by simp

function split_args :: "nat \<Rightarrow> nat \<Rightarrow> string \<Rightarrow> nat list \<Rightarrow> string \<times> nat list" where
  "split_args n i buf argv =
    (if i < n \<and> Suc (length argv) < ARGV_MAX
     then case zero_spaces n i buf of (j, buf1) \<Rightarrow>
       if j \<ge> n then (buf1, argv) else split_args n (skip_word n j buf1) buf1 (argv @ [j])
     else (buf, argv))"
  by pat_completeness auto
termination
  by (relation "measure (\<lambda>(n, i, _). n - i)") (auto intro: split_shrinks)

declare split_args.simps [simp del]

text \<open>The offsets of the arguments after the program's name, which is a literal, and the buffer.\<close>

definition build_argv :: "string option \<Rightarrow> string \<Rightarrow> string \<times> nat list" where
  "build_argv cl argv_buf =
    (case cl of None \<Rightarrow> (argv_buf, [])
     | Some line \<Rightarrow>
       case find_args None line of None \<Rightarrow> (argv_buf, [])
       | Some (prev, p) \<Rightarrow>
         let (end, q) = args_value prev p; (n, buf) = copy_args end q 0 argv_buf
         in split_args n 0 (buf[n := NULC]) [])"

section \<open>Numeric keys\<close>

definition cl_digit :: "char \<Rightarrow> bool" where
  "cl_digit c \<longleftrightarrow> (48 :: nat) \<le> of_char c \<and> of_char c \<le> (57 :: nat)"

fun read_digits :: "u64 \<Rightarrow> string \<Rightarrow> u64" where
  "read_digits v [] = v"
| "read_digits v (d # ds) =
    (if cl_digit d then read_digits (v * 10 + of_nat (of_char d - 48)) ds else v)"

function u64_scan :: "string \<Rightarrow> string \<Rightarrow> u64" where
  "u64_scan key p =
    (if p = [] then 0
     else let n = length (takeWhile (\<lambda>c. c \<noteq> SP \<and> c \<noteq> EQUALS) p) in
       if n = length key \<and> n < length p \<and> p ! n = EQUALS \<and> take n p = key
       then (let d = drop (n + 1) p in
             if d = [] \<or> \<not> cl_digit (hd d) then 0 else read_digits 0 d)
       else u64_scan key (dropWhile (\<lambda>c. c = SP) (dropWhile (\<lambda>c. c \<noteq> SP) p)))"
  by pat_completeness auto
termination
proof (relation "measure (\<lambda>(_, p). length p)")
  fix key p :: string and n :: nat
  assume p: "p \<noteq> []"
  have "length (dropWhile (\<lambda>c. c = SP) (dropWhile (\<lambda>c. c \<noteq> SP) p)) < length p"
  proof (cases "hd p = SP")
    case True
    then show ?thesis using p length_dropWhile_le [of "\<lambda>c. c = SP" "tl p"] by (cases p) simp_all
  next
    case False
    then have "length (dropWhile (\<lambda>c. c \<noteq> SP) p) < length p"
      using p length_dropWhile_le [of "\<lambda>c. c \<noteq> SP" "tl p"] by (cases p) simp_all
    then show ?thesis using length_dropWhile_le [of "\<lambda>c. c = SP" "dropWhile (\<lambda>c. c \<noteq> SP) p"] by simp
  qed
  then show "((key, dropWhile (\<lambda>c. c = SP) (dropWhile (\<lambda>c. c \<noteq> SP) p)), key, p) \<in> measure (\<lambda>(_, p). length p)" by simp
qed simp

declare u64_scan.simps [simp del]

definition cmdline_u64 :: "string option \<Rightarrow> string \<Rightarrow> u64" where
  "cmdline_u64 cmdline key = (case cmdline of None \<Rightarrow> 0 | Some p \<Rightarrow> u64_scan key p)"

end
