(* ===== verification/CmdLineProps.thy ===== *)
theory CmdLineProps
  imports CmdLine
begin

text \<open>
  What the guest makes of its command line: the environment is its assignments, in order, and the
  arguments are the words of the value of \<open>args\<close>.
\<close>

section \<open>Words of a command line\<close>

text \<open>A word ends at a space outside quotes; quotes are dropped wherever they stand.\<close>

fun cl_word :: "bool \<Rightarrow> string \<Rightarrow> string \<times> string" where
  "cl_word q [] = ([], [])"
| "cl_word q (c # p) =
    (if c = SP \<and> \<not> q then ([], c # p)
     else if c = QUOTE then cl_word (\<not> q) p
     else let (t, r) = cl_word q p in (c # t, r))"

lemma cl_word_rest: "length (snd (cl_word q p)) \<le> length p"
  by (induction q p rule: cl_word.induct) (auto simp: Let_def split: prod.splits)

lemma cl_word_shrinks:
  assumes "(t, r) = cl_word False (dropWhile (\<lambda>c. c = SP) p)" "dropWhile (\<lambda>c. c = SP) p \<noteq> []"
  shows "length r < length p"
proof -
  obtain c p' where d: "dropWhile (\<lambda>c. c = SP) p = c # p'" using assms(2) by (cases "dropWhile (\<lambda>c. c = SP) p") auto
  then have "c \<noteq> SP" using hd_dropWhile [OF assms(2)] by simp
  then have "length r \<le> length p'" using assms(1) d cl_word_rest [of _ p']
    by (auto simp: Let_def split: if_splits prod.splits) (metis snd_conv)+
  then show ?thesis using d length_dropWhile_le [of "\<lambda>c. c = SP" p] by simp
qed

function cl_words :: "string \<Rightarrow> string list" where
  "cl_words p =
    (let p1 = dropWhile (\<lambda>c. c = SP) p in
     if p1 = [] then [] else case cl_word False p1 of (t, r) \<Rightarrow> t # cl_words r)"
  by pat_completeness auto
termination
  by (relation "measure length") (auto simp del: dropWhile_eq_Nil_conv intro: cl_word_shrinks)

declare cl_words.simps [simp del]

definition env_words :: "string \<Rightarrow> string list" where
  "env_words p = filter (\<lambda>t. EQUALS \<in> set t \<and> \<not> prefix ''args='' t) (cl_words p)"

section \<open>Strings in a buffer\<close>

definition cstr_at :: "string \<Rightarrow> nat \<Rightarrow> string" where
  "cstr_at buf i = takeWhile (\<lambda>c. c \<noteq> NULC) (drop i buf)"

definition store :: "nat \<Rightarrow> string \<Rightarrow> string \<Rightarrow> string" where
  "store w t buf = take w buf @ t @ drop (w + length t) buf"

lemma store_nil [simp]: "store w [] buf = buf"
  by (simp add: store_def)

lemma store_cons: "w < length buf \<Longrightarrow> store (Suc w) t (buf[w := c]) = store w (c # t) buf"
  by (simp add: store_def take_Suc_conv_app_nth take_update_swap list_update_append)

lemma store_length [simp]: "w + length t \<le> length buf \<Longrightarrow> length (store w t buf) = length buf"
  by (simp add: store_def)

lemma store_below: "i < w \<Longrightarrow> w + length t \<le> length buf \<Longrightarrow> store w t buf ! i = buf ! i"
  by (simp add: store_def nth_append)

lemma store_inside: "i < length t \<Longrightarrow> w + length t \<le> length buf \<Longrightarrow> store w t buf ! (w + i) = t ! i"
  by (simp add: store_def nth_append)

lemma takeWhile_nul: "NULC \<notin> set t \<Longrightarrow> takeWhile (\<lambda>c. c \<noteq> NULC) (t @ NULC # r) = t"
  by (induction t) auto

lemma cstr_at_eq:
  assumes "\<forall>i < length t. buf ! (w + i) = t ! i" "buf ! (w + length t) = NULC" "w + length t < length buf" "NULC \<notin> set t"
  shows "cstr_at buf w = t"
proof -
  have "drop w buf = t @ drop (w + length t) buf"
    by (rule nth_equalityI) (use assms(1,3) in \<open>auto simp: nth_append\<close>)
  also have "drop (w + length t) buf = NULC # drop (Suc (w + length t)) buf"
    using assms(2,3) by (metis Cons_nth_drop_Suc)
  finally show ?thesis using assms(4) by (simp add: cstr_at_def takeWhile_nul)
qed

definition ends_below :: "string \<Rightarrow> nat \<Rightarrow> nat \<Rightarrow> bool" where
  "ends_below buf w i \<longleftrightarrow> (\<exists>j. i \<le> j \<and> j < w \<and> buf ! j = NULC)"

lemma cstr_at_stable:
  assumes "ends_below buf w i" "\<forall>j < w. buf' ! j = buf ! j" "w \<le> length buf" "length buf' = length buf"
  shows "cstr_at buf' i = cstr_at buf i" "ends_below buf' w i"
proof -
  obtain j where j: "i \<le> j" "j < w" "buf ! j = NULC" using assms(1) by (auto simp: ends_below_def)
  have "take w buf' = take w buf" by (rule nth_equalityI) (use assms(2-4) in auto)
  then have "drop i (take w buf') = drop i (take w buf)" by simp
  moreover have "cstr_at b i = takeWhile (\<lambda>c. c \<noteq> NULC) (drop i (take w b))" if "b ! j = NULC" "length b = length buf" for b
  proof -
    have n: "NULC \<in> set (drop i (take w b))"
      using j that assms(3) by (auto simp: in_set_conv_nth intro!: exI [of _ "j - i"])
    have "length (take w b) = w" using assms(3) that(2) by simp
    then have "drop i (take w b @ drop w b) = drop i (take w b) @ drop w b" using j unfolding drop_append by simp
    then have "drop i b = drop i (take w b) @ drop w b" by simp
    then show ?thesis unfolding cstr_at_def using takeWhile_append1 [OF n, of "\<lambda>c. c \<noteq> NULC"] by simp
  qed
  moreover have "buf' ! j = NULC" using j assms(2) by simp
  ultimately show "cstr_at buf' i = cstr_at buf i" using j(3) assms(4) by simp
  show "ends_below buf' w i" using j assms(2) by (auto simp: ends_below_def)
qed

section \<open>One token\<close>

lemma env_token_word:
  assumes "length buf = bufsz" "cl_word q p = (t, r)" "t = [] \<or> w + length t + 1 < bufsz"
  shows "env_token bufsz p q e w buf = Some (r, e \<or> EQUALS \<in> set t, False, w + length t, store w t buf)"
  using assms
proof (induction bufsz p q e w buf arbitrary: t rule: env_token.induct)
  case (2 bufsz c p q e w buf)
  show ?case
  proof (cases "(c = SP \<and> \<not> q) \<or> c = QUOTE")
    case True
    then show ?thesis using 2 by auto
  next
    case False
    then obtain t' where t: "t = c # t'" "cl_word q p = (t', r)" using "2.prems"(2) by (auto simp: Let_def split: prod.splits)
    with "2.prems" have w: "w + 2 + length t' < bufsz" by simp
    have "env_token bufsz p q (e \<or> c = EQUALS) (w + 1) (buf[w := c]) =
        Some (r, (e \<or> c = EQUALS) \<or> EQUALS \<in> set t', False, w + 1 + length t', store (w + 1) t' (buf[w := c]))"
      by (rule "2.IH"(2)) (use False w t "2.prems"(1) in \<open>auto simp: put_def\<close>)
    then show ?thesis using False w t "2.prems"(1) store_cons [of w buf t' c] by (auto simp: Let_def put_def)
  qed
qed simp

lemma env_token_full:
  assumes "length buf = bufsz" "cl_word q p = (t, r)" "\<not> (t = [] \<or> w + length t + 1 < bufsz)"
  shows "\<exists>p' e' w' buf'. env_token bufsz p q e w buf = Some (p', e', True, w', buf') \<and> length buf' = bufsz \<and> (\<forall>i < w. buf' ! i = buf ! i)"
  using assms
proof (induction bufsz p q e w buf arbitrary: t rule: env_token.induct)
  case (2 bufsz c p q e w buf)
  show ?case
  proof (cases "(c = SP \<and> \<not> q) \<or> c = QUOTE")
    case True
    then show ?thesis using 2 by auto
  next
    case False
    then obtain t' where t: "t = c # t'" "cl_word q p = (t', r)" using "2.prems"(2) by (auto simp: Let_def split: prod.splits)
    show ?thesis
    proof (cases "w + 2 \<ge> bufsz")
      case True
      then show ?thesis using False "2.prems"(1) by (auto simp: Let_def)
    next
      case w: False
      have "\<exists>p' e' w' buf'. env_token bufsz p q (e \<or> c = EQUALS) (w + 1) (buf[w := c]) = Some (p', e', True, w', buf') \<and>
          length buf' = bufsz \<and> (\<forall>i < w + 1. buf' ! i = buf[w := c] ! i)"
        by (rule "2.IH"(2)) (use False w t "2.prems"(1,3) in \<open>auto simp: put_def\<close>)
      then show ?thesis using False w "2.prems"(1) by (auto simp: Let_def put_def)
    qed
  qed
qed simp

lemma match_at_word:
  assumes "\<forall>i < length t. buf ! (w + i) = t ! i" "buf ! (w + length t) = NULC" "w + length t < length buf" "NULC \<notin> set cs"
  shows "match_at buf w cs = Some (prefix cs t)"
  using assms
proof (induction cs arbitrary: w t)
  case (Cons c cs)
  show ?case
  proof (cases t)
    case Nil
    then show ?thesis using Cons.prems by auto
  next
    case t: (Cons d ds)
    have "buf ! w = d" using Cons.prems(1) t by (auto dest: spec [of _ 0])
    moreover have "match_at buf (w + 1) cs = Some (prefix cs ds)"
      by (rule Cons.IH) (use Cons.prems t in \<open>auto dest: spec [of _ "Suc _"]\<close>)
    ultimately show ?thesis using Cons.prems t by auto
  qed
qed simp

section \<open>The whole line\<close>

lemma cl_word_set: "cl_word q p = (t, r) \<Longrightarrow> set t \<subseteq> set p \<and> set r \<subseteq> set p"
  by (induction q p arbitrary: t rule: cl_word.induct) (auto simp: Let_def split: if_splits prod.splits)

definition words_size :: "string list \<Rightarrow> nat" where
  "words_size ts = sum_list (map (\<lambda>t. length t + 1) ts)"

text \<open>What a run of the loop leaves: the entries it adds are terminated strings of the buffer, a
  prefix of the assignments that are left on the line, and all of them when they fit.\<close>

definition env_run :: "nat \<Rightarrow> nat \<Rightarrow> string \<Rightarrow> nat \<Rightarrow> string \<Rightarrow> nat list \<Rightarrow> bool" where
  "env_run bufsz envmax p w buf envv \<longleftrightarrow>
    (\<exists>buf' new. env_loop bufsz envmax p w buf envv = Some (buf', envv @ new) \<and> length buf' = bufsz \<and>
      (\<forall>i < w. buf' ! i = buf ! i) \<and> length (envv @ new) \<le> max envmax (length envv) \<and>
      (\<forall>i \<in> set new. ends_below buf' bufsz i) \<and> prefix (map (cstr_at buf') new) (env_words p) \<and>
      (length envv + length (env_words p) \<le> envmax \<and> w + words_size (cl_words p) < bufsz \<longrightarrow>
        map (cstr_at buf') new = env_words p))"

lemma env_run_stop:
  assumes "env_loop bufsz envmax p w buf envv = Some (buf', envv)" "length buf' = bufsz" "\<forall>i < w. buf' ! i = buf ! i"
    and "length envv + length (env_words p) \<le> envmax \<Longrightarrow> w + words_size (cl_words p) < bufsz \<Longrightarrow> env_words p = []"
  shows "env_run bufsz envmax p w buf envv"
  unfolding env_run_def by (intro exI [of _ buf'] exI [of _ "[]"]) (use assms in auto)

lemma env_run_entry:
  assumes "env_loop bufsz envmax p w buf envv = env_loop bufsz envmax r (w + length t + 1) b (envv @ [w])"
    and run: "env_run bufsz envmax r (w + length t + 1) b (envv @ [w])" and len: "length envv < envmax"
    and words: "cl_words p = t # cl_words r" "env_words p = t # env_words r" and room: "w + length t + 1 \<le> bufsz"
    and b: "length b = bufsz" "b ! (w + length t) = NULC" "\<forall>i < w. b ! i = buf ! i" "cstr_at b w = t"
  shows "env_run bufsz envmax p w buf envv"
proof -
  obtain buf' new where n: "env_loop bufsz envmax r (w + length t + 1) b (envv @ [w]) = Some (buf', (envv @ [w]) @ new)"
    "length buf' = bufsz" "\<forall>i < w + length t + 1. buf' ! i = b ! i" "length ((envv @ [w]) @ new) \<le> max envmax (length (envv @ [w]))"
    "\<forall>i \<in> set new. ends_below buf' bufsz i" "prefix (map (cstr_at buf') new) (env_words r)"
    "length (envv @ [w]) + length (env_words r) \<le> envmax \<and> w + length t + 1 + words_size (cl_words r) < bufsz \<longrightarrow>
        map (cstr_at buf') new = env_words r"
    using run unfolding env_run_def by blast
  have e: "ends_below b (w + length t + 1) w" using b(2) by (auto simp: ends_below_def intro!: exI [of _ "w + length t"])
  have c: "cstr_at buf' w = t" "ends_below buf' (w + length t + 1) w"
    using cstr_at_stable [OF e n(3)] n(2) b(1,4) room by simp_all
  then have "ends_below buf' bufsz w" using room by (auto simp: ends_below_def)
  then show ?thesis unfolding env_run_def words
    by (intro exI [of _ buf'] exI [of _ "w # new"]) (use assms(1) n b(3) c(1) len in \<open>auto simp: words_size_def\<close>)
qed

lemma env_run_skip:
  assumes "env_loop bufsz envmax p w buf envv = env_loop bufsz envmax r w b envv"
    and run: "env_run bufsz envmax r w b envv" and words: "cl_words p = t # cl_words r" "env_words p = env_words r"
    and b: "\<forall>i < w. b ! i = buf ! i"
  shows "env_run bufsz envmax p w buf envv"
proof -
  obtain buf' new where n: "env_loop bufsz envmax r w b envv = Some (buf', envv @ new)"
    "length buf' = bufsz" "\<forall>i < w. buf' ! i = b ! i" "length (envv @ new) \<le> max envmax (length envv)"
    "\<forall>i \<in> set new. ends_below buf' bufsz i" "prefix (map (cstr_at buf') new) (env_words r)"
    "length envv + length (env_words r) \<le> envmax \<and> w + words_size (cl_words r) < bufsz \<longrightarrow>
        map (cstr_at buf') new = env_words r"
    using run unfolding env_run_def by blast
  show ?thesis unfolding env_run_def words
    by (intro exI [of _ buf'] exI [of _ new]) (use assms(1) n b in \<open>auto simp: words_size_def\<close>)
qed

lemma env_run_all:
  assumes "length buf = bufsz" "w < bufsz" "NULC \<notin> set p"
  shows "env_run bufsz envmax p w buf envv"
  using assms
proof (induction p arbitrary: w buf envv rule: length_induct)
  case (1 p w buf envv)
  define p1 where "p1 = dropWhile (\<lambda>c. c = SP) p"
  show ?case
  proof (cases "p = [] \<or> length envv \<ge> envmax \<or> p1 = []")
    case True
    have "env_loop bufsz envmax p w buf envv = Some (buf, envv)"
      using True by (subst env_loop.simps) (auto simp: p1_def Let_def)
    moreover have "p1 = [] \<Longrightarrow> cl_words p = []" by (subst cl_words.simps) (simp add: p1_def)
    then have "p1 = [] \<Longrightarrow> env_words p = []" by (simp add: env_words_def)
    then have "env_words p = []" if "length envv + length (env_words p) \<le> envmax"
    proof -
      have "p1 = [] \<or> envmax \<le> length envv" using True by (auto simp: p1_def)
      moreover have "envmax \<le> length envv \<Longrightarrow> length (env_words p) = 0" using that by linarith
      ultimately show ?thesis using \<open>p1 = [] \<Longrightarrow> env_words p = []\<close> by auto
    qed
    ultimately show ?thesis using "1.prems"(1) by (intro env_run_stop) auto
  next
    case go: False
    obtain t r where t: "cl_word False p1 = (t, r)" by fastforce
    have words: "cl_words p = t # cl_words r" using go t by (subst cl_words.simps) (simp add: p1_def)
    have short: "length r < length p" by (rule cl_word_shrinks [of t]) (use t go in \<open>simp_all add: p1_def\<close>)
    have "set p1 \<subseteq> set p" unfolding p1_def by (metis set_dropWhileD subsetI)
    then have nul: "NULC \<notin> set t" "NULC \<notin> set r" using cl_word_set [OF t] "1.prems"(3) by auto
    show ?thesis
    proof (cases "t = [] \<or> w + length t + 1 < bufsz")
      case False
      from env_token_full [OF "1.prems"(1) t False, of False] obtain p' e' w' buf' where
        f: "env_token bufsz p1 False False w buf = Some (p', e', True, w', buf')" "length buf' = bufsz" "\<forall>i < w. buf' ! i = buf ! i" by blast
      have "env_loop bufsz envmax p w buf envv = Some (buf', envv)"
        using go f(1) by (subst env_loop.simps) (simp add: p1_def [symmetric] Let_def)
      then show ?thesis by (rule env_run_stop [OF _ f(2,3)]) (use False words in \<open>simp add: words_size_def\<close>)
    next
      case True
      define b where "b = (store w t buf)[w + length t := NULC]"
      have room: "w + length t < bufsz" using True "1.prems"(2) by auto
      have tok: "env_token bufsz p1 False False w buf = Some (r, EQUALS \<in> set t, False, w + length t, store w t buf)"
        using env_token_word [OF "1.prems"(1) t True, of False] by simp
      have pt: "put (w + length t) NULC (store w t buf) = Some b" using room "1.prems"(1) by (simp add: put_def b_def)
      have b: "length b = bufsz" "\<forall>i < length t. b ! (w + i) = t ! i" "b ! (w + length t) = NULC" "\<forall>i < w. b ! i = buf ! i"
        using room "1.prems"(1) by (simp_all add: b_def store_inside store_below)
      have m: "match_at b w ''args='' = Some (prefix ''args='' t)" by (rule match_at_word) (use b room in auto)
      have cs: "cstr_at b w = t" by (rule cstr_at_eq) (use b room nul in auto)
      have step: "env_loop bufsz envmax p w buf envv =
          (if EQUALS \<in> set t \<and> \<not> prefix ''args='' t then env_loop bufsz envmax r (w + length t + 1) b (envv @ [w])
           else env_loop bufsz envmax r w b envv)"
        using go tok pt m by (subst env_loop.simps) (simp add: p1_def [symmetric] Let_def)
      show ?thesis
      proof (cases "EQUALS \<in> set t \<and> \<not> prefix ''args='' t")
        case e: True
        then have w: "w + length t + 1 < bufsz" using True by auto
        have "env_run bufsz envmax r (w + length t + 1) b (envv @ [w])" using "1.IH" short b(1) w nul(2) by blast
        then show ?thesis
          by (rule env_run_entry [where t = t and r = r and b = b, rotated])
            (use go e w b cs step words in \<open>simp_all add: env_words_def\<close>)
      next
        case e: False
        have "env_run bufsz envmax r w b envv" using "1.IH" short b(1) "1.prems"(2) nul(2) by blast
        then show ?thesis
          by (rule env_run_skip [where t = t and r = r and b = b, rotated])
            (use e b(4) step words in \<open>auto simp: env_words_def\<close>)
      qed
    qed
  qed
qed

text \<open>C26. The guest's environment is what its command line assigns. For every command line and buffer the
  parser stays inside the buffer and yields at most the allowed number of entries, each a terminated string of
  the buffer; the entries are, in order, the assignments among the words of the line (the arguments'
  word apart), all of them when they fit and a prefix of them when they do not.\<close>

theorem cmdline_environment:
  assumes "NULC \<notin> set cl" and "0 < length buf"
  shows "\<exists>buf' envv. nl_env_from_cmdline (Some cl) buf envmax = Some (buf', envv) \<and> length buf' = length buf \<and>
    length envv \<le> envmax \<and> (\<forall>i \<in> set envv. ends_below buf' (length buf) i) \<and>
    prefix (map (cstr_at buf') envv) (env_words cl) \<and>
    (length (env_words cl) \<le> envmax \<and> words_size (cl_words cl) < length buf \<longrightarrow> map (cstr_at buf') envv = env_words cl)"
  using env_run_all [OF HOL.refl assms(2,1), of envmax "[]"] unfolding env_run_def nl_env_from_cmdline_def by auto

definition boot_line :: string where
  "boot_line = ''dns=10.0.2.3 quiet motd='' @ [QUOTE] @ ''hi all'' @ [QUOTE] @ '' args='' @ [QUOTE] @ ''a b'' @ [QUOTE]"

theorem cmdline_environment_witness:
  "\<exists>buf envv. nl_env_from_cmdline (Some boot_line) (replicate 64 NULC) 4 = Some (buf, envv) \<and>
     map (cstr_at buf) envv = [''dns=10.0.2.3'', ''motd=hi all'']"
proof -
  have w: "cl_words boot_line = [''dns=10.0.2.3'', ''quiet'', ''motd=hi all'', ''args=a b'']"
    unfolding boot_line_def by (simp add: cl_words.simps)
  have e: "env_words boot_line = [''dns=10.0.2.3'', ''motd=hi all'']" by (simp add: env_words_def w)
  have "NULC \<notin> set boot_line" "0 < length (replicate 64 NULC)" by (simp_all add: boot_line_def)
  from cmdline_environment [OF this, of 4] show ?thesis unfolding w e by (auto simp: words_size_def)
qed

section \<open>Splitting the arguments\<close>

text \<open>The words of a text, and the arguments that at most \<open>k\<close> pointers give: the last of them is not
  cut at a space.\<close>

function sp_words :: "string \<Rightarrow> string list" where
  "sp_words v =
    (let v1 = dropWhile (\<lambda>c. c = SP) v in
     if v1 = [] then [] else takeWhile (\<lambda>c. c \<noteq> SP) v1 # sp_words (dropWhile (\<lambda>c. c \<noteq> SP) v1))"
  by pat_completeness auto
termination
proof (relation "measure length")
  fix v v1 :: string
  assume v: "v1 = dropWhile (\<lambda>c. c = SP) v" "v1 \<noteq> []"
  then have "hd v1 \<noteq> SP" using hd_dropWhile [of "\<lambda>c. c = SP" v] by blast
  then have "length (dropWhile (\<lambda>c. c \<noteq> SP) v1) < length v1"
    using v(2) length_dropWhile_le [of "\<lambda>c. c \<noteq> SP" "tl v1"] by (cases v1) simp_all
  then show "(dropWhile (\<lambda>c. c \<noteq> SP) v1, v) \<in> measure length"
    using length_dropWhile_le [of "\<lambda>c. c = SP" v] v(1) by simp
qed simp

declare sp_words.simps [simp del]

fun arg_list :: "nat \<Rightarrow> string \<Rightarrow> string list" where
  "arg_list 0 v = []"
| "arg_list (Suc k) v =
    (let v1 = dropWhile (\<lambda>c. c = SP) v in
     if v1 = [] then []
     else if k = 0 then [v1]
     else takeWhile (\<lambda>c. c \<noteq> SP) v1 # arg_list k (dropWhile (\<lambda>c. c \<noteq> SP) v1))"

lemma arg_list_words: "length (sp_words v) < k \<Longrightarrow> arg_list k v = sp_words v"
proof (induction k arbitrary: v)
  case (Suc k)
  show ?case
  proof (cases "dropWhile (\<lambda>c. c = SP) v = []")
    case True
    then show ?thesis by (subst sp_words.simps) (simp add: Let_def del: dropWhile_eq_Nil_conv)
  next
    case False
    define v1 where "v1 = dropWhile (\<lambda>c. c = SP) v"
    have w: "sp_words v = takeWhile (\<lambda>c. c \<noteq> SP) v1 # sp_words (dropWhile (\<lambda>c. c \<noteq> SP) v1)"
      using False by (subst sp_words.simps) (simp add: v1_def Let_def del: dropWhile_eq_Nil_conv)
    then have "length (sp_words (dropWhile (\<lambda>c. c \<noteq> SP) v1)) < k" using Suc.prems by simp
    then show ?thesis using False Suc.IH w by (auto simp: v1_def [symmetric] Let_def)
  qed
qed simp

definition text_at :: "nat \<Rightarrow> nat \<Rightarrow> string \<Rightarrow> string" where
  "text_at n i buf = take (n - i) (drop i buf)"

lemma text_at_cons: "i < n \<Longrightarrow> n \<le> length buf \<Longrightarrow> text_at n i buf = buf ! i # text_at n (i + 1) buf"
  by (simp add: text_at_def Cons_nth_drop_Suc [symmetric] take_Cons' Suc_diff_Suc)

lemma text_at_nil: "n \<le> i \<Longrightarrow> text_at n i buf = []"
  by (simp add: text_at_def)

lemma text_at_cong: "length b = length buf \<Longrightarrow> (\<And>x. i \<le> x \<Longrightarrow> x < n \<Longrightarrow> b ! x = buf ! x) \<Longrightarrow> text_at n i b = text_at n i buf"
  unfolding text_at_def by (rule nth_equalityI) auto

lemma text_at_nth: "x < length (text_at n i buf) \<Longrightarrow> text_at n i buf ! x = buf ! (i + x)"
  by (auto simp: text_at_def)

lemma text_at_length: "n \<le> length buf \<Longrightarrow> length (text_at n i buf) = n - i"
  by (simp add: text_at_def)

lemma text_at_drop: "text_at n (i + k) buf = drop k (text_at n i buf)"
  by (simp add: text_at_def drop_take add.commute)

lemma zero_spaces_ok:
  assumes "n \<le> length buf" "zero_spaces n i buf = (j, b)"
  shows "j = i + length (takeWhile (\<lambda>c. c = SP) (text_at n i buf)) \<and> length b = length buf \<and>
    (\<forall>x. b ! x = (if i \<le> x \<and> x < j then NULC else buf ! x))"
  using assms
proof (induction n i buf rule: zero_spaces.induct)
  case (1 n i buf)
  show ?case
  proof (cases "i < n \<and> buf ! i = SP")
    case True
    then have z: "zero_spaces n (i + 1) (buf[i := NULC]) = (j, b)" using "1.prems"(2) by (subst (asm) zero_spaces.simps) simp
    have t: "text_at n (i + 1) (buf[i := NULC]) = text_at n (i + 1) buf" by (rule text_at_cong) auto
    have "j = i + 1 + length (takeWhile (\<lambda>c. c = SP) (text_at n (i + 1) buf)) \<and> length b = length buf \<and>
        (\<forall>x. b ! x = (if i + 1 \<le> x \<and> x < j then NULC else buf[i := NULC] ! x))"
      using "1.IH" [OF True _ z] "1.prems"(1) unfolding t by simp
    then show ?thesis using True "1.prems"(1) text_at_cons [of i n buf] by (auto simp: le_less nth_list_update)
  next
    case False
    then have "j = i" "b = buf" using "1.prems"(2) by (subst (asm) zero_spaces.simps; auto)+
    moreover have "takeWhile (\<lambda>c. c = SP) (text_at n i buf) = []"
      using False "1.prems"(1) text_at_cons [of i n buf] text_at_nil [of n i buf] by (cases "i < n") simp_all
    ultimately show ?thesis by auto
  qed
qed

lemma skip_word_ok:
  "n \<le> length buf \<Longrightarrow> skip_word n i buf = i + length (takeWhile (\<lambda>c. c \<noteq> SP) (text_at n i buf))"
proof (induction n i buf rule: skip_word.induct)
  case (1 n i buf)
  show ?case
  proof (cases "i < n \<and> buf ! i \<noteq> SP")
    case True
    then have "skip_word n i buf = skip_word n (i + 1) buf" by (subst skip_word.simps) simp
    then show ?thesis using "1.IH" [OF True "1.prems"] text_at_cons [of i n buf] True "1.prems" by simp
  next
    case False
    then have "skip_word n i buf = i" by (subst skip_word.simps) auto
    moreover have "takeWhile (\<lambda>c. c \<noteq> SP) (text_at n i buf) = []"
      using False "1.prems" text_at_cons [of i n buf] text_at_nil [of n i buf] by (cases "i < n") simp_all
    ultimately show ?thesis by simp
  qed
qed

lemma split_args_ok:
  assumes "n < length buf" "buf ! n = NULC" "i \<le> n" "NULC \<notin> set (text_at n i buf)" "length argv + k = 31"
  shows "\<exists>buf' new. split_args n i buf argv = (buf', argv @ new) \<and> length buf' = length buf \<and>
    (\<forall>x. x < i \<or> n \<le> x \<longrightarrow> buf' ! x = buf ! x) \<and> map (cstr_at buf') new = arg_list k (text_at n i buf) \<and>
    (0 < k \<and> i < n \<and> buf ! i = SP \<longrightarrow> buf' ! i = NULC) \<and> (k = 0 \<longrightarrow> buf' = buf)"
  using assms
proof (induction k arbitrary: i buf argv)
  case 0
  then have "split_args n i buf argv = (buf, argv)" by (subst split_args.simps) (simp add: ARGV_MAX_def)
  then show ?case by simp
next
  case (Suc k)
  show ?case
  proof (cases "i < n")
    case False
    then have "split_args n i buf argv = (buf, argv)" by (subst split_args.simps) simp
    then show ?thesis using False by (auto simp: text_at_nil)
  next
    case True
    define v where "v = text_at n i buf"
    obtain j b where z: "zero_spaces n i buf = (j, b)" by fastforce
    from zero_spaces_ok [OF less_imp_le [OF Suc.prems(1)] z] have
      j: "j = i + length (takeWhile (\<lambda>c. c = SP) v)" and b: "length b = length buf" "\<And>x. b ! x = (if i \<le> x \<and> x < j then NULC else buf ! x)"
      by (simp_all add: v_def)
    have lv: "length v = n - i" using Suc.prems(1) by (simp add: v_def text_at_length)
    have v1: "text_at n j b = dropWhile (\<lambda>c. c = SP) v"
    proof -
      have "text_at n j b = text_at n j buf" by (rule text_at_cong) (use b in auto)
      then show ?thesis unfolding j text_at_drop v_def [symmetric] by (simp add: dropWhile_eq_drop)
    qed
    have jn: "j \<le> n" using length_takeWhile_le [of "\<lambda>c. c = SP" v] lv True unfolding j by linarith
    have sp: "b ! i = NULC" if "buf ! i = SP"
    proof -
      have "v \<noteq> []" "hd v = SP" using that True Suc.prems(1) text_at_cons [of i n buf] by (simp_all add: v_def)
      then have "i < j" unfolding j by (cases v) simp_all
      then show ?thesis by (simp add: b(2))
    qed
    show ?thesis
    proof (cases "j = n")
      case jn': True
      then have "split_args n i buf argv = (b, argv)" using True z Suc.prems(5) by (subst split_args.simps) (simp add: ARGV_MAX_def)
      moreover have "dropWhile (\<lambda>c. c = SP) v = []" using v1 jn' by (simp add: text_at_nil)
      ultimately show ?thesis using b sp jn' by (auto simp: v_def [symmetric] Let_def simp del: dropWhile_eq_Nil_conv)
    next
      case False
      then have jl: "j < n" using jn by simp
      define s where "s = skip_word n j b"
      define t where "t = takeWhile (\<lambda>c. c \<noteq> SP) (dropWhile (\<lambda>c. c = SP) v)"
      have s: "s = j + length t" using skip_word_ok [of n b j] Suc.prems(1) b(1) by (simp add: s_def t_def v1)
      have l1: "length (dropWhile (\<lambda>c. c = SP) v) = n - j" unfolding v1 [symmetric] using Suc.prems(1) b(1) by (simp add: text_at_length)
      have sn: "s \<le> n" using length_takeWhile_le [of "\<lambda>c. c \<noteq> SP" "dropWhile (\<lambda>c. c = SP) v"] l1 jl unfolding s t_def by linarith
      have rest: "text_at n s b = dropWhile (\<lambda>c. c \<noteq> SP) (dropWhile (\<lambda>c. c = SP) v)"
        unfolding s text_at_drop v1 t_def by (simp add: dropWhile_eq_drop)
      have nul: "NULC \<notin> set (dropWhile (\<lambda>c. c = SP) v)" using Suc.prems(4) by (auto simp: v_def dest: set_dropWhileD)
      then have nul': "NULC \<notin> set (text_at n s b)" unfolding rest by (auto dest: set_dropWhileD)
      have bn: "b ! n = NULC" using b(2) jl Suc.prems(2) by simp
      from Suc.IH [of b s "argv @ [j]"] obtain buf' new where
        n: "split_args n s b (argv @ [j]) = (buf', (argv @ [j]) @ new)" "length buf' = length b"
          "\<forall>x. x < s \<or> n \<le> x \<longrightarrow> buf' ! x = b ! x" "map (cstr_at buf') new = arg_list k (text_at n s b)"
          "0 < k \<and> s < n \<and> b ! s = SP \<longrightarrow> buf' ! s = NULC" "k = 0 \<longrightarrow> buf' = b"
        using Suc.prems(1,5) b(1) bn sn nul' by auto
      have step: "split_args n i buf argv = (buf', argv @ j # new)"
        using True z Suc.prems(5) jl n(1) by (subst split_args.simps) (simp add: ARGV_MAX_def s_def)
      have jt: "b ! (j + x) = dropWhile (\<lambda>c. c = SP) v ! x" if "x < n - j" for x
        using text_at_nth [of x n j b] that l1 unfolding v1 by simp
      have arg: "cstr_at buf' j = (if k = 0 then dropWhile (\<lambda>c. c = SP) v else t)"
      proof (cases "k = 0")
        case True
        have "cstr_at b j = dropWhile (\<lambda>c. c = SP) v" by (rule cstr_at_eq) (use jt l1 bn jl Suc.prems(1) b(1) nul in auto)
        then show ?thesis using True n(6) by simp
      next
        case k: False
        have "t ! x = dropWhile (\<lambda>c. c = SP) v ! x" if "x < length t" for x using that unfolding t_def by (rule takeWhile_nth)
        then have c: "\<forall>x < length t. buf' ! (j + x) = t ! x" using n(3) jt sn s by auto
        have e: "buf' ! (j + length t) = NULC"
        proof (cases "s = n")
          case True
          then show ?thesis using n(3) bn s by simp
        next
          case False
          then have "text_at n s b \<noteq> []" using sn Suc.prems(1) b(1) text_at_length [of n b s] by fastforce
          then have "hd (text_at n s b) = SP" unfolding rest using hd_dropWhile [of "\<lambda>c. c \<noteq> SP"] by blast
          then have "b ! s = SP" using False sn Suc.prems(1) b(1) text_at_cons [of s n b] by simp
          then show ?thesis using n(5) k False sn s by simp
        qed
        have "NULC \<notin> set t" using nul unfolding t_def by (auto dest: set_takeWhileD)
        then have "cstr_at buf' j = t" by (intro cstr_at_eq) (use c e s sn n(2) b(1) Suc.prems(1) in auto)
        then show ?thesis using k by simp
      qed
      have ne: "dropWhile (\<lambda>c. c = SP) v \<noteq> []" using l1 jl by fastforce
      have "map (cstr_at buf') (j # new) = arg_list (Suc k) v"
        using arg n(4) ne by (auto simp: Let_def rest t_def simp del: dropWhile_eq_Nil_conv)
      moreover have "buf' ! x = buf ! x" if "x < i \<or> n \<le> x" for x using that n(3) b(2) j s jl sn by auto
      moreover have "i < j" if "buf ! i = SP" using sp [OF that] b(2) [of i] that by (auto split: if_splits)
      then have "buf ! i = SP \<longrightarrow> buf' ! i = NULC" using n(3) sp s by auto
      ultimately show ?thesis using step b(1) n(2) by (auto simp: v_def [symmetric])
    qed
  qed
qed

section \<open>The arguments of the program\<close>

text \<open>The key counts at the start of the line, after a space or just inside a quote; what follows it and
  where the quote stands say which text is its value.\<close>

definition key_at :: "string \<Rightarrow> nat \<Rightarrow> bool" where
  "key_at cl i \<longleftrightarrow> prefix ''args='' (drop i cl) \<and> (i = 0 \<or> cl ! (i - 1) = SP \<or> cl ! (i - 1) = QUOTE)"

definition args_text :: "string \<Rightarrow> string \<Rightarrow> string" where
  "args_text pre rest =
    (if rest \<noteq> [] \<and> hd rest = QUOTE then takeWhile (\<lambda>c. c \<noteq> QUOTE) (tl rest)
     else if pre \<noteq> [] \<and> last pre = QUOTE then takeWhile (\<lambda>c. c \<noteq> QUOTE) rest
     else takeWhile (\<lambda>c. c \<noteq> SP) rest)"

lemma take_5: "take 5 p = ''args='' \<longleftrightarrow> prefix ''args='' p"
proof
  assume "take 5 p = ''args=''"
  then show "prefix ''args='' p" by (metis take_is_prefix)
qed (auto simp: prefix_def)

lemma find_args_first:
  assumes "\<forall>i < length pre. \<not> key_at (before @ pre @ rest) (length before + i)"
    and "prefix ''args='' rest" "pre = [] \<and> before = [] \<or> last (before @ pre) \<in> {SP, QUOTE}"
  shows "find_args (if before = [] then None else Some (last before)) (pre @ rest) =
    Some (if before @ pre = [] then None else Some (last (before @ pre)), rest)"
  using assms
proof (induction pre arbitrary: before)
  case Nil
  obtain c r where r: "rest = c # r" using Nil.prems(2) by (cases rest) auto
  show ?case using Nil.prems(2,3) take_5 [of rest] by (auto simp: r)
next
  case (Cons c pre)
  have n: "\<not> key_at (before @ c # pre @ rest) (length before)" using Cons.prems(1) by (auto dest: spec [of _ 0])
  have s: "find_args (Some c) (pre @ rest) = find_args (if before @ [c] = [] then None else Some (last (before @ [c]))) (pre @ rest)" by simp
  have ih: "find_args (Some c) (pre @ rest) =
      Some (if (before @ [c]) @ pre = [] then None else Some (last ((before @ [c]) @ pre)), rest)"
    unfolding s
  proof (rule Cons.IH)
    show "\<forall>i < length pre. \<not> key_at ((before @ [c]) @ pre @ rest) (length (before @ [c]) + i)"
      using Cons.prems(1) by (auto dest: spec [of _ "Suc _"])
  qed (use Cons.prems(2,3) in auto)
  have "find_args (if before = [] then None else Some (last before)) (c # pre @ rest) = find_args (Some c) (pre @ rest)"
  proof (cases "prefix ''args='' (c # pre @ rest)")
    case True
    then have "before \<noteq> []" "last before \<noteq> SP" "last before \<noteq> QUOTE"
      using n by (auto simp: key_at_def nth_append last_conv_nth)
    then show ?thesis using True take_5 [of "c # pre @ rest"] by simp
  next
    case False
    then show ?thesis using take_5 [of "c # pre @ rest"] by (simp del: take_Suc_Cons)
  qed
  then show ?case using ih by simp
qed

lemma find_args_none:
  assumes "\<forall>i < length p. \<not> key_at (before @ p) (length before + i)"
  shows "find_args (if before = [] then None else Some (last before)) p = None"
  using assms
proof (induction p arbitrary: before)
  case (Cons c p)
  have n: "\<not> key_at (before @ c # p) (length before)" using Cons.prems by (auto dest: spec [of _ 0])
  have "\<forall>i < length p. \<not> key_at ((before @ [c]) @ p) (length (before @ [c]) + i)"
    using Cons.prems by (auto dest: spec [of _ "Suc _"])
  from Cons.IH [OF this] have ih: "find_args (Some c) p = None" by simp
  show ?case
  proof (cases "prefix ''args='' (c # p)")
    case True
    then have "before \<noteq> []" "last before \<noteq> SP" "last before \<noteq> QUOTE"
      using n by (auto simp: key_at_def nth_append last_conv_nth)
    then show ?thesis using True ih by simp
  next
    case False
    then show ?thesis using take_5 [of "c # p"] ih by (simp del: take_Suc_Cons)
  qed
qed simp

lemma copy_args_ok:
  assumes "n < length buf"
  shows "copy_args e q n buf =
    (let t = take (length buf - 1 - n) (takeWhile (\<lambda>c. c \<noteq> e) q) in (n + length t, store n t buf))"
  using assms
proof (induction q arbitrary: n buf)
  case (Cons c q)
  show ?case
  proof (cases "c \<noteq> e \<and> n < length buf - 1")
    case True
    then have l: "length buf - 1 - n = Suc (length buf - 1 - (n + 1))" by linarith
    have "n + 1 < length buf" using True by linarith
    then show ?thesis using True Cons.IH [of "n + 1" "buf[n := c]"] store_cons [of n buf _ c] unfolding l by (simp add: Let_def)
  next
    case False
    then show ?thesis by (auto simp: Let_def)
  qed
qed (simp add: Let_def)

text \<open>C27. The program's arguments are the words of the value of \<open>args\<close>. At the first place where the key
  counts, quoted by either loader's habit or not at all, the value (cut to the buffer) is split at
  spaces; up to thirty words they are exactly the arguments, and beyond that the last argument keeps the rest of the value with its spaces. Without the key there are none.\<close>

theorem cmdline_arguments:
  assumes "cl = pre @ ''args='' @ rest" and "key_at cl (length pre)" and "\<forall>i < length pre. \<not> key_at cl i"
    and "NULC \<notin> set cl" and "length argv_buf = 1024" and "v = take 1023 (args_text pre rest)"
  shows "\<exists>buf argv. build_argv (Some cl) argv_buf = (buf, argv) \<and> length buf = 1024 \<and>
    map (cstr_at buf) argv = arg_list 31 v \<and> (length (sp_words v) \<le> 30 \<longrightarrow> map (cstr_at buf) argv = sp_words v) \<and>
    (\<forall>cl'. (\<forall>i < length cl'. \<not> key_at cl' i) \<longrightarrow> build_argv (Some cl') argv_buf = (argv_buf, []))"
proof -
  define prev where "prev = (if pre = [] then None else Some (last pre))"
  have "pre = [] \<or> last pre \<in> {SP, QUOTE}" using assms(1,2) by (auto simp: key_at_def nth_append last_conv_nth)
  then have f: "find_args None cl = Some (prev, ''args='' @ rest)"
    using find_args_first [of pre "[]" "''args='' @ rest"] assms(1,3) by (simp add: prev_def)
  obtain e q where eq: "args_value prev (''args='' @ rest) = (e, q)" by fastforce
  have t: "take 1023 (takeWhile (\<lambda>c. c \<noteq> e) q) = v"
    using eq assms(6) by (auto simp: args_value_def args_text_def prev_def split: if_splits)
  have lv: "length v \<le> 1023" using assms(6) by simp
  have c: "copy_args e q 0 argv_buf = (length v, store 0 v argv_buf)" using copy_args_ok [of 0 argv_buf e q] assms(5) t by (simp add: Let_def)
  define b where "b = (store 0 v argv_buf)[length v := NULC]"
  have ba: "build_argv (Some cl) argv_buf = split_args (length v) 0 b []"
    using f eq c by (simp add: build_argv_def b_def)
  have lb: "length b = 1024" using lv assms(5) by (simp add: b_def)
  have tx: "text_at (length v) 0 b = v"
    unfolding text_at_def b_def using assms(5) lv by (simp add: store_def)
  have "set v \<subseteq> set cl" using assms(1,6) set_takeWhileD
    by (fastforce simp: args_text_def dest!: in_set_takeD set_takeWhileD list.set_sel(2) split: if_splits)
  then have nul: "NULC \<notin> set v" using assms(4) by blast
  have bn: "b ! length v = NULC" using lv assms(5) by (simp add: b_def)
  from split_args_ok [of "length v" b 0 "[]" 31] obtain buf argv where
    "split_args (length v) 0 b [] = (buf, argv)" "length buf = 1024" "map (cstr_at buf) argv = arg_list 31 v"
    using lb lv bn nul tx by auto
  moreover have "length (sp_words v) \<le> 30 \<longrightarrow> arg_list 31 v = sp_words v" using arg_list_words [of v 31] by simp
  moreover have "build_argv (Some cl') argv_buf = (argv_buf, [])" if "\<forall>i < length cl'. \<not> key_at cl' i" for cl'
    using find_args_none [of cl' "[]"] that by (simp add: build_argv_def)
  ultimately show ?thesis using ba by auto
qed

theorem cmdline_arguments_witness:
  "\<exists>buf argv. build_argv (Some boot_line) (replicate 1024 NULC) = (buf, argv) \<and> map (cstr_at buf) argv = [''a'', ''b'']"
proof -
  define pre where "pre = ''dns=10.0.2.3 quiet motd='' @ [QUOTE] @ ''hi all'' @ [QUOTE] @ '' ''"
  define rest where "rest = [QUOTE] @ ''a b'' @ [QUOTE]"
  have l: "boot_line = pre @ ''args='' @ rest" by (simp add: boot_line_def pre_def rest_def)
  have k: "key_at boot_line (length pre)" unfolding l by (simp add: key_at_def nth_append pre_def)
  have n: "\<forall>i < length pre. \<not> key_at boot_line i"
    unfolding boot_line_def pre_def by (simp add: key_at_def All_less_Suc numeral_eq_Suc)
  have v: "take 1023 (args_text pre rest) = ''a b''" by (simp add: args_text_def rest_def)
  have w: "sp_words ''a b'' = [''a'', ''b'']" by (simp add: sp_words.simps)
  have "NULC \<notin> set boot_line" "length (replicate 1024 NULC) = 1024" by (simp_all add: boot_line_def)
  from cmdline_arguments [OF l k n this HOL.refl] show ?thesis unfolding v w by auto
qed

end
