(* ===== verification/NlEnv.thy ===== *)
theory NlEnv
  imports CmdLineProps
begin

text \<open>
  The environment of the C library (unikernel/nolibc/misc.c: getenv, setenv, unsetenv), from the vector
  that the boot code builds out of the command line.

  An entry is the string it points to. \<open>environ\<close> is null, a vector that somebody else made (its entries
  before the null pointer), or the library's own copy, whose slots are a list with \<open>None\<close> for a null or not yet
  written slot. Reading a vector past its end or through a null slot yields \<open>None\<close>. \<open>mal\<close> says
  which sizes the allocator can serve.
\<close>

section \<open>State and operations\<close>

datatype env_ptr = EnvNull | EnvAt "string list" | EnvOwned

record nl_env =
  environ :: env_ptr
  env_owned :: "string option list option"
  env_n :: nat
  env_cap :: nat

primrec until_null :: "string option list \<Rightarrow> string list option" where
  "until_null [] = None"
| "until_null (x # xs) = (case x of None \<Rightarrow> Some [] | Some e \<Rightarrow> do { es \<leftarrow> until_null xs; Some (e # es) })"

definition env_vector :: "nl_env \<Rightarrow> string list option" where
  "env_vector s = (case environ s of EnvNull \<Rightarrow> Some [] | EnvAt es \<Rightarrow> Some es | EnvOwned \<Rightarrow> Option.bind (env_owned s) until_null)"

text \<open>The comparison of a name with the front of an entry, up to the equals sign.\<close>

fun env_match :: "string \<Rightarrow> string \<Rightarrow> bool" where
  "env_match [] e \<longleftrightarrow> e \<noteq> [] \<and> hd e = EQUALS"
| "env_match (c # cs) [] \<longleftrightarrow> False"
| "env_match (c # cs) (d # ds) \<longleftrightarrow> c = d \<and> env_match cs ds"

primrec get_from :: "string \<Rightarrow> string list \<Rightarrow> string option" where
  "get_from name [] = None"
| "get_from name (e # es) = (if env_match name e then Some (drop (length name + 1) e) else get_from name es)"

definition getenv :: "string \<Rightarrow> nl_env \<Rightarrow> string option option" where
  "getenv name s = do { es \<leftarrow> env_vector s; Some (get_from name es) }"

definition nl_env_adopt :: "(nat \<Rightarrow> bool) \<Rightarrow> nl_env \<Rightarrow> (bool \<times> nl_env) option" where
  "nl_env_adopt mal s =
    (if env_owned s \<noteq> None then Some (True, s)
     else do {
       es \<leftarrow> env_vector s;
       let n = length es;
       let s1 = s\<lparr>env_cap := n + 8\<rparr>;
       if \<not> mal ((n + 8 + 1) * 8) then Some (False, s1)
       else Some (True, s1\<lparr>env_owned := Some (map Some es @ None # replicate 8 None), env_n := n, environ := EnvOwned\<rparr>)
     })"

primrec find_from :: "string \<Rightarrow> string option list \<Rightarrow> nat \<Rightarrow> nat option option" where
  "find_from name [] i = Some None"
| "find_from name (x # xs) i =
    (case x of None \<Rightarrow> None | Some e \<Rightarrow> if env_match name e then Some (Some i) else find_from name xs (i + 1))"

definition nl_env_find :: "string \<Rightarrow> nl_env \<Rightarrow> nat option option" where
  "nl_env_find name s = do { xs \<leftarrow> env_owned s; find_from name (take (env_n s) xs) 0 }"

definition slot_put :: "nat \<Rightarrow> string option \<Rightarrow> nl_env \<Rightarrow> nl_env option" where
  "slot_put i x s = do { xs \<leftarrow> env_owned s; if i < length xs then Some (s\<lparr>env_owned := Some (xs[i := x])\<rparr>) else None }"

definition env_grow :: "(nat \<Rightarrow> bool) \<Rightarrow> nl_env \<Rightarrow> (bool \<times> nl_env) option" where
  "env_grow mal s =
    (if env_n s + 1 \<ge> env_cap s
     then let newcap = env_cap s * 2 + 8 in
       if \<not> mal ((newcap + 1) * 8) then Some (False, s)
       else do {
         xs \<leftarrow> env_owned s;
         Some (True, s\<lparr>env_owned := Some (xs @ replicate (newcap + 1 - length xs) None), env_cap := newcap, environ := EnvOwned\<rparr>)
       }
     else Some (True, s))"

definition setenv :: "(nat \<Rightarrow> bool) \<Rightarrow> string \<Rightarrow> string \<Rightarrow> bool \<Rightarrow> nl_env \<Rightarrow> (int \<times> nl_env) option" where
  "setenv mal name value overwrite s = do {
     (ok, s1) \<leftarrow> nl_env_adopt mal s;
     if \<not> ok then Some (-1, s1)
     else do {
       at \<leftarrow> nl_env_find name s1;
       if at \<noteq> None \<and> \<not> overwrite then Some (0, s1)
       else if \<not> mal (length name + length value + 2) then Some (-1, s1)
       else let entry = name @ [EQUALS] @ value in
         case at of
           Some i \<Rightarrow> do { s2 \<leftarrow> slot_put i (Some entry) s1; Some (0, s2) }
         | None \<Rightarrow> do {
             (grown, s2) \<leftarrow> env_grow mal s1;
             if \<not> grown then Some (-1, s2)
             else do {
               s3 \<leftarrow> slot_put (env_n s2) (Some entry) s2;
               s4 \<leftarrow> slot_put (env_n s2 + 1) None s3;
               Some (0, s4\<lparr>env_n := env_n s2 + 1\<rparr>)
             }
           }
     }
   }"

definition unsetenv :: "(nat \<Rightarrow> bool) \<Rightarrow> string \<Rightarrow> nl_env \<Rightarrow> (int \<times> nl_env) option" where
  "unsetenv mal name s = do {
     (ok, s1) \<leftarrow> nl_env_adopt mal s;
     if \<not> ok then Some (-1, s1)
     else do {
       at \<leftarrow> nl_env_find name s1;
       case at of
         None \<Rightarrow> Some (0, s1)
       | Some i \<Rightarrow> do {
           xs \<leftarrow> env_owned s1;
           s2 \<leftarrow> slot_put (env_n s1 - 1) None (s1\<lparr>env_owned := Some (shift_down i (env_n s1) xs)\<rparr>);
           Some (0, s2\<lparr>env_n := env_n s1 - 1\<rparr>)
         }
     }
   }"

text \<open>What the boot code does before the program starts: the environment out of the command line, in
  static storage.\<close>

definition boot_environ :: "string option \<Rightarrow> nl_env option" where
  "boot_environ cmdline = do {
     (buf, envv) \<leftarrow> nl_env_from_cmdline cmdline (replicate 1024 NULC) 32;
     Some \<lparr>environ = EnvAt (map (cstr_at buf) envv), env_owned = None, env_n = 0, env_cap = 0\<rparr>
   }"

section \<open>Lists of entries\<close>

primrec put_entry :: "string \<Rightarrow> string \<Rightarrow> string list \<Rightarrow> string list" where
  "put_entry k v [] = [k @ [EQUALS] @ v]"
| "put_entry k v (e # es) = (if env_match k e then (k @ [EQUALS] @ v) # es else e # put_entry k v es)"

primrec drop_entry :: "string \<Rightarrow> string list \<Rightarrow> string list" where
  "drop_entry k [] = []"
| "drop_entry k (e # es) = (if env_match k e then es else e # drop_entry k es)"

primrec after_entry :: "string \<Rightarrow> string list \<Rightarrow> string list" where
  "after_entry k [] = []"
| "after_entry k (e # es) = (if env_match k e then es else after_entry k es)"

lemma match_entry: "env_match k (k @ EQUALS # v)"
  by (induction k) simp_all

lemma match_one: "EQUALS \<notin> set k \<Longrightarrow> EQUALS \<notin> set k' \<Longrightarrow> env_match k e \<Longrightarrow> env_match k' e \<Longrightarrow> k' = k"
proof (induction k e arbitrary: k' rule: env_match.induct)
  case (1 e)
  then show ?case by (cases k'; cases e) auto
next
  case (3 c cs d ds)
  then show ?case by (cases k') auto
qed simp

lemma match_other: "EQUALS \<notin> set k \<Longrightarrow> EQUALS \<notin> set k' \<Longrightarrow> k' \<noteq> k \<Longrightarrow> \<not> env_match k' (k @ EQUALS # v)"
  using match_one match_entry by metis

lemma get_put: "get_from k (put_entry k v es) = Some v"
  by (induction es) (simp_all add: match_entry)

lemma get_put_other: "EQUALS \<notin> set k \<Longrightarrow> EQUALS \<notin> set k' \<Longrightarrow> k' \<noteq> k \<Longrightarrow> get_from k' (put_entry k v es) = get_from k' es"
  by (induction es) (auto simp: match_other dest: match_one)

lemma get_drop: "get_from k (drop_entry k es) = get_from k (after_entry k es)"
  by (induction es) simp_all

lemma get_drop_other: "EQUALS \<notin> set k \<Longrightarrow> EQUALS \<notin> set k' \<Longrightarrow> k' \<noteq> k \<Longrightarrow> get_from k' (drop_entry k es) = get_from k' es"
  by (induction es) (auto dest: match_one)

lemma get_none: "get_from k es = None \<longleftrightarrow> (\<forall>e \<in> set es. \<not> env_match k e)"
  by (induction es) simp_all

primrec entry_idx :: "string \<Rightarrow> string list \<Rightarrow> nat option" where
  "entry_idx k [] = None"
| "entry_idx k (e # es) = (if env_match k e then Some 0 else map_option Suc (entry_idx k es))"

lemma idx_none: "entry_idx k es = None \<Longrightarrow> get_from k es = None \<and> put_entry k v es = es @ [k @ [EQUALS] @ v] \<and> drop_entry k es = es"
  by (induction es) (auto split: if_splits)

lemma idx_some:
  "entry_idx k es = Some i \<Longrightarrow> i < length es \<and> get_from k es \<noteq> None \<and> put_entry k v es = es[i := k @ [EQUALS] @ v] \<and>
    drop_entry k es = take i es @ drop (Suc i) es"
  by (induction es arbitrary: i) (auto split: if_splits)

section \<open>The vector stands for a list\<close>

definition env_is :: "nl_env \<Rightarrow> string list \<Rightarrow> bool" where
  "env_is s es \<longleftrightarrow>
    (if env_owned s = None then environ s \<noteq> EnvOwned \<and> env_vector s = Some es
     else environ s = EnvOwned \<and> (\<exists>junk. env_owned s = Some (map Some es @ None # junk)) \<and> env_n s = length es \<and>
       length es < env_cap s \<and> length (the (env_owned s)) = env_cap s + 1)"

lemma until_null_map: "until_null (map Some es @ None # junk) = Some es"
  by (induction es) simp_all

lemma env_is_vector: "env_is s es \<Longrightarrow> env_vector s = Some es"
  by (auto simp: env_is_def env_vector_def until_null_map split: if_splits)

lemma getenv_list: "env_is s es \<Longrightarrow> getenv k s = Some (get_from k es)"
  by (simp add: getenv_def env_is_vector)

lemma owned_slots:
  assumes "env_is s es" "env_owned s \<noteq> None"
  obtains junk where "env_owned s = Some (map Some es @ None # junk)" "env_n s = length es" "length es < env_cap s"
    "length es + length junk = env_cap s" "environ s = EnvOwned"
  using assms by (fastforce simp: env_is_def)

lemma adopt_ok:
  assumes "env_is s es"
  obtains b t where "nl_env_adopt mal s = Some (b, t)" "env_is t es" "b \<Longrightarrow> env_owned t \<noteq> None" "\<forall>n. mal n \<Longrightarrow> b"
proof (cases "env_owned s = None")
  case True
  note v = env_is_vector [OF assms]
  show ?thesis
  proof (cases "mal ((length es + 8 + 1) * 8)")
    case m: True
    define t where "t = s\<lparr>env_cap := length es + 8, env_owned := Some (map Some es @ None # replicate 8 None), env_n := length es, environ := EnvOwned\<rparr>"
    have "env_is t es" by (auto simp: t_def env_is_def)
    then show ?thesis using True v m by (intro that [of True t]) (simp_all add: nl_env_adopt_def t_def Let_def)
  next
    case m: False
    have "env_is (s\<lparr>env_cap := length es + 8\<rparr>) es" using assms True by (cases "environ s") (simp_all add: env_is_def env_vector_def)
    moreover have "nl_env_adopt mal s = Some (False, s\<lparr>env_cap := length es + 8\<rparr>)" using True v m by (simp add: nl_env_adopt_def Let_def)
    ultimately show ?thesis using m that [of False] by blast
  qed
next
  case False
  then show ?thesis using assms by (intro that [of True s]) (simp_all add: nl_env_adopt_def)
qed

lemma find_from_idx: "find_from k (map Some es) i = Some (map_option (\<lambda>j. i + j) (entry_idx k es))"
  by (induction es arbitrary: i) (auto simp: option.map_comp o_def intro!: option.map_cong)

lemma find_ok:
  assumes "env_is s es" "env_owned s \<noteq> None"
  shows "nl_env_find k s = Some (entry_idx k es)"
proof -
  obtain junk where "env_owned s = Some (map Some es @ None # junk)" "env_n s = length es" using owned_slots [OF assms] by metis
  then show ?thesis using find_from_idx [of k es 0] by (simp add: nl_env_find_def option.map_ident)
qed

lemma replace_ok:
  assumes "env_is s es" "env_owned s \<noteq> None" "i < length es"
  shows "\<exists>t. slot_put i (Some e) s = Some t \<and> env_is t (es[i := e])"
proof -
  obtain junk where j: "env_owned s = Some (map Some es @ None # junk)" "env_n s = length es" "length es < env_cap s"
    "length es + length junk = env_cap s" "environ s = EnvOwned" using owned_slots [OF assms(1,2)] by blast
  have "(map Some es @ None # junk)[i := Some e] = map Some (es[i := e]) @ None # junk"
    using assms(3) by (simp add: list_update_append map_update)
  then show ?thesis using j assms(3) by (auto simp: slot_put_def env_is_def)
qed

lemma env_grow_ok:
  assumes "env_is s es" "env_owned s \<noteq> None"
  obtains b t where "env_grow mal s = Some (b, t)" "env_is t es" "env_owned t \<noteq> None" "b \<Longrightarrow> length es + 1 < env_cap t" "\<forall>n. mal n \<Longrightarrow> b"
proof -
  obtain junk where j: "env_owned s = Some (map Some es @ None # junk)" "env_n s = length es" "length es < env_cap s"
    "length es + length junk = env_cap s" "environ s = EnvOwned" using owned_slots [OF assms] by blast
  show ?thesis
  proof (cases "env_n s + 1 \<ge> env_cap s \<and> mal ((env_cap s * 2 + 8 + 1) * 8)")
    case True
    define t where "t = s\<lparr>env_owned := Some ((map Some es @ None # junk) @ replicate (env_cap s + 8) None), env_cap := env_cap s * 2 + 8, environ := EnvOwned\<rparr>"
    have "env_is t es" using j by (auto simp: t_def env_is_def)
    moreover have "env_grow mal s = Some (True, t)" using True j by (simp add: env_grow_def Let_def t_def)
    ultimately show ?thesis using j by (intro that [of True t]) (simp_all add: t_def)
  next
    case False
    then show ?thesis using assms j(2) by (intro that [of "\<not> env_n s + 1 \<ge> env_cap s" s]) (auto simp: env_grow_def Let_def)
  qed
qed

lemma env_append_ok:
  assumes "env_is s es" "env_owned s \<noteq> None" "length es + 1 < env_cap s"
  shows "\<exists>t u. slot_put (env_n s) (Some e) s = Some t \<and> slot_put (env_n s + 1) None t = Some u \<and> env_is (u\<lparr>env_n := env_n s + 1\<rparr>) (es @ [e])"
proof -
  obtain junk where j: "env_owned s = Some (map Some es @ None # junk)" "env_n s = length es"
    "length es + length junk = env_cap s" "environ s = EnvOwned" using owned_slots [OF assms(1,2)] by metis
  obtain x junk' where k: "junk = x # junk'" using j assms(3) by (cases junk) auto
  show ?thesis using j assms(3) by (auto simp: slot_put_def env_is_def k list_update_append)
qed

lemma shift_down_ok:
  assumes "n \<le> length xs" "at < n"
  shows "shift_down at n xs = take at xs @ take (n - Suc at) (drop (Suc at) xs) @ drop (n - 1) xs"
  using assms
proof (induction at n xs rule: shift_down.induct)
  case (1 at n xs)
  show ?case
  proof (cases "at + 1 < n")
    case True
    have "shift_down at n xs = shift_down (at + 1) n (xs[at := xs ! (at + 1)])" using True by (subst shift_down.simps) simp
    also have "\<dots> = take (at + 1) (xs[at := xs ! (at + 1)]) @ take (n - Suc (at + 1)) (drop (Suc (at + 1)) xs) @ drop (n - 1) xs"
      using "1.IH" [OF True] "1.prems" True by simp
    also have "take (at + 1) (xs[at := xs ! (at + 1)]) = take at xs @ [xs ! (at + 1)]"
      using True "1.prems" by (simp add: take_Suc_conv_app_nth list_update_append)
    also have "take (n - Suc at) (drop (Suc at) xs) = xs ! (at + 1) # take (n - Suc (at + 1)) (drop (Suc (at + 1)) xs)"
      using True "1.prems" by (simp add: Cons_nth_drop_Suc [symmetric] take_Cons' Suc_diff_Suc)
    ultimately show ?thesis by simp
  next
    case False
    then have "n = Suc at" using "1.prems"(2) by simp
    then show ?thesis by (subst shift_down.simps) simp
  qed
qed

lemma remove_ok:
  assumes "env_is s es" "env_owned s = Some xs" "i < length es"
  shows "\<exists>t. slot_put (env_n s - 1) None (s\<lparr>env_owned := Some (shift_down i (env_n s) xs)\<rparr>) = Some t \<and>
    env_is (t\<lparr>env_n := env_n s - 1\<rparr>) (take i es @ drop (Suc i) es)"
proof -
  obtain junk where j: "xs = map Some es @ None # junk" "env_n s = length es" "length es < env_cap s"
    "length es + length junk = env_cap s" "environ s = EnvOwned" using owned_slots [OF assms(1)] assms(2) by auto
  define ys where "ys = take i es @ drop (Suc i) es"
  have ly: "length ys = length es - 1" using assms(3) by (simp add: ys_def)
  have "shift_down i (length es) xs = map Some ys @ drop (length es - 1) xs"
    using shift_down_ok [of "length es" xs i] j(1) assms(3) by (simp add: ys_def take_map drop_map)
  moreover have "drop (length es - 1) xs = Some (last es) # None # junk"
    using assms(3) j(1) by (cases es rule: rev_cases) simp_all
  ultimately have "(shift_down i (length es) xs)[length es - 1 := None] = map Some ys @ None # None # junk"
    "length (shift_down i (length es) xs) = env_cap s + 1"
    using ly j(4) assms(3) by (simp_all add: list_update_append)
  then show ?thesis using j ly assms(3) unfolding ys_def [symmetric] by (auto simp: slot_put_def env_is_def)
qed

section \<open>The calls\<close>

lemma setenv_ok:
  assumes "env_is s es"
  shows "\<exists>r t. setenv mal k v ow s = Some (r, t) \<and> (r = 0 \<or> r = -1) \<and> ((\<forall>n. mal n) \<longrightarrow> r = 0) \<and>
    env_is t (if r = 0 \<and> (ow \<or> get_from k es = None) then put_entry k v es else es)"
proof -
  obtain b t where a: "nl_env_adopt mal s = Some (b, t)" "env_is t es" "b \<Longrightarrow> env_owned t \<noteq> None" "\<forall>n. mal n \<Longrightarrow> b"
    using adopt_ok [OF assms] by metis
  show ?thesis
  proof (cases b)
    case False
    then show ?thesis using a by (auto simp: setenv_def)
  next
    case True
    note o = a(3) [OF True]
    note f = find_ok [OF a(2) o, of k]
    show ?thesis
    proof (cases "entry_idx k es")
      case None
      note i = idx_none [OF None, of v]
      obtain g u where g: "env_grow mal t = Some (g, u)" "env_is u es" "env_owned u \<noteq> None" "g \<Longrightarrow> length es + 1 < env_cap u" "\<forall>n. mal n \<Longrightarrow> g"
        using env_grow_ok [OF a(2) o] by metis
      show ?thesis
      proof (cases "g \<and> mal (length k + length v + 2)")
        case m: True
        then obtain x y where "slot_put (env_n u) (Some (k @ [EQUALS] @ v)) u = Some x" "slot_put (env_n u + 1) None x = Some y"
          "env_is (y\<lparr>env_n := env_n u + 1\<rparr>) (es @ [k @ [EQUALS] @ v])" using env_append_ok [OF g(2,3)] g(4) by blast
        then show ?thesis using a(1) True f None g(1) m i by (simp add: setenv_def Let_def)
      next
        case False
        then show ?thesis using a(1,2) True f None g by (auto simp: setenv_def Let_def)
      qed
    next
      case (Some j)
      note i = idx_some [OF Some, of v]
      then obtain x where "slot_put j (Some (k @ [EQUALS] @ v)) t = Some x" "env_is x (es[j := k @ [EQUALS] @ v])"
        using replace_ok [OF a(2) o] by blast
      then show ?thesis using a(1,2) True f Some i
        by (cases "ow \<and> mal (length k + length v + 2)") (auto simp: setenv_def Let_def)
    qed
  qed
qed

lemma unsetenv_ok:
  assumes "env_is s es"
  shows "\<exists>r t. unsetenv mal k s = Some (r, t) \<and> (r = 0 \<or> r = -1) \<and> ((\<forall>n. mal n) \<longrightarrow> r = 0) \<and>
    env_is t (if r = 0 then drop_entry k es else es)"
proof -
  obtain b t where a: "nl_env_adopt mal s = Some (b, t)" "env_is t es" "b \<Longrightarrow> env_owned t \<noteq> None" "\<forall>n. mal n \<Longrightarrow> b"
    using adopt_ok [OF assms] by metis
  show ?thesis
  proof (cases b)
    case False
    then show ?thesis using a by (auto simp: unsetenv_def)
  next
    case True
    obtain xs where xs: "env_owned t = Some xs" using a(3) True by blast
    have f: "nl_env_find k t = Some (entry_idx k es)" by (rule find_ok [OF a(2)]) (simp add: xs)
    show ?thesis
    proof (cases "entry_idx k es")
      case None
      then show ?thesis using a(1,2) True f idx_none [OF None] by (simp add: unsetenv_def)
    next
      case (Some j)
      note i = idx_some [OF Some]
      from remove_ok [OF a(2) xs] i obtain u where
        "slot_put (env_n t - 1) None (t\<lparr>env_owned := Some (shift_down j (env_n t) xs)\<rparr>) = Some u"
        "env_is (u\<lparr>env_n := env_n t - 1\<rparr>) (take j es @ drop (Suc j) es)" by blast
      then show ?thesis using a(1) True f Some i xs by (simp add: unsetenv_def)
    qed
  qed
qed

text \<open>C28. The environment behaves as a list of entries of which the first with a name counts. \<open>setenv\<close> returns 0
  with the name's value replaced, added or (without overwrite) kept, or fails with -1 and changes nothing, only when memory is out;
  \<open>unsetenv\<close> takes the first entry with the name away, so that a second entry with the same name, which a command
  line can state, shows through; no other name is touched, and the vector is never read or written outside its slots.\<close>

theorem environment_calls:
  assumes "env_is s es" and "EQUALS \<notin> set k" and "EQUALS \<notin> set k'" and "k' \<noteq> k"
  shows "getenv k s = Some (get_from k es) \<and>
    (\<exists>r t. setenv mal k v ow s = Some (r, t) \<and> (r = 0 \<or> r = -1 \<and> \<not> (\<forall>n. mal n) \<and> env_is t es) \<and> getenv k' t = getenv k' s \<and>
      (r = 0 \<longrightarrow> env_is t (if ow \<or> get_from k es = None then put_entry k v es else es) \<and>
         getenv k t = Some (if ow \<or> get_from k es = None then Some v else get_from k es))) \<and>
    (\<exists>r t. unsetenv mal k s = Some (r, t) \<and> (r = 0 \<or> r = -1 \<and> \<not> (\<forall>n. mal n) \<and> env_is t es) \<and> getenv k' t = getenv k' s \<and>
      (r = 0 \<longrightarrow> env_is t (drop_entry k es) \<and> getenv k t = Some (get_from k (after_entry k es))))"
proof -
  obtain r t where s: "setenv mal k v ow s = Some (r, t)" "r = 0 \<or> r = -1" "(\<forall>n. mal n) \<longrightarrow> r = 0"
    "env_is t (if r = 0 \<and> (ow \<or> get_from k es = None) then put_entry k v es else es)" using setenv_ok [OF assms(1)] by metis
  obtain q u where u: "unsetenv mal k s = Some (q, u)" "q = 0 \<or> q = -1" "(\<forall>n. mal n) \<longrightarrow> q = 0"
    "env_is u (if q = 0 then drop_entry k es else es)" using unsetenv_ok [OF assms(1)] by metis
  note g = getenv_list [OF assms(1)] getenv_list [OF s(4)] getenv_list [OF u(4)]
  have "getenv k' t = getenv k' s" "getenv k' u = getenv k' s"
    using g get_put_other [OF assms(2-4)] get_drop_other [OF assms(2-4)] by simp_all
  moreover have "getenv k t = Some (if ow \<or> get_from k es = None then Some v else get_from k es)" if "r = 0"
    using g(2) get_put that by simp
  moreover have "getenv k u = Some (get_from k (after_entry k es))" if "q = 0" using g(3) get_drop that by simp
  moreover have "r = 0 \<or> r = -1 \<and> \<not> (\<forall>n. mal n) \<and> env_is t es" using s(2-4) by (cases "r = 0") auto
  moreover have "q = 0 \<or> q = -1 \<and> \<not> (\<forall>n. mal n) \<and> env_is u es" using u(2-4) by (cases "q = 0") auto
  moreover have "r = 0 \<Longrightarrow> env_is t (if ow \<or> get_from k es = None then put_entry k v es else es)" using s(4) by simp
  moreover have "q = 0 \<Longrightarrow> env_is u (drop_entry k es)" using u(4) by simp
  ultimately show ?thesis using g(1) s(1) u(1) by blast
qed

text \<open>A booted environment that names a key twice.\<close>

definition twice_env :: nl_env where
  "twice_env = \<lparr>environ = EnvAt [''k=1'', ''j=0'', ''k=2''], env_owned = None, env_n = 0, env_cap = 0\<rparr>"

theorem environment_calls_witness:
  "boot_environ (Some ''k=1 j=0 k=2'') = Some twice_env \<and> getenv ''k'' twice_env = Some (Some ''1'') \<and>
   (\<exists>t. unsetenv (\<lambda>_. True) ''k'' twice_env = Some (0, t) \<and> getenv ''k'' t = Some (Some ''2'')) \<and>
   (\<exists>t. setenv (\<lambda>_. True) ''k'' ''3'' True twice_env = Some (0, t) \<and> getenv ''k'' t = Some (Some ''3'') \<and> getenv ''j'' t = Some (Some ''0''))"
proof -
  let ?l = "''k=1 j=0 k=2''" and ?es = "[''k=1'', ''j=0'', ''k=2'']"
  have w: "cl_words ?l = ?es" by (simp add: cl_words.simps)
  have e: "env_words ?l = ?es" by (simp add: env_words_def w)
  have "env_run 1024 32 ?l 0 (replicate 1024 NULC) []" by (rule env_run_all) simp_all
  then obtain buf new where "env_loop 1024 32 ?l 0 (replicate 1024 NULC) [] = Some (buf, new)" "map (cstr_at buf) new = ?es"
    unfolding env_run_def e w by (auto simp: words_size_def)
  then have b: "boot_environ (Some ?l) = Some twice_env" by (simp add: boot_environ_def nl_env_from_cmdline_def twice_env_def)
  have i: "env_is twice_env ?es" by (simp add: env_is_def twice_env_def env_vector_def)
  show ?thesis using environment_calls [OF i, of "''k''" "''j''" "\<lambda>_. True" "''3''" True] b getenv_list [OF i] by auto
qed

end
