(* ===== verification/Multiboot.thy ===== *)
theory Multiboot
  imports NlMallocInv
begin

text \<open>
  The Multiboot2 handover (unikernel/boot/multiboot2.c): the walk over the bootloader's tags and the start
  information it makes of them.

  Memory is partial: reading an address that is not mapped is \<open>None\<close>, as is a walk that never ends.
  Offsets, sizes and counts are 32-bit and wrap where the C expression does. The addresses of the two static
  objects that the result points to are parameters.
\<close>

section \<open>Data\<close>

datatype mb2_failure = NoInformation | TooShort | TagPastEnd | EntrySizeTooSmall | TooManyRegions | NoMemoryMap

record hvm_start_info =
  si_magic :: u32
  si_version :: u32
  si_flags :: u32
  nr_modules :: u32
  modlist_paddr :: u64
  cmdline_paddr :: u64
  rsdp_paddr :: u64
  memmap_paddr :: u64
  memmap_entries :: u32
  si_reserved :: u32

record hvm_memmap_entry =
  mm_addr :: u64
  mm_size :: u64
  mm_type :: u32
  mm_reserved :: u32

record mb2_fb =
  fb_addr :: u64
  fb_pitch :: u32
  fb_width :: u32
  fb_height :: u32
  fb_bpp :: u8
  fb_kind :: u8

record mb2_state =
  mb2_si :: hvm_start_info
  mb2_map :: "hvm_memmap_entry list"
  mb2_fb_info :: mb2_fb
  mb2_have_fb :: bool
  mb2_is_mb2 :: bool
  mb2_why :: "mb2_failure option"

definition HVM_START_MAGIC :: u32 where "HVM_START_MAGIC = 0x336ec578"
definition MB2_MAX_MMAP :: nat where "MB2_MAX_MMAP = 64"

definition MB2_TAG_END :: u32 where "MB2_TAG_END = 0"
definition MB2_TAG_CMDLINE :: u32 where "MB2_TAG_CMDLINE = 1"
definition MB2_TAG_MMAP :: u32 where "MB2_TAG_MMAP = 6"
definition MB2_TAG_FRAMEBUFFER :: u32 where "MB2_TAG_FRAMEBUFFER = 8"
definition MB2_TAG_ACPI_OLD :: u32 where "MB2_TAG_ACPI_OLD = 14"
definition MB2_TAG_ACPI_NEW :: u32 where "MB2_TAG_ACPI_NEW = 15"

definition mb2_boot :: mb2_state where
  "mb2_boot = \<lparr>mb2_si = \<lparr>si_magic = 0, si_version = 0, si_flags = 0, nr_modules = 0, modlist_paddr = 0,
      cmdline_paddr = 0, rsdp_paddr = 0, memmap_paddr = 0, memmap_entries = 0, si_reserved = 0\<rparr>,
    mb2_map = replicate MB2_MAX_MMAP \<lparr>mm_addr = 0, mm_size = 0, mm_type = 0, mm_reserved = 0\<rparr>,
    mb2_fb_info = \<lparr>fb_addr = 0, fb_pitch = 0, fb_width = 0, fb_height = 0, fb_bpp = 0, fb_kind = 0\<rparr>,
    mb2_have_fb = False, mb2_is_mb2 = False, mb2_why = None\<rparr>"

section \<open>The walk\<close>

definition ld32 :: "pmem \<Rightarrow> nat \<Rightarrow> u32 option" where
  "ld32 m a = do { bs \<leftarrow> ld_bytes m a 4; Some (word_of_nat (le_nat bs)) }"

text \<open>The loop over the entries of a memory map: the number of regions, the table, and whether it was too small.\<close>

function mmap_loop :: "pmem \<Rightarrow> nat \<Rightarrow> u32 \<Rightarrow> u32 \<Rightarrow> u32 \<Rightarrow> nat \<Rightarrow> hvm_memmap_entry list \<Rightarrow> (nat \<times> hvm_memmap_entry list \<times> bool) option" where
  "mmap_loop m t entry_size sz e n mp =
    (if e + entry_size \<le> sz
     then if n \<ge> MB2_MAX_MMAP then Some (n, mp, True)
       else do {
         a \<leftarrow> ld64 m (t + unat e);
         l \<leftarrow> ld64 m (t + unat e + 8);
         k \<leftarrow> ld32 m (t + unat e + 16);
         mmap_loop m t entry_size sz (e + entry_size) (n + 1)
           (mp[n := \<lparr>mm_addr = a, mm_size = l, mm_type = k, mm_reserved = 0\<rparr>])
       }
     else Some (n, mp, False))"
  by pat_completeness auto
termination by (relation "measure (\<lambda>(m, t, es, sz, e, n, mp). MB2_MAX_MMAP - n)") auto

declare mmap_loop.simps [simp del]

definition framebuffer_tag :: "pmem \<Rightarrow> nat \<Rightarrow> u32 \<Rightarrow> mb2_state \<Rightarrow> mb2_state option" where
  "framebuffer_tag m t sz s =
    (if unat sz \<ge> 32
     then do {
       a \<leftarrow> ld64 m (t + 8);
       p \<leftarrow> ld32 m (t + 16);
       w \<leftarrow> ld32 m (t + 20);
       h \<leftarrow> ld32 m (t + 24);
       b \<leftarrow> ld m (t + 28);
       k \<leftarrow> ld m (t + 29);
       Some (s\<lparr>mb2_fb_info := \<lparr>fb_addr = a, fb_pitch = p, fb_width = w, fb_height = h, fb_bpp = b, fb_kind = k\<rparr>, mb2_have_fb := True\<rparr>)
     }
     else Some s)"

text \<open>One tag: \<open>Inl\<close> is the early return with its reason.\<close>

definition tag_step :: "pmem \<Rightarrow> nat \<Rightarrow> u32 \<Rightarrow> u32 \<Rightarrow> nat \<Rightarrow> bool \<Rightarrow> mb2_state \<Rightarrow> (mb2_failure + nat \<times> bool \<times> mb2_state) option" where
  "tag_step m t type sz n truncated s =
    (if type = MB2_TAG_CMDLINE
     then Some (Inr (n, truncated, s\<lparr>mb2_si := (mb2_si s)\<lparr>cmdline_paddr := word_of_nat (t + 8)\<rparr>\<rparr>))
     else if type = MB2_TAG_MMAP
     then do {
       entry_size \<leftarrow> ld32 m (t + 8);
       if unat entry_size < 24 then Some (Inl EntrySizeTooSmall)
       else do {
         (n1, mp, full) \<leftarrow> mmap_loop m t entry_size sz 16 n (mb2_map s);
         Some (Inr (n1, truncated \<or> full, s\<lparr>mb2_map := mp\<rparr>))
       }
     }
     else if type = MB2_TAG_FRAMEBUFFER
     then do { s1 \<leftarrow> framebuffer_tag m t sz s; Some (Inr (n, truncated, s1)) }
     else if type = MB2_TAG_ACPI_OLD \<or> type = MB2_TAG_ACPI_NEW
     then Some (Inr (n, truncated, s\<lparr>mb2_si := (mb2_si s)\<lparr>rsdp_paddr := word_of_nat (t + 8)\<rparr>\<rparr>))
     else Some (Inr (n, truncated, s)))"

partial_function (option) tag_loop ::
  "pmem \<Rightarrow> nat \<Rightarrow> u32 \<Rightarrow> u32 \<Rightarrow> nat \<Rightarrow> bool \<Rightarrow> mb2_state \<Rightarrow> ((mb2_failure \<times> mb2_state) + nat \<times> bool \<times> mb2_state) option" where
  [code]: "tag_loop m base tot off n truncated s =
    (if unat off + 8 \<le> unat tot
     then do {
       type \<leftarrow> ld32 m (base + unat off);
       if type = MB2_TAG_END then Some (Inr (n, truncated, s))
       else do {
         sz \<leftarrow> ld32 m (base + unat off + 4);
         if unat sz < 8 \<or> off + sz > tot then Some (Inl (TagPastEnd, s))
         else do {
           r \<leftarrow> tag_step m (base + unat off) type sz n truncated s;
           case r of
             Inl why \<Rightarrow> Some (Inl (why, s))
           | Inr (n1, tr1, s1) \<Rightarrow> tag_loop m base tot (off + ((sz + 7) AND NOT 7)) n1 tr1 s1
         }
       }
     }
     else Some (Inr (n, truncated, s)))"

definition mb2_fail :: "mb2_failure \<Rightarrow> mb2_state \<Rightarrow> u64 \<times> mb2_state" where
  "mb2_fail why s = (0, s\<lparr>mb2_why := Some why\<rparr>)"

definition mb2_to_start_info :: "u64 \<Rightarrow> u64 \<Rightarrow> pmem \<Rightarrow> u64 \<Rightarrow> mb2_state \<Rightarrow> (u64 \<times> mb2_state) option" where
  "mb2_to_start_info map_at si_at m mbi_paddr s0 =
    (let s = s0\<lparr>mb2_is_mb2 := True\<rparr> in
     if mbi_paddr = 0 \<or> mbi_paddr AND 7 \<noteq> 0 then Some (mb2_fail NoInformation s)
     else do {
       tot \<leftarrow> ld32 m (unat mbi_paddr);
       if tot < 8 then Some (mb2_fail TooShort s)
       else do {
         r \<leftarrow> tag_loop m (unat mbi_paddr) tot 8 0 False (s\<lparr>mb2_si := (mb2_si s)\<lparr>si_magic := HVM_START_MAGIC, si_version := 1\<rparr>\<rparr>);
         case r of
           Inl (why, s1) \<Rightarrow> Some (mb2_fail why s1)
         | Inr (n, truncated, s1) \<Rightarrow>
             if truncated then Some (mb2_fail TooManyRegions s1)
             else if n = 0 then Some (mb2_fail NoMemoryMap s1)
             else Some (si_at, s1\<lparr>mb2_si := (mb2_si s1)\<lparr>memmap_paddr := map_at, memmap_entries := word_of_nat n\<rparr>\<rparr>)
       }
     })"

definition mb2_framebuffer :: "mb2_state \<Rightarrow> mb2_fb option" where
  "mb2_framebuffer s = (if mb2_have_fb s then Some (mb2_fb_info s) else None)"

end
