(* ===== verification/MultibootProps.thy ===== *)
theory MultibootProps
  imports Multiboot
begin

text \<open>
  The walk over the tags, on the information structure a bootloader writes: a list of tags laid out as the
  Multiboot2 format says. The start information holds exactly what the tags state.
\<close>

section \<open>The format\<close>

type_synonym mb2_tag = "u32 \<times> u8 list"

definition pad8 :: "nat \<Rightarrow> nat" where
  "pad8 n = (8 - n mod 8) mod 8"

definition tag_bytes :: "mb2_tag \<Rightarrow> u8 list" where
  "tag_bytes tg = le_bytes 4 (unat (fst tg)) @ le_bytes 4 (8 + length (snd tg)) @ snd tg @ replicate (pad8 (8 + length (snd tg))) 0"

definition tags_bytes :: "mb2_tag list \<Rightarrow> u8 list" where
  "tags_bytes ts = concat (map tag_bytes ts) @ tag_bytes (MB2_TAG_END, [])"

definition mbi_bytes :: "mb2_tag list \<Rightarrow> u8 list" where
  "mbi_bytes ts = le_bytes 4 (8 + length (tags_bytes ts)) @ le_bytes 4 0 @ tags_bytes ts"

definition field :: "nat \<Rightarrow> nat \<Rightarrow> u8 list \<Rightarrow> 'a::len word" where
  "field i k bs = word_of_nat (le_nat (take k (drop i bs)))"

definition region_of :: "u8 list \<Rightarrow> hvm_memmap_entry" where
  "region_of bs = \<lparr>mm_addr = field 0 8 bs, mm_size = field 8 8 bs, mm_type = field 16 4 bs, mm_reserved = 0\<rparr>"

function mm_regions :: "nat \<Rightarrow> u8 list \<Rightarrow> hvm_memmap_entry list" where
  "mm_regions es body = (if 24 \<le> es \<and> es \<le> length body then region_of body # mm_regions es (drop es body) else [])"
  by pat_completeness auto
termination by (relation "measure (\<lambda>(es, body). length body)") auto

declare mm_regions.simps [simp del]

definition regions :: "mb2_tag list \<Rightarrow> hvm_memmap_entry list" where
  "regions ts = concat (map (\<lambda>tg. if fst tg = MB2_TAG_MMAP then mm_regions (unat (field 0 4 (snd tg) :: u32)) (drop 8 (snd tg)) else []) ts)"

definition fb_of :: "u8 list \<Rightarrow> mb2_fb" where
  "fb_of bs = \<lparr>fb_addr = field 0 8 bs, fb_pitch = field 8 4 bs, fb_width = field 12 4 bs, fb_height = field 16 4 bs,
    fb_bpp = bs ! 20, fb_kind = bs ! 21\<rparr>"

primrec last_fb :: "mb2_tag list \<Rightarrow> mb2_fb option \<Rightarrow> mb2_fb option" where
  "last_fb [] d = d"
| "last_fb (tg # ts) d = last_fb ts (if fst tg = MB2_TAG_FRAMEBUFFER \<and> 24 \<le> length (snd tg) then Some (fb_of (snd tg)) else d)"

primrec latest_at :: "u32 set \<Rightarrow> nat \<Rightarrow> mb2_tag list \<Rightarrow> u64 \<Rightarrow> u64" where
  "latest_at T a [] d = d"
| "latest_at T a (tg # ts) d = latest_at T (a + length (tag_bytes tg)) ts (if fst tg \<in> T then word_of_nat (a + 8) else d)"

definition tag_wf :: "mb2_tag \<Rightarrow> bool" where
  "tag_wf tg \<longleftrightarrow> fst tg \<noteq> MB2_TAG_END \<and>
    (fst tg = MB2_TAG_MMAP \<longrightarrow> 8 \<le> length (snd tg) \<and> 24 \<le> unat (field 0 4 (snd tg) :: u32) \<and> unat (field 0 4 (snd tg) :: u32) < 2 ^ 31)"

section \<open>Fields in memory\<close>

lemma bytes_at_part: "bytes_at m a bs \<Longrightarrow> i + k \<le> length bs \<Longrightarrow> bytes_at m (a + i) (take k (drop i bs))"
  by (auto simp: bytes_at_def add.assoc)

lemma ld_field:
  assumes "bytes_at m a bs" "i + k \<le> length bs"
  shows "ld_bytes m (a + i) k = Some (take k (drop i bs))"
proof -
  have "length (take k (drop i bs)) = k" using assms(2) by simp
  then show ?thesis using ld_bytes_ok [OF bytes_at_part [OF assms]] by simp
qed

lemma ld32_field: "bytes_at m a bs \<Longrightarrow> i + 4 \<le> length bs \<Longrightarrow> ld32 m (a + i) = Some (field i 4 bs)"
  by (simp add: ld32_def ld_field field_def)

lemma ld64_field: "bytes_at m a bs \<Longrightarrow> i + 8 \<le> length bs \<Longrightarrow> ld64 m (a + i) = Some (field i 8 bs)"
  by (simp add: ld64_def ld_field field_def)

lemma ld_byte: "bytes_at m a bs \<Longrightarrow> i < length bs \<Longrightarrow> ld m (a + i) = Some (bs ! i)"
  by (simp add: ld_def bytes_at_def)

lemma field_le: "x < 2 ^ 32 \<Longrightarrow> (field 0 4 (le_bytes 4 x @ bs) :: u32) = word_of_nat x"
  by (simp add: field_def le_nat_bytes)

lemma field_shift: "field (length xs + i) k (xs @ bs) = field i k bs"
  by (simp add: field_def)

lemma unat_u32: "x < 2 ^ 32 \<Longrightarrow> unat (word_of_nat x :: u32) = x"
  by (simp add: unat_of_nat)

lemma pad8_round: "(n + 7) div 8 * 8 = n + pad8 n"
proof -
  define q r where "q = n div 8" and "r = n mod 8"
  have n: "n = 8 * q + r" "r < 8" by (simp_all add: q_def r_def)
  have "(8 * q + r + 7) div 8 = q + (r + 7) div 8" by simp
  then show ?thesis using n by (cases "r = 0") (auto simp: pad8_def div_eq_dividend_iff le_div_geq)
qed

lemma round_size:
  assumes "unat (sz :: u32) < 2 ^ 31"
  shows "unat ((sz + 7) AND NOT 7) = unat sz + pad8 (unat sz)"
proof -
  have "unat (sz + 7) = unat sz + 7" by (subst unat_add_no_wrap) (use assms in simp_all)
  moreover have "(7 :: u32) = mask 3" by (simp add: mask_eq_exp_minus_1)
  ultimately show ?thesis using pad8_round [of "unat sz"] unat_and_not_mask [of "sz + 7" 3] by simp
qed

lemma tag_bytes_length: "length (tag_bytes tg) = 8 + length (snd tg) + pad8 (8 + length (snd tg))"
  by (simp add: tag_bytes_def)

section \<open>A memory map\<close>

lemma mmap_loop_ok:
  assumes "bytes_at m (t + unat e) body" "unat sz = unat e + length body" "unat sz < 2 ^ 31" "unat es < 2 ^ 31" "24 \<le> unat es"
    and "length mp = 64" "n \<le> 64" "take n mp = R"
  shows "\<exists>mp'. mmap_loop m t es sz e n mp =
      Some (min 64 (n + length (mm_regions (unat es) body)), mp', n + length (mm_regions (unat es) body) > 64) \<and>
    length mp' = 64 \<and> take (min 64 (n + length (mm_regions (unat es) body))) mp' = take 64 (R @ mm_regions (unat es) body)"
  using assms
proof (induction "64 - n" arbitrary: e body n mp R)
  case 0
  then have n: "n = 64" by simp
  have es: "unat (e + es) = unat e + unat es" by (rule unat_add_no_wrap) (use 0 in simp)
  have "e + es \<le> sz \<longleftrightarrow> unat es \<le> length body" using 0 es by (simp add: word_le_nat_alt)
  then show ?case using 0 n by (subst mmap_loop.simps) (subst mm_regions.simps; auto simp: MB2_MAX_MMAP_def)
next
  case (Suc k)
  then have n: "n < 64" by simp
  have es: "unat (e + es) = unat e + unat es" by (rule unat_add_no_wrap) (use Suc in simp)
  have c: "e + es \<le> sz \<longleftrightarrow> unat es \<le> length body" using Suc es by (simp add: word_le_nat_alt)
  show ?case
  proof (cases "unat es \<le> length body")
    case False
    then have "mm_regions (unat es) body = []" by (subst mm_regions.simps) simp
    moreover have "length R \<le> 64" using Suc.prems(6-8) by auto
    ultimately show ?thesis using Suc.prems(6,8) c n False by (subst mmap_loop.simps) simp
  next
    case True
    then have l: "24 \<le> length body" using Suc.prems(5) by simp
    let ?r = "region_of body" and ?rs = "mm_regions (unat es) (drop (unat es) body)"
    have rs: "mm_regions (unat es) body = ?r # ?rs" using True Suc.prems(5) by (subst mm_regions.simps) simp
    have f: "ld64 m (t + unat e) = Some (mm_addr ?r)" "ld64 m (t + unat e + 8) = Some (mm_size ?r)"
      "ld32 m (t + unat e + 16) = Some (mm_type ?r)"
      using ld64_field [OF Suc.prems(1), of 0] ld64_field [OF Suc.prems(1), of 8] ld32_field [OF Suc.prems(1), of 16] l
      by (simp_all add: region_of_def)
    have step: "mmap_loop m t es sz e n mp = mmap_loop m t es sz (e + es) (n + 1) (mp[n := ?r])"
      using c True n f by (subst mmap_loop.simps) (simp add: MB2_MAX_MMAP_def region_of_def)
    have "bytes_at m (t + unat (e + es)) (drop (unat es) body)"
      using bytes_at_part [OF Suc.prems(1), of "unat es" "length body - unat es"] True es by (simp add: add.assoc)
    moreover have "unat sz = unat (e + es) + length (drop (unat es) body)" using Suc.prems(2) True es by simp
    moreover have "take (n + 1) (mp[n := ?r]) = R @ [?r]" using n Suc.prems(6,8) by (simp add: take_Suc_conv_app_nth)
    moreover have "k = 64 - (n + 1)" "n + 1 \<le> 64" "length (mp[n := ?r]) = 64" using Suc.hyps(2) n Suc.prems(6) by auto
    ultimately have "\<exists>mp'. mmap_loop m t es sz (e + es) (n + 1) (mp[n := ?r]) =
        Some (min 64 (n + 1 + length ?rs), mp', n + 1 + length ?rs > 64) \<and> length mp' = 64 \<and>
      take (min 64 (n + 1 + length ?rs)) mp' = take 64 ((R @ [?r]) @ ?rs)"
      using Suc.hyps(1) Suc.prems(3-5) by blast
    then obtain mp' where "mmap_loop m t es sz (e + es) (n + 1) (mp[n := ?r]) =
        Some (min 64 (n + 1 + length ?rs), mp', n + 1 + length ?rs > 64)" "length mp' = 64"
      "take (min 64 (n + 1 + length ?rs)) mp' = take 64 ((R @ [?r]) @ ?rs)" by blast
    then show ?thesis unfolding step rs by (intro exI [of _ mp']) simp
  qed
qed

section \<open>A tag\<close>

text \<open>The walk so far: the regions met, and the state that holds them.\<close>

definition walk_is :: "nat \<Rightarrow> bool \<Rightarrow> mb2_state \<Rightarrow> hvm_memmap_entry list \<Rightarrow> bool" where
  "walk_is n tr s R \<longleftrightarrow> n = min 64 (length R) \<and> tr = (length R > 64) \<and> length (mb2_map s) = 64 \<and> take n (mb2_map s) = take 64 R"

definition same_rest :: "mb2_state \<Rightarrow> mb2_state \<Rightarrow> bool" where
  "same_rest s s' \<longleftrightarrow> mb2_is_mb2 s' = mb2_is_mb2 s \<and> mb2_why s' = mb2_why s"

lemma tag_step_ok:
  assumes w: "walk_is n tr s R" and wf: "tag_wf (ty, pay)" and b: "bytes_at m (t + 8) pay" and l: "8 + length pay < 2 ^ 31"
  shows "\<exists>n' tr' s'. tag_step m t ty (word_of_nat (8 + length pay)) n tr s = Some (Inr (n', tr', s')) \<and>
    walk_is n' tr' s' (R @ regions [(ty, pay)]) \<and> same_rest s s' \<and> mb2_framebuffer s' = last_fb [(ty, pay)] (mb2_framebuffer s) \<and>
    mb2_si s' = (mb2_si s)\<lparr>cmdline_paddr := latest_at {MB2_TAG_CMDLINE} t [(ty, pay)] (cmdline_paddr (mb2_si s)),
      rsdp_paddr := latest_at {MB2_TAG_ACPI_OLD, MB2_TAG_ACPI_NEW} t [(ty, pay)] (rsdp_paddr (mb2_si s))\<rparr>"
proof -
  note tags = MB2_TAG_END_def MB2_TAG_CMDLINE_def MB2_TAG_MMAP_def MB2_TAG_FRAMEBUFFER_def MB2_TAG_ACPI_OLD_def MB2_TAG_ACPI_NEW_def
  have sz: "unat (word_of_nat (8 + length pay) :: u32) = 8 + length pay" using l by (intro unat_u32) simp
  have reg: "ty \<noteq> MB2_TAG_MMAP \<Longrightarrow> regions [(ty, pay)] = []" by (simp add: regions_def)
  consider (mmap) "ty = MB2_TAG_MMAP" | (fb) "ty = MB2_TAG_FRAMEBUFFER" | (other) "ty \<noteq> MB2_TAG_MMAP" "ty \<noteq> MB2_TAG_FRAMEBUFFER" by blast
  then show ?thesis
  proof cases
    case mmap
    define es where "es = (field 0 4 pay :: u32)"
    have e: "8 \<le> length pay" "24 \<le> unat es" "unat es < 2 ^ 31" using wf mmap by (simp_all add: tag_wf_def es_def)
    let ?b = "drop 8 pay"
    have ld: "ld32 m (t + 8) = Some es" using ld32_field [OF b, of 0] e(1) by (simp add: es_def)
    have "bytes_at m (t + unat (16 :: u32)) ?b" using bytes_at_part [OF b, of 8 "length pay - 8"] e(1) by (simp add: add.assoc)
    moreover have "n \<le> 64" "take n (mb2_map s) = take 64 R" "length (mb2_map s) = 64" using w unfolding walk_is_def by auto
    moreover have "unat (word_of_nat (8 + length pay) :: u32) = unat (16 :: u32) + length ?b" using sz e(1) by simp
    ultimately obtain mp where mp: "mmap_loop m t es (word_of_nat (8 + length pay)) 16 n (mb2_map s) =
        Some (min 64 (n + length (mm_regions (unat es) ?b)), mp, n + length (mm_regions (unat es) ?b) > 64)" "length mp = 64"
      "take (min 64 (n + length (mm_regions (unat es) ?b))) mp = take 64 (take 64 R @ mm_regions (unat es) ?b)"
      using mmap_loop_ok [of m t 16 ?b "word_of_nat (8 + length pay)" es "mb2_map s" n "take 64 R"] e l sz by auto
    have r: "regions [(ty, pay)] = mm_regions (unat es) ?b" using mmap by (simp add: regions_def es_def)
    have "min 64 (n + length (mm_regions (unat es) ?b)) = min 64 (length (R @ mm_regions (unat es) ?b))"
      "(tr \<or> n + length (mm_regions (unat es) ?b) > 64) = (length (R @ mm_regions (unat es) ?b) > 64)"
      using w by (auto simp: walk_is_def)
    moreover have "take 64 (take 64 R @ mm_regions (unat es) ?b) = take 64 (R @ mm_regions (unat es) ?b)"
      by (cases "length R \<le> 64") simp_all
    ultimately have "walk_is (min 64 (n + length (mm_regions (unat es) ?b))) (tr \<or> n + length (mm_regions (unat es) ?b) > 64)
        (s\<lparr>mb2_map := mp\<rparr>) (R @ regions [(ty, pay)])" using mp(2,3) r by (simp add: walk_is_def)
    moreover have "tag_step m t ty (word_of_nat (8 + length pay)) n tr s = Some (Inr (min 64 (n + length (mm_regions (unat es) ?b)),
        tr \<or> n + length (mm_regions (unat es) ?b) > 64, s\<lparr>mb2_map := mp\<rparr>))"
      using mmap ld e(2) mp(1) by (simp add: tag_step_def tags)
    ultimately show ?thesis using mmap by (simp add: same_rest_def mb2_framebuffer_def tags)
  next
    case fb
    have f: "framebuffer_tag m t (word_of_nat (8 + length pay)) s =
        Some (if 24 \<le> length pay then s\<lparr>mb2_fb_info := fb_of pay, mb2_have_fb := True\<rparr> else s)"
    proof (cases "24 \<le> length pay")
      case True
      then show ?thesis using sz ld64_field [OF b, of 0] ld32_field [OF b, of 8] ld32_field [OF b, of 12] ld32_field [OF b, of 16]
          ld_byte [OF b, of 20] ld_byte [OF b, of 21]
        by (simp add: framebuffer_tag_def fb_of_def add.assoc)
    qed (use sz in \<open>simp add: framebuffer_tag_def\<close>)
    moreover have "walk_is n tr (if 24 \<le> length pay then s\<lparr>mb2_fb_info := fb_of pay, mb2_have_fb := True\<rparr> else s) R"
      using w by (auto simp: walk_is_def)
    ultimately show ?thesis using fb reg by (simp add: tag_step_def tags same_rest_def mb2_framebuffer_def)
  next
    case other
    then show ?thesis using w reg by (auto simp: tag_step_def same_rest_def mb2_framebuffer_def walk_is_def tags)
  qed
qed

section \<open>The tags\<close>

lemma tag_fields:
  assumes "bytes_at m a (tag_bytes (ty, pay) @ rest)" "8 + length pay < 2 ^ 31"
  shows "ld32 m a = Some ty" "ld32 m (a + 4) = Some (word_of_nat (8 + length pay))" "bytes_at m (a + 8) pay"
    "bytes_at m (a + length (tag_bytes (ty, pay))) rest"
proof -
  let ?t = "le_bytes 4 (8 + length pay) @ pay @ replicate (pad8 (8 + length pay)) 0 @ rest"
  have b: "bytes_at m a (le_bytes 4 (unat ty) @ ?t)" using assms(1) by (simp add: tag_bytes_def)
  have u: "unat ty < 2 ^ 32" using unsigned_less [of ty] by simp
  show "ld32 m a = Some ty" using ld32_field [OF b, of 0] field_le [OF u, of ?t] by simp
  have b4: "bytes_at m (a + 4) ?t" using b by (simp add: bytes_at_append)
  show "ld32 m (a + 4) = Some (word_of_nat (8 + length pay))"
    using ld32_field [OF b4, of 0] field_le [of "8 + length pay"] assms(2) by simp
  show "bytes_at m (a + 8) pay" using b4 by (simp add: bytes_at_append add.assoc)
  show "bytes_at m (a + length (tag_bytes (ty, pay))) rest" using assms(1) by (simp add: bytes_at_append)
qed

lemma tags_bytes_Cons: "tags_bytes (tg # ts) = tag_bytes tg @ tags_bytes ts"
  by (simp add: tags_bytes_def)

lemma tags_bytes_min: "8 \<le> length (tags_bytes ts)"
  by (simp add: tags_bytes_def tag_bytes_length)

lemma regions_Cons: "regions (tg # ts) = regions [tg] @ regions ts"
  by (simp add: regions_def)

lemma tag_loop_ok:
  assumes "bytes_at m (base + unat off) (tags_bytes ts)" "unat tot = unat off + length (tags_bytes ts)" "unat tot < 2 ^ 31"
    and "\<forall>tg \<in> set ts. tag_wf tg" "walk_is n tr s R"
  shows "\<exists>n' tr' s'. tag_loop m base tot off n tr s = Some (Inr (n', tr', s')) \<and> walk_is n' tr' s' (R @ regions ts) \<and> same_rest s s' \<and>
    mb2_framebuffer s' = last_fb ts (mb2_framebuffer s) \<and>
    mb2_si s' = (mb2_si s)\<lparr>cmdline_paddr := latest_at {MB2_TAG_CMDLINE} (base + unat off) ts (cmdline_paddr (mb2_si s)),
      rsdp_paddr := latest_at {MB2_TAG_ACPI_OLD, MB2_TAG_ACPI_NEW} (base + unat off) ts (rsdp_paddr (mb2_si s))\<rparr>"
  using assms
proof (induction ts arbitrary: off n tr s R)
  case Nil
  have "bytes_at m (base + unat off) (tag_bytes (MB2_TAG_END, []) @ [])" using Nil.prems(1) by (simp add: tags_bytes_def)
  from tag_fields(1) [OF this] have "ld32 m (base + unat off) = Some MB2_TAG_END" by simp
  moreover have "unat off + 8 \<le> unat tot" using Nil.prems(2) tags_bytes_min [of "[]"] by simp
  ultimately have "tag_loop m base tot off n tr s = Some (Inr (n, tr, s))" by (subst tag_loop.simps) simp
  then show ?case using Nil.prems(5) by (simp add: regions_def same_rest_def)
next
  case (Cons tg ts)
  obtain ty pay where tg: "tg = (ty, pay)" by fastforce
  let ?sz = "word_of_nat (8 + length pay) :: u32" and ?t = "base + unat off"
  have len: "unat tot = unat off + length (tag_bytes tg) + length (tags_bytes ts)" using Cons.prems(2) by (simp add: tags_bytes_Cons)
  have l: "8 + length pay < 2 ^ 31" using len Cons.prems(3) by (simp add: tg tag_bytes_length)
  have sz: "unat ?sz = 8 + length pay" using l by (intro unat_u32) simp
  have b: "bytes_at m ?t (tag_bytes (ty, pay) @ tags_bytes ts)" using Cons.prems(1) by (simp add: tags_bytes_Cons tg)
  note f = tag_fields [OF b l]
  have ty: "ty \<noteq> MB2_TAG_END" "tag_wf (ty, pay)" using Cons.prems(4) by (simp_all add: tg tag_wf_def)
  have fits: "unat off + 8 \<le> unat tot" "\<not> off + ?sz > tot"
  proof -
    have "unat (off + ?sz) = unat off + unat ?sz" by (rule unat_add_no_wrap) (use len sz Cons.prems(3) in \<open>simp add: tg tag_bytes_length\<close>)
    then show "unat off + 8 \<le> unat tot" "\<not> off + ?sz > tot"
      using len sz by (simp_all add: tg tag_bytes_length word_less_nat_alt)
  qed
  obtain n' tr' s' where st: "tag_step m ?t ty ?sz n tr s = Some (Inr (n', tr', s'))" "walk_is n' tr' s' (R @ regions [tg])" "same_rest s s'"
    "mb2_framebuffer s' = last_fb [tg] (mb2_framebuffer s)"
    "mb2_si s' = (mb2_si s)\<lparr>cmdline_paddr := latest_at {MB2_TAG_CMDLINE} ?t [tg] (cmdline_paddr (mb2_si s)),
      rsdp_paddr := latest_at {MB2_TAG_ACPI_OLD, MB2_TAG_ACPI_NEW} ?t [tg] (rsdp_paddr (mb2_si s))\<rparr>"
    using tag_step_ok [OF Cons.prems(5) ty(2) f(3) l] unfolding tg by blast
  define off' where "off' = off + ((?sz + 7) AND NOT 7)"
  have off': "unat off' = unat off + length (tag_bytes tg)"
  proof -
    have r: "unat ((?sz + 7) AND NOT 7) = length (tag_bytes tg)" using round_size [of ?sz] sz l by (simp add: tg tag_bytes_length)
    show ?thesis unfolding off'_def by (subst unat_add_no_wrap) (use r len Cons.prems(3) in simp_all)
  qed
  have step: "tag_loop m base tot off n tr s = tag_loop m base tot off' n' tr' s'"
    using f(1,2) ty(1) fits sz st(1) by (subst tag_loop.simps) (simp add: off'_def)
  have "bytes_at m (base + unat off') (tags_bytes ts)" using f(4) off' by (simp add: tg add.assoc)
  from Cons.IH [OF this _ Cons.prems(3) _ st(2)] off' len Cons.prems(4) obtain n2 tr2 s2 where
    r: "tag_loop m base tot off' n' tr' s' = Some (Inr (n2, tr2, s2))" "walk_is n2 tr2 s2 ((R @ regions [tg]) @ regions ts)" "same_rest s' s2"
      "mb2_framebuffer s2 = last_fb ts (mb2_framebuffer s')"
      "mb2_si s2 = (mb2_si s')\<lparr>cmdline_paddr := latest_at {MB2_TAG_CMDLINE} (base + unat off') ts (cmdline_paddr (mb2_si s')),
        rsdp_paddr := latest_at {MB2_TAG_ACPI_OLD, MB2_TAG_ACPI_NEW} (base + unat off') ts (rsdp_paddr (mb2_si s'))\<rparr>" by auto
  show ?case
    by (intro exI [of _ n2] exI [of _ tr2] exI [of _ s2])
      (use step r st(3-5) off' in \<open>simp add: regions_Cons [of tg ts] same_rest_def add.assoc\<close>)
qed

section \<open>A size that wraps\<close>

definition placed :: "nat \<Rightarrow> u8 list \<Rightarrow> pmem" where
  "placed a bs = (\<lambda>x. if a \<le> x \<and> x < a + length bs then Some (bs ! (x - a)) else None)"

lemma placed_bytes: "bytes_at (placed a bs) a bs"
  by (simp add: bytes_at_def placed_def)

text \<open>Two tags of no known type, the second with a size eight below two to the thirty-two: its end wraps round
  to the start of the first, which passes the test that a tag lies inside the structure.\<close>

definition wrap_bytes :: "u8 list" where
  "wrap_bytes = le_bytes 4 24 @ le_bytes 4 0 @ le_bytes 4 99 @ le_bytes 4 8 @ le_bytes 4 99 @ le_bytes 4 4294967288"

lemma wrap_fields:
  "ld32 (placed 8 wrap_bytes) 8 = Some 24" "ld32 (placed 8 wrap_bytes) 16 = Some 99" "ld32 (placed 8 wrap_bytes) 20 = Some 8"
  "ld32 (placed 8 wrap_bytes) 24 = Some 99" "ld32 (placed 8 wrap_bytes) 28 = Some 4294967288"
proof -
  have l: "length wrap_bytes = 24" by (simp add: wrap_bytes_def)
  note f = ld32_field [OF placed_bytes, of _ wrap_bytes 8, unfolded l]
  have v: "field 0 4 wrap_bytes = (24 :: u32)" "field 8 4 wrap_bytes = (99 :: u32)" "field 12 4 wrap_bytes = (8 :: u32)"
    "field 16 4 wrap_bytes = (99 :: u32)" "field 20 4 wrap_bytes = (4294967288 :: u32)"
    by (simp_all add: field_def wrap_bytes_def le_nat_bytes)
  show "ld32 (placed 8 wrap_bytes) 8 = Some 24" "ld32 (placed 8 wrap_bytes) 16 = Some 99" "ld32 (placed 8 wrap_bytes) 20 = Some 8"
    "ld32 (placed 8 wrap_bytes) 24 = Some 99" "ld32 (placed 8 wrap_bytes) 28 = Some 4294967288"
    using f [of 0] f [of 8] f [of 12] f [of 16] f [of 20] by (simp_all add: v)
qed

definition wrapping :: "pmem \<Rightarrow> nat \<Rightarrow> u32 \<Rightarrow> u32 \<Rightarrow> bool" where
  "wrapping m base tot off \<longleftrightarrow> m = placed 8 wrap_bytes \<and> base = 8 \<and> tot = 24 \<and> (off = 8 \<or> off = 16)"

lemma wrap_step: "tag_step m t 99 sz n tr s = Some (Inr (n, tr, s))"
  by (simp add: tag_step_def MB2_TAG_CMDLINE_def MB2_TAG_MMAP_def MB2_TAG_FRAMEBUFFER_def MB2_TAG_ACPI_OLD_def MB2_TAG_ACPI_NEW_def)

lemma wrap_never_ends: "tag_loop (placed 8 wrap_bytes) 8 24 8 n tr s = None"
proof -
  have "\<not> wrapping m base tot off" if "tag_loop m base tot off n tr s = Some r" for m base tot off n tr s r
    using that
  proof (rule tag_loop.raw_induct [where P = "\<lambda>m base tot off n tr s r. \<not> wrapping m base tot off", rotated], goal_cases)
    case (1 f m base tot off n tr s r)
    show ?case
    proof
      assume w: "wrapping m base tot off"
      then have "off = 8 \<or> off = 16" by (simp add: wrapping_def)
      then obtain off' where "f m base tot off' n tr s = Some r" "wrapping m base tot off'"
        using 1(2) w by (auto simp: wrapping_def wrap_fields wrap_step MB2_TAG_END_def)
      with 1(1) show False by blast
    qed
  qed
  moreover have "wrapping (placed 8 wrap_bytes) 8 24 8" by (simp add: wrapping_def)
  ultimately show ?thesis by (meson not_None_eq)
qed

lemma wrap_handover: "mb2_to_start_info map_at si_at (placed 8 wrap_bytes) 8 s = None"
  by (simp add: mb2_to_start_info_def Let_def wrap_fields wrap_never_ends)

section \<open>The handover\<close>

lemma framebuffer_upd [simp]: "mb2_framebuffer (s\<lparr>mb2_why := w\<rparr>) = mb2_framebuffer s" "mb2_framebuffer (s\<lparr>mb2_si := si\<rparr>) = mb2_framebuffer s"
  by (simp_all add: mb2_framebuffer_def)

lemma mbi_total:
  assumes "bytes_at m a (mbi_bytes ts)" "length (mbi_bytes ts) < 2 ^ 31"
  shows "ld32 m a = Some (word_of_nat (length (mbi_bytes ts)))" "bytes_at m (a + 8) (tags_bytes ts)"
proof -
  have l: "length (mbi_bytes ts) = 8 + length (tags_bytes ts)" by (simp add: mbi_bytes_def)
  show "ld32 m a = Some (word_of_nat (length (mbi_bytes ts)))"
    using ld32_field [OF assms(1), of 0] assms(2) field_le [of "8 + length (tags_bytes ts)" "le_bytes 4 0 @ tags_bytes ts"] l
    unfolding mbi_bytes_def by simp
  show "bytes_at m (a + 8) (tags_bytes ts)" using assms(1) by (simp add: mbi_bytes_def bytes_at_append add.assoc)
qed

lemma walk_start: "walk_is 0 False (mb2_boot\<lparr>mb2_is_mb2 := b, mb2_si := si\<rparr>) []"
  by (simp add: walk_is_def mb2_boot_def MB2_MAX_MMAP_def)

text \<open>C29. The conversion of the Multiboot2 information is faithful. Whatever tags a bootloader lays out, the
  walk reads mapped bytes of the structure only and ends; with one to sixty-four memory regions the
  start information lists exactly the regions of all memory map tags in order, whatever their entry size, and
  carries the last command line, the last ACPI table and the last framebuffer; with none, or with more than the table holds, the
  conversion fails with that reason instead of handing over a partial map. A tag whose declared size wraps the
  32-bit sum of the bounds test is not refused, and can keep the walk going for ever.\<close>

theorem mb2_handover:
  assumes "bytes_at m (unat base) (mbi_bytes ts)" and "length (mbi_bytes ts) < 2 ^ 31" and "\<forall>tg \<in> set ts. tag_wf tg"
    and "base \<noteq> 0" and "base AND 7 = 0"
  shows "\<exists>r s. mb2_to_start_info map_at si_at m base mb2_boot = Some (r, s) \<and> mb2_is_mb2 s \<and>
    mb2_framebuffer s = last_fb ts None \<and>
    cmdline_paddr (mb2_si s) = latest_at {MB2_TAG_CMDLINE} (unat base + 8) ts 0 \<and>
    rsdp_paddr (mb2_si s) = latest_at {MB2_TAG_ACPI_OLD, MB2_TAG_ACPI_NEW} (unat base + 8) ts 0 \<and>
    (if regions ts = [] then r = 0 \<and> mb2_why s = Some NoMemoryMap
     else if length (regions ts) > 64 then r = 0 \<and> mb2_why s = Some TooManyRegions
     else r = si_at \<and> mb2_why s = None \<and> si_magic (mb2_si s) = HVM_START_MAGIC \<and> memmap_paddr (mb2_si s) = map_at \<and>
       unat (memmap_entries (mb2_si s)) = length (regions ts) \<and> take (length (regions ts)) (mb2_map s) = regions ts) \<and>
    mb2_to_start_info map_at si_at (placed 8 wrap_bytes) 8 mb2_boot = None"
proof -
  let ?tot = "word_of_nat (length (mbi_bytes ts)) :: u32"
  let ?s0 = "(mb2_boot\<lparr>mb2_is_mb2 := True\<rparr>)\<lparr>mb2_si := (mb2_si mb2_boot)\<lparr>si_magic := HVM_START_MAGIC, si_version := 1\<rparr>\<rparr>"
  note t = mbi_total [OF assms(1,2)]
  have tot: "unat ?tot = length (mbi_bytes ts)" using assms(2) by (intro unat_u32) simp
  have l: "length (mbi_bytes ts) = 8 + length (tags_bytes ts)" by (simp add: mbi_bytes_def)
  obtain n tr s where w: "tag_loop m (unat base) ?tot 8 0 False ?s0 = Some (Inr (n, tr, s))" "walk_is n tr s (regions ts)" "same_rest ?s0 s"
    "mb2_framebuffer s = last_fb ts (mb2_framebuffer ?s0)"
    "mb2_si s = (mb2_si ?s0)\<lparr>cmdline_paddr := latest_at {MB2_TAG_CMDLINE} (unat base + 8) ts (cmdline_paddr (mb2_si ?s0)),
      rsdp_paddr := latest_at {MB2_TAG_ACPI_OLD, MB2_TAG_ACPI_NEW} (unat base + 8) ts (rsdp_paddr (mb2_si ?s0))\<rparr>"
    using tag_loop_ok [of m "unat base" 8 ts ?tot 0 False ?s0 "[]"] t(2) tot l assms(2,3) walk_start [where b = True] by auto
  have m: "mb2_to_start_info map_at si_at m base mb2_boot =
      (if tr then Some (mb2_fail TooManyRegions s) else if n = 0 then Some (mb2_fail NoMemoryMap s)
       else Some (si_at, s\<lparr>mb2_si := (mb2_si s)\<lparr>memmap_paddr := map_at, memmap_entries := word_of_nat n\<rparr>\<rparr>))"
  proof -
    have "\<not> ?tot < 8" using tot l by (simp add: word_less_nat_alt)
    moreover have "(mb2_boot\<lparr>mb2_is_mb2 := True\<rparr>)\<lparr>mb2_si := (mb2_si (mb2_boot\<lparr>mb2_is_mb2 := True\<rparr>))\<lparr>si_magic := HVM_START_MAGIC, si_version := 1\<rparr>\<rparr> = ?s0" by simp
    ultimately show ?thesis using t(1) w(1) assms(4,5) by (simp add: mb2_to_start_info_def Let_def)
  qed
  have si: "cmdline_paddr (mb2_si s) = latest_at {MB2_TAG_CMDLINE} (unat base + 8) ts 0"
    "rsdp_paddr (mb2_si s) = latest_at {MB2_TAG_ACPI_OLD, MB2_TAG_ACPI_NEW} (unat base + 8) ts 0" "si_magic (mb2_si s) = HVM_START_MAGIC"
    "mb2_is_mb2 s" "mb2_why s = None" "mb2_framebuffer s = last_fb ts None"
    using w(3-5) by (simp_all add: mb2_boot_def same_rest_def mb2_framebuffer_def)
  have nn: "n = min 64 (length (regions ts))" "tr = (length (regions ts) > 64)" "take n (mb2_map s) = take 64 (regions ts)"
    using w(2) unfolding walk_is_def by blast+
  consider "regions ts = []" | "length (regions ts) > 64" | "regions ts \<noteq> []" "length (regions ts) \<le> 64" by linarith
  then show ?thesis
  proof cases
    case 1
    then show ?thesis using m si nn wrap_handover by (simp add: mb2_fail_def)
  next
    case 2
    then show ?thesis using m si nn wrap_handover by (auto simp: mb2_fail_def)
  next
    case 3
    then have "n = length (regions ts)" "\<not> tr" "n \<noteq> 0" using nn by auto
    then show ?thesis using m si nn 3 unat_u32 [of n] wrap_handover by simp
  qed
qed

text \<open>A command line and one region of 16 MiB.\<close>

definition grub_tags :: "mb2_tag list" where
  "grub_tags = [(MB2_TAG_CMDLINE, [104, 105, 0]), (MB2_TAG_MMAP, le_bytes 4 24 @ le_bytes 4 0 @ le_bytes 8 1048576 @ le_bytes 8 16777216 @ le_bytes 4 1 @ le_bytes 4 0)]"

theorem mb2_handover_witness:
  "\<exists>s. mb2_to_start_info 4096 8192 (placed 64 (mbi_bytes grub_tags)) 64 mb2_boot = Some (8192, s) \<and>
     take 1 (mb2_map s) = [\<lparr>mm_addr = 1048576, mm_size = 16777216, mm_type = 1, mm_reserved = 0\<rparr>] \<and>
     memmap_entries (mb2_si s) = 1 \<and> cmdline_paddr (mb2_si s) = 80"
proof -
  have f: "field 0 4 (le_bytes 4 24 @ b) = (24 :: u32)" for b by (simp add: field_def le_nat_bytes)
  have r: "regions grub_tags = [\<lparr>mm_addr = 1048576, mm_size = 16777216, mm_type = 1, mm_reserved = 0\<rparr>]"
    by (simp add: regions_def grub_tags_def MB2_TAG_CMDLINE_def MB2_TAG_MMAP_def f mm_regions.simps [of 24] region_of_def field_def le_nat_bytes)
  have wf: "\<forall>tg \<in> set grub_tags. tag_wf tg"
    by (simp add: grub_tags_def tag_wf_def MB2_TAG_CMDLINE_def MB2_TAG_MMAP_def MB2_TAG_END_def f)
  have l: "length (mbi_bytes grub_tags) < 2 ^ 31" by (simp add: mbi_bytes_def tags_bytes_def tag_bytes_length grub_tags_def pad8_def)
  have c: "latest_at {MB2_TAG_CMDLINE} 72 grub_tags 0 = 80" by (simp add: grub_tags_def MB2_TAG_CMDLINE_def MB2_TAG_MMAP_def)
  have b: "bytes_at (placed 64 (mbi_bytes grub_tags)) (unat (64 :: u64)) (mbi_bytes grub_tags)" using placed_bytes by simp
  obtain s where s: "mb2_to_start_info 4096 8192 (placed 64 (mbi_bytes grub_tags)) 64 mb2_boot = Some (8192, s)"
    "cmdline_paddr (mb2_si s) = 80" "unat (memmap_entries (mb2_si s)) = 1" "take 1 (mb2_map s) = regions grub_tags"
    using mb2_handover [OF b l wf, of 4096 8192] r c by auto
  have "memmap_entries (mb2_si s) = 1" using s(3) by (metis unsigned_1 word_unat_eq_iff)
  then show ?thesis using s r by auto
qed

end
