(* ===== verification/Dtoa.thy ===== *)
theory Dtoa
  imports Prelude "HOL-Library.Monad_Syntax"
begin

text \<open>
  The conversion of doubles for formatted output (unikernel/nolibc/dtoa.c): the exact decimal expansion of a double in
  big number arithmetic on 32-bit limbs, rounding to a number of digits, and the three styles.

  A double is its 64-bit pattern. A big number is the list of its limbs in use, least significant
  first; \<open>None\<close> is an operation that would need more than the array has.
\<close>

unbundle bit_operations_syntax

definition NL_DTOA_W :: nat where "NL_DTOA_W = 96"
definition NL_DTOA_DIGS :: nat where "NL_DTOA_DIGS = 800"

type_synonym nl_bignum = "u32 list"

definition nl_bn_set :: "u64 \<Rightarrow> nl_bignum" where
  "nl_bn_set v =
    (let w0 = ucast v; w1 = ucast (drop_bit 32 v)
     in if w1 \<noteq> 0 then [w0, w1] else if w0 \<noteq> 0 then [w0] else [])"

fun mul_loop :: "nl_bignum \<Rightarrow> u32 \<Rightarrow> u64 \<Rightarrow> nl_bignum \<times> u64" where
  "mul_loop [] m carry = ([], carry)"
| "mul_loop (w # ws) m carry =
    (let t = ucast w * ucast m + carry; (ws1, c) = mul_loop ws m (drop_bit 32 t) in (ucast t # ws1, c))"

function mul_carry :: "nl_bignum \<Rightarrow> u64 \<Rightarrow> nl_bignum option" where
  "mul_carry ws carry =
    (if carry = 0 then Some ws
     else if length ws \<ge> NL_DTOA_W then None
     else mul_carry (ws @ [ucast carry]) (drop_bit 32 carry))"
  by pat_completeness auto
termination by (relation "measure (\<lambda>(ws, c). NL_DTOA_W - length ws)") auto

declare mul_carry.simps [simp del]

definition nl_bn_mul :: "nl_bignum \<Rightarrow> u32 \<Rightarrow> nl_bignum option" where
  "nl_bn_mul b m = (let (ws, carry) = mul_loop b m 0 in mul_carry ws carry)"

fun shl_loop :: "nat \<Rightarrow> nl_bignum \<Rightarrow> u32 \<Rightarrow> nl_bignum \<times> u32" where
  "shl_loop sh [] carry = ([], carry)"
| "shl_loop sh (w # ws) carry =
    (let nv = push_bit sh w OR carry; (ws1, c) = shl_loop sh ws (ucast (drop_bit (32 - sh) (ucast w :: u64))) in (nv # ws1, c))"

definition nl_bn_shl :: "nl_bignum \<Rightarrow> nat \<Rightarrow> nl_bignum option" where
  "nl_bn_shl b bits =
    (let words = bits div 32; sh = bits mod 32 in
     if b = [] then Some b
     else do {
       b1 \<leftarrow> (if sh \<noteq> 0
              then let (ws, carry) = shl_loop sh b 0 in
                if carry = 0 then Some ws else if length ws \<ge> NL_DTOA_W then None else Some (ws @ [carry])
              else Some b);
       if words = 0 then Some b1
       else if length b1 + words > NL_DTOA_W then None
       else Some (replicate words 0 @ b1)
     })"

text \<open>From the most significant limb down.\<close>

fun div_loop :: "nl_bignum \<Rightarrow> u64 \<Rightarrow> nl_bignum \<times> u64" where
  "div_loop [] rem = ([], rem)"
| "div_loop (w # ws) rem =
    (let cur = push_bit 32 rem OR ucast w; (qs, r) = div_loop ws (cur mod 1000000000)
     in (ucast (cur div 1000000000) # qs, r))"

definition nl_bn_div1e9 :: "nl_bignum \<Rightarrow> nl_bignum \<times> u32" where
  "nl_bn_div1e9 b = (let (qs, rem) = div_loop (rev b) 0 in (rev (dropWhile (\<lambda>w. w = 0) qs), ucast rem))"

section \<open>The exact digits\<close>

function mul_fives :: "nat \<Rightarrow> nl_bignum \<Rightarrow> nl_bignum option" where
  "mul_fives i b = (if i \<ge> 13 then do { b1 \<leftarrow> nl_bn_mul b 1220703125; mul_fives (i - 13) b1 } else Some b)"
  by pat_completeness auto
termination by (relation "measure fst") auto

declare mul_fives.simps [simp del]

definition p5 :: "u32 list" where
  "p5 = [1, 5, 25, 125, 625, 3125, 15625, 78125, 390625, 1953125, 9765625, 48828125, 244140625]"

fun group :: "nat \<Rightarrow> u32 \<Rightarrow> string" where
  "group 0 r = []"
| "group (Suc n) r = char_of (48 + unat (r mod 10)) # group n (r div 10)"

text \<open>The digits least significant first; \<open>None\<close> when the array is full.\<close>

function pump :: "nl_bignum \<Rightarrow> string \<Rightarrow> string option" where
  "pump b digits =
    (if b = [] then Some digits
     else let (b1, r) = nl_bn_div1e9 b in
       if length digits + 9 > NL_DTOA_DIGS then None else pump b1 (digits @ group 9 r))"
  by pat_completeness auto

lemma length_group [simp]: "length (group n r) = n"
  by (induction n arbitrary: r) auto

termination pump by (relation "measure (\<lambda>(b, ds). NL_DTOA_DIGS - length ds)") auto

declare pump.simps [simp del]

text \<open>Dropping zeros at the end while more than one digit is left.\<close>

definition strip_zeros :: "string \<Rightarrow> string" where
  "strip_zeros ds = (let t = rev (dropWhile (\<lambda>c. c = CHR ''0'') (rev ds)) in if t = [] then take 1 ds else t)"

definition exponent_bits :: "u64 \<Rightarrow> u64" where
  "exponent_bits bits = drop_bit 52 bits AND 0x7FF"

definition mantissa_bits :: "u64 \<Rightarrow> u64" where
  "mantissa_bits bits = bits AND 0xFFFFFFFFFFFFF"

definition nl_exact_digits :: "u64 \<Rightarrow> (string \<times> int) option" where
  "nl_exact_digits bits =
    (let be = exponent_bits bits; m0 = mantissa_bits bits in
     if be = 0x7FF then None
     else let e2 = (if be = 0 then -1074 else uint be - 1075); mant = (if be = 0 then m0 else m0 OR push_bit 52 1) in
       if mant = 0 then Some (''0'', 0)
       else do {
         let k = (if e2 \<ge> 0 then 0 else nat (- e2));
         b \<leftarrow> (if e2 \<ge> 0 then nl_bn_shl (nl_bn_set mant) (nat e2)
              else do {
                b1 \<leftarrow> mul_fives k (nl_bn_set mant);
                if k mod 13 \<noteq> 0 then nl_bn_mul b1 (p5 ! (k mod 13)) else Some b1
              });
         ds \<leftarrow> pump b [];
         let full = rev (strip_zeros ds);
         Some (strip_zeros full, int (length full) - 1 - int k)
       })"

section \<open>Rounding\<close>

text \<open>Adding one to the last digit, least significant first; the flag says that every digit was a nine.\<close>

fun bump :: "string \<Rightarrow> string \<times> bool" where
  "bump [] = ([], True)"
| "bump (c # cs) =
    (if c \<noteq> CHR ''9'' then (char_of (of_char c + 1 :: nat) # cs, False)
     else let (r, all9) = bump cs in (CHR ''0'' # r, all9))"

definition above_half :: "string \<Rightarrow> bool" where
  "above_half ds \<longleftrightarrow> (\<exists>c \<in> set ds. c \<noteq> CHR ''0'')"

definition nl_round_digits :: "string \<Rightarrow> int \<Rightarrow> int \<Rightarrow> string \<times> int" where
  "nl_round_digits d keep exp10 =
    (if keep \<ge> int (length d) then (d, exp10)
     else if keep \<le> 0
     then if keep = 0 \<and> d \<noteq> [] \<and> ((of_char (d ! 0) :: nat) > 53 \<or> d ! 0 = CHR ''5'' \<and> above_half (drop 1 d)) then (''1'', exp10 + 1) else ([], exp10)
     else let k = nat keep in
       if (of_char (d ! k) :: nat) < 53 \<or> d ! k = CHR ''5'' \<and> \<not> above_half (drop (k + 1) d) \<and> (of_char (d ! (k - 1)) - 48 :: int) mod 2 = 0
       then (take k d, exp10)
       else let (r, all9) = bump (rev (take k d)) in
         if all9 then (CHR ''1'' # tl (rev r), exp10 + 1) else (rev r, exp10))"

section \<open>The three styles\<close>

definition digit_or_zero :: "string \<Rightarrow> int \<Rightarrow> char" where
  "digit_or_zero ds i = (if 0 \<le> i \<and> i < int (length ds) then ds ! nat i else CHR ''0'')"

definition style_e :: "string \<Rightarrow> int \<Rightarrow> int \<Rightarrow> bool \<Rightarrow> string" where
  "style_e ds0 exp0 prec alt =
    (let (ds, ex) = nl_round_digits ds0 (prec + 1) exp0; a = nat \<bar>ex\<bar> in
     [if ds \<noteq> [] then ds ! 0 else CHR ''0''] @
     (if prec > 0 \<or> alt then CHR ''.'' # map (digit_or_zero ds) [1..prec] else []) @
     [CHR ''e'', if ex < 0 then CHR ''-'' else CHR ''+''] @
     (if a \<ge> 100 then [char_of (48 + a div 100)] else []) @
     [char_of (48 + a div 10 mod 10), char_of (48 + a mod 10)])"

definition style_f :: "string \<Rightarrow> int \<Rightarrow> int \<Rightarrow> bool \<Rightarrow> string" where
  "style_f ds0 exp0 prec alt =
    (let (ds, ex) = nl_round_digits ds0 (exp0 + 1 + prec) exp0 in
     (if ex < 0 then ''0'' else map (digit_or_zero ds) [0..ex]) @
     (if prec > 0 \<or> alt then CHR ''.'' # map (\<lambda>i. digit_or_zero ds (ex + i)) [1..prec] else []))"

definition nl_format_double :: "u64 \<Rightarrow> char \<Rightarrow> int \<Rightarrow> bool \<Rightarrow> string" where
  "nl_format_double bits conv prec alt =
    (let neg = bit bits 63 in
     if exponent_bits bits = 0x7FF
     then if mantissa_bits bits \<noteq> 0 then ''nan'' else if neg then ''-inf'' else ''inf''
     else (if neg then ''-'' else '''') @
       (case nl_exact_digits bits of
          None \<Rightarrow> ''?''
        | Some (ds0, exp0) \<Rightarrow>
            if conv = CHR ''g''
            then let P = (if prec = 0 then 1 else prec);
                     (ds1, ex) = nl_round_digits ds0 P exp0;
                     st = (ex < -4 \<or> ex \<ge> P);
                     ds = (if alt then ds1 else strip_zeros ds1);
                     p = (if st then int (length ds) - 1 else int (length ds) - 1 - ex);
                     p1 = (if p < 0 then 0 else p)
                 in if st then style_e ds ex p1 alt else style_f ds ex p1 alt
            else if conv = CHR ''e'' then style_e ds0 exp0 prec alt
            else style_f ds0 exp0 prec alt))"

end
