(* ===== verification/NlStdio.thy ===== *)
theory NlStdio
  imports Vfs Dtoa
begin

text \<open>
  Buffered streams and formatted output (unikernel/nolibc/stdio.c) over the descriptor calls of the
  platform, which are the record \<open>io\<close>; \<open>guest_io\<close> makes it out of the guest's calls, with what reaches the
  console kept as a log.

  The flags word of a stream is kept as its bits. A byte is a character. The result of an operation
  is its return value, the stream and the state below; it is \<open>None\<close> when a byte is stored outside the
  stream's buffer or the 1200 bytes for a double's text, an argument is missing, or a write is interrupted for ever.
\<close>

section \<open>Streams\<close>

record 'k io_ops =
  io_write :: "int \<Rightarrow> string \<Rightarrow> 'k \<Rightarrow> int \<times> 'k"
  io_read :: "int \<Rightarrow> nat \<Rightarrow> 'k \<Rightarrow> int \<times> string \<times> 'k"
  io_lseek :: "int \<Rightarrow> int \<Rightarrow> int \<Rightarrow> 'k \<Rightarrow> int \<times> 'k"
  io_open :: "string \<Rightarrow> int \<Rightarrow> 'k \<Rightarrow> int \<times> 'k"
  io_close :: "int \<Rightarrow> 'k \<Rightarrow> int \<times> 'k"
  io_errno :: "'k \<Rightarrow> int"

definition NL_BUFSZ :: nat where "NL_BUFSZ = 4096"

record nl_file =
  fl_fd :: int
  fl_read :: bool
  fl_write :: bool
  fl_eof :: bool
  fl_err :: bool
  fl_unbuf :: bool
  fl_linebuf :: bool
  fl_alloc :: bool
  ungot :: int
  bufpos :: nat
  buflen :: nat
  buf :: string

definition nl_stdin :: nl_file where
  "nl_stdin = \<lparr>fl_fd = 0, fl_read = True, fl_write = False, fl_eof = False, fl_err = False, fl_unbuf = False, fl_linebuf = False,
    fl_alloc = False, ungot = -1, bufpos = 0, buflen = 0, buf = replicate NL_BUFSZ (CHR 0x00)\<rparr>"

definition nl_stdout :: nl_file where
  "nl_stdout = nl_stdin\<lparr>fl_fd := 1, fl_read := False, fl_write := True\<rparr>"

definition nl_stderr :: nl_file where
  "nl_stderr = nl_stdin\<lparr>fl_fd := 2, fl_read := False, fl_write := True, fl_unbuf := True\<rparr>"

section \<open>Writing\<close>

partial_function (option) nl_write_all :: "'k io_ops \<Rightarrow> int \<Rightarrow> string \<Rightarrow> 'k \<Rightarrow> (int \<times> 'k) option" where
  [code]: "nl_write_all io fd p k =
    (if p = [] then Some (0, k)
     else case io_write io fd p k of (w, k1) \<Rightarrow>
       if w \<le> 0 then if w < 0 \<and> io_errno io k1 = 4 then nl_write_all io fd p k1 else Some (-1, k1)
       else nl_write_all io fd (drop (nat w) p) k1)"

definition fflush :: "'k io_ops \<Rightarrow> nl_file \<Rightarrow> 'k \<Rightarrow> (int \<times> nl_file \<times> 'k) option" where
  "fflush io f k =
    (if \<not> fl_write f \<or> bufpos f = 0 then Some (0, f, k)
     else do {
       (r, k1) \<leftarrow> nl_write_all io (fl_fd f) (take (bufpos f) (buf f)) k;
       if r < 0 then Some (-1, f\<lparr>fl_err := True, bufpos := 0\<rparr>, k1)
       else Some (0, f\<lparr>bufpos := 0\<rparr>, k1)
     })"

text \<open>\<open>fflush\<close> of the null pointer: the two standard output streams, both whatever the first answers.\<close>

definition fflush_all :: "'k io_ops \<Rightarrow> nl_file \<Rightarrow> nl_file \<Rightarrow> 'k \<Rightarrow> (int \<times> nl_file \<times> nl_file \<times> 'k) option" where
  "fflush_all io out err k = do {
     (a, out1, k1) \<leftarrow> fflush io out k;
     (b, err1, k2) \<leftarrow> fflush io err k1;
     Some (if a \<noteq> 0 \<or> b \<noteq> 0 then -1 else 0, out1, err1, k2)
   }"

definition nl_drop_readahead :: "'k io_ops \<Rightarrow> nl_file \<Rightarrow> 'k \<Rightarrow> nl_file \<times> 'k" where
  "nl_drop_readahead io f k =
    (let k1 = (if buflen f > bufpos f then snd (io_lseek io (fl_fd f) (- int (buflen f - bufpos f)) 1 k) else k)
     in (f\<lparr>bufpos := 0, buflen := 0, ungot := -1\<rparr>, k1))"

definition store_at :: "nat \<Rightarrow> string \<Rightarrow> nl_file \<Rightarrow> nl_file option" where
  "store_at i s f = (if i + length s \<le> length (buf f) then Some (f\<lparr>buf := take i (buf f) @ s @ drop (i + length s) (buf f)\<rparr>) else None)"

definition nl_putb :: "'k io_ops \<Rightarrow> char \<Rightarrow> nl_file \<Rightarrow> 'k \<Rightarrow> (int \<times> nl_file \<times> 'k) option" where
  "nl_putb io c f k =
    (if \<not> fl_write f then Some (-1, f\<lparr>fl_err := True\<rparr>, k)
     else let (f1, k1) = (if buflen f \<noteq> 0 then nl_drop_readahead io f k else (f, k)) in do {
       f2 \<leftarrow> store_at (bufpos f1) [c] f1;
       let f3 = f2\<lparr>bufpos := bufpos f1 + 1\<rparr>;
       if bufpos f3 = NL_BUFSZ \<or> fl_unbuf f3 \<or> (fl_linebuf f3 \<and> c = CHR 0x0A) then fflush io f3 k1
       else Some (0, f3, k1)
     })"

definition fputc :: "'k io_ops \<Rightarrow> char \<Rightarrow> nl_file \<Rightarrow> 'k \<Rightarrow> (int \<times> nl_file \<times> 'k) option" where
  "fputc io c f k = do { (r, f1, k1) \<leftarrow> nl_putb io c f k; Some (if r < 0 then -1 else of_char c, f1, k1) }"

text \<open>The room a block write asks for, and the copy that both writers make.\<close>

definition copy_block :: "'k io_ops \<Rightarrow> string \<Rightarrow> nl_file \<Rightarrow> 'k \<Rightarrow> (int \<times> nl_file \<times> 'k) option" where
  "copy_block io s f k = do {
     (r, f1, k1) \<leftarrow> (if bufpos f + length s > NL_BUFSZ then fflush io f k else Some (0, f, k));
     if r < 0 then Some (-1, f1, k1)
     else do { f2 \<leftarrow> store_at (bufpos f1) s f1; Some (0, f2\<lparr>bufpos := bufpos f1 + length s\<rparr>, k1) }
   }"

definition write_through :: "'k io_ops \<Rightarrow> string \<Rightarrow> nl_file \<Rightarrow> 'k \<Rightarrow> (int \<times> nl_file \<times> 'k) option" where
  "write_through io s f k = do {
     (r, f1, k1) \<leftarrow> fflush io f k;
     if r < 0 then Some (-1, f1, k1)
     else do { (q, k2) \<leftarrow> nl_write_all io (fl_fd f1) s k1; Some (if q < 0 then -1 else 0, f1, k2) }
   }"

definition fputs :: "'k io_ops \<Rightarrow> string \<Rightarrow> nl_file \<Rightarrow> 'k \<Rightarrow> (int \<times> nl_file \<times> 'k) option" where
  "fputs io s f k =
    (if length s \<ge> NL_BUFSZ then write_through io s f k
     else do {
       (r, f1, k1) \<leftarrow> copy_block io s f k;
       if r < 0 then Some (-1, f1, k1)
       else if fl_unbuf f1 \<or> (fl_linebuf f1 \<and> s \<noteq> [] \<and> last s = CHR 0x0A) then fflush io f1 k1
       else Some (0, f1, k1)
     })"

definition puts :: "'k io_ops \<Rightarrow> string \<Rightarrow> nl_file \<Rightarrow> 'k \<Rightarrow> (int \<times> nl_file \<times> 'k) option" where
  "puts io s f k = do {
     (r, f1, k1) \<leftarrow> fputs io s f k;
     if r < 0 then Some (-1, f1, k1)
     else do { (q, f2, k2) \<leftarrow> fputc io (CHR 0x0A) f1 k1; Some (if q < 0 then -1 else 0, f2, k2) }
   }"

text \<open>The block is \<open>sz * n\<close> bytes at the caller's pointer, the product at 64 bits.\<close>

definition fwrite :: "'k io_ops \<Rightarrow> string \<Rightarrow> nat \<Rightarrow> nat \<Rightarrow> nl_file \<Rightarrow> 'k \<Rightarrow> (nat \<times> nl_file \<times> 'k) option" where
  "fwrite io p sz n f k =
    (let b = take (sz * n mod 2 ^ 64) p in
     if sz = 0 \<or> n = 0 then Some (0, f, k)
     else if length b \<ge> NL_BUFSZ
     then do { (r, f1, k1) \<leftarrow> write_through io b f k; Some (if r < 0 then 0 else n, f1, k1) }
     else do {
       (r, f1, k1) \<leftarrow> copy_block io b f k;
       if r < 0 then Some (0, f1, k1)
       else if fl_unbuf f1 then do { (_, f2, k2) \<leftarrow> fflush io f1 k1; Some (n, f2, k2) }
       else Some (n, f1, k1)
     })"

section \<open>Formatting\<close>

definition nl_digits :: "bool \<Rightarrow> string" where
  "nl_digits upper = (if upper then ''0123456789ABCDEF'' else ''0123456789abcdef'')"

text \<open>The digits in the scratch array, least significant first.\<close>

function fmt_tmp :: "nat \<Rightarrow> nat \<Rightarrow> string \<Rightarrow> string" where
  "fmt_tmp base v digits = (digits ! (v mod base)) # (if base \<le> 1 \<or> v div base = 0 then [] else fmt_tmp base (v div base) digits)"
  by pat_completeness auto
termination by (relation "measure (\<lambda>(base, v, _). v)") (auto intro!: div_less_dividend simp: div_eq_0_iff not_le)

declare fmt_tmp.simps [simp del]

primrec put_all :: "'k io_ops \<Rightarrow> string \<Rightarrow> nl_file \<Rightarrow> 'k \<Rightarrow> (int \<times> nl_file \<times> 'k) option" where
  "put_all io [] f k = Some (0, f, k)"
| "put_all io (c # cs) f k = do {
     (r, f1, k1) \<leftarrow> nl_putb io c f k;
     if r < 0 then Some (-1, f1, k1) else put_all io cs f1 k1
   }"

definition nl_fmt_u :: "'k io_ops \<Rightarrow> u64 \<Rightarrow> nat \<Rightarrow> bool \<Rightarrow> nl_file \<Rightarrow> 'k \<Rightarrow> (int \<times> nl_file \<times> 'k) option" where
  "nl_fmt_u io v base upper f k =
    (let tmp = fmt_tmp base (unat v) (nl_digits upper) in do {
       (r, f1, k1) \<leftarrow> put_all io (rev tmp) f k;
       Some (if r < 0 then -1 else int (length tmp), f1, k1)
     })"

definition nl_fmt_s :: "'k io_ops \<Rightarrow> u64 \<Rightarrow> nl_file \<Rightarrow> 'k \<Rightarrow> (int \<times> nl_file \<times> 'k) option" where
  "nl_fmt_s io v f k =
    (let neg = sint v < 0; m = (if neg then 0 - v else v) in do {
       (r, f1, k1) \<leftarrow> (if neg then nl_putb io (CHR ''-'') f k else Some (0, f, k));
       if r < 0 then Some (-1, f1, k1)
       else do {
         (q, f2, k2) \<leftarrow> nl_fmt_u io m 10 False f1 k1;
         Some (if q < 0 then -1 else q + (if neg then 1 else 0), f2, k2)
       }
     })"

text \<open>An argument of a variadic call: a string that may be null, a 64-bit register, a double's bit pattern.\<close>

datatype va = VaStr "string option" | VaWord u64 | VaDouble u64

definition as_int :: "u64 \<Rightarrow> u64" where
  "as_int w = scast (ucast w :: u32)"

definition as_uint :: "u64 \<Rightarrow> u64" where
  "as_uint w = ucast (ucast w :: u32)"

definition is_flag :: "char \<Rightarrow> bool" where
  "is_flag c \<longleftrightarrow> c \<in> {CHR ''-'', CHR ''+'', CHR '' '', CHR ''0'', CHR ''#''}"

definition is_num :: "char \<Rightarrow> bool" where
  "is_num c \<longleftrightarrow> (48 :: nat) \<le> of_char c \<and> of_char c \<le> (57 :: nat)"

definition is_length_mod :: "char \<Rightarrow> bool" where
  "is_length_mod c \<longleftrightarrow> c \<in> {CHR ''l'', CHR ''h'', CHR ''z'', CHR ''j'', CHR ''t''}"

definition digits_value :: "string \<Rightarrow> int" where
  "digits_value ds = fold (\<lambda>c v. v * 10 + (of_char c - 48)) ds 0"

text \<open>The precision: the value, what follows it, and the arguments left.\<close>

definition parse_prec :: "string \<Rightarrow> va list \<Rightarrow> (int \<times> string \<times> va list) option" where
  "parse_prec p args =
    (case p of
       CHR ''.'' # q \<Rightarrow>
         (case q of
            CHR ''*'' # r \<Rightarrow>
              (case args of
                 VaWord w # rest \<Rightarrow> Some (if sint (as_int w) < 0 then -1 else sint (as_int w), r, rest)
               | _ \<Rightarrow> None)
          | _ \<Rightarrow> Some (digits_value (takeWhile is_num q), dropWhile is_num q, args))
     | _ \<Rightarrow> Some (-1, p, args))"

definition put_text :: "'k io_ops \<Rightarrow> string \<Rightarrow> nl_file \<Rightarrow> 'k \<Rightarrow> (int \<times> nl_file \<times> 'k) option" where
  "put_text io s f k = do { (r, f1, k1) \<leftarrow> put_all io s f k; Some (if r < 0 then -1 else int (length s), f1, k1) }"

text \<open>One conversion: how many bytes it wrote or -1, and the arguments left.\<close>

definition convert :: "'k io_ops \<Rightarrow> char option \<Rightarrow> bool \<Rightarrow> int \<Rightarrow> nat \<Rightarrow> va list \<Rightarrow> nl_file \<Rightarrow> 'k \<Rightarrow>
    (int \<times> va list \<times> nl_file \<times> 'k) option" where
  "convert io cv alt prec longs args f k =
    (case cv of
       None \<Rightarrow> do { (r, f1, k1) \<leftarrow> put_all io ''%'' f k; Some (if r < 0 then -1 else 2, args, f1, k1) }
     | Some c \<Rightarrow>
         if c = CHR ''s'' then
           (case args of
              VaStr a # rest \<Rightarrow>
                let s = (case a of None \<Rightarrow> ''(null)'' | Some x \<Rightarrow> x) in do {
                  (r, f1, k1) \<leftarrow> fputs io s f k;
                  Some (if r < 0 then -1 else int (length s), rest, f1, k1)
                }
            | _ \<Rightarrow> None)
         else if c = CHR ''c'' then
           (case args of
              VaWord w # rest \<Rightarrow> do { (r, f1, k1) \<leftarrow> put_text io [char_of (unat w mod 256)] f k; Some (r, rest, f1, k1) }
            | _ \<Rightarrow> None)
         else if c = CHR ''d'' \<or> c = CHR ''i'' then
           (case args of
              VaWord w # rest \<Rightarrow> do { (r, f1, k1) \<leftarrow> nl_fmt_s io (if longs \<ge> 1 then w else as_int w) f k; Some (r, rest, f1, k1) }
            | _ \<Rightarrow> None)
         else if c = CHR ''u'' then
           (case args of
              VaWord w # rest \<Rightarrow> do { (r, f1, k1) \<leftarrow> nl_fmt_u io (if longs \<ge> 1 then w else as_uint w) 10 False f k; Some (r, rest, f1, k1) }
            | _ \<Rightarrow> None)
         else if c = CHR ''x'' \<or> c = CHR ''X'' then
           (case args of
              VaWord w # rest \<Rightarrow> do { (r, f1, k1) \<leftarrow> nl_fmt_u io (if longs \<ge> 1 then w else as_uint w) 16 (c = CHR ''X'') f k; Some (r, rest, f1, k1) }
            | _ \<Rightarrow> None)
         else if c = CHR ''p'' then
           (case args of
              VaWord w # rest \<Rightarrow> do {
                (r, f1, k1) \<leftarrow> put_all io ''0x'' f k;
                if r < 0 then Some (-1, rest, f1, k1)
                else do { (q, f2, k2) \<leftarrow> nl_fmt_u io w 16 False f1 k1; Some (if q < 0 then -1 else q + 2, rest, f2, k2) }
              }
            | _ \<Rightarrow> None)
         else if c \<in> {CHR ''f'', CHR ''F'', CHR ''e'', CHR ''E'', CHR ''g'', CHR ''G''} then
           (case args of
              VaDouble d # rest \<Rightarrow>
                let s = nl_format_double d (char_of (of_char c OR 32 :: nat)) (if prec < 0 then 6 else prec) alt in
                if length s > 1200 then None
                else do { (r, f1, k1) \<leftarrow> put_text io s f k; Some (r, rest, f1, k1) }
            | _ \<Rightarrow> None)
         else if c = CHR ''%'' then do { (r, f1, k1) \<leftarrow> put_text io ''%'' f k; Some (r, args, f1, k1) }
         else do { (r, f1, k1) \<leftarrow> put_text io [CHR ''%'', c] f k; Some (r, args, f1, k1) })"

lemma parse_prec_shorter: "parse_prec p args = Some (pr, q, rest) \<Longrightarrow> length q \<le> length p"
  unfolding parse_prec_def
  by (auto split: list.splits char.splits if_splits bool.splits va.splits intro: le_SucI le_trans [OF length_dropWhile_le])

function vfprintf :: "'k io_ops \<Rightarrow> string \<Rightarrow> va list \<Rightarrow> int \<Rightarrow> nl_file \<Rightarrow> 'k \<Rightarrow>
    (int \<times> nl_file \<times> 'k) option" where
  "vfprintf io [] args written f k = Some (written, f, k)"
| "vfprintf io (c # p) args written f k =
    (if c \<noteq> CHR ''%'' then
       (case nl_putb io c f k of None \<Rightarrow> None
        | Some (r, f1, k1) \<Rightarrow> if r < 0 then Some (-1, f1, k1) else vfprintf io p args (written + 1) f1 k1)
     else
       let alt = (CHR ''#'' \<in> set (takeWhile is_flag p)); p1 = dropWhile is_num (dropWhile is_flag p) in
       (case parse_prec p1 args of None \<Rightarrow> None
        | Some (prec, p2, args1) \<Rightarrow>
            let longs = length (filter (\<lambda>c. c = CHR ''l'') (takeWhile is_length_mod p2)); p3 = dropWhile is_length_mod p2 in
            (case convert io (case p3 of [] \<Rightarrow> None | d # _ \<Rightarrow> Some d) alt prec longs args1 f k of None \<Rightarrow> None
             | Some (r, args2, f1, k1) \<Rightarrow>
                 if r < 0 then Some (-1, f1, k1) else vfprintf io (tl p3) args2 (written + r) f1 k1)))"
  by pat_completeness auto

lemma vfprintf_shorter:
  assumes "parse_prec (dropWhile is_num (dropWhile is_flag p)) args = Some (pr, p2, args1)"
  shows "length (tl (dropWhile is_length_mod p2)) < Suc (length p)"
  using parse_prec_shorter [OF assms] length_dropWhile_le [of is_num "dropWhile is_flag p"] length_dropWhile_le [of is_flag p]
    length_dropWhile_le [of is_length_mod p2] by simp

termination vfprintf
  by (relation "measure (\<lambda>(io, p, _). length p)") (use vfprintf_shorter in auto)

definition fprintf :: "'k io_ops \<Rightarrow> string \<Rightarrow> va list \<Rightarrow> nl_file \<Rightarrow> 'k \<Rightarrow> (int \<times> nl_file \<times> 'k) option" where
  "fprintf io fmt args f k = vfprintf io fmt args 0 f k"

section \<open>Reading\<close>

definition fgetc :: "'k io_ops \<Rightarrow> nl_file \<Rightarrow> 'k \<Rightarrow> (int \<times> nl_file \<times> 'k) option" where
  "fgetc io f k =
    (if ungot f \<ge> 0 then Some (ungot f, f\<lparr>ungot := -1\<rparr>, k)
     else if \<not> fl_read f then Some (-1, f, k)
     else do {
       (f1, k1) \<leftarrow> (if buflen f = 0 \<and> bufpos f > 0 then do { (_, g, j) \<leftarrow> fflush io f k; Some (g, j) } else Some (f, k));
       if bufpos f1 \<ge> buflen f1
       then case io_read io (fl_fd f1) NL_BUFSZ k1 of (r, bs, k2) \<Rightarrow>
         if r \<le> 0 then Some (-1, (if r = 0 then f1\<lparr>fl_eof := True\<rparr> else f1\<lparr>fl_err := True\<rparr>), k2)
         else do {
           f2 \<leftarrow> store_at 0 bs f1;
           Some (of_char (buf f2 ! 0), f2\<lparr>buflen := nat r, bufpos := 1\<rparr>, k2)
         }
       else Some (of_char (buf f1 ! bufpos f1), f1\<lparr>bufpos := bufpos f1 + 1\<rparr>, k1)
     })"

definition ungetc :: "int \<Rightarrow> nl_file \<Rightarrow> int \<times> nl_file" where
  "ungetc c f = (if c < 0 then (-1, f) else (c mod 256, f\<lparr>ungot := c mod 256, fl_eof := False\<rparr>))"

partial_function (option) fread_loop :: "'k io_ops \<Rightarrow> nat \<Rightarrow> string \<Rightarrow> nl_file \<Rightarrow> 'k \<Rightarrow> (string \<times> nl_file \<times> 'k) option" where
  [code]: "fread_loop io want got f k =
    (if length got < want
     then if ungot f < 0 \<and> bufpos f < buflen f
       then let have = buflen f - bufpos f; t = (if want - length got < have then want - length got else have)
         in fread_loop io want (got @ take t (drop (bufpos f) (buf f))) (f\<lparr>bufpos := bufpos f + t\<rparr>) k
       else do {
         (c, f1, k1) \<leftarrow> fgetc io f k;
         if c < 0 then Some (got, f1, k1) else fread_loop io want (got @ [char_of (nat c)]) f1 k1
       }
     else Some (got, f, k))"

definition fread :: "'k io_ops \<Rightarrow> nat \<Rightarrow> nat \<Rightarrow> nl_file \<Rightarrow> 'k \<Rightarrow> (nat \<times> string \<times> nl_file \<times> 'k) option" where
  "fread io sz n f k =
    (if sz = 0 \<or> n = 0 then Some (0, [], f, k)
     else do { (got, f1, k1) \<leftarrow> fread_loop io (sz * n mod 2 ^ 64) [] f k; Some (length got div sz, got, f1, k1) })"

section \<open>Opening, closing, seeking\<close>

text \<open>The flags of \<open>open\<close> and the direction bits that a mode string asks for.\<close>

definition mode_plus :: "string \<Rightarrow> bool" where
  "mode_plus mode = (CHR ''+'' \<in> set (tl mode))"

definition mode_flags :: "string \<Rightarrow> int" where
  "mode_flags mode =
    (let rw = (if mode_plus mode then 2 else 1); c = (case mode of [] \<Rightarrow> CHR 0x00 | m # _ \<Rightarrow> m) in
     if c = CHR ''w'' then rw + 64 + 512
     else if c = CHR ''a'' then rw + 64 + 1024
     else if mode_plus mode then 2 else 0)"

definition mode_read :: "string \<Rightarrow> bool" where
  "mode_read mode = (mode_plus mode \<or> \<not> (mode \<noteq> [] \<and> (hd mode = CHR ''w'' \<or> hd mode = CHR ''a'')))"

definition mode_write :: "string \<Rightarrow> bool" where
  "mode_write mode = (mode_plus mode \<or> mode \<noteq> [] \<and> (hd mode = CHR ''w'' \<or> hd mode = CHR ''a''))"

definition new_stream :: "int \<Rightarrow> string \<Rightarrow> nl_file" where
  "new_stream fd mode = nl_stdin\<lparr>fl_fd := fd, fl_read := mode_read mode, fl_write := mode_write mode, fl_alloc := True\<rparr>"

text \<open>\<open>mal\<close> says whether the allocator has room for a stream.\<close>

definition fopen :: "'k io_ops \<Rightarrow> bool \<Rightarrow> string \<Rightarrow> string \<Rightarrow> 'k \<Rightarrow> nl_file option \<times> 'k" where
  "fopen io mal path mode k =
    (let (fd, k1) = io_open io path (mode_flags mode) k in
     if fd < 0 then (None, k1)
     else if \<not> mal then (None, snd (io_close io fd k1))
     else (Some (new_stream fd mode), k1))"

definition fdopen :: "bool \<Rightarrow> int \<Rightarrow> string option \<Rightarrow> nl_file option" where
  "fdopen mal fd mode =
    (if fd < 0 \<or> \<not> mal then None else Some (new_stream fd (case mode of None \<Rightarrow> ''r'' | Some m \<Rightarrow> m)))"

text \<open>The stream is gone afterwards; \<open>errno\<close> is the one of the call whose failure is reported.\<close>

definition fclose :: "'k io_ops \<Rightarrow> nl_file \<Rightarrow> 'k \<Rightarrow> (int \<times> int \<times> 'k) option" where
  "fclose io f k = do {
     (flushed, f1, k1) \<leftarrow> fflush io f k;
     let (closed, k2) = io_close io (fl_fd f1) k1;
     Some (if flushed < 0 then (-1, io_errno io k1, k2) else (closed, io_errno io k2, k2))
   }"

definition fseek :: "'k io_ops \<Rightarrow> int \<Rightarrow> int \<Rightarrow> nl_file \<Rightarrow> 'k \<Rightarrow> (int \<times> nl_file \<times> 'k) option" where
  "fseek io off whence f k = do {
     (f1, k1) \<leftarrow> (if fl_write f then do { (_, g, j) \<leftarrow> fflush io f k; Some (g, j) } else Some (f, k));
     let off1 = (if whence = 1 then off - (int (buflen f1) - int (bufpos f1)) - (if ungot f1 \<ge> 0 then 1 else 0) else off);
     let (r, k2) = io_lseek io (fl_fd f1) off1 whence k1;
     Some (if r < 0 then -1 else 0, f1\<lparr>bufpos := 0, buflen := 0, ungot := -1, fl_eof := False\<rparr>, k2)
   }"

definition ftell :: "'k io_ops \<Rightarrow> nl_file \<Rightarrow> 'k \<Rightarrow> int \<times> 'k" where
  "ftell io f k =
    (let (pos, k1) = io_lseek io (fl_fd f) 0 1 k in
     if pos < 0 then (-1, k1)
     else (pos - (if fl_read f then int (buflen f) - int (bufpos f) else 0) + (if fl_write f then int (bufpos f) else 0)
             - (if ungot f \<ge> 0 then 1 else 0), k1))"

definition feof :: "nl_file \<Rightarrow> bool" where "feof f = fl_eof f"
definition ferror :: "nl_file \<Rightarrow> bool" where "ferror f = fl_err f"
definition clearerr :: "nl_file \<Rightarrow> nl_file" where "clearerr f = f\<lparr>fl_eof := False, fl_err := False\<rparr>"

section \<open>The guest's descriptors\<close>

definition guest_io :: "'d disk_ops option \<Rightarrow> (string \<times> 'd vfs) io_ops" where
  "guest_io D = \<lparr>
     io_write = (\<lambda>fd bs (c, s). let (r, wire, s1) = write_fd D fd bs s in (r, c @ wire, s1)),
     io_read = (\<lambda>fd n (c, s). let (r, bs, s1) = read_fd D fd n s in (r, bs, c, s1)),
     io_lseek = (\<lambda>fd off wh (c, s). let (r, s1) = lseek_fd D fd off wh s in (r, c, s1)),
     io_open = (\<lambda>path fl (c, s). let (r, s1) = nl_open D (Some path) fl s in (r, c, s1)),
     io_close = (\<lambda>fd (c, s). let (r, s1) = close_fd D fd s in (r, c, s1)),
     io_errno = (\<lambda>(c, s). errno_of s)\<rparr>"

end
