(* ===== verification/NlStdioRead.thy ===== *)
theory NlStdioRead
  imports NlStdio
begin

text \<open>
  A reading stream against what it stands for, a position in a file: what \<open>fgetc\<close>, \<open>fread\<close>, \<open>ungetc\<close>, \<open>ftell\<close> and \<open>fseek\<close> do
  to the bytes still to come, whatever is buffered. The locale states what a stream asks of its descriptor;
  the files of the image provide it.
\<close>

locale byte_source =
  fixes io :: "'k io_ops" and fd :: int and cont :: "'k \<Rightarrow> string" and pos :: "'k \<Rightarrow> nat" and ok :: "'k \<Rightarrow> bool"
  assumes src_pos: "ok k \<Longrightarrow> pos k \<le> length (cont k)"
    and src_read: "ok k \<Longrightarrow> m = min n (length (cont k) - pos k) \<Longrightarrow>
      \<exists>k'. io_read io fd n k = (int m, take m (drop (pos k) (cont k)), k') \<and> ok k' \<and> cont k' = cont k \<and> pos k' = pos k + m"
    and src_seek: "ok k \<Longrightarrow> t = off + (if whence = 0 then 0 else if whence = 1 then int (pos k) else int (length (cont k))) \<Longrightarrow>
      0 \<le> t \<Longrightarrow> t \<le> int (length (cont k)) \<Longrightarrow>
      \<exists>k'. io_lseek io fd off whence k = (t, k') \<and> ok k' \<and> cont k' = cont k \<and> pos k' = nat t"

text \<open>The bytes of the buffer that have not been handed out.\<close>

definition ahead :: "nl_file \<Rightarrow> string" where
  "ahead f = drop (bufpos f) (take (buflen f) (buf f))"

definition pushed :: "nl_file \<Rightarrow> string" where
  "pushed f = (if ungot f \<ge> 0 then [char_of (nat (ungot f))] else [])"

definition read_stream :: "int \<Rightarrow> nl_file \<Rightarrow> bool" where
  "read_stream fd f \<longleftrightarrow> fl_read f \<and> \<not> fl_write f \<and> fl_fd f = fd \<and> length (buf f) = NL_BUFSZ \<and> bufpos f \<le> buflen f \<and>
     buflen f \<le> NL_BUFSZ \<and> ungot f < 256"

lemma ahead_length: "read_stream fd f \<Longrightarrow> length (ahead f) = buflen f - bufpos f"
  by (simp add: read_stream_def ahead_def)

lemma pushed_byte: "ungot f \<ge> 0 \<Longrightarrow> ungot f < 256 \<Longrightarrow> of_char (char_of (nat (ungot f)) :: char) = ungot f"
proof -
  assume a: "ungot f \<ge> 0" "ungot f < 256"
  then have "nat (ungot f) < 256" by simp
  then have "int (of_char (char_of (nat (ungot f)) :: char)) = ungot f" using a(1) by (simp add: of_char_of)
  then show ?thesis by (simp only: of_nat_of_char)
qed

lemma byte_nonneg: "\<not> (of_char c :: int) < 0" "nat (of_char c) = of_char (c :: char)"
  by (metis of_nat_of_char of_nat_0_le_iff not_less) (metis of_nat_of_char nat_int)

lemma take_drop_take: "p + m \<le> n \<Longrightarrow> take m (drop p (take n (drop d a))) = take m (drop (d + p) (a :: 'a list))"
  by (simp add: drop_take min_def add.commute)

context byte_source
begin

text \<open>Where the next byte of a stream is, its pushed-back byte apart.\<close>

definition spot :: "nl_file \<Rightarrow> 'k \<Rightarrow> nat" where
  "spot f k = pos k - (buflen f - bufpos f)"

definition reads :: "nl_file \<Rightarrow> 'k \<Rightarrow> bool" where
  "reads f k \<longleftrightarrow> read_stream fd f \<and> ok k \<and> buflen f - bufpos f \<le> pos k \<and>
     ahead f = take (buflen f - bufpos f) (drop (spot f k) (cont k))"

definition left :: "nl_file \<Rightarrow> 'k \<Rightarrow> string" where
  "left f k = pushed f @ drop (spot f k) (cont k)"

lemma left_ahead:
  assumes "reads f k"
  shows "drop (spot f k) (cont k) = ahead f @ drop (pos k) (cont k)"
proof -
  have "drop (buflen f - bufpos f) (drop (spot f k) (cont k)) = drop (pos k) (cont k)"
    using assms by (simp add: reads_def spot_def)
  then show ?thesis using assms append_take_drop_id [of "buflen f - bufpos f" "drop (spot f k) (cont k)"] by (simp add: reads_def)
qed

text \<open>A step that hands out \<open>s\<close>.\<close>

definition took :: "string \<Rightarrow> nl_file \<Rightarrow> 'k \<Rightarrow> nl_file \<Rightarrow> 'k \<Rightarrow> bool" where
  "took s f k g j \<longleftrightarrow> reads g j \<and> cont j = cont k \<and> left f k = s @ left g j"

lemma took_trans: "took s f k g j \<Longrightarrow> took t g j h l \<Longrightarrow> took (s @ t) f k h l"
  by (simp add: took_def)

lemma took_ahead:
  assumes "reads f k" "ungot f < 0" "t \<le> buflen f - bufpos f"
  shows "took (take t (ahead f)) f k (f\<lparr>bufpos := bufpos f + t\<rparr>) k"
proof -
  define g where "g = f\<lparr>bufpos := bufpos f + t\<rparr>"
  have a: "ahead g = drop t (ahead f)" by (simp add: g_def ahead_def add.commute)
  have b: "buflen f - bufpos f \<le> pos k" using assms(1) by (simp add: reads_def)
  have sp: "spot g k = spot f k + t" using assms(3) b by (simp add: g_def spot_def)
  have e: "buflen g - bufpos g = buflen f - bufpos f - t" by (simp add: g_def)
  have "ahead g = take (buflen g - bufpos g) (drop (spot g k) (cont k))"
    using assms(1) unfolding a sp e by (simp add: reads_def drop_take add.commute)
  moreover have "read_stream fd g" using assms by (auto simp: reads_def read_stream_def g_def)
  ultimately have r: "reads g k" using assms(1) e b by (simp add: reads_def)
  have "left f k = take t (ahead f) @ left g k"
    using assms(2) left_ahead [OF assms(1)] left_ahead [OF r] append_take_drop_id [of t "ahead f"]
    by (simp add: left_def pushed_def g_def [symmetric] a) (simp add: g_def)
  then show ?thesis using r by (simp add: took_def g_def)
qed

lemma fgetc_ok:
  assumes "reads f k"
  shows "case left f k of
      [] \<Rightarrow> \<exists>g j. fgetc io f k = Some (-1, g, j) \<and> took [] f k g j \<and> fl_eof g
    | c # _ \<Rightarrow> \<exists>g j. fgetc io f k = Some (of_char c, g, j) \<and> took [c] f k g j"
proof -
  note st = assms [unfolded reads_def]
  have fw: "read_stream fd f" "ok k" using st by simp_all
  consider (ung) "ungot f \<ge> 0" | (buffered) "ungot f < 0" "bufpos f < buflen f" | (fill) "ungot f < 0" "bufpos f = buflen f"
    using fw(1) by (fastforce simp: read_stream_def)
  then show ?thesis
  proof cases
    case ung
    define g where "g = f\<lparr>ungot := -1\<rparr>"
    have r: "reads g k" using assms by (auto simp: reads_def read_stream_def g_def spot_def ahead_def)
    have "left f k = char_of (nat (ungot f)) # left g k" using ung by (simp add: left_def pushed_def g_def spot_def)
    moreover have "fgetc io f k = Some (of_char (char_of (nat (ungot f)) :: char), g, k)"
      using ung pushed_byte [of f] fw(1) by (simp add: fgetc_def g_def read_stream_def)
    ultimately show ?thesis using r by (auto simp: took_def)
  next
    case buffered
    have a: "take 1 (ahead f) = [buf f ! bufpos f]"
      using buffered fw(1) by (simp add: ahead_def read_stream_def take_Suc hd_drop_conv_nth drop_eq_Nil)
    have t: "took [buf f ! bufpos f] f k (f\<lparr>bufpos := bufpos f + 1\<rparr>) k" using took_ahead [OF assms buffered(1), of 1] buffered(2) a by simp
    have "fgetc io f k = Some (of_char (buf f ! bufpos f), f\<lparr>bufpos := bufpos f + 1\<rparr>, k)"
      using buffered fw(1) by (simp add: fgetc_def read_stream_def)
    then show ?thesis using t by (auto simp: took_def)
  next
    case fill
    define m where "m = min NL_BUFSZ (length (cont k) - pos k)"
    obtain j where j: "io_read io fd NL_BUFSZ k = (int m, take m (drop (pos k) (cont k)), j)" "ok j" "cont j = cont k" "pos j = pos k + m"
      using src_read [OF fw(2) m_def] by blast
    have l: "left f k = drop (pos k) (cont k)" using fill by (simp add: left_def pushed_def spot_def)
    have eq: "fgetc io f k = (if m = 0 then Some (-1, f\<lparr>fl_eof := True\<rparr>, j)
        else do { f2 \<leftarrow> store_at 0 (take m (drop (pos k) (cont k))) f; Some (of_char (buf f2 ! 0), f2\<lparr>buflen := m, bufpos := 1\<rparr>, j) })"
      using fill fw(1) j(1) unfolding fgetc_def by (auto simp: read_stream_def)
    show ?thesis
    proof (cases "m = 0")
      case True
      have "length (cont k) \<le> pos k" using True by (simp add: m_def NL_BUFSZ_def min_def split: if_splits)
      moreover have "reads (f\<lparr>fl_eof := True\<rparr>) j" using assms j(2-4) True by (auto simp: reads_def read_stream_def spot_def ahead_def)
      ultimately show ?thesis using eq True l j by (auto simp: took_def left_def pushed_def spot_def)
    next
      case False
      define bs where "bs = take m (drop (pos k) (cont k))"
      define g where "g = f\<lparr>buf := bs @ drop m (buf f), buflen := m, bufpos := 0\<rparr>"
      have lb: "length bs = m" by (simp add: bs_def m_def)
      have mb: "m \<le> NL_BUFSZ" "pos k + m \<le> length (cont k)" using src_pos [OF fw(2)] by (auto simp: m_def)
      have sg: "spot g j = pos k" using j(4) by (simp add: spot_def g_def)
      have ag: "ahead g = bs" using lb by (simp add: ahead_def g_def)
      have rg: "reads g j" using fw(1) mb j(2-4) lb sg ag by (auto simp: reads_def read_stream_def g_def bs_def)
      have lg: "left g j = left f k" using fill sg j(3) by (simp add: l, simp add: left_def pushed_def g_def)
      obtain c cs where c: "bs = c # cs" using lb False by (cases bs) auto
      have "took [c] g j (g\<lparr>bufpos := bufpos g + 1\<rparr>) j"
        using took_ahead [OF rg, of 1] fill(1) False ag c by (simp add: g_def)
      then have t: "took [c] f k (g\<lparr>bufpos := bufpos g + 1\<rparr>) j" using lg j(3) by (simp add: took_def)
      have "store_at 0 bs f = Some (f\<lparr>buf := bs @ drop m (buf f)\<rparr>)" using fw(1) mb lb by (simp add: store_at_def read_stream_def)
      then have "fgetc io f k = Some (of_char c, g\<lparr>bufpos := bufpos g + 1\<rparr>, j)" using eq False c by (simp add: bs_def [symmetric] g_def)
      then show ?thesis using t by (auto simp: took_def)
    qed
  qed
qed

lemma fread_loop_ok:
  assumes "reads f k"
  shows "\<exists>g j. fread_loop io want got f k = Some (got @ take (want - length got) (left f k), g, j) \<and>
    took (take (want - length got) (left f k)) f k g j"
  using assms
proof (induction "want - length got" arbitrary: got f k rule: less_induct)
  case less
  show ?case
  proof (cases "length got < want")
    case False
    then show ?thesis using less.prems by (subst fread_loop.simps) (simp add: took_def)
  next
    case more: True
    have step: ?thesis
      if "took s f k f1 k1" "s \<noteq> []" "length s \<le> want - length got" and eq: "fread_loop io want got f k = fread_loop io want (got @ s) f1 k1" for s f1 k1
    proof -
      have r: "reads f1 k1" "left f k = s @ left f1 k1" "cont k1 = cont k" using that(1) by (simp_all add: took_def)
      have "want - length (got @ s) < want - length got" using that(2) more by (cases s) auto
      from less.hyps [OF this r(1)] obtain g j where
        "fread_loop io want (got @ s) f1 k1 = Some ((got @ s) @ take (want - length (got @ s)) (left f1 k1), g, j)"
        "took (take (want - length (got @ s)) (left f1 k1)) f1 k1 g j" by blast
      then show ?thesis using that(3) eq r(2) took_trans [OF that(1)] by auto
    qed
    show ?thesis
    proof (cases "ungot f < 0 \<and> bufpos f < buflen f")
      case True
      define t where "t = min (want - length got) (buflen f - bufpos f)"
      have rs: "read_stream fd f" using less.prems by (simp add: reads_def)
      have la: "length (take t (ahead f)) = t" using ahead_length [OF rs] by (simp add: t_def)
      have ta: "take t (ahead f) = take t (drop (bufpos f) (buf f))" using True by (simp add: ahead_def drop_take t_def)
      have "took (take t (ahead f)) f k (f\<lparr>bufpos := bufpos f + t\<rparr>) k"
        by (rule took_ahead) (use less.prems True in \<open>simp_all add: t_def\<close>)
      moreover have "take t (ahead f) \<noteq> []" using la True more by (auto simp: t_def)
      moreover have "length (take t (ahead f)) \<le> want - length got" unfolding la by (simp add: t_def)
      moreover have "(if want - length got < buflen f - bufpos f then want - length got else buflen f - bufpos f) = t" by (simp add: t_def)
      then have "fread_loop io want got f k = fread_loop io want (got @ take t (ahead f)) (f\<lparr>bufpos := bufpos f + t\<rparr>) k"
        using True more unfolding ta by (subst fread_loop.simps) (simp only: Let_def if_True simp_thms)
      ultimately show ?thesis by (rule step)
    next
      case False
      show ?thesis
      proof (cases "left f k")
        case Nil
        then show ?thesis using fgetc_ok [OF less.prems] False more by (subst fread_loop.simps) auto
      next
        case (Cons c cs)
        then obtain g j where g: "fgetc io f k = Some (of_char c, g, j)" "took [c] f k g j" using fgetc_ok [OF less.prems] by auto
        have nb: "(ungot f < 0 \<and> bufpos f < buflen f) = False" using False by blast
        have "fread_loop io want got f k = fread_loop io want (got @ [c]) g j"
          using more g(1) byte_nonneg [of c] by (subst fread_loop.simps) (simp add: nb)
        then show ?thesis using g(2) more by (intro step [of "[c]" g j]) auto
      qed
    qed
  qed
qed

lemma ftell_ok:
  assumes "reads f k"
  shows "\<exists>j. ftell io f k = (int (spot f k) - int (length (pushed f)), j) \<and> reads f j \<and> cont j = cont k \<and> pos j = pos k"
proof -
  note st = assms [unfolded reads_def read_stream_def]
  obtain j where "io_lseek io fd 0 1 k = (int (pos k), j)" "ok j" "cont j = cont k" "pos j = pos k"
    using src_seek [of k "int (pos k)" 0 1] src_pos [of k] st by auto
  then show ?thesis using st by (auto simp: ftell_def reads_def read_stream_def pushed_def spot_def)
qed

lemma fseek_ok:
  assumes "reads f k" "whence \<in> {0, 1, 2}"
    "t = off + (if whence = 0 then 0 else if whence = 1 then int (spot f k) - int (length (pushed f)) else int (length (cont k)))"
    "0 \<le> t" "t \<le> int (length (cont k))"
  shows "\<exists>g j. fseek io off whence f k = Some (0, g, j) \<and> reads g j \<and> cont j = cont k \<and> left g j = drop (nat t) (cont k) \<and> \<not> fl_eof g"
proof -
  note st = assms(1) [unfolded reads_def read_stream_def]
  define off1 where "off1 = (if whence = 1 then off - (int (buflen f) - int (bufpos f)) - (if ungot f \<ge> 0 then 1 else 0) else off)"
  have "t = off1 + (if whence = 0 then 0 else if whence = 1 then int (pos k) else int (length (cont k)))"
    using assms(2,3) st by (auto simp: off1_def spot_def pushed_def)
  then obtain j where j: "io_lseek io fd off1 whence k = (t, j)" "ok j" "cont j = cont k" "pos j = nat t"
    using src_seek st assms(4,5) by blast
  have "fseek io off whence f k = Some (0, f\<lparr>bufpos := 0, buflen := 0, ungot := -1, fl_eof := False\<rparr>, j)"
    using st j(1) assms(4) by (simp add: fseek_def Let_def off1_def [symmetric])
  then show ?thesis using st j by (auto simp: reads_def read_stream_def left_def pushed_def spot_def ahead_def)
qed

end

section \<open>The files of the image\<close>

text \<open>What an open file of the image holds, and where it stands.\<close>

definition img_file :: "int \<Rightarrow> string \<times> 'd vfs \<Rightarrow> fs_file" where
  "img_file fd k = fs_open_files (v_ifs (snd k)) ! nat (fd - FS_FD_BASE)"

definition img_text :: "int \<Rightarrow> string \<times> 'd vfs \<Rightarrow> string" where
  "img_text fd k = take (f_size (img_file fd k)) (drop (f_data (img_file fd k)) (archive (v_ifs (snd k))))"

definition img_ok :: "int \<Rightarrow> string \<times> 'd vfs \<Rightarrow> bool" where
  "img_ok fd k \<longleftrightarrow> ifs_ok (v_ifs (snd k)) \<and> ifs_is_fd fd (v_ifs (snd k))"

lemma img_ok_file:
  assumes "img_ok fd k"
  shows "\<exists>i. fs_file_of fd (v_ifs (snd k)) = Some i \<and> i = nat (fd - FS_FD_BASE) \<and> i < length (fs_open_files (v_ifs (snd k))) \<and>
      img_file fd k = fs_open_files (v_ifs (snd k)) ! i \<and> f_used (img_file fd k) \<and> f_pos (img_file fd k) \<le> f_size (img_file fd k) \<and>
      f_data (img_file fd k) + f_size (img_file fd k) \<le> length (archive (v_ifs (snd k)))"
proof -
  obtain i where i: "fs_file_of fd (v_ifs (snd k)) = Some i" using assms by (auto simp: img_ok_def ifs_is_fd_def)
  have "ifs_ok (v_ifs (snd k))" using assms by (simp add: img_ok_def)
  then show ?thesis using i file_of_some [OF i] ok_file [OF _ i] by (simp add: img_file_def)
qed

lemma img_length: "img_ok fd k \<Longrightarrow> length (img_text fd k) = f_size (img_file fd k)"
  using img_ok_file [of fd k] by (auto simp: img_text_def)

text \<open>Moving an open file.\<close>

definition img_move :: "int \<Rightarrow> nat \<Rightarrow> 'd vfs \<Rightarrow> 'd vfs" where
  "img_move fd p s = s\<lparr>v_ifs := (v_ifs s)\<lparr>fs_open_files := (fs_open_files (v_ifs s))
     [nat (fd - FS_FD_BASE) := (fs_open_files (v_ifs s) ! nat (fd - FS_FD_BASE))\<lparr>f_pos := p\<rparr>]\<rparr>\<rparr>"

lemma img_move_ok:
  assumes "img_ok fd (c, s)" "p \<le> length (img_text fd (c, s))"
  shows "img_ok fd (c, img_move fd p s)" "img_text fd (c, img_move fd p s) = img_text fd (c, s)"
    "f_pos (img_file fd (c, img_move fd p s)) = p"
proof -
  obtain i where i: "fs_file_of fd (v_ifs s) = Some i" "i = nat (fd - FS_FD_BASE)" "i < length (fs_open_files (v_ifs s))" "f_used (fs_open_files (v_ifs s) ! i)"
      "f_data (fs_open_files (v_ifs s) ! i) + f_size (fs_open_files (v_ifs s) ! i) \<le> length (archive (v_ifs s))"
    using img_ok_file [OF assms(1)] by auto
  have "file_ok (archive (v_ifs s)) ((fs_open_files (v_ifs s) ! i)\<lparr>f_pos := p\<rparr>)"
    using assms(2) i img_length [OF assms(1)] by (simp add: file_ok_def img_file_def)
  then have o: "ifs_ok (v_ifs (img_move fd p s))" using ok_update assms(1) i(2) by (auto simp: img_move_def img_ok_def)
  have "fs_file_of fd (v_ifs (img_move fd p s)) = Some i"
    using file_of_upd [OF i(3), of "(fs_open_files (v_ifs s) ! i)\<lparr>f_pos := p\<rparr>"] i(4) file_of_some(3) [OF i(1), symmetric]
    by (simp add: img_move_def i(2) [symmetric])
  then show "img_ok fd (c, img_move fd p s)" using o by (simp add: img_ok_def ifs_is_fd_def)
  show "img_text fd (c, img_move fd p s) = img_text fd (c, s)" "f_pos (img_file fd (c, img_move fd p s)) = p"
    using i by (simp_all add: img_text_def img_file_def img_move_def)
qed

lemma img_read:
  assumes "img_ok fd (c, s)" "m = min n (length (img_text fd (c, s)) - f_pos (img_file fd (c, s)))"
  shows "io_read (guest_io D) fd n (c, s) =
    (int m, take m (drop (f_pos (img_file fd (c, s))) (img_text fd (c, s))), c, img_move fd (f_pos (img_file fd (c, s)) + m) s)"
proof -
  obtain i where i: "fs_file_of fd (v_ifs s) = Some i" "i = nat (fd - FS_FD_BASE)" "f_pos (img_file fd (c, s)) \<le> f_size (img_file fd (c, s))"
    using img_ok_file [OF assms(1)] by auto
  have f: "img_file fd (c, s) = fs_open_files (v_ifs s) ! i" using i(2) by (simp add: img_file_def)
  have m: "(if n < f_size (img_file fd (c, s)) - f_pos (img_file fd (c, s)) then n else f_size (img_file fd (c, s)) - f_pos (img_file fd (c, s))) = m"
    using assms img_length [OF assms(1)] by simp
  have r: "ifs_read fd n (v_ifs s) = (int m, take m (drop (f_data (img_file fd (c, s)) + f_pos (img_file fd (c, s))) (archive (v_ifs s))),
      (v_ifs s)\<lparr>fs_open_files := (fs_open_files (v_ifs s))[i := (img_file fd (c, s))\<lparr>f_pos := f_pos (img_file fd (c, s)) + m\<rparr>]\<rparr>)"
    unfolding ifs_read_def i(1) option.case Let_def f [symmetric] m by (rule refl)
  have "read_fd D fd n s = fs_read_fd D fd n s" "ifs_is_fd fd (v_ifs s)" using i by (simp_all add: read_fd_def fs_is_file_fd_def ifs_is_fd_def)
  then have "read_fd D fd n s = (int m, take m (drop (f_data (img_file fd (c, s)) + f_pos (img_file fd (c, s))) (archive (v_ifs s))),
      img_move fd (f_pos (img_file fd (c, s)) + m) s)"
    using i(2) by (simp add: fs_read_fd_def r) (simp add: img_move_def f)
  moreover have "take m (drop (f_data (img_file fd (c, s)) + f_pos (img_file fd (c, s))) (archive (v_ifs s))) = take m (drop (f_pos (img_file fd (c, s))) (img_text fd (c, s)))"
    unfolding img_text_def by (subst take_drop_take) (use assms(2) i(3) img_length [OF assms(1)] in simp_all)
  ultimately show ?thesis by (simp add: guest_io_def)
qed

lemma img_seek:
  assumes "img_ok fd (c, s)" "0 \<le> t" "t \<le> int (length (img_text fd (c, s)))"
    "t = off + (if whence = 0 then 0 else if whence = 1 then int (f_pos (img_file fd (c, s))) else int (length (img_text fd (c, s))))"
  shows "io_lseek (guest_io D) fd off whence (c, s) = (t, c, img_move fd (nat t) s)"
proof -
  obtain i where i: "fs_file_of fd (v_ifs s) = Some i" "i = nat (fd - FS_FD_BASE)" using img_ok_file [OF assms(1)] by auto
  have f: "img_file fd (c, s) = fs_open_files (v_ifs s) ! i" using i(2) by (simp add: img_file_def)
  have b: "(if whence = 0 then 0 else if whence = 1 then int (f_pos (fs_open_files (v_ifs s) ! i)) else int (f_size (fs_open_files (v_ifs s) ! i))) + off = t"
    using assms(4) img_length [OF assms(1)] unfolding f by auto
  have "t \<le> int (f_size (fs_open_files (v_ifs s) ! i))" using assms(3) img_length [OF assms(1)] f by simp
  then have "ifs_lseek fd off whence (v_ifs s) =
      (t, (v_ifs s)\<lparr>fs_open_files := (fs_open_files (v_ifs s))[i := (fs_open_files (v_ifs s) ! i)\<lparr>f_pos := nat t\<rparr>]\<rparr>)"
    using assms(2) unfolding ifs_lseek_def i(1) option.case Let_def b by simp
  then show ?thesis using i by (simp add: guest_io_def lseek_fd_def fs_is_file_fd_def ifs_is_fd_def fs_lseek_fd_def lift_ifs_def img_move_def)
qed

lemma img_source_read:
  assumes "img_ok fd k" "m = min n (length (img_text fd k) - f_pos (img_file fd k))"
  shows "\<exists>k'. io_read (guest_io D) fd n k = (int m, take m (drop (f_pos (img_file fd k)) (img_text fd k)), k') \<and> img_ok fd k' \<and>
      img_text fd k' = img_text fd k \<and> f_pos (img_file fd k') = f_pos (img_file fd k) + m"
proof -
  obtain c s where k: "k = (c, s)" by (cases k)
  have "f_pos (img_file fd k) \<le> length (img_text fd k)" using img_ok_file [OF assms(1)] img_length [OF assms(1)] by auto
  then have "f_pos (img_file fd k) + m \<le> length (img_text fd k)" using assms(2) by simp
  then show ?thesis using img_read [OF assms [unfolded k]] img_move_ok [OF assms(1) [unfolded k]] unfolding k by blast
qed

lemma img_source_seek:
  assumes "img_ok fd k" "t = off + (if whence = 0 then 0 else if whence = 1 then int (f_pos (img_file fd k)) else int (length (img_text fd k)))"
    "0 \<le> t" "t \<le> int (length (img_text fd k))"
  shows "\<exists>k'. io_lseek (guest_io D) fd off whence k = (t, k') \<and> img_ok fd k' \<and> img_text fd k' = img_text fd k \<and> f_pos (img_file fd k') = nat t"
proof -
  obtain c s where k: "k = (c, s)" by (cases k)
  have "nat t \<le> length (img_text fd k)" using assms(4) by simp
  then show ?thesis using img_seek [OF assms(1) [unfolded k] assms(3,4) [unfolded k] assms(2) [unfolded k]] img_move_ok [OF assms(1) [unfolded k]]
    unfolding k by blast
qed

interpretation img: byte_source "guest_io D" fd "img_text fd" "\<lambda>k. f_pos (img_file fd k)" "img_ok fd" for D fd
proof (unfold_locales, goal_cases)
  case (1 k)
  then show ?case using img_ok_file [of fd k] img_length [of fd k] by auto
next
  case (2 k m n)
  then show ?case by (rule img_source_read)
next
  case (3 k t off whence)
  then show ?case by (rule img_source_seek)
qed

text \<open>A stream that reads an open file of the image: the buffer holds what comes before the file's position.
  What it has still to give is the byte pushed back and the file from there.\<close>

definition reading :: "int \<Rightarrow> nl_file \<Rightarrow> string \<times> 'd vfs \<Rightarrow> bool" where
  "reading fd f k \<longleftrightarrow> read_stream fd f \<and> img_ok fd k \<and> buflen f - bufpos f \<le> f_pos (img_file fd k) \<and>
     ahead f = take (buflen f - bufpos f) (drop (f_pos (img_file fd k) - (buflen f - bufpos f)) (img_text fd k))"

definition unread :: "int \<Rightarrow> nl_file \<Rightarrow> string \<times> 'd vfs \<Rightarrow> string" where
  "unread fd f k = pushed f @ drop (f_pos (img_file fd k) - (buflen f - bufpos f)) (img_text fd k)"

lemma reading_img: "reading fd f k = img.reads fd f k" "unread fd f k = img.left fd f k"
  by (simp_all add: reading_def unread_def img.reads_def img.left_def img.spot_def)

lemma took_img: "img.took fd s f k g j \<longleftrightarrow> reading fd g j \<and> img_text fd j = img_text fd k \<and> unread fd f k = s @ unread fd g j"
  by (simp add: img.took_def reading_img)

lemma img_spot: "reading fd f k \<Longrightarrow> int (img.spot fd f k) - int (length (pushed f)) = int (length (img_text fd k)) - int (length (unread fd f k))"
  using img_ok_file [of fd k] img_length [of fd k] by (auto simp: reading_def unread_def img.spot_def)

lemma fread_img:
  assumes "reading fd f k" "sz * n < 2 ^ 64"
  shows "\<exists>g j. fread (guest_io D) sz n f k = Some (min (sz * n) (length (unread fd f k)) div sz, take (sz * n) (unread fd f k), g, j) \<and>
    reading fd g j \<and> img_text fd j = img_text fd k \<and> unread fd g j = drop (sz * n) (unread fd f k)"
proof (cases "sz = 0 \<or> n = 0")
  case True
  then show ?thesis using assms by (auto simp: fread_def)
next
  case False
  have r: "img.reads fd f k" using assms(1) by (simp add: reading_img)
  obtain g j where g: "fread_loop (guest_io D) (sz * n) [] f k = Some (take (sz * n) (unread fd f k), g, j)"
      "img.took fd (take (sz * n) (unread fd f k)) f k g j"
    using img.fread_loop_ok [OF r, where want = "sz * n" and got = "[]" and D = D] by (auto simp: reading_img(2))
  have "unread fd g j = drop (sz * n) (unread fd f k)"
    using g(2) unfolding took_img by (metis append_take_drop_id same_append_eq)
  then show ?thesis using g False assms(2) by (auto simp: fread_def took_img min.commute)
qed

lemma ungetc_img:
  assumes "reading fd f k" "0 \<le> b" "ungot f < 0"
  shows "\<exists>g. ungetc b f = (b mod 256, g) \<and> reading fd g k \<and> unread fd g k = char_of (nat (b mod 256)) # unread fd f k \<and> \<not> feof g"
  using assms by (auto simp: ungetc_def reading_def read_stream_def ahead_def unread_def pushed_def feof_def)

lemma new_stream_img:
  assumes "img_ok fd k"
  shows "reading fd (new_stream fd ''r'') k \<and> unread fd (new_stream fd ''r'') k = drop (f_pos (img_file fd k)) (img_text fd k)"
  using assms by (simp add: reading_def read_stream_def new_stream_def nl_stdin_def mode_read_def mode_write_def mode_plus_def ahead_def unread_def pushed_def)

text \<open>C31. A reading stream on a file of the image is that file from a position on, however much of it is
  buffered. A stream just opened has all that follows the file's position; \<open>fread\<close> gives the next bytes in whole items and
  leaves the rest, \<open>fgetc\<close> the next byte or, at the end, -1 with the end-of-file mark; a byte pushed back comes first;
  \<open>ftell\<close> is the size of the file less what is still to come; and \<open>fseek\<close> to a place inside the file, counted from the start, the position or the end,
  leaves the file from there on.\<close>

theorem stdio_reads:
  fixes k :: "string \<times> 'd vfs"
  assumes "reading fd f k" and "sz * n < 2 ^ 64" and "0 \<le> b"
    and "whence \<in> {0, 1, 2}" and "0 \<le> t" and "t \<le> int (length (img_text fd k))"
    and "t = off + (if whence = 0 then 0 else if whence = 1 then int (length (img_text fd k)) - int (length (unread fd f k)) else int (length (img_text fd k)))"
  shows "(\<exists>g j. fread (guest_io D) sz n f k = Some (min (sz * n) (length (unread fd f k)) div sz, take (sz * n) (unread fd f k), g, j) \<and>
       reading fd g j \<and> img_text fd j = img_text fd k \<and> unread fd g j = drop (sz * n) (unread fd f k)) \<and>
    (case unread fd f k of
       [] \<Rightarrow> \<exists>g j. fgetc (guest_io D) f k = Some (-1, g, j) \<and> reading fd g j \<and> unread fd g j = [] \<and> feof g
     | c # cs \<Rightarrow> \<exists>g j. fgetc (guest_io D) f k = Some (of_char c, g, j) \<and> reading fd g j \<and> unread fd g j = cs) \<and>
    (ungot f < 0 \<longrightarrow> (\<exists>g. ungetc b f = (b mod 256, g) \<and> reading fd g k \<and> unread fd g k = char_of (nat (b mod 256)) # unread fd f k \<and> \<not> feof g)) \<and>
    fst (ftell (guest_io D) f k) = int (length (img_text fd k)) - int (length (unread fd f k)) \<and>
    (\<exists>g j. fseek (guest_io D) off whence f k = Some (0, g, j) \<and> reading fd g j \<and> img_text fd j = img_text fd k \<and>
       unread fd g j = drop (nat t) (img_text fd k) \<and> \<not> feof g) \<and>
    reading fd (new_stream fd ''r'') k \<and> unread fd (new_stream fd ''r'') k = drop (f_pos (img_file fd k)) (img_text fd k)"
proof (intro conjI)
  have r: "img.reads fd f k" using assms(1) by (simp add: reading_img)
  have k: "img_ok fd k" using assms(1) by (simp add: reading_def)
  show "\<exists>g j. fread (guest_io D) sz n f k = Some (min (sz * n) (length (unread fd f k)) div sz, take (sz * n) (unread fd f k), g, j) \<and>
       reading fd g j \<and> img_text fd j = img_text fd k \<and> unread fd g j = drop (sz * n) (unread fd f k)"
    using fread_img [OF assms(1,2)] .
  show "case unread fd f k of
       [] \<Rightarrow> \<exists>g j. fgetc (guest_io D) f k = Some (-1, g, j) \<and> reading fd g j \<and> unread fd g j = [] \<and> feof g
     | c # cs \<Rightarrow> \<exists>g j. fgetc (guest_io D) f k = Some (of_char c, g, j) \<and> reading fd g j \<and> unread fd g j = cs"
    using img.fgetc_ok [OF r, of D] by (auto simp: took_img reading_img(2) [symmetric] feof_def split: list.splits)
  show "ungot f < 0 \<longrightarrow> (\<exists>g. ungetc b f = (b mod 256, g) \<and> reading fd g k \<and> unread fd g k = char_of (nat (b mod 256)) # unread fd f k \<and> \<not> feof g)"
    using ungetc_img [OF assms(1,3)] by blast
  show "fst (ftell (guest_io D) f k) = int (length (img_text fd k)) - int (length (unread fd f k))"
    using img.ftell_ok [OF r, of D] img_spot [OF assms(1)] by auto
  show "\<exists>g j. fseek (guest_io D) off whence f k = Some (0, g, j) \<and> reading fd g j \<and> img_text fd j = img_text fd k \<and>
       unread fd g j = drop (nat t) (img_text fd k) \<and> \<not> feof g"
    using img.fseek_ok [OF r assms(4) assms(7) [folded img_spot [OF assms(1)]] assms(5,6), of D] by (simp add: reading_img feof_def)
qed (use new_stream_img [of fd k] assms(1) in \<open>simp_all add: reading_def\<close>)

text \<open>A file of five bytes open on descriptor 64 that stands at its second byte.\<close>

definition read_boot :: "string \<times> unit vfs" where
  "read_boot = ([], (vfs_boot ''abcde'' ())\<lparr>v_ifs := (ifs_boot ''abcde'')\<lparr>fs_open_files :=
     \<lparr>f_data = 0, f_size = 5, f_pos = 2, f_used = True\<rparr> # replicate 15 \<lparr>f_data = 0, f_size = 0, f_pos = 0, f_used = False\<rparr>\<rparr>\<rparr>)"

lemma read_boot_ok: "img_ok 64 read_boot" "img_text 64 read_boot = ''abcde''" "f_pos (img_file 64 read_boot) = 2"
  by (simp_all add: read_boot_def img_ok_def img_text_def img_file_def ifs_ok_def file_ok_def FS_MAX_OPEN_def ifs_is_fd_def fs_file_of_def FS_FD_BASE_def
      ifs_boot_def)

theorem stdio_reads_witness:
  "\<exists>g j. fread (guest_io None) 2 2 (new_stream 64 ''r'') read_boot = Some (1, ''cde'', g, j) \<and> unread 64 g j = []"
proof -
  have r: "reading 64 (new_stream 64 ''r'') read_boot" and u: "unread 64 (new_stream 64 ''r'') read_boot = ''cde''"
    using new_stream_img [OF read_boot_ok(1)] by (simp_all add: read_boot_ok)
  have t: "2 \<le> int (length (img_text 64 read_boot))"
    "2 = 0 + (if 1 = (0 :: int) then 0 else if 1 = (1 :: int) then int (length (img_text 64 read_boot)) -
       int (length (unread 64 (new_stream 64 ''r'') read_boot)) else int (length (img_text 64 read_boot)))"
    by (simp_all add: read_boot_ok(2) u)
  have "\<exists>g j. fread (guest_io None) 2 2 (new_stream 64 ''r'') read_boot = Some (min (2 * 2) (length ''cde'') div 2, take (2 * 2) ''cde'', g, j) \<and>
      reading 64 g j \<and> img_text 64 j = img_text 64 read_boot \<and> unread 64 g j = drop (2 * 2) ''cde''"
    using stdio_reads [OF r _ _ _ _ t, where sz = 2 and n = 2 and b = 65 and D = None, THEN conjunct1] unfolding u by simp
  then show ?thesis by auto
qed

end
