(* ===== verification/NlStdioProps.thy ===== *)
theory NlStdioProps
  imports NlStdio
begin

text \<open>
  Streams against what they stand for: a writing stream is a log of which a part is still in the buffer, a reading
  stream a position in a file. The locales state what a stream asks of its descriptor; the guest's
  console and the files of its image provide it.
\<close>

section \<open>Writing\<close>

locale byte_sink =
  fixes io :: "'k io_ops" and fd :: int and out :: "'k \<Rightarrow> string" and ok :: "'k \<Rightarrow> bool"
  assumes sink_write: "ok k \<Longrightarrow> p \<noteq> [] \<Longrightarrow>
    \<exists>w k'. io_write io fd p k = (w, k') \<and> ok k' \<and> 0 < w \<and> w \<le> int (length p) \<and> out k' = out k @ take (nat w) p"

definition writes_to :: "int \<Rightarrow> nl_file \<Rightarrow> bool" where
  "writes_to fd f \<longleftrightarrow> fl_write f \<and> fl_fd f = fd \<and> buflen f = 0 \<and> length (buf f) = NL_BUFSZ \<and> bufpos f \<le> NL_BUFSZ"

definition same_mode :: "nl_file \<Rightarrow> nl_file \<Rightarrow> bool" where
  "same_mode f g \<longleftrightarrow> fl_unbuf g = fl_unbuf f \<and> fl_linebuf g = fl_linebuf f \<and> fl_err g = fl_err f"

definition wlog :: "('k \<Rightarrow> string) \<Rightarrow> nl_file \<Rightarrow> 'k \<Rightarrow> string" where
  "wlog out f k = out k @ take (bufpos f) (buf f)"

lemma same_mode_refl [simp]: "same_mode f f"
  by (simp add: same_mode_def)

lemma same_mode_trans: "same_mode f g \<Longrightarrow> same_mode g h \<Longrightarrow> same_mode f h"
  by (simp add: same_mode_def)

lemma store_at_ok:
  assumes "i + length s \<le> length (buf f)"
  shows "store_at i s f = Some (f\<lparr>buf := take i (buf f) @ s @ drop (i + length s) (buf f)\<rparr>)"
  using assms by (simp add: store_at_def)

context byte_sink
begin

lemma write_all_ok: "ok k \<Longrightarrow> \<exists>k'. nl_write_all io fd p k = Some (0, k') \<and> ok k' \<and> out k' = out k @ p"
proof (induction p arbitrary: k rule: length_induct)
  case (1 p k)
  show ?case
  proof (cases "p = []")
    case True
    then show ?thesis using 1(2) by (subst nl_write_all.simps) simp
  next
    case False
    obtain w j where w: "io_write io fd p k = (w, j)" "ok j" "0 < w" "w \<le> int (length p)" "out j = out k @ take (nat w) p"
      using sink_write [OF 1(2) False] by blast
    have "length (drop (nat w) p) < length p" using w(3) False by simp
    then obtain j' where "nl_write_all io fd (drop (nat w) p) j = Some (0, j')" "ok j'" "out j' = out j @ drop (nat w) p"
      using 1(1) w(2) by blast
    then show ?thesis using w False by (subst nl_write_all.simps) simp
  qed
qed

lemma fflush_ok:
  assumes "writes_to fd f" "ok k"
  shows "\<exists>k'. fflush io f k = Some (0, f\<lparr>bufpos := 0\<rparr>, k') \<and> ok k' \<and> out k' = wlog out f k"
proof (cases "bufpos f = 0")
  case True
  have "f\<lparr>bufpos := 0\<rparr> = f" using True by (cases f) simp
  then show ?thesis using assms True by (simp add: fflush_def wlog_def)
next
  case False
  then show ?thesis using assms write_all_ok [OF assms(2), of "take (bufpos f) (buf f)"]
    by (auto simp: fflush_def writes_to_def wlog_def)
qed

text \<open>What a call that appends \<open>s\<close> leaves.\<close>

definition appended :: "string \<Rightarrow> nl_file \<Rightarrow> 'k \<Rightarrow> nl_file \<Rightarrow> 'k \<Rightarrow> bool" where
  "appended s f k f' k' \<longleftrightarrow> writes_to fd f' \<and> ok k' \<and> same_mode f f' \<and> wlog out f' k' = wlog out f k @ s \<and> bufpos f' \<le> bufpos f + length s"

lemma appended_nil: "writes_to fd f \<Longrightarrow> ok k \<Longrightarrow> appended [] f k f k"
  by (simp add: appended_def)

lemma appended_trans: "appended s f k g j \<Longrightarrow> appended t g j h l \<Longrightarrow> appended (s @ t) f k h l"
  by (auto simp: appended_def dest: same_mode_trans)

lemma flush_appended:
  assumes "appended s f k g j"
  shows "\<exists>h l. fflush io g j = Some (0, h, l) \<and> appended s f k h l \<and> bufpos h = 0"
proof -
  have g: "writes_to fd g" "ok j" using assms by (simp_all add: appended_def)
  obtain l where "fflush io g j = Some (0, g\<lparr>bufpos := 0\<rparr>, l)" "ok l" "out l = wlog out g j" using fflush_ok [OF g] by blast
  then show ?thesis using assms by (auto simp: appended_def writes_to_def same_mode_def wlog_def)
qed

lemma putb_ok:
  assumes "writes_to fd f" "ok k" "bufpos f < NL_BUFSZ"
  shows "\<exists>g j. nl_putb io c f k = Some (0, g, j) \<and> appended [c] f k g j \<and> bufpos g < NL_BUFSZ"
proof -
  define g where "g = f\<lparr>buf := take (bufpos f) (buf f) @ [c] @ drop (bufpos f + 1) (buf f), bufpos := bufpos f + 1\<rparr>"
  have a: "appended [c] f k g k" using assms by (auto simp: appended_def writes_to_def same_mode_def wlog_def g_def)
  have st: "store_at (bufpos f) [c] f = Some (f\<lparr>buf := take (bufpos f) (buf f) @ [c] @ drop (bufpos f + 1) (buf f)\<rparr>)"
    by (subst store_at_ok) (use assms in \<open>simp_all add: writes_to_def\<close>)
  have p: "nl_putb io c f k = (if bufpos g = NL_BUFSZ \<or> fl_unbuf g \<or> (fl_linebuf g \<and> c = CHR 0x0A) then fflush io g k else Some (0, g, k))"
    using assms(1) st unfolding nl_putb_def Let_def by (auto simp: writes_to_def g_def Let_def)
  show ?thesis
  proof (cases "bufpos g = NL_BUFSZ \<or> fl_unbuf g \<or> (fl_linebuf g \<and> c = CHR 0x0A)")
    case True
    then show ?thesis using flush_appended [OF a] p by (auto simp: NL_BUFSZ_def)
  next
    case False
    have "bufpos g \<le> NL_BUFSZ" using a by (simp add: appended_def writes_to_def)
    then show ?thesis using False a p by auto
  qed
qed

lemma put_all_ok:
  assumes "writes_to fd f" "ok k" "bufpos f < NL_BUFSZ"
  shows "\<exists>g j. put_all io s f k = Some (0, g, j) \<and> appended s f k g j \<and> bufpos g < NL_BUFSZ"
  using assms
proof (induction s arbitrary: f k)
  case (Cons c s)
  obtain g j where g: "nl_putb io c f k = Some (0, g, j)" "appended [c] f k g j" "bufpos g < NL_BUFSZ" using putb_ok [OF Cons.prems] by blast
  then have "writes_to fd g" "ok j" by (simp_all add: appended_def)
  from Cons.IH [OF this g(3)] obtain h l where "put_all io s g j = Some (0, h, l)" "appended s g j h l" "bufpos h < NL_BUFSZ" by blast
  then show ?case using g(1) appended_trans [OF g(2)] by fastforce
qed (simp add: appended_nil)

lemma write_through_ok:
  assumes "writes_to fd f" "ok k"
  shows "\<exists>g j. write_through io s f k = Some (0, g, j) \<and> appended s f k g j \<and> bufpos g = 0"
proof -
  obtain l where l: "fflush io f k = Some (0, f\<lparr>bufpos := 0\<rparr>, l)" "ok l" "out l = wlog out f k" using fflush_ok [OF assms] by blast
  obtain j where "nl_write_all io fd s l = Some (0, j)" "ok j" "out j = out l @ s" using write_all_ok [OF l(2)] by blast
  then show ?thesis using assms(1) l by (auto simp: write_through_def appended_def writes_to_def same_mode_def wlog_def)
qed

lemma copy_block_ok:
  assumes "writes_to fd f" "ok k" "length s < NL_BUFSZ"
  shows "\<exists>g j. copy_block io s f k = Some (0, g, j) \<and> appended s f k g j"
proof -
  obtain g j where g: "(if bufpos f + length s > NL_BUFSZ then fflush io f k else Some (0, f, k)) = Some (0, g, j)"
    "appended [] f k g j" "bufpos g + length s \<le> NL_BUFSZ"
  proof (cases "bufpos f + length s > NL_BUFSZ")
    case True
    then show ?thesis using that flush_appended [OF appended_nil [OF assms(1,2)]] assms(3) by auto
  next
    case False
    then show ?thesis using that [of f k] appended_nil [OF assms(1,2)] by simp
  qed
  define h where "h = g\<lparr>buf := take (bufpos g) (buf g) @ s @ drop (bufpos g + length s) (buf g), bufpos := bufpos g + length s\<rparr>"
  have gw: "writes_to fd g" "ok j" using g(2) by (simp_all add: appended_def)
  have "appended s g j h j" using gw g(3) by (auto simp: appended_def writes_to_def same_mode_def wlog_def h_def)
  moreover have "store_at (bufpos g) s g = Some (g\<lparr>buf := take (bufpos g) (buf g) @ s @ drop (bufpos g + length s) (buf g)\<rparr>)"
    by (subst store_at_ok) (use gw g(3) in \<open>simp_all add: writes_to_def\<close>)
  ultimately show ?thesis using g(1) appended_trans [OF g(2), of s h j] by (simp add: copy_block_def h_def)
qed

lemma fputs_ok:
  assumes "writes_to fd f" "ok k"
  shows "\<exists>g j. fputs io s f k = Some (0, g, j) \<and> appended s f k g j"
proof (cases "length s \<ge> NL_BUFSZ")
  case True
  then show ?thesis using write_through_ok [OF assms, of s] by (auto simp: fputs_def)
next
  case False
  then obtain g j where g: "copy_block io s f k = Some (0, g, j)" "appended s f k g j" using copy_block_ok [OF assms, of s] by auto
  then show ?thesis using False flush_appended [OF g(2)] by (auto simp: fputs_def)
qed

lemma fwrite_ok:
  assumes "writes_to fd f" "ok k" "length p = sz * n" "sz * n < 2 ^ 64"
  shows "\<exists>g j. fwrite io p sz n f k = Some (if sz = 0 then 0 else n, g, j) \<and> appended p f k g j"
proof -
  have b: "take (sz * n mod 2 ^ 64) p = p" using assms(3,4) by simp
  show ?thesis
  proof (cases "sz = 0 \<or> n = 0 \<or> length p \<ge> NL_BUFSZ")
    case True
    then show ?thesis using write_through_ok [OF assms(1,2), of p] appended_nil [OF assms(1,2)] assms(3)
      unfolding fwrite_def b Let_def by auto
  next
    case False
    then obtain g j where g: "copy_block io p f k = Some (0, g, j)" "appended p f k g j" using copy_block_ok [OF assms(1,2), of p] by auto
    then show ?thesis using False flush_appended [OF g(2)] unfolding fwrite_def b Let_def by auto
  qed
qed

lemma fputc_ok:
  assumes "writes_to fd f" "ok k" "bufpos f < NL_BUFSZ"
  shows "\<exists>g j. fputc io c f k = Some (of_char c, g, j) \<and> appended [c] f k g j"
  using putb_ok [OF assms, of c] by (auto simp: fputc_def)

end

section \<open>The guest's console\<close>

definition con_ok :: "int \<Rightarrow> 'd vfs \<Rightarrow> bool" where
  "con_ok fd s \<longleftrightarrow> \<not> fs_is_file_fd fd s \<and> (fd < 0 \<or> fd > 2 \<or> vfs_std_of fd s < 0)"

interpretation con: byte_sink "guest_io D" fd fst "\<lambda>k. con_ok fd (snd k)" for D fd
  by unfold_locales (auto simp: guest_io_def write_fd_def con_ok_def split: prod.splits)

lemma full_buffer_faults: "writes_to fd f \<Longrightarrow> bufpos f = NL_BUFSZ \<Longrightarrow> nl_putb io c f k = None"
  by (simp add: nl_putb_def writes_to_def store_at_def)

lemma exact_fill:
  assumes "writes_to fd f" "bufpos f + length s = NL_BUFSZ" "length s < NL_BUFSZ" "\<not> fl_unbuf f" "\<not> fl_linebuf f"
  shows "\<exists>g. fputs io s f k = Some (0, g, k) \<and> writes_to fd g \<and> bufpos g = NL_BUFSZ"
  using assms by (auto simp: fputs_def copy_block_def store_at_def writes_to_def)

text \<open>C30. A writing stream on the guest's console loses and reorders nothing. What has reached the console
  followed by what the buffer holds is all that was written: \<open>fputs\<close>, \<open>fwrite\<close> (in whole items) and \<open>fputc\<close> append
  to it, \<open>fflush\<close> moves all of it to the console, buffered by line, by block or not at all.
  One state breaks it: a block that fills the buffer to its last byte stays there, and the next byte put is stored past the end of the buffer.\<close>

theorem stdio_writes:
  fixes s :: "'d vfs" and c :: string
  assumes "writes_to fd f" and "con_ok fd s" and "length p = sz * n" and "sz * n < 2 ^ 64"
  shows "(\<exists>g k. fputs (guest_io D) t f (c, s) = Some (0, g, k) \<and> writes_to fd g \<and> con_ok fd (snd k) \<and> wlog fst g k = wlog fst f (c, s) @ t) \<and>
    (\<exists>g k. fwrite (guest_io D) p sz n f (c, s) = Some (if sz = 0 then 0 else n, g, k) \<and> writes_to fd g \<and> con_ok fd (snd k) \<and>
       wlog fst g k = wlog fst f (c, s) @ p) \<and>
    (\<exists>k. fflush (guest_io D) f (c, s) = Some (0, f\<lparr>bufpos := 0\<rparr>, k) \<and> fst k = wlog fst f (c, s)) \<and>
    (if bufpos f < NL_BUFSZ
     then \<exists>g k. fputc (guest_io D) x f (c, s) = Some (of_char x, g, k) \<and> writes_to fd g \<and> con_ok fd (snd k) \<and> wlog fst g k = wlog fst f (c, s) @ [x]
     else fputc (guest_io D) x f (c, s) = None) \<and>
    (bufpos f + length t = NL_BUFSZ \<and> length t < NL_BUFSZ \<and> \<not> fl_unbuf f \<and> \<not> fl_linebuf f \<longrightarrow>
      (\<exists>g. fputs (guest_io D) t f (c, s) = Some (0, g, (c, s)) \<and> fputc (guest_io D) x g (c, s) = None))"
proof -
  have ok: "con_ok fd (snd (c, s))" using assms(2) by simp
  have 1: "\<exists>g k. fputs (guest_io D) t f (c, s) = Some (0, g, k) \<and> writes_to fd g \<and> con_ok fd (snd k) \<and> wlog fst g k = wlog fst f (c, s) @ t"
    using con.fputs_ok [OF assms(1) ok, of D t] unfolding con.appended_def by blast
  have 2: "\<exists>g k. fwrite (guest_io D) p sz n f (c, s) = Some (if sz = 0 then 0 else n, g, k) \<and> writes_to fd g \<and> con_ok fd (snd k) \<and>
      wlog fst g k = wlog fst f (c, s) @ p"
    using con.fwrite_ok [OF assms(1) ok assms(3,4), of D] unfolding con.appended_def by blast
  have 3: "\<exists>k. fflush (guest_io D) f (c, s) = Some (0, f\<lparr>bufpos := 0\<rparr>, k) \<and> fst k = wlog fst f (c, s)"
    using con.fflush_ok [OF assms(1) ok, of D] by blast
  have 4: "\<exists>g k. fputc (guest_io D) x f (c, s) = Some (of_char x, g, k) \<and> writes_to fd g \<and> con_ok fd (snd k) \<and> wlog fst g k = wlog fst f (c, s) @ [x]"
    if "bufpos f < NL_BUFSZ" using con.fputc_ok [OF assms(1) ok that, of D x] unfolding con.appended_def by blast
  have 5: "fputc (guest_io D) x g k = None" if "writes_to fd g" "bufpos g = NL_BUFSZ" for g k
    using full_buffer_faults [OF that, where io = "guest_io D" and c = x and k = k] by (simp add: fputc_def)
  have "bufpos f < NL_BUFSZ \<or> bufpos f = NL_BUFSZ" using assms(1) by (auto simp: writes_to_def)
  moreover have "\<exists>g. fputs (guest_io D) t f (c, s) = Some (0, g, (c, s)) \<and> fputc (guest_io D) x g (c, s) = None"
    if "bufpos f + length t = NL_BUFSZ \<and> length t < NL_BUFSZ \<and> \<not> fl_unbuf f \<and> \<not> fl_linebuf f"
    using exact_fill [OF assms(1), of t "guest_io D" "(c, s)"] 5 that by blast
  ultimately show ?thesis using 1 2 3 4 5 [OF assms(1)] by auto
qed

lemma con_ok_boot: "con_ok 1 (vfs_boot [] d)"
  by (simp add: con_ok_def vfs_boot_def fs_is_file_fd_def ifs_is_fd_def fs_file_of_def FS_FD_BASE_def disk_is_fd_def VFS_DISK_FD_BASE_def vfs_std_of_def)

lemma nl_stdout_writes: "writes_to 1 nl_stdout" "bufpos nl_stdout = 0" "wlog fst nl_stdout ([], s) = []"
  by (simp_all add: writes_to_def nl_stdout_def nl_stdin_def wlog_def)

theorem stdio_writes_witness:
  "\<exists>g k. fputs (guest_io None) ''hi'' nl_stdout ([], vfs_boot [] ()) = Some (0, g, k) \<and> wlog fst g k = ''hi''"
  using stdio_writes [OF nl_stdout_writes(1) con_ok_boot [where d = "()"], where p = "[]" and sz = 0 and n = 0 and t = "''hi''" and c = "[]" and D = None and x = NUL, THEN conjunct1]
  unfolding nl_stdout_writes(3) by auto

end
