(* ===== verification/DtoaProofs.thy ===== *)
theory DtoaProofs
  imports Dtoa
begin

text \<open>
  Big numbers denote naturals, and the digits that the pump yields denote the number that it was given. For every
  finite double the arrays are large enough.
\<close>

section \<open>Limbs\<close>

fun bn_val :: "nl_bignum \<Rightarrow> nat" where
  "bn_val [] = 0"
| "bn_val (w # ws) = unat w + 2 ^ 32 * bn_val ws"

lemma bn_val_append: "bn_val (xs @ ys) = bn_val xs + 2 ^ (32 * length xs) * bn_val ys"
  by (induction xs) (simp_all add: algebra_simps power_add)

lemma bn_val_zeros: "bn_val (replicate n 0) = 0"
  by (induction n) simp_all

lemma bn_val_less: "bn_val ws < 2 ^ (32 * length ws)"
proof (induction ws)
  case (Cons w ws)
  have "unat w < 2 ^ 32" using unsigned_less [of w] by simp
  then have "unat w + 2 ^ 32 * bn_val ws < 2 ^ 32 * (bn_val ws + 1)" by simp
  also have "\<dots> \<le> 2 ^ 32 * 2 ^ (32 * length ws)" using Cons by (intro mult_left_mono) simp_all
  finally show ?case by (simp add: power_add)
qed simp

lemma u32_less: "unat (w :: u32) < 2 ^ 32"
  using unsigned_less [of w] by simp

lemma unat_low: "unat (ucast (t :: u64) :: u32) = unat t mod 2 ^ 32"
  unfolding unsigned_ucast_eq by (simp add: take_bit_eq_mod)

lemma unat_high: "unat (drop_bit 32 (t :: u64)) = unat t div 2 ^ 32"
  unfolding unat_drop_bit_eq by (simp add: drop_bit_eq_div)

lemma unat_widen: "unat (ucast (w :: u32) :: u64) = unat w"
  unfolding unat_eq_nat_uint by (subst uint_up_ucast) (simp_all add: is_up)

lemma set_val: "bn_val (nl_bn_set v) = unat v"
proof -
  have "unat v = unat v mod 2 ^ 32 + 2 ^ 32 * (unat v div 2 ^ 32)" by simp
  moreover have "unat v div 2 ^ 32 < 2 ^ 32" using u64_bound [of v] by simp
  ultimately show ?thesis
    unfolding nl_bn_set_def Let_def using unat_low [of v] unat_low [of "drop_bit 32 v"] unat_high [of v]
    by (auto simp: unat_eq_zero [symmetric] simp del: unat_eq_zero)
qed

section \<open>Multiplication and shift\<close>

lemma mul_step:
  fixes w m :: u32
  assumes "unat c < 2 ^ 32" and t: "t = ucast w * ucast m + (c :: u64)"
  shows "unat t = unat w * unat m + unat c" "unat t div 2 ^ 32 < 2 ^ 32"
proof -
  have "unat w * unat m \<le> (2 ^ 32 - 1) * (2 ^ 32 - 1)" using u32_less [of w] u32_less [of m] by (intro mult_mono) auto
  then have b: "unat w * unat m + unat c < 2 ^ 64" using assms(1) by simp
  have "unat (ucast w * ucast m :: u64) = unat w * unat m" using b by (subst unat_mult_lem [THEN iffD1]) (simp_all add: unat_widen)
  then show u: "unat t = unat w * unat m + unat c" unfolding t using b by (subst unat_add_no_wrap) simp_all
  show "unat t div 2 ^ 32 < 2 ^ 32" using b u by simp
qed

lemma mul_loop_val:
  "unat c < 2 ^ 32 \<Longrightarrow> mul_loop ws m c = (rs, c') \<Longrightarrow>
    length rs = length ws \<and> unat c' < 2 ^ 32 \<and> bn_val rs + 2 ^ (32 * length ws) * unat c' = bn_val ws * unat m + unat c"
proof (induction ws arbitrary: c rs)
  case (Cons w ws)
  define t where "t = ucast w * ucast m + c"
  note t = mul_step [OF Cons.prems(1) t_def]
  obtain rs' where r: "mul_loop ws m (drop_bit 32 t) = (rs', c')" "rs = ucast t # rs'"
    using Cons.prems(2) by (auto simp: Let_def t_def split: prod.splits)
  have "unat (drop_bit 32 t) < 2 ^ 32" unfolding unat_high by (rule t(2))
  from Cons.IH [OF this r(1)] have i: "length rs' = length ws" "unat c' < 2 ^ 32"
    "bn_val rs' + 2 ^ (32 * length ws) * unat c' = bn_val ws * unat m + unat t div 2 ^ 32" unfolding unat_high by auto
  have "bn_val rs + 2 ^ (32 * length (w # ws)) * unat c' = unat t mod 2 ^ 32 + 2 ^ 32 * (bn_val rs' + 2 ^ (32 * length ws) * unat c')"
    unfolding r(2) bn_val.simps unat_low by (simp add: power_add algebra_simps)
  also have "\<dots> = unat t + 2 ^ 32 * (bn_val ws * unat m)" unfolding i(3) by (simp add: algebra_simps)
  finally show ?case using i(1,2) r(2) t(1) by (simp add: algebra_simps)
qed simp

lemma mul_ok:
  assumes "bn_val b * unat m < 2 ^ (32 * NL_DTOA_W)"
  shows "\<exists>r. nl_bn_mul b m = Some r \<and> bn_val r = bn_val b * unat m"
proof -
  obtain ws c where l: "mul_loop b m 0 = (ws, c)" by (cases "mul_loop b m 0")
  from mul_loop_val [OF _ l] have v: "length ws = length b" "unat c < 2 ^ 32" "bn_val ws + 2 ^ (32 * length b) * unat c = bn_val b * unat m" by auto
  show ?thesis
  proof (cases "c = 0")
    case True
    then show ?thesis using l v by (simp add: nl_bn_mul_def mul_carry.simps [of ws])
  next
    case False
    then have "unat c \<ge> 1" by (metis less_one not_less unat_eq_zero)
    then have "2 ^ (32 * length b) \<le> bn_val b * unat m" unfolding v(3) [symmetric] by (simp add: trans_le_add2)
    then have "(2 :: nat) ^ (32 * length b) < 2 ^ (32 * NL_DTOA_W)" using assms by (rule le_less_trans)
    then have "length b < NL_DTOA_W" by (simp add: power_less_imp_less_exp)
    moreover have "drop_bit 32 c = 0" using v(2) by (metis div_less unat_eq_zero unat_high)
    moreover have "unat (ucast c :: u32) = unat c" using v(2) unat_low [of c] by simp
    ultimately show ?thesis using l v False
      by (simp add: nl_bn_mul_def mul_carry.simps [of ws] mul_carry.simps [of "ws @ [ucast c]"] bn_val_append)
  qed
qed

lemma or_shifted:
  assumes "(c :: nat) < 2 ^ n"
  shows "push_bit n x OR c = x * 2 ^ n + c"
proof -
  have "take_bit n c = c" using assms by (rule take_bit_nat_eq_self)
  then have "push_bit n x AND c = 0" by (metis (mono_tags, lifting) bit_and_iff bit_eqI bit_push_bit_iff bit_take_bit_iff bit_0_eq bot_apply bot_bool_def not_less)
  then show ?thesis by (simp add: disjunctive_add_eq_or [symmetric] push_bit_eq_mult)
qed

lemma shl_step:
  fixes w c :: u32
  assumes "sh < 32" "unat c < 2 ^ sh"
  shows "unat (push_bit sh w OR c) = unat w * 2 ^ sh mod 2 ^ 32 + unat c"
    "unat (ucast (drop_bit (32 - sh) (ucast w :: u64)) :: u32) = unat w * 2 ^ sh div 2 ^ 32"
    "unat w * 2 ^ sh div 2 ^ 32 < 2 ^ sh"
proof -
  have "unat (push_bit sh w) = push_bit sh (take_bit (32 - sh) (unat w))"
    by (simp only: unsigned_push_bit_eq) (simp add: take_bit_push_bit)
  then show "unat (push_bit sh w OR c) = unat w * 2 ^ sh mod 2 ^ 32 + unat c"
  proof -
    assume a: "unat (push_bit sh w) = push_bit sh (take_bit (32 - sh) (unat w))"
    have "unat (push_bit sh w OR c) = take_bit (32 - sh) (unat w) * 2 ^ sh + unat c"
      unfolding unsigned_or_eq a by (rule or_shifted [OF assms(2)])
    also have "take_bit (32 - sh) (unat w) * 2 ^ sh = unat w * 2 ^ sh mod 2 ^ 32"
      unfolding take_bit_eq_mod mult_mod_left using assms(1) by (simp flip: power_add)
    finally show ?thesis .
  qed
  have d: "unat w * 2 ^ sh div 2 ^ 32 = unat w div 2 ^ (32 - sh)"
  proof -
    have "(2 :: nat) ^ 32 = 2 ^ (32 - sh) * 2 ^ sh" using assms(1) by (simp flip: power_add)
    then show ?thesis by (metis div_mult_mult2 power_not_zero zero_neq_numeral)
  qed
  have "unat w div 2 ^ (32 - sh) \<le> unat w" by (rule div_le_dividend)
  then have "unat w div 2 ^ (32 - sh) < 2 ^ 32" using u32_less [of w] by linarith
  then show "unat (ucast (drop_bit (32 - sh) (ucast w :: u64)) :: u32) = unat w * 2 ^ sh div 2 ^ 32"
    unfolding d unat_low unat_drop_bit_eq unat_widen by (simp add: drop_bit_eq_div)
  show "unat w * 2 ^ sh div 2 ^ 32 < 2 ^ sh" using u32_less [of w] by (simp add: less_mult_imp_div_less)
qed

lemma shl_loop_val:
  "sh < 32 \<Longrightarrow> unat c < 2 ^ sh \<Longrightarrow> shl_loop sh ws c = (rs, c') \<Longrightarrow>
    length rs = length ws \<and> bn_val rs + 2 ^ (32 * length ws) * unat c' = bn_val ws * 2 ^ sh + unat c"
proof (induction ws arbitrary: c rs)
  case (Cons w ws)
  note t = shl_step [OF Cons.prems(1,2), of w]
  let ?d = "ucast (drop_bit (32 - sh) (ucast w :: u64)) :: u32"
  obtain rs' where r: "shl_loop sh ws ?d = (rs', c')" "rs = (push_bit sh w OR c) # rs'"
    using Cons.prems(3) by (auto simp: Let_def split: prod.splits)
  have "unat ?d < 2 ^ sh" unfolding t(2) by (rule t(3))
  from Cons.IH [OF Cons.prems(1) this r(1)] have i: "length rs' = length ws"
    "bn_val rs' + 2 ^ (32 * length ws) * unat c' = bn_val ws * 2 ^ sh + unat w * 2 ^ sh div 2 ^ 32" unfolding t(2) by auto
  have "bn_val rs + 2 ^ (32 * length (w # ws)) * unat c' = unat w * 2 ^ sh mod 2 ^ 32 + unat c + 2 ^ 32 * (bn_val rs' + 2 ^ (32 * length ws) * unat c')"
    unfolding r(2) bn_val.simps t(1) by (simp add: power_add algebra_simps)
  also have "\<dots> = unat w * 2 ^ sh + unat c + 2 ^ 32 * (bn_val ws * 2 ^ sh)" unfolding i(2) by (simp add: algebra_simps)
  finally show ?case using i(1) r(2) by (simp add: algebra_simps)
qed simp

lemma shl_ok:
  assumes "length b + bits div 32 + 1 \<le> NL_DTOA_W"
  shows "\<exists>r. nl_bn_shl b bits = Some r \<and> bn_val r = bn_val b * 2 ^ bits"
proof -
  let ?sh = "bits mod 32" and ?words = "bits div 32"
  obtain ws c where l: "shl_loop ?sh b 0 = (ws, c)" by (cases "shl_loop ?sh b 0")
  have v: "length ws = length b" "bn_val ws + 2 ^ (32 * length b) * unat c = bn_val b * 2 ^ ?sh"
    using shl_loop_val [OF _ _ l] by simp_all
  obtain b1 where b1: "(if ?sh \<noteq> 0 then if c = 0 then Some ws else if length ws \<ge> NL_DTOA_W then None else Some (ws @ [c]) else Some b) = Some b1"
    "length b1 \<le> length b + 1" "bn_val b1 = bn_val b * 2 ^ ?sh"
  proof (cases "?sh = 0")
    case True
    then show ?thesis using that [of b] by simp
  next
    case False
    then show ?thesis using that [of ws] that [of "ws @ [c]"] v assms by (cases "c = 0") (auto simp: bn_val_append)
  qed
  have "nl_bn_shl b bits = (if b = [] then Some b else if ?words = 0 then Some b1 else Some (replicate ?words 0 @ b1))"
    using assms b1(1,2) unfolding nl_bn_shl_def Let_def l prod.case by (auto simp: split: if_splits)
  moreover have "bn_val (replicate ?words 0 @ b1) = bn_val b * 2 ^ bits"
  proof -
    have "(2 :: nat) ^ (32 * ?words) * 2 ^ ?sh = 2 ^ bits" unfolding power_add [symmetric] by simp
    then show ?thesis using b1(3) by (simp add: bn_val_append bn_val_zeros algebra_simps)
  qed
  ultimately show ?thesis using b1(3) by (cases "?words = 0") auto
qed

section \<open>Division by a thousand million\<close>

lemma div_step:
  assumes "unat rem < 1000000000" and cur: "cur = push_bit 32 rem OR (ucast (w :: u32) :: u64)"
  shows "unat cur = unat rem * 2 ^ 32 + unat w" "unat (cur mod 1000000000) = unat cur mod 1000000000" "unat cur mod 1000000000 < 1000000000"
    "unat (ucast (cur div 1000000000) :: u32) = unat cur div 1000000000"
proof -
  have r: "unat (push_bit 32 rem) = push_bit 32 (unat rem)"
    by (simp only: unsigned_push_bit_eq) (use assms(1) in \<open>simp add: push_bit_eq_mult take_bit_nat_eq_self\<close>)
  show u: "unat cur = unat rem * 2 ^ 32 + unat w"
    unfolding cur unsigned_or_eq r unat_widen by (rule or_shifted [OF u32_less])
  show "unat (cur mod 1000000000) = unat cur mod 1000000000" by (simp add: unat_mod_distrib)
  show "unat cur mod 1000000000 < 1000000000" by simp
  have "unat cur < 1000000000 * 2 ^ 32" using u assms(1) u32_less [of w] by simp
  then have "unat cur div 1000000000 < 2 ^ 32" by (simp add: less_mult_imp_div_less)
  then show "unat (ucast (cur div 1000000000) :: u32) = unat cur div 1000000000" unfolding unat_low by (simp add: unat_div_distrib)
qed

lemma div_loop_val:
  "unat r < 1000000000 \<Longrightarrow> div_loop ws r = (qs, r') \<Longrightarrow>
    length qs = length ws \<and> unat r' < 1000000000 \<and>
    bn_val (rev qs) * 1000000000 + unat r' = unat r * 2 ^ (32 * length ws) + bn_val (rev ws)"
proof (induction ws arbitrary: r qs)
  case (Cons w ws)
  define cur where "cur = push_bit 32 r OR (ucast w :: u64)"
  note t = div_step [OF Cons.prems(1) cur_def]
  obtain qs' where q: "div_loop ws (cur mod 1000000000) = (qs', r')" "qs = ucast (cur div 1000000000) # qs'"
    using Cons.prems(2) by (auto simp: Let_def cur_def split: prod.splits)
  have "unat (cur mod 1000000000) < 1000000000" unfolding t(2) by (rule t(3))
  from Cons.IH [OF this q(1)] have i: "length qs' = length ws" "unat r' < 1000000000"
    "bn_val (rev qs') * 1000000000 + unat r' = unat cur mod 1000000000 * 2 ^ (32 * length ws) + bn_val (rev ws)" unfolding t(2) by auto
  have "bn_val (rev qs) * 1000000000 + unat r' =
      bn_val (rev qs') * 1000000000 + unat r' + unat cur div 1000000000 * 1000000000 * 2 ^ (32 * length ws)"
    unfolding q(2) using i(1) t(4) by (simp add: bn_val_append algebra_simps)
  also have "\<dots> = (unat cur mod 1000000000 + unat cur div 1000000000 * 1000000000) * 2 ^ (32 * length ws) + bn_val (rev ws)"
    unfolding i(3) by (simp only: distrib_left distrib_right ac_simps)
  also have "\<dots> = unat cur * 2 ^ (32 * length ws) + bn_val (rev ws)" by (simp only: mod_div_mult_eq)
  also have "\<dots> = unat r * 2 ^ (32 * length (w # ws)) + bn_val (rev (w # ws))"
    unfolding t(1) by (simp add: bn_val_append power_add algebra_simps)
  finally show ?case using i(1,2) q(2) by simp
qed simp

lemma val_strip: "bn_val (rev (dropWhile (\<lambda>w. w = 0) qs)) = bn_val (rev qs)"
  by (induction qs) (auto simp: bn_val_append)

lemma strip_empty: "bn_val (rev qs) = 0 \<Longrightarrow> dropWhile (\<lambda>w. w = 0) qs = []"
  by (induction qs) (auto simp: bn_val_append unat_eq_zero)

lemma div1e9_ok:
  assumes "nl_bn_div1e9 b = (q, r)"
  shows "bn_val q = bn_val b div 1000000000" "unat r = bn_val b mod 1000000000" "bn_val q = 0 \<Longrightarrow> q = []"
proof -
  obtain qs rem where l: "div_loop (rev b) 0 = (qs, rem)" by (cases "div_loop (rev b) 0")
  have v: "unat rem < 1000000000" "bn_val (rev qs) * 1000000000 + unat rem = bn_val b" using div_loop_val [OF _ l] by simp_all
  have q: "q = rev (dropWhile (\<lambda>w. w = 0) qs)" "r = ucast rem" using assms l by (simp_all add: nl_bn_div1e9_def)
  have r: "unat r = unat rem" unfolding q(2) unat_low using v(1) by simp
  show "bn_val q = bn_val b div 1000000000" "unat r = bn_val b mod 1000000000"
    unfolding q(1) val_strip r v(2) [symmetric] using v(1) by simp_all
  show "bn_val q = 0 \<Longrightarrow> q = []" unfolding q(1) val_strip by (simp add: strip_empty del: dropWhile_eq_Nil_conv)
qed

section \<open>Digits\<close>

definition dig :: "char \<Rightarrow> nat" where
  "dig c = of_char c - 48"

definition digit :: "char \<Rightarrow> bool" where
  "digit c \<longleftrightarrow> 48 \<le> (of_char c :: nat) \<and> (of_char c :: nat) \<le> 57"

definition dval :: "string \<Rightarrow> nat" where
  "dval ds = foldl (\<lambda>v c. v * 10 + dig c) 0 ds"

lemma foldl_dval: "foldl (\<lambda>v c. v * 10 + dig c) a ds = a * 10 ^ length ds + dval ds"
proof (induction ds arbitrary: a rule: rev_induct)
  case (snoc c ds)
  show ?case using snoc [of a] by (simp add: dval_def algebra_simps)
qed (simp add: dval_def)

lemma dval_append: "dval (xs @ ys) = dval xs * 10 ^ length ys + dval ys"
  using foldl_dval [of "dval xs" ys] by (simp add: dval_def)

lemma dval_simps [simp]: "dval [] = 0" "dval [c] = dig c" "dval (c # cs) = dig c * 10 ^ length cs + dval cs"
  using dval_append [of "[c]" cs] by (simp_all add: dval_def)

lemma digit_of: "d < 10 \<Longrightarrow> digit (char_of (48 + d))" "d < 10 \<Longrightarrow> dig (char_of (48 + d)) = d"
  by (simp_all add: digit_def dig_def of_char_of)

lemma dig_less: "digit c \<Longrightarrow> dig c < 10"
  by (auto simp: digit_def dig_def)

lemma dig_zero: "dig (CHR ''0'') = 0" "digit (CHR ''0'')"
  by (simp_all add: dig_def digit_def)

lemma dig_eq_zero: "digit c \<Longrightarrow> dig c = 0 \<longleftrightarrow> c = CHR ''0''"
proof
  assume "digit c" "dig c = 0"
  then have "(of_char c :: nat) = of_char (CHR ''0'')" by (simp add: digit_def dig_def)
  then show "c = CHR ''0''" by (simp only: of_char_eq_iff)
qed (simp add: dig_zero)

lemma dval_zeros: "dval (replicate n (CHR ''0'')) = 0"
  by (induction n) (simp_all add: dig_zero)

lemma dval_less: "list_all digit ds \<Longrightarrow> dval ds < 10 ^ length ds"
proof (induction ds)
  case (Cons c cs)
  have "dig c * 10 ^ length cs \<le> 9 * 10 ^ length cs" using dig_less [of c] Cons.prems by (intro mult_right_mono) auto
  moreover have "dval cs < 10 ^ length cs" using Cons by simp
  ultimately show ?case unfolding dval_simps length_Cons power_Suc by linarith
qed simp

lemma dval_lead:
  assumes "list_all digit (c # cs)" "c \<noteq> CHR ''0''"
  shows "10 ^ length cs \<le> dval (c # cs)"
proof -
  have "1 \<le> dig c" using assms dig_eq_zero [of c] by simp
  then have "1 * 10 ^ length cs \<le> dig c * 10 ^ length cs" by (rule mult_right_mono) simp
  then show ?thesis unfolding dval_simps by linarith
qed

lemma group_val: "list_all digit (group n r) \<and> dval (rev (group n r)) = unat r mod 10 ^ n"
proof (induction n arbitrary: r)
  case (Suc n)
  have m: "unat (r mod 10) = unat r mod 10" "unat (r div 10) = unat r div 10" by (simp_all add: unat_mod_distrib unat_div_distrib)
  have "unat r div 10 mod 10 ^ n * 10 + unat r mod 10 = unat r mod 10 ^ Suc n"
    using mod_mult2_eq [of "unat r" 10 "10 ^ n"] by (simp add: mult.commute)
  then show ?case using Suc [of "r div 10"] m digit_of [of "unat r mod 10"] by (simp add: dval_append)
qed simp

lemma pump_ok:
  "bn_val b < 10 ^ (9 * n) \<Longrightarrow> n > 0 \<or> b = [] \<Longrightarrow> length ds + 9 * n \<le> NL_DTOA_DIGS \<Longrightarrow>
    \<exists>es. pump b ds = Some (ds @ es) \<and> list_all digit es \<and> dval (rev es) = bn_val b \<and> (b \<noteq> [] \<longrightarrow> es \<noteq> [])"
proof (induction n arbitrary: b ds)
  case 0
  then show ?case by (simp add: pump.simps [of "[]"])
next
  case (Suc n)
  show ?case
  proof (cases "b = []")
    case True
    then show ?thesis by (simp add: pump.simps [of "[]"])
  next
    case False
    obtain q r where q: "nl_bn_div1e9 b = (q, r)" by (cases "nl_bn_div1e9 b")
    note d = div1e9_ok [OF q]
    have "bn_val q < 10 ^ (9 * n)" unfolding d(1) using Suc.prems(1) by (intro less_mult_imp_div_less) (simp add: power_add mult.commute)
    moreover from this have "n > 0 \<or> q = []" using d(3) by (cases n) auto
    moreover have "length (ds @ group 9 r) + 9 * n \<le> NL_DTOA_DIGS" using Suc.prems(3) by simp
    ultimately obtain es where e: "pump q (ds @ group 9 r) = Some ((ds @ group 9 r) @ es)" "list_all digit es" "dval (rev es) = bn_val q"
      using Suc.IH by blast
    have "bn_val b mod 1000000000 mod 10 ^ 9 = bn_val b mod 1000000000" by simp
    then have "dval (rev (group 9 r @ es)) = bn_val b" using group_val [of 9 r] e(3) d(1,2) by (simp add: dval_append)
    moreover have "pump b ds = Some (ds @ (group 9 r @ es))" using False q e(1) Suc.prems(3) by (simp add: pump.simps [of b])
    moreover have "group 9 r \<noteq> []" by (metis length_group list.size(3) zero_neq_numeral)
    ultimately show ?thesis using e(2) group_val [of 9 r] by (intro exI [of _ "group 9 r @ es"]) simp
  qed
qed

section \<open>The exact expansion\<close>

text \<open>A double as a fraction: the significand, with its hidden bit when the exponent is not zero, times a power of two.\<close>

definition double_sig :: "u64 \<Rightarrow> nat" where
  "double_sig bits = unat (mantissa_bits bits) + (if exponent_bits bits = 0 then 0 else 2 ^ 52)"

definition double_exp :: "u64 \<Rightarrow> int" where
  "double_exp bits = (if exponent_bits bits = 0 then -1074 else int (unat (exponent_bits bits)) - 1075)"

definition double_num :: "u64 \<Rightarrow> nat" where
  "double_num bits = double_sig bits * 2 ^ nat (double_exp bits)"

definition double_den :: "u64 \<Rightarrow> nat" where
  "double_den bits = 2 ^ nat (- double_exp bits)"

text \<open>The digits \<open>ds\<close>, the first of them at the place of \<open>10^e\<close>, denote the fraction.\<close>

definition denotes :: "string \<Rightarrow> int \<Rightarrow> nat \<Rightarrow> nat \<Rightarrow> bool" where
  "denotes ds e num den \<longleftrightarrow> dval ds * 10 ^ nat (e + 1 - int (length ds)) * den = num * 10 ^ nat (int (length ds) - 1 - e)"

lemma strip_zeros_split:
  assumes "ds \<noteq> []"
  shows "\<exists>z. ds = strip_zeros ds @ replicate z (CHR ''0'')" "strip_zeros ds \<noteq> []"
    "length (strip_zeros ds) > 1 \<Longrightarrow> last (strip_zeros ds) \<noteq> CHR ''0''"
proof -
  define t where "t = dropWhile (\<lambda>c. c = CHR ''0'') (rev ds)"
  have z: "takeWhile (\<lambda>c. c = CHR ''0'') (rev ds) = replicate (length (takeWhile (\<lambda>c. c = CHR ''0'') (rev ds))) (CHR ''0'')"
    by (rule replicate_length_same [symmetric]) (auto dest: set_takeWhileD)
  have r: "rev ds = replicate (length (takeWhile (\<lambda>c. c = CHR ''0'') (rev ds))) (CHR ''0'') @ t"
    unfolding t_def by (metis takeWhile_dropWhile_id z)
  then have d: "ds = rev t @ replicate (length (takeWhile (\<lambda>c. c = CHR ''0'') (rev ds))) (CHR ''0'')"
    by (metis rev_append rev_replicate rev_rev_ident)
  show "\<exists>z. ds = strip_zeros ds @ replicate z (CHR ''0'')" "strip_zeros ds \<noteq> []"
    "length (strip_zeros ds) > 1 \<Longrightarrow> last (strip_zeros ds) \<noteq> CHR ''0''"
  proof -
    show "\<exists>z. ds = strip_zeros ds @ replicate z (CHR ''0'')"
    proof (cases "t = []")
      case True
      then obtain n where "ds = replicate n (CHR ''0'')" using d by auto
      moreover from this obtain m where "n = Suc m" using assms by (cases n) auto
      ultimately show ?thesis using True by (simp add: strip_zeros_def t_def [symmetric])
    next
      case False
      then show ?thesis using d by (auto simp: strip_zeros_def t_def [symmetric])
    qed
    show "strip_zeros ds \<noteq> []" using assms by (simp add: strip_zeros_def Let_def)
    show "last (strip_zeros ds) \<noteq> CHR ''0''" if "length (strip_zeros ds) > 1"
    proof -
      have "t \<noteq> []" using that by (auto simp: strip_zeros_def t_def [symmetric] split: if_splits)
      then show ?thesis using hd_dropWhile [of "\<lambda>c. c = CHR ''0''" "rev ds"] by (simp add: strip_zeros_def t_def [symmetric] last_rev)
    qed
  qed
qed

lemma mul_fives_ok:
  "bn_val b * 5 ^ (i - i mod 13) < 2 ^ (32 * NL_DTOA_W) \<Longrightarrow> \<exists>r. mul_fives i b = Some r \<and> bn_val r = bn_val b * 5 ^ (i - i mod 13)"
proof (induction i b rule: mul_fives.induct)
  case (1 i b)
  show ?case
  proof (cases "i \<ge> 13")
    case False
    then show ?thesis by (simp add: mul_fives.simps [of i])
  next
    case True
    have e: "i - i mod 13 = 13 + ((i - 13) - (i - 13) mod 13)" using True mod_less_eq_dividend [of "i - 13" 13] by (simp add: le_mod_geq)
    have v: "bn_val b * 5 ^ (i - i mod 13) = bn_val b * 1220703125 * 5 ^ ((i - 13) - (i - 13) mod 13)" unfolding e by (simp add: power_add)
    have "bn_val b * unat (1220703125 :: u32) \<le> bn_val b * 1220703125 * 5 ^ ((i - 13) - (i - 13) mod 13)" by simp
    then have "bn_val b * unat (1220703125 :: u32) < 2 ^ (32 * NL_DTOA_W)" using 1(2) unfolding v by (rule le_less_trans)
    then obtain b1 where b1: "nl_bn_mul b 1220703125 = Some b1" "bn_val b1 = bn_val b * 1220703125" using mul_ok by fastforce
    show ?thesis using 1(1) [OF True, of b1] 1(2) True b1 unfolding v by (simp add: mul_fives.simps [of i])
  qed
qed

lemma p5_ok: "n < 13 \<Longrightarrow> unat (p5 ! n) = 5 ^ n"
proof -
  assume n: "n < 13"
  have "map unat p5 = map (\<lambda>n. 5 ^ n) [0..<13]" by (simp add: p5_def upt_rec)
  moreover have "length p5 = 13" by (simp add: p5_def)
  ultimately show "unat (p5 ! n) = 5 ^ n" using n nth_map [of n p5 unat] nth_map [of n "[0..<13]" "\<lambda>n. 5 ^ n"] by simp
qed

lemma fives_ok:
  assumes "bn_val b * 5 ^ k < 2 ^ (32 * NL_DTOA_W)"
  shows "\<exists>r. (do { b1 \<leftarrow> mul_fives k b; if k mod 13 \<noteq> 0 then nl_bn_mul b1 (p5 ! (k mod 13)) else Some b1 }) = Some r \<and> bn_val r = bn_val b * 5 ^ k"
proof -
  have k: "5 ^ k = (5 :: nat) ^ (k - k mod 13) * 5 ^ (k mod 13)" by (simp flip: power_add)
  have "bn_val b * 5 ^ (k - k mod 13) \<le> bn_val b * (5 ^ (k - k mod 13) * 5 ^ (k mod 13))" by simp
  then have "bn_val b * 5 ^ (k - k mod 13) < 2 ^ (32 * NL_DTOA_W)" using assms unfolding k by (rule le_less_trans)
  then obtain b1 where b1: "mul_fives k b = Some b1" "bn_val b1 = bn_val b * 5 ^ (k - k mod 13)" using mul_fives_ok by blast
  have p: "unat (p5 ! (k mod 13)) = 5 ^ (k mod 13)" by (rule p5_ok) simp
  have m: "bn_val b1 * unat (p5 ! (k mod 13)) = bn_val b * 5 ^ k" unfolding b1(2) p k by (simp only: mult.assoc)
  show ?thesis
  proof (cases "k mod 13 = 0")
    case True
    then show ?thesis using b1 by simp
  next
    case False
    then show ?thesis using mul_ok [of b1 "p5 ! (k mod 13)"] assms b1(1) unfolding m by simp
  qed
qed

lemma and_small: "unat (x AND y :: u64) \<le> unat y"
  by (simp add: word_and_le1 flip: word_le_nat_alt)

lemma double_bounds:
  shows "unat (exponent_bits bits) \<le> 2047" "unat (mantissa_bits bits) < 2 ^ 52"
  using and_small [of "drop_bit 52 bits" "0x7FF"] and_small [of bits "0xFFFFFFFFFFFFF"]
  by (simp_all add: exponent_bits_def mantissa_bits_def)

lemma hidden_bit: "unat (mantissa_bits bits OR push_bit 52 1) = unat (mantissa_bits bits) + 2 ^ 52"
proof -
  have "unat (push_bit 52 1 :: u64) = push_bit 52 1" by (simp only: unsigned_push_bit_eq) (simp add: push_bit_eq_mult take_bit_nat_eq_self)
  then show ?thesis using or_shifted [OF double_bounds(2) [of bits], of 1] by (simp only: unsigned_or_eq or.commute)
qed

lemma fives_le: "(5 :: nat) ^ (3 * n) \<le> 2 ^ (7 * n)"
  unfolding power_mult by (rule power_mono) simp_all

lemma twos_le: "(2 :: nat) ^ (13 * n) \<le> 10 ^ (4 * n)"
  unfolding power_mult by (rule power_mono) simp_all

text \<open>The room that a finite double needs, in limbs and in digits.\<close>

lemma expansion_less:
  assumes "m < 2 ^ 53" "k \<le> 3 * n" "53 + 7 * n \<le> 13 * l"
  shows "m * 5 ^ k < (2 :: nat) ^ (13 * l)"
proof -
  have "(5 :: nat) ^ k \<le> 5 ^ (3 * n)" using assms(2) by (rule power_increasing) simp
  then have "(5 :: nat) ^ k \<le> 2 ^ (7 * n)" using fives_le by (rule le_trans)
  then have "m * 5 ^ k < 2 ^ 53 * 2 ^ (7 * n)" using assms(1) by (intro mult_less_le_imp_less) simp_all
  also have "(2 :: nat) ^ 53 * 2 ^ (7 * n) \<le> 2 ^ (13 * l)" unfolding power_add [symmetric] using assms(3) by (rule power_increasing) simp
  finally show ?thesis .
qed

text \<open>More than any finite double needs.\<close>

definition DBL_BOUND :: nat where "DBL_BOUND = 2 ^ (13 * 198)"

lemma expansion_room:
  assumes "N < DBL_BOUND"
  shows "N < 10 ^ (9 * 88)" "N < 2 ^ (32 * NL_DTOA_W)"
proof -
  have e: "9 * 88 = 4 * (198 :: nat)" by simp
  show "N < 10 ^ (9 * 88)" unfolding e using assms [unfolded DBL_BOUND_def] twos_le by (rule less_le_trans)
  have "DBL_BOUND \<le> 2 ^ (32 * NL_DTOA_W)" unfolding DBL_BOUND_def by (rule power_increasing) (simp_all add: NL_DTOA_W_def)
  then show "N < 2 ^ (32 * NL_DTOA_W)" using assms by (meson less_le_trans)
qed

lemma digits_of:
  assumes "bn_val b = N" "0 < N" "N < DBL_BOUND"
  shows "\<exists>es full ds t. pump b [] = Some es \<and> full = rev (strip_zeros es) \<and> ds = strip_zeros full \<and> full = ds @ replicate t (CHR ''0'') \<and>
    list_all digit ds \<and> ds \<noteq> [] \<and> hd ds \<noteq> CHR ''0'' \<and> dval ds * 10 ^ t = N"
proof -
  have b: "b \<noteq> []" using assms(1,2) by auto
  define n :: nat where "n = 88"
  have "bn_val b < 10 ^ (9 * n)" unfolding assms(1) n_def by (rule expansion_room(1) [OF assms(3)])
  moreover have "n > 0 \<or> b = []" "length [] + 9 * n \<le> NL_DTOA_DIGS" by (simp_all add: NL_DTOA_DIGS_def n_def)
  ultimately obtain es where es: "pump b [] = Some es" "list_all digit es" "dval (rev es) = N" "es \<noteq> []"
    using pump_ok [of b n "[]"] b assms(1) by auto
  define full where "full = rev (strip_zeros es)"
  note s = strip_zeros_split [OF es(4)]
  obtain z where z: "es = strip_zeros es @ replicate z (CHR ''0'')" using s(1) by blast
  then have re: "rev es = replicate z (CHR ''0'') @ full" unfolding full_def by (metis rev_append rev_replicate)
  have df: "dval full = N" using es(3) unfolding re by (simp add: dval_append dval_zeros)
  have fd: "list_all digit full" using es(2) by (metis list_all_append list_all_rev re)
  have fn: "full \<noteq> []" using s(2) by (simp add: full_def)
  have fh: "hd full \<noteq> CHR ''0''"
  proof (cases "length (strip_zeros es) > 1")
    case True
    then show ?thesis using s(3) fn by (simp add: full_def hd_rev)
  next
    case False
    then obtain c where "full = [c]" using fn by (cases full) (auto simp: full_def [symmetric] length_rev [of "strip_zeros es", symmetric] simp del: length_rev)
    then show ?thesis using df assms(2) by (auto simp: dig_zero)
  qed
  note s2 = strip_zeros_split [OF fn]
  obtain t where t: "full = strip_zeros full @ replicate t (CHR ''0'')" using s2(1) by blast
  have "dval full = dval (strip_zeros full) * 10 ^ t" by (subst t) (simp add: dval_append dval_zeros)
  moreover have "list_all digit (strip_zeros full)" using fd by (metis list_all_append t)
  moreover have "hd (strip_zeros full) \<noteq> CHR ''0''" using fh by (metis hd_append2 s2(2) t)
  ultimately have "list_all digit (strip_zeros full) \<and> strip_zeros full \<noteq> [] \<and> hd (strip_zeros full) \<noteq> CHR ''0'' \<and> dval (strip_zeros full) * 10 ^ t = N"
    using s2(2) df by simp
  then show ?thesis using es(1) full_def t by (intro exI [of _ es] exI [of _ full] exI [of _ "strip_zeros full"] exI [of _ t] conjI) simp_all
qed

lemma denotes_int: "dval ds * 10 ^ t = N \<Longrightarrow> denotes ds (int (length ds + t) - 1) N 1"
  by (simp add: denotes_def)

lemma denotes_frac:
  assumes "dval ds * 10 ^ t = m * 5 ^ k"
  shows "denotes ds (int (length ds + t) - 1 - int k) m (2 ^ k)"
proof -
  have ten: "(5 :: nat) ^ k * 2 ^ k = 10 ^ k" by (simp flip: power_mult_distrib)
  show ?thesis
  proof (cases "k \<le> t")
    case True
    then obtain u where u: "t = u + k" by (metis add.commute le_iff_add)
    have "dval ds * 10 ^ u * 2 ^ k * 5 ^ k = dval ds * 10 ^ u * (5 ^ k * 2 ^ k)" by (simp only: ac_simps)
    also have "\<dots> = m * 5 ^ k" unfolding ten using assms unfolding u power_add by (simp only: ac_simps)
    finally show ?thesis using u by (simp add: denotes_def nat_diff_distrib')
  next
    case False
    then obtain u where u: "k = t + u" by (metis le_iff_add nat_le_linear)
    have "dval ds * 2 ^ k * 10 ^ t = m * 5 ^ k * 2 ^ k" using assms by (simp add: algebra_simps)
    also have "\<dots> = m * 10 ^ u * 10 ^ t" unfolding mult.assoc ten unfolding u power_add by (simp add: algebra_simps)
    finally show ?thesis using u by (simp add: denotes_def)
  qed
qed

lemma exact_bignum:
  assumes "unat mant = m" "m < 2 ^ 53" "-1074 \<le> e2" "e2 \<le> 971" "k = (if e2 \<ge> 0 then 0 else nat (- e2))"
  shows "\<exists>b. (if e2 \<ge> 0 then nl_bn_shl (nl_bn_set mant) (nat e2)
      else do { b1 \<leftarrow> mul_fives k (nl_bn_set mant); if k mod 13 \<noteq> 0 then nl_bn_mul b1 (p5 ! (k mod 13)) else Some b1 }) = Some b \<and>
    bn_val b = m * (if e2 \<ge> 0 then 2 ^ nat e2 else 5 ^ k) \<and> m * (if e2 \<ge> 0 then 2 ^ nat e2 else 5 ^ k) < DBL_BOUND"
proof (cases "e2 \<ge> 0")
  case True
  have "length (nl_bn_set mant) \<le> 2" by (simp add: nl_bn_set_def Let_def)
  moreover have "nat e2 div 32 \<le> 30" using assms(4) by simp
  ultimately have "length (nl_bn_set mant) + nat e2 div 32 + 1 \<le> NL_DTOA_W" by (simp add: NL_DTOA_W_def)
  from shl_ok [OF this] obtain b where b: "nl_bn_shl (nl_bn_set mant) (nat e2) = Some b" "bn_val b = m * 2 ^ nat e2" using assms(1) set_val by auto
  have "m * 2 ^ nat e2 < 2 ^ 53 * 2 ^ nat e2" using assms(2) by simp
  also have "(2 :: nat) ^ 53 * 2 ^ nat e2 \<le> DBL_BOUND" unfolding DBL_BOUND_def power_add [symmetric] by (rule power_increasing) (use assms(4) in simp_all)
  finally show ?thesis using True b by simp
next
  case False
  have l: "m * 5 ^ k < DBL_BOUND" unfolding DBL_BOUND_def by (rule expansion_less [OF assms(2), where n = 358]) (use False assms(3,5) in simp_all)
  have "bn_val (nl_bn_set mant) * 5 ^ k < 2 ^ (32 * NL_DTOA_W)" unfolding set_val assms(1) by (rule expansion_room(2) [OF l])
  from fives_ok [OF this] show ?thesis using False l by (simp only: set_val assms(1) if_False) blast
qed

lemma exact_digits_ok:
  assumes "exponent_bits bits \<noteq> 0x7FF"
  shows "\<exists>ds e. nl_exact_digits bits = Some (ds, e) \<and> list_all digit ds \<and> ds \<noteq> [] \<and> denotes ds e (double_num bits) (double_den bits) \<and>
    (hd ds \<noteq> CHR ''0'' \<or> ds = ''0'' \<and> e = 0 \<and> double_num bits = 0)"
proof -
  define mant where "mant = (if exponent_bits bits = 0 then mantissa_bits bits else mantissa_bits bits OR push_bit 52 1)"
  define e2 where "e2 = double_exp bits"
  define k where "k = (if e2 \<ge> 0 then 0 else nat (- e2))"
  have um: "unat mant = double_sig bits" unfolding mant_def double_sig_def using hidden_bit [of bits] by simp
  have sm: "double_sig bits < 2 ^ 53" using double_bounds(2) [of bits] by (auto simp: double_sig_def)
  have "unat (exponent_bits bits) \<noteq> 2047" using assms by (simp add: word_unat_eq_iff)
  moreover have "exponent_bits bits \<noteq> 0 \<Longrightarrow> 1 \<le> unat (exponent_bits bits)" by (metis less_one not_less unat_eq_zero)
  ultimately have e: "-1074 \<le> e2" "e2 \<le> 971"
    using double_bounds(1) [of bits] unfolding e2_def double_exp_def by (auto simp del: of_nat_unat)
  have eu: "(if exponent_bits bits = 0 then -1074 else uint (exponent_bits bits) - 1075) = e2" by (simp add: e2_def double_exp_def)
  show ?thesis
  proof (cases "mant = 0")
    case True
    then have "double_num bits = 0" using um by (simp add: double_num_def)
    moreover have "nl_exact_digits bits = Some (''0'', 0)" using assms True unfolding nl_exact_digits_def Let_def mant_def by simp
    ultimately show ?thesis by (simp add: denotes_def dig_zero)
  next
    case False
    then have sp: "0 < double_sig bits" using um by (metis gr_zeroI unat_eq_zero)
    define N where "N = double_sig bits * (if e2 \<ge> 0 then 2 ^ nat e2 else 5 ^ k)"
    have N0: "0 < N" using sp by (simp add: N_def)
    obtain b where b: "(if e2 \<ge> 0 then nl_bn_shl (nl_bn_set mant) (nat e2)
        else do { b1 \<leftarrow> mul_fives k (nl_bn_set mant); if k mod 13 \<noteq> 0 then nl_bn_mul b1 (p5 ! (k mod 13)) else Some b1 }) = Some b"
      "bn_val b = N" "N < DBL_BOUND"
      using exact_bignum [OF um sm e k_def] unfolding N_def by blast
    obtain es full ds t where d: "pump b [] = Some es" "full = rev (strip_zeros es)" "ds = strip_zeros full" "full = ds @ replicate t (CHR ''0'')"
      "list_all digit ds" "ds \<noteq> []" "hd ds \<noteq> CHR ''0''" "dval ds * 10 ^ t = N" using digits_of [OF b(2) N0 b(3)] by (elim exE conjE)
    have "length (strip_zeros es) = length full" by (simp add: d(2))
    then have "nl_exact_digits bits = Some (ds, int (length full) - 1 - int k)"
      using assms False b(1) d(1) unfolding nl_exact_digits_def Let_def mant_def [symmetric] eu k_def [symmetric]
      by (simp add: d(2) [symmetric] d(3) [symmetric])
    moreover have "denotes ds (int (length full) - 1 - int k) (double_num bits) (double_den bits)"
    proof (cases "e2 \<ge> 0")
      case True
      then show ?thesis using denotes_int [OF d(8)] d(4) by (simp add: k_def N_def double_num_def double_den_def e2_def)
    next
      case neg: False
      then show ?thesis using denotes_frac [of ds t "double_sig bits" k] d(4,8) by (simp add: k_def N_def double_num_def double_den_def e2_def)
    qed
    ultimately show ?thesis using d(5-7) by blast
  qed
qed

end
