(* ===== verification/DtoaProps.thy ===== *)
theory DtoaProps
  imports DtoaProofs
begin

text \<open>
  Rounding the exact digits is rounding the number, half to even; and the text of a conversion is the decimal
  that it asks for.
\<close>

section \<open>Decimal texts\<close>

text \<open>The last \<open>n\<close> digits of a number, zeros in front.\<close>

fun digs :: "nat \<Rightarrow> nat \<Rightarrow> string" where
  "digs 0 x = []"
| "digs (Suc n) x = digs n (x div 10) @ [digit_char (x mod 10)]"

lemma digit_char_dig: "digit c \<Longrightarrow> digit_char (dig c) = c"
proof -
  assume c: "digit c"
  then have "48 + dig c = of_char c" "dig c < 10" by (auto simp: digit_def dig_def)
  then show "digit_char (dig c) = c" by (simp add: digit_char_def)
qed

lemma digs_dval: "list_all digit ds \<Longrightarrow> digs (length ds) (dval ds) = ds"
proof (induction ds rule: rev_induct)
  case (snoc c ds)
  have "dig c < 10" "list_all digit ds" "digit c" using snoc.prems dig_less [of c] by simp_all
  then show ?case using snoc.IH digit_char_dig [of c] by (simp add: dval_append)
qed simp

lemma num_text_dval: "ds \<noteq> [] \<Longrightarrow> list_all digit ds \<Longrightarrow> hd ds \<noteq> CHR ''0'' \<or> length ds = 1 \<Longrightarrow> num_text 10 (dval ds) = ds"
proof (induction ds rule: rev_induct)
  case (snoc c ds)
  have c: "dig c < 10" "list_all digit ds" "digit c" using snoc.prems(2) dig_less [of c] by simp_all
  show ?case
  proof (cases "ds = []")
    case True
    then show ?thesis using c digit_char_dig [of c] by (simp add: num_text.simps [of 10])
  next
    case False
    then have h: "hd ds \<noteq> CHR ''0''" using snoc.prems(3) by auto
    obtain d es where ds: "ds = d # es" using False by (cases ds) auto
    have "1 \<le> dval ds" using dval_lead [of d es] c(2) h unfolding ds by (metis le_trans list.sel(1) one_le_numeral one_le_power)
    then have "\<not> dval (ds @ [c]) < 10" "dval (ds @ [c]) div 10 = dval ds" "dval (ds @ [c]) mod 10 = dig c" using c(1) by (simp_all add: dval_append)
    then show ?thesis using snoc.IH [OF False c(2)] h c(3) digit_char_dig by (subst num_text.simps) simp
  qed
qed simp

lemma dval_split:
  assumes "list_all digit ys" "dval (xs @ ys) = r"
  shows "dval xs = r div 10 ^ length ys" "dval ys = r mod 10 ^ length ys"
  using dval_less [OF assms(1)] assms(2) by (auto simp: dval_append)

section \<open>Rounding half to even\<close>

definition rhe :: "nat \<Rightarrow> nat \<Rightarrow> nat" where
  "rhe a b = (let q = a div b; r = a mod b in if 2 * r < b \<or> 2 * r = b \<and> even q then q else q + 1)"

lemma rhe_scale: "0 < c \<Longrightarrow> rhe (a * c) (b * c) = rhe a b"
proof -
  assume c: "0 < c"
  have "(2 * (a mod b * c) < b * c) = (2 * (a mod b) < b)" "(2 * (a mod b * c) = b * c) = (2 * (a mod b) = b)"
    using c by (simp_all flip: mult.assoc)
  then show "rhe (a * c) (b * c) = rhe a b" using c by (simp add: rhe_def Let_def flip: mult_mod_left)
qed

lemma rhe_ratio: "0 < b \<Longrightarrow> 0 < d \<Longrightarrow> a * d = c * b \<Longrightarrow> rhe a b = rhe c d"
  by (metis mult.commute rhe_scale)

lemma rhe_exact: "0 < b \<Longrightarrow> rhe (x * b) b = x"
  by (simp add: rhe_def)

lemma rhe_le: "rhe a b \<le> a + 1"
  by (auto simp: rhe_def Let_def intro: le_SucI)

lemma rhe_small: "2 * a < b \<Longrightarrow> rhe a b = 0"
  by (simp add: rhe_def)

text \<open>The digits that are dropped against one half.\<close>

lemma above_half_dval: "list_all digit ds \<Longrightarrow> above_half ds \<longleftrightarrow> 0 < dval ds"
proof (induction ds)
  case (Cons c cs)
  have "above_half (c # cs) \<longleftrightarrow> c \<noteq> CHR ''0'' \<or> above_half cs" by (simp add: above_half_def)
  then show ?case using Cons dig_eq_zero [of c] by auto
qed (simp add: above_half_def)

lemma dropped_half:
  assumes "list_all digit (c # cs)"
  shows "(of_char c :: nat) < 53 \<Longrightarrow> 2 * dval (c # cs) < 10 ^ Suc (length cs)"
    "(of_char c :: nat) > 53 \<Longrightarrow> 10 ^ Suc (length cs) < 2 * dval (c # cs)"
    "c = CHR ''5'' \<Longrightarrow> 2 * dval (c # cs) = 10 ^ Suc (length cs) + 2 * dval cs"
proof -
  have v: "dval cs < 10 ^ length cs" using assms dval_less by simp
  have c: "of_char c = 48 + dig c" using assms by (auto simp: digit_def dig_def)
  define p :: nat where "p = 10 ^ length cs"
  define x where "x = dig c * p"
  have p: "0 < p" "dval cs < p" "dval (c # cs) = x + dval cs" "10 ^ Suc (length cs) = 10 * p" using v by (simp_all add: p_def x_def)
  show "2 * dval (c # cs) < 10 ^ Suc (length cs)" if "(of_char c :: nat) < 53"
  proof -
    have "x \<le> 4 * p" unfolding x_def using that c by (intro mult_right_mono) simp_all
    then show ?thesis using p(2) unfolding p(3,4) by arith
  qed
  show "10 ^ Suc (length cs) < 2 * dval (c # cs)" if "(of_char c :: nat) > 53"
  proof -
    have "6 * p \<le> x" unfolding x_def using that c by (intro mult_right_mono) simp_all
    then show ?thesis using p(1) unfolding p(3,4) by arith
  qed
  show "2 * dval (c # cs) = 10 ^ Suc (length cs) + 2 * dval cs" if "c = CHR ''5''" using that by (simp add: dig_def)
qed

lemma rhe_digits:
  assumes "list_all digit (c # cs)"
  shows "rhe (q * 10 ^ Suc (length cs) + dval (c # cs)) (10 ^ Suc (length cs)) =
    (if (of_char c :: nat) < 53 \<or> c = CHR ''5'' \<and> \<not> above_half cs \<and> even q then q else q + 1)"
proof -
  define p :: nat where "p = 10 ^ Suc (length cs)"
  define x where "x = dval (c # cs)"
  have x: "x < p" using dval_less [OF assms] by (simp add: p_def x_def)
  then have "rhe (q * p + x) p = (if 2 * x < p \<or> 2 * x = p \<and> even q then q else q + 1)" by (simp add: rhe_def Let_def)
  moreover have "(2 * x < p \<or> 2 * x = p \<and> even q) = ((of_char c :: nat) < 53 \<or> c = CHR ''5'' \<and> \<not> above_half cs \<and> even q)"
  proof -
    note h = dropped_half [OF assms, folded p_def x_def]
    have a: "above_half cs = (0 < dval cs)" using above_half_dval assms by simp
    consider "(of_char c :: nat) < 53" | "(of_char c :: nat) > 53" | "(of_char c :: nat) = 53" by linarith
    then show ?thesis
    proof cases
      case 3
      then have "(of_char c :: nat) = of_char (CHR ''5'')" by simp
      then have c: "c = CHR ''5''" by (simp only: of_char_eq_iff)
      show ?thesis using h(3) [OF c] a c 3 by auto
    qed (use h in auto)
  qed
  ultimately show ?thesis unfolding p_def x_def by simp
qed

section \<open>Adding one\<close>

lemma bump_ok:
  "list_all digit r \<Longrightarrow> bump r = (r', all9) \<Longrightarrow>
    length r' = length r \<and> list_all digit r' \<and>
    (if all9 then r' = replicate (length r) (CHR ''0'') \<and> dval (rev r) + 1 = 10 ^ length r else dval (rev r') = dval (rev r) + 1)"
proof (induction r arbitrary: r')
  case (Cons c cs)
  show ?case
  proof (cases "c = CHR ''9''")
    case True
    obtain s where s: "bump cs = (s, all9)" "r' = CHR ''0'' # s" using Cons.prems(2) True by (auto split: prod.splits)
    have d: "dig c = 9" using True by (simp add: dig_def)
    from Cons.IH [OF _ s(1)] Cons.prems(1) have i: "length s = length cs" "list_all digit s"
      "if all9 then s = replicate (length cs) (CHR ''0'') \<and> dval (rev cs) + 1 = 10 ^ length cs else dval (rev s) = dval (rev cs) + 1" by auto
    then show ?thesis using s(2) d by (auto simp: dval_append dig_zero)
  next
    case False
    have dc: "digit c" using Cons.prems(1) by simp
    have n9: "(of_char c :: nat) \<noteq> 57"
    proof
      assume "(of_char c :: nat) = 57"
      then have "(of_char c :: nat) = of_char (CHR ''9'')" by simp
      then show False using False by (simp only: of_char_eq_iff)
    qed
    have "(of_char (char_of (of_char c + 1 :: nat) :: char) :: nat) = of_char c + 1" using dc n9 by (auto simp: digit_def of_char_of)
    then have "digit (char_of (of_char c + 1 :: nat))" "dig (char_of (of_char c + 1 :: nat)) = dig c + 1"
      using dc n9 by (auto simp: digit_def dig_def)
    then show ?thesis using Cons.prems False by (auto simp: dval_append)
  qed
qed simp

section \<open>Rounding to a number of digits\<close>

lemma even_last:
  assumes "list_all digit (ds @ [c])"
  shows "(of_char c - 48 :: int) mod 2 = 0 \<longleftrightarrow> even (dval (ds @ [c]))"
proof -
  have "(of_char c :: nat) = 48 + dig c" using assms by (auto simp: digit_def dig_def)
  then have "int (of_char c) = 48 + int (dig c)" by simp
  then have "(of_char c - 48 :: int) = int (dig c)" by (simp only: of_nat_of_char)
  then have "(of_char c - 48 :: int) mod 2 = 0 \<longleftrightarrow> even (dig c)" by (simp add: even_iff_mod_2_eq_zero [symmetric])
  then show ?thesis by (simp add: dval_append)
qed

definition rounds :: "nat \<Rightarrow> nat \<Rightarrow> int \<Rightarrow> string \<times> int \<Rightarrow> bool" where
  "rounds k q e r \<longleftrightarrow> list_all digit (fst r) \<and>
    (q < 10 ^ k \<and> length (fst r) = k \<and> dval (fst r) = q \<and> snd r = e \<or>
     q = 10 ^ k \<and> fst r = CHR ''1'' # replicate (k - 1) (CHR ''0'') \<and> snd r = e + 1)"

lemma rounds_up:
  assumes "list_all digit ds" "ds \<noteq> []" "bump (rev ds) = (r, all9)"
  shows "rounds (length ds) (dval ds + 1) e (if all9 then (CHR ''1'' # tl (rev r), e + 1) else (rev r, e))"
proof -
  have b: "length r = length ds" "list_all digit r"
    "if all9 then r = replicate (length ds) (CHR ''0'') \<and> dval ds + 1 = 10 ^ length ds else dval (rev r) = dval ds + 1"
    using bump_ok [OF _ assms(3)] assms(1) by auto
  have one: "digit (CHR ''1'')" by (simp add: digit_def)
  obtain m where m: "length ds = Suc m" using assms(2) by (cases ds) auto
  show ?thesis
  proof (cases all9)
    case True
    then have r: "r = replicate (Suc m) (CHR ''0'')" using b(3) m by simp
    have "tl (rev r) = replicate m (CHR ''0'')" unfolding r rev_replicate by simp
    moreover have "list_all digit (replicate m (CHR ''0''))" using dig_zero(2) by (induction m) simp_all
    ultimately show ?thesis using True b(3) one m by (simp add: rounds_def)
  next
    case False
    then have "dval (rev r) < 10 ^ length ds" using b dval_less [of "rev r"] by simp
    then show ?thesis using False b by (simp add: rounds_def)
  qed
qed

lemma round_ok:
  assumes "list_all digit ds" "k < length ds"
  shows "rounds k (rhe (dval ds) (10 ^ (length ds - k))) e (nl_round_digits ds (int k) e)"
proof -
  define c where "c = ds ! k"
  define cs where "cs = drop (Suc k) ds"
  have dk: "drop k ds = c # cs" unfolding c_def cs_def using assms(2) by (simp add: Cons_nth_drop_Suc)
  have ds: "ds = take k ds @ c # cs" using dk append_take_drop_id [of k ds] by simp
  have lc: "length ds - k = Suc (length cs)" using dk by (metis length_Cons length_drop)
  have dd: "list_all digit (take k ds)" "list_all digit (c # cs)" using assms(1) ds by (metis list_all_append)+
  have "dval ds = dval (take k ds) * 10 ^ Suc (length cs) + dval (c # cs)" by (subst ds) (simp add: dval_append del: dval_simps(3))
  then have q: "rhe (dval ds) (10 ^ (length ds - k)) =
      (if (of_char c :: nat) < 53 \<or> c = CHR ''5'' \<and> \<not> above_half cs \<and> even (dval (take k ds)) then dval (take k ds) else dval (take k ds) + 1)"
    unfolding lc using rhe_digits [OF dd(2)] by simp
  have five: "(of_char c :: nat) = 53 \<longleftrightarrow> c = CHR ''5''"
    using of_char_eq_iff [of c "CHR ''5''", where ?'a = nat] by simp
  show ?thesis
  proof (cases k)
    case 0
    have "ds \<noteq> []" using assms(2) by auto
    then have "nl_round_digits ds (int k) e = (if (of_char c :: nat) > 53 \<or> c = CHR ''5'' \<and> above_half cs then (''1'', e + 1) else ([], e))"
      using 0 by (simp add: nl_round_digits_def c_def cs_def)
    then show ?thesis unfolding q using 0 five by (auto simp: rounds_def digit_def)
  next
    case (Suc j)
    have tk: "take k ds = take j ds @ [ds ! j]" using Suc assms(2) by (simp add: take_Suc_conv_app_nth)
    have ev: "(of_char (ds ! (k - 1)) - 48 :: int) mod 2 = 0 \<longleftrightarrow> even (dval (take k ds))"
      using even_last [OF dd(1) [unfolded tk]] unfolding tk [symmetric] Suc by simp
    have k0: "0 < k" using Suc by simp
    have tn: "take k ds \<noteq> []" "length (take k ds) = k" using assms(2) k0 by auto
    obtain r all9 where b: "bump (rev (take k ds)) = (r, all9)" by (cases "bump (rev (take k ds))")
    have "nl_round_digits ds (int k) e =
        (if (of_char c :: nat) < 53 \<or> c = CHR ''5'' \<and> \<not> above_half cs \<and> even (dval (take k ds)) then (take k ds, e)
         else if all9 then (CHR ''1'' # tl (rev r), e + 1) else (rev r, e))"
      using assms(2) k0 b unfolding nl_round_digits_def Let_def ev [symmetric] by (simp add: c_def cs_def)
    moreover have "rounds k (dval (take k ds) + 1) e (if all9 then (CHR ''1'' # tl (rev r), e + 1) else (rev r, e))"
      using rounds_up [OF dd(1) tn(1) b, of e, unfolded tn(2)] .
    moreover have "rounds k (dval (take k ds)) e (take k ds, e)" using dd(1) dval_less [OF dd(1)] assms(2) by (simp add: rounds_def)
    ultimately show ?thesis unfolding q by (auto split: if_splits)
  qed
qed

section \<open>Fixed notation\<close>

text \<open>The decimal with \<open>p\<close> places whose digits are those of \<open>r\<close>.\<close>

definition fixed_text :: "bool \<Rightarrow> nat \<Rightarrow> nat \<Rightarrow> string" where
  "fixed_text alt p r = num_text 10 (r div 10 ^ p) @ (if p > 0 \<or> alt then CHR ''.'' # digs p (r mod 10 ^ p) else [])"

lemma pad_right: "length ds \<le> m \<Longrightarrow> map (digit_or_zero ds) [0..int m - 1] = ds @ replicate (m - length ds) (CHR ''0'')"
  by (rule nth_equalityI) (auto simp: digit_or_zero_def nth_append)

lemma map_shift: "map (\<lambda>i. f (a + i)) [1..p] = map f [a + 1..a + (p :: int)]"
  by (rule nth_equalityI) (auto simp: algebra_simps)

lemma all_zeros: "b < 0 \<Longrightarrow> map (digit_or_zero ds) [a..b] = replicate (nat (b - a + 1)) (CHR ''0'')"
  by (rule nth_equalityI) (auto simp: digit_or_zero_def)

lemma pad_left:
  assumes "length ds \<le> m" "a \<le> 0"
  shows "map (digit_or_zero ds) [a..int m - 1] = replicate (nat (- a)) (CHR ''0'') @ ds @ replicate (m - length ds) (CHR ''0'')"
proof -
  have "[a..int m - 1] = [a..-1] @ [0..int m - 1]"
    using assms(2) upto_split2 [of a "-1" "int m - 1"] upto_split1 [of a 0 "int m - 1"] by (cases "a = 0") auto
  then show ?thesis using pad_right [OF assms(1)] all_zeros [of "-1" ds a] by simp
qed

lemma dval_padded: "dval (replicate z (CHR ''0'') @ ds @ replicate y (CHR ''0'')) = dval ds * 10 ^ y"
  by (simp add: dval_append dval_zeros)

lemma digits_padded: "list_all digit ds \<Longrightarrow> list_all digit (replicate z (CHR ''0'') @ ds @ replicate y (CHR ''0''))"
  using dig_zero(2) by (induction z; induction y) auto

text \<open>What the last rounding leaves: with \<open>m\<close> places in all, the digits padded to \<open>m\<close> denote \<open>r\<close>.\<close>

definition laid_out :: "nat \<Rightarrow> nat \<Rightarrow> string \<Rightarrow> int \<Rightarrow> bool" where
  "laid_out p r ds e \<longleftrightarrow> list_all digit ds \<and>
    (if e + 1 + int p < 0 then ds = [] \<and> r = 0
     else length ds \<le> nat (e + 1 + int p) \<and> dval ds * 10 ^ (nat (e + 1 + int p) - length ds) = r) \<and>
    (e \<ge> 0 \<longrightarrow> ds \<noteq> [] \<and> (hd ds \<noteq> CHR ''0'' \<or> e = 0))"

lemma layout_text:
  assumes "laid_out p r ds e"
  shows "(if e < 0 then ''0'' else map (digit_or_zero ds) [0..e]) @
    (if int p > 0 \<or> alt then CHR ''.'' # map (\<lambda>i. digit_or_zero ds (e + i)) [1..int p] else []) = fixed_text alt p r"
proof -
  define m where "m = nat (e + 1 + int p)"
  define ip where "ip = (if e < 0 then ''0'' else map (digit_or_zero ds) [0..e])"
  define fp where "fp = map (\<lambda>i. digit_or_zero ds (e + i)) [1..int p]"
  have lf: "length fp = p" by (simp add: fp_def)
  have dd: "list_all digit ds" using assms by (simp add: laid_out_def)
  have "list_all digit (ip @ fp) \<and> dval (ip @ fp) = r \<and> ip \<noteq> [] \<and> (hd ip \<noteq> CHR ''0'' \<or> length ip = 1)"
  proof (cases "e < 0")
    case True
    have fp: "fp = map (digit_or_zero ds) [e + 1..e + int p]" unfolding fp_def by (rule map_shift)
    show ?thesis
    proof (cases "e + 1 + int p \<le> 0")
      case all: True
      then have "fp = replicate p (CHR ''0'')" unfolding fp by (subst all_zeros) simp_all
      moreover have "r = 0" using assms all by (auto simp: laid_out_def split: if_splits)
      ultimately show ?thesis using True dig_zero(2) digits_padded [of "[]" p 0] by (simp add: ip_def dval_zeros dig_zero)
    next
      case False
      then have m: "e + int p = int m - 1" "length ds \<le> m" "dval ds * 10 ^ (m - length ds) = r" using assms by (auto simp: laid_out_def m_def)
      have "fp = replicate (nat (- (e + 1))) (CHR ''0'') @ ds @ replicate (m - length ds) (CHR ''0'')"
        unfolding fp m(1) using True by (intro pad_left m(2)) simp
      then show ?thesis using True m(3) digits_padded [OF dd] dval_padded dig_zero by (simp add: ip_def)
    qed
  next
    case False
    then have m: "e + int p = int m - 1" "length ds \<le> m" "dval ds * 10 ^ (m - length ds) = r" "ds \<noteq> []" "hd ds \<noteq> CHR ''0'' \<or> e = 0"
      using assms by (auto simp: laid_out_def m_def)
    have "ip @ fp = map (digit_or_zero ds) [0..int m - 1]"
      using False upto_split2 [of 0 e "int m - 1"] m(1) unfolding ip_def fp_def map_shift by simp
    then have al: "ip @ fp = replicate 0 (CHR ''0'') @ ds @ replicate (m - length ds) (CHR ''0'')" using pad_right [OF m(2)] by simp
    have ne: "ip \<noteq> []" using False by (simp add: ip_def)
    then have "hd ip = hd ds" using al m(4) by (metis append_Nil hd_append2 replicate_0)
    moreover have "e = 0 \<Longrightarrow> length ip = 1" by (simp add: ip_def)
    ultimately show ?thesis using al ne m(3,5) digits_padded [OF dd] dval_padded [of 0] by metis
  qed
  then have a: "list_all digit ip" "list_all digit fp" "dval (ip @ fp) = r" "ip \<noteq> []" "hd ip \<noteq> CHR ''0'' \<or> length ip = 1" by auto
  note sp = dval_split [OF a(2,3), unfolded lf]
  have "num_text 10 (r div 10 ^ p) = ip" using num_text_dval [OF a(4,1,5)] sp(1) by simp
  moreover have "digs p (r mod 10 ^ p) = fp" using digs_dval [OF a(2)] lf sp(2) by simp
  ultimately show ?thesis unfolding fixed_text_def ip_def [symmetric] fp_def [symmetric] by simp
qed

lemma denotes_scaled:
  assumes "denotes ds e num den" "keep = e + 1 + int p"
  shows "keep \<ge> int (length ds) \<Longrightarrow> num * 10 ^ p = dval ds * 10 ^ (nat keep - length ds) * den"
    "keep < int (length ds) \<Longrightarrow> num * 10 ^ p * 10 ^ nat (int (length ds) - keep) = dval ds * den"
proof -
  define a where "a = nat (e + 1 - int (length ds))"
  define b where "b = nat (int (length ds) - 1 - e)"
  have d: "dval ds * 10 ^ a * den = num * 10 ^ b" using assms(1) by (simp add: denotes_def a_def b_def)
  show "num * 10 ^ p = dval ds * 10 ^ (nat keep - length ds) * den" if "keep \<ge> int (length ds)"
  proof (cases "e + 1 \<ge> int (length ds)")
    case True
    then have "b = 0" "nat keep - length ds = a + p" using assms(2) by (auto simp: a_def b_def)
    then show ?thesis using d by (simp add: power_add algebra_simps)
  next
    case False
    then have "a = 0" "p = b + (nat keep - length ds)" using assms(2) that by (auto simp: a_def b_def)
    then show ?thesis using d by (metis (no_types, lifting) mult.assoc mult.commute mult_1 power_0 power_add)
  qed
  show "num * 10 ^ p * 10 ^ nat (int (length ds) - keep) = dval ds * den" if "keep < int (length ds)"
  proof -
    have "a = 0" "b = p + nat (int (length ds) - keep)" using assms(2) that by (auto simp: a_def b_def)
    then show ?thesis using d by (simp add: power_add mult.assoc)
  qed
qed

text \<open>Digits as the exact expansion gives them.\<close>

definition expansion :: "string \<Rightarrow> int \<Rightarrow> nat \<Rightarrow> nat \<Rightarrow> bool" where
  "expansion ds e num den \<longleftrightarrow> list_all digit ds \<and> ds \<noteq> [] \<and> denotes ds e num den \<and> 0 < den \<and>
    (hd ds \<noteq> CHR ''0'' \<or> ds = ''0'' \<and> e = 0 \<and> num = 0)"

lemma dval_hd_zero:
  assumes "list_all digit ds" "ds \<noteq> []" "10 ^ (length ds - 1) \<le> dval ds"
  shows "hd ds \<noteq> CHR ''0''"
proof
  assume "hd ds = CHR ''0''"
  then obtain cs where "ds = CHR ''0'' # cs" using assms(2) by (cases ds) auto
  then show False using assms(1,3) dval_less [of cs] dig_zero(1) by simp
qed

lemma rounds_lead:
  assumes "rounds k (rhe x (10 ^ n)) e (ds, e')" "0 < k" "10 ^ (k - 1) * 10 ^ n \<le> x"
  shows "ds \<noteq> [] \<and> hd ds \<noteq> CHR ''0''"
proof -
  have "10 ^ (k - 1) * 10 ^ n div 10 ^ n \<le> x div 10 ^ n" using assms(3) by (rule div_le_mono)
  then have "10 ^ (k - 1) \<le> rhe x (10 ^ n)" by (simp add: rhe_def Let_def)
  then show ?thesis using assms(1,2) dval_hd_zero [of ds] by (auto simp: rounds_def)
qed

lemma round_layout:
  assumes "expansion ds e num den" "nl_round_digits ds (e + 1 + int p) e = (ds', e')"
  shows "laid_out p (rhe (num * 10 ^ p) den) ds' e'"
proof -
  define keep where "keep = e + 1 + int p"
  note x = assms(1) [unfolded expansion_def]
  have dn: "denotes ds e num den" "0 < den" using x by simp_all
  note sc = denotes_scaled [OF dn(1) keep_def]
  consider "keep \<ge> int (length ds)" | "0 \<le> keep" "keep < int (length ds)" | "keep < 0" by linarith
  then show ?thesis
  proof cases
    case 1
    then have r: "ds' = ds" "e' = e" using assms(2) by (simp_all add: nl_round_digits_def keep_def)
    have "rhe (num * 10 ^ p) den = dval ds * 10 ^ (nat keep - length ds)" unfolding sc(1) [OF 1] by (rule rhe_exact [OF dn(2)])
    moreover have "keep \<ge> 0" using 1 by simp
    ultimately show ?thesis using x r 1 unfolding laid_out_def keep_def by (auto simp: nat_le_iff)
  next
    case 2
    define k where "k = nat keep"
    have k: "keep = int k" "k < length ds" using 2 by (simp_all add: k_def)
    have "nat (int (length ds) - keep) = length ds - k" using 2 by (simp add: k_def)
    then have q: "rhe (num * 10 ^ p) den = rhe (dval ds) (10 ^ (length ds - k))"
      using sc(2) [OF 2(2)] dn(2) by (intro rhe_ratio) simp_all
    have rd: "rounds k (rhe (dval ds) (10 ^ (length ds - k))) e (ds', e')"
      using round_ok [OF _ k(2), of e] x assms(2) k(1) by (simp add: keep_def)
    have lead: "0 < k \<Longrightarrow> hd ds \<noteq> CHR ''0'' \<Longrightarrow> ds' \<noteq> [] \<and> hd ds' \<noteq> CHR ''0''"
    proof -
      assume h: "0 < k" "hd ds \<noteq> CHR ''0''"
      obtain c cs where c: "ds = c # cs" using x by (cases ds) auto
      have "(10 :: nat) ^ (k - 1) * 10 ^ (length ds - k) = 10 ^ (length ds - 1)" unfolding power_add [symmetric] using h(1) k(2) by simp
      then show ?thesis using rounds_lead [OF rd h(1)] dval_lead [of c cs] x h(2) unfolding c by simp
    qed
    have hz: "hd ds \<noteq> CHR ''0''" if "0 < k" using x k(2) that by auto
    show ?thesis
    proof (cases "e' = e")
      case True
      then have "rhe (dval ds) (10 ^ (length ds - k)) = dval ds'" "length ds' = k" "list_all digit ds'" using rd by (auto simp: rounds_def)
      moreover have "e' \<ge> 0 \<Longrightarrow> 0 < k" "e' + 1 + int p = int k" using True k(1) by (simp_all add: keep_def)
      ultimately show ?thesis using q lead hz unfolding laid_out_def by auto
    next
      case False
      then have r: "rhe (dval ds) (10 ^ (length ds - k)) = 10 ^ k" "ds' = CHR ''1'' # replicate (k - 1) (CHR ''0'')" "e' = e + 1" "list_all digit ds'"
        using rd by (auto simp: rounds_def)
      have dv: "dval ds' = 10 ^ (k - 1)" "length ds' \<le> Suc k" "ds' \<noteq> [] \<and> hd ds' \<noteq> CHR ''0''" unfolding r(2) by (simp_all add: dval_zeros dig_def)
      have pw: "(10 :: nat) ^ (k - 1) * 10 ^ (Suc k - length ds') = 10 ^ k" unfolding r(2) by (cases k) simp_all
      have m: "\<not> e' + 1 + int p < 0" "nat (e' + 1 + int p) = Suc k" using r(3) k(1) by (simp_all add: keep_def)
      show ?thesis using dv(2,3) r(4) pw m(1) unfolding laid_out_def m(2) q r(1) dv(1) by simp
    qed
  next
    case 3
    have "0 < length ds" using x by simp
    then have r: "ds' = []" "e' = e" using 3 assms(2) by (simp_all add: nl_round_digits_def keep_def)
    define j where "j = nat (- keep) - 1"
    have j: "nat (int (length ds) - keep) = length ds + Suc j" using 3 by (simp add: j_def)
    have "num * 10 ^ p * 10 ^ (length ds + Suc j) = dval ds * den" using sc(2) 3 j by simp
    also have "\<dots> < 10 ^ length ds * den" using dval_less [of ds] x by simp
    finally have "10 ^ length ds * (num * 10 ^ p * 10 ^ Suc j) < 10 ^ length ds * den" by (simp only: power_add ac_simps)
    then have "num * 10 ^ p * 10 ^ Suc j < den" by simp
    moreover have "2 * (num * 10 ^ p) \<le> num * 10 ^ p * 10 ^ Suc j" by simp
    ultimately have "rhe (num * 10 ^ p) den = 0" by (intro rhe_small) linarith
    moreover have "e < 0" using 3 by (simp add: keep_def)
    ultimately show ?thesis using r 3 unfolding laid_out_def keep_def by simp
  qed
qed

lemma style_f_ok:
  assumes "expansion ds e num den"
  shows "style_f ds e (int p) alt = fixed_text alt p (rhe (num * 10 ^ p) den)"
proof -
  obtain ds' e' where r: "nl_round_digits ds (e + 1 + int p) e = (ds', e')" by (cases "nl_round_digits ds (e + 1 + int p) e")
  show ?thesis unfolding style_f_def r Let_def prod.case using layout_text [OF round_layout [OF assms r]] .
qed

section \<open>Scientific notation\<close>

lemma round_exponent: "nl_round_digits ds keep e = (ds', e') \<Longrightarrow> e' = e \<or> e' = e + 1"
  by (auto simp: nl_round_digits_def Let_def split: if_splits prod.splits)

definition exp_text :: "int \<Rightarrow> string" where
  "exp_text E = CHR ''e'' # (if E < 0 then CHR ''-'' else CHR ''+'') #
    (let a = nat \<bar>E\<bar> in if a < 10 then CHR ''0'' # num_text 10 a else num_text 10 a)"

definition sci_text :: "bool \<Rightarrow> nat \<Rightarrow> nat \<Rightarrow> int \<Rightarrow> string" where
  "sci_text alt p r E = (let s = digs (Suc p) r in hd s # (if p > 0 \<or> alt then CHR ''.'' # tl s else []) @ exp_text E)"

text \<open>The power of ten below a positive fraction.\<close>

definition decade :: "nat \<Rightarrow> nat \<Rightarrow> int \<Rightarrow> bool" where
  "decade num den E \<longleftrightarrow> den * 10 ^ nat E \<le> num * 10 ^ nat (- E) \<and> num * 10 ^ nat (- (E + 1)) < den * 10 ^ nat (E + 1)"

text \<open>The fraction rounded to \<open>p\<close> places after the first digit: the digits as a number, and the exponent, one higher when
  the rounding carries into a new place.\<close>

definition sci :: "nat \<Rightarrow> nat \<Rightarrow> nat \<Rightarrow> nat \<Rightarrow> int \<Rightarrow> bool" where
  "sci p num den r E \<longleftrightarrow>
    (if num = 0 then r = 0 \<and> E = 0
     else \<exists>E0. decade num den E0 \<and>
       (let q = rhe (num * 10 ^ nat (int p - E0)) (den * 10 ^ nat (E0 - int p))
        in if q < 10 ^ Suc p then r = q \<and> E = E0 else r = 10 ^ p \<and> E = E0 + 1))"

lemma denotes_shift:
  assumes "denotes ds e num den" "int x - int y = int (length ds) - 1 - e"
  shows "num * 10 ^ x = dval ds * den * 10 ^ y"
proof -
  define a where "a = nat (e + 1 - int (length ds))"
  define b where "b = nat (int (length ds) - 1 - e)"
  have d: "dval ds * 10 ^ a * den = num * 10 ^ b" using assms(1) by (simp add: denotes_def a_def b_def)
  have xy: "x + a = y + b" using assms(2) by (auto simp: a_def b_def)
  have "num * 10 ^ x * 10 ^ a = num * 10 ^ b * 10 ^ y" using xy by (simp add: mult.assoc add.commute flip: power_add)
  also have "\<dots> = dval ds * den * 10 ^ y * 10 ^ a" unfolding d [symmetric] by (simp only: ac_simps)
  finally show ?thesis by simp
qed

lemma expansion_decade:
  assumes "expansion ds e num den" "hd ds \<noteq> CHR ''0''"
  shows "decade num den e" "0 < num"
proof -
  obtain c cs where c: "ds = c # cs" using assms(1) by (cases ds) (auto simp: expansion_def)
  have dd: "list_all digit (c # cs)" "denotes ds e num den" "0 < den" using assms(1) c by (simp_all add: expansion_def)
  define l where "l = length cs"
  have lo: "10 ^ l \<le> dval ds" and hi: "dval ds < 10 ^ Suc l" using dval_lead [OF dd(1)] dval_less [OF dd(1)] assms(2) unfolding c l_def by simp_all
  have len: "int (length ds) - 1 = int l" by (simp add: c l_def)
  define x where "x = nat (- e) + l"
  have "num * 10 ^ x = dval ds * den * 10 ^ nat e" by (rule denotes_shift [OF dd(2)]) (simp add: len x_def)
  then have "10 ^ l * (num * 10 ^ nat (- e)) = dval ds * den * 10 ^ nat e" unfolding x_def power_add by (simp only: ac_simps)
  moreover have "10 ^ l * (den * 10 ^ nat e) \<le> dval ds * (den * 10 ^ nat e)" using lo by (rule mult_right_mono) simp
  ultimately have "10 ^ l * (den * 10 ^ nat e) \<le> 10 ^ l * (num * 10 ^ nat (- e))" by (simp only: mult.assoc)
  then have 1: "den * 10 ^ nat e \<le> num * 10 ^ nat (- e)" by simp
  define y where "y = nat (- (e + 1)) + Suc l"
  have "num * 10 ^ y = dval ds * den * 10 ^ nat (e + 1)" by (rule denotes_shift [OF dd(2)]) (simp add: len y_def)
  then have "10 ^ Suc l * (num * 10 ^ nat (- (e + 1))) = dval ds * (den * 10 ^ nat (e + 1))" unfolding y_def power_add by (simp only: ac_simps)
  moreover have "dval ds * (den * 10 ^ nat (e + 1)) < 10 ^ Suc l * (den * 10 ^ nat (e + 1))" using hi dd(3) by (intro mult_strict_right_mono) simp_all
  ultimately have "10 ^ Suc l * (num * 10 ^ nat (- (e + 1))) < 10 ^ Suc l * (den * 10 ^ nat (e + 1))" by simp
  then show "decade num den e" using 1 unfolding decade_def by (simp only: mult_less_cancel1)
  show "0 < num" using 1 dd(3) by (metis gr_zeroI mult_is_0 not_less power_not_zero zero_neq_numeral le_zero_eq)
qed

lemma expansion_round:
  assumes "expansion ds e num den" "nl_round_digits ds (int (Suc p)) e = (ds', e')"
  shows "\<exists>r. sci p num den r e' \<and> list_all digit ds' \<and> ds' \<noteq> [] \<and> length ds' \<le> Suc p \<and> dval ds' * 10 ^ (Suc p - length ds') = r \<and>
    (hd ds' \<noteq> CHR ''0'' \<or> ds' = ''0'' \<and> e' = 0 \<and> num = 0)"
proof (cases "hd ds = CHR ''0''")
  case True
  then have "ds = ''0''" "e = 0" "num = 0" using assms(1) by (auto simp: expansion_def)
  then show ?thesis using assms(2) dig_zero by (auto simp: nl_round_digits_def sci_def)
next
  case False
  have x: "list_all digit ds" "ds \<noteq> []" "denotes ds e num den" "0 < den" using assms(1) by (simp_all add: expansion_def)
  note dec = expansion_decade [OF assms(1) False]
  define s where "s = nat (int p - e)"
  define t where "t = nat (e - int p)"
  have st: "int s - int t = int p - e" by (simp add: s_def t_def)
  have sciI: "sci p num den r E" if "if rhe (num * 10 ^ s) (den * 10 ^ t) < 10 ^ Suc p then r = rhe (num * 10 ^ s) (den * 10 ^ t) \<and> E = e else r = 10 ^ p \<and> E = e + 1" for r E
    using that dec unfolding sci_def s_def t_def Let_def by auto
  show ?thesis
  proof (cases "length ds \<le> Suc p")
    case True
    define j where "j = Suc p - length ds"
    have r: "ds' = ds" "e' = e" using assms(2) True by (simp_all add: nl_round_digits_def)
    have "num * 10 ^ s = dval ds * den * 10 ^ (j + t)" by (rule denotes_shift [OF x(3)]) (use st True in \<open>simp add: j_def\<close>)
    then have n: "num * 10 ^ s = dval ds * 10 ^ j * (den * 10 ^ t)" unfolding power_add by (simp only: ac_simps)
    have q: "rhe (num * 10 ^ s) (den * 10 ^ t) = dval ds * 10 ^ j" unfolding n by (rule rhe_exact) (simp add: x(4))
    have "dval ds * 10 ^ j < 10 ^ length ds * 10 ^ j" using dval_less [OF x(1)] by simp
    also have "(10 :: nat) ^ length ds * 10 ^ j = 10 ^ Suc p" unfolding power_add [symmetric] j_def using True by simp
    finally have "sci p num den (dval ds * 10 ^ j) e" by (intro sciI) (simp add: q)
    then show ?thesis using r x False True by (auto simp: j_def)
  next
    case more: False
    then have k: "Suc p < length ds" by simp
    define j where "j = length ds - Suc p"
    have "num * 10 ^ (s + j) = dval ds * den * 10 ^ t" by (rule denotes_shift [OF x(3)]) (use st k in \<open>simp add: j_def\<close>)
    then have "num * 10 ^ s * 10 ^ j = dval ds * (den * 10 ^ t)" unfolding power_add by (simp only: ac_simps)
    then have q: "rhe (num * 10 ^ s) (den * 10 ^ t) = rhe (dval ds) (10 ^ j)" by (intro rhe_ratio) (simp_all add: x(4))
    have rd: "rounds (Suc p) (rhe (dval ds) (10 ^ j)) e (ds', e')" using round_ok [OF x(1) k, of e] assms(2) by (simp add: j_def)
    obtain c cs where c: "ds = c # cs" using x(2) by (cases ds) auto
    have "(10 :: nat) ^ (Suc p - 1) * 10 ^ j = 10 ^ length cs" unfolding power_add [symmetric] j_def using k by (simp add: c)
    then have lead: "ds' \<noteq> [] \<and> hd ds' \<noteq> CHR ''0''" using rounds_lead [OF rd] dval_lead [of c cs] x(1) False unfolding c by simp
    consider (same) "rhe (dval ds) (10 ^ j) < 10 ^ Suc p" "length ds' = Suc p" "dval ds' = rhe (dval ds) (10 ^ j)" "e' = e" "list_all digit ds'"
      | (carry) "rhe (dval ds) (10 ^ j) = 10 ^ Suc p" "ds' = CHR ''1'' # replicate p (CHR ''0'')" "e' = e + 1" "list_all digit ds'"
      using rd unfolding rounds_def by auto
    then show ?thesis
    proof cases
      case same
      then show ?thesis using lead sciI [of "dval ds'" e'] q by auto
    next
      case carry
      have "dval ds' = 10 ^ p" "length ds' = Suc p" unfolding carry(2) by (simp_all add: dval_zeros dig_def)
      then show ?thesis using lead sciI [of "10 ^ p" e'] q carry(1,3,4) by auto
    qed
  qed
qed

lemma exp_digits:
  assumes "a < 1000"
  shows "(if a \<ge> 100 then [char_of (48 + a div 100)] else []) @ [char_of (48 + a div 10 mod 10), char_of (48 + a mod 10)] =
    (if a < 10 then CHR ''0'' # num_text 10 a else num_text 10 a)"
proof -
  have "(of_char (CHR ''0'') :: nat) = 48" by simp
  then have z: "char_of (48 :: nat) = CHR ''0''" by (metis char_of_char)
  have d: "d < 10 \<Longrightarrow> digit_char d = char_of (48 + d)" for d by (simp add: digit_char_def)
  consider "a < 10" | "10 \<le> a" "a < 100" | "100 \<le> a" by linarith
  then show ?thesis
  proof cases
    case 1
    then show ?thesis using z d by (simp add: num_text.simps [of 10 a])
  next
    case 2
    then have "a div 10 < 10" by auto
    then show ?thesis using 2 d by (simp add: num_text.simps [of 10 a] num_text.simps [of 10 "a div 10"])
  next
    case 3
    have h: "a div 10 div 10 = a div 100" by (simp add: div_mult2_eq [symmetric])
    have "\<not> a div 10 < 10" "a div 100 < 10" using 3 assms by auto
    then have "num_text 10 a = [digit_char (a div 100), digit_char (a div 10 mod 10), digit_char (a mod 10)]"
      using 3 h num_text.simps [of 10 a] num_text.simps [of 10 "a div 10"] num_text.simps [of 10 "a div 100"] by simp
    then show ?thesis using 3 d \<open>a div 100 < 10\<close> by simp
  qed
qed

lemma sci_layout:
  assumes "list_all digit ds" "ds \<noteq> []" "length ds \<le> Suc p" "nat \<bar>ex\<bar> < 1000"
  shows "(let a = nat \<bar>ex\<bar> in [if ds \<noteq> [] then ds ! 0 else CHR ''0''] @
     (if int p > 0 \<or> alt then CHR ''.'' # map (digit_or_zero ds) [1..int p] else []) @
     [CHR ''e'', if ex < 0 then CHR ''-'' else CHR ''+''] @
     (if a \<ge> 100 then [char_of (48 + a div 100)] else []) @
     [char_of (48 + a div 10 mod 10), char_of (48 + a mod 10)]) = sci_text alt p (dval ds * 10 ^ (Suc p - length ds)) ex"
proof -
  define t where "t = ds @ replicate (Suc p - length ds) (CHR ''0'')"
  have m: "map (digit_or_zero ds) [0..int (Suc p) - 1] = t" unfolding t_def by (rule pad_right [OF assms(3)])
  have "[0..int (Suc p) - 1] = 0 # [1..int p]" by (simp add: upto_rec1)
  then have t: "t = ds ! 0 # map (digit_or_zero ds) [1..int p]" using m assms(2) by (simp add: digit_or_zero_def)
  have td: "list_all digit t" "dval t = dval ds * 10 ^ (Suc p - length ds)" "length t = Suc p"
    using digits_padded [OF assms(1), of 0] dval_padded [of 0 ds] assms(3) by (simp_all add: t_def)
  then have "digs (Suc p) (dval ds * 10 ^ (Suc p - length ds)) = t" using digs_dval [OF td(1)] by simp
  then have "sci_text alt p (dval ds * 10 ^ (Suc p - length ds)) ex = hd t # (if p > 0 \<or> alt then CHR ''.'' # tl t else []) @ exp_text ex"
    by (simp only: sci_text_def Let_def)
  then show ?thesis using assms(2) unfolding Let_def exp_text_def exp_digits [OF assms(4), symmetric] t by simp
qed

lemma style_e_ok:
  assumes "expansion ds e num den" "-900 < e" "e < 900"
  shows "\<exists>r E. sci p num den r E \<and> style_e ds e (int p) alt = sci_text alt p r E"
proof -
  obtain ds' e' where r: "nl_round_digits ds (int p + 1) e = (ds', e')" by (cases "nl_round_digits ds (int p + 1) e")
  have r': "nl_round_digits ds (int (Suc p)) e = (ds', e')" using r by (simp add: add.commute)
  obtain q where q: "sci p num den q e'" "list_all digit ds'" "ds' \<noteq> []" "length ds' \<le> Suc p" "dval ds' * 10 ^ (Suc p - length ds') = q"
    using expansion_round [OF assms(1) r'] by blast
  have "nat \<bar>e'\<bar> < 1000" using round_exponent [OF r'] assms(2,3) by auto
  then have "style_e ds e (int p) alt = sci_text alt p q e'"
    using sci_layout [OF q(2-4), of e' alt] unfolding q(5) style_e_def r prod.case by simp
  then show ?thesis using q(1) by blast
qed

section \<open>General notation\<close>

text \<open>The \<open>P\<close> digits of \<open>r\<close> without the zeros at their end, in the style that the exponent asks for.\<close>

definition general_text :: "nat \<Rightarrow> nat \<Rightarrow> int \<Rightarrow> string" where
  "general_text P r E =
    (let n = length (strip_zeros (digs P r)); r' = r div 10 ^ (P - n) in
     if E < -4 \<or> E \<ge> int P then sci_text False (n - 1) r' E
     else if int n - 1 \<ge> E then fixed_text False (nat (int n - 1 - E)) r'
     else fixed_text False 0 (r' * 10 ^ nat (E + 1 - int n)))"

lemma strip_zeros_append: "ds \<noteq> [] \<Longrightarrow> strip_zeros (ds @ replicate z (CHR ''0'')) = strip_zeros ds"
proof -
  have "dropWhile (\<lambda>c. c = CHR ''0'') (replicate z (CHR ''0'') @ rev ds) = dropWhile (\<lambda>c. c = CHR ''0'') (rev ds)"
    by (induction z) simp_all
  then show "ds \<noteq> [] \<Longrightarrow> ?thesis" unfolding strip_zeros_def Let_def rev_append rev_replicate by (cases ds) simp_all
qed

lemma style_f_plain:
  assumes "list_all digit ds" "ds \<noteq> []" "hd ds \<noteq> CHR ''0'' \<or> ds = ''0'' \<and> ex = 0"
  shows "style_f ds ex (if int (length ds) - 1 - ex < 0 then 0 else int (length ds) - 1 - ex) False =
    (if int (length ds) - 1 \<ge> ex then fixed_text False (nat (int (length ds) - 1 - ex)) (dval ds)
     else fixed_text False 0 (dval ds * 10 ^ nat (ex + 1 - int (length ds))))"
proof -
  define a where "a = nat (ex + 1 - int (length ds))"
  define b where "b = nat (int (length ds) - 1 - ex)"
  have "denotes ds ex (dval ds * 10 ^ a) (10 ^ b)" by (simp add: denotes_def a_def b_def)
  then have x: "expansion ds ex (dval ds * 10 ^ a) (10 ^ b)" using assms dig_zero by (auto simp: expansion_def)
  have p: "(if int (length ds) - 1 - ex < 0 then 0 else int (length ds) - 1 - ex) = int b" by (simp add: b_def)
  have "rhe (dval ds * 10 ^ a * 10 ^ b) (10 ^ b) = dval ds * 10 ^ a" by (rule rhe_exact) simp
  then have f: "style_f ds ex (int b) False = fixed_text False b (dval ds * 10 ^ a)" using style_f_ok [OF x] by simp
  show ?thesis
  proof (cases "int (length ds) - 1 \<ge> ex")
    case True
    then have "a = 0" by (simp add: a_def)
    then show ?thesis using f True unfolding p by (simp add: b_def)
  next
    case False
    then have "b = 0" by (simp add: b_def)
    then show ?thesis using f False unfolding p by (simp add: a_def)
  qed
qed

lemma style_g_ok:
  assumes "expansion ds0 e num den" "-900 < e" "e < 900"
    "nl_round_digits ds0 (int (Suc p)) e = (ds1, ex)" "ds = strip_zeros ds1" "n = int (length ds)"
  shows "\<exists>r. sci p num den r ex \<and>
    (if ex < -4 \<or> ex \<ge> int (Suc p) then style_e ds ex (n - 1) False else style_f ds ex (if n - 1 - ex < 0 then 0 else n - 1 - ex) False) =
      general_text (Suc p) r ex"
proof -
  obtain q where q: "sci p num den q ex" "list_all digit ds1" "ds1 \<noteq> []" "length ds1 \<le> Suc p" "dval ds1 * 10 ^ (Suc p - length ds1) = q"
      "hd ds1 \<noteq> CHR ''0'' \<or> ds1 = ''0'' \<and> ex = 0"
    using expansion_round [OF assms(1,4)] by blast
  define t where "t = ds1 @ replicate (Suc p - length ds1) (CHR ''0'')"
  have td: "list_all digit t" "dval t = q" "length t = Suc p"
    using digits_padded [OF q(2), of 0] dval_padded [of 0 ds1] q(4,5) by (simp_all add: t_def)
  have dt: "digs (Suc p) q = t" using digs_dval [OF td(1)] td(2,3) by simp
  have st: "strip_zeros t = ds" unfolding t_def assms(5) by (rule strip_zeros_append [OF q(3)])
  obtain z where z: "ds1 = ds @ replicate z (CHR ''0'')" using strip_zeros_split(1) [OF q(3)] assms(5) by auto
  have dn: "ds \<noteq> []" using strip_zeros_split(2) [OF q(3)] assms(5) by simp
  have dd: "list_all digit ds" using q(2) z by simp
  have dh: "hd ds \<noteq> CHR ''0'' \<or> ds = ''0'' \<and> ex = 0" using q(6) z dn by (cases ds) auto
  have lz: "t = ds @ replicate (Suc p - length ds) (CHR ''0'')" unfolding t_def z using q(4) z by (simp flip: replicate_add)
  have "q = dval ds * 10 ^ (Suc p - length ds)" unfolding td(2) [symmetric] lz by (simp add: dval_append dval_zeros)
  then have rq: "q div 10 ^ (Suc p - length ds) = dval ds" by simp
  have ld: "length ds \<le> Suc p" using td(3) lz by simp
  have l1: "length ds = Suc (length ds - 1)" using dn by (cases ds) auto
  have "nat \<bar>ex\<bar> < 1000" using round_exponent [OF assms(4)] assms(2,3) by auto
  then have "style_e ds ex (int (length ds - 1)) False = sci_text False (length ds - 1) (dval ds) ex"
    using sci_layout [OF dd dn, of "length ds - 1" ex False] l1 unfolding style_e_def by (simp add: nl_round_digits_def)
  moreover have "int (length ds - 1) = n - 1" using l1 assms(6) by linarith
  moreover have "general_text (Suc p) q ex =
      (if ex < -4 \<or> ex \<ge> int (Suc p) then sci_text False (length ds - 1) (dval ds) ex
       else if n - 1 \<ge> ex then fixed_text False (nat (n - 1 - ex)) (dval ds) else fixed_text False 0 (dval ds * 10 ^ nat (ex + 1 - n)))"
    unfolding general_text_def Let_def dt st rq assms(6) by (rule refl)
  ultimately show ?thesis using q(1) style_f_plain [OF dd dn dh, folded assms(6)] by (intro exI [of _ q]) simp
qed

section \<open>Doubles\<close>

lemma tens_bound:
  assumes "(10 :: nat) ^ x < 10 ^ (4 * l)"
  shows "x < 4 * l"
  using assms by (rule power_less_imp_less_exp [rotated]) simp

lemma decade_bound:
  assumes "decade num den e" "0 < num" "0 < den" "num < 2 ^ (13 * l)" "den < 2 ^ (13 * l)"
  shows "-1 - int (4 * l) < e" "e < int (4 * l)"
proof -
  have b: "num < 10 ^ (4 * l)" "den < 10 ^ (4 * l)" using assms(4,5) twos_le [of l] by (meson less_le_trans)+
  show "e < int (4 * l)"
  proof (cases "e \<le> 0")
    case False
    then have "den * 10 ^ nat e \<le> num" using assms(1) by (simp add: decade_def)
    moreover have "1 * 10 ^ nat e \<le> den * 10 ^ nat e" using assms(3) by (intro mult_right_mono) simp_all
    ultimately have "10 ^ nat e < (10 :: nat) ^ (4 * l)" using b(1) by (metis le_less_trans le_trans mult_1)
    from tens_bound [OF this] show ?thesis using False by linarith
  next
    case True
    have "l \<noteq> 0" using assms(2,4) by (cases l) auto
    then show ?thesis using True by simp
  qed
  show "-1 - int (4 * l) < e"
  proof (cases "e \<ge> 0")
    case False
    then have "num * 10 ^ nat (- (e + 1)) < den" using assms(1) by (simp add: decade_def)
    moreover have "1 * 10 ^ nat (- (e + 1)) \<le> num * 10 ^ nat (- (e + 1))" using assms(2) by (intro mult_right_mono) simp_all
    ultimately have "10 ^ nat (- (e + 1)) < (10 :: nat) ^ (4 * l)" using b(2) by (metis le_less_trans less_trans mult_1)
    from tens_bound [OF this] show ?thesis using False by linarith
  qed simp
qed

lemma double_parts:
  assumes "exponent_bits bits \<noteq> 0x7FF"
  shows "0 < double_den bits" "double_num bits < 2 ^ (13 * 83)" "double_den bits < 2 ^ (13 * 83)"
proof -
  have "unat (exponent_bits bits) \<noteq> 2047" using assms by (simp add: word_unat_eq_iff)
  moreover have "exponent_bits bits \<noteq> 0 \<Longrightarrow> 1 \<le> unat (exponent_bits bits)" by (metis less_one not_less unat_eq_zero)
  ultimately have e: "-1074 \<le> double_exp bits" "double_exp bits \<le> 971"
    using double_bounds(1) [of bits] unfolding double_exp_def by (auto simp del: of_nat_unat)
  have sm: "double_sig bits < 2 ^ 53" using double_bounds(2) [of bits] by (auto simp: double_sig_def)
  show "0 < double_den bits" by (simp add: double_den_def)
  have "double_num bits < 2 ^ 53 * 2 ^ nat (double_exp bits)" unfolding double_num_def using sm by simp
  also have "(2 :: nat) ^ 53 * 2 ^ nat (double_exp bits) \<le> 2 ^ (13 * 83)" unfolding power_add [symmetric] by (rule power_increasing) (use e in simp_all)
  finally show "double_num bits < 2 ^ (13 * 83)" .
  show "double_den bits < 2 ^ (13 * 83)" unfolding double_den_def by (rule power_strict_increasing) (use e in simp_all)
qed

lemma double_expansion:
  assumes "exponent_bits bits \<noteq> 0x7FF"
  shows "\<exists>ds e. nl_exact_digits bits = Some (ds, e) \<and> expansion ds e (double_num bits) (double_den bits) \<and> -900 < e \<and> e < 900"
proof -
  note dp = double_parts [OF assms]
  obtain ds e where d: "nl_exact_digits bits = Some (ds, e)" "list_all digit ds" "ds \<noteq> []" "denotes ds e (double_num bits) (double_den bits)"
    "hd ds \<noteq> CHR ''0'' \<or> ds = ''0'' \<and> e = 0 \<and> double_num bits = 0" using exact_digits_ok [OF assms] by blast
  then have x: "expansion ds e (double_num bits) (double_den bits)" using dp(1) by (simp add: expansion_def)
  have "-900 < e \<and> e < 900"
  proof (cases "hd ds = CHR ''0''")
    case True
    then show ?thesis using d(5) by auto
  next
    case False
    note dc = expansion_decade [OF x False]
    show ?thesis using decade_bound [OF dc dp] by simp
  qed
  then show ?thesis using d(1) x by blast
qed

lemma format_fixed:
  assumes "exponent_bits bits \<noteq> 0x7FF"
  shows "nl_format_double bits (CHR ''f'') (int p) alt =
    (if bit bits 63 then ''-'' else []) @ fixed_text alt p (rhe (double_num bits * 10 ^ p) (double_den bits))"
proof -
  obtain ds e where d: "nl_exact_digits bits = Some (ds, e)" "expansion ds e (double_num bits) (double_den bits)"
    using double_expansion [OF assms] by blast
  then show ?thesis using style_f_ok [OF d(2)] assms by (simp add: nl_format_double_def)
qed

lemma num_text_length: "n < 10 ^ Suc l \<Longrightarrow> length (num_text 10 n) \<le> Suc l"
proof (induction l arbitrary: n)
  case (Suc l)
  then show ?case using Suc.IH [of "n div 10"] by (subst num_text.simps) auto
qed (simp add: num_text.simps)

lemma fixed_length:
  assumes "exponent_bits bits \<noteq> 0x7FF"
  shows "length (fixed_text alt p (rhe (double_num bits * 10 ^ p) (double_den bits))) \<le> 334 + p"
proof -
  define r where "r = rhe (double_num bits * 10 ^ p) (double_den bits)"
  note dp = double_parts [OF assms]
  have "r \<le> double_num bits * 10 ^ p + 1" unfolding r_def by (rule rhe_le)
  then have "r div 10 ^ p \<le> (double_num bits * 10 ^ p + 1) div 10 ^ p" by (rule div_le_mono)
  also have "\<dots> = double_num bits + 1 div 10 ^ p" by (rule div_mult_self3) simp
  also have "\<dots> \<le> double_num bits + 1" by (rule add_left_mono [OF div_le_dividend])
  finally have "r div 10 ^ p \<le> double_num bits + 1" .
  moreover have "double_num bits + 1 \<le> 2 ^ (13 * 83)" using dp(2) by (simp only: Suc_eq_plus1 [symmetric] Suc_le_eq)
  ultimately have "r div 10 ^ p \<le> 10 ^ (4 * 83)" using twos_le [of 83] by (meson le_trans)
  also have "(10 :: nat) ^ (4 * 83) < 10 ^ Suc 332" by (rule power_strict_increasing) simp_all
  finally have "length (num_text 10 (r div 10 ^ p)) \<le> Suc 332" by (rule num_text_length)
  moreover have "length (digs p x) = p" for x by (induction p arbitrary: x) simp_all
  ultimately show ?thesis unfolding fixed_text_def r_def [symmetric] by auto
qed

text \<open>C33. Formatted output of doubles is correctly rounded. For every bit pattern that is a finite number the text is its sign
  followed, for \<open>%f\<close> with \<open>p\<close> places, by the decimal nearest to the exact value of the double, a tie going to the even
  digit; for \<open>%e\<close> by one digit, \<open>p\<close> further digits of the value rounded the same way, and the exponent
  of its power of ten in at least two digits; for \<open>%g\<close> by the digits rounded to the precision without trailing zeros, in the first style when the exponent is from -4
  to below the precision and in the second otherwise. Infinities and what is not a number have their names. The
  arrays suffice for every double: no conversion is refused. The flag \<open>#\<close> of \<open>%g\<close> does not keep the zeros it stands for: 0 prints as its digit and a point.\<close>

theorem double_text:
  "(if exponent_bits bits = 0x7FF
    then nl_format_double bits conv (int p) alt = (if mantissa_bits bits \<noteq> 0 then ''nan'' else if bit bits 63 then ''-inf'' else ''inf'')
    else nl_format_double bits (CHR ''f'') (int p) alt =
        (if bit bits 63 then ''-'' else []) @ fixed_text alt p (rhe (double_num bits * 10 ^ p) (double_den bits)) \<and>
      (\<exists>r E. sci p (double_num bits) (double_den bits) r E \<and>
        nl_format_double bits (CHR ''e'') (int p) alt = (if bit bits 63 then ''-'' else []) @ sci_text alt p r E) \<and>
      (\<exists>r E. sci (max 1 p - 1) (double_num bits) (double_den bits) r E \<and>
        nl_format_double bits (CHR ''g'') (int p) False = (if bit bits 63 then ''-'' else []) @ general_text (max 1 p) r E)) \<and>
   nl_format_double 0 (CHR ''g'') 6 True = ''0.''"
proof (intro conjI)
  show "if exponent_bits bits = 0x7FF
    then nl_format_double bits conv (int p) alt = (if mantissa_bits bits \<noteq> 0 then ''nan'' else if bit bits 63 then ''-inf'' else ''inf'')
    else nl_format_double bits (CHR ''f'') (int p) alt =
        (if bit bits 63 then ''-'' else []) @ fixed_text alt p (rhe (double_num bits * 10 ^ p) (double_den bits)) \<and>
      (\<exists>r E. sci p (double_num bits) (double_den bits) r E \<and>
        nl_format_double bits (CHR ''e'') (int p) alt = (if bit bits 63 then ''-'' else []) @ sci_text alt p r E) \<and>
      (\<exists>r E. sci (max 1 p - 1) (double_num bits) (double_den bits) r E \<and>
        nl_format_double bits (CHR ''g'') (int p) False = (if bit bits 63 then ''-'' else []) @ general_text (max 1 p) r E)"
  proof (cases "exponent_bits bits = 0x7FF")
    case True
    then show ?thesis by (simp add: nl_format_double_def)
  next
    case False
    obtain ds e where d: "nl_exact_digits bits = Some (ds, e)" "expansion ds e (double_num bits) (double_den bits)" "-900 < e" "e < 900"
      using double_expansion [OF False] by blast
    define P where "P = max 1 p"
    have pr: "(if int p = 0 then 1 else int p) = int P" "Suc (P - 1) = P" by (auto simp: P_def)
    obtain ds1 ex where r: "nl_round_digits ds (int P) e = (ds1, ex)" by (cases "nl_round_digits ds (int P) e")
    define s where "s = strip_zeros ds1"
    define n where "n = int (length s)"
    have r': "nl_round_digits ds (int (Suc (P - 1))) e = (ds1, ex)" unfolding pr(2) by (rule r)
    obtain q where q: "sci (P - 1) (double_num bits) (double_den bits) q ex"
      "(if ex < -4 \<or> ex \<ge> int P then style_e s ex (n - 1) False else style_f s ex (if n - 1 - ex < 0 then 0 else n - 1 - ex) False) = general_text P q ex"
      using style_g_ok [OF d(2-4) r' s_def n_def] unfolding pr(2) by blast
    have "ds1 \<noteq> []" using expansion_round [OF d(2) r'] by blast
    then have "s \<noteq> []" unfolding s_def by (rule strip_zeros_split(2))
    then have l: "(if n - 1 < 0 then 0 else n - 1) = n - 1" by (cases s) (auto simp: n_def)
    have f: "nl_format_double bits (CHR ''e'') (int p) alt = (if bit bits 63 then ''-'' else []) @ style_e ds e (int p) alt"
      using False d(1) by (simp add: nl_format_double_def)
    have "nl_format_double bits (CHR ''g'') (int p) False = (if bit bits 63 then ''-'' else []) @
        (if ex < -4 \<or> ex \<ge> int P then style_e s ex (if n - 1 < 0 then 0 else n - 1) False
         else style_f s ex (if n - 1 - ex < 0 then 0 else n - 1 - ex) False)"
      using False d(1) unfolding nl_format_double_def Let_def pr(1) by (simp add: r s_def [symmetric] n_def [symmetric])
    then have g: "nl_format_double bits (CHR ''g'') (int p) False = (if bit bits 63 then ''-'' else []) @ general_text P q ex" unfolding l q(2) .
    show ?thesis using False format_fixed [OF False] style_e_ok [OF d(2-4)] q(1) g unfolding f P_def by auto
  qed
  show "nl_format_double 0 (CHR ''g'') 6 True = ''0.''" by code_simp
qed

end
