(* ===== verification/NlPrintf.thy ===== *)
theory NlPrintf
  imports NlStdioProps DtoaProps
begin

text \<open>
  Formatted output: the text that \<open>fprintf\<close> owes a format and its arguments, and that a stream gets it.
\<close>

section \<open>What a format stands for\<close>

datatype piece = PLit char | PPercent | PStr "string option" | PChr u64 | PInt u64 | PLL u64 | PUns u64 | PULL u64 | PHex u64 | PPtr u64 | PDouble u64

fun piece_fmt :: "piece \<Rightarrow> string" where
  "piece_fmt (PLit c) = [c]"
| "piece_fmt PPercent = ''%%''"
| "piece_fmt (PStr a) = ''%s''"
| "piece_fmt (PChr w) = ''%c''"
| "piece_fmt (PInt w) = ''%d''"
| "piece_fmt (PLL w) = ''%lld''"
| "piece_fmt (PUns w) = ''%u''"
| "piece_fmt (PULL w) = ''%llu''"
| "piece_fmt (PHex w) = ''%llx''"
| "piece_fmt (PPtr w) = ''%p''"
| "piece_fmt (PDouble d) = ''%f''"

fun piece_args :: "piece \<Rightarrow> va list" where
  "piece_args (PLit c) = []"
| "piece_args PPercent = []"
| "piece_args (PStr a) = [VaStr a]"
| "piece_args (PChr w) = [VaWord w]"
| "piece_args (PInt w) = [VaWord w]"
| "piece_args (PLL w) = [VaWord w]"
| "piece_args (PUns w) = [VaWord w]"
| "piece_args (PULL w) = [VaWord w]"
| "piece_args (PHex w) = [VaWord w]"
| "piece_args (PPtr w) = [VaWord w]"
| "piece_args (PDouble d) = [VaDouble d]"

definition double6 :: "u64 \<Rightarrow> string" where
  "double6 d =
    (if exponent_bits d = 0x7FF then (if mantissa_bits d \<noteq> 0 then ''nan'' else if bit d 63 then ''-inf'' else ''inf'')
     else (if bit d 63 then ''-'' else []) @ fixed_text False 6 (rhe (double_num d * 10 ^ 6) (double_den d)))"

lemma double6_ok: "nl_format_double d (CHR ''f'') 6 False = double6 d" "length (double6 d) \<le> 1200"
proof -
  show "nl_format_double d (CHR ''f'') 6 False = double6 d"
    using format_fixed [of d 6 False] by (cases "exponent_bits d = 0x7FF") (simp_all add: double6_def nl_format_double_def)
  show "length (double6 d) \<le> 1200" using fixed_length [of d False 6] by (auto simp: double6_def)
qed

fun piece_text :: "piece \<Rightarrow> string" where
  "piece_text (PLit c) = [c]"
| "piece_text PPercent = ''%''"
| "piece_text (PStr a) = (case a of None \<Rightarrow> ''(null)'' | Some s \<Rightarrow> s)"
| "piece_text (PChr w) = [char_of (unat w)]"
| "piece_text (PInt w) = signed_text (sint (ucast w :: 32 word))"
| "piece_text (PLL w) = signed_text (sint w)"
| "piece_text (PUns w) = num_text 10 (unat (ucast w :: 32 word))"
| "piece_text (PULL w) = num_text 10 (unat w)"
| "piece_text (PHex w) = num_text 16 (unat w)"
| "piece_text (PPtr w) = ''0x'' @ num_text 16 (unat w)"
| "piece_text (PDouble d) = double6 d"

definition plain :: "piece \<Rightarrow> bool" where
  "plain p \<longleftrightarrow> (\<forall>c. p = PLit c \<longrightarrow> c \<noteq> CHR ''%'')"

lemma nl_digits_nth: "d < 16 \<Longrightarrow> nl_digits False ! d = digit_char d"
proof -
  have "\<forall>d \<in> set [0..<16]. nl_digits False ! d = digit_char d" by code_simp
  then show "d < 16 \<Longrightarrow> nl_digits False ! d = digit_char d" by simp
qed

lemma rev_fmt_tmp: "1 < base \<Longrightarrow> base \<le> 16 \<Longrightarrow> rev (fmt_tmp base v (nl_digits False)) = num_text base v"
proof (induction base v rule: num_text.induct)
  case (1 base n)
  have d: "nl_digits False ! (n mod base) = digit_char (n mod base)" 
    by (rule nl_digits_nth) (use 1(2,3) in \<open>auto intro: less_le_trans [OF mod_less_divisor]\<close>)
  show ?case
  proof (cases "n < base")
    case True
    then show ?thesis using d 1(2) by (subst fmt_tmp.simps, subst num_text.simps) simp
  next
    case False
    then have "n div base \<noteq> 0" using 1(2) by (simp add: div_eq_0_iff)
    then show ?thesis using d 1 False by (subst fmt_tmp.simps, subst num_text.simps) simp
  qed
qed

text \<open>The digits denote the number.\<close>

lemma num_text_value: "fold (\<lambda>c v. v * 10 + (of_char c - 48)) (num_text 10 n) 0 = int n"
proof (induction "10 :: nat" n rule: num_text.induct)
  case (1 n)
  have dv: "(of_char (digit_char d) :: int) - 48 = int d" if "d < 10" for d
  proof -
    have "(of_char (digit_char d) :: nat) = 48 + d" using that by (simp add: digit_char_def of_char_of)
    then have "int (of_char (digit_char d)) = 48 + int d" by simp
    then show ?thesis by (simp only: of_nat_of_char)
  qed
  show ?case
  proof (cases "n < 10")
    case True
    then show ?thesis using dv by (subst num_text.simps) simp
  next
    case False
    then show ?thesis using 1 dv [of "n mod 10"] by (subst num_text.simps) (simp add: zdiv_int zmod_int)
  qed
qed

section \<open>Printing it\<close>

definition room :: "string \<Rightarrow> nl_file \<Rightarrow> bool" where
  "room s f \<longleftrightarrow> bufpos f + length s < NL_BUFSZ"

context byte_sink
begin

lemma put_ok:
  assumes "writes_to fd f" "ok k" "room s f"
  shows "\<exists>g j. put_all io s f k = Some (0, g, j) \<and> appended s f k g j"
  using put_all_ok [OF assms(1,2), of s] assms(3) by (auto simp: room_def)

lemma putb_room:
  assumes "writes_to fd f" "ok k" "room [c] f"
  shows "\<exists>g j. nl_putb io c f k = Some (0, g, j) \<and> appended [c] f k g j"
  using putb_ok [OF assms(1,2), of c] assms(3) by (auto simp: room_def)

lemma room_after: "room (s @ t) f \<Longrightarrow> appended s f k g j \<Longrightarrow> room t g"
  by (auto simp: room_def appended_def)

lemma appendedD: "appended s f k g j \<Longrightarrow> writes_to fd g" "appended s f k g j \<Longrightarrow> ok j"
  by (simp_all add: appended_def)

lemma fmt_u_ok:
  assumes "writes_to fd f" "ok k" "room (num_text base (unat v)) f" "1 < base" "base \<le> 16"
  shows "\<exists>g j. nl_fmt_u io v base False f k = Some (int (length (num_text base (unat v))), g, j) \<and> appended (num_text base (unat v)) f k g j"
proof -
  have "length (fmt_tmp base (unat v) (nl_digits False)) = length (num_text base (unat v))"
    using rev_fmt_tmp [OF assms(4,5), of "unat v"] by (metis length_rev)
  then show ?thesis using put_ok [OF assms(1-3)] rev_fmt_tmp [OF assms(4,5)] by (auto simp: nl_fmt_u_def Let_def)
qed

lemma fmt_s_ok:
  assumes "writes_to fd f" "ok k" "room (signed_text (sint v)) f"
  shows "\<exists>g j. nl_fmt_s io v f k = Some (int (length (signed_text (sint v))), g, j) \<and> appended (signed_text (sint v)) f k g j"
proof (cases "sint v < 0")
  case False
  then have "unat v = nat (sint v)" by (rule unat_sint)
  then show ?thesis using fmt_u_ok [of f k 10 v] assms False by (auto simp: nl_fmt_s_def signed_text_def)
next
  case True
  have u: "unat (0 - v) = nat (- sint v)" using True by (rule unat_neg_sint)
  let ?n = "num_text 10 (nat (- sint v))"
  have sg: "signed_text (sint v) = [CHR ''-''] @ ?n" using True by (simp add: signed_text_def)
  have "room [CHR ''-''] f" using assms(3) by (simp add: sg room_def)
  then obtain g j where g: "nl_putb io (CHR ''-'') f k = Some (0, g, j)" "appended [CHR ''-''] f k g j"
    using putb_room [OF assms(1,2)] by blast
  then obtain h l where "nl_fmt_u io (0 - v) 10 False g j = Some (int (length ?n), h, l)" "appended ?n g j h l"
    using fmt_u_ok [of g j 10 "0 - v"] appendedD [OF g(2)] room_after [OF assms(3) [unfolded sg] g(2)] u by auto
  then show ?thesis using g(1) True appended_trans [OF g(2)] unfolding sg by (auto simp: nl_fmt_s_def Let_def)
qed

text \<open>The scan of a conversion without flags, width or precision.\<close>

lemma no_prec: "c \<noteq> CHR ''.'' \<Longrightarrow> parse_prec (c # q) args = Some (-1, c # q, args)"
  unfolding parse_prec_def by (auto split: char.splits bool.splits)

lemma scan_short: "c \<in> set ''sdcupf%'' \<Longrightarrow>
    vfprintf io (CHR ''%'' # c # rest) args w f k =
    (case convert io (Some c) False (-1) 0 args f k of None \<Rightarrow> None
     | Some (r, args2, f1, k1) \<Rightarrow> if r < 0 then Some (-1, f1, k1) else vfprintf io rest args2 (w + r) f1 k1)"
  by (simp, elim disjE) (simp_all add: is_flag_def is_num_def is_length_mod_def no_prec split: option.split)

lemma scan_long: "c \<in> set ''dux'' \<Longrightarrow>
    vfprintf io (CHR ''%'' # CHR ''l'' # CHR ''l'' # c # rest) args w f k =
    (case convert io (Some c) False (-1) 2 args f k of None \<Rightarrow> None
     | Some (r, args2, f1, k1) \<Rightarrow> if r < 0 then Some (-1, f1, k1) else vfprintf io rest args2 (w + r) f1 k1)"
  by (simp, elim disjE) (simp_all add: is_flag_def is_num_def is_length_mod_def no_prec numeral_2_eq_2 split: option.split)

lemma put_text_ok:
  assumes "writes_to fd f" "ok k" "room s f"
  shows "\<exists>g j. put_text io s f k = Some (int (length s), g, j) \<and> appended s f k g j"
  using put_ok [OF assms] by (auto simp: put_text_def)

lemma fmt_p_ok:
  assumes "writes_to fd f" "ok k" "room (''0x'' @ num_text 16 (unat v)) f"
  shows "\<exists>g j h l. put_all io ''0x'' f k = Some (0, g, j) \<and> nl_fmt_u io v 16 False g j = Some (int (length (num_text 16 (unat v))), h, l) \<and>
    appended (''0x'' @ num_text 16 (unat v)) f k h l"
proof -
  have "room ''0x'' f" using assms(3) by (simp add: room_def)
  then obtain g j where g: "put_all io ''0x'' f k = Some (0, g, j)" "appended ''0x'' f k g j" using put_ok [OF assms(1,2)] by blast
  then obtain h l where "nl_fmt_u io v 16 False g j = Some (int (length (num_text 16 (unat v))), h, l)" "appended (num_text 16 (unat v)) g j h l"
    using fmt_u_ok [OF appendedD [OF g(2)] room_after [OF assms(3) g(2)]] by auto
  then show ?thesis using g appended_trans [OF g(2)] by blast
qed

definition printed :: "piece \<Rightarrow> string \<Rightarrow> va list \<Rightarrow> int \<Rightarrow> nl_file \<Rightarrow> 'k \<Rightarrow> bool" where
  "printed p rest args w f k \<longleftrightarrow> (\<exists>g j. vfprintf io (piece_fmt p @ rest) (piece_args p @ args) w f k =
     vfprintf io rest args (w + int (length (piece_text p))) g j \<and> appended (piece_text p) f k g j)"

lemma short_printed:
  assumes "c \<in> set ''sdcupf%''" "piece_fmt p = [CHR ''%'', c]" "appended (piece_text p) f k g j"
    "convert io (Some c) False (-1) 0 (piece_args p @ args) f k = Some (int (length (piece_text p)), args, g, j)"
  shows "printed p rest args w f k"
  unfolding printed_def by (intro exI [of _ g] exI [of _ j] conjI, simp only: assms(2) append_Cons append_Nil scan_short [OF assms(1)]) (use assms(3,4) in simp_all)

lemma long_printed:
  assumes "c \<in> set ''dux''" "piece_fmt p = [CHR ''%'', CHR ''l'', CHR ''l'', c]" "appended (piece_text p) f k g j"
    "convert io (Some c) False (-1) 2 (piece_args p @ args) f k = Some (int (length (piece_text p)), args, g, j)"
  shows "printed p rest args w f k"
  unfolding printed_def by (intro exI [of _ g] exI [of _ j] conjI, simp only: assms(2) append_Cons append_Nil scan_long [OF assms(1)]) (use assms(3,4) in simp_all)

lemma piece_ok:
  assumes w: "writes_to fd f" "ok k" and r: "room (piece_text p) f" and "plain p"
  shows "printed p rest args w f k"
proof (cases p)
  case (PLit c)
  have "c \<noteq> CHR ''%''" using PLit assms(4) by (simp add: plain_def)
  moreover obtain g j where "nl_putb io c f k = Some (0, g, j)" "appended [c] f k g j" using putb_room [OF w, of c] r PLit by auto
  ultimately show ?thesis unfolding printed_def by (intro exI [of _ g] exI [of _ j]) (simp add: PLit)
next
  case PPercent
  then show ?thesis using put_text_ok [OF w, of "''%''"] r by (auto simp: convert_def intro!: short_printed [where c = "CHR ''%''"])
next
  case (PStr a)
  then show ?thesis using fputs_ok [OF w, of "piece_text p"] by (auto simp: convert_def Let_def intro!: short_printed [where c = "CHR ''s''"])
next
  case (PChr v)
  then show ?thesis using put_text_ok [OF w, of "[char_of (unat v)]"] r by (auto simp: convert_def intro!: short_printed [where c = "CHR ''c''"])
next
  case (PInt v)
  have s: "sint (as_int v) = sint (ucast v :: 32 word)" by (simp add: as_int_def sint_up_scast is_up)
  show ?thesis using PInt fmt_s_ok [OF w, of "as_int v"] r s by (auto simp: convert_def intro!: short_printed [where c = "CHR ''d''"])
next
  case (PLL v)
  then show ?thesis using fmt_s_ok [OF w, of v] r by (auto simp: convert_def intro!: long_printed [where c = "CHR ''d''"])
next
  case (PUns v)
  have s: "unat (as_uint v) = unat (ucast v :: 32 word)" unfolding as_uint_def unat_eq_nat_uint by (subst uint_up_ucast) (simp_all add: is_up)
  show ?thesis using PUns fmt_u_ok [OF w, of 10 "as_uint v"] r s by (auto simp: convert_def intro!: short_printed [where c = "CHR ''u''"])
next
  case (PULL v)
  then show ?thesis using fmt_u_ok [OF w, of 10 v] r by (auto simp: convert_def intro!: long_printed [where c = "CHR ''u''"])
next
  case (PHex v)
  then show ?thesis using fmt_u_ok [OF w, of 16 v] r by (auto simp: convert_def intro!: long_printed [where c = "CHR ''x''"])
next
  case (PPtr v)
  then show ?thesis using fmt_p_ok [OF w, of v] r by (auto simp: convert_def simp del: put_all.simps intro!: short_printed [where c = "CHR ''p''"])
next
  case (PDouble v)
  have "char_of (of_char (CHR ''f'') OR 32 :: nat) = CHR ''f''" by code_simp
  then have t: "nl_format_double v (char_of (of_char (CHR ''f'') OR 32 :: nat)) 6 False = double6 v" "length (double6 v) \<le> 1200"
    using double6_ok by simp_all
  obtain g j where "put_text io (double6 v) f k = Some (int (length (double6 v)), g, j)" "appended (double6 v) f k g j"
    using put_text_ok [OF w, of "double6 v"] r PDouble by auto
  then show ?thesis using t unfolding PDouble by (intro short_printed [where c = "CHR ''f''" and g = g and j = j]) (simp_all add: convert_def Let_def)
qed

lemma vfprintf_ok:
  assumes "writes_to fd f" "ok k" "room (concat (map piece_text ps)) f" "list_all plain ps"
  shows "\<exists>g j. vfprintf io (concat (map piece_fmt ps)) (concat (map piece_args ps)) w f k =
    Some (w + int (length (concat (map piece_text ps))), g, j) \<and> appended (concat (map piece_text ps)) f k g j"
  using assms
proof (induction ps arbitrary: w f k)
  case (Cons p ps)
  have "room (piece_text p) f" using Cons.prems(3) by (simp add: room_def)
  then have "printed p (concat (map piece_fmt ps)) (concat (map piece_args ps)) w f k"
    by (intro piece_ok) (use Cons.prems in simp_all)
  then obtain g j where g: "vfprintf io (concat (map piece_fmt (p # ps))) (concat (map piece_args (p # ps))) w f k =
      vfprintf io (concat (map piece_fmt ps)) (concat (map piece_args ps)) (w + int (length (piece_text p))) g j" "appended (piece_text p) f k g j"
    by (auto simp: printed_def)
  have "room (piece_text p @ concat (map piece_text ps)) f" using Cons.prems(3) by simp
  from room_after [OF this g(2)] have "room (concat (map piece_text ps)) g" .
  from Cons.IH [OF appendedD [OF g(2)] this, of "w + int (length (piece_text p))"] Cons.prems(4)
  obtain h l where "vfprintf io (concat (map piece_fmt ps)) (concat (map piece_args ps)) (w + int (length (piece_text p))) g j =
      Some (w + int (length (piece_text p)) + int (length (concat (map piece_text ps))), h, l)" "appended (concat (map piece_text ps)) g j h l" by auto
  then show ?case using g(1) appended_trans [OF g(2)] by auto
qed (simp add: appended_nil)

end



end
