(* ===== verification/Fdt.thy ===== *)
theory Fdt
  imports CmdLine
begin

text \<open>
  The walk over a flattened device tree (unikernel/boot/fdt.c), for the boards that announce their memory, command line
  and devices in one.

  The memory is the list of the bytes that are mapped from the tree's address on; a position is an offset from the tree,
  and reading past the end is \<open>None\<close>. Every round of the walk reads and moves on, so that the walk is a total function.
  The 32-bit expressions wrap as in C. The arrays on the stack and in the result have arbitrary contents at the start:
  they are arguments of the walk. \<open>w_outside\<close> is a ghost: it is set when a round uses an index outside of the
  array of levels.
\<close>

section \<open>Data\<close>

definition FDT_MAGIC :: u32 where "FDT_MAGIC = 0xd00dfeed"
definition FDT_BEGIN_NODE :: u32 where "FDT_BEGIN_NODE = 1"
definition FDT_END_NODE :: u32 where "FDT_END_NODE = 2"
definition FDT_PROP :: u32 where "FDT_PROP = 3"
definition FDT_NOP :: u32 where "FDT_NOP = 4"
definition FDT_END :: u32 where "FDT_END = 9"
definition FDT_MAX_DEVS :: nat where "FDT_MAX_DEVS = 32"
definition FDT_MAX_DEPTH :: nat where "FDT_MAX_DEPTH = 16"
definition CMDLINE_SIZE :: nat where "CMDLINE_SIZE = 2048"

record fdt_facts =
  ram_base :: u64
  ram_size :: u64
  cmdline :: string
  cmdline_len :: nat
  devices :: nat
  dev_base :: "u64 list"

record fdt_lvl =
  addr_cells :: u32
  size_cells :: u32
  is_virtio :: bool
  is_memory :: bool
  is_chosen :: bool
  reg_base :: u64
  reg_size :: u64
  lvl_irq :: u64

record fdt_walk =
  w_p :: nat
  w_depth :: nat
  w_lvl :: "fdt_lvl list"
  w_bootargs :: "nat option"
  w_devs :: fdt_facts
  w_out :: fdt_facts
  w_outside :: bool

section \<open>Reading\<close>

definition rd :: "u8 list \<Rightarrow> nat \<Rightarrow> u8 option" where
  "rd m a = (if a < length m then Some (m ! a) else None)"

definition rdc :: "u8 list \<Rightarrow> nat \<Rightarrow> char option" where
  "rdc m a = do { b \<leftarrow> rd m a; Some (char_of (unat b)) }"

definition fdt_be32 :: "u8 list \<Rightarrow> nat \<Rightarrow> u32 option" where
  "fdt_be32 m p = do {
     b0 \<leftarrow> rd m p;
     b1 \<leftarrow> rd m (p + 1);
     b2 \<leftarrow> rd m (p + 2);
     b3 \<leftarrow> rd m (p + 3);
     Some (push_bit 24 (ucast b0) OR push_bit 16 (ucast b1) OR push_bit 8 (ucast b2) OR ucast b3)
   }"

definition fdt_be64 :: "u8 list \<Rightarrow> nat \<Rightarrow> u64 option" where
  "fdt_be64 m p = do {
     hi \<leftarrow> fdt_be32 m p;
     lo \<leftarrow> fdt_be32 m (p + 4);
     Some (push_bit 32 (ucast hi) OR ucast lo)
   }"

text \<open>The second string of a comparison is a literal, here without its terminator.\<close>

fun fdt_str_eq :: "u8 list \<Rightarrow> nat \<Rightarrow> string \<Rightarrow> bool option" where
  "fdt_str_eq m a [] = do { c \<leftarrow> rdc m a; Some (c = NULC) }"
| "fdt_str_eq m a (x # b) = do { c \<leftarrow> rdc m a; if c \<noteq> NULC \<and> c = x then fdt_str_eq m (a + 1) b else Some (c = x) }"

fun fdt_str_prefix :: "u8 list \<Rightarrow> nat \<Rightarrow> string \<Rightarrow> bool option" where
  "fdt_str_prefix m s [] = Some True"
| "fdt_str_prefix m s (x # pre) = do { c \<leftarrow> rdc m s; if c = x then fdt_str_prefix m (s + 1) pre else Some False }"

declare fdt_str_eq.simps [simp del] fdt_str_prefix.simps [simp del]

text \<open>\<open>while (name[n]) n++\<close>.\<close>

function name_len :: "u8 list \<Rightarrow> nat \<Rightarrow> nat \<Rightarrow> nat option" where
  "name_len m name n =
    (if name + n < length m
     then if m ! (name + n) \<noteq> 0 then name_len m name (n + 1) else Some n
     else None)"
  by pat_completeness auto
termination by (relation "measure (\<lambda>(m, name, n). length m - (name + n))") auto

declare name_len.simps [simp del]

section \<open>Writing the command line\<close>

text \<open>\<open>f->cmdline[f->cmdline_len++] = c\<close> and the terminator that ends every call.\<close>

definition cl_put :: "fdt_facts \<Rightarrow> char \<Rightarrow> fdt_facts" where
  "cl_put f c = f\<lparr>cmdline := (cmdline f)[cmdline_len f := c], cmdline_len := cmdline_len f + 1\<rparr>"

definition cl_end :: "fdt_facts \<Rightarrow> fdt_facts" where
  "cl_end f = f\<lparr>cmdline := (cmdline f)[cmdline_len f := NULC]\<rparr>"

fun cl_puts :: "fdt_facts \<Rightarrow> string \<Rightarrow> fdt_facts" where
  "cl_puts f [] = cl_end f"
| "cl_puts f (c # s) = (if cmdline_len f < CMDLINE_SIZE - 1 then cl_puts (cl_put f c) s else cl_end f)"

declare cl_puts.simps [simp del]

text \<open>The same call on a string in the tree.\<close>

function cl_puts_at :: "u8 list \<Rightarrow> fdt_facts \<Rightarrow> nat \<Rightarrow> fdt_facts option" where
  "cl_puts_at m f s =
    (if s < length m
     then if m ! s \<noteq> 0 \<and> cmdline_len f < CMDLINE_SIZE - 1
       then cl_puts_at m (cl_put f (char_of (unat (m ! s)))) (s + 1)
       else Some (cl_end f)
     else None)"
  by pat_completeness auto
termination by (relation "measure (\<lambda>(m, f, s). length m - s)") auto

declare cl_puts_at.simps [simp del]

text \<open>The digits are written from the end of a scratch array to its front.\<close>

function hex_loop :: "u64 \<Rightarrow> string \<Rightarrow> string" where
  "hex_loop v b = (if v = 0 then b else hex_loop (drop_bit 4 v) (''0123456789abcdef'' ! unat (v AND 0xF) # b))"
  by pat_completeness auto
termination
  by (relation "measure (\<lambda>(v, b). unat v)") (auto simp: drop_bit_eq_div unat_div word_neq_0_conv unat_gt_0)

function dec_loop :: "u64 \<Rightarrow> string \<Rightarrow> string" where
  "dec_loop v b = (if v = 0 then b else dec_loop (v div 10) (char_of (48 + unat (v mod 10)) # b))"
  by pat_completeness auto
termination
  by (relation "measure (\<lambda>(v, b). unat v)") (auto simp: unat_div word_neq_0_conv unat_gt_0)

declare hex_loop.simps [simp del] dec_loop.simps [simp del]

definition cl_puthex :: "fdt_facts \<Rightarrow> u64 \<Rightarrow> fdt_facts" where
  "cl_puthex f v =
    (let b = hex_loop v (if v = 0 then ''0'' else []) in
     cl_puts (cl_puts f ''0x'') b)"

definition cl_putu :: "fdt_facts \<Rightarrow> u64 \<Rightarrow> fdt_facts" where
  "cl_putu f v = cl_puts f (dec_loop v (if v = 0 then ''0'' else []))"

section \<open>The walk\<close>

text \<open>The pointer to the tree may be null, which is \<open>None\<close> here.\<close>

definition fdt_is_tree :: "u8 list option \<Rightarrow> bool option" where
  "fdt_is_tree p = (case p of None \<Rightarrow> Some False | Some m \<Rightarrow> do { magic \<leftarrow> fdt_be32 m 0; Some (magic = FDT_MAGIC) })"

definition at_level :: "nat \<Rightarrow> (fdt_lvl \<Rightarrow> fdt_lvl) \<Rightarrow> fdt_walk \<Rightarrow> fdt_walk" where
  "at_level i g w = w\<lparr>w_lvl := (w_lvl w)[i := g (w_lvl w ! i)], w_outside := w_outside w \<or> i \<ge> length (w_lvl w)\<rparr>"

text \<open>What the name of a node says: whether it is a virtio device, memory, or the chosen node.\<close>

definition classify :: "u8 list \<Rightarrow> nat \<Rightarrow> (bool \<times> bool \<times> bool) option" where
  "classify m name = do {
     virtio \<leftarrow> fdt_str_prefix m name ''virtio_mmio@'';
     mem_at \<leftarrow> fdt_str_prefix m name ''memory@'';
     mem \<leftarrow> (if mem_at then Some True else fdt_str_eq m name ''memory'');
     chosen \<leftarrow> fdt_str_eq m name ''chosen'';
     Some (virtio, mem, chosen)
   }"

definition open_level :: "bool \<times> bool \<times> bool \<Rightarrow> fdt_walk \<Rightarrow> fdt_walk" where
  "open_level k w =
    (let above = w_lvl w ! (w_depth w - 1) in
     at_level (w_depth w) (\<lambda>l. l\<lparr>addr_cells := addr_cells above, size_cells := size_cells above,
       is_virtio := fst k, is_memory := fst (snd k), is_chosen := snd (snd k), reg_base := 0, reg_size := 0, lvl_irq := 0\<rparr>) w)"

text \<open>One round answers whether the walk goes on.\<close>

definition begin_node :: "u8 list \<Rightarrow> fdt_walk \<Rightarrow> (bool \<times> fdt_walk) option" where
  "begin_node m w = do {
     n \<leftarrow> name_len m (w_p w) 0;
     if w_depth w + 1 \<ge> FDT_MAX_DEPTH then Some (False, w\<lparr>w_p := w_p w + (n + 1 + 3) div 4 * 4, w_depth := w_depth w + 1\<rparr>)
     else do {
       k \<leftarrow> classify m (w_p w);
       Some (True, open_level k (w\<lparr>w_p := w_p w + (n + 1 + 3) div 4 * 4, w_depth := w_depth w + 1\<rparr>))
     }
   }"

definition virtio_entry :: "fdt_lvl \<Rightarrow> fdt_walk \<Rightarrow> fdt_walk" where
  "virtio_entry l w =
    (if is_virtio l \<and> reg_size l \<noteq> 0
     then let
         d = cl_puts (w_devs w) '' virtio_mmio.device='';
         d = cl_puthex d (reg_size l);
         d = cl_puts d ''@'';
         d = cl_puthex d (reg_base l);
         d = cl_puts d '':'';
         d = cl_putu d (lvl_irq l + 32);
         out = w_out w;
         out = (if devices out < FDT_MAX_DEVS then out\<lparr>dev_base := (dev_base out)[devices out := reg_base l]\<rparr> else out)
       in w\<lparr>w_devs := d, w_out := out\<lparr>devices := devices out + 1\<rparr>\<rparr>
     else w)"

definition memory_entry :: "fdt_lvl \<Rightarrow> fdt_walk \<Rightarrow> fdt_walk" where
  "memory_entry l w =
    (if is_memory l \<and> reg_size l \<noteq> 0 \<and> ram_size (w_out w) = 0
     then w\<lparr>w_out := (w_out w)\<lparr>ram_base := reg_base l, ram_size := reg_size l\<rparr>\<rparr>
     else w)"

definition end_node :: "fdt_walk \<Rightarrow> bool \<times> fdt_walk" where
  "end_node w =
    (let w = (if w_depth w > 0 \<and> w_depth w < FDT_MAX_DEPTH
              then let l = w_lvl w ! w_depth w in
                memory_entry l (virtio_entry l (w\<lparr>w_outside := w_outside w \<or> w_depth w \<ge> length (w_lvl w)\<rparr>))
              else w)
     in if w_depth w = 0 then (False, w) else (True, w\<lparr>w_depth := w_depth w - 1\<rparr>))"

text \<open>The five tests of a property, in their order; each may change the level or the walk.\<close>

definition take_addr_cells :: "u8 list \<Rightarrow> nat \<Rightarrow> nat \<Rightarrow> fdt_walk \<Rightarrow> fdt_walk option" where
  "take_addr_cells m pname val w = do {
     e \<leftarrow> fdt_str_eq m pname ''#address-cells'';
     if e then do { x \<leftarrow> fdt_be32 m val; Some (at_level (w_depth w) (\<lambda>l. l\<lparr>addr_cells := x\<rparr>) w) } else Some w
   }"

definition take_size_cells :: "u8 list \<Rightarrow> nat \<Rightarrow> nat \<Rightarrow> fdt_walk \<Rightarrow> fdt_walk option" where
  "take_size_cells m pname val w = do {
     e \<leftarrow> fdt_str_eq m pname ''#size-cells'';
     if e then do { x \<leftarrow> fdt_be32 m val; Some (at_level (w_depth w) (\<lambda>l. l\<lparr>size_cells := x\<rparr>) w) } else Some w
   }"

definition take_bootargs :: "u8 list \<Rightarrow> nat \<Rightarrow> nat \<Rightarrow> fdt_walk \<Rightarrow> fdt_walk option" where
  "take_bootargs m pname val w =
    (if is_chosen (w_lvl w ! w_depth w)
     then do { e \<leftarrow> fdt_str_eq m pname ''bootargs''; Some (if e then w\<lparr>w_bootargs := Some val\<rparr> else w) }
     else Some w)"

text \<open>\<open>n == 2 ? fdt_be64(p) : fdt_be32(p)\<close>.\<close>

definition be_cells :: "u8 list \<Rightarrow> nat \<Rightarrow> u32 \<Rightarrow> u64 option" where
  "be_cells m p n = (if n = 2 then fdt_be64 m p else do { x \<leftarrow> fdt_be32 m p; Some (ucast x) })"

definition take_reg :: "u8 list \<Rightarrow> nat \<Rightarrow> nat \<Rightarrow> u32 \<Rightarrow> fdt_walk \<Rightarrow> fdt_walk option" where
  "take_reg m pname val len w =
    (let above = w_lvl w ! (w_depth w - 1); ac = addr_cells above; sc = size_cells above in do {
       e \<leftarrow> fdt_str_eq m pname ''reg'';
       if e \<and> len \<ge> (ac + sc) * 4
       then do {
         base \<leftarrow> be_cells m val ac;
         size \<leftarrow> be_cells m (val + unat (ac * 4)) sc;
         Some (at_level (w_depth w) (\<lambda>l. l\<lparr>reg_base := base, reg_size := size\<rparr>) w)
       }
       else Some w
     })"

definition take_irq :: "u8 list \<Rightarrow> nat \<Rightarrow> nat \<Rightarrow> u32 \<Rightarrow> fdt_walk \<Rightarrow> fdt_walk option" where
  "take_irq m pname val len w = do {
     e \<leftarrow> fdt_str_eq m pname ''interrupts'';
     if e \<and> len \<ge> 4
     then do {
       x \<leftarrow> (if len \<ge> 12 then fdt_be32 m (val + 4) else fdt_be32 m val);
       Some (at_level (w_depth w) (\<lambda>l. l\<lparr>lvl_irq := ucast x\<rparr>) w)
     }
     else Some w
   }"

definition take_prop :: "u8 list \<Rightarrow> nat \<Rightarrow> nat \<Rightarrow> u32 \<Rightarrow> fdt_walk \<Rightarrow> fdt_walk option" where
  "take_prop m pname val len w = do {
     w1 \<leftarrow> take_addr_cells m pname val w;
     w2 \<leftarrow> take_size_cells m pname val w1;
     w3 \<leftarrow> take_bootargs m pname val w2;
     w4 \<leftarrow> take_reg m pname val len w3;
     take_irq m pname val len w4
   }"

definition prop_node :: "u8 list \<Rightarrow> nat \<Rightarrow> fdt_walk \<Rightarrow> (bool \<times> fdt_walk) option" where
  "prop_node m strings w =
    (let p = w_p w in do {
       len \<leftarrow> fdt_be32 m p;
       noff \<leftarrow> fdt_be32 m (p + 4);
       let val = p + 8;
       let pname = strings + unat noff;
       let w = w\<lparr>w_p := p + 8 + unat ((len + 3) AND NOT 3)\<rparr>;
       if w_depth w \<ge> FDT_MAX_DEPTH then Some (True, w)
       else do {
         w \<leftarrow> take_prop m pname val len (w\<lparr>w_outside := w_outside w \<or> w_depth w \<ge> length (w_lvl w)\<rparr>);
         Some (True, w)
       }
     })"

definition fdt_step :: "u8 list \<Rightarrow> nat \<Rightarrow> fdt_walk \<Rightarrow> (bool \<times> fdt_walk) option" where
  "fdt_step m strings w = do {
     tok \<leftarrow> fdt_be32 m (w_p w);
     let w = w\<lparr>w_p := w_p w + 4\<rparr>;
     if tok = FDT_END then Some (False, w)
     else if tok = FDT_NOP then Some (True, w)
     else if tok = FDT_BEGIN_NODE then begin_node m w
     else if tok = FDT_END_NODE then Some (end_node w)
     else if tok = FDT_PROP then prop_node m strings w
     else Some (False, w)
   }"

lemma rd_inside: "rd m a = Some b \<Longrightarrow> a < length m"
  by (simp add: rd_def split: if_splits)

lemma be32_inside: "fdt_be32 m p = Some x \<Longrightarrow> p + 3 < length m"
  by (auto simp: fdt_be32_def dest: rd_inside split: bind_splits)

lemma at_level_p [simp]: "w_p (at_level i g w) = w_p w" "w_depth (at_level i g w) = w_depth w"
  by (simp_all add: at_level_def)

lemma entry_p [simp]: "w_p (virtio_entry l w) = w_p w" "w_p (memory_entry l w) = w_p w"
  by (simp_all add: virtio_entry_def memory_entry_def Let_def)

text \<open>What a property leaves as it is.\<close>

definition same_place :: "fdt_walk \<Rightarrow> fdt_walk \<Rightarrow> bool" where
  "same_place w w' \<longleftrightarrow> w_p w' = w_p w \<and> w_depth w' = w_depth w \<and> w_devs w' = w_devs w \<and> w_out w' = w_out w \<and>
    length (w_lvl w') = length (w_lvl w) \<and> (w_depth w < length (w_lvl w) \<longrightarrow> w_outside w' = w_outside w)"

lemma same_place_refl: "same_place w w"
  by (simp add: same_place_def)

lemma same_place_trans: "same_place u v \<Longrightarrow> same_place v w \<Longrightarrow> same_place u w"
  by (simp add: same_place_def)

lemma same_place_level: "same_place w (at_level (w_depth w) g w)"
  by (auto simp: same_place_def at_level_def)

lemma take_addr_cells_place: "take_addr_cells m pname val w = Some w' \<Longrightarrow> same_place w w'"
  by (auto simp: take_addr_cells_def bind_eq_Some_conv same_place_refl same_place_level split: if_splits)

lemma take_size_cells_place: "take_size_cells m pname val w = Some w' \<Longrightarrow> same_place w w'"
  by (auto simp: take_size_cells_def bind_eq_Some_conv same_place_refl same_place_level split: if_splits)

lemma take_bootargs_place: "take_bootargs m pname val w = Some w' \<Longrightarrow> same_place w w'"
  by (auto simp: take_bootargs_def bind_eq_Some_conv same_place_def split: if_splits)

lemma take_reg_place: "take_reg m pname val len w = Some w' \<Longrightarrow> same_place w w'"
  by (auto simp: take_reg_def Let_def bind_eq_Some_conv same_place_refl same_place_level split: if_splits)

lemma take_irq_place: "take_irq m pname val len w = Some w' \<Longrightarrow> same_place w w'"
  by (auto simp: take_irq_def bind_eq_Some_conv same_place_refl same_place_level split: if_splits)

lemmas take_place = take_addr_cells_place take_size_cells_place take_bootargs_place take_reg_place take_irq_place

lemma take_prop_place:
  assumes "take_prop m pname val len w = Some w'"
  shows "same_place w w'"
proof -
  obtain w1 w2 w3 w4 where "take_addr_cells m pname val w = Some w1" "take_size_cells m pname val w1 = Some w2"
    "take_bootargs m pname val w2 = Some w3" "take_reg m pname val len w3 = Some w4" "take_irq m pname val len w4 = Some w'"
    using assms by (auto simp: take_prop_def bind_eq_Some_conv)
  note t = take_place(1) [OF this(1)] take_place(2) [OF this(2)] take_place(3) [OF this(3)] take_place(4) [OF this(4)] take_place(5) [OF this(5)]
  show ?thesis by (rule same_place_trans [OF same_place_trans [OF same_place_trans [OF same_place_trans [OF t(1,2)] t(3)] t(4)] t(5)])
qed

lemma end_node_p: "w_p (snd (end_node w)) = w_p w"
  by (simp add: end_node_def Let_def)

lemma begin_node_p: "begin_node m w = Some (go, w') \<Longrightarrow> w_p w \<le> w_p w'"
  by (auto simp: begin_node_def open_level_def Let_def bind_eq_Some_conv split: if_splits)

lemma prop_node_p: "prop_node m strings w = Some (go, w') \<Longrightarrow> w_p w \<le> w_p w'"
  by (auto simp: prop_node_def Let_def same_place_def bind_eq_Some_conv dest!: take_prop_place split: if_splits)

lemma fdt_step_advances:
  assumes "fdt_step m strings w = Some (go, w')"
  shows "w_p w < w_p w'" "w_p w < length m"
proof -
  show "w_p w < length m" using assms by (auto simp: fdt_step_def dest: be32_inside simp: bind_eq_Some_conv)
  have e: "w_p w' = w_p v" if "end_node v = (go, w')" for v using end_node_p [of v] that by simp
  show "w_p w < w_p w'" using assms
    by (auto simp: fdt_step_def Let_def dest!: begin_node_p prop_node_p e simp: bind_eq_Some_conv split: if_splits)
qed

function fdt_loop :: "u8 list \<Rightarrow> nat \<Rightarrow> fdt_walk \<Rightarrow> fdt_walk option" where
  "fdt_loop m strings w =
    (case fdt_step m strings w of
       None \<Rightarrow> None
     | Some (go, w') \<Rightarrow> if go then fdt_loop m strings w' else Some w')"
  by pat_completeness auto
termination
proof (relation "measure (\<lambda>(m, strings, w). length m - w_p w)", goal_cases)
  case (2 m strings w y go w')
  then have "w_p w < w_p w'" "w_p w < length m" using fdt_step_advances [of m strings w go w'] by simp_all
  then show ?case by simp
qed simp

declare fdt_loop.simps [simp del]

text \<open>The device entries follow the arguments; the last loop copies them while there is room.\<close>

fun join_devs :: "fdt_facts \<Rightarrow> string \<Rightarrow> fdt_facts" where
  "join_devs f [] = f"
| "join_devs f (c # cs) = (if cmdline_len f \<ge> CMDLINE_SIZE - 1 then f else join_devs (cl_put f c) cs)"

definition walk_start :: "nat \<Rightarrow> fdt_facts \<Rightarrow> fdt_facts \<Rightarrow> fdt_lvl list \<Rightarrow> fdt_walk" where
  "walk_start p out devs lvl =
    \<lparr>w_p = p, w_depth = 0,
     w_lvl = lvl[0 := (lvl ! 0)\<lparr>addr_cells := 2, size_cells := 2, is_virtio := False, is_memory := False, is_chosen := False\<rparr>],
     w_bootargs = None,
     w_devs = cl_end (devs\<lparr>cmdline_len := 0\<rparr>),
     w_out = (cl_end (out\<lparr>cmdline_len := 0\<rparr>))\<lparr>ram_base := 0, ram_size := 0, devices := 0\<rparr>,
     w_outside = (length lvl = 0)\<rparr>"

definition walk_end :: "u8 list \<Rightarrow> fdt_walk \<Rightarrow> fdt_facts option" where
  "walk_end m w = do {
     out \<leftarrow> (case w_bootargs w of None \<Rightarrow> Some (w_out w) | Some a \<Rightarrow> cl_puts_at m (w_out w) a);
     Some (cl_end (join_devs out (take (cmdline_len (w_devs w)) (cmdline (w_devs w)))))
   }"

definition fdt_probe :: "u8 list option \<Rightarrow> fdt_facts \<Rightarrow> fdt_facts \<Rightarrow> fdt_lvl list \<Rightarrow> (bool \<times> fdt_facts) option" where
  "fdt_probe fdt_p out devs lvl = do {
     tree \<leftarrow> fdt_is_tree fdt_p;
     if \<not> tree then Some (False, out)
     else do {
       m \<leftarrow> fdt_p;
       off_struct \<leftarrow> fdt_be32 m 8;
       off_strings \<leftarrow> fdt_be32 m 12;
       w \<leftarrow> fdt_loop m (unat off_strings) (walk_start (unat off_struct) out devs lvl);
       out \<leftarrow> walk_end m w;
       Some (True, out)
     }
   }"

end
