(* ===== verification/FdtProps.thy ===== *)
theory FdtProps
  imports Fdt
begin

text \<open>
  The walk over the device tree, on trees written in the flattened format: a node is its name, its properties and the nodes below it.
  The walk implements the specification of what a tree says (node_devs, node_rams, node_args), by induction on the tree; and on any bytes
  at all it keeps to its arrays.
\<close>

section \<open>The text of the command line\<close>

definition dt_bare :: "fdt_facts \<Rightarrow> string \<Rightarrow> bool" where
  "dt_bare f t \<longleftrightarrow> length (cmdline f) = 2048 \<and> cmdline_len f = length t \<and> length t \<le> 2047 \<and> take (length t) (cmdline f) = t"

definition dt_holds :: "fdt_facts \<Rightarrow> string \<Rightarrow> bool" where
  "dt_holds f t \<longleftrightarrow> dt_bare f t \<and> cmdline f ! length t = NULC"

text \<open>The part of a text that the array has room for.\<close>

definition dt_cut :: "string \<Rightarrow> string" where
  "dt_cut t = take 2047 t"

lemma dt_bare_put: "dt_bare f t \<Longrightarrow> length t < 2047 \<Longrightarrow> dt_bare (cl_put f c) (t @ [c])"
  by (auto simp: dt_bare_def cl_put_def take_Suc_conv_app_nth)

lemma dt_bare_end: "dt_bare f t \<Longrightarrow> dt_holds (cl_end f) t"
  by (auto simp: dt_holds_def dt_bare_def cl_end_def)

lemma dt_holds_bare: "dt_holds f t \<Longrightarrow> dt_bare f t"
  by (simp add: dt_holds_def)

lemma cl_puts_bare: "dt_bare f t \<Longrightarrow> dt_holds (cl_puts f s) (take 2047 (t @ s))"
proof (induction s arbitrary: f t)
  case Nil
  then show ?case by (simp add: cl_puts.simps dt_bare_end dt_bare_def)
next
  case (Cons c s)
  have l: "cmdline_len f = length t" "length t \<le> 2047" using Cons.prems by (simp_all add: dt_bare_def)
  show ?case
  proof (cases "length t < 2047")
    case True
    then show ?thesis using Cons.IH [OF dt_bare_put [OF Cons.prems]] l by (simp add: cl_puts.simps CMDLINE_SIZE_def)
  next
    case False
    then show ?thesis using l dt_bare_end [OF Cons.prems] by (simp add: cl_puts.simps CMDLINE_SIZE_def)
  qed
qed

lemma cl_puts_holds: "dt_holds f (dt_cut t) \<Longrightarrow> dt_holds (cl_puts f s) (dt_cut (t @ s))"
proof -
  assume "dt_holds f (dt_cut t)"
  then have "dt_holds f (take 2047 t)" by (simp add: dt_cut_def)
  then have "dt_holds (cl_puts f s) (take 2047 (take 2047 t @ s))" using cl_puts_bare dt_holds_bare by blast
  moreover have "take 2047 (take 2047 t @ s) = take 2047 (t @ s)" by (cases "length t \<le> 2047") simp_all
  ultimately show ?thesis by (simp only: dt_cut_def)
qed

lemma hex_loop_text: "hex_loop v b = (if v = 0 then b else num_text 16 (unat v) @ b)"
proof (induction v b rule: hex_loop.induct)
  case (1 v b)
  have d: "''0123456789abcdef'' ! k = digit_char k" if "k < 16" for k
  proof -
    have "\<forall>k \<in> set [0..<16]. ''0123456789abcdef'' ! k = digit_char k" by code_simp
    then show ?thesis using that by simp
  qed
  have a: "unat (v AND 0xF) = unat v mod 16"
  proof -
    have "v AND 0xF = take_bit 4 v" by (simp add: take_bit_eq_mask mask_eq_exp_minus_1)
    then show ?thesis by (simp add: take_bit_eq_mod unat_mod)
  qed
  have q: "unat (drop_bit 4 v) = unat v div 16" by (simp add: drop_bit_eq_div unat_div)
  have z: "drop_bit 4 v = 0 \<longleftrightarrow> unat v < 16" using q by (metis div_eq_0_iff unat_eq_0 zero_neq_numeral)
  show ?case
  proof (cases "v = 0")
    case False
    then show ?thesis using 1 a q z d [of "unat v mod 16"]
      by (subst hex_loop.simps, subst num_text.simps) auto
  qed (simp add: hex_loop.simps)
qed

lemma dec_loop_text: "dec_loop v b = (if v = 0 then b else num_text 10 (unat v) @ b)"
proof (induction v b rule: dec_loop.induct)
  case (1 v b)
  have q: "unat (v div 10) = unat v div 10" "unat (v mod 10) = unat v mod 10" by (simp_all add: unat_div unat_mod)
  then have z: "v div 10 = 0 \<longleftrightarrow> unat v < 10" by (metis div_eq_0_iff unat_eq_0 zero_neq_numeral)
  have d: "char_of (48 + k) = digit_char k" if "k < 10" for k using that by (simp add: digit_char_def)
  show ?case
  proof (cases "v = 0")
    case False
    then show ?thesis using 1 q z d [of "unat v mod 10"]
      by (subst dec_loop.simps, subst num_text.simps) auto
  qed (simp add: dec_loop.simps)
qed

lemma num_text_zero: "num_text 16 0 = ''0''" "num_text 10 0 = ''0''"
  by code_simp+

lemma cl_puthex_text: "cl_puthex f v = cl_puts (cl_puts f ''0x'') (num_text 16 (unat v))"
  by (simp add: cl_puthex_def hex_loop_text num_text_zero)

lemma cl_putu_text: "cl_putu f v = cl_puts f (num_text 10 (unat v))"
  by (simp add: cl_putu_def dec_loop_text num_text_zero)

text \<open>The entry of a device in the spelling of the x86 machine.\<close>

definition dev_entry :: "u64 \<times> u64 \<times> u64 \<Rightarrow> string" where
  "dev_entry d = (case d of (base, sz, irq) \<Rightarrow>
     '' virtio_mmio.device=0x'' @ num_text 16 (unat sz) @ ''@0x'' @ num_text 16 (unat base) @ '':'' @ num_text 10 (unat (irq + 32)))"

lemma cl_puts_frame [simp]:
  "ram_base (cl_puts f s) = ram_base f" "ram_size (cl_puts f s) = ram_size f" "devices (cl_puts f s) = devices f"
  "dev_base (cl_puts f s) = dev_base f"
  by (induction f s rule: cl_puts.induct) (simp_all add: cl_puts.simps cl_put_def cl_end_def)

lemma entry_text:
  assumes "dt_holds f (dt_cut t)"
  shows "dt_holds (cl_putu (cl_puts (cl_puthex (cl_puts (cl_puthex (cl_puts f '' virtio_mmio.device='') sz) ''@'') base) '':'') (irq + 32))
    (dt_cut (t @ dev_entry (base, sz, irq)))"
proof -
  have c: "dt_holds g (dt_cut u) \<Longrightarrow> dt_holds (cl_puthex g v) (dt_cut (u @ ''0x'' @ num_text 16 (unat v)))" for g u v
    using cl_puts_holds [OF cl_puts_holds, of g u "''0x''" "num_text 16 (unat v)"] by (simp add: cl_puthex_text)
  have "dt_holds (cl_puthex (cl_puts f '' virtio_mmio.device='') sz) (dt_cut (t @ '' virtio_mmio.device=0x'' @ num_text 16 (unat sz)))"
    using c [OF cl_puts_holds [OF assms], of "'' virtio_mmio.device=''" sz] by simp
  from cl_puts_holds [OF cl_puts_holds [OF c [OF cl_puts_holds [OF this]]], of "''@''" base "'':''" "num_text 10 (unat (irq + 32))"]
  show ?thesis by (simp add: cl_putu_text dev_entry_def)
qed

section \<open>The format\<close>

text \<open>Big-endian numbers.\<close>

primrec be_nat :: "u8 list \<Rightarrow> nat" where
  "be_nat [] = 0"
| "be_nat (b # bs) = unat b * 256 ^ length bs + be_nat bs"

definition be_bytes :: "nat \<Rightarrow> nat \<Rightarrow> u8 list" where
  "be_bytes k n = map (\<lambda>i. word_of_nat (n div 256 ^ i)) (rev [0..<k])"

definition pad4 :: "nat \<Rightarrow> nat" where
  "pad4 n = (4 - n mod 4) mod 4"

definition text_bytes :: "string \<Rightarrow> u8 list" where
  "text_bytes t = map (\<lambda>c. word_of_nat (of_char c)) t @ [0]"

datatype dt_node = Node (dt_name: string) (dt_props: "(string \<times> u8 list) list") (dt_kids: "dt_node list")

definition padded :: "u8 list \<Rightarrow> u8 list" where
  "padded bs = bs @ replicate (pad4 (length bs)) 0"

definition prop_bytes :: "(string \<Rightarrow> nat) \<Rightarrow> string \<times> u8 list \<Rightarrow> u8 list" where
  "prop_bytes so kv = be_bytes 4 3 @ be_bytes 4 (length (snd kv)) @ be_bytes 4 (so (fst kv)) @ padded (snd kv)"

primrec node_bytes :: "(string \<Rightarrow> nat) \<Rightarrow> dt_node \<Rightarrow> u8 list" where
  "node_bytes so (Node n ps ks) =
    be_bytes 4 1 @ padded (text_bytes n) @ concat (map (prop_bytes so) ps) @ concat (map (node_bytes so) ks) @ be_bytes 4 2"

text \<open>Where a name starts in the block of strings.\<close>

primrec name_at :: "string list \<Rightarrow> string \<Rightarrow> nat" where
  "name_at [] k = 0"
| "name_at (n # ns) k = (if n = k then 0 else length (text_bytes n) + name_at ns k)"

definition struct_bytes :: "string list \<Rightarrow> dt_node \<Rightarrow> u8 list" where
  "struct_bytes names root = node_bytes (name_at names) root @ be_bytes 4 9"

text \<open>The header of version 17 with its ten numbers, the empty table of reservations, the structure and the strings.\<close>

definition fdt_image :: "string list \<Rightarrow> dt_node \<Rightarrow> u8 list" where
  "fdt_image names root =
    (let st = struct_bytes names root; ss = concat (map text_bytes names) in
     concat (map (be_bytes 4) [0xd00dfeed, 56 + length st + length ss, 56, 56 + length st, 40, 17, 16, 0, length ss, length st]) @
     replicate 16 0 @ st @ ss)"

section \<open>Fields in memory\<close>

definition lies :: "u8 list \<Rightarrow> nat \<Rightarrow> u8 list \<Rightarrow> bool" where
  "lies m p bs \<longleftrightarrow> (\<exists>pre post. m = pre @ bs @ post \<and> length pre = p)"

lemma lies_append: "lies m p (xs @ ys) \<longleftrightarrow> lies m p xs \<and> lies m (p + length xs) ys"
proof
  assume "lies m p (xs @ ys)"
  then obtain pre post where "m = pre @ (xs @ ys) @ post" "length pre = p" by (auto simp: lies_def)
  then show "lies m p xs \<and> lies m (p + length xs) ys"
    unfolding lies_def by (intro conjI exI [of _ pre] exI [of _ "ys @ post"] exI [of _ "pre @ xs"] exI [of _ post]) auto
next
  assume "lies m p xs \<and> lies m (p + length xs) ys"
  then have e: "\<exists>pre post. m = pre @ xs @ post \<and> length pre = p" "\<exists>pre post. m = pre @ ys @ post \<and> length pre = p + length xs"
    unfolding lies_def by blast+
  obtain pre post where m1: "m = pre @ xs @ post" "length pre = p" using e(1) by blast
  obtain pre' post' where m2: "m = pre' @ ys @ post'" "length pre' = p + length xs" using e(2) by blast
  have "(pre @ xs) @ post = pre' @ ys @ post'" using trans [OF m1(1) [symmetric] m2(1)] by simp
  moreover have "length (pre @ xs) = length pre'" using m1(2) m2(2) by simp
  ultimately have "post = ys @ post'" using append_eq_append_conv [of "pre @ xs" pre' post "ys @ post'"] by blast
  then show "lies m p (xs @ ys)" unfolding lies_def using m1 by (intro exI [of _ pre] exI [of _ post']) simp
qed

lemma lies_nth: "lies m p bs \<Longrightarrow> i < length bs \<Longrightarrow> rd m (p + i) = Some (bs ! i)"
  by (auto simp: lies_def rd_def nth_append)

lemma lies_bound: "lies m p bs \<Longrightarrow> p + length bs \<le> length m"
  by (auto simp: lies_def)

lemma lies_byte: "lies m p bs \<Longrightarrow> i < length bs \<Longrightarrow> p + i < length m \<and> m ! (p + i) = bs ! i"
  using lies_nth [of m p bs i] by (simp add: rd_def split: if_splits)

lemma lies_take: "lies m p bs \<Longrightarrow> lies m p (take k bs)"
  using lies_append [of m p "take k bs" "drop k bs"] by simp

lemma lies_drop: "lies m p bs \<Longrightarrow> k \<le> length bs \<Longrightarrow> lies m (p + k) (drop k bs)"
  using lies_append [of m p "take k bs" "drop k bs"] by simp

lemma length_be_bytes [simp]: "length (be_bytes k n) = k"
  by (simp add: be_bytes_def)

lemma be_nat_bound: "be_nat bs < 256 ^ length bs"
proof (induction bs)
  case (Cons b bs)
  have "unat b < 256" using unsigned_less [of b] by simp
  then have "unat b \<le> 255" by simp
  then have "unat b * 256 ^ length bs \<le> 255 * 256 ^ length bs" by (rule mult_right_mono) simp
  then have "unat b * 256 ^ length bs + be_nat bs < 255 * 256 ^ length bs + 256 ^ length bs" using Cons by linarith
  then show ?case by simp
qed simp

lemma be_nat_be_bytes: "be_nat (be_bytes k n) = n mod 256 ^ k"
proof (induction k)
  case (Suc k)
  have "be_bytes (Suc k) n = word_of_nat (n div 256 ^ k) # be_bytes k n" by (simp add: be_bytes_def)
  moreover have "unat (word_of_nat (n div 256 ^ k) :: u8) = n div 256 ^ k mod 256" by (simp add: unat_of_nat)
  ultimately show ?case using Suc mod_mult2_eq [of n "256 ^ k" 256] by (simp add: mult.commute)
qed (simp add: be_bytes_def)

lemma or_shift:
  assumes "\<And>n. k \<le> n \<Longrightarrow> \<not> bit y n"
  shows "push_bit k (x :: 'a::len word) OR y = 2 ^ k * x + y"
proof -
  have "push_bit k x AND y = 0" using assms by (auto simp: bit_eq_iff bit_and_iff bit_push_bit_iff)
  then show ?thesis by (simp add: disjunctive_add_eq_or [symmetric] push_bit_eq_mult mult.commute)
qed

lemma be32_word:
  "push_bit 24 (ucast b0) OR push_bit 16 (ucast b1) OR push_bit 8 (ucast b2) OR ucast b3 = (word_of_nat (be_nat [b0, b1, b2, b3]) :: u32)"
proof -
  note bits = bit_or_iff bit_push_bit_iff bit_ucast_iff
  let ?b = "\<lambda>b :: u8. ucast b :: u32"
  have "push_bit 8 (?b b2) OR ?b b3 = 2 ^ 8 * ?b b2 + ?b b3"
    by (rule or_shift) (auto simp: bits dest: bit_imp_le_length)
  moreover have "push_bit 16 (?b b1) OR (push_bit 8 (?b b2) OR ?b b3) = 2 ^ 16 * ?b b1 + (push_bit 8 (?b b2) OR ?b b3)"
    by (rule or_shift) (auto simp: bits dest: bit_imp_le_length)
  moreover have "push_bit 24 (?b b0) OR (push_bit 16 (?b b1) OR (push_bit 8 (?b b2) OR ?b b3)) =
      2 ^ 24 * ?b b0 + (push_bit 16 (?b b1) OR (push_bit 8 (?b b2) OR ?b b3))"
    by (rule or_shift) (auto simp: bits dest: bit_imp_le_length)
  ultimately show ?thesis by (simp add: or.assoc algebra_simps)
qed

lemma be64_word:
  "push_bit 32 (ucast (hi :: u32)) OR ucast (lo :: u32) = (word_of_nat (unat hi * 2 ^ 32 + unat lo) :: u64)"
proof -
  have "push_bit 32 (ucast hi :: u64) OR ucast lo = 2 ^ 32 * ucast hi + ucast lo"
    by (rule or_shift) (auto simp: bit_ucast_iff dest: bit_imp_le_length)
  then show ?thesis by (simp add: algebra_simps)
qed

lemma be32_lies:
  assumes "lies m p bs" "length bs = 4"
  shows "fdt_be32 m p = Some (word_of_nat (be_nat bs))"
proof -
  obtain b0 b1 b2 b3 where b: "bs = [b0, b1, b2, b3]" using assms(2) by (auto simp: length_Suc_conv numeral_eq_Suc)
  have "rd m p = Some b0" "rd m (p + 1) = Some b1" "rd m (p + 2) = Some b2" "rd m (p + 3) = Some b3"
    using lies_nth [OF assms(1), of 0] lies_nth [OF assms(1), of 1] lies_nth [OF assms(1), of 2] lies_nth [OF assms(1), of 3]
    by (simp_all add: b)
  then show ?thesis by (simp add: fdt_be32_def b be32_word del: be_nat.simps)
qed

lemma be32_bytes: "lies m p (be_bytes 4 n) \<Longrightarrow> n < 2 ^ 32 \<Longrightarrow> fdt_be32 m p = Some (word_of_nat n)"
  by (simp add: be32_lies be_nat_be_bytes)

lemma be64_lies:
  assumes "lies m p bs" "length bs = 8"
  shows "fdt_be64 m p = Some (word_of_nat (be_nat bs))"
proof -
  let ?h = "take 4 bs" and ?l = "drop 4 bs"
  have r: "fdt_be32 m p = Some (word_of_nat (be_nat ?h))" "fdt_be32 m (p + 4) = Some (word_of_nat (be_nat ?l))"
    by (rule be32_lies [OF lies_take [OF assms(1)]], simp add: assms(2))
      (rule be32_lies [OF lies_drop [OF assms(1)]], simp_all add: assms(2))
  have "be_nat ?h < 2 ^ 32" "be_nat ?l < 2 ^ 32" using be_nat_bound [of ?h] be_nat_bound [of ?l] assms(2) by simp_all
  then have u: "unat (word_of_nat (be_nat ?h) :: u32) = be_nat ?h" "unat (word_of_nat (be_nat ?l) :: u32) = be_nat ?l"
    by (simp_all add: unat_of_nat)
  have "be_nat (xs @ ys) = be_nat xs * 256 ^ length ys + be_nat ys" for xs ys
    by (induction xs) (simp_all add: algebra_simps power_add)
  from this [of ?h ?l] have "be_nat bs = be_nat ?h * 2 ^ 32 + be_nat ?l" using assms(2) by simp
  then show ?thesis unfolding fdt_be64_def r by (simp add: be64_word u del: of_nat_add of_nat_mult)
qed

section \<open>Strings in memory\<close>

lemma lies_text_nil: "lies m a (text_bytes []) \<Longrightarrow> rdc m a = Some NULC \<and> a < length m \<and> m ! a = 0"
  using lies_nth [of m a "text_bytes []" 0] lies_byte [of m a "text_bytes []" 0] by (auto simp: rdc_def text_bytes_def char_of_def)

lemma lies_text_cons:
  assumes "lies m a (text_bytes (c # t))"
  shows "rdc m a = Some c" "lies m (a + 1) (text_bytes t)" "a < length m" "char_of (unat (m ! a)) = c" "c \<noteq> NULC \<Longrightarrow> m ! a \<noteq> 0"
proof -
  have u: "char_of (unat (word_of_nat (of_char c) :: u8)) = c" by (simp add: unat_of_nat)
  have b: "a < length m" "m ! a = word_of_nat (of_char c)" using lies_byte [OF assms, of 0] by (simp_all add: text_bytes_def)
  then show "rdc m a = Some c" "a < length m" "char_of (unat (m ! a)) = c" using u by (simp_all add: rdc_def rd_def)
  show "lies m (a + 1) (text_bytes t)" using lies_drop [OF assms, of 1] by (simp add: text_bytes_def)
  show "c \<noteq> NULC \<Longrightarrow> m ! a \<noteq> 0" using u b(2) by (auto simp: char_of_def)
qed

lemma str_eq_lies: "lies m a (text_bytes t) \<Longrightarrow> NULC \<notin> set t \<Longrightarrow> NULC \<notin> set b \<Longrightarrow> fdt_str_eq m a b = Some (t = b)"
proof (induction b arbitrary: a t)
  case Nil
  then show ?case using lies_text_nil [of m a] lies_text_cons(1) [of m a] by (cases t) (auto simp: fdt_str_eq.simps)
next
  case (Cons x b)
  show ?case
  proof (cases t)
    case Nil
    then show ?thesis using Cons.prems lies_text_nil [of m a] by (auto simp: fdt_str_eq.simps)
  next
    case (Cons c t')
    then show ?thesis using Cons.IH [of "a + 1" t'] Cons.prems lies_text_cons [of m a c t'] by (auto simp: fdt_str_eq.simps)
  qed
qed

lemma str_prefix_lies: "lies m a (text_bytes t) \<Longrightarrow> NULC \<notin> set b \<Longrightarrow> fdt_str_prefix m a b = Some (prefix b t)"
proof (induction b arbitrary: a t)
  case (Cons x b)
  show ?case
  proof (cases t)
    case Nil
    then show ?thesis using Cons.prems lies_text_nil [of m a] by (auto simp: fdt_str_prefix.simps)
  next
    case (Cons c t')
    then show ?thesis using Cons.IH [of "a + 1" t'] Cons.prems lies_text_cons [of m a c t'] by (auto simp: fdt_str_prefix.simps)
  qed
qed (simp add: fdt_str_prefix.simps)

lemma name_len_lies: "lies m (a + n) (text_bytes t) \<Longrightarrow> NULC \<notin> set t \<Longrightarrow> name_len m a n = Some (n + length t)"
proof (induction t arbitrary: n)
  case Nil
  then show ?case using lies_text_nil [of m "a + n"] by (subst name_len.simps) simp
next
  case (Cons c t)
  then have "m ! (a + n) \<noteq> 0" using lies_text_cons(5) [OF Cons.prems(1)] by force
  then show ?case using Cons.prems(2) lies_text_cons [OF Cons.prems(1)] Cons.IH [of "n + 1"] by (subst name_len.simps) (simp add: add.assoc)
qed

lemma puts_at_lies: "lies m a (text_bytes t) \<Longrightarrow> NULC \<notin> set t \<Longrightarrow> cl_puts_at m f a = Some (cl_puts f t)"
proof (induction t arbitrary: a f)
  case Nil
  then show ?case using lies_text_nil [of m a] by (subst cl_puts_at.simps) (simp add: cl_puts.simps)
next
  case (Cons c t)
  then have "m ! a \<noteq> 0" using lies_text_cons(5) [OF Cons.prems(1)] by force
  then show ?case using Cons.prems(2) lies_text_cons [OF Cons.prems(1)] Cons.IH [of "a + 1"] by (subst cl_puts_at.simps) (simp add: cl_puts.simps)
qed

text \<open>The string at the front of a value.\<close>

definition text_of :: "u8 list \<Rightarrow> string" where
  "text_of v = map (\<lambda>b. char_of (unat b)) (takeWhile (\<lambda>b. b \<noteq> 0) v)"

lemma text_of_lies:
  assumes "lies m a v" "0 \<in> set v"
  shows "lies m a (text_bytes (text_of v))" "NULC \<notin> set (text_of v)"
proof -
  have b: "word_of_nat (of_char (char_of (unat b) :: char)) = b" for b :: u8
  proof -
    have "unat b < 256" using unsigned_less [of b] by simp
    then show ?thesis by (simp add: of_char_of)
  qed
  have "v = takeWhile (\<lambda>b. b \<noteq> 0) v @ 0 # tl (dropWhile (\<lambda>b. b \<noteq> 0) v)"
    using assms(2) by (induction v) auto
  then have "v = text_bytes (text_of v) @ tl (dropWhile (\<lambda>b. b \<noteq> 0) v)"
    using b by (simp add: text_bytes_def text_of_def comp_def)
  then show "lies m a (text_bytes (text_of v))" using assms(1) lies_append by metis
  have "char_of (unat b) \<noteq> NULC" if "b \<noteq> 0" for b :: u8
  proof
    assume "char_of (unat b) = NULC"
    then have "word_of_nat (of_char (char_of (unat b) :: char)) = (word_of_nat (of_char NULC) :: u8)" by simp
    then show False using that b [of b] by simp
  qed
  then show "NULC \<notin> set (text_of v)" by (force simp: text_of_def dest: set_takeWhileD)
qed

section \<open>What a tree says\<close>

text \<open>The number of cells of an address and of a size: a node's own, or else those of the node above.\<close>

type_synonym cells = "nat \<times> nat"

definition own_cells :: "cells \<Rightarrow> (string \<times> u8 list) list \<Rightarrow> cells" where
  "own_cells c ps =
    ((case map_of ps ''#address-cells'' of Some v \<Rightarrow> be_nat v | None \<Rightarrow> fst c),
     (case map_of ps ''#size-cells'' of Some v \<Rightarrow> be_nat v | None \<Rightarrow> snd c))"

text \<open>Base and size of the first register block; a value that is too short states none.\<close>

definition reg_of :: "cells \<Rightarrow> (string \<times> u8 list) list \<Rightarrow> u64 \<times> u64" where
  "reg_of c ps = (case map_of ps ''reg'' of
     None \<Rightarrow> (0, 0)
   | Some v \<Rightarrow> if 4 * (fst c + snd c) \<le> length v
       then (word_of_nat (be_nat (take (4 * fst c) v)), word_of_nat (be_nat (take (4 * snd c) (drop (4 * fst c) v)))) else (0, 0))"

text \<open>The number of an interrupt: the only cell, or the second of three.\<close>

definition irq_of :: "(string \<times> u8 list) list \<Rightarrow> u64" where
  "irq_of ps = (case map_of ps ''interrupts'' of
     None \<Rightarrow> 0
   | Some v \<Rightarrow> if 12 \<le> length v then word_of_nat (be_nat (take 4 (drop 4 v))) else if 4 \<le> length v then word_of_nat (be_nat (take 4 v)) else 0)"

definition names_virtio :: "string \<Rightarrow> bool" where
  "names_virtio n \<longleftrightarrow> prefix ''virtio_mmio@'' n"

definition names_memory :: "string \<Rightarrow> bool" where
  "names_memory n \<longleftrightarrow> prefix ''memory@'' n \<or> n = ''memory''"

text \<open>The devices, the memories and the command lines of a tree. Devices and memories come in the order in which their
  nodes end, command lines in the order of the nodes.\<close>

primrec node_devs :: "cells \<Rightarrow> dt_node \<Rightarrow> (u64 \<times> u64 \<times> u64) list" where
  "node_devs c (Node n ps ks) = concat (map (\<lambda>k. node_devs (own_cells c ps) k) ks) @
    (if names_virtio n \<and> snd (reg_of c ps) \<noteq> 0 then [(fst (reg_of c ps), snd (reg_of c ps), irq_of ps)] else [])"

primrec node_rams :: "cells \<Rightarrow> dt_node \<Rightarrow> (u64 \<times> u64) list" where
  "node_rams c (Node n ps ks) = concat (map (\<lambda>k. node_rams (own_cells c ps) k) ks) @
    (if names_memory n \<and> snd (reg_of c ps) \<noteq> 0 then [reg_of c ps] else [])"

primrec node_args :: "dt_node \<Rightarrow> string list" where
  "node_args (Node n ps ks) =
    (if n = ''chosen'' then case map_of ps ''bootargs'' of None \<Rightarrow> [] | Some v \<Rightarrow> [text_of v] else []) @ concat (map node_args ks)"

text \<open>Well-formed: names without a NUL, no property twice, cell counts of one cell, terminated arguments, and one or two cells where a
  register block counts.\<close>

definition prop_wf :: "string \<times> u8 list \<Rightarrow> bool" where
  "prop_wf kv \<longleftrightarrow> NULC \<notin> set (fst kv) \<and>
    (fst kv = ''#address-cells'' \<or> fst kv = ''#size-cells'' \<longrightarrow> length (snd kv) = 4 \<and> be_nat (snd kv) < 2 ^ 29) \<and>
    (fst kv = ''bootargs'' \<longrightarrow> 0 \<in> set (snd kv))"

definition cells_count :: "cells \<Rightarrow> bool" where
  "cells_count c \<longleftrightarrow> fst c \<in> {1, 2} \<and> snd c \<in> {1, 2}"

primrec node_wf :: "cells \<Rightarrow> dt_node \<Rightarrow> bool" where
  "node_wf c (Node n ps ks) \<longleftrightarrow> NULC \<notin> set n \<and> distinct (map fst ps) \<and> list_all prop_wf ps \<and>
    (names_virtio n \<or> names_memory n \<longrightarrow> cells_count c) \<and> list_all (\<lambda>k. node_wf (own_cells c ps) k) ks"

primrec node_height :: "dt_node \<Rightarrow> nat" where
  "node_height (Node n ps ks) = Suc (fold max (map node_height ks) 0)"

primrec node_names :: "dt_node \<Rightarrow> string set" where
  "node_names (Node n ps ks) = fst ` set ps \<union> \<Union> (set (map node_names ks))"

section \<open>Properties\<close>

text \<open>A level after some properties. The register block is stated only where the cells count.\<close>

definition level_says :: "cells \<Rightarrow> (string \<times> u8 list) list \<Rightarrow> fdt_lvl \<Rightarrow> fdt_lvl \<Rightarrow> bool" where
  "level_says c ps l l' \<longleftrightarrow>
    addr_cells l' = (case map_of ps ''#address-cells'' of Some v \<Rightarrow> word_of_nat (be_nat v) | None \<Rightarrow> addr_cells l) \<and>
    size_cells l' = (case map_of ps ''#size-cells'' of Some v \<Rightarrow> word_of_nat (be_nat v) | None \<Rightarrow> size_cells l) \<and>
    is_virtio l' = is_virtio l \<and> is_memory l' = is_memory l \<and> is_chosen l' = is_chosen l \<and>
    (map_of ps ''interrupts'' = None \<longrightarrow> lvl_irq l' = lvl_irq l) \<and>
    (map_of ps ''interrupts'' \<noteq> None \<longrightarrow> lvl_irq l = 0 \<longrightarrow> lvl_irq l' = irq_of ps) \<and>
    (cells_count c \<longrightarrow> map_of ps ''reg'' = None \<longrightarrow> reg_base l' = reg_base l \<and> reg_size l' = reg_size l) \<and>
    (cells_count c \<longrightarrow> map_of ps ''reg'' \<noteq> None \<longrightarrow> reg_base l = 0 \<longrightarrow> reg_size l = 0 \<longrightarrow> (reg_base l', reg_size l') = reg_of c ps)"

lemma level_says_nil: "level_says c [] l l"
  by (simp add: level_says_def)

lemma level_says_cons:
  assumes "level_says c [kv] l l1" "level_says c ps l1 l'" "fst kv \<notin> set (map fst ps)"
  shows "level_says c (kv # ps) l l'"
proof -
  have n: "map_of ps (fst kv) = None" using assms(3) by (simp add: map_of_eq_None_iff)
  obtain k v where kv: "kv = (k, v)" by (cases kv)
  have m: "map_of ps k = None" "\<And>x. map_of (kv # ps) x = (if x = k then Some v else map_of ps x)"
      "\<And>x. map_of [kv] x = (if x = k then Some v else None)"
    using n by (simp_all add: kv)
  have i: "irq_of (kv # ps) = (if k = ''interrupts'' then irq_of [kv] else irq_of ps)" by (simp add: irq_of_def kv)
  have r: "reg_of c (kv # ps) = (if k = ''reg'' then reg_of c [kv] else reg_of c ps)" by (simp add: reg_of_def kv)
  note a = assms(1,2) [unfolded level_says_def m(3)]
  show ?thesis unfolding level_says_def m(2)
  proof (intro conjI, goal_cases)
    case 1
    show ?case using a m(1) by (cases "k = ''#address-cells''") (simp_all cong: option.case_cong)
  next
    case 2
    show ?case using a m(1) by (cases "k = ''#size-cells''") (simp_all cong: option.case_cong)
  next
    case 6
    show ?case using a by (cases "k = ''interrupts''") simp_all
  next
    case 7
    show ?case using a m(1) i by (cases "k = ''interrupts''") simp_all
  next
    case 8
    show ?case using a by (cases "k = ''reg''") simp_all
  next
    case 9
    show ?case using a m(1) r by (cases "k = ''reg''") simp_all
  qed (use a in simp_all)
qed

definition at_depth :: "(fdt_lvl \<Rightarrow> fdt_lvl) \<Rightarrow> fdt_walk \<Rightarrow> fdt_walk" where
  "at_depth g w = w\<lparr>w_lvl := (w_lvl w)[w_depth w := g (w_lvl w ! w_depth w)]\<rparr>"

lemma at_depth_level: "w_depth w < length (w_lvl w) \<Longrightarrow> at_level (w_depth w) g w = at_depth g w"
  by (simp add: at_level_def at_depth_def)

lemma at_depth_comp: "w_depth w < length (w_lvl w) \<Longrightarrow> at_depth g (at_depth f w) = at_depth (\<lambda>l. g (f l)) w"
  by (simp add: at_depth_def)

lemma at_depth_simps [simp]:
  "w_depth (at_depth g w) = w_depth w" "length (w_lvl (at_depth g w)) = length (w_lvl w)" "w_bootargs (at_depth g w) = w_bootargs w"
  "w_depth w < length (w_lvl w) \<Longrightarrow> w_lvl (at_depth g w) ! w_depth w = g (w_lvl w ! w_depth w)"
  "0 < w_depth w \<Longrightarrow> w_lvl (at_depth g w) ! (w_depth w - Suc 0) = w_lvl w ! (w_depth w - Suc 0)"
  by (simp_all add: at_depth_def)

lemma at_depth_args: "at_depth g (w\<lparr>w_bootargs := a\<rparr>) = (at_depth g w)\<lparr>w_bootargs := a\<rparr>"
  by (simp add: at_depth_def)

lemma unat_u32_nat: "x < 2 ^ 32 \<Longrightarrow> unat (word_of_nat x :: u32) = x"
  by (simp add: unat_of_nat)

lemma ucast_u32_nat:
  assumes "x < 2 ^ 32"
  shows "(ucast (word_of_nat x :: u32) :: u64) = word_of_nat x"
proof -
  have "(ucast (word_of_nat x :: u32) :: u64) = word_of_nat (unat (word_of_nat x :: u32))" by simp
  then show ?thesis by (simp only: unat_u32_nat [OF assms])
qed

lemma be_cells_lies:
  assumes "lies m p v" "n \<in> {1, 2}" "4 * n \<le> length v"
  shows "be_cells m p (word_of_nat n) = Some (word_of_nat (be_nat (take (4 * n) v)))"
proof (cases "n = 2")
  case True
  then show ?thesis using be64_lies [OF lies_take [OF assms(1), of 8]] assms(3) by (simp add: be_cells_def)
next
  case False
  then have n: "n = 1" using assms(2) by simp
  have b: "be_nat (take 4 v) < 2 ^ 32" using be_nat_bound [of "take 4 v"] assms(3) n by simp
  have "fdt_be32 m p = Some (word_of_nat (be_nat (take 4 v)))" using be32_lies [OF lies_take [OF assms(1), of 4]] assms(3) n by simp
  then show ?thesis using n ucast_u32_nat [OF b] by (simp add: be_cells_def)
qed

lemma be_cells_total: "p + 4 \<le> length m \<Longrightarrow> (n = 2 \<longrightarrow> p + 8 \<le> length m) \<Longrightarrow> \<exists>x. be_cells m p n = Some x"
  by (auto simp: be_cells_def fdt_be64_def fdt_be32_def rd_def)

lemma take_reg_lies:
  assumes e: "fdt_str_eq m pname ''reg'' = Some (k = ''reg'')" and v: "lies m val v" "val + length v + 4 \<le> length m" "length v < 2 ^ 32"
    and d: "0 < w_depth w" "w_depth w < length (w_lvl w)"
    and c: "addr_cells (w_lvl w ! (w_depth w - 1)) = word_of_nat (fst c)" "size_cells (w_lvl w ! (w_depth w - 1)) = word_of_nat (snd c)"
      "fst c < 2 ^ 29" "snd c < 2 ^ 29"
  shows "\<exists>b z. take_reg m pname val (word_of_nat (length v)) w =
      Some (if k = ''reg'' \<and> 4 * (fst c + snd c) \<le> length v then at_depth (\<lambda>l. l\<lparr>reg_base := b, reg_size := z\<rparr>) w else w) \<and>
    (cells_count c \<and> k = ''reg'' \<and> 4 * (fst c + snd c) \<le> length v \<longrightarrow> (b, z) = reg_of c [(k, v)])"
proof (cases "k = ''reg'' \<and> 4 * (fst c + snd c) \<le> length v")
  case True
  have u: "unat (word_of_nat (fst c) * 4 :: u32) = 4 * fst c"
    using c(3) by (simp add: unat_word_ariths unat_of_nat)
  have len: "(word_of_nat (fst c) + word_of_nat (snd c)) * 4 \<le> (word_of_nat (length v) :: u32)"
    using c(3,4) True v(3) by (simp add: word_le_nat_alt unat_word_ariths unat_of_nat)
  have two: "(word_of_nat n :: u32) = 2 \<longleftrightarrow> n = 2" if "n < 2 ^ 29" for n
  proof -
    have "unat (word_of_nat n :: u32) = n" "unat (2 :: u32) = 2" using that by (simp_all add: unat_u32_nat)
    then show ?thesis by (metis of_nat_numeral)
  qed
  obtain b where b: "be_cells m val (word_of_nat (fst c)) = Some b"
    using be_cells_total [of val m "word_of_nat (fst c)"] two [OF c(3)] v(2) True by auto
  obtain z where z: "be_cells m (val + 4 * fst c) (word_of_nat (snd c)) = Some z"
    using be_cells_total [of "val + 4 * fst c" m "word_of_nat (snd c)"] two [OF c(4)] v(2) True by auto
  have "(b, z) = reg_of c [(k, v)]" if "cells_count c"
  proof -
    have "fst c \<in> {1, 2}" "snd c \<in> {1, 2}" using that by (simp_all add: cells_count_def)
    then have "be_cells m val (word_of_nat (fst c)) = Some (word_of_nat (be_nat (take (4 * fst c) v)))"
      "be_cells m (val + 4 * fst c) (word_of_nat (snd c)) = Some (word_of_nat (be_nat (take (4 * snd c) (drop (4 * fst c) v))))"
      by (intro be_cells_lies [OF v(1)] be_cells_lies [OF lies_drop [OF v(1)]]; use True in auto)+
    then show ?thesis using b z True by (simp add: reg_of_def)
  qed
  moreover have "take_reg m pname val (word_of_nat (length v)) w = Some (at_depth (\<lambda>l. l\<lparr>reg_base := b, reg_size := z\<rparr>) w)"
    unfolding take_reg_def Let_def c e using True len b z u d(2) by (simp add: at_depth_level)
  ultimately show ?thesis using True by auto
next
  case False
  have "\<not> (word_of_nat (fst c) + word_of_nat (snd c)) * 4 \<le> (word_of_nat (length v) :: u32)" if "k = ''reg''"
    using c(3,4) False that v(3) by (simp add: word_le_nat_alt unat_word_ariths unat_of_nat)
  then show ?thesis unfolding take_reg_def Let_def c e using False by auto
qed

lemma take_irq_lies:
  assumes e: "fdt_str_eq m pname ''interrupts'' = Some (k = ''interrupts'')" and v: "lies m val v" "length v < 2 ^ 32"
    and d: "w_depth w < length (w_lvl w)"
  shows "take_irq m pname val (word_of_nat (length v)) w =
      Some (if k = ''interrupts'' \<and> 4 \<le> length v then at_depth (\<lambda>l. l\<lparr>lvl_irq := irq_of [(k, v)]\<rparr>) w else w)"
proof -
  have u: "4 \<le> (word_of_nat (length v) :: u32) \<longleftrightarrow> 4 \<le> length v" "12 \<le> (word_of_nat (length v) :: u32) \<longleftrightarrow> 12 \<le> length v"
    using v(2) by (simp_all add: word_le_nat_alt unat_u32_nat)
  have f: "fdt_be32 m val = Some (word_of_nat (be_nat (take 4 v)))" "be_nat (take 4 v) < 2 ^ 32" if "4 \<le> length v"
    using be32_lies [OF lies_take [OF v(1), of 4]] be_nat_bound [of "take 4 v"] that by simp_all
  have g: "fdt_be32 m (val + 4) = Some (word_of_nat (be_nat (take 4 (drop 4 v))))" "be_nat (take 4 (drop 4 v)) < 2 ^ 32" if "12 \<le> length v"
    using be32_lies [OF lies_take [OF lies_drop [OF v(1), of 4], of 4]] be_nat_bound [of "take 4 (drop 4 v)"] that by simp_all
  show ?thesis
  proof (cases "12 \<le> length v")
    case True
    then show ?thesis using g ucast_u32_nat [OF g(2)] d by (simp add: take_irq_def e u irq_of_def at_depth_level)
  next
    case False
    then show ?thesis using f ucast_u32_nat [OF f(2)] d by (simp add: take_irq_def e u irq_of_def at_depth_level)
  qed
qed

lemma take_cells_lies:
  assumes v: "lies m val v" and d: "w_depth w < length (w_lvl w)"
  shows "fdt_str_eq m pname ''#address-cells'' = Some (k = ''#address-cells'') \<Longrightarrow> k = ''#address-cells'' \<longrightarrow> length v = 4 \<Longrightarrow>
      take_addr_cells m pname val w =
        Some (if k = ''#address-cells'' then at_depth (\<lambda>l. l\<lparr>addr_cells := word_of_nat (be_nat v)\<rparr>) w else w)"
    "fdt_str_eq m pname ''#size-cells'' = Some (k = ''#size-cells'') \<Longrightarrow> k = ''#size-cells'' \<longrightarrow> length v = 4 \<Longrightarrow>
      take_size_cells m pname val w =
        Some (if k = ''#size-cells'' then at_depth (\<lambda>l. l\<lparr>size_cells := word_of_nat (be_nat v)\<rparr>) w else w)"
  using be32_lies [OF v] d by (simp_all add: take_addr_cells_def take_size_cells_def at_depth_level)

text \<open>One property changes its level as it says, and the arguments when it states them.\<close>

lemma take_prop_lies:
  assumes k: "lies m pname (text_bytes k)" and v: "lies m val v" "val + length v + 4 \<le> length m" "length v < 2 ^ 32"
    and wf: "prop_wf (k, v)" and d: "0 < w_depth w" "w_depth w < length (w_lvl w)"
    and c: "addr_cells (w_lvl w ! (w_depth w - 1)) = word_of_nat (fst c)" "size_cells (w_lvl w ! (w_depth w - 1)) = word_of_nat (snd c)"
      "fst c < 2 ^ 29" "snd c < 2 ^ 29"
  shows "\<exists>g. take_prop m pname val (word_of_nat (length v)) w =
      Some ((at_depth g w)\<lparr>w_bootargs := (if is_chosen (w_lvl w ! w_depth w) \<and> k = ''bootargs'' then Some val else w_bootargs w)\<rparr>) \<and>
    level_says c [(k, v)] (w_lvl w ! w_depth w) (g (w_lvl w ! w_depth w))"
proof -
  have e: "fdt_str_eq m pname t = Some (k = t)" if "NULC \<notin> set t" for t
    using str_eq_lies [OF k _ that] wf by (simp add: prop_wf_def)
  note es = e [of "''#address-cells''"] e [of "''#size-cells''"] e [of "''bootargs''"] e [of "''reg''"] e [of "''interrupts''"]
  define w1 where "w1 = (if k = ''#address-cells'' then at_depth (\<lambda>l. l\<lparr>addr_cells := word_of_nat (be_nat v)\<rparr>) w else w)"
  define w2 where "w2 = (if k = ''#size-cells'' then at_depth (\<lambda>l. l\<lparr>size_cells := word_of_nat (be_nat v)\<rparr>) w1 else w1)"
  define w3 where "w3 = (if is_chosen (w_lvl w ! w_depth w) \<and> k = ''bootargs'' then w2\<lparr>w_bootargs := Some val\<rparr> else w2)"
  have s1: "take_addr_cells m pname val w = Some w1"
    unfolding w1_def by (rule take_cells_lies(1) [OF v(1) d(2)]) (use es wf in \<open>auto simp: prop_wf_def\<close>)
  have d1: "w_depth w1 = w_depth w" "length (w_lvl w1) = length (w_lvl w)" by (simp_all add: w1_def)
  have s2: "take_size_cells m pname val w1 = Some w2"
    unfolding w2_def by (rule take_cells_lies(2) [OF v(1)]) (use es wf d d1 in \<open>auto simp: prop_wf_def\<close>)
  have d2: "w_depth w2 = w_depth w" "length (w_lvl w2) = length (w_lvl w)" "is_chosen (w_lvl w2 ! w_depth w) = is_chosen (w_lvl w ! w_depth w)"
    using d d1 by (simp_all add: w1_def w2_def)
  have s3: "take_bootargs m pname val w2 = Some w3" using es(3) d2 by (simp add: take_bootargs_def w3_def)
  have d3: "w_depth w3 = w_depth w" "length (w_lvl w3) = length (w_lvl w)" "w_lvl w3 ! (w_depth w - 1) = w_lvl w ! (w_depth w - 1)"
    using d2 d by (simp_all add: w3_def w2_def w1_def)
  obtain b z where r: "take_reg m pname val (word_of_nat (length v)) w3 =
      Some (if k = ''reg'' \<and> 4 * (fst c + snd c) \<le> length v then at_depth (\<lambda>l. l\<lparr>reg_base := b, reg_size := z\<rparr>) w3 else w3)"
    "cells_count c \<and> k = ''reg'' \<and> 4 * (fst c + snd c) \<le> length v \<longrightarrow> (b, z) = reg_of c [(k, v)]"
    using take_reg_lies [OF es(4) v, of w3 c] c d d3 by auto
  define w4 where "w4 = (if k = ''reg'' \<and> 4 * (fst c + snd c) \<le> length v then at_depth (\<lambda>l. l\<lparr>reg_base := b, reg_size := z\<rparr>) w3 else w3)"
  have d4: "w_depth w4 < length (w_lvl w4)" using d d3 by (simp add: w4_def)
  define g :: "fdt_lvl \<Rightarrow> fdt_lvl" where "g = (\<lambda>l. if k = ''#address-cells'' then l\<lparr>addr_cells := word_of_nat (be_nat v)\<rparr>
    else if k = ''#size-cells'' then l\<lparr>size_cells := word_of_nat (be_nat v)\<rparr>
    else if k = ''reg'' \<and> 4 * (fst c + snd c) \<le> length v then l\<lparr>reg_base := b, reg_size := z\<rparr>
    else if k = ''interrupts'' \<and> 4 \<le> length v then l\<lparr>lvl_irq := irq_of [(k, v)]\<rparr> else l)"
  have "take_prop m pname val (word_of_nat (length v)) w =
      Some (if k = ''interrupts'' \<and> 4 \<le> length v then at_depth (\<lambda>l. l\<lparr>lvl_irq := irq_of [(k, v)]\<rparr>) w4 else w4)"
    unfolding take_prop_def s1 using s2 s3 r(1) [folded w4_def] take_irq_lies [OF es(5) v(1,3) d4] by simp
  also have "(if k = ''interrupts'' \<and> 4 \<le> length v then at_depth (\<lambda>l. l\<lparr>lvl_irq := irq_of [(k, v)]\<rparr>) w4 else w4) =
      (at_depth g w)\<lparr>w_bootargs := (if is_chosen (w_lvl w ! w_depth w) \<and> k = ''bootargs'' then Some val else w_bootargs w)\<rparr>"
    by (simp add: w4_def w3_def w2_def w1_def g_def at_depth_def)
  finally have "take_prop m pname val (word_of_nat (length v)) w =
      Some ((at_depth g w)\<lparr>w_bootargs := (if is_chosen (w_lvl w ! w_depth w) \<and> k = ''bootargs'' then Some val else w_bootargs w)\<rparr>)" .
  moreover have "level_says c [(k, v)] l (g l)" for l
    using r(2) by (auto simp: level_says_def g_def irq_of_def reg_of_def)
  ultimately show ?thesis by blast
qed

section \<open>Walking\<close>

lemma pad4_round: "(n + 3) div 4 * 4 = n + pad4 n"
proof -
  define q r where "q = n div 4" and "r = n mod 4"
  have n: "n = 4 * q + r" "r < 4" by (simp_all add: q_def r_def)
  have "(4 * q + r + 3) div 4 = q + (r + 3) div 4" by simp
  then show ?thesis using n by (cases "r = 0") (auto simp: pad4_def div_eq_dividend_iff le_div_geq)
qed

lemma length_padded: "length (padded bs) = length bs + pad4 (length bs)"
  by (simp add: padded_def)

lemma round4_word:
  assumes "n + 3 < 2 ^ 32"
  shows "unat ((word_of_nat n + 3 :: u32) AND NOT 3) = n + pad4 n"
proof -
  have "unat (word_of_nat n + 3 :: u32) = n + 3" using assms by (subst unat_add_no_wrap) (simp_all add: unat_u32_nat)
  moreover have "(3 :: u32) = mask 2" by (simp add: mask_eq_exp_minus_1)
  ultimately show ?thesis using pad4_round [of n] unat_and_not_mask [of "word_of_nat n + 3 :: u32" 2] by simp
qed

lemma loop_step: "fdt_step m S w = Some (True, w') \<Longrightarrow> fdt_loop m S w = fdt_loop m S w'"
  by (subst fdt_loop.simps) simp

lemma loop_stop: "fdt_step m S w = Some (False, w') \<Longrightarrow> fdt_loop m S w = Some w'"
  by (subst fdt_loop.simps) simp

lemmas token_defs = FDT_END_def FDT_NOP_def FDT_BEGIN_NODE_def FDT_END_NODE_def FDT_PROP_def

text \<open>The strings that the properties name.\<close>

definition named :: "u8 list \<Rightarrow> nat \<Rightarrow> (string \<Rightarrow> nat) \<Rightarrow> string \<Rightarrow> bool" where
  "named m S so k \<longleftrightarrow> lies m (S + so k) (text_bytes k) \<and> so k < 2 ^ 32"

definition chosen_args :: "fdt_lvl \<Rightarrow> (string \<times> u8 list) list \<Rightarrow> u8 list option" where
  "chosen_args l ps = (if is_chosen l then map_of ps ''bootargs'' else None)"

definition args_at :: "u8 list \<Rightarrow> u8 list option \<Rightarrow> nat option \<Rightarrow> nat option \<Rightarrow> bool" where
  "args_at m v a a' \<longleftrightarrow> (case v of None \<Rightarrow> a' = a | Some v \<Rightarrow> \<exists>x. a' = Some x \<and> lies m x v)"

lemma prop_step:
  assumes b: "lies m (w_p w) (prop_bytes so (k, v))" "w_p w + length (prop_bytes so (k, v)) + 4 \<le> length m" "w_p w + length (prop_bytes so (k, v)) < 2 ^ 32"
    and n: "named m S so k" and wf: "prop_wf (k, v)" and d: "0 < w_depth w" "w_depth w < 16" "length (w_lvl w) = 16"
    and c: "addr_cells (w_lvl w ! (w_depth w - 1)) = word_of_nat (fst c)" "size_cells (w_lvl w ! (w_depth w - 1)) = word_of_nat (snd c)"
      "fst c < 2 ^ 29" "snd c < 2 ^ 29"
  shows "\<exists>l' a. fdt_loop m S w = fdt_loop m S (w\<lparr>w_p := w_p w + length (prop_bytes so (k, v)), w_lvl := (w_lvl w)[w_depth w := l'], w_bootargs := a\<rparr>) \<and>
    level_says c [(k, v)] (w_lvl w ! w_depth w) l' \<and> args_at m (chosen_args (w_lvl w ! w_depth w) [(k, v)]) (w_bootargs w) a"
proof -
  let ?p = "w_p w" and ?w = "w\<lparr>w_p := w_p w + length (prop_bytes so (k, v))\<rparr>"
  have len: "length (prop_bytes so (k, v)) = 12 + length v + pad4 (length v)" by (simp add: prop_bytes_def length_padded)
  have f: "lies m ?p (be_bytes 4 3)" "lies m (?p + 4) (be_bytes 4 (length v))" "lies m (?p + 8) (be_bytes 4 (so k))" "lies m (?p + 12) v"
    using b(1) unfolding prop_bytes_def padded_def lies_append by (simp_all add: add.assoc)
  have l: "length v < 2 ^ 32" "length v + 3 < 2 ^ 32" using b(3) len by simp_all
  have r: "fdt_be32 m ?p = Some 3" "fdt_be32 m (?p + 4) = Some (word_of_nat (length v))" "fdt_be32 m (?p + 8) = Some (word_of_nat (so k))"
    using be32_bytes [OF f(1)] be32_bytes [OF f(2) l(1)] be32_bytes [OF f(3)] n by (simp_all add: named_def)
  have u: "unat (word_of_nat (so k) :: u32) = so k" using n by (simp add: named_def unat_u32_nat)
  obtain g where g: "take_prop m (S + so k) (?p + 12) (word_of_nat (length v)) ?w =
      Some ((at_depth g ?w)\<lparr>w_bootargs := (if is_chosen (w_lvl ?w ! w_depth ?w) \<and> k = ''bootargs'' then Some (?p + 12) else w_bootargs ?w)\<rparr>)"
    "level_says c [(k, v)] (w_lvl ?w ! w_depth ?w) (g (w_lvl ?w ! w_depth ?w))"
    using take_prop_lies [of m "S + so k" k "?p + 12" v ?w c] n f(4) b(2) len l(1) wf d c by (auto simp: named_def)
  have "w_outside w \<or> length (w_lvl w) \<le> w_depth w \<longleftrightarrow> w_outside w" using d by simp
  then have "fdt_step m S w = Some (True, (at_depth g ?w)\<lparr>w_bootargs := (if is_chosen (w_lvl w ! w_depth w) \<and> k = ''bootargs'' then Some (?p + 12) else w_bootargs w)\<rparr>)"
    using r d g(1) len round4_word [OF l(2)] u
    by (simp add: fdt_step_def prop_node_def token_defs FDT_MAX_DEPTH_def Let_def add.assoc)
  from loop_step [OF this] show ?thesis using g(2) f(4)
    by (intro exI [of _ "g (w_lvl w ! w_depth w)"] exI conjI) (auto simp: at_depth_def args_at_def chosen_args_def)
qed

lemma args_at_cons:
  assumes "args_at m (chosen_args l [kv]) a a1" "args_at m (chosen_args l ps) a1 a2" "fst kv \<notin> set (map fst ps)"
  shows "args_at m (chosen_args l (kv # ps)) a a2"
proof -
  have "map_of ps (fst kv) = None" using assms(3) by (simp add: map_of_eq_None_iff)
  then show ?thesis using assms(1,2) by (cases kv) (auto simp: args_at_def chosen_args_def split: if_splits)
qed

lemma props_walk:
  assumes "lies m (w_p w) (concat (map (prop_bytes so) ps))" "w_p w + length (concat (map (prop_bytes so) ps)) + 4 \<le> length m"
    "w_p w + length (concat (map (prop_bytes so) ps)) < 2 ^ 32"
    and "list_all (named m S so) (map fst ps)" "list_all prop_wf ps" "distinct (map fst ps)"
    and "0 < w_depth w" "w_depth w < 16" "length (w_lvl w) = 16"
    and "addr_cells (w_lvl w ! (w_depth w - 1)) = word_of_nat (fst c)" "size_cells (w_lvl w ! (w_depth w - 1)) = word_of_nat (snd c)"
      "fst c < 2 ^ 29" "snd c < 2 ^ 29"
  shows "\<exists>l' a. fdt_loop m S w =
      fdt_loop m S (w\<lparr>w_p := w_p w + length (concat (map (prop_bytes so) ps)), w_lvl := (w_lvl w)[w_depth w := l'], w_bootargs := a\<rparr>) \<and>
    level_says c ps (w_lvl w ! w_depth w) l' \<and> args_at m (chosen_args (w_lvl w ! w_depth w) ps) (w_bootargs w) a"
  using assms
proof (induction ps arbitrary: w)
  case Nil
  show ?case by (rule exI [of _ "w_lvl w ! w_depth w"], rule exI [of _ "w_bootargs w"])
      (simp add: level_says_nil args_at_def chosen_args_def list_update_id)
next
  case (Cons kv ps)
  obtain k v where kv: "kv = (k, v)" by (cases kv)
  let ?n = "length (prop_bytes so (k, v))"
  have b: "lies m (w_p w) (prop_bytes so (k, v))" "lies m (w_p w + ?n) (concat (map (prop_bytes so) ps))"
    using Cons.prems(1) by (simp_all add: kv lies_append)
  obtain l1 a1 where s: "fdt_loop m S w = fdt_loop m S (w\<lparr>w_p := w_p w + ?n, w_lvl := (w_lvl w)[w_depth w := l1], w_bootargs := a1\<rparr>)"
    "level_says c [(k, v)] (w_lvl w ! w_depth w) l1" "args_at m (chosen_args (w_lvl w ! w_depth w) [(k, v)]) (w_bootargs w) a1"
    using prop_step [OF b(1), of S c] Cons.prems by (auto simp: kv)
  let ?w = "w\<lparr>w_p := w_p w + ?n, w_lvl := (w_lvl w)[w_depth w := l1], w_bootargs := a1\<rparr>"
  have ch: "chosen_args (w_lvl ?w ! w_depth ?w) ps = chosen_args (w_lvl w ! w_depth w) ps"
    using s(2) Cons.prems(8,9) by (simp add: chosen_args_def level_says_def)
  obtain l2 a2 where t: "fdt_loop m S ?w = fdt_loop m S (?w\<lparr>w_p := w_p ?w + length (concat (map (prop_bytes so) ps)), w_lvl := (w_lvl ?w)[w_depth ?w := l2], w_bootargs := a2\<rparr>)"
    "level_says c ps (w_lvl ?w ! w_depth ?w) l2" "args_at m (chosen_args (w_lvl ?w ! w_depth ?w) ps) (w_bootargs ?w) a2"
    using Cons.IH [of ?w] b(2) Cons.prems by (auto simp: kv add.assoc)
  have "level_says c (kv # ps) (w_lvl w ! w_depth w) l2"
    by (rule level_says_cons) (use s(2) t(2) Cons.prems(6,8,9) in \<open>simp_all add: kv\<close>)
  moreover have "args_at m (chosen_args (w_lvl w ! w_depth w) (kv # ps)) (w_bootargs w) a2"
    by (rule args_at_cons) (use s(3) t(3) [unfolded ch] Cons.prems(6) in \<open>simp_all add: kv\<close>)
  ultimately show ?case using s(1) t(1)
    by (intro exI [of _ l2] exI [of _ a2] conjI) (simp_all add: kv add.assoc)
qed

text \<open>What the walk has gathered: devices, memories and command lines.\<close>

definition dt_rep :: "u8 list \<Rightarrow> fdt_walk \<Rightarrow> (u64 \<times> u64 \<times> u64) list \<Rightarrow> (u64 \<times> u64) list \<Rightarrow> string list \<Rightarrow> bool" where
  "dt_rep m w ds rs ts \<longleftrightarrow>
    dt_holds (w_devs w) (dt_cut (concat (map dev_entry ds))) \<and> dt_holds (w_out w) [] \<and>
    devices (w_out w) = length ds \<and> length (dev_base (w_out w)) = 32 \<and> take (length ds) (dev_base (w_out w)) = take 32 (map fst ds) \<and>
    (ram_base (w_out w), ram_size (w_out w)) = (case rs of [] \<Rightarrow> (0, 0) | r # _ \<Rightarrow> r) \<and> (\<forall>r \<in> set rs. snd r \<noteq> 0) \<and>
    (if ts = [] then w_bootargs w = None
     else \<exists>a. w_bootargs w = Some a \<and> lies m a (text_bytes (last ts)) \<and> NULC \<notin> set (last ts))"

lemma rep_virtio:
  assumes "dt_rep m w ds rs ts"
  shows "dt_rep m (virtio_entry l w) (ds @ (if is_virtio l \<and> reg_size l \<noteq> 0 then [(reg_base l, reg_size l, lvl_irq l)] else [])) rs ts"
proof (cases "is_virtio l \<and> reg_size l \<noteq> 0")
  case True
  let ?d = "(reg_base l, reg_size l, lvl_irq l)" and ?b = "dev_base (w_out w)"
  have r: "dt_holds (w_devs w) (dt_cut (concat (map dev_entry ds)))" "dt_holds (w_out w) []" "devices (w_out w) = length ds"
    "length ?b = 32" "take (length ds) ?b = take 32 (map fst ds)" using assms by (simp_all add: dt_rep_def)
  have "take (Suc (length ds)) (if length ds < 32 then ?b[length ds := reg_base l] else ?b) = take 32 (map fst (ds @ [?d]))"
    using r(4,5) by (auto simp: take_Suc_conv_app_nth)
  moreover have "dt_holds f [] \<Longrightarrow> dt_holds (f\<lparr>dev_base := x, devices := y\<rparr>) []" "dt_holds f [] \<Longrightarrow> dt_holds (f\<lparr>devices := y\<rparr>) []" for f x y
    by (simp_all add: dt_holds_def dt_bare_def)
  ultimately show ?thesis using True assms entry_text [OF r(1), of "reg_size l" "reg_base l" "lvl_irq l"] r(2-4)
    by (auto simp: virtio_entry_def dt_rep_def Let_def FDT_MAX_DEVS_def)
next
  case False
  then show ?thesis using assms unfolding virtio_entry_def by (simp only: if_False append_Nil2)
qed

lemma rep_memory:
  assumes "dt_rep m w ds rs ts"
  shows "dt_rep m (memory_entry l w) ds (rs @ (if is_memory l \<and> reg_size l \<noteq> 0 then [(reg_base l, reg_size l)] else [])) ts"
proof -
  have "ram_size (w_out w) = 0 \<longleftrightarrow> rs = []" using assms by (auto simp: dt_rep_def split: list.splits)
  moreover have "dt_holds f [] \<Longrightarrow> dt_holds (f\<lparr>ram_base := x, ram_size := y\<rparr>) []" for f x y
    by (simp add: dt_holds_def dt_bare_def)
  ultimately show ?thesis using assms by (auto simp: memory_entry_def dt_rep_def split: list.splits)
qed

lemma entry_place [simp]:
  "w_depth (virtio_entry l w) = w_depth w" "w_lvl (virtio_entry l w) = w_lvl w" "w_outside (virtio_entry l w) = w_outside w"
  "w_depth (memory_entry l w) = w_depth w" "w_lvl (memory_entry l w) = w_lvl w" "w_outside (memory_entry l w) = w_outside w"
  by (simp_all add: virtio_entry_def memory_entry_def Let_def)

lemma end_step:
  assumes "lies m (w_p w) (be_bytes 4 2)" "0 < w_depth w" "w_depth w < 16" "length (w_lvl w) = 16" "dt_rep m w ds rs ts" "l = w_lvl w ! w_depth w"
  shows "\<exists>w'. fdt_loop m S w = fdt_loop m S w' \<and> w_p w' = w_p w + 4 \<and> w_depth w' = w_depth w - 1 \<and> w_lvl w' = w_lvl w \<and> w_outside w' = w_outside w \<and>
    dt_rep m w' (ds @ (if is_virtio l \<and> reg_size l \<noteq> 0 then [(reg_base l, reg_size l, lvl_irq l)] else []))
      (rs @ (if is_memory l \<and> reg_size l \<noteq> 0 then [(reg_base l, reg_size l)] else [])) ts"
proof -
  let ?w = "w\<lparr>w_p := w_p w + 4\<rparr>"
  let ?e = "memory_entry l (virtio_entry l ?w)"
  have "dt_rep m ?w ds rs ts" using assms(5) by (simp add: dt_rep_def)
  note r = rep_memory [OF rep_virtio [OF this, of l], of l]
  have "fdt_be32 m (w_p w) = Some 2" using be32_bytes [OF assms(1)] by simp
  moreover have "w_outside w \<or> length (w_lvl w) \<le> w_depth w \<longleftrightarrow> w_outside w" using assms(3,4) by simp
  ultimately have "fdt_step m S w = Some (True, ?e\<lparr>w_depth := w_depth w - 1\<rparr>)"
    using assms(2,3,4,6) by (simp add: fdt_step_def end_node_def token_defs FDT_MAX_DEPTH_def Let_def)
  from loop_step [OF this] show ?thesis using r
    by (intro exI [of _ "?e\<lparr>w_depth := w_depth w - 1\<rparr>"] conjI) (simp_all add: dt_rep_def)
qed

lemma classify_lies:
  assumes "lies m a (text_bytes n)" "NULC \<notin> set n"
  shows "classify m a = Some (names_virtio n, names_memory n, n = ''chosen'')"
  using str_prefix_lies [OF assms(1)] str_eq_lies [OF assms] by (simp add: classify_def names_virtio_def names_memory_def)

lemma begin_step:
  assumes "lies m (w_p w) (be_bytes 4 1 @ padded (text_bytes n))" "NULC \<notin> set n" "w_depth w + 1 < 16" "length (w_lvl w) = 16"
  shows "fdt_loop m S w = fdt_loop m S (open_level (names_virtio n, names_memory n, n = ''chosen'')
    (w\<lparr>w_p := w_p w + length (be_bytes 4 1 @ padded (text_bytes n)), w_depth := w_depth w + 1\<rparr>))"
proof -
  have f: "lies m (w_p w) (be_bytes 4 1)" "lies m (w_p w + 4) (text_bytes n)" using assms(1) by (simp_all add: lies_append padded_def)
  have "fdt_be32 m (w_p w) = Some 1" using be32_bytes [OF f(1)] by simp
  moreover have "length (padded (text_bytes n)) = (length n + 1 + 3) div 4 * 4"
    using pad4_round [of "length n + 1"] by (simp add: length_padded text_bytes_def)
  ultimately show ?thesis using assms(3) name_len_lies [of m "w_p w + 4" 0 n] classify_lies [OF f(2) assms(2)] f(2) assms(2)
    by (intro loop_step) (simp add: fdt_step_def begin_node_def token_defs FDT_MAX_DEPTH_def Let_def add.assoc)
qed

definition walked :: "u8 list \<Rightarrow> nat \<Rightarrow> fdt_walk \<Rightarrow> nat \<Rightarrow> fdt_walk \<Rightarrow> bool" where
  "walked m S w n w' \<longleftrightarrow> fdt_loop m S w = fdt_loop m S w' \<and> w_p w' = w_p w + n \<and> w_depth w' = w_depth w \<and> length (w_lvl w') = 16 \<and>
    take (Suc (w_depth w)) (w_lvl w') = take (Suc (w_depth w)) (w_lvl w) \<and> w_outside w' = w_outside w"

lemma walked_trans: "walked m S u a v \<Longrightarrow> walked m S v b w \<Longrightarrow> walked m S u (a + b) w"
  by (simp add: walked_def)

lemma walked_level: "walked m S w n w' \<Longrightarrow> i \<le> w_depth w \<Longrightarrow> w_lvl w' ! i = w_lvl w ! i"
  unfolding walked_def by (metis less_Suc_eq_le nth_take)

definition cells_at :: "fdt_walk \<Rightarrow> cells \<Rightarrow> bool" where
  "cells_at w c \<longleftrightarrow> addr_cells (w_lvl w ! w_depth w) = word_of_nat (fst c) \<and> size_cells (w_lvl w ! w_depth w) = word_of_nat (snd c) \<and>
    fst c < 2 ^ 29 \<and> snd c < 2 ^ 29"

lemma own_cells_bound:
  assumes "list_all prop_wf ps" "fst c < 2 ^ 29" "snd c < 2 ^ 29"
  shows "fst (own_cells c ps) < 2 ^ 29" "snd (own_cells c ps) < 2 ^ 29"
proof -
  have "prop_wf (k, v)" if "map_of ps k = Some v" for k v using that assms(1) by (auto simp: list_all_iff dest: map_of_SomeD)
  then show "fst (own_cells c ps) < 2 ^ 29" "snd (own_cells c ps) < 2 ^ 29"
    using assms(2,3) by (auto simp: own_cells_def prop_wf_def split: option.split)
qed

text \<open>The claim about a node, for the nodes below one as a list.\<close>

definition node_claim :: "u8 list \<Rightarrow> nat \<Rightarrow> (string \<Rightarrow> nat) \<Rightarrow> dt_node \<Rightarrow> bool" where
  "node_claim m S so nd \<longleftrightarrow> (\<forall>c w ds rs ts.
    node_wf c nd \<longrightarrow> lies m (w_p w) (node_bytes so nd) \<longrightarrow> w_p w + length (node_bytes so nd) + 4 \<le> length m \<longrightarrow>
    w_p w + length (node_bytes so nd) < 2 ^ 32 \<longrightarrow> (\<forall>k \<in> node_names nd. named m S so k) \<longrightarrow> w_depth w + node_height nd \<le> 15 \<longrightarrow>
    length (w_lvl w) = 16 \<longrightarrow> cells_at w c \<longrightarrow> dt_rep m w ds rs ts \<longrightarrow>
    (\<exists>w'. walked m S w (length (node_bytes so nd)) w' \<and> dt_rep m w' (ds @ node_devs c nd) (rs @ node_rams c nd) (ts @ node_args nd)))"

lemma kids_walk:
  assumes "\<forall>k \<in> set ks. node_claim m S so k" "list_all (node_wf c) ks" "lies m (w_p w) (concat (map (node_bytes so) ks))"
    "w_p w + length (concat (map (node_bytes so) ks)) + 4 \<le> length m" "w_p w + length (concat (map (node_bytes so) ks)) < 2 ^ 32"
    "\<forall>nd \<in> set ks. \<forall>k \<in> node_names nd. named m S so k" "\<forall>k \<in> set ks. w_depth w + node_height k \<le> 15"
    "length (w_lvl w) = 16" "cells_at w c" "dt_rep m w ds rs ts"
  shows "\<exists>w'. walked m S w (length (concat (map (node_bytes so) ks))) w' \<and>
    dt_rep m w' (ds @ concat (map (node_devs c) ks)) (rs @ concat (map (node_rams c) ks)) (ts @ concat (map node_args ks))"
  using assms
proof (induction ks arbitrary: w ds rs ts)
  case Nil
  then show ?case by (auto simp: walked_def)
next
  case (Cons k ks)
  have b: "lies m (w_p w) (node_bytes so k)" "lies m (w_p w + length (node_bytes so k)) (concat (map (node_bytes so) ks))"
    using Cons.prems(3) by (simp_all add: lies_append)
  have "node_claim m S so k" using Cons.prems(1) by simp
  then obtain w1 where w1: "walked m S w (length (node_bytes so k)) w1" "dt_rep m w1 (ds @ node_devs c k) (rs @ node_rams c k) (ts @ node_args k)"
    unfolding node_claim_def using b(1) Cons.prems by (elim allE [of _ c] allE [of _ w] allE [of _ ds] allE [of _ rs] allE [of _ ts]) auto
  have p: "w_p w1 = w_p w + length (node_bytes so k)" "w_depth w1 = w_depth w" "length (w_lvl w1) = 16" using w1(1) by (simp_all add: walked_def)
  have "cells_at w1 c" using Cons.prems(9) walked_level [OF w1(1), of "w_depth w"] p(2) by (simp add: cells_at_def)
  then obtain w2 where w2: "walked m S w1 (length (concat (map (node_bytes so) ks))) w2"
    "dt_rep m w2 ((ds @ node_devs c k) @ concat (map (node_devs c) ks)) ((rs @ node_rams c k) @ concat (map (node_rams c) ks))
      ((ts @ node_args k) @ concat (map node_args ks))"
    using Cons.IH [of w1 "ds @ node_devs c k" "rs @ node_rams c k" "ts @ node_args k"] w1(2) b(2) Cons.prems p by (auto simp: add.assoc)
  show ?case using walked_trans [OF w1(1) w2(1)] w2(2) by auto
qed

lemma level_says_zero:
  assumes "level_says c ps l l'" "reg_base l = 0" "reg_size l = 0" "lvl_irq l = 0"
  shows "lvl_irq l' = irq_of ps" "cells_count c \<Longrightarrow> (reg_base l', reg_size l') = reg_of c ps"
proof -
  show "lvl_irq l' = irq_of ps"
  proof (cases "map_of ps ''interrupts'' = None")
    case True
    then have "irq_of ps = 0" by (simp add: irq_of_def)
    then show ?thesis using True assms(1,4) unfolding level_says_def by presburger
  next
    case False
    then show ?thesis using assms(1,4) unfolding level_says_def by presburger
  qed
  show "(reg_base l', reg_size l') = reg_of c ps" if cc: "cells_count c"
  proof (cases "map_of ps ''reg'' = None")
    case True
    then have "reg_of c ps = (0, 0)" by (simp add: reg_of_def)
    then show ?thesis using True cc assms(1-3) unfolding level_says_def by simp
  next
    case False
    then show ?thesis using cc assms(1-3) unfolding level_says_def by presburger
  qed
qed

lemma level_says_cells:
  assumes "level_says c ps l l'" "addr_cells l = word_of_nat (fst c)" "size_cells l = word_of_nat (snd c)"
  shows "addr_cells l' = word_of_nat (fst (own_cells c ps))" "size_cells l' = word_of_nat (snd (own_cells c ps))"
  using assms by (simp_all add: level_says_def own_cells_def split: option.split)

lemma rep_args:
  assumes "dt_rep m w ds rs ts" "args_at m (if n = ''chosen'' then map_of ps ''bootargs'' else None) (w_bootargs w) a" "list_all prop_wf ps"
    "w_bootargs w' = a" "w_devs w' = w_devs w" "w_out w' = w_out w"
  shows "dt_rep m w' ds rs (ts @ (if n = ''chosen'' then case map_of ps ''bootargs'' of None \<Rightarrow> [] | Some v \<Rightarrow> [text_of v] else []))"
proof (cases "if n = ''chosen'' then map_of ps ''bootargs'' else None")
  case None
  then have "(if n = ''chosen'' then case map_of ps ''bootargs'' of None \<Rightarrow> [] | Some v \<Rightarrow> [text_of v] else []) = []" "a = w_bootargs w"
    using assms(2) by (auto simp: args_at_def split: if_splits)
  then show ?thesis using assms by (simp add: dt_rep_def)
next
  case (Some v)
  then have e: "(if n = ''chosen'' then case map_of ps ''bootargs'' of None \<Rightarrow> [] | Some v \<Rightarrow> [text_of v] else []) = [text_of v]"
    and v: "map_of ps ''bootargs'' = Some v" by (auto split: if_splits)
  obtain x where x: "a = Some x" "lies m x v" using assms(2) by (auto simp: args_at_def Some)
  have "(''bootargs'', v) \<in> set ps" using v by (rule map_of_SomeD)
  then have "0 \<in> set v" using assms(3) by (auto simp: list_all_iff prop_wf_def)
  then show ?thesis unfolding e using text_of_lies [OF x(2)] assms x(1) by (simp add: dt_rep_def)
qed

lemma fold_max_start: "a \<le> fold max xs (a :: nat)"
proof (induction xs arbitrary: a)
  case (Cons y ys)
  show ?case using Cons [of "max y a"] by simp
qed simp

lemma fold_max_member: "x \<in> set xs \<Longrightarrow> x \<le> fold max xs (a :: nat)"
proof (induction xs arbitrary: a)
  case (Cons y ys)
  show ?case
  proof (cases "x = y")
    case True
    then show ?thesis using fold_max_start [of "max y a" ys] by simp
  next
    case False
    then show ?thesis using Cons by simp
  qed
qed simp

lemma open_props:
  fixes n ps so
  defines "B \<equiv> be_bytes 4 1 @ padded (text_bytes n)" and "P \<equiv> concat (map (prop_bytes so) ps)"
  assumes bytes: "lies m (w_p w) B" "lies m (w_p w + length B) P" "w_p w + length B + length P + 4 \<le> length m" "w_p w + length B + length P < 2 ^ 32"
    and names: "list_all (named m S so) (map fst ps)"
    and wf: "NULC \<notin> set n" "distinct (map fst ps)" "list_all prop_wf ps"
    and d: "w_depth w + 1 < 16" "length (w_lvl w) = 16" and c: "cells_at w c" and r: "dt_rep m w ds rs ts"
  shows "\<exists>w2 l'. fdt_loop m S w = fdt_loop m S w2 \<and> w_p w2 = w_p w + length B + length P \<and> w_depth w2 = w_depth w + 1 \<and>
    w_lvl w2 = (w_lvl w)[w_depth w + 1 := l'] \<and> w_outside w2 = w_outside w \<and> cells_at w2 (own_cells c ps) \<and>
    is_virtio l' = names_virtio n \<and> is_memory l' = names_memory n \<and> lvl_irq l' = irq_of ps \<and>
    (cells_count c \<longrightarrow> (reg_base l', reg_size l') = reg_of c ps) \<and>
    dt_rep m w2 ds rs (ts @ (if n = ''chosen'' then case map_of ps ''bootargs'' of None \<Rightarrow> [] | Some v \<Rightarrow> [text_of v] else []))"
proof -
  let ?d = "w_depth w"
  let ?w1 = "open_level (names_virtio n, names_memory n, n = ''chosen'') (w\<lparr>w_p := w_p w + length B, w_depth := ?d + 1\<rparr>)"
  have s1: "fdt_loop m S w = fdt_loop m S ?w1" unfolding B_def by (rule begin_step [OF bytes(1) [unfolded B_def] wf(1) d])
  define l0 where "l0 = w_lvl ?w1 ! (?d + 1)"
  have w1: "w_p ?w1 = w_p w + length B" "w_depth ?w1 = ?d + 1" "w_lvl ?w1 = (w_lvl w)[?d + 1 := l0]" "w_outside ?w1 = w_outside w"
    "w_bootargs ?w1 = w_bootargs w" "w_devs ?w1 = w_devs w" "w_out ?w1 = w_out w"
    using d by (simp_all add: l0_def open_level_def at_level_def Let_def)
  have l0: "addr_cells l0 = word_of_nat (fst c)" "size_cells l0 = word_of_nat (snd c)" "is_virtio l0 = names_virtio n" "is_memory l0 = names_memory n"
    "is_chosen l0 = (n = ''chosen'')" "reg_base l0 = 0" "reg_size l0 = 0" "lvl_irq l0 = 0"
    using d c by (simp_all add: l0_def open_level_def at_level_def Let_def cells_at_def)
  have cb: "fst c < 2 ^ 29" "snd c < 2 ^ 29" using c by (simp_all add: cells_at_def)
  have "w_lvl ?w1 ! (w_depth ?w1 - 1) = w_lvl w ! ?d" "w_lvl ?w1 ! w_depth ?w1 = l0" unfolding w1 using d by simp_all
  then obtain l' a where p: "fdt_loop m S ?w1 = fdt_loop m S (?w1\<lparr>w_p := w_p ?w1 + length P, w_lvl := (w_lvl ?w1)[w_depth ?w1 := l'], w_bootargs := a\<rparr>)"
    "level_says c ps l0 l'" "args_at m (chosen_args l0 ps) (w_bootargs ?w1) a"
    using props_walk [of m ?w1 so ps S c] bytes(2-4) names wf(2,3) d c unfolding w1 P_def by (auto simp: cells_at_def)
  define w2 where "w2 = ?w1\<lparr>w_p := w_p ?w1 + length P, w_lvl := (w_lvl ?w1)[w_depth ?w1 := l'], w_bootargs := a\<rparr>"
  have w2: "w_p w2 = w_p w + length B + length P" "w_depth w2 = ?d + 1" "w_lvl w2 = (w_lvl w)[?d + 1 := l']" "w_outside w2 = w_outside w"
    "w_devs w2 = w_devs w" "w_out w2 = w_out w" "w_bootargs w2 = a"
    unfolding w2_def using w1 by simp_all
  have "cells_at w2 (own_cells c ps)" unfolding cells_at_def w2
    using level_says_cells [OF p(2) l0(1,2)] own_cells_bound [OF wf(3) cb] d by simp
  moreover have "is_virtio l' = names_virtio n" "is_memory l' = names_memory n" using p(2) l0 by (simp_all add: level_says_def)
  moreover note level_says_zero [OF p(2) l0(6-8)]
  moreover have "dt_rep m w2 ds rs (ts @ (if n = ''chosen'' then case map_of ps ''bootargs'' of None \<Rightarrow> [] | Some v \<Rightarrow> [text_of v] else []))"
    by (rule rep_args [OF r _ wf(3)]) (use p(3) l0(5) w1(5) w2 in \<open>simp_all add: chosen_args_def\<close>)
  moreover have "fdt_loop m S w = fdt_loop m S w2" unfolding w2_def using s1 p(1) by simp
  ultimately show ?thesis using w2 by blast
qed

lemma node_walk: "node_claim m S so nd"
proof (induction nd)
  case (Node n ps ks)
  show ?case unfolding node_claim_def
  proof (intro allI impI, goal_cases)
    case (1 c w ds rs ts)
    let ?d = "w_depth w" and ?B = "be_bytes 4 1 @ padded (text_bytes n)" and ?P = "concat (map (prop_bytes so) ps)"
      and ?K = "concat (map (node_bytes so) ks)" and ?own = "own_cells c ps"
      and ?a = "if n = ''chosen'' then case map_of ps ''bootargs'' of None \<Rightarrow> [] | Some v \<Rightarrow> [text_of v] else []"
    have len: "length (node_bytes so (Node n ps ks)) = length ?B + length ?P + length ?K + 4" by simp
    have bytes: "lies m (w_p w) ?B" "lies m (w_p w + length ?B) ?P" "lies m (w_p w + length ?B + length ?P) ?K"
      "lies m (w_p w + length ?B + length ?P + length ?K) (be_bytes 4 2)"
      using 1(2) by (simp_all only: node_bytes.simps lies_append append.assoc length_append add.assoc)
    have wf: "NULC \<notin> set n" "distinct (map fst ps)" "list_all prop_wf ps" "names_virtio n \<or> names_memory n \<longrightarrow> cells_count c"
      "list_all (node_wf ?own) ks" using 1(1) by simp_all
    have h: "?d + 1 + node_height k \<le> 15" if "k \<in> set ks" for k
      using 1(6) fold_max_member [of "node_height k" "map node_height ks" 0] that by simp
    have d: "?d + 1 < 16" using 1(6) by simp
    have names: "list_all (named m S so) (map fst ps)" "\<forall>nd \<in> set ks. \<forall>k \<in> node_names nd. named m S so k"
      using 1(5) by (auto simp: list_all_iff)
    obtain w2 l' where w2: "fdt_loop m S w = fdt_loop m S w2" "w_p w2 = w_p w + length ?B + length ?P" "w_depth w2 = ?d + 1"
      "w_lvl w2 = (w_lvl w)[?d + 1 := l']" "w_outside w2 = w_outside w" "cells_at w2 ?own"
      "is_virtio l' = names_virtio n" "is_memory l' = names_memory n" "lvl_irq l' = irq_of ps"
      "cells_count c \<longrightarrow> (reg_base l', reg_size l') = reg_of c ps" "dt_rep m w2 ds rs (ts @ ?a)"
      using open_props [OF bytes(1,2) _ _ names(1) wf(1-3) d 1(7,8,9)] 1(3,4) unfolding len by auto
    obtain w3 where w3: "walked m S w2 (length ?K) w3"
      "dt_rep m w3 (ds @ concat (map (node_devs ?own) ks)) (rs @ concat (map (node_rams ?own) ks)) ((ts @ ?a) @ concat (map node_args ks))"
      using kids_walk [of ks m S so ?own w2 ds rs "ts @ ?a"] Node wf(5) bytes(3) 1(3,4,7) names(2) h w2 unfolding len by (auto simp: add.assoc)
    have l3: "w_p w3 = w_p w + length ?B + length ?P + length ?K" "w_depth w3 = ?d + 1" "length (w_lvl w3) = 16" "w_lvl w3 ! (?d + 1) = l'"
      using w3(1) w2(2-4) walked_level [OF w3(1), of "?d + 1"] d 1(7) by (auto simp: walked_def)
    obtain w4 where w4: "fdt_loop m S w3 = fdt_loop m S w4" "w_p w4 = w_p w3 + 4" "w_depth w4 = ?d" "w_lvl w4 = w_lvl w3" "w_outside w4 = w_outside w3"
      "dt_rep m w4 ((ds @ concat (map (node_devs ?own) ks)) @ (if is_virtio l' \<and> reg_size l' \<noteq> 0 then [(reg_base l', reg_size l', lvl_irq l')] else []))
        ((rs @ concat (map (node_rams ?own) ks)) @ (if is_memory l' \<and> reg_size l' \<noteq> 0 then [(reg_base l', reg_size l')] else [])) ((ts @ ?a) @ concat (map node_args ks))"
      using end_step [OF _ _ _ l3(3) w3(2), of l' S] bytes(4) d l3 by auto
    have reg: "names_virtio n \<or> names_memory n \<Longrightarrow> reg_base l' = fst (reg_of c ps) \<and> reg_size l' = snd (reg_of c ps)"
      using w2(10) wf(4) by (metis fst_conv snd_conv)
    have own: "(if is_virtio l' \<and> reg_size l' \<noteq> 0 then [(reg_base l', reg_size l', lvl_irq l')] else []) =
        (if names_virtio n \<and> snd (reg_of c ps) \<noteq> 0 then [(fst (reg_of c ps), snd (reg_of c ps), irq_of ps)] else [])"
      "(if is_memory l' \<and> reg_size l' \<noteq> 0 then [(reg_base l', reg_size l')] else []) =
        (if names_memory n \<and> snd (reg_of c ps) \<noteq> 0 then [reg_of c ps] else [])"
      using w2(7-9) reg by auto
    have "take (Suc ?d) (take (Suc (Suc ?d)) (w_lvl w3)) = take (Suc ?d) (take (Suc (Suc ?d)) (w_lvl w2))"
      using w3(1) w2(3) by (simp add: walked_def del: take_take)
    then have "take (Suc ?d) (w_lvl w4) = take (Suc ?d) (w_lvl w2)" using w4(4) by (simp add: min_def)
    then have "walked m S w (length (node_bytes so (Node n ps ks))) w4"
      using w2(1,4,5) w3(1) w4(1-5) l3(1,3) by (simp add: walked_def)
    moreover have "dt_rep m w4 (ds @ node_devs c (Node n ps ks)) (rs @ node_rams c (Node n ps ks)) (ts @ node_args (Node n ps ks))"
      using w4(6) [unfolded own] by (simp only: node_devs.simps node_rams.simps node_args.simps append_assoc)
    ultimately show ?case by blast
  qed
qed

section \<open>The whole image\<close>

lemma name_at_split: "k \<in> set names \<Longrightarrow> \<exists>a b. concat (map text_bytes names) = a @ text_bytes k @ b \<and> length a = name_at names k"
proof (induction names)
  case (Cons n ns)
  show ?case
  proof (cases "n = k")
    case True
    then show ?thesis by (intro exI [of _ "[]"] exI [of _ "concat (map text_bytes ns)"]) simp
  next
    case False
    then obtain a b where "concat (map text_bytes ns) = a @ text_bytes k @ b" "length a = name_at ns k" using Cons by auto
    then show ?thesis using False by (intro exI [of _ "text_bytes n @ a"] exI [of _ b]) simp
  qed
qed simp

lemma image_parts:
  fixes names root
  defines "st \<equiv> struct_bytes names root"
  assumes "length (fdt_image names root) < 2 ^ 32" and m: "m = fdt_image names root @ rest"
  shows "fdt_be32 m 0 = Some FDT_MAGIC" "fdt_be32 m 8 = Some 56" "fdt_be32 m 12 = Some (word_of_nat (56 + length st))"
    "lies m 56 st" "56 + length st < 2 ^ 32" "k \<in> set names \<Longrightarrow> named m (56 + length st) (name_at names) k"
proof -
  define ss where "ss = concat (map text_bytes names)"
  have len: "length (fdt_image names root) = 56 + length st + length ss" by (simp add: fdt_image_def Let_def st_def ss_def)
  then show b: "56 + length st < 2 ^ 32" using assms(2) by simp
  define x1 x3 where "x1 = be_bytes 4 (56 + length st + length ss)" and "x3 = be_bytes 4 (56 + length st)"
  define h where "h = concat (map (be_bytes 4) [40, 17, 16, 0, length ss, length st]) @ replicate 16 0"
  have "lies m 0 (be_bytes 4 0xd00dfeed @ x1 @ be_bytes 4 56 @ x3 @ h @ st @ ss)"
    unfolding lies_def m by (intro exI [of _ "[]"] exI [of _ rest]) (simp add: fdt_image_def Let_def st_def ss_def h_def x1_def x3_def)
  moreover have "length x1 = 4" "length x3 = 4" "length h = 40" by (simp_all add: x1_def x3_def h_def)
  ultimately have l: "lies m 0 (be_bytes 4 0xd00dfeed)" "lies m 8 (be_bytes 4 56)" "lies m 12 x3" "lies m 56 st" "lies m (56 + length st) ss"
    by (simp_all add: lies_append add.assoc)
  show "fdt_be32 m 0 = Some FDT_MAGIC" using be32_bytes [OF l(1)] by (simp add: FDT_MAGIC_def)
  show "fdt_be32 m 8 = Some 56" using be32_bytes [OF l(2)] by simp
  show "fdt_be32 m 12 = Some (word_of_nat (56 + length st))" using be32_bytes [OF l(3) [unfolded x3_def] b] .
  show "lies m 56 st" by (rule l(4))
  show "named m (56 + length st) (name_at names) k" if kn: "k \<in> set names"
  proof -
    obtain a e where s: "ss = a @ text_bytes k @ e" "length a = name_at names k" using name_at_split [OF kn] by (auto simp: ss_def)
    then have "lies m (56 + length st + name_at names k) (text_bytes k)" using l(5) by (simp add: lies_append)
    moreover have "name_at names k < 2 ^ 32" using s assms(2) len by simp
    ultimately show ?thesis by (simp add: named_def)
  qed
qed

lemma join_devs_bare: "dt_bare f t \<Longrightarrow> dt_bare (join_devs f s) (dt_cut (t @ s))"
proof (induction s arbitrary: f t)
  case Nil
  then show ?case by (simp add: dt_cut_def dt_bare_def)
next
  case (Cons c s)
  have l: "cmdline_len f = length t" "length t \<le> 2047" using Cons.prems by (simp_all add: dt_bare_def)
  show ?case
  proof (cases "length t < 2047")
    case True
    then show ?thesis using Cons.IH [OF dt_bare_put [OF Cons.prems]] l by (simp add: CMDLINE_SIZE_def)
  next
    case False
    then have "dt_cut (t @ c # s) = t" using l by (simp add: dt_cut_def)
    then show ?thesis using False l Cons.prems by (simp add: CMDLINE_SIZE_def)
  qed
qed

lemma join_devs_frame [simp]:
  "ram_base (join_devs f s) = ram_base f" "ram_size (join_devs f s) = ram_size f" "devices (join_devs f s) = devices f"
  "dev_base (join_devs f s) = dev_base f"
  by (induction f s rule: join_devs.induct) (simp_all add: cl_put_def)

lemma cl_end_frame [simp]:
  "ram_base (cl_end f) = ram_base f" "ram_size (cl_end f) = ram_size f" "devices (cl_end f) = devices f" "dev_base (cl_end f) = dev_base f"
  by (simp_all add: cl_end_def)

text \<open>The command line that a reader of the array finds.\<close>

definition cmdline_text :: "fdt_facts \<Rightarrow> string" where
  "cmdline_text f = takeWhile (\<lambda>c. c \<noteq> NULC) (cmdline f)"

lemma dt_holds_text: "dt_holds f t \<Longrightarrow> NULC \<notin> set t \<Longrightarrow> cmdline_text f = t"
proof -
  assume h: "dt_holds f t" and n: "NULC \<notin> set t"
  have "length (cmdline f) = 2048" "length t < 2048" "take (length t) (cmdline f) = t" "cmdline f ! length t = NULC"
    using h by (simp_all add: dt_holds_def dt_bare_def)
  then have "cmdline f = t @ NULC # drop (Suc (length t)) (cmdline f)" by (metis append_take_drop_id Cons_nth_drop_Suc)
  then have "cmdline_text f = takeWhile (\<lambda>c. c \<noteq> NULC) (t @ NULC # drop (Suc (length t)) (cmdline f))" by (simp add: cmdline_text_def)
  also have "\<dots> = t" using n by (subst takeWhile_append2) auto
  finally show ?thesis .
qed

lemma digit_char_nul: "d < 16 \<Longrightarrow> digit_char d \<noteq> NULC"
proof -
  have "\<forall>d \<in> set [0..<16]. digit_char d \<noteq> NULC" by code_simp
  then show "d < 16 \<Longrightarrow> digit_char d \<noteq> NULC" by simp
qed

lemma num_text_nul: "1 < base \<Longrightarrow> base \<le> 16 \<Longrightarrow> NULC \<notin> set (num_text base n)"
proof (induction base n rule: num_text.induct)
  case (1 base n)
  have "n mod base < 16" using 1(2,3) by (auto intro: less_le_trans [OF mod_less_divisor])
  then show ?case using 1 digit_char_nul [of n] digit_char_nul [of "n mod base"] by (subst num_text.simps) auto
qed

lemma dev_entry_nul: "NULC \<notin> set (dev_entry d)"
  using num_text_nul by (simp add: dev_entry_def split: prod.split)

lemma walk_end_holds:
  assumes "dt_rep m w ds rs ts"
  defines "t \<equiv> if ts = [] then [] else last ts"
  shows "\<exists>f. walk_end m w = Some f \<and> dt_holds f (dt_cut (dt_cut t @ dt_cut (concat (map dev_entry ds)))) \<and> NULC \<notin> set t \<and>
    ram_base f = ram_base (w_out w) \<and> ram_size f = ram_size (w_out w) \<and> devices f = devices (w_out w) \<and> dev_base f = dev_base (w_out w)"
proof -
  let ?d = "dt_cut (concat (map dev_entry ds))"
  have h: "dt_holds (w_out w) []" and d: "take (cmdline_len (w_devs w)) (cmdline (w_devs w)) = ?d"
    using assms(1) by (auto simp: dt_rep_def dt_holds_def dt_bare_def)
  obtain g where g: "(case w_bootargs w of None \<Rightarrow> Some (w_out w) | Some a \<Rightarrow> cl_puts_at m (w_out w) a) = Some g" "dt_bare g (dt_cut t)"
    "ram_base g = ram_base (w_out w)" "ram_size g = ram_size (w_out w)" "devices g = devices (w_out w)" "dev_base g = dev_base (w_out w)"
  proof (cases "ts = []")
    case True
    then show ?thesis using that [of "w_out w"] assms(1) dt_holds_bare [OF h] by (simp add: dt_rep_def t_def dt_cut_def)
  next
    case False
    then obtain a where a: "w_bootargs w = Some a" "lies m a (text_bytes t)" "NULC \<notin> set t" using assms(1) by (auto simp: dt_rep_def t_def)
    have "dt_bare (cl_puts (w_out w) t) (dt_cut t)"
      using cl_puts_holds [of "w_out w" "[]" t] h by (simp add: dt_holds_bare dt_cut_def)
    then show ?thesis using that [of "cl_puts (w_out w) t"] a puts_at_lies [OF a(2,3)] by simp
  qed
  have "NULC \<notin> set t" using assms(1) by (auto simp: dt_rep_def t_def)
  then show ?thesis using dt_bare_end [OF join_devs_bare [OF g(2), of ?d]] g(3-6) by (simp add: walk_end_def g(1) d)
qed

text \<open>C34. The facts that the boot code of the ARM and RISC-V boards gathers are those that the device tree states. For every well-formed tree,
  flattened as the format says and followed by anything, the walk returns: the memory is the first memory node that ends with a size, the
  devices are the virtio nodes that have one, at any depth, with the base addresses of the first thirty-two, and the command line is the chosen
  node's arguments followed by an entry for each device in the spelling of the x86 machine, cut to the array.\<close>

theorem fdt_describes:
  assumes "node_wf (2, 2) root" "node_height root \<le> 15" "node_names root \<subseteq> set names" "length (fdt_image names root) < 2 ^ 32"
    and "length lvl = 16" "length (cmdline out) = 2048" "length (cmdline devs) = 2048" "length (dev_base out) = 32"
  shows "\<exists>f. fdt_probe (Some (fdt_image names root @ rest)) out devs lvl = Some (True, f) \<and>
    (ram_base f, ram_size f) = (case node_rams (2, 2) root of [] \<Rightarrow> (0, 0) | r # _ \<Rightarrow> r) \<and>
    devices f = length (node_devs (2, 2) root) \<and>
    take (devices f) (dev_base f) = take 32 (map fst (node_devs (2, 2) root)) \<and>
    cmdline_text f = take 2047 (take 2047 (if node_args root = [] then [] else last (node_args root)) @
      take 2047 (concat (map dev_entry (node_devs (2, 2) root)))) \<and>
    cmdline_len f = length (cmdline_text f)"
proof -
  define m where "m = fdt_image names root @ rest"
  let ?st = "struct_bytes names root" and ?so = "name_at names"
  note p = image_parts [OF assms(4) m_def]
  let ?S = "56 + length ?st" and ?w = "walk_start 56 out devs lvl"
  have n: "lies m 56 (node_bytes ?so root)" "lies m (56 + length (node_bytes ?so root)) (be_bytes 4 9)" "length ?st = length (node_bytes ?so root) + 4"
    using p(4) by (simp_all add: struct_bytes_def lies_append)
  have rep: "dt_rep m ?w [] [] []"
    using assms(6-8) by (simp add: dt_rep_def walk_start_def dt_holds_def dt_bare_def cl_end_def dt_cut_def)
  have "cells_at ?w (2, 2)" using assms(5) by (simp add: cells_at_def walk_start_def)
  moreover have "w_p ?w = 56" "w_depth ?w = 0" "length (w_lvl ?w) = 16" using assms(5) by (simp_all add: walk_start_def)
  ultimately obtain w1 where w1: "walked m ?S ?w (length (node_bytes ?so root)) w1" "dt_rep m w1 (node_devs (2, 2) root) (node_rams (2, 2) root) (node_args root)"
    using node_walk [of m ?S ?so root] assms(1-3) n p(5,6) rep lies_bound [OF n(2)] unfolding node_claim_def
    by (elim allE [of _ "(2, 2)"] allE [of _ ?w] allE [of _ "[]"]) auto
  let ?w2 = "w1\<lparr>w_p := w_p w1 + 4\<rparr>"
  have "w_p w1 = 56 + length (node_bytes ?so root)" using w1(1) by (simp add: walked_def walk_start_def)
  then have "fdt_step m ?S w1 = Some (False, ?w2)" using be32_bytes [OF n(2)] by (simp add: fdt_step_def token_defs)
  from loop_stop [OF this] have l: "fdt_loop m ?S ?w = Some ?w2" using w1(1) by (simp add: walked_def)
  have rep2: "dt_rep m ?w2 (node_devs (2, 2) root) (node_rams (2, 2) root) (node_args root)" using w1(2) by (simp add: dt_rep_def)
  obtain f where f: "walk_end m ?w2 = Some f" "dt_holds f (dt_cut (dt_cut (if node_args root = [] then [] else last (node_args root)) @
      dt_cut (concat (map dev_entry (node_devs (2, 2) root)))))" "NULC \<notin> set (if node_args root = [] then [] else last (node_args root))"
    "ram_base f = ram_base (w_out w1)" "ram_size f = ram_size (w_out w1)" "devices f = devices (w_out w1)" "dev_base f = dev_base (w_out w1)"
    using walk_end_holds [OF rep2] by auto
  have "fdt_probe (Some m) out devs lvl = Some (True, f)"
    using p(1-3) l f(1) unat_u32_nat [OF p(5)] by (simp add: fdt_probe_def fdt_is_tree_def)
  moreover have "cmdline_text f = dt_cut (dt_cut (if node_args root = [] then [] else last (node_args root)) @ dt_cut (concat (map dev_entry (node_devs (2, 2) root))))"
    by (rule dt_holds_text [OF f(2)]) (use f(3) dev_entry_nul in \<open>auto simp: dt_cut_def dest!: in_set_takeD split: if_splits\<close>)
  ultimately show ?thesis using f w1(2) unfolding m_def [symmetric]
    by (intro exI [of _ f]) (simp add: dt_rep_def dt_cut_def dt_holds_def dt_bare_def)
qed

text \<open>A board with one memory, one device and arguments.\<close>

definition sample_tree :: dt_node where
  "sample_tree = Node [] [(''#address-cells'', [0, 0, 0, 2]), (''#size-cells'', [0, 0, 0, 1])]
    [Node ''memory@40000000'' [(''reg'', [0, 0, 0, 0, 0x40, 0, 0, 0, 0x08, 0, 0, 0])] [],
     Node ''chosen'' [(''bootargs'', [104, 105, 0])] [],
     Node ''soc'' [] [Node ''virtio_mmio@a000000''
       [(''reg'', [0, 0, 0, 0, 0x0A, 0, 0, 0, 0, 0, 2, 0]), (''interrupts'', [0, 0, 0, 0, 0, 0, 0, 16, 0, 0, 0, 1])] []]]"

definition sample_names :: "string list" where
  "sample_names = [''#address-cells'', ''#size-cells'', ''reg'', ''bootargs'', ''interrupts'']"

lemma sample_wf: "node_wf (2, 2) sample_tree" "node_height sample_tree \<le> 15"
  by (simp_all add: sample_tree_def prop_wf_def names_virtio_def names_memory_def cells_count_def own_cells_def)

lemma sample_length: "length (fdt_image sample_names sample_tree) < 2 ^ 32"
  by (simp add: fdt_image_def Let_def struct_bytes_def prop_bytes_def sample_tree_def sample_names_def padded_def pad4_def text_bytes_def)

lemma sample_text: "text_of [104, 105, 0] = ''hi''"
  by code_simp

lemma sample_digits: "digit_char 0 = CHR ''0''" "digit_char 2 = CHR ''2''" "digit_char 4 = CHR ''4''" "digit_char 8 = CHR ''8''" "digit_char 10 = CHR ''a''"
  by code_simp+

lemma sample_says:
  "node_rams (2, 2) sample_tree = [(0x40000000, 0x8000000)]" "node_devs (2, 2) sample_tree = [(0xA000000, 0x200, 16)]" "node_args sample_tree = [''hi'']"
  by (simp_all add: sample_tree_def reg_of_def irq_of_def own_cells_def names_virtio_def names_memory_def sample_text)

lemma sample_entry: "dev_entry (0xA000000, 0x200, 16) = '' virtio_mmio.device=0x200@0xa000000:48''"
  by (simp add: dev_entry_def num_text.simps sample_digits)

lemma sample_named: "node_names sample_tree \<subseteq> set sample_names"
  by (simp add: sample_tree_def sample_names_def)

theorem fdt_describes_witness:
  "\<exists>f. fdt_probe (Some (fdt_image sample_names sample_tree @ [7]))
      \<lparr>ram_base = 1, ram_size = 2, cmdline = replicate 2048 (CHR ''x''), cmdline_len = 3, devices = 4, dev_base = replicate 32 5\<rparr>
      \<lparr>ram_base = 1, ram_size = 2, cmdline = replicate 2048 (CHR ''y''), cmdline_len = 3, devices = 4, dev_base = []\<rparr>
      (replicate 16 \<lparr>addr_cells = 9, size_cells = 9, is_virtio = True, is_memory = True, is_chosen = True, reg_base = 9, reg_size = 9, lvl_irq = 9\<rparr>) =
      Some (True, f) \<and> ram_base f = 0x40000000 \<and> ram_size f = 0x8000000 \<and> devices f = 1 \<and> take 1 (dev_base f) = [0xA000000] \<and>
    cmdline_text f = ''hi virtio_mmio.device=0x200@0xa000000:48''"
  using fdt_describes [OF sample_wf sample_named sample_length,
    of "replicate 16 \<lparr>addr_cells = 9, size_cells = 9, is_virtio = True, is_memory = True, is_chosen = True, reg_base = 9, reg_size = 9, lvl_irq = 9\<rparr>"
      "\<lparr>ram_base = 1, ram_size = 2, cmdline = replicate 2048 (CHR ''x''), cmdline_len = 3, devices = 4, dev_base = replicate 32 5\<rparr>"
      "\<lparr>ram_base = 1, ram_size = 2, cmdline = replicate 2048 (CHR ''y''), cmdline_len = 3, devices = 4, dev_base = []\<rparr>" "[7]"]
  by (auto simp: sample_says sample_entry)

section \<open>Any bytes at all\<close>

definition walk_ok :: "fdt_walk \<Rightarrow> bool" where
  "walk_ok w \<longleftrightarrow> length (w_lvl w) = 16 \<and> w_depth w \<le> 16 \<and> \<not> w_outside w \<and> (\<exists>t. dt_holds (w_devs w) t \<and> NULC \<notin> set t) \<and>
    dt_holds (w_out w) [] \<and> length (dev_base (w_out w)) = 32"

lemma cut_idem: "dt_holds f t \<Longrightarrow> dt_cut t = t"
  by (simp add: dt_holds_def dt_bare_def dt_cut_def)

lemma virtio_entry_ok:
  assumes "walk_ok w"
  shows "walk_ok (virtio_entry l w)"
proof (cases "is_virtio l \<and> reg_size l \<noteq> 0")
  case True
  obtain t where t': "dt_holds (w_devs w) t" "NULC \<notin> set t" using assms by (auto simp: walk_ok_def)
  then have t: "dt_holds (w_devs w) (dt_cut t)" "NULC \<notin> set t" using cut_idem [OF t'(1)] by simp_all
  have "NULC \<notin> set (dt_cut (t @ dev_entry (reg_base l, reg_size l, lvl_irq l)))"
    using t(2) dev_entry_nul by (auto simp: dt_cut_def dest!: in_set_takeD)
  moreover have "dt_holds f [] \<Longrightarrow> dt_holds (f\<lparr>dev_base := x, devices := y\<rparr>) []" "dt_holds f [] \<Longrightarrow> dt_holds (f\<lparr>devices := y\<rparr>) []" for f x y
    by (simp_all add: dt_holds_def dt_bare_def)
  ultimately show ?thesis using True assms entry_text [OF t(1), of "reg_size l" "reg_base l" "lvl_irq l"]
    by (auto simp: virtio_entry_def walk_ok_def Let_def)
next
  case False
  then show ?thesis using assms unfolding virtio_entry_def by (simp only: if_False)
qed

lemma memory_entry_ok: "walk_ok w \<Longrightarrow> walk_ok (memory_entry l w)"
  by (simp add: memory_entry_def walk_ok_def dt_holds_def dt_bare_def)

lemma walk_ok_place: "walk_ok w \<Longrightarrow> w_depth w < 16 \<Longrightarrow> same_place w w' \<Longrightarrow> walk_ok w'"
  by (simp add: walk_ok_def same_place_def)

lemma walk_ok_move: "walk_ok w \<Longrightarrow> d \<le> 16 \<Longrightarrow> walk_ok (w\<lparr>w_p := p, w_depth := d\<rparr>)"
  by (simp add: walk_ok_def)

lemma end_node_ok: "walk_ok w \<Longrightarrow> walk_ok (snd (end_node w))"
proof -
  assume w: "walk_ok w"
  have "walk_ok (w\<lparr>w_outside := w_outside w \<or> w_depth w \<ge> length (w_lvl w)\<rparr>)" if "w_depth w < 16" using w that by (simp add: walk_ok_def)
  from memory_entry_ok [OF virtio_entry_ok [OF this]] show ?thesis using w
    by (auto simp: end_node_def Let_def FDT_MAX_DEPTH_def walk_ok_def)
qed

lemma begin_node_ok:
  assumes "walk_ok w" "w_depth w < 16" "begin_node m w = Some (go, w')"
  shows "walk_ok w'" "go \<Longrightarrow> w_depth w' < 16"
  using assms by (auto simp: begin_node_def open_level_def at_level_def Let_def FDT_MAX_DEPTH_def bind_eq_Some_conv walk_ok_def split: if_splits)

lemma prop_node_ok:
  assumes "walk_ok w" "w_depth w < 16" "prop_node m S w = Some (go, w')"
  shows "walk_ok w'" "w_depth w' < 16"
proof -
  obtain len where len: "fdt_be32 m (w_p w) = Some len" using assms(3) by (auto simp: prop_node_def Let_def bind_eq_Some_conv)
  let ?v = "w\<lparr>w_p := w_p w + 8 + unat ((len + 3) AND NOT 3), w_outside := w_outside w \<or> w_depth w \<ge> length (w_lvl w)\<rparr>"
  have v: "walk_ok ?v" "w_depth ?v < 16" using assms(1,2) by (simp_all add: walk_ok_def)
  have "same_place ?v w'"
    using assms(2,3) by (auto simp: prop_node_def Let_def len FDT_MAX_DEPTH_def bind_eq_Some_conv dest: take_prop_place)
  then show "walk_ok w'" "w_depth w' < 16" using walk_ok_place [OF v] v(2) by (simp_all add: same_place_def)
qed

lemma fdt_step_ok:
  assumes "walk_ok w" "w_depth w < 16" "fdt_step m S w = Some (go, w')"
  shows "walk_ok w' \<and> (go \<longrightarrow> w_depth w' < 16)"
proof -
  let ?v = "w\<lparr>w_p := w_p w + 4\<rparr>"
  have v: "walk_ok ?v" "w_depth ?v < 16" using assms(1,2) by (simp_all add: walk_ok_def)
  have e: "walk_ok w' \<and> w_depth w' < 16" if "end_node ?v = (go, w')"
    using end_node_ok [OF v(1)] that v(2) by (auto simp: end_node_def Let_def split: if_splits)
  show ?thesis using assms(3) v begin_node_ok [OF v] prop_node_ok [OF v] e
    by (auto simp: fdt_step_def Let_def bind_eq_Some_conv split: if_splits)
qed

lemma fdt_loop_ok: "walk_ok w \<Longrightarrow> w_depth w < 16 \<Longrightarrow> fdt_loop m S w = Some w' \<Longrightarrow> walk_ok w'"
proof (induction m S w rule: fdt_loop.induct)
  case (1 m S w)
  obtain go v where v: "fdt_step m S w = Some (go, v)" using 1(4) by (subst (asm) fdt_loop.simps) (auto split: option.splits)
  have ok: "walk_ok v" "go \<Longrightarrow> w_depth v < 16" using fdt_step_ok [OF 1(2,3) v] by simp_all
  show ?case
  proof (cases go)
    case True
    then show ?thesis using 1(1) [OF v] ok 1(4) v by (simp add: fdt_loop.simps [of m S w])
  next
    case False
    then show ?thesis using ok(1) 1(4) v by (simp add: fdt_loop.simps [of m S w])
  qed
qed

lemma cl_puts_at_ok:
  "dt_bare f t \<Longrightarrow> NULC \<notin> set t \<Longrightarrow> cl_puts_at m f a = Some g \<Longrightarrow> \<exists>t'. dt_holds g t' \<and> NULC \<notin> set t' \<and> dev_base g = dev_base f"
proof (induction m f a arbitrary: t rule: cl_puts_at.induct)
  case (1 m f s)
  have s: "s < length m" using 1(4) by (subst (asm) cl_puts_at.simps) (simp split: if_splits)
  show ?case
  proof (cases "m ! s \<noteq> 0 \<and> cmdline_len f < CMDLINE_SIZE - 1")
    case True
    then have l: "length t < 2047" using 1(2) by (simp add: dt_bare_def CMDLINE_SIZE_def)
    have "char_of (unat (m ! s)) \<noteq> NULC"
    proof
      assume "char_of (unat (m ! s)) = NULC"
      then have "of_char (char_of (unat (m ! s)) :: char) = (0 :: nat)" by simp
      moreover have "unat (m ! s) < 256" using unsigned_less [of "m ! s"] by simp
      ultimately show False using True by (simp add: of_char_of unat_eq_0)
    qed
    moreover have "cl_puts_at m (cl_put f (char_of (unat (m ! s)))) (s + 1) = Some g" using 1(4) s True by (subst (asm) cl_puts_at.simps) simp
    ultimately show ?thesis using 1(1) [OF s True dt_bare_put [OF 1(2) l]] 1(3) by (auto simp: cl_put_def)
  next
    case False
    then have "g = cl_end f" using 1(4) s by (subst (asm) cl_puts_at.simps) (auto split: if_splits)
    then show ?thesis using dt_bare_end [OF 1(2)] 1(3) by auto
  qed
qed

lemma walk_end_ok:
  assumes "walk_ok w" "walk_end m w = Some f"
  shows "\<exists>t. dt_holds f t \<and> NULC \<notin> set t \<and> length (dev_base f) = 32"
proof -
  obtain d where d: "dt_holds (w_devs w) d" "NULC \<notin> set d" using assms(1) by (auto simp: walk_ok_def)
  then have td: "take (cmdline_len (w_devs w)) (cmdline (w_devs w)) = d" by (simp add: dt_holds_def dt_bare_def)
  have o: "dt_bare (w_out w) []" "dt_holds (w_out w) []" "length (dev_base (w_out w)) = 32" using assms(1) by (simp_all add: walk_ok_def dt_holds_bare)
  obtain g where g: "(case w_bootargs w of None \<Rightarrow> Some (w_out w) | Some a \<Rightarrow> cl_puts_at m (w_out w) a) = Some g" "f = cl_end (join_devs g d)"
    using assms(2) td by (auto simp: walk_end_def bind_eq_Some_conv)
  have "\<exists>t. dt_bare g t \<and> NULC \<notin> set t \<and> length (dev_base g) = 32"
  proof (cases "w_bootargs w")
    case None
    then show ?thesis using g(1) o by auto
  next
    case (Some a)
    then show ?thesis using g(1) cl_puts_at_ok [OF o(1), of m a g] o(3) by (auto dest: dt_holds_bare)
  qed
  then obtain t where t: "dt_bare g t" "NULC \<notin> set t" "length (dev_base g) = 32" by blast
  have "NULC \<notin> set (dt_cut (t @ d))" using t(2) d(2) by (auto simp: dt_cut_def dest!: in_set_takeD)
  then show ?thesis using dt_bare_end [OF join_devs_bare [OF t(1), of d]] t(3) g(2) by auto
qed


definition bare_board :: "u8 list" where
  "bare_board = [0xd0, 0x0d, 0xfe, 0xed, 0, 0, 0, 20, 0, 0, 0, 16, 0, 0, 0, 16, 0, 0, 0, 9]"

lemma bare_board_reads:
  "fdt_be32 bare_board 0 = Some FDT_MAGIC" "fdt_be32 bare_board 8 = Some 16" "fdt_be32 bare_board 12 = Some 16" "fdt_be32 bare_board 16 = Some FDT_END"
  by (simp_all add: bare_board_def fdt_be32_def rd_def FDT_MAGIC_def FDT_END_def)


end
