(* ===== verification/OutBuf.thy ===== *)
theory OutBuf
  imports CmdLine
begin

text \<open>
  Printing and output capture of the hosted runtime (stdlib/runtime_core.c, section 1): the print family on both streams, the stack of
  buffering frames over one growing buffer, and the decimal texts.

  A string is the list of its characters before the NUL and the null pointer is \<open>None\<close>. The buffer is the list of the bytes of its
  allocation; what \<open>malloc\<close> and \<open>realloc\<close> leave in new bytes is a parameter (\<open>junk\<close>), as is the answer of \<open>isatty\<close>. An access outside the
  buffer, or growth that does not end, is \<open>None\<close>. Of stdio the model has what was written to standard output and is still held back, and
  what has left the process on either stream, as one terminal shows it. The lock that makes a print one step is taken as such.
\<close>

section \<open>State\<close>

definition OUTBUF_STACK_MAX :: nat where "OUTBUF_STACK_MAX = 32"
definition OUTBUF_INIT_CAP :: nat where "OUTBUF_INIT_CAP = 65536"

record OutbufFrame =
  fr_start :: nat
  fr_mode :: bool

record outbuf =
  g_outbuf :: "string option"
  g_outbuf_len :: nat
  g_outbuf_cap :: nat
  g_outbuf_mode :: bool
  g_outbuf_stack :: "OutbufFrame list"
  g_outbuf_sp :: nat
  g_stdout_tty :: int
  held :: string
  shown :: string

definition outbuf_boot :: outbuf where
  "outbuf_boot = \<lparr>g_outbuf = None, g_outbuf_len = 0, g_outbuf_cap = 0, g_outbuf_mode = False,
    g_outbuf_stack = replicate OUTBUF_STACK_MAX \<lparr>fr_start = 0, fr_mode = False\<rparr>, g_outbuf_sp = 0, g_stdout_tty = -1, held = [], shown = []\<rparr>"

section \<open>The two streams\<close>

definition fflush_stdout :: "outbuf \<Rightarrow> outbuf" where
  "fflush_stdout s = s\<lparr>shown := shown s @ held s, held := []\<rparr>"

definition nurl_flush_stdout :: "outbuf \<Rightarrow> outbuf" where
  "nurl_flush_stdout s = fflush_stdout s"

definition fputs_stderr :: "string \<Rightarrow> outbuf \<Rightarrow> outbuf" where
  "fputs_stderr t s = s\<lparr>shown := shown s @ t\<rparr>"

text \<open>The stdout branch that \<open>nurl_print\<close> and \<open>nurl_print_bytes\<close> share: the terminal is probed once.\<close>

definition to_stdout :: "bool \<Rightarrow> string \<Rightarrow> outbuf \<Rightarrow> outbuf" where
  "to_stdout isatty t s =
    (let s = (if g_stdout_tty s < 0 then s\<lparr>g_stdout_tty := (if isatty then 1 else 0)\<rparr> else s);
         s = s\<lparr>held := held s @ t\<rparr>
     in if g_stdout_tty s \<noteq> 0 then fflush_stdout s else s)"

section \<open>The buffer\<close>

definition blit :: "nat \<Rightarrow> string \<Rightarrow> string \<Rightarrow> string option" where
  "blit i t a = (if i + length t \<le> length a then Some (take i a @ t @ drop (i + length t) a) else None)"

definition outbuf_init :: "(nat \<Rightarrow> char) \<Rightarrow> outbuf \<Rightarrow> outbuf" where
  "outbuf_init junk s = (case g_outbuf s of
     None \<Rightarrow> s\<lparr>g_outbuf := Some ((map junk [0..<OUTBUF_INIT_CAP])[0 := NULC]), g_outbuf_cap := OUTBUF_INIT_CAP\<rparr>
   | Some a \<Rightarrow> s)"

partial_function (option) grow_cap :: "nat \<Rightarrow> nat \<Rightarrow> nat option" where
  [code]: "grow_cap cap need = (if cap < need then grow_cap (cap * 2) need else Some cap)"

definition outbuf_reserve :: "(nat \<Rightarrow> char) \<Rightarrow> nat \<Rightarrow> outbuf \<Rightarrow> outbuf option" where
  "outbuf_reserve junk extra s0 =
    (let s = outbuf_init junk s0; need = g_outbuf_len s + extra + 1 in
     if need \<le> g_outbuf_cap s then Some s
     else do {
       cap \<leftarrow> grow_cap (g_outbuf_cap s) need;
       a \<leftarrow> g_outbuf s;
       Some (s\<lparr>g_outbuf := Some (a @ map junk [length a..<cap]), g_outbuf_cap := cap\<rparr>)
     })"

definition start_overflow :: string where
  "start_overflow = ''nurl_print_buf_start: stack overflow'' @ [CHR 0x0A]"

definition nurl_print_buf_start :: "(nat \<Rightarrow> char) \<Rightarrow> outbuf \<Rightarrow> outbuf" where
  "nurl_print_buf_start junk s0 =
    (let s = outbuf_init junk s0 in
     if g_outbuf_sp s \<ge> OUTBUF_STACK_MAX then fputs_stderr start_overflow s
     else s\<lparr>g_outbuf_stack := (g_outbuf_stack s)[g_outbuf_sp s := \<lparr>fr_start = g_outbuf_len s, fr_mode = g_outbuf_mode s\<rparr>],
            g_outbuf_sp := g_outbuf_sp s + 1, g_outbuf_mode := True\<rparr>)"

text \<open>\<open>strdup\<close> of a place in the buffer.\<close>

definition strdup_at :: "nat \<Rightarrow> string \<Rightarrow> string option" where
  "strdup_at i a = (if NULC \<in> set (drop i a) then Some (takeWhile (\<lambda>c. c \<noteq> NULC) (drop i a)) else None)"

definition nurl_print_buf_stop :: "(nat \<Rightarrow> char) \<Rightarrow> outbuf \<Rightarrow> (string \<times> outbuf) option" where
  "nurl_print_buf_stop junk s0 =
    (let s = outbuf_init junk s0;
         (start, mode, sp) = (if g_outbuf_sp s > 0
           then let f = g_outbuf_stack s ! (g_outbuf_sp s - 1) in (fr_start f, fr_mode f, g_outbuf_sp s - 1)
           else (0, False, g_outbuf_sp s))
     in do {
       a \<leftarrow> g_outbuf s;
       ret \<leftarrow> strdup_at start a;
       a1 \<leftarrow> blit start [NULC] a;
       Some (ret, s\<lparr>g_outbuf_sp := sp, g_outbuf_len := start, g_outbuf := Some a1, g_outbuf_mode := mode\<rparr>)
     })"

definition nurl_print_buf_len :: "(nat \<Rightarrow> char) \<Rightarrow> outbuf \<Rightarrow> nat \<times> outbuf" where
  "nurl_print_buf_len junk s0 = (let s = outbuf_init junk s0 in (g_outbuf_len s, s))"

text \<open>An address in the buffer is the offset from its start.\<close>

definition nurl_print_buf_at :: "(nat \<Rightarrow> char) \<Rightarrow> int \<Rightarrow> outbuf \<Rightarrow> int \<times> outbuf" where
  "nurl_print_buf_at junk off s0 = (if off < 0 then 0 else off, outbuf_init junk s0)"

definition nurl_print_buf_reset :: "(nat \<Rightarrow> char) \<Rightarrow> outbuf \<Rightarrow> outbuf option" where
  "nurl_print_buf_reset junk s0 =
    (let s = outbuf_init junk s0 in
     if g_outbuf_sp s = 0
     then do { a \<leftarrow> g_outbuf s; a1 \<leftarrow> blit 0 [NULC] a; Some (s\<lparr>g_outbuf_len := 0, g_outbuf := Some a1\<rparr>) }
     else Some s)"

definition nurl_print_buf_unwind :: "(nat \<Rightarrow> char) \<Rightarrow> outbuf \<Rightarrow> outbuf option" where
  "nurl_print_buf_unwind junk s0 =
    (let s = outbuf_init junk s0 in do {
       a \<leftarrow> g_outbuf s;
       a1 \<leftarrow> blit 0 [NULC] a;
       Some (s\<lparr>g_outbuf_sp := 0, g_outbuf_len := 0, g_outbuf := Some a1, g_outbuf_mode := False\<rparr>)
     })"

section \<open>The print family\<close>

definition nurl__print_locked :: "(nat \<Rightarrow> char) \<Rightarrow> bool \<Rightarrow> string option \<Rightarrow> outbuf \<Rightarrow> outbuf option" where
  "nurl__print_locked junk isatty p s = (case p of
     None \<Rightarrow> Some s
   | Some t \<Rightarrow>
       if g_outbuf_mode s
       then do {
         s1 \<leftarrow> outbuf_reserve junk (length t) s;
         a \<leftarrow> g_outbuf s1;
         a1 \<leftarrow> blit (g_outbuf_len s1) (t @ [NULC]) a;
         Some (s1\<lparr>g_outbuf := Some a1, g_outbuf_len := g_outbuf_len s1 + length t\<rparr>)
       }
       else Some (to_stdout isatty t s))"

definition nurl_print :: "(nat \<Rightarrow> char) \<Rightarrow> bool \<Rightarrow> string option \<Rightarrow> outbuf \<Rightarrow> outbuf option" where
  "nurl_print junk isatty p s = nurl__print_locked junk isatty p s"

text \<open>The bytes at \<open>p\<close> are the list; \<open>n\<close> of them are printed.\<close>

definition nurl_print_bytes :: "(nat \<Rightarrow> char) \<Rightarrow> bool \<Rightarrow> string option \<Rightarrow> int \<Rightarrow> outbuf \<Rightarrow> outbuf option" where
  "nurl_print_bytes junk isatty p n s = (case p of
     None \<Rightarrow> Some s
   | Some bs \<Rightarrow>
       if n \<le> 0 then Some s
       else if nat n > length bs then None
       else if g_outbuf_mode s
       then do {
         s1 \<leftarrow> outbuf_reserve junk (nat n) s;
         a \<leftarrow> g_outbuf s1;
         a1 \<leftarrow> blit (g_outbuf_len s1) (take (nat n) bs) a;
         a2 \<leftarrow> blit (g_outbuf_len s1 + nat n) [NULC] a1;
         Some (s1\<lparr>g_outbuf := Some a2, g_outbuf_len := g_outbuf_len s1 + nat n\<rparr>)
       }
       else Some (to_stdout isatty (take (nat n) bs) s))"

definition NEWLINE :: string where "NEWLINE = [CHR 0x0A]"

definition nurl_println :: "(nat \<Rightarrow> char) \<Rightarrow> bool \<Rightarrow> string option \<Rightarrow> outbuf \<Rightarrow> outbuf option" where
  "nurl_println junk isatty p s = do { s1 \<leftarrow> nurl__print_locked junk isatty p s; nurl__print_locked junk isatty (Some NEWLINE) s1 }"

definition nurl_eprint :: "string option \<Rightarrow> outbuf \<Rightarrow> outbuf" where
  "nurl_eprint p s = fputs_stderr (case p of None \<Rightarrow> [] | Some t \<Rightarrow> t) (fflush_stdout s)"

definition nurl_eprintln :: "string option \<Rightarrow> outbuf \<Rightarrow> outbuf" where
  "nurl_eprintln p s = fputs_stderr NEWLINE (fputs_stderr (case p of None \<Rightarrow> [] | Some t \<Rightarrow> t) (fflush_stdout s))"

text \<open>The digits are written backwards from the end of the caller's buffer; the loop runs at least once.\<close>

function int_digits_loop :: "u64 \<Rightarrow> string \<Rightarrow> string" where
  "int_digits_loop u p =
    (let p = char_of (48 + unat (u mod 10)) # p; u = u div 10 in if u \<noteq> 0 then int_digits_loop u p else p)"
  by pat_completeness auto
termination
  by (relation "measure (\<lambda>(u, p). unat u)") (auto simp: unat_div dest!: unat_gt_0 [THEN iffD2])

declare int_digits_loop.simps [simp del]

definition nurl__int_digits :: "u64 \<Rightarrow> string" where
  "nurl__int_digits n =
    (let u = (if n <s 0 then 0 - n else n); p = int_digits_loop u [] in if n <s 0 then CHR ''-'' # p else p)"

definition nurl_print_int :: "(nat \<Rightarrow> char) \<Rightarrow> bool \<Rightarrow> u64 \<Rightarrow> outbuf \<Rightarrow> outbuf option" where
  "nurl_print_int junk isatty n s = nurl_print junk isatty (Some (nurl__int_digits n)) s"

definition nurl_println_int :: "(nat \<Rightarrow> char) \<Rightarrow> bool \<Rightarrow> u64 \<Rightarrow> outbuf \<Rightarrow> outbuf option" where
  "nurl_println_int junk isatty n s = nurl_print junk isatty (Some (nurl__int_digits n @ NEWLINE)) s"

definition nurl_eprint_int :: "u64 \<Rightarrow> outbuf \<Rightarrow> outbuf" where
  "nurl_eprint_int n s = nurl_eprint (Some (nurl__int_digits n)) s"

definition nurl_eprintln_int :: "u64 \<Rightarrow> outbuf \<Rightarrow> outbuf" where
  "nurl_eprintln_int n s = nurl_eprintln (Some (nurl__int_digits n)) s"

definition nurl_str_int :: "u64 \<Rightarrow> string" where
  "nurl_str_int n =
    (let u = (if n <s 0 then 0 - n else n); p = int_digits_loop u [] in if n <s 0 then CHR ''-'' # p else p)"

section \<open>The message of a bad index\<close>

text \<open>A bounded buffer being filled: what is in it and how much room is left.\<close>

fun nurl__put_str :: "nat \<Rightarrow> string \<Rightarrow> string \<Rightarrow> string" where
  "nurl__put_str lim buf [] = buf"
| "nurl__put_str lim buf (c # cs) = (if length buf < lim then nurl__put_str lim (buf @ [c]) cs else buf)"

definition nurl__put_dec :: "nat \<Rightarrow> string \<Rightarrow> u64 \<Rightarrow> string" where
  "nurl__put_dec lim buf n =
    (let u = (if n <s 0 then 0 - n else n); p = int_digits_loop u [] in nurl__put_str lim buf (if n <s 0 then CHR ''-'' # p else p))"

definition panic_index_text :: "u64 \<Rightarrow> u64 \<Rightarrow> string option \<Rightarrow> string option \<Rightarrow> string" where
  "panic_index_text idx len what at =
    (let lim = 255;
         b = nurl__put_str lim [] ''index out of bounds'';
         b = (case at of None \<Rightarrow> b | Some t \<Rightarrow> if t = [] then b else nurl__put_str lim (nurl__put_str lim b '' at '') t);
         b = nurl__put_str lim b '': the index is '';
         b = nurl__put_dec lim b idx;
         b = nurl__put_str lim b '' but the '';
         b = nurl__put_str lim b (case what of None \<Rightarrow> ''length'' | Some t \<Rightarrow> if t = [] then ''length'' else t);
         b = nurl__put_str lim b '' is ''
     in nurl__put_dec lim b len)"

end
