(* ===== verification/OutBufProps.thy ===== *)
theory OutBufProps
  imports OutBuf
begin

text \<open>
  The buffer and its stack of offsets implement a stack of texts, one for every open frame.
\<close>

section \<open>Capture as a stack of texts\<close>

datatype ob_op = Start | Stop | Reset | Unwind | Len | Print "string option" | Println "string option" | PrintBytes "string option" int
  | PrintInt u64 | PrintlnInt u64 | Eprint "string option" | Eprintln "string option" | EprintInt u64 | EprintlnInt u64

datatype ob_ret = RUnit | RText string | RNum nat

fun ob_step :: "(nat \<Rightarrow> char) \<Rightarrow> bool \<Rightarrow> ob_op \<Rightarrow> outbuf \<Rightarrow> (ob_ret \<times> outbuf) option" where
  "ob_step junk tty Start s = Some (RUnit, nurl_print_buf_start junk s)"
| "ob_step junk tty Stop s = do { (t, s1) \<leftarrow> nurl_print_buf_stop junk s; Some (RText t, s1) }"
| "ob_step junk tty Reset s = do { s1 \<leftarrow> nurl_print_buf_reset junk s; Some (RUnit, s1) }"
| "ob_step junk tty Unwind s = do { s1 \<leftarrow> nurl_print_buf_unwind junk s; Some (RUnit, s1) }"
| "ob_step junk tty Len s = (let (n, s1) = nurl_print_buf_len junk s in Some (RNum n, s1))"
| "ob_step junk tty (Print p) s = do { s1 \<leftarrow> nurl_print junk tty p s; Some (RUnit, s1) }"
| "ob_step junk tty (Println p) s = do { s1 \<leftarrow> nurl_println junk tty p s; Some (RUnit, s1) }"
| "ob_step junk tty (PrintBytes p n) s = do { s1 \<leftarrow> nurl_print_bytes junk tty p n s; Some (RUnit, s1) }"
| "ob_step junk tty (PrintInt n) s = do { s1 \<leftarrow> nurl_print_int junk tty n s; Some (RUnit, s1) }"
| "ob_step junk tty (PrintlnInt n) s = do { s1 \<leftarrow> nurl_println_int junk tty n s; Some (RUnit, s1) }"
| "ob_step junk tty (Eprint p) s = Some (RUnit, nurl_eprint p s)"
| "ob_step junk tty (Eprintln p) s = Some (RUnit, nurl_eprintln p s)"
| "ob_step junk tty (EprintInt n) s = Some (RUnit, nurl_eprint_int n s)"
| "ob_step junk tty (EprintlnInt n) s = Some (RUnit, nurl_eprintln_int n s)"

text \<open>The specification: the texts of the open frames, innermost first; what has left the process; and what standard output holds back.\<close>

record capture =
  frames :: "string list"
  out :: string
  wait :: string

definition opt_text :: "string option \<Rightarrow> string" where
  "opt_text p = (case p of None \<Rightarrow> [] | Some t \<Rightarrow> t)"

text \<open>Text that is printed goes into the innermost frame, or to standard output, which a terminal gets at once.\<close>

definition say :: "bool \<Rightarrow> string \<Rightarrow> capture \<Rightarrow> capture" where
  "say tty t c = (case frames c of
     f # fs \<Rightarrow> c\<lparr>frames := (f @ t) # fs\<rparr>
   | [] \<Rightarrow> if tty then c\<lparr>out := out c @ wait c @ t, wait := []\<rparr> else c\<lparr>wait := wait c @ t\<rparr>)"

definition complain :: "string \<Rightarrow> capture \<Rightarrow> capture" where
  "complain t c = c\<lparr>out := out c @ wait c @ t, wait := []\<rparr>"

definition until_nul :: "string \<Rightarrow> string" where
  "until_nul t = takeWhile (\<lambda>c. c \<noteq> NULC) t"

fun cap_step :: "bool \<Rightarrow> ob_op \<Rightarrow> capture \<Rightarrow> ob_ret \<times> capture" where
  "cap_step tty Start c = (RUnit, if length (frames c) < 32 then c\<lparr>frames := [] # frames c\<rparr> else c\<lparr>out := out c @ start_overflow\<rparr>)"
| "cap_step tty Stop c = (case frames c of [] \<Rightarrow> (RText [], c) | f # fs \<Rightarrow> (RText (until_nul f), c\<lparr>frames := fs\<rparr>))"
| "cap_step tty Reset c = (RUnit, c)"
| "cap_step tty Unwind c = (RUnit, c\<lparr>frames := []\<rparr>)"
| "cap_step tty Len c = (RNum (length (concat (frames c))), c)"
| "cap_step tty (Print p) c = (RUnit, if p = None then c else say tty (opt_text p) c)"
| "cap_step tty (Println p) c = (RUnit, say tty (opt_text p @ NEWLINE) c)"
| "cap_step tty (PrintBytes p n) c = (RUnit, if p = None \<or> n \<le> 0 then c else say tty (take (nat n) (opt_text p)) c)"
| "cap_step tty (PrintInt n) c = (RUnit, say tty (signed_text (sint n)) c)"
| "cap_step tty (PrintlnInt n) c = (RUnit, say tty (signed_text (sint n) @ NEWLINE) c)"
| "cap_step tty (Eprint p) c = (RUnit, complain (opt_text p) c)"
| "cap_step tty (Eprintln p) c = (RUnit, complain (opt_text p @ NEWLINE) c)"
| "cap_step tty (EprintInt n) c = (RUnit, complain (signed_text (sint n)) c)"
| "cap_step tty (EprintlnInt n) c = (RUnit, complain (signed_text (sint n) @ NEWLINE) c)"

text \<open>A string of the caller has no NUL before its end, and there are as many bytes as the caller says.\<close>

fun op_ok :: "ob_op \<Rightarrow> bool" where
  "op_ok (Print (Some t)) \<longleftrightarrow> NULC \<notin> set t"
| "op_ok (Println (Some t)) \<longleftrightarrow> NULC \<notin> set t"
| "op_ok (Eprint (Some t)) \<longleftrightarrow> NULC \<notin> set t"
| "op_ok (Eprintln (Some t)) \<longleftrightarrow> NULC \<notin> set t"
| "op_ok (PrintBytes (Some t) n) \<longleftrightarrow> n \<le> int (length t)"
| "op_ok _ \<longleftrightarrow> True"

section \<open>Decimal text\<close>

lemma int_digits_text: "int_digits_loop u p = num_text 10 (unat u) @ p"
proof (induction u p rule: int_digits_loop.induct)
  case (1 u p)
  have q: "unat (u div 10) = unat u div 10" "unat (u mod 10) = unat u mod 10" by (simp_all add: unat_div unat_mod)
  have z: "u div 10 = 0 \<longleftrightarrow> unat u < 10"
  proof -
    have "u div 10 = 0 \<longleftrightarrow> unat u div 10 = 0" using q(1) by (metis unat_eq_0)
    then show ?thesis by (simp add: div_eq_0_iff)
  qed
  have d: "char_of (48 + unat u mod 10) = digit_char (unat u mod 10)" by (simp add: digit_char_def)
  show ?case
  proof (cases "u div 10 = 0")
    case True
    then show ?thesis using z d q by (subst int_digits_loop.simps, subst num_text.simps) (simp add: Let_def)
  next
    case False
    then show ?thesis using z d q 1 [OF refl refl False] by (subst int_digits_loop.simps, subst num_text.simps) (simp add: Let_def)
  qed
qed

lemma int_digits_signed: "nurl__int_digits n = signed_text (sint n)" "nurl_str_int n = signed_text (sint n)"
  using unat_sint [of n] unat_neg_sint [of n]
  by (auto simp: nurl__int_digits_def nurl_str_int_def Let_def int_digits_text signed_text_def word_sless_alt)

lemma put_str_take: "length buf \<le> lim \<Longrightarrow> nurl__put_str lim buf t = take lim (buf @ t)"
  by (induction lim buf t rule: nurl__put_str.induct) (auto simp: take_Cons')

text \<open>The message of a bad index is the sentence it stands for, cut to 255 characters.\<close>

lemma panic_index_says:
  "panic_index_text idx len what at = take 255 (''index out of bounds'' @ (if opt_text at = [] then [] else '' at '' @ opt_text at) @
    '': the index is '' @ signed_text (sint idx) @ '' but the '' @ (if opt_text what = [] then ''length'' else opt_text what) @ '' is '' @ signed_text (sint len))"
proof -
  define L where "L = (255 :: nat)"
  have dec: "nurl__put_dec L b n = nurl__put_str L b (signed_text (sint n))" for b n
    using int_digits_signed(1) [of n] by (simp add: nurl__put_dec_def nurl__int_digits_def Let_def)
  have s: "nurl__put_str L (take L b) t = take L (b @ t)" for b t
  proof -
    have "nurl__put_str L (take L b) t = take L (take L b @ t)" by (rule put_str_take) simp
    also have "\<dots> = take L (b @ t)" by (cases "length b \<le> L") simp_all
    finally show ?thesis .
  qed
  have s0: "nurl__put_str L [] t = take L t" for t using put_str_take [of "[]" L t] by simp
  have a: "(case at of None \<Rightarrow> take L b | Some t \<Rightarrow> if t = [] then take L b else nurl__put_str L (nurl__put_str L (take L b) '' at '') t) =
      take L (b @ (if opt_text at = [] then [] else '' at '' @ opt_text at))" for b
    by (cases at) (auto simp only: opt_text_def option.case s append_assoc append_Nil2 split: if_splits)
  have w: "(case what of None \<Rightarrow> ''length'' | Some t \<Rightarrow> if t = [] then ''length'' else t) = (if opt_text what = [] then ''length'' else opt_text what)"
    by (cases what) (simp_all add: opt_text_def)
  show ?thesis unfolding panic_index_text_def L_def [symmetric] Let_def s0 a w dec by (simp only: s append_assoc)
qed

section \<open>The representation\<close>

text \<open>Frame \<open>i\<close> from the bottom starts behind the frames below it, and restores buffering unless it is the bottom one.\<close>

definition stack_rep :: "string list \<Rightarrow> OutbufFrame list \<Rightarrow> bool" where
  "stack_rep fs st \<longleftrightarrow> length fs \<le> 32 \<and> length st = 32 \<and>
    (\<forall>i < length fs. st ! i = \<lparr>fr_start = length (concat (take i (rev fs))), fr_mode = (i > 0)\<rparr>)"

definition buf_rep :: "string list \<Rightarrow> outbuf \<Rightarrow> bool" where
  "buf_rep fs s \<longleftrightarrow> (case g_outbuf s of
     None \<Rightarrow> fs = [] \<and> g_outbuf_len s = 0
   | Some a \<Rightarrow> length a = g_outbuf_cap s \<and> g_outbuf_len s = length (concat (rev fs)) \<and> g_outbuf_len s < g_outbuf_cap s \<and>
       take (g_outbuf_len s) a = concat (rev fs) \<and> a ! g_outbuf_len s = NULC)"

definition ob_rep :: "bool \<Rightarrow> capture \<Rightarrow> outbuf \<Rightarrow> bool" where
  "ob_rep tty c s \<longleftrightarrow> stack_rep (frames c) (g_outbuf_stack s) \<and> g_outbuf_sp s = length (frames c) \<and> g_outbuf_mode s = (frames c \<noteq> []) \<and>
    buf_rep (frames c) s \<and> shown s = out c \<and> held s = wait c \<and> (g_stdout_tty s < 0 \<or> g_stdout_tty s = (if tty then 1 else 0))"

lemma init_some:
  assumes "buf_rep fs s"
  shows "\<exists>a. g_outbuf (outbuf_init junk s) = Some a \<and> length a = g_outbuf_cap (outbuf_init junk s) \<and> g_outbuf_len s = length (concat (rev fs)) \<and>
    g_outbuf_len s < g_outbuf_cap (outbuf_init junk s) \<and> take (g_outbuf_len s) a = concat (rev fs) \<and> a ! g_outbuf_len s = NULC"
  using assms by (auto simp: buf_rep_def outbuf_init_def OUTBUF_INIT_CAP_def split: option.splits)

lemma init_frame [simp]:
  "g_outbuf_len (outbuf_init junk s) = g_outbuf_len s" "g_outbuf_mode (outbuf_init junk s) = g_outbuf_mode s"
  "g_outbuf_stack (outbuf_init junk s) = g_outbuf_stack s" "g_outbuf_sp (outbuf_init junk s) = g_outbuf_sp s"
  "g_stdout_tty (outbuf_init junk s) = g_stdout_tty s" "held (outbuf_init junk s) = held s" "shown (outbuf_init junk s) = shown s"
  by (simp_all add: outbuf_init_def split: option.split)

lemma init_not_none [simp]: "g_outbuf (outbuf_init junk s) \<noteq> None"
  by (simp add: outbuf_init_def split: option.split)

lemma grow_cap_ok: "0 < cap \<Longrightarrow> \<exists>c. grow_cap cap need = Some c \<and> need \<le> c \<and> cap \<le> c"
proof (induction "need - cap" arbitrary: cap rule: less_induct)
  case less
  show ?case
  proof (cases "cap < need")
    case True
    then have "need - cap * 2 < need - cap" using less.prems by (simp add: diff_less_mono2)
    then obtain c where "grow_cap (cap * 2) need = Some c" "need \<le> c" "cap * 2 \<le> c" using less.hyps [of "cap * 2"] less.prems by auto
    then show ?thesis using True by (subst grow_cap.simps) simp
  next
    case False
    then show ?thesis by (subst grow_cap.simps) simp
  qed
qed

lemma reserve_ok:
  assumes "buf_rep fs s"
  shows "\<exists>a cap. outbuf_reserve junk n s = Some ((outbuf_init junk s)\<lparr>g_outbuf := Some a, g_outbuf_cap := cap\<rparr>) \<and> length a = cap \<and>
    length (concat (rev fs)) + n < cap \<and> take (length (concat (rev fs))) a = concat (rev fs) \<and> g_outbuf_len s = length (concat (rev fs))"
proof -
  let ?s = "outbuf_init junk s" and ?l = "length (concat (rev fs))"
  obtain a where a: "g_outbuf ?s = Some a" "length a = g_outbuf_cap ?s" "g_outbuf_len s = ?l" "?l < g_outbuf_cap ?s" "take ?l a = concat (rev fs)"
    using init_some [OF assms, of junk] by auto
  show ?thesis
  proof (cases "?l + n + 1 \<le> g_outbuf_cap ?s")
    case True
    moreover have "?s = ?s\<lparr>g_outbuf := Some a, g_outbuf_cap := g_outbuf_cap ?s\<rparr>" using a(1) by simp
    ultimately show ?thesis using a by (intro exI [of _ a] exI [of _ "g_outbuf_cap ?s"]) (simp add: outbuf_reserve_def Let_def)
  next
    case False
    obtain c where c: "grow_cap (g_outbuf_cap ?s) (?l + n + 1) = Some c" "?l + n + 1 \<le> c" "g_outbuf_cap ?s \<le> c"
      using grow_cap_ok [of "g_outbuf_cap ?s" "?l + n + 1"] a(4) by auto
    then show ?thesis using a False
      by (intro exI [of _ "a @ map junk [length a..<c]"] exI [of _ c]) (simp add: outbuf_reserve_def Let_def)
  qed
qed

lemma blit_ok: "i + length t \<le> length a \<Longrightarrow> blit i t a = Some (take i a @ t @ drop (i + length t) a)"
  by (simp add: blit_def)

text \<open>Printing while a frame is open.\<close>

lemma buffered_rep:
  assumes "ob_rep tty c s" "frames c = f # fs" "length a = cap" "a = concat (rev fs) @ f @ t @ NULC # r"
    "n = length (concat (rev fs)) + length f + length t"
  shows "ob_rep tty (say tty t c) ((outbuf_init junk s)\<lparr>g_outbuf := Some a, g_outbuf_cap := cap, g_outbuf_len := n\<rparr>)"
proof -
  have "take n a = concat (rev fs) @ f @ t" "a ! n = NULC" "n < cap" using assms(3-5) by (simp_all add: nth_append)
  then have "buf_rep ((f @ t) # fs) ((outbuf_init junk s)\<lparr>g_outbuf := Some a, g_outbuf_cap := cap, g_outbuf_len := n\<rparr>)"
    using assms(3,5) by (simp add: buf_rep_def)
  moreover have "stack_rep ((f @ t) # fs) (g_outbuf_stack s)"
    using assms(1,2) by (auto simp: ob_rep_def stack_rep_def)
  ultimately show ?thesis using assms(1,2) by (simp add: ob_rep_def say_def)
qed

lemma stdout_rep:
  assumes "ob_rep tty c s" "frames c = []"
  shows "ob_rep tty (say tty t c) (to_stdout tty t s)"
  using assms by (auto simp: ob_rep_def say_def to_stdout_def fflush_stdout_def Let_def buf_rep_def split: option.splits)

lemma print_ok:
  assumes "ob_rep tty c s"
  shows "\<exists>s'. nurl__print_locked junk tty (Some t) s = Some s' \<and> ob_rep tty (say tty t c) s'"
proof (cases "frames c")
  case Nil
  then show ?thesis using assms stdout_rep [OF assms Nil] by (auto simp: nurl__print_locked_def ob_rep_def)
next
  case (Cons f fs)
  have m: "g_outbuf_mode s" "buf_rep (f # fs) s" using assms Cons by (simp_all add: ob_rep_def)
  let ?l = "length (concat (rev (f # fs)))"
  obtain a cap where r: "outbuf_reserve junk (length t) s = Some ((outbuf_init junk s)\<lparr>g_outbuf := Some a, g_outbuf_cap := cap\<rparr>)" "length a = cap"
    "?l + length t < cap" "take ?l a = concat (rev (f # fs))" "g_outbuf_len s = ?l" using reserve_ok [OF m(2), of junk "length t"] by auto
  let ?a = "take ?l a @ (t @ [NULC]) @ drop (?l + length (t @ [NULC])) a"
  have "blit ?l (t @ [NULC]) a = Some ?a" by (rule blit_ok) (use r(2,3) in simp)
  then have "nurl__print_locked junk tty (Some t) s = Some ((outbuf_init junk s)\<lparr>g_outbuf := Some ?a, g_outbuf_cap := cap, g_outbuf_len := ?l + length t\<rparr>)"
    using m(1) r by (simp add: nurl__print_locked_def)
  moreover have "ob_rep tty (say tty t c) ((outbuf_init junk s)\<lparr>g_outbuf := Some ?a, g_outbuf_cap := cap, g_outbuf_len := ?l + length t\<rparr>)"
    by (rule buffered_rep [OF assms Cons]) (use r in simp_all)
  ultimately show ?thesis by blast
qed

lemma print_bytes_ok:
  assumes "ob_rep tty c s" "0 < n" "n \<le> int (length bs)"
  shows "\<exists>s'. nurl_print_bytes junk tty (Some bs) n s = Some s' \<and> ob_rep tty (say tty (take (nat n) bs) c) s'"
proof (cases "frames c")
  case Nil
  then show ?thesis using assms stdout_rep [OF assms(1) Nil] by (auto simp: nurl_print_bytes_def ob_rep_def)
next
  case (Cons f fs)
  let ?t = "take (nat n) bs"
  have t: "length ?t = nat n" using assms(2,3) by simp
  have m: "g_outbuf_mode s" "buf_rep (f # fs) s" using assms(1) Cons by (simp_all add: ob_rep_def)
  let ?l = "length (concat (rev (f # fs)))"
  obtain a cap where r: "outbuf_reserve junk (nat n) s = Some ((outbuf_init junk s)\<lparr>g_outbuf := Some a, g_outbuf_cap := cap\<rparr>)" "length a = cap"
    "?l + nat n < cap" "take ?l a = concat (rev (f # fs))" "g_outbuf_len s = ?l" using reserve_ok [OF m(2), of junk "nat n"] by auto
  let ?a1 = "take ?l a @ ?t @ drop (?l + length ?t) a"
  let ?a = "take (?l + nat n) ?a1 @ [NULC] @ drop (?l + nat n + length [NULC]) ?a1"
  have b: "blit ?l ?t a = Some ?a1" "blit (?l + nat n) [NULC] ?a1 = Some ?a"
    by (rule blit_ok; use r(2,3) t in simp)+
  have "nurl_print_bytes junk tty (Some bs) n s = Some ((outbuf_init junk s)\<lparr>g_outbuf := Some ?a, g_outbuf_cap := cap, g_outbuf_len := ?l + nat n\<rparr>)"
    unfolding nurl_print_bytes_def using m(1) r b assms(2,3) by simp
  moreover have "ob_rep tty (say tty ?t c) ((outbuf_init junk s)\<lparr>g_outbuf := Some ?a, g_outbuf_cap := cap, g_outbuf_len := ?l + nat n\<rparr>)"
    by (rule buffered_rep [OF assms(1) Cons]) (use r t in simp_all)
  ultimately show ?thesis by blast
qed

text \<open>The operations on frames.\<close>

lemma init_rep: "ob_rep tty c s \<Longrightarrow> ob_rep tty c (outbuf_init junk s)"
  using init_some [of "frames c" s junk] by (auto simp: ob_rep_def buf_rep_def)

lemma start_ok:
  assumes "ob_rep tty c s"
  shows "ob_rep tty (snd (cap_step tty Start c)) (nurl_print_buf_start junk s)"
proof (cases "length (frames c) < 32")
  case True
  let ?f = "\<lparr>fr_start = g_outbuf_len s, fr_mode = g_outbuf_mode s\<rparr>" and ?n = "length (frames c)"
  have s: "stack_rep (frames c) (g_outbuf_stack s)" "g_outbuf_mode s = (frames c \<noteq> [])" "g_outbuf_len s = length (concat (rev (frames c)))"
    using assms by (auto simp: ob_rep_def buf_rep_def split: option.splits)
  have "stack_rep ([] # frames c) ((g_outbuf_stack s)[?n := ?f])"
    unfolding stack_rep_def
  proof (intro conjI allI impI)
    fix i
    assume i: "i < length ([] # frames c)"
    show "(g_outbuf_stack s)[?n := ?f] ! i = \<lparr>fr_start = length (concat (take i (rev ([] # frames c)))), fr_mode = (i > 0)\<rparr>"
    proof (cases "i = ?n")
      case True
      then show ?thesis using s \<open>?n < 32\<close> by (simp add: stack_rep_def)
    next
      case False
      then show ?thesis using s(1) i by (simp add: stack_rep_def)
    qed
  qed (use s(1) True in \<open>simp_all add: stack_rep_def\<close>)
  then show ?thesis using True init_rep [OF assms, of junk] init_not_none [of junk s] by (auto simp: ob_rep_def nurl_print_buf_start_def Let_def OUTBUF_STACK_MAX_def buf_rep_def split: option.splits)
next
  case False
  then show ?thesis using init_rep [OF assms, of junk]
    by (auto simp: ob_rep_def nurl_print_buf_start_def Let_def OUTBUF_STACK_MAX_def fputs_stderr_def buf_rep_def split: option.splits)
qed

lemma stop_ok:
  assumes "ob_rep tty c s"
  shows "\<exists>t s'. nurl_print_buf_stop junk s = Some (t, s') \<and> fst (cap_step tty Stop c) = RText t \<and> ob_rep tty (snd (cap_step tty Stop c)) s'"
proof -
  define fs where "fs = tl (frames c)"
  define f where "f = (if frames c = [] then [] else hd (frames c))"
  let ?l = "length (concat (rev fs))"
  obtain a where a: "g_outbuf (outbuf_init junk s) = Some a" "length a = g_outbuf_cap (outbuf_init junk s)"
    "length (concat (rev (frames c))) < length a" "take (length (concat (rev (frames c)))) a = concat (rev (frames c))" "a ! length (concat (rev (frames c))) = NULC"
    using init_some [of "frames c" s junk] assms by (auto simp: ob_rep_def)
  have cc: "concat (rev (frames c)) = concat (rev fs) @ f" by (cases "frames c") (simp_all add: fs_def f_def)
  have "a = take (?l + length f) a @ NULC # drop (Suc (?l + length f)) a"
    using a(3,5) unfolding cc by (metis append_take_drop_id Cons_nth_drop_Suc length_append)
  then obtain r where ar: "a = concat (rev fs) @ f @ NULC # r" using a(4) unfolding cc by simp
  have fr: "(if g_outbuf_sp s > 0 then let f = g_outbuf_stack s ! (g_outbuf_sp s - 1) in (fr_start f, fr_mode f, g_outbuf_sp s - 1)
      else (0, False, g_outbuf_sp s)) = (?l, fs \<noteq> [], length fs)"
    using assms by (cases "frames c") (auto simp: ob_rep_def stack_rep_def fs_def Let_def)
  have dup: "strdup_at ?l a = Some (until_nul f)"
    unfolding ar strdup_at_def until_nul_def by (cases "NULC \<in> set f") (simp_all add: takeWhile_tail)
  let ?a = "concat (rev fs) @ [NULC] @ tl (f @ NULC # r)"
  have b: "blit ?l [NULC] a = Some ?a" unfolding ar by (subst blit_ok) (cases f; simp)+
  let ?s = "(outbuf_init junk s)\<lparr>g_outbuf_sp := length fs, g_outbuf_len := ?l, g_outbuf := Some ?a, g_outbuf_mode := (fs \<noteq> [])\<rparr>"
  have "nurl_print_buf_stop junk s = Some (until_nul f, ?s)"
    unfolding nurl_print_buf_stop_def Let_def init_frame fr [unfolded Let_def] using dup b a(1) by simp
  moreover have "snd (cap_step tty Stop c) = c\<lparr>frames := fs\<rparr>" "fst (cap_step tty Stop c) = RText (until_nul f)"
    by (cases "frames c"; simp add: fs_def f_def until_nul_def)+
  moreover have "ob_rep tty (c\<lparr>frames := fs\<rparr>) ?s"
  proof -
    have "length ?a = length a" "?a ! ?l = NULC" unfolding ar by (simp_all add: nth_append)
    then have "buf_rep fs ?s" using a(2,3) unfolding cc by (simp add: buf_rep_def)
    moreover have "stack_rep fs (g_outbuf_stack s)" using assms by (cases "frames c") (auto simp: ob_rep_def stack_rep_def fs_def)
    ultimately show ?thesis using assms by (simp add: ob_rep_def)
  qed
  ultimately show ?thesis by (simp del: cap_step.simps)
qed

lemma clear_ok:
  assumes "ob_rep tty c s"
  shows "\<exists>s'. nurl_print_buf_unwind junk s = Some s' \<and> ob_rep tty (c\<lparr>frames := []\<rparr>) s'"
    "frames c = [] \<Longrightarrow> \<exists>s'. nurl_print_buf_reset junk s = Some s' \<and> ob_rep tty c s'"
proof -
  obtain a where a: "g_outbuf (outbuf_init junk s) = Some a" "length a = g_outbuf_cap (outbuf_init junk s)" "0 < length a"
    using init_some [of "frames c" s junk] assms by (auto simp: ob_rep_def)
  let ?a = "[NULC] @ drop 1 a"
  have b: "blit 0 [NULC] a = Some ?a" using a(3) by (subst blit_ok) (auto simp: Suc_le_eq)
  have l: "length ?a = g_outbuf_cap (outbuf_init junk s)" using a(2,3) by simp
  show "\<exists>s'. nurl_print_buf_unwind junk s = Some s' \<and> ob_rep tty (c\<lparr>frames := []\<rparr>) s'"
    using assms a b l by (auto simp: nurl_print_buf_unwind_def Let_def ob_rep_def buf_rep_def stack_rep_def)
  show "\<exists>s'. nurl_print_buf_reset junk s = Some s' \<and> ob_rep tty c s'" if "frames c = []"
    using assms a b l that by (auto simp: nurl_print_buf_reset_def Let_def ob_rep_def buf_rep_def)
qed

lemma stderr_ok: "ob_rep tty c s \<Longrightarrow> ob_rep tty (complain t c) (fputs_stderr t (fflush_stdout s))"
  by (auto simp: ob_rep_def complain_def fputs_stderr_def fflush_stdout_def buf_rep_def split: option.splits)

lemma stderr_twice: "fputs_stderr u (fputs_stderr t s) = fputs_stderr (t @ u) s"
  by (simp add: fputs_stderr_def)

lemma say_twice: "say tty u (say tty t c) = say tty (t @ u) c"
  by (simp add: say_def split: list.split)

lemma ob_step_ok:
  assumes "ob_rep tty c s" "op_ok p"
  shows "\<exists>s'. ob_step junk tty p s = Some (fst (cap_step tty p c), s') \<and> ob_rep tty (snd (cap_step tty p c)) s'"
proof (cases p)
  case Start
  then show ?thesis using start_ok [OF assms(1), of junk] by simp
next
  case Stop
  then show ?thesis using stop_ok [OF assms(1), of junk] by auto
next
  case Reset
  have "g_outbuf_sp s = length (frames c)" using assms(1) by (simp add: ob_rep_def)
  then have "\<exists>s'. nurl_print_buf_reset junk s = Some s' \<and> ob_rep tty c s'"
    using clear_ok(2) [OF assms(1), of junk] init_rep [OF assms(1), of junk]
    by (cases "frames c = []") (blast, simp add: nurl_print_buf_reset_def Let_def)
  then show ?thesis using Reset by auto
next
  case Unwind
  then show ?thesis using clear_ok(1) [OF assms(1), of junk] by auto
next
  case Len
  have "g_outbuf_len s = length (concat (rev (frames c)))" using assms(1) by (auto simp: ob_rep_def buf_rep_def split: option.splits)
  moreover have "length (concat (rev fs)) = length (concat fs)" for fs :: "string list" by (induction fs) simp_all
  ultimately show ?thesis using Len init_rep [OF assms(1), of junk] by (simp add: nurl_print_buf_len_def Let_def)
next
  case (Print t)
  then show ?thesis using print_ok [OF assms(1), of junk] assms(1)
    by (cases t) (auto simp: nurl_print_def nurl__print_locked_def opt_text_def bind_eq_Some_conv)
next
  case (Println t)
  show ?thesis
  proof (cases t)
    case None
    then show ?thesis using Println print_ok [OF assms(1), of junk NEWLINE]
      by (auto simp: nurl_println_def nurl__print_locked_def [of _ _ None] opt_text_def)
  next
    case (Some u)
    obtain s1 where s1: "nurl__print_locked junk tty (Some u) s = Some s1" "ob_rep tty (say tty u c) s1" using print_ok [OF assms(1), of junk u] by auto
    then show ?thesis using Println Some print_ok [OF s1(2), of junk NEWLINE] by (auto simp: nurl_println_def say_twice opt_text_def)
  qed
next
  case (PrintBytes t n)
  show ?thesis
  proof (cases "t = None \<or> n \<le> 0")
    case True
    then have "nurl_print_bytes junk tty t n s = Some s" by (cases t) (auto simp: nurl_print_bytes_def)
    then show ?thesis using PrintBytes True assms(1) by auto
  next
    case False
    then obtain bs where "t = Some bs" "0 < n" by auto
    then show ?thesis using PrintBytes print_bytes_ok [OF assms(1), of n bs junk] assms(2) by (auto simp: opt_text_def)
  qed
next
  case (PrintInt n)
  then show ?thesis using print_ok [OF assms(1), of junk "signed_text (sint n)"] by (auto simp: nurl_print_int_def nurl_print_def int_digits_signed)
next
  case (PrintlnInt n)
  then show ?thesis using print_ok [OF assms(1), of junk "signed_text (sint n) @ NEWLINE"] by (auto simp: nurl_println_int_def nurl_print_def int_digits_signed)
next
  case (Eprint t)
  then show ?thesis using stderr_ok [OF assms(1)] by (simp add: nurl_eprint_def opt_text_def)
next
  case (Eprintln t)
  then show ?thesis using stderr_ok [OF assms(1)] by (simp add: nurl_eprintln_def opt_text_def stderr_twice)
next
  case (EprintInt n)
  then show ?thesis using stderr_ok [OF assms(1)] by (simp add: nurl_eprint_int_def nurl_eprint_def int_digits_signed)
next
  case (EprintlnInt n)
  then show ?thesis using stderr_ok [OF assms(1)] by (simp add: nurl_eprintln_int_def nurl_eprintln_def int_digits_signed stderr_twice)
qed

section \<open>Runs\<close>

fun ob_run :: "(nat \<Rightarrow> char) \<Rightarrow> bool \<Rightarrow> ob_op list \<Rightarrow> outbuf \<Rightarrow> (ob_ret list \<times> outbuf) option" where
  "ob_run junk tty [] s = Some ([], s)"
| "ob_run junk tty (p # ps) s = do { (r, s1) \<leftarrow> ob_step junk tty p s; (rs, s2) \<leftarrow> ob_run junk tty ps s1; Some (r # rs, s2) }"

fun cap_run :: "bool \<Rightarrow> ob_op list \<Rightarrow> capture \<Rightarrow> ob_ret list \<times> capture" where
  "cap_run tty [] c = ([], c)"
| "cap_run tty (p # ps) c = (let (r, c1) = cap_step tty p c; (rs, c2) = cap_run tty ps c1 in (r # rs, c2))"

definition cap_boot :: capture where
  "cap_boot = \<lparr>frames = [], out = [], wait = []\<rparr>"

text \<open>What an operation sends to the streams rather than into a frame.\<close>

fun op_says :: "ob_op \<Rightarrow> capture \<Rightarrow> string" where
  "op_says (Print p) c = (if frames c = [] then opt_text p else [])"
| "op_says (Println p) c = (if frames c = [] then opt_text p @ NEWLINE else [])"
| "op_says (PrintBytes p n) c = (if frames c = [] then take (nat n) (opt_text p) else [])"
| "op_says (PrintInt n) c = (if frames c = [] then signed_text (sint n) else [])"
| "op_says (PrintlnInt n) c = (if frames c = [] then signed_text (sint n) @ NEWLINE else [])"
| "op_says (Eprint p) c = opt_text p"
| "op_says (Eprintln p) c = opt_text p @ NEWLINE"
| "op_says (EprintInt n) c = signed_text (sint n)"
| "op_says (EprintlnInt n) c = signed_text (sint n) @ NEWLINE"
| "op_says _ c = []"

fun spoken :: "bool \<Rightarrow> ob_op list \<Rightarrow> capture \<Rightarrow> string" where
  "spoken tty [] c = []"
| "spoken tty (p # ps) c = op_says p c @ spoken tty ps (snd (cap_step tty p c))"

fun nests :: "bool \<Rightarrow> ob_op list \<Rightarrow> capture \<Rightarrow> bool" where
  "nests tty [] c \<longleftrightarrow> True"
| "nests tty (p # ps) c \<longleftrightarrow> (p = Start \<longrightarrow> length (frames c) < 32) \<and> nests tty ps (snd (cap_step tty p c))"

lemma step_says:
  assumes "p = Start \<longrightarrow> length (frames c) < 32"
  shows "out (snd (cap_step tty p c)) @ wait (snd (cap_step tty p c)) = out c @ wait c @ op_says p c"
proof -
  have s: "out (say tty t c) @ wait (say tty t c) = out c @ wait c @ (if frames c = [] then t else [])" for t
    by (simp add: say_def split: list.split)
  have k: "out (complain t c) @ wait (complain t c) = out c @ wait c @ t" for t by (simp add: complain_def)
  show ?thesis using assms by (cases p) (auto simp: s k opt_text_def split: list.split)
qed

lemma run_says: "nests tty ps c \<Longrightarrow> out (snd (cap_run tty ps c)) @ wait (snd (cap_run tty ps c)) = out c @ wait c @ spoken tty ps c"
proof (induction ps arbitrary: c)
  case (Cons p ps)
  then show ?case using step_says [of p c tty] Cons.IH [of "snd (cap_step tty p c)"] by (simp add: case_prod_beta Let_def flip: append_assoc)
qed simp

lemma ob_run_ok:
  "ob_rep tty c s \<Longrightarrow> list_all op_ok ps \<Longrightarrow>
    \<exists>s'. ob_run junk tty ps s = Some (fst (cap_run tty ps c), s') \<and> ob_rep tty (snd (cap_run tty ps c)) s'"
proof (induction ps arbitrary: c s)
  case (Cons p ps)
  obtain s1 where s1: "ob_step junk tty p s = Some (fst (cap_step tty p c), s1)" "ob_rep tty (snd (cap_step tty p c)) s1"
    using ob_step_ok [OF Cons.prems(1), of p junk] Cons.prems(2) by auto
  then show ?case using Cons.IH [OF s1(2)] Cons.prems(2) by (auto simp: case_prod_beta Let_def)
qed simp

text \<open>C36. Output capture is a stack of texts. Over any sequence of calls, with any contents of fresh memory, every access stays in the buffer
  and every call returns what the specification says: a print goes to the innermost open frame and else to standard output, a stop hands back
  what was printed since its start and uncovers the frame below. Standard output and standard error together are in the order of the calls,
  whatever standard output holds back, as long as no more than 32 frames are open. A stop hands back the text up to its first NUL only: bytes that
  \<open>nurl_print_bytes\<close> put behind one are lost.\<close>

theorem capture_refines:
  assumes "list_all op_ok ops"
  shows "\<exists>s. ob_run junk tty ops outbuf_boot = Some (fst (cap_run tty ops cap_boot), s) \<and>
    shown s = out (snd (cap_run tty ops cap_boot)) \<and> held s = wait (snd (cap_run tty ops cap_boot)) \<and>
    g_outbuf_sp s = length (frames (snd (cap_run tty ops cap_boot))) \<and>
    (nests tty ops cap_boot \<longrightarrow> shown s @ held s = spoken tty ops cap_boot)"
proof -
  have "ob_rep tty cap_boot outbuf_boot" by (simp add: ob_rep_def cap_boot_def outbuf_boot_def stack_rep_def buf_rep_def OUTBUF_STACK_MAX_def)
  then obtain s where "ob_run junk tty ops outbuf_boot = Some (fst (cap_run tty ops cap_boot), s)" "ob_rep tty (snd (cap_run tty ops cap_boot)) s"
    using ob_run_ok assms by blast
  then show ?thesis using run_says [of tty ops cap_boot] by (auto simp: ob_rep_def cap_boot_def)
qed

text \<open>Text printed before a start goes out, a nested text comes back from its own stop, a byte behind a NUL does not, and the error line comes last.\<close>

theorem capture_refines_witness:
  "\<exists>s. ob_run (\<lambda>_. CHR ''?'') False
      [Print (Some ''a''), Start, Print (Some ''b''), Start, PrintBytes (Some [CHR ''c'', NULC, CHR ''d'']) 3, Stop, Println None, Stop, Eprint (Some ''e'')] outbuf_boot =
    Some ([RUnit, RUnit, RUnit, RUnit, RUnit, RText ''c'', RUnit, RText (''b'' @ NEWLINE), RUnit], s) \<and> shown s = ''ae''"
  using capture_refines [of "[Print (Some ''a''), Start, Print (Some ''b''), Start, PrintBytes (Some [CHR ''c'', NULC, CHR ''d'']) 3, Stop, Println None, Stop, Eprint (Some ''e'')]"
      "\<lambda>_. CHR ''?''" False]
  by (simp add: cap_boot_def say_def complain_def until_nul_def opt_text_def NEWLINE_def del: ob_run.simps) blast

end
