(* ===== verification/UdpAddr.thy ===== *)
theory UdpAddr
  imports CmdLine
begin

text \<open>
  The text form of a datagram address (stdlib/runtime_ffi.c, section 18): parsing and printing the 24-byte NurlUdpAddr.

  A C string is the list of its characters before the NUL, a pointer into it the rest of the list from there on. The numbers of \<open>snprintf\<close> are
  the usual texts of numbers.
\<close>

section \<open>Parsing\<close>

definition NURL_UDP_ADDR_LEN :: nat where "NURL_UDP_ADDR_LEN = 24"

abbreviation COLON :: char where "COLON \<equiv> CHR 0x3A"
abbreviation DOT :: char where "DOT \<equiv> CHR 0x2E"
abbreviation LBRACK :: char where "LBRACK \<equiv> CHR 0x5B"
abbreviation RBRACK :: char where "RBRACK \<equiv> CHR 0x5D"

definition ua_digit :: "char \<Rightarrow> bool" where
  "ua_digit c \<longleftrightarrow> (48 :: nat) \<le> of_char c \<and> of_char c \<le> (57 :: nat)"

definition nurl__udpaddr_hex :: "char \<Rightarrow> int" where
  "nurl__udpaddr_hex c =
    (let k = of_char c :: int in
     if 48 \<le> k \<and> k \<le> 57 then k - 48
     else if 97 \<le> k \<and> k \<le> 102 then k - 97 + 10
     else if 65 \<le> k \<and> k \<le> 70 then k - 65 + 10
     else -1)"

text \<open>One decimal part: its value, how many digits, and the rest; \<open>None\<close> above 255.\<close>

fun v4_part :: "nat \<Rightarrow> nat \<Rightarrow> string \<Rightarrow> (nat \<times> nat \<times> string) option" where
  "v4_part v digits [] = Some (v, digits, [])"
| "v4_part v digits (c # s) =
    (if ua_digit c
     then let v = v * 10 + (of_char c - 48) in if v > 255 then None else v4_part v (digits + 1) s
     else Some (v, digits, c # s))"

text \<open>The loop over the four parts: the rest of the string and the bytes.\<close>

primrec v4_parts :: "nat \<Rightarrow> string \<Rightarrow> u8 list \<Rightarrow> (string \<times> u8 list) option" where
  "v4_parts 0 s out = Some (s, out)"
| "v4_parts (Suc left) s out = do {
     (v, digits, r) \<leftarrow> v4_part 0 0 s;
     if digits = 0 then None
     else if left > 0
     then (case r of c # r1 \<Rightarrow> if c \<noteq> DOT then None else v4_parts left r1 (out @ [word_of_nat v]) | [] \<Rightarrow> None)
     else v4_parts left r (out @ [word_of_nat v])
   }"

definition nurl__udpaddr_parse_v4 :: "string \<Rightarrow> nat \<times> u8 list" where
  "nurl__udpaddr_parse_v4 s = (case v4_parts 4 s [] of None \<Rightarrow> (0, []) | Some (r, out) \<Rightarrow> (length s - length r, out))"

fun hex_run :: "nat \<Rightarrow> nat \<Rightarrow> string \<Rightarrow> (nat \<times> nat \<times> string) option" where
  "hex_run v digits [] = Some (v, digits, [])"
| "hex_run v digits (c # p) =
    (if nurl__udpaddr_hex c \<ge> 0
     then if digits + 1 > 4 then None else hex_run (v * 16 + nat (nurl__udpaddr_hex c)) (digits + 1) p
     else Some (v, digits, c # p))"

lemma hex_run_rest: "hex_run v d p = Some (v', d', r) \<Longrightarrow> length r \<le> length p \<and> (d < d' \<longrightarrow> length r < length p)"
proof (induction v d p arbitrary: v' d' r rule: hex_run.induct)
  case (2 v digits c p)
  then show ?case by (auto split: if_splits)
qed simp

text \<open>The loop of \<open>nurl__udpaddr_parse_v6\<close> over the characters before \<open>end\<close>: the groups and the gap.\<close>

function v6_loop :: "string \<Rightarrow> nat list \<Rightarrow> nat option \<Rightarrow> (nat list \<times> nat option) option" where
  "v6_loop p groups gap =
    (if p = [] then Some (groups, gap)
     else if length groups \<ge> 8 then None
     else let q = takeWhile (\<lambda>c. ua_digit c \<or> c = DOT) p in
       if length (filter (\<lambda>c. c = DOT) q) = 3 \<and> q = p
       then (case nurl__udpaddr_parse_v4 p of (used, v4) \<Rightarrow>
         if length groups > 6 \<or> used = 0 then None
         else Some (groups @ [unat (v4 ! 0) * 256 + unat (v4 ! 1), unat (v4 ! 2) * 256 + unat (v4 ! 3)], gap))
       else (case hex_run 0 0 p of
         None \<Rightarrow> None
       | Some (v, digits, r) \<Rightarrow>
           if digits = 0 then None
           else (case r of
             [] \<Rightarrow> Some (groups @ [v], gap)
           | c # r1 \<Rightarrow>
               if c \<noteq> COLON then None
               else (case r1 of
                 [] \<Rightarrow> None
               | d # r2 \<Rightarrow>
                   if d = COLON
                   then if gap \<noteq> None then None
                     else if r2 = [] then Some (groups @ [v], Some (length (groups @ [v])))
                     else v6_loop r2 (groups @ [v]) (Some (length (groups @ [v])))
                   else v6_loop r1 (groups @ [v]) gap))))"
  by pat_completeness auto
termination
  by (relation "measure (\<lambda>(p, groups, gap). length p)") (auto dest: hex_run_rest)

declare v6_loop.simps [simp del]

primrec place_groups :: "nat \<Rightarrow> nat option \<Rightarrow> nat \<Rightarrow> nat list \<Rightarrow> u8 list \<Rightarrow> u8 list" where
  "place_groups i gap shift [] out = out"
| "place_groups i gap shift (g # gs) out =
    (let idx = (case gap of None \<Rightarrow> i | Some k \<Rightarrow> if i \<ge> k then i + shift else i)
     in place_groups (i + 1) gap shift gs (out[2 * idx := word_of_nat (g div 256), 2 * idx + 1 := word_of_nat (g mod 256)]))"

definition v6_start :: "string \<Rightarrow> (string \<times> nat option) option" where
  "v6_start s = (case s of
     c # r \<Rightarrow> if c = COLON then (case r of d # p \<Rightarrow> if d \<noteq> COLON then None else Some (p, Some 0) | [] \<Rightarrow> None) else Some (s, None)
   | [] \<Rightarrow> Some (s, None))"

definition nurl__udpaddr_parse_v6 :: "string \<Rightarrow> u8 list option" where
  "nurl__udpaddr_parse_v6 s = do {
     (p, gap0) \<leftarrow> v6_start s;
     (groups, gap) \<leftarrow> v6_loop p [] gap0;
     let n = length groups;
     if gap = None \<and> n \<noteq> 8 then None
     else if gap \<noteq> None \<and> n \<ge> 8 then None
     else Some (place_groups 0 gap (if gap \<noteq> None then 8 - n else 0) groups (replicate 16 0))
   }"

definition v4mapped :: "u8 list" where
  "v4mapped = [0, 0, 0, 0, 0, 0, 0, 0, 0, 0, 0xff, 0xff]"

fun port_loop :: "nat \<Rightarrow> string \<Rightarrow> nat option" where
  "port_loop port [] = Some port"
| "port_loop port (c # p) =
    (if \<not> ua_digit c then None
     else let port = port * 10 + (of_char c - 48) in if port > 65535 then None else port_loop port p)"

text \<open>Where the address and the port are: the text from the address on, its part before \<open>ip_end\<close>, and the port.\<close>

definition split_addr :: "string \<Rightarrow> (string \<times> string \<times> string option) option" where
  "split_addr text =
    (if hd text = LBRACK
     then let s = tl text; ip = takeWhile (\<lambda>c. c \<noteq> RBRACK) s in
       if RBRACK \<notin> set s then None
       else (case drop (length ip + 1) s of
         [] \<Rightarrow> Some (s, ip, None)
       | c # r \<Rightarrow> if c = COLON then Some (s, ip, Some r) else None)
     else if length (filter (\<lambda>c. c = COLON) text) = 1
     then let ip = takeWhile (\<lambda>c. c \<noteq> COLON) text in Some (text, ip, Some (drop (length ip + 1) text))
     else Some (text, text, None))"

definition parse_port :: "string option \<Rightarrow> nat option" where
  "parse_port port_s = (case port_s of None \<Rightarrow> Some 0 | Some p \<Rightarrow> if p = [] then None else port_loop 0 p)"

definition fill :: "nat \<Rightarrow> u8 list \<Rightarrow> u8 list \<Rightarrow> u8 list" where
  "fill i bs a = take i a @ bs @ drop (i + length bs) a"

definition nurl__udpaddr_parse :: "string option \<Rightarrow> int \<times> u8 list" where
  "nurl__udpaddr_parse text =
    (let a = replicate NURL_UDP_ADDR_LEN 0 in
     case text of None \<Rightarrow> (-1, a)
     | Some t \<Rightarrow>
       if t = [] then (-1, a)
       else (case split_addr t of
         None \<Rightarrow> (-1, a)
       | Some (ip_start, ip, port_s) \<Rightarrow> (case parse_port port_s of
           None \<Rightarrow> (-1, a)
         | Some port \<Rightarrow>
             let a = a[2 := word_of_nat (port div 256), 3 := word_of_nat (port mod 256)] in
             if COLON \<in> set ip
             then (case nurl__udpaddr_parse_v6 ip of
               None \<Rightarrow> (-1, a)
             | Some v6 \<Rightarrow>
                 if take 12 v6 = v4mapped then (0, fill 4 (take 4 (drop 12 v6)) (a[0 := 4]))
                 else (0, fill 4 v6 (a[0 := 6])))
             else (case nurl__udpaddr_parse_v4 ip_start of (used, v4) \<Rightarrow>
               if used = 0 \<or> used \<noteq> length ip then (-1, a)
               else (0, fill 4 v4 (a[0 := 4]))))))"

section \<open>Printing\<close>

text \<open>The longest run of zero groups: \<open>best\<close>, \<open>bestlen\<close>, \<open>cur\<close> and \<open>curlen\<close> after the groups from \<open>i\<close> on.\<close>

primrec zero_run :: "nat \<Rightarrow> nat list \<Rightarrow> nat option \<times> nat \<Rightarrow> nat option \<times> nat \<Rightarrow> nat option \<times> nat" where
  "zero_run i [] best cur = best"
| "zero_run i (g # gs) best cur =
    (if g = 0
     then let cur = (case fst cur of None \<Rightarrow> (Some i, 0) | Some k \<Rightarrow> cur);
              cur = (fst cur, snd cur + 1);
              best = (if snd cur > snd best then cur else best)
          in zero_run (i + 1) gs best cur
     else zero_run (i + 1) gs best (None, snd cur))"

function ip6_loop :: "nat \<Rightarrow> nat list \<Rightarrow> nat option \<Rightarrow> nat \<Rightarrow> string" where
  "ip6_loop i g best bestlen =
    (if i < 8
     then if Some i = best \<and> bestlen > 0
       then [COLON, COLON] @ ip6_loop (i + bestlen) g best bestlen
       else num_text 16 (g ! i) @ (if i < 7 \<and> Some (i + 1) \<noteq> best then [COLON] else []) @ ip6_loop (i + 1) g best bestlen
     else [])"
  by pat_completeness auto
termination by (relation "measure (\<lambda>(i, g, best, bestlen). 8 - i)") auto

declare ip6_loop.simps [simp del]

definition dotted :: "u8 list \<Rightarrow> string" where
  "dotted v4 = num_text 10 (unat (v4 ! 0)) @ [DOT] @ num_text 10 (unat (v4 ! 1)) @ [DOT] @ num_text 10 (unat (v4 ! 2)) @ [DOT] @ num_text 10 (unat (v4 ! 3))"

definition ip6_text :: "u8 list \<Rightarrow> string" where
  "ip6_text v6 =
    (if take 12 v6 = v4mapped then ''::ffff:'' @ dotted (drop 12 v6)
     else let
         g = map (\<lambda>i. unat (v6 ! (2 * i)) * 256 + unat (v6 ! (2 * i + 1))) [0..<8];
         (best, bestlen) = zero_run 0 g (None, 0) (None, 0);
         best = (if bestlen < 2 then None else best)
       in ip6_loop 0 g best bestlen)"

text \<open>The text goes into an array of \<open>cap\<close> bytes; a null address is \<open>None\<close>.\<close>

definition nurl__udpaddr_format :: "u8 list option \<Rightarrow> nat \<Rightarrow> string" where
  "nurl__udpaddr_format a cap = (case a of
     None \<Rightarrow> []
   | Some a \<Rightarrow>
       if a ! 0 \<noteq> 4 \<and> a ! 0 \<noteq> 6 then []
       else let port = unat (a ! 2) * 256 + unat (a ! 3) in
         take (cap - 1)
           (if a ! 0 = 4 then dotted (drop 4 a) @ [COLON] @ num_text 10 port
            else [LBRACK] @ ip6_text (take 16 (drop 4 a)) @ [RBRACK, COLON] @ num_text 10 port))"

end
