(* ===== verification/UdpAddrProps.thy ===== *)
theory UdpAddrProps
  imports UdpAddr
begin

text \<open>
  Printing an address and parsing the text gives the address back.
\<close>

section \<open>Texts of numbers\<close>

definition nval :: "nat \<Rightarrow> nat \<Rightarrow> nat list \<Rightarrow> nat" where
  "nval b v ds = foldl (\<lambda>v d. v * b + d) v ds"

lemma nval_simps [simp]: "nval b v [] = v" "nval b v (d # ds) = nval b (v * b + d) ds" "nval b v (ds @ es) = nval b (nval b v ds) es"
  by (simp_all add: nval_def)

lemma nval_ge: "0 < b \<Longrightarrow> v \<le> nval b v ds"
proof (induction ds arbitrary: v)
  case (Cons d ds)
  have "v \<le> v * b + d" using Cons.prems by (cases b) simp_all
  then show ?case using Cons.IH [OF Cons.prems, of "v * b + d"] by simp
qed simp

lemma num_text_digits:
  assumes "1 < b"
  shows "\<exists>ds. num_text b n = map digit_char ds \<and> ds \<noteq> [] \<and> list_all (\<lambda>d. d < b) ds \<and> nval b 0 ds = n \<and> (\<forall>k > 0. n < b ^ k \<longrightarrow> length ds \<le> k)"
  using assms
proof (induction b n rule: num_text.induct)
  case (1 b n)
  show ?case
  proof (cases "n < b")
    case True
    then show ?thesis using 1(2) by (intro exI [of _ "[n]"]) (simp add: num_text.simps)
  next
    case False
    then obtain ds where ds: "num_text b (n div b) = map digit_char ds" "ds \<noteq> []" "list_all (\<lambda>d. d < b) ds" "nval b 0 ds = n div b"
      "\<forall>k > 0. n div b < b ^ k \<longrightarrow> length ds \<le> k" using 1 by auto
    have l: "length ds + 1 \<le> k" if k: "0 < k" "n < b ^ k" for k
    proof -
      obtain j where j: "k = Suc j" using k(1) by (cases k) auto
      have "n div b < b ^ j" using k(2) 1(2) unfolding j by (simp add: less_mult_imp_div_less mult.commute)
      moreover have "0 < j" using k(2) False j by (cases j) auto
      ultimately show ?thesis using ds(5) j by auto
    qed
    have "num_text b n = map digit_char (ds @ [n mod b])" using False 1(2) ds(1) by (subst num_text.simps) simp
    moreover have "n mod b < b" using 1(2) by simp
    ultimately show ?thesis using ds(3,4) l by (intro exI [of _ "ds @ [n mod b]"]) auto
  qed
qed

lemma digit_char_code: "d < 10 \<Longrightarrow> of_char (digit_char d) = 48 + d" "10 \<le> d \<Longrightarrow> d < 16 \<Longrightarrow> of_char (digit_char d) = 87 + d"
  by (simp_all add: digit_char_def of_char_of)

lemma digit_char_dec: "d < 10 \<Longrightarrow> ua_digit (digit_char d)" "d < 10 \<Longrightarrow> of_char (digit_char d) - 48 = d"
  by (simp_all add: ua_digit_def digit_char_code)

lemma digit_char_hex: "d < 16 \<Longrightarrow> nurl__udpaddr_hex (digit_char d) = int d"
proof -
  assume d: "d < 16"
  have "(of_char (digit_char d) :: int) = int (of_char (digit_char d))" by (simp only: of_nat_of_char)
  then show ?thesis using d digit_char_code [of d] by (cases "d < 10") (simp_all add: nurl__udpaddr_hex_def Let_def)
qed

lemma digit_char_plain: "d < 16 \<Longrightarrow> digit_char d \<notin> {COLON, DOT, LBRACK, RBRACK}"
proof -
  have "\<forall>d \<in> set [0..<16]. digit_char d \<notin> {COLON, DOT, LBRACK, RBRACK}" by code_simp
  then show "d < 16 \<Longrightarrow> digit_char d \<notin> {COLON, DOT, LBRACK, RBRACK}" by simp
qed

lemma num_text_plain:
  assumes "b \<in> {10, 16}" "c \<in> {COLON, DOT, LBRACK, RBRACK}"
  shows "c \<notin> set (num_text b n)"
proof -
  obtain ds where ds: "num_text b n = map digit_char ds" "list_all (\<lambda>d. d < b) ds" using num_text_digits [of b n] assms(1) by auto
  have "digit_char d \<noteq> c" if "d \<in> set ds" for d
    using digit_char_plain [of d] that assms ds(2) by (auto simp: list_all_iff)
  then show ?thesis unfolding ds(1) by auto
qed

lemma num_text_plain_simps [simp]:
  "COLON \<notin> set (num_text 10 n)" "DOT \<notin> set (num_text 10 n)" "LBRACK \<notin> set (num_text 10 n)" "RBRACK \<notin> set (num_text 10 n)"
  "COLON \<notin> set (num_text 16 n)" "DOT \<notin> set (num_text 16 n)" "LBRACK \<notin> set (num_text 16 n)" "RBRACK \<notin> set (num_text 16 n)"
  by (rule num_text_plain; simp)+

lemma v4_part_digits:
  "list_all (\<lambda>d. d < 10) ds \<Longrightarrow> nval 10 v ds \<le> 255 \<Longrightarrow> v4_part v k (map digit_char ds @ s) = v4_part (nval 10 v ds) (k + length ds) s"
proof (induction ds arbitrary: v k)
  case (Cons d ds)
  have "v * 10 + d \<le> 255" using Cons.prems(2) nval_ge [of 10 "v * 10 + d" ds] by simp
  then show ?case using Cons digit_char_dec [of d] by simp
qed simp

lemma port_loop_digits: "list_all (\<lambda>d. d < 10) ds \<Longrightarrow> nval 10 v ds \<le> 65535 \<Longrightarrow> port_loop v (map digit_char ds) = Some (nval 10 v ds)"
proof (induction ds arbitrary: v)
  case (Cons d ds)
  have "v * 10 + d \<le> 65535" using Cons.prems(2) nval_ge [of 10 "v * 10 + d" ds] by simp
  then show ?case using Cons digit_char_dec [of d] by simp
qed simp

lemma hex_run_digits:
  "list_all (\<lambda>d. d < 16) ds \<Longrightarrow> k + length ds \<le> 4 \<Longrightarrow> hex_run v k (map digit_char ds @ s) = hex_run (nval 16 v ds) (k + length ds) s"
proof (induction ds arbitrary: v k)
  case (Cons d ds)
  then show ?case using digit_char_hex [of d] by simp
qed simp

lemma port_text: "p < 65536 \<Longrightarrow> num_text 10 p \<noteq> [] \<and> port_loop 0 (num_text 10 p) = Some p"
  using num_text_digits [of 10 p] port_loop_digits [of _ 0] by auto

definition stops :: "(char \<Rightarrow> bool) \<Rightarrow> string \<Rightarrow> bool" where
  "stops P s \<longleftrightarrow> (case s of [] \<Rightarrow> True | c # _ \<Rightarrow> \<not> P c)"

lemma v4_part_text: "n < 256 \<Longrightarrow> stops ua_digit s \<Longrightarrow> \<exists>k > 0. v4_part 0 0 (num_text 10 n @ s) = Some (n, k, s)"
proof -
  assume n: "n < 256" and s: "stops ua_digit s"
  obtain ds where ds: "num_text 10 n = map digit_char ds" "ds \<noteq> []" "list_all (\<lambda>d. d < 10) ds" "nval 10 0 ds = n" using num_text_digits [of 10 n] by auto
  have "v4_part n (length ds) s = Some (n, length ds, s)" using s by (cases s) (simp_all add: stops_def)
  then show ?thesis using ds v4_part_digits [OF ds(3), of 0 0 s] n by auto
qed

lemma hex_text: "n < 65536 \<Longrightarrow> stops (\<lambda>c. nurl__udpaddr_hex c \<ge> 0) s \<Longrightarrow> \<exists>k > 0. hex_run 0 0 (num_text 16 n @ s) = Some (n, k, s)"
proof -
  assume n: "n < 65536" and s: "stops (\<lambda>c. nurl__udpaddr_hex c \<ge> 0) s"
  obtain ds where ds: "num_text 16 n = map digit_char ds" "ds \<noteq> []" "list_all (\<lambda>d. d < 16) ds" "nval 16 0 ds = n" "\<forall>k > 0. n < 16 ^ k \<longrightarrow> length ds \<le> k"
    using num_text_digits [of 16 n] by auto
  have "length ds \<le> 4" using ds(5) [rule_format, of 4] n by simp
  moreover have "hex_run n (length ds) s = Some (n, length ds, s)" using s by (cases s) (simp_all add: stops_def)
  ultimately show ?thesis using ds hex_run_digits [OF ds(3), of 0 0 s] by auto
qed

section \<open>Dotted addresses\<close>

lemma v4_parts_last: "n < 256 \<Longrightarrow> stops ua_digit s \<Longrightarrow> v4_parts (Suc 0) (num_text 10 n @ s) out = Some (s, out @ [word_of_nat n])"
  using v4_part_text [of n s] by auto

lemma length_4: "length v4 = 4 \<Longrightarrow> v4 = [v4 ! 0, v4 ! 1, v4 ! 2, v4 ! 3]"
  by (auto simp: length_Suc_conv numeral_eq_Suc)

lemma parse_v4_dotted:
  assumes "length v4 = 4" "stops ua_digit s"
  shows "nurl__udpaddr_parse_v4 (dotted v4 @ s) = (length (dotted v4), v4)" "0 < length (dotted v4)"
proof -
  have b: "unat (x :: u8) < 256" for x using unsigned_less [of x] by simp
  have step: "v4_parts (Suc left) (num_text 10 (unat x) @ [DOT] @ t) out = v4_parts left t (out @ [x])" if "0 < left" for left x t out
  proof -
    have "\<not> ua_digit DOT" by (simp add: ua_digit_def)
    then have "stops ua_digit ([DOT] @ t)" by (simp add: stops_def)
    then obtain k where "0 < k" "v4_part 0 0 (num_text 10 (unat x) @ [DOT] @ t) = Some (unat x, k, [DOT] @ t)"
      using v4_part_text [OF b [of x]] by blast
    then show ?thesis using that by simp
  qed
  have d: "dotted v4 @ s = num_text 10 (unat (v4 ! 0)) @ [DOT] @ num_text 10 (unat (v4 ! 1)) @ [DOT] @ num_text 10 (unat (v4 ! 2)) @ [DOT] @ num_text 10 (unat (v4 ! 3)) @ s"
    by (simp add: dotted_def)
  have f: "(4 :: nat) = Suc (Suc (Suc (Suc 0)))" by simp
  have "v4_parts 4 (dotted v4 @ s) [] = Some (s, [v4 ! 0, v4 ! 1, v4 ! 2, v4 ! 3])"
    unfolding d f by (simp only: step zero_less_Suc v4_parts_last [OF b assms(2)]) simp
  then show "nurl__udpaddr_parse_v4 (dotted v4 @ s) = (length (dotted v4), v4)"
    using length_4 [OF assms(1)] by (simp add: nurl__udpaddr_parse_v4_def)
  show "0 < length (dotted v4)" by (simp add: dotted_def)
qed

lemma dotted_chars: "set (dotted v4) \<inter> {COLON, LBRACK, RBRACK} = {}"
  by (auto simp: dotted_def)

lemma num_text_short: "1 < b \<Longrightarrow> 0 < k \<Longrightarrow> n < b ^ k \<Longrightarrow> length (num_text b n) \<le> k"
  using num_text_digits [of b n] by auto

lemma dotted_length: "length (dotted v4) \<le> 15"
proof -
  have "length (num_text 10 (unat (x :: u8))) \<le> 3" for x
    using num_text_short [of 10 3 "unat x"] unsigned_less [of x, where 'a = nat] by simp
  from this [of "v4 ! 0"] this [of "v4 ! 1"] this [of "v4 ! 2"] this [of "v4 ! 3"] show ?thesis by (simp add: dotted_def)
qed

section \<open>Groups\<close>

fun joinc :: "nat list \<Rightarrow> string" where
  "joinc [] = []"
| "joinc [g] = num_text 16 g"
| "joinc (g # h # gs) = num_text 16 g @ [COLON] @ joinc (h # gs)"

lemma joinc_chars: "DOT \<notin> set (joinc gs)" "LBRACK \<notin> set (joinc gs)" "RBRACK \<notin> set (joinc gs)"
  by (induction gs rule: joinc.induct) auto

lemma num_text_head: "1 < b \<Longrightarrow> b \<le> 16 \<Longrightarrow> \<exists>c t. num_text b n = c # t \<and> c \<noteq> COLON \<and> c \<noteq> LBRACK"
  using num_text_digits [of b n] digit_char_plain by (fastforce simp: neq_Nil_conv list_all_iff)

lemma no_dots: "DOT \<notin> set p \<Longrightarrow> \<not> (length (filter (\<lambda>c. c = DOT) (takeWhile P p)) = 3 \<and> Q)"
proof -
  assume "DOT \<notin> set p"
  then have "filter (\<lambda>c. c = DOT) (takeWhile P p) = []" by (auto simp: filter_empty_conv dest: set_takeWhileD)
  then show ?thesis by simp
qed

lemma colon_stops: "stops (\<lambda>c. nurl__udpaddr_hex c \<ge> 0) (COLON # s)"
  by (simp add: stops_def nurl__udpaddr_hex_def Let_def)

text \<open>Without a dot the embedded form is out.\<close>

lemma v6_plain:
  assumes "DOT \<notin> set p" "p \<noteq> []" "length acc < 8" "hex_run 0 0 p = Some (v, k, r)" "0 < k"
  shows "v6_loop p acc gap = (case r of [] \<Rightarrow> Some (acc @ [v], gap)
    | c # r1 \<Rightarrow> if c \<noteq> COLON then None else (case r1 of [] \<Rightarrow> None | d # r2 \<Rightarrow>
        if d = COLON then if gap \<noteq> None then None else if r2 = [] then Some (acc @ [v], Some (length (acc @ [v])))
          else v6_loop r2 (acc @ [v]) (Some (length (acc @ [v])))
        else v6_loop r1 (acc @ [v]) gap))"
proof -
  let ?q = "takeWhile (\<lambda>c. ua_digit c \<or> c = DOT) p"
  have "\<not> (length (filter (\<lambda>c. c = DOT) ?q) = 3 \<and> ?q = p)" by (rule no_dots [OF assms(1)])
  moreover have "\<not> 8 \<le> length acc" "k \<noteq> 0" using assms(3,5) by simp_all
  ultimately show ?thesis using assms(2) by (subst v6_loop.simps) (simp only: if_False Let_def assms(4) option.case prod.case)
qed

lemma v6_group:
  assumes "g < 65536" "DOT \<notin> set s" "length acc < 8"
  shows "v6_loop (num_text 16 g) acc gap = Some (acc @ [g], gap)"
    "s = c # t \<Longrightarrow> c \<noteq> COLON \<Longrightarrow> v6_loop (num_text 16 g @ [COLON] @ s) acc gap = v6_loop s (acc @ [g]) gap"
    "v6_loop (num_text 16 g @ [COLON, COLON] @ s) acc None = (if s = [] then Some (acc @ [g], Some (length acc + 1)) else v6_loop s (acc @ [g]) (Some (length acc + 1)))"
proof -
  have n: "num_text 16 g \<noteq> []" using num_text_head [of 16 g] by auto
  obtain k1 where k1: "0 < k1" "hex_run 0 0 (num_text 16 g @ []) = Some (g, k1, [])" using hex_text [OF assms(1), of "[]"] by (auto simp: stops_def)
  show "v6_loop (num_text 16 g) acc gap = Some (acc @ [g], gap)"
    using v6_plain [OF _ n assms(3) _ k1(1), of g "[]" gap] k1(2) by simp
  obtain k2 where k2: "0 < k2" "hex_run 0 0 (num_text 16 g @ [COLON] @ s) = Some (g, k2, [COLON] @ s)" using hex_text [OF assms(1) colon_stops [of s]] by auto
  show "v6_loop (num_text 16 g @ [COLON] @ s) acc gap = v6_loop s (acc @ [g]) gap" if "s = c # t" "c \<noteq> COLON"
    using v6_plain [OF _ _ assms(3) k2(2,1), of gap] assms(2) that by simp
  obtain k3 where k3: "0 < k3" "hex_run 0 0 (num_text 16 g @ [COLON, COLON] @ s) = Some (g, k3, [COLON, COLON] @ s)"
    using hex_text [OF assms(1) colon_stops [of "COLON # s"]] by auto
  show "v6_loop (num_text 16 g @ [COLON, COLON] @ s) acc None = (if s = [] then Some (acc @ [g], Some (length acc + 1)) else v6_loop s (acc @ [g]) (Some (length acc + 1)))"
    using v6_plain [OF _ _ assms(3) k3(2,1), of None] assms(2) by simp
qed

lemma joinc_head: "gs \<noteq> [] \<Longrightarrow> \<exists>c t. joinc gs = c # t \<and> c \<noteq> COLON"
proof (cases gs rule: joinc.cases)
  case (2 g)
  then show ?thesis using num_text_head [of 16 g] by auto
next
  case (3 g h hs)
  obtain c t where "num_text 16 g = c # t" "c \<noteq> COLON" using num_text_head [of 16 g] by auto
  then show ?thesis using 3 by simp
qed simp

lemma v6_join:
  "gs \<noteq> [] \<Longrightarrow> list_all (\<lambda>g. g < 65536) gs \<Longrightarrow> length acc + length gs \<le> 8 \<Longrightarrow> v6_loop (joinc gs) acc gap = Some (acc @ gs, gap)"
proof (induction gs arbitrary: acc rule: joinc.induct)
  case (2 g)
  then show ?case using v6_group(1) [of g "[]" acc gap] by simp
next
  case (3 g h gs)
  obtain c t where c: "joinc (h # gs) = c # t" "c \<noteq> COLON" using joinc_head [of "h # gs"] by auto
  then show ?case using 3 v6_group(2) [of g "joinc (h # gs)" acc c t gap] joinc_chars(1) [of "h # gs"] by simp
qed simp

lemma v6_join_gap:
  "pre \<noteq> [] \<Longrightarrow> list_all (\<lambda>g. g < 65536) (pre @ post) \<Longrightarrow> length acc + length pre + length post \<le> 8 \<Longrightarrow>
    v6_loop (joinc pre @ [COLON, COLON] @ joinc post) acc None = Some (acc @ pre @ post, Some (length acc + length pre))"
proof (induction pre arbitrary: acc rule: joinc.induct)
  case (2 g)
  show ?case
  proof (cases "post = []")
    case True
    then show ?thesis using 2 v6_group(3) [of g "[]" acc] by simp
  next
    case False
    then have "joinc post \<noteq> []" using joinc_head [of post] by auto
    then show ?thesis using 2 v6_group(3) [of g "joinc post" acc] v6_join [OF False, of "acc @ [g]" "Some (length acc + 1)"] joinc_chars(1) by simp
  qed
next
  case (3 g h gs)
  let ?s = "joinc (h # gs) @ [COLON, COLON] @ joinc post"
  obtain c t where c: "joinc (h # gs) = c # t" "c \<noteq> COLON" using joinc_head [of "h # gs"] by auto
  have "v6_loop (num_text 16 g @ [COLON] @ ?s) acc None = v6_loop ?s (acc @ [g]) None"
    using v6_group(2) [of g ?s acc c "t @ [COLON, COLON] @ joinc post" None] c 3(3,4) joinc_chars(1) [of "h # gs"] joinc_chars(1) [of post] by simp
  then show ?case using 3(1) [of "acc @ [g]"] 3(3,4) by simp
qed simp

lemma ip6_join: "length g = 8 \<Longrightarrow> i \<le> 8 \<Longrightarrow> (\<forall>b. best = Some b \<longrightarrow> b < i) \<Longrightarrow> ip6_loop i g best bl = joinc (drop i g)"
proof (induction "8 - i" arbitrary: i)
  case 0
  then show ?case by (subst ip6_loop.simps) simp
next
  case (Suc k)
  then have i: "i < 8" by simp
  have IH: "ip6_loop (i + 1) g best bl = joinc (drop (i + 1) g)"
  proof (rule Suc.hyps(1))
    show "k = 8 - (i + 1)" "i + 1 \<le> 8" using Suc.hyps(2) i by simp_all
    show "\<forall>b. best = Some b \<longrightarrow> b < i + 1" using Suc.prems(3) by auto
  qed (rule Suc.prems(1))
  have b: "Some i \<noteq> best" "Some (i + 1) \<noteq> best" using Suc.prems(3) by auto
  have d: "drop i g = g ! i # drop (i + 1) g" using i Suc.prems(1) by (simp add: Cons_nth_drop_Suc)
  show ?case
  proof (cases "i < 7")
    case True
    then obtain h hs where "drop (i + 1) g = h # hs" using Suc.prems(1) by (cases "drop (i + 1) g") auto
    then show ?thesis using i b IH d True by (subst ip6_loop.simps) simp
  next
    case False
    then have "drop (i + 1) g = []" using i Suc.prems(1) by simp
    then show ?thesis using i b IH d False by (subst ip6_loop.simps) simp
  qed
qed

lemma ip6_join_gap:
  assumes "length g = 8" "b + bl \<le> 8" "0 < bl"
  shows "i \<le> b \<Longrightarrow> ip6_loop i g (Some b) bl = joinc (drop i (take b g)) @ [COLON, COLON] @ joinc (drop (b + bl) g)"
proof (induction "b - i" arbitrary: i)
  case 0
  then have "i = b" by simp
  then show ?case using assms ip6_join [of g "b + bl" "Some b" bl] by (subst ip6_loop.simps) simp
next
  case (Suc k)
  then have i: "i < b" "i < 8" using assms by simp_all
  have IH: "ip6_loop (i + 1) g (Some b) bl = joinc (drop (i + 1) (take b g)) @ [COLON, COLON] @ joinc (drop (b + bl) g)" using Suc by auto
  have d: "drop i (take b g) = g ! i # drop (i + 1) (take b g)"
    using i assms(1) by (metis Cons_nth_drop_Suc Suc_eq_plus1 length_take min.absorb2 min_less_iff_conj nth_take assms(2) add_leD1)
  show ?case
  proof (cases "i + 1 = b")
    case True
    then show ?thesis using i IH d assms by (subst ip6_loop.simps) simp
  next
    case False
    then obtain h hs where "drop (i + 1) (take b g) = h # hs" using i assms by (cases "drop (i + 1) (take b g)") auto
    then show ?thesis using i IH d False assms by (subst ip6_loop.simps) simp
  qed
qed

text \<open>The run that is compressed consists of zeros.\<close>

definition zeros :: "nat list \<Rightarrow> nat \<Rightarrow> nat \<Rightarrow> bool" where
  "zeros g b n \<longleftrightarrow> b + n \<le> length g \<and> (\<forall>j. b \<le> j \<and> j < b + n \<longrightarrow> g ! j = 0)"

definition run_zero :: "nat list \<Rightarrow> nat option \<times> nat \<Rightarrow> bool" where
  "run_zero g r \<longleftrightarrow> (case fst r of None \<Rightarrow> True | Some b \<Rightarrow> zeros g b (snd r))"

lemma zero_run_zero:
  "drop i g = gs \<Longrightarrow> run_zero g best \<Longrightarrow> (\<forall>k. fst cur = Some k \<longrightarrow> zeros g k (snd cur) \<and> k + snd cur = i) \<Longrightarrow> run_zero g (zero_run i gs best cur)"
proof (induction gs arbitrary: i best cur)
  case (Cons x gs)
  have il: "i < length g" using Cons.prems(1) by (metis drop_all linorder_not_less list.distinct(1))
  then have "drop i g = g ! i # drop (i + 1) g" by (simp add: Cons_nth_drop_Suc)
  then have i: "i < length g" "g ! i = x" "drop (i + 1) g = gs" using il Cons.prems(1) by simp_all
  show ?case
  proof (cases "x = 0")
    case True
    obtain k n where k: "(case fst cur of None \<Rightarrow> (Some i, 0) | Some k \<Rightarrow> cur) = (Some k, n)" "k + n = i" "zeros g k n"
      using Cons.prems(3) i by (cases cur; cases "fst cur") (auto simp: zeros_def)
    have z: "zeros g k (n + 1)" using k i True by (auto simp: zeros_def less_Suc_eq)
    let ?best = "if n + 1 > snd best then (Some k, n + 1) else best"
    have "run_zero g (zero_run (i + 1) gs ?best (Some k, n + 1))"
      by (rule Cons.IH) (use i z k Cons.prems(2) in \<open>auto simp: run_zero_def\<close>)
    then show ?thesis using True k(1) by (simp add: Let_def split: if_splits)
  next
    case False
    then show ?thesis using Cons.IH [of "i + 1" best "(None, snd cur)"] i Cons.prems(2) by simp
  qed
qed simp

section \<open>Bytes\<close>

definition gbytes :: "nat list \<Rightarrow> u8 list" where
  "gbytes gs = concat (map (\<lambda>g. [word_of_nat (g div 256), word_of_nat (g mod 256)]) gs)"

lemma gbytes_simps [simp]: "gbytes [] = []" "gbytes (g # gs) = word_of_nat (g div 256) # word_of_nat (g mod 256) # gbytes gs"
  "gbytes (gs @ hs) = gbytes gs @ gbytes hs" "length (gbytes gs) = 2 * length gs"
  by (simp_all add: gbytes_def) (induction gs; simp)

lemma fill_two:
  assumes "i + 2 + length bs \<le> length a"
  shows "fill (i + 2) bs (a[i := x, i + 1 := y]) = fill i (x # y # bs) a"
proof -
  have "take (i + 2) (a[i := x, i + 1 := y]) = take i a @ [x, y]"
  proof -
    have "i < length a" "i + 1 < length a" using assms by simp_all
    then show ?thesis by (simp add: numeral_2_eq_2 take_Suc_conv_app_nth)
  qed
  then show ?thesis by (simp add: fill_def)
qed

lemma place_at:
  "(\<forall>k. gap = Some k \<longrightarrow> k \<le> i) \<Longrightarrow> j = (if gap = None then i else i + shift) \<Longrightarrow> 2 * j + 2 * length gs \<le> length out \<Longrightarrow>
    place_groups i gap shift gs out = fill (2 * j) (gbytes gs) out"
proof (induction gs arbitrary: i j out)
  case Nil
  then show ?case by (simp add: fill_def)
next
  case (Cons g gs)
  have idx: "(case gap of None \<Rightarrow> i | Some k \<Rightarrow> if i \<ge> k then i + shift else i) = j" using Cons.prems by (auto split: option.splits)
  have "place_groups (i + 1) gap shift gs (out[2 * j := word_of_nat (g div 256), 2 * j + 1 := word_of_nat (g mod 256)]) =
      fill (2 * (j + 1)) (gbytes gs) (out[2 * j := word_of_nat (g div 256), 2 * j + 1 := word_of_nat (g mod 256)])"
    by (rule Cons.IH) (use Cons.prems in auto)
  also have "\<dots> = fill (2 * j) (gbytes (g # gs)) out" using fill_two [of "2 * j" "gbytes gs" out] Cons.prems(3) by simp
  finally show ?case by (simp add: idx Let_def)
qed

lemma place_before:
  "i + length pre \<le> k \<Longrightarrow> 2 * k \<le> length out \<Longrightarrow>
    place_groups i (Some k) shift (pre @ post) out = place_groups (i + length pre) (Some k) shift post (fill (2 * i) (gbytes pre) out)"
proof (induction pre arbitrary: i out)
  case Nil
  then show ?case by (simp add: fill_def)
next
  case (Cons g gs)
  let ?o = "out[2 * i := word_of_nat (g div 256), 2 * i + 1 := word_of_nat (g mod 256)]"
  have "place_groups (i + 1) (Some k) shift (gs @ post) ?o = place_groups (i + 1 + length gs) (Some k) shift post (fill (2 * (i + 1)) (gbytes gs) ?o)"
    by (rule Cons.IH) (use Cons.prems in auto)
  moreover have "fill (2 * (i + 1)) (gbytes gs) ?o = fill (2 * i) (gbytes (g # gs)) out"
    using fill_two [of "2 * i" "gbytes gs" out] Cons.prems by simp
  ultimately show ?case using Cons.prems by (simp add: Let_def)
qed

lemma gbytes_zero: "gbytes (replicate n 0) = replicate (2 * n) 0"
  by (induction n) simp_all

lemma place_gap:
  assumes "length pre + n + length post = 8" "k = length pre"
  shows "place_groups 0 (Some k) n (pre @ post) (replicate 16 0) = gbytes (pre @ replicate n 0 @ post)"
proof -
  let ?a = "fill 0 (gbytes pre) (replicate 16 0)"
  have a: "?a = gbytes pre @ replicate (16 - 2 * k) 0" using assms by (simp add: fill_def)
  have "place_groups 0 (Some k) n (pre @ post) (replicate 16 0) = place_groups k (Some k) n post ?a"
    using place_before [of 0 pre k "replicate 16 0" n post] assms by simp
  also have "\<dots> = fill (2 * (k + n)) (gbytes post) ?a" by (rule place_at) (use assms in \<open>auto simp: a\<close>)
  also have "\<dots> = gbytes (pre @ replicate n 0 @ post)"
  proof -
    have "16 - 2 * k = 2 * n + 2 * length post" using assms by simp
    then have "?a = (gbytes pre @ replicate (2 * n) 0) @ replicate (2 * length post) 0" unfolding a by (simp add: replicate_add)
    then show ?thesis using assms(2) by (simp add: fill_def gbytes_zero)
  qed
  finally show ?thesis .
qed

text \<open>An IPv6 address as printed, without brackets, is read back.\<close>

lemma pair_bytes: "word_of_nat ((unat x * 256 + unat y) div 256) = (x :: u8)" "word_of_nat ((unat x * 256 + unat y) mod 256) = (y :: u8)"
proof -
  have "unat y < 256" using unsigned_less [of y] by simp
  then show "word_of_nat ((unat x * 256 + unat y) div 256) = x" "word_of_nat ((unat x * 256 + unat y) mod 256) = y" by simp_all
qed

lemma groups_bytes: "2 * n \<le> length v6 \<Longrightarrow> gbytes (map (\<lambda>i. unat (v6 ! (2 * i)) * 256 + unat (v6 ! (2 * i + 1))) [0..<n]) = take (2 * n) v6"
proof (induction n)
  case (Suc n)
  have "gbytes (map (\<lambda>i. unat (v6 ! (2 * i)) * 256 + unat (v6 ! (2 * i + 1))) [0..<Suc n]) = take (2 * n) v6 @ [v6 ! (2 * n), v6 ! (2 * n + 1)]"
    using Suc pair_bytes by simp
  also have "\<dots> = take (2 * Suc n) v6" using Suc.prems by (simp add: take_Suc_conv_app_nth)
  finally show ?case .
qed simp

lemma v6_groups_parse:
  assumes "length g = 8" "list_all (\<lambda>x. x < 65536) g" "zero_run 0 g (None, 0) (None, 0) = (best, bl)"
  shows "nurl__udpaddr_parse_v6 (ip6_loop 0 g (if bl < 2 then None else best) bl) = Some (gbytes g)"
proof (cases "if bl < 2 then None else best")
  case None
  obtain c t where c: "joinc g = c # t" "c \<noteq> COLON" using joinc_head [of g] assms(1) by (cases "g = []") auto
  then have "v6_start (joinc g) = Some (joinc g, None)" by (simp add: v6_start_def)
  moreover have "v6_loop (joinc g) [] None = Some (g, None)" using v6_join [of g "[]" None] assms by (cases "g = []") simp_all
  moreover have "place_groups 0 None 0 g (replicate 16 0) = gbytes g" using place_at [of None 0 0 0 g "replicate 16 0"] assms(1) by (simp add: fill_def)
  ultimately show ?thesis unfolding None using ip6_join [of g 0 None bl] assms(1) by (simp add: nurl__udpaddr_parse_v6_def)
next
  case (Some b)
  then have bl: "2 \<le> bl" "best = Some b" by (auto split: if_splits)
  have "run_zero g (best, bl)" using zero_run_zero [of 0 g g "(None, 0)" "(None, 0)"] assms(3) by (simp add: run_zero_def)
  then have z: "zeros g b bl" using bl(2) by (simp add: run_zero_def)
  let ?pre = "take b g" and ?post = "drop (b + bl) g"
  have len: "b + bl \<le> 8" "length ?pre = b" "length ?pre + bl + length ?post = 8" using z assms(1) by (auto simp: zeros_def)
  have "take bl (drop b g) = replicate bl 0" using z by (intro nth_equalityI) (auto simp: zeros_def)
  then have g: "g = ?pre @ replicate bl 0 @ ?post" by (metis append_take_drop_id drop_drop add.commute)
  have gb: "list_all (\<lambda>x. x < 65536) (?pre @ ?post)" using assms(2) by (auto simp: list_all_iff dest: in_set_takeD in_set_dropD)
  have t: "ip6_loop 0 g (Some b) bl = joinc ?pre @ [COLON, COLON] @ joinc ?post" using ip6_join_gap [of g b bl 0] assms(1) len(1) bl(1) by simp
  obtain p gap0 where s: "v6_start (joinc ?pre @ [COLON, COLON] @ joinc ?post) = Some (p, gap0)" "v6_loop p [] gap0 = Some (?pre @ ?post, Some b)"
  proof (cases "?pre = []")
    case True
    then have b0: "b = 0" using assms(1) by auto
    have "v6_loop (joinc ?post) [] (Some 0) = Some (?post, Some 0)"
      using v6_join [of ?post "[]" "Some 0"] gb len by (cases "?post = []") (simp_all add: v6_loop.simps b0)
    then show ?thesis using that [of "joinc ?post" "Some 0"] b0 by (simp add: v6_start_def)
  next
    case False
    obtain c u where c: "joinc ?pre = c # u" "c \<noteq> COLON" using joinc_head [OF False] by auto
    have "v6_loop (joinc ?pre @ [COLON, COLON] @ joinc ?post) [] None = Some (?pre @ ?post, Some b)"
      using v6_join_gap [OF False gb, of "[]"] len by simp
    then show ?thesis using that [of "joinc ?pre @ [COLON, COLON] @ joinc ?post" None] c by (simp add: v6_start_def)
  qed
  have "length (?pre @ ?post) = 8 - bl" "\<not> 8 \<le> 8 - bl" "8 - (8 - bl) = bl" using len bl(1) by auto
  then have "nurl__udpaddr_parse_v6 (ip6_loop 0 g (Some b) bl) = Some (place_groups 0 (Some b) bl (?pre @ ?post) (replicate 16 0))"
    unfolding t nurl__udpaddr_parse_v6_def using s by (simp add: Let_def)
  also have "place_groups 0 (Some b) bl (?pre @ ?post) (replicate 16 0) = gbytes g" using place_gap [OF len(3), of b] len(2) g by simp
  finally show ?thesis unfolding Some .
qed


lemma v6_shape:
  assumes "length g = 8" "zero_run 0 g (None, 0) (None, 0) = (best, bl)"
  shows "ip6_loop 0 g (if bl < 2 then None else best) bl = joinc g \<or>
    (\<exists>pre post. length pre + length post \<le> 6 \<and> set pre \<union> set post \<subseteq> set g \<and>
      ip6_loop 0 g (if bl < 2 then None else best) bl = joinc pre @ [COLON, COLON] @ joinc post)"
proof (cases "if bl < 2 then None else best")
  case None
  then show ?thesis unfolding None using ip6_join [of g 0 None bl] assms(1) by simp
next
  case (Some b)
  then have bl: "2 \<le> bl" "best = Some b" by (auto split: if_splits)
  have "run_zero g (best, bl)" using zero_run_zero [of 0 g g "(None, 0)" "(None, 0)"] assms(2) by (simp add: run_zero_def)
  then have "b + bl \<le> 8" using bl(2) assms(1) by (simp add: run_zero_def zeros_def)
  then have "ip6_loop 0 g (Some b) bl = joinc (take b g) @ [COLON, COLON] @ joinc (drop (b + bl) g)" "length (take b g) + length (drop (b + bl) g) \<le> 6"
    using ip6_join_gap [of g b bl 0] assms(1) bl(1) by auto
  moreover have "set (take b g) \<union> set (drop (b + bl) g) \<subseteq> set g" by (meson Un_least set_drop_subset set_take_subset)
  ultimately show ?thesis unfolding Some by blast
qed

lemma joinc_length: "list_all (\<lambda>g. g < 65536) gs \<Longrightarrow> length (joinc gs) \<le> 5 * length gs"
proof (induction gs rule: joinc.induct)
  case (2 g)
  then show ?case using num_text_short [of 16 4 g] by simp
next
  case (3 g h gs)
  then show ?case using num_text_short [of 16 4 g] by simp
qed simp

lemma joinc_colon: "2 \<le> length gs \<Longrightarrow> COLON \<in> set (joinc gs)"
  by (cases gs rule: joinc.cases) simp_all

lemma v6_text_chars:
  assumes "length g = 8" "list_all (\<lambda>x. x < 65536) g" "zero_run 0 g (None, 0) (None, 0) = (best, bl)"
    and t: "t = ip6_loop 0 g (if bl < 2 then None else best) bl"
  shows "COLON \<in> set t" "RBRACK \<notin> set t" "length t \<le> 40"
proof -
  consider "t = joinc g" | pre post where "length pre + length post \<le> 6" "set pre \<union> set post \<subseteq> set g" "t = joinc pre @ [COLON, COLON] @ joinc post"
    using v6_shape [OF assms(1,3)] t by auto
  then have "COLON \<in> set t \<and> RBRACK \<notin> set t \<and> length t \<le> 40"
  proof cases
    case 1
    then show ?thesis using joinc_colon [of g] joinc_chars(3) [of g] joinc_length [OF assms(2)] assms(1) by simp
  next
    case 2
    have "list_all (\<lambda>x. x < 65536) pre" "list_all (\<lambda>x. x < 65536) post" using 2(2) assms(2) by (auto simp: list_all_iff)
    then show ?thesis using 2 joinc_length [of pre] joinc_length [of post] joinc_chars(3) by auto
  qed
  then show "COLON \<in> set t" "RBRACK \<notin> set t" "length t \<le> 40" by auto
qed

section \<open>The embedded form\<close>

lemma dotted_run:
  "takeWhile (\<lambda>c. ua_digit c \<or> c = DOT) (dotted v4) = dotted v4" "length (filter (\<lambda>c. c = DOT) (dotted v4)) = 3"
proof -
  have n: "ua_digit c" if "c \<in> set (num_text 10 n)" for c n
    using num_text_digits [of 10 n] that digit_char_dec(1) by (auto simp: list_all_iff)
  show "takeWhile (\<lambda>c. ua_digit c \<or> c = DOT) (dotted v4) = dotted v4"
    by (rule takeWhile_eq_all_conv [THEN iffD2]) (auto simp: dotted_def dest: n)
  have "filter (\<lambda>c. c = DOT) (num_text 10 n) = []" for n by (auto simp: filter_empty_conv)
  then show "length (filter (\<lambda>c. c = DOT) (dotted v4)) = 3" by (simp add: dotted_def)
qed

lemma dotted_head: "\<exists>c t. dotted v4 = c # t \<and> c \<noteq> COLON \<and> c \<noteq> LBRACK"
  using num_text_head [of 10 "unat (v4 ! 0)"] by (auto simp: dotted_def)

lemma mapped_parse:
  assumes "length v4 = 4"
  shows "nurl__udpaddr_parse_v6 (''::ffff:'' @ dotted v4) = Some (v4mapped @ v4)"
proof -
  obtain c t where c: "dotted v4 = c # t" "c \<noteq> COLON" using dotted_head [of v4] by auto
  let ?g = "[unat (v4 ! 0) * 256 + unat (v4 ! 1), unat (v4 ! 2) * 256 + unat (v4 ! 3)]"
  have p4: "nurl__udpaddr_parse_v4 (dotted v4) = (length (dotted v4), v4)" "dotted v4 \<noteq> []"
    using parse_v4_dotted [OF assms, of "[]"] by (simp_all add: stops_def)
  have tail: "v6_loop (dotted v4) [65535] (Some 0) = Some (65535 # ?g, Some 0)"
    unfolding v6_loop.simps [of "dotted v4"] Let_def dotted_run using p4 by simp
  have h: "hex_run 0 0 (''ffff:'' @ dotted v4) = Some (65535, 4, COLON # dotted v4)"
    by (simp add: nurl__udpaddr_hex_def Let_def)
  have "v6_loop (''ffff:'' @ dotted v4) [] (Some 0) = v6_loop (dotted v4) [65535] (Some 0)"
  proof -
    have q: "takeWhile (\<lambda>c. ua_digit c \<or> c = DOT) (''ffff:'' @ dotted v4) = []" by (simp add: ua_digit_def)
    show ?thesis unfolding v6_loop.simps [of "''ffff:'' @ dotted v4"] Let_def q h using c by simp
  qed
  moreover have "v6_start (''::ffff:'' @ dotted v4) = Some (''ffff:'' @ dotted v4, Some 0)" by (simp add: v6_start_def)
  moreover have "place_groups 0 (Some 0) 5 (65535 # ?g) (replicate 16 0) = v4mapped @ v4"
  proof -
    have "place_groups 0 (Some 0) 5 (65535 # ?g) (replicate 16 0) = fill 10 (gbytes (65535 # ?g)) (replicate 16 0)"
      using place_at [of "Some 0" 0 5 5 "65535 # ?g" "replicate 16 0"] by simp
    also have "\<dots> = replicate 10 0 @ [0xff, 0xff] @ [v4 ! 0, v4 ! 1, v4 ! 2, v4 ! 3]" using pair_bytes by (simp add: fill_def)
    also have "[v4 ! 0, v4 ! 1, v4 ! 2, v4 ! 3] = v4" by (rule length_4 [OF assms, symmetric])
    also have "replicate 10 (0 :: u8) = [0, 0, 0, 0, 0, 0, 0, 0, 0, 0]" by (simp add: numeral_eq_Suc)
    finally show ?thesis unfolding v4mapped_def by simp
  qed
  ultimately show ?thesis using tail by (simp add: nurl__udpaddr_parse_v6_def Let_def)
qed


section \<open>The round trip\<close>

lemma ip6_text_ok:
  assumes "length v6 = 16"
  shows "nurl__udpaddr_parse_v6 (ip6_text v6) = Some v6" "COLON \<in> set (ip6_text v6)" "RBRACK \<notin> set (ip6_text v6)" "length (ip6_text v6) \<le> 40"
proof -
  let ?t = "ip6_text v6"
  have "nurl__udpaddr_parse_v6 ?t = Some v6 \<and> COLON \<in> set ?t \<and> RBRACK \<notin> set ?t \<and> length ?t \<le> 40"
  proof (cases "take 12 v6 = v4mapped")
    case True
    have v6: "v4mapped @ drop 12 v6 = v6" using True by (metis append_take_drop_id)
    have "?t = ''::ffff:'' @ dotted (drop 12 v6)" using True by (simp add: ip6_text_def)
    moreover have "RBRACK \<notin> set (dotted (drop 12 v6))" using dotted_chars by blast
    ultimately show ?thesis using mapped_parse [of "drop 12 v6"] v6 assms dotted_length [of "drop 12 v6"] by simp
  next
    case False
    let ?g = "map (\<lambda>i. unat (v6 ! (2 * i)) * 256 + unat (v6 ! (2 * i + 1))) [0..<8]"
    obtain best bl where r: "zero_run 0 ?g (None, 0) (None, 0) = (best, bl)" by (rule prod.exhaust)
    have t: "?t = ip6_loop 0 ?g (if bl < 2 then None else best) bl" unfolding ip6_text_def Let_def using False r by simp
    have "unat (x :: u8) * 256 + unat (y :: u8) < 65536" for x y using unsigned_less [of x, where 'a = nat] unsigned_less [of y, where 'a = nat] by simp
    then have g: "list_all (\<lambda>x. x < 65536) ?g" "length ?g = 8" unfolding list_all_iff by auto
    have "gbytes ?g = v6" using groups_bytes [of 8 v6] assms by simp
    then show ?thesis using v6_groups_parse [OF g(2,1) r] v6_text_chars [OF g(2,1) r t] t by simp
  qed
  then show "nurl__udpaddr_parse_v6 ?t = Some v6" "COLON \<in> set ?t" "RBRACK \<notin> set ?t" "length ?t \<le> 40" by auto
qed

text \<open>What parsing makes of an address: the family byte, a zero, the port, the address and zeros; a mapped address is of family 4.\<close>

definition plain_addr :: "u8 list \<Rightarrow> u8 list" where
  "plain_addr a =
    (if a ! 0 = 4 then [4, 0, a ! 2, a ! 3] @ take 4 (drop 4 a) @ replicate 16 0
     else if take 12 (drop 4 a) = v4mapped then [4, 0, a ! 2, a ! 3] @ take 4 (drop 16 a) @ replicate 16 0
     else [6, 0, a ! 2, a ! 3] @ take 16 (drop 4 a) @ replicate 4 0)"

lemma takeWhile_stop: "c \<notin> set t \<Longrightarrow> takeWhile (\<lambda>x. x \<noteq> c) (t @ c # s) = t"
  by (induction t) auto

lemma split_bracket: "RBRACK \<notin> set t \<Longrightarrow> split_addr ([LBRACK] @ t @ [RBRACK, COLON] @ p) = Some (t @ [RBRACK, COLON] @ p, t, Some p)"
proof -
  assume "RBRACK \<notin> set t"
  then have "takeWhile (\<lambda>c. c \<noteq> RBRACK) (t @ [RBRACK, COLON] @ p) = t" by (simp add: takeWhile_stop)
  then show ?thesis by (simp add: split_addr_def)
qed

lemma split_dotted: "split_addr (dotted v4 @ [COLON] @ num_text 10 p) = Some (dotted v4 @ [COLON] @ num_text 10 p, dotted v4, Some (num_text 10 p))"
proof -
  have n: "COLON \<notin> set (dotted v4)" using dotted_chars by blast
  then have "filter (\<lambda>c. c = COLON) (dotted v4) = []" "filter (\<lambda>c. c = COLON) (num_text 10 p) = []" by (auto simp: filter_empty_conv)
  moreover have "takeWhile (\<lambda>c. c \<noteq> COLON) (dotted v4 @ [COLON] @ num_text 10 p) = dotted v4" using n by (simp add: takeWhile_stop)
  moreover have "hd (dotted v4 @ s) \<noteq> LBRACK" for s using dotted_head [of v4] by auto
  ultimately show ?thesis by (simp add: split_addr_def Let_def)
qed

lemma set_port: "(replicate NURL_UDP_ADDR_LEN 0)[2 := x, 3 := y] = [0, 0, x, y :: u8] @ replicate 20 0"
  by (simp add: NURL_UDP_ADDR_LEN_def numeral_eq_Suc)

lemma port_ok: "parse_port (Some (num_text 10 (unat (x :: u8) * 256 + unat (y :: u8)))) = Some (unat x * 256 + unat y)"
  "length (num_text 10 (unat x * 256 + unat y)) \<le> 5"
proof -
  have p: "unat x * 256 + unat y < 65536" using unsigned_less [of x, where 'a = nat] unsigned_less [of y, where 'a = nat] by simp
  show "parse_port (Some (num_text 10 (unat x * 256 + unat y))) = Some (unat x * 256 + unat y)"
    using port_text [OF p] by (simp add: parse_port_def)
  show "length (num_text 10 (unat x * 256 + unat y)) \<le> 5" by (rule num_text_short) (use p in simp_all)
qed

text \<open>C37. A 24-byte address of either family, printed into a buffer of at least 64 bytes and parsed again, is accepted and gives the same address: the
  same port and the same bytes, in the canonical form in which a mapped IPv6 address has family 4. So no text is cut short, and the compressed runs of
  zeros, the embedded dotted form and the brackets are read as they are printed.\<close>

theorem udpaddr_roundtrip:
  assumes "length a = NURL_UDP_ADDR_LEN" "a ! 0 = 4 \<or> a ! 0 = 6" "64 \<le> cap"
  shows "nurl__udpaddr_parse (Some (nurl__udpaddr_format (Some a) cap)) = (0, plain_addr a)"
proof -
  let ?x = "a ! 2" and ?y = "a ! 3"
  let ?port = "num_text 10 (unat ?x * 256 + unat ?y)"
  let ?v4 = "take 4 (drop 4 a)" and ?v6 = "take 16 (drop 4 a)"
  show ?thesis
  proof (cases "a ! 0 = 4")
    case True
    have d: "dotted (drop 4 a) = dotted ?v4" by (simp add: dotted_def)
    have l4: "length ?v4 = 4" using assms(1) by (simp add: NURL_UDP_ADDR_LEN_def)
    have "length (dotted ?v4 @ [COLON] @ ?port) \<le> cap - 1" using dotted_length [of ?v4] port_ok(2) [of ?x ?y] assms(3) by simp
    then have f: "nurl__udpaddr_format (Some a) cap = dotted ?v4 @ [COLON] @ ?port" using True d by (simp add: nurl__udpaddr_format_def Let_def)
    have "stops ua_digit ([COLON] @ ?port)" by (simp add: stops_def ua_digit_def)
    then have p: "nurl__udpaddr_parse_v4 (dotted ?v4 @ [COLON] @ ?port) = (length (dotted ?v4), ?v4)" "dotted ?v4 \<noteq> []" using parse_v4_dotted [OF l4] by auto
    have "COLON \<notin> set (dotted ?v4)" using dotted_chars by blast
    then have "nurl__udpaddr_parse (Some (dotted ?v4 @ [COLON] @ ?port)) = (0, fill 4 ?v4 (([0, 0, ?x, ?y] @ replicate 20 0)[0 := 4]))"
      unfolding nurl__udpaddr_parse_def Let_def using p split_dotted [of ?v4] port_ok(1) [of ?x ?y] pair_bytes [of ?x ?y] by (simp add: set_port)
    then show ?thesis unfolding f using True l4 by (simp add: plain_addr_def fill_def)
  next
    case False
    have l6: "length ?v6 = 16" using assms(1) by (simp add: NURL_UDP_ADDR_LEN_def)
    note t = ip6_text_ok [OF l6]
    have "length ([LBRACK] @ ip6_text ?v6 @ [RBRACK, COLON] @ ?port) \<le> cap - 1" using t(4) port_ok(2) [of ?x ?y] assms(3) by simp
    then have f: "nurl__udpaddr_format (Some a) cap = [LBRACK] @ ip6_text ?v6 @ [RBRACK, COLON] @ ?port"
      using False assms(2) by (simp add: nurl__udpaddr_format_def Let_def)
    have "nurl__udpaddr_parse (Some ([LBRACK] @ ip6_text ?v6 @ [RBRACK, COLON] @ ?port)) =
        (if take 12 ?v6 = v4mapped then (0, fill 4 (take 4 (drop 12 ?v6)) (([0, 0, ?x, ?y] @ replicate 20 0)[0 := 4]))
         else (0, fill 4 ?v6 (([0, 0, ?x, ?y] @ replicate 20 0)[0 := 6])))"
      unfolding nurl__udpaddr_parse_def Let_def using split_bracket [OF t(3)] t(1,2) port_ok(1) [of ?x ?y] pair_bytes [of ?x ?y] by (simp add: set_port)
    then show ?thesis unfolding f using False assms(1,2) l6 by (simp add: plain_addr_def fill_def drop_take NURL_UDP_ADDR_LEN_def)
  qed
qed

definition link_local :: "u8 list" where
  "link_local = [6, 0, 0x1f, 0x90, 0xfe, 0x80, 0, 0, 0, 0, 0, 0, 0, 0, 0, 0, 0, 0, 0, 1, 0, 0, 0, 0]"

theorem udpaddr_roundtrip_witness:
  "length link_local = NURL_UDP_ADDR_LEN \<and> nurl__udpaddr_parse (Some (nurl__udpaddr_format (Some link_local) 64)) = (0, plain_addr link_local) \<and>
    plain_addr link_local = link_local"
proof (intro conjI)
  show "length link_local = NURL_UDP_ADDR_LEN" by (simp add: link_local_def NURL_UDP_ADDR_LEN_def)
  then show "nurl__udpaddr_parse (Some (nurl__udpaddr_format (Some link_local) 64)) = (0, plain_addr link_local)"
    using udpaddr_roundtrip [of link_local 64] by (simp add: link_local_def)
  show "plain_addr link_local = link_local" by code_simp
qed

end
