(* ===== verification/WasmLock.thy ===== *)
theory WasmLock
  imports Prelude
begin

text \<open>
  The three-state futex mutex of \<^verbatim>\<open>src/stdlib/runtime_wasm_alloc.c\<close>, which guards the heap of a threaded WebAssembly program and, in a second
  copy, its output streams.

  Any number of threads interleave, one atomic instruction at a time. A thread is at the instruction its program counter names; the lock is the
  word the instructions act on: 0 free, 1 held, 2 held with threads that may sleep.
\<close>

section \<open>The instructions\<close>

datatype wa_pc = WaOut | WaTry | WaLoad | WaCas | WaWait | WaAsleep | WaRetry | WaCrit | WaStore | WaNotify

record wa_state =
  wa_lock :: u32
  wa_at :: "nat \<Rightarrow> wa_pc"

text \<open>\<open>nurl_wa_acquire\<close>: the first exchange, the load, the exchange that announces a sleeper, the wait, and the exchange that ends the loop.\<close>

fun wa_acquire :: "wa_pc \<Rightarrow> u32 \<Rightarrow> (wa_pc \<times> u32) option" where
  "wa_acquire WaTry l = Some (if l = 0 then (WaCrit, 1) else (WaLoad, l))"
| "wa_acquire WaLoad l = Some (if l = 2 then (WaWait, l) else (WaCas, l))"
| "wa_acquire WaCas l = Some (if l = 1 then (WaWait, 2) else (WaRetry, l))"
| "wa_acquire WaWait l = Some (if l = 2 then (WaAsleep, l) else (WaRetry, l))"
| "wa_acquire WaRetry l = Some (if l = 0 then (WaCrit, 2) else (WaLoad, l))"
| "wa_acquire _ l = None"

text \<open>\<open>nurl_wa_release\<close> before its notification: the decrement and the store.\<close>

fun wa_release :: "wa_pc \<Rightarrow> u32 \<Rightarrow> (wa_pc \<times> u32) option" where
  "wa_release WaCrit l = Some (if l \<noteq> 1 then (WaStore, l - 1) else (WaOut, l - 1))"
| "wa_release WaStore l = Some (WaNotify, 0)"
| "wa_release _ l = None"

definition wa_move :: "nat \<Rightarrow> wa_pc \<times> u32 \<Rightarrow> wa_state \<Rightarrow> wa_state" where
  "wa_move t r s = s\<lparr>wa_lock := snd r, wa_at := (wa_at s)(t := fst r)\<rparr>"

text \<open>The notification wakes one sleeper if there is any.\<close>

inductive wa_step :: "wa_state \<Rightarrow> wa_state \<Rightarrow> bool" where
  enter: "wa_at s t = WaOut \<Longrightarrow> wa_step s (wa_move t (WaTry, wa_lock s) s)"
| acquire: "wa_acquire (wa_at s t) (wa_lock s) = Some r \<Longrightarrow> wa_step s (wa_move t r s)"
| release: "wa_release (wa_at s t) (wa_lock s) = Some r \<Longrightarrow> wa_step s (wa_move t r s)"
| wake: "wa_at s t = WaNotify \<Longrightarrow> wa_at s u = WaAsleep \<Longrightarrow>
    wa_step s (wa_move u (WaRetry, wa_lock s) (wa_move t (WaOut, wa_lock s) s))"
| wake_none: "wa_at s t = WaNotify \<Longrightarrow> (\<forall>u. wa_at s u \<noteq> WaAsleep) \<Longrightarrow> wa_step s (wa_move t (WaOut, wa_lock s) s)"

definition wa_start :: wa_state where
  "wa_start = \<lparr>wa_lock = 0, wa_at = (\<lambda>t. WaOut)\<rparr>"

inductive wa_reach :: "wa_state \<Rightarrow> bool" where
  start: "wa_reach wa_start"
| step: "wa_reach s \<Longrightarrow> wa_step s s' \<Longrightarrow> wa_reach s'"

section \<open>The invariant\<close>

text \<open>A thread owns the lock from its exchange to the store that frees it. A thread that is about to look at the lock again, or to notify,
  stands between the sleepers and oblivion.\<close>

definition wa_owner :: "wa_pc \<Rightarrow> bool" where
  "wa_owner p \<longleftrightarrow> p \<in> {WaCrit, WaStore}"

definition wa_alert :: "wa_pc \<Rightarrow> bool" where
  "wa_alert p \<longleftrightarrow> p \<in> {WaStore, WaNotify, WaRetry, WaLoad, WaCas, WaWait}"

definition wa_inv :: "wa_state \<Rightarrow> bool" where
  "wa_inv s \<longleftrightarrow>
    (\<forall>t u. wa_owner (wa_at s t) \<longrightarrow> wa_owner (wa_at s u) \<longrightarrow> t = u) \<and>
    wa_lock s \<in> {0, 1, 2} \<and>
    (wa_lock s = 0 \<longleftrightarrow> (\<forall>t. \<not> wa_owner (wa_at s t))) \<and>
    (\<forall>t. wa_at s t = WaAsleep \<longrightarrow> wa_lock s = 2 \<or> (\<exists>u. wa_alert (wa_at s u)))"

lemma wa_invI:
  assumes "\<And>t u. wa_owner (wa_at s t) \<Longrightarrow> wa_owner (wa_at s u) \<Longrightarrow> t = u" "wa_lock s \<in> {0, 1, 2}"
    and "wa_lock s = 0 \<longleftrightarrow> (\<forall>t. \<not> wa_owner (wa_at s t))"
    and "\<And>t. wa_at s t = WaAsleep \<Longrightarrow> wa_lock s \<noteq> 2 \<Longrightarrow> \<exists>u. wa_alert (wa_at s u)"
  shows "wa_inv s"
  unfolding wa_inv_def using assms by blast

lemma wa_invD:
  assumes "wa_inv s"
  shows "\<And>t u. wa_owner (wa_at s t) \<Longrightarrow> wa_owner (wa_at s u) \<Longrightarrow> t = u" "wa_lock s \<in> {0, 1, 2}"
    and "wa_lock s = 0 \<longleftrightarrow> (\<forall>t. \<not> wa_owner (wa_at s t))"
    and "\<And>t. wa_at s t = WaAsleep \<Longrightarrow> wa_lock s \<noteq> 2 \<Longrightarrow> \<exists>u. wa_alert (wa_at s u)"
  using assms unfolding wa_inv_def by blast+

lemma wa_move_simps [simp]: "wa_lock (wa_move t (p, l) s) = l" "wa_at (wa_move t (p, l) s) u = (if u = t then p else wa_at s u)"
  by (simp_all add: wa_move_def)

lemma wa_pc_simps [simp]:
  "wa_owner WaCrit" "wa_owner WaStore" "\<not> wa_owner WaOut" "\<not> wa_owner WaTry" "\<not> wa_owner WaLoad" "\<not> wa_owner WaCas" "\<not> wa_owner WaWait"
  "\<not> wa_owner WaAsleep" "\<not> wa_owner WaRetry" "\<not> wa_owner WaNotify"
  "wa_alert WaStore" "wa_alert WaNotify" "wa_alert WaRetry" "wa_alert WaLoad" "wa_alert WaCas" "wa_alert WaWait"
  "\<not> wa_alert WaOut" "\<not> wa_alert WaTry" "\<not> wa_alert WaAsleep" "\<not> wa_alert WaCrit"
  by (simp_all add: wa_owner_def wa_alert_def)

lemma wa_start_inv: "wa_inv wa_start"
  by (simp add: wa_inv_def wa_start_def)

text \<open>The effect of one thread's move on the invariant, by what it does to the lock.\<close>

lemma wa_inv_keep:
  assumes "wa_inv s" "\<not> wa_owner (wa_at s t)" "\<not> wa_owner p" "wa_alert (wa_at s t) \<longrightarrow> wa_alert p \<or> l = 2"
    and "l = wa_lock s \<or> wa_lock s = 1 \<and> l = 2" "p = WaAsleep \<longrightarrow> l = 2"
  shows "wa_inv (wa_move t (p, l) s)"
proof (rule wa_invI)
  note inv = wa_invD [OF assms(1)]
  show "u = v" if "wa_owner (wa_at (wa_move t (p, l) s) u)" "wa_owner (wa_at (wa_move t (p, l) s) v)" for u v
    using that inv(1) [of u v] assms(3) by (auto split: if_splits)
  show "wa_lock (wa_move t (p, l) s) \<in> {0, 1, 2}" using inv(2) assms(5) by auto
  have "wa_owner (wa_at (wa_move t (p, l) s) u) \<longleftrightarrow> wa_owner (wa_at s u)" for u using assms(2,3) by simp
  then show "wa_lock (wa_move t (p, l) s) = 0 \<longleftrightarrow> (\<forall>u. \<not> wa_owner (wa_at (wa_move t (p, l) s) u))" using inv(3) assms(5) by auto
  show "\<exists>v. wa_alert (wa_at (wa_move t (p, l) s) v)" if "wa_at (wa_move t (p, l) s) u = WaAsleep" "wa_lock (wa_move t (p, l) s) \<noteq> 2" for u
  proof -
    have "u \<noteq> t" "wa_at s u = WaAsleep" "wa_lock s \<noteq> 2" using that assms(5,6) by (auto split: if_splits)
    then obtain v where "wa_alert (wa_at s v)" using inv(4) by blast
    then show ?thesis using that(2) assms(4) by (intro exI [of _ v]) auto
  qed
qed

lemma wa_inv_take:
  assumes "wa_inv s" "wa_lock s = 0" "l = 1 \<and> \<not> wa_alert (wa_at s t) \<or> l = 2"
  shows "wa_inv (wa_move t (WaCrit, l) s)"
proof (rule wa_invI)
  note inv = wa_invD [OF assms(1)]
  have none: "\<not> wa_owner (wa_at s u)" for u using inv(3) assms(2) by blast
  show "u = v" if "wa_owner (wa_at (wa_move t (WaCrit, l) s) u)" "wa_owner (wa_at (wa_move t (WaCrit, l) s) v)" for u v
    using that none by (auto split: if_splits)
  show "wa_lock (wa_move t (WaCrit, l) s) \<in> {0, 1, 2}" using assms(3) by auto
  show "wa_lock (wa_move t (WaCrit, l) s) = 0 \<longleftrightarrow> (\<forall>u. \<not> wa_owner (wa_at (wa_move t (WaCrit, l) s) u))" using assms(3) by auto
  show "\<exists>v. wa_alert (wa_at (wa_move t (WaCrit, l) s) v)" if "wa_at (wa_move t (WaCrit, l) s) u = WaAsleep" "wa_lock (wa_move t (WaCrit, l) s) \<noteq> 2" for u
  proof -
    have "wa_at s u = WaAsleep" using that(1) by (simp split: if_splits)
    then obtain v where "wa_alert (wa_at s v)" using inv(4) assms(2) by auto
    then show ?thesis using that(2) assms(3) by (intro exI [of _ v]) auto
  qed
qed

lemma wa_inv_leave:
  assumes "wa_inv s" "wa_owner (wa_at s t)" "\<not> wa_owner p" "p \<noteq> WaAsleep" "wa_at s t = WaCrit \<and> wa_lock s = 1 \<or> wa_alert p"
  shows "wa_inv (wa_move t (p, 0) s)"
proof (rule wa_invI)
  note inv = wa_invD [OF assms(1)]
  have none: "\<not> wa_owner (wa_at (wa_move t (p, 0) s) u)" for u using inv(1) assms(2,3) by auto
  then show "u = v" if "wa_owner (wa_at (wa_move t (p, 0) s) u)" "wa_owner (wa_at (wa_move t (p, 0) s) v)" for u v using that by blast
  show "wa_lock (wa_move t (p, 0) s) \<in> {0, 1, 2}" by simp
  show "wa_lock (wa_move t (p, 0) s) = 0 \<longleftrightarrow> (\<forall>u. \<not> wa_owner (wa_at (wa_move t (p, 0) s) u))" using none by simp
  show "\<exists>v. wa_alert (wa_at (wa_move t (p, 0) s) v)" if "wa_at (wa_move t (p, 0) s) u = WaAsleep" for u
  proof (cases "wa_alert p")
    case True
    then show ?thesis by (intro exI [of _ t]) simp
  next
    case False
    then have c: "wa_at s t = WaCrit" "wa_lock s = 1" using assms(5) by auto
    have "wa_at s u = WaAsleep" using that assms(4) by (simp split: if_splits)
    then obtain v where "wa_alert (wa_at s v)" using inv(4) c(2) by auto
    then show ?thesis using c(1) by (intro exI [of _ v]) auto
  qed
qed

lemma wa_inv_store:
  assumes "wa_inv s" "wa_at s t = WaCrit" "wa_lock s = 2"
  shows "wa_inv (wa_move t (WaStore, 1) s)"
proof (rule wa_invI)
  note inv = wa_invD [OF assms(1)]
  have o: "wa_owner (wa_at (wa_move t (WaStore, 1) s) u) \<longleftrightarrow> wa_owner (wa_at s u)" for u using assms(2) by simp
  then show "u = v" if "wa_owner (wa_at (wa_move t (WaStore, 1) s) u)" "wa_owner (wa_at (wa_move t (WaStore, 1) s) v)" for u v using that inv(1) by blast
  show "wa_lock (wa_move t (WaStore, 1) s) \<in> {0, 1, 2}" by simp
  show "wa_lock (wa_move t (WaStore, 1) s) = 0 \<longleftrightarrow> (\<forall>u. \<not> wa_owner (wa_at (wa_move t (WaStore, 1) s) u))" by auto
  show "\<exists>v. wa_alert (wa_at (wa_move t (WaStore, 1) s) v)" for u by (rule exI [of _ t]) simp
qed

lemma wa_inv_wake:
  assumes "wa_inv s" "wa_at s t = WaNotify" "wa_at s u = WaAsleep"
  shows "wa_inv (wa_move u (WaRetry, wa_lock s) (wa_move t (WaOut, wa_lock s) s))" (is "wa_inv ?s")
proof (rule wa_invI)
  note inv = wa_invD [OF assms(1)]
  have o: "wa_owner (wa_at ?s v) \<longleftrightarrow> wa_owner (wa_at s v)" for v using assms(2,3) by simp
  then show "v = w" if "wa_owner (wa_at ?s v)" "wa_owner (wa_at ?s w)" for v w using that inv(1) by blast
  show "wa_lock ?s \<in> {0, 1, 2}" using inv(2) by simp
  show "wa_lock ?s = 0 \<longleftrightarrow> (\<forall>v. \<not> wa_owner (wa_at ?s v))" using inv(3) o by simp
  show "\<exists>v. wa_alert (wa_at ?s v)" for v by (rule exI [of _ u]) simp
qed

lemma wa_inv_step:
  assumes "wa_inv s" "wa_step s s'"
  shows "wa_inv s'"
  using assms(2)
proof cases
  case (enter t)
  then show ?thesis using wa_inv_keep [OF assms(1), of t WaTry "wa_lock s"] by simp
next
  case (acquire t r)
  note keep = wa_inv_keep [OF assms(1), of t] and take = wa_inv_take [OF assms(1), of _ t]
  show ?thesis unfolding acquire(1)
    using acquire(2) by (cases "wa_at s t") (auto intro!: keep take split: if_splits)
next
  case (release t r)
  have l: "wa_lock s \<in> {1, 2}" if "wa_owner (wa_at s t)" using wa_invD(2,3) [OF assms(1)] that by auto
  show ?thesis unfolding release(1)
  proof (cases "wa_at s t")
    case WaCrit
    show "wa_inv (wa_move t r s)"
    proof (cases "wa_lock s = 1")
      case True
      then show ?thesis using release(2) WaCrit wa_inv_leave [OF assms(1), of t WaOut] by simp
    next
      case False
      then have "wa_lock s = 2" using l WaCrit by simp
      then show ?thesis using release(2) WaCrit wa_inv_store [OF assms(1) WaCrit] by simp
    qed
  next
    case WaStore
    then show "wa_inv (wa_move t r s)" using release(2) wa_inv_leave [OF assms(1), of t WaNotify] by auto
  qed (use release(2) in simp_all)
next
  case (wake t u)
  then show ?thesis using wa_inv_wake [OF assms(1)] by simp
next
  case (wake_none t)
  have "wa_inv (wa_move t (WaOut, wa_lock s) s)"
  proof (rule wa_invI)
    note inv = wa_invD [OF assms(1)]
    have o: "wa_owner (wa_at (wa_move t (WaOut, wa_lock s) s) u) \<longleftrightarrow> wa_owner (wa_at s u)" for u using wake_none(2) by simp
    then show "u = v" if "wa_owner (wa_at (wa_move t (WaOut, wa_lock s) s) u)" "wa_owner (wa_at (wa_move t (WaOut, wa_lock s) s) v)" for u v
      using that inv(1) by blast
    show "wa_lock (wa_move t (WaOut, wa_lock s) s) \<in> {0, 1, 2}" using inv(2) by simp
    show "wa_lock (wa_move t (WaOut, wa_lock s) s) = 0 \<longleftrightarrow> (\<forall>u. \<not> wa_owner (wa_at (wa_move t (WaOut, wa_lock s) s) u))" using inv(3) o by simp
  qed (use wake_none(3) in \<open>auto split: if_splits\<close>)
  then show ?thesis using wake_none(1) by simp
qed

lemma wa_reach_inv: "wa_reach s \<Longrightarrow> wa_inv s"
  by (induction rule: wa_reach.induct) (auto intro: wa_start_inv wa_inv_step)

text \<open>C39. However the threads interleave, at most one of them is between acquiring and releasing the lock, and the lock reads 0 exactly when nobody
  owns it. No wakeup is lost: while a thread sleeps, either the lock says that its owner has to notify, or a thread is on its way to notify or to
  look at the lock again; so a state in which every thread is outside or asleep has no sleeper.\<close>

theorem wa_lock_safe:
  assumes "wa_reach s"
  shows "(\<forall>t u. wa_at s t = WaCrit \<and> wa_at s u = WaCrit \<longrightarrow> t = u) \<and>
    (wa_lock s = 0 \<longleftrightarrow> (\<forall>t. wa_at s t \<notin> {WaCrit, WaStore})) \<and>
    (\<forall>t. wa_at s t = WaAsleep \<longrightarrow> wa_lock s = 2 \<or> (\<exists>u. wa_at s u \<in> {WaStore, WaNotify, WaRetry, WaLoad, WaCas, WaWait})) \<and>
    ((\<forall>t. wa_at s t \<in> {WaOut, WaAsleep}) \<longrightarrow> (\<forall>t. wa_at s t = WaOut) \<and> wa_lock s = 0)"
proof (intro conjI)
  note inv = wa_invD [OF wa_reach_inv [OF assms]]
  show "\<forall>t u. wa_at s t = WaCrit \<and> wa_at s u = WaCrit \<longrightarrow> t = u" using inv(1) by (simp add: wa_owner_def)
  show l: "wa_lock s = 0 \<longleftrightarrow> (\<forall>t. wa_at s t \<notin> {WaCrit, WaStore})" using inv(3) by (simp add: wa_owner_def)
  show a: "\<forall>t. wa_at s t = WaAsleep \<longrightarrow> wa_lock s = 2 \<or> (\<exists>u. wa_at s u \<in> {WaStore, WaNotify, WaRetry, WaLoad, WaCas, WaWait})"
    using inv(4) unfolding wa_alert_def by blast
  show "(\<forall>t. wa_at s t \<in> {WaOut, WaAsleep}) \<longrightarrow> (\<forall>t. wa_at s t = WaOut) \<and> wa_lock s = 0"
  proof
    assume q: "\<forall>t. wa_at s t \<in> {WaOut, WaAsleep}"
    then have n: "wa_at s t \<notin> {WaCrit, WaStore, WaNotify, WaRetry, WaLoad, WaCas, WaWait}" for t by (metis insert_iff empty_iff wa_pc.distinct)
    then have "wa_lock s = 0" using l by auto
    then show "(\<forall>t. wa_at s t = WaOut) \<and> wa_lock s = 0" using q a n by (auto; metis)
  qed
qed

text \<open>Thread 0 holds the lock while thread 2 goes to sleep.\<close>

definition wa_contended :: wa_state where
  "wa_contended = \<lparr>wa_lock = 2, wa_at = (\<lambda>t. WaOut)(0 := WaCrit, 2 := WaAsleep)\<rparr>"

lemma wa_contended_reach: "wa_reach wa_contended"
proof -
  let ?s = "\<lambda>l p q. \<lparr>wa_lock = l, wa_at = (\<lambda>t. WaOut)(0 := p, 2 := q)\<rparr>"
  have out: "(\<lambda>t. WaOut)(0 := WaOut, 2 := WaOut) = (\<lambda>t :: nat. WaOut)" by auto
  have m: "wa_move 0 (p', l') (?s l p q) = ?s l' p' q" "wa_move 2 (q', l') (?s l p q) = ?s l' p q'" for l p q l' p' q'
    by (auto simp: wa_move_def fun_upd_twist)
  have 0: "wa_reach (?s 0 WaOut WaOut)" unfolding out using wa_reach.start by (simp add: wa_start_def)
  have 1: "wa_reach (?s 0 WaTry WaOut)" using wa_reach.step [OF 0 wa_step.enter [of _ 0]] by (simp add: m)
  have 2: "wa_reach (?s 1 WaCrit WaOut)" using wa_reach.step [OF 1 wa_step.acquire [of _ 0]] by (simp add: m)
  have 3: "wa_reach (?s 1 WaCrit WaTry)" using wa_reach.step [OF 2 wa_step.enter [of _ 2]] by (simp add: m)
  have 4: "wa_reach (?s 1 WaCrit WaLoad)" using wa_reach.step [OF 3 wa_step.acquire [of _ 2]] by (simp add: m)
  have 5: "wa_reach (?s 1 WaCrit WaCas)" using wa_reach.step [OF 4 wa_step.acquire [of _ 2]] by (simp add: m)
  have 6: "wa_reach (?s 2 WaCrit WaWait)" using wa_reach.step [OF 5 wa_step.acquire [of _ 2]] by (simp add: m)
  have "wa_reach (?s 2 WaCrit WaAsleep)" using wa_reach.step [OF 6 wa_step.acquire [of _ 2]] by (simp add: m)
  then show ?thesis by (simp add: wa_contended_def)
qed

theorem wa_lock_safe_witness:
  "wa_at wa_contended 2 = WaAsleep \<and> wa_lock wa_contended = 2 \<and> (wa_lock wa_contended = 0 \<longleftrightarrow> (\<forall>t. wa_at wa_contended t \<notin> {WaCrit, WaStore}))"
  using wa_lock_safe [OF wa_contended_reach] by (simp add: wa_contended_def)

end
