(* ===== verification/WasmAlloc.thy ===== *)
theory WasmAlloc
  imports WasmLock "HOL-Library.Monad_Syntax"
begin

unbundle bit_operations_syntax

text \<open>
  The heap of a threaded WebAssembly program, \<^verbatim>\<open>src/stdlib/runtime_wasm_alloc.c\<close>: an address-ordered free list with splitting and coalescing
  over memory taken from \<open>memory.grow\<close>. Every entry point holds the lock of \<open>WasmLock\<close> while it touches the heap, so that a call is one step here.

  Addresses and sizes are natural numbers; where the code computes in 32 bits and the result could exceed them the reduction is written out. The
  headers are a typed view of the memory, by the address of the block, and the payload bytes another: the theorems show that no header lies in a
  payload that is in use. Loops over the list may not end in a broken heap, and are partial.
\<close>

section \<open>State\<close>

definition NURL_WA_ALIGN :: nat where "NURL_WA_ALIGN = 16"
definition NURL_WA_CHUNK :: nat where "NURL_WA_CHUNK = 1024 * 1024"
definition NURL_WA_HDR :: nat where "NURL_WA_HDR = NURL_WA_ALIGN"

record wa_blk =
  blk_size :: nat
  blk_free :: nat
  blk_next :: nat

record wa_heap =
  blk_at :: "nat \<Rightarrow> wa_blk"
  wa_free_list :: nat
  wa_bytes :: "nat \<Rightarrow> u8"
  wa_pages :: nat

definition w32 :: "nat \<Rightarrow> nat" where "w32 n = n mod 2 ^ 32"

definition wsub :: "nat \<Rightarrow> nat \<Rightarrow> nat" where "wsub m n = nat ((int m - int n) mod 2 ^ 32)"

definition wclear :: "nat \<Rightarrow> nat \<Rightarrow> nat" where "wclear m n = unat ((word_of_nat m :: u32) AND NOT (word_of_nat n))"

definition blk_upd :: "nat \<Rightarrow> (wa_blk \<Rightarrow> wa_blk) \<Rightarrow> wa_heap \<Rightarrow> wa_heap" where
  "blk_upd b f h = h\<lparr>blk_at := (blk_at h)(b := f (blk_at h b))\<rparr>"

abbreviation bsize :: "wa_heap \<Rightarrow> nat \<Rightarrow> nat" where "bsize h b \<equiv> blk_size (blk_at h b)"
abbreviation bnext :: "wa_heap \<Rightarrow> nat \<Rightarrow> nat" where "bnext h b \<equiv> blk_next (blk_at h b)"
abbreviation bfree :: "wa_heap \<Rightarrow> nat \<Rightarrow> nat" where "bfree h b \<equiv> blk_free (blk_at h b)"

text \<open>The pointer-to-pointer \<open>link\<close>: the list head, or the next field of a block.\<close>

datatype wa_link = LHead | LNext nat

fun wa_get :: "wa_link \<Rightarrow> wa_heap \<Rightarrow> nat" where
  "wa_get LHead h = wa_free_list h"
| "wa_get (LNext b) h = bnext h b"

fun wa_put :: "wa_link \<Rightarrow> nat \<Rightarrow> wa_heap \<Rightarrow> wa_heap" where
  "wa_put LHead x h = h\<lparr>wa_free_list := x\<rparr>"
| "wa_put (LNext b) x h = blk_upd b (\<lambda>k. k\<lparr>blk_next := x\<rparr>) h"

section \<open>Operations\<close>

definition nurl_wa_round :: "nat \<Rightarrow> nat" where
  "nurl_wa_round n = wclear (n + (NURL_WA_ALIGN - 1)) (NURL_WA_ALIGN - 1)"

partial_function (option) wa_seek :: "nat \<Rightarrow> wa_heap \<Rightarrow> wa_link \<Rightarrow> wa_link option" where
  "wa_seek b h link = (if wa_get link h \<noteq> 0 \<and> wa_get link h < b then wa_seek b h (LNext (wa_get link h)) else Some link)"

partial_function (option) wa_pred :: "nat \<Rightarrow> wa_heap \<Rightarrow> nat \<Rightarrow> nat option" where
  "wa_pred b h p = (if p \<noteq> 0 \<and> bnext h p \<noteq> b then wa_pred b h (bnext h p) else Some p)"

definition wa_merge_next :: "nat \<Rightarrow> wa_heap \<Rightarrow> wa_heap" where
  "wa_merge_next b h =
    (let n = bnext h b in
     if n \<noteq> 0 \<and> w32 (b + bsize h b) = n
     then blk_upd b (\<lambda>k. k\<lparr>blk_size := w32 (blk_size k + bsize h n), blk_next := bnext h n\<rparr>) h
     else h)"

definition wa_merge_prev :: "nat \<Rightarrow> wa_heap \<Rightarrow> wa_heap option" where
  "wa_merge_prev b h = do {
     p \<leftarrow> wa_pred b h (wa_free_list h);
     Some (if p \<noteq> 0 \<and> w32 (p + bsize h p) = b
       then blk_upd p (\<lambda>k. k\<lparr>blk_size := w32 (blk_size k + bsize h b), blk_next := bnext h b\<rparr>) h
       else h)
   }"

definition nurl_wa_insert :: "nat \<Rightarrow> wa_heap \<Rightarrow> wa_heap option" where
  "nurl_wa_insert b h = do {
     let h = blk_upd b (\<lambda>k. k\<lparr>blk_free := 1\<rparr>) h;
     link \<leftarrow> wa_seek b h LHead;
     let h = blk_upd b (\<lambda>k. k\<lparr>blk_next := wa_get link h\<rparr>) h;
     let h = wa_put link b h;
     let h = wa_merge_next b h;
     if link \<noteq> LHead then wa_merge_prev b h else Some h
   }"

text \<open>\<open>memory.grow\<close> may refuse; it never goes beyond 4 GiB. It answers the old size in pages.\<close>

definition memory_grow :: "bool \<Rightarrow> nat \<Rightarrow> wa_heap \<Rightarrow> nat option \<times> wa_heap" where
  "memory_grow granted pages h =
    (if granted \<and> wa_pages h + pages \<le> 65536 then (Some (wa_pages h), h\<lparr>wa_pages := wa_pages h + pages\<rparr>) else (None, h))"

definition nurl_wa_arena :: "bool \<Rightarrow> nat \<Rightarrow> wa_heap \<Rightarrow> nat \<times> wa_heap" where
  "nurl_wa_arena granted bytes h =
    (let want = (if bytes < NURL_WA_CHUNK then NURL_WA_CHUNK else bytes); pages = w32 (want + 65535) div 65536 in
     case memory_grow granted pages h of
       (None, h) \<Rightarrow> (0, h)
     | (Some prev, h) \<Rightarrow> let b = w32 (prev * 65536) in
         (b, blk_upd b (\<lambda>k. \<lparr>blk_size = w32 (pages * 65536), blk_free = 0, blk_next = 0\<rparr>) h))"

partial_function (option) wa_fit :: "nat \<Rightarrow> wa_heap \<Rightarrow> wa_link \<Rightarrow> wa_link option" where
  "wa_fit need h link =
    (if wa_get link h \<noteq> 0 \<and> bsize h (wa_get link h) < need then wa_fit need h (LNext (wa_get link h)) else Some link)"

definition wa_split :: "nat \<Rightarrow> nat \<Rightarrow> wa_heap \<Rightarrow> wa_heap option" where
  "wa_split b need h =
    (if bsize h b \<ge> w32 (need + NURL_WA_HDR + NURL_WA_ALIGN)
     then let rest = w32 (b + need) in
       nurl_wa_insert rest (blk_upd b (\<lambda>k. k\<lparr>blk_size := need\<rparr>) (blk_upd rest (\<lambda>k. \<lparr>blk_size = wsub (bsize h b) need, blk_free = 0, blk_next = 0\<rparr>) h))
     else Some h)"

definition nurl_wa_alloc :: "bool \<Rightarrow> nat \<Rightarrow> wa_heap \<Rightarrow> (nat \<times> wa_heap) option" where
  "nurl_wa_alloc granted n h =
    (let n = (if n = 0 then 1 else n) in
     if n > 0xF0000000 then Some (0, h)
     else do {
       let need = w32 (nurl_wa_round n + NURL_WA_HDR);
       link \<leftarrow> wa_fit need h LHead;
       let b = wa_get link h;
       let (b, h) = (if b \<noteq> 0 then (b, wa_put link (bnext h b) h) else nurl_wa_arena granted need h);
       if b = 0 then Some (0, h)
       else do {
         h \<leftarrow> wa_split b need h;
         Some (w32 (b + NURL_WA_HDR), blk_upd b (\<lambda>k. k\<lparr>blk_free := 0, blk_next := 0\<rparr>) h)
       }
     })"

text \<open>The entry points; each of the first two is one section under the lock.\<close>

definition wa_malloc :: "bool \<Rightarrow> nat \<Rightarrow> wa_heap \<Rightarrow> (nat \<times> wa_heap) option" where
  "wa_malloc granted n h = nurl_wa_alloc granted n h"

definition wa_free :: "nat \<Rightarrow> wa_heap \<Rightarrow> wa_heap option" where
  "wa_free p h = (if p = 0 then Some h else let b = wsub p NURL_WA_HDR in if bfree h b = 0 then nurl_wa_insert b h else Some h)"

definition wa_usable_size :: "nat \<Rightarrow> wa_heap \<Rightarrow> nat" where
  "wa_usable_size p h = (if p = 0 then 0 else wsub (bsize h (wsub p NURL_WA_HDR)) NURL_WA_HDR)"

definition wa_calloc :: "bool \<Rightarrow> nat \<Rightarrow> nat \<Rightarrow> wa_heap \<Rightarrow> (nat \<times> wa_heap) option" where
  "wa_calloc granted n m h =
    (let total = w32 (n * m) in
     if n \<noteq> 0 \<and> total div n \<noteq> m then Some (0, h)
     else do {
       (p, h) \<leftarrow> wa_malloc granted total h;
       Some (p, if p \<noteq> 0 then h\<lparr>wa_bytes := (\<lambda>a. if p \<le> a \<and> a < p + total then 0 else wa_bytes h a)\<rparr> else h)
     })"

definition wa_realloc :: "bool \<Rightarrow> nat \<Rightarrow> nat \<Rightarrow> wa_heap \<Rightarrow> (nat \<times> wa_heap) option" where
  "wa_realloc granted p n h =
    (if p = 0 then wa_malloc granted n h
     else if n = 0 then do { h \<leftarrow> wa_free p h; Some (0, h) }
     else let have = wsub (bsize h (wsub p NURL_WA_HDR)) NURL_WA_HDR in
       if have \<ge> n then Some (p, h)
       else do {
         (q, h) \<leftarrow> wa_malloc granted n h;
         if q = 0 then Some (0, h)
         else do {
           h \<leftarrow> wa_free p (h\<lparr>wa_bytes := (\<lambda>a. if q \<le> a \<and> a < q + have then wa_bytes h (p + (a - q)) else wa_bytes h a)\<rparr>);
           Some (q, h)
         }
       })"

definition wa_reallocarray :: "bool \<Rightarrow> nat \<Rightarrow> nat \<Rightarrow> nat \<Rightarrow> wa_heap \<Rightarrow> (nat \<times> wa_heap) option" where
  "wa_reallocarray granted p n m h =
    (let total = w32 (n * m) in if n \<noteq> 0 \<and> total div n \<noteq> m then Some (0, h) else wa_realloc granted p total h)"

definition wa_aligned_alloc :: "bool \<Rightarrow> nat \<Rightarrow> nat \<Rightarrow> wa_heap \<Rightarrow> (nat \<times> wa_heap) option" where
  "wa_aligned_alloc granted align n h =
    (if align \<le> NURL_WA_ALIGN then wa_malloc granted n h
     else let extra = w32 (align + NURL_WA_HDR) in do {
       (raw, h) \<leftarrow> wa_malloc granted (w32 (n + extra)) h;
       if raw = 0 then Some (0, h)
       else let aligned = wclear (raw + extra) (wsub align 1); orig = wsub raw NURL_WA_HDR; shim = wsub aligned NURL_WA_HDR in
         Some (aligned, blk_upd shim (\<lambda>k. \<lparr>blk_size = wsub (bsize h orig) (wsub aligned raw), blk_free = 0, blk_next = 0\<rparr>) h)
     })"

definition wa_memalign :: "bool \<Rightarrow> nat \<Rightarrow> nat \<Rightarrow> wa_heap \<Rightarrow> (nat \<times> wa_heap) option" where
  "wa_memalign granted align n h = wa_aligned_alloc granted align n h"

definition wa_valloc :: "bool \<Rightarrow> nat \<Rightarrow> wa_heap \<Rightarrow> (nat \<times> wa_heap) option" where
  "wa_valloc granted n h = wa_aligned_alloc granted 65536 n h"

text \<open>The answer is the error code and what \<open>*out\<close> becomes; \<open>out\<close> itself may be null.\<close>

definition wa_posix_memalign :: "bool \<Rightarrow> bool \<Rightarrow> nat \<Rightarrow> nat \<Rightarrow> wa_heap \<Rightarrow> (int \<times> nat option \<times> wa_heap) option" where
  "wa_posix_memalign granted out align n h =
    (if \<not> out then Some (22, None, h)
     else do {
       (p, h) \<leftarrow> wa_aligned_alloc granted align n h;
       Some (if p = 0 then (12, None, h) else (0, Some p, h))
     })"

end
