(* ===== verification/WasmAllocProps.thy ===== *)
theory WasmAllocProps
  imports WasmAlloc
begin

unbundle bit_operations_syntax

text \<open>
  The heap of a threaded WebAssembly program is safe: blocks in use never overlap, what is freed comes back joined to its neighbours, and no byte
  is lost, except by aligned allocation, whose prefix stays behind for good.
\<close>

section \<open>Arithmetic in 32 bits\<close>

lemma w32_small [simp]: "n < 4294967296 \<Longrightarrow> w32 n = n"
  by (simp add: w32_def)

lemma wsub_le [simp]: "n \<le> m \<Longrightarrow> m < 4294967296 \<Longrightarrow> wsub m n = m - n"
  by (simp add: wsub_def flip: of_nat_diff)

lemma wclear_pow: "m < 4294967296 \<Longrightarrow> wclear m (2 ^ k - 1) = m div 2 ^ k * 2 ^ k"
proof -
  assume m: "m < 4294967296"
  have "word_of_nat (2 ^ k - 1) = (mask k :: u32)" by (simp add: mask_eq_exp_minus_1)
  moreover have "unat (word_of_nat m :: u32) = m" using m by (simp add: unsigned_of_nat take_bit_nat_eq_self)
  ultimately show ?thesis unfolding wclear_def by (simp add: unat_and_not_mask)
qed

lemma wa_round_ok: "n \<le> 0xF0000000 \<Longrightarrow> n \<le> nurl_wa_round n \<and> nurl_wa_round n < n + 16 \<and> 16 dvd nurl_wa_round n"
proof -
  assume "n \<le> 0xF0000000"
  then have "nurl_wa_round n = (n + 15) div 16 * 16" using wclear_pow [of "n + 15" 4] by (simp add: nurl_wa_round_def NURL_WA_ALIGN_def)
  then show ?thesis by simp presburger
qed

section \<open>Spans\<close>

abbreviation send :: "span \<Rightarrow> nat" where "send x \<equiv> fst x + snd x"

definition spaced :: "span list \<Rightarrow> bool" where
  "spaced xs \<longleftrightarrow> sorted_wrt (\<lambda>x y. send x < fst y) xs"

definition join_next :: "span \<Rightarrow> span list \<Rightarrow> span list" where
  "join_next x Q = (case Q of [] \<Rightarrow> [x] | q # Q' \<Rightarrow> if send x = fst q then (fst x, snd x + snd q) # Q' else x # Q)"

definition join_prev :: "span list \<Rightarrow> span list \<Rightarrow> span list" where
  "join_prev P Y =
    (if P \<noteq> [] \<and> send (last P) = fst (hd Y) then butlast P @ (fst (last P), snd (last P) + snd (hd Y)) # tl Y else P @ Y)"

definition bytes_of :: "span list \<Rightarrow> nat" where "bytes_of xs = sum_list (map snd xs)"

lemma bytes_of_simps [simp]: "bytes_of [] = 0" "bytes_of (x # xs) = snd x + bytes_of xs" "bytes_of (xs @ ys) = bytes_of xs + bytes_of ys"
  by (simp_all add: bytes_of_def)

text \<open>What holds of all spans and survives joining neighbours holds of the result.\<close>

lemma join_all:
  assumes "\<And>x y. K x \<Longrightarrow> K y \<Longrightarrow> send x = fst y \<Longrightarrow> K (fst x, snd x + snd y)" "\<forall>y \<in> set (P @ x # Q). K y"
  shows "\<forall>y \<in> set (join_prev P (join_next x Q)). K y"
proof -
  have n: "\<forall>y \<in> set (join_next x Q). K y" using assms by (auto simp: join_next_def split: list.splits)
  have ne: "join_next x Q \<noteq> []" by (simp add: join_next_def split: list.splits)
  show ?thesis
  proof (cases "P \<noteq> [] \<and> send (last P) = fst (hd (join_next x Q))")
    case True
    then have "K (fst (last P), snd (last P) + snd (hd (join_next x Q)))" using assms n ne by simp
    moreover have "\<forall>y \<in> set (butlast P) \<union> set (tl (join_next x Q)). K y"
      using assms(2) n by (auto dest: in_set_butlastD list.set_sel(2) [OF ne])
    ultimately show ?thesis using True by (auto simp: join_prev_def)
  next
    case False
    then have "join_prev P (join_next x Q) = P @ join_next x Q" unfolding join_prev_def by (simp only: if_False)
    then show ?thesis using assms(2) n by auto
  qed
qed

lemma join_next_ok:
  assumes "spaced Q" "\<forall>q \<in> set Q. send x \<le> fst q \<and> 0 < snd q"
  shows "\<exists>y Y. join_next x Q = y # Y \<and> fst y = fst x \<and> spaced (y # Y) \<and> bytes_of (y # Y) = snd x + bytes_of Q"
proof (cases Q)
  case (Cons q Q')
  have "send x < fst q" if "send x \<noteq> fst q" using that assms(2) Cons by auto
  moreover have "\<forall>r \<in> set Q'. fst q < fst r" using assms Cons by (auto simp: spaced_def)
  ultimately show ?thesis using Cons assms by (auto simp: join_next_def spaced_def)
qed (simp add: join_next_def spaced_def)

lemma join_prev_ok:
  assumes "spaced P" "spaced (y # Y)" "\<forall>p \<in> set P. send p \<le> fst y"
  shows "spaced (join_prev P (y # Y)) \<and> bytes_of (join_prev P (y # Y)) = bytes_of P + bytes_of (y # Y)"
proof (cases P rule: rev_cases)
  case Nil
  then show ?thesis using assms(2) by (simp add: join_prev_def)
next
  case (snoc P' p)
  have P: "\<forall>x \<in> set P'. send x < fst p" "spaced P'" using assms(1) snoc by (auto simp: spaced_def sorted_wrt_append)
  have Y: "\<forall>x \<in> set Y. send y < fst x" "spaced Y" using assms(2) by (auto simp: spaced_def)
  show ?thesis
  proof (cases "send p = fst y")
    case True
    have J: "join_prev P (y # Y) = P' @ (fst p, snd p + snd y) # Y" using True snoc by (simp add: join_prev_def)
    have "\<forall>a \<in> set P'. \<forall>b \<in> set Y. send a < fst b" using P(1) Y(1) True by fastforce
    moreover have "fst p + (snd p + snd y) = send y" using True by simp
    ultimately show ?thesis unfolding J using P Y snoc by (auto simp: spaced_def sorted_wrt_append)
  next
    case False
    have J: "join_prev P (y # Y) = P @ y # Y" using False snoc by (simp add: join_prev_def)
    have "send p < fst y" using False assms(3) snoc by auto
    then have "\<forall>a \<in> set P. \<forall>b \<in> set (y # Y). send a < fst b" using snoc P(1) Y(1) by fastforce
    then show ?thesis unfolding J using assms(1,2) by (simp add: spaced_def sorted_wrt_append)
  qed
qed

lemma joined_ok:
  assumes "spaced (P @ Q)" "\<forall>p \<in> set P. send p \<le> fst x" "\<forall>q \<in> set Q. send x \<le> fst q \<and> 0 < snd q"
  shows "spaced (join_prev P (join_next x Q))" "bytes_of (join_prev P (join_next x Q)) = bytes_of P + snd x + bytes_of Q"
proof -
  have s: "spaced P" "spaced Q" using assms(1) by (simp_all add: spaced_def sorted_wrt_append)
  obtain y Y where y: "join_next x Q = y # Y" "fst y = fst x" "spaced (y # Y)" "bytes_of (y # Y) = snd x + bytes_of Q"
    using join_next_ok [OF s(2) assms(3)] by blast
  then show "spaced (join_prev P (join_next x Q))" "bytes_of (join_prev P (join_next x Q)) = bytes_of P + snd x + bytes_of Q"
    using join_prev_ok [OF s(1) y(3)] assms(2) by auto
qed

section \<open>The list in memory\<close>

fun wa_seg :: "wa_heap \<Rightarrow> nat \<Rightarrow> nat list \<Rightarrow> nat \<Rightarrow> bool" where
  "wa_seg h p [] q \<longleftrightarrow> p = q"
| "wa_seg h p (b # bs) q \<longleftrightarrow> p = b \<and> b \<noteq> 0 \<and> wa_seg h (bnext h b) bs q"

lemma wa_seg_append: "wa_seg h p (xs @ ys) q \<longleftrightarrow> (\<exists>r. wa_seg h p xs r \<and> wa_seg h r ys q)"
  by (induction xs arbitrary: p) auto

lemma wa_seg_cong: "\<forall>b \<in> set bs. bnext h' b = bnext h b \<Longrightarrow> wa_seg h' p bs q = wa_seg h p bs q"
  by (induction bs arbitrary: p) auto

lemma wa_seg_head: "wa_seg h p bs q \<Longrightarrow> bs \<noteq> [] \<Longrightarrow> p = hd bs \<and> p \<noteq> 0"
  by (cases bs) auto

lemma blk_upd_simps [simp]:
  "blk_at (blk_upd b f h) c = (if c = b then f (blk_at h b) else blk_at h c)" "wa_free_list (blk_upd b f h) = wa_free_list h"
  "wa_bytes (blk_upd b f h) = wa_bytes h" "wa_pages (blk_upd b f h) = wa_pages h"
  by (simp_all add: blk_upd_def)

lemma wa_put_simps [simp]: "wa_bytes (wa_put l x h) = wa_bytes h" "wa_pages (wa_put l x h) = wa_pages h"
  "bsize (wa_put l x h) c = bsize h c" "bfree (wa_put l x h) c = bfree h c"
  by (cases l; simp)+

definition link_of :: "nat list \<Rightarrow> wa_link" where
  "link_of pre = (if pre = [] then LHead else LNext (last pre))"

lemma seek_ok:
  "wa_seg h (wa_get l h) (pre @ post) 0 \<Longrightarrow> \<forall>x \<in> set pre. x < b \<Longrightarrow> post \<noteq> [] \<longrightarrow> \<not> hd post < b \<Longrightarrow>
    wa_seek b h l = Some (if pre = [] then l else LNext (last pre))"
proof (induction pre arbitrary: l)
  case Nil
  then have "wa_get l h = 0 \<or> \<not> wa_get l h < b" by (cases post) auto
  then show ?case by (subst wa_seek.simps) auto
next
  case (Cons x pre)
  have "wa_get l h = x" "x \<noteq> 0" "x < b" using Cons.prems by auto
  then show ?case using Cons.IH [of "LNext x"] Cons.prems by (subst wa_seek.simps) auto
qed

lemma fit_ok:
  "wa_seg h (wa_get l h) (pre @ post) 0 \<Longrightarrow> \<forall>x \<in> set pre. bsize h x < need \<Longrightarrow> post \<noteq> [] \<longrightarrow> need \<le> bsize h (hd post) \<Longrightarrow>
    wa_fit need h l = Some (if pre = [] then l else LNext (last pre))"
proof (induction pre arbitrary: l)
  case Nil
  then have "wa_get l h = 0 \<or> \<not> bsize h (wa_get l h) < need" by (cases post) auto
  then show ?case by (subst wa_fit.simps) auto
next
  case (Cons x pre)
  have "wa_get l h = x" "x \<noteq> 0" "bsize h x < need" using Cons.prems by auto
  then show ?case using Cons.IH [of "LNext x"] Cons.prems by (subst wa_fit.simps) auto
qed

lemma pred_ok:
  "wa_seg h p (pre @ q # b # post) r \<Longrightarrow> b \<notin> set pre \<Longrightarrow> b \<noteq> q \<Longrightarrow> wa_pred b h p = Some q"
proof (induction pre arbitrary: p)
  case Nil
  then show ?case by (subst wa_pred.simps) auto
next
  case (Cons x pre)
  have "p = x" "x \<noteq> 0" "bnext h x \<noteq> b" using Cons.prems by (cases pre; auto)+
  then show ?case using Cons.IH [of "bnext h x"] Cons.prems by (subst wa_pred.simps) auto
qed

lemma link_get: "wa_seg h (wa_free_list h) (pre @ post) 0 \<Longrightarrow> wa_seg h (wa_get (link_of pre) h) post 0"
  by (cases pre rule: rev_cases) (auto simp: link_of_def wa_seg_append)

text \<open>Rewriting what a link holds replaces the rest of the list.\<close>

lemma link_put:
  assumes "wa_seg h (wa_free_list h) (pre @ post) 0" "distinct pre" "set pre \<inter> set new = {}" "wa_seg h x new 0"
  shows "wa_seg (wa_put (link_of pre) x h) (wa_free_list (wa_put (link_of pre) x h)) (pre @ new) 0"
proof (cases pre rule: rev_cases)
  case Nil
  then show ?thesis using assms(4) wa_seg_cong [of new "h\<lparr>wa_free_list := x\<rparr>" h x 0] by (simp add: link_of_def)
next
  case (snoc ps p)
  let ?h = "blk_upd p (\<lambda>k. k\<lparr>blk_next := x\<rparr>) h"
  have p: "wa_seg h (wa_free_list h) ps p" "p \<noteq> 0" "p \<notin> set ps" "p \<notin> set new" using assms(1-3) snoc by (auto simp: wa_seg_append)
  have "wa_seg ?h (wa_free_list h) ps p" "wa_seg ?h x new 0" using p assms(4) wa_seg_cong [of ps ?h h] wa_seg_cong [of new ?h h] by auto
  then show ?thesis using snoc p(2) by (auto simp: link_of_def wa_seg_append)
qed


section \<open>Insertion\<close>

definition wspan :: "wa_heap \<Rightarrow> nat \<Rightarrow> span" where "wspan h b = (b, bsize h b)"

definition span_ok :: "span \<Rightarrow> bool" where
  "span_ok x \<longleftrightarrow> 0 < fst x \<and> 16 dvd fst x \<and> 16 dvd snd x \<and> 32 \<le> snd x"

definition same_rest :: "nat set \<Rightarrow> wa_heap \<Rightarrow> wa_heap \<Rightarrow> bool" where
  "same_rest B h h' \<longleftrightarrow> (\<forall>c. c \<notin> B \<longrightarrow> blk_at h' c = blk_at h c) \<and> wa_bytes h' = wa_bytes h \<and> wa_pages h' = wa_pages h"

lemma span_cong: "\<forall>c \<in> set cs. bsize h' c = bsize h c \<Longrightarrow> map (wspan h') cs = map (wspan h) cs"
  by (simp add: wspan_def)

lemma merge_next_ok:
  assumes "wa_seg h (wa_free_list h) (pre @ b # post) 0" "distinct (pre @ b # post)" "0 < b"
    and "\<forall>c \<in> set (pre @ b # post). 0 < bsize h c \<and> c + bsize h c \<le> 4294967296"
  obtains post' where "wa_seg (wa_merge_next b h) (wa_free_list (wa_merge_next b h)) (pre @ b # post') 0" "set post' \<subseteq> set post"
    "map (wspan (wa_merge_next b h)) (b # post') = join_next (wspan h b) (map (wspan h) post)" "same_rest {b} h (wa_merge_next b h)"
    "\<forall>c. bfree (wa_merge_next b h) c = bfree h c" "distinct (pre @ b # post')"
proof (cases "post \<noteq> [] \<and> b + bsize h b = hd post")
  case True
  then obtain n ps where n: "post = n # ps" "b + bsize h b = n" by (cases post) auto
  have seg: "wa_seg h (wa_free_list h) pre b" "bnext h b = n" "n \<noteq> 0" "wa_seg h (bnext h n) ps 0" using assms(1) n by (auto simp: wa_seg_append)
  let ?h = "blk_upd b (\<lambda>k. k\<lparr>blk_size := w32 (blk_size k + bsize h n), blk_next := bnext h n\<rparr>) h"
  have b: "n < 4294967296" "bsize h b + bsize h n < 4294967296" using assms(3,4) n by auto
  then have h: "wa_merge_next b h = ?h" using seg n by (simp add: wa_merge_next_def Let_def)
  have w: "map (wspan ?h) (b # ps) = join_next (wspan h b) (map (wspan h) post)"
    using n b(2) assms(2) by (auto simp: wspan_def join_next_def)
  have "wa_seg ?h (wa_free_list h) pre b" "wa_seg ?h (bnext h n) ps 0" using seg assms(2) n wa_seg_cong [of pre ?h h] wa_seg_cong [of ps ?h h] by auto
  then have "wa_seg ?h (wa_free_list ?h) (pre @ b # ps) 0" using assms(3) by (auto simp: wa_seg_append)
  moreover have "same_rest {b} h ?h" "\<forall>c. bfree ?h c = bfree h c" "set ps \<subseteq> set post" using n by (auto simp: same_rest_def)
  ultimately show ?thesis using that [of ps] w n assms(2) unfolding h by simp
next
  case False
  have seg: "wa_seg h (bnext h b) post 0" using assms(1) by (auto simp: wa_seg_append)
  have "bnext h b = 0 \<or> w32 (b + bsize h b) \<noteq> bnext h b"
  proof (cases post)
    case (Cons n ps)
    then have "b + bsize h b \<noteq> n" "bnext h b = n" using False seg by auto
    then show ?thesis using assms(4) by (cases "b + bsize h b = 4294967296") (auto simp: w32_def)
  qed (use seg in simp)
  then have h: "wa_merge_next b h = h" by (auto simp: wa_merge_next_def Let_def)
  have "map (wspan h) (b # post) = join_next (wspan h b) (map (wspan h) post)" using False by (cases post) (auto simp: join_next_def wspan_def)
  then show ?thesis using that [of post] assms(1,2) unfolding h by (auto simp: same_rest_def)
qed

lemma merge_prev_ok:
  assumes "wa_seg h (wa_free_list h) (pre @ b # post) 0" "distinct (pre @ b # post)" "0 < b" "pre \<noteq> []"
    and "0 < bsize h b" "b + bsize h b \<le> 4294967296" "\<forall>c \<in> set pre. c + bsize h c \<le> b"
  obtains h' fs' where "wa_merge_prev b h = Some h'" "wa_seg h' (wa_free_list h') fs' 0" "set fs' \<subseteq> set (pre @ b # post)"
    "map (wspan h') fs' = join_prev (map (wspan h) pre) (map (wspan h) (b # post))" "same_rest (set pre) h h'" "\<forall>c. bfree h' c = bfree h c"
proof -
  obtain ps p where p: "pre = ps @ [p]" using assms(4) by (cases pre rule: rev_cases) auto
  let ?h = "blk_upd p (\<lambda>k. k\<lparr>blk_size := w32 (blk_size k + bsize h b), blk_next := bnext h b\<rparr>) h"
  have "wa_pred b h (wa_free_list h) = Some p" using pred_ok [of h "wa_free_list h" ps p b post 0] assms(1,2) p by auto
  moreover have p0: "p \<noteq> 0" using assms(1) p by (auto simp: wa_seg_append)
  moreover have "p + bsize h p < 4294967296" using assms(5-7) p by auto
  ultimately have m: "wa_merge_prev b h = Some (if p + bsize h p = b then ?h else h)" by (simp add: wa_merge_prev_def)
  show ?thesis
  proof (cases "p + bsize h p = b")
    case True
    have seg: "wa_seg h (wa_free_list h) ps p" "wa_seg h (bnext h b) post 0" using assms(1) p by (auto simp: wa_seg_append)
    have "wa_seg ?h (wa_free_list h) ps p" "wa_seg ?h (bnext h b) post 0" using seg assms(2) p wa_seg_cong [of ps ?h h] wa_seg_cong [of post ?h h] by auto
    then have s: "wa_seg ?h (wa_free_list ?h) (ps @ p # post) 0" using p0 by (auto simp: wa_seg_append)
    have "bsize h p + bsize h b < 4294967296" using True assms(6) p0 by linarith
    then have w: "map (wspan ?h) (ps @ p # post) = join_prev (map (wspan h) pre) (map (wspan h) (b # post))"
      using True p assms(2) by (auto simp: join_prev_def wspan_def)
    have "same_rest (set pre) h ?h" "\<forall>c. bfree ?h c = bfree h c" "set (ps @ p # post) \<subseteq> set (pre @ b # post)" using p by (auto simp: same_rest_def)
    then show ?thesis using that [of ?h "ps @ p # post"] m s w True by simp
  next
    case False
    then have "map (wspan h) (pre @ b # post) = join_prev (map (wspan h) pre) (map (wspan h) (b # post))"
      using p by (auto simp: join_prev_def wspan_def)
    then show ?thesis using that [of h "pre @ b # post"] m assms(1) False by (auto simp: same_rest_def)
  qed
qed

text \<open>Insertion joins the block with the neighbours it touches.\<close>

lemma spaced_sorted: "spaced (map (wspan h) fs) \<Longrightarrow> sorted_wrt (<) fs"
  unfolding spaced_def sorted_wrt_map by (erule sorted_wrt_mono_rel [rotated]) (auto simp: wspan_def)

lemma sorted_parts:
  assumes "sorted_wrt (<) fs" "b \<notin> set fs"
  shows "\<forall>c \<in> set (takeWhile (\<lambda>c. c < b) fs). c < b" "\<forall>c \<in> set (dropWhile (\<lambda>c. c < b) fs). b < (c :: nat)"
proof -
  show "\<forall>c \<in> set (takeWhile (\<lambda>c. c < b) fs). c < b" by (auto dest: set_takeWhileD)
  show "\<forall>c \<in> set (dropWhile (\<lambda>c. c < b) fs). b < c"
    using assms by (induction fs) (auto split: if_splits)
qed

lemma insert_list:
  assumes "wa_seg h (wa_free_list h) fs 0" "spaced (map (wspan h) fs)" "b \<notin> set fs" "0 < b"
    and "\<forall>c \<in> set (b # fs). 0 < bsize h c \<and> c + bsize h c \<le> 4294967296" "\<forall>c \<in> set fs. c < b \<longrightarrow> c + bsize h c \<le> b"
    and "pre = takeWhile (\<lambda>c. c < b) fs" "post = dropWhile (\<lambda>c. c < b) fs"
  obtains h' fs' where "nurl_wa_insert b h = Some h'" "wa_seg h' (wa_free_list h') fs' 0" "set fs' \<subseteq> set (b # fs)"
    "map (wspan h') fs' = join_prev (map (wspan h) pre) (join_next (wspan h b) (map (wspan h) post))"
    "same_rest (set (b # fs)) h h'" "\<forall>c. bfree h' c = (if c = b then 1 else bfree h c)"
proof -
  let ?l = "link_of pre"
  let ?h1 = "blk_upd b (\<lambda>k. k\<lparr>blk_free := 1\<rparr>) h"
  let ?h2 = "blk_upd b (\<lambda>k. k\<lparr>blk_next := wa_get ?l ?h1\<rparr>) ?h1"
  let ?h3 = "wa_put ?l b ?h2"
  let ?h4 = "wa_merge_next b ?h3"
  have fs: "fs = pre @ post" using assms(7,8) by simp
  have srt: "sorted_wrt (<) fs" by (rule spaced_sorted [OF assms(2)])
  note ord = sorted_parts [OF srt assms(3), folded assms(7,8)]
  have d: "distinct (pre @ b # post)" using srt assms(3) fs by (auto simp: strict_sorted_iff)
  have l: "?l \<noteq> LNext b" using assms(3) fs by (auto simp: link_of_def)
  have g: "wa_get ?l ?h2 = wa_get ?l ?h1" using l by (cases ?l) auto
  have s1: "wa_seg ?h1 (wa_free_list ?h1) fs 0" using assms(1) wa_seg_cong [of fs ?h1 h] by simp
  have seek: "wa_seek b ?h1 LHead = Some ?l" using seek_ok [of ?h1 LHead pre post b] s1 fs ord by (cases post) (auto simp: link_of_def)
  have s2: "wa_seg ?h2 (wa_free_list ?h2) (pre @ post) 0" using assms(1,3) wa_seg_cong [of fs ?h2 h] fs by auto
  have "wa_seg ?h2 b (b # post) 0" using link_get [OF s2] g assms(4) by simp
  then have s3: "wa_seg ?h3 (wa_free_list ?h3) (pre @ b # post) 0" using link_put [OF s2, of "b # post" b] d by auto
  have sz: "bsize ?h3 c = bsize h c" for c by simp
  have w3: "wspan ?h3 = wspan h" by (rule ext) (simp add: wspan_def)
  have b3: "\<forall>c \<in> set (pre @ b # post). 0 < bsize ?h3 c \<and> c + bsize ?h3 c \<le> 4294967296" using assms(5) fs sz by auto
  obtain post' where p4: "wa_seg ?h4 (wa_free_list ?h4) (pre @ b # post') 0" "set post' \<subseteq> set post"
    "map (wspan ?h4) (b # post') = join_next (wspan h b) (map (wspan h) post)" "same_rest {b} ?h3 ?h4"
    "\<forall>c. bfree ?h4 c = bfree ?h3 c" "distinct (pre @ b # post')"
    using merge_next_ok [OF s3 d assms(4) b3] unfolding w3 by metis
  have f4: "\<forall>c. bfree ?h4 c = (if c = b then 1 else bfree h c)" using p4(5) by simp
  have r4: "same_rest (set (b # fs)) h ?h4"
  proof -
    have "blk_at ?h3 c = blk_at h c" if "c \<notin> set (b # fs)" for c using that fs by (cases pre rule: rev_cases) (auto simp: link_of_def)
    then show ?thesis using p4(4) by (auto simp: same_rest_def)
  qed
  have ins: "nurl_wa_insert b h = (if ?l \<noteq> LHead then wa_merge_prev b ?h4 else Some ?h4)"
    using seek by (simp add: nurl_wa_insert_def Let_def)
  show ?thesis
  proof (cases "pre = []")
    case True
    then show ?thesis using that [of ?h4 "b # post'"] ins p4 f4 r4 fs by (auto simp: link_of_def join_prev_def)
  next
    case False
    have sb: "0 < bsize ?h4 b \<and> b + bsize ?h4 b \<le> 4294967296"
      using p4(3) assms(5) fs by (cases post) (auto simp: join_next_def wspan_def split: if_splits)
    have sp: "bsize ?h4 c = bsize h c" if "c \<in> set pre" for c
    proof -
      have "c \<noteq> b" using that assms(3) fs by auto
      then have "blk_at ?h4 c = blk_at ?h3 c" using p4(4) unfolding same_rest_def by blast
      then show ?thesis using sz [of c] by (simp only:)
    qed
    have wp: "map (wspan ?h4) pre = map (wspan h) pre" using sp by (simp add: wspan_def)
    have "\<forall>c \<in> set pre. c + bsize ?h4 c \<le> b" using sp assms(6) ord(1) fs by auto
    then obtain h' fs' where m: "wa_merge_prev b ?h4 = Some h'" "wa_seg h' (wa_free_list h') fs' 0" "set fs' \<subseteq> set (pre @ b # post')"
      "map (wspan h') fs' = join_prev (map (wspan ?h4) pre) (map (wspan ?h4) (b # post'))" "same_rest (set pre) ?h4 h'" "\<forall>c. bfree h' c = bfree ?h4 c"
      using merge_prev_ok [OF p4(1,6) assms(4) False] sb by metis
    have "same_rest (set (b # fs)) h h'" using r4 m(5) fs by (auto simp: same_rest_def)
    moreover have "nurl_wa_insert b h = Some h'" unfolding ins using m(1) False by (simp only: link_of_def if_False wa_link.distinct not_False_eq_True if_True)
    moreover have "set fs' \<subseteq> set (b # fs)" using m(3) p4(2) fs by auto
    moreover note m(4) [unfolded wp p4(3)]
    moreover have "\<forall>c. bfree h' c = (if c = b then 1 else bfree h c)" using m(6) f4 by (simp only: simp_thms)
    ultimately show ?thesis using that [of h' fs'] m(2) by blast
  qed
qed


section \<open>The invariant\<close>

text \<open>The free blocks \<open>fs\<close> are in order, no two of them touching; \<open>R\<close> are the spans of the memory that are in use or lost.\<close>

definition mem_end :: "wa_heap \<Rightarrow> nat" where "mem_end h = wa_pages h * 65536"

definition inside :: "wa_heap \<Rightarrow> span \<Rightarrow> bool" where
  "inside h x \<longleftrightarrow> 0 < fst x \<and> 0 < snd x \<and> send x \<le> mem_end h"

definition wa_core :: "wa_heap \<Rightarrow> nat list \<Rightarrow> span list \<Rightarrow> bool" where
  "wa_core h fs R \<longleftrightarrow>
    wa_seg h (wa_free_list h) fs 0 \<and> spaced (map (wspan h) fs) \<and> (\<forall>b \<in> set fs. bfree h b = 1) \<and>
    (\<forall>x \<in> set (map (wspan h) fs). span_ok x \<and> inside h x \<and> (\<forall>r \<in> set R. apart x r)) \<and>
    sorted_wrt apart R \<and> (\<forall>r \<in> set R. inside h r) \<and> 0 < wa_pages h \<and> wa_pages h \<le> 65536"

lemma wa_coreD:
  assumes "wa_core h fs R"
  shows "wa_seg h (wa_free_list h) fs 0" "spaced (map (wspan h) fs)" "\<forall>b \<in> set fs. bfree h b = 1"
    "\<forall>x \<in> set (map (wspan h) fs). span_ok x \<and> inside h x \<and> (\<forall>r \<in> set R. apart x r)"
    "sorted_wrt apart R" "\<forall>r \<in> set R. inside h r" "0 < wa_pages h" "wa_pages h \<le> 65536"
  using assms by (simp_all add: wa_core_def)

lemma mem_end_max: "wa_core h fs R \<Longrightarrow> mem_end h \<le> 4294967296"
  by (simp add: wa_core_def mem_end_def)

lemma insert_ok:
  assumes core: "wa_core h fs (wspan h b # R)" and ok: "span_ok (wspan h b)"
  obtains h' fs' where "nurl_wa_insert b h = Some h'" "wa_core h' fs' R" "same_rest (set (b # fs)) h h'" "set fs' \<subseteq> set (b # fs)"
    "bytes_of (map (wspan h') fs') = bytes_of (map (wspan h) fs) + bsize h b" "\<forall>c. bfree h' c = (if c = b then 1 else bfree h c)"
proof -
  note c = wa_coreD [OF core]
  have in_b: "inside h (wspan h b)" using c(6) by simp
  have in_all: "\<forall>d \<in> set (b # fs). 0 < bsize h d \<and> d + bsize h d \<le> mem_end h" using c(4) in_b by (auto simp: inside_def wspan_def)
  then have small: "\<forall>d \<in> set (b # fs). 0 < bsize h d \<and> d + bsize h d \<le> 4294967296" using mem_end_max [OF core] by fastforce
  have ap: "apart (wspan h d) (wspan h b)" if "d \<in> set fs" for d using c(4) that by auto
  have nb: "b \<notin> set fs" using ap [of b] small by (auto simp: apart_def wspan_def)
  have lo: "\<forall>d \<in> set fs. d < b \<longrightarrow> d + bsize h d \<le> b" using ap by (fastforce simp: apart_def wspan_def)
  have hi: "b + bsize h b \<le> d" if "d \<in> set fs" "b < d" for d using ap [OF that(1)] in_all that by (auto simp: apart_def wspan_def)
  define pre where "pre = takeWhile (\<lambda>d. d < b) fs"
  define post where "post = dropWhile (\<lambda>d. d < b) fs"
  have fs: "fs = pre @ post" by (simp add: pre_def post_def)
  have b0: "0 < b" using ok by (simp add: span_ok_def wspan_def)
  obtain h' fs' where h': "nurl_wa_insert b h = Some h'" "wa_seg h' (wa_free_list h') fs' 0" "set fs' \<subseteq> set (b # fs)"
    "map (wspan h') fs' = join_prev (map (wspan h) pre) (join_next (wspan h b) (map (wspan h) post))"
    "same_rest (set (b # fs)) h h'" "\<forall>d. bfree h' d = (if d = b then 1 else bfree h d)"
    using insert_list [OF c(1,2) nb b0 small lo pre_def post_def] by metis
  note ord = sorted_parts [OF spaced_sorted [OF c(2)] nb, folded pre_def post_def]
  have j: "spaced (map (wspan h) pre @ map (wspan h) post)" "\<forall>p \<in> set (map (wspan h) pre). send p \<le> fst (wspan h b)"
    "\<forall>q \<in> set (map (wspan h) post). send (wspan h b) \<le> fst q \<and> 0 < snd q"
    using c(2) fs lo hi ord in_all by (auto simp: wspan_def)
  let ?J = "join_prev (map (wspan h) pre) (join_next (wspan h b) (map (wspan h) post))"
  have all: "\<forall>y \<in> set ?J. K y" if "\<And>x y. K x \<Longrightarrow> K y \<Longrightarrow> send x = fst y \<Longrightarrow> K (fst x, snd x + snd y)" "\<forall>d \<in> set (b # fs). K (wspan h d)" for K
  proof (rule join_all [where K = K])
    show "K (fst x, snd x + snd y)" if "K x" "K y" "send x = fst y" for x y using that by (rule \<open>\<And>x y. K x \<Longrightarrow> K y \<Longrightarrow> send x = fst y \<Longrightarrow> K (fst x, snd x + snd y)\<close>)
    show "\<forall>y \<in> set (map (wspan h) pre @ wspan h b # map (wspan h) post). K y" using that(2) fs by auto
  qed
  have "\<forall>y \<in> set ?J. span_ok y" by (rule all) (use c(4) ok in \<open>auto simp: span_ok_def\<close>)
  moreover have "\<forall>y \<in> set ?J. inside h y" by (rule all) (use c(4) in_b in \<open>auto simp: inside_def\<close>)
  moreover have "\<forall>y \<in> set ?J. apart y r" if "r \<in> set R" for r
  proof (rule all)
    have "0 < snd r" "apart (wspan h b) r" using that c(5,6) by (auto simp: inside_def)
    then show "\<forall>d \<in> set (b # fs). apart (wspan h d) r" "\<And>x y. apart x r \<Longrightarrow> apart y r \<Longrightarrow> send x = fst y \<Longrightarrow> apart (fst x, snd x + snd y) r"
      using c(4) that by (auto simp: apart_def)
  qed
  moreover have "inside h' = inside h" "wa_pages h' = wa_pages h" using h'(5) by (auto simp: same_rest_def inside_def mem_end_def)
  ultimately have "wa_core h' fs' R"
    using c(3,5-8) h'(2-6) joined_ok(1) [OF j] by (auto simp: wa_core_def)
  moreover have "bytes_of (map (wspan h') fs') = bytes_of (map (wspan h) fs) + bsize h b"
    using joined_ok(2) [OF j] h'(4) fs by (simp add: wspan_def)
  ultimately show ?thesis using that h' by blast
qed


lemma core_frame:
  assumes "wa_core h fs R" "\<forall>c \<in> set fs. blk_at h' c = blk_at h c" "wa_free_list h' = wa_free_list h" "wa_pages h' = wa_pages h"
  shows "wa_core h' fs R"
proof -
  have "wa_seg h' (wa_free_list h') fs 0 = wa_seg h (wa_free_list h) fs 0" using assms(2,3) wa_seg_cong [of fs h' h] by simp
  moreover have "map (wspan h') fs = map (wspan h) fs" using assms(2) by (simp add: wspan_def)
  moreover have "inside h' = inside h" using assms(4) by (auto simp: inside_def mem_end_def)
  moreover have "\<forall>b \<in> set fs. bfree h' b = bfree h b" using assms(2) by simp
  ultimately show ?thesis using assms(1,4) unfolding wa_core_def by metis
qed

lemma core_apart:
  assumes "wa_core h fs R" "(b, n) \<in> set R"
  shows "b \<notin> set fs"
proof
  assume "b \<in> set fs"
  then have "apart (wspan h b) (b, n)" "inside h (wspan h b)" using wa_coreD(4) [OF assms(1)] assms(2) by auto
  moreover have "inside h (b, n)" using wa_coreD(6) [OF assms(1)] assms(2) by blast
  ultimately show False by (auto simp: apart_def wspan_def inside_def)
qed

text \<open>Taking a block out of the list.\<close>

lemma take_out:
  assumes core: "wa_core h (pre @ b # post) R"
  shows "wa_core (wa_put (link_of pre) (bnext h b) h) (pre @ post) (wspan h b # R)"
proof -
  note c = wa_coreD [OF core]
  let ?h = "wa_put (link_of pre) (bnext h b) h"
  have d: "distinct (pre @ b # post)" using spaced_sorted [OF c(2)] by (simp add: strict_sorted_iff)
  have "wa_seg h (bnext h b) post 0" using c(1) by (auto simp: wa_seg_append)
  then have "wa_seg ?h (wa_free_list ?h) (pre @ post) 0" using link_put [OF c(1), of post] d by auto
  moreover have w: "wspan ?h = wspan h" by (rule ext) (simp add: wspan_def)
  moreover have "spaced (map (wspan h) (pre @ post))" using c(2) by (simp add: spaced_def sorted_wrt_append)
  moreover have "inside ?h = inside h" by (auto simp: inside_def mem_end_def)
  moreover have "apart x (wspan h b)" if "x \<in> set (map (wspan h) (pre @ post))" for x
    using c(2) that unfolding spaced_def by (auto simp: sorted_wrt_append apart_def)
  ultimately show ?thesis using c(3-8) unfolding wa_core_def w by simp
qed

lemma arena_ok:
  assumes core: "wa_core h fs R" and need: "32 \<le> need" "need \<le> 0xF0000010" and r: "nurl_wa_arena granted need h = (b, h')"
  shows "b = 0 \<and> h' = h \<and> (\<not> granted \<or> 4294967296 < mem_end h + need + 1114112) \<or>
    b \<noteq> 0 \<and> wa_core h' fs (wspan h' b # R) \<and> span_ok (wspan h' b) \<and> need \<le> bsize h' b \<and> same_rest {b} (h\<lparr>wa_pages := wa_pages h'\<rparr>) h' \<and>
      b = mem_end h \<and> b + bsize h' b = mem_end h' \<and> wa_pages h \<le> wa_pages h'"
proof -
  note c = wa_coreD [OF core]
  define want where "want = (if need < NURL_WA_CHUNK then NURL_WA_CHUNK else need)"
  define pages where "pages = (want + 65535) div 65536"
  have w: "want \<le> 0xF0000010" "need \<le> want" using need by (auto simp: want_def NURL_WA_CHUNK_def)
  have "pages * 65536 \<le> want + 65535" "want + 65535 < pages * 65536 + 65536"
    using dividend_less_div_times [of 65536 "want + 65535"] by (simp_all add: pages_def)
  moreover have "want \<le> need + 1048576" by (simp add: want_def NURL_WA_CHUNK_def)
  ultimately have pg: "want \<le> pages * 65536" "pages \<le> 61442" "0 < pages" "pages * 65536 < need + 1114112" using w need by linarith+
  have ar: "nurl_wa_arena granted need h = (if granted \<and> wa_pages h + pages \<le> 65536
      then (w32 (wa_pages h * 65536), blk_upd (w32 (wa_pages h * 65536)) (\<lambda>k. \<lparr>blk_size = w32 (pages * 65536), blk_free = 0, blk_next = 0\<rparr>)
        (h\<lparr>wa_pages := wa_pages h + pages\<rparr>)) else (0, h))"
    using w by (simp add: nurl_wa_arena_def memory_grow_def Let_def pages_def want_def [symmetric])
  show ?thesis
  proof (cases "granted \<and> wa_pages h + pages \<le> 65536")
    case False
    then have "b = 0 \<and> h' = h" "\<not> granted \<or> 65536 < wa_pages h + pages" using ar r by auto
    moreover have "4294967296 < mem_end h + need + 1114112" if "65536 < wa_pages h + pages"
    proof -
      have "65536 * 65536 < mem_end h + pages * 65536" using that by (simp add: mem_end_def)
      then show ?thesis using pg(4) by linarith
    qed
    ultimately show ?thesis by blast
  next
    case True
    have b: "b = mem_end h" "b \<noteq> 0" "h' = blk_upd b (\<lambda>k. \<lparr>blk_size = pages * 65536, blk_free = 0, blk_next = 0\<rparr>) (h\<lparr>wa_pages := wa_pages h + pages\<rparr>)"
      using ar r True pg c(7) by (auto simp: mem_end_def)
    have nb: "b \<notin> set fs" using c(4) b(1) by (force simp: inside_def wspan_def)
    have ins: "inside h x \<Longrightarrow> inside h' x" for x using b(3) by (auto simp: inside_def mem_end_def)
    have wb: "wspan h' b = (b, pages * 65536)" using b(3) by (simp add: wspan_def)
    have ap: "inside h x \<Longrightarrow> apart (wspan h' b) x" "inside h x \<Longrightarrow> apart x (wspan h' b)" for x using b(1) wb by (auto simp: inside_def apart_def)
    have "wa_seg h' (wa_free_list h') fs 0" using c(1) nb wa_seg_cong [of fs h' h] b(3) by auto
    moreover have wf: "map (wspan h') fs = map (wspan h) fs" using nb b(3) by (auto simp: wspan_def)
    moreover have "inside h' (wspan h' b)" using b pg wb by (auto simp: inside_def mem_end_def)
    moreover have "\<forall>d \<in> set fs. bfree h' d = 1" using c(3) nb b(3) by auto
    moreover have "wa_pages h' \<le> 65536" "0 < wa_pages h'" using True c(7) b(3) by auto
    ultimately have "wa_core h' fs (wspan h' b # R)" using c(2,4-6) ins ap unfolding wa_core_def wf by auto
    moreover have "span_ok (wspan h' b)" using b(1,2) wb pg by (auto simp: span_ok_def mem_end_def)
    moreover have "need \<le> bsize h' b" "b + bsize h' b = mem_end h'" using w(2) pg wb b by (auto simp: wspan_def mem_end_def)
    ultimately show ?thesis using b by (auto simp: same_rest_def)
  qed
qed

lemma split_ok:
  assumes core: "wa_core h fs (wspan h b # R)" and ok: "span_ok (wspan h b)" and need: "need \<le> bsize h b" "16 dvd need" "32 \<le> need" "need \<le> 0xF0000010"
  obtains h' fs' where "wa_split b need h = Some h'" "wa_core h' fs' (wspan h' b # R)" "need \<le> bsize h' b" "bsize h' b < need + 32" "16 dvd bsize h' b"
    "same_rest (set fs \<union> {b..<b + bsize h b}) h h'" "bytes_of (map (wspan h') fs') + bsize h' b = bytes_of (map (wspan h) fs) + bsize h b"
proof (cases "need + 32 \<le> bsize h b")
  case False
  then have "wa_split b need h = Some h" using need by (simp add: wa_split_def NURL_WA_HDR_def NURL_WA_ALIGN_def)
  then show ?thesis using that [of h fs] core need False ok by (auto simp: same_rest_def span_ok_def wspan_def)
next
  case True
  note c = wa_coreD [OF core]
  let ?r = "b + need"
  let ?h1 = "blk_upd ?r (\<lambda>k. \<lparr>blk_size = bsize h b - need, blk_free = 0, blk_next = 0\<rparr>) h"
  let ?h = "blk_upd b (\<lambda>k. k\<lparr>blk_size := need\<rparr>) ?h1"
  have e: "inside h (wspan h b)" using c(6) by simp
  then have be: "b + bsize h b \<le> 4294967296" using mem_end_max [OF core] by (simp add: inside_def wspan_def)
  have b0: "0 < b" "16 dvd b" "16 dvd bsize h b" using ok by (auto simp: span_ok_def wspan_def)
  have s: "wa_split b need h = nurl_wa_insert ?r ?h" using True need be b0(1) by (simp add: wa_split_def NURL_WA_HDR_def NURL_WA_ALIGN_def Let_def)
  have ap: "apart (wspan h d) (wspan h b)" "inside h (wspan h d)" if "d \<in> set fs" for d using c(4) that by auto
  have out: "d \<notin> {b..<b + bsize h b}" if "d \<in> set fs" for d using ap [OF that] by (auto simp: apart_def wspan_def inside_def)
  have nf: "b \<notin> set fs" "?r \<notin> set fs" using out [of b] out [of ?r] True need by auto
  have w: "wspan ?h ?r = (?r, bsize h b - need)" "wspan ?h b = (b, need)" using need by (auto simp: wspan_def)
  have wf: "map (wspan ?h) fs = map (wspan h) fs" using nf by (auto simp: wspan_def)
  have in_eq: "inside ?h = inside h" by (auto simp: inside_def mem_end_def)
  have sub: "apart x (?r, bsize h b - need) \<and> apart x (b, need)" if "apart x (wspan h b)" for x using that True by (auto simp: apart_def wspan_def)
  have sub2: "apart (?r, bsize h b - need) x \<and> apart (b, need) x" if "apart (wspan h b) x" for x using that True by (auto simp: apart_def wspan_def)
  have "wa_core ?h fs (wspan h b # R)" by (rule core_frame [OF core]) (use nf in auto)
  then have "wa_core ?h fs (wspan ?h ?r # wspan ?h b # R)"
    unfolding wa_core_def wf in_eq w using sub sub2 True need e by (auto simp: inside_def wspan_def apart_def [of "(?r, _)" "(b, _)"])
  moreover have "span_ok (wspan ?h ?r)" unfolding w using True need b0 by (auto simp: span_ok_def)
  ultimately obtain h' fs' where h': "nurl_wa_insert ?r ?h = Some h'" "wa_core h' fs' (wspan ?h b # R)" "same_rest (set (?r # fs)) ?h h'"
    "set fs' \<subseteq> set (?r # fs)" "bytes_of (map (wspan h') fs') = bytes_of (map (wspan ?h) fs) + bsize ?h ?r" by (elim insert_ok)
  have hb: "blk_at h' b = blk_at ?h b" using h'(3) nf need by (auto simp: same_rest_def)
  then have wb: "wspan h' b = wspan ?h b" by (simp add: wspan_def)
  have "same_rest (set fs \<union> {b..<b + bsize h b}) h h'" using h'(3) True need by (auto simp: same_rest_def)
  moreover have "bytes_of (map (wspan h') fs') + bsize h' b = bytes_of (map (wspan h) fs) + bsize h b"
    using h'(5) wf hb need True w by (simp add: wspan_def)
  ultimately show ?thesis using that [of h' fs'] s h'(1,2) wb hb need by simp
qed


section \<open>Allocation and release\<close>

text \<open>\<open>L\<close> are the blocks in use, by their headers, \<open>X\<close> the spans left behind by aligned allocation, and \<open>p0\<close> the pages there were at first: the
  memory obtained since is the free blocks, the blocks in use and what was left behind.\<close>

definition wa_ok :: "nat \<Rightarrow> wa_heap \<Rightarrow> nat list \<Rightarrow> span list \<Rightarrow> bool" where
  "wa_ok p0 h L X \<longleftrightarrow> (\<exists>fs. wa_core h fs (map (wspan h) L @ X) \<and> (\<forall>b \<in> set L. bfree h b = 0 \<and> span_ok (wspan h b)) \<and> 0 < p0 \<and> p0 \<le> wa_pages h \<and>
    bytes_of (map (wspan h) fs) + bytes_of (map (wspan h) L) + bytes_of X = (wa_pages h - p0) * 65536)"

lemma core_live:
  assumes "wa_core h fs (map (wspan h) L @ X)" "c \<in> set L"
  shows "c \<notin> set fs"
  using core_apart [OF assms(1), of c "bsize h c"] assms(2) by (simp add: wspan_def)

lemma fit_cases:
  assumes "wa_core h fs R" "0 < need"
  shows "wa_fit need h LHead = Some (link_of (takeWhile (\<lambda>c. bsize h c < need) fs))"
    "wa_get (link_of (takeWhile (\<lambda>c. bsize h c < need) fs)) h = (case dropWhile (\<lambda>c. bsize h c < need) fs of [] \<Rightarrow> 0 | b # _ \<Rightarrow> b)"
proof -
  let ?pre = "takeWhile (\<lambda>c. bsize h c < need) fs" and ?post = "dropWhile (\<lambda>c. bsize h c < need) fs"
  have s: "wa_seg h (wa_free_list h) (?pre @ ?post) 0" using wa_coreD(1) [OF assms(1)] by simp
  have p: "\<forall>x \<in> set ?pre. bsize h x < need" "?post \<noteq> [] \<longrightarrow> need \<le> bsize h (hd ?post)"
    using hd_dropWhile [of "\<lambda>c. bsize h c < need" fs] by (auto dest: set_takeWhileD simp only: not_less)
  show "wa_fit need h LHead = Some (link_of ?pre)" using fit_ok [of h LHead ?pre ?post need] s p by (auto simp: link_of_def)
  show "wa_get (link_of ?pre) h = (case ?post of [] \<Rightarrow> 0 | b # _ \<Rightarrow> b)" using link_get [OF s] by (cases ?post) (simp_all only: wa_seg.simps list.case)
qed

text \<open>A block for the request, off the list or out of new memory, before it is split.\<close>

lemma find_block:
  assumes core: "wa_core h fs R" and need: "32 \<le> need" "need \<le> 0xF0000010"
    and f: "(if wa_get (link_of (takeWhile (\<lambda>c. bsize h c < need) fs)) h \<noteq> 0
      then (wa_get (link_of (takeWhile (\<lambda>c. bsize h c < need) fs)) h,
        wa_put (link_of (takeWhile (\<lambda>c. bsize h c < need) fs)) (bnext h (wa_get (link_of (takeWhile (\<lambda>c. bsize h c < need) fs)) h)) h)
      else nurl_wa_arena granted need h) = (b, h1)"
  shows "b = 0 \<and> h1 = h \<and> (\<not> granted \<or> 4294967296 < mem_end h + need + 1114112) \<or>
    b \<noteq> 0 \<and> (\<exists>fs1. wa_core h1 fs1 (wspan h1 b # R) \<and> span_ok (wspan h1 b) \<and> need \<le> bsize h1 b \<and> set fs1 \<subseteq> set fs \<and> wa_bytes h1 = wa_bytes h \<and>
      (\<forall>c. c \<notin> set fs \<longrightarrow> c < mem_end h \<longrightarrow> blk_at h1 c = blk_at h c) \<and> wa_pages h \<le> wa_pages h1 \<and>
      bytes_of (map (wspan h1) fs1) + bsize h1 b + wa_pages h * 65536 = bytes_of (map (wspan h) fs) + wa_pages h1 * 65536)"
proof -
  define pre where "pre = takeWhile (\<lambda>c. bsize h c < need) fs"
  have "0 < need" using need by simp
  note f = f [folded pre_def] and get = fit_cases(2) [OF core this, folded pre_def]
  note c = wa_coreD [OF core]
  show ?thesis
  proof (cases "dropWhile (\<lambda>c. bsize h c < need) fs")
    case Nil
    have "wa_get (link_of pre) h = 0" unfolding get Nil by simp
    then have "nurl_wa_arena granted need h = (b, h1)" using f by simp
    then consider "b = 0" "h1 = h" "\<not> granted \<or> 4294967296 < mem_end h + need + 1114112"
      | "b \<noteq> 0" "wa_core h1 fs (wspan h1 b # R)" "span_ok (wspan h1 b)" "need \<le> bsize h1 b" "same_rest {b} (h\<lparr>wa_pages := wa_pages h1\<rparr>) h1"
        "b = mem_end h" "b + bsize h1 b = mem_end h1" "wa_pages h \<le> wa_pages h1"
      using arena_ok [OF core need] by blast
    then show ?thesis
    proof cases
      case 2
      have "b \<notin> set fs" using core_apart [OF 2(2), of b "bsize h1 b"] by (simp add: wspan_def)
      then have w: "map (wspan h1) fs = map (wspan h) fs" using 2(5) by (auto simp: same_rest_def wspan_def)
      have "bsize h1 b + wa_pages h * 65536 = wa_pages h1 * 65536" using 2(6,7) by (simp add: mem_end_def)
      then have "bytes_of (map (wspan h1) fs) + bsize h1 b + wa_pages h * 65536 = bytes_of (map (wspan h) fs) + wa_pages h1 * 65536"
        unfolding w by (simp only: add.assoc)
      then show ?thesis using 2 by (intro disjI2 conjI exI [of _ fs]) (auto simp: same_rest_def)
    qed simp
  next
    case (Cons d post)
    have fs: "fs = pre @ d # post" unfolding pre_def Cons [symmetric] by simp
    have d0: "d \<noteq> 0" using c(1) fs by (auto simp: wa_seg_append)
    have "wa_get (link_of pre) h = d" unfolding get Cons by simp
    then have b: "b = d" "h1 = wa_put (link_of pre) (bnext h d) h" using f d0 by auto
    have "need \<le> bsize h d" using hd_dropWhile [of "\<lambda>c. bsize h c < need" fs] Cons by simp
    moreover have w: "wspan h1 = wspan h" unfolding b(2) by (rule ext) (simp add: wspan_def)
    moreover have "wa_core h1 (pre @ post) (wspan h d # R)" unfolding b(2) by (rule take_out) (use core fs in simp)
    moreover have "span_ok (wspan h d)" using c(4) fs by simp
    moreover have "blk_at h1 e = blk_at h e" if "e \<notin> set fs" for e using that fs b(2) by (cases pre rule: rev_cases) (auto simp: link_of_def)
    moreover have "bytes_of (map (wspan h) (pre @ post)) + bsize h d = bytes_of (map (wspan h) fs)" using fs by (simp add: wspan_def)
    moreover have "bsize h1 d = bsize h d" "wa_bytes h1 = wa_bytes h" "wa_pages h1 = wa_pages h" unfolding b(2) by simp_all
    moreover have "set (pre @ post) \<subseteq> set fs" using fs by auto
    ultimately show ?thesis using d0 unfolding b(1) w by (intro disjI2 conjI exI [of _ "pre @ post"]) simp_all
  qed
qed

lemma alloc_ok:
  assumes ok: "wa_ok p0 h L X" and n: "n < 4294967296"
  obtains p h' where "nurl_wa_alloc granted n h = Some (p, h')"
    "p = 0 \<and> h' = h \<and> (0xF0000000 < n \<or> \<not> granted \<or> 4294967296 < mem_end h + n + 1114145) \<or>
     (\<exists>b. p = b + 16 \<and> wa_ok p0 h' (b # L) X \<and> n + 16 \<le> bsize h' b \<and> 16 dvd b \<and> b \<notin> set L \<and> (\<forall>c \<in> set L. blk_at h' c = blk_at h c) \<and> wa_bytes h' = wa_bytes h)"
proof -
  obtain fs where core: "wa_core h fs (map (wspan h) L @ X)" and live: "\<forall>b \<in> set L. bfree h b = 0 \<and> span_ok (wspan h b)" and p0: "0 < p0" "p0 \<le> wa_pages h"
    and tot: "bytes_of (map (wspan h) fs) + bytes_of (map (wspan h) L) + bytes_of X = (wa_pages h - p0) * 65536"
    using ok unfolding wa_ok_def by blast
  define m where "m = (if n = 0 then 1 else n)"
  show ?thesis
  proof (cases "m > 0xF0000000")
    case True
    then have "nurl_wa_alloc granted n h = Some (0, h)" "0xF0000000 < n" by (auto simp: nurl_wa_alloc_def m_def split: if_splits)
    then show ?thesis using that by blast
  next
    case False
    define need where "need = nurl_wa_round m + 16"
    have rd: "m \<le> nurl_wa_round m" "nurl_wa_round m < m + 16" "16 dvd nurl_wa_round m" using wa_round_ok [of m] False by auto
    have m0: "0 < m" "n \<le> m" "m \<le> n + 1" by (auto simp: m_def)
    have r16: "16 \<le> nurl_wa_round m" using rd m0 by (auto simp: dvd_def)
    have need: "32 \<le> need" "need \<le> 0xF0000010" "16 dvd need" "n + 16 \<le> need" "need \<le> n + 32"
      using rd r16 m0 False by (auto simp: need_def)
    let ?l = "link_of (takeWhile (\<lambda>c. bsize h c < need) fs)"
    obtain b h1 where f: "(if wa_get ?l h \<noteq> 0 then (wa_get ?l h, wa_put ?l (bnext h (wa_get ?l h)) h) else nurl_wa_arena granted need h) = (b, h1)"
      by (rule prod.exhaust)
    have w: "w32 (nurl_wa_round m + NURL_WA_HDR) = need" "0 < need" using need by (simp_all add: need_def NURL_WA_HDR_def NURL_WA_ALIGN_def)
    have al: "nurl_wa_alloc granted n h = (if b = 0 then Some (0, h1)
        else do { h2 \<leftarrow> wa_split b need h1; Some (w32 (b + NURL_WA_HDR), blk_upd b (\<lambda>k. k\<lparr>blk_free := 0, blk_next := 0\<rparr>) h2) })"
      unfolding nurl_wa_alloc_def Let_def m_def [symmetric] w(1) fit_cases(1) [OF core w(2)] Option.bind.simps f prod.case using False by (simp only: if_False)
    from find_block [OF core need(1,2) f] show ?thesis
    proof
      assume "b = 0 \<and> h1 = h \<and> (\<not> granted \<or> 4294967296 < mem_end h + need + 1114112)"
      then show ?thesis using that [of 0 h] al need(5) by auto
    next
      assume "b \<noteq> 0 \<and> (\<exists>fs1. wa_core h1 fs1 (wspan h1 b # map (wspan h) L @ X) \<and> span_ok (wspan h1 b) \<and> need \<le> bsize h1 b \<and> set fs1 \<subseteq> set fs \<and> wa_bytes h1 = wa_bytes h \<and>
        (\<forall>c. c \<notin> set fs \<longrightarrow> c < mem_end h \<longrightarrow> blk_at h1 c = blk_at h c) \<and> wa_pages h \<le> wa_pages h1 \<and>
        bytes_of (map (wspan h1) fs1) + bsize h1 b + wa_pages h * 65536 = bytes_of (map (wspan h) fs) + wa_pages h1 * 65536)"
      then obtain fs1 where b0: "b \<noteq> 0" and f1: "wa_core h1 fs1 (wspan h1 b # map (wspan h) L @ X)" "span_ok (wspan h1 b)" "need \<le> bsize h1 b"
        "set fs1 \<subseteq> set fs" "wa_bytes h1 = wa_bytes h" "\<forall>c. c \<notin> set fs \<longrightarrow> c < mem_end h \<longrightarrow> blk_at h1 c = blk_at h c" "wa_pages h \<le> wa_pages h1"
        "bytes_of (map (wspan h1) fs1) + bsize h1 b + wa_pages h * 65536 = bytes_of (map (wspan h) fs) + wa_pages h1 * 65536" by blast
      obtain h2 fs2 where f2: "wa_split b need h1 = Some h2" "wa_core h2 fs2 (wspan h2 b # map (wspan h) L @ X)" "need \<le> bsize h2 b" "16 dvd bsize h2 b"
        "same_rest (set fs1 \<union> {b..<b + bsize h1 b}) h1 h2" "bytes_of (map (wspan h2) fs2) + bsize h2 b = bytes_of (map (wspan h1) fs1) + bsize h1 b"
        using split_ok [OF f1(1,2,3) need(3,1,2)] by metis
      let ?h = "blk_upd b (\<lambda>k. k\<lparr>blk_free := 0, blk_next := 0\<rparr>) h2"
      have live_same: "blk_at ?h c = blk_at h c" "c \<noteq> b" if "c \<in> set L" for c
      proof -
        have ci: "inside h (wspan h c)" "c \<notin> set fs" using wa_coreD(6) [OF core] core_live [OF core that] that by auto
        then have "blk_at h1 c = blk_at h c" using f1(6) by (auto simp: inside_def wspan_def)
        moreover have "apart (wspan h1 b) (wspan h c)" using wa_coreD(5) [OF f1(1)] that by auto
        then have "c \<notin> {b..<b + bsize h1 b}" using ci(1) by (auto simp: apart_def wspan_def inside_def)
        moreover have "b \<in> {b..<b + bsize h1 b}" using f1(3) need(1) by auto
        ultimately show "blk_at ?h c = blk_at h c" "c \<noteq> b" using f2(5) ci(2) f1(4) by (auto simp: same_rest_def)
      qed
      have wl: "map (wspan ?h) L = map (wspan h) L" using live_same by (simp add: wspan_def)
      have wb: "wspan ?h b = wspan h2 b" by (simp add: wspan_def)
      have nb: "b \<notin> set fs2" using core_apart [OF f2(2), of b "bsize h2 b"] by (simp add: wspan_def)
      have wf: "map (wspan ?h) fs2 = map (wspan h2) fs2" using nb by (simp add: wspan_def)
      have "wa_core ?h fs2 (wspan h2 b # map (wspan h) L @ X)" by (rule core_frame [OF f2(2)]) (use nb in auto)
      then have c': "wa_core ?h fs2 (map (wspan ?h) (b # L) @ X)" by (simp only: list.map wl wb append_Cons)
      have in_b: "inside h2 (wspan h2 b)" using wa_coreD(6) [OF f2(2)] by simp
      then have "b + 16 < 4294967296" using mem_end_max [OF f2(2)] need(1) f2(3) by (simp add: inside_def wspan_def)
      then have "nurl_wa_alloc granted n h = Some (b + 16, ?h)" using al b0 f2(1) by (simp add: NURL_WA_HDR_def NURL_WA_ALIGN_def)
      moreover have pages: "wa_pages ?h = wa_pages h1" using f2(5) by (simp add: same_rest_def)
      have "bytes_of (map (wspan ?h) fs2) + bytes_of (map (wspan ?h) (b # L)) + bytes_of X + wa_pages h * 65536 = (wa_pages h - p0) * 65536 + wa_pages h1 * 65536"
        using f2(6) f1(8) tot unfolding wf wl list.map wb by (simp add: wspan_def)
      then have "bytes_of (map (wspan ?h) fs2) + bytes_of (map (wspan ?h) (b # L)) + bytes_of X = (wa_pages ?h - p0) * 65536"
        using p0 f1(7) unfolding pages by (simp add: diff_mult_distrib)
      moreover have "span_ok (wspan ?h b)" "16 dvd b" using f1(2) f2(3,4) need(1) unfolding wb by (auto simp: span_ok_def wspan_def)
      moreover have "\<forall>c \<in> set L. bfree ?h c = 0 \<and> span_ok (wspan ?h c)" using live live_same by (simp add: wspan_def)
      moreover have "p0 \<le> wa_pages ?h" using p0 f1(7) pages by simp
      moreover have "n + 16 \<le> bsize ?h b" "wa_bytes ?h = wa_bytes h" using need(4) f2(3,5) f1(5) by (simp_all add: same_rest_def)
      ultimately show ?thesis using that [of "b + 16" ?h] c' live_same p0(1) unfolding wa_ok_def by fastforce
    qed
  qed
qed


lemma core_front:
  assumes "wa_core h fs (A @ x # B)"
  shows "wa_core h fs (x # A @ B)"
proof -
  have "sorted_wrt apart (x # A @ B)" using wa_coreD(5) [OF assms] by (auto simp: sorted_wrt_append intro: apart_sym)
  then show ?thesis using assms by (auto simp: wa_core_def)
qed

lemma free_ok:
  assumes ok: "wa_ok p0 h L X" and b: "b \<in> set L"
  obtains h' where "wa_free (b + 16) h = Some h'" "wa_ok p0 h' (remove1 b L) X" "wa_bytes h' = wa_bytes h" "\<forall>c \<in> set (remove1 b L). blk_at h' c = blk_at h c"
proof -
  obtain fs where core: "wa_core h fs (map (wspan h) L @ X)" and live: "\<forall>b \<in> set L. bfree h b = 0 \<and> span_ok (wspan h b)" and p0: "0 < p0" "p0 \<le> wa_pages h"
    and tot: "bytes_of (map (wspan h) fs) + bytes_of (map (wspan h) L) + bytes_of X = (wa_pages h - p0) * 65536"
    using ok unfolding wa_ok_def by blast
  obtain xs ys where L: "L = xs @ b # ys" "b \<notin> set xs" using split_list_first [OF b] by auto
  have r: "remove1 b L = xs @ ys" using L by (simp add: remove1_append)
  have core': "wa_core h fs (wspan h b # map (wspan h) (xs @ ys) @ X)"
    using core_front [of h fs "map (wspan h) xs" "wspan h b" "map (wspan h) ys @ X"] core L by simp
  obtain h' fs' where h': "nurl_wa_insert b h = Some h'" "wa_core h' fs' (map (wspan h) (xs @ ys) @ X)" "same_rest (set (b # fs)) h h'"
    "bytes_of (map (wspan h') fs') = bytes_of (map (wspan h) fs) + bsize h b"
    using insert_ok [OF core'] live b by metis
  have same: "blk_at h' c = blk_at h c" if "c \<in> set (xs @ ys)" for c
  proof -
    have "apart (wspan h b) (wspan h c)" "inside h (wspan h c)" using wa_coreD(5,6) [OF core'] that by auto
    then have "c \<noteq> b" by (auto simp: apart_def inside_def wspan_def)
    moreover have "c \<notin> set fs" using core_live [OF core] that L by auto
    ultimately show ?thesis using h'(3) by (simp add: same_rest_def)
  qed
  have w: "map (wspan h') (xs @ ys) = map (wspan h) (xs @ ys)" using same by (auto simp: wspan_def)
  have "wa_core h' fs' (map (wspan h') (xs @ ys) @ X)" using h'(2) unfolding w .
  moreover have "\<forall>c \<in> set (xs @ ys). bfree h' c = 0 \<and> span_ok (wspan h' c)" using live same L by (auto simp: wspan_def)
  moreover have "wa_pages h' = wa_pages h" "wa_bytes h' = wa_bytes h" using h'(3) by (simp_all add: same_rest_def)
  moreover have "bytes_of (map (wspan h') fs') + bytes_of (map (wspan h') (xs @ ys)) + bytes_of X = (wa_pages h - p0) * 65536"
    unfolding w h'(4) using tot L(1) by (simp add: wspan_def)
  ultimately have "wa_ok p0 h' (xs @ ys) X" using p0 unfolding wa_ok_def by auto
  moreover have "wa_free (b + 16) h = Some h'"
  proof -
    have "inside h (wspan h b)" using wa_coreD(6) [OF core] b by simp
    then have "b + 16 < 4294967296" using mem_end_max [OF core] live b by (auto simp: inside_def wspan_def span_ok_def)
    then show ?thesis using h'(1) live b by (simp add: wa_free_def NURL_WA_HDR_def NURL_WA_ALIGN_def Let_def)
  qed
  ultimately show ?thesis using that [of h'] same h'(3) unfolding r by (simp add: same_rest_def)
qed


section \<open>Reallocation and alignment\<close>

lemma ok_bytes: "wa_ok p0 h L X \<Longrightarrow> wa_ok p0 (h\<lparr>wa_bytes := f\<rparr>) L X"
proof -
  assume "wa_ok p0 h L X"
  then obtain fs where core: "wa_core h fs (map (wspan h) L @ X)" and live: "\<forall>b \<in> set L. bfree h b = 0 \<and> span_ok (wspan h b)" and p0: "0 < p0" "p0 \<le> wa_pages h"
    and tot: "bytes_of (map (wspan h) fs) + bytes_of (map (wspan h) L) + bytes_of X = (wa_pages h - p0) * 65536" unfolding wa_ok_def by blast
  have w: "wspan (h\<lparr>wa_bytes := f\<rparr>) = wspan h" by (rule ext) (simp add: wspan_def)
  have "wa_core (h\<lparr>wa_bytes := f\<rparr>) fs (map (wspan h) L @ X)" by (rule core_frame [OF core]) simp_all
  then show ?thesis unfolding wa_ok_def w using live p0 tot by auto
qed

lemma ok_in_use: "wa_ok p0 h L X \<Longrightarrow> b \<in> set L \<Longrightarrow> 0 < b \<and> 32 \<le> bsize h b \<and> 16 dvd b \<and> 16 dvd bsize h b \<and> b + bsize h b \<le> mem_end h \<and> mem_end h \<le> 4294967296"
proof -
  assume "wa_ok p0 h L X" "b \<in> set L"
  then obtain fs where core: "wa_core h fs (map (wspan h) L @ X)" "span_ok (wspan h b)" unfolding wa_ok_def by blast
  moreover have "inside h (wspan h b)" using wa_coreD(6) [OF core(1)] \<open>b \<in> set L\<close> by simp
  ultimately show ?thesis using mem_end_max [OF core(1)] by (simp add: span_ok_def wspan_def inside_def)
qed

lemma realloc_ok:
  assumes ok: "wa_ok p0 h L X" and b: "b \<in> set L" and n: "0 < n" "n < 4294967296"
  obtains q h' where "wa_realloc granted (b + 16) n h = Some (q, h')"
    "q = b + 16 \<and> h' = h \<and> n + 16 \<le> bsize h b \<or> q = 0 \<and> h' = h \<or>
     (\<exists>c. q = c + 16 \<and> wa_ok p0 h' (remove1 b (c # L)) X \<and> c \<noteq> b \<and> n + 16 \<le> bsize h' c \<and>
       (\<forall>i < bsize h b - 16. wa_bytes h' (q + i) = wa_bytes h (b + 16 + i)) \<and> (\<forall>a. a \<notin> {q..<q + n} \<longrightarrow> wa_bytes h' a = wa_bytes h a))"
proof -
  note bl = ok_in_use [OF ok b]
  define k where "k = bsize h b - 16"
  have w: "wsub (bsize h (wsub (b + 16) NURL_WA_HDR)) NURL_WA_HDR = k" using bl by (simp add: NURL_WA_HDR_def NURL_WA_ALIGN_def k_def)
  show ?thesis
  proof (cases "n \<le> k")
    case True
    then have "wa_realloc granted (b + 16) n h = Some (b + 16, h)" unfolding wa_realloc_def w Let_def using n by simp
    then show ?thesis using that True bl by (auto simp: k_def)
  next
    case False
    obtain q h1 where m: "nurl_wa_alloc granted n h = Some (q, h1)"
      "q = 0 \<and> h1 = h \<and> (0xF0000000 < n \<or> \<not> granted \<or> 4294967296 < mem_end h + n + 1114145) \<or>
       (\<exists>c. q = c + 16 \<and> wa_ok p0 h1 (c # L) X \<and> n + 16 \<le> bsize h1 c \<and> 16 dvd c \<and> c \<notin> set L \<and> (\<forall>d \<in> set L. blk_at h1 d = blk_at h d) \<and> wa_bytes h1 = wa_bytes h)"
      using alloc_ok [OF ok n(2)] by metis
    let ?h = "h1\<lparr>wa_bytes := (\<lambda>a. if q \<le> a \<and> a < q + k then wa_bytes h1 (b + 16 + (a - q)) else wa_bytes h1 a)\<rparr>"
    have re: "wa_realloc granted (b + 16) n h = (if q = 0 then Some (0, h1) else do { h2 \<leftarrow> wa_free (b + 16) ?h; Some (q, h2) })"
      unfolding wa_realloc_def w Let_def wa_malloc_def m(1) using n False by simp
    from m(2) show ?thesis
    proof
      assume "q = 0 \<and> h1 = h \<and> (0xF0000000 < n \<or> \<not> granted \<or> 4294967296 < mem_end h + n + 1114145)"
      then show ?thesis using that [of 0 h] re by simp
    next
      assume "\<exists>c. q = c + 16 \<and> wa_ok p0 h1 (c # L) X \<and> n + 16 \<le> bsize h1 c \<and> 16 dvd c \<and> c \<notin> set L \<and> (\<forall>d \<in> set L. blk_at h1 d = blk_at h d) \<and> wa_bytes h1 = wa_bytes h"
      then obtain c where c: "q = c + 16" "wa_ok p0 h1 (c # L) X" "n + 16 \<le> bsize h1 c" "c \<notin> set L" "wa_bytes h1 = wa_bytes h" by blast
      have cb: "c \<noteq> b" using c(4) b by auto
      obtain h2 where f: "wa_free (b + 16) ?h = Some h2" "wa_ok p0 h2 (remove1 b (c # L)) X" "wa_bytes h2 = wa_bytes ?h" "\<forall>d \<in> set (remove1 b (c # L)). blk_at h2 d = blk_at ?h d"
        by (rule free_ok [OF ok_bytes [OF c(2)] list.set_intros(2) [OF b]])
      have "blk_at h2 c = blk_at h1 c" using f(4) cb by simp
      then have "n + 16 \<le> bsize h2 c" using c(3) by simp
      moreover have "\<forall>i < bsize h b - 16. wa_bytes h2 (q + i) = wa_bytes h (b + 16 + i)" "\<forall>a. a \<notin> {q..<q + n} \<longrightarrow> wa_bytes h2 a = wa_bytes h a"
        using f(3) c(5) False by (auto simp: k_def)
      ultimately show ?thesis using that [of q h2] re c(1) f(1,2) cb by auto
    qed
  qed
qed

lemma align_down:
  fixes align x raw :: nat
  assumes "align = 2 ^ k" "16 < align" "16 dvd raw" "x = (raw + (align + 16)) div align * align"
  shows "raw + 32 \<le> x" "x \<le> raw + (align + 16)" "align dvd x" "16 dvd x"
proof -
  have "\<not> k \<le> 4" using power_increasing [of k 4 "2 :: nat"] assms(1,2) by auto
  then have "2 ^ 4 dvd align" unfolding assms(1) by (intro le_imp_power_dvd) simp
  then show x: "x \<le> raw + (align + 16)" "align dvd x" "16 dvd x" using assms(4) by (simp_all add: dvd_mult)
  have "raw + (align + 16) < x + align" using dividend_less_div_times [of align "raw + (align + 16)"] assms(2,4) by simp
  then have "raw + 16 < x" by simp
  moreover obtain i j where "x = 16 * i" "raw = 16 * j" using x(3) assms(3) by (auto simp: dvd_def)
  moreover from calculation have "j + 1 < i" by linarith
  ultimately show "raw + 32 \<le> x" by linarith
qed

lemma core_carve:
  assumes "wa_core h fs ((b, n) # A @ X)" "0 < m" "m < n"
  shows "wa_core h fs ((b + m, n - m) # A @ (b, m) # X)"
proof -
  note c = wa_coreD [OF assms(1)]
  have i: "inside h (b + m, n - m)" "inside h (b, m)" using c(6) assms(2,3) by (auto simp: inside_def)
  have s: "apart (b, n) y \<Longrightarrow> apart (b + m, n - m) y \<and> apart (b, m) y" "apart y (b, n) \<Longrightarrow> apart y (b + m, n - m) \<and> apart y (b, m)" for y
    using assms(3) by (auto simp: apart_def)
  have t: "apart (b + m, n - m) (b, m)" by (simp add: apart_def)
  have "sorted_wrt apart ((b + m, n - m) # A @ (b, m) # X)" using c(5) s t by (auto simp: sorted_wrt_append intro: apart_sym)
  then show ?thesis using assms(1) i s unfolding wa_core_def by auto
qed

lemma aligned_ok:
  assumes ok: "wa_ok p0 h L X" and al: "align = 2 ^ k" "16 < align" and n: "0 < n" "n + align + 16 < 4294967296"
  obtains p h' where "wa_aligned_alloc granted align n h = Some (p, h')"
    "p = 0 \<and> h' = h \<or> (\<exists>b m. p = b + 16 + m \<and> 0 < m \<and> align dvd p \<and> wa_ok p0 h' ((b + m) # L) ((b, m) # X) \<and> n + 16 \<le> bsize h' (b + m) \<and>
      (\<forall>c \<in> set L. blk_at h' c = blk_at h c) \<and> wa_bytes h' = wa_bytes h)"
proof -
  define extra where "extra = align + 16"
  have ex: "w32 (align + NURL_WA_HDR) = extra" "w32 (n + extra) = n + extra" using n by (simp_all add: extra_def NURL_WA_HDR_def NURL_WA_ALIGN_def)
  have na: "\<not> align \<le> NURL_WA_ALIGN" using al(2) by (simp add: NURL_WA_ALIGN_def)
  have "n + extra < 4294967296" using n by (simp add: extra_def)
  then obtain raw h1 where m: "nurl_wa_alloc granted (n + extra) h = Some (raw, h1)"
    "raw = 0 \<and> h1 = h \<and> (0xF0000000 < n + extra \<or> \<not> granted \<or> 4294967296 < mem_end h + (n + extra) + 1114145) \<or>
     (\<exists>b. raw = b + 16 \<and> wa_ok p0 h1 (b # L) X \<and> n + extra + 16 \<le> bsize h1 b \<and> 16 dvd b \<and> b \<notin> set L \<and> (\<forall>d \<in> set L. blk_at h1 d = blk_at h d) \<and> wa_bytes h1 = wa_bytes h)"
    using alloc_ok [OF ok, of "n + extra"] by metis
  from m(2) show ?thesis
  proof
    assume "raw = 0 \<and> h1 = h \<and> (0xF0000000 < n + extra \<or> \<not> granted \<or> 4294967296 < mem_end h + (n + extra) + 1114145)"
    then show ?thesis using that [of 0 h] m(1) na by (simp add: wa_aligned_alloc_def wa_malloc_def ex)
  next
    assume "\<exists>b. raw = b + 16 \<and> wa_ok p0 h1 (b # L) X \<and> n + extra + 16 \<le> bsize h1 b \<and> 16 dvd b \<and> b \<notin> set L \<and> (\<forall>d \<in> set L. blk_at h1 d = blk_at h d) \<and> wa_bytes h1 = wa_bytes h"
    then obtain b where b: "raw = b + 16" "wa_ok p0 h1 (b # L) X" "n + extra + 16 \<le> bsize h1 b" "16 dvd b" "\<forall>d \<in> set L. blk_at h1 d = blk_at h d" "wa_bytes h1 = wa_bytes h"
      by blast
    note bl = ok_in_use [OF b(2) list.set_intros(1)]
    define x where "x = (raw + extra) div align * align"
    have "16 dvd raw" using b(1,4) by simp
    note x = align_down [OF al this x_def [unfolded extra_def], folded extra_def]
    define q where "q = x - raw"
    have q: "x = b + 16 + q" "16 < q" "q \<le> extra" "16 dvd q" using x b(1) \<open>16 dvd raw\<close> by (auto simp: q_def)
    have re: "raw + extra < 4294967296" using bl b(1,3) n(1) by simp
    let ?h = "blk_upd (b + q) (\<lambda>k. \<lparr>blk_size = bsize h1 b - q, blk_free = 0, blk_next = 0\<rparr>) h1"
    have wa: "wsub align 1 = 2 ^ k - 1" using al n by simp
    have "wclear (raw + extra) (wsub align 1) = x" unfolding wa wclear_pow [OF re] x_def by (simp add: al(1))
    moreover have "wsub raw 16 = b" "wsub x 16 = b + q" "wsub x raw = q" "wsub (bsize h1 b) q = bsize h1 b - q"
      using q b(1,3) bl re x(2) by (simp_all add: extra_def)
    ultimately have r: "wa_aligned_alloc granted align n h = Some (x, ?h)"
      unfolding wa_aligned_alloc_def Let_def ex wa_malloc_def m(1) Option.bind.simps prod.case using na b(1) by (simp add: NURL_WA_HDR_def NURL_WA_ALIGN_def)
    obtain fs where core: "wa_core h1 fs (map (wspan h1) (b # L) @ X)" and live: "\<forall>c \<in> set (b # L). bfree h1 c = 0 \<and> span_ok (wspan h1 c)"
      and p0: "0 < p0" "p0 \<le> wa_pages h1"
      and tot: "bytes_of (map (wspan h1) fs) + bytes_of (map (wspan h1) (b # L)) + bytes_of X = (wa_pages h1 - p0) * 65536"
      using b(2) unfolding wa_ok_def by blast
    have "wa_core h1 fs ((b, bsize h1 b) # map (wspan h1) L @ X)" using core by (simp add: wspan_def)
    from core_carve [OF this, of q] have carved: "wa_core h1 fs ((b + q, bsize h1 b - q) # map (wspan h1) L @ (b, q) # X)" using q b(3) by simp
    have nf: "b + q \<notin> set fs" by (rule core_apart [OF carved list.set_intros(1)])
    have nl: "b + q \<notin> set L"
    proof
      assume "b + q \<in> set L"
      then have "apart (b + q, bsize h1 b - q) (wspan h1 (b + q))" "inside h1 (wspan h1 (b + q))" using wa_coreD(5,6) [OF carved] by auto
      then show False using q b(3) by (auto simp: apart_def wspan_def inside_def)
    qed
    have wl: "map (wspan ?h) L = map (wspan h1) L" and wf: "map (wspan ?h) fs = map (wspan h1) fs" and wb: "wspan ?h (b + q) = (b + q, bsize h1 b - q)"
      using nl nf by (auto simp: wspan_def)
    have "wa_core ?h fs ((b + q, bsize h1 b - q) # map (wspan h1) L @ (b, q) # X)" by (rule core_frame [OF carved]) (use nf in auto)
    then have "wa_core ?h fs (map (wspan ?h) ((b + q) # L) @ (b, q) # X)" by (simp only: list.map wl wb append_Cons)
    moreover have "\<forall>c \<in> set ((b + q) # L). bfree ?h c = 0 \<and> span_ok (wspan ?h c)"
    proof -
      have "16 dvd bsize h1 b - q" "n + 16 \<le> bsize h1 b - q" using q b(3) bl by simp_all
      then have "32 \<le> bsize h1 b - q" using n(1) by (auto simp: dvd_def)
      then have "span_ok (wspan ?h (b + q))" unfolding wb using q bl \<open>16 dvd bsize h1 b - q\<close> by (simp add: span_ok_def)
      then show ?thesis using live nl by (auto simp: wspan_def)
    qed
    moreover have "bytes_of (map (wspan ?h) fs) + bytes_of (map (wspan ?h) ((b + q) # L)) + bytes_of ((b, q) # X) = (wa_pages ?h - p0) * 65536"
      using tot q b(3) unfolding wf wl list.map wb by (simp add: wspan_def)
    ultimately have "wa_ok p0 ?h ((b + q) # L) ((b, q) # X)" using p0 unfolding wa_ok_def by auto
    moreover have "n + 16 \<le> bsize ?h (b + q)" "\<forall>c \<in> set L. blk_at ?h c = blk_at h c" using q b(3,5) nl by auto
    moreover have "x = b + 16 + q" "0 < q" "wa_bytes ?h = wa_bytes h" using q b(6) by simp_all
    ultimately show ?thesis using that [OF r] x(3) by blast
  qed
qed


lemma calloc_ok:
  assumes ok: "wa_ok p0 h L X" and n: "n < 4294967296" "m < 4294967296"
  obtains p h' where "wa_calloc granted n m h = Some (p, h')"
    "p = 0 \<and> h' = h \<or> (\<exists>b. p = b + 16 \<and> wa_ok p0 h' (b # L) X \<and> n * m + 16 \<le> bsize h' b \<and>
      (\<forall>a. wa_bytes h' a = (if p \<le> a \<and> a < p + n * m then 0 else wa_bytes h a)))"
proof (cases "n * m < 4294967296")
  case False
  have "w32 (n * m) < 4294967296" by (simp add: w32_def)
  then have "w32 (n * m) < n * m" using False by simp
  then have "w32 (n * m) div n < m" by (simp add: less_mult_imp_div_less mult.commute)
  moreover have "n \<noteq> 0" using False by (cases n) auto
  ultimately have "wa_calloc granted n m h = Some (0, h)" by (simp add: wa_calloc_def Let_def)
  then show ?thesis using that by blast
next
  case True
  then have t: "w32 (n * m) = n * m" "\<not> (n \<noteq> 0 \<and> n * m div n \<noteq> m)" by auto
  obtain p h1 where m: "nurl_wa_alloc granted (n * m) h = Some (p, h1)"
    "p = 0 \<and> h1 = h \<and> (0xF0000000 < n * m \<or> \<not> granted \<or> 4294967296 < mem_end h + n * m + 1114145) \<or>
     (\<exists>b. p = b + 16 \<and> wa_ok p0 h1 (b # L) X \<and> n * m + 16 \<le> bsize h1 b \<and> 16 dvd b \<and> b \<notin> set L \<and> (\<forall>d \<in> set L. blk_at h1 d = blk_at h d) \<and> wa_bytes h1 = wa_bytes h)"
    by (rule alloc_ok [OF ok True])
  let ?h = "h1\<lparr>wa_bytes := (\<lambda>a. if p \<le> a \<and> a < p + n * m then 0 else wa_bytes h1 a)\<rparr>"
  have r: "wa_calloc granted n m h = Some (p, if p \<noteq> 0 then ?h else h1)"
    unfolding wa_calloc_def Let_def t(1) wa_malloc_def m(1) Option.bind.simps prod.case using t(2) by (simp only: if_False)
  have "p = 0 \<and> (if p \<noteq> 0 then ?h else h1) = h \<or> (\<exists>b. p = b + 16 \<and> wa_ok p0 (if p \<noteq> 0 then ?h else h1) (b # L) X \<and> n * m + 16 \<le> bsize (if p \<noteq> 0 then ?h else h1) b \<and>
      (\<forall>a. wa_bytes (if p \<noteq> 0 then ?h else h1) a = (if p \<le> a \<and> a < p + n * m then 0 else wa_bytes h a)))"
    using m(2) ok_bytes by auto
  then show ?thesis using that [OF r] by blast
qed

text \<open>C38. The heap of a threaded WebAssembly program: whatever is allocated and freed, the blocks in use, with their headers, never overlap and lie in the
  memory obtained. malloc returns an aligned block of at least the size asked, apart from all others, and fails only for a request that is too
  large or when memory does not grow; free takes back its block and joins it with the free blocks it touches; realloc keeps the contents; nothing
  touches the header or the bytes of another block, and free, used and left behind add up to the memory obtained. An aligned block is
  aligned and large enough, but the bytes before it are left behind for good.\<close>

theorem wasm_heap_safe:
  assumes "wa_ok p0 h L X"
  shows "sorted_wrt apart (map (wspan h) L @ X) \<and> (\<forall>x \<in> set (map (wspan h) L @ X). send x \<le> mem_end h) \<and>
    (n < 2 ^ 32 \<longrightarrow> (\<exists>p h'. wa_malloc granted n h = Some (p, h') \<and>
      (p = 0 \<and> h' = h \<and> (0xF0000000 < n \<or> \<not> granted \<or> 2 ^ 32 < mem_end h + n + 1114145) \<or>
       (\<exists>b. p = b + 16 \<and> 16 dvd b \<and> wa_ok p0 h' (b # L) X \<and> n + 16 \<le> bsize h' b \<and> (\<forall>c \<in> set L. blk_at h' c = blk_at h c) \<and> wa_bytes h' = wa_bytes h)))) \<and>
    (b \<in> set L \<longrightarrow> (\<exists>h'. wa_free (b + 16) h = Some h' \<and> wa_ok p0 h' (remove1 b L) X \<and> wa_bytes h' = wa_bytes h \<and>
      (\<forall>c \<in> set (remove1 b L). blk_at h' c = blk_at h c))) \<and>
    (b \<in> set L \<and> 0 < n \<and> n < 2 ^ 32 \<longrightarrow> (\<exists>q h'. wa_realloc granted (b + 16) n h = Some (q, h') \<and>
      (q = b + 16 \<and> h' = h \<and> n + 16 \<le> bsize h b \<or> q = 0 \<and> h' = h \<or>
       (\<exists>c. q = c + 16 \<and> wa_ok p0 h' (remove1 b (c # L)) X \<and> n + 16 \<le> bsize h' c \<and>
         (\<forall>i < bsize h b - 16. wa_bytes h' (q + i) = wa_bytes h (b + 16 + i)) \<and> (\<forall>a. a \<notin> {q..<q + n} \<longrightarrow> wa_bytes h' a = wa_bytes h a))))) \<and>
    (4 < k \<and> 0 < n \<and> n + 2 ^ k + 16 < 2 ^ 32 \<longrightarrow> (\<exists>p h'. wa_aligned_alloc granted (2 ^ k) n h = Some (p, h') \<and>
      (p = 0 \<and> h' = h \<or> (\<exists>b m. p = b + 16 + m \<and> 0 < m \<and> 2 ^ k dvd p \<and> wa_ok p0 h' ((b + m) # L) ((b, m) # X) \<and> n + 16 \<le> bsize h' (b + m) \<and> wa_bytes h' = wa_bytes h))))"
proof (intro conjI impI)
  obtain fs where core: "wa_core h fs (map (wspan h) L @ X)" using assms unfolding wa_ok_def by blast
  show "sorted_wrt apart (map (wspan h) L @ X)" by (rule wa_coreD(5) [OF core])
  show "\<forall>x \<in> set (map (wspan h) L @ X). send x \<le> mem_end h" using wa_coreD(6) [OF core] by (simp add: inside_def)
  show "\<exists>p h'. wa_malloc granted n h = Some (p, h') \<and>
      (p = 0 \<and> h' = h \<and> (0xF0000000 < n \<or> \<not> granted \<or> 2 ^ 32 < mem_end h + n + 1114145) \<or>
       (\<exists>b. p = b + 16 \<and> 16 dvd b \<and> wa_ok p0 h' (b # L) X \<and> n + 16 \<le> bsize h' b \<and> (\<forall>c \<in> set L. blk_at h' c = blk_at h c) \<and> wa_bytes h' = wa_bytes h))" if "n < 2 ^ 32"
  proof -
    have "n < 4294967296" using that by simp
    then show ?thesis by (rule alloc_ok [OF assms, of _ granted]) (auto simp: wa_malloc_def)
  qed
  show "\<exists>h'. wa_free (b + 16) h = Some h' \<and> wa_ok p0 h' (remove1 b L) X \<and> wa_bytes h' = wa_bytes h \<and> (\<forall>c \<in> set (remove1 b L). blk_at h' c = blk_at h c)" if "b \<in> set L"
    by (rule free_ok [OF assms that]) blast
  show "\<exists>q h'. wa_realloc granted (b + 16) n h = Some (q, h') \<and>
      (q = b + 16 \<and> h' = h \<and> n + 16 \<le> bsize h b \<or> q = 0 \<and> h' = h \<or>
       (\<exists>c. q = c + 16 \<and> wa_ok p0 h' (remove1 b (c # L)) X \<and> n + 16 \<le> bsize h' c \<and>
         (\<forall>i < bsize h b - 16. wa_bytes h' (q + i) = wa_bytes h (b + 16 + i)) \<and> (\<forall>a. a \<notin> {q..<q + n} \<longrightarrow> wa_bytes h' a = wa_bytes h a)))"
    if "b \<in> set L \<and> 0 < n \<and> n < 2 ^ 32"
  proof -
    have r: "b \<in> set L" "0 < n" "n < 4294967296" using that by auto
    show ?thesis by (rule realloc_ok [OF assms r, of granted]) blast
  qed
  show "\<exists>p h'. wa_aligned_alloc granted (2 ^ k) n h = Some (p, h') \<and>
      (p = 0 \<and> h' = h \<or> (\<exists>b m. p = b + 16 + m \<and> 0 < m \<and> 2 ^ k dvd p \<and> wa_ok p0 h' ((b + m) # L) ((b, m) # X) \<and> n + 16 \<le> bsize h' (b + m) \<and> wa_bytes h' = wa_bytes h))"
    if "4 < k \<and> 0 < n \<and> n + 2 ^ k + 16 < 2 ^ 32"
  proof -
    have "(2 :: nat) ^ 5 \<le> 2 ^ k" using that by (intro power_increasing) auto
    then have r: "16 < (2 :: nat) ^ k" "0 < n" "n + 2 ^ k + 16 < 4294967296" using that by auto
    show ?thesis by (rule aligned_ok [OF assms refl r, of granted]) blast
  qed
qed

definition wa_fresh :: wa_heap where
  "wa_fresh = \<lparr>blk_at = (\<lambda>_. \<lparr>blk_size = 0, blk_free = 0, blk_next = 0\<rparr>), wa_free_list = 0, wa_bytes = (\<lambda>_. 0), wa_pages = 2\<rparr>"

lemma wa_fresh_ok: "wa_ok 2 wa_fresh [] []"
  unfolding wa_ok_def by (rule exI [of _ "[]"]) (simp add: wa_core_def wa_fresh_def spaced_def)

theorem wasm_heap_safe_witness:
  "\<exists>b h'. wa_malloc True 100 wa_fresh = Some (b + 16, h') \<and> wa_ok 2 h' [b] [] \<and> 116 \<le> bsize h' b"
  using wasm_heap_safe [OF wa_fresh_ok, of 100 True 0 0] by (auto simp: wa_fresh_def mem_end_def)

end
