(* ===== verification/TimerHeap.thy ===== *)
theory TimerHeap
  imports Prelude "HOL-Library.Monad_Syntax"
begin

text \<open>
  The timer heap of the netpoller (\<^verbatim>\<open>src/stdlib/runtime_ffi.c\<close>): a binary heap of waits by deadline in a growing array, in which every wait
  records its own position. All of it runs under the netpoller's lock.

  A wait is named by a number, and its fields are functions of it; so is the fiber it belongs to. Positions are far below the range of an \<open>int\<close>.
  The waits for one descriptor are the list of their names, and so is a batch of waits to wake, the latest first.
\<close>

section \<open>State and operations\<close>

record np_heap =
  np_arr :: "nat list"
  heap_len :: nat
  deadline_ms :: "nat \<Rightarrow> int"
  heap_idx :: "nat \<Rightarrow> int"
  wt_fd :: "nat \<Rightarrow> int"
  wt_result :: "nat \<Rightarrow> int"
  mutex_park :: "nat \<Rightarrow> bool"
  wt_fiber :: "nat \<Rightarrow> nat option"
  timed_park :: "nat \<Rightarrow> nat option"
  np_chain :: "int \<Rightarrow> nat list"

definition nurl__np_heap_place :: "nat \<Rightarrow> nat \<Rightarrow> np_heap \<Rightarrow> np_heap" where
  "nurl__np_heap_place w i s = s\<lparr>np_arr := (np_arr s)[i := w], heap_idx := (heap_idx s)(w := int i)\<rparr>"

text \<open>The exchange of two entries that both loops do.\<close>

definition np_swap :: "nat \<Rightarrow> nat \<Rightarrow> np_heap \<Rightarrow> np_heap" where
  "np_swap i m s = (let t = np_arr s ! m in nurl__np_heap_place t i (nurl__np_heap_place (np_arr s ! i) m s))"

definition np_key :: "np_heap \<Rightarrow> nat \<Rightarrow> int" where
  "np_key s i = deadline_ms s (np_arr s ! i)"

fun nurl__np_heap_up :: "nat \<Rightarrow> np_heap \<Rightarrow> np_heap" where
  "nurl__np_heap_up i s =
    (if i > 0
     then let p = (i - 1) div 2 in
       if np_key s p \<le> np_key s i then s else nurl__np_heap_up p (np_swap i p s)
     else s)"

declare nurl__np_heap_up.simps [simp del]

text \<open>The smallest of an entry and its children.\<close>

definition np_least :: "nat \<Rightarrow> np_heap \<Rightarrow> nat" where
  "np_least i s =
    (let l = 2 * i + 1; r = l + 1;
         m = (if l < heap_len s \<and> np_key s l < np_key s i then l else i)
     in if r < heap_len s \<and> np_key s r < np_key s m then r else m)"

lemma np_swap_len [simp]: "heap_len (np_swap i m s) = heap_len s" "deadline_ms (np_swap i m s) = deadline_ms s" "length (np_arr (np_swap i m s)) = length (np_arr s)"
  by (simp_all add: np_swap_def nurl__np_heap_place_def Let_def)

lemma np_least_cases: "np_least i s = i \<or> np_least i s \<in> {2 * i + 1, 2 * i + 2} \<and> np_least i s < heap_len s"
  by (auto simp: np_least_def Let_def)

function nurl__np_heap_down :: "nat \<Rightarrow> np_heap \<Rightarrow> np_heap" where
  "nurl__np_heap_down i s = (let m = np_least i s in if m = i then s else nurl__np_heap_down m (np_swap i m s))"
  by pat_completeness auto
termination
proof (relation "measure (\<lambda>(i, s). heap_len s - i)")
  fix i :: nat and s m assume m: "m = np_least i s" "m \<noteq> i"
  then have "i < m" "m < heap_len s" using np_least_cases [of i s] by auto
  then show "((m, np_swap i m s), i, s) \<in> measure (\<lambda>(i, s). heap_len s - i)" by simp
qed simp

declare nurl__np_heap_down.simps [simp del]

text \<open>A full array is doubled by \<open>realloc\<close>, which may fail; the new places hold anything.\<close>

definition np_grow :: "bool \<Rightarrow> np_heap \<Rightarrow> np_heap option" where
  "np_grow granted s =
    (if heap_len s = length (np_arr s)
     then let nc = (if length (np_arr s) \<noteq> 0 then length (np_arr s) * 2 else 64) in
       if granted then Some (s\<lparr>np_arr := np_arr s @ replicate (nc - length (np_arr s)) 0\<rparr>) else None
     else Some s)"

definition nurl__np_heap_push :: "bool \<Rightarrow> nat \<Rightarrow> np_heap \<Rightarrow> np_heap" where
  "nurl__np_heap_push granted w s = (case np_grow granted s of
     None \<Rightarrow> s
   | Some s \<Rightarrow> let s = nurl__np_heap_place w (heap_len s) (s\<lparr>heap_len := heap_len s + 1\<rparr>) in nurl__np_heap_up (nat (heap_idx s w)) s)"

definition nurl__np_heap_remove :: "nat \<Rightarrow> np_heap \<Rightarrow> np_heap" where
  "nurl__np_heap_remove w s =
    (let i = heap_idx s w in
     if i < 0 then s
     else let s = s\<lparr>heap_idx := (heap_idx s)(w := -1)\<rparr>; last = heap_len s - 1; s = s\<lparr>heap_len := last\<rparr> in
       if nat i = last then s
       else nurl__np_heap_up (nat i) (nurl__np_heap_down (nat i) (nurl__np_heap_place (np_arr s ! last) (nat i) s)))"

text \<open>A descriptor without a slot has no waits.\<close>

definition nurl__np_chain_remove :: "nat \<Rightarrow> np_heap \<Rightarrow> np_heap" where
  "nurl__np_chain_remove w s = s\<lparr>np_chain := (np_chain s)(wt_fd s w := remove1 w (np_chain s (wt_fd s w)))\<rparr>"

definition np_time_out :: "nat \<Rightarrow> np_heap \<Rightarrow> np_heap" where
  "np_time_out w s =
    (let s = nurl__np_heap_remove w s;
         s = (if wt_fd s w \<ge> 0 then nurl__np_chain_remove w s else s);
         s = (if mutex_park s w then (case wt_fiber s w of None \<Rightarrow> s | Some f \<Rightarrow> s\<lparr>timed_park := (timed_park s)(f := None)\<rparr>) else s)
     in s\<lparr>wt_result := (wt_result s)(w := 0)\<rparr>)"

partial_function (option) nurl__np_expire_locked :: "int \<Rightarrow> nat list \<Rightarrow> np_heap \<Rightarrow> (nat list \<times> np_heap) option" where
  "nurl__np_expire_locked now batch s =
    (if heap_len s > 0 \<and> np_key s 0 \<le> now
     then nurl__np_expire_locked now (np_arr s ! 0 # batch) (np_time_out (np_arr s ! 0) s)
     else Some (batch, s))"

section \<open>Order and positions\<close>

definition par :: "nat \<Rightarrow> nat" where "par i = (i - 1) div 2"

lemma par_less [simp]: "0 < i \<Longrightarrow> par i < i"
  by (simp add: par_def)

lemma par_child: "0 < j \<Longrightarrow> par j = i \<longleftrightarrow> j = 2 * i + 1 \<or> j = 2 * i + 2"
  by (auto simp: par_def)

definition np_members :: "np_heap \<Rightarrow> nat set" where "np_members s = {w. 0 \<le> heap_idx s w}"

definition np_idx_ok :: "np_heap \<Rightarrow> bool" where
  "np_idx_ok s \<longleftrightarrow> heap_len s \<le> length (np_arr s) \<and> (\<forall>j < heap_len s. heap_idx s (np_arr s ! j) = int j) \<and>
    (\<forall>w \<in> np_members s. nat (heap_idx s w) < heap_len s \<and> np_arr s ! nat (heap_idx s w) = w)"

text \<open>The order of a heap, except between an entry and its parent or its children; a child of the entry is still ordered against the entry's parent.\<close>

definition np_below :: "np_heap \<Rightarrow> nat \<Rightarrow> bool" where
  "np_below s j \<longleftrightarrow> j = 0 \<or> np_key s (par j) \<le> np_key s j"

definition np_ordered :: "np_heap \<Rightarrow> bool" where
  "np_ordered s \<longleftrightarrow> (\<forall>j < heap_len s. np_below s j)"

definition np_gap :: "np_heap \<Rightarrow> nat \<Rightarrow> bool" where
  "np_gap s i \<longleftrightarrow> i < heap_len s \<and> (\<forall>j < heap_len s. 0 < j \<and> par j = i \<and> 0 < i \<longrightarrow> np_key s (par i) \<le> np_key s j)"

definition np_up_ok :: "np_heap \<Rightarrow> nat \<Rightarrow> bool" where
  "np_up_ok s i \<longleftrightarrow> np_gap s i \<and> (\<forall>j < heap_len s. j \<noteq> i \<longrightarrow> np_below s j)"

definition np_down_ok :: "np_heap \<Rightarrow> nat \<Rightarrow> bool" where
  "np_down_ok s i \<longleftrightarrow> np_gap s i \<and> (\<forall>j < heap_len s. j \<noteq> i \<and> (0 < j \<longrightarrow> par j \<noteq> i) \<longrightarrow> np_below s j)"

lemma swap_arr:
  "i < length (np_arr s) \<Longrightarrow> m < length (np_arr s) \<Longrightarrow> np_key (np_swap i m s) j = (if j = i then np_key s m else if j = m then np_key s i else np_key s j)"
  by (simp add: np_key_def np_swap_def nurl__np_heap_place_def Let_def nth_list_update)

lemma swap_idx:
  assumes "np_idx_ok s" "i < heap_len s" "m < heap_len s" "i \<noteq> m"
  shows "np_idx_ok (np_swap i m s)" "np_members (np_swap i m s) = np_members s"
proof -
  let ?a = "np_arr s ! i" and ?b = "np_arr s ! m"
  note ok = assms(1) [unfolded np_idx_ok_def]
  have ab: "heap_idx s ?a = int i" "heap_idx s ?b = int m" using ok assms(2,3) by auto
  then have ne: "?a \<noteq> ?b" using assms(4) by auto
  have arr: "np_arr (np_swap i m s) = (np_arr s)[m := ?a, i := ?b]" and idx: "heap_idx (np_swap i m s) = (heap_idx s)(?a := int m, ?b := int i)"
    by (simp_all add: np_swap_def nurl__np_heap_place_def Let_def)
  show mem: "np_members (np_swap i m s) = np_members s" using ab by (auto simp: np_members_def idx)
  have l: "i < length (np_arr s)" "m < length (np_arr s)" using ok assms(2,3) by auto
  have "heap_idx (np_swap i m s) (np_arr (np_swap i m s) ! j) = int j" if "j < heap_len s" for j
  proof -
    have hj: "heap_idx s (np_arr s ! j) = int j" using ok that by auto
    show ?thesis unfolding arr idx using l hj ab ne that by (auto simp: nth_list_update)
  qed
  moreover have "nat (heap_idx (np_swap i m s) w) < heap_len s \<and> np_arr (np_swap i m s) ! nat (heap_idx (np_swap i m s) w) = w" if "w \<in> np_members s" for w
  proof -
    have "nat (heap_idx s w) < heap_len s" "np_arr s ! nat (heap_idx s w) = w" using ok that by auto
    then show ?thesis unfolding arr idx using l assms(2-4) ab by (cases "nat (heap_idx s w) = i"; cases "nat (heap_idx s w) = m") (auto simp: nth_list_update)
  qed
  ultimately show "np_idx_ok (np_swap i m s)" using ok mem unfolding np_idx_ok_def by simp
qed

lemma up_swap:
  assumes "np_up_ok s i" "0 < i" "heap_len s \<le> length (np_arr s)" "\<not> np_key s (par i) \<le> np_key s i"
  shows "np_up_ok (np_swap i (par i) s) (par i)"
proof -
  have g: "i < heap_len s" "\<And>j. j < heap_len s \<Longrightarrow> 0 < j \<Longrightarrow> par j = i \<Longrightarrow> np_key s (par i) \<le> np_key s j" "\<And>j. j < heap_len s \<Longrightarrow> j \<noteq> i \<Longrightarrow> np_below s j"
    using assms(1,2) by (auto simp: np_up_ok_def np_gap_def)
  have p: "par i < i" using assms(2) by auto
  have k: "np_key (np_swap i (par i) s) j = (if j = i then np_key s (par i) else if j = par i then np_key s i else np_key s j)" for j
    by (rule swap_arr) (use g(1) p assms(3) in auto)
  have "np_gap (np_swap i (par i) s) (par i)"
    unfolding np_gap_def
  proof (intro conjI allI impI)
    show "par i < heap_len (np_swap i (par i) s)" using g(1) p by simp
    fix j assume j: "j < heap_len (np_swap i (par i) s)" "0 < j \<and> par j = par i \<and> 0 < par i"
    have "np_below s (par i)" using g(3) [of "par i"] g(1) p by auto
    then have q: "np_key s (par (par i)) \<le> np_key s (par i)" using j by (simp add: np_below_def)
    have "par (par i) < par i" using j by simp
    then have "par (par i) \<noteq> par i" "par (par i) \<noteq> i" using p by auto
    then show "np_key (np_swap i (par i) s) (par (par i)) \<le> np_key (np_swap i (par i) s) j"
      using q g(3) [of j] j p unfolding k by (auto simp: np_below_def)
  qed
  moreover have "np_below (np_swap i (par i) s) j" if j: "j < heap_len s" "j \<noteq> par i" for j
  proof (cases "j = i \<or> j = 0")
    case True
    then show ?thesis using assms(4) p unfolding np_below_def k by auto
  next
    case False
    then show ?thesis using g(2,3) [of j] j assms(4) p unfolding np_below_def k by auto
  qed
  ultimately show ?thesis by (simp add: np_up_ok_def)
qed


lemma np_ordered_up: "np_ordered s \<Longrightarrow> i < heap_len s \<Longrightarrow> np_up_ok s i"
proof -
  assume o: "np_ordered s" "i < heap_len s"
  have "np_key s (par i) \<le> np_key s j" if "j < heap_len s" "0 < j \<and> par j = i \<and> 0 < i" for j
    using o that unfolding np_ordered_def np_below_def by (metis order_trans not_gr_zero)
  then show ?thesis using o by (auto simp: np_up_ok_def np_gap_def np_ordered_def)
qed

text \<open>What no loop changes.\<close>

definition np_same :: "np_heap \<Rightarrow> np_heap \<Rightarrow> bool" where
  "np_same s s' \<longleftrightarrow> np_idx_ok s' \<and> np_members s' = np_members s \<and> heap_len s' = heap_len s \<and> deadline_ms s' = deadline_ms s \<and>
    wt_fd s' = wt_fd s \<and> wt_result s' = wt_result s \<and> mutex_park s' = mutex_park s \<and> wt_fiber s' = wt_fiber s \<and> timed_park s' = timed_park s \<and> np_chain s' = np_chain s"

lemma np_same_swap: "np_idx_ok s \<Longrightarrow> i < heap_len s \<Longrightarrow> m < heap_len s \<Longrightarrow> i \<noteq> m \<Longrightarrow> np_same s (np_swap i m s)"
  using swap_idx by (simp add: np_same_def) (simp add: np_swap_def nurl__np_heap_place_def Let_def)

lemma np_same_refl: "np_idx_ok s \<Longrightarrow> np_same s s"
  by (simp add: np_same_def)

lemma np_same_trans: "np_same s s' \<Longrightarrow> np_same s' s'' \<Longrightarrow> np_same s s''"
  by (simp add: np_same_def)

lemma heap_up_ok:
  assumes "np_idx_ok s" "np_up_ok s i"
  shows "np_ordered (nurl__np_heap_up i s) \<and> np_same s (nurl__np_heap_up i s)"
  using assms
proof (induction i s rule: nurl__np_heap_up.induct)
  case (1 i s)
  have u: "nurl__np_heap_up i s = (if i > 0 \<and> \<not> np_key s (par i) \<le> np_key s i then nurl__np_heap_up (par i) (np_swap i (par i) s) else s)"
    by (subst nurl__np_heap_up.simps) (simp add: par_def Let_def)
  have il: "i < heap_len s" using 1(3) by (simp add: np_up_ok_def np_gap_def)
  show ?case
  proof (cases "i > 0 \<and> \<not> np_key s (par i) \<le> np_key s i")
    case True
    let ?s = "np_swap i (par i) s"
    have p: "par i < i" using True by simp
    have s: "np_same s ?s" by (rule np_same_swap [OF 1(2)]) (use il p in auto)
    then have "np_idx_ok ?s" by (simp add: np_same_def)
    moreover have "np_up_ok ?s (par i)" by (rule up_swap [OF 1(3)]) (use True 1(2) in \<open>auto simp: np_idx_ok_def\<close>)
    ultimately have "np_ordered (nurl__np_heap_up (par i) ?s) \<and> np_same ?s (nurl__np_heap_up (par i) ?s)"
      using 1(1) [of "par i"] True by (simp add: par_def)
    then show ?thesis unfolding u using True s np_same_trans by auto
  next
    case False
    then have "np_ordered s" using 1(3) unfolding np_ordered_def np_up_ok_def np_below_def by (metis not_gr_zero)
    then show ?thesis unfolding u using False np_same_refl [OF 1(2)] by auto
  qed
qed

lemma np_least_min:
  assumes "j < heap_len s" "0 < j" "par j = i"
  shows "np_key s (np_least i s) \<le> np_key s j" "np_key s (np_least i s) \<le> np_key s i"
  using assms(1,2) par_child [OF assms(2), of i] assms(3) by (auto simp: np_least_def Let_def)

lemma down_swap:
  assumes "np_down_ok s i" "heap_len s \<le> length (np_arr s)" "m = np_least i s" "m \<noteq> i"
  shows "np_down_ok (np_swap i m s) m \<and> np_below (np_swap i m s) m"
proof -
  have g: "i < heap_len s" "\<And>j. j < heap_len s \<Longrightarrow> 0 < j \<Longrightarrow> par j = i \<Longrightarrow> 0 < i \<Longrightarrow> np_key s (par i) \<le> np_key s j"
    "\<And>j. j < heap_len s \<Longrightarrow> j \<noteq> i \<Longrightarrow> (0 < j \<Longrightarrow> par j \<noteq> i) \<Longrightarrow> np_below s j"
    using assms(1) by (auto simp: np_down_ok_def np_gap_def)
  have m: "m < heap_len s" "0 < m" "par m = i" "i < m" using np_least_cases [of i s] assms(3,4) par_child [of m i] by auto
  have k: "np_key (np_swap i m s) j = (if j = i then np_key s m else if j = m then np_key s i else np_key s j)" for j
    by (rule swap_arr) (use g(1) m assms(2) in auto)
  have mi: "np_key s m \<le> np_key s i" "\<And>j. j < heap_len s \<Longrightarrow> 0 < j \<Longrightarrow> par j = i \<Longrightarrow> np_key s m \<le> np_key s j"
    using np_least_min [OF m(1-3)] np_least_min(1) [of _ s i] assms(3) by auto
  have gap: "np_gap (np_swap i m s) m" unfolding np_gap_def
  proof (intro conjI allI impI)
    fix j assume j: "j < heap_len (np_swap i m s)" "0 < j \<and> par j = m \<and> 0 < m"
    then have "np_below s j" "j \<noteq> i" "j \<noteq> m" using g(3) [of j] m par_less [of j] by auto
    then show "np_key (np_swap i m s) (par m) \<le> np_key (np_swap i m s) j" unfolding k m(3) using j by (simp add: np_below_def)
  qed (use m in simp)
  have rest: "np_below (np_swap i m s) j" if j: "j < heap_len s" "j \<noteq> m" "0 < j \<longrightarrow> par j \<noteq> m" for j
  proof (cases "j = 0 \<or> j = i")
    case True
    have "par i \<noteq> i \<and> par i \<noteq> m" if "0 < i" using par_less [OF that] m(4) by simp
    then show ?thesis using True g(2) [OF m(1-3)] m(4) unfolding np_below_def k by auto
  next
    case False
    then show ?thesis using g(3) [of j] mi(2) [of j] j unfolding np_below_def k by auto
  qed
  have "np_below (np_swap i m s) m" using mi(1) m unfolding np_below_def k by simp
  then show ?thesis using gap rest by (auto simp: np_down_ok_def)
qed

lemma heap_down_below:
  assumes "np_idx_ok s" "np_down_ok s i" "np_below s i"
  shows "np_ordered (nurl__np_heap_down i s) \<and> np_same s (nurl__np_heap_down i s)"
  using assms
proof (induction i s rule: nurl__np_heap_down.induct)
  case (1 i s)
  let ?m = "np_least i s"
  have il: "i < heap_len s" using 1(3) by (simp add: np_down_ok_def np_gap_def)
  show ?case
  proof (cases "?m = i")
    case True
    have "np_below s j" if "j < heap_len s" for j
      using that 1(3,4) np_least_min(1) [of j s i] True unfolding np_down_ok_def np_below_def by metis
    then show ?thesis using True np_same_refl [OF 1(2)] by (subst (1 2) nurl__np_heap_down.simps) (simp add: np_ordered_def)
  next
    case False
    have s: "np_same s (np_swap i ?m s)" by (rule np_same_swap [OF 1(2) il]) (use np_least_cases [of i s] False in auto)
    have "np_down_ok (np_swap i ?m s) ?m \<and> np_below (np_swap i ?m s) ?m" by (rule down_swap [OF 1(3) _ refl False]) (use 1(2) in \<open>simp add: np_idx_ok_def\<close>)
    then have "np_ordered (nurl__np_heap_down ?m (np_swap i ?m s)) \<and> np_same (np_swap i ?m s) (nurl__np_heap_down ?m (np_swap i ?m s))"
      using 1(1) [OF refl False] s by (simp add: np_same_def)
    then show ?thesis using False s np_same_trans by (subst (1 2) nurl__np_heap_down.simps) (auto simp: Let_def)
  qed
qed

text \<open>An entry that may be out of order both ways is put right by sinking and then rising from the same place.\<close>

lemma heap_fix_ok:
  assumes "np_idx_ok s" "np_down_ok s i"
  shows "np_ordered (nurl__np_heap_up i (nurl__np_heap_down i s)) \<and> np_same s (nurl__np_heap_up i (nurl__np_heap_down i s))"
proof -
  let ?m = "np_least i s" and ?d = "nurl__np_heap_down i s"
  have il: "i < heap_len s" using assms(2) by (simp add: np_down_ok_def np_gap_def)
  have "np_up_ok ?d i \<and> np_same s ?d"
  proof (cases "?m = i")
    case True
    have "np_below s j" if "j < heap_len s" "j \<noteq> i" for j
      using that assms(2) np_least_min(1) [of j s i] True unfolding np_down_ok_def np_below_def by metis
    then have "np_up_ok s i" using assms(2) by (simp add: np_up_ok_def np_down_ok_def)
    then show ?thesis using True np_same_refl [OF assms(1)] by (subst (1 2) nurl__np_heap_down.simps) simp
  next
    case False
    have s: "np_same s (np_swap i ?m s)" by (rule np_same_swap [OF assms(1) il]) (use np_least_cases [of i s] False in auto)
    have "np_down_ok (np_swap i ?m s) ?m" "np_below (np_swap i ?m s) ?m" using down_swap [OF assms(2) _ refl False] assms(1) by (auto simp: np_idx_ok_def)
    then have d: "np_ordered (nurl__np_heap_down ?m (np_swap i ?m s)) \<and> np_same (np_swap i ?m s) (nurl__np_heap_down ?m (np_swap i ?m s))"
      using heap_down_below s by (simp add: np_same_def)
    have e: "?d = nurl__np_heap_down ?m (np_swap i ?m s)" using False by (subst nurl__np_heap_down.simps) (simp add: Let_def)
    have same: "np_same s ?d" unfolding e using d s np_same_trans by blast
    then have "i < heap_len ?d" using il by (simp add: np_same_def)
    then show ?thesis using d same np_ordered_up unfolding e by blast
  qed
  then show ?thesis using heap_up_ok [of ?d i] np_same_trans by (auto simp: np_same_def)
qed


section \<open>Insertion, removal and expiry\<close>

definition np_ok :: "np_heap \<Rightarrow> bool" where "np_ok s \<longleftrightarrow> np_idx_ok s \<and> np_ordered s"

lemma np_ok_first:
  assumes "np_ok s" "j < heap_len s"
  shows "np_key s 0 \<le> np_key s j"
  using assms(2)
proof (induction j rule: less_induct)
  case (less j)
  show ?case
  proof (cases "j = 0")
    case False
    then have "np_key s (par j) \<le> np_key s j" using assms(1) less.prems unfolding np_ok_def np_ordered_def np_below_def by auto
    moreover have "np_key s 0 \<le> np_key s (par j)"
    proof (rule less.IH)
      show "par j < j" using False by simp
      then show "par j < heap_len s" using less.prems by linarith
    qed
    ultimately show ?thesis by simp
  qed simp
qed

lemma np_in_arr: "np_idx_ok s \<Longrightarrow> j < heap_len s \<Longrightarrow> np_arr s ! j \<in> np_members s"
  by (auto simp: np_idx_ok_def np_members_def)

lemma np_top: "np_ok s \<Longrightarrow> w \<in> np_members s \<Longrightarrow> 0 < heap_len s \<and> np_key s 0 \<le> deadline_ms s w"
proof -
  assume s: "np_ok s" "w \<in> np_members s"
  then have "nat (heap_idx s w) < heap_len s" "np_arr s ! nat (heap_idx s w) = w" by (auto simp: np_ok_def np_idx_ok_def)
  then show ?thesis using np_ok_first [OF s(1), of "nat (heap_idx s w)"] by (simp add: np_key_def)
qed

lemma np_grow_ok:
  assumes "np_ok s" "np_grow granted s = Some s'"
  shows "np_ok s'" "np_same s s'" "heap_len s' < length (np_arr s')"
proof -
  obtain xs where s': "s' = s\<lparr>np_arr := np_arr s @ xs\<rparr>" and l: "heap_len s < length (np_arr s @ xs)"
  proof (cases "heap_len s = length (np_arr s)")
    case True
    then show ?thesis using that assms(2) by (cases granted) (auto simp: np_grow_def Let_def)
  next
    case False
    then have "heap_len s < length (np_arr s)" using assms(1) by (simp add: np_ok_def np_idx_ok_def)
    then show ?thesis using that [of "[]"] assms(2) False by (simp add: np_grow_def)
  qed
  have le: "heap_len s \<le> length (np_arr s)" using assms(1) by (simp add: np_ok_def np_idx_ok_def)
  have n: "(np_arr s @ xs) ! j = np_arr s ! j" if "j < heap_len s" for j using that le by (simp add: nth_append)
  have m: "np_members s' = np_members s" by (simp add: s' np_members_def)
  have i: "np_idx_ok s'" using assms(1) n unfolding np_ok_def np_idx_ok_def m unfolding s' by auto
  have "par j < heap_len s" if "j < heap_len s" for j using that by (auto simp: par_def)
  then have "np_ordered s'" using assms(1) n unfolding np_ok_def np_ordered_def np_below_def np_key_def s' by simp
  then show "np_ok s'" "np_same s s'" using i m by (simp_all add: np_ok_def np_same_def s')
  show "heap_len s' < length (np_arr s')" using l by (simp add: s')
qed

lemma np_push_ok:
  assumes "np_ok s" "w \<notin> np_members s" "granted \<or> heap_len s < length (np_arr s)"
  shows "np_ok (nurl__np_heap_push granted w s)" "np_members (nurl__np_heap_push granted w s) = insert w (np_members s)"
    "deadline_ms (nurl__np_heap_push granted w s) = deadline_ms s"
proof -
  have "np_grow granted s \<noteq> None" using assms(3) by (auto simp: np_grow_def Let_def)
  then obtain s1 where g: "np_grow granted s = Some s1" by blast
  note s1 = np_grow_ok [OF assms(1) g]
  let ?n = "heap_len s1"
  let ?s = "nurl__np_heap_place w ?n (s1\<lparr>heap_len := ?n + 1\<rparr>)"
  have w: "w \<notin> np_members s1" using assms(2) s1(2) by (simp add: np_same_def)
  have f: "np_arr ?s = (np_arr s1)[?n := w]" "heap_idx ?s = (heap_idx s1)(w := int ?n)" "heap_len ?s = ?n + 1" "deadline_ms ?s = deadline_ms s1"
    by (simp_all add: nurl__np_heap_place_def)
  have m: "np_members ?s = insert w (np_members s1)" unfolding np_members_def f by auto
  have ok1: "np_idx_ok s1" "np_ordered s1" using s1(1) by (simp_all add: np_ok_def)
  have nw: "np_arr s1 ! j \<noteq> w" if "j < ?n" for j using np_in_arr [OF ok1(1) that] w by auto
  have i: "np_idx_ok ?s"
    unfolding np_idx_ok_def m unfolding f
  proof (intro conjI allI ballI impI)
    show "?n + 1 \<le> length ((np_arr s1)[?n := w])" using s1(3) by simp
    show "((heap_idx s1)(w := int ?n)) ((np_arr s1)[?n := w] ! j) = int j" if "j < ?n + 1" for j
      using that nw ok1(1) s1(3) by (cases "j = ?n") (auto simp: np_idx_ok_def)
    fix v assume v: "v \<in> insert w (np_members s1)"
    show "nat (((heap_idx s1)(w := int ?n)) v) < ?n + 1" "(np_arr s1)[?n := w] ! nat (((heap_idx s1)(w := int ?n)) v) = v"
      using v w ok1(1) s1(3) by (cases "v = w"; auto simp: np_idx_ok_def nth_list_update)+
  qed
  have k: "np_key ?s j = np_key s1 j" if "j < ?n" for j unfolding np_key_def f using that by simp
  have u: "np_up_ok ?s ?n"
  proof -
    have "np_below ?s j" if "j < ?n" for j
    proof -
      have "par j < ?n" using that by (auto simp: par_def)
      then show ?thesis using ok1(2) that k unfolding np_ordered_def np_below_def by auto
    qed
    moreover have "par j \<noteq> ?n" if "j < ?n + 1" "0 < j" for j using par_less [OF that(2)] that(1) by simp
    ultimately show ?thesis unfolding np_up_ok_def np_gap_def f(3) by (auto simp: less_Suc_eq)
  qed
  have p: "nurl__np_heap_push granted w s = nurl__np_heap_up ?n ?s" unfolding nurl__np_heap_push_def g option.case Let_def f by simp
  have r: "np_ordered (nurl__np_heap_up ?n ?s)" "np_same ?s (nurl__np_heap_up ?n ?s)" using heap_up_ok [OF i u] by auto
  show "np_ok (nurl__np_heap_push granted w s)" "np_members (nurl__np_heap_push granted w s) = insert w (np_members s)"
    unfolding p using r m s1(2) by (simp_all add: np_same_def np_ok_def)
  have "deadline_ms (nurl__np_heap_up ?n ?s) = deadline_ms ?s" "deadline_ms s1 = deadline_ms s" using r(2) s1(2) unfolding np_same_def by blast+
  then show "deadline_ms (nurl__np_heap_push granted w s) = deadline_ms s" unfolding p f by simp
qed

definition np_rest :: "np_heap \<Rightarrow> np_heap \<Rightarrow> bool" where
  "np_rest s s' \<longleftrightarrow> deadline_ms s' = deadline_ms s \<and> wt_fd s' = wt_fd s \<and> wt_result s' = wt_result s \<and> mutex_park s' = mutex_park s \<and>
    wt_fiber s' = wt_fiber s \<and> timed_park s' = timed_park s \<and> np_chain s' = np_chain s"

lemma np_remove_ok:
  assumes "np_ok s"
  shows "np_ok (nurl__np_heap_remove w s)" "np_members (nurl__np_heap_remove w s) = np_members s - {w}" "np_rest s (nurl__np_heap_remove w s)"
    "w \<in> np_members s \<Longrightarrow> heap_len (nurl__np_heap_remove w s) = heap_len s - 1"
proof -
  let ?r = "nurl__np_heap_remove w s"
  have ok: "np_idx_ok s" "np_ordered s" using assms by (simp_all add: np_ok_def)
  have "np_ok ?r \<and> np_members ?r = np_members s - {w} \<and> np_rest s ?r \<and> (w \<in> np_members s \<longrightarrow> heap_len ?r = heap_len s - 1)"
  proof (cases "w \<in> np_members s")
    case False
    then show ?thesis using assms by (simp add: nurl__np_heap_remove_def np_members_def np_rest_def)
  next
    case True
    define i where "i = nat (heap_idx s w)"
    have w: "i < heap_len s" "np_arr s ! i = w" "heap_idx s w = int i" using True ok(1) by (auto simp: i_def np_idx_ok_def np_members_def)
    let ?last = "heap_len s - 1"
    let ?s1 = "s\<lparr>heap_idx := (heap_idx s)(w := -1), heap_len := ?last\<rparr>"
    have r: "?r = (if i = ?last then ?s1 else nurl__np_heap_up i (nurl__np_heap_down i (nurl__np_heap_place (np_arr s ! ?last) i ?s1)))"
      using w by (simp add: nurl__np_heap_remove_def Let_def)
    have j: "np_arr s ! j \<noteq> w" if "j < heap_len s" "j \<noteq> i" for j using ok(1) that w by (auto simp: np_idx_ok_def)
    have u: "nat (heap_idx s u) < heap_len s" "np_arr s ! nat (heap_idx s u) = u" "nat (heap_idx s u) \<noteq> i" if "u \<in> np_members s - {w}" for u
      using ok(1) that w by (auto simp: np_idx_ok_def)
    have len: "heap_len s \<le> length (np_arr s)" using ok(1) by (simp add: np_idx_ok_def)
    have m1: "np_members ?s1 = np_members s - {w}" by (auto simp: np_members_def)
    show ?thesis
    proof (cases "i = ?last")
      case True
      have "np_idx_ok ?s1" unfolding np_idx_ok_def m1
      proof (intro conjI allI ballI impI)
        show "heap_len ?s1 \<le> length (np_arr ?s1)" using len by simp
        show "heap_idx ?s1 (np_arr ?s1 ! k) = int k" if "k < heap_len ?s1" for k using that j [of k] True ok(1) by (auto simp: np_idx_ok_def)
        fix v assume v: "v \<in> np_members s - {w}"
        show "nat (heap_idx ?s1 v) < heap_len ?s1" "np_arr ?s1 ! nat (heap_idx ?s1 v) = v" using u [OF v] v True by auto
      qed
      moreover have "np_ordered ?s1" using ok(2) unfolding np_ordered_def np_below_def np_key_def by simp
      ultimately show ?thesis unfolding r using True m1 by (simp add: np_ok_def np_rest_def)
    next
      case False
      let ?v = "np_arr s ! ?last"
      let ?s = "nurl__np_heap_place ?v i ?s1"
      have il: "i < ?last" "?last < heap_len s" using False w(1) by auto
      have v: "?v \<noteq> w" "heap_idx s ?v = int ?last" using j [of ?last] il ok(1) by (auto simp: np_idx_ok_def)
      have f: "np_arr ?s = (np_arr s)[i := ?v]" "heap_idx ?s = (heap_idx s)(w := -1, ?v := int i)" "heap_len ?s = ?last" "deadline_ms ?s = deadline_ms s"
        by (simp_all add: nurl__np_heap_place_def)
      have m: "np_members ?s = np_members s - {w}" unfolding np_members_def f using v by auto
      have "np_idx_ok ?s" unfolding np_idx_ok_def m unfolding f
      proof (intro conjI allI ballI impI)
        show "?last \<le> length ((np_arr s)[i := ?v])" using len by simp
        show "((heap_idx s)(w := -1, ?v := int i)) ((np_arr s)[i := ?v] ! k) = int k" if k: "k < ?last" for k
        proof (cases "k = i")
          case False
          have "heap_idx s (np_arr s ! k) = int k" using ok(1) k by (auto simp: np_idx_ok_def)
          then have "np_arr s ! k \<noteq> ?v" using v(2) k by auto
          then show ?thesis using False j [of k] k \<open>heap_idx s (np_arr s ! k) = int k\<close> by simp
        qed (use il len in simp)
        fix t assume t: "t \<in> np_members s - {w}"
        have "nat (heap_idx s t) \<noteq> ?last" if "t \<noteq> ?v" using u(2) [OF t] that by auto
        then have "nat (heap_idx s t) < ?last" if "t \<noteq> ?v" using u(1) [OF t] that by fastforce
        then show "nat (((heap_idx s)(w := -1, ?v := int i)) t) < ?last" "(np_arr s)[i := ?v] ! nat (((heap_idx s)(w := -1, ?v := int i)) t) = t"
          using u [OF t] t il len by (cases "t = ?v"; auto)+
      qed
      moreover have "np_down_ok ?s i"
      proof -
        have k: "np_key ?s c = np_key s c" if "c \<noteq> i" for c unfolding np_key_def f using that by simp
        have b: "np_key s (par c) \<le> np_key s c" if "c < heap_len s" "0 < c" for c using ok(2) that by (auto simp: np_ordered_def np_below_def)
        have "np_key ?s (par i) \<le> np_key ?s c" if c: "c < ?last" "0 < c" "par c = i" "0 < i" for c
        proof -
          have "np_key s (par i) \<le> np_key s i" "np_key s i \<le> np_key s c" using b [of i] b [of c] c w(1) by auto
          moreover have "par i \<noteq> i" "c \<noteq> i" using par_less [OF c(4)] par_less [OF c(2)] c(3) by linarith+
          ultimately show ?thesis using k [of "par i"] k [of c] by linarith
        qed
        moreover have "np_below ?s c" if "c < ?last" "c \<noteq> i" "0 < c \<longrightarrow> par c \<noteq> i" for c
        proof (cases "c = 0")
          case False
          then show ?thesis using b [of c] k [of c] k [of "par c"] that unfolding np_below_def by linarith
        qed (simp add: np_below_def)
        ultimately show ?thesis unfolding np_down_ok_def np_gap_def f(3) using il by auto
      qed
      ultimately have fx: "np_ordered (nurl__np_heap_up i (nurl__np_heap_down i ?s))" "np_same ?s (nurl__np_heap_up i (nurl__np_heap_down i ?s))"
        using heap_fix_ok by blast+
      have "np_rest s ?s" by (simp add: np_rest_def nurl__np_heap_place_def)
      then show ?thesis unfolding r using False fx m f(3) by (simp add: np_ok_def np_same_def np_rest_def)
    qed
  qed
  then show "np_ok ?r" "np_members ?r = np_members s - {w}" "np_rest s ?r" "w \<in> np_members s \<Longrightarrow> heap_len ?r = heap_len s - 1" by auto
qed


text \<open>A wait that times out leaves the heap, the list of its descriptor and its fiber.\<close>

lemma np_time_out_ok:
  assumes "np_ok s"
  shows "np_ok (np_time_out w s)" "np_members (np_time_out w s) = np_members s - {w}" "deadline_ms (np_time_out w s) = deadline_ms s"
    "wt_result (np_time_out w s) = (wt_result s)(w := 0)" "w \<in> np_members s \<Longrightarrow> heap_len (np_time_out w s) = heap_len s - 1"
proof -
  let ?r = "nurl__np_heap_remove w s" and ?t = "np_time_out w s"
  have h: "np_arr ?t = np_arr ?r" "heap_len ?t = heap_len ?r" "heap_idx ?t = heap_idx ?r" "deadline_ms ?t = deadline_ms ?r" "wt_result ?t = (wt_result ?r)(w := 0)"
    by (simp_all add: np_time_out_def nurl__np_chain_remove_def Let_def split: option.split)
  have "np_key ?t = np_key ?r" "np_members ?t = np_members ?r" by (auto simp: np_key_def np_members_def h)
  then have "np_ok ?t = np_ok ?r" by (simp add: np_ok_def np_idx_ok_def np_ordered_def np_below_def h)
  then show "np_ok ?t" "np_members ?t = np_members s - {w}" "deadline_ms ?t = deadline_ms s" "wt_result ?t = (wt_result s)(w := 0)"
    "w \<in> np_members s \<Longrightarrow> heap_len ?t = heap_len s - 1"
    using np_remove_ok [OF assms, of w] \<open>np_members ?t = np_members ?r\<close> by (simp_all add: h np_rest_def)
qed

lemma np_expire_ok:
  assumes "np_ok s"
  shows "\<exists>ws s'. nurl__np_expire_locked now batch s = Some (rev ws @ batch, s') \<and> np_ok s' \<and> set ws = {w \<in> np_members s. deadline_ms s w \<le> now} \<and>
    distinct ws \<and> sorted (map (deadline_ms s) ws) \<and> np_members s' = {w \<in> np_members s. now < deadline_ms s w} \<and>
    (\<forall>w. wt_result s' w = (if w \<in> set ws then 0 else wt_result s w))"
  using assms
proof (induction "heap_len s" arbitrary: s batch)
  case 0
  then have "np_members s = {}" using np_top by fastforce
  then show ?case using 0 by (subst nurl__np_expire_locked.simps) auto
next
  case (Suc n)
  let ?w = "np_arr s ! 0"
  have i: "np_idx_ok s" using Suc.prems by (simp add: np_ok_def)
  have wm: "?w \<in> np_members s" by (rule np_in_arr [OF i]) (use Suc.hyps(2) in simp)
  have least: "deadline_ms s ?w \<le> deadline_ms s v" if "v \<in> np_members s" for v using np_top [OF Suc.prems that] by (simp add: np_key_def)
  show ?case
  proof (cases "deadline_ms s ?w \<le> now")
    case False
    then have "{w \<in> np_members s. deadline_ms s w \<le> now} = {}" "{w \<in> np_members s. now < deadline_ms s w} = np_members s" using least by fastforce+
    then show ?thesis using False Suc.prems by (subst nurl__np_expire_locked.simps) (simp add: np_key_def)
  next
    case True
    let ?t = "np_time_out ?w s"
    note t = np_time_out_ok [OF Suc.prems, of ?w]
    have "n = heap_len ?t" using t(5) [OF wm] Suc.hyps(2) by simp
    then obtain ws s' where e: "nurl__np_expire_locked now (?w # batch) ?t = Some (rev ws @ ?w # batch, s')" "np_ok s'"
      "set ws = {w \<in> np_members ?t. deadline_ms ?t w \<le> now}" "distinct ws" "sorted (map (deadline_ms ?t) ws)"
      "np_members s' = {w \<in> np_members ?t. now < deadline_ms ?t w}" "\<forall>w. wt_result s' w = (if w \<in> set ws then 0 else wt_result ?t w)"
      using Suc.hyps(1) [of ?t "?w # batch"] t(1) by blast
    have x: "nurl__np_expire_locked now batch s = Some (rev (?w # ws) @ batch, s')"
      unfolding nurl__np_expire_locked.simps [of now batch s] np_key_def using True Suc.hyps(2) e(1) by simp
    have ws: "set ws = {w \<in> np_members s - {?w}. deadline_ms s w \<le> now}" using e(3) t(2,3) by simp
    have "set (?w # ws) = {w \<in> np_members s. deadline_ms s w \<le> now}" "distinct (?w # ws)" using ws wm True e(4) by auto
    moreover have "sorted (map (deadline_ms s) (?w # ws))" using e(5) least ws unfolding t(3) by simp
    moreover have "np_members s' = {w \<in> np_members s. now < deadline_ms s w}" unfolding e(6) t(2,3) using True by auto
    moreover have "\<forall>w. wt_result s' w = (if w \<in> set (?w # ws) then 0 else wt_result s w)" using e(7) unfolding t(4) by simp
    ultimately show ?thesis using x e(2) by (intro exI [of _ "?w # ws"] exI [of _ s']) simp
  qed
qed

text \<open>C40. The timer heap keeps its order and every wait its own position through any insertions and removals, wherever the wait is. Its first entry is a
  wait with the earliest deadline; a push adds exactly the wait, unless the array is full and memory is short, when nothing changes; a removal takes exactly the wait
  out. A polling pass ends and times out exactly the waits whose deadline has come, each once and earliest first.\<close>

theorem timer_heap:
  assumes "np_ok s"
  shows "(\<forall>v \<in> np_members s. deadline_ms s (np_arr s ! 0) \<le> deadline_ms s v) \<and>
    (w \<notin> np_members s \<longrightarrow> np_ok (nurl__np_heap_push granted w s) \<and>
      np_members (nurl__np_heap_push granted w s) = (if granted \<or> heap_len s < length (np_arr s) then insert w (np_members s) else np_members s)) \<and>
    np_ok (nurl__np_heap_remove w s) \<and> np_members (nurl__np_heap_remove w s) = np_members s - {w} \<and>
    (\<exists>ws s'. nurl__np_expire_locked now batch s = Some (rev ws @ batch, s') \<and> np_ok s' \<and> set ws = {w \<in> np_members s. deadline_ms s w \<le> now} \<and>
      distinct ws \<and> sorted (map (deadline_ms s) ws) \<and> np_members s' = {w \<in> np_members s. now < deadline_ms s w} \<and> (\<forall>w \<in> set ws. wt_result s' w = 0))"
proof (intro conjI impI)
  show "\<forall>v \<in> np_members s. deadline_ms s (np_arr s ! 0) \<le> deadline_ms s v" using np_top [OF assms] by (simp add: np_key_def)
  have full: "nurl__np_heap_push granted w s = s" if "\<not> (granted \<or> heap_len s < length (np_arr s))"
    using that assms by (auto simp: nurl__np_heap_push_def np_grow_def np_ok_def np_idx_ok_def Let_def)
  show "np_ok (nurl__np_heap_push granted w s)"
    "np_members (nurl__np_heap_push granted w s) = (if granted \<or> heap_len s < length (np_arr s) then insert w (np_members s) else np_members s)" if "w \<notin> np_members s"
    using np_push_ok [OF assms that] full assms by (cases "granted \<or> heap_len s < length (np_arr s)"; simp)+
  show "np_ok (nurl__np_heap_remove w s)" "np_members (nurl__np_heap_remove w s) = np_members s - {w}" by (rule np_remove_ok [OF assms])+
  show "\<exists>ws s'. nurl__np_expire_locked now batch s = Some (rev ws @ batch, s') \<and> np_ok s' \<and> set ws = {w \<in> np_members s. deadline_ms s w \<le> now} \<and>
      distinct ws \<and> sorted (map (deadline_ms s) ws) \<and> np_members s' = {w \<in> np_members s. now < deadline_ms s w} \<and> (\<forall>w \<in> set ws. wt_result s' w = 0)"
    using np_expire_ok [OF assms, of now batch] by (metis (lifting))
qed

definition np_three :: np_heap where
  "np_three = \<lparr>np_arr = [7, 5, 9, 0], heap_len = 3, deadline_ms = (\<lambda>w. if w = 7 then 10 else if w = 5 then 40 else 20),
    heap_idx = (\<lambda>w. -1)(7 := 0, 5 := 1, 9 := 2), wt_fd = (\<lambda>_. -1), wt_result = (\<lambda>_. 1), mutex_park = (\<lambda>_. False), wt_fiber = (\<lambda>_. None),
    timed_park = (\<lambda>_. None), np_chain = (\<lambda>_. [])\<rparr>"

lemma np_three_ok: "np_ok np_three" "np_members np_three = {7, 5, 9}"
proof -
  show m: "np_members np_three = {7, 5, 9}" by (auto simp: np_members_def np_three_def)
  have s: "j < 3 \<longleftrightarrow> j = 0 \<or> j = 1 \<or> j = 2" for j :: nat by auto
  have "np_idx_ok np_three" unfolding np_idx_ok_def m by (simp add: np_three_def s)
  moreover have "np_ordered np_three" by (simp add: np_ordered_def np_below_def np_key_def np_three_def s par_def)
  ultimately show "np_ok np_three" by (simp add: np_ok_def)
qed

theorem timer_heap_witness:
  "\<exists>ws s'. nurl__np_expire_locked 25 [] np_three = Some (rev ws, s') \<and> set ws = {7, 9} \<and> np_members s' = {5}"
proof -
  have "{w \<in> np_members np_three. deadline_ms np_three w \<le> 25} = {7, 9}" "{w \<in> np_members np_three. 25 < deadline_ms np_three w} = {5}"
    unfolding np_three_ok(2) by (auto simp: np_three_def)
  then show ?thesis using timer_heap [OF np_three_ok(1), of 0 True 25 "[]"] by auto
qed

end
