(* ===== verification/Spec2Isabelle.thy ===== *)
theory Spec2Isabelle
  imports PageAlloc BareProps BareRw VfsProps JournalProps CycleProps NlNumProofs NlMallocProps SendCheck NlEnv MultibootProps NlStdioRead NlPrintf FdtProps OutBufProps UdpAddrProps WasmAllocProps TimerHeap
begin

text \<open>
  A verification library for the C runtime of NURL, a compiled language with reference counted and
  owned values. The compiler is written in NURL itself; what is C is the runtime a program is
  linked with, in parts that this library follows:

  \<^item> the hosted core, \<^verbatim>\<open>src/stdlib/runtime_core.c\<close>: memory, panics, printing, threads' checks;
  \<^item> what surrounds it for a host: of \<^verbatim>\<open>src/stdlib/runtime_ffi.c\<close> the text form of addresses and the timer heap, and the locked heap of a threaded
    WebAssembly program, \<^verbatim>\<open>src/stdlib/runtime_wasm_alloc.c\<close>;
  \<^item> the guest, \<^verbatim>\<open>src/unikernel/\<close>: a program and its runtime as a machine image. It has a page
    allocator, a C library of its own (\<^verbatim>\<open>nolibc\<close>), a cooperative scheduler in the place of threads,
    and a file surface over an archive in the image and an optional disk.

  They meet as follows. A guest program's \<open>malloc\<close> (\<^verbatim>\<open>nolibc/malloc.c\<close>) takes pages from the page
  allocator through \<open>nl_map\<close> and \<open>nl_unmap\<close> of the platform. The core's \<open>nurl_free\<close> tells the panic
  journal, which must not release a block a second time. The drop code the compiler emits calls
  the core and the cycle collector, which defers releases while it walks. The scheduler exchanges a coroutine's
  recovery state when it switches, and the file calls of the C library end in the platform's
  descriptor calls, which ask the union of archive and disk.

  \<^bold>\<open>The theories\<close>

  \<^item> Prelude: words, byte memory, rounding, spans, insertion and removal in a fixed array.
  \<^item> PageAlloc: \<^verbatim>\<open>boot/pagealloc.c\<close>, all of it, at 64 bits. \<open>pa_state\<close> is the file's statics;
    \<open>pa_alloc\<close>, \<open>pa_free\<close>, \<open>pa_stats\<close> the entries. Against a ghost list of the ranges that clients hold:
    ranges are disjoint, every byte is accounted for, what is given back is whole again, the choice is best fit.
  \<^item> BareQueue, BareSched, BareInv, BareProps, BareRw: \<^verbatim>\<open>runtime_bare.c\<close>. BareQueue proves that head, tail and \<open>next\<close>
    implement lists; the others use lists. BareSched has the whole state \<open>nb\<close> and every operation; BareInv the
    invariant that a coroutine is in at most one place, kept by every operation and so by any run of
    clients; BareProps the consequences (deadlock verdict, permits, timers, joiners, condition
    variables); BareRw reader-writer locks: exclusion, the grant, nobody left behind.
  \<^item> Paths, Initfs: \<^verbatim>\<open>boot/initfs.c\<close>, all of it. Paths is the specification of path folding. A packed file is
    found and read back, a listing is complete, and no image, however corrupt, makes a read leave it.
  \<^item> Vfs, VfsProps: \<^verbatim>\<open>boot/vfs.c\<close> and the descriptor calls of \<^verbatim>\<open>boot/platform_x86.c\<close>: resolution
    refines Paths, the image is not shadowed, no write without a disk, and the places where the
    code departs from its comments.
  \<^item> Probe, Journal, JournalInv, JournalOps, JournalProps: the panic journal, panic and recover of
    \<^verbatim>\<open>runtime_core.c\<close>. Probe is linear probing in general. The hash index implements a list of
    registrations; a drain releases each block of the extent once; an extent restores its caller's state.
  \<^item> CycleColl, CycleProofs, CycleProps: the cycle collector of \<^verbatim>\<open>runtime_core.c\<close>. Trial
    deletion ends, collects exactly what nothing outside reaches, restores every other count.
  \<^item> NlString, NlMemProofs, NlStrProofs, NlNumProofs: \<^verbatim>\<open>nolibc/string.c\<close>. The word-at-a-time loops equal their
    byte-wise meaning; scans stop at the terminator; comparison, search, bounded copy, numbers.
  \<^item> SendCheck: the check of values that cross a thread, of \<^verbatim>\<open>runtime_core.c\<close>. Over any nested walk a block answers 1 the
    first time only, and the end of a walk panics exactly for a block with an owner the walk did not meet.
  \<^item> NlMalloc, NlMallocInv, NlMallocProofs, NlMallocProps: \<^verbatim>\<open>nolibc/malloc.c\<close> over PageAlloc. Blocks are
    disjoint and aligned, free lists hold what was freed, contents survive \<open>realloc\<close>.
  \<^item> CmdLine, CmdLineProps, NlEnv: the guest's command line, \<^verbatim>\<open>boot/cmdenv.c\<close> and \<open>build_argv\<close> and \<open>cmdline_u64\<close> of
    \<^verbatim>\<open>boot/platform_x86.c\<close>, and the environment of \<^verbatim>\<open>nolibc/misc.c\<close>. The parsers stay in their buffers and yield
    the assignments and arguments of the line; \<open>getenv\<close>, \<open>setenv\<close> and \<open>unsetenv\<close> implement a list of entries.
  \<^item> Multiboot, MultibootProps: \<^verbatim>\<open>boot/multiboot2.c\<close>. The start information carries exactly what a well-formed stream of
    tags says; a map that is empty or too long is refused; where the 32-bit bounds test wraps, the walk need not end.
  \<^item> Dtoa, DtoaProofs, DtoaProps: \<^verbatim>\<open>nolibc/dtoa.c\<close>. Limbs denote numbers, the digits are the exact expansion of the double,
    and \<open>%f\<close>, \<open>%e\<close> and \<open>%g\<close> print it correctly rounded.
  \<^item> NlStdio, NlStdioProps, NlStdioRead, NlPrintf: \<^verbatim>\<open>nolibc/stdio.c\<close> over the descriptor calls of Vfs. A writing stream is a log,
    a reading one a file from a position on, and \<open>fprintf\<close> appends the text that its format stands for.
  \<^item> Fdt, FdtProps: \<^verbatim>\<open>boot/fdt.c\<close>. From a well-formed device tree the walk takes the memory, the devices and the command line that the
    tree states; from any bytes whatever it ends and stays in its arrays.
  \<^item> OutBuf, OutBufProps: printing and output capture of \<^verbatim>\<open>runtime_core.c\<close>. Nested captures over one growing buffer are a stack of texts.
  \<^item> UdpAddr, UdpAddrProps: the text form of datagram addresses of \<^verbatim>\<open>runtime_ffi.c\<close>. Parsing undoes printing, in both families.
  \<^item> TimerHeap: the timer heap of the netpoller in \<^verbatim>\<open>runtime_ffi.c\<close>, with the expiry of a pass. Order and positions are kept, and a pass times out
    exactly the waits that are due.
  \<^item> WasmLock, WasmAlloc, WasmAllocProps: \<^verbatim>\<open>runtime_wasm_alloc.c\<close>. WasmLock interleaves the instructions of its mutex: exclusion and no
    lost wakeup. Under that lock a call of the allocator is one step: blocks are disjoint, neighbours are joined, bytes are accounted for.

  \<^bold>\<open>Interfaces\<close>

  The locales state what one part asks of another, and each is interpreted on the code's model: \<open>coro_queue\<close> (BareQueue) on the
  pointer queues, \<open>page_source\<close> (NlMallocInv) on the page allocator, \<open>hashed\<close> (Probe) on the drain's record and on the table of the crossing
  check, \<open>drop_code\<close> (JournalProps) on the runtime's frame dropper, \<open>byte_sink\<close> (NlStdioProps) on the guest's console and \<open>byte_source\<close>
  (NlStdioRead) on the open files of the image.

  \<^bold>\<open>Conventions\<close>

  State is a record, passed and returned. Machine integers are words where the code relies on their
  width or where a comparison could wrap (addresses and sizes of the page allocator, archive headers, hashes, bytes); where a
  quantity is bounded by the memory it indexes it is a natural number. An address is a natural or a 64-bit word with zero the null pointer.
  An error is the code's own return value with \<open>errno\<close> in the state. A loop whose end is
  not plain from its arguments is a partial function into \<open>option\<close>: \<open>None\<close> is a loop that never
  ends, an access to unmapped memory, or an abort, and the theorems show that the result is \<open>Some\<close>.
  Fuel is used only by the two directory listings of Vfs, one round for each record or skipped name, as the disk is
  a parameter that need not come to an end.

  Parameters stand for code that is not C source of the runtime: the body of a coroutine (one
  state transformer from being switched to until switching back), the platform's clock and sleep, the
  disk driver (\<open>disk_ops\<close>, written in NURL), compiled drop and trace code (\<open>dropper\<close>, \<open>DV\<close>, \<open>kids\<close>).

  \<^bold>\<open>Not modelled\<close>

  The rest of \<^verbatim>\<open>runtime_core.c\<close>: the RSA and TLS primitives and the tables generated into it, the small
  object cache, closures, string and number conversion through the host's library, atomics-based shared ownership (its interleavings
  need a memory model), processor detection, executable pages. The rest of \<^verbatim>\<open>runtime_ffi.c\<close>, and \<^verbatim>\<open>runtime_ctx.c\<close>: wrappers of the host's
  sockets, processes, event queues and contexts. Devices, page tables and the consoles under \<^verbatim>\<open>unikernel/boot\<close>. Floating point
  arithmetic (\<^verbatim>\<open>nolibc/math.c\<close>), \<open>realpath\<close> and temporary names (\<^verbatim>\<open>nolibc/misc.c\<close>) and the Linux system call layer of the C library. In
  \<^verbatim>\<open>vfs.c\<close>, the copy of a file into fresh pages and the dispatch by system call number. Running out of memory, where the code aborts.

  \<^bold>\<open>What could follow\<close>

  The small object cache and the closures of the core, the fiber scheduler of \<^verbatim>\<open>runtime_ffi.c\<close>, and \<open>vfs_map_file\<close> are
  plain C over memory and would fit the same treatment; the rest listed above is hardware, operating system or generated code.
\<close>

end
